(* ===== verification/Prelude.thy ===== *)
theory Prelude
  imports Main "HOL-Library.Word"
begin

text \<open>
  Shared ground of the development: the byte and memory model (a C object is a list of
  cells, an uninitialised byte is \<open>None\<close>), C strings, little-endian integers, C library
  functions on characters that several components call, and the generic list lemmas the
  component proofs rest on.

  Conventions used everywhere:
  \<^item> a function that can run into undefined behaviour of C (a read or write outside an
    object, a read of an indeterminate byte, a dereferenced null or dangling pointer, a
    failing \<open>assert\<close>) returns an \<open>option\<close>, and \<open>None\<close> is that outcome;
  \<^item> unsigned integers are \<open>nat\<close> with the wrap-around written out (or words where bits
    matter), signed integers are \<open>int\<close>;
  \<^item> a \<open>char *\<close> that the code uses as a C string is the list of its bytes before the
    terminating zero.
\<close>

section \<open>Collections of facts\<close>

named_theorems cmem "reads, writes and moves on C memory objects"
named_theorems cdefs "definitions of the small inline helpers of the sources"

section \<open>Machine types\<close>

type_synonym byte = "8 word"
type_synonym bytes = "byte list"
type_synonym cell = "byte option"
type_synonym cmemory = "cell list"

abbreviation INT16_MIN :: int where "INT16_MIN \<equiv> - 32768"
abbreviation INT16_MAX :: int where "INT16_MAX \<equiv> 32767"
abbreviation INT32_MIN :: int where "INT32_MIN \<equiv> - 2147483648"
abbreviation INT32_MAX :: int where "INT32_MAX \<equiv> 2147483647"
abbreviation INT64_MIN :: int where "INT64_MIN \<equiv> - 9223372036854775808"
abbreviation INT64_MAX :: int where "INT64_MAX \<equiv> 9223372036854775807"
abbreviation UINT64_MAX :: nat where "UINT64_MAX \<equiv> 18446744073709551615"

text \<open>Conversion to \<open>uint32_t\<close> and to \<open>int\<close> (two's complement).\<close>

definition u32 :: "nat \<Rightarrow> nat" where
  "u32 n = n mod 4294967296"

definition s32 :: "int \<Rightarrow> int" where
  "s32 i = (i + 2147483648) mod 4294967296 - 2147483648"

lemma u32_id [simp]: "n < 4294967296 \<Longrightarrow> u32 n = n"
  by (simp add: u32_def)

lemma u32_sub: "p \<le> n \<Longrightarrow> n < 4294967296 \<Longrightarrow> u32 (n + 4294967296 - p) = n - p"
proof -
  assume "p \<le> n" "n < 4294967296"
  then have "n + 4294967296 - p = (n - p) + 4294967296" "n - p < 4294967296" by linarith+
  then show ?thesis unfolding u32_def by (metis mod_add_self2 mod_less)
qed

lemma u32_bound: "u32 n < 4294967296"
  by (simp add: u32_def)

lemma s32_id [simp]: "INT32_MIN \<le> i \<Longrightarrow> i \<le> INT32_MAX \<Longrightarrow> s32 i = i"
  by (simp add: s32_def)

lemma s32_bounds: "INT32_MIN \<le> s32 i \<and> s32 i \<le> INT32_MAX"
  by (simp add: s32_def)

section \<open>Bytes and character classes of the C locale\<close>

text \<open>String literals of the sources, byte by byte.\<close>

definition lit :: "string \<Rightarrow> bytes" where
  "lit s = map of_char s"

text \<open>A \<open>char\<close> is signed on the platforms of the sources.\<close>

definition schar :: "byte \<Rightarrow> int" where
  "schar b = sint b"

definition isspace :: "byte \<Rightarrow> bool" where
  "isspace b \<longleftrightarrow> b = 32 \<or> (9 \<le> b \<and> b \<le> 13)"

definition isdigit :: "byte \<Rightarrow> bool" where
  "isdigit b \<longleftrightarrow> 48 \<le> b \<and> b \<le> 57"

definition isprint :: "byte \<Rightarrow> bool" where
  "isprint b \<longleftrightarrow> 32 \<le> b \<and> b \<le> 126"

definition tolower :: "byte \<Rightarrow> byte" where
  "tolower b = (if 65 \<le> b \<and> b \<le> 90 then b + 32 else b)"

definition toupper :: "byte \<Rightarrow> byte" where
  "toupper b = (if 97 \<le> b \<and> b \<le> 122 then b - 32 else b)"

lemma tolower_idem [simp]: "tolower (tolower b) = tolower b"
proof (cases "65 \<le> b \<and> b \<le> 90")
  case True
  then have "65 \<le> unat b" "unat b \<le> 90"
    by (simp_all add: word_le_nat_alt)
  then have "unat (b + 32) = unat b + 32"
    by (simp add: unat_word_ariths)
  with \<open>65 \<le> unat b\<close> have "\<not> (b + 32 \<le> 90)"
    by (simp add: word_le_nat_alt)
  with True show ?thesis by (simp add: tolower_def)
next
  case False
  then show ?thesis by (simp add: tolower_def)
qed

text \<open>\<open>strchr\<close> on a C string: the part before the first occurrence and the part from it.\<close>

definition strchr :: "bytes \<Rightarrow> byte \<Rightarrow> (bytes \<times> bytes) option" where
  "strchr s c = (if c \<in> set s then Some (takeWhile (\<lambda>b. b \<noteq> c) s, dropWhile (\<lambda>b. b \<noteq> c) s) else None)"

text \<open>A C string well formed: no zero byte inside.\<close>

definition cstring :: "bytes \<Rightarrow> bool" where
  "cstring s \<longleftrightarrow> 0 \<notin> set s"

text \<open>The read of one byte of an initialised object.\<close>

definition rd :: "bytes \<Rightarrow> nat \<Rightarrow> byte option" where
  "rd b i = (if i < length b then Some (b ! i) else None)"

lemma rd_less [termination_simp]: "rd b i = Some c \<Longrightarrow> i < length b"
  by (simp add: rd_def split: if_splits)

section \<open>Decimal numbers\<close>

text \<open>The digits a conversion such as \<open>%d\<close> or \<open>%llu\<close> prints, most significant first.\<close>

definition digit_byte :: "nat \<Rightarrow> byte" where
  "digit_byte d = of_nat (48 + d)"

fun dec_nat :: "nat \<Rightarrow> bytes" where
  "dec_nat n = (if n < 10 then [digit_byte n] else dec_nat (n div 10) @ [digit_byte (n mod 10)])"

declare dec_nat.simps [simp del]

definition dec_int :: "int \<Rightarrow> bytes" where
  "dec_int i = (if i < 0 then 45 # dec_nat (nat (- i)) else dec_nat (nat i))"

text \<open>The value of a string of digits, as the accumulating loops of the sources compute it.\<close>

definition digit_val :: "byte \<Rightarrow> nat" where
  "digit_val b = unat b - 48"

definition dec_val :: "bytes \<Rightarrow> nat" where
  "dec_val ds = foldl (\<lambda>v d. 10 * v + digit_val d) 0 ds"

lemma unat_digit_byte [simp]: "d < 10 \<Longrightarrow> unat (digit_byte d) = 48 + d"
proof -
  assume "d < 10"
  then have "48 + d < 256" by simp
  then show ?thesis unfolding digit_byte_def by (simp add: unat_of_nat del: of_nat_add)
qed

lemma isdigit_digit_byte [simp]: "d < 10 \<Longrightarrow> isdigit (digit_byte d)"
  by (simp add: isdigit_def word_le_nat_alt)

lemma digit_val_digit_byte [simp]: "d < 10 \<Longrightarrow> digit_val (digit_byte d) = d"
  by (simp add: digit_val_def)

lemma dec_val_snoc [simp]: "dec_val (ds @ [d]) = 10 * dec_val ds + digit_val d"
  by (simp add: dec_val_def)

lemma dec_val_dec_nat [simp]: "dec_val (dec_nat n) = n"
proof (induction n rule: dec_nat.induct)
  case (1 n)
  show ?case
  proof (cases "n < 10")
    case True
    then show ?thesis by (subst dec_nat.simps) (simp add: dec_val_def)
  next
    case False
    with 1 show ?thesis by (subst dec_nat.simps) simp
  qed
qed

lemma dec_nat_digits: "\<forall>b \<in> set (dec_nat n). isdigit b"
proof (induction n rule: dec_nat.induct)
  case (1 n)
  show ?case
  proof (cases "n < 10")
    case True
    then show ?thesis by (subst dec_nat.simps) (simp)
  next
    case False
    with 1 show ?thesis by (subst dec_nat.simps) auto
  qed
qed

lemma dec_nat_nonempty [simp]: "dec_nat n \<noteq> []"
  by (subst dec_nat.simps) simp

section \<open>Memory objects\<close>

definition mem_read :: "cmemory \<Rightarrow> nat \<Rightarrow> nat \<Rightarrow> bytes option" where
  "mem_read m off n =
     (if off + n \<le> length m \<and> None \<notin> set (take n (drop off m))
      then Some (map the (take n (drop off m))) else None)"

definition mem_write :: "cmemory \<Rightarrow> nat \<Rightarrow> bytes \<Rightarrow> cmemory option" where
  "mem_write m off bs =
     (if off + length bs \<le> length m
      then Some (take off m @ map Some bs @ drop (off + length bs) m) else None)"

text \<open>\<open>memmove(m + dst, m + src, n)\<close>\<close>

definition mem_move :: "cmemory \<Rightarrow> nat \<Rightarrow> nat \<Rightarrow> nat \<Rightarrow> cmemory option" where
  "mem_move m dst src n =
     (if dst + n \<le> length m \<and> src + n \<le> length m
      then Some (take dst m @ take n (drop src m) @ drop (dst + n) m) else None)"

text \<open>\<open>realloc\<close>: new bytes are indeterminate.\<close>

definition mem_resize :: "cmemory \<Rightarrow> nat \<Rightarrow> cmemory" where
  "mem_resize m n = take n m @ replicate (n - length m) None"

lemma mem_read_at [cmem]:
  "length as = off \<Longrightarrow> length bs = n \<Longrightarrow> mem_read (as @ map Some bs @ cs) off n = Some bs"
  by (auto simp: mem_read_def)

lemma mem_write_at [cmem]:
  "length as = off \<Longrightarrow> length ds = length bs \<Longrightarrow>
     mem_write (as @ ds @ cs) off bs = Some (as @ map Some bs @ cs)"
  by (auto simp: mem_write_def)

text \<open>Opening a gap: move the tail \<open>bs\<close> up by the length of the free cells \<open>ns\<close> at the end, then
  fill the gap.\<close>

lemma mem_move_write_gap:
  assumes "length ns = length xs"
  shows "\<exists>m. mem_move (as @ bs @ ns) (length as + length xs) (length as) (length bs) = Some m \<and>
     mem_write m (length as) xs = Some (as @ map Some xs @ bs)"
proof -
  let ?m = "take (length as + length xs) (as @ bs @ ns) @ bs"
  have "mem_move (as @ bs @ ns) (length as + length xs) (length as) (length bs) = Some ?m"
    using assms by (simp add: mem_move_def)
  moreover have "take (length as) ?m = as" by simp
  moreover have "drop (length as + length xs) ?m = bs" using assms by simp
  ultimately show ?thesis using assms by (simp add: mem_write_def)
qed

text \<open>Closing a gap: move the tail \<open>bs\<close> down over \<open>ds\<close> and give the freed cells back.\<close>

lemma mem_move_close_gap:
  "\<exists>m. mem_move (as @ ds @ bs) (length as) (length as + length ds) (length bs) = Some m \<and>
     mem_resize m (length as + length bs) = as @ bs"
  by (simp add: mem_move_def mem_resize_def)

lemma mem_resize_grow [simp]: "mem_resize m (length m + n) = m @ replicate n None"
  by (simp add: mem_resize_def)

section \<open>Little-endian integers\<close>

fun le_enc :: "nat \<Rightarrow> int \<Rightarrow> bytes" where
  "le_enc 0 v = []"
| "le_enc (Suc n) v = word_of_int v # le_enc n (v div 256)"

fun le_dec :: "bytes \<Rightarrow> int" where
  "le_dec [] = 0"
| "le_dec (b # bs) = uint b + 256 * le_dec bs"

text \<open>The signed reading of \<open>n\<close> bytes (\<open>n > 0\<close>).\<close>

definition le_sdec :: "bytes \<Rightarrow> int" where
  "le_sdec bs = (let v = le_dec bs; h = 2 ^ (8 * length bs - 1) in if v < h then v else v - 2 * h)"

lemma length_le_enc [simp]: "length (le_enc n v) = n"
  by (induction n arbitrary: v) auto

lemma le_dec_bound: "0 \<le> le_dec bs \<and> le_dec bs < 256 ^ length bs"
proof (induction bs)
  case (Cons b bs)
  have "0 \<le> uint b" "uint b < 256" using uint_lt2p [of b] by auto
  with Cons show ?case by auto
qed simp

lemma le_dec_enc: "le_dec (le_enc n v) = v mod 256 ^ n"
proof (induction n arbitrary: v)
  case (Suc n)
  have "le_dec (le_enc (Suc n) v) = v mod 256 + 256 * (v div 256 mod 256 ^ n)"
    using Suc by (simp add: uint_word_of_int)
  also have "\<dots> = v mod (256 * 256 ^ n)" by (simp add: zmod_zmult2_eq)
  finally show ?case by simp
qed simp

definition fits_bytes :: "nat \<Rightarrow> int \<Rightarrow> bool" where
  "fits_bytes n v \<longleftrightarrow> - (2 ^ (8 * n - 1)) \<le> v \<and> v < 2 ^ (8 * n - 1)"

lemma le_sdec_enc:
  assumes "0 < n" and "fits_bytes n v"
  shows "le_sdec (le_enc n v) = v"
proof -
  let ?h = "2 ^ (8 * n - 1) :: int"
  have h: "256 ^ n = 2 * ?h"
  proof -
    have "(256 :: int) ^ n = 2 ^ (8 * n)" by (simp add: power_mult)
    also have "8 * n = Suc (8 * n - 1)" using assms(1) by simp
    finally show ?thesis by (simp del: power_Suc add: power_Suc [symmetric])
  qed
  have v: "- ?h \<le> v" "v < ?h" using assms(2) by (auto simp: fits_bytes_def)
  have d: "le_dec (le_enc n v) = v mod (2 * ?h)" by (simp add: le_dec_enc h)
  show ?thesis
  proof (cases "0 \<le> v")
    case True
    then have "v mod (2 * ?h) = v" using v by (intro mod_pos_pos_trivial) auto
    with v d show ?thesis by (simp add: le_sdec_def Let_def)
  next
    case False
    have "v mod (2 * ?h) = (v + 2 * ?h) mod (2 * ?h)" by simp
    also have "\<dots> = v + 2 * ?h" using v False by (intro mod_pos_pos_trivial) auto
    finally show ?thesis using v False d by (simp add: le_sdec_def Let_def)
  qed
qed

section \<open>64-bit counters\<close>

text \<open>\<open>PORT_ULONG\<close> counters are 64 bits wide.\<close>

definition ulong_inc :: "nat \<Rightarrow> nat" where "ulong_inc n = (n + 1) mod 2 ^ 64"

definition ulong_dec :: "nat \<Rightarrow> nat" where "ulong_dec n = (n + (2 ^ 64 - 1)) mod 2 ^ 64"

lemma ulong_inc_id [simp]: "Suc n < 2 ^ 64 \<Longrightarrow> ulong_inc n = Suc n"
  by (simp add: ulong_inc_def)

lemma ulong_dec_id [simp]: "n < 2 ^ 64 \<Longrightarrow> ulong_dec (Suc n) = n"
  by (simp add: ulong_dec_def)

end
