(* ===== verification/CHash.thy ===== *)
theory CHash
  imports Prelude "HOL-Library.Monad_Syntax"
begin

text \<open>
  The string hash table of \<open>common/src/hash.c\<close>: a fixed array of chains from C strings to
  C strings, used by the configuration reader of \<open>comProfileutil.c\<close> for the keys of one
  section, and its dump into a growing buffer (\<open>hash_string\<close>).

  The chains are lists of nodes, newest first, as \<open>hash_add\<close> links them. Every allocation the
  code checks is an argument of the model: \<open>np_ok\<close>, \<open>key_ok\<close>, \<open>val_ok\<close> say whether
  \<open>malloc\<close> and the two calls of \<open>strdup\<close> succeed, \<open>cap\<close> is the largest block
  \<open>malloc\<close> and \<open>realloc\<close> grant to the dump buffer.

  The lemmas show the bucket invariant, that the table is a map (interpretation of
  \<open>section_store\<close>), what the dump contains, and exactly when the dump writes one byte past
  its buffer.
\<close>

section \<open>Data\<close>

record nlist =
  nl_key :: bytes
  nl_value :: "bytes option"  \<comment> \<open>\<open>None\<close>: the value pointer is null\<close>

record hash =
  hashtab :: "nlist list list"
  hsize :: int

section \<open>Operations\<close>

text \<open>A negative size asks \<open>malloc\<close> for more than the address space; the result is not
  checked and \<open>memset\<close> runs on a null pointer.\<close>

definition hash_new :: "int \<Rightarrow> hash option" where
  "hash_new sz =
     (if sz < 0 then None else Some \<lparr>hashtab = replicate (nat sz) [], hsize = sz\<rparr>)"

fun hashval_loop :: "32 word \<Rightarrow> bytes \<Rightarrow> 32 word" where
  "hashval_loop hashval [] = hashval"
| "hashval_loop hashval (c # s) = hashval_loop (word_of_int (schar c) + 21 * hashval) s"

definition hashfunc :: "hash \<Rightarrow> bytes \<Rightarrow> nat option" where
  "hashfunc h s =
     (if hsize h = 0 then None
      else Some (unat (hashval_loop 0 s mod word_of_int (hsize h))))"

fun chain_find :: "nlist list \<Rightarrow> bytes \<Rightarrow> nlist option" where
  "chain_find [] s = None"
| "chain_find (np # nps) s = (if nl_key np = s then Some np else chain_find nps s)"

definition hash_lookup :: "hash \<Rightarrow> bytes \<Rightarrow> nlist option option" where
  "hash_lookup h s = do {
     i \<leftarrow> hashfunc h s;
     if i < length (hashtab h) then Some (chain_find (hashtab h ! i) s) else None
   }"

text \<open>Store a value through the node pointer that \<open>hash_lookup\<close> returned.\<close>

fun chain_set :: "nlist list \<Rightarrow> bytes \<Rightarrow> bytes option \<Rightarrow> nlist list" where
  "chain_set [] s v = []"
| "chain_set (np # nps) s v =
     (if nl_key np = s then np\<lparr>nl_value := v\<rparr> # nps else np # chain_set nps s v)"

definition hash_add ::
  "bool \<Rightarrow> bool \<Rightarrow> bool \<Rightarrow> hash \<Rightarrow> bytes \<Rightarrow> bytes \<Rightarrow> (nlist option \<times> hash) option" where
  "hash_add np_ok key_ok val_ok h key val = do {
     found \<leftarrow> hash_lookup h key;
     i \<leftarrow> hashfunc h key;
     let v = (if val_ok then Some val else None);
     case found of
       None \<Rightarrow>
         (if \<not> np_ok \<or> \<not> key_ok then Some (None, h)
          else let np = \<lparr>nl_key = key, nl_value = v\<rparr>
               in Some (if val_ok then Some np else None,
                        h\<lparr>hashtab := (hashtab h)[i := np # hashtab h ! i]\<rparr>))
     | Some np \<Rightarrow>
         Some (if val_ok then Some (np\<lparr>nl_value := v\<rparr>) else None,
               h\<lparr>hashtab := (hashtab h)[i := chain_set (hashtab h ! i) key v]\<rparr>)
   }"

text \<open>\<open>memset(h->hashtab, 0, sizeof(h->hashtab))\<close>: \<open>hashtab\<close> is a pointer, so 8 bytes are
  cleared, which is the first chain head only. The array has 24 bytes per bucket.\<close>

definition hash_empty :: "hash \<Rightarrow> hash option" where
  "hash_empty h = (if hashtab h = [] then None else Some (h\<lparr>hashtab := (hashtab h)[0 := []]\<rparr>))"

datatype freed = FreeKey bytes | FreeValue bytes | FreeNode | FreeTab | FreeHash

definition free_node :: "nlist \<Rightarrow> freed list" where
  "free_node np = FreeKey (nl_key np) #
     (case nl_value np of None \<Rightarrow> [] | Some v \<Rightarrow> [FreeValue v]) @ [FreeNode]"

text \<open>The calls of \<open>free\<close>, in order.\<close>

definition hash_destroy :: "hash \<Rightarrow> freed list" where
  "hash_destroy h =
     concat (map (\<lambda>ch. concat (map free_node ch)) (take (nat (hsize h)) (hashtab h)))
     @ [FreeTab, FreeHash]"

subsection \<open>The dump\<close>

record dynBuf =
  db_buf :: "bytes option"
  blen :: nat

abbreviation BUF_UNIT_LEN :: nat where "BUF_UNIT_LEN \<equiv> 256"

text \<open>The \<open>realloc\<close> loop: whether it got its memory, and the final \<open>blen\<close>.\<close>

function add_string_grow :: "nat \<Rightarrow> nat \<Rightarrow> nat \<Rightarrow> bool \<times> nat" where
  "add_string_grow cap need bl =
     (if need > bl then
        (if bl + BUF_UNIT_LEN \<le> cap then add_string_grow cap need (bl + BUF_UNIT_LEN)
         else (False, bl))
      else (True, bl))"
  by pat_completeness auto
termination
  by (relation "measure (\<lambda>(cap, need, bl). need - bl)") auto

declare add_string_grow.simps [simp del]

definition add_string :: "nat \<Rightarrow> dynBuf \<Rightarrow> bytes option \<Rightarrow> (nat \<times> dynBuf) option" where
  "add_string cap stBuf str =
     (case str of
        None \<Rightarrow> Some (1, stBuf)
      | Some s \<Rightarrow>
          (let start =
             (case db_buf stBuf of
                Some buf \<Rightarrow> Some (buf, blen stBuf)
              | None \<Rightarrow> if BUF_UNIT_LEN \<le> cap then Some ([], BUF_UNIT_LEN) else None)
           in case start of
                None \<Rightarrow> Some (1, stBuf)
              | Some (buf, bl) \<Rightarrow>
                  (case add_string_grow cap (length buf + length s) bl of
                     (False, bl') \<Rightarrow> Some (1, \<lparr>db_buf = None, blen = bl'\<rparr>)
                   | (True, bl') \<Rightarrow>
                       if length buf + length s + 1 \<le> bl'
                       then Some (0, \<lparr>db_buf = Some (buf @ s), blen = bl'\<rparr>)
                       else None)))"

definition hash_string_node :: "nat \<Rightarrow> nlist \<Rightarrow> dynBuf \<Rightarrow> (nat \<times> dynBuf) option" where
  "hash_string_node cap np buf = do {
     (r1, buf) \<leftarrow> add_string cap buf (Some (nl_key np));
     (r2, buf) \<leftarrow> add_string cap buf (Some (lit ''=''));
     (case nl_value np of
        None \<Rightarrow> Some (max r1 r2, buf)
      | Some v \<Rightarrow> do {
          (r3, buf) \<leftarrow> add_string cap buf (Some v);
          (r4, buf) \<leftarrow> add_string cap buf (Some [10]);
          Some (max (max r1 r2) (max r3 r4), buf)
        })
   }"

fun hash_string_chain :: "nat \<Rightarrow> nlist list \<Rightarrow> nat \<times> dynBuf \<Rightarrow> (nat \<times> dynBuf) option" where
  "hash_string_chain cap [] (res, buf) = Some (res, buf)"
| "hash_string_chain cap (np # nps) (res, buf) =
     (if res \<noteq> 0 then Some (res, buf)
      else do { rb \<leftarrow> hash_string_node cap np buf; hash_string_chain cap nps rb })"

fun hash_string_tab :: "nat \<Rightarrow> nlist list list \<Rightarrow> nat \<times> dynBuf \<Rightarrow> (nat \<times> dynBuf) option" where
  "hash_string_tab cap [] (res, buf) = Some (res, buf)"
| "hash_string_tab cap (ch # chs) (res, buf) =
     (if res \<noteq> 0 then Some (res, buf)
      else do { rb \<leftarrow> hash_string_chain cap ch (res, buf); hash_string_tab cap chs rb })"

text \<open>The returned \<open>buf.buf\<close>; the inner \<open>None\<close> is a null pointer.\<close>

definition hash_string :: "nat \<Rightarrow> hash \<Rightarrow> bytes option option" where
  "hash_string cap h = do {
     (res, buf) \<leftarrow> hash_string_tab cap (take (nat (hsize h)) (hashtab h)) (0, \<lparr>db_buf = None, blen = 0\<rparr>);
     Some (db_buf buf)
   }"

section \<open>The table as a map\<close>

definition hash_inv :: "hash \<Rightarrow> bool" where
  "hash_inv h \<longleftrightarrow> 0 < hsize h \<and> hsize h \<le> INT32_MAX \<and> length (hashtab h) = nat (hsize h) \<and>
     (\<forall>i < length (hashtab h).
        distinct (map nl_key (hashtab h ! i)) \<and>
        (\<forall>np \<in> set (hashtab h ! i). hashfunc h (nl_key np) = Some i))"

definition hash_get :: "hash \<Rightarrow> bytes \<Rightarrow> bytes option" where
  "hash_get h s = (case hash_lookup h s of Some (Some np) \<Rightarrow> nl_value np | _ \<Rightarrow> None)"

definition hash_put :: "hash \<Rightarrow> bytes \<Rightarrow> bytes \<Rightarrow> hash" where
  "hash_put h k v = snd (the (hash_add True True True h k v))"

definition node_entry :: "nlist \<Rightarrow> (bytes \<times> bytes) list" where
  "node_entry np = (case nl_value np of None \<Rightarrow> [] | Some v \<Rightarrow> [(nl_key np, v)])"

definition hash_entries :: "hash \<Rightarrow> (bytes \<times> bytes) list" where
  "hash_entries h = concat (map node_entry (concat (hashtab h)))"

text \<open>What a client of one section's table relies on: reading back, the invariant, and
  that the entries a dump walks over are the map.\<close>

locale section_store =
  fixes inv :: "'h \<Rightarrow> bool"
    and get :: "'h \<Rightarrow> bytes \<Rightarrow> bytes option"
    and put :: "'h \<Rightarrow> bytes \<Rightarrow> bytes \<Rightarrow> 'h"
    and entries :: "'h \<Rightarrow> (bytes \<times> bytes) list"
  assumes put_inv: "inv h \<Longrightarrow> inv (put h k v)"
    and get_put: "inv h \<Longrightarrow> get (put h k v) = (get h)(k \<mapsto> v)"
    and get_entries: "inv h \<Longrightarrow> get h = map_of (entries h)"
    and distinct_entries: "inv h \<Longrightarrow> distinct (map fst (entries h))"
begin

lemma fold_put_inv: "inv h \<Longrightarrow> inv (fold (\<lambda>(k, v) h. put h k v) kvs h)"
  by (induction kvs arbitrary: h) (auto simp: put_inv)

lemma get_fold_put:
  "inv h \<Longrightarrow> get (fold (\<lambda>(k, v) h. put h k v) kvs h) = get h ++ map_of (rev kvs)"
proof (induction kvs arbitrary: h)
  case (Cons kv kvs)
  obtain k v where kv: "kv = (k, v)" by fastforce
  from Cons.prems have "inv (put h k v)" by (rule put_inv)
  then have "get (fold (\<lambda>(k, v) h. put h k v) kvs (put h k v)) = get (put h k v) ++ map_of (rev kvs)"
    by (rule Cons.IH)
  with Cons.prems show ?case by (simp add: kv get_put)
qed simp

text \<open>Replaying the entries of a store into an empty one gives the same map.\<close>

lemma fold_put_entries:
  assumes "inv h" and "inv h0" and "get h0 = Map.empty"
  shows "get (fold (\<lambda>(k, v) h. put h k v) (entries h) h0) = get h"
proof -
  have "map_of (rev (entries h)) = map_of (entries h)"
    using distinct_entries [OF assms(1)] by (subst map_of_inject_set) (auto simp flip: rev_map)
  with assms show ?thesis by (simp add: get_fold_put get_entries)
qed

end

section \<open>The hash table provides the section store\<close>

lemma hashfunc_in_range:
  assumes "0 < hsize h" and "hsize h \<le> INT32_MAX" and "length (hashtab h) = nat (hsize h)"
  shows "\<exists>i. hashfunc h s = Some i \<and> i < length (hashtab h)"
proof -
  have "unat (word_of_int (hsize h) :: 32 word) = nat (hsize h)"
    using assms(1,2) by (simp add: unsigned_of_int take_bit_int_eq_self)
  with assms show ?thesis by (auto simp: hashfunc_def unat_mod)
qed

lemma hash_inv_bucket:
  assumes "hash_inv h"
  obtains i where "hashfunc h s = Some i" and "i < length (hashtab h)"
    and "hash_lookup h s = Some (chain_find (hashtab h ! i) s)"
    and "distinct (map nl_key (hashtab h ! i))"
proof -
  from assms obtain i where i: "hashfunc h s = Some i" "i < length (hashtab h)"
    using hashfunc_in_range [of h s] by (auto simp: hash_inv_def)
  with assms that show ?thesis by (auto simp: hash_inv_def hash_lookup_def)
qed

lemma hashfunc_hashtab [simp]: "hashfunc (h\<lparr>hashtab := t\<rparr>) = hashfunc h"
  by (simp add: hashfunc_def fun_eq_iff)

lemma chain_find_None_iff: "chain_find ch s = None \<longleftrightarrow> s \<notin> nl_key ` set ch"
  by (induction ch) auto

lemma chain_find_SomeD: "chain_find ch s = Some np \<Longrightarrow> np \<in> set ch \<and> nl_key np = s"
  by (induction ch) (auto split: if_splits)

lemma chain_find_chain_set:
  "chain_find (chain_set ch k v) s =
     (if s = k then map_option (\<lambda>np. np\<lparr>nl_value := v\<rparr>) (chain_find ch k) else chain_find ch s)"
  by (induction ch) auto

lemma keys_chain_set [simp]: "map nl_key (chain_set ch k v) = map nl_key ch"
  by (induction ch) auto

lemma hash_inv_update:
  assumes "hash_inv h" and "i < length (hashtab h)"
    and "distinct (map nl_key ch)" and "\<And>k. k \<in> nl_key ` set ch \<Longrightarrow> hashfunc h k = Some i"
  shows "hash_inv (h\<lparr>hashtab := (hashtab h)[i := ch]\<rparr>)"
  using assms by (auto simp: hash_inv_def nth_list_update)

lemma hash_inv_keys:
  "hash_inv h \<Longrightarrow> i < length (hashtab h) \<Longrightarrow> k \<in> nl_key ` set (hashtab h ! i) \<Longrightarrow> hashfunc h k = Some i"
  by (auto simp: hash_inv_def)

lemma set_chain_set_keys: "nl_key ` set (chain_set ch k v) = nl_key ` set ch"
  by (metis keys_chain_set list.set_map)

lemma hash_add_inv:
  assumes inv: "hash_inv h" and add: "hash_add np_ok key_ok val_ok h k v = Some (np, h')"
  shows "hash_inv h'"
proof -
  obtain i where i: "hashfunc h k = Some i" "i < length (hashtab h)"
      "hash_lookup h k = Some (chain_find (hashtab h ! i) k)" "distinct (map nl_key (hashtab h ! i))"
    using hash_inv_bucket [OF inv] by blast
  let ?v = "if val_ok then Some v else None"
  show ?thesis
  proof (cases "chain_find (hashtab h ! i) k")
    case None
    then have new: "k \<notin> nl_key ` set (hashtab h ! i)" by (simp add: chain_find_None_iff)
    have "hash_inv (h\<lparr>hashtab := (hashtab h)[i := \<lparr>nl_key = k, nl_value = ?v\<rparr> # hashtab h ! i]\<rparr>)"
      using new i by (intro hash_inv_update inv) (auto intro: hash_inv_keys [OF inv])
    with add i None inv show ?thesis by (auto simp: hash_add_def Let_def split: if_splits)
  next
    case (Some n)
    have "hash_inv (h\<lparr>hashtab := (hashtab h)[i := chain_set (hashtab h ! i) k ?v]\<rparr>)"
      using i by (intro hash_inv_update inv) (auto simp: set_chain_set_keys intro: hash_inv_keys [OF inv])
    with add i Some show ?thesis by (auto simp: hash_add_def Let_def split: if_splits)
  qed
qed

lemma hash_get_update:
  assumes inv: "hash_inv h" and i: "hashfunc h k = Some i" "i < length (hashtab h)"
    and other: "\<And>s. s \<noteq> k \<Longrightarrow> chain_find ch s = chain_find (hashtab h ! i) s"
    and same: "chain_find ch k = Some np"
  shows "hash_get (h\<lparr>hashtab := (hashtab h)[i := ch]\<rparr>) = (hash_get h)(k := nl_value np)"
proof
  fix s
  obtain j where j: "hashfunc h s = Some j" "j < length (hashtab h)"
      "hash_lookup h s = Some (chain_find (hashtab h ! j) s)"
    using hash_inv_bucket [OF inv] by blast
  show "hash_get (h\<lparr>hashtab := (hashtab h)[i := ch]\<rparr>) s = ((hash_get h)(k := nl_value np)) s"
  proof (cases "s = k")
    case True
    then show ?thesis using i same by (simp add: hash_get_def hash_lookup_def)
  next
    case False
    then show ?thesis using i j other [OF False]
      by (cases "i = j") (simp_all add: hash_get_def hash_lookup_def nth_list_update)
  qed
qed

text \<open>Every call of \<open>hash_add\<close> that gets its memory returns the node it stored, and changes
  the map at the key only.\<close>

lemma hash_add_correct:
  assumes inv: "hash_inv h"
  shows "\<exists>h'. hash_add True True True h k v = Some (Some \<lparr>nl_key = k, nl_value = Some v\<rparr>, h') \<and>
           hash_inv h' \<and> hash_get h' = (hash_get h)(k \<mapsto> v)"
proof -
  obtain i where i: "hashfunc h k = Some i" "i < length (hashtab h)"
      "hash_lookup h k = Some (chain_find (hashtab h ! i) k)"
    using hash_inv_bucket [OF inv] by blast
  show ?thesis
  proof (cases "chain_find (hashtab h ! i) k")
    case None
    let ?n = "\<lparr>nl_key = k, nl_value = Some v\<rparr>"
    let ?h = "h\<lparr>hashtab := (hashtab h)[i := ?n # hashtab h ! i]\<rparr>"
    have add: "hash_add True True True h k v = Some (Some ?n, ?h)"
      using i None by (simp add: hash_add_def Let_def)
    have "hash_get ?h = (hash_get h)(k := nl_value ?n)"
      by (rule hash_get_update [OF inv i(1,2)]) auto
    with add hash_add_inv [OF inv add] show ?thesis by simp
  next
    case (Some n)
    then have key: "nl_key n = k" by (simp add: chain_find_SomeD)
    let ?h = "h\<lparr>hashtab := (hashtab h)[i := chain_set (hashtab h ! i) k (Some v)]\<rparr>"
    have n: "n\<lparr>nl_value := Some v\<rparr> = \<lparr>nl_key = k, nl_value = Some v\<rparr>"
      using key by (cases n) simp
    have add: "hash_add True True True h k v = Some (Some \<lparr>nl_key = k, nl_value = Some v\<rparr>, ?h)"
      using i Some n by (simp add: hash_add_def Let_def)
    have "hash_get ?h = (hash_get h)(k := nl_value (n\<lparr>nl_value := Some v\<rparr>))"
      by (rule hash_get_update [OF inv i(1,2)]) (simp_all add: chain_find_chain_set Some)
    with add hash_add_inv [OF inv add] show ?thesis by simp
  qed
qed

lemma hash_lookup_total: "hash_inv h \<Longrightarrow> \<exists>r. hash_lookup h s = Some r"
  by (metis hash_inv_bucket)

lemma hash_put_correct:
  "hash_inv h \<Longrightarrow> hash_inv (hash_put h k v) \<and> hash_get (hash_put h k v) = (hash_get h)(k \<mapsto> v)"
  using hash_add_correct [of h k v] by (auto simp: hash_put_def)

lemma chain_distinct_keys:
  assumes "\<And>i. i < length chs \<Longrightarrow> distinct (map nl_key (chs ! i)) \<and> (\<forall>np \<in> set (chs ! i). f (nl_key np) = i)"
  shows "distinct (map nl_key (concat chs))"
proof -
  have "\<And>m. (\<And>i. i < length cs \<Longrightarrow> distinct (map nl_key (cs ! i)) \<and>
             (\<forall>np \<in> set (cs ! i). f (nl_key np) = i + m)) \<Longrightarrow>
          distinct (map nl_key (concat cs)) \<and> (\<forall>np \<in> set (concat cs). m \<le> f (nl_key np))" for cs
  proof (induction cs)
    case (Cons c cs)
    have hd: "distinct (map nl_key c)" "\<forall>np \<in> set c. f (nl_key np) = m"
      using Cons.prems [of 0] by auto
    have "distinct (map nl_key (concat cs)) \<and> (\<forall>np \<in> set (concat cs). Suc m \<le> f (nl_key np))"
      using Cons.prems [of "Suc _"] by (intro Cons.IH) auto
    with hd show ?case by fastforce
  qed simp
  from this [of chs 0] assms show ?thesis by simp
qed

lemma map_of_node_entries:
  assumes "distinct (map nl_key nps)"
  shows "map_of (concat (map node_entry nps)) s =
           (case chain_find nps s of None \<Rightarrow> None | Some np \<Rightarrow> nl_value np)"
proof -
  have notin: "t \<notin> nl_key ` set ms \<Longrightarrow> map_of (concat (map node_entry ms)) t = None" for ms t
    by (induction ms) (auto simp: node_entry_def split: option.splits)
  have none: "t \<notin> nl_key ` set ms \<Longrightarrow> chain_find ms t = None" for ms t
    by (simp add: chain_find_None_iff)
  from assms show ?thesis
    by (induction nps) (auto simp: node_entry_def notin none split: option.splits)
qed

lemma distinct_node_entries:
  "distinct (map nl_key nps) \<Longrightarrow> distinct (map fst (concat (map node_entry nps)))"
proof (induction nps)
  case (Cons np nps)
  have "fst ` set (concat (map node_entry nps)) \<subseteq> nl_key ` set nps"
    by (auto simp: node_entry_def split: option.splits)
  moreover have "nl_key np \<notin> nl_key ` set nps" and "distinct (map nl_key nps)"
    using Cons.prems by auto
  ultimately have "nl_key np \<notin> fst ` set (concat (map node_entry nps))" by blast
  with Cons.IH [OF \<open>distinct (map nl_key nps)\<close>] show ?case
    by (cases "nl_value np") (simp_all add: node_entry_def)
qed simp

lemma chain_find_concat:
  assumes "i < length chs" and "\<And>j. j < length chs \<Longrightarrow> j \<noteq> i \<Longrightarrow> s \<notin> nl_key ` set (chs ! j)"
  shows "chain_find (concat chs) s = chain_find (chs ! i) s"
proof -
  have app: "chain_find (xs @ ys) s =
      (case chain_find xs s of None \<Rightarrow> chain_find ys s | Some n \<Rightarrow> Some n)" for xs ys
    by (induction xs) auto
  have none: "\<forall>c \<in> set cs. s \<notin> nl_key ` set c \<Longrightarrow> chain_find (concat cs) s = None" for cs
    by (auto simp: chain_find_None_iff)
  have split: "chs = take i chs @ chs ! i # drop (Suc i) chs"
    using assms(1) by (rule id_take_nth_drop)
  have l: "\<forall>c \<in> set (take i chs). s \<notin> nl_key ` set c"
  proof
    fix c assume "c \<in> set (take i chs)"
    then obtain n where "n < i" "c = chs ! n"
      by (auto simp: in_set_conv_nth)
    then show "s \<notin> nl_key ` set c" using assms(1) assms(2) [of n] by simp
  qed
  have r: "\<forall>c \<in> set (drop (Suc i) chs). s \<notin> nl_key ` set c"
  proof
    fix c assume "c \<in> set (drop (Suc i) chs)"
    then obtain n where "n < length chs - Suc i" "c = chs ! (Suc i + n)"
      by (auto simp: in_set_conv_nth)
    then show "s \<notin> nl_key ` set c" using assms(2) [of "Suc i + n"] by simp
  qed
  have "chain_find (concat chs) s = chain_find (concat (take i chs) @ chs ! i @ concat (drop (Suc i) chs)) s"
    by (subst split) simp
  also have "\<dots> = chain_find (chs ! i) s"
    using none [OF l] none [OF r] by (simp add: app split: option.splits)
  finally show ?thesis .
qed

lemma hash_inv_distinct: "hash_inv h \<Longrightarrow> distinct (map nl_key (concat (hashtab h)))"
  by (rule chain_distinct_keys [where f = "\<lambda>k. the (hashfunc h k)"]) (auto simp: hash_inv_def)

lemma hash_get_entries:
  assumes inv: "hash_inv h"
  shows "hash_get h = map_of (hash_entries h)"
proof
  fix s
  obtain i where i: "hashfunc h s = Some i" "i < length (hashtab h)"
      "hash_lookup h s = Some (chain_find (hashtab h ! i) s)"
    using hash_inv_bucket [OF inv] by blast
  have "chain_find (concat (hashtab h)) s = chain_find (hashtab h ! i) s"
  proof (rule chain_find_concat [OF i(2)])
    fix j assume "j < length (hashtab h)" "j \<noteq> i"
    then show "s \<notin> nl_key ` set (hashtab h ! j)"
      using hash_inv_keys [OF inv, of j s] i(1) by auto
  qed
  then show "hash_get h s = map_of (hash_entries h) s"
    using i(3) map_of_node_entries [OF hash_inv_distinct [OF inv]]
    by (simp add: hash_get_def hash_entries_def split: option.splits)
qed

interpretation hs: section_store hash_inv hash_get hash_put hash_entries
proof
  fix h k v assume inv: "hash_inv h"
  show "hash_inv (hash_put h k v)" "hash_get (hash_put h k v) = (hash_get h)(k \<mapsto> v)"
    using hash_put_correct [OF inv] by auto
  show "hash_get h = map_of (hash_entries h)" by (rule hash_get_entries [OF inv])
  show "distinct (map fst (hash_entries h))"
    unfolding hash_entries_def by (rule distinct_node_entries [OF hash_inv_distinct [OF inv]])
qed

lemma hash_new_inv:
  "0 < n \<Longrightarrow> n \<le> INT32_MAX \<Longrightarrow> \<exists>h. hash_new n = Some h \<and> hash_inv h \<and> hash_get h = Map.empty"
proof -
  assume n: "0 < n" "n \<le> INT32_MAX"
  define h where "h = \<lparr>hashtab = replicate (nat n) [], hsize = n\<rparr>"
  have inv: "hash_inv h"
    using n by (simp add: hash_inv_def h_def)
  have "hash_entries h = []"
    by (simp add: hash_entries_def h_def)
  with inv have "hash_get h = Map.empty"
    by (simp add: hash_get_entries)
  with inv n show ?thesis by (simp add: hash_new_def h_def)
qed

section \<open>The dump buffer\<close>

definition db_content :: "dynBuf \<Rightarrow> bytes" where
  "db_content b = (case db_buf b of None \<Rightarrow> [] | Some buf \<Rightarrow> buf)"

text \<open>The size of the block before the growth loop runs.\<close>

definition db_start :: "dynBuf \<Rightarrow> nat" where
  "db_start b = (case db_buf b of None \<Rightarrow> BUF_UNIT_LEN | Some buf \<Rightarrow> blen b)"

lemma add_string_grow_enough:
  "need + 256 \<le> cap \<Longrightarrow> \<exists>bl'. add_string_grow cap need bl = (True, bl') \<and> need \<le> bl' \<and>
     (bl' = need \<longleftrightarrow> bl \<le> need \<and> (need - bl) mod 256 = 0)"
proof (induction cap need bl rule: add_string_grow.induct)
  case (1 cap need bl)
  show ?case
  proof (cases "need > bl")
    case True
    with 1 obtain bl' where "add_string_grow cap need (bl + 256) = (True, bl')" "need \<le> bl'"
        "bl' = need \<longleftrightarrow> bl + 256 \<le> need \<and> (need - (bl + 256)) mod 256 = 0"
      by auto
    moreover have "bl + 256 \<le> need \<and> (need - (bl + 256)) mod 256 = 0 \<longleftrightarrow> bl \<le> need \<and> (need - bl) mod 256 = 0"
    proof (cases "bl + 256 \<le> need")
      case le: True
      then obtain d where "need = bl + 256 + d" by (auto simp: le_iff_add)
      then show ?thesis by simp
    next
      case False
      with True have "(need - bl) mod 256 = need - bl" "need - bl \<noteq> 0" by simp_all
      with False show ?thesis by simp
    qed
    ultimately show ?thesis using True "1.prems" by (simp add: add_string_grow.simps [of cap need bl])
  next
    case False
    then show ?thesis by (auto simp: add_string_grow.simps [of cap need bl])
  qed
qed

lemma add_string_cases:
  assumes "length (db_content b) + length s + 256 \<le> cap"
  obtains (overflow) "add_string cap b (Some s) = None"
      and "db_start b \<le> length (db_content b @ s)" and "(length (db_content b @ s) - db_start b) mod 256 = 0"
    | (fits) bl where "add_string cap b (Some s) = Some (0, \<lparr>db_buf = Some (db_content b @ s), blen = bl\<rparr>)"
      and "length (db_content b @ s) < bl"
      and "\<not> (db_start b \<le> length (db_content b @ s) \<and> (length (db_content b @ s) - db_start b) mod 256 = 0)"
proof -
  obtain bl' where g: "add_string_grow cap (length (db_content b) + length s) (db_start b) = (True, bl')"
      "length (db_content b) + length s \<le> bl'"
      "bl' = length (db_content b) + length s \<longleftrightarrow>
         db_start b \<le> length (db_content b) + length s \<and>
         (length (db_content b) + length s - db_start b) mod 256 = 0"
    using add_string_grow_enough [OF assms] by blast
  have eq: "add_string cap b (Some s) =
      (if length (db_content b) + length s < bl'
       then Some (0, \<lparr>db_buf = Some (db_content b @ s), blen = bl'\<rparr>) else None)"
    using g(1) assms
    by (auto simp: add_string_def db_content_def db_start_def Let_def split: option.splits)
  show ?thesis
  proof (cases "length (db_content b) + length s < bl'")
    case True
    with eq g show ?thesis by (intro fits) auto
  next
    case False
    with eq g show ?thesis by (intro overflow) auto
  qed
qed

text \<open>\<open>add_string\<close> writes its terminating zero one byte past the block exactly when the
  new length fills it: the loop condition is \<open>> blen\<close> where it needs \<open>\<ge> blen\<close>.\<close>

lemma add_string_None_iff:
  assumes "length (db_content b) + length s + 256 \<le> cap"
  shows "add_string cap b (Some s) = None \<longleftrightarrow>
           db_start b \<le> length (db_content b @ s) \<and> (length (db_content b @ s) - db_start b) mod 256 = 0"
  using assms by (rule add_string_cases) auto

lemma add_string_Some:
  assumes "add_string cap b (Some s) = Some (r, b')"
    and "length (db_content b) + length s + 256 \<le> cap"
  shows "r = 0 \<and> db_buf b' = Some (db_content b @ s)"
  using assms(2) by (rule add_string_cases) (use assms(1) in auto)

definition node_text :: "nlist \<Rightarrow> bytes" where
  "node_text np = nl_key np @ lit ''='' @ (case nl_value np of None \<Rightarrow> [] | Some v \<Rightarrow> v @ [10])"

definition hash_text :: "hash \<Rightarrow> bytes" where
  "hash_text h = concat (map node_text (concat (take (nat (hsize h)) (hashtab h))))"

lemma db_content_Some: "db_buf b = Some buf \<Longrightarrow> db_content b = buf"
  by (simp add: db_content_def)

lemma hash_string_node_Some:
  assumes "hash_string_node cap np b = Some (r, b')"
    and "length (db_content b) + length (node_text np) + 256 \<le> cap"
  shows "r = 0 \<and> db_buf b' = Some (db_content b @ node_text np)"
proof -
  obtain r1 b1 where b1: "add_string cap b (Some (nl_key np)) = Some (r1, b1)"
    using assms(1) by (auto simp: hash_string_node_def bind_eq_Some_conv split: prod.splits)
  have 1: "r1 = 0" "db_buf b1 = Some (db_content b @ nl_key np)"
    using add_string_Some [OF b1] assms(2) by (auto simp: node_text_def)
  obtain r2 b2 where b2: "add_string cap b1 (Some (lit ''='')) = Some (r2, b2)"
    using assms(1) b1 by (auto simp: hash_string_node_def bind_eq_Some_conv split: prod.splits)
  have 2: "r2 = 0" "db_buf b2 = Some (db_content b @ nl_key np @ lit ''='')"
    using add_string_Some [OF b2] assms(2) db_content_Some [OF 1(2)] by (auto simp: node_text_def)
  show ?thesis
  proof (cases "nl_value np")
    case None
    then show ?thesis using assms(1) b1 b2 1 2 by (simp add: hash_string_node_def node_text_def)
  next
    case (Some v)
    obtain r3 b3 where b3: "add_string cap b2 (Some v) = Some (r3, b3)"
      using assms(1) b1 b2 Some by (auto simp: hash_string_node_def bind_eq_Some_conv split: prod.splits)
    have 3: "r3 = 0" "db_buf b3 = Some (db_content b @ nl_key np @ lit ''='' @ v)"
      using add_string_Some [OF b3] assms(2) db_content_Some [OF 2(2)] Some by (auto simp: node_text_def)
    obtain r4 b4 where b4: "add_string cap b3 (Some [10]) = Some (r4, b4)"
      using assms(1) b1 b2 b3 Some by (auto simp: hash_string_node_def bind_eq_Some_conv split: prod.splits)
    have 4: "r4 = 0" "db_buf b4 = Some (db_content b @ nl_key np @ lit ''='' @ v @ [10])"
      using add_string_Some [OF b4] assms(2) db_content_Some [OF 3(2)] Some by (auto simp: node_text_def)
    show ?thesis
      using assms(1) b1 b2 b3 b4 1 2 3 4 Some by (simp add: hash_string_node_def node_text_def)
  qed
qed

lemma hash_string_chain_Some:
  assumes "hash_string_chain cap nps (0, b) = Some (r, b')"
    and "length (db_content b) + length (concat (map node_text nps)) + 256 \<le> cap"
  shows "r = 0 \<and> db_content b' = db_content b @ concat (map node_text nps) \<and>
     (nps \<noteq> [] \<longrightarrow> db_buf b' \<noteq> None) \<and> (nps = [] \<longrightarrow> b' = b)"
  using assms
proof (induction nps arbitrary: b)
  case (Cons np nps)
  from Cons.prems(1) obtain r1 b1 where b1: "hash_string_node cap np b = Some (r1, b1)"
      and rest: "hash_string_chain cap nps (r1, b1) = Some (r, b')"
    by (auto simp: bind_eq_Some_conv)
  have 1: "r1 = 0" "db_buf b1 = Some (db_content b @ node_text np)"
    using hash_string_node_Some [OF b1] Cons.prems(2) by auto
  with Cons.IH [of b1] rest Cons.prems(2) show ?case
    by (auto simp: db_content_Some)
qed auto

lemma hash_string_tab_Some:
  assumes "hash_string_tab cap chs (0, b) = Some (r, b')"
    and "length (db_content b) + length (concat (map node_text (concat chs))) + 256 \<le> cap"
  shows "r = 0 \<and> db_content b' = db_content b @ concat (map node_text (concat chs)) \<and>
     (db_buf b \<noteq> None \<or> concat chs \<noteq> [] \<longrightarrow> db_buf b' \<noteq> None)"
  using assms
proof (induction chs arbitrary: b)
  case (Cons ch chs)
  from Cons.prems(1) obtain r1 b1 where b1: "hash_string_chain cap ch (0, b) = Some (r1, b1)"
      and rest: "hash_string_tab cap chs (r1, b1) = Some (r, b')"
    by (auto simp: bind_eq_Some_conv)
  have 1: "r1 = 0" "db_content b1 = db_content b @ concat (map node_text ch)"
      "ch \<noteq> [] \<longrightarrow> db_buf b1 \<noteq> None" "ch = [] \<longrightarrow> b1 = b"
    using hash_string_chain_Some [OF b1] Cons.prems(2) by auto
  from Cons.IH [of b1] rest Cons.prems(2) 1
  have "r = 0 \<and> db_content b' = db_content b1 @ concat (map node_text (concat chs)) \<and>
     (db_buf b1 \<noteq> None \<or> concat chs \<noteq> [] \<longrightarrow> db_buf b' \<noteq> None)" by simp
  with 1 show ?case by (cases "ch = []") auto
qed simp

lemma add_string_small:
  assumes "db_start b = 256" and "length (db_content b @ s) < 256" and "256 \<le> cap"
  shows "\<exists>b'. add_string cap b (Some s) = Some (0, b') \<and> db_start b' = 256 \<and> db_content b' = db_content b @ s"
proof -
  have "add_string_grow cap (length (db_content b) + length s) 256 = (True, 256)"
    using assms(2) by (simp add: add_string_grow.simps)
  with assms show ?thesis
    by (cases "db_buf b") (auto simp: add_string_def db_start_def db_content_def Let_def)
qed

lemma hash_string_node_small:
  assumes "db_start b = 256" and "length (db_content b @ node_text np) < 256" and "256 \<le> cap"
  shows "\<exists>b'. hash_string_node cap np b = Some (0, b') \<and> db_start b' = 256 \<and> db_content b' = db_content b @ node_text np"
proof -
  obtain b1 where b1: "add_string cap b (Some (nl_key np)) = Some (0, b1)" "db_start b1 = 256"
      "db_content b1 = db_content b @ nl_key np"
    using add_string_small [of b "nl_key np" cap] assms by (auto simp: node_text_def)
  obtain b2 where b2: "add_string cap b1 (Some (lit ''='')) = Some (0, b2)" "db_start b2 = 256"
      "db_content b2 = db_content b1 @ lit ''=''"
    using add_string_small [of b1 "lit ''=''" cap] assms b1 by (auto simp: node_text_def)
  show ?thesis
  proof (cases "nl_value np")
    case None
    with b1 b2 show ?thesis by (simp add: hash_string_node_def node_text_def)
  next
    case (Some v)
    obtain b3 where b3: "add_string cap b2 (Some v) = Some (0, b3)" "db_start b3 = 256"
        "db_content b3 = db_content b2 @ v"
      using add_string_small [of b2 v cap] assms b1 b2 Some by (auto simp: node_text_def)
    obtain b4 where b4: "add_string cap b3 (Some [10]) = Some (0, b4)" "db_start b4 = 256"
        "db_content b4 = db_content b3 @ [10]"
      using add_string_small [of b3 "[10]" cap] assms b1 b2 b3 Some by (auto simp: node_text_def)
    show ?thesis using b1 b2 b3 b4 Some by (simp add: hash_string_node_def node_text_def)
  qed
qed

lemma hash_string_chain_small:
  assumes "db_start b = 256" and "length (db_content b @ concat (map node_text nps)) < 256" and "256 \<le> cap"
  shows "\<exists>b'. hash_string_chain cap nps (0, b) = Some (0, b') \<and> db_start b' = 256 \<and>
     db_content b' = db_content b @ concat (map node_text nps)"
  using assms
proof (induction nps arbitrary: b)
  case (Cons np nps)
  then obtain b1 where b1: "hash_string_node cap np b = Some (0, b1)" "db_start b1 = 256"
      "db_content b1 = db_content b @ node_text np"
    using hash_string_node_small [of b np cap] by auto
  with Cons.IH [of b1] Cons.prems show ?case by auto
qed auto

lemma hash_string_tab_small:
  assumes "db_start b = 256" and "length (db_content b @ concat (map node_text (concat chs))) < 256" and "256 \<le> cap"
  shows "\<exists>b'. hash_string_tab cap chs (0, b) = Some (0, b')"
  using assms
proof (induction chs arbitrary: b)
  case (Cons ch chs)
  then obtain b1 where b1: "hash_string_chain cap ch (0, b) = Some (0, b1)" "db_start b1 = 256"
      "db_content b1 = db_content b @ concat (map node_text ch)"
    using hash_string_chain_small [of b ch cap] by auto
  with Cons.IH [of b1] Cons.prems show ?case by auto
qed auto

lemma hash_string_Some:
  assumes "hash_string cap h = Some r" and "length (hash_text h) + 256 \<le> cap"
    and "concat (take (nat (hsize h)) (hashtab h)) \<noteq> []"
  shows "r = Some (hash_text h)"
proof -
  let ?b0 = "\<lparr>db_buf = None, blen = 0\<rparr>"
  from assms(1) obtain res b where
      tab: "hash_string_tab cap (take (nat (hsize h)) (hashtab h)) (0, ?b0) = Some (res, b)"
      and r: "r = db_buf b"
    by (auto simp: hash_string_def bind_eq_Some_conv split: prod.splits)
  from hash_string_tab_Some [OF tab] assms(2,3)
  have "db_content b = hash_text h" and "db_buf b \<noteq> None"
    by (auto simp: hash_text_def db_content_def)
  with r show ?thesis by (auto simp: db_content_def)
qed

section \<open>Properties\<close>

text \<open>C34. A table made by \<open>hash_new\<close> keeps its bucket invariant under \<open>hash_add\<close>, the call
  returns the stored node, and afterwards \<open>hash_lookup\<close> finds exactly that node under the key
  and what it found before under every other key.\<close>

theorem hash_add_then_lookup:
  assumes inv: "hash_inv h"
  shows "\<exists>h'. hash_add True True True h k v = Some (Some \<lparr>nl_key = k, nl_value = Some v\<rparr>, h') \<and>
           hash_inv h' \<and>
           (\<forall>s. hash_lookup h' s =
              (if s = k then Some (Some \<lparr>nl_key = k, nl_value = Some v\<rparr>) else hash_lookup h s))"
proof -
  obtain i where i: "hashfunc h k = Some i" "i < length (hashtab h)"
      "hash_lookup h k = Some (chain_find (hashtab h ! i) k)"
    using hash_inv_bucket [OF inv] by blast
  let ?n = "\<lparr>nl_key = k, nl_value = Some v\<rparr>"
  define ch where "ch = (case chain_find (hashtab h ! i) k of None \<Rightarrow> ?n # hashtab h ! i
     | Some _ \<Rightarrow> chain_set (hashtab h ! i) k (Some v))"
  let ?h = "h\<lparr>hashtab := (hashtab h)[i := ch]\<rparr>"
  have node: "n\<lparr>nl_value := Some v\<rparr> = ?n" if "chain_find (hashtab h ! i) k = Some n" for n
    using chain_find_SomeD [OF that] by (cases n) simp
  have add: "hash_add True True True h k v = Some (Some ?n, ?h)"
    using i node by (simp add: hash_add_def Let_def ch_def split: option.splits)
  have find: "chain_find ch s = (if s = k then Some ?n else chain_find (hashtab h ! i) s)" for s
    using node by (auto simp: ch_def chain_find_chain_set split: option.splits)
  have "hash_lookup ?h s = (if s = k then Some (Some ?n) else hash_lookup h s)" for s
  proof -
    obtain j where "hashfunc h s = Some j" "j < length (hashtab h)"
      using hash_inv_bucket [OF inv] by blast
    with i find show ?thesis by (auto simp: hash_lookup_def nth_list_update)
  qed
  with add hash_add_inv [OF inv add] show ?thesis by blast
qed

theorem hash_add_then_lookup_witness:
  "\<exists>h'. hash_add True True True \<lparr>hashtab = replicate 4 [], hsize = 4\<rparr> (lit ''k'') (lit ''v'') =
        Some (Some \<lparr>nl_key = lit ''k'', nl_value = Some (lit ''v'')\<rparr>, h') \<and>
      hash_inv h' \<and>
      (\<forall>s. hash_lookup h' s =
         (if s = lit ''k'' then Some (Some \<lparr>nl_key = lit ''k'', nl_value = Some (lit ''v'')\<rparr>)
          else hash_lookup \<lparr>hashtab = replicate 4 [], hsize = 4\<rparr> s))"
  by (rule hash_add_then_lookup) (simp add: hash_inv_def)

text \<open>The error paths of \<open>hash_add\<close>: a failed \<open>malloc\<close> or key copy of a new key returns NULL
  and leaves the table as it was; a failed value copy also returns NULL but leaves the key in the
  table with a null value, so that an earlier value of the key is lost.\<close>

theorem hash_add_out_of_memory:
  assumes inv: "hash_inv h"
  shows "(hash_lookup h k = Some None \<and> \<not> (np_ok \<and> key_ok) \<longrightarrow>
            hash_add np_ok key_ok val_ok h k v = Some (None, h)) \<and>
         (\<exists>h'. hash_add True True False h k v = Some (None, h') \<and> hash_inv h' \<and>
           hash_lookup h' k = Some (Some \<lparr>nl_key = k, nl_value = None\<rparr>))"
proof -
  obtain i where i: "hashfunc h k = Some i" "i < length (hashtab h)"
      "hash_lookup h k = Some (chain_find (hashtab h ! i) k)"
    using hash_inv_bucket [OF inv] by blast
  have fail: "hash_lookup h k = Some None \<and> \<not> (np_ok \<and> key_ok) \<longrightarrow>
      hash_add np_ok key_ok val_ok h k v = Some (None, h)"
    using i by (auto simp: hash_add_def Let_def)
  let ?n = "\<lparr>nl_key = k, nl_value = None\<rparr>"
  define ch where "ch = (case chain_find (hashtab h ! i) k of None \<Rightarrow> ?n # hashtab h ! i
     | Some _ \<Rightarrow> chain_set (hashtab h ! i) k None)"
  let ?h = "h\<lparr>hashtab := (hashtab h)[i := ch]\<rparr>"
  have node: "n\<lparr>nl_value := None\<rparr> = ?n" if "chain_find (hashtab h ! i) k = Some n" for n
    using chain_find_SomeD [OF that] by (cases n) simp
  have add: "hash_add True True False h k v = Some (None, ?h)"
    using i by (simp add: hash_add_def Let_def ch_def split: option.splits)
  have "chain_find ch k = Some ?n"
    using node by (auto simp: ch_def chain_find_chain_set split: option.splits)
  then have "hash_lookup ?h k = Some (Some ?n)" using i by (simp add: hash_lookup_def)
  with add hash_add_inv [OF inv add] fail show ?thesis by blast
qed

theorem hash_add_out_of_memory_witness:
  "hash_lookup \<lparr>hashtab = replicate 4 [], hsize = 4\<rparr> (lit ''k'') = Some None \<and>
   hash_add True False True \<lparr>hashtab = replicate 4 [], hsize = 4\<rparr> (lit ''k'') (lit ''v'') =
     Some (None, \<lparr>hashtab = replicate 4 [], hsize = 4\<rparr>) \<and>
   (\<exists>h'. hash_add True True False \<lparr>hashtab = replicate 4 [], hsize = 4\<rparr> (lit ''k'') (lit ''v'') =
        Some (None, h') \<and> hash_inv h' \<and>
      hash_lookup h' (lit ''k'') = Some (Some \<lparr>nl_key = lit ''k'', nl_value = None\<rparr>))"
proof -
  have inv: "hash_inv \<lparr>hashtab = replicate 4 [], hsize = 4\<rparr>" by (simp add: hash_inv_def)
  have "hash_lookup \<lparr>hashtab = replicate 4 [], hsize = 4\<rparr> (lit ''k'') = Some None"
    by (simp add: hash_lookup_def hashfunc_def lit_def schar_def)
  with hash_add_out_of_memory [OF inv, of "lit ''k''" True False True "lit ''v''"] show ?thesis by simp
qed

text \<open>\<open>hash_empty\<close> does not empty the table: it clears the chain of the first bucket only,
  every key that hashes to another bucket is still found.\<close>

theorem hash_empty_first_bucket_only:
  assumes "hash_inv h"
  shows "\<exists>h'. hash_empty h = Some h' \<and>
           (\<forall>s. hash_lookup h' s = (if hashfunc h s = Some 0 then Some None else hash_lookup h s))"
proof -
  have ne: "hashtab h \<noteq> []"
    using assms by (auto simp: hash_inv_def)
  have "hash_lookup (h\<lparr>hashtab := (hashtab h)[0 := []]\<rparr>) s =
      (if hashfunc h s = Some 0 then Some None else hash_lookup h s)" for s
  proof -
    obtain i where "hashfunc h s = Some i" "i < length (hashtab h)"
      using hash_inv_bucket [OF assms] by blast
    then show ?thesis by (auto simp: hash_lookup_def nth_list_update)
  qed
  with ne show ?thesis by (simp add: hash_empty_def)
qed

theorem hash_empty_first_bucket_only_witness:
  "\<exists>h'. hash_empty \<lparr>hashtab = replicate 4 [], hsize = 4\<rparr> = Some h' \<and>
     (\<forall>s. hash_lookup h' s = (if hashfunc \<lparr>hashtab = replicate 4 [], hsize = 4\<rparr> s = Some 0
        then Some None else hash_lookup \<lparr>hashtab = replicate 4 [], hsize = 4\<rparr> s))"
  by (rule hash_empty_first_bucket_only) (simp add: hash_inv_def)

text \<open>The dump of a non-empty table. With enough memory a dump that stays in bounds is the
  text \<open>key=value\<close>, one line per entry; it is in bounds whenever the text is shorter than the first
  block (256 bytes); and appending to the buffer overruns it by one byte exactly when the new
  length fills the block.\<close>

theorem hash_string_dump:
  assumes "concat (take (nat (hsize h)) (hashtab h)) \<noteq> []" and "length (hash_text h) + 256 \<le> cap"
    and "length (db_content b) + length s + 256 \<le> cap"
  shows "(\<forall>r. hash_string cap h = Some r \<longrightarrow> r = Some (hash_text h)) \<and>
         (length (hash_text h) < 256 \<longrightarrow> hash_string cap h = Some (Some (hash_text h))) \<and>
         (add_string cap b (Some s) = None \<longleftrightarrow>
            db_start b \<le> length (db_content b @ s) \<and> (length (db_content b @ s) - db_start b) mod 256 = 0)"
proof (intro conjI allI impI)
  show "r = Some (hash_text h)" if "hash_string cap h = Some r" for r
    using hash_string_Some [OF that assms(2,1)] .
  show "hash_string cap h = Some (Some (hash_text h))" if small: "length (hash_text h) < 256"
  proof -
    obtain b where "hash_string_tab cap (take (nat (hsize h)) (hashtab h)) (0, \<lparr>db_buf = None, blen = 0\<rparr>) = Some (0, b)"
      using hash_string_tab_small [of "\<lparr>db_buf = None, blen = 0\<rparr>" "take (nat (hsize h)) (hashtab h)" cap] small assms(2)
      by (auto simp: db_start_def db_content_def hash_text_def)
    then have "hash_string cap h = Some (db_buf b)" by (simp add: hash_string_def)
    with hash_string_Some [OF _ assms(2,1)] show ?thesis by simp
  qed
  show "add_string cap b (Some s) = None \<longleftrightarrow>
      db_start b \<le> length (db_content b @ s) \<and> (length (db_content b @ s) - db_start b) mod 256 = 0"
    using assms(3) by (rule add_string_None_iff)
qed

definition dump_example :: hash where
  "dump_example = \<lparr>hashtab = [[\<lparr>nl_key = lit ''a'', nl_value = Some (lit ''1'')\<rparr>]], hsize = 1\<rparr>"

theorem hash_string_dump_witness:
  "hash_string 1024 dump_example = Some (Some (lit ''a=1'' @ [10])) \<and>
   add_string 1024 \<lparr>db_buf = None, blen = 0\<rparr> (Some (replicate 256 65)) = None"
proof -
  have t: "hash_text dump_example = lit ''a=1'' @ [10]"
    by (simp add: hash_text_def dump_example_def node_text_def lit_def)
  have ne: "concat (take (nat (hsize dump_example)) (hashtab dump_example)) \<noteq> []"
    by (simp add: dump_example_def)
  have fit: "length (hash_text dump_example) + 256 \<le> 1024" "length (hash_text dump_example) < 256"
    by (simp_all add: t lit_def)
  have b: "length (db_content \<lparr>db_buf = None, blen = 0\<rparr>) + length (replicate 256 (65 :: byte)) + 256 \<le> 1024"
    by (simp add: db_content_def)
  note dump = hash_string_dump [OF ne fit(1) b]
  have "hash_string 1024 dump_example = Some (Some (hash_text dump_example))"
    using dump fit(2) by blast
  moreover have "db_start \<lparr>db_buf = None, blen = 0\<rparr> = 256"
      "length (db_content \<lparr>db_buf = None, blen = 0\<rparr> @ replicate 256 (65 :: byte)) = 256"
    by (simp_all add: db_content_def db_start_def)
  then have "add_string 1024 \<lparr>db_buf = None, blen = 0\<rparr> (Some (replicate 256 65)) = None"
    using dump by (metis diff_self_eq_0 le_refl mod_0)
  ultimately show ?thesis using t by metis
qed

end
