(* ===== verification/Profile.thy ===== *)
theory Profile
  imports CHash
begin

text \<open>
  The INI configuration reader and writer of \<open>common/src/comProfileutil.c\<close> (the POSIX branch):
  sections, each with a hash table of \<open>CHash\<close>; the parser \<open>_parse_config_entry\<close>; the
  writer \<open>confEntrySave\<close>; and the cached front end \<open>GetPrivateProfile...\<close> /
  \<open>PutPrivateProfile...\<close> with its static state (the loaded file, the name of the current section,
  the pending-write flag) and the files it reads and writes.

  The static variables are the record \<open>profile\<close>; a file is its bytes and its modification time; the
  process clock, the environment and the result of \<open>fopen(..., "w")\<close> are arguments. The mutex
  \<open>G_CS\<close> makes every front-end call atomic, which the model takes as given. Allocations succeed
  except where an argument says otherwise. \<open>fprintf\<close> and \<open>fclose\<close>, whose results the code ignores, succeed: a full disk is
  not represented. \<open>None\<close> is undefined behaviour.

  The lemmas show that writing a configuration and reading it back gives the same sections and
  values, that the cached section name always denotes the selected section, that a stored value is
  the one read back, and where the code leaves its buffers or frees a pointer twice.
\<close>

section \<open>Sections and the loaded file\<close>

record SectEntry =
  se_name :: bytes
  se_h :: hash

record ConfEntry =
  ce_filename :: bytes
  tmRead :: int
  curEntryIdx :: int
  maxEntry :: int
  sections :: "SectEntry list"

abbreviation HASH_SIZE :: int where "HASH_SIZE \<equiv> 100"

text \<open>\<open>!(*str & 0x80) && isspace(*str)\<close>\<close>

definition trim_space :: "byte \<Rightarrow> bool" where
  "trim_space b \<longleftrightarrow> \<not> bit b 7 \<and> isspace b"

definition trimString :: "bytes \<Rightarrow> bytes" where
  "trimString str =
     (let str = dropWhile trim_space str
      in rev (dropWhile trim_space (rev str)))"

text \<open>The search loop of \<open>currentSectionSet\<close>: the index where it stops.\<close>

function currentSection_loop :: "SectEntry list \<Rightarrow> bytes \<Rightarrow> nat \<Rightarrow> nat \<Rightarrow> nat option" where
  "currentSection_loop secs secName mx i =
     (if i < mx then
        (if i < length secs then
           (if se_name (secs ! i) = secName then Some i
            else currentSection_loop secs secName mx (Suc i))
         else None)
      else Some i)"
  by pat_completeness auto
termination
  by (relation "measure (\<lambda>(secs, secName, mx, i). mx - i)") auto

declare currentSection_loop.simps [simp del]

definition currentSectionSet :: "ConfEntry \<Rightarrow> bytes \<Rightarrow> (bool \<times> ConfEntry) option" where
  "currentSectionSet ce secName = do {
     i \<leftarrow> currentSection_loop (sections ce) secName (nat (maxEntry ce)) 0;
     if int i \<ge> maxEntry ce then Some (False, ce\<lparr>curEntryIdx := -1\<rparr>)
     else Some (True, ce\<lparr>curEntryIdx := int i\<rparr>)
   }"

text \<open>\<open>mem_ok\<close>: whether \<open>malloc\<close> or \<open>realloc\<close> of the section array succeeds. A null
  \<open>ce\<close> is dereferenced on the error path.\<close>

definition entryNew :: "bool \<Rightarrow> ConfEntry option \<Rightarrow> bytes option \<Rightarrow> (bool \<times> ConfEntry) option" where
  "entryNew mem_ok ce secName =
     (case ce of
        None \<Rightarrow> None
      | Some ce \<Rightarrow>
          (case secName of
             None \<Rightarrow> Some (False, ce\<lparr>curEntryIdx := -1\<rparr>)
           | Some [] \<Rightarrow> Some (False, ce\<lparr>curEntryIdx := -1\<rparr>)
           | Some secName \<Rightarrow> do {
               (found, ce) \<leftarrow> currentSectionSet ce secName;
               if found then Some (True, ce)
               else if \<not> mem_ok then Some (False, ce\<lparr>sections := []\<rparr>)
               else do {
                 h \<leftarrow> hash_new HASH_SIZE;
                 Some (True, ce\<lparr>sections := sections ce @ [\<lparr>se_name = secName, se_h = h\<rparr>],
                                 curEntryIdx := maxEntry ce,
                                 maxEntry := maxEntry ce + 1\<rparr>)
               }
             }))"

text \<open>\<open>hash_add(ce->sections[ce->curEntryIdx].h, key, val)\<close>\<close>

definition section_add :: "ConfEntry \<Rightarrow> bytes \<Rightarrow> bytes \<Rightarrow> ConfEntry option" where
  "section_add ce key val =
     (if 0 \<le> curEntryIdx ce \<and> nat (curEntryIdx ce) < length (sections ce) then
        (let i = nat (curEntryIdx ce); se = sections ce ! i in do {
           (np, h) \<leftarrow> hash_add True True True (se_h se) key val;
           Some (ce\<lparr>sections := (sections ce)[i := se\<lparr>se_h := h\<rparr>]\<rparr>)
         })
      else None)"

section \<open>Reading a file\<close>

text \<open>The number of bytes \<open>fgets(data, n, fp)\<close> takes from what is left of the file.\<close>

definition fgets_len :: "nat \<Rightarrow> bytes \<Rightarrow> nat" where
  "fgets_len n content = min (n - 1) (length (takeWhile (\<lambda>b. b \<noteq> 10) content) + 1)"

text \<open>One iteration of the reading loop; \<open>line\<close> is what \<open>fgets\<close> stored, used as a C string. The last byte of the
  trimmed value is looked at without a check that there is one: \<open>val[strlen(val) - 1]\<close> of an empty value is outside the
  string, hence the \<open>None\<close>.\<close>

definition parse_config_line :: "ConfEntry \<Rightarrow> bytes \<Rightarrow> ConfEntry option" where
  "parse_config_line ce line =
     (let data = takeWhile (\<lambda>b. b \<noteq> 0) line in
      if data \<noteq> [] \<and> hd data = 35 then Some ce
      else if data \<noteq> [] \<and> hd data = 91 then
        (case strchr (tl data) 93 of
           Some (name, _) \<Rightarrow> map_option snd (entryNew True (Some ce) (Some name))
         | None \<Rightarrow> Some (ce\<lparr>curEntryIdx := -1\<rparr>))
      else if curEntryIdx ce \<ge> 0 then
        (case strchr data 61 of
           None \<Rightarrow> Some ce
         | Some (key, rest) \<Rightarrow>
             (let val = tl rest in
              if val = [] then Some ce
              else
                (let key = trimString key;
                     val = trimString val
                 in if val = [] then None
                    else
                      (let val = (if last val = 10 then butlast val else val)
                       in if val \<noteq> [] then section_add ce key val else Some ce))))
      else Some ce)"

function parse_config_lines :: "ConfEntry \<Rightarrow> bytes \<Rightarrow> ConfEntry option" where
  "parse_config_lines ce content =
     (if content = [] then Some ce
      else do {
        ce' \<leftarrow> parse_config_line ce (take (fgets_len 256 content) content);
        parse_config_lines ce' (drop (fgets_len 256 content) content)
      })"
  by pat_completeness auto
termination
  by (relation "measure (\<lambda>(ce, content). length content)") (auto simp: fgets_len_def)

declare parse_config_lines.simps [simp del]

text \<open>\<open>file = None\<close>: \<open>fopen\<close> fails.\<close>

definition parse_config_entry :: "ConfEntry \<Rightarrow> bytes option \<Rightarrow> (bool \<times> ConfEntry) option" where
  "parse_config_entry ce file =
     (case file of
        None \<Rightarrow> Some (False, ce)
      | Some content \<Rightarrow> do { ce' \<leftarrow> parse_config_lines ce content; Some (True, ce') })"

definition confEntryNew :: "bytes \<Rightarrow> bytes option \<Rightarrow> int \<Rightarrow> ConfEntry option" where
  "confEntryNew filename file now = do {
     (ok, ce) \<leftarrow> parse_config_entry
        \<lparr>ce_filename = filename, tmRead = now, curEntryIdx = -1, maxEntry = 0, sections = []\<rparr> file;
     Some ce
   }"

definition confEntryGetFilename :: "ConfEntry option \<Rightarrow> bytes option" where
  "confEntryGetFilename ce = map_option ce_filename ce"

definition confEntryGet :: "ConfEntry option \<Rightarrow> bytes option \<Rightarrow> bytes option option" where
  "confEntryGet ce field =
     (case (ce, field) of
        (Some ce, Some field) \<Rightarrow>
          (if curEntryIdx ce < 0 then Some None
           else if nat (curEntryIdx ce) < length (sections ce) then do {
             n \<leftarrow> hash_lookup (se_h (sections ce ! nat (curEntryIdx ce))) field;
             Some (case n of None \<Rightarrow> None | Some np \<Rightarrow> nl_value np)
           }
           else None)
      | _ \<Rightarrow> Some None)"

definition confEntryPut :: "ConfEntry \<Rightarrow> bytes option \<Rightarrow> bytes \<Rightarrow> (bool \<times> ConfEntry) option" where
  "confEntryPut ce field val =
     (case field of
        None \<Rightarrow> Some (True, ce)
      | Some field \<Rightarrow> do { ce' \<leftarrow> section_add ce field val; Some (True, ce') })"

section \<open>Writing a file\<close>

text \<open>The bytes one turn of the loop of \<open>confEntrySave\<close> prints.\<close>

definition save_section :: "nat \<Rightarrow> SectEntry \<Rightarrow> bytes option" where
  "save_section cap se = do {
     buf \<leftarrow> hash_string cap (se_h se);
     Some (lit ''['' @ se_name se @ lit '']'' @ [10] @ (case buf of None \<Rightarrow> [] | Some b \<Rightarrow> b) @ [10])
   }"

fun save_sections :: "nat \<Rightarrow> SectEntry list \<Rightarrow> bytes option" where
  "save_sections cap [] = Some []"
| "save_sections cap (se # ses) = do {
     t \<leftarrow> save_section cap se;
     ts \<leftarrow> save_sections cap ses;
     Some (t @ ts)
   }"

text \<open>The result and the new contents of the file (\<open>None\<close>: not written).\<close>

definition confEntrySave :: "nat \<Rightarrow> bool \<Rightarrow> ConfEntry option \<Rightarrow> (bool \<times> bytes option) option" where
  "confEntrySave cap fopen_ok ce =
     (case ce of
        None \<Rightarrow> Some (False, None)
      | Some ce \<Rightarrow>
          (if \<not> fopen_ok then Some (False, None)
           else if nat (maxEntry ce) \<le> length (sections ce) then do {
             out \<leftarrow> save_sections cap (take (nat (maxEntry ce)) (sections ce));
             Some (True, Some out)
           }
           else None))"

section \<open>The home directory and releasing a file\<close>

datatype homeptr = HomeNull | HomeLive bytes | HomeFreed

datatype conf_freed = FreedHome | FreedString bytes | FreedTable "freed list" | FreedSections | FreedConf

text \<open>\<open>confEntryFree\<close> releases \<open>projectHomeDir\<close> and leaves the static pointer as it is: the
  second call frees it again.\<close>

definition confEntryFree :: "homeptr \<Rightarrow> ConfEntry option \<Rightarrow> (homeptr \<times> conf_freed list) option" where
  "confEntryFree home ce = do {
     (home', fr) \<leftarrow> (case home of
        HomeNull \<Rightarrow> Some (HomeNull, [])
      | HomeLive d \<Rightarrow> Some (HomeFreed, [FreedHome])
      | HomeFreed \<Rightarrow> None);
     (case ce of
        None \<Rightarrow> Some (home', fr)
      | Some ce \<Rightarrow>
          Some (home', fr @ FreedString (ce_filename ce) #
             concat (map (\<lambda>se. [FreedTable (hash_destroy (se_h se)), FreedString (se_name se)])
                (take (nat (maxEntry ce)) (sections ce))) @ [FreedSections, FreedConf]))
   }"

abbreviation SETTINGS_FNAME :: bytes where "SETTINGS_FNAME \<equiv> lit ''./default.ini''"
abbreviation PROJECT_HOME_DIR :: bytes where "PROJECT_HOME_DIR \<equiv> lit ''./''"

text \<open>\<open>env\<close> is \<open>getenv("PROJECT_HOME")\<close>. An empty directory reads the byte before the
  string; a home of 256 bytes or more leaves \<open>_fullpath\<close> without a terminator.\<close>

definition settingsFilename :: "homeptr \<Rightarrow> bytes option \<Rightarrow> bytes option \<Rightarrow> (bytes \<times> homeptr) option" where
  "settingsFilename home env fname = do {
     home' \<leftarrow> (case home of
        HomeNull \<Rightarrow>
          (let tmpdir = (case env of None \<Rightarrow> PROJECT_HOME_DIR | Some d \<Rightarrow> d) in
           if tmpdir = [] then None
           else Some (if last tmpdir \<noteq> 47 then tmpdir @ lit ''/bin/'' else tmpdir @ lit ''bin/''))
      | HomeLive d \<Rightarrow> Some d
      | HomeFreed \<Rightarrow> None);
     let fname = (case fname of None \<Rightarrow> SETTINGS_FNAME | Some f \<Rightarrow> f);
     if length home' \<ge> 256 then None
     else Some (if length home' + length fname < 256 then home' @ fname else home', HomeLive home')
   }"

section \<open>The cached front end\<close>

record profile =
  p_section :: bytes  \<comment> \<open>the C string in \<open>_section[128]\<close>\<close>
  p_conf :: "ConfEntry option"  \<comment> \<open>\<open>_confWork\<close>\<close>
  p_bWrite :: bool  \<comment> \<open>\<open>_bWrite\<close>\<close>
  p_home :: homeptr  \<comment> \<open>\<open>projectHomeDir\<close>\<close>
  p_files :: "bytes \<Rightarrow> (bytes \<times> int) option"

text \<open>What the process environment supplies to a call.\<close>

record penv =
  pe_cap :: nat
  pe_writable :: "bytes \<Rightarrow> bool"
  pe_now :: int

definition profile_save :: "penv \<Rightarrow> profile \<Rightarrow> profile option" where
  "profile_save e st =
     (case p_conf st of
        None \<Rightarrow> Some st
      | Some ce \<Rightarrow> do {
          (ok, out) \<leftarrow> confEntrySave (pe_cap e) (pe_writable e (ce_filename ce)) (Some ce);
          Some (case out of
                  None \<Rightarrow> st
                | Some t \<Rightarrow> st\<lparr>p_files := (p_files st)(ce_filename ce \<mapsto> (t, pe_now e))\<rparr>)
        })"

text \<open>Whether the loaded file has to be read again.\<close>

definition profile_stale :: "profile \<Rightarrow> bytes \<Rightarrow> bool" where
  "profile_stale st fName =
     (case p_conf st of
        None \<Rightarrow> False
      | Some ce \<Rightarrow>
          (if ce_filename ce \<noteq> fName then True
           else (case p_files st (ce_filename ce) of
                   None \<Rightarrow> True
                 | Some (_, st_mtime) \<Rightarrow> st_mtime > tmRead ce)))"

definition profile_drop :: "penv \<Rightarrow> profile \<Rightarrow> profile option" where
  "profile_drop e st = do {
     st \<leftarrow> (if p_bWrite st
            then do { st \<leftarrow> profile_save e st; Some (st\<lparr>p_bWrite := False\<rparr>) }
            else Some st);
     (home, fr) \<leftarrow> confEntryFree (p_home st) (p_conf st);
     Some (st\<lparr>p_home := home, p_conf := None, p_section := []\<rparr>)
   }"

definition profile_load :: "penv \<Rightarrow> profile \<Rightarrow> bytes \<Rightarrow> profile option" where
  "profile_load e st fName = do {
     ce \<leftarrow> confEntryNew fName (map_option fst (p_files st fName)) (pe_now e);
     Some (st\<lparr>p_conf := Some ce, p_bWrite := False, p_section := []\<rparr>)
   }"

text \<open>\<open>strcpy(_section, section)\<close> into the 128 bytes of \<open>_section\<close>.\<close>

definition set_section :: "profile \<Rightarrow> bytes \<Rightarrow> profile option" where
  "set_section st sec = (if length sec < 128 then Some (st\<lparr>p_section := sec\<rparr>) else None)"

definition setProfileSection :: "penv \<Rightarrow> profile \<Rightarrow> bytes \<Rightarrow> bytes \<Rightarrow> (bool \<times> profile) option" where
  "setProfileSection e st sec fName = do {
     st \<leftarrow> (if profile_stale st fName then profile_drop e st else Some st);
     st \<leftarrow> (if p_conf st = None then profile_load e st fName else Some st);
     (case p_conf st of
        None \<Rightarrow> Some (False, st)
      | Some ce \<Rightarrow>
          (if p_section st \<noteq> sec then do {
             (ok, ce) \<leftarrow> currentSectionSet ce sec;
             let st = st\<lparr>p_conf := Some ce\<rparr>;
             if ok then do { st \<leftarrow> set_section st sec; Some (True, st) }
             else Some (False, st\<lparr>p_section := []\<rparr>)
           }
           else Some (True, st)))
   }"

text \<open>\<open>atoi\<close>: \<open>strtol\<close> saturated to 64 bits, converted to \<open>int\<close>.\<close>

definition atoi :: "bytes \<Rightarrow> int" where
  "atoi str =
     (let str = dropWhile isspace str;
          neg = (str \<noteq> [] \<and> hd str = 45);
          str = (if str \<noteq> [] \<and> (hd str = 45 \<or> hd str = 43) then tl str else str);
          v = int (dec_val (takeWhile isdigit str))
      in s32 (if neg then max INT64_MIN (- v) else min INT64_MAX v))"

definition GetPrivateProfileInt ::
  "penv \<Rightarrow> profile \<Rightarrow> bytes \<Rightarrow> bytes \<Rightarrow> int \<Rightarrow> bytes \<Rightarrow> (int \<times> profile) option" where
  "GetPrivateProfileInt e st sec key initVal fName = do {
     (ok, st) \<leftarrow> setProfileSection e st sec fName;
     if ok then do {
       pRes \<leftarrow> confEntryGet (p_conf st) (Some key);
       Some (case pRes of None \<Rightarrow> initVal | Some v \<Rightarrow> atoi v, st)
     }
     else Some (initVal, st)
   }"

text \<open>\<open>bufsize\<close> is the size of the caller's buffer \<open>pRet\<close>. The code copies the whole value, whatever
  \<open>len\<close> says. The result is the returned length, the string in the buffer and the state.\<close>

definition GetPrivateProfileString ::
  "penv \<Rightarrow> profile \<Rightarrow> bytes \<Rightarrow> bytes \<Rightarrow> bytes option \<Rightarrow> nat \<Rightarrow> int \<Rightarrow> bytes
     \<Rightarrow> (int \<times> bytes \<times> profile) option" where
  "GetPrivateProfileString e st sec key initVal bufsize len fName = do {
     (ok, st) \<leftarrow> setProfileSection e st sec fName;
     pRes \<leftarrow> (if ok then do {
                 r \<leftarrow> confEntryGet (p_conf st) (Some key);
                 Some (case r of None \<Rightarrow> initVal | Some v \<Rightarrow> Some v)
               }
               else Some initVal);
     (case pRes of
        Some v \<Rightarrow> if length v < bufsize then Some (int (length v), v, st) else None
      | None \<Rightarrow> if 0 < bufsize then Some (len, [], st) else None)
   }"

text \<open>The block both \<open>Put\<close> functions start with: select the section, or create it.\<close>

definition put_section :: "penv \<Rightarrow> profile \<Rightarrow> bytes \<Rightarrow> bytes \<Rightarrow> (bool \<times> profile) option" where
  "put_section e st sec fName = do {
     (ok, st) \<leftarrow> setProfileSection e st sec fName;
     if ok then Some (True, st)
     else do {
       (made, ce) \<leftarrow> entryNew True (p_conf st) (Some sec);
       let st = st\<lparr>p_conf := Some ce\<rparr>;
       if made then do { st \<leftarrow> set_section st sec; Some (True, st) }
       else Some (False, st\<lparr>p_section := []\<rparr>)
     }
   }"

definition PutPrivateProfileString ::
  "penv \<Rightarrow> profile \<Rightarrow> bytes \<Rightarrow> bytes option \<Rightarrow> bytes \<Rightarrow> bytes \<Rightarrow> profile option" where
  "PutPrivateProfileString e st sec key val fName = do {
     (go, st) \<leftarrow> put_section e st sec fName;
     if go then
       (case p_conf st of
          None \<Rightarrow> None
        | Some ce \<Rightarrow> do {
            (ok, ce) \<leftarrow> confEntryPut ce key val;
            Some (st\<lparr>p_conf := Some ce, p_bWrite := True\<rparr>)
          })
     else Some st
   }"

text \<open>The same code on the string \<open>sprintf(szVal, "%d", val)\<close>.\<close>

definition PutPrivateProfileInt ::
  "penv \<Rightarrow> profile \<Rightarrow> bytes \<Rightarrow> bytes option \<Rightarrow> int \<Rightarrow> bytes \<Rightarrow> profile option" where
  "PutPrivateProfileInt e st sec key val fName =
     PutPrivateProfileString e st sec key (dec_int val) fName"

definition SavePrivateProfile :: "penv \<Rightarrow> profile \<Rightarrow> profile option" where
  "SavePrivateProfile e st =
     (if p_bWrite st \<and> p_conf st \<noteq> None
      then do { st \<leftarrow> profile_save e st; Some (st\<lparr>p_bWrite := False\<rparr>) }
      else Some st)"

text \<open>\<open>confEntryDestroy\<close> frees \<open>_confWork\<close> and keeps the pointer; the model records the
  calls of \<open>free\<close> and the state of the home pointer.\<close>

definition confEntryDestroy :: "profile \<Rightarrow> (homeptr \<times> conf_freed list) option" where
  "confEntryDestroy st = confEntryFree (p_home st) (p_conf st)"

definition delspace :: "bytes \<Rightarrow> bytes option" where
  "delspace szdata =
     (let val = filter (\<lambda>b. \<not> isspace b) szdata
      in if length val < 256 then Some val else None)"

section \<open>The invariant of a loaded file\<close>

definition conf_inv :: "ConfEntry \<Rightarrow> bool" where
  "conf_inv ce \<longleftrightarrow>
     maxEntry ce = int (length (sections ce)) \<and>
     -1 \<le> curEntryIdx ce \<and> curEntryIdx ce < maxEntry ce \<and>
     distinct (map se_name (sections ce)) \<and>
     (\<forall>se \<in> set (sections ce). se_name se \<noteq> [] \<and> hash_inv (se_h se))"

text \<open>The contents: section name and key to value.\<close>

definition find_sect :: "SectEntry list \<Rightarrow> bytes \<Rightarrow> SectEntry option" where
  "find_sect ses n = List.find (\<lambda>se. se_name se = n) ses"

definition conf_map :: "ConfEntry \<Rightarrow> bytes \<Rightarrow> bytes \<Rightarrow> bytes option" where
  "conf_map ce sec key =
     (case find_sect (sections ce) sec of None \<Rightarrow> None | Some se \<Rightarrow> hash_get (se_h se) key)"

lemma currentSection_loop_spec:
  assumes "mx = length secs" and "i \<le> mx"
  shows "\<exists>r. currentSection_loop secs s mx i = Some r \<and> i \<le> r \<and>
     (\<forall>j. i \<le> j \<and> j < r \<longrightarrow> se_name (secs ! j) \<noteq> s) \<and>
     (r < mx \<longrightarrow> se_name (secs ! r) = s) \<and> r \<le> mx"
  using assms
proof (induction secs s mx i rule: currentSection_loop.induct)
  case (1 secs s mx i)
  consider (stop) "i < mx" "se_name (secs ! i) = s" | (more) "i < mx" "se_name (secs ! i) \<noteq> s" | (finish) "i = mx"
    using 1 by linarith
  then show ?case
  proof cases
    case more
    with 1 obtain r where r: "currentSection_loop secs s mx (Suc i) = Some r" "Suc i \<le> r"
        "\<forall>j. Suc i \<le> j \<and> j < r \<longrightarrow> se_name (secs ! j) \<noteq> s" "r < mx \<longrightarrow> se_name (secs ! r) = s" "r \<le> mx"
      by auto
    have "\<forall>j. i \<le> j \<and> j < r \<longrightarrow> se_name (secs ! j) \<noteq> s"
      using r(3) more(2) by (metis Suc_leI le_neq_implies_less)
    moreover have "currentSection_loop secs s mx i = Some r"
      by (subst currentSection_loop.simps) (use r(1) more 1 in simp)
    ultimately show ?thesis using r by auto
  qed (subst currentSection_loop.simps, use 1 in auto)+
qed

lemma currentSectionSet_spec:
  assumes inv: "conf_inv ce"
  obtains (found) i where "currentSectionSet ce s = Some (True, ce\<lparr>curEntryIdx := int i\<rparr>)"
      and "i < length (sections ce)" and "se_name (sections ce ! i) = s"
      and "conf_inv (ce\<lparr>curEntryIdx := int i\<rparr>)"
    | (missing) "currentSectionSet ce s = Some (False, ce\<lparr>curEntryIdx := -1\<rparr>)"
      and "s \<notin> se_name ` set (sections ce)" and "conf_inv (ce\<lparr>curEntryIdx := -1\<rparr>)"
proof -
  let ?n = "length (sections ce)"
  have mx: "nat (maxEntry ce) = ?n" using inv by (simp add: conf_inv_def)
  obtain r where r: "currentSection_loop (sections ce) s ?n 0 = Some r"
      "\<forall>j < r. se_name (sections ce ! j) \<noteq> s" "r < ?n \<longrightarrow> se_name (sections ce ! r) = s" "r \<le> ?n"
    using currentSection_loop_spec [of ?n "sections ce" 0 s] by auto
  show ?thesis
  proof (cases "r < ?n")
    case True
    then show ?thesis using r inv mx
      by (intro found [of r]) (auto simp: currentSectionSet_def conf_inv_def)
  next
    case False
    with r have "r = ?n" by simp
    then show ?thesis using r inv mx
      by (intro missing) (auto simp: currentSectionSet_def conf_inv_def in_set_conv_nth)
  qed
qed

lemma section_add_spec:
  assumes inv: "conf_inv ce" and cur: "0 \<le> curEntryIdx ce"
  shows "\<exists>i h'. i = nat (curEntryIdx ce) \<and> i < length (sections ce) \<and>
     hash_inv h' \<and> hash_get h' = (hash_get (se_h (sections ce ! i)))(k \<mapsto> v) \<and>
     h' = hash_put (se_h (sections ce ! i)) k v \<and>
     section_add ce k v =
       Some (ce\<lparr>sections := (sections ce)[i := (sections ce ! i)\<lparr>se_h := h'\<rparr>]\<rparr>)"
proof -
  let ?i = "nat (curEntryIdx ce)"
  have i: "?i < length (sections ce)" using inv cur by (auto simp: conf_inv_def)
  then have "hash_inv (se_h (sections ce ! ?i))" using inv by (simp add: conf_inv_def)
  from hash_add_correct [OF this, of k v] i cur show ?thesis
    by (auto simp: section_add_def Let_def hash_put_def)
qed

lemma conf_inv_section_update:
  assumes "conf_inv ce" and "i < length (sections ce)" and "hash_inv h"
  shows "conf_inv (ce\<lparr>sections := (sections ce)[i := (sections ce ! i)\<lparr>se_h := h\<rparr>]\<rparr>)"
proof -
  have "map se_name ((sections ce)[i := (sections ce ! i)\<lparr>se_h := h\<rparr>]) = map se_name (sections ce)"
    using assms(2) by (simp add: map_update) (metis list_update_id map_update)
  with assms show ?thesis
    by (auto simp: conf_inv_def dest!: set_update_subset_insert [THEN subsetD])
qed

lemma section_add_inv:
  assumes "conf_inv ce" and "0 \<le> curEntryIdx ce"
  shows "\<exists>ce'. section_add ce k v = Some ce' \<and> conf_inv ce' \<and> curEntryIdx ce' = curEntryIdx ce"
  using section_add_spec [OF assms, of k v] conf_inv_section_update [OF assms(1)] by auto

lemma hash_new_100: "\<exists>h. hash_new HASH_SIZE = Some h \<and> hash_inv h \<and> hash_get h = Map.empty"
  by (rule hash_new_inv) simp_all

lemma entryNew_spec:
  assumes inv: "conf_inv ce" and name: "n \<noteq> []"
  obtains (old) i where "entryNew True (Some ce) (Some n) = Some (True, ce\<lparr>curEntryIdx := int i\<rparr>)"
      and "i < length (sections ce)" and "se_name (sections ce ! i) = n"
      and "conf_inv (ce\<lparr>curEntryIdx := int i\<rparr>)"
    | (new) h ce' where "entryNew True (Some ce) (Some n) = Some (True, ce')"
      and "n \<notin> se_name ` set (sections ce)"
      and "ce' = ce\<lparr>sections := sections ce @ [\<lparr>se_name = n, se_h = h\<rparr>],
                     curEntryIdx := maxEntry ce, maxEntry := maxEntry ce + 1\<rparr>"
      and "hash_inv h" and "hash_get h = Map.empty" and "hash_new HASH_SIZE = Some h" and "conf_inv ce'"
proof (cases rule: currentSectionSet_spec [OF inv, of n])
  case (1 i)
  obtain c cs where n: "n = c # cs" using name by (cases n) auto
  with 1 show ?thesis by (intro old [of i]) (auto simp: entryNew_def)
next
  case 2
  obtain c cs where n: "n = c # cs" using name by (cases n) auto
  obtain h where h: "hash_new HASH_SIZE = Some h" "hash_inv h" "hash_get h = Map.empty"
    using hash_new_100 by blast
  let ?ce = "ce\<lparr>sections := sections ce @ [\<lparr>se_name = n, se_h = h\<rparr>],
               curEntryIdx := maxEntry ce, maxEntry := maxEntry ce + 1\<rparr>"
  have "entryNew True (Some ce) (Some n) = Some (True, ?ce)"
    using 2 n h by (simp add: entryNew_def)
  moreover have "conf_inv ?ce" using inv 2 h name by (auto simp: conf_inv_def)
  ultimately show ?thesis using 2 h by (intro new) auto
qed

lemma entryNew_new:
  assumes inv: "conf_inv ce" and name: "n \<noteq> []" and new: "n \<notin> se_name ` set (sections ce)"
  shows "\<exists>h0 ce1. entryNew True (Some ce) (Some n) = Some (True, ce1) \<and>
     ce1 = ce\<lparr>sections := sections ce @ [\<lparr>se_name = n, se_h = h0\<rparr>],
              curEntryIdx := maxEntry ce, maxEntry := maxEntry ce + 1\<rparr> \<and>
     hash_inv h0 \<and> hash_get h0 = Map.empty \<and> conf_inv ce1"
proof (cases rule: entryNew_spec [OF inv name])
  case (1 i)
  then have "n \<in> se_name ` set (sections ce)" by (metis imageI nth_mem)
  with new show ?thesis by contradiction
next
  case (2 h ce')
  then show ?thesis by blast
qed

lemma entryNew_inv:
  assumes "conf_inv ce"
  shows "\<exists>b ce'. entryNew True (Some ce) (Some n) = Some (b, ce') \<and> conf_inv ce'"
proof (cases "n = []")
  case True
  then show ?thesis using assms by (auto simp: entryNew_def conf_inv_def)
next
  case False
  from entryNew_spec [OF assms False] show ?thesis by metis
qed

lemma entryNew_current:
  assumes inv: "conf_inv ce" and e: "entryNew True (Some ce) (Some n) = Some (b, ce')"
  shows "conf_inv ce' \<and> ce_filename ce' = ce_filename ce \<and> (0 \<le> curEntryIdx ce' \<longleftrightarrow> n \<noteq> [])"
proof (cases "n = []")
  case True
  then show ?thesis using assms by (auto simp: entryNew_def conf_inv_def)
next
  case False
  have m: "0 \<le> maxEntry ce" using inv by (simp add: conf_inv_def)
  show ?thesis
  proof (cases rule: entryNew_spec [OF inv False])
    case (1 i)
    then show ?thesis using e False by simp
  next
    case (2 h ce1)
    then show ?thesis using e False m by simp
  qed
qed

text \<open>Where the reading of a file is undefined: in a section, a line with something behind the equals sign that is blank.\<close>

definition blank_value :: "bytes \<Rightarrow> bool" where
  "blank_value line \<longleftrightarrow>
     (let data = takeWhile (\<lambda>b. b \<noteq> 0) line in
      (data \<noteq> [] \<longrightarrow> hd data \<noteq> 35 \<and> hd data \<noteq> 91) \<and>
      (case strchr data 61 of None \<Rightarrow> False | Some (key, rest) \<Rightarrow> tl rest \<noteq> [] \<and> trimString (tl rest) = []))"

definition opens_section :: "bytes \<Rightarrow> bool \<Rightarrow> bool" where
  "opens_section line s \<longleftrightarrow>
     (let data = takeWhile (\<lambda>b. b \<noteq> 0) line in
      if data \<noteq> [] \<and> hd data = 91 then (case strchr (tl data) 93 of None \<Rightarrow> False | Some (name, _) \<Rightarrow> name \<noteq> []) else s)"

fun blank_hit :: "bool \<Rightarrow> bytes list \<Rightarrow> bool" where
  "blank_hit s [] = False"
| "blank_hit s (l # ls) = (s \<and> blank_value l \<or> blank_hit (opens_section l s) ls)"

function fgets_lines :: "bytes \<Rightarrow> bytes list" where
  "fgets_lines content =
     (if content = [] then [] else take (fgets_len 256 content) content # fgets_lines (drop (fgets_len 256 content) content))"
  by pat_completeness auto
termination
  by (relation "measure length") (auto simp: fgets_len_def)

declare fgets_lines.simps [simp del]

text \<open>What one line does: it is undefined, or the invariant is kept.\<close>

definition line_result :: "ConfEntry \<Rightarrow> bool \<Rightarrow> bool \<Rightarrow> ConfEntry option \<Rightarrow> bool" where
  "line_result ce bad sect r =
     (case r of None \<Rightarrow> bad
      | Some ce' \<Rightarrow> \<not> bad \<and> conf_inv ce' \<and> ce_filename ce' = ce_filename ce \<and> (0 \<le> curEntryIdx ce' \<longleftrightarrow> sect))"

lemma parse_config_line_spec:
  assumes inv: "conf_inv ce"
  shows "line_result ce (0 \<le> curEntryIdx ce \<and> blank_value line) (opens_section line (0 \<le> curEntryIdx ce)) (parse_config_line ce line)"
proof -
  have neg: "conf_inv (ce\<lparr>curEntryIdx := -1\<rparr>)" using inv by (auto simp: conf_inv_def)
  have new: "line_result ce False (n \<noteq> []) (map_option snd (entryNew True (Some ce) (Some n)))" for n
    using entryNew_inv [OF inv, of n] entryNew_current [OF inv, of n] by (auto simp: line_result_def)
  have fn: "section_add ce k v = Some ce' \<Longrightarrow> ce_filename ce' = ce_filename ce" for k v ce'
    by (auto simp: section_add_def Let_def bind_eq_Some_conv split: if_splits)
  have add: "0 \<le> curEntryIdx ce \<Longrightarrow> line_result ce False True (section_add ce k v)" for k v
    using section_add_inv [OF inv, of k v] fn [of k v] by (auto simp: line_result_def)
  have same: "line_result ce False (0 \<le> curEntryIdx ce) (Some ce)" using inv by (simp add: line_result_def)
  have undef: "line_result ce True sect None" for sect by (simp add: line_result_def)
  define data where "data = takeWhile (\<lambda>b. b \<noteq> 0) line"
  consider "data \<noteq> []" "hd data = 35" | "data \<noteq> []" "hd data = 91" | "data \<noteq> [] \<longrightarrow> hd data \<noteq> 35 \<and> hd data \<noteq> 91" by blast
  then show ?thesis
  proof cases
    case 1
    then show ?thesis using same by (simp add: parse_config_line_def blank_value_def opens_section_def Let_def data_def [symmetric])
  next
    case 2
    then show ?thesis using new neg
      by (cases "strchr (tl data) 93") (auto simp: parse_config_line_def blank_value_def opens_section_def Let_def data_def [symmetric] line_result_def)
  next
    case 3
    then have "parse_config_line ce line = (if curEntryIdx ce \<ge> 0 then
        (case strchr data 61 of None \<Rightarrow> Some ce
         | Some (key, rest) \<Rightarrow> if tl rest = [] then Some ce else if trimString (tl rest) = [] then None
           else (let val = (if last (trimString (tl rest)) = 10 then butlast (trimString (tl rest)) else trimString (tl rest))
                 in if val \<noteq> [] then section_add ce (trimString key) val else Some ce)) else Some ce)"
      and "blank_value line = (case strchr data 61 of None \<Rightarrow> False | Some (key, rest) \<Rightarrow> tl rest \<noteq> [] \<and> trimString (tl rest) = [])"
      and "opens_section line (0 \<le> curEntryIdx ce) = (0 \<le> curEntryIdx ce)"
      unfolding parse_config_line_def blank_value_def opens_section_def Let_def data_def [symmetric] by auto
    then show ?thesis using same add undef by (auto simp: Let_def split: option.split)
  qed
qed

lemma parse_config_lines_spec:
  "conf_inv ce \<Longrightarrow>
    (case parse_config_lines ce content of None \<Rightarrow> blank_hit (0 \<le> curEntryIdx ce) (fgets_lines content)
     | Some ce' \<Rightarrow> \<not> blank_hit (0 \<le> curEntryIdx ce) (fgets_lines content) \<and> conf_inv ce' \<and> ce_filename ce' = ce_filename ce)"
proof (induction ce content rule: parse_config_lines.induct)
  case (1 ce content)
  show ?case
  proof (cases "content = []")
    case True
    then show ?thesis using 1 by (simp add: parse_config_lines.simps fgets_lines.simps)
  next
    case False
    define l where "l = take (fgets_len 256 content) content"
    define rest where "rest = drop (fgets_len 256 content) content"
    have line: "line_result ce (0 \<le> curEntryIdx ce \<and> blank_value l) (opens_section l (0 \<le> curEntryIdx ce)) (parse_config_line ce l)"
      by (rule parse_config_line_spec [OF "1.prems"])
    have eqs: "parse_config_lines ce content = parse_config_line ce l \<bind> (\<lambda>ce'. parse_config_lines ce' rest)"
      "fgets_lines content = l # fgets_lines rest"
      using False by (simp_all add: parse_config_lines.simps [of ce content] fgets_lines.simps [of content] l_def rest_def)
    show ?thesis
    proof (cases "parse_config_line ce l")
      case None
      then show ?thesis using line eqs by (simp add: line_result_def)
    next
      case (Some ce1)
      then have ce1: "conf_inv ce1" "ce_filename ce1 = ce_filename ce" "(0 \<le> curEntryIdx ce1) = opens_section l (0 \<le> curEntryIdx ce)"
        "\<not> (0 \<le> curEntryIdx ce \<and> blank_value l)" using line by (simp_all add: line_result_def)
      show ?thesis using "1.IH" [OF False, folded l_def rest_def, OF Some ce1(1)] ce1 Some eqs by (simp split: option.splits)
    qed
  qed
qed

section \<open>Reading back what was written\<close>

definition clean_name :: "bytes \<Rightarrow> bool" where
  "clean_name n \<longleftrightarrow> n \<noteq> [] \<and> 0 \<notin> set n \<and> 10 \<notin> set n \<and> 93 \<notin> set n \<and> length n \<le> 252"

definition clean_entry :: "bytes \<times> bytes \<Rightarrow> bool" where
  "clean_entry = (\<lambda>(k, v).
     trimString k = k \<and> trimString v = v \<and> v \<noteq> [] \<and>
     0 \<notin> set k \<and> 10 \<notin> set k \<and> 61 \<notin> set k \<and> 0 \<notin> set v \<and> 10 \<notin> set v \<and>
     (k \<noteq> [] \<longrightarrow> hd k \<noteq> 35 \<and> hd k \<noteq> 91) \<and> length k + length v \<le> 253)"

definition clean_section :: "SectEntry \<Rightarrow> bool" where
  "clean_section se \<longleftrightarrow> clean_name (se_name se) \<and> hash_inv (se_h se) \<and>
     (\<forall>np \<in> set (concat (hashtab (se_h se))). \<exists>v. nl_value np = Some v \<and> clean_entry (nl_key np, v))"

definition entry_line :: "bytes \<times> bytes \<Rightarrow> bytes" where
  "entry_line = (\<lambda>(k, v). k @ 61 # v @ [10])"

lemma trimString_fix_last:
  assumes "trimString s = s" and "s \<noteq> []"
  shows "\<not> trim_space (hd s) \<and> \<not> trim_space (last s)"
proof -
  let ?l = "dropWhile trim_space s"
  let ?r = "dropWhile trim_space (rev ?l)"
  have len: "length ?r \<le> length ?l" "length ?l \<le> length s"
    using length_dropWhile_le [of trim_space "rev ?l"] by (simp_all add: length_dropWhile_le)
  have "length ?r = length s" using arg_cong [OF assms(1), of length] by (simp add: trimString_def Let_def)
  with len have eq: "length ?l = length s" "length ?r = length ?l" by linarith+
  from eq(1) have l: "\<not> trim_space (hd s)"
    using assms(2) length_dropWhile_le [of trim_space "tl s"] by (cases s) auto
  then have "?l = s" using assms(2) by (cases s) auto
  with eq(2) assms(2) have "\<not> trim_space (last s)"
    using length_dropWhile_le [of trim_space "tl (rev s)"] by (cases s rule: rev_cases) auto
  with l show ?thesis by simp
qed

lemma trim_space_newline: "trim_space 10"
  by (simp add: trim_space_def isspace_def bit_numeral_simps)

lemma trimString_newline:
  assumes "trimString s = s" and "s \<noteq> []"
  shows "trimString (s @ [10]) = s"
proof -
  from trimString_fix_last [OF assms] have n: "\<not> trim_space (hd s)" "\<not> trim_space (last s)" by auto
  from n(1) assms(2) have "dropWhile trim_space (s @ [10]) = s @ [10]" by (cases s) auto
  moreover have "dropWhile trim_space (rev s) = rev s"
    using n(2) assms(2) by (cases s rule: rev_cases) auto
  ultimately show ?thesis by (simp add: trimString_def trim_space_newline)
qed

lemma parse_config_lines_line:
  assumes "10 \<notin> set l" and "length l \<le> 254"
  shows "parse_config_lines ce (l @ 10 # rest) =
           Option.bind (parse_config_line ce (l @ [10])) (\<lambda>ce'. parse_config_lines ce' rest)"
proof -
  have "takeWhile (\<lambda>b. b \<noteq> 10) (l @ 10 # rest) = l"
    using assms(1) by (subst takeWhile_append2) auto
  then have "fgets_len 256 (l @ 10 # rest) = length l + 1"
    using assms(2) by (simp add: fgets_len_def)
  then show ?thesis by (subst parse_config_lines.simps) simp
qed

lemma parse_header_line:
  assumes "clean_name n"
  shows "parse_config_line ce (91 # n @ [93, 10]) = map_option snd (entryNew True (Some ce) (Some n))"
proof -
  have "takeWhile (\<lambda>b. b \<noteq> 0) (91 # n @ [93, 10]) = 91 # n @ [93, 10]"
    using assms by (auto simp: clean_name_def takeWhile_eq_all_conv)
  moreover have "takeWhile (\<lambda>b. b \<noteq> 93) (n @ [93, 10]) = n"
    using assms by (subst takeWhile_append2) (auto simp: clean_name_def)
  ultimately show ?thesis by (simp add: parse_config_line_def strchr_def)
qed

lemma parse_entry_line:
  assumes "clean_entry (k, v)" and "0 \<le> curEntryIdx ce"
  shows "parse_config_line ce (k @ 61 # v @ [10]) = section_add ce k v"
proof -
  have all: "takeWhile (\<lambda>b. b \<noteq> 0) (k @ 61 # v @ [10]) = k @ 61 # v @ [10]"
    using assms(1) by (auto simp: clean_entry_def takeWhile_eq_all_conv)
  have key: "takeWhile (\<lambda>b. b \<noteq> 61) (k @ 61 # v @ [10]) = k"
    using assms(1) by (subst takeWhile_append2) (auto simp: clean_entry_def)
  have val: "dropWhile (\<lambda>b. b \<noteq> 61) (k @ 61 # v @ [10]) = 61 # v @ [10]"
    using assms(1) by (subst dropWhile_append2) (auto simp: clean_entry_def)
  have hd: "hd (k @ 61 # v @ [10]) \<noteq> 35 \<and> hd (k @ 61 # v @ [10]) \<noteq> 91"
    using assms(1) by (cases k) (auto simp: clean_entry_def)
  have "trimString (v @ [10]) = v" "v \<noteq> []" "trimString k = k"
    using assms(1) by (auto simp: clean_entry_def intro: trimString_newline)
  moreover have "last v \<noteq> 10"
  proof -
    have "10 \<notin> set v" "v \<noteq> []" using assms(1) by (simp_all add: clean_entry_def)
    then show ?thesis by (metis last_in_set)
  qed
  ultimately show ?thesis using all key val hd assms(2)
    unfolding parse_config_line_def Let_def all by (simp add: strchr_def)
qed

lemma parse_blank_line: "parse_config_line ce [10] = Some ce"
  by (simp add: parse_config_line_def strchr_def)

lemma section_add_last:
  assumes "conf_inv ce" and "sections ce = ss @ [\<lparr>se_name = n, se_h = h\<rparr>]" and "curEntryIdx ce = int (length ss)"
  shows "section_add ce k v = Some (ce\<lparr>sections := ss @ [\<lparr>se_name = n, se_h = hash_put h k v\<rparr>]\<rparr>)"
  using section_add_spec [OF assms(1), of k v] assms(2,3) by auto

lemma parse_entry_lines:
  assumes "conf_inv ce" and "sections ce = ss @ [\<lparr>se_name = n, se_h = h\<rparr>]"
    and "curEntryIdx ce = int (length ss)" and "\<forall>kv \<in> set kvs. clean_entry kv"
  shows "parse_config_lines ce (concat (map entry_line kvs) @ rest) =
     parse_config_lines (ce\<lparr>sections := ss @ [\<lparr>se_name = n, se_h = fold (\<lambda>(k, v) h. hash_put h k v) kvs h\<rparr>]\<rparr>) rest"
  using assms
proof (induction kvs arbitrary: ce h)
  case Nil
  then have "ce\<lparr>sections := ss @ [\<lparr>se_name = n, se_h = h\<rparr>]\<rparr> = ce" by (cases ce) simp
  then show ?case by simp
next
  case (Cons kv kvs)
  obtain k v where kv: "kv = (k, v)" by fastforce
  let ?ce = "ce\<lparr>sections := ss @ [\<lparr>se_name = n, se_h = hash_put h k v\<rparr>]\<rparr>"
  have clean: "clean_entry (k, v)" using Cons.prems(4) kv by simp
  have add: "section_add ce k v = Some ?ce" by (rule section_add_last [OF Cons.prems(1-3)])
  then have inv: "conf_inv ?ce" using section_add_inv [OF Cons.prems(1), of k v] Cons.prems(3) by auto
  have "parse_config_lines ce ((k @ 61 # v) @ 10 # concat (map entry_line kvs) @ rest) =
      parse_config_lines ?ce (concat (map entry_line kvs) @ rest)"
    by (subst parse_config_lines_line)
      (use clean add Cons.prems(3) parse_entry_line [OF clean, of ce] in \<open>auto simp: clean_entry_def\<close>)
  moreover have "parse_config_lines ?ce (concat (map entry_line kvs) @ rest) =
      parse_config_lines (?ce\<lparr>sections := ss @ [\<lparr>se_name = n,
        se_h = fold (\<lambda>(k, v) h. hash_put h k v) kvs (hash_put h k v)\<rparr>]\<rparr>) rest"
    using Cons.prems by (intro Cons.IH inv) auto
  ultimately show ?case by (simp add: kv entry_line_def)
qed

lemma clean_section_text:
  assumes "clean_section se" and "hash_string cap (se_h se) = Some r"
    and "length (hash_text (se_h se)) + 256 \<le> cap"
  shows "(case r of None \<Rightarrow> [] | Some b \<Rightarrow> b) = concat (map entry_line (hash_entries (se_h se)))"
proof -
  let ?h = "se_h se"
  have all: "take (nat (hsize ?h)) (hashtab ?h) = hashtab ?h"
    using assms(1) by (simp add: clean_section_def hash_inv_def)
  have line: "nl_value np = Some v \<Longrightarrow> node_text np = concat (map entry_line (node_entry np))" for np v
    by (simp add: node_text_def node_entry_def entry_line_def lit_def)
  have "(\<forall>np \<in> set nps. \<exists>v. nl_value np = Some v) \<Longrightarrow>
      concat (map node_text nps) = concat (map entry_line (concat (map node_entry nps)))" for nps
    by (induction nps) (auto simp: line)
  then have tx: "hash_text ?h = concat (map entry_line (hash_entries ?h))"
    using assms(1) unfolding clean_section_def hash_text_def hash_entries_def all by blast
  show ?thesis
  proof (cases "concat (hashtab ?h) = []")
    case True
    have "\<forall>ch \<in> set chs. ch = [] \<Longrightarrow> hash_string_tab cap chs (0, b) = Some (0, b)" for chs b
      by (induction chs) auto
    then have "r = None" using assms(2) True all by (simp add: hash_string_def)
    then show ?thesis using True by (simp add: hash_entries_def del: concat_eq_Nil_conv)
  next
    case False
    then have "r = Some (hash_text ?h)"
      using hash_string_Some [OF assms(2,3)] all by simp
    then show ?thesis using tx by simp
  qed
qed

lemma clean_section_entries: "clean_section se \<Longrightarrow> kv \<in> set (hash_entries (se_h se)) \<Longrightarrow> clean_entry kv"
  by (fastforce simp: clean_section_def hash_entries_def node_entry_def)

lemma parse_saved_section:
  assumes se: "clean_section se" and save: "save_section cap se = Some out"
    and cap: "length (hash_text (se_h se)) + 256 \<le> cap"
    and inv: "conf_inv ce" and new: "se_name se \<notin> se_name ` set (sections ce)"
  shows "\<exists>h ce'. parse_config_lines ce (out @ rest) = parse_config_lines ce' rest \<and> conf_inv ce' \<and>
     sections ce' = sections ce @ [\<lparr>se_name = se_name se, se_h = h\<rparr>] \<and> hash_get h = hash_get (se_h se)"
proof -
  let ?n = "se_name se" and ?ss = "sections ce" and ?kvs = "hash_entries (se_h se)"
  have name: "clean_name ?n" and hinv: "hash_inv (se_h se)" using se by (auto simp: clean_section_def)
  obtain r where r: "hash_string cap (se_h se) = Some r"
      and out: "out = lit ''['' @ ?n @ lit '']'' @ [10] @ (case r of None \<Rightarrow> [] | Some b \<Rightarrow> b) @ [10]"
    using save by (auto simp: save_section_def bind_eq_Some_conv)
  have out2: "out @ rest = (91 # ?n @ [93]) @ 10 # concat (map entry_line ?kvs) @ [] @ 10 # rest"
    using clean_section_text [OF se r cap] by (simp add: out lit_def)
  from name have "?n \<noteq> []" by (simp add: clean_name_def)
  then obtain h0 ce1 where e: "entryNew True (Some ce) (Some ?n) = Some (True, ce1)"
      and ce1: "ce1 = ce\<lparr>sections := ?ss @ [\<lparr>se_name = ?n, se_h = h0\<rparr>],
                     curEntryIdx := maxEntry ce, maxEntry := maxEntry ce + 1\<rparr>"
      and h0: "hash_inv h0" "hash_get h0 = Map.empty" and inv1: "conf_inv ce1"
    using entryNew_new [OF inv _ new] by blast
  let ?h = "fold (\<lambda>(k, v) h. hash_put h k v) ?kvs h0"
  let ?ce2 = "ce1\<lparr>sections := ?ss @ [\<lparr>se_name = ?n, se_h = ?h\<rparr>]\<rparr>"
  have 1: "parse_config_lines ce (out @ rest) =
      parse_config_lines ce1 (concat (map entry_line ?kvs) @ [] @ 10 # rest)"
    unfolding out2
    by (subst parse_config_lines_line)
      (use name parse_header_line [OF name, of ce] e in \<open>auto simp: clean_name_def\<close>)
  have cur: "sections ce1 = ?ss @ [\<lparr>se_name = ?n, se_h = h0\<rparr>]" "curEntryIdx ce1 = int (length ?ss)"
    using ce1 inv by (auto simp: conf_inv_def)
  have 2: "parse_config_lines ce1 (concat (map entry_line ?kvs) @ [] @ 10 # rest) =
      parse_config_lines ?ce2 ([] @ 10 # rest)"
    using clean_section_entries [OF se] by (intro parse_entry_lines [OF inv1 cur]) auto
  have 3: "parse_config_lines ?ce2 ([] @ 10 # rest) = parse_config_lines ?ce2 rest"
    by (subst parse_config_lines_line) (auto simp: parse_blank_line)
  have "conf_inv ?ce2"
    using conf_inv_section_update [OF inv1, of "length ?ss" ?h] hs.fold_put_inv [OF h0(1)] cur by simp
  with 1 2 3 hs.fold_put_entries [OF hinv h0] show ?thesis by (intro exI [of _ ?h] exI [of _ ?ce2]) simp
qed

lemma parse_saved_sections:
  assumes "\<forall>se \<in> set ses. clean_section se \<and> length (hash_text (se_h se)) + 256 \<le> cap"
    and "save_sections cap ses = Some out" and "conf_inv ce"
    and "distinct (map se_name (sections ce @ ses))"
  shows "\<exists>ce' ses'. parse_config_lines ce out = Some ce' \<and> conf_inv ce' \<and> sections ce' = sections ce @ ses' \<and>
     map se_name ses' = map se_name ses \<and> map (\<lambda>se. hash_get (se_h se)) ses' = map (\<lambda>se. hash_get (se_h se)) ses"
  using assms
proof (induction ses arbitrary: ce out)
  case Nil
  then show ?case by (simp add: parse_config_lines.simps)
next
  case (Cons se ses)
  from Cons.prems(2) obtain t ts where t: "save_section cap se = Some t" "save_sections cap ses = Some ts" "out = t @ ts"
    by (auto simp: bind_eq_Some_conv)
  obtain h ce1 where p1: "parse_config_lines ce (t @ ts) = parse_config_lines ce1 ts" "conf_inv ce1"
      "sections ce1 = sections ce @ [\<lparr>se_name = se_name se, se_h = h\<rparr>]" "hash_get h = hash_get (se_h se)"
    using parse_saved_section [OF _ t(1) _ Cons.prems(3), of ts] Cons.prems(1,4) by auto
  obtain ce' ses' where "parse_config_lines ce1 ts = Some ce'" "conf_inv ce'" "sections ce' = sections ce1 @ ses'"
      "map se_name ses' = map se_name ses" "map (\<lambda>se. hash_get (se_h se)) ses' = map (\<lambda>se. hash_get (se_h se)) ses"
  proof -
    have "\<forall>se \<in> set ses. clean_section se \<and> length (hash_text (se_h se)) + 256 \<le> cap"
      using Cons.prems(1) by simp
    moreover have "distinct (map se_name (sections ce1 @ ses))"
      using Cons.prems(4) p1(3) by auto
    ultimately show ?thesis using Cons.IH [OF _ t(2) p1(2)] that by blast
  qed
  with p1 t(3) show ?case
    by (intro exI [of _ ce'] exI [of _ "\<lparr>se_name = se_name se, se_h = h\<rparr> # ses'"]) simp
qed

lemma conf_map_cong:
  assumes "map se_name ses = map se_name ses'"
    and "map (\<lambda>se. hash_get (se_h se)) ses = map (\<lambda>se. hash_get (se_h se)) ses'"
  shows "(case find_sect ses n of None \<Rightarrow> None | Some se \<Rightarrow> hash_get (se_h se) k) =
         (case find_sect ses' n of None \<Rightarrow> None | Some se \<Rightarrow> hash_get (se_h se) k)"
proof -
  have "length ses = length ses'" using assms(1) by (metis length_map)
  then show ?thesis using assms
    by (induction ses ses' rule: list_induct2) (auto simp: find_sect_def)
qed

lemma confEntryNew_spec:
  "case confEntryNew filename fc now of
     None \<Rightarrow> (\<exists>content. fc = Some content \<and> blank_hit False (fgets_lines content))
   | Some ce \<Rightarrow> (\<forall>content. fc = Some content \<longrightarrow> \<not> blank_hit False (fgets_lines content)) \<and> conf_inv ce \<and> ce_filename ce = filename"
proof -
  define ce0 where "ce0 = \<lparr>ce_filename = filename, tmRead = now, curEntryIdx = -1, maxEntry = 0, sections = []\<rparr>"
  have inv: "conf_inv ce0" "\<not> 0 \<le> curEntryIdx ce0" "ce_filename ce0 = filename" by (simp_all add: conf_inv_def ce0_def)
  show ?thesis
  proof (cases fc)
    case (Some content)
    then show ?thesis using parse_config_lines_spec [OF inv(1), of content] inv(2,3) unfolding confEntryNew_def parse_config_entry_def ce0_def [symmetric]
      by (cases "parse_config_lines ce0 content") simp_all
  qed (use inv in \<open>simp add: confEntryNew_def parse_config_entry_def ce0_def [symmetric]\<close>)
qed

text \<open>A key without a value is enough: the file of the two lines \<open>[s]\<close> and \<open>k=\<close>.\<close>

lemma empty_value_undefined: "confEntryNew filename (Some (lit ''[s]'' @ [10] @ lit ''k='' @ [10])) now = None"
proof -
  have "fgets_lines (lit ''[s]'' @ [10] @ lit ''k='' @ [10]) = [lit ''[s]'' @ [10], lit ''k='' @ [10]]"
    by (simp add: fgets_lines.simps fgets_len_def lit_def)
  then have "blank_hit False (fgets_lines (lit ''[s]'' @ [10] @ lit ''k='' @ [10]))"
    by (simp add: blank_value_def opens_section_def strchr_def lit_def Let_def trimString_def trim_space_newline)
  then show ?thesis
    using confEntryNew_spec [where filename = filename and fc = "Some (lit ''[s]'' @ [10] @ lit ''k='' @ [10])" and now = now]
    by (simp split: option.splits)
qed

section \<open>Properties of files\<close>

text \<open>C33. When the reading of a configuration is defined: never if, in a section, some line of the file as the reader cuts it
  (at most 255 bytes, up to a newline or a zero byte) has something behind its first equals sign and nothing but white space there,
  a newline included, for then a byte in front of the value's buffer is looked at; always otherwise, also when the file cannot be
  opened. What is loaded then satisfies its invariant: the section count is the number of sections, their names are distinct and
  not empty, every table satisfies the bucket invariant, and the current section is a section or -1.\<close>

theorem confEntryNew_defined:
  "(confEntryNew filename file now = None \<longleftrightarrow> (case file of None \<Rightarrow> False | Some content \<Rightarrow> blank_hit False (fgets_lines content))) \<and>
   (case confEntryNew filename file now of None \<Rightarrow> True | Some ce \<Rightarrow> conf_inv ce \<and> ce_filename ce = filename)"
  using confEntryNew_spec [where filename = filename and fc = "file" and now = now] by (auto split: option.splits)

text \<open>C18. Round trip through the file: when every section name, key and value can be written on one
  line of the format (no line breaks, no zero bytes, no surrounding blanks, lines below the 256 byte
  buffer of the reader), then reading what \<open>confEntrySave\<close> wrote gives the same sections in the same
  order and the same value for every section and key; and if each section prints in less than 256
  bytes, \<open>confEntrySave\<close> does write.\<close>

theorem conf_save_parse_roundtrip:
  assumes inv: "conf_inv ce" and clean: "\<forall>se \<in> set (sections ce). clean_section se"
    and cap: "\<forall>se \<in> set (sections ce). length (hash_text (se_h se)) + 256 \<le> cap"
  shows "(\<forall>ok out. confEntrySave cap True (Some ce) = Some (ok, out) \<longrightarrow>
            (\<exists>ce'. confEntryNew filename out now = Some ce' \<and>
               map se_name (sections ce') = map se_name (sections ce) \<and> conf_map ce' = conf_map ce)) \<and>
         ((\<forall>se \<in> set (sections ce). length (hash_text (se_h se)) < 256) \<longrightarrow>
            (\<exists>out. confEntrySave cap True (Some ce) = Some (True, Some out)))"
proof (intro conjI allI impI)
  have all: "take (nat (maxEntry ce)) (sections ce) = sections ce" "nat (maxEntry ce) \<le> length (sections ce)"
    using inv by (auto simp: conf_inv_def)
  let ?ce0 = "\<lparr>ce_filename = filename, tmRead = now, curEntryIdx = -1, maxEntry = 0, sections = []\<rparr>"
  show "\<exists>ce'. confEntryNew filename out now = Some ce' \<and>
      map se_name (sections ce') = map se_name (sections ce) \<and> conf_map ce' = conf_map ce"
    if sv: "confEntrySave cap True (Some ce) = Some (ok, out)" for ok out
  proof -
    from sv all obtain t where t: "save_sections cap (sections ce) = Some t" "out = Some t"
      by (auto simp: confEntrySave_def bind_eq_Some_conv split: if_splits)
    have "conf_inv ?ce0" by (simp add: conf_inv_def)
    then obtain ce' where ce': "parse_config_lines ?ce0 t = Some ce'"
        "map se_name (sections ce') = map se_name (sections ce)"
        "map (\<lambda>se. hash_get (se_h se)) (sections ce') = map (\<lambda>se. hash_get (se_h se)) (sections ce)"
      using parse_saved_sections [of "sections ce" cap t ?ce0] clean cap t(1) inv
      by (auto simp: conf_inv_def)
    have "conf_map ce' = conf_map ce"
      unfolding conf_map_def fun_eq_iff using conf_map_cong [OF ce'(2,3)] by blast
    with ce' t show ?thesis by (auto simp: confEntryNew_def parse_config_entry_def)
  qed
  show "\<exists>out. confEntrySave cap True (Some ce) = Some (True, Some out)"
    if small: "\<forall>se \<in> set (sections ce). length (hash_text (se_h se)) < 256"
  proof -
    have one: "\<exists>r. hash_string cap h = Some r" if "length (hash_text h) < 256" "256 \<le> cap" for h
      using hash_string_tab_small [of "\<lparr>db_buf = None, blen = 0\<rparr>" "take (nat (hsize h)) (hashtab h)" cap] that
      by (auto simp: hash_string_def hash_text_def db_start_def db_content_def)
    have "(\<forall>se \<in> set ses. length (hash_text (se_h se)) < 256 \<and> 256 \<le> cap) \<Longrightarrow> \<exists>t. save_sections cap ses = Some t" for ses
    proof (induction ses)
      case (Cons se ses)
      then show ?case using one [of "se_h se"] by (auto simp: save_section_def)
    qed simp
    then show ?thesis using small cap all by (fastforce simp: confEntrySave_def)
  qed
qed

definition conf_example :: ConfEntry where
  "conf_example = \<lparr>ce_filename = lit ''a.ini'', tmRead = 0, curEntryIdx = 0, maxEntry = 1,
     sections = [\<lparr>se_name = lit ''net'', se_h = dump_example\<rparr>]\<rparr>"

lemma conf_example_clean: "conf_inv conf_example" "\<forall>se \<in> set (sections conf_example). clean_section se"
  "\<forall>se \<in> set (sections conf_example). length (hash_text (se_h se)) + 256 \<le> 1024 \<and> length (hash_text (se_h se)) < 256"
proof -
  have h: "hash_inv dump_example"
    by (simp add: hash_inv_def dump_example_def hashfunc_def)
  have e: "clean_entry (lit ''a'', lit ''1'')"
    by (simp add: clean_entry_def lit_def trimString_def trim_space_def isspace_def)
  show "conf_inv conf_example" using h by (simp add: conf_inv_def conf_example_def lit_def)
  show "\<forall>se \<in> set (sections conf_example). clean_section se"
    using h e by (simp add: clean_section_def conf_example_def clean_name_def dump_example_def lit_def)
  show "\<forall>se \<in> set (sections conf_example). length (hash_text (se_h se)) + 256 \<le> 1024 \<and> length (hash_text (se_h se)) < 256"
    by (simp add: conf_example_def hash_text_def dump_example_def node_text_def lit_def)
qed

theorem conf_save_parse_roundtrip_witness:
  "\<exists>out ce'. confEntrySave 1024 True (Some conf_example) = Some (True, Some out) \<and>
     confEntryNew (lit ''a.ini'') (Some out) 7 = Some ce' \<and> conf_map ce' = conf_map conf_example"
proof -
  have c: "\<forall>se \<in> set (sections conf_example). length (hash_text (se_h se)) + 256 \<le> 1024"
    and s: "\<forall>se \<in> set (sections conf_example). length (hash_text (se_h se)) < 256"
    using conf_example_clean(3) by blast+
  from conf_save_parse_roundtrip [OF conf_example_clean(1,2) c, of "lit ''a.ini''" 7] s show ?thesis by blast
qed

section \<open>The front end as a state machine\<close>

text \<open>The cached section name denotes the selected section of the loaded file.\<close>

definition prof_inv :: "profile \<Rightarrow> bool" where
  "prof_inv st \<longleftrightarrow>
     (case p_conf st of
        None \<Rightarrow> p_section st = []
      | Some ce \<Rightarrow> conf_inv ce \<and>
          (p_section st \<noteq> [] \<longrightarrow> 0 \<le> curEntryIdx ce \<and> se_name (sections ce ! nat (curEntryIdx ce)) = p_section st))"

definition init_profile :: "(bytes \<Rightarrow> (bytes \<times> int) option) \<Rightarrow> profile" where
  "init_profile fs = \<lparr>p_section = [], p_conf = None, p_bWrite = False, p_home = HomeNull, p_files = fs\<rparr>"

inductive prof_step :: "profile \<Rightarrow> profile \<Rightarrow> bool" where
  get_int: "GetPrivateProfileInt e st sec key d f = Some (r, st') \<Longrightarrow> prof_step st st'"
| get_string: "GetPrivateProfileString e st sec key d n len f = Some (r, v, st') \<Longrightarrow> prof_step st st'"
| put_int: "PutPrivateProfileInt e st sec key i f = Some st' \<Longrightarrow> prof_step st st'"
| put_string: "PutPrivateProfileString e st sec key v f = Some st' \<Longrightarrow> prof_step st st'"
| save: "SavePrivateProfile e st = Some st' \<Longrightarrow> prof_step st st'"
| settings: "settingsFilename (p_home st) env fname = Some (path, home) \<Longrightarrow> prof_step st (st\<lparr>p_home := home\<rparr>)"
| external: "prof_step st (st\<lparr>p_files := fs\<rparr>)"

inductive prof_reach :: "profile \<Rightarrow> bool" where
  init: "prof_reach (init_profile fs)"
| step: "prof_reach st \<Longrightarrow> prof_step st st' \<Longrightarrow> prof_reach st'"

lemma confEntryNew_inv: "confEntryNew f fc now = Some ce \<Longrightarrow> conf_inv ce"
  using confEntryNew_spec [where filename = f and fc = fc and now = now] by simp

lemma profile_save_frame:
  "profile_save e st = Some st' \<Longrightarrow>
     p_conf st' = p_conf st \<and> p_section st' = p_section st \<and> p_home st' = p_home st \<and> p_bWrite st' = p_bWrite st"
  by (auto simp: profile_save_def bind_eq_Some_conv split: option.splits prod.splits)

lemma profile_drop_frame:
  "profile_drop e st = Some st' \<Longrightarrow> p_conf st' = None \<and> p_section st' = []"
  by (auto simp: profile_drop_def bind_eq_Some_conv split: if_splits prod.splits)

lemma profile_load_inv:
  "profile_load e st f = Some st' \<Longrightarrow> prof_inv st' \<and> p_conf st' \<noteq> None \<and> p_section st' = []"
  by (auto simp: profile_load_def prof_inv_def bind_eq_Some_conv dest: confEntryNew_inv)

lemma setProfileSection_inv:
  assumes inv: "prof_inv st" and set: "setProfileSection e st sec f = Some (ok, st')"
  shows "prof_inv st' \<and> p_section st' = (if ok then sec else []) \<and>
     (\<exists>ce. p_conf st' = Some ce \<and> (\<not> ok \<longrightarrow> sec \<notin> se_name ` set (sections ce)))"
proof -
  from set obtain s1 s2 where
      1: "(if profile_stale st f then profile_drop e st else Some st) = Some s1"
      and 2: "(if p_conf s1 = None then profile_load e s1 f else Some s1) = Some s2"
      and 3: "(case p_conf s2 of None \<Rightarrow> Some (False, s2)
        | Some ce \<Rightarrow>
          (if p_section s2 \<noteq> sec then do {
             (ok, ce) \<leftarrow> currentSectionSet ce sec;
             let st = s2\<lparr>p_conf := Some ce\<rparr>;
             if ok then do { st \<leftarrow> set_section st sec; Some (True, st) }
             else Some (False, st\<lparr>p_section := []\<rparr>)
           }
           else Some (True, s2))) = Some (ok, st')"
    unfolding setProfileSection_def bind_eq_Some_conv by blast
  have i1: "prof_inv s1"
    using 1 inv profile_drop_frame by (auto simp: prof_inv_def split: if_splits)
  have i2: "prof_inv s2" and "p_conf s2 \<noteq> None"
    using 2 i1 profile_load_inv by (auto split: if_splits)
  then obtain ce where ce: "p_conf s2 = Some ce" "conf_inv ce" by (auto simp: prof_inv_def)
  show ?thesis
  proof (cases "p_section s2 = sec")
    case True
    with 3 ce i2 show ?thesis by auto
  next
    case False
    show ?thesis
      by (rule currentSectionSet_spec [OF ce(2), of sec])
        (use 3 ce False in \<open>auto simp: Let_def set_section_def prof_inv_def split: if_splits\<close>)
  qed
qed

lemma confEntryPut_inv:
  assumes "conf_inv ce" and "confEntryPut ce key v = Some (r, ce')"
  shows "conf_inv ce' \<and> curEntryIdx ce' = curEntryIdx ce \<and> map se_name (sections ce') = map se_name (sections ce)"
proof (cases key)
  case None
  with assms show ?thesis by (simp add: confEntryPut_def)
next
  case (Some k)
  with assms have add: "section_add ce k v = Some ce'" by (auto simp: confEntryPut_def bind_eq_Some_conv)
  then have cur: "0 \<le> curEntryIdx ce" by (auto simp: section_add_def split: if_splits)
  from section_add_spec [OF assms(1) cur, of k v] conf_inv_section_update [OF assms(1)] add show ?thesis
    by (auto simp: map_update) (metis list_update_id map_update)+
qed

lemma put_section_inv:
  assumes inv: "prof_inv st" and put: "put_section e st sec f = Some (go, s2)"
  shows "prof_inv s2 \<and> (sec \<noteq> [] \<longrightarrow> go \<and> p_section s2 = sec)"
proof -
  from put obtain ok s1 where set: "setProfileSection e st sec f = Some (ok, s1)"
      and mk: "(if ok then Some (True, s1)
        else do {
          (made, ce) \<leftarrow> entryNew True (p_conf s1) (Some sec);
          let st = s1\<lparr>p_conf := Some ce\<rparr>;
          if made then do { st \<leftarrow> set_section st sec; Some (True, st) }
          else Some (False, st\<lparr>p_section := []\<rparr>)
        }) = Some (go, s2)"
    unfolding put_section_def bind_eq_Some_conv by auto
  from setProfileSection_inv [OF inv set] obtain ce where i1: "prof_inv s1" "p_section s1 = (if ok then sec else [])"
      "p_conf s1 = Some ce" "\<not> ok \<longrightarrow> sec \<notin> se_name ` set (sections ce)" by blast
  then have ce: "conf_inv ce" by (simp add: prof_inv_def)
  show ?thesis
  proof (cases ok)
    case True
    with mk i1 show ?thesis by auto
  next
    case nok: False
    show ?thesis
    proof (cases "sec = []")
      case True
      with mk nok i1 ce show ?thesis
        by (auto simp: entryNew_def prof_inv_def conf_inv_def)
    next
      case False
      then obtain h0 ce1 where e: "entryNew True (Some ce) (Some sec) = Some (True, ce1)"
          "ce1 = ce\<lparr>sections := sections ce @ [\<lparr>se_name = sec, se_h = h0\<rparr>],
                 curEntryIdx := maxEntry ce, maxEntry := maxEntry ce + 1\<rparr>" "conf_inv ce1"
        using entryNew_new [OF ce] i1(4) nok by blast
      have "nat (maxEntry ce) = length (sections ce)" "0 \<le> maxEntry ce" using ce by (auto simp: conf_inv_def)
      with e have "0 \<le> curEntryIdx ce1" "se_name (sections ce1 ! nat (curEntryIdx ce1)) = sec"
        by auto
      with mk nok i1(3) e(1,3) False show ?thesis
        by (auto simp: Let_def set_section_def prof_inv_def split: if_splits)
    qed
  qed
qed

lemma PutPrivateProfileString_spec:
  assumes inv: "prof_inv st" and put: "PutPrivateProfileString e st sec key v f = Some st'"
  shows "prof_inv st' \<and>
     (sec \<noteq> [] \<longrightarrow> p_section st' = sec \<and>
        (\<exists>ce0 ce r. confEntryPut ce0 key v = Some (r, ce) \<and> conf_inv ce0 \<and> p_conf st' = Some ce \<and>
           0 \<le> curEntryIdx ce0 \<and> se_name (sections ce0 ! nat (curEntryIdx ce0)) = sec))"
proof -
  from put obtain go s2 where ps: "put_section e st sec f = Some (go, s2)"
      and fin: "(if go then
       (case p_conf s2 of None \<Rightarrow> None
        | Some ce \<Rightarrow> do {
            (ok, ce) \<leftarrow> confEntryPut ce key v;
            Some (s2\<lparr>p_conf := Some ce, p_bWrite := True\<rparr>)
          })
       else Some s2) = Some st'"
    unfolding PutPrivateProfileString_def bind_eq_Some_conv by auto
  note i2 = put_section_inv [OF inv ps]
  show ?thesis
  proof (cases go)
    case False
    with fin i2 show ?thesis by auto
  next
    case True
    with fin obtain ce2 ce3 r where c: "p_conf s2 = Some ce2" "confEntryPut ce2 key v = Some (r, ce3)"
        "st' = s2\<lparr>p_conf := Some ce3, p_bWrite := True\<rparr>"
      by (auto simp: bind_eq_Some_conv split: option.splits)
    from i2 c(1) have ce2: "conf_inv ce2" "p_section s2 \<noteq> [] \<longrightarrow> 0 \<le> curEntryIdx ce2 \<and>
        se_name (sections ce2 ! nat (curEntryIdx ce2)) = p_section s2" by (auto simp: prof_inv_def)
    from confEntryPut_inv [OF ce2(1) c(2)] have ce3: "conf_inv ce3" "curEntryIdx ce3 = curEntryIdx ce2"
        "map se_name (sections ce3) = map se_name (sections ce2)" by auto
    have len: "length (sections ce3) = length (sections ce2)" using ce3(3) by (metis length_map)
    have "se_name (sections ce3 ! nat (curEntryIdx ce2)) = se_name (sections ce2 ! nat (curEntryIdx ce2))"
      if "0 \<le> curEntryIdx ce2"
    proof -
      have "nat (curEntryIdx ce2) < length (sections ce2)" using that ce2(1) by (auto simp: conf_inv_def)
      then show ?thesis using ce3(3) len by (metis nth_map)
    qed
    with ce2 ce3 c have "prof_inv st'" by (auto simp: prof_inv_def)
    with i2 ce2 c show ?thesis by auto
  qed
qed

lemma prof_step_inv: "prof_step st st' \<Longrightarrow> prof_inv st \<Longrightarrow> prof_inv st'"
proof (induction rule: prof_step.induct)
  case (get_int e st sec key d f r st')
  then obtain ok where "setProfileSection e st sec f = Some (ok, st')"
    by (auto simp: GetPrivateProfileInt_def bind_eq_Some_conv split: if_splits)
  with get_int.prems show ?case using setProfileSection_inv by blast
next
  case (get_string e st sec key d n len f r v st')
  then obtain ok where "setProfileSection e st sec f = Some (ok, st')"
    by (auto simp: GetPrivateProfileString_def bind_eq_Some_conv split: if_splits option.splits)
  with get_string.prems show ?case using setProfileSection_inv by blast
next
  case (put_int e st sec key i f st')
  then show ?case using PutPrivateProfileString_spec by (auto simp: PutPrivateProfileInt_def)
next
  case (put_string e st sec key v f st')
  then show ?case using PutPrivateProfileString_spec by blast
next
  case (save e st st')
  then show ?case using profile_save_frame
    by (fastforce simp: SavePrivateProfile_def prof_inv_def bind_eq_Some_conv split: if_splits option.splits)
qed (auto simp: prof_inv_def split: option.splits)

lemma isdigit_not_sign: "isdigit b \<Longrightarrow> b \<noteq> 45 \<and> b \<noteq> 43 \<and> \<not> isspace b"
  by (auto simp: isdigit_def isspace_def word_le_nat_alt)

lemma hd_dec_nat: "isdigit (hd (dec_nat n))"
  using dec_nat_digits [of n] by (simp add: list.set_sel)

lemma atoi_dec_int: "INT32_MIN \<le> i \<Longrightarrow> i \<le> INT32_MAX \<Longrightarrow> atoi (dec_int i) = i"
proof -
  assume i: "INT32_MIN \<le> i" "i \<le> INT32_MAX"
  have tw: "takeWhile isdigit (dec_nat n) = dec_nat n" for n
    using dec_nat_digits by (simp add: takeWhile_eq_all_conv)
  have dw: "dropWhile isspace (dec_nat n) = dec_nat n" for n
    using isdigit_not_sign [OF hd_dec_nat] by (simp add: dropWhile_eq_self_iff)
  show ?thesis
  proof (cases "i < 0")
    case True
    then have "dropWhile isspace (45 # dec_nat (nat (- i))) = 45 # dec_nat (nat (- i))"
      by (simp add: isspace_def)
    with True i show ?thesis by (simp add: atoi_def dec_int_def tw Let_def)
  next
    case False
    then show ?thesis using i isdigit_not_sign [OF hd_dec_nat, of "nat i"]
      by (simp add: atoi_def dec_int_def tw dw Let_def)
  qed
qed

lemma setProfileSection_cached:
  assumes "\<not> profile_stale st f" and "p_conf st \<noteq> None" and "p_section st = sec"
  shows "setProfileSection e st sec f = Some (True, st)"
  using assms by (auto simp: setProfileSection_def)

lemma confEntryGet_after_put:
  assumes "conf_inv ce0" and "0 \<le> curEntryIdx ce0" and "confEntryPut ce0 (Some k) v = Some (r, ce)"
  shows "confEntryGet (Some ce) (Some k) = Some (Some v)"
proof -
  have add: "section_add ce0 k v = Some ce" using assms(3) by (auto simp: confEntryPut_def bind_eq_Some_conv)
  from section_add_spec [OF assms(1,2), of k v] obtain i h' where i: "i = nat (curEntryIdx ce0)"
      "i < length (sections ce0)" "hash_inv h'"
      "hash_get h' = (hash_get (se_h (sections ce0 ! i)))(k \<mapsto> v)"
      "ce = ce0\<lparr>sections := (sections ce0)[i := (sections ce0 ! i)\<lparr>se_h := h'\<rparr>]\<rparr>"
    using add by auto
  obtain r where r: "hash_lookup h' k = Some r" using hash_lookup_total [OF i(3)] by blast
  have "hash_get h' k = Some v" using i(4) by simp
  with r have "(case r of None \<Rightarrow> None | Some np \<Rightarrow> nl_value np) = Some v"
    by (simp add: hash_get_def split: option.splits)
  with i r assms(2) show ?thesis by (simp add: confEntryGet_def)
qed

section \<open>Properties of the front end\<close>

text \<open>In every state the front end can reach, through any sequence of reads, writes, saves, path
  queries and changes of the files from outside, a non-empty cached section name is the name of the
  selected section of the loaded file, and the loaded file satisfies its invariant.\<close>

theorem profile_section_cache:
  "prof_reach st \<Longrightarrow> prof_inv st"
proof (induction rule: prof_reach.induct)
  case (init fs)
  show ?case by (simp add: prof_inv_def init_profile_def)
next
  case (step st st')
  then show ?case using prof_step_inv by blast
qed

theorem profile_section_cache_witness: "prof_inv (init_profile (\<lambda>_. None))"
  by (rule profile_section_cache) (rule prof_reach.init)

text \<open>A value stored with \<open>PutPrivateProfileString\<close> under a non-empty section name is the value
  \<open>GetPrivateProfileString\<close> copies to a buffer that holds it, from the cache, as long as the file was
  not changed in between; into a shorter buffer the same call writes past the end, whatever length
  it was given. An integer stored with \<open>PutPrivateProfileInt\<close> is read back by
  \<open>GetPrivateProfileInt\<close>.\<close>

theorem profile_put_get:
  assumes inv: "prof_inv st" and sec: "sec \<noteq> []"
    and put: "PutPrivateProfileString e st sec (Some k) v f = Some st'" and fresh: "\<not> profile_stale st' f"
  shows "GetPrivateProfileString e' st' sec k dflt bufsize len f =
           (if length v < bufsize then Some (int (length v), v, st') else None) \<and>
         (INT32_MIN \<le> i \<and> i \<le> INT32_MAX \<and> v = dec_int i \<longrightarrow>
            PutPrivateProfileInt e st sec (Some k) i f = Some st' \<and>
            GetPrivateProfileInt e' st' sec k d f = Some (i, st'))"
proof -
  from PutPrivateProfileString_spec [OF inv put] sec obtain ce0 ce r where
      c: "p_section st' = sec" "confEntryPut ce0 (Some k) v = Some (r, ce)" "conf_inv ce0"
        "p_conf st' = Some ce" "0 \<le> curEntryIdx ce0" by auto
  have set: "setProfileSection e' st' sec f = Some (True, st')"
    using setProfileSection_cached [OF fresh] c by simp
  have get: "confEntryGet (p_conf st') (Some k) = Some (Some v)"
    using confEntryGet_after_put [OF c(3,5,2)] c(4) by simp
  show ?thesis
    using set get put atoi_dec_int [of i]
    by (auto simp: GetPrivateProfileString_def GetPrivateProfileInt_def PutPrivateProfileInt_def)
qed

definition profile_example :: profile where
  "profile_example = \<lparr>p_section = lit ''net'', p_conf = Some conf_example, p_bWrite = False,
     p_home = HomeNull, p_files = [lit ''a.ini'' \<mapsto> ([], 0)]\<rparr>"

theorem profile_put_get_witness:
  "\<exists>st'. PutPrivateProfileString \<lparr>pe_cap = 1024, pe_writable = (\<lambda>_. True), pe_now = 5\<rparr> profile_example
        (lit ''net'') (Some (lit ''a'')) (dec_int (-7)) (lit ''a.ini'') = Some st' \<and>
     GetPrivateProfileInt \<lparr>pe_cap = 1024, pe_writable = (\<lambda>_. True), pe_now = 6\<rparr> st'
        (lit ''net'') (lit ''a'') 0 (lit ''a.ini'') = Some (-7, st')"
proof -
  let ?e = "\<lparr>pe_cap = 1024, pe_writable = (\<lambda>_. True), pe_now = 5\<rparr>"
  let ?e' = "\<lparr>pe_cap = 1024, pe_writable = (\<lambda>_. True), pe_now = 6\<rparr>"
  have inv: "prof_inv profile_example"
    using conf_example_clean(1) by (simp add: prof_inv_def profile_example_def conf_example_def)
  have name: "ce_filename conf_example = lit ''a.ini''" "tmRead conf_example = 0" "curEntryIdx conf_example = 0"
    by (simp_all add: conf_example_def)
  have fresh: "\<not> profile_stale profile_example (lit ''a.ini'')"
    by (simp add: profile_stale_def profile_example_def name)
  have "setProfileSection ?e profile_example (lit ''net'') (lit ''a.ini'') = Some (True, profile_example)"
    by (rule setProfileSection_cached [OF fresh]) (simp_all add: profile_example_def)
  moreover obtain ce' where ce': "section_add conf_example (lit ''a'') (dec_int (-7)) = Some ce'"
    using section_add_inv [OF conf_example_clean(1)] name(3) by fastforce
  ultimately have put: "PutPrivateProfileString ?e profile_example (lit ''net'') (Some (lit ''a'')) (dec_int (-7)) (lit ''a.ini'') =
      Some (profile_example\<lparr>p_conf := Some ce', p_bWrite := True\<rparr>)"
    by (simp add: PutPrivateProfileString_def put_section_def profile_example_def confEntryPut_def)
  have ce'2: "ce_filename ce' = lit ''a.ini''" "tmRead ce' = 0"
    using ce' name by (auto simp: section_add_def Let_def bind_eq_Some_conv split: if_splits)
  have fresh': "\<not> profile_stale (profile_example\<lparr>p_conf := Some ce', p_bWrite := True\<rparr>) (lit ''a.ini'')"
    by (simp add: profile_stale_def profile_example_def ce'2)
  have sec: "lit ''net'' \<noteq> []" by (simp add: lit_def)
  from profile_put_get [OF inv sec put fresh', of ?e' None 0 0 "-7" 0] put show ?thesis by auto
qed

text \<open>The home directory string is freed twice: the first time a loaded file is dropped after
  \<open>settingsFilename\<close> set the string, the pointer is left dangling, and from then on every call that
  has to read a file again, and every path query, runs into undefined behaviour.\<close>

theorem profile_home_double_free:
  "(p_home st = HomeLive d \<and> profile_drop e st = Some st' \<longrightarrow> p_home st' = HomeFreed) \<and>
   (p_home st = HomeFreed \<longrightarrow>
      settingsFilename (p_home st) env fname = None \<and>
      (profile_stale st f \<longrightarrow> setProfileSection e st sec f = None))"
proof -
  have home: "profile_save e st = Some s1 \<Longrightarrow> p_home s1 = p_home st" for s1
    using profile_save_frame by blast
  have free: "confEntryFree HomeFreed ce = None" for ce
    by (simp add: confEntryFree_def)
  have "p_home st = HomeFreed \<Longrightarrow> profile_drop e st = None"
    using home free by (cases "profile_save e st") (auto simp: profile_drop_def)
  moreover have "p_home st = HomeLive d \<Longrightarrow> profile_drop e st = Some st' \<Longrightarrow> p_home st' = HomeFreed"
    using home by (auto simp: profile_drop_def confEntryFree_def bind_eq_Some_conv split: if_splits option.splits)
  ultimately show ?thesis
    by (auto simp: settingsFilename_def setProfileSection_def)
qed

theorem profile_home_double_free_witness:
  "settingsFilename HomeFreed None None = None \<and>
   setProfileSection \<lparr>pe_cap = 0, pe_writable = (\<lambda>_. True), pe_now = 0\<rparr>
     (profile_example\<lparr>p_home := HomeFreed\<rparr>) (lit ''net'') (lit ''b.ini'') = None"
proof -
  have stale: "profile_stale (profile_example\<lparr>p_home := HomeFreed\<rparr>) (lit ''b.ini'')"
    by (simp add: profile_stale_def profile_example_def conf_example_def lit_def)
  from profile_home_double_free [of "profile_example\<lparr>p_home := HomeFreed\<rparr>" "[]"
      "\<lparr>pe_cap = 0, pe_writable = (\<lambda>_. True), pe_now = 0\<rparr>" undefined None None "lit ''b.ini''" "lit ''net''"] stale
  show ?thesis by simp
qed

end
