(* ===== verification/Intset.thy ===== *)
theory Intset
  imports Prelude "HOL-Library.Monad_Syntax"
begin

text \<open>
  The integer set of \<open>redis-3.2/src/intset.c\<close>: a sorted array of integers, all stored with the
  narrowest of three widths that holds every element, upgraded in place when a wider value comes.

  The model keeps the bytes: \<open>is_contents\<close> is the flexible array member, cell by cell, with
  indeterminate cells after \<open>zrealloc\<close>. The host is little-endian, so the \<open>...ifbe\<close> macros
  are empty (on a big-endian host they produce the same bytes). Widths are 2, 4 or 8, the value of
  \<open>sizeof\<close>; \<open>uint32_t\<close> arithmetic wraps where the code uses it. \<open>rand()\<close> is an argument.

  The lemmas relate the bytes to the sorted list of elements (\<open>intset_rep\<close>) and show that adding,
  removing, searching and reading are insertion, deletion, membership and indexing on that list,
  without any access outside the object or to an indeterminate byte.
\<close>

section \<open>Data\<close>

record intset =
  is_encoding :: nat
  is_length :: nat
  is_contents :: cmemory

abbreviation INTSET_ENC_INT16 :: nat where "INTSET_ENC_INT16 \<equiv> 2"
abbreviation INTSET_ENC_INT32 :: nat where "INTSET_ENC_INT32 \<equiv> 4"
abbreviation INTSET_ENC_INT64 :: nat where "INTSET_ENC_INT64 \<equiv> 8"

section \<open>Operations\<close>

definition intsetValueEncoding :: "int \<Rightarrow> nat" where
  "intsetValueEncoding v =
     (if v < INT32_MIN \<or> v > INT32_MAX then INTSET_ENC_INT64
      else if v < INT16_MIN \<or> v > INT16_MAX then INTSET_ENC_INT32
      else INTSET_ENC_INT16)"

definition intsetGetEncoded :: "intset \<Rightarrow> int \<Rightarrow> nat \<Rightarrow> int option" where
  "intsetGetEncoded is pos enc =
     (if pos < 0 then None
      else if enc = INTSET_ENC_INT64 then map_option le_sdec (mem_read (is_contents is) (nat pos * 8) 8)
      else if enc = INTSET_ENC_INT32 then map_option le_sdec (mem_read (is_contents is) (nat pos * 4) 4)
      else map_option le_sdec (mem_read (is_contents is) (nat pos * 2) 2))"

definition intsetGet_raw :: "intset \<Rightarrow> int \<Rightarrow> int option" where
  "intsetGet_raw is pos = intsetGetEncoded is pos (is_encoding is)"

text \<open>\<open>le_enc n\<close> keeps the low \<open>n\<close> bytes, as the casts to \<open>int32_t\<close> and \<open>int16_t\<close> do.\<close>

definition intsetSet :: "intset \<Rightarrow> int \<Rightarrow> int \<Rightarrow> intset option" where
  "intsetSet is pos val =
     (if pos < 0 then None
      else
        (let w = (if is_encoding is = INTSET_ENC_INT64 then 8
                  else if is_encoding is = INTSET_ENC_INT32 then 4 else 2)
         in map_option (\<lambda>m. is\<lparr>is_contents := m\<rparr>)
              (mem_write (is_contents is) (nat pos * w) (le_enc w val))))"

definition intsetNew :: intset where
  "intsetNew = \<lparr>is_encoding = INTSET_ENC_INT16, is_length = 0, is_contents = []\<rparr>"

definition intsetResize :: "intset \<Rightarrow> nat \<Rightarrow> intset" where
  "intsetResize is len =
     is\<lparr>is_contents := mem_resize (is_contents is) (u32 (len * is_encoding is))\<rparr>"

text \<open>The binary search loop: the final \<open>min\<close>, \<open>mid\<close> and \<open>cur\<close>. Both bounds are
  \<open>int\<close>s, so the unsigned sum cannot wrap.\<close>

function intsetSearch_loop :: "intset \<Rightarrow> int \<Rightarrow> int \<Rightarrow> int \<Rightarrow> int \<Rightarrow> int \<Rightarrow> (int \<times> int \<times> int) option" where
  "intsetSearch_loop is val mn mx mid cur =
     (if mx \<ge> mn then
        (let mid = (mn + mx) div 2 in
         case intsetGet_raw is mid of
           None \<Rightarrow> None
         | Some cur \<Rightarrow>
             (if val > cur then intsetSearch_loop is val (mid + 1) mx mid cur
              else if val < cur then intsetSearch_loop is val mn (mid - 1) mid cur
              else Some (mn, mid, cur)))
      else Some (mn, mid, cur))"
  by pat_completeness auto
termination
  by (relation "measure (\<lambda>(is, val, mn, mx, mid, cur). nat (mx - mn + 1))") auto

declare intsetSearch_loop.simps [simp del]

text \<open>The result and the value stored to \<open>*pos\<close>.\<close>

definition intsetSearch :: "intset \<Rightarrow> int \<Rightarrow> (bool \<times> nat) option" where
  "intsetSearch is val =
     (if is_length is = 0 then Some (False, 0)
      else do {
        hi \<leftarrow> intsetGet_raw is (s32 (int (is_length is) - 1));
        if val > hi then Some (False, is_length is)
        else do {
          lo \<leftarrow> intsetGet_raw is 0;
          if val < lo then Some (False, 0)
          else do {
            (mn, mid, cur) \<leftarrow> intsetSearch_loop is val 0 (s32 (int (is_length is) - 1)) (-1) (-1);
            if val = cur then Some (True, nat mid) else Some (False, nat mn)
          }
        }
      })"

text \<open>The loop of \<open>intsetUpgradeAndAdd\<close>, back to front.\<close>

fun intsetUpgrade_loop :: "nat \<Rightarrow> nat \<Rightarrow> nat \<Rightarrow> intset \<Rightarrow> intset option" where
  "intsetUpgrade_loop 0 prepend curenc is = Some is"
| "intsetUpgrade_loop (Suc len) prepend curenc is = do {
     v \<leftarrow> intsetGetEncoded is (int len) curenc;
     is \<leftarrow> intsetSet is (int (len + prepend)) v;
     intsetUpgrade_loop len prepend curenc is
   }"

definition intsetUpgradeAndAdd :: "intset \<Rightarrow> int \<Rightarrow> intset option" where
  "intsetUpgradeAndAdd is val =
     (let curenc = is_encoding is;
          newenc = intsetValueEncoding val;
          len = is_length is;
          prepend = (if val < 0 then 1 else 0);
          is = is\<lparr>is_encoding := newenc\<rparr>;
          is = intsetResize is (u32 (is_length is + 1))
      in if int len > INT32_MAX then None
         else do {
           is \<leftarrow> intsetUpgrade_loop len prepend curenc is;
           is \<leftarrow> (if prepend \<noteq> 0 then intsetSet is 0 val else intsetSet is (int (is_length is)) val);
           Some (is\<lparr>is_length := u32 (is_length is + 1)\<rparr>)
         })"

definition intsetMoveTail :: "intset \<Rightarrow> nat \<Rightarrow> nat \<Rightarrow> intset option" where
  "intsetMoveTail is from to =
     (let w = (if is_encoding is = INTSET_ENC_INT64 then 8
               else if is_encoding is = INTSET_ENC_INT32 then 4 else 2);
          bytes = u32 (u32 (is_length is + 4294967296 - from) * w)
      in map_option (\<lambda>m. is\<lparr>is_contents := m\<rparr>)
           (mem_move (is_contents is) (to * w) (from * w) bytes))"

text \<open>The value of \<open>*success\<close> and the set.\<close>

definition intsetAdd :: "intset \<Rightarrow> int \<Rightarrow> (bool \<times> intset) option" where
  "intsetAdd is val =
     (if intsetValueEncoding val > is_encoding is then
        map_option (Pair True) (intsetUpgradeAndAdd is val)
      else do {
        (found, pos) \<leftarrow> intsetSearch is val;
        if found then Some (False, is)
        else do {
          let is = intsetResize is (u32 (is_length is + 1));
          is \<leftarrow> (if pos < is_length is then intsetMoveTail is pos (u32 (pos + 1)) else Some is);
          is \<leftarrow> intsetSet is (s32 (int pos)) val;
          Some (True, is\<lparr>is_length := u32 (is_length is + 1)\<rparr>)
        }
      })"

definition intsetRemove :: "intset \<Rightarrow> int \<Rightarrow> (bool \<times> intset) option" where
  "intsetRemove is val =
     (if intsetValueEncoding val \<le> is_encoding is then do {
        (found, pos) \<leftarrow> intsetSearch is val;
        if found then do {
          let len = is_length is;
          is \<leftarrow> (if pos < len - 1 then intsetMoveTail is (u32 (pos + 1)) pos else Some is);
          let is = intsetResize is (len - 1);
          Some (True, is\<lparr>is_length := len - 1\<rparr>)
        }
        else Some (False, is)
      }
      else Some (False, is))"

definition intsetFind :: "intset \<Rightarrow> int \<Rightarrow> bool option" where
  "intsetFind is val =
     (if intsetValueEncoding val \<le> is_encoding is then map_option fst (intsetSearch is val)
      else Some False)"

text \<open>\<open>rnd\<close> is what \<open>rand()\<close> returned.\<close>

definition intsetRandom :: "intset \<Rightarrow> nat \<Rightarrow> int option" where
  "intsetRandom is rnd =
     (if is_length is = 0 then None else intsetGet_raw is (s32 (int (rnd mod is_length is))))"

text \<open>\<open>Some None\<close>: out of range, the function returned 0 and stored nothing.\<close>

definition intsetGet :: "intset \<Rightarrow> nat \<Rightarrow> int option option" where
  "intsetGet is pos =
     (if pos < is_length is then map_option Some (intsetGet_raw is (s32 (int pos))) else Some None)"

definition intsetLen :: "intset \<Rightarrow> nat" where
  "intsetLen is = is_length is"

definition intsetBlobLen :: "intset \<Rightarrow> nat" where
  "intsetBlobLen is = 8 + u32 (is_length is * is_encoding is)"

section \<open>The bytes as a list of elements\<close>

definition enc_list :: "nat \<Rightarrow> int list \<Rightarrow> bytes" where
  "enc_list e xs = concat (map (le_enc e) xs)"

definition intset_rep :: "intset \<Rightarrow> int list \<Rightarrow> bool" where
  "intset_rep I xs \<longleftrightarrow>
     is_encoding I \<in> {2, 4, 8} \<and> is_length I = length xs \<and>
     is_contents I = map Some (enc_list (is_encoding I) xs) \<and>
     (\<forall>x \<in> set xs. fits_bytes (is_encoding I) x) \<and>
     sorted_wrt (<) xs \<and> length xs < 536870912"

lemma enc_list_simps [simp]: "enc_list e [] = []" "enc_list e (x # xs) = le_enc e x @ enc_list e xs"
  "enc_list e (xs @ ys) = enc_list e xs @ enc_list e ys"
  by (simp_all add: enc_list_def)

lemma length_enc_list [simp]: "length (enc_list e xs) = length xs * e"
  by (induction xs) auto

lemma enc_list_split: "i < length xs \<Longrightarrow>
  enc_list e xs = enc_list e (take i xs) @ le_enc e (xs ! i) @ enc_list e (drop (Suc i) xs)"
  by (metis enc_list_simps(2,3) id_take_nth_drop)

lemma enc_list_take: "take (i * e) (enc_list e xs) = enc_list e (take i xs)"
proof (cases "i \<le> length xs")
  case True
  have "enc_list e xs = enc_list e (take i xs) @ enc_list e (drop i xs)"
    by (metis append_take_drop_id enc_list_simps(3))
  then show ?thesis using True by simp
next
  case False
  then show ?thesis by simp
qed

lemma fits_value_encoding:
  assumes "INT64_MIN \<le> v" and "v \<le> INT64_MAX" and "e \<in> {2, 4, 8}"
  shows "fits_bytes e v \<longleftrightarrow> intsetValueEncoding v \<le> e"
  using assms by (auto simp: fits_bytes_def intsetValueEncoding_def)

lemma fits_bytes_mono: "fits_bytes e v \<Longrightarrow> 0 < e \<Longrightarrow> e \<le> e' \<Longrightarrow> fits_bytes e' v"
proof -
  assume a: "fits_bytes e v" "0 < e" "e \<le> e'"
  then have "(2 :: int) ^ (8 * e - 1) \<le> 2 ^ (8 * e' - 1)" by (intro power_increasing) auto
  moreover from a(1) have "- (2 ^ (8 * e - 1)) \<le> v" "v < 2 ^ (8 * e - 1)" by (simp_all add: fits_bytes_def)
  ultimately show ?thesis unfolding fits_bytes_def by linarith
qed

lemma getEncoded_at:
  assumes "is_contents I = as @ map Some (le_enc e v) @ cs" and "length as = p * e"
    and "e \<in> {2, 4, 8}" and "fits_bytes e v"
  shows "intsetGetEncoded I (int p) e = Some v"
proof -
  have "mem_read (is_contents I) (p * e) e = Some (le_enc e v)"
    unfolding assms(1) by (rule mem_read_at) (simp_all add: assms(2))
  moreover have "le_sdec (le_enc e v) = v" using assms(3,4) by (intro le_sdec_enc) auto
  ultimately show ?thesis using assms(3) by (auto simp: intsetGetEncoded_def)
qed

lemma get_raw_rep:
  assumes "intset_rep I xs" and "0 \<le> p" and "p < int (length xs)"
  shows "intsetGet_raw I p = Some (xs ! nat p)"
proof -
  let ?e = "is_encoding I"
  have p: "nat p < length xs" "int (nat p) = p" using assms by auto
  have "is_contents I = map Some (enc_list ?e (take (nat p) xs)) @
      map Some (le_enc ?e (xs ! nat p)) @ map Some (enc_list ?e (drop (Suc (nat p)) xs))"
    using assms(1) enc_list_split [OF p(1), of ?e] by (simp add: intset_rep_def)
  moreover have "fits_bytes ?e (xs ! nat p)" using assms(1) p(1) by (simp add: intset_rep_def)
  ultimately show ?thesis
    using getEncoded_at [of I _ ?e "xs ! nat p" _ "nat p"] assms(1) p
    by (simp add: intsetGet_raw_def intset_rep_def)
qed

lemma setAt:
  assumes "is_contents I = as @ ds @ cs" and "length as = p * is_encoding I"
    and "length ds = is_encoding I" and "is_encoding I \<in> {2, 4, 8}"
  shows "intsetSet I (int p) v = Some (I\<lparr>is_contents := as @ map Some (le_enc (is_encoding I) v) @ cs\<rparr>)"
proof -
  have "mem_write (is_contents I) (p * is_encoding I) (le_enc (is_encoding I) v) =
      Some (as @ map Some (le_enc (is_encoding I) v) @ cs)"
    unfolding assms(1) by (rule mem_write_at) (simp_all add: assms(2,3))
  then show ?thesis using assms(4) by (auto simp: intsetSet_def)
qed

section \<open>Search\<close>

text \<open>\<open>p\<close> is where \<open>v\<close> belongs in the sorted list.\<close>

definition insert_pos :: "int list \<Rightarrow> int \<Rightarrow> nat \<Rightarrow> bool" where
  "insert_pos xs v p \<longleftrightarrow> p \<le> length xs \<and> (\<forall>i < p. xs ! i < v) \<and> (\<forall>i. p \<le> i \<and> i < length xs \<longrightarrow> v < xs ! i)"

lemma sorted_nth_less: "sorted_wrt (<) (xs :: int list) \<Longrightarrow> i < j \<Longrightarrow> j < length xs \<Longrightarrow> xs ! i < xs ! j"
  by (simp add: sorted_wrt_iff_nth_less)

lemma sorted_nth_le: "sorted_wrt (<) (xs :: int list) \<Longrightarrow> i \<le> j \<Longrightarrow> j < length xs \<Longrightarrow> xs ! i \<le> xs ! j"
  using sorted_nth_less [of xs i j] by (cases "i = j") auto

lemma insert_pos_notin: "insert_pos xs v p \<Longrightarrow> v \<notin> set xs"
  unfolding insert_pos_def by (metis in_set_conv_nth less_irrefl not_le_imp_less)

lemma search_loop_spec:
  assumes "intset_rep I xs" and "0 \<le> mn" and "mx < int (length xs)" and "mn \<le> mx + 1"
    and "\<forall>i < nat mn. xs ! i < v" and "\<forall>i. mx < int i \<and> i < length xs \<longrightarrow> v < xs ! i"
    and "mn \<le> mx \<or> cur \<noteq> v"
  shows "\<exists>mn' mid' cur'. intsetSearch_loop I v mn mx mid cur = Some (mn', mid', cur') \<and>
     (if v = cur' then 0 \<le> mid' \<and> nat mid' < length xs \<and> xs ! nat mid' = v else 0 \<le> mn' \<and> insert_pos xs v (nat mn'))"
  using assms
proof (induction I v mn mx mid cur rule: intsetSearch_loop.induct)
  case (1 I v mn mx mid cur)
  note P = "1.prems"
  let ?mid = "(mn + mx) div 2"
  have srt: "sorted_wrt (<) xs" using P(1) by (simp add: intset_rep_def)
  show ?case
  proof (cases "mn \<le> mx")
    case False
    then have "mn = mx + 1" using P(4) by simp
    with P have "insert_pos xs v (nat mn)" by (auto simp: insert_pos_def)
    moreover have "intsetSearch_loop I v mn mx mid cur = Some (mn, mid, cur)"
      using False by (simp add: intsetSearch_loop.simps)
    ultimately show ?thesis using P False by auto
  next
    case True
    have m: "mn \<le> ?mid" "?mid \<le> mx" using True by auto
    then have bound: "0 \<le> ?mid" "?mid < int (length xs)" using P by auto
    let ?c = "xs ! nat ?mid"
    have get: "intsetGet_raw I ?mid = Some ?c" by (rule get_raw_rep [OF P(1) bound])
    have unf: "intsetSearch_loop I v mn mx mid cur =
        (if v > ?c then intsetSearch_loop I v (?mid + 1) mx ?mid ?c
         else if v < ?c then intsetSearch_loop I v mn (?mid - 1) ?mid ?c else Some (mn, ?mid, ?c))"
      by (subst intsetSearch_loop.simps) (simp add: True get Let_def)
    consider "v > ?c" | "v < ?c" | "v = ?c" by linarith
    then show ?thesis
    proof cases
      case 1
      have "\<forall>i < nat (?mid + 1). xs ! i < v"
      proof (intro allI impI)
        fix i assume "i < nat (?mid + 1)"
        then have "i \<le> nat ?mid" "nat ?mid < length xs" using bound by linarith+
        then have "xs ! i \<le> ?c" by (rule sorted_nth_le [OF srt])
        with 1 show "xs ! i < v" by linarith
      qed
      then show ?thesis using "1.IH"(1) [OF True refl get 1 P(1)] P bound m 1 unf by auto
    next
      case 2
      have "\<forall>i. ?mid - 1 < int i \<and> i < length xs \<longrightarrow> v < xs ! i"
      proof (intro allI impI)
        fix i assume "?mid - 1 < int i \<and> i < length xs"
        then have "nat ?mid \<le> i" "i < length xs" by linarith+
        then have "?c \<le> xs ! i" by (rule sorted_nth_le [OF srt])
        with 2 show "v < xs ! i" by linarith
      qed
      moreover have "\<not> v > ?c" using 2 by simp
      moreover from this 2 have "intsetSearch_loop I v mn mx mid cur = intsetSearch_loop I v mn (?mid - 1) ?mid ?c"
        using unf by simp
      ultimately show ?thesis
        using "1.IH"(2) [OF True refl get _ 2 P(1)] P(2,3,5) m 2 by simp
    next
      case 3
      then show ?thesis using unf bound by auto
    qed
  qed
qed

lemma intsetSearch_rep:
  assumes rep: "intset_rep I xs"
  shows "\<exists>p. intsetSearch I v = Some (v \<in> set xs, p) \<and>
     (if v \<in> set xs then p < length xs \<and> xs ! p = v else insert_pos xs v p)"
proof (cases "xs = []")
  case True
  then show ?thesis using rep by (simp add: intsetSearch_def intset_rep_def insert_pos_def)
next
  case False
  have len: "is_length I = length xs" "length xs < 536870912" and srt: "sorted_wrt (<) xs"
    using rep by (auto simp: intset_rep_def)
  let ?n = "int (length xs) - 1"
  have n: "s32 (int (is_length I) - 1) = ?n" "nat ?n = length xs - 1" "0 \<le> ?n" "?n < int (length xs)"
    using len False by (auto simp: Suc_leI)
  have hi: "intsetGet_raw I ?n = Some (xs ! (length xs - 1))"
    using get_raw_rep [OF rep n(3,4)] n(2) by simp
  have lo: "intsetGet_raw I 0 = Some (xs ! 0)" using get_raw_rep [OF rep, of 0] False by simp
  have last: "x \<le> xs ! (length xs - 1)" and first: "xs ! 0 \<le> x" if "x \<in> set xs" for x
    using that sorted_nth_le [OF srt] False by (auto simp: in_set_conv_nth)
  consider (above) "v > xs ! (length xs - 1)" | (below) "\<not> v > xs ! (length xs - 1)" "v < xs ! 0"
    | (inside) "\<not> v > xs ! (length xs - 1)" "\<not> v < xs ! 0" by blast
  then show ?thesis
  proof cases
    case above
    then have "insert_pos xs v (length xs)"
      using last unfolding insert_pos_def by (meson le_less_trans linorder_not_less nth_mem order_refl)
    moreover from above have "v \<notin> set xs" using last by fastforce
    ultimately show ?thesis using above hi n len False by (simp add: intsetSearch_def)
  next
    case below
    then have "insert_pos xs v 0"
      using first unfolding insert_pos_def by (meson le0 less_le_trans not_less_zero nth_mem)
    moreover from below have "v \<notin> set xs" using first by fastforce
    ultimately show ?thesis using below hi lo n len False by (simp add: intsetSearch_def)
  next
    case inside
    from search_loop_spec [OF rep, of 0 ?n v "-1" "-1"] n(3,4) obtain mn mid cur where
        r: "intsetSearch_loop I v 0 ?n (-1) (-1) = Some (mn, mid, cur)"
          "if v = cur then 0 \<le> mid \<and> nat mid < length xs \<and> xs ! nat mid = v else 0 \<le> mn \<and> insert_pos xs v (nat mn)"
      by auto
    have "intsetSearch I v = (if v = cur then Some (True, nat mid) else Some (False, nat mn))"
      using inside hi lo n len False r(1) by (simp add: intsetSearch_def)
    then show ?thesis using r(2) insert_pos_notin [of xs v] by (cases "v = cur") auto
  qed
qed

section \<open>Insertion and deletion\<close>

lemma sorted_insert_pos:
  assumes "sorted_wrt (<) xs" and "insert_pos xs v p"
  shows "sorted_wrt (<) (take p xs @ v # drop p xs)"
proof -
  have p: "p \<le> length xs" using assms(2) by (simp add: insert_pos_def)
  have l: "\<forall>x \<in> set (take p xs). x < v" and r: "\<forall>x \<in> set (drop p xs). v < x"
    using assms(2) p by (auto simp: insert_pos_def in_set_conv_nth)
  have "sorted_wrt (<) (take p xs @ drop p xs)" using assms(1) by simp
  then show ?thesis using l r by (simp add: sorted_wrt_append del: append_take_drop_id)
qed

lemma rep_contents_gap:
  assumes "intset_rep I xs" and "p \<le> length xs"
  shows "is_contents I = map Some (enc_list (is_encoding I) (take p xs)) @ map Some (enc_list (is_encoding I) (drop p xs))"
  using assms enc_list_simps(3) [of "is_encoding I" "take p xs" "drop p xs"]
  by (simp add: intset_rep_def flip: map_append)

lemma rep_add_at:
  assumes rep: "intset_rep I xs" and pos: "insert_pos xs v p" and fit: "fits_bytes (is_encoding I) v"
    and len: "length xs + 1 < 536870912"
  shows "\<exists>J K. (let R = intsetResize I (u32 (is_length I + 1)) in
       (if p < is_length R then intsetMoveTail R p (u32 (p + 1)) else Some R)) = Some J \<and>
     intsetSet J (s32 (int p)) v = Some K \<and>
     intset_rep (K\<lparr>is_length := u32 (is_length K + 1)\<rparr>) (take p xs @ v # drop p xs)"
proof -
  let ?e = "is_encoding I" and ?A = "map Some (enc_list (is_encoding I) (take p xs))"
    and ?B = "map Some (enc_list (is_encoding I) (drop p xs))"
  have e: "?e \<in> {2, 4, 8}" and L: "is_length I = length xs" using rep by (auto simp: intset_rep_def)
  have p: "p \<le> length xs" using pos by (simp add: insert_pos_def)
  have c: "is_contents I = ?A @ ?B" by (rule rep_contents_gap [OF rep p])
  have eb: "?e \<le> 8" using e by auto
  have lenc: "length (is_contents I) = length xs * ?e" using rep by (simp add: intset_rep_def)
  have small: "(length xs + 1) * ?e < 4294967296"
  proof -
    have "(length xs + 1) * ?e \<le> (length xs + 1) * 8" using eb by (intro mult_le_mono2) auto
    also have "\<dots> < 4294967296" using len by simp
    finally show ?thesis .
  qed
  let ?N = "replicate ?e (None :: cell)"
  let ?R = "intsetResize I (u32 (is_length I + 1))"
  have R: "?R = I\<lparr>is_contents := ?A @ ?B @ ?N\<rparr>"
  proof -
    have "u32 (u32 (is_length I + 1) * ?e) = length (is_contents I) + ?e"
      using small len L lenc by (simp add: algebra_simps)
    then show ?thesis by (simp add: intsetResize_def) (simp add: c)
  qed
  have lA: "length ?A = p * ?e" and lB: "length ?B = (length xs - p) * ?e" using p by simp_all
  let ?K = "I\<lparr>is_contents := ?A @ map Some (le_enc ?e v) @ ?B\<rparr>"
  have s32p: "s32 (int p) = int p" using p len by simp
  have "\<exists>J. (if p < is_length ?R then intsetMoveTail ?R p (u32 (p + 1)) else Some ?R) = Some J \<and>
      intsetSet J (s32 (int p)) v = Some ?K"
  proof (cases "p < length xs")
    case True
    obtain m where m: "mem_move (?A @ ?B @ ?N) (length ?A + ?e) (length ?A) (length ?B) = Some m"
        "mem_write m (length ?A) (le_enc ?e v) = Some (?A @ map Some (le_enc ?e v) @ ?B)"
      using mem_move_write_gap [of ?N "le_enc ?e v" ?A ?B] by auto
    have bytes: "u32 (u32 (length xs + 4294967296 - p) * ?e) = length ?B"
    proof -
      have "u32 (length xs + 4294967296 - p) = length xs - p"
        using True len by (intro u32_sub) simp_all
      moreover have "(length xs - p) * ?e < 4294967296"
        by (rule le_less_trans [OF _ small]) (intro mult_le_mono1, simp)
      ultimately show ?thesis by (metis u32_id lB)
    qed
    have "intsetMoveTail ?R p (u32 (p + 1)) = Some (I\<lparr>is_contents := m\<rparr>)"
      using m(1) bytes e L lA p len unfolding R
      by (auto simp: intsetMoveTail_def Let_def add.commute mult.commute)
    moreover have "intsetSet (I\<lparr>is_contents := m\<rparr>) (int p) v = Some ?K"
      using m(2) e lA by (auto simp: intsetSet_def)
    ultimately show ?thesis using True R L s32p by simp
  next
    case False
    then have "p = length xs" using p by simp
    then have B: "?B = []" by simp
    have "intsetSet ?R (int p) v = Some ?K"
      unfolding R using setAt [of "I\<lparr>is_contents := ?A @ ?B @ ?N\<rparr>" ?A ?N "[]" p v] e lA B by simp
    then show ?thesis using False R L s32p by simp
  qed
  moreover have "intset_rep (?K\<lparr>is_length := u32 (is_length ?K + 1)\<rparr>) (take p xs @ v # drop p xs)"
  proof -
    have "sorted_wrt (<) (take p xs @ v # drop p xs)"
      using sorted_insert_pos [OF _ pos] rep by (simp add: intset_rep_def)
    moreover have "\<forall>x \<in> set (take p xs @ v # drop p xs). fits_bytes ?e x"
      using rep fit set_take_subset [of p xs] set_drop_subset [of p xs] by (auto simp: intset_rep_def)
    ultimately show ?thesis using e L p len by (simp add: intset_rep_def)
  qed
  ultimately show ?thesis unfolding Let_def by blast
qed

lemma rep_remove_at:
  assumes rep: "intset_rep I xs" and p: "p < length xs"
  shows "\<exists>J. (if p < is_length I - 1 then intsetMoveTail I (u32 (p + 1)) p else Some I) = Some J \<and>
     intset_rep ((intsetResize J (is_length I - 1))\<lparr>is_length := is_length I - 1\<rparr>) (take p xs @ drop (Suc p) xs)"
proof -
  let ?e = "is_encoding I" and ?A = "map Some (enc_list (is_encoding I) (take p xs))"
    and ?B = "map Some (enc_list (is_encoding I) (drop (Suc p) xs))"
    and ?D = "map Some (le_enc (is_encoding I) (xs ! p))"
  have e: "?e \<in> {2, 4, 8}" and L: "is_length I = length xs" and len: "length xs < 536870912"
    using rep by (auto simp: intset_rep_def)
  have c: "is_contents I = ?A @ ?D @ ?B"
    using rep enc_list_split [OF p, of ?e] by (simp add: intset_rep_def)
  have small: "length xs * ?e < 4294967296"
  proof -
    have "length xs * ?e \<le> length xs * 8" using e by (intro mult_le_mono2) auto
    also have "\<dots> < 4294967296" using len by simp
    finally show ?thesis .
  qed
  have lA: "length ?A = p * ?e" and lD: "length ?D = ?e" and lB: "length ?B = (length xs - Suc p) * ?e" using p by simp_all
  have size: "u32 ((length xs - 1) * ?e) = length ?A + length ?B"
  proof -
    have "(length xs - 1) * ?e = p * ?e + (length xs - Suc p) * ?e"
      using p by (simp add: add_mult_distrib [symmetric])
    moreover have "(length xs - 1) * ?e < 4294967296"
      using small by (rule le_less_trans [rotated]) simp
    ultimately show ?thesis unfolding lA lB by simp
  qed
  have "\<exists>m. (if p < is_length I - 1 then intsetMoveTail I (u32 (p + 1)) p else Some I) = Some (I\<lparr>is_contents := m\<rparr>) \<and>
      mem_resize m (length ?A + length ?B) = ?A @ ?B"
  proof (cases "p < length xs - 1")
    case True
    obtain m where m: "mem_move (?A @ ?D @ ?B) (length ?A) (length ?A + length ?D) (length ?B) = Some m"
        "mem_resize m (length ?A + length ?B) = ?A @ ?B"
      using mem_move_close_gap [of ?A ?D ?B] by blast
    have bytes: "u32 (u32 (length xs + 4294967296 - Suc p) * ?e) = length ?B"
    proof -
      have "u32 (length xs + 4294967296 - Suc p) = length xs - Suc p"
        using True len by (intro u32_sub) simp_all
      moreover have "(length xs - Suc p) * ?e < 4294967296"
        by (rule le_less_trans [OF _ small]) (intro mult_le_mono1, simp)
      ultimately show ?thesis by (metis u32_id lB)
    qed
    have "intsetMoveTail I (u32 (p + 1)) p = Some (I\<lparr>is_contents := m\<rparr>)"
      using m(1) bytes e L lA lD p len
      by (auto simp: intsetMoveTail_def Let_def c add.commute mult.commute)
    with m(2) True L show ?thesis by auto
  next
    case False
    then have "?B = []" using p by simp
    then have "mem_resize (?A @ ?D @ ?B) (length ?A + length ?B) = ?A @ ?B" by (simp add: mem_resize_def)
    moreover have "I\<lparr>is_contents := ?A @ ?D @ ?B\<rparr> = I" using c by (cases I) simp
    ultimately show ?thesis using False L by metis
  qed
  then obtain m where m: "(if p < is_length I - 1 then intsetMoveTail I (u32 (p + 1)) p else Some I) = Some (I\<lparr>is_contents := m\<rparr>)"
      "mem_resize m (length ?A + length ?B) = ?A @ ?B" by blast
  have "sorted_wrt (<) (take p xs @ drop (Suc p) xs)"
  proof -
    have "sorted_wrt (<) (take p xs @ xs ! p # drop (Suc p) xs)"
      using rep id_take_nth_drop [OF p] by (simp add: intset_rep_def)
    then show ?thesis by (simp add: sorted_wrt_append)
  qed
  moreover have "\<forall>x \<in> set (take p xs @ drop (Suc p) xs). fits_bytes ?e x"
    using rep set_take_subset [of p xs] set_drop_subset [of "Suc p" xs] by (auto simp: intset_rep_def)
  ultimately have "intset_rep ((intsetResize (I\<lparr>is_contents := m\<rparr>) (is_length I - 1))\<lparr>is_length := is_length I - 1\<rparr>)
      (take p xs @ drop (Suc p) xs)"
    using m(2) size L e len p by (simp add: intset_rep_def intsetResize_def)
  with m(1) show ?thesis by blast
qed

section \<open>Upgrade in place\<close>

text \<open>Before the element \<open>l - 1\<close> is moved, the first \<open>l\<close> elements are still there with the old width,
  and the elements from \<open>l\<close> on are already at their new places with the new width.\<close>

lemma upgrade_loop_spec:
  assumes "length (is_contents I) = Suc (length xs) * is_encoding I" and "is_encoding I \<in> {2, 4, 8}"
    and "ce \<in> {2, 4, 8}" and "ce \<le> is_encoding I" and "p \<le> 1" and "l \<le> length xs"
    and "\<forall>x \<in> set xs. fits_bytes ce x"
    and "take (l * ce) (is_contents I) = map Some (enc_list ce (take l xs))"
    and "take ((length xs - l) * is_encoding I) (drop ((l + p) * is_encoding I) (is_contents I)) =
           map Some (enc_list (is_encoding I) (drop l xs))"
  shows "\<exists>m. intsetUpgrade_loop l p ce I = Some (I\<lparr>is_contents := m\<rparr>) \<and>
     length m = Suc (length xs) * is_encoding I \<and>
     take (length xs * is_encoding I) (drop (p * is_encoding I) m) = map Some (enc_list (is_encoding I) xs)"
  using assms
proof (induction l arbitrary: I)
  case 0
  then show ?case by (intro exI [of _ "is_contents I"]) simp
next
  case (Suc k)
  note P = Suc.prems
  let ?c = "is_contents I" and ?ne = "is_encoding I"
  have k: "k < length xs" using P(6) by simp
  have first: "take (Suc k * ce) ?c = map Some (enc_list ce (take k xs)) @ map Some (le_enc ce (xs ! k))"
    using P(8) take_Suc_conv_app_nth [OF k] by simp
  have get: "intsetGetEncoded I (int k) ce = Some (xs ! k)"
  proof (rule getEncoded_at)
    show "?c = map Some (enc_list ce (take k xs)) @ map Some (le_enc ce (xs ! k)) @ drop (Suc k * ce) ?c"
      by (metis append.assoc append_take_drop_id first)
  qed (use k P in auto)
  let ?E = "map Some (le_enc ?ne (xs ! k))"
  let ?c' = "take ((k + p) * ?ne) ?c @ ?E @ drop ((Suc k + p) * ?ne) ?c"
  have room: "(Suc k + p) * ?ne \<le> length ?c"
    using P(1,5) k by (metis add.commute add_le_mono Suc_leI mult_le_mono1 plus_1_eq_Suc)
  have set: "intsetSet I (int (k + p)) (xs ! k) = Some (I\<lparr>is_contents := ?c'\<rparr>)"
  proof (rule setAt)
    have "drop ((k + p) * ?ne) ?c = take ?ne (drop ((k + p) * ?ne) ?c) @ drop ((Suc k + p) * ?ne) ?c"
      by (metis add.commute add_Suc append_take_drop_id drop_drop mult_Suc)
    then show "?c = take ((k + p) * ?ne) ?c @ take ?ne (drop ((k + p) * ?ne) ?c) @ drop ((Suc k + p) * ?ne) ?c"
      by (metis append_take_drop_id)
  qed (use room P in \<open>auto simp: min_def\<close>)
  have lt: "length (take ((k + p) * ?ne) ?c) = (k + p) * ?ne" using room by simp
  have "\<exists>m. intsetUpgrade_loop k p ce (I\<lparr>is_contents := ?c'\<rparr>) = Some ((I\<lparr>is_contents := ?c'\<rparr>)\<lparr>is_contents := m\<rparr>) \<and>
      length m = Suc (length xs) * is_encoding (I\<lparr>is_contents := ?c'\<rparr>) \<and>
      take (length xs * is_encoding (I\<lparr>is_contents := ?c'\<rparr>)) (drop (p * is_encoding (I\<lparr>is_contents := ?c'\<rparr>)) m) =
        map Some (enc_list (is_encoding (I\<lparr>is_contents := ?c'\<rparr>)) xs)"
  proof (rule Suc.IH)
    have "k * ce \<le> (k + p) * ?ne" using P(4) by (intro mult_le_mono) auto
    then have "take (k * ce) ?c' = take (k * ce) ?c" using lt by simp
    also have "\<dots> = take (k * ce) (take (Suc k * ce) ?c)" by (simp add: min_def)
    also have "\<dots> = map Some (enc_list ce (take k xs))"
      unfolding first using k by simp
    finally show "take (k * ce) (is_contents (I\<lparr>is_contents := ?c'\<rparr>)) = map Some (enc_list ce (take k xs))" by simp
    have d: "drop ((k + p) * ?ne) ?c' = ?E @ drop ((Suc k + p) * ?ne) ?c" using lt by simp
    have n: "(length xs - k) * ?ne = ?ne + (length xs - Suc k) * ?ne"
      using k by (metis Suc_diff_Suc mult_Suc)
    have "take ((length xs - k) * ?ne) (drop ((k + p) * ?ne) ?c') = ?E @ map Some (enc_list ?ne (drop (Suc k) xs))"
      unfolding d n using P(9) by simp
    also have "\<dots> = map Some (enc_list ?ne (drop k xs))"
      using Cons_nth_drop_Suc [OF k] by (metis enc_list_simps(2) map_append)
    finally show "take ((length xs - k) * is_encoding (I\<lparr>is_contents := ?c'\<rparr>))
        (drop ((k + p) * is_encoding (I\<lparr>is_contents := ?c'\<rparr>)) (is_contents (I\<lparr>is_contents := ?c'\<rparr>))) =
        map Some (enc_list (is_encoding (I\<lparr>is_contents := ?c'\<rparr>)) (drop k xs))" by simp
    show "length (is_contents (I\<lparr>is_contents := ?c'\<rparr>)) = Suc (length xs) * is_encoding (I\<lparr>is_contents := ?c'\<rparr>)"
      using lt room P(1) by simp
  qed (use P in auto)
  then show ?case using get set by simp
qed

lemma upgrade_rep:
  assumes rep: "intset_rep I xs" and wide: "is_encoding I < intsetValueEncoding v"
    and v: "INT64_MIN \<le> v" "v \<le> INT64_MAX" and len: "length xs + 1 < 536870912"
  shows "\<exists>J. intsetUpgradeAndAdd I v = Some J \<and> intset_rep J (if v < 0 then v # xs else xs @ [v])"
proof -
  let ?ce = "is_encoding I" and ?ne = "intsetValueEncoding v" and ?p = "if v < 0 then 1 else 0 :: nat"
  have ce: "?ce \<in> {2, 4, 8}" and L: "is_length I = length xs" and fits: "\<forall>x \<in> set xs. fits_bytes ?ce x"
    and srt: "sorted_wrt (<) xs" and c: "is_contents I = map Some (enc_list ?ce xs)"
    using rep by (auto simp: intset_rep_def)
  have ne: "?ne \<in> {2, 4, 8}" by (auto simp: intsetValueEncoding_def)
  have nofit: "\<not> fits_bytes ?ce v" using fits_value_encoding [OF v ce] wide by simp
  have fitv: "fits_bytes ?ne v" using fits_value_encoding [OF v ne] by simp
  have small: "(length xs + 1) * ?ne < 4294967296"
  proof -
    have "(length xs + 1) * ?ne \<le> (length xs + 1) * 8" using ne by (intro mult_le_mono2) auto
    also have "\<dots> < 4294967296" using len by simp
    finally show ?thesis .
  qed
  let ?R = "intsetResize (I\<lparr>is_encoding := ?ne\<rparr>) (u32 (is_length I + 1))"
  have Rlen: "length (is_contents ?R) = Suc (length xs) * ?ne"
  proof -
    have le: "length xs * ?ce \<le> Suc (length xs) * ?ne" using wide by (intro mult_le_mono) auto
    have "u32 (u32 (is_length I + 1) * ?ne) = Suc (length xs) * ?ne" using small len L by simp
    then show ?thesis using le by (simp add: intsetResize_def mem_resize_def c)
  qed
  have Rtake: "take (length xs * ?ce) (is_contents ?R) = map Some (enc_list ?ce (take (length xs) xs))"
  proof -
    have le: "length xs * ?ce \<le> Suc (length xs) * ?ne" using wide by (intro mult_le_mono) auto
    have "u32 (u32 (is_length I + 1) * ?ne) = Suc (length xs) * ?ne" using small len L by simp
    then show ?thesis using le by (simp add: intsetResize_def mem_resize_def c min_def)
  qed
  have Renc: "is_encoding ?R = ?ne" and Rl: "is_length ?R = length xs" using L by (simp_all add: intsetResize_def)
  obtain m where m: "intsetUpgrade_loop (length xs) ?p ?ce ?R = Some (?R\<lparr>is_contents := m\<rparr>)"
      "length m = Suc (length xs) * ?ne" "take (length xs * ?ne) (drop (?p * ?ne) m) = map Some (enc_list ?ne xs)"
  proof -
    have p1: "?p \<le> 1" by simp
    have le: "?ce \<le> ?ne" using wide by simp
    have nil: "take ((length xs - length xs) * ?ne) (drop ((length xs + ?p) * ?ne) (is_contents ?R)) =
        map Some (enc_list ?ne (drop (length xs) xs))" by simp
    from upgrade_loop_spec [of ?R xs ?ce ?p "length xs", unfolded Renc, OF Rlen ne ce le p1 order_refl fits Rtake nil] that
    show ?thesis by blast
  qed
  have fin: "intset_rep ((?R\<lparr>is_contents := cc\<rparr>)\<lparr>is_length := u32 (length xs + 1)\<rparr>) ys"
    if "cc = map Some (enc_list ?ne ys)" "length ys = Suc (length xs)" "set ys = insert v (set xs)" "sorted_wrt (<) ys" for cc ys
    using that Renc ne fits fitv wide len fits_bytes_mono [of ?ce _ ?ne] ce
    by (auto simp: intset_rep_def)
  have below: "v < 0 \<Longrightarrow> x \<in> set xs \<Longrightarrow> v < x" and above: "\<not> v < 0 \<Longrightarrow> x \<in> set xs \<Longrightarrow> x < v" for x
    using nofit fits by (force simp: fits_bytes_def)+
  have unf: "intsetUpgradeAndAdd I v = do {
      J \<leftarrow> (if ?p \<noteq> 0 then intsetSet (?R\<lparr>is_contents := m\<rparr>) 0 v
           else intsetSet (?R\<lparr>is_contents := m\<rparr>) (int (length xs)) v);
      Some (J\<lparr>is_length := u32 (is_length J + 1)\<rparr>)
    }"
    using m(1) len L Rl by (simp add: intsetUpgradeAndAdd_def Let_def)
  show ?thesis
  proof (cases "v < 0")
    case True
    have "m = [] @ take ?ne m @ map Some (enc_list ?ne xs)"
    proof -
      have "take (length xs * ?ne) (drop ?ne m) = drop ?ne m" using m(2) by simp
      then have "drop ?ne m = map Some (enc_list ?ne xs)" using m(3) True by simp
      then show ?thesis by (metis append_Nil append_take_drop_id)
    qed
    then have "intsetSet (?R\<lparr>is_contents := m\<rparr>) (int 0) v =
        Some (?R\<lparr>is_contents := [] @ map Some (le_enc ?ne v) @ map Some (enc_list ?ne xs)\<rparr>)"
      using setAt [of "?R\<lparr>is_contents := m\<rparr>" "[]" "take ?ne m" "map Some (enc_list ?ne xs)" 0 v] m(2) Renc ne by simp
    then have J: "intsetUpgradeAndAdd I v =
        Some ((?R\<lparr>is_contents := map Some (enc_list ?ne (v # xs))\<rparr>)\<lparr>is_length := u32 (length xs + 1)\<rparr>)"
      using unf True Rl by simp
    have "intset_rep ((?R\<lparr>is_contents := map Some (enc_list ?ne (v # xs))\<rparr>)\<lparr>is_length := u32 (length xs + 1)\<rparr>) (v # xs)"
      by (rule fin) (use below srt True in auto)
    with J True show ?thesis by auto
  next
    case False
    have "m = map Some (enc_list ?ne xs) @ drop (length xs * ?ne) m @ []"
      using m(3) False by (metis append.right_neutral append_take_drop_id drop0 mult_zero_left)
    then have "intsetSet (?R\<lparr>is_contents := m\<rparr>) (int (length xs)) v =
        Some (?R\<lparr>is_contents := map Some (enc_list ?ne xs) @ map Some (le_enc ?ne v) @ []\<rparr>)"
      using setAt [of "?R\<lparr>is_contents := m\<rparr>" "map Some (enc_list ?ne xs)" "drop (length xs * ?ne) m" "[]" "length xs" v]
        m(2) Renc ne by simp
    then have J: "intsetUpgradeAndAdd I v =
        Some ((?R\<lparr>is_contents := map Some (enc_list ?ne (xs @ [v]))\<rparr>)\<lparr>is_length := u32 (length xs + 1)\<rparr>)"
      using unf False Rl by simp
    have "intset_rep ((?R\<lparr>is_contents := map Some (enc_list ?ne (xs @ [v]))\<rparr>)\<lparr>is_length := u32 (length xs + 1)\<rparr>) (xs @ [v])"
      by (rule fin) (use above srt False in \<open>auto simp: sorted_wrt_append\<close>)
    with J False show ?thesis by auto
  qed
qed

section \<open>The set interface\<close>

text \<open>What the set commands rely on. \<open>ok\<close> are the values that can be stored, \<open>bound\<close> limits the
  number of elements.\<close>

locale int_set =
  fixes inv :: "'s \<Rightarrow> bool"
    and elems :: "'s \<Rightarrow> int list"
    and add :: "'s \<Rightarrow> int \<Rightarrow> (bool \<times> 's) option"
    and remove :: "'s \<Rightarrow> int \<Rightarrow> (bool \<times> 's) option"
    and find :: "'s \<Rightarrow> int \<Rightarrow> bool option"
    and ok :: "int \<Rightarrow> bool"
    and bound :: nat
  assumes sorted_elems: "inv s \<Longrightarrow> sorted_wrt (<) (elems s)"
    and add_spec: "inv s \<Longrightarrow> ok v \<Longrightarrow> length (elems s) + 1 < bound \<Longrightarrow>
      \<exists>s'. add s v = Some (v \<notin> set (elems s), s') \<and> inv s' \<and> set (elems s') = insert v (set (elems s))"
    and remove_spec: "inv s \<Longrightarrow> ok v \<Longrightarrow>
      \<exists>s'. remove s v = Some (v \<in> set (elems s), s') \<and> inv s' \<and> set (elems s') = set (elems s) - {v}"
    and find_spec: "inv s \<Longrightarrow> ok v \<Longrightarrow> find s v = Some (v \<in> set (elems s))"
begin

lemma elems_unique: "inv s \<Longrightarrow> inv t \<Longrightarrow> set (elems s) = set (elems t) \<Longrightarrow> elems s = elems t"
  using strict_sorted_equal sorted_elems by metis

lemma add_then_find:
  assumes "inv s" and "ok v" and "ok w" and "length (elems s) + 1 < bound"
  shows "\<exists>b s'. add s v = Some (b, s') \<and> find s' w = Some (w = v \<or> w \<in> set (elems s))"
  using add_spec [OF assms(1,2,4)] find_spec [OF _ assms(3)] by fastforce

text \<open>Removing a value that was just added brings the elements back.\<close>

lemma add_then_remove:
  assumes "inv s" and "ok v" and "length (elems s) + 1 < bound" and "v \<notin> set (elems s)"
  shows "\<exists>s1 s2. add s v = Some (True, s1) \<and> remove s1 v = Some (True, s2) \<and> inv s2 \<and> elems s2 = elems s"
proof -
  obtain s1 where s1: "add s v = Some (True, s1)" "inv s1" "set (elems s1) = insert v (set (elems s))"
    using add_spec [OF assms(1-3)] assms(4) by auto
  obtain s2 where s2: "remove s1 v = Some (True, s2)" "inv s2" "set (elems s2) = set (elems s1) - {v}"
    using remove_spec [OF s1(2) assms(2)] s1(3) by auto
  have "set (elems s2) = set (elems s)" using s1(3) s2(3) assms(4) by auto
  with s1 s2 elems_unique [OF s2(2) assms(1)] show ?thesis by blast
qed

end

definition intset_elems :: "intset \<Rightarrow> int list" where
  "intset_elems I = map (\<lambda>i. the (intsetGet_raw I (int i))) [0..<is_length I]"

definition intset_inv :: "intset \<Rightarrow> bool" where
  "intset_inv I \<longleftrightarrow> intset_rep I (intset_elems I)"

definition int64_ok :: "int \<Rightarrow> bool" where
  "int64_ok v \<longleftrightarrow> INT64_MIN \<le> v \<and> v \<le> INT64_MAX"

lemma intset_rep_length: "intset_rep I xs \<Longrightarrow> is_length I = length xs"
  by (simp add: intset_rep_def)

lemma intset_rep_elems: "intset_rep I xs \<Longrightarrow> intset_elems I = xs"
proof (rule nth_equalityI)
  assume rep: "intset_rep I xs"
  note len = intset_rep_length [OF rep]
  show "length (intset_elems I) = length xs" by (simp add: intset_elems_def len)
  fix i assume "i < length (intset_elems I)"
  then have i: "i < length xs" by (simp add: intset_elems_def len)
  with get_raw_rep [OF rep, of "int i"] show "intset_elems I ! i = xs ! i"
    by (simp add: intset_elems_def len)
qed

lemma intset_rep_inv: "intset_rep I xs \<Longrightarrow> intset_inv I"
  using intset_rep_elems [of I xs] by (simp add: intset_inv_def)

lemma insert_pos_set: "insert_pos xs v p \<Longrightarrow> set (take p xs @ v # drop p xs) = insert v (set xs)"
  using set_append [of "take p xs" "drop p xs"] by simp

lemma intsetAdd_rep:
  assumes rep: "intset_rep I xs" and v: "int64_ok v" and len: "length xs + 1 < 536870912"
  shows "\<exists>J ys. intsetAdd I v = Some (v \<notin> set xs, J) \<and> intset_rep J ys \<and> set ys = insert v (set xs)"
proof (cases "intsetValueEncoding v > is_encoding I")
  case True
  have v': "INT64_MIN \<le> v" "v \<le> INT64_MAX" and e: "is_encoding I \<in> {2, 4, 8}"
    using v rep by (auto simp: int64_ok_def intset_rep_def)
  have "v \<notin> set xs" using fits_value_encoding [OF v' e] True rep by (auto simp: intset_rep_def)
  moreover obtain J where J: "intsetUpgradeAndAdd I v = Some J"
      "intset_rep J (if v < 0 then v # xs else xs @ [v])"
    using upgrade_rep [OF rep True v' len] by blast
  ultimately have "intsetAdd I v = Some (v \<notin> set xs, J)" using True by (simp add: intsetAdd_def)
  with J(2) show ?thesis by (intro exI conjI) (auto split: if_splits)
next
  case False
  have fit: "fits_bytes (is_encoding I) v"
    using fits_value_encoding [of v "is_encoding I"] False v rep by (auto simp: int64_ok_def intset_rep_def)
  obtain p where p: "intsetSearch I v = Some (v \<in> set xs, p)"
      "if v \<in> set xs then p < length xs \<and> xs ! p = v else insert_pos xs v p"
    using intsetSearch_rep [OF rep] by blast
  show ?thesis
  proof (cases "v \<in> set xs")
    case True
    then show ?thesis using p False rep by (auto simp: intsetAdd_def)
  next
    case nin: False
    with p have pos: "insert_pos xs v p" by simp
    from rep_add_at [OF rep pos fit len] obtain J K where
        "(let R = intsetResize I (u32 (is_length I + 1)) in
         (if p < is_length R then intsetMoveTail R p (u32 (p + 1)) else Some R)) = Some J"
        "intsetSet J (s32 (int p)) v = Some K"
        "intset_rep (K\<lparr>is_length := u32 (is_length K + 1)\<rparr>) (take p xs @ v # drop p xs)" by blast
    with insert_pos_set [OF pos] nin False p(1) show ?thesis
      by (auto simp: intsetAdd_def Let_def)
  qed
qed

lemma intsetRemove_rep:
  assumes rep: "intset_rep I xs" and v: "int64_ok v"
  shows "\<exists>J ys. intsetRemove I v = Some (v \<in> set xs, J) \<and> intset_rep J ys \<and> set ys = set xs - {v}"
proof (cases "intsetValueEncoding v \<le> is_encoding I")
  case False
  then have "v \<notin> set xs"
    using fits_value_encoding [of v "is_encoding I"] v rep by (auto simp: int64_ok_def intset_rep_def)
  with False rep show ?thesis by (auto simp: intsetRemove_def)
next
  case True
  obtain p where p: "intsetSearch I v = Some (v \<in> set xs, p)"
      "if v \<in> set xs then p < length xs \<and> xs ! p = v else insert_pos xs v p"
    using intsetSearch_rep [OF rep] by blast
  show ?thesis
  proof (cases "v \<in> set xs")
    case False
    then show ?thesis using p True rep by (auto simp: intsetRemove_def)
  next
    case mem: True
    with p have pl: "p < length xs" "xs ! p = v" by auto
    from rep_remove_at [OF rep pl(1)] obtain J where
        J: "(if p < is_length I - 1 then intsetMoveTail I (u32 (p + 1)) p else Some I) = Some J"
        "intset_rep ((intsetResize J (is_length I - 1))\<lparr>is_length := is_length I - 1\<rparr>) (take p xs @ drop (Suc p) xs)" by blast
    have "distinct xs" using rep strict_sorted_iff [of xs] by (simp add: intset_rep_def)
    then have "distinct (take p xs @ v # drop (Suc p) xs)" using id_take_nth_drop [OF pl(1)] pl(2) by simp
    moreover have "set xs = set (take p xs @ v # drop (Suc p) xs)" using id_take_nth_drop [OF pl(1)] pl(2) by metis
    ultimately have "set (take p xs @ drop (Suc p) xs) = set xs - {v}" by auto
    with J mem True p(1) show ?thesis by (auto simp: intsetRemove_def Let_def)
  qed
qed

lemma intsetFind_rep:
  assumes rep: "intset_rep I xs" and v: "int64_ok v"
  shows "intsetFind I v = Some (v \<in> set xs)"
  using intsetSearch_rep [OF rep, of v] fits_value_encoding [of v "is_encoding I"] v rep
  by (auto simp: intsetFind_def int64_ok_def intset_rep_def)

interpretation iset: int_set intset_inv intset_elems intsetAdd intsetRemove intsetFind int64_ok 536870912
proof
  fix s :: intset and v :: int
  assume inv: "intset_inv s"
  then have rep: "intset_rep s (intset_elems s)" by (simp add: intset_inv_def)
  show "sorted_wrt (<) (intset_elems s)" using rep by (simp add: intset_rep_def)
  assume v: "int64_ok v"
  show "\<exists>s'. intsetRemove s v = Some (v \<in> set (intset_elems s), s') \<and> intset_inv s' \<and>
      set (intset_elems s') = set (intset_elems s) - {v}"
    using intsetRemove_rep [OF rep v] intset_rep_elems intset_rep_inv by metis
  show "intsetFind s v = Some (v \<in> set (intset_elems s))" by (rule intsetFind_rep [OF rep v])
  assume "length (intset_elems s) + 1 < 536870912"
  then show "\<exists>s'. intsetAdd s v = Some (v \<notin> set (intset_elems s), s') \<and> intset_inv s' \<and>
      set (intset_elems s') = insert v (set (intset_elems s))"
    using intsetAdd_rep [OF rep v] intset_rep_elems intset_rep_inv by metis
qed

section \<open>Properties\<close>

lemma sorted_list_of_set_rep: "intset_rep I xs \<Longrightarrow> sorted_list_of_set (set xs) = xs"
  by (simp add: intset_rep_def sorted_list_of_set.idem_if_sorted_distinct strict_sorted_iff)

lemma intsetSet_encoding: "intsetSet I p v = Some J \<Longrightarrow> is_encoding J = is_encoding I"
  by (auto simp: intsetSet_def Let_def split: if_splits)

lemma intsetMoveTail_encoding: "intsetMoveTail I f t = Some J \<Longrightarrow> is_encoding J = is_encoding I"
  by (auto simp: intsetMoveTail_def Let_def)

lemma intsetResize_encoding [simp]: "is_encoding (intsetResize I n) = is_encoding I"
  by (simp add: intsetResize_def)

lemma intsetUpgrade_loop_encoding:
  "intsetUpgrade_loop n p c I = Some J \<Longrightarrow> is_encoding J = is_encoding I"
  by (induction n p c I rule: intsetUpgrade_loop.induct) (auto split: bind_splits dest: intsetSet_encoding)

lemmas intset_encoding = intsetSet_encoding intsetMoveTail_encoding intsetUpgrade_loop_encoding

lemma intsetAdd_encoding:
  "intsetAdd I v = Some (b, J) \<Longrightarrow> b \<Longrightarrow>
     is_encoding J = max (is_encoding I) (intsetValueEncoding v)"
  by (auto simp: intsetAdd_def intsetUpgradeAndAdd_def Let_def dest!: intset_encoding
      split: if_splits option.splits prod.splits bind_splits)

lemma intsetRemove_encoding: "intsetRemove I v = Some (b, J) \<Longrightarrow> is_encoding J = is_encoding I"
  by (auto simp: intsetRemove_def Let_def dest!: intset_encoding
      split: if_splits option.splits prod.splits bind_splits)

text \<open>C11. Adding a 64-bit value to an integer set is defined behaviour, reports whether the value was
  new, and leaves the bytes of the set that holds the old elements and the value, in order, at a
  width that fits them all. Finding a value afterwards gives membership in that set.\<close>

theorem intsetAdd_correct:
  assumes "intset_rep I xs" and "INT64_MIN \<le> v" "v \<le> INT64_MAX" and "length xs + 1 < 2 ^ 29"
  shows "\<exists>J. intsetAdd I v = Some (v \<notin> set xs, J) \<and>
     intset_rep J (sorted_list_of_set (insert v (set xs))) \<and>
     (\<forall>w. int64_ok w \<longrightarrow> intsetFind J w = Some (w = v \<or> w \<in> set xs))"
proof -
  obtain J ys where J: "intsetAdd I v = Some (v \<notin> set xs, J)" "intset_rep J ys" "set ys = insert v (set xs)"
    using intsetAdd_rep [of I xs v] assms by (auto simp: int64_ok_def)
  from sorted_list_of_set_rep [OF J(2)] J(3) have "sorted_list_of_set (insert v (set xs)) = ys" by simp
  moreover have "\<forall>w. int64_ok w \<longrightarrow> intsetFind J w = Some (w = v \<or> w \<in> set xs)"
    using intsetFind_rep [OF J(2)] J(3) by auto
  ultimately show ?thesis using J by auto
qed

definition intset_example :: intset where
  "intset_example = \<lparr>is_encoding = 2, is_length = 2, is_contents = map Some (enc_list 2 [-5, 300])\<rparr>"

lemma intset_example_rep: "intset_rep intset_example [-5, 300]"
  by (simp add: intset_rep_def intset_example_def fits_bytes_def)

theorem intsetAdd_correct_witness:
  "(\<exists>J. intsetAdd intset_example (-70000) = Some (True, J) \<and>
      intset_rep J (sorted_list_of_set {-70000, -5, 300}) \<and> intsetFind J 300 = Some True)"
  using intsetAdd_correct [OF intset_example_rep, of "-70000"] by (auto simp: int64_ok_def)

text \<open>Removing a value reports whether it was there and leaves exactly the bytes of the set without
  it: the object shrinks with the set and its encoding stays.\<close>

theorem intsetRemove_correct:
  assumes "intset_rep I xs" and "INT64_MIN \<le> v" "v \<le> INT64_MAX"
  shows "\<exists>J. intsetRemove I v = Some (v \<in> set xs, J) \<and> intset_rep J (sorted_list_of_set (set xs - {v})) \<and>
     is_encoding J = is_encoding I \<and> intsetBlobLen J = 8 + is_encoding I * card (set xs - {v})"
proof -
  obtain J ys where J: "intsetRemove I v = Some (v \<in> set xs, J)" "intset_rep J ys" "set ys = set xs - {v}"
    using intsetRemove_rep [of I xs v] assms by (auto simp: int64_ok_def)
  have ys: "sorted_list_of_set (set xs - {v}) = ys" using sorted_list_of_set_rep [OF J(2)] J(3) by simp
  note enc = intsetRemove_encoding [OF J(1)]
  have "distinct ys" using J(2) by (simp add: intset_rep_def strict_sorted_iff)
  then have "length ys = card (set xs - {v})" using J(3) distinct_card by metis
  moreover have "is_length J * is_encoding J < 4294967296"
  proof -
    have "is_encoding J \<le> 8" "is_length J < 536870912" using J(2) by (auto simp: intset_rep_def)
    then have "is_length J * is_encoding J \<le> is_length J * 8" by simp
    with \<open>is_length J < 536870912\<close> show ?thesis by linarith
  qed
  ultimately have "intsetBlobLen J = 8 + is_encoding I * card (set xs - {v})"
    using intset_rep_length [OF J(2)] enc by (simp add: intsetBlobLen_def u32_id)
  with J ys enc show ?thesis by auto
qed

theorem intsetRemove_correct_witness:
  "\<exists>J. intsetRemove intset_example 300 = Some (True, J) \<and> intset_rep J (sorted_list_of_set {-5}) \<and>
     intsetBlobLen J = 10"
proof -
  have "set [-5, 300] - {300} = {- 5 :: int}" "card {- 5 :: int} = 1" by auto
  then show ?thesis
    using intsetRemove_correct [OF intset_example_rep, of 300] by (auto simp: intset_example_def)
qed

text \<open>Adding a value that is not in the set and removing it again brings the elements back, even when
  the addition widened every element.\<close>

theorem intset_add_remove:
  assumes "intset_rep I xs" and "INT64_MIN \<le> v" "v \<le> INT64_MAX" and "length xs + 1 < 2 ^ 29" and "v \<notin> set xs"
  shows "\<exists>J K. intsetAdd I v = Some (True, J) \<and> intsetRemove J v = Some (True, K) \<and> intset_rep K xs \<and>
     is_encoding K = max (is_encoding I) (intsetValueEncoding v)"
proof -
  have inv: "intset_inv I" and el: "intset_elems I = xs"
    using intset_rep_inv [OF assms(1)] intset_rep_elems [OF assms(1)] by auto
  obtain J K where JK: "intsetAdd I v = Some (True, J)" "intsetRemove J v = Some (True, K)" "intset_rep K xs"
    using iset.add_then_remove [OF inv, of v] assms el by (auto simp: int64_ok_def intset_inv_def)
  with intsetAdd_encoding [OF JK(1)] intsetRemove_encoding [OF JK(2)] show ?thesis by auto
qed

theorem intset_add_remove_witness:
  "\<exists>J K. intsetAdd intset_example 4294967296 = Some (True, J) \<and> intsetRemove J 4294967296 = Some (True, K) \<and>
     intset_rep K [-5, 300] \<and> is_encoding K = 8"
  using intset_add_remove [OF intset_example_rep, of 4294967296]
  by (auto simp: intsetValueEncoding_def intset_example_def)

text \<open>Reading by position: inside the set it is the element of that rank, outside nothing is stored, and
  the random element of a non-empty set is one of its elements.\<close>

theorem intsetGet_correct:
  assumes "intset_rep I xs"
  shows "intsetGet I i = Some (if i < length xs then Some (xs ! i) else None) \<and> intsetLen I = length xs \<and>
    (xs \<noteq> [] \<longrightarrow> (\<exists>x \<in> set xs. intsetRandom I rnd = Some x))"
proof -
  note len = intset_rep_length [OF assms]
  have small: "length xs < 536870912" using assms by (simp add: intset_rep_def)
  have get: "intsetGet_raw I (s32 (int k)) = Some (xs ! k)" if "k < length xs" for k
    using get_raw_rep [OF assms, of "int k"] that small s32_id [of "int k"] by simp
  have "\<exists>x \<in> set xs. intsetRandom I rnd = Some x" if ne: "xs \<noteq> []"
  proof -
    have "rnd mod length xs < length xs" using ne by simp
    with get [OF this] ne show ?thesis by (auto simp: intsetRandom_def len)
  qed
  with get [of i] show ?thesis by (simp add: intsetGet_def intsetLen_def len)
qed

theorem intsetGet_correct_witness:
  "intsetGet intset_example 1 = Some (Some 300) \<and> intsetLen intset_example = 2"
  using intsetGet_correct [OF intset_example_rep, of 1] by auto

end
