(* ===== verification/Endian.thy ===== *)
theory Endian
  imports Prelude
begin

text \<open>
  Byte order of \<open>redis-3.2/src/endianconv.c\<close>. The functions work on an object's bytes: \<open>None\<close>
  when the object is shorter than the width. The lemmas show that they reverse exactly the first
  bytes and that the integer versions are involutions that turn a little-endian encoding into a
  big-endian one.
\<close>

definition memrev16 :: "bytes \<Rightarrow> bytes option" where
  "memrev16 x =
     (if length x < 2 then None
      else
        (let t = x ! 0; x = x[0 := x ! 1]; x = x[1 := t]
         in Some x))"

definition memrev32 :: "bytes \<Rightarrow> bytes option" where
  "memrev32 x =
     (if length x < 4 then None
      else
        (let t = x ! 0; x = x[0 := x ! 3]; x = x[3 := t];
             t = x ! 1; x = x[1 := x ! 2]; x = x[2 := t]
         in Some x))"

definition memrev64 :: "bytes \<Rightarrow> bytes option" where
  "memrev64 x =
     (if length x < 8 then None
      else
        (let t = x ! 0; x = x[0 := x ! 7]; x = x[7 := t];
             t = x ! 1; x = x[1 := x ! 6]; x = x[6 := t];
             t = x ! 2; x = x[2 := x ! 5]; x = x[5 := t];
             t = x ! 3; x = x[3 := x ! 4]; x = x[4 := t]
         in Some x))"

text \<open>The object of an integer parameter on a little-endian host.\<close>

definition intrev16 :: "int \<Rightarrow> int option" where
  "intrev16 v = map_option le_dec (memrev16 (le_enc 2 v))"

definition intrev32 :: "int \<Rightarrow> int option" where
  "intrev32 v = map_option le_dec (memrev32 (le_enc 4 v))"

definition intrev64 :: "int \<Rightarrow> int option" where
  "intrev64 v = map_option le_dec (memrev64 (le_enc 8 v))"

definition rev_prefix :: "nat \<Rightarrow> bytes \<Rightarrow> bytes option" where
  "rev_prefix n x = (if length x < n then None else Some (rev (take n x) @ drop n x))"

lemma list_update_8: "8 \<le> length x \<Longrightarrow> \<exists>a b c d e f g h ys. x = [a, b, c, d, e, f, g, h] @ ys"
  by (auto simp: Suc_le_length_iff numeral_eq_Suc)

lemma list_update_4: "4 \<le> length x \<Longrightarrow> \<exists>a b c d ys. x = [a, b, c, d] @ ys"
  by (auto simp: Suc_le_length_iff numeral_eq_Suc)

lemma list_update_2: "2 \<le> length x \<Longrightarrow> \<exists>a b ys. x = [a, b] @ ys"
  by (auto simp: Suc_le_length_iff numeral_eq_Suc)

lemma memrev16_rev: "memrev16 x = rev_prefix 2 x"
  using list_update_2 [of x] by (fastforce simp: memrev16_def rev_prefix_def Let_def numeral_eq_Suc)

lemma memrev32_rev: "memrev32 x = rev_prefix 4 x"
  using list_update_4 [of x] by (fastforce simp: memrev32_def rev_prefix_def Let_def numeral_eq_Suc)

lemma memrev64_rev: "memrev64 x = rev_prefix 8 x"
  using list_update_8 [of x] by (fastforce simp: memrev64_def rev_prefix_def Let_def numeral_eq_Suc)

lemma le_enc_dec: "le_enc (length bs) (le_dec bs) = bs"
proof (induction bs)
  case (Cons b bs)
  have "0 \<le> uint b" "uint b < 256" using uint_bounded [of b] by simp_all
  then have "(uint b + 256 * le_dec bs) div 256 = le_dec bs" "(uint b + 256 * le_dec bs) mod 256 = uint b" by simp_all
  moreover from this(2) have "word_of_int (uint b + 256 * le_dec bs) = b"
    using uint_word_of_int [of "uint b + 256 * le_dec bs", where 'a = 8] by (simp add: word_uint_eq_iff del: of_int_add of_int_mult)
  ultimately show ?case using Cons by simp
qed simp

lemma rev_prefix_enc: "rev_prefix n (le_enc n v) = Some (rev (le_enc n v))"
  by (simp add: rev_prefix_def)

lemma rev_involution:
  assumes "0 \<le> v" and "v < 256 ^ n"
  shows "le_dec (rev (le_enc n (le_dec (rev (le_enc n v))))) = v"
proof -
  have "le_enc n (le_dec (rev (le_enc n v))) = rev (le_enc n v)"
    using le_enc_dec [of "rev (le_enc n v)"] by simp
  then show ?thesis using assms by (simp add: le_dec_enc)
qed

text \<open>The in-place routines reverse exactly the first 2, 4 or 8 bytes of the object and leave the rest,
  and on a shorter object they are undefined.\<close>

theorem memrev_reverses:
  "memrev16 x = rev_prefix 2 x \<and> memrev32 x = rev_prefix 4 x \<and> memrev64 x = rev_prefix 8 x"
  by (simp add: memrev16_rev memrev32_rev memrev64_rev)

text \<open>The integer versions return the value whose little-endian bytes are the big-endian bytes of the
  argument, and applying them twice gives the argument back.\<close>

theorem intrev_involution:
  assumes "0 \<le> v"
  shows "(v < 2 ^ 16 \<longrightarrow> Option.bind (intrev16 v) intrev16 = Some v) \<and>
    (v < 2 ^ 32 \<longrightarrow> Option.bind (intrev32 v) intrev32 = Some v) \<and>
    (v < 2 ^ 64 \<longrightarrow> Option.bind (intrev64 v) intrev64 = Some v \<and> intrev64 v = Some (le_dec (rev (le_enc 8 v))))"
  using rev_involution [OF assms, of 2] rev_involution [OF assms, of 4] rev_involution [OF assms, of 8]
  by (simp add: intrev16_def intrev32_def intrev64_def memrev16_rev memrev32_rev memrev64_rev rev_prefix_enc)

theorem intrev_involution_witness:
  "Option.bind (intrev32 16909060) intrev32 = Some 16909060"
  using intrev_involution [of 16909060] by simp

end
