(* ===== verification/Adlist.thy ===== *)
theory Adlist
  imports Prelude "HOL-Library.Monad_Syntax"
begin

text \<open>
  The generic doubly linked list of \<open>redis-3.2/src/adlist.c\<close>, on an explicit heap of nodes.

  A pointer is \<open>addr option\<close>, \<open>None\<close> being \<open>NULL\<close>. Reading or writing through \<open>NULL\<close> or through
  an address that holds no node is undefined behaviour: the operation is \<open>None\<close>. Each allocation
  is an argument: the address \<open>zmalloc\<close> returned, or \<open>None\<close> when it returned \<open>NULL\<close>. Values are
  opaque pointers; the \<open>dup\<close> and \<open>match\<close> methods are fields of the list as in the code, and the
  values handed to the \<open>free\<close> method are part of the result of the operations that call it.
  The loops over the nodes follow the heap, which may be cyclic: they are partial functions whose
  value \<open>None\<close> also stands for not returning.

  \<open>list_rep\<close> says that a heap holds a well-formed list of given nodes. The lemmas show that every
  operation is the expected one on that sequence, that the nodes it does not touch stay as they are,
  and that no operation reads freed memory.
\<close>

section \<open>Data\<close>

type_synonym addr = nat
type_synonym pointer = "addr option"

record 'v listNode =
  nd_prev :: pointer
  nd_next :: pointer
  nd_value :: 'v

type_synonym 'v nodeheap = "addr \<rightharpoonup> 'v listNode"

datatype direction = AL_START_HEAD | AL_START_TAIL

record listIter =
  it_next :: pointer
  it_direction :: direction

record 'v adlist =
  l_head :: pointer
  l_tail :: pointer
  l_dup :: "('v \<Rightarrow> 'v option) option"
  l_free :: bool
  l_match :: "('v \<Rightarrow> 'v \<Rightarrow> bool) option"
  l_len :: nat

section \<open>Access through a pointer\<close>

definition deref :: "'v nodeheap \<Rightarrow> pointer \<Rightarrow> 'v listNode option" where
  "deref h p = (case p of None \<Rightarrow> None | Some a \<Rightarrow> h a)"

definition set_next :: "'v nodeheap \<Rightarrow> pointer \<Rightarrow> pointer \<Rightarrow> 'v nodeheap option" where
  "set_next h p q = do {
     n \<leftarrow> deref h p;
     Some (h(the p \<mapsto> n\<lparr>nd_next := q\<rparr>))
   }"

definition set_prev :: "'v nodeheap \<Rightarrow> pointer \<Rightarrow> pointer \<Rightarrow> 'v nodeheap option" where
  "set_prev h p q = do {
     n \<leftarrow> deref h p;
     Some (h(the p \<mapsto> n\<lparr>nd_prev := q\<rparr>))
   }"

section \<open>Operations\<close>

definition listCreate :: "'v adlist" where
  "listCreate = \<lparr>l_head = None, l_tail = None, l_dup = None, l_free = False, l_match = None, l_len = 0\<rparr>"

text \<open>The loop of \<open>listRelease\<close>: the heap after the frees and the values handed to the free method.\<close>

fun listRelease_loop :: "nat \<Rightarrow> bool \<Rightarrow> 'v nodeheap \<Rightarrow> pointer \<Rightarrow> ('v nodeheap \<times> 'v list) option" where
  "listRelease_loop 0 fr h current = Some (h, [])"
| "listRelease_loop (Suc len) fr h current = do {
     n \<leftarrow> deref h current;
     (h', vs) \<leftarrow> listRelease_loop len fr (h(the current := None)) (nd_next n);
     Some (h', if fr then nd_value n # vs else vs)
   }"

definition listRelease :: "'v nodeheap \<Rightarrow> 'v adlist \<Rightarrow> ('v nodeheap \<times> 'v list) option" where
  "listRelease h l = listRelease_loop (l_len l) (l_free l) h (l_head l)"

text \<open>The boolean is false when the function returned \<open>NULL\<close>.\<close>

definition listAddNodeHead :: "'v nodeheap \<Rightarrow> 'v adlist \<Rightarrow> pointer \<Rightarrow> 'v \<Rightarrow> (bool \<times> 'v nodeheap \<times> 'v adlist) option" where
  "listAddNodeHead h l node v =
     (case node of None \<Rightarrow> Some (False, h, l)
      | Some a \<Rightarrow>
          if l_len l = 0 then
            Some (True, h(a \<mapsto> \<lparr>nd_prev = None, nd_next = None, nd_value = v\<rparr>),
              l\<lparr>l_head := node, l_tail := node, l_len := ulong_inc (l_len l)\<rparr>)
          else do {
            let h = h(a \<mapsto> \<lparr>nd_prev = None, nd_next = l_head l, nd_value = v\<rparr>);
            h \<leftarrow> set_prev h (l_head l) node;
            Some (True, h, l\<lparr>l_head := node, l_len := ulong_inc (l_len l)\<rparr>)
          })"

definition listAddNodeTail :: "'v nodeheap \<Rightarrow> 'v adlist \<Rightarrow> pointer \<Rightarrow> 'v \<Rightarrow> (bool \<times> 'v nodeheap \<times> 'v adlist) option" where
  "listAddNodeTail h l node v =
     (case node of None \<Rightarrow> Some (False, h, l)
      | Some a \<Rightarrow>
          if l_len l = 0 then
            Some (True, h(a \<mapsto> \<lparr>nd_prev = None, nd_next = None, nd_value = v\<rparr>),
              l\<lparr>l_head := node, l_tail := node, l_len := ulong_inc (l_len l)\<rparr>)
          else do {
            let h = h(a \<mapsto> \<lparr>nd_prev = l_tail l, nd_next = None, nd_value = v\<rparr>);
            h \<leftarrow> set_next h (l_tail l) node;
            Some (True, h, l\<lparr>l_tail := node, l_len := ulong_inc (l_len l)\<rparr>)
          })"

definition listInsertNode ::
  "'v nodeheap \<Rightarrow> 'v adlist \<Rightarrow> pointer \<Rightarrow> pointer \<Rightarrow> 'v \<Rightarrow> bool \<Rightarrow> (bool \<times> 'v nodeheap \<times> 'v adlist) option" where
  "listInsertNode h l node old_node v after =
     (case node of None \<Rightarrow> Some (False, h, l)
      | Some a \<Rightarrow> do {
          old \<leftarrow> deref h old_node;
          let nprev = (if after then old_node else nd_prev old);
          let nnext = (if after then nd_next old else old_node);
          let l = (if after then (if l_tail l = old_node then l\<lparr>l_tail := node\<rparr> else l)
                   else (if l_head l = old_node then l\<lparr>l_head := node\<rparr> else l));
          let h = h(a \<mapsto> \<lparr>nd_prev = nprev, nd_next = nnext, nd_value = v\<rparr>);
          h \<leftarrow> (if nprev \<noteq> None then set_next h nprev node else Some h);
          h \<leftarrow> (if nnext \<noteq> None then set_prev h nnext node else Some h);
          Some (True, h, l\<lparr>l_len := ulong_inc (l_len l)\<rparr>)
        })"

definition listDelNode :: "'v nodeheap \<Rightarrow> 'v adlist \<Rightarrow> pointer \<Rightarrow> ('v nodeheap \<times> 'v adlist \<times> 'v list) option" where
  "listDelNode h l node = do {
     n \<leftarrow> deref h node;
     h \<leftarrow> (if nd_prev n \<noteq> None then set_next h (nd_prev n) (nd_next n) else Some h);
     let l = (if nd_prev n \<noteq> None then l else l\<lparr>l_head := nd_next n\<rparr>);
     n \<leftarrow> deref h node;
     h \<leftarrow> (if nd_next n \<noteq> None then set_prev h (nd_next n) (nd_prev n) else Some h);
     let l = (if nd_next n \<noteq> None then l else l\<lparr>l_tail := nd_prev n\<rparr>);
     n \<leftarrow> deref h node;
     Some (h(the node := None), l\<lparr>l_len := ulong_dec (l_len l)\<rparr>, if l_free l then [nd_value n] else [])
   }"

text \<open>The boolean: the iterator could be allocated.\<close>

definition listGetIterator :: "'v adlist \<Rightarrow> direction \<Rightarrow> bool \<Rightarrow> listIter option" where
  "listGetIterator l dir allocated =
     (if allocated then
        Some \<lparr>it_next = (if dir = AL_START_HEAD then l_head l else l_tail l), it_direction = dir\<rparr>
      else None)"

definition listRewind :: "'v adlist \<Rightarrow> listIter" where
  "listRewind l = \<lparr>it_next = l_head l, it_direction = AL_START_HEAD\<rparr>"

definition listRewindTail :: "'v adlist \<Rightarrow> listIter" where
  "listRewindTail l = \<lparr>it_next = l_tail l, it_direction = AL_START_TAIL\<rparr>"

definition listNext :: "'v nodeheap \<Rightarrow> listIter \<Rightarrow> (pointer \<times> listIter) option" where
  "listNext h iter =
     (if it_next iter \<noteq> None then do {
        n \<leftarrow> deref h (it_next iter);
        Some (it_next iter,
          iter\<lparr>it_next := (if it_direction iter = AL_START_HEAD then nd_next n else nd_prev n)\<rparr>)
      }
      else Some (None, iter))"

text \<open>The copy of a node's value: \<open>None\<close> when the dup method returned \<open>NULL\<close>.\<close>

definition dup_value :: "'v adlist \<Rightarrow> 'v \<Rightarrow> 'v option" where
  "dup_value l v = (case l_dup l of Some f \<Rightarrow> f v | None \<Rightarrow> Some v)"

text \<open>The loop of \<open>listDup\<close>. \<open>allocs\<close> are the results of the successive node allocations (\<open>NULL\<close>
  when it is exhausted). \<open>None\<close> in the last component: the copy was released and \<open>NULL\<close> returned;
  the middle component is what the free method received then.\<close>

partial_function (option) listDup_loop ::
  "'v nodeheap \<Rightarrow> 'v adlist \<Rightarrow> listIter \<Rightarrow> pointer list \<Rightarrow> ('v nodeheap \<times> 'v list \<times> 'v adlist option) option" where
  "listDup_loop h copy iter allocs = do {
     (node, iter) \<leftarrow> listNext h iter;
     if node = None then Some (h, [], Some copy)
     else do {
       n \<leftarrow> deref h node;
       case dup_value copy (nd_value n) of
         None \<Rightarrow> do { (h, vs) \<leftarrow> listRelease h copy; Some (h, vs, None) }
       | Some value \<Rightarrow> do {
           (ok, h, copy) \<leftarrow> listAddNodeTail h copy (case allocs of [] \<Rightarrow> None | a # as \<Rightarrow> a) value;
           if ok then listDup_loop h copy iter (tl allocs)
           else do { (h, vs) \<leftarrow> listRelease h copy; Some (h, vs, None) }
         }
     }
   }"

definition listDup :: "'v nodeheap \<Rightarrow> 'v adlist \<Rightarrow> bool \<Rightarrow> pointer list \<Rightarrow> ('v nodeheap \<times> 'v list \<times> 'v adlist option) option" where
  "listDup h orig allocated allocs =
     (if allocated then
        listDup_loop h (listCreate\<lparr>l_dup := l_dup orig, l_free := l_free orig, l_match := l_match orig\<rparr>)
          (listRewind orig) allocs
      else Some (h, [], None))"

definition match_value :: "'v adlist \<Rightarrow> 'v \<Rightarrow> 'v \<Rightarrow> bool" where
  "match_value l v key = (case l_match l of Some f \<Rightarrow> f v key | None \<Rightarrow> key = v)"

partial_function (option) listSearchKey_loop :: "'v nodeheap \<Rightarrow> 'v adlist \<Rightarrow> listIter \<Rightarrow> 'v \<Rightarrow> pointer option" where
  "listSearchKey_loop h l iter key = do {
     (node, iter) \<leftarrow> listNext h iter;
     if node = None then Some None
     else do {
       n \<leftarrow> deref h node;
       if match_value l (nd_value n) key then Some node else listSearchKey_loop h l iter key
     }
   }"

definition listSearchKey :: "'v nodeheap \<Rightarrow> 'v adlist \<Rightarrow> 'v \<Rightarrow> pointer option" where
  "listSearchKey h l key = listSearchKey_loop h l (listRewind l) key"

fun listIndex_loop :: "'v nodeheap \<Rightarrow> ('v listNode \<Rightarrow> pointer) \<Rightarrow> nat \<Rightarrow> pointer \<Rightarrow> pointer option" where
  "listIndex_loop h step 0 n = Some n"
| "listIndex_loop h step (Suc index) n =
     (if n = None then Some None
      else do { nd \<leftarrow> deref h n; listIndex_loop h step index (step nd) })"

text \<open>Negating the smallest \<open>PORT_LONG\<close> overflows.\<close>

definition listIndex :: "'v nodeheap \<Rightarrow> 'v adlist \<Rightarrow> int \<Rightarrow> pointer option" where
  "listIndex h l index =
     (if index < 0 then
        (if index = INT64_MIN then None
         else listIndex_loop h nd_prev (nat (- index - 1)) (l_tail l))
      else listIndex_loop h nd_next (nat index) (l_head l))"

definition listRotate :: "'v nodeheap \<Rightarrow> 'v adlist \<Rightarrow> ('v nodeheap \<times> 'v adlist) option" where
  "listRotate h l =
     (let tail = l_tail l in
      if l_len l \<le> 1 then Some (h, l)
      else do {
        t \<leftarrow> deref h tail;
        let l = l\<lparr>l_tail := nd_prev t\<rparr>;
        h \<leftarrow> set_next h (l_tail l) None;
        h \<leftarrow> set_prev h (l_head l) tail;
        h \<leftarrow> set_prev h tail None;
        h \<leftarrow> set_next h tail (l_head l);
        Some (h, l\<lparr>l_head := tail\<rparr>)
      })"

section \<open>Segments of a list in the heap\<close>

text \<open>The pointer to the first of the nodes \<open>ns\<close>, or to what follows them, and the pointer to the last
  one, or to what precedes them. \<open>chain h p ns q\<close>: the nodes \<open>ns\<close> (address and value) are linked in
  order between \<open>p\<close> and \<open>q\<close>.\<close>

fun hd_ptr :: "(addr \<times> 'v) list \<Rightarrow> pointer \<Rightarrow> pointer" where
  "hd_ptr [] q = q"
| "hd_ptr ((a, v) # ns) q = Some a"

fun last_ptr :: "pointer \<Rightarrow> (addr \<times> 'v) list \<Rightarrow> pointer" where
  "last_ptr p [] = p"
| "last_ptr p ((a, v) # ns) = last_ptr (Some a) ns"

fun chain :: "'v nodeheap \<Rightarrow> pointer \<Rightarrow> (addr \<times> 'v) list \<Rightarrow> pointer \<Rightarrow> bool" where
  "chain h p [] q \<longleftrightarrow> True"
| "chain h p ((a, v) # ns) q \<longleftrightarrow>
     h a = Some \<lparr>nd_prev = p, nd_next = hd_ptr ns q, nd_value = v\<rparr> \<and> chain h (Some a) ns q"

abbreviation addrs :: "(addr \<times> 'v) list \<Rightarrow> addr list" where "addrs ns \<equiv> map fst ns"

definition list_rep :: "'v nodeheap \<Rightarrow> 'v adlist \<Rightarrow> (addr \<times> 'v) list \<Rightarrow> bool" where
  "list_rep h l ns \<longleftrightarrow>
     l_head l = hd_ptr ns None \<and> l_tail l = last_ptr None ns \<and> chain h None ns None \<and>
     distinct (addrs ns) \<and> l_len l = length ns \<and> length ns < 2 ^ 64"

text \<open>The heap is unchanged outside \<open>A\<close>.\<close>

definition heap_frame :: "'v nodeheap \<Rightarrow> 'v nodeheap \<Rightarrow> addr set \<Rightarrow> bool" where
  "heap_frame h h' A \<longleftrightarrow> (\<forall>b. b \<notin> A \<longrightarrow> h' b = h b)"

definition same_methods :: "'v adlist \<Rightarrow> 'v adlist \<Rightarrow> bool" where
  "same_methods l l' \<longleftrightarrow> l_dup l' = l_dup l \<and> l_free l' = l_free l \<and> l_match l' = l_match l"

lemma hd_ptr_append [simp]: "hd_ptr (xs @ ys) q = hd_ptr xs (hd_ptr ys q)"
  by (cases xs) auto

lemma last_ptr_append [simp]: "last_ptr p (xs @ ys) = last_ptr (last_ptr p xs) ys"
  by (induction xs arbitrary: p) auto

lemma chain_append [simp]:
  "chain h p (xs @ ys) q \<longleftrightarrow> chain h p xs (hd_ptr ys q) \<and> chain h (last_ptr p xs) ys q"
  by (induction xs arbitrary: p) auto

lemma hd_ptr_in: "hd_ptr ns None = Some a \<Longrightarrow> a \<in> set (addrs ns)"
  by (cases ns) auto

lemma last_ptr_in: "ns \<noteq> [] \<Longrightarrow> \<exists>a. last_ptr p ns = Some a \<and> a \<in> set (addrs ns)"
  by (induction ns arbitrary: p) (auto split: prod.splits, metis last_ptr.simps(1) list.set_intros)

lemma chain_dom: "chain h p ns q \<Longrightarrow> a \<in> set (addrs ns) \<Longrightarrow> h a \<noteq> None"
  by (induction ns arbitrary: p) force+

lemma chain_cong: "(\<And>a. a \<in> set (addrs ns) \<Longrightarrow> h' a = h a) \<Longrightarrow> chain h' p ns q = chain h p ns q"
  by (induction ns arbitrary: p) auto

lemma chain_frame: "heap_frame h h' A \<Longrightarrow> A \<inter> set (addrs ns) = {} \<Longrightarrow> chain h p ns q \<Longrightarrow> chain h' p ns q"
  using chain_cong [of ns h' h p q] by (auto simp: heap_frame_def)

lemma chain_upd [simp]: "a \<notin> set (addrs ns) \<Longrightarrow> chain (h(a := n)) p ns q = chain h p ns q"
  by (rule chain_cong) auto

lemma heap_frame_trans: "heap_frame h h1 A \<Longrightarrow> heap_frame h1 h2 B \<Longrightarrow> heap_frame h h2 (A \<union> B)"
  by (simp add: heap_frame_def)

lemma heap_frame_mono: "heap_frame h h' A \<Longrightarrow> A \<subseteq> B \<Longrightarrow> heap_frame h h' B"
  by (auto simp: heap_frame_def)

text \<open>Relinking the ends of a segment.\<close>

lemma set_prev_first:
  assumes "chain h p xs q" and "xs \<noteq> []" and "distinct (addrs xs)"
  shows "\<exists>h'. set_prev h (hd_ptr xs q') r = Some h' \<and> chain h' r xs q \<and> heap_frame h h' (set (addrs xs))"
  using assms by (cases xs) (auto simp: set_prev_def deref_def heap_frame_def)

lemma set_next_last:
  assumes "chain h p xs q" and "xs \<noteq> []" and "distinct (addrs xs)"
  shows "\<exists>h'. set_next h (last_ptr p' xs) r = Some h' \<and> chain h' p xs r \<and> heap_frame h h' (set (addrs xs))"
proof -
  obtain ys a v where xs: "xs = ys @ [(a, v)]" using assms(2) by (metis rev_exhaust surj_pair)
  with assms show ?thesis by (auto simp: set_next_def deref_def heap_frame_def)
qed

section \<open>Adding and removing nodes\<close>

lemma last_ptr_neq [simp]: "p \<noteq> Some b \<Longrightarrow> b \<notin> set (addrs ns) \<Longrightarrow> last_ptr p ns \<noteq> Some b"
  by (induction ns arbitrary: p) auto

lemma hd_ptr_neq [simp]: "q \<noteq> Some b \<Longrightarrow> b \<notin> set (addrs ns) \<Longrightarrow> hd_ptr ns q \<noteq> Some b"
  by (cases ns) auto

lemma empty_or_snoc: "xs = [] \<or> (\<exists>ys a v. xs = ys @ [(a, v)])"
  by (metis rev_exhaust surj_pair)

lemmas node_defs = set_next_def set_prev_def deref_def heap_frame_def list_rep_def same_methods_def

lemma listAddNodeHead_rep:
  assumes rep: "list_rep h l ns" and fresh: "a \<notin> set (addrs ns)" and len: "length ns + 1 < 2 ^ 64"
  shows "\<exists>h' l'. listAddNodeHead h l (Some a) v = Some (True, h', l') \<and> list_rep h' l' ((a, v) # ns) \<and>
     heap_frame h h' (insert a (set (addrs ns))) \<and> same_methods l l'"
  using assms by (cases ns) (auto simp: listAddNodeHead_def node_defs)

lemma listAddNodeTail_rep:
  assumes rep: "list_rep h l ns" and fresh: "a \<notin> set (addrs ns)" and len: "length ns + 1 < 2 ^ 64"
  shows "\<exists>h' l'. listAddNodeTail h l (Some a) v = Some (True, h', l') \<and> list_rep h' l' (ns @ [(a, v)]) \<and>
     heap_frame h h' (insert a (set (addrs ns))) \<and> same_methods l l'"
  using empty_or_snoc [of ns] assms by (auto simp: listAddNodeTail_def node_defs)

lemma listInsertNode_after:
  assumes rep: "list_rep h l (xs @ (b, w) # ys)" and fresh: "a \<notin> set (addrs (xs @ (b, w) # ys))"
    and len: "length (xs @ (b, w) # ys) + 1 < 2 ^ 64"
  shows "\<exists>h' l'. listInsertNode h l (Some a) (Some b) v True = Some (True, h', l') \<and>
     list_rep h' l' (xs @ (b, w) # (a, v) # ys) \<and>
     heap_frame h h' (insert a (set (addrs (xs @ (b, w) # ys)))) \<and> same_methods l l'"
proof (cases ys)
  case Nil
  with assms show ?thesis by (auto simp: listInsertNode_def node_defs Let_def)
next
  case (Cons c ys')
  with assms show ?thesis by (cases c) (auto simp: listInsertNode_def node_defs Let_def)
qed

lemma listInsertNode_before:
  assumes rep: "list_rep h l (xs @ (b, w) # ys)" and fresh: "a \<notin> set (addrs (xs @ (b, w) # ys))"
    and len: "length (xs @ (b, w) # ys) + 1 < 2 ^ 64"
  shows "\<exists>h' l'. listInsertNode h l (Some a) (Some b) v False = Some (True, h', l') \<and>
     list_rep h' l' (xs @ (a, v) # (b, w) # ys) \<and>
     heap_frame h h' (insert a (set (addrs (xs @ (b, w) # ys)))) \<and> same_methods l l'"
  using empty_or_snoc [of xs] assms by (auto simp: listInsertNode_def node_defs Let_def)

lemma listDelNode_rep:
  assumes rep: "list_rep h l (xs @ (a, v) # ys)"
  shows "\<exists>h' l'. listDelNode h l (Some a) = Some (h', l', if l_free l then [v] else []) \<and>
     list_rep h' l' (xs @ ys) \<and> h' a = None \<and>
     heap_frame h h' (set (addrs (xs @ (a, v) # ys))) \<and> same_methods l l'"
proof (cases ys)
  case Nil
  with assms empty_or_snoc [of xs] show ?thesis by (auto simp: listDelNode_def node_defs)
next
  case (Cons c ys')
  with assms empty_or_snoc [of xs] show ?thesis by (cases c) (auto simp: listDelNode_def node_defs)
qed

lemma listRotate_rep:
  assumes rep: "list_rep h l (ns @ [(a, v)])"
  shows "\<exists>h' l'. listRotate h l = Some (h', l') \<and> list_rep h' l' ((a, v) # ns) \<and>
     heap_frame h h' (insert a (set (addrs ns))) \<and> same_methods l l'"
proof (cases ns rule: rev_cases)
  case Nil
  with rep show ?thesis by (auto simp: listRotate_def node_defs Let_def)
next
  case (snoc ys c)
  with rep show ?thesis
    by (cases c; cases ys) (auto simp: listRotate_def node_defs Let_def)
qed

section \<open>Reading, searching, releasing\<close>

lemma chain_deref: "chain h p ((a, v) # ns) q \<Longrightarrow> deref h (Some a) = Some \<lparr>nd_prev = p, nd_next = hd_ptr ns q, nd_value = v\<rparr>"
  by (simp add: deref_def)

lemma listIndex_loop_forward:
  "chain h p ns None \<Longrightarrow> listIndex_loop h nd_next i (hd_ptr ns None) =
     Some (if i < length ns then Some (fst (ns ! i)) else None)"
proof (induction i arbitrary: p ns)
  case 0
  then show ?case by (cases ns) auto
next
  case (Suc i)
  then show ?case by (cases ns) (auto simp: deref_def)
qed

lemma listIndex_loop_backward:
  "chain h None ns q \<Longrightarrow> listIndex_loop h nd_prev i (last_ptr None ns) =
     Some (if i < length ns then Some (fst (ns ! (length ns - 1 - i))) else None)"
proof (induction i arbitrary: q ns)
  case 0
  then show ?case using empty_or_snoc [of ns] by (auto simp: nth_append)
next
  case (Suc i)
  show ?case
  proof (cases ns rule: rev_cases)
    case (snoc ys c)
    with Suc.prems Suc.IH [of ys] show ?thesis
      by (cases c) (auto simp: deref_def nth_append Suc_diff_Suc)
  qed simp
qed

lemma listSearchKey_loop_spec:
  "chain h p ns None \<Longrightarrow>
     listSearchKey_loop h l \<lparr>it_next = hd_ptr ns None, it_direction = AL_START_HEAD\<rparr> key =
     Some (map_option fst (List.find (\<lambda>(a, v). match_value l v key) ns))"
proof (induction ns arbitrary: p)
  case Nil
  then show ?case by (subst listSearchKey_loop.simps) (simp add: listNext_def)
next
  case (Cons n ns)
  then show ?case
    by (cases n, subst listSearchKey_loop.simps) (auto simp: listNext_def deref_def)
qed

lemma listRelease_loop_spec:
  "chain h p ns q \<Longrightarrow> distinct (addrs ns) \<Longrightarrow>
     \<exists>h'. listRelease_loop (length ns) fr h (hd_ptr ns q) = Some (h', if fr then map snd ns else []) \<and>
       (\<forall>a. h' a = (if a \<in> set (addrs ns) then None else h a))"
proof (induction ns arbitrary: p h)
  case (Cons n ns)
  obtain a v where n: "n = (a, v)" by (cases n)
  have "chain (h(a := None)) (Some a) ns q" "distinct (addrs ns)" using Cons.prems by (auto simp: n)
  from Cons.IH [OF this] obtain h' where
      "listRelease_loop (length ns) fr (h(a := None)) (hd_ptr ns q) = Some (h', if fr then map snd ns else [])"
      "\<forall>b. h' b = (if b \<in> set (addrs ns) then None else (h(a := None)) b)" by blast
  with Cons.prems show ?case by (auto simp: n deref_def)
qed simp

lemma listRelease_rep:
  assumes "list_rep h l ns"
  shows "\<exists>h'. listRelease h l = Some (h', if l_free l then map snd ns else []) \<and>
     (\<forall>a. h' a = (if a \<in> set (addrs ns) then None else h a))"
  using listRelease_loop_spec [of h None ns None "l_free l"] assms by (simp add: listRelease_def list_rep_def)

section \<open>Duplication\<close>

text \<open>The result of the \<open>k\<close>-th node allocation.\<close>

definition alloc_at :: "pointer list \<Rightarrow> nat \<Rightarrow> pointer" where
  "alloc_at allocs k = (if k < length allocs then allocs ! k else None)"

text \<open>\<open>listDup\<close> fails at node \<open>k\<close> of \<open>rest\<close>: everything before could be copied.\<close>

definition dup_fails_at :: "'v adlist \<Rightarrow> (addr \<times> 'v) list \<Rightarrow> pointer list \<Rightarrow> nat \<Rightarrow> bool" where
  "dup_fails_at l rest allocs k \<longleftrightarrow>
     k < length rest \<and> (\<forall>i < k. dup_value l (snd (rest ! i)) \<noteq> None \<and> alloc_at allocs i \<noteq> None) \<and>
     (dup_value l (snd (rest ! k)) = None \<or> alloc_at allocs k = None)"

definition dup_copies :: "'v adlist \<Rightarrow> (addr \<times> 'v) list \<Rightarrow> 'v list" where
  "dup_copies l ns = map (the \<circ> dup_value l \<circ> snd) ns"

text \<open>What the copying loop does to a copy that holds \<open>ds\<close> already: it appends a copy of every node of
  \<open>rest\<close>, or the copy is gone again and the rest of the heap is as it was.\<close>

definition dup_result :: "'v nodeheap \<Rightarrow> 'v adlist \<Rightarrow> (addr \<times> 'v) list \<Rightarrow> (addr \<times> 'v) list \<Rightarrow> pointer list \<Rightarrow>
    ('v nodeheap \<times> 'v list \<times> 'v adlist option) \<Rightarrow> bool" where
  "dup_result h copy rest ds allocs = (\<lambda>(h', vs, r). case r of
       Some c \<Rightarrow> vs = [] \<and> same_methods copy c \<and> (\<forall>k. \<not> dup_fails_at copy rest allocs k) \<and>
         list_rep h' c (ds @ zip (map the (take (length rest) allocs)) (dup_copies copy rest)) \<and>
         heap_frame h h' (set (addrs ds) \<union> the ` set (take (length rest) allocs))
     | None \<Rightarrow> (\<exists>k. dup_fails_at copy rest allocs k \<and>
           vs = (if l_free copy then map snd ds @ dup_copies copy (take k rest) else [])) \<and>
         (\<forall>b. h' b = (if b \<in> set (addrs ds) then None else h b)))"

lemma dup_fails_0: "dup_value l v = None \<or> alloc_at allocs 0 = None \<Longrightarrow> dup_fails_at l ((a, v) # rest) allocs 0"
  by (auto simp: dup_fails_at_def)

lemma dup_fails_Suc:
  assumes "dup_value l v \<noteq> None" and "alloc_at allocs 0 \<noteq> None"
  shows "dup_fails_at l ((a, v) # rest) allocs (Suc k) \<longleftrightarrow> dup_fails_at l rest (tl allocs) k"
    and "\<not> dup_fails_at l ((a, v) # rest) allocs 0"
proof -
  have "alloc_at (tl allocs) i = alloc_at allocs (Suc i)" for i
    by (cases allocs) (auto simp: alloc_at_def)
  then show "dup_fails_at l ((a, v) # rest) allocs (Suc k) \<longleftrightarrow> dup_fails_at l rest (tl allocs) k"
    using assms by (auto simp: dup_fails_at_def All_less_Suc2)
  show "\<not> dup_fails_at l ((a, v) # rest) allocs 0" using assms by (auto simp: dup_fails_at_def)
qed

lemma dup_no_fail:
  assumes "dup_value l v \<noteq> None" and "alloc_at allocs 0 \<noteq> None"
  shows "(\<forall>k. \<not> dup_fails_at l ((a, v) # rest) allocs k) \<longleftrightarrow> (\<forall>k. \<not> dup_fails_at l rest (tl allocs) k)"
  using dup_fails_Suc [OF assms] by (metis not0_implies_Suc)

lemma same_methods_dup: "same_methods l l' \<Longrightarrow> dup_value l' = dup_value l \<and> dup_fails_at l' = dup_fails_at l \<and>
    dup_copies l' = dup_copies l \<and> l_free l' = l_free l"
  by (auto simp: same_methods_def dup_value_def dup_fails_at_def dup_copies_def fun_eq_iff)

lemma same_methods_trans: "same_methods l l1 \<Longrightarrow> same_methods l1 l2 \<Longrightarrow> same_methods l l2"
  by (simp add: same_methods_def)

lemma dup_result_fail:
  assumes "list_rep h copy ds" and "dup_value copy v = None \<or> alloc_at allocs 0 = None"
  shows "\<exists>h' vs. listRelease h copy = Some (h', vs) \<and> dup_result h copy ((a, v) # rest) ds allocs (h', vs, None)"
  using listRelease_rep [OF assms(1)] dup_fails_0 [OF assms(2), of a rest]
  by (auto simp: dup_result_def dup_copies_def intro!: exI [of _ "0 :: nat"])

text \<open>One step of the loop: what holds for the rest with the node appended holds for the whole.\<close>

lemma dup_result_step:
  assumes res: "dup_result h1 c1 rest (ds @ [(b, w)]) as r"
    and w: "dup_value copy v = Some w" and m: "same_methods copy c1"
    and fr: "heap_frame h h1 (insert b (set (addrs ds)))" and fresh: "h b = None" and nb: "b \<notin> set (addrs ds)"
  shows "dup_result h copy ((a, v) # rest) ds (Some b # as) r"
proof -
  note M = same_methods_dup [OF m]
  have nf: "dup_value copy v \<noteq> None" "alloc_at (Some b # as) 0 \<noteq> None" using w by (auto simp: alloc_at_def)
  obtain h' vs q where r: "r = (h', vs, q)" by (cases r)
  show ?thesis
  proof (cases q)
    case (Some c)
    with res M dup_no_fail [OF nf, of a rest] same_methods_trans [OF m, of c] w fr show ?thesis
      by (auto simp: dup_result_def r dup_copies_def heap_frame_def)
  next
    case None
    with res M obtain k where k: "dup_fails_at copy rest as k"
        "vs = (if l_free copy then (map snd ds @ [w]) @ dup_copies copy (take k rest) else [])"
      by (auto simp: dup_result_def r)
    have "dup_fails_at copy ((a, v) # rest) (Some b # as) (Suc k)" using k(1) dup_fails_Suc(1) [OF nf] by simp
    moreover have "vs = (if l_free copy then map snd ds @ dup_copies copy (take (Suc k) ((a, v) # rest)) else [])"
      using k(2) w by (simp add: dup_copies_def)
    moreover have "h' x = (if x \<in> set (addrs ds) then None else h x)" for x
      using res None fr fresh by (auto simp: dup_result_def r heap_frame_def)
    ultimately show ?thesis by (auto simp: dup_result_def r None)
  qed
qed

lemma listDup_loop_spec:
  assumes "chain h p rest None" and "list_rep h copy ds" and "distinct (addrs rest)"
    and "set (addrs ds) \<inter> set (addrs rest) = {}"
    and "\<forall>b. Some b \<in> set allocs \<longrightarrow> h b = None" and "distinct allocs" and "length ds + length rest < 2 ^ 64"
  shows "\<exists>r. listDup_loop h copy \<lparr>it_next = hd_ptr rest None, it_direction = AL_START_HEAD\<rparr> allocs = Some r \<and>
     dup_result h copy rest ds allocs r"
  using assms
proof (induction rest arbitrary: h p copy ds allocs)
  case Nil
  then show ?case
    by (subst listDup_loop.simps)
      (auto simp: listNext_def dup_result_def same_methods_def dup_fails_at_def heap_frame_def dup_copies_def)
next
  case (Cons n rest)
  obtain a v where n: "n = (a, v)" by (cases n)
  have ha: "h a = Some \<lparr>nd_prev = p, nd_next = hd_ptr rest None, nd_value = v\<rparr>" and ch: "chain h (Some a) rest None"
    using Cons.prems(1) by (auto simp: n)
  let ?al = "case allocs of [] \<Rightarrow> None | a # as \<Rightarrow> a"
  let ?it = "\<lparr>it_next = hd_ptr rest None, it_direction = AL_START_HEAD\<rparr>"
  have al: "?al = alloc_at allocs 0" by (cases allocs) (auto simp: alloc_at_def)
  have unf: "listDup_loop h copy \<lparr>it_next = hd_ptr (n # rest) None, it_direction = AL_START_HEAD\<rparr> allocs =
      (case dup_value copy v of
         None \<Rightarrow> do { (h, vs) \<leftarrow> listRelease h copy; Some (h, vs, None) }
       | Some value \<Rightarrow> do {
           (ok, h, copy) \<leftarrow> listAddNodeTail h copy (alloc_at allocs 0) value;
           if ok then listDup_loop h copy ?it (tl allocs)
           else do { (h, vs) \<leftarrow> listRelease h copy; Some (h, vs, None) }
         })"
    by (subst listDup_loop.simps) (simp add: n listNext_def deref_def ha al split: option.split)
  show ?case
  proof (cases "dup_value copy v = None \<or> alloc_at allocs 0 = None")
    case True
    then show ?thesis using dup_result_fail [OF Cons.prems(2) True, of a rest]
      unfolding unf by (cases "dup_value copy v") (auto simp: n listAddNodeTail_def)
  next
    case False
    then obtain w b as where w: "dup_value copy v = Some w" and allocs: "allocs = Some b # as"
      by (cases allocs) (auto simp: alloc_at_def)
    have hb: "h b = None" using Cons.prems(5) allocs by auto
    have nb: "b \<notin> set (addrs ds)" using chain_dom [of h None ds None b] Cons.prems(2) hb by (auto simp: list_rep_def)
    have na: "b \<notin> set (addrs (n # rest))" using chain_dom [OF Cons.prems(1), of b] hb by auto
    obtain h1 c1 where add: "listAddNodeTail h copy (Some b) w = Some (True, h1, c1)" "list_rep h1 c1 (ds @ [(b, w)])"
        "heap_frame h h1 (insert b (set (addrs ds)))" "same_methods copy c1"
      using listAddNodeTail_rep [OF Cons.prems(2) nb] Cons.prems(7) by fastforce
    have "\<exists>r. listDup_loop h1 c1 ?it as = Some r \<and> dup_result h1 c1 rest (ds @ [(b, w)]) as r"
    proof (rule Cons.IH)
      show "chain h1 (Some a) rest None"
        by (rule chain_frame [OF add(3) _ ch]) (use na Cons.prems(4) in \<open>auto simp: n\<close>)
      show "\<forall>b. Some b \<in> set as \<longrightarrow> h1 b = None"
      proof (intro allI impI)
        fix x assume x: "Some x \<in> set as"
        then have "h x = None" "x \<noteq> b" using Cons.prems(5,6) allocs by auto
        moreover from this(1) have "x \<notin> set (addrs ds)"
          using chain_dom [of h None ds None x] Cons.prems(2) by (auto simp: list_rep_def)
        ultimately show "h1 x = None" using add(3) by (auto simp: heap_frame_def)
      qed
    qed (use add Cons.prems na allocs in auto)
    then obtain r where r: "listDup_loop h1 c1 ?it as = Some r" "dup_result h1 c1 rest (ds @ [(b, w)]) as r" by blast
    with dup_result_step [OF r(2) w add(4,3) hb nb, of a] w add(1) allocs show ?thesis
      unfolding unf by (auto simp: n alloc_at_def)
  qed
qed

section \<open>The list as a sequence\<close>

fun push_each :: "('s \<Rightarrow> addr \<Rightarrow> 'v \<Rightarrow> 's option) \<Rightarrow> 's \<Rightarrow> (addr \<times> 'v) list \<Rightarrow> 's option" where
  "push_each push s [] = Some s"
| "push_each push s ((a, v) # ms) = Option.bind (push s a v) (\<lambda>s'. push_each push s' ms)"

text \<open>What the clients of a list rely on: nodes are named by their address.\<close>

locale node_sequence =
  fixes repr :: "'s \<Rightarrow> (addr \<times> 'v) list \<Rightarrow> bool"
    and push_front :: "'s \<Rightarrow> addr \<Rightarrow> 'v \<Rightarrow> 's option"
    and push_back :: "'s \<Rightarrow> addr \<Rightarrow> 'v \<Rightarrow> 's option"
    and delete :: "'s \<Rightarrow> addr \<Rightarrow> 's option"
    and bound :: nat
  assumes push_front: "repr s ns \<Longrightarrow> a \<notin> set (addrs ns) \<Longrightarrow> length ns + 1 < bound \<Longrightarrow>
      \<exists>s'. push_front s a v = Some s' \<and> repr s' ((a, v) # ns)"
    and push_back: "repr s ns \<Longrightarrow> a \<notin> set (addrs ns) \<Longrightarrow> length ns + 1 < bound \<Longrightarrow>
      \<exists>s'. push_back s a v = Some s' \<and> repr s' (ns @ [(a, v)])"
    and delete: "repr s (xs @ (a, v) # ys) \<Longrightarrow> \<exists>s'. delete s a = Some s' \<and> repr s' (xs @ ys)"
begin

lemma push_each_back:
  "repr s ns \<Longrightarrow> distinct (addrs (ns @ ms)) \<Longrightarrow> length ns + length ms < bound \<Longrightarrow>
     \<exists>s'. push_each push_back s ms = Some s' \<and> repr s' (ns @ ms)"
proof (induction ms arbitrary: s ns)
  case (Cons m ms)
  obtain a v where m: "m = (a, v)" by (cases m)
  obtain s1 where s1: "push_back s a v = Some s1" "repr s1 (ns @ [(a, v)])"
    using push_back [OF Cons.prems(1), of a v] Cons.prems(2,3) by (auto simp: m)
  with Cons.IH [OF s1(2)] Cons.prems(2,3) show ?case by (auto simp: m)
qed simp

lemma push_each_front:
  "repr s ns \<Longrightarrow> distinct (addrs (ns @ ms)) \<Longrightarrow> length ns + length ms < bound \<Longrightarrow>
     \<exists>s'. push_each push_front s ms = Some s' \<and> repr s' (rev ms @ ns)"
proof (induction ms arbitrary: s ns)
  case (Cons m ms)
  obtain a v where m: "m = (a, v)" by (cases m)
  obtain s1 where s1: "push_front s a v = Some s1" "repr s1 ((a, v) # ns)"
    using push_front [OF Cons.prems(1), of a v] Cons.prems(2,3) by (auto simp: m)
  with Cons.IH [OF s1(2)] Cons.prems(2,3) show ?case by (auto simp: m)
qed simp

text \<open>First in, first out: after appending, the oldest node is the one in front.\<close>

lemma fifo:
  assumes "repr s []" and "distinct (addrs ((a, v) # ms))" and "length ms + 1 < bound"
  shows "\<exists>s1 s2. push_each push_back s ((a, v) # ms) = Some s1 \<and> delete s1 a = Some s2 \<and> repr s2 ms"
proof -
  obtain s1 where s1: "push_each push_back s ((a, v) # ms) = Some s1" "repr s1 ((a, v) # ms)"
    using push_each_back [OF assms(1), of "(a, v) # ms"] assms(2,3) by auto
  with delete [of s1 "[]" a v ms] show ?thesis by auto
qed

end

definition al_push_front :: "'v nodeheap \<times> 'v adlist \<Rightarrow> addr \<Rightarrow> 'v \<Rightarrow> ('v nodeheap \<times> 'v adlist) option" where
  "al_push_front s a v = map_option snd (listAddNodeHead (fst s) (snd s) (Some a) v)"

definition al_push_back :: "'v nodeheap \<times> 'v adlist \<Rightarrow> addr \<Rightarrow> 'v \<Rightarrow> ('v nodeheap \<times> 'v adlist) option" where
  "al_push_back s a v = map_option snd (listAddNodeTail (fst s) (snd s) (Some a) v)"

definition al_delete :: "'v nodeheap \<times> 'v adlist \<Rightarrow> addr \<Rightarrow> ('v nodeheap \<times> 'v adlist) option" where
  "al_delete s a = map_option (\<lambda>(h, l, vs). (h, l)) (listDelNode (fst s) (snd s) (Some a))"

definition al_repr :: "'v nodeheap \<times> 'v adlist \<Rightarrow> (addr \<times> 'v) list \<Rightarrow> bool" where
  "al_repr s ns \<longleftrightarrow> list_rep (fst s) (snd s) ns"

interpretation al: node_sequence al_repr al_push_front al_push_back al_delete "2 ^ 64"
proof
  fix s :: "'v nodeheap \<times> 'v adlist" and ns xs ys :: "(addr \<times> 'v) list" and a :: addr and v :: 'v
  show "\<exists>s'. al_delete s a = Some s' \<and> al_repr s' (xs @ ys)" if "al_repr s (xs @ (a, v) # ys)"
    using listDelNode_rep [of "fst s" "snd s" xs a v ys] that by (auto simp: al_repr_def al_delete_def)
  assume rep: "al_repr s ns" and fresh: "a \<notin> set (addrs ns)" and len: "length ns + 1 < 2 ^ 64"
  show "\<exists>s'. al_push_front s a v = Some s' \<and> al_repr s' ((a, v) # ns)"
    using listAddNodeHead_rep [of "fst s" "snd s" ns a v] rep fresh len by (auto simp: al_repr_def al_push_front_def)
  show "\<exists>s'. al_push_back s a v = Some s' \<and> al_repr s' (ns @ [(a, v)])"
    using listAddNodeTail_rep [of "fst s" "snd s" ns a v] rep fresh len by (auto simp: al_repr_def al_push_back_def)
qed

lemma listCreate_repr: "al_repr (h, listCreate) []"
  by (simp add: al_repr_def list_rep_def listCreate_def)

section \<open>Properties\<close>

text \<open>Appending values to a new list and prepending others builds exactly the expected sequence of nodes,
  and indexing it from the head or, with negative indexes, from the tail finds each node, or nothing out of range.\<close>

theorem adlist_build_index:
  assumes "distinct (addrs (ms @ ns))" and "length ms + length ns < 2 ^ 63"
  shows "\<exists>s1 h l. push_each al_push_back (h0, listCreate) ms = Some s1 \<and>
     push_each al_push_front s1 ns = Some (h, l) \<and> list_rep h l (rev ns @ ms) \<and>
     (\<forall>i < length (rev ns @ ms).
        listIndex h l (int i) = Some (Some (fst ((rev ns @ ms) ! i))) \<and>
        listIndex h l (int i - int (length (rev ns @ ms))) = Some (Some (fst ((rev ns @ ms) ! i)))) \<and>
     (\<forall>i \<ge> int (length (rev ns @ ms)). listIndex h l i = Some None \<and>
        (i < 2 ^ 63 - 1 \<longrightarrow> listIndex h l (- i - 1) = Some None))"
proof -
  obtain s1 where s1: "push_each al_push_back (h0, listCreate) ms = Some s1" "al_repr s1 ms"
    using al.push_each_back [OF listCreate_repr [of h0], of ms] assms by auto
  then obtain s2 where s2: "push_each al_push_front s1 ns = Some s2" "al_repr s2 (rev ns @ ms)"
    using al.push_each_front [OF s1(2), of ns] assms by auto
  obtain h l where hl: "s2 = (h, l)" by (cases s2)
  let ?xs = "rev ns @ ms"
  have rep: "list_rep h l ?xs" using s2(2) by (simp add: al_repr_def hl)
  then have c: "chain h None ?xs None" "l_head l = hd_ptr ?xs None" "l_tail l = last_ptr None ?xs"
    by (auto simp: list_rep_def)
  note fwd = listIndex_loop_forward [OF c(1), folded c(2)] and bwd = listIndex_loop_backward [OF c(1), folded c(3)]
  have "listIndex h l (int i) = Some (Some (fst (?xs ! i))) \<and>
      listIndex h l (int i - int (length ?xs)) = Some (Some (fst (?xs ! i)))" if i: "i < length ?xs" for i
  proof -
    have "nat (- (int i - int (length ?xs)) - 1) = length ?xs - 1 - i" using i by simp
    moreover have "int i - int (length ?xs) \<noteq> INT64_MIN" "int i - int (length ?xs) < 0" using assms(2) i by simp_all
    ultimately show ?thesis using fwd [of i] bwd [of "length ?xs - 1 - i"] i
      by (simp only: listIndex_def) (simp add: Suc_diff_Suc)
  qed
  moreover have "listIndex h l i = Some None \<and> (i < 2 ^ 63 - 1 \<longrightarrow> listIndex h l (- i - 1) = Some None)"
    if i: "i \<ge> int (length ?xs)" for i
    using fwd [of "nat i"] bwd [of "nat i"] i by (auto simp: listIndex_def)
  ultimately show ?thesis using s1(1) s2(1) rep unfolding hl by blast
qed

theorem adlist_build_index_witness:
  "\<exists>s1 h l. push_each al_push_back (Map.empty, listCreate) [(7, ''b''), (9, ''c'')] = Some s1 \<and>
     push_each al_push_front s1 [(3, ''a'')] = Some (h, l) \<and>
     listIndex h l 0 = Some (Some 3) \<and> listIndex h l (-1) = Some (Some 9) \<and> listIndex h l 3 = Some None"
proof -
  obtain s1 h l where s: "push_each al_push_back (Map.empty, listCreate) [(7, ''b''), (9, ''c'')] = Some s1"
      "push_each al_push_front s1 [(3, ''a'')] = Some (h, l)"
    and I: "\<forall>i < 3. listIndex h l (int i) = Some (Some (fst ([(3, ''a''), (7, ''b''), (9, ''c'')] ! i))) \<and>
        listIndex h l (int i - 3) = Some (Some (fst ([(3, ''a''), (7, ''b''), (9, ''c'')] ! i)))"
    and O: "\<forall>i \<ge> 3. listIndex h l i = Some None"
    using adlist_build_index [of "[(7, ''b''), (9, ''c'')]" "[(3, ''a'')]" Map.empty] by auto
  from I [rule_format, of 0] I [rule_format, of 2] O [rule_format, of 3] s show ?thesis by auto
qed

text \<open>C31. Inserting next to a node of the list puts the new node exactly before or after it, touches only
  nodes of the list, and when the allocation fails changes nothing.\<close>

theorem listInsertNode_correct:
  assumes "list_rep h l (xs @ (b, w) # ys)" and "a \<notin> set (addrs (xs @ (b, w) # ys))"
    and "length (xs @ (b, w) # ys) + 1 < 2 ^ 64"
  shows "\<exists>h' l'. listInsertNode h l (Some a) (Some b) v after = Some (True, h', l') \<and>
     list_rep h' l' (if after then xs @ (b, w) # (a, v) # ys else xs @ (a, v) # (b, w) # ys) \<and>
     heap_frame h h' (insert a (set (addrs (xs @ (b, w) # ys)))) \<and>
     listInsertNode h l None (Some b) v after = Some (False, h, l)"
proof (cases after)
  case True
  with listInsertNode_after [OF assms, of v] show ?thesis by (auto simp: listInsertNode_def)
next
  case False
  with listInsertNode_before [OF assms, of v] show ?thesis by (auto simp: listInsertNode_def)
qed

definition heap_example :: "string nodeheap" where
  "heap_example = [4 \<mapsto> \<lparr>nd_prev = None, nd_next = Some 6, nd_value = ''x''\<rparr>,
     6 \<mapsto> \<lparr>nd_prev = Some 4, nd_next = None, nd_value = ''y''\<rparr>]"

definition list_example :: "string adlist" where
  "list_example = listCreate\<lparr>l_head := Some 4, l_tail := Some 6, l_free := True, l_len := 2\<rparr>"

lemma list_example_rep: "list_rep heap_example list_example [(4, ''x''), (6, ''y'')]"
  by (simp add: list_rep_def heap_example_def list_example_def listCreate_def)

theorem listInsertNode_correct_witness:
  "\<exists>h' l'. listInsertNode heap_example list_example (Some 5) (Some 4) ''z'' True = Some (True, h', l') \<and>
     list_rep h' l' [(4, ''x''), (5, ''z''), (6, ''y'')]"
  using listInsertNode_correct [of heap_example list_example "[]" 4 "''x''" "[(6, ''y'')]" 5 "''z''" True]
    list_example_rep by auto

text \<open>The node an iterator just returned may be deleted: the list loses exactly that node, its value
  goes to the free method when there is one, and the iterator continues with the node that followed it
  (going from the tail: preceded it).\<close>

theorem listNext_delete_current:
  assumes "list_rep h l (xs @ (a, v) # ys)"
  shows "\<exists>it' h' l'. listNext h \<lparr>it_next = Some a, it_direction = d\<rparr> = Some (Some a, it') \<and>
     listDelNode h l (Some a) = Some (h', l', if l_free l then [v] else []) \<and>
     list_rep h' l' (xs @ ys) \<and> h' a = None \<and> it_direction it' = d \<and>
     it_next it' = (if d = AL_START_HEAD then hd_ptr ys None else last_ptr None xs)"
  using listDelNode_rep [OF assms] assms
  by (auto simp: listNext_def deref_def list_rep_def)

theorem listNext_delete_current_witness:
  "\<exists>it' h' l'. listNext heap_example (listRewind list_example) = Some (Some 4, it') \<and>
     listDelNode heap_example list_example (Some 4) = Some (h', l', [''x'']) \<and>
     list_rep h' l' [(6, ''y'')] \<and> it_next it' = Some 6"
  using listNext_delete_current [of heap_example list_example "[]" 4 "''x''" "[(6, ''y'')]" AL_START_HEAD]
    list_example_rep by (auto simp: listRewind_def list_example_def)

text \<open>Searching returns the first node whose value matches; rotating moves the tail to the head;
  releasing frees every node, hands every value to the free method in order when there is one, and
  leaves the rest of the heap.\<close>

theorem adlist_search_rotate_release:
  assumes "list_rep h l (ns @ [(a, v)])"
  shows "listSearchKey h l key = Some (map_option fst (List.find (\<lambda>(a, w). match_value l w key) (ns @ [(a, v)]))) \<and>
    (\<exists>h' l'. listRotate h l = Some (h', l') \<and> list_rep h' l' ((a, v) # ns)) \<and>
    listRelease h l = Some (\<lambda>b. if b \<in> set (addrs (ns @ [(a, v)])) then None else h b,
       if l_free l then map snd ns @ [v] else [])"
proof -
  have "chain h None (ns @ [(a, v)]) None" "l_head l = hd_ptr (ns @ [(a, v)]) None"
    using assms by (simp_all add: list_rep_def)
  then have "listSearchKey h l key = Some (map_option fst (List.find (\<lambda>(a, w). match_value l w key) (ns @ [(a, v)])))"
    using listSearchKey_loop_spec [of h None "ns @ [(a, v)]" l key]
    by (simp only: listSearchKey_def listRewind_def)
  moreover obtain h' where "listRelease h l = Some (h', if l_free l then map snd (ns @ [(a, v)]) else [])"
      "\<forall>b. h' b = (if b \<in> set (addrs (ns @ [(a, v)])) then None else h b)"
    using listRelease_rep [OF assms] by blast
  moreover from this(2) have "h' = (\<lambda>b. if b \<in> set (addrs (ns @ [(a, v)])) then None else h b)" by auto
  ultimately show ?thesis using listRotate_rep [OF assms] by auto
qed

theorem adlist_search_rotate_release_witness:
  "listSearchKey heap_example list_example ''y'' = Some (Some 6) \<and>
    (\<exists>h' l'. listRotate heap_example list_example = Some (h', l') \<and> list_rep h' l' [(6, ''y''), (4, ''x'')]) \<and>
    map_option snd (listRelease heap_example list_example) = Some [''x'', ''y'']"
  using adlist_search_rotate_release [of heap_example list_example "[(4, ''x'')]" 6 "''y''" "''y''"]
    list_example_rep by (auto simp: match_value_def list_example_def listCreate_def)

lemma dup_ok:
  assumes "\<forall>k. \<not> dup_fails_at l ns allocs k" and "i < length ns"
  shows "dup_value l (snd (ns ! i)) \<noteq> None \<and> alloc_at allocs i \<noteq> None"
  using assms(2)
proof (induction i rule: less_induct)
  case (less i)
  have "\<forall>j < i. dup_value l (snd (ns ! j)) \<noteq> None \<and> alloc_at allocs j \<noteq> None"
  proof (intro allI impI)
    fix j assume "j < i"
    with less show "dup_value l (snd (ns ! j)) \<noteq> None \<and> alloc_at allocs j \<noteq> None" by (meson less_trans)
  qed
  with assms(1) [rule_format, of i] less.prems show ?case unfolding dup_fails_at_def by simp
qed

lemma dup_ok_allocs:
  assumes "\<forall>k. \<not> dup_fails_at l ns allocs k"
  shows "length ns \<le> length allocs" and "None \<notin> set (take (length ns) allocs)"
proof -
  have at: "alloc_at allocs i \<noteq> None" if "i < length ns" for i using dup_ok [OF assms that] by simp
  show "length ns \<le> length allocs"
  proof (rule ccontr)
    assume "\<not> length ns \<le> length allocs"
    then show False using at [of "length allocs"] by (simp add: alloc_at_def)
  qed
  then show "None \<notin> set (take (length ns) allocs)"
    using at by (auto simp: in_set_conv_nth alloc_at_def)
qed

lemma list_rep_frame:
  "list_rep h l ns \<Longrightarrow> heap_frame h h' A \<Longrightarrow> A \<inter> set (addrs ns) = {} \<Longrightarrow> list_rep h' l ns"
  using chain_frame [of h h' A ns None None] by (simp add: list_rep_def)

text \<open>Duplicating a list returns and either gives a list of copies of all values on the new nodes,
  or, at the first value that cannot be copied or node that cannot be allocated, releases what was
  copied and returns no list with the heap as it was. The original nodes never change. The copies made
  so far go to the free method; without a dup method these are the values of the original itself.\<close>

theorem listDup_correct:
  assumes "list_rep h l ns" and "\<forall>b. Some b \<in> set allocs \<longrightarrow> h b = None" and "distinct allocs"
  shows "\<exists>h' vs r. listDup h l True allocs = Some (h', vs, r) \<and>
     heap_frame h h' (the ` (set allocs - {None})) \<and>
     (case r of
        Some c \<Rightarrow> vs = [] \<and> same_methods l c \<and> list_rep h' c (zip (map the (take (length ns) allocs)) (dup_copies l ns)) \<and>
          list_rep h' l ns
      | None \<Rightarrow> h' = h \<and>
          (\<exists>k. dup_fails_at l ns allocs k \<and> vs = (if l_free l then dup_copies l (take k ns) else [])))"
proof -
  let ?c = "listCreate\<lparr>l_dup := l_dup l, l_free := l_free l, l_match := l_match l\<rparr>"
  have m: "same_methods ?c l" by (simp add: same_methods_def)
  note M = same_methods_dup [OF m]
  have ns: "chain h None ns None" "l_head l = hd_ptr ns None" "distinct (addrs ns)" "length ns < 2 ^ 64"
    using assms(1) by (simp_all add: list_rep_def)
  have "list_rep h ?c []" by (simp add: list_rep_def listCreate_def)
  then obtain r where r: "listDup h l True allocs = Some r" "dup_result h ?c ns [] allocs r"
    using listDup_loop_spec [OF ns(1) _ ns(3), of ?c "[]" allocs] assms(2,3) ns
    by (auto simp: listDup_def listRewind_def)
  obtain h' vs q where q: "r = (h', vs, q)" by (cases r)
  show ?thesis
  proof (cases q)
    case None
    with r q have "h' = h" by (auto simp: dup_result_def)
    with r q None M show ?thesis by (auto simp: dup_result_def heap_frame_def)
  next
    case (Some c)
    from r(2) q Some have ok: "\<forall>k. \<not> dup_fails_at ?c ns allocs k"
      and fr: "heap_frame h h' (the ` set (take (length ns) allocs))" and sm: "same_methods ?c c" "vs = []"
      and rep: "list_rep h' c (zip (map the (take (length ns) allocs)) (dup_copies ?c ns))"
      by (auto simp: dup_result_def)
    let ?A = "the ` (set allocs - {None})"
    have sub: "the ` set (take (length ns) allocs) \<subseteq> ?A"
      using dup_ok_allocs(2) [OF ok] set_take_subset [of "length ns" allocs] by blast
    have fr': "heap_frame h h' ?A" by (rule heap_frame_mono [OF fr sub])
    have "h x = None" if "x \<in> ?A" for x
    proof -
      from that obtain y where "y \<in> set allocs" "y \<noteq> None" "x = the y" by blast
      then have "Some x \<in> set allocs" by auto
      with assms(2) show ?thesis by simp
    qed
    then have "?A \<inter> set (addrs ns) = {}" using chain_dom [OF ns(1)] by blast
    then have "list_rep h' l ns" by (rule list_rep_frame [OF assms(1) fr'])
    moreover have "same_methods l c" using sm by (simp add: same_methods_def)
    ultimately show ?thesis using r(1) q Some fr' rep sm M by auto
  qed
qed

theorem listDup_correct_witness:
  "\<exists>h' c. listDup heap_example list_example True [Some 1, Some 2] = Some (h', [], Some c) \<and>
     list_rep h' c [(1, ''x''), (2, ''y'')] \<and> list_rep h' list_example [(4, ''x''), (6, ''y'')]"
proof -
  let ?ns = "[(4, ''x''), (6, ''y'')]" and ?al = "[Some 1, Some 2]"
  have no: "\<not> dup_fails_at list_example ?ns ?al k" for k
    by (auto simp: dup_fails_at_def dup_value_def list_example_def listCreate_def alloc_at_def less_Suc_eq numeral_eq_Suc)
  have "\<forall>b. Some b \<in> set ?al \<longrightarrow> heap_example b = None" by (auto simp: heap_example_def)
  with listDup_correct [OF list_example_rep, of ?al] no show ?thesis
    by (auto simp: dup_copies_def dup_value_def list_example_def listCreate_def split: option.splits)
qed

end
