(* ===== verification/Dict.thy ===== *)
theory Dict
  imports Prelude "HOL-Library.Monad_Syntax" "HOL-Library.Multiset"
begin

unbundle bit_operations_syntax

text \<open>
  The hash table of \<open>redis-3.2/src/dict.c\<close>: two tables of bucket chains, entries moving from the
  first to the second a bucket at a time while the dictionary is in use.

  A bucket chain is the list of its entries. An entry carries the address \<open>zmalloc\<close> gave it (an
  argument of the operation that allocates it), its key and its value; a \<open>dictEntry *\<close> is that
  address. A table that is \<open>NULL\<close> is the empty list of buckets. The methods of the dictionary type
  are the fields of the record \<open>dictType\<close>; a method that may be absent is an option, and for the two
  destructors the calls they get are part of the result (\<open>release\<close>). Keys are opaque: equality of
  keys is equality of their pointers, \<open>keyCompare\<close> compares what they point to. The hash is 32 bits
  wide, counters and sizes 64.

  \<open>None\<close> stands for undefined behaviour (a bucket index out of the table, an address that is no
  entry) and for a failed assertion. The build is the POSIX one, where \<open>WIN32_ONLY\<close> is empty.
  Allocation aborts the process when it fails, so it always succeeds here. \<open>dict_can_resize\<close> is the
  argument \<open>can_resize\<close>.

  The lemmas give the invariant of the two tables (\<open>dict_inv\<close>), show that every operation keeps it
  and never hits undefined behaviour, and relate the operations to a partial map from keys to values.
\<close>

section \<open>Data\<close>

record ('k, 'v) dictEntry =
  de_addr :: nat
  de_key :: 'k
  de_val :: 'v

record ('k, 'v) dictType =
  hashFunction :: "'k \<Rightarrow> 32 word"
  keyDup :: "('k \<Rightarrow> 'k) option"
  valDup :: "('v \<Rightarrow> 'v) option"
  keyCompare :: "('k \<Rightarrow> 'k \<Rightarrow> bool) option"
  keyDestructor :: bool
  valDestructor :: bool

record ('k, 'v) dictht =
  ht_table :: "('k, 'v) dictEntry list list"
  ht_size :: nat
  ht_sizemask :: nat
  ht_used :: nat

record ('k, 'v) dict =
  d_type :: "('k, 'v) dictType"
  d_ht0 :: "('k, 'v) dictht"
  d_ht1 :: "('k, 'v) dictht"
  d_rehashidx :: int
  d_iterators :: int

text \<open>Calls of the destructors and of the progress callback, and freed entries.\<close>

datatype ('k, 'v) release = FreeKey 'k | FreeVal 'v | FreeEntry nat | Progress

abbreviation DICT_HT_INITIAL_SIZE :: nat where "DICT_HT_INITIAL_SIZE \<equiv> 4"
abbreviation dict_force_resize_ratio :: nat where "dict_force_resize_ratio \<equiv> 5"

section \<open>Macros\<close>

definition dictIsRehashing :: "('k, 'v) dict \<Rightarrow> bool" where
  "dictIsRehashing d \<longleftrightarrow> d_rehashidx d \<noteq> -1"

definition dictSize :: "('k, 'v) dict \<Rightarrow> nat" where
  "dictSize d = (ht_used (d_ht0 d) + ht_used (d_ht1 d)) mod 2 ^ 64"

definition dictCompareKeys :: "('k, 'v) dictType \<Rightarrow> 'k \<Rightarrow> 'k \<Rightarrow> bool" where
  "dictCompareKeys ty key1 key2 = (case keyCompare ty of Some f \<Rightarrow> f key1 key2 | None \<Rightarrow> key1 = key2)"

text \<open>The test of the lookup loops.\<close>

definition sameKey :: "('k, 'v) dictType \<Rightarrow> 'k \<Rightarrow> 'k \<Rightarrow> bool" where
  "sameKey ty key1 key2 \<longleftrightarrow> key1 = key2 \<or> dictCompareKeys ty key1 key2"

definition dupKey :: "('k, 'v) dictType \<Rightarrow> 'k \<Rightarrow> 'k" where
  "dupKey ty key = (case keyDup ty of Some f \<Rightarrow> f key | None \<Rightarrow> key)"

definition dupVal :: "('k, 'v) dictType \<Rightarrow> 'v \<Rightarrow> 'v" where
  "dupVal ty val = (case valDup ty of Some f \<Rightarrow> f val | None \<Rightarrow> val)"

definition dictFreeKey :: "('k, 'v) dictType \<Rightarrow> ('k, 'v) dictEntry \<Rightarrow> ('k, 'v) release list" where
  "dictFreeKey ty he = (if keyDestructor ty then [FreeKey (de_key he)] else [])"

definition dictFreeVal :: "('k, 'v) dictType \<Rightarrow> ('k, 'v) dictEntry \<Rightarrow> ('k, 'v) release list" where
  "dictFreeVal ty he = (if valDestructor ty then [FreeVal (de_val he)] else [])"

text \<open>\<open>hash & sizemask\<close> and the bucket at an index.\<close>

definition ht_index :: "('k, 'v) dictht \<Rightarrow> 32 word \<Rightarrow> nat" where
  "ht_index ht h = unat h AND ht_sizemask ht"

definition bucket :: "('k, 'v) dictht \<Rightarrow> nat \<Rightarrow> ('k, 'v) dictEntry list option" where
  "bucket ht idx = (if idx < length (ht_table ht) then Some (ht_table ht ! idx) else None)"

definition dict_entries :: "('k, 'v) dict \<Rightarrow> ('k, 'v) dictEntry list" where
  "dict_entries d = concat (ht_table (d_ht0 d)) @ concat (ht_table (d_ht1 d))"

text \<open>Assigning through an entry pointer.\<close>

definition ht_set_val :: "nat \<Rightarrow> 'v \<Rightarrow> ('k, 'v) dictht \<Rightarrow> ('k, 'v) dictht" where
  "ht_set_val a v ht =
     ht\<lparr>ht_table := map (map (\<lambda>e. if de_addr e = a then e\<lparr>de_val := v\<rparr> else e)) (ht_table ht)\<rparr>"

definition dictSetVal :: "('k, 'v) dict \<Rightarrow> nat \<Rightarrow> 'v \<Rightarrow> ('k, 'v) dict option" where
  "dictSetVal d a val =
     (if a \<in> de_addr ` set (dict_entries d) then
        (let v = dupVal (d_type d) val in
         Some (d\<lparr>d_ht0 := ht_set_val a v (d_ht0 d), d_ht1 := ht_set_val a v (d_ht1 d)\<rparr>))
      else None)"

section \<open>Creation and growth\<close>

definition dictReset :: "('k, 'v) dictht" where
  "dictReset = \<lparr>ht_table = [], ht_size = 0, ht_sizemask = 0, ht_used = 0\<rparr>"

definition dictCreate :: "('k, 'v) dictType \<Rightarrow> ('k, 'v) dict" where
  "dictCreate ty = \<lparr>d_type = ty, d_ht0 = dictReset, d_ht1 = dictReset, d_rehashidx = -1, d_iterators = 0\<rparr>"

partial_function (option) dictNextPower_loop :: "nat \<Rightarrow> nat \<Rightarrow> nat option" where
  "dictNextPower_loop i sz = (if i \<ge> sz then Some i else dictNextPower_loop (i * 2 mod 2 ^ 64) sz)"

definition dictNextPower :: "nat \<Rightarrow> nat option" where
  "dictNextPower sz =
     (if sz \<ge> 2 ^ 63 - 1 then Some (2 ^ 63 - 1) else dictNextPower_loop DICT_HT_INITIAL_SIZE sz)"

text \<open>The boolean is \<open>DICT_OK\<close>.\<close>

definition dictExpand :: "('k, 'v) dict \<Rightarrow> nat \<Rightarrow> (bool \<times> ('k, 'v) dict) option" where
  "dictExpand d sz = do {
     realsize \<leftarrow> dictNextPower sz;
     if dictIsRehashing d \<or> ht_used (d_ht0 d) > sz then Some (False, d)
     else if realsize = ht_size (d_ht0 d) then Some (False, d)
     else do {
       let n = \<lparr>ht_table = replicate realsize [], ht_size = realsize, ht_sizemask = realsize - 1, ht_used = 0\<rparr>;
       if ht_table (d_ht0 d) = [] then Some (True, d\<lparr>d_ht0 := n\<rparr>)
       else Some (True, d\<lparr>d_ht1 := n, d_rehashidx := 0\<rparr>)
     }
   }"

definition dictResize :: "bool \<Rightarrow> ('k, 'v) dict \<Rightarrow> (bool \<times> ('k, 'v) dict) option" where
  "dictResize can_resize d =
     (if \<not> can_resize \<or> dictIsRehashing d then Some (False, d)
      else
        (let minimal = s32 (int (ht_used (d_ht0 d)));
             minimal = (if minimal < int DICT_HT_INITIAL_SIZE then int DICT_HT_INITIAL_SIZE else minimal)
         in dictExpand d (nat minimal)))"

definition dictExpandIfNeeded :: "bool \<Rightarrow> ('k, 'v) dict \<Rightarrow> (bool \<times> ('k, 'v) dict) option" where
  "dictExpandIfNeeded can_resize d =
     (if dictIsRehashing d then Some (True, d)
      else if ht_size (d_ht0 d) = 0 then dictExpand d DICT_HT_INITIAL_SIZE
      else if ht_used (d_ht0 d) \<ge> ht_size (d_ht0 d) \<and>
          (can_resize \<or> ht_used (d_ht0 d) div ht_size (d_ht0 d) > dict_force_resize_ratio)
        then dictExpand d (ht_used (d_ht0 d) * 2 mod 2 ^ 64)
      else Some (True, d))"

section \<open>Incremental rehashing\<close>

text \<open>Moving the chain of one bucket to the second table.\<close>

fun rehash_chain :: "('k, 'v) dictType \<Rightarrow> ('k, 'v) dictEntry list \<Rightarrow> ('k, 'v) dictht \<Rightarrow> ('k, 'v) dictht \<Rightarrow>
    (('k, 'v) dictht \<times> ('k, 'v) dictht) option" where
  "rehash_chain ty [] t0 t1 = Some (t0, t1)"
| "rehash_chain ty (de # nextde) t0 t1 = do {
     let h = ht_index t1 (hashFunction ty (de_key de));
     b \<leftarrow> bucket t1 h;
     rehash_chain ty nextde (t0\<lparr>ht_used := ulong_dec (ht_used t0)\<rparr>)
       (t1\<lparr>ht_table := (ht_table t1)[h := de # b], ht_used := ulong_inc (ht_used t1)\<rparr>)
   }"

text \<open>Skipping empty buckets: the index, the visits left, and whether they ran out.\<close>

function skip_empty :: "('k, 'v) dictEntry list list \<Rightarrow> nat \<Rightarrow> int \<Rightarrow> (nat \<times> int \<times> bool) option" where
  "skip_empty tb i empty_visits =
     (if i \<ge> length tb then None
      else if tb ! i = [] then
        (if empty_visits - 1 = 0 then Some (i + 1, 0, True) else skip_empty tb (i + 1) (empty_visits - 1))
      else Some (i, empty_visits, False))"
  by pat_completeness auto
termination
  by (relation "measure (\<lambda>(tb, i, ev). length tb - i)") auto

declare skip_empty.simps [simp del]

fun rehash_loop :: "nat \<Rightarrow> int \<Rightarrow> ('k, 'v) dict \<Rightarrow> (bool \<times> ('k, 'v) dict) option" where
  "rehash_loop 0 empty_visits d = Some (False, d)"
| "rehash_loop (Suc n) empty_visits d =
     (if ht_used (d_ht0 d) = 0 then Some (False, d)
      else if \<not> int (ht_size (d_ht0 d)) > d_rehashidx d then None
      else do {
        (i, empty_visits, stop) \<leftarrow> skip_empty (ht_table (d_ht0 d)) (nat (d_rehashidx d)) empty_visits;
        if stop then Some (True, d\<lparr>d_rehashidx := int i\<rparr>)
        else do {
          (t0, t1) \<leftarrow> rehash_chain (d_type d) (ht_table (d_ht0 d) ! i) (d_ht0 d) (d_ht1 d);
          rehash_loop n empty_visits
            (d\<lparr>d_ht0 := t0\<lparr>ht_table := (ht_table t0)[i := []]\<rparr>, d_ht1 := t1, d_rehashidx := int i + 1\<rparr>)
        }
      })"

text \<open>The result is 1, more to rehash, or 0.\<close>

definition dictRehash :: "('k, 'v) dict \<Rightarrow> nat \<Rightarrow> (bool \<times> ('k, 'v) dict) option" where
  "dictRehash d n =
     (if \<not> dictIsRehashing d then Some (False, d)
      else do {
        (stop, d) \<leftarrow> rehash_loop n (int n * 10) d;
        if stop then Some (True, d)
        else if ht_used (d_ht0 d) = 0 then
          Some (False, d\<lparr>d_ht0 := d_ht1 d, d_ht1 := dictReset, d_rehashidx := -1\<rparr>)
        else Some (True, d)
      })"

definition dictRehashStep :: "('k, 'v) dict \<Rightarrow> ('k, 'v) dict option" where
  "dictRehashStep d = (if d_iterators d = 0 then map_option snd (dictRehash d 1) else Some d)"

text \<open>\<open>if (dictIsRehashing(d)) _dictRehashStep(d)\<close>, which opens most operations.\<close>

definition rehash_if :: "('k, 'v) dict \<Rightarrow> ('k, 'v) dict option" where
  "rehash_if d = (if dictIsRehashing d then dictRehashStep d else Some d)"

text \<open>\<open>clock\<close> is what the successive calls of the clock return after the first one; \<open>None\<close> also when it runs out.\<close>

fun dictRehashMilliseconds :: "('k, 'v) dict \<Rightarrow> int \<Rightarrow> int \<Rightarrow> int list \<Rightarrow> nat \<Rightarrow> (nat \<times> ('k, 'v) dict) option" where
  "dictRehashMilliseconds d ms start clock rehashes = do {
     (more, d) \<leftarrow> dictRehash d 100;
     if more then
       (case clock of
          [] \<Rightarrow> None
        | now # clock \<Rightarrow>
            if now - start > ms then Some (rehashes + 100, d)
            else dictRehashMilliseconds d ms start clock (rehashes + 100))
     else Some (rehashes, d)
   }"

section \<open>Operations\<close>

definition he_find :: "('k, 'v) dictType \<Rightarrow> 'k \<Rightarrow> ('k, 'v) dictEntry list \<Rightarrow> ('k, 'v) dictEntry option" where
  "he_find ty key he = List.find (\<lambda>he. sameKey ty key (de_key he)) he"

text \<open>The loop over the two tables that \<open>_dictKeyIndex\<close> and \<open>dictFind\<close> share: the entry, if any, and
  the last index looked at.\<close>

definition find_loop :: "('k, 'v) dict \<Rightarrow> 'k \<Rightarrow> (('k, 'v) dictEntry option \<times> nat) option" where
  "find_loop d key = do {
     let h = hashFunction (d_type d) key;
     let idx = ht_index (d_ht0 d) h;
     b \<leftarrow> bucket (d_ht0 d) idx;
     case he_find (d_type d) key b of
       Some he \<Rightarrow> Some (Some he, idx)
     | None \<Rightarrow>
         if \<not> dictIsRehashing d then Some (None, idx)
         else do {
           let idx = ht_index (d_ht1 d) h;
           b \<leftarrow> bucket (d_ht1 d) idx;
           Some (he_find (d_type d) key b, idx)
         }
   }"

text \<open>The index is returned as an \<open>int\<close>; -1: the key exists or the table could not grow.\<close>

definition dictKeyIndex :: "bool \<Rightarrow> ('k, 'v) dict \<Rightarrow> 'k \<Rightarrow> (int \<times> ('k, 'v) dict) option" where
  "dictKeyIndex can_resize d key = do {
     (ok, d) \<leftarrow> dictExpandIfNeeded can_resize d;
     if \<not> ok then Some (-1, d)
     else do {
       (found, idx) \<leftarrow> find_loop d key;
       Some (if found \<noteq> None then -1 else s32 (int idx), d)
     }
   }"

definition ht_insert :: "('k, 'v) dictht \<Rightarrow> nat \<Rightarrow> ('k, 'v) dictEntry \<Rightarrow> ('k, 'v) dictht option" where
  "ht_insert ht idx e = do {
     b \<leftarrow> bucket ht idx;
     Some (ht\<lparr>ht_table := (ht_table ht)[idx := e # b], ht_used := ulong_inc (ht_used ht)\<rparr>)
   }"

text \<open>\<open>a\<close> is the address of the new entry and \<open>junk\<close> the indeterminate value it has until the caller
  sets one. The result is the entry, or \<open>None\<close> for \<open>NULL\<close>.\<close>

definition dictAddRaw :: "bool \<Rightarrow> ('k, 'v) dict \<Rightarrow> nat \<Rightarrow> 'v \<Rightarrow> 'k \<Rightarrow> (nat option \<times> ('k, 'v) dict) option" where
  "dictAddRaw can_resize d a junk key = do {
     d \<leftarrow> rehash_if d;
     (index, d) \<leftarrow> dictKeyIndex can_resize d key;
     if index = -1 then Some (None, d)
     else if index < 0 then None
     else do {
       let entry = \<lparr>de_addr = a, de_key = dupKey (d_type d) key, de_val = junk\<rparr>;
       if dictIsRehashing d then do {
         ht \<leftarrow> ht_insert (d_ht1 d) (nat index) entry;
         Some (Some a, d\<lparr>d_ht1 := ht\<rparr>)
       }
       else do {
         ht \<leftarrow> ht_insert (d_ht0 d) (nat index) entry;
         Some (Some a, d\<lparr>d_ht0 := ht\<rparr>)
       }
     }
   }"

definition dictAdd :: "bool \<Rightarrow> ('k, 'v) dict \<Rightarrow> nat \<Rightarrow> 'v \<Rightarrow> 'k \<Rightarrow> 'v \<Rightarrow> (bool \<times> ('k, 'v) dict) option" where
  "dictAdd can_resize d a junk key val = do {
     (entry, d) \<leftarrow> dictAddRaw can_resize d a junk key;
     case entry of
       None \<Rightarrow> Some (False, d)
     | Some e \<Rightarrow> do {
         d \<leftarrow> dictSetVal d e val;
         Some (True, d)
       }
   }"

definition dictFind :: "('k, 'v) dict \<Rightarrow> 'k \<Rightarrow> (('k, 'v) dictEntry option \<times> ('k, 'v) dict) option" where
  "dictFind d key =
     (if (ht_used (d_ht0 d) + ht_used (d_ht1 d)) mod 2 ^ 64 = 0 then Some (None, d)
      else do {
        d \<leftarrow> rehash_if d;
        (he, idx) \<leftarrow> find_loop d key;
        Some (he, d)
      })"

definition dictFetchValue :: "('k, 'v) dict \<Rightarrow> 'k \<Rightarrow> ('v option \<times> ('k, 'v) dict) option" where
  "dictFetchValue d key = do {
     (he, d) \<leftarrow> dictFind d key;
     Some (map_option de_val he, d)
   }"

text \<open>The boolean: the key was added from scratch. The old value is released after the new one is set.\<close>

definition dictReplace :: "bool \<Rightarrow> ('k, 'v) dict \<Rightarrow> nat \<Rightarrow> 'v \<Rightarrow> 'k \<Rightarrow> 'v \<Rightarrow>
    (bool \<times> ('k, 'v) release list \<times> ('k, 'v) dict) option" where
  "dictReplace can_resize d a junk key val = do {
     (ok, d) \<leftarrow> dictAdd can_resize d a junk key val;
     if ok then Some (True, [], d)
     else do {
       (entry, d) \<leftarrow> dictFind d key;
       auxentry \<leftarrow> entry;
       d \<leftarrow> dictSetVal d (de_addr auxentry) val;
       Some (False, dictFreeVal (d_type d) auxentry, d)
     }
   }"

definition dictReplaceRaw :: "bool \<Rightarrow> ('k, 'v) dict \<Rightarrow> nat \<Rightarrow> 'v \<Rightarrow> 'k \<Rightarrow> (nat option \<times> ('k, 'v) dict) option" where
  "dictReplaceRaw can_resize d a junk key = do {
     (entry, d) \<leftarrow> dictFind d key;
     case entry of Some e \<Rightarrow> Some (Some (de_addr e), d) | None \<Rightarrow> dictAddRaw can_resize d a junk key
   }"

text \<open>Unlinking the first matching entry of a chain.\<close>

fun chain_remove :: "('k, 'v) dictType \<Rightarrow> 'k \<Rightarrow> ('k, 'v) dictEntry list \<Rightarrow>
    (('k, 'v) dictEntry \<times> ('k, 'v) dictEntry list) option" where
  "chain_remove ty key [] = None"
| "chain_remove ty key (he # nxt) =
     (if sameKey ty key (de_key he) then Some (he, nxt)
      else map_option (\<lambda>(e, r). (e, he # r)) (chain_remove ty key nxt))"

definition ht_remove :: "('k, 'v) dictType \<Rightarrow> 'k \<Rightarrow> ('k, 'v) dictht \<Rightarrow>
    (('k, 'v) dictEntry \<times> ('k, 'v) dictht) option option" where
  "ht_remove ty key ht = do {
     let idx = ht_index ht (hashFunction ty key);
     b \<leftarrow> bucket ht idx;
     Some (map_option (\<lambda>(e, r). (e, ht\<lparr>ht_table := (ht_table ht)[idx := r], ht_used := ulong_dec (ht_used ht)\<rparr>))
       (chain_remove ty key b))
   }"

definition entry_release :: "('k, 'v) dictType \<Rightarrow> bool \<Rightarrow> ('k, 'v) dictEntry \<Rightarrow> ('k, 'v) release list" where
  "entry_release ty nofree he =
     (if nofree then [] else dictFreeKey ty he @ dictFreeVal ty he) @ [FreeEntry (de_addr he)]"

definition dictGenericDelete :: "('k, 'v) dict \<Rightarrow> 'k \<Rightarrow> bool \<Rightarrow>
    (bool \<times> ('k, 'v) release list \<times> ('k, 'v) dict) option" where
  "dictGenericDelete d key nofree =
     (if ht_size (d_ht0 d) = 0 then Some (False, [], d)
      else do {
        d \<leftarrow> rehash_if d;
        r0 \<leftarrow> ht_remove (d_type d) key (d_ht0 d);
        case r0 of
          Some (he, ht) \<Rightarrow> Some (True, entry_release (d_type d) nofree he, d\<lparr>d_ht0 := ht\<rparr>)
        | None \<Rightarrow>
            if \<not> dictIsRehashing d then Some (False, [], d)
            else do {
              r1 \<leftarrow> ht_remove (d_type d) key (d_ht1 d);
              case r1 of
                Some (he, ht) \<Rightarrow> Some (True, entry_release (d_type d) nofree he, d\<lparr>d_ht1 := ht\<rparr>)
              | None \<Rightarrow> Some (False, [], d)
            }
      })"

definition dictDelete :: "('k, 'v) dict \<Rightarrow> 'k \<Rightarrow> (bool \<times> ('k, 'v) release list \<times> ('k, 'v) dict) option" where
  "dictDelete d key = dictGenericDelete d key False"

definition dictDeleteNoFree :: "('k, 'v) dict \<Rightarrow> 'k \<Rightarrow> (bool \<times> ('k, 'v) release list \<times> ('k, 'v) dict) option" where
  "dictDeleteNoFree d key = dictGenericDelete d key True"

text \<open>The loop of \<open>_dictClear\<close> over the buckets that are left, from index \<open>i\<close>.\<close>

fun clear_loop :: "('k, 'v) dictType \<Rightarrow> bool \<Rightarrow> nat \<Rightarrow> nat \<Rightarrow> ('k, 'v) dictEntry list list \<Rightarrow> ('k, 'v) release list" where
  "clear_loop ty callback i used [] = []"
| "clear_loop ty callback i used (he # tb) =
     (if used > 0 then
        (if callback \<and> i mod 65536 = 0 then [Progress] else []) @
        concat (map (entry_release ty False) he) @
        clear_loop ty callback (i + 1) (used - length he) tb
      else [])"

definition dictClear :: "('k, 'v) dictType \<Rightarrow> ('k, 'v) dictht \<Rightarrow> bool \<Rightarrow> ('k, 'v) release list \<times> ('k, 'v) dictht" where
  "dictClear ty ht callback =
     (clear_loop ty callback 0 (ht_used ht) (take (ht_size ht) (ht_table ht)), dictReset)"

definition dictRelease :: "('k, 'v) dict \<Rightarrow> ('k, 'v) release list" where
  "dictRelease d = fst (dictClear (d_type d) (d_ht0 d) False) @ fst (dictClear (d_type d) (d_ht1 d) False)"

definition dictEmpty :: "('k, 'v) dict \<Rightarrow> bool \<Rightarrow> ('k, 'v) release list \<times> ('k, 'v) dict" where
  "dictEmpty d callback =
     (let (r0, h0) = dictClear (d_type d) (d_ht0 d) callback;
          (r1, h1) = dictClear (d_type d) (d_ht1 d) callback
      in (r0 @ r1, d\<lparr>d_ht0 := h0, d_ht1 := h1, d_rehashidx := -1, d_iterators := 0\<rparr>))"

section \<open>Invariant\<close>

definition ht_ok :: "('k, 'v) dictType \<Rightarrow> ('k, 'v) dictht \<Rightarrow> bool" where
  "ht_ok ty ht \<longleftrightarrow>
     length (ht_table ht) = ht_size ht \<and> ht_used ht = length (concat (ht_table ht)) \<and>
     ht_sizemask ht = ht_size ht - 1 \<and>
     (ht_size ht = 0 \<or> (\<exists>k \<le> 31. 2 \<le> k \<and> ht_size ht = 2 ^ k)) \<and>
     (\<forall>i < ht_size ht. \<forall>e \<in> set (ht_table ht ! i). ht_index ht (hashFunction ty (de_key e)) = i)"

text \<open>No two entries have the same key.\<close>

definition keys_once :: "('k, 'v) dictType \<Rightarrow> ('k, 'v) dictEntry multiset \<Rightarrow> bool" where
  "keys_once ty es \<longleftrightarrow> (\<forall>k. size {#e \<in># es. sameKey ty k (de_key e)#} \<le> 1)"

definition entries_ok :: "('k, 'v) dictType \<Rightarrow> ('k, 'v) dictEntry multiset \<Rightarrow> bool" where
  "entries_ok ty es \<longleftrightarrow> keys_once ty es \<and> (\<forall>a. size {#e \<in># es. de_addr e = a#} \<le> 1) \<and> size es < 2 ^ 30"

definition dict_inv :: "('k, 'v) dict \<Rightarrow> bool" where
  "dict_inv d \<longleftrightarrow>
     ht_ok (d_type d) (d_ht0 d) \<and> ht_ok (d_type d) (d_ht1 d) \<and>
     (if dictIsRehashing d then
        0 \<le> d_rehashidx d \<and> d_rehashidx d \<le> int (ht_size (d_ht0 d)) \<and>
        ht_size (d_ht0 d) \<noteq> 0 \<and> ht_size (d_ht1 d) \<noteq> 0 \<and>
        (\<forall>i < nat (d_rehashidx d). ht_table (d_ht0 d) ! i = [])
      else d_ht1 d = dictReset) \<and>
     entries_ok (d_type d) (mset (dict_entries d))"

text \<open>The map the dictionary stands for.\<close>

definition dict_map :: "('k, 'v) dict \<Rightarrow> 'k \<Rightarrow> 'v option" where
  "dict_map d k = map_option de_val (List.find (\<lambda>e. sameKey (d_type d) k (de_key e)) (dict_entries d))"

section \<open>Tables\<close>

abbreviation ht_entries :: "('k, 'v) dictht \<Rightarrow> ('k, 'v) dictEntry multiset" where
  "ht_entries ht \<equiv> mset (concat (ht_table ht))"

abbreviation dict_mset :: "('k, 'v) dict \<Rightarrow> ('k, 'v) dictEntry multiset" where
  "dict_mset d \<equiv> mset (dict_entries d)"

lemma concat_update_mset:
  "i < length tb \<Longrightarrow> mset (concat (tb[i := ys])) + mset (tb ! i) = mset (concat tb) + mset ys"
proof -
  assume i: "i < length tb"
  have "concat tb = concat (take i tb) @ tb ! i @ concat (drop (Suc i) tb)"
    using id_take_nth_drop [OF i] by (metis concat.simps(2) concat_append)
  moreover have "concat (tb[i := ys]) = concat (take i tb) @ ys @ concat (drop (Suc i) tb)"
    using i by (simp add: upd_conv_take_nth_drop)
  ultimately show ?thesis by simp
qed

lemma concat_update_length:
  "i < length tb \<Longrightarrow> length (concat (tb[i := ys])) + length (tb ! i) = length (concat tb) + length ys"
  using concat_update_mset [of i tb ys] by (metis size_mset size_union)

lemma ht_index_mod:
  assumes "ht_ok ty ht" and "ht_size ht \<noteq> 0"
  shows "ht_index ht h = unat h mod ht_size ht"
proof -
  obtain k where "ht_size ht = 2 ^ k" "ht_sizemask ht = ht_size ht - 1" using assms by (auto simp: ht_ok_def)
  then have "ht_sizemask ht = mask k" by (simp add: mask_eq_exp_minus_1)
  then show ?thesis using \<open>ht_size ht = 2 ^ k\<close> by (simp add: ht_index_def flip: take_bit_eq_mask take_bit_eq_mod)
qed

lemma ht_index_less: "ht_ok ty ht \<Longrightarrow> ht_size ht \<noteq> 0 \<Longrightarrow> ht_index ht h < ht_size ht"
  by (simp add: ht_index_mod)

lemma ht_index_cong: "ht_sizemask ht' = ht_sizemask ht \<Longrightarrow> ht_index ht' = ht_index ht"
  by (auto simp: ht_index_def fun_eq_iff)

lemma ht_bucket: "ht_ok ty ht \<Longrightarrow> i < ht_size ht \<Longrightarrow> bucket ht i = Some (ht_table ht ! i)"
  by (simp add: bucket_def ht_ok_def)

lemma ht_entries_bucket:
  assumes "ht_ok ty ht" and "e \<in># ht_entries ht"
  shows "ht_size ht \<noteq> 0 \<and> e \<in> set (ht_table ht ! ht_index ht (hashFunction ty (de_key e)))"
proof -
  from assms(2) obtain b where "b \<in> set (ht_table ht)" "e \<in> set b" by auto
  then obtain i where "i < length (ht_table ht)" "e \<in> set (ht_table ht ! i)" by (auto simp: in_set_conv_nth)
  with assms(1) show ?thesis by (auto simp: ht_ok_def)
qed

lemma ht_bucket_entries: "ht_ok ty ht \<Longrightarrow> i < ht_size ht \<Longrightarrow> e \<in> set (ht_table ht ! i) \<Longrightarrow> e \<in># ht_entries ht"
  using nth_mem [of i "ht_table ht"] by (auto simp: ht_ok_def)

lemma ht_ok_reset [simp]: "ht_ok ty dictReset"
  by (simp add: ht_ok_def dictReset_def)

lemma ht_entries_reset [simp]: "ht_entries dictReset = {#}" "ht_used dictReset = 0" "ht_size dictReset = 0"
  "ht_table dictReset = []"
  by (simp_all add: dictReset_def)

text \<open>Replacing a bucket by entries that belong there keeps a table well formed.\<close>

lemma ht_ok_update:
  assumes "ht_ok ty ht" and "i < ht_size ht" and "\<forall>e \<in> set ys. ht_index ht (hashFunction ty (de_key e)) = i"
    and "u = length (concat ((ht_table ht)[i := ys]))"
  shows "ht_ok ty (ht\<lparr>ht_table := (ht_table ht)[i := ys], ht_used := u\<rparr>)"
  using assms by (auto simp: ht_ok_def ht_index_def nth_list_update)

lemma ht_insert_ok:
  assumes ok: "ht_ok ty ht" and sz: "ht_size ht \<noteq> 0" and u: "ht_used ht + 1 < 2 ^ 64"
  shows "\<exists>ht'. ht_insert ht (ht_index ht (hashFunction ty (de_key e))) e = Some ht' \<and> ht_ok ty ht' \<and>
     ht_entries ht' = add_mset e (ht_entries ht) \<and> ht_size ht' = ht_size ht \<and> ht_sizemask ht' = ht_sizemask ht"
proof -
  let ?i = "ht_index ht (hashFunction ty (de_key e))"
  let ?t = "(ht_table ht)[?i := e # ht_table ht ! ?i]"
  have i: "?i < ht_size ht" "?i < length (ht_table ht)" using ht_index_less [OF ok sz] ok by (auto simp: ht_ok_def)
  have m: "mset (concat ?t) = add_mset e (ht_entries ht)"
    using concat_update_mset [OF i(2), of "e # ht_table ht ! ?i"] by simp
  have "length (concat ?t) = Suc (ht_used ht)"
    using concat_update_length [OF i(2), of "e # ht_table ht ! ?i"] ok by (simp add: ht_ok_def)
  then have "ulong_inc (ht_used ht) = length (concat ?t)" using u by simp
  moreover have "ht_ok ty (ht\<lparr>ht_table := ?t, ht_used := length (concat ?t)\<rparr>)"
    by (rule ht_ok_update [OF ok i(1)]) (use ok i in \<open>auto simp: ht_ok_def\<close>)
  ultimately show ?thesis using m by (simp add: ht_insert_def ht_bucket [OF ok i(1)])
qed

lemma rehash_chain_ok:
  assumes "ht_ok ty t1" and "ht_size t1 \<noteq> 0" and "ht_used t1 + length ch < 2 ^ 64"
    and "length ch \<le> ht_used t0" and "ht_used t0 < 2 ^ 64"
  shows "\<exists>t1'. rehash_chain ty ch t0 t1 = Some (t0\<lparr>ht_used := ht_used t0 - length ch\<rparr>, t1') \<and> ht_ok ty t1' \<and>
     ht_entries t1' = mset ch + ht_entries t1 \<and> ht_size t1' = ht_size t1"
  using assms
proof (induction ch arbitrary: t0 t1)
  case (Cons e ch)
  obtain t where t: "ht_insert t1 (ht_index t1 (hashFunction ty (de_key e))) e = Some t" "ht_ok ty t"
      "ht_entries t = add_mset e (ht_entries t1)" "ht_size t = ht_size t1"
    using ht_insert_ok [OF Cons.prems(1,2), of e] Cons.prems(3) by auto
  have u: "ht_used t = Suc (ht_used t1)"
    using t(2,3) Cons.prems(1) by (metis ht_ok_def size_add_mset size_mset)
  have d: "ulong_dec (ht_used t0) = ht_used t0 - 1"
    using Cons.prems(4,5) by (cases "ht_used t0") auto
  let ?t0 = "t0\<lparr>ht_used := ulong_dec (ht_used t0)\<rparr>"
  have "rehash_chain ty (e # ch) t0 t1 = rehash_chain ty ch ?t0 t"
    using t(1) by (auto simp: ht_insert_def Let_def split: bind_splits)
  moreover have "\<exists>t1'. rehash_chain ty ch ?t0 t = Some (?t0\<lparr>ht_used := ht_used ?t0 - length ch\<rparr>, t1') \<and> ht_ok ty t1' \<and>
     ht_entries t1' = mset ch + ht_entries t \<and> ht_size t1' = ht_size t"
    by (rule Cons.IH) (use t u d Cons.prems in auto)
  ultimately show ?case using t(3,4) d by auto
qed simp

lemma skip_empty_spec:
  assumes "i \<le> j" and "j < length tb" and "tb ! j \<noteq> []"
  shows "\<exists>i' ev' stop. skip_empty tb i ev = Some (i', ev', stop) \<and> i \<le> i' \<and> i' < length tb \<and>
     (\<forall>k. i \<le> k \<and> k < i' \<longrightarrow> tb ! k = []) \<and> (if stop then i < i' else tb ! i' \<noteq> [])"
  using assms
proof (induction tb i ev rule: skip_empty.induct)
  case (1 tb i ev)
  show ?case
  proof (cases "tb ! i = []")
    case False
    have "skip_empty tb i ev = Some (i, ev, False)" using False 1(2,3) by (subst skip_empty.simps) simp
    with False 1(2,3) show ?thesis by (intro exI [of _ i] exI [of _ ev] exI [of _ False]) auto
  next
    case True
    then have ij: "Suc i \<le> j" using 1(2,4) by (cases "i = j") auto
    show ?thesis
    proof (cases "ev - 1 = 0")
      case ev: True
      have "skip_empty tb i ev = Some (i + 1, 0, True)" using True ev ij 1(3) by (subst skip_empty.simps) simp
      moreover have "\<forall>k. i \<le> k \<and> k < i + 1 \<longrightarrow> tb ! k = []" using True by (metis Suc_eq_plus1 le_antisym less_Suc_eq_le)
      ultimately show ?thesis using ij 1(3) by (intro exI [of _ "i + 1"] exI [of _ 0] exI [of _ True]) simp
    next
      case False
      with 1(1) [OF _ True False] ij 1(3,4) obtain i' ev' stop where
          r: "skip_empty tb (i + 1) (ev - 1) = Some (i', ev', stop)" "i + 1 \<le> i'" "i' < length tb"
          "\<forall>k. i + 1 \<le> k \<and> k < i' \<longrightarrow> tb ! k = []" "if stop then i + 1 < i' else tb ! i' \<noteq> []" by auto
      have "skip_empty tb i ev = Some (i', ev', stop)"
        using True False ij 1(3) r(1) by (subst skip_empty.simps) simp
      moreover have "\<forall>k. i \<le> k \<and> k < i' \<longrightarrow> tb ! k = []"
      proof (intro allI impI)
        fix k assume "i \<le> k \<and> k < i'"
        with r(4) True show "tb ! k = []" by (cases "k = i") auto
      qed
      moreover have "i \<le> i'" "if stop then i < i' else tb ! i' \<noteq> []" using r(2,5) by (simp_all split: if_splits)
      ultimately show ?thesis using r(3) by blast
    qed
  qed
qed

section \<open>Rehashing keeps the contents\<close>

text \<open>Two states with the same type, the same running iterators and the same entries.\<close>

definition same_contents :: "('k, 'v) dict \<Rightarrow> ('k, 'v) dict \<Rightarrow> bool" where
  "same_contents d d' \<longleftrightarrow> d_type d' = d_type d \<and> d_iterators d' = d_iterators d \<and> dict_mset d' = dict_mset d"

lemma same_contents_refl [simp]: "same_contents d d"
  by (simp add: same_contents_def)

lemma same_contents_trans: "same_contents d d1 \<Longrightarrow> same_contents d1 d2 \<Longrightarrow> same_contents d d2"
  by (simp add: same_contents_def)

lemma dict_mset_split: "dict_mset d = ht_entries (d_ht0 d) + ht_entries (d_ht1 d)"
  by (simp add: dict_entries_def)

lemma dict_used:
  assumes "dict_inv d"
  shows "ht_used (d_ht0 d) + ht_used (d_ht1 d) = size (dict_mset d)" and "size (dict_mset d) < 2 ^ 30"
  using assms by (auto simp: dict_inv_def ht_ok_def entries_ok_def dict_entries_def)

text \<open>One bucket moved, from index \<open>i\<close> of the first table.\<close>

lemma move_bucket_ok:
  assumes inv: "dict_inv d" and re: "dictIsRehashing d" and i: "nat (d_rehashidx d) \<le> i" "i < ht_size (d_ht0 d)"
    and gap: "\<forall>k. nat (d_rehashidx d) \<le> k \<and> k < i \<longrightarrow> ht_table (d_ht0 d) ! k = []"
  shows "\<exists>t0 t1. rehash_chain (d_type d) (ht_table (d_ht0 d) ! i) (d_ht0 d) (d_ht1 d) = Some (t0, t1) \<and>
     (let d' = d\<lparr>d_ht0 := t0\<lparr>ht_table := (ht_table t0)[i := []]\<rparr>, d_ht1 := t1, d_rehashidx := int i + 1\<rparr> in
      dict_inv d' \<and> dictIsRehashing d' \<and> same_contents d d' \<and> ht_size (d_ht0 d') = ht_size (d_ht0 d))"
proof -
  let ?ty = "d_type d" and ?h0 = "d_ht0 d" and ?h1 = "d_ht1 d"
  let ?ch = "ht_table ?h0 ! i"
  have ok: "ht_ok ?ty ?h0" "ht_ok ?ty ?h1" "ht_size ?h1 \<noteq> 0" "ht_size ?h0 \<noteq> 0" "0 \<le> d_rehashidx d"
    and low: "\<forall>k < nat (d_rehashidx d). ht_table ?h0 ! k = []"
    and es: "entries_ok ?ty (dict_mset d)"
    using inv re by (auto simp: dict_inv_def)
  have il: "i < length (ht_table ?h0)" using ok(1) i by (simp add: ht_ok_def)
  note U = dict_used [OF inv]
  have cl: "length (concat ((ht_table ?h0)[i := []])) + length ?ch = ht_used ?h0"
    using concat_update_length [OF il, of "[]"] ok(1) by (simp add: ht_ok_def)
  obtain t1 where t1: "rehash_chain ?ty ?ch ?h0 ?h1 = Some (?h0\<lparr>ht_used := ht_used ?h0 - length ?ch\<rparr>, t1)"
      "ht_ok ?ty t1" "ht_entries t1 = mset ?ch + ht_entries ?h1" "ht_size t1 = ht_size ?h1"
    using rehash_chain_ok [OF ok(2,3), of ?ch ?h0] U cl by auto
  let ?n0 = "?h0\<lparr>ht_table := (ht_table ?h0)[i := []], ht_used := ht_used ?h0 - length ?ch\<rparr>"
  have n0: "ht_ok ?ty ?n0" by (rule ht_ok_update [OF ok(1) i(2)]) (use cl in auto)
  have m: "ht_entries ?n0 + ht_entries t1 = dict_mset d"
    using concat_update_mset [OF il, of "[]"] t1(3) by (simp add: dict_mset_split union_assoc [symmetric])
  have "\<forall>k < Suc i. (ht_table ?h0)[i := []] ! k = []"
    using low gap il by (auto simp: nth_list_update less_Suc_eq) (metis not_le)
  moreover have "ht_ok ?ty (?h0\<lparr>ht_used := ht_used ?h0 - length ?ch, ht_table := (ht_table ?h0)[i := []]\<rparr>)"
  proof -
    have "?h0\<lparr>ht_used := ht_used ?h0 - length ?ch, ht_table := (ht_table ?h0)[i := []]\<rparr> = ?n0" by simp
    with n0 show ?thesis by (simp only:)
  qed
  moreover have "entries_ok ?ty (ht_entries ?n0 + ht_entries t1)" using es m by simp
  ultimately show ?thesis using t1(1,2,4) m i ok
    by (simp add: dict_inv_def dictIsRehashing_def same_contents_def dict_mset_split Let_def nat_add_distrib)
qed

lemma rehash_loop_ok:
  assumes "dict_inv d" and "dictIsRehashing d"
  shows "\<exists>stop d'. rehash_loop n ev d = Some (stop, d') \<and> dict_inv d' \<and> dictIsRehashing d' \<and> same_contents d d' \<and>
     ht_size (d_ht0 d') = ht_size (d_ht0 d) \<and> d_rehashidx d \<le> d_rehashidx d' \<and>
     (stop \<longrightarrow> ht_used (d_ht0 d') \<noteq> 0) \<and> (ht_used (d_ht0 d) = 0 \<longrightarrow> d' = d) \<and>
     (0 < n \<and> ht_used (d_ht0 d) \<noteq> 0 \<longrightarrow> d_rehashidx d < d_rehashidx d')"
  using assms
proof (induction n arbitrary: d ev)
  case (Suc n)
  let ?tb = "ht_table (d_ht0 d)"
  have ok: "ht_ok (d_type d) (d_ht0 d)" "0 \<le> d_rehashidx d" and low: "\<forall>k < nat (d_rehashidx d). ?tb ! k = []"
    using Suc.prems by (auto simp: dict_inv_def)
  show ?case
  proof (cases "ht_used (d_ht0 d) = 0")
    case False
    then obtain b where "b \<in> set ?tb" "b \<noteq> []" using ok(1) by (auto simp: ht_ok_def)
    then obtain j where j: "j < length ?tb" "?tb ! j \<noteq> []" by (auto simp: in_set_conv_nth)
    then have jr: "nat (d_rehashidx d) \<le> j" using low by (metis not_le)
    have sz: "length ?tb = ht_size (d_ht0 d)" using ok(1) by (simp add: ht_ok_def)
    obtain i ev' stop where i: "skip_empty ?tb (nat (d_rehashidx d)) ev = Some (i, ev', stop)"
        "nat (d_rehashidx d) \<le> i" "i < length ?tb" "\<forall>k. nat (d_rehashidx d) \<le> k \<and> k < i \<longrightarrow> ?tb ! k = []"
        "if stop then nat (d_rehashidx d) < i else ?tb ! i \<noteq> []"
      using skip_empty_spec [OF jr j] by blast
    have lt: "d_rehashidx d < int (ht_size (d_ht0 d))" using jr j sz by linarith
    show ?thesis
    proof (cases stop)
      case True
      let ?d = "d\<lparr>d_rehashidx := int i\<rparr>"
      have r: "rehash_loop (Suc n) ev d = Some (True, ?d)" using False lt i(1) True by simp
      have "\<forall>k < i. ?tb ! k = []" using low i(4) by (metis not_le)
      then have "dict_inv ?d" "dictIsRehashing ?d" "same_contents d ?d"
        using Suc.prems i(3) sz by (auto simp: dict_inv_def dictIsRehashing_def same_contents_def dict_entries_def)
      moreover have "d_rehashidx d < int i" using i(5) True ok(2) by auto
      ultimately show ?thesis using r False by (intro exI [of _ True] exI [of _ ?d]) simp
    next
      case nostop: False
      obtain t0 t1 where t: "rehash_chain (d_type d) (?tb ! i) (d_ht0 d) (d_ht1 d) = Some (t0, t1)"
          "let d' = d\<lparr>d_ht0 := t0\<lparr>ht_table := (ht_table t0)[i := []]\<rparr>, d_ht1 := t1, d_rehashidx := int i + 1\<rparr> in
           dict_inv d' \<and> dictIsRehashing d' \<and> same_contents d d' \<and> ht_size (d_ht0 d') = ht_size (d_ht0 d)"
        using move_bucket_ok [OF Suc.prems i(2) _ i(4)] i(3) sz by auto
      define d1 where "d1 = d\<lparr>d_ht0 := t0\<lparr>ht_table := (ht_table t0)[i := []]\<rparr>, d_ht1 := t1, d_rehashidx := int i + 1\<rparr>"
      have d1: "dict_inv d1" "dictIsRehashing d1" "same_contents d d1" "ht_size (d_ht0 d1) = ht_size (d_ht0 d)"
        "d_rehashidx d1 = int i + 1"
        using t(2) by (simp_all add: d1_def Let_def)
      have r: "rehash_loop (Suc n) ev d = rehash_loop n ev' d1"
        using False lt i(1) nostop t(1) by (simp add: d1_def)
      have "d_rehashidx d < d_rehashidx d1" using i(2) ok(2) d1(5) by linarith
      moreover obtain st d2 where "rehash_loop n ev' d1 = Some (st, d2)" "dict_inv d2" "dictIsRehashing d2"
          "same_contents d1 d2" "ht_size (d_ht0 d2) = ht_size (d_ht0 d1)" "d_rehashidx d1 \<le> d_rehashidx d2"
          "st \<longrightarrow> ht_used (d_ht0 d2) \<noteq> 0"
        using Suc.IH [OF d1(1,2), of ev'] by blast
      ultimately show ?thesis using r d1(4) False same_contents_trans [OF d1(3)]
        by (intro exI [of _ st] exI [of _ d2]) auto
    qed
  qed (use Suc.prems in auto)
qed auto

lemma dictRehash_ok:
  assumes inv: "dict_inv d"
  shows "\<exists>more d'. dictRehash d n = Some (more, d') \<and> dict_inv d' \<and> same_contents d d' \<and>
     more = dictIsRehashing d' \<and> (dictIsRehashing d' \<longrightarrow> dictIsRehashing d) \<and>
     (dictIsRehashing d' \<longrightarrow> ht_size (d_ht0 d') = ht_size (d_ht0 d) \<and> (0 < n \<longrightarrow> d_rehashidx d < d_rehashidx d')) \<and>
     (ht_size (d_ht0 d) \<noteq> 0 \<longrightarrow> ht_size (d_ht0 d') \<noteq> 0)"
proof (cases "dictIsRehashing d")
  case False
  then show ?thesis using inv by (auto simp: dictRehash_def)
next
  case True
  obtain stop d1 where r: "rehash_loop n (int n * 10) d = Some (stop, d1)" "dict_inv d1" "dictIsRehashing d1"
      "same_contents d d1" "ht_size (d_ht0 d1) = ht_size (d_ht0 d)" "stop \<longrightarrow> ht_used (d_ht0 d1) \<noteq> 0"
      "ht_used (d_ht0 d) = 0 \<longrightarrow> d1 = d" "d_rehashidx d \<le> d_rehashidx d1" "0 < n \<and> ht_used (d_ht0 d) \<noteq> 0 \<longrightarrow> d_rehashidx d < d_rehashidx d1"
    using rehash_loop_ok [OF inv True, of n "int n * 10"] 
    by - (elim exE conjE, rule that)
  show ?thesis
  proof (cases "ht_used (d_ht0 d1) = 0")
    case fin: True
    let ?d = "d1\<lparr>d_ht0 := d_ht1 d1, d_ht1 := dictReset, d_rehashidx := -1\<rparr>"
    have e: "ht_entries (d_ht0 d1) = {#}" using fin r(2) by (simp add: dict_inv_def ht_ok_def)
    have "dict_inv ?d" using r(2,3) e by (simp add: dict_inv_def dictIsRehashing_def dict_mset_split)
    moreover have "same_contents d ?d" using r(4) e by (simp add: same_contents_def dict_mset_split)
    moreover have "ht_size (d_ht1 d1) \<noteq> 0" "\<not> stop" using r(2,3,6) fin by (auto simp: dict_inv_def)
    ultimately show ?thesis using True r(1) fin by (auto simp: dictRehash_def dictIsRehashing_def)
  next
    case False
    then have "ht_used (d_ht0 d) \<noteq> 0" using r(7) by auto
    with False True r show ?thesis by (simp add: dictRehash_def)
  qed
qed

lemma rehash_if_ok:
  assumes "dict_inv d"
  shows "\<exists>d'. rehash_if d = Some d' \<and> dict_inv d' \<and> same_contents d d' \<and>
     (ht_size (d_ht0 d) \<noteq> 0 \<longrightarrow> ht_size (d_ht0 d') \<noteq> 0)"
  using dictRehash_ok [OF assms, of 1] assms by (auto simp: rehash_if_def dictRehashStep_def)

section \<open>Growing\<close>

lemma dictNextPower_loop_spec:
  assumes "i = 2 ^ k" and "k \<le> m" and "sz \<le> 2 ^ m" and "m \<le> 63"
  shows "\<exists>j. dictNextPower_loop i sz = Some (2 ^ j) \<and> k \<le> j \<and> j \<le> m \<and> sz \<le> 2 ^ j \<and> (k < j \<longrightarrow> 2 ^ (j - 1) < sz)"
  using assms
proof (induction "m - k" arbitrary: i k)
  case 0
  then show ?case by (subst dictNextPower_loop.simps) auto
next
  case (Suc n)
  show ?case
  proof (cases "sz \<le> i")
    case True
    then show ?thesis using Suc.prems by (subst dictNextPower_loop.simps) auto
  next
    case False
    have km: "Suc k \<le> m" using Suc.hyps(2) by simp
    then have "(2 :: nat) ^ Suc k \<le> 2 ^ 63" using Suc.prems(4) by (intro power_increasing) auto
    then have "i * 2 mod 2 ^ 64 = 2 ^ Suc k" using Suc.prems(1) by simp
    moreover obtain j where "dictNextPower_loop (2 ^ Suc k) sz = Some (2 ^ j)" "Suc k \<le> j" "j \<le> m" "sz \<le> 2 ^ j"
        "Suc k < j \<longrightarrow> 2 ^ (j - 1) < sz"
    proof -
      have "n = m - Suc k" using Suc.hyps(2) by simp
      from Suc.hyps(1) [OF this refl km Suc.prems(3,4)] that show ?thesis by blast
    qed
    ultimately show ?thesis using False Suc.prems(1)
      by (subst dictNextPower_loop.simps) (auto simp: le_Suc_eq not_le dest: le_neq_implies_less)
  qed
qed

lemma dictNextPower_ok:
  assumes "sz \<le> 2 ^ m" and "2 \<le> m" and "m \<le> 62"
  shows "\<exists>j. dictNextPower sz = Some (2 ^ j) \<and> 2 \<le> j \<and> j \<le> m \<and> sz \<le> 2 ^ j \<and> (2 < j \<longrightarrow> 2 ^ (j - 1) < sz)"
proof -
  have "(2 :: nat) ^ m \<le> 2 ^ 62" using assms(3) by (intro power_increasing) auto
  then have "sz < 2 ^ 63 - 1" using assms(1) by simp
  then show ?thesis
    using dictNextPower_loop_spec [of 4 2 m sz] assms by (auto simp: dictNextPower_def)
qed

lemma ht_ok_new: "2 \<le> k \<Longrightarrow> k \<le> 31 \<Longrightarrow> r = 2 ^ k \<Longrightarrow>
    ht_ok ty \<lparr>ht_table = replicate r [], ht_size = r, ht_sizemask = r - 1, ht_used = 0\<rparr>"
  by (auto simp: ht_ok_def)

lemma dictExpand_ok:
  assumes inv: "dict_inv d" and sz: "sz \<le> 2 ^ 31"
  shows "\<exists>ok d'. dictExpand d sz = Some (ok, d') \<and> dict_inv d' \<and> same_contents d d' \<and>
     (ok \<longleftrightarrow> \<not> dictIsRehashing d \<and> ht_used (d_ht0 d) \<le> sz \<and> the (dictNextPower sz) \<noteq> ht_size (d_ht0 d)) \<and>
     (\<not> ok \<longrightarrow> d' = d) \<and> (ok \<longrightarrow> ht_size (d_ht0 d') \<noteq> 0)"
proof -
  obtain j where j: "dictNextPower sz = Some (2 ^ j)" "2 \<le> j" "j \<le> 31"
    using dictNextPower_ok [OF sz] by auto
  let ?n = "\<lparr>ht_table = replicate (2 ^ j) [], ht_size = 2 ^ j, ht_sizemask = 2 ^ j - 1, ht_used = 0\<rparr>"
  have n: "ht_ok (d_type d) ?n" by (rule ht_ok_new [OF j(2,3) refl])
  have e: "concat (replicate k []) = []" for k by (induction k) auto
  show ?thesis
  proof (cases "dictIsRehashing d \<or> ht_used (d_ht0 d) > sz \<or> 2 ^ j = ht_size (d_ht0 d)")
    case True
    then show ?thesis using inv j by (auto simp: dictExpand_def)
  next
    case False
    then have h1: "d_ht1 d = dictReset" using inv by (simp add: dict_inv_def)
    show ?thesis
    proof (cases "ht_table (d_ht0 d) = []")
      case emp: True
      let ?d = "d\<lparr>d_ht0 := ?n\<rparr>"
      have "dict_inv ?d" "same_contents d ?d"
        using inv n False emp e h1
        by (auto simp: dict_inv_def dictIsRehashing_def same_contents_def dict_mset_split)
      then show ?thesis using False emp j by (auto simp: dictExpand_def Let_def)
    next
      case ne: False
      let ?d = "d\<lparr>d_ht1 := ?n, d_rehashidx := 0\<rparr>"
      have "ht_size (d_ht0 d) \<noteq> 0" using ne inv by (auto simp: dict_inv_def ht_ok_def)
      then have "dict_inv ?d" "same_contents d ?d" "ht_size (d_ht0 ?d) \<noteq> 0"
        using inv n False e h1
        by (auto simp: dict_inv_def dictIsRehashing_def same_contents_def dict_mset_split)
      then show ?thesis using False ne j by (auto simp: dictExpand_def Let_def)
    qed
  qed
qed

lemma dictExpandIfNeeded_ok:
  assumes inv: "dict_inv d"
  shows "\<exists>d'. dictExpandIfNeeded can d = Some (True, d') \<and> dict_inv d' \<and> same_contents d d' \<and> ht_size (d_ht0 d') \<noteq> 0"
proof (cases "dictIsRehashing d")
  case True
  then show ?thesis using inv by (auto simp: dictExpandIfNeeded_def dict_inv_def)
next
  case nre: False
  note U = dict_used [OF inv]
  show ?thesis
  proof (cases "ht_size (d_ht0 d) = 0")
    case True
    moreover have "ht_used (d_ht0 d) = 0" using True inv by (auto simp: dict_inv_def ht_ok_def)
    moreover obtain j where "dictNextPower 4 = Some (2 ^ j)" "2 \<le> j" using dictNextPower_ok [of 4 2] by auto
    ultimately show ?thesis using dictExpand_ok [OF inv, of 4] nre by (auto simp: dictExpandIfNeeded_def)
  next
    case False
    show ?thesis
    proof (cases "ht_size (d_ht0 d) \<le> ht_used (d_ht0 d) \<and>
        (can \<or> ht_used (d_ht0 d) div ht_size (d_ht0 d) > dict_force_resize_ratio)")
      case True
      let ?sz = "ht_used (d_ht0 d) * 2"
      have sz: "?sz \<le> 2 ^ 31" "?sz mod 2 ^ 64 = ?sz" using U by simp_all
      obtain j where j: "dictNextPower ?sz = Some (2 ^ j)" "?sz \<le> 2 ^ j" using dictNextPower_ok [OF sz(1)] by auto
      then have "2 ^ j \<noteq> ht_size (d_ht0 d)" using True False by linarith
      with dictExpand_ok [OF inv sz(1)] j have
          "\<exists>d'. dictExpand d ?sz = Some (True, d') \<and> dict_inv d' \<and> same_contents d d' \<and> ht_size (d_ht0 d') \<noteq> 0"
        using nre by auto
      then show ?thesis using nre True False sz(2) by (simp add: dictExpandIfNeeded_def)
    next
      case no: False
      then have "dictExpandIfNeeded can d = Some (True, d)"
        using nre False unfolding dictExpandIfNeeded_def by (simp only: if_False if_True)
      then show ?thesis using inv False by simp
    qed
  qed
qed

section \<open>What the dictionary asks of its type\<close>

lemma find_in: "List.find P xs = Some x \<Longrightarrow> x \<in> set xs \<and> P x"
  by (auto simp: find_Some_iff)

text \<open>Comparing keys is an equivalence, equal keys hash alike, and the copy of a key equals it.\<close>

locale dict_keys =
  fixes ty :: "('k, 'v) dictType"
  assumes same_sym: "sameKey ty a b \<Longrightarrow> sameKey ty b a"
    and same_trans: "sameKey ty a b \<Longrightarrow> sameKey ty b c \<Longrightarrow> sameKey ty a c"
    and same_hash: "sameKey ty a b \<Longrightarrow> hashFunction ty a = hashFunction ty b"
    and same_dup: "sameKey ty (dupKey ty a) a"
begin

lemma same_dup_iff: "sameKey ty k (dupKey ty a) \<longleftrightarrow> sameKey ty k a"
  using same_dup [of a] same_sym same_trans by blast

lemma same_dup_iff2: "sameKey ty (dupKey ty a) k \<longleftrightarrow> sameKey ty a k"
  using same_dup [of a] same_sym same_trans by blast

lemma hash_dup: "hashFunction ty (dupKey ty a) = hashFunction ty a"
  by (rule same_hash [OF same_dup])

lemma bucket_complete:
  assumes "ht_ok ty ht" and "ht_size ht \<noteq> 0" and "sameKey ty k (de_key e)"
  shows "e \<in> set (ht_table ht ! ht_index ht (hashFunction ty k)) \<longleftrightarrow> e \<in># ht_entries ht"
  using ht_entries_bucket [OF assms(1), of e] ht_bucket_entries [OF assms(1) ht_index_less [OF assms(1,2)], of e]
    same_hash [OF assms(3)] by auto

lemma he_find_spec:
  assumes "ht_ok ty ht" and "ht_size ht \<noteq> 0"
  shows "case he_find ty k (ht_table ht ! ht_index ht (hashFunction ty k)) of
      None \<Rightarrow> \<forall>e \<in># ht_entries ht. \<not> sameKey ty k (de_key e)
    | Some e \<Rightarrow> e \<in># ht_entries ht \<and> sameKey ty k (de_key e)"
proof (cases "he_find ty k (ht_table ht ! ht_index ht (hashFunction ty k))")
  case None
  then have "\<forall>e \<in> set (ht_table ht ! ht_index ht (hashFunction ty k)). \<not> sameKey ty k (de_key e)"
    by (auto simp: he_find_def find_None_iff)
  with bucket_complete [OF assms, of k] show ?thesis by (auto simp: None)
next
  case (Some e)
  then have "e \<in> set (ht_table ht ! ht_index ht (hashFunction ty k))" "sameKey ty k (de_key e)"
    by (auto simp: he_find_def find_Some_iff)
  with Some bucket_complete [OF assms, of k e] show ?thesis by simp
qed

lemma find_loop_ok:
  assumes inv: "dict_inv d" and ty: "d_type d = ty" and sz: "ht_size (d_ht0 d) \<noteq> 0"
  shows "\<exists>r idx. find_loop d k = Some (r, idx) \<and>
     (case r of None \<Rightarrow> (\<forall>e \<in># dict_mset d. \<not> sameKey ty k (de_key e)) \<and>
          idx = ht_index (if dictIsRehashing d then d_ht1 d else d_ht0 d) (hashFunction ty k)
      | Some e \<Rightarrow> e \<in># dict_mset d \<and> sameKey ty k (de_key e))"
proof -
  have ok: "ht_ok ty (d_ht0 d)" "ht_ok ty (d_ht1 d)" using inv ty by (auto simp: dict_inv_def)
  let ?i0 = "ht_index (d_ht0 d) (hashFunction ty k)" and ?i1 = "ht_index (d_ht1 d) (hashFunction ty k)"
  note b0 = ht_bucket [OF ok(1) ht_index_less [OF ok(1) sz, of "hashFunction ty k"]]
  note f0 = he_find_spec [OF ok(1) sz, of k]
  show ?thesis
  proof (cases "he_find ty k (ht_table (d_ht0 d) ! ?i0)")
    case (Some e)
    then show ?thesis using f0 by (simp add: find_loop_def ty b0 dict_mset_split)
  next
    case None
    show ?thesis
    proof (cases "dictIsRehashing d")
      case False
      then have "ht_entries (d_ht1 d) = {#}" using inv by (simp add: dict_inv_def)
      then show ?thesis using f0 None False by (auto simp: find_loop_def ty b0 dict_mset_split)
    next
      case True
      then have sz1: "ht_size (d_ht1 d) \<noteq> 0" using inv by (simp add: dict_inv_def)
      note b1 = ht_bucket [OF ok(2) ht_index_less [OF ok(2) sz1, of "hashFunction ty k"]]
      show ?thesis using f0 None True he_find_spec [OF ok(2) sz1, of k]
        by (auto simp: find_loop_def ty b0 b1 Let_def dict_mset_split split: option.splits)
    qed
  qed
qed

end

section \<open>Contents and the map\<close>

lemma in_diff_other: "x \<noteq> e \<Longrightarrow> x \<in># M - {#e#} \<longleftrightarrow> x \<in># M"
  by (simp add: in_diff_count)

lemma keys_onceD:
  assumes "keys_once ty es" and "e \<in># es" and "f \<in># es" and "sameKey ty k (de_key e)" and "sameKey ty k (de_key f)"
  shows "e = f"
proof (rule ccontr)
  assume ne: "e \<noteq> f"
  have "{#e, f#} \<subseteq># {#e \<in># es. sameKey ty k (de_key e)#}"
    using assms(2-5) ne by (simp add: insert_subset_eq_iff in_diff_count not_in_iff)
  then have "2 \<le> size {#e \<in># es. sameKey ty k (de_key e)#}" using size_mset_mono by fastforce
  with assms(1) show False by (auto simp: keys_once_def dest: spec [of _ k])
qed

lemma dict_map_Some:
  assumes "keys_once (d_type d) (dict_mset d)"
  shows "dict_map d k = Some v \<longleftrightarrow> (\<exists>e. e \<in># dict_mset d \<and> sameKey (d_type d) k (de_key e) \<and> de_val e = v)"
proof
  assume "dict_map d k = Some v"
  then show "\<exists>e. e \<in># dict_mset d \<and> sameKey (d_type d) k (de_key e) \<and> de_val e = v"
    by (auto simp: dict_map_def dest!: find_in)
next
  assume "\<exists>e. e \<in># dict_mset d \<and> sameKey (d_type d) k (de_key e) \<and> de_val e = v"
  then obtain e where e: "e \<in># dict_mset d" "sameKey (d_type d) k (de_key e)" "de_val e = v" by blast
  then obtain f where f: "List.find (\<lambda>e. sameKey (d_type d) k (de_key e)) (dict_entries d) = Some f"
    by (cases "List.find (\<lambda>e. sameKey (d_type d) k (de_key e)) (dict_entries d)") (auto simp: find_None_iff)
  then have "f \<in># dict_mset d" "sameKey (d_type d) k (de_key f)" by (auto dest: find_in)
  with keys_onceD [OF assms e(1) this(1) e(2)] e(3) f show "dict_map d k = Some v" by (simp add: dict_map_def)
qed

lemma dict_map_None: "dict_map d k = None \<longleftrightarrow> (\<forall>e \<in># dict_mset d. \<not> sameKey (d_type d) k (de_key e))"
  by (auto simp: dict_map_def find_None_iff)

lemma inv_keys_once: "dict_inv d \<Longrightarrow> keys_once (d_type d) (dict_mset d)"
  by (simp add: dict_inv_def entries_ok_def)

lemma mset_eq_map:
  assumes "dict_inv d" and "dict_inv d'" and "d_type d' = d_type d" and "dict_mset d' = dict_mset d"
  shows "dict_map d' = dict_map d"
proof (rule ext)
  fix k
  have "dict_map d' k = Some v \<longleftrightarrow> dict_map d k = Some v" for v
    using dict_map_Some [OF inv_keys_once [OF assms(1)]] dict_map_Some [OF inv_keys_once [OF assms(2)]] assms(3,4)
    by simp
  then show "dict_map d' k = dict_map d k" by (metis option.exhaust)
qed

lemma same_contents_map: "dict_inv d \<Longrightarrow> dict_inv d' \<Longrightarrow> same_contents d d' \<Longrightarrow> dict_map d' = dict_map d"
  by (rule mset_eq_map) (auto simp: same_contents_def)

lemma entries_ok_remove: "entries_ok ty (add_mset e es) \<Longrightarrow> entries_ok ty es"
proof -
  assume a: "entries_ok ty (add_mset e es)"
  have le: "size {#x \<in># es. P x#} \<le> size {#x \<in># add_mset e es. P x#}" for P
    by (rule size_mset_mono) (simp add: multiset_filter_mono)
  show ?thesis
    using a le [of "\<lambda>x. sameKey ty _ (de_key x)"] le [of "\<lambda>x. de_addr x = _"]
    unfolding entries_ok_def keys_once_def by (metis (no_types, lifting) order_trans Suc_lessD size_add_mset)
qed

definition set_val :: "nat \<Rightarrow> 'v \<Rightarrow> ('k, 'v) dictEntry \<Rightarrow> ('k, 'v) dictEntry" where
  "set_val a v e = (if de_addr e = a then e\<lparr>de_val := v\<rparr> else e)"

lemma set_val_simps [simp]: "de_key (set_val a v e) = de_key e" "de_addr (set_val a v e) = de_addr e"
  by (simp_all add: set_val_def)

lemma ht_set_val_table: "ht_table (ht_set_val a v ht) = map (map (set_val a v)) (ht_table ht)"
  by (simp add: ht_set_val_def set_val_def [abs_def])

lemma ht_set_val_ok: "ht_ok ty ht \<Longrightarrow> ht_ok ty (ht_set_val a v ht)"
proof -
  assume ok: "ht_ok ty ht"
  have "length (concat (map (map f) xss)) = length (concat xss)" for f :: "('a, 'b) dictEntry \<Rightarrow> ('a, 'b) dictEntry" and xss
    by (induction xss) auto
  with ok show ?thesis by (auto simp: ht_ok_def ht_set_val_table ht_set_val_def ht_index_def)
qed

lemma entries_ok_set_val: "entries_ok ty es \<Longrightarrow> entries_ok ty (image_mset (set_val a v) es)"
  by (simp add: entries_ok_def keys_once_def filter_mset_image_mset)

lemma image_set_val:
  assumes "\<forall>a. size {#e \<in># es. de_addr e = a#} \<le> 1" and "e \<in># es"
  shows "image_mset (set_val (de_addr e) v) es = add_mset (e\<lparr>de_val := v\<rparr>) (es - {#e#})"
proof -
  obtain R where R: "es = add_mset e R" using assms(2) by (metis insert_DiffM)
  have "size {#x \<in># es. de_addr x = de_addr e#} \<le> 1" using assms(1) by blast
  then have "{#x \<in># R. de_addr x = de_addr e#} = {#}" by (simp add: R)
  then have "set_mset {#x \<in># R. de_addr x = de_addr e#} = {}" by (simp only: set_mset_empty)
  then have "\<forall>x \<in># R. de_addr x \<noteq> de_addr e" by auto
  then have "image_mset (set_val (de_addr e) v) R = image_mset id R"
    by (intro image_mset_cong) (auto simp: set_val_def)
  then show ?thesis by (simp add: R set_val_def)
qed

lemma dictSetVal_ok:
  assumes inv: "dict_inv d" and e: "e \<in># dict_mset d"
  shows "\<exists>d'. dictSetVal d (de_addr e) val = Some d' \<and> dict_inv d' \<and> d_type d' = d_type d \<and>
     d_iterators d' = d_iterators d \<and> dict_mset d' = add_mset (e\<lparr>de_val := dupVal (d_type d) val\<rparr>) (dict_mset d - {#e#})"
proof -
  let ?v = "dupVal (d_type d) val"
  let ?d = "d\<lparr>d_ht0 := ht_set_val (de_addr e) ?v (d_ht0 d), d_ht1 := ht_set_val (de_addr e) ?v (d_ht1 d)\<rparr>"
  have eq: "dict_entries ?d = map (set_val (de_addr e) ?v) (dict_entries d)"
    by (simp add: dict_entries_def ht_set_val_table map_concat)
  then have m: "dict_mset ?d = image_mset (set_val (de_addr e) ?v) (dict_mset d)" by simp
  have es: "entries_ok (d_type d) (dict_mset d)" using inv by (simp add: dict_inv_def)
  have reset: "ht_set_val (de_addr e) ?v dictReset = dictReset" by (simp add: ht_set_val_def dictReset_def)
  have low: "\<forall>i < nat (d_rehashidx d). ht_table (d_ht0 d) ! i = [] \<Longrightarrow> d_rehashidx d \<le> int (ht_size (d_ht0 d)) \<Longrightarrow>
      \<forall>i < nat (d_rehashidx d). ht_table (ht_set_val (de_addr e) ?v (d_ht0 d)) ! i = []"
    using inv by (auto simp: ht_set_val_table dict_inv_def ht_ok_def)
  have sz: "ht_size (ht_set_val (de_addr e) ?v ht) = ht_size ht" for ht by (simp add: ht_set_val_def)
  have "dict_inv ?d"
    using inv entries_ok_set_val [OF es, of "de_addr e" ?v] low reset unfolding dict_inv_def m
    by (simp add: ht_set_val_ok sz dictIsRehashing_def split: if_splits)
  moreover have "dictSetVal d (de_addr e) val = Some ?d" using e by (auto simp: dictSetVal_def Let_def)
  moreover have "dict_mset ?d = add_mset (e\<lparr>de_val := ?v\<rparr>) (dict_mset d - {#e#})"
    unfolding m by (rule image_set_val) (use es e in \<open>auto simp: entries_ok_def\<close>)
  ultimately show ?thesis by simp
qed

lemma chain_remove_spec:
  "case chain_remove ty k ch of None \<Rightarrow> \<forall>e \<in> set ch. \<not> sameKey ty k (de_key e)
   | Some (e, r) \<Rightarrow> sameKey ty k (de_key e) \<and> mset ch = add_mset e (mset r)"
  by (induction ty k ch rule: chain_remove.induct) (auto split: option.splits)

section \<open>The operations on the contents\<close>

context dict_keys
begin

lemma entries_ok_add:
  assumes es: "entries_ok ty es" and new: "\<forall>x \<in># es. \<not> sameKey ty (de_key e) (de_key x)"
    and fresh: "\<forall>x \<in># es. de_addr x \<noteq> de_addr e" and sz: "size es + 1 < 2 ^ 30"
  shows "entries_ok ty (add_mset e es)"
proof -
  have "size {#x \<in># add_mset e es. sameKey ty k (de_key x)#} \<le> 1" for k
  proof (cases "sameKey ty k (de_key e)")
    case True
    then have "\<forall>x \<in># es. \<not> sameKey ty k (de_key x)" using new same_sym same_trans by blast
    then have "{#x \<in># es. sameKey ty k (de_key x)#} = {#}" by (simp add: filter_mset_False [symmetric] cong: filter_mset_cong)
    then show ?thesis using True by simp
  next
    case False
    then show ?thesis using es by (simp add: entries_ok_def keys_once_def)
  qed
  moreover have "size {#x \<in># add_mset e es. de_addr x = a#} \<le> 1" for a
  proof (cases "de_addr e = a")
    case True
    then have "{#x \<in># es. de_addr x = a#} = {#}" using fresh by (simp add: filter_mset_False [symmetric] cong: filter_mset_cong)
    then show ?thesis using True by simp
  next
    case False
    then show ?thesis using es by (simp add: entries_ok_def)
  qed
  ultimately show ?thesis using sz by (simp add: entries_ok_def keys_once_def)
qed

lemma dictFind_ok:
  assumes inv: "dict_inv d" and ty: "d_type d = ty"
  shows "\<exists>r d'. dictFind d k = Some (r, d') \<and> dict_inv d' \<and> same_contents d d' \<and>
     (case r of None \<Rightarrow> \<forall>e \<in># dict_mset d. \<not> sameKey ty k (de_key e)
      | Some e \<Rightarrow> e \<in># dict_mset d' \<and> e \<in># dict_mset d \<and> sameKey ty k (de_key e))"
proof (cases "dict_mset d = {#}")
  case True
  then show ?thesis using inv dict_used [OF inv] by (auto simp: dictFind_def)
next
  case False
  note U = dict_used [OF inv]
  have u: "(ht_used (d_ht0 d) + ht_used (d_ht1 d)) mod 2 ^ 64 \<noteq> 0" using U False by auto
  have sz: "ht_size (d_ht0 d) \<noteq> 0"
  proof (cases "dictIsRehashing d")
    case True
    then show ?thesis using inv by (simp add: dict_inv_def)
  next
    case nre: False
    then have "ht_entries (d_ht0 d) \<noteq> {#}" using inv False by (simp add: dict_inv_def dict_mset_split)
    then obtain e where "e \<in># ht_entries (d_ht0 d)" by blast
    then show ?thesis using ht_entries_bucket inv by (metis dict_inv_def)
  qed
  obtain d1 where d1: "rehash_if d = Some d1" "dict_inv d1" "same_contents d d1" "ht_size (d_ht0 d1) \<noteq> 0"
    using rehash_if_ok [OF inv] sz by blast
  have ty1: "d_type d1 = ty" and m1: "dict_mset d1 = dict_mset d" using d1(3) ty by (simp_all add: same_contents_def)
  obtain r idx where r: "find_loop d1 k = Some (r, idx)"
      "case r of None \<Rightarrow> (\<forall>e \<in># dict_mset d1. \<not> sameKey ty k (de_key e)) \<and>
          idx = ht_index (if dictIsRehashing d1 then d_ht1 d1 else d_ht0 d1) (hashFunction ty k)
      | Some e \<Rightarrow> e \<in># dict_mset d1 \<and> sameKey ty k (de_key e)"
    using find_loop_ok [OF d1(2) ty1 d1(4)] by blast
  have "dictFind d k = Some (r, d1)" using u d1(1) r(1) by (simp add: dictFind_def)
  then show ?thesis using d1(2,3) r(2) m1 by (cases r) auto
qed

lemma dictAddRaw_ok:
  assumes inv: "dict_inv d" and ty: "d_type d = ty"
    and fresh: "\<forall>e \<in># dict_mset d. de_addr e \<noteq> a" and sz: "size (dict_mset d) + 1 < 2 ^ 30"
  shows "\<exists>r d'. dictAddRaw can d a junk key = Some (r, d') \<and> dict_inv d' \<and> d_type d' = ty \<and> d_iterators d' = d_iterators d \<and>
     (if \<exists>e \<in># dict_mset d. sameKey ty key (de_key e) then r = None \<and> dict_mset d' = dict_mset d
      else r = Some a \<and>
        dict_mset d' = add_mset \<lparr>de_addr = a, de_key = dupKey ty key, de_val = junk\<rparr> (dict_mset d))"
proof -
  obtain d1 where d1: "rehash_if d = Some d1" "dict_inv d1" "same_contents d d1"
    using rehash_if_ok [OF inv] by blast
  obtain d2 where d2: "dictExpandIfNeeded can d1 = Some (True, d2)" "dict_inv d2" "same_contents d1 d2"
      "ht_size (d_ht0 d2) \<noteq> 0"
    using dictExpandIfNeeded_ok [OF d1(2)] by blast
  have ty2: "d_type d2 = ty" and m2: "dict_mset d2 = dict_mset d" and it2: "d_iterators d2 = d_iterators d"
    using d1(3) d2(3) ty by (simp_all add: same_contents_def)
  obtain r idx where r: "find_loop d2 key = Some (r, idx)"
      "case r of None \<Rightarrow> (\<forall>e \<in># dict_mset d2. \<not> sameKey ty key (de_key e)) \<and>
          idx = ht_index (if dictIsRehashing d2 then d_ht1 d2 else d_ht0 d2) (hashFunction ty key)
      | Some e \<Rightarrow> e \<in># dict_mset d2 \<and> sameKey ty key (de_key e)"
    using find_loop_ok [OF d2(2) ty2 d2(4)] by blast
  show ?thesis
  proof (cases r)
    case (Some e)
    then have "dictAddRaw can d a junk key = Some (None, d2)"
      using d1(1) d2(1) r(1) by (simp add: dictAddRaw_def dictKeyIndex_def)
    moreover have "\<exists>e \<in># dict_mset d. sameKey ty key (de_key e)" using r(2) Some m2 by auto
    ultimately show ?thesis using d2(2) ty2 it2 m2 by auto
  next
    case None
    let ?e = "\<lparr>de_addr = a, de_key = dupKey ty key, de_val = junk\<rparr>"
    let ?ht = "if dictIsRehashing d2 then d_ht1 d2 else d_ht0 d2"
    have new: "\<forall>e \<in># dict_mset d. \<not> sameKey ty key (de_key e)"
      and idx: "idx = ht_index ?ht (hashFunction ty (de_key ?e))"
      using r(2) None m2 by (simp_all add: hash_dup)
    have ok: "ht_ok ty ?ht" and hsz: "ht_size ?ht \<noteq> 0"
      using d2(2,4) ty2 by (auto simp: dict_inv_def split: if_splits)
    have "ht_size ?ht \<le> 2 ^ 31"
    proof -
      obtain k where "k \<le> 31" "ht_size ?ht = 2 ^ k" using ok hsz by (auto simp: ht_ok_def)
      then show ?thesis by (metis one_le_numeral power_increasing)
    qed
    then have il: "int idx < 2 ^ 31" using ht_index_less [OF ok hsz] idx by (metis less_le_trans of_nat_less_numeral_power_cancel_iff)
    then have s: "s32 (int idx) = int idx" by (intro s32_id) auto
    have u: "ht_used ?ht + 1 < 2 ^ 64" using dict_used [OF d2(2)] by auto
    obtain ht' where ht': "ht_insert ?ht idx ?e = Some ht'" "ht_ok ty ht'" "ht_entries ht' = add_mset ?e (ht_entries ?ht)"
        "ht_size ht' = ht_size ?ht"
      using ht_insert_ok [OF ok hsz u, of ?e] idx by blast
    have es: "entries_ok ty (add_mset ?e (dict_mset d))"
      by (rule entries_ok_add)
        (use inv ty fresh sz new in \<open>auto simp: dict_inv_def same_dup_iff2\<close>)
    have nk: "\<not> (\<exists>e \<in># dict_mset d. sameKey ty key (de_key e))" using new by blast
    have i1: "int idx \<noteq> - 1" "\<not> int idx < 0" by simp_all
    show ?thesis
    proof (cases "dictIsRehashing d2")
      case True
      let ?d = "d2\<lparr>d_ht1 := ht'\<rparr>"
      have "dictAddRaw can d a junk key = Some (Some a, ?d)"
        using d1(1) d2(1) r(1) None s i1 True ht'(1) ty2 by (simp add: dictAddRaw_def dictKeyIndex_def)
      moreover have m: "dict_mset ?d = add_mset ?e (dict_mset d)"
        using ht'(3) True m2 [symmetric] by (simp add: dict_mset_split [of d2] dict_mset_split [of ?d])
      moreover have "dict_inv ?d"
        using d2(2) ht'(2,4) True ty2 es hsz unfolding dict_inv_def m by (simp add: dictIsRehashing_def)
      ultimately show ?thesis using nk ty2 it2 by auto
    next
      case False
      let ?d = "d2\<lparr>d_ht0 := ht'\<rparr>"
      have "dictAddRaw can d a junk key = Some (Some a, ?d)"
        using d1(1) d2(1) r(1) None s i1 False ht'(1) ty2 by (simp add: dictAddRaw_def dictKeyIndex_def)
      moreover have m: "dict_mset ?d = add_mset ?e (dict_mset d)"
        using ht'(3) False m2 [symmetric] by (simp add: dict_mset_split [of d2] dict_mset_split [of ?d])
      moreover have "dict_inv ?d"
        using d2(2) ht'(2,4) False ty2 es hsz unfolding dict_inv_def m by (simp add: dictIsRehashing_def)
      ultimately show ?thesis using nk ty2 it2 by auto
    qed
  qed
qed

end

lemma map_of_add:
  assumes "dict_inv d" and "dict_inv d'" and "d_type d' = d_type d" and "dict_mset d' = add_mset e (dict_mset d)"
  shows "dict_map d' k = (if sameKey (d_type d) k (de_key e) then Some (de_val e) else dict_map d k)"
proof -
  have iff: "dict_map d' k = Some v \<longleftrightarrow>
      (\<exists>x. (x = e \<or> x \<in># dict_mset d) \<and> sameKey (d_type d) k (de_key x) \<and> de_val x = v)" for v
    using dict_map_Some [OF inv_keys_once [OF assms(2)]] assms(3,4) by simp
  show ?thesis
  proof (cases "sameKey (d_type d) k (de_key e)")
    case True
    then show ?thesis using iff [of "de_val e"] by auto
  next
    case False
    then have "dict_map d' k = Some v \<longleftrightarrow> dict_map d k = Some v" for v
      using iff [of v] dict_map_Some [OF inv_keys_once [OF assms(1)], of k v] by blast
    then have "dict_map d' k = dict_map d k" by (metis option.exhaust)
    then show ?thesis using False by simp
  qed
qed

lemma map_of_remove:
  assumes "dict_inv d" and "dict_inv d'" and "d_type d' = d_type d" and "dict_mset d = add_mset e (dict_mset d')"
  shows "dict_map d' k = (if sameKey (d_type d) k (de_key e) then None else dict_map d k)"
proof (cases "sameKey (d_type d) k (de_key e)")
  case True
  have "\<not> sameKey (d_type d) k (de_key x)" if x: "x \<in># dict_mset d'" for x
  proof
    assume s: "sameKey (d_type d) k (de_key x)"
    have "size {#y \<in># dict_mset d. sameKey (d_type d) k (de_key y)#} \<le> 1"
      using inv_keys_once [OF assms(1)] by (simp add: keys_once_def)
    then have "{#y \<in># dict_mset d'. sameKey (d_type d) k (de_key y)#} = {#}" using True by (simp add: assms(4))
    then have "set_mset {#y \<in># dict_mset d'. sameKey (d_type d) k (de_key y)#} = {}" by (simp only: set_mset_empty)
    with x s show False by auto
  qed
  then show ?thesis using True assms(3) dict_map_None [of d' k] by simp
next
  case False
  then show ?thesis using map_of_add [OF assms(2,1) assms(3) [symmetric] assms(4), of k] assms(3) by simp
qed

context dict_keys
begin

lemma dictAdd_ok:
  assumes inv: "dict_inv d" and ty: "d_type d = ty"
    and fresh: "\<forall>e \<in># dict_mset d. de_addr e \<noteq> a" and sz: "size (dict_mset d) + 1 < 2 ^ 30"
  shows "\<exists>ok d'. dictAdd can d a junk key val = Some (ok, d') \<and> dict_inv d' \<and> d_type d' = ty \<and> d_iterators d' = d_iterators d \<and>
     (if \<exists>e \<in># dict_mset d. sameKey ty key (de_key e) then \<not> ok \<and> dict_mset d' = dict_mset d
      else ok \<and> dict_mset d' = add_mset \<lparr>de_addr = a, de_key = dupKey ty key, de_val = dupVal ty val\<rparr> (dict_mset d))"
proof -
  obtain r d1 where r: "dictAddRaw can d a junk key = Some (r, d1)" "dict_inv d1" "d_type d1 = ty"
      "d_iterators d1 = d_iterators d"
      "if \<exists>e \<in># dict_mset d. sameKey ty key (de_key e) then r = None \<and> dict_mset d1 = dict_mset d
       else r = Some a \<and> dict_mset d1 = add_mset \<lparr>de_addr = a, de_key = dupKey ty key, de_val = junk\<rparr> (dict_mset d)"
    using dictAddRaw_ok [OF assms] by blast
  show ?thesis
  proof (cases "\<exists>e \<in># dict_mset d. sameKey ty key (de_key e)")
    case True
    then show ?thesis using r by (auto simp: dictAdd_def)
  next
    case False
    let ?e = "\<lparr>de_addr = a, de_key = dupKey ty key, de_val = junk\<rparr>"
    have r1: "r = Some a" and m1: "dict_mset d1 = add_mset ?e (dict_mset d)" using r(5) False by (simp_all only: if_False)
    then obtain d2 where d2: "dictSetVal d1 (de_addr ?e) val = Some d2" "dict_inv d2" "d_type d2 = ty"
        "d_iterators d2 = d_iterators d1" "dict_mset d2 = add_mset (?e\<lparr>de_val := dupVal ty val\<rparr>) (dict_mset d1 - {#?e#})"
      using dictSetVal_ok [OF r(2), of ?e val] r(3) by auto
    have "dictAdd can d a junk key val = Some (True, d2)" using r(1) r1 d2(1) by (simp add: dictAdd_def)
    with d2 m1 r(4) False show ?thesis by auto
  qed
qed

lemma dictReplace_ok:
  assumes inv: "dict_inv d" and ty: "d_type d = ty"
    and fresh: "\<forall>e \<in># dict_mset d. de_addr e \<noteq> a" and sz: "size (dict_mset d) + 1 < 2 ^ 30"
  shows "\<exists>new rel d'. dictReplace can d a junk key val = Some (new, rel, d') \<and> dict_inv d' \<and> d_type d' = ty \<and>
     d_iterators d' = d_iterators d \<and>
     (if \<exists>e \<in># dict_mset d. sameKey ty key (de_key e) then
        \<not> new \<and> (\<exists>e. e \<in># dict_mset d \<and> sameKey ty key (de_key e) \<and> rel = dictFreeVal ty e \<and>
           dict_mset d' = add_mset (e\<lparr>de_val := dupVal ty val\<rparr>) (dict_mset d - {#e#}))
      else new \<and> rel = [] \<and>
        dict_mset d' = add_mset \<lparr>de_addr = a, de_key = dupKey ty key, de_val = dupVal ty val\<rparr> (dict_mset d))"
proof -
  obtain ok d1 where r: "dictAdd can d a junk key val = Some (ok, d1)" "dict_inv d1" "d_type d1 = ty"
      "d_iterators d1 = d_iterators d"
      "if \<exists>e \<in># dict_mset d. sameKey ty key (de_key e) then \<not> ok \<and> dict_mset d1 = dict_mset d
       else ok \<and> dict_mset d1 = add_mset \<lparr>de_addr = a, de_key = dupKey ty key, de_val = dupVal ty val\<rparr> (dict_mset d)"
    using dictAdd_ok [OF assms] by blast
  show ?thesis
  proof (cases "\<exists>e \<in># dict_mset d. sameKey ty key (de_key e)")
    case False
    then show ?thesis using r by (auto simp: dictReplace_def)
  next
    case True
    then have nok: "\<not> ok" and m1: "dict_mset d1 = dict_mset d" using r(5) by auto
    obtain e d2 where e: "dictFind d1 key = Some (Some e, d2)" "dict_inv d2" "same_contents d1 d2"
        "e \<in># dict_mset d2" "e \<in># dict_mset d1" "sameKey ty key (de_key e)"
      using dictFind_ok [OF r(2,3), of key] True m1 by (auto split: option.splits)
    have ty2: "d_type d2 = ty" "dict_mset d2 = dict_mset d1" "d_iterators d2 = d_iterators d1"
      using e(3) r(3) by (simp_all add: same_contents_def)
    obtain d3 where d3: "dictSetVal d2 (de_addr e) val = Some d3" "dict_inv d3" "d_type d3 = ty"
        "d_iterators d3 = d_iterators d2" "dict_mset d3 = add_mset (e\<lparr>de_val := dupVal ty val\<rparr>) (dict_mset d2 - {#e#})"
      using dictSetVal_ok [OF e(2,4), of val] ty2 by auto
    have "dictReplace can d a junk key val = Some (False, dictFreeVal ty e, d3)"
      using r(1) nok e(1) d3(1,3) by (simp add: dictReplace_def)
    then show ?thesis using True e(5,6) d3 ty2 m1 r(4) by auto
  qed
qed

lemma ht_remove_ok:
  assumes ok: "ht_ok ty ht" and sz: "ht_size ht \<noteq> 0" and u: "ht_used ht < 2 ^ 64"
  shows "\<exists>r. ht_remove ty k ht = Some r \<and>
     (case r of None \<Rightarrow> \<forall>e \<in># ht_entries ht. \<not> sameKey ty k (de_key e)
      | Some (e, ht') \<Rightarrow> sameKey ty k (de_key e) \<and> ht_entries ht = add_mset e (ht_entries ht') \<and> ht_ok ty ht' \<and>
          ht_size ht' = ht_size ht \<and> (\<forall>i < ht_size ht. ht_table ht ! i = [] \<longrightarrow> ht_table ht' ! i = []))"
proof -
  let ?i = "ht_index ht (hashFunction ty k)"
  let ?b = "ht_table ht ! ?i"
  have i: "?i < ht_size ht" "?i < length (ht_table ht)" using ht_index_less [OF ok sz] ok by (auto simp: ht_ok_def)
  note b = ht_bucket [OF ok i(1)]
  show ?thesis
  proof (cases "chain_remove ty k ?b")
    case None
    then have "\<forall>e \<in> set ?b. \<not> sameKey ty k (de_key e)" using chain_remove_spec [where ty = ty and k = k and ch = ?b] by simp
    then have "\<forall>e \<in># ht_entries ht. \<not> sameKey ty k (de_key e)" using bucket_complete [OF ok sz, of k] by blast
    then show ?thesis using None b by (simp add: ht_remove_def)
  next
    case (Some er)
    obtain e r where er: "er = (e, r)" by (cases er)
    have e: "sameKey ty k (de_key e)" "mset ?b = add_mset e (mset r)"
      using chain_remove_spec [where ty = ty and k = k and ch = ?b] Some er by simp_all
    let ?t = "(ht_table ht)[?i := r]"
    let ?h = "ht\<lparr>ht_table := ?t, ht_used := ulong_dec (ht_used ht)\<rparr>"
    have m: "ht_entries ht = add_mset e (mset (concat ?t))"
      using concat_update_mset [OF i(2), of r] e(2) by simp
    have "length ?b = Suc (length r)" using e(2) by (metis size_add_mset size_mset)
    then have "ht_used ht = Suc (length (concat ?t))"
      using concat_update_length [OF i(2), of r] ok by (simp add: ht_ok_def)
    then have dec: "ulong_dec (ht_used ht) = length (concat ?t)" using u by simp
    have "set r \<subseteq> set ?b" using e(2) by (metis set_mset_mset set_mset_add_mset_insert subset_insertI)
    then have okh: "ht_ok ty ?h"
      by (intro ht_ok_update [OF ok i(1)]) (use ok i dec in \<open>auto simp: ht_ok_def\<close>)
    have "?b \<noteq> []" using e(2) by auto
    then have "\<forall>j < ht_size ht. ht_table ht ! j = [] \<longrightarrow> ?t ! j = []"
      using i(2) by (auto simp: nth_list_update)
    then show ?thesis using Some er b e(1) m okh by (simp add: ht_remove_def)
  qed
qed

lemma dictGenericDelete_ok:
  assumes inv: "dict_inv d" and ty: "d_type d = ty"
  shows "\<exists>ok rel d'. dictGenericDelete d k nofree = Some (ok, rel, d') \<and> dict_inv d' \<and> d_type d' = ty \<and>
     d_iterators d' = d_iterators d \<and>
     (if ok then \<exists>e. sameKey ty k (de_key e) \<and> dict_mset d = add_mset e (dict_mset d') \<and> rel = entry_release ty nofree e
      else rel = [] \<and> dict_mset d' = dict_mset d \<and> (\<forall>e \<in># dict_mset d. \<not> sameKey ty k (de_key e)))"
proof (cases "ht_size (d_ht0 d) = 0")
  case True
  then have "ht_entries (d_ht0 d) = {#}" "ht_entries (d_ht1 d) = {#}"
    using inv by (auto simp: dict_inv_def ht_ok_def split: if_splits)
  then have "dict_mset d = {#}" by (simp add: dict_mset_split)
  then show ?thesis using True inv ty by (auto simp: dictGenericDelete_def)
next
  case False
  obtain d1 where d1: "rehash_if d = Some d1" "dict_inv d1" "same_contents d d1" "ht_size (d_ht0 d1) \<noteq> 0"
    using rehash_if_ok [OF inv] False by blast
  have ty1: "d_type d1 = ty" and m1: "dict_mset d1 = dict_mset d" and it1: "d_iterators d1 = d_iterators d"
    using d1(3) ty by (simp_all add: same_contents_def)
  have ok: "ht_ok ty (d_ht0 d1)" "ht_ok ty (d_ht1 d1)" and es: "entries_ok ty (dict_mset d1)"
    using d1(2) ty1 by (auto simp: dict_inv_def)
  have u: "ht_used (d_ht0 d1) < 2 ^ 64" "ht_used (d_ht1 d1) < 2 ^ 64" using dict_used [OF d1(2)] by auto
  obtain r0 where r0: "ht_remove ty k (d_ht0 d1) = Some r0"
     "case r0 of None \<Rightarrow> \<forall>e \<in># ht_entries (d_ht0 d1). \<not> sameKey ty k (de_key e)
      | Some (e, ht') \<Rightarrow> sameKey ty k (de_key e) \<and> ht_entries (d_ht0 d1) = add_mset e (ht_entries ht') \<and> ht_ok ty ht' \<and>
          ht_size ht' = ht_size (d_ht0 d1) \<and>
          (\<forall>i < ht_size (d_ht0 d1). ht_table (d_ht0 d1) ! i = [] \<longrightarrow> ht_table ht' ! i = [])"
    using ht_remove_ok [OF ok(1) d1(4) u(1), of k] by blast
  show ?thesis
  proof (cases r0)
    case (Some er)
    obtain e ht' where er: "er = (e, ht')" by (cases er)
    let ?d = "d1\<lparr>d_ht0 := ht'\<rparr>"
    have m: "dict_mset d = add_mset e (dict_mset ?d)" using r0(2) Some er m1 [symmetric] by (simp add: dict_mset_split [of d1] dict_mset_split [of ?d])
    have "entries_ok ty (dict_mset ?d)" using es entries_ok_remove m m1 by metis
    then have "dict_inv ?d"
      using d1(2) r0(2) Some er ty1 by (auto simp: dict_inv_def dictIsRehashing_def split: if_splits)
    moreover have "dictGenericDelete d k nofree = Some (True, entry_release ty nofree e, ?d)"
      using False d1(1) r0(1) Some er ty1 by (simp add: dictGenericDelete_def)
    ultimately show ?thesis using m r0(2) Some er ty1 it1 by auto
  next
    case None
    show ?thesis
    proof (cases "dictIsRehashing d1")
      case nre: False
      then have "ht_entries (d_ht1 d1) = {#}" using d1(2) by (simp add: dict_inv_def)
      then have "\<forall>e \<in># dict_mset d. \<not> sameKey ty k (de_key e)"
        using r0(2) None m1 [symmetric] by (auto simp: dict_mset_split [of d1])
      moreover have "dictGenericDelete d k nofree = Some (False, [], d1)"
        using False d1(1) r0(1) None nre ty1 by (simp add: dictGenericDelete_def)
      ultimately show ?thesis using d1(2) ty1 it1 m1 by auto
    next
      case re: True
      then have sz1: "ht_size (d_ht1 d1) \<noteq> 0" using d1(2) by (simp add: dict_inv_def)
      obtain r1 where r1: "ht_remove ty k (d_ht1 d1) = Some r1"
         "case r1 of None \<Rightarrow> \<forall>e \<in># ht_entries (d_ht1 d1). \<not> sameKey ty k (de_key e)
          | Some (e, ht') \<Rightarrow> sameKey ty k (de_key e) \<and> ht_entries (d_ht1 d1) = add_mset e (ht_entries ht') \<and> ht_ok ty ht' \<and>
              ht_size ht' = ht_size (d_ht1 d1) \<and>
              (\<forall>i < ht_size (d_ht1 d1). ht_table (d_ht1 d1) ! i = [] \<longrightarrow> ht_table ht' ! i = [])"
        using ht_remove_ok [OF ok(2) sz1 u(2), of k] by blast
      show ?thesis
      proof (cases r1)
        case (Some er)
        obtain e ht' where er: "er = (e, ht')" by (cases er)
        let ?d = "d1\<lparr>d_ht1 := ht'\<rparr>"
        have m: "dict_mset d = add_mset e (dict_mset ?d)"
          using r1(2) Some er m1 [symmetric] by (simp add: dict_mset_split [of d1] dict_mset_split [of ?d])
        have "entries_ok ty (dict_mset ?d)" using es entries_ok_remove m m1 by metis
        then have "dict_inv ?d"
          using d1(2) r1(2) Some er ty1 re by (auto simp: dict_inv_def dictIsRehashing_def split: if_splits)
        moreover have "dictGenericDelete d k nofree = Some (True, entry_release ty nofree e, ?d)"
          using False d1(1) r0(1) None r1(1) Some er ty1 re by (simp add: dictGenericDelete_def)
        ultimately show ?thesis using m r1(2) Some er ty1 it1 by auto
      next
        case none1: None
        then have "\<forall>e \<in># dict_mset d. \<not> sameKey ty k (de_key e)"
          using r0(2) r1(2) None m1 [symmetric] by (auto simp: dict_mset_split [of d1])
        moreover have "dictGenericDelete d k nofree = Some (False, [], d1)"
          using False d1(1) r0(1) None r1(1) none1 re ty1 by (simp add: dictGenericDelete_def)
        ultimately show ?thesis using d1(2) ty1 it1 m1 by auto
      qed
    qed
  qed
qed

end

section \<open>Clearing\<close>

lemma entry_release_no_progress: "filter (\<lambda>x. x \<noteq> Progress) (entry_release ty nf e) = entry_release ty nf e"
  by (simp add: entry_release_def dictFreeKey_def dictFreeVal_def)

lemma clear_loop_release:
  "used = length (concat tb) \<Longrightarrow>
     filter (\<lambda>x. x \<noteq> Progress) (clear_loop ty cb i used tb) = concat (map (entry_release ty False) (concat tb))"
proof (induction tb arbitrary: i used)
  case (Cons he tb)
  have "filter (\<lambda>x. x \<noteq> Progress) (concat (map (entry_release ty False) xs)) = concat (map (entry_release ty False) xs)" for xs
    by (simp add: filter_concat comp_def entry_release_no_progress)
  then show ?case using Cons by (auto simp: concat_eq_Nil_conv)
qed simp

lemma dictCreate_inv: "dict_inv (dictCreate ty)"
  by (simp add: dict_inv_def dictCreate_def dictIsRehashing_def entries_ok_def keys_once_def dict_entries_def)

lemma dictEmpty_ok:
  assumes inv: "dict_inv d"
  shows "snd (dictEmpty d cb) = dictCreate (d_type d) \<and>
     filter (\<lambda>x. x \<noteq> Progress) (fst (dictEmpty d cb)) = concat (map (entry_release (d_type d) False) (dict_entries d)) \<and>
     dictRelease d = concat (map (entry_release (d_type d) False) (dict_entries d))"
proof -
  have ok: "length (ht_table (d_ht0 d)) = ht_size (d_ht0 d)" "length (ht_table (d_ht1 d)) = ht_size (d_ht1 d)"
    "ht_used (d_ht0 d) = length (concat (ht_table (d_ht0 d)))" "ht_used (d_ht1 d) = length (concat (ht_table (d_ht1 d)))"
    using inv by (auto simp: dict_inv_def ht_ok_def)
  have np: "Progress \<notin> set (clear_loop ty False i u tb)" for ty :: "('a, 'b) dictType" and i u tb
    by (induction tb arbitrary: i u) (auto simp: entry_release_def dictFreeKey_def dictFreeVal_def split: if_splits)
  have eq: "clear_loop (d_type d) False 0 (length (concat tb)) tb = concat (map (entry_release (d_type d) False) (concat tb))" for tb
    using clear_loop_release [of "length (concat tb)" tb "d_type d" False 0] np [of "d_type d" 0 "length (concat tb)" tb]
    by (metis (mono_tags, lifting) filter_True)
  show ?thesis using ok clear_loop_release [of _ _ "d_type d" cb 0] eq
    by (simp add: dictEmpty_def dictClear_def dictRelease_def dictCreate_def dict_entries_def)
qed

section \<open>The map interface\<close>

text \<open>What a client of a keyed store relies on. \<open>room s a\<close>: an entry can be allocated at \<open>a\<close>.\<close>

locale kv_store =
  fixes inv :: "'s \<Rightarrow> bool"
    and content :: "'s \<Rightarrow> 'k \<Rightarrow> 'v option"
    and same :: "'k \<Rightarrow> 'k \<Rightarrow> bool"
    and stored :: "'v \<Rightarrow> 'v"
    and room :: "'s \<Rightarrow> nat \<Rightarrow> bool"
    and put :: "'s \<Rightarrow> nat \<Rightarrow> 'k \<Rightarrow> 'v \<Rightarrow> 's option"
    and get :: "'s \<Rightarrow> 'k \<Rightarrow> ('v option \<times> 's) option"
    and del :: "'s \<Rightarrow> 'k \<Rightarrow> (bool \<times> 's) option"
  assumes put_spec: "inv s \<Longrightarrow> room s a \<Longrightarrow> \<exists>s'. put s a k v = Some s' \<and> inv s' \<and>
      content s' = (\<lambda>k'. if same k' k then Some (stored v) else content s k')"
    and get_spec: "inv s \<Longrightarrow> \<exists>s'. get s k = Some (content s k, s') \<and> inv s' \<and> content s' = content s"
    and del_spec: "inv s \<Longrightarrow> \<exists>s'. del s k = Some (content s k \<noteq> None, s') \<and> inv s' \<and>
      content s' = (\<lambda>k'. if same k' k then None else content s k')"
    and same_refl: "same k k"
begin

lemma put_then_get:
  assumes "inv s" and "room s a"
  shows "\<exists>s1 s2. put s a k v = Some s1 \<and> get s1 k' = Some (if same k' k then Some (stored v) else content s k', s2) \<and>
     inv s2 \<and> content s2 = content s1"
proof -
  obtain s1 where s1: "put s a k v = Some s1" "inv s1"
      "content s1 = (\<lambda>k'. if same k' k then Some (stored v) else content s k')"
    using put_spec [OF assms] by blast
  obtain s2 where "get s1 k' = Some (content s1 k', s2)" "inv s2" "content s2 = content s1"
    using get_spec [OF s1(2)] by blast
  with s1 show ?thesis by auto
qed

text \<open>Deleting what was just put under a new key brings the contents back.\<close>

lemma put_then_del:
  assumes "inv s" and "room s a" and "\<And>k'. same k' k \<Longrightarrow> content s k' = None"
  shows "\<exists>s1 s2. put s a k v = Some s1 \<and> del s1 k = Some (True, s2) \<and> inv s2 \<and> content s2 = content s"
proof -
  obtain s1 where s1: "put s a k v = Some s1" "inv s1"
      "content s1 = (\<lambda>k'. if same k' k then Some (stored v) else content s k')"
    using put_spec [OF assms(1,2)] by blast
  obtain s2 where s2: "del s1 k = Some (content s1 k \<noteq> None, s2)" "inv s2"
      "content s2 = (\<lambda>k'. if same k' k then None else content s1 k')"
    using del_spec [OF s1(2)] by blast
  have "content s2 = content s" using s1(3) s2(3) assms(3) by auto
  with s1 s2 same_refl show ?thesis by auto
qed

end

text \<open>The store operations of a dictionary; the indeterminate value of a new entry is never seen.\<close>

definition dict_put :: "bool \<Rightarrow> ('k, 'v) dict \<Rightarrow> nat \<Rightarrow> 'k \<Rightarrow> 'v \<Rightarrow> ('k, 'v) dict option" where
  "dict_put can d a k v = map_option (\<lambda>(new, rel, d). d) (dictReplace can d a v k v)"

definition dict_del :: "('k, 'v) dict \<Rightarrow> 'k \<Rightarrow> (bool \<times> ('k, 'v) dict) option" where
  "dict_del d k = map_option (\<lambda>(ok, rel, d). (ok, d)) (dictDelete d k)"

definition dict_room :: "('k, 'v) dict \<Rightarrow> nat \<Rightarrow> bool" where
  "dict_room d a \<longleftrightarrow> a \<notin> de_addr ` set (dict_entries d) \<and> length (dict_entries d) + 1 < 2 ^ 30"

definition dict_of :: "('k, 'v) dictType \<Rightarrow> ('k, 'v) dict \<Rightarrow> bool" where
  "dict_of ty d \<longleftrightarrow> dict_inv d \<and> d_type d = ty"

context dict_keys
begin

lemma map_delete:
  assumes inv: "dict_inv d" and ty: "d_type d = ty"
  shows "\<exists>rel d'. dictGenericDelete d k nofree = Some (dict_map d k \<noteq> None, rel, d') \<and> dict_inv d' \<and> d_type d' = ty \<and>
     dict_map d' = (\<lambda>k'. if sameKey ty k' k then None else dict_map d k')"
proof -
  obtain ok rel d' where r: "dictGenericDelete d k nofree = Some (ok, rel, d')" "dict_inv d'" "d_type d' = ty"
     "if ok then \<exists>e. sameKey ty k (de_key e) \<and> dict_mset d = add_mset e (dict_mset d') \<and> rel = entry_release ty nofree e
      else rel = [] \<and> dict_mset d' = dict_mset d \<and> (\<forall>e \<in># dict_mset d. \<not> sameKey ty k (de_key e))"
    using dictGenericDelete_ok [OF assms] by blast
  show ?thesis
  proof (cases ok)
    case True
    then obtain e where e: "sameKey ty k (de_key e)" "dict_mset d = add_mset e (dict_mset d')" using r(4) by auto
    have "dict_map d k \<noteq> None" using e dict_map_None [of d k] ty by auto
    moreover have "sameKey ty k' (de_key e) \<longleftrightarrow> sameKey ty k' k" for k' using e(1) same_sym same_trans by blast
    then have "dict_map d' = (\<lambda>k'. if sameKey ty k' k then None else dict_map d k')"
      using map_of_remove [OF inv r(2) _ e(2)] r(3) ty by auto
    ultimately show ?thesis using r True by auto
  next
    case False
    then have n: "\<forall>e \<in># dict_mset d. \<not> sameKey ty k (de_key e)" and m: "dict_mset d' = dict_mset d" using r(4) by auto
    have none: "dict_map d k' = None" if "sameKey ty k' k" for k'
      using n that dict_map_None [of d k'] ty same_sym same_trans by blast
    have "dict_map d' = dict_map d" using mset_eq_map [OF inv r(2) _ m] r(3) ty by simp
    then have "dict_map d' = (\<lambda>k'. if sameKey ty k' k then None else dict_map d k')" using none by auto
    moreover have "dict_map d k = None" using n dict_map_None [of d k] ty by auto
    ultimately show ?thesis using r False by auto
  qed
qed

lemma map_find:
  assumes inv: "dict_inv d" and ty: "d_type d = ty"
  shows "\<exists>d'. dictFetchValue d k = Some (dict_map d k, d') \<and> dict_inv d' \<and> d_type d' = ty \<and> dict_map d' = dict_map d"
proof -
  obtain r d' where r: "dictFind d k = Some (r, d')" "dict_inv d'" "same_contents d d'"
     "case r of None \<Rightarrow> \<forall>e \<in># dict_mset d. \<not> sameKey ty k (de_key e)
      | Some e \<Rightarrow> e \<in># dict_mset d' \<and> e \<in># dict_mset d \<and> sameKey ty k (de_key e)"
    using dictFind_ok [OF assms] by blast
  have "map_option de_val r = dict_map d k"
  proof (cases r)
    case None
    then have "\<forall>e \<in># dict_mset d. \<not> sameKey ty k (de_key e)" using r(4) by simp
    then have "dict_map d k = None" using dict_map_None [of d k] ty by blast
    with None show ?thesis by simp
  next
    case (Some e)
    then have "e \<in># dict_mset d" "sameKey ty k (de_key e)" using r(4) by simp_all
    then have "dict_map d k = Some (de_val e)" using dict_map_Some [OF inv_keys_once [OF inv]] ty by blast
    with Some show ?thesis by simp
  qed
  with r same_contents_map [OF inv r(2,3)] ty show ?thesis by (auto simp: dictFetchValue_def same_contents_def)
qed

lemma same_iff: "sameKey ty k (de_key e) \<Longrightarrow> sameKey ty k' (de_key e) \<longleftrightarrow> sameKey ty k' k"
  using same_sym same_trans by blast

lemma map_add:
  assumes inv: "dict_inv d" and ty: "d_type d = ty" and room: "dict_room d a"
  shows "\<exists>d'. dictAdd can d a junk k v = Some (dict_map d k = None, d') \<and> dict_inv d' \<and> d_type d' = ty \<and>
     dict_map d' = (if dict_map d k = None then (\<lambda>k'. if sameKey ty k' k then Some (dupVal ty v) else dict_map d k') else dict_map d)"
proof -
  have fresh: "\<forall>e \<in># dict_mset d. de_addr e \<noteq> a" and sz: "size (dict_mset d) + 1 < 2 ^ 30"
    using room by (auto simp: dict_room_def)
  obtain ok d' where r: "dictAdd can d a junk k v = Some (ok, d')" "dict_inv d'" "d_type d' = ty"
     "if \<exists>e \<in># dict_mset d. sameKey ty k (de_key e) then \<not> ok \<and> dict_mset d' = dict_mset d
      else ok \<and> dict_mset d' = add_mset \<lparr>de_addr = a, de_key = dupKey ty k, de_val = dupVal ty v\<rparr> (dict_mset d)"
    using dictAdd_ok [OF inv ty fresh sz] by blast
  show ?thesis
  proof (cases "dict_map d k = None")
    case True
    then have n: "\<not> (\<exists>e \<in># dict_mset d. sameKey ty k (de_key e))" using dict_map_None [of d k] ty by blast
    then have ok and m: "dict_mset d' = add_mset \<lparr>de_addr = a, de_key = dupKey ty k, de_val = dupVal ty v\<rparr> (dict_mset d)"
      using r(4) by auto
    have "dict_map d' = (\<lambda>k'. if sameKey ty k' k then Some (dupVal ty v) else dict_map d k')"
      using map_of_add [OF inv r(2) _ m] r(3) ty by (auto simp: same_dup_iff)
    with r \<open>ok\<close> True show ?thesis by auto
  next
    case False
    then have n: "\<exists>e \<in># dict_mset d. sameKey ty k (de_key e)" using dict_map_None [of d k] ty by auto
    then have "\<not> ok" "dict_mset d' = dict_mset d" using r(4) by auto
    with r False mset_eq_map [OF inv r(2)] ty show ?thesis by auto
  qed
qed

lemma map_replace:
  assumes inv: "dict_inv d" and ty: "d_type d = ty" and room: "dict_room d a"
  shows "\<exists>d'. dictReplace can d a junk k v = Some (dict_map d k = None,
       case dict_map d k of None \<Rightarrow> [] | Some w \<Rightarrow> if valDestructor ty then [FreeVal w] else [], d') \<and>
     dict_inv d' \<and> d_type d' = ty \<and>
     dict_map d' = (\<lambda>k'. if sameKey ty k' k then Some (dupVal ty v) else dict_map d k')"
proof -
  have fresh: "\<forall>e \<in># dict_mset d. de_addr e \<noteq> a" and sz: "size (dict_mset d) + 1 < 2 ^ 30"
    using room by (auto simp: dict_room_def)
  obtain new rel d' where r: "dictReplace can d a junk k v = Some (new, rel, d')" "dict_inv d'" "d_type d' = ty"
     "if \<exists>e \<in># dict_mset d. sameKey ty k (de_key e) then
        \<not> new \<and> (\<exists>e. e \<in># dict_mset d \<and> sameKey ty k (de_key e) \<and> rel = dictFreeVal ty e \<and>
           dict_mset d' = add_mset (e\<lparr>de_val := dupVal ty v\<rparr>) (dict_mset d - {#e#}))
      else new \<and> rel = [] \<and>
        dict_mset d' = add_mset \<lparr>de_addr = a, de_key = dupKey ty k, de_val = dupVal ty v\<rparr> (dict_mset d)"
    using dictReplace_ok [OF inv ty fresh sz] by blast
  show ?thesis
  proof (cases "dict_map d k = None")
    case True
    then have n: "\<not> (\<exists>e \<in># dict_mset d. sameKey ty k (de_key e))" using dict_map_None [of d k] ty by blast
    then have new: "new" "rel = []"
      and m: "dict_mset d' = add_mset \<lparr>de_addr = a, de_key = dupKey ty k, de_val = dupVal ty v\<rparr> (dict_mset d)"
      using r(4) by auto
    have "dict_map d' = (\<lambda>k'. if sameKey ty k' k then Some (dupVal ty v) else dict_map d k')"
      using map_of_add [OF inv r(2) _ m] r(3) ty by (auto simp: same_dup_iff)
    with r new True show ?thesis by auto
  next
    case False
    then have n: "\<exists>e \<in># dict_mset d. sameKey ty k (de_key e)" using dict_map_None [of d k] ty by auto
    then obtain e where e: "\<not> new" "e \<in># dict_mset d" "sameKey ty k (de_key e)" "rel = dictFreeVal ty e"
        "dict_mset d' = add_mset (e\<lparr>de_val := dupVal ty v\<rparr>) (dict_mset d - {#e#})"
      using r(4) by auto
    have w: "dict_map d k = Some (de_val e)" using dict_map_Some [OF inv_keys_once [OF inv]] e(2,3) ty by blast
    have in': "x \<in># dict_mset d' \<longleftrightarrow> x = e\<lparr>de_val := dupVal ty v\<rparr> \<or> x \<in># dict_mset d - {#e#}" for x
      by (simp only: e(5)) simp
    have "dict_map d' k' = (if sameKey ty k' k then Some (dupVal ty v) else dict_map d k')" for k'
    proof (cases "sameKey ty k' k")
      case True
      then have "sameKey ty k' (de_key e)" using same_iff [OF e(3)] by blast
      then have "dict_map d' k' = Some (dupVal ty v)"
        using dict_map_Some [OF inv_keys_once [OF r(2)], of k'] in' [of "e\<lparr>de_val := dupVal ty v\<rparr>"] r(3) by auto
      with True show ?thesis by simp
    next
      case other: False
      then have ne: "\<not> sameKey ty k' (de_key e)" using same_iff [OF e(3)] by blast
      have "x \<in># dict_mset d' \<longleftrightarrow> x \<in># dict_mset d" if x: "sameKey ty k' (de_key x)" for x
      proof -
        have "x \<noteq> e" "x \<noteq> e\<lparr>de_val := dupVal ty v\<rparr>" using x ne by auto
        then show ?thesis using in' [of x] in_diff_other [of x e "dict_mset d"] by blast
      qed
      then have "dict_map d' k' = Some u \<longleftrightarrow> dict_map d k' = Some u" for u
        using dict_map_Some [OF inv_keys_once [OF inv], of k' u] dict_map_Some [OF inv_keys_once [OF r(2)], of k' u] r(3) ty
        by auto
      then have "dict_map d' k' = dict_map d k'" by (metis option.exhaust)
      with other show ?thesis by simp
    qed
    then have "dict_map d' = (\<lambda>k'. if sameKey ty k' k then Some (dupVal ty v) else dict_map d k')" by blast
    with r e w show ?thesis by (auto simp: dictFreeVal_def)
  qed
qed

end

sublocale dict_keys \<subseteq> store: kv_store "dict_of ty" dict_map "sameKey ty" "dupVal ty" dict_room "dict_put can" dictFetchValue dict_del
proof
  fix s a k v
  assume s: "dict_of ty s"
  show "\<exists>s'. dictFetchValue s k = Some (dict_map s k, s') \<and> dict_of ty s' \<and> dict_map s' = dict_map s"
    using map_find [of s k] s by (auto simp: dict_of_def)
  show "\<exists>s'. dict_del s k = Some (dict_map s k \<noteq> None, s') \<and> dict_of ty s' \<and>
      dict_map s' = (\<lambda>k'. if sameKey ty k' k then None else dict_map s k')"
    using map_delete [of s k False] s by (auto simp: dict_of_def dict_del_def dictDelete_def)
  assume room: "dict_room s a"
  show "\<exists>s'. dict_put can s a k v = Some s' \<and> dict_of ty s' \<and>
      dict_map s' = (\<lambda>k'. if sameKey ty k' k then Some (dupVal ty v) else dict_map s k')"
    using map_replace [OF _ _ room, of can v k v] s by (auto simp: dict_of_def dict_put_def)
qed (simp add: sameKey_def)

end
