(* ===== verification/DictType.thy ===== *)
theory DictType
  imports Dict
begin

text \<open>
  The hash functions of \<open>redis-3.2/src/dict.c\<close> and the dictionary types of \<open>server.c\<close> whose keys are
  \<open>sds\<close> strings: the key space (\<open>dbDictType\<close>), the expires table (\<open>keyptrDictType\<close>), the cluster and
  migration tables, and the case-insensitive tables (\<open>commandTableDictType\<close> and its siblings).
  A key is the byte string it points to. \<open>dict_hash_function_seed\<close> is the argument \<open>seed\<close>.

  The exact types satisfy the laws of \<open>dict_keys\<close>, which gives the properties of the dictionary for
  them. The case-insensitive ones compare C strings and hash the whole \<open>sds\<close>: they satisfy the laws
  on strings without a zero byte, and not otherwise.
\<close>

section \<open>Hash functions\<close>

definition dictIntHashFunction :: "32 word \<Rightarrow> 32 word" where
  "dictIntHashFunction key =
     (let key = key + NOT (push_bit 15 key);
          key = key XOR drop_bit 10 key;
          key = key + push_bit 3 key;
          key = key XOR drop_bit 6 key;
          key = key + NOT (push_bit 11 key);
          key = key XOR drop_bit 16 key
      in key)"

definition murmur_m :: "32 word" where "murmur_m = 0x5bd1e995"

text \<open>The four bytes are read as a little-endian \<open>uint32_t\<close>; the second component is what is left.\<close>

fun murmur_loop :: "32 word \<Rightarrow> bytes \<Rightarrow> 32 word \<times> bytes" where
  "murmur_loop h (b0 # b1 # b2 # b3 # data) =
     (let k = word_of_int (le_dec [b0, b1, b2, b3]);
          k = k * murmur_m;
          k = k XOR drop_bit 24 k;
          k = k * murmur_m;
          h = h * murmur_m;
          h = h XOR k
      in murmur_loop h data)"
| "murmur_loop h data = (h, data)"

definition murmur_tail :: "32 word \<Rightarrow> bytes \<Rightarrow> 32 word" where
  "murmur_tail h data =
     (let h = (if length data = 3 then h XOR push_bit 16 (ucast (data ! 2)) else h);
          h = (if length data \<ge> 2 then h XOR push_bit 8 (ucast (data ! 1)) else h);
          h = (if length data \<ge> 1 then (h XOR ucast (data ! 0)) * murmur_m else h)
      in h)"

definition dictGenHashFunction :: "32 word \<Rightarrow> bytes \<Rightarrow> int \<Rightarrow> 32 word" where
  "dictGenHashFunction seed key len =
     (let h = seed XOR word_of_int len;
          (h, data) = murmur_loop h (take (nat len) key);
          h = murmur_tail h data;
          h = h XOR drop_bit 13 h;
          h = h * murmur_m;
          h = h XOR drop_bit 15 h
      in h)"

fun casehash_loop :: "32 word \<Rightarrow> bytes \<Rightarrow> 32 word" where
  "casehash_loop hash [] = hash"
| "casehash_loop hash (b # buf) = casehash_loop ((push_bit 5 hash + hash) + ucast (tolower b)) buf"

definition dictGenCaseHashFunction :: "32 word \<Rightarrow> bytes \<Rightarrow> int \<Rightarrow> 32 word" where
  "dictGenCaseHashFunction seed buf len = casehash_loop seed (take (nat len) buf)"

section \<open>Keys of the server's dictionaries\<close>

text \<open>\<open>sdslen\<close> cast to \<open>int\<close>; strings are far shorter than 2 GB.\<close>

definition sdslen_int :: "bytes \<Rightarrow> int" where
  "sdslen_int s = s32 (int (length s))"

definition dictSdsKeyCompare :: "bytes \<Rightarrow> bytes \<Rightarrow> bool" where
  "dictSdsKeyCompare key1 key2 =
     (let l1 = sdslen_int key1; l2 = sdslen_int key2
      in if l1 \<noteq> l2 then False else take (nat l1) key1 = take (nat l1) key2)"

text \<open>The C string at the start of a buffer, and \<open>strcasecmp(key1,key2) == 0\<close>.\<close>

definition to_nul :: "bytes \<Rightarrow> bytes" where
  "to_nul s = takeWhile (\<lambda>b. b \<noteq> 0) s"

definition dictSdsKeyCaseCompare :: "bytes \<Rightarrow> bytes \<Rightarrow> bool" where
  "dictSdsKeyCaseCompare key1 key2 \<longleftrightarrow> map tolower (to_nul key1) = map tolower (to_nul key2)"

definition dictSdsHash :: "32 word \<Rightarrow> bytes \<Rightarrow> 32 word" where
  "dictSdsHash seed key = dictGenHashFunction seed key (sdslen_int key)"

definition dictSdsCaseHash :: "32 word \<Rightarrow> bytes \<Rightarrow> 32 word" where
  "dictSdsCaseHash seed key = dictGenCaseHashFunction seed key (sdslen_int key)"

definition dbDictType :: "32 word \<Rightarrow> (bytes, 'v) dictType" where
  "dbDictType seed = \<lparr>hashFunction = dictSdsHash seed, keyDup = None, valDup = None,
     keyCompare = Some dictSdsKeyCompare, keyDestructor = True, valDestructor = True\<rparr>"

definition keyptrDictType :: "32 word \<Rightarrow> (bytes, 'v) dictType" where
  "keyptrDictType seed = \<lparr>hashFunction = dictSdsHash seed, keyDup = None, valDup = None,
     keyCompare = Some dictSdsKeyCompare, keyDestructor = False, valDestructor = False\<rparr>"

definition clusterNodesDictType :: "32 word \<Rightarrow> (bytes, 'v) dictType" where
  "clusterNodesDictType seed = \<lparr>hashFunction = dictSdsHash seed, keyDup = None, valDup = None,
     keyCompare = Some dictSdsKeyCompare, keyDestructor = True, valDestructor = False\<rparr>"

definition commandTableDictType :: "32 word \<Rightarrow> (bytes, 'v) dictType" where
  "commandTableDictType seed = \<lparr>hashFunction = dictSdsCaseHash seed, keyDup = None, valDup = None,
     keyCompare = Some dictSdsKeyCaseCompare, keyDestructor = True, valDestructor = False\<rparr>"

section \<open>The laws\<close>

text \<open>What comparison and hash see of a key.\<close>

definition sds_view :: "bytes \<Rightarrow> int \<times> bytes" where
  "sds_view s = (sdslen_int s, take (nat (sdslen_int s)) s)"

lemma dictSdsKeyCompare_iff: "dictSdsKeyCompare a b \<longleftrightarrow> sds_view a = sds_view b"
  by (auto simp: dictSdsKeyCompare_def Let_def sds_view_def)

lemma dictSdsHash_view: "dictSdsHash seed k = dictGenHashFunction seed (snd (sds_view k)) (fst (sds_view k))"
  by (simp add: dictSdsHash_def dictGenHashFunction_def sds_view_def)

lemma sds_hash_cong: "dictSdsKeyCompare a b \<Longrightarrow> dictSdsHash seed a = dictSdsHash seed b"
  by (simp add: dictSdsKeyCompare_iff dictSdsHash_view)

lemma sdslen_int_id: "length s < 2 ^ 31 \<Longrightarrow> sdslen_int s = int (length s)"
  by (simp add: sdslen_int_def s32_id)

lemma dictSdsKeyCompare_eq:
  "length a < 2 ^ 31 \<Longrightarrow> length b < 2 ^ 31 \<Longrightarrow> dictSdsKeyCompare a b \<longleftrightarrow> a = b"
  by (auto simp: dictSdsKeyCompare_iff sds_view_def sdslen_int_id)

lemma sds_dict_keys:
  assumes "hashFunction ty = dictSdsHash seed" and "keyCompare ty = Some dictSdsKeyCompare" and "keyDup ty = None"
  shows "dict_keys ty"
proof
  have s: "sameKey ty a b \<longleftrightarrow> dictSdsKeyCompare a b" for a b
    using assms by (auto simp: sameKey_def dictCompareKeys_def dictSdsKeyCompare_iff)
  show "sameKey ty a b \<Longrightarrow> sameKey ty b a" for a b by (simp add: s dictSdsKeyCompare_iff)
  show "sameKey ty a b \<Longrightarrow> sameKey ty b c \<Longrightarrow> sameKey ty a c" for a b c by (simp add: s dictSdsKeyCompare_iff)
  show "sameKey ty a b \<Longrightarrow> hashFunction ty a = hashFunction ty b" for a b
    using assms sds_hash_cong by (simp add: s)
  show "sameKey ty (dupKey ty a) a" for a using assms by (simp add: dupKey_def sameKey_def)
qed

interpretation dbkeys: dict_keys "dbDictType seed"
  by (rule sds_dict_keys) (simp_all add: dbDictType_def)

interpretation expkeys: dict_keys "keyptrDictType seed"
  by (rule sds_dict_keys) (simp_all add: keyptrDictType_def)

interpretation nodekeys: dict_keys "clusterNodesDictType seed"
  by (rule sds_dict_keys) (simp_all add: clusterNodesDictType_def)

lemma db_same: "sameKey (dbDictType seed) a b = dictSdsKeyCompare a b"
  by (auto simp: sameKey_def dictCompareKeys_def dbDictType_def dictSdsKeyCompare_iff)

lemma dictSdsKeyCompare_refl: "dictSdsKeyCompare k k"
  by (simp add: dictSdsKeyCompare_iff)

lemma db_dupVal: "dupVal (dbDictType seed) v = v"
  by (simp add: dupVal_def dbDictType_def)

lemma db_valDestructor: "valDestructor (dbDictType seed) = True" "keyDestructor (dbDictType seed) = True"
  by (simp_all add: dbDictType_def)

text \<open>Names: the strings without a zero byte that command tables hold.\<close>

typedef cname = "{s :: bytes. cstring s}"
  by (rule exI [of _ "[]"]) (simp add: cstring_def)

lemma to_nul_name: "to_nul (Rep_cname n) = Rep_cname n"
  using Rep_cname [of n] by (auto simp: cstring_def to_nul_def takeWhile_eq_all_conv)

definition nameDictType :: "32 word \<Rightarrow> (cname, 'v) dictType" where
  "nameDictType seed = \<lparr>hashFunction = (\<lambda>n. dictSdsCaseHash seed (Rep_cname n)), keyDup = None, valDup = None,
     keyCompare = Some (\<lambda>a b. dictSdsKeyCaseCompare (Rep_cname a) (Rep_cname b)),
     keyDestructor = True, valDestructor = False\<rparr>"

lemma casehash_tolower: "casehash_loop h (map tolower s) = casehash_loop h s"
  by (induction s arbitrary: h) auto

lemma case_hash_cong: "map tolower a = map tolower b \<Longrightarrow> dictSdsCaseHash seed a = dictSdsCaseHash seed b"
proof -
  assume e: "map tolower a = map tolower b"
  then have "length a = length b" by (rule map_eq_imp_length_eq)
  moreover have "casehash_loop seed (take n a) = casehash_loop seed (take n b)" for n
    using e casehash_tolower by (metis take_map)
  ultimately show ?thesis by (simp add: dictSdsCaseHash_def dictGenCaseHashFunction_def sdslen_int_def)
qed

interpretation namekeys: dict_keys "nameDictType seed"
proof
  have s: "sameKey (nameDictType seed) a b \<longleftrightarrow> map tolower (Rep_cname a) = map tolower (Rep_cname b)" for a b
    by (auto simp: sameKey_def dictCompareKeys_def nameDictType_def dictSdsKeyCaseCompare_def to_nul_name)
  show "sameKey (nameDictType seed) a b \<Longrightarrow> sameKey (nameDictType seed) b a" for a b by (simp add: s)
  show "sameKey (nameDictType seed) a b \<Longrightarrow> sameKey (nameDictType seed) b c \<Longrightarrow> sameKey (nameDictType seed) a c" for a b c
    by (simp add: s)
  show "hashFunction (nameDictType seed) a = hashFunction (nameDictType seed) b"
    if "sameKey (nameDictType seed) a b" for a b
  proof -
    from that have "map tolower (Rep_cname a) = map tolower (Rep_cname b)" by (simp only: s)
    from case_hash_cong [OF this] show ?thesis by (simp add: nameDictType_def)
  qed
  show "sameKey (nameDictType seed) (dupKey (nameDictType seed) a) a" for a
    by (simp add: dupKey_def sameKey_def nameDictType_def)
qed

section \<open>Properties\<close>

text \<open>C2. Adding to the key space works at any stage of an incremental rehash: a new key is added with the
  value, an existing one is refused and keeps its value, and no other key changes. The index, the growth
  of the table and the step of rehashing that may precede stay within the tables.\<close>

theorem dictAdd_correct:
  assumes "dict_inv d" and "d_type d = dbDictType seed" and "length k < 2 ^ 31"
    and room: "dict_room d a"
  shows "\<exists>d'. dictAdd can d a junk k v = Some (dict_map d k = None, d') \<and> dict_inv d' \<and> d_type d' = dbDictType seed \<and>
     dict_map d' k = (if dict_map d k = None then Some v else dict_map d k) \<and>
     (\<forall>k'. length k' < 2 ^ 31 \<and> k' \<noteq> k \<longrightarrow> dict_map d' k' = dict_map d k')"
proof -
  obtain d' where d': "dictAdd can d a junk k v = Some (dict_map d k = None, d')" "dict_inv d'" "d_type d' = dbDictType seed"
      "dict_map d' = (if dict_map d k = None then (\<lambda>k'. if dictSdsKeyCompare k' k then Some v else dict_map d k') else dict_map d)"
    using dbkeys.map_add [OF assms(1,2) room, of can junk k v, unfolded db_dupVal db_same]
    by - (elim exE conjE, rule that)
  have "dictSdsKeyCompare k k" by (rule dictSdsKeyCompare_refl)
  moreover have "\<not> dictSdsKeyCompare k' k" if "length k' < 2 ^ 31" "k' \<noteq> k" for k'
    using dictSdsKeyCompare_eq [OF that(1) assms(3)] that(2) by simp
  ultimately show ?thesis using d' by (intro exI [of _ d']) simp
qed

lemma db_other: "length k < 2 ^ 31 \<Longrightarrow> length k' < 2 ^ 31 \<Longrightarrow> k' \<noteq> k \<Longrightarrow> \<not> dictSdsKeyCompare k' k"
  by (simp add: dictSdsKeyCompare_eq)

definition db_example :: "(bytes, nat) dict" where
  "db_example = dictCreate (dbDictType 5381)"

lemma db_example_ok: "dict_inv db_example" "d_type db_example = dbDictType 5381" "dict_room db_example a"
  "dict_map db_example k = None"
  by (simp_all add: db_example_def dictCreate_inv, simp_all add: dictCreate_def dict_room_def dict_map_def dict_entries_def)

theorem dictAdd_correct_witness:
  "\<exists>d'. dictAdd True db_example 1 0 (lit ''key'') 42 = Some (True, d') \<and> dict_inv d' \<and> dict_map d' (lit ''key'') = Some 42"
  using dictAdd_correct [OF db_example_ok(1,2) _ db_example_ok(3), of "lit ''key''" True 1 0 42]
  by (auto simp: db_example_ok(4) lit_def)

text \<open>Replacing sets the value of the key whether it existed or not, says which, and hands the old value,
  and nothing else, to the value destructor; fetching the key afterwards gives the new value, fetching
  any other key what it gave before.\<close>

theorem dictReplace_fetch:
  assumes "dict_inv d" and "d_type d = dbDictType seed" and "length k < 2 ^ 31" and "length k' < 2 ^ 31"
    and "dict_room d a"
  shows "\<exists>d1 d2. dictReplace can d a junk k v =
       Some (dict_map d k = None, case dict_map d k of None \<Rightarrow> [] | Some w \<Rightarrow> [FreeVal w], d1) \<and>
     dictFetchValue d1 k' = Some (if k' = k then Some v else dict_map d k', d2) \<and> dict_inv d2 \<and> dict_map d2 = dict_map d1"
proof -
  obtain d1 where d1: "dictReplace can d a junk k v =
       Some (dict_map d k = None, case dict_map d k of None \<Rightarrow> [] | Some w \<Rightarrow> [FreeVal w], d1)"
     "dict_inv d1" "d_type d1 = dbDictType seed"
     "dict_map d1 = (\<lambda>k'. if dictSdsKeyCompare k' k then Some v else dict_map d k')"
    using dbkeys.map_replace [OF assms(1,2,5), of can junk k v, unfolded db_dupVal db_same db_valDestructor if_True]
    by - (elim exE conjE, rule that)
  obtain d2 where "dictFetchValue d1 k' = Some (dict_map d1 k', d2)" "dict_inv d2" "dict_map d2 = dict_map d1"
    using dbkeys.map_find [OF d1(2,3)] by blast
  with d1 dictSdsKeyCompare_eq [OF assms(4,3)] show ?thesis by auto
qed

theorem dictReplace_fetch_witness:
  "\<exists>d1 d2. dictReplace True db_example 1 0 (lit ''key'') 42 = Some (True, [], d1) \<and>
     dictFetchValue d1 (lit ''key'') = Some (Some 42, d2)"
  using dictReplace_fetch [OF db_example_ok(1,2) _ _ db_example_ok(3), of "lit ''key''" "lit ''key''" True 1 0 42]
  by (auto simp: db_example_ok(4) lit_def)

text \<open>C30. Deleting reports whether the key was there, removes it and leaves every other key; the key and the
  value destructors get exactly the entry's key and value before it is freed. A put of a new key followed by
  its deletion gives the same map.\<close>

theorem dictDelete_correct:
  assumes "dict_inv d" and "d_type d = dbDictType seed" and "length k < 2 ^ 31"
  shows "\<exists>rel d'. dictDelete d k = Some (dict_map d k \<noteq> None, rel, d') \<and> dict_inv d' \<and> dict_map d' k = None \<and>
     (\<forall>k'. length k' < 2 ^ 31 \<and> k' \<noteq> k \<longrightarrow> dict_map d' k' = dict_map d k') \<and>
     (case dict_map d k of None \<Rightarrow> rel = []
      | Some v \<Rightarrow> \<exists>e \<in> set (dict_entries d). de_val e = v \<and> rel = [FreeKey (de_key e), FreeVal v, FreeEntry (de_addr e)]) \<and>
     (dict_map d k = None \<and> dict_room d a \<longrightarrow>
        (\<exists>d1 d2. dict_put can d a k v = Some d1 \<and> dict_del d1 k = Some (True, d2) \<and> dict_map d2 = dict_map d))"
proof -
  obtain rel d' where d': "dictDelete d k = Some (dict_map d k \<noteq> None, rel, d')" "dict_inv d'"
      "dict_map d' = (\<lambda>k'. if dictSdsKeyCompare k' k then None else dict_map d k')"
    using dbkeys.map_delete [OF assms(1,2), of k False, unfolded db_same, folded dictDelete_def]
    by - (elim exE conjE, rule that)
  note refl = dictSdsKeyCompare_refl [of k]
  have A: "dict_map d' k = None" "\<forall>k'. length k' < 2 ^ 31 \<and> k' \<noteq> k \<longrightarrow> dict_map d' k' = dict_map d k'"
    using d'(3) refl db_other [OF assms(3)] by auto
  have B: "case dict_map d k of None \<Rightarrow> rel = []
      | Some v \<Rightarrow> \<exists>e \<in> set (dict_entries d). de_val e = v \<and> rel = [FreeKey (de_key e), FreeVal v, FreeEntry (de_addr e)]"
  proof (cases "dict_map d k")
    case None
    then show ?thesis using dbkeys.dictGenericDelete_ok [OF assms(1,2), of k False, unfolded db_same] d'(1) by (auto simp: dictDelete_def)
  next
    case (Some w)
    then obtain e where e: "dictSdsKeyCompare k (de_key e)" "dict_mset d = add_mset e (dict_mset d')"
        "rel = entry_release (dbDictType seed) False e"
      using dbkeys.dictGenericDelete_ok [OF assms(1,2), of k False, unfolded db_same] d'(1) by (auto simp: dictDelete_def)
    have "e \<in># dict_mset d" by (simp only: e(2)) simp
    then have "dict_map d k = Some (de_val e)"
      using dict_map_Some [OF inv_keys_once [OF assms(1)], of k, unfolded assms(2) db_same] e(1) by blast
    with Some \<open>e \<in># dict_mset d\<close> e(3) show ?thesis
      by (auto simp: entry_release_def dictFreeKey_def dictFreeVal_def db_valDestructor)
  qed
  have C: "\<exists>d1 d2. dict_put can d a k v = Some d1 \<and> dict_del d1 k = Some (True, d2) \<and> dict_map d2 = dict_map d"
    if none: "dict_map d k = None" "dict_room d a"
  proof -
    have of: "dict_of (dbDictType seed) d" using assms by (simp add: dict_of_def)
    have "dict_map d k' = None" if "dictSdsKeyCompare k' k" for k'
      using none(1) that dict_map_None [of d] by (auto simp: assms(2) db_same dictSdsKeyCompare_iff)
    from dbkeys.store.put_then_del [where k = k and can = can and v = v, OF of none(2), unfolded db_same, OF this] show ?thesis by blast
  qed
  from d'(1,2) A B C show ?thesis by (intro exI [of _ rel] exI [of _ d']) simp
qed

theorem dictDelete_correct_witness:
  "\<exists>rel d'. dictDelete db_example (lit ''key'') = Some (False, rel, d') \<and>
     (\<exists>d1 d2. dict_put True db_example 1 (lit ''key'') 7 = Some d1 \<and> dict_del d1 (lit ''key'') = Some (True, d2))"
  using dictDelete_correct [OF db_example_ok(1,2), of "lit ''key''" 1 True 7]
  by (auto simp: db_example_ok lit_def)

text \<open>The case-insensitive tables compare their keys up to the first zero byte and hash all of them, so
  equal keys can have different hashes: the law the dictionary needs fails for binary keys, although it
  holds for all strings without a zero byte.\<close>

theorem case_keys_law:
  "(\<exists>k1 k2. sameKey (commandTableDictType 5381) k1 k2 \<and>
      hashFunction (commandTableDictType 5381) k1 \<noteq> hashFunction (commandTableDictType 5381) k2) \<and>
   (\<forall>seed k1 k2. cstring k1 \<and> cstring k2 \<and> sameKey (commandTableDictType seed) k1 k2 \<longrightarrow>
      hashFunction (commandTableDictType seed) k1 = hashFunction (commandTableDictType seed) k2)"
proof (rule conjI)
  have "sameKey (commandTableDictType 5381) [103] [103, 0, 1]"
    by (simp add: sameKey_def dictCompareKeys_def commandTableDictType_def dictSdsKeyCaseCompare_def to_nul_def)
  moreover have "hashFunction (commandTableDictType 5381) [103] \<noteq> hashFunction (commandTableDictType 5381) [103, 0, 1]"
    by (simp add: commandTableDictType_def dictSdsCaseHash_def dictGenCaseHashFunction_def sdslen_int_def s32_id tolower_def)
  ultimately show "\<exists>k1 k2. sameKey (commandTableDictType 5381) k1 k2 \<and>
      hashFunction (commandTableDictType 5381) k1 \<noteq> hashFunction (commandTableDictType 5381) k2" by blast
next
  have "to_nul k = k" if "cstring k" for k using that by (auto simp: cstring_def to_nul_def takeWhile_eq_all_conv)
  then show "\<forall>seed k1 k2. cstring k1 \<and> cstring k2 \<and> sameKey (commandTableDictType seed) k1 k2 \<longrightarrow>
      hashFunction (commandTableDictType seed) k1 = hashFunction (commandTableDictType seed) k2"
    by (auto simp: sameKey_def dictCompareKeys_def commandTableDictType_def dictSdsKeyCaseCompare_def intro: case_hash_cong)
qed

theorem case_keys_law_witness:
  "hashFunction (commandTableDictType 7) (lit ''GET'') = hashFunction (commandTableDictType 7) (lit ''get'')"
proof -
  have "cstring (lit ''GET'')" "cstring (lit ''get'')" "sameKey (commandTableDictType 7) (lit ''GET'') (lit ''get'')"
    by code_simp+
  with case_keys_law show ?thesis by blast
qed

end
