(* ===== verification/DictIter.thy ===== *)
theory DictIter
  imports DictType
begin

text \<open>
  Iterators and random sampling of \<^verbatim>\<open>dict.c\<close>. An iterator holds the table and bucket it is in, the
  entry it returned last and the entry saved as the next one; both are entry addresses, so an entry
  deleted in between leaves a dangling pointer, and following one is \<open>None\<close>. The addresses of the
  two bucket arrays, which the fingerprint hashes, and the results of \<open>random()\<close> are arguments.

  The lemmas describe what an iterator has still to return (\<open>pending\<close>): each call of \<open>dictNext\<close>
  returns its head, and deleting the returned entry with a safe iterator does not change it.
\<close>

unbundle bit_operations_syntax

section \<open>Iterators\<close>

record dictIterator =
  it_table :: nat
  it_index :: int
  it_safe :: bool
  it_entry :: "nat option"
  it_next :: "nat option"
  it_fingerprint :: "64 word"

definition dictGetIterator :: dictIterator where
  "dictGetIterator = \<lparr>it_table = 0, it_index = -1, it_safe = False, it_entry = None, it_next = None, it_fingerprint = 0\<rparr>"

definition dictGetSafeIterator :: dictIterator where
  "dictGetSafeIterator = dictGetIterator\<lparr>it_safe := True\<rparr>"

text \<open>One round of the hash; \<open>>>\<close> on the signed type copies the sign bit.\<close>

definition wang_step :: "64 word \<Rightarrow> 64 word" where
  "wang_step hash =
     (let hash = NOT hash + push_bit 21 hash;
          hash = hash XOR signed_drop_bit 24 hash;
          hash = (hash + push_bit 3 hash) + push_bit 8 hash;
          hash = hash XOR signed_drop_bit 14 hash;
          hash = (hash + push_bit 2 hash) + push_bit 4 hash;
          hash = hash XOR signed_drop_bit 28 hash
      in hash + push_bit 31 hash)"

definition dictFingerprint :: "64 word \<times> 64 word \<Rightarrow> ('k, 'v) dict \<Rightarrow> 64 word" where
  "dictFingerprint tabs d =
     foldl (\<lambda>hash i. wang_step (hash + i)) 0
       [fst tabs, of_nat (ht_size (d_ht0 d)), of_nat (ht_used (d_ht0 d)),
        snd tabs, of_nat (ht_size (d_ht1 d)), of_nat (ht_used (d_ht1 d))]"

text \<open>\<open>entry->next\<close> of the entry with address \<open>a\<close>.\<close>

fun chain_next :: "nat \<Rightarrow> ('k, 'v) dictEntry list \<Rightarrow> nat option option" where
  "chain_next a [] = None"
| "chain_next a (e # es) =
     (if de_addr e = a then Some (case es of [] \<Rightarrow> None | e' # _ \<Rightarrow> Some (de_addr e')) else chain_next a es)"

definition entry_chain :: "('k, 'v) dict \<Rightarrow> nat \<Rightarrow> ('k, 'v) dictEntry list option" where
  "entry_chain d a = List.find (\<lambda>ch. a \<in> de_addr ` set ch) (ht_table (d_ht0 d) @ ht_table (d_ht1 d))"

definition entry_next :: "('k, 'v) dict \<Rightarrow> nat \<Rightarrow> nat option option" where
  "entry_next d a = do { ch \<leftarrow> entry_chain d a; chain_next a ch }"

definition head_addr :: "('k, 'v) dictEntry list \<Rightarrow> nat option" where
  "head_addr ch = (case ch of [] \<Rightarrow> None | e # _ \<Rightarrow> Some (de_addr e))"

definition it_ht :: "('k, 'v) dict \<Rightarrow> nat \<Rightarrow> ('k, 'v) dictht" where
  "it_ht d t = (if t = 0 then d_ht0 d else d_ht1 d)"

definition iter_start :: "64 word \<times> 64 word \<Rightarrow> ('k, 'v) dict \<Rightarrow> dictIterator \<Rightarrow> ('k, 'v) dict \<times> dictIterator" where
  "iter_start tabs d iter =
     (if it_index iter = -1 \<and> it_table iter = 0 then
        (if it_safe iter then (d\<lparr>d_iterators := d_iterators d + 1\<rparr>, iter)
         else (d, iter\<lparr>it_fingerprint := dictFingerprint tabs d\<rparr>))
      else (d, iter))"

lemma iter_start_simps [simp]:
  "d_ht0 (fst (iter_start tabs d iter)) = d_ht0 d" "d_ht1 (fst (iter_start tabs d iter)) = d_ht1 d"
  "it_table (snd (iter_start tabs d iter)) = it_table iter" "it_index (snd (iter_start tabs d iter)) = it_index iter"
  "it_entry (snd (iter_start tabs d iter)) = it_entry iter" "it_next (snd (iter_start tabs d iter)) = it_next iter"
  "it_safe (snd (iter_start tabs d iter)) = it_safe iter" "d_rehashidx (fst (iter_start tabs d iter)) = d_rehashidx d"
  "d_type (fst (iter_start tabs d iter)) = d_type d"
  by (simp_all add: iter_start_def)

text \<open>The move to the next bucket: \<open>None\<close> inside is the end of the iteration.\<close>

definition iter_bucket :: "('k, 'v) dict \<Rightarrow> dictIterator \<Rightarrow> dictIterator option" where
  "iter_bucket d iter =
     (if it_index iter + 1 \<ge> int (ht_size (it_ht d (it_table iter))) then
        (if dictIsRehashing d \<and> it_table iter = 0
         then Some (iter\<lparr>it_table := it_table iter + 1, it_index := 0\<rparr>) else None)
      else Some (iter\<lparr>it_index := it_index iter + 1\<rparr>))"

text \<open>Buckets left, the measure of the loop.\<close>

definition iter_left :: "('k, 'v) dict \<Rightarrow> dictIterator \<Rightarrow> nat" where
  "iter_left d iter = 2 * (nat (int (ht_size (it_ht d (it_table iter))) - it_index iter) +
      (if it_table iter = 0 then ht_size (d_ht1 d) + 1 else 0)) + (if it_entry iter = None then 0 else 1)"

lemma iter_bucket_left:
  "iter_bucket d iter = Some iter' \<Longrightarrow> it_entry iter = None \<Longrightarrow>
    iter_left d (iter'\<lparr>it_entry := None\<rparr>) < iter_left d iter"
  by (auto simp: iter_bucket_def iter_left_def it_ht_def split: if_splits)

function dictNext :: "64 word \<times> 64 word \<Rightarrow> ('k, 'v) dict \<Rightarrow> dictIterator \<Rightarrow>
    (nat option \<times> ('k, 'v) dict \<times> dictIterator) option" where
  "dictNext tabs d iter =
     (case it_entry iter of
        None \<Rightarrow>
          (case iter_bucket d (snd (iter_start tabs d iter)) of
             None \<Rightarrow> Some (None, fst (iter_start tabs d iter),
                       (snd (iter_start tabs d iter))\<lparr>it_index := it_index iter + 1\<rparr>)
           | Some iter' \<Rightarrow> do {
               ch \<leftarrow> bucket (it_ht d (it_table iter')) (nat (it_index iter'));
               case head_addr ch of
                 None \<Rightarrow> dictNext tabs (fst (iter_start tabs d iter)) iter'
               | Some a \<Rightarrow> do {
                   n \<leftarrow> entry_next d a;
                   Some (Some a, fst (iter_start tabs d iter), iter'\<lparr>it_entry := Some a, it_next := n\<rparr>)
                 }
             })
      | Some _ \<Rightarrow>
          (case it_next iter of
             None \<Rightarrow> dictNext tabs d (iter\<lparr>it_entry := None\<rparr>)
           | Some a \<Rightarrow> do {
               n \<leftarrow> entry_next d a;
               Some (Some a, d, iter\<lparr>it_entry := Some a, it_next := n\<rparr>)
             }))"
  by pat_completeness auto
termination
proof (relation "measure (\<lambda>(tabs, d, iter). iter_left d iter)", goal_cases)
  case (2 tabs d iter iter' ch)
  have "iter_left d (iter'\<lparr>it_entry := None\<rparr>) < iter_left d (snd (iter_start tabs d iter))"
    using 2 by (intro iter_bucket_left) simp_all
  moreover have "iter'\<lparr>it_entry := None\<rparr> = iter'" using 2 by (auto simp: iter_bucket_def split: if_splits)
  moreover have "iter_left d (snd (iter_start tabs d iter)) = iter_left d iter" by (simp add: iter_left_def)
  moreover have "iter_left (fst (iter_start tabs d iter)) iter' = iter_left d iter'"
    by (simp add: iter_left_def it_ht_def)
  ultimately show ?case by simp
qed (simp_all add: iter_left_def it_ht_def)

declare dictNext.simps [simp del]

text \<open>A failing assertion is \<open>None\<close>.\<close>

definition dictReleaseIterator :: "64 word \<times> 64 word \<Rightarrow> ('k, 'v) dict \<Rightarrow> dictIterator \<Rightarrow> ('k, 'v) dict option" where
  "dictReleaseIterator tabs d iter =
     (if \<not> (it_index iter = -1 \<and> it_table iter = 0) then
        (if it_safe iter then Some (d\<lparr>d_iterators := d_iterators d - 1\<rparr>)
         else if it_fingerprint iter = dictFingerprint tabs d then Some d else None)
      else Some d)"

section \<open>What an iterator has still to return\<close>

definition iter_wf :: "('k, 'v) dict \<Rightarrow> bool" where
  "iter_wf d \<longleftrightarrow> length (ht_table (d_ht0 d)) = ht_size (d_ht0 d) \<and> length (ht_table (d_ht1 d)) = ht_size (d_ht1 d) \<and>
     (dictIsRehashing d \<longrightarrow> 0 < ht_size (d_ht1 d)) \<and> distinct (map de_addr (dict_entries d))"

definition iter_ok :: "('k, 'v) dict \<Rightarrow> dictIterator \<Rightarrow> bool" where
  "iter_ok d it \<longleftrightarrow> it_table it \<le> 1 \<and> (it_table it = 1 \<longrightarrow> dictIsRehashing d) \<and> - 1 \<le> it_index it \<and>
     (it_table it = 1 \<longrightarrow> 0 \<le> it_index it) \<and>
     (it_entry it \<noteq> None \<longrightarrow> 0 \<le> it_index it \<and> it_index it < int (ht_size (it_ht d (it_table it))) \<and>
        (\<forall>a. it_next it = Some a \<longrightarrow> a \<in> de_addr ` set (ht_table (it_ht d (it_table it)) ! nat (it_index it))))"

definition from_addr :: "nat option \<Rightarrow> ('k, 'v) dictEntry list \<Rightarrow> ('k, 'v) dictEntry list" where
  "from_addr n ch = (case n of None \<Rightarrow> [] | Some a \<Rightarrow> dropWhile (\<lambda>e. de_addr e \<noteq> a) ch)"

definition later_buckets :: "('k, 'v) dict \<Rightarrow> nat \<Rightarrow> int \<Rightarrow> ('k, 'v) dictEntry list" where
  "later_buckets d t i = concat (drop (nat (i + 1)) (ht_table (it_ht d t))) @
     (if t = 0 \<and> dictIsRehashing d then concat (ht_table (d_ht1 d)) else [])"

definition pending :: "('k, 'v) dict \<Rightarrow> dictIterator \<Rightarrow> ('k, 'v) dictEntry list" where
  "pending d it =
     (if it_entry it = None then [] else from_addr (it_next it) (ht_table (it_ht d (it_table it)) ! nat (it_index it))) @
     later_buckets d (it_table it) (it_index it)"

lemma iter_start_inv [simp]:
  "dictIsRehashing (fst (iter_start tabs d it)) = dictIsRehashing d" "it_ht (fst (iter_start tabs d it)) t = it_ht d t"
  "iter_wf (fst (iter_start tabs d it)) = iter_wf d"
  "entry_next (fst (iter_start tabs d it)) a = entry_next d a"
  "later_buckets (fst (iter_start tabs d it)) t i = later_buckets d t i"
  "pending (fst (iter_start tabs d it)) it' = pending d it'"
  "iter_ok (fst (iter_start tabs d it)) it' = iter_ok d it'"
  by (simp_all add: dictIsRehashing_def it_ht_def iter_wf_def entry_next_def entry_chain_def dict_entries_def
    later_buckets_def pending_def iter_ok_def)

lemma from_addr_next:
  "distinct (map de_addr ch) \<Longrightarrow> dropWhile (\<lambda>e. de_addr e \<noteq> a) ch = e # es \<Longrightarrow>
    de_addr e = a \<and> chain_next a ch = Some (head_addr es) \<and> from_addr (head_addr es) ch = es \<and> set es \<subseteq> set ch"
proof (induction ch)
  case (Cons x xs)
  show ?case
  proof (cases "de_addr x = a")
    case True
    then have "e = x" "es = xs" using Cons.prems by simp_all
    then show ?thesis using Cons.prems True
      by (cases xs) (auto simp: head_addr_def from_addr_def)
  next
    case False
    then have IH: "de_addr e = a" "chain_next a xs = Some (head_addr es)" "from_addr (head_addr es) xs = es" "set es \<subseteq> set xs"
      using Cons by simp_all
    have "from_addr (head_addr es) (x # xs) = es"
    proof (cases es)
      case (Cons y ys)
      then have "de_addr x \<noteq> de_addr y" using Cons.prems(1) IH(4) \<open>distinct (map de_addr (x # xs))\<close> by auto
      then show ?thesis using IH(3) Cons by (simp add: from_addr_def head_addr_def)
    qed (simp add: from_addr_def head_addr_def)
    then show ?thesis using IH False by auto
  qed
qed simp

lemma find_chain:
  "distinct (map f (concat tbs)) \<Longrightarrow> i < length tbs \<Longrightarrow> a \<in> f ` set (tbs ! i) \<Longrightarrow>
    List.find (\<lambda>ch. a \<in> f ` set ch) tbs = Some (tbs ! i)"
proof (induction tbs arbitrary: i)
  case (Cons t tbs)
  show ?case
  proof (cases i)
    case 0
    then show ?thesis using Cons.prems by simp
  next
    case (Suc j)
    then have j: "j < length tbs" "a \<in> f ` set (tbs ! j)" using Cons.prems by simp_all
    then have "a \<in> f ` set (concat tbs)" by (metis (no_types, lifting) UN_iff image_iff nth_mem set_concat)
    then have "a \<notin> f ` set t" using Cons.prems(1) by auto
    then show ?thesis using Cons j Suc by simp
  qed
qed simp

lemma entry_chain_at:
  assumes w: "iter_wf d" and t: "t \<le> 1" and i: "i < ht_size (it_ht d t)"
    and a: "a \<in> de_addr ` set (ht_table (it_ht d t) ! i)"
  shows "entry_chain d a = Some (ht_table (it_ht d t) ! i)"
proof -
  let ?tb = "ht_table (d_ht0 d) @ ht_table (d_ht1 d)"
  have dist: "distinct (map de_addr (concat ?tb))" using w by (simp add: iter_wf_def dict_entries_def)
  define k where "k = (if t = 0 then i else ht_size (d_ht0 d) + i)"
  have "k < length ?tb" "?tb ! k = ht_table (it_ht d t) ! i"
    using w t i by (auto simp: k_def iter_wf_def it_ht_def nth_append)
  then show ?thesis using find_chain [OF dist, of k a] a by (simp add: entry_chain_def)
qed

lemma distinct_bucket:
  assumes w: "iter_wf d" and t: "t \<le> 1" and i: "i < ht_size (it_ht d t)"
  shows "distinct (map de_addr (ht_table (it_ht d t) ! i))"
proof -
  have "distinct (map de_addr (concat (ht_table (it_ht d t))))"
    using w by (auto simp: iter_wf_def dict_entries_def it_ht_def)
  moreover have "ht_table (it_ht d t) ! i \<in> set (ht_table (it_ht d t))"
    using w i by (auto simp: iter_wf_def it_ht_def)
  then obtain as bs where "ht_table (it_ht d t) = as @ ht_table (it_ht d t) ! i # bs" by (meson split_list)
  then have "concat (ht_table (it_ht d t)) = concat as @ ht_table (it_ht d t) ! i @ concat bs"
    by (metis concat.simps(2) concat_append)
  ultimately show ?thesis by simp
qed

text \<open>The step inside a chain.\<close>

lemma entry_next_at:
  assumes w: "iter_wf d" and t: "t \<le> 1" and i: "i < ht_size (it_ht d t)"
    and s: "dropWhile (\<lambda>e. de_addr e \<noteq> a) (ht_table (it_ht d t) ! i) = e # es"
  shows "entry_next d a = Some (head_addr es)" "de_addr e = a" "from_addr (head_addr es) (ht_table (it_ht d t) ! i) = es"
    "\<forall>b. head_addr es = Some b \<longrightarrow> b \<in> de_addr ` set (ht_table (it_ht d t) ! i)"
proof -
  note F = from_addr_next [OF distinct_bucket [OF w t i] s]
  have "e \<in> set (ht_table (it_ht d t) ! i)" by (metis set_dropWhileD list.set_intros(1) s)
  then have "a \<in> de_addr ` set (ht_table (it_ht d t) ! i)" using F by auto
  from entry_chain_at [OF w t i this] F
  show "entry_next d a = Some (head_addr es)" by (simp add: entry_next_def)
  show "de_addr e = a" "from_addr (head_addr es) (ht_table (it_ht d t) ! i) = es" using F by auto
  show "\<forall>b. head_addr es = Some b \<longrightarrow> b \<in> de_addr ` set (ht_table (it_ht d t) ! i)"
    using F by (cases es) (auto simp: head_addr_def)
qed

text \<open>The iterator stands on the entry \<open>e\<close> it has returned.\<close>

definition iter_at :: "('k, 'v) dict \<Rightarrow> dictIterator \<Rightarrow> ('k, 'v) dictEntry \<Rightarrow> bool" where
  "iter_at d it e \<longleftrightarrow> it_entry it = Some (de_addr e) \<and>
     (\<exists>xs ys. ht_table (it_ht d (it_table it)) ! nat (it_index it) = xs @ e # ys \<and> it_next it = head_addr ys)"

definition next_post :: "('k, 'v) dict \<Rightarrow> ('k, 'v) dictEntry list \<Rightarrow> nat option \<Rightarrow> dictIterator \<Rightarrow> bool" where
  "next_post d p r it' \<longleftrightarrow>
     (case p of
        [] \<Rightarrow> r = None
      | e # p' \<Rightarrow> r = Some (de_addr e) \<and> pending d it' = p' \<and> iter_ok d it' \<and> iter_at d it' e)"

lemma next_post_start [simp]: "next_post (fst (iter_start tabs d it)) p r it' = next_post d p r it'"
  by (simp add: next_post_def iter_at_def split: list.split)

definition next_result :: "64 word \<times> 64 word \<Rightarrow> ('k, 'v) dict \<Rightarrow> dictIterator \<Rightarrow> bool" where
  "next_result tabs d it \<longleftrightarrow>
     (\<exists>r it'. dictNext tabs d it = Some (r, fst (iter_start tabs d it), it') \<and> it_safe it' = it_safe it \<and> 0 \<le> it_index it' \<and>
        it_fingerprint it' = it_fingerprint (snd (iter_start tabs d it)) \<and> next_post d (pending d it) r it')"

lemma iter_bucket_ok:
  assumes w: "iter_wf d" and ok: "iter_ok d it" and e: "it_entry it = None"
  shows "(iter_bucket d it = None \<and> pending d it = []) \<or>
    (\<exists>it'. iter_bucket d it = Some it' \<and> it_table it' \<le> 1 \<and> 0 \<le> it_index it' \<and> it_entry it' = None \<and>
      it_safe it' = it_safe it \<and> it_fingerprint it' = it_fingerprint it \<and>
      nat (it_index it') < ht_size (it_ht d (it_table it')) \<and> (it_table it' = 1 \<longrightarrow> dictIsRehashing d) \<and>
      pending d it = ht_table (it_ht d (it_table it')) ! nat (it_index it') @ later_buckets d (it_table it') (it_index it'))"
proof (cases "it_index it + 1 \<ge> int (ht_size (it_ht d (it_table it)))")
  case True
  then have d0: "concat (drop (nat (it_index it + 1)) (ht_table (it_ht d (it_table it)))) = []"
    using w by (auto simp: iter_wf_def it_ht_def split: if_splits)
  show ?thesis
  proof (cases "dictIsRehashing d \<and> it_table it = 0")
    case R: True
    then have "0 < length (ht_table (d_ht1 d))" using w by (auto simp: iter_wf_def)
    then have "concat (ht_table (d_ht1 d)) = ht_table (d_ht1 d) ! 0 @ concat (drop (Suc 0) (ht_table (d_ht1 d)))"
      by (metis Cons_nth_drop_Suc concat.simps(2) drop0)
    then show ?thesis using True R d0 e w
      by (auto simp: iter_bucket_def pending_def later_buckets_def it_ht_def iter_wf_def)
  next
    case R: False
    then show ?thesis using True d0 e ok
      by (auto simp: iter_bucket_def pending_def later_buckets_def iter_ok_def)
  qed
next
  case False
  let ?i = "nat (it_index it + 1)" and ?tb = "ht_table (it_ht d (it_table it))"
  have i: "?i < length ?tb" using False w ok by (auto simp: iter_wf_def it_ht_def iter_ok_def split: if_splits)
  then have "concat (drop ?i ?tb) = ?tb ! ?i @ concat (drop (Suc ?i) ?tb)"
    by (metis Cons_nth_drop_Suc concat.simps(2))
  moreover have "nat (it_index it + 1 + 1) = Suc ?i" using ok by (auto simp: iter_ok_def)
  ultimately show ?thesis using False e ok i w
    by (auto simp: iter_bucket_def pending_def later_buckets_def iter_ok_def)
qed

lemma dictNext_ok: "iter_wf d \<Longrightarrow> iter_ok d it \<Longrightarrow> next_result tabs d it"
proof (induction tabs d it rule: dictNext.induct)
  case (1 tabs d it)
  note S = dictNext.simps [of tabs d it]
  let ?d = "fst (iter_start tabs d it)" and ?it = "snd (iter_start tabs d it)"
  show ?case
  proof (cases "it_entry it")
    case None
    have ok1: "iter_ok d ?it" using "1.prems"(2) by (simp add: iter_ok_def)
    have p1: "pending d ?it = pending d it" by (simp add: pending_def)
    have "it_entry ?it = None" using None by simp
    from iter_bucket_ok [OF "1.prems"(1) ok1 this] consider
      (stop) "iter_bucket d ?it = None" "pending d it = []"
      | (go) it' where "iter_bucket d ?it = Some it'" "it_table it' \<le> 1" "0 \<le> it_index it'" "it_entry it' = None"
        "it_safe it' = it_safe it" "it_fingerprint it' = it_fingerprint ?it"
        "nat (it_index it') < ht_size (it_ht d (it_table it'))" "it_table it' = 1 \<longrightarrow> dictIsRehashing d"
        "pending d it = ht_table (it_ht d (it_table it')) ! nat (it_index it') @ later_buckets d (it_table it') (it_index it')"
      unfolding p1 by auto
    then show ?thesis
    proof cases
      case stop
      have "0 \<le> it_index it + 1" using "1.prems"(2) by (simp add: iter_ok_def)
      then show ?thesis using None stop unfolding next_result_def S by (simp add: next_post_def)
    next
      case go
      let ?ch = "ht_table (it_ht d (it_table it')) ! nat (it_index it')"
      have b: "bucket (it_ht d (it_table it')) (nat (it_index it')) = Some ?ch"
        using go "1.prems"(1) by (auto simp: bucket_def iter_wf_def it_ht_def)
      show ?thesis
      proof (cases ?ch)
        case Nil
        have ok': "iter_ok ?d it'" using go by (simp add: iter_ok_def)
        have "next_result tabs ?d it'"
          using "1.IH"(1) [OF None go(1) b] Nil "1.prems"(1) ok' by (simp add: head_addr_def)
        moreover have "iter_start tabs ?d it' = (?d, it')" using go(3) by (simp add: iter_start_def)
        moreover have "pending d it' = pending d it" using go Nil by (simp add: pending_def)
        ultimately show ?thesis using None go Nil b unfolding next_result_def S
          by (simp add: head_addr_def)
      next
        case (Cons e es)
        have s: "dropWhile (\<lambda>x. de_addr x \<noteq> de_addr e) ?ch = e # es" using Cons by simp
        note N = entry_next_at [OF "1.prems"(1) go(2) go(7) s]
        let ?r = "it'\<lparr>it_entry := Some (de_addr e), it_next := head_addr es\<rparr>"
        have "iter_ok d ?r" using go N(4) by (auto simp: iter_ok_def)
        moreover have "pending d ?r = es @ later_buckets d (it_table it') (it_index it')" using N(3) by (simp add: pending_def)
        moreover have "dictNext tabs d it = Some (Some (de_addr e), ?d, ?r)"
          using None go(1) b Cons N(1) unfolding S by (simp add: head_addr_def)
        moreover have "iter_at d ?r e" using Cons by (auto simp: iter_at_def intro: exI [of _ "[]"])
        ultimately show ?thesis unfolding next_result_def go(9) using Cons go by (simp add: next_post_def)
      qed
    qed
  next
    case (Some x)
    have idx: "0 \<le> it_index it" "it_index it < int (ht_size (it_ht d (it_table it)))" "it_table it \<le> 1"
      using "1.prems"(2) Some by (auto simp: iter_ok_def)
    have st: "iter_start tabs d it = (d, it)" using idx by (simp add: iter_start_def)
    show ?thesis
    proof (cases "it_next it")
      case None
      let ?r = "it\<lparr>it_entry := None\<rparr>"
      have "next_result tabs d ?r"
        using "1.IH"(2) [OF Some None] "1.prems" by (simp add: iter_ok_def)
      moreover have "pending d ?r = pending d it" using Some None by (simp add: pending_def from_addr_def)
      moreover have "iter_start tabs d ?r = (d, ?r)" using idx by (simp add: iter_start_def)
      ultimately show ?thesis using Some None st unfolding next_result_def S by simp
    next
      case n: (Some a)
      let ?ch = "ht_table (it_ht d (it_table it)) ! nat (it_index it)"
      have i: "nat (it_index it) < ht_size (it_ht d (it_table it))" using idx by simp
      have "a \<in> de_addr ` set ?ch" using "1.prems"(2) Some n by (simp add: iter_ok_def)
      then have "dropWhile (\<lambda>e. de_addr e \<noteq> a) ?ch \<noteq> []" by auto
      then obtain e es where s: "dropWhile (\<lambda>e. de_addr e \<noteq> a) ?ch = e # es" by (cases "dropWhile (\<lambda>e. de_addr e \<noteq> a) ?ch") auto
      note N = entry_next_at [OF "1.prems"(1) idx(3) i s]
      let ?r = "it\<lparr>it_entry := Some a, it_next := head_addr es\<rparr>"
      have p: "pending d it = e # es @ later_buckets d (it_table it) (it_index it)"
        using Some n s by (simp add: pending_def from_addr_def)
      have "iter_ok d ?r" using "1.prems"(2) N(4) Some by (auto simp: iter_ok_def)
      moreover have "pending d ?r = es @ later_buckets d (it_table it) (it_index it)" using N(3) by (simp add: pending_def)
      moreover have "dictNext tabs d it = Some (Some a, d, ?r)" using Some n N(1) unfolding S by simp
      moreover have "?ch = takeWhile (\<lambda>e. de_addr e \<noteq> a) ?ch @ e # es" using s by (metis takeWhile_dropWhile_id)
      then have "iter_at d ?r e" using N(2) by (auto simp: iter_at_def)
      ultimately show ?thesis unfolding next_result_def p using st N(2) idx by (simp add: next_post_def)
    qed
  qed
qed

section \<open>Deleting the returned entry\<close>

lemma distinct_map_mset: "(\<forall>a. size {#e \<in># mset l. f e = a#} \<le> 1) \<Longrightarrow> distinct (map f l)"
proof (induction l)
  case (Cons x l)
  have "f x \<notin> f ` set l"
  proof
    assume "f x \<in> f ` set l"
    then obtain y where y: "y \<in># mset l" "f y = f x" by auto
    then have "y \<in># {#e \<in># mset l. f e = f x#}" by simp
    then have "{#e \<in># mset l. f e = f x#} \<noteq> {#}" by (metis empty_not_add_mset insert_DiffM)
    then have "1 \<le> size {#e \<in># mset l. f e = f x#}" using nonempty_has_size by (metis One_nat_def Suc_leI)
    then show False using Cons.prems [rule_format, of "f x"] y by simp
  qed
  moreover have "\<forall>a. size {#e \<in># mset l. f e = a#} \<le> 1"
    using Cons.prems by (metis (no_types, lifting) filter_mset_add_mset mset.simps(2) order_trans size_add_mset le_add2 plus_1_eq_Suc)
  ultimately show ?case using Cons.IH by simp
qed simp

lemma dict_inv_iter_wf: "dict_inv d \<Longrightarrow> iter_wf d"
  unfolding dict_inv_def iter_wf_def entries_ok_def
  by (intro conjI distinct_map_mset) (auto simp: ht_ok_def split: if_splits)

lemma chain_remove_at:
  "\<forall>x \<in> set xs. \<not> sameKey ty k (de_key x) \<Longrightarrow> sameKey ty k (de_key e) \<Longrightarrow>
    chain_remove ty k (xs @ e # ys) = Some (e, xs @ ys)"
  by (induction xs) auto

lemma chain_remove_none: "\<forall>x \<in> set ch. \<not> sameKey ty k (de_key x) \<Longrightarrow> chain_remove ty k ch = None"
  by (induction ch) auto

lemma from_addr_removed:
  "distinct (map de_addr (xs @ e # ys)) \<Longrightarrow>
    from_addr (head_addr ys) (xs @ ys) = from_addr (head_addr ys) (xs @ e # ys)"
proof (cases ys)
  case (Cons y zs)
  assume d: "distinct (map de_addr (xs @ e # ys))"
  have "de_addr y \<notin> de_addr ` set xs" using d Cons by auto
  then have "dropWhile (\<lambda>x. de_addr x \<noteq> de_addr y) (xs @ ws) = dropWhile (\<lambda>x. de_addr x \<noteq> de_addr y) ws" for ws
    by (intro dropWhile_append2) (metis imageI)
  then show ?thesis using d Cons by (simp add: from_addr_def head_addr_def)
qed (simp add: from_addr_def head_addr_def)

lemma others_differ:
  assumes inv: "dict_inv d" and ty: "d_type d = ty" and m: "dict_mset d = add_mset e M" and x: "x \<in># M"
  shows "\<not> sameKey ty (de_key e) (de_key x)"
proof
  assume s: "sameKey ty (de_key e) (de_key x)"
  have "{#y \<in># add_mset e M. sameKey ty (de_key e) (de_key y)#} =
      add_mset e {#y \<in># M. sameKey ty (de_key e) (de_key y)#}" by (simp add: sameKey_def)
  moreover have "0 < size {#y \<in># M. sameKey ty (de_key e) (de_key y)#}"
  proof -
    have "x \<in># {#y \<in># M. sameKey ty (de_key e) (de_key y)#}" using x s by simp
    then show ?thesis by (metis empty_not_add_mset insert_DiffM nonempty_has_size)
  qed
  ultimately show False
    using inv ty unfolding dict_inv_def entries_ok_def keys_once_def m
    by (metis One_nat_def Suc_le_mono le_zero_eq less_numeral_extra(3) size_add_mset)
qed

text \<open>The table after the bucket \<open>i\<close> lost the entry \<open>e\<close>.\<close>

lemma ht_remove_at:
  assumes ok: "ht_ok ty ht" and i: "i < ht_size ht" and b: "ht_table ht ! i = xs @ e # ys"
    and x: "\<forall>x \<in> set xs. \<not> sameKey ty (de_key e) (de_key x)"
  shows "ht_remove ty (de_key e) ht =
    Some (Some (e, ht\<lparr>ht_table := (ht_table ht)[i := xs @ ys], ht_used := ulong_dec (ht_used ht)\<rparr>))"
proof -
  have "ht_index ht (hashFunction ty (de_key e)) = i" "i < length (ht_table ht)" using ok i b by (auto simp: ht_ok_def)
  then show ?thesis
    using b chain_remove_at [OF x, of e ys] by (simp add: ht_remove_def bucket_def sameKey_def)
qed

lemma ht_remove_none:
  assumes ok: "ht_ok ty ht" and sz: "ht_size ht \<noteq> 0" and x: "\<forall>x \<in># ht_entries ht. \<not> sameKey ty k (de_key x)"
  shows "ht_remove ty k ht = Some None"
proof -
  let ?i = "ht_index ht (hashFunction ty k)"
  have i: "?i < ht_size ht" "?i < length (ht_table ht)" using ht_index_less [OF ok sz] ok by (auto simp: ht_ok_def)
  have "\<forall>x \<in> set (ht_table ht ! ?i). \<not> sameKey ty k (de_key x)" using x i(2) by auto
  then show ?thesis using i by (simp add: ht_remove_def bucket_def chain_remove_none)
qed

lemma pending_removed:
  assumes w: "iter_wf d" and ok: "iter_ok d it" and at: "iter_at d it e"
    and b: "ht_table (it_ht d (it_table it)) ! nat (it_index it) = xs @ e # ys" "it_next it = head_addr ys"
    and t: "ht_table (it_ht d' (it_table it)) = (ht_table (it_ht d (it_table it)))[nat (it_index it) := xs @ ys]"
    and o: "it_table it = 0 \<Longrightarrow> d_ht1 d' = d_ht1 d" "dictIsRehashing d' = dictIsRehashing d"
    and sz: "ht_size (it_ht d' (it_table it)) = ht_size (it_ht d (it_table it))"
  shows "pending d' it = pending d it \<and> iter_ok d' it"
proof -
  let ?tb = "ht_table (it_ht d (it_table it))" and ?i = "nat (it_index it)"
  have en: "it_entry it \<noteq> None" using at by (simp add: iter_at_def)
  have i: "?i < ht_size (it_ht d (it_table it))" "0 \<le> it_index it" "it_table it \<le> 1"
    using ok en by (auto simp: iter_ok_def)
  have il: "?i < length ?tb" using i w by (auto simp: iter_wf_def it_ht_def)
  have dist: "distinct (map de_addr (xs @ e # ys))" using distinct_bucket [OF w i(3) i(1)] b by simp
  have "nat (it_index it + 1) = Suc ?i" using i by simp
  then have "later_buckets d' (it_table it) (it_index it) = later_buckets d (it_table it) (it_index it)"
    using t o by (auto simp: later_buckets_def)
  moreover have "from_addr (it_next it) (ht_table (it_ht d' (it_table it)) ! ?i) = from_addr (it_next it) (?tb ! ?i)"
    using t il b from_addr_removed [OF dist] by simp
  moreover have "\<forall>a. it_next it = Some a \<longrightarrow> a \<in> de_addr ` set (ht_table (it_ht d' (it_table it)) ! ?i)"
    using t il b by (cases ys) (auto simp: head_addr_def)
  ultimately show ?thesis using en ok o sz by (auto simp: pending_def iter_ok_def)
qed

context dict_keys
begin

lemma delete_current:
  assumes inv: "dict_inv d" and ty: "d_type d = ty" and pin: "d_iterators d \<noteq> 0"
    and ok: "iter_ok d it" and at: "iter_at d it e"
  shows "\<exists>rel d'. dictDelete d (de_key e) = Some (True, rel, d') \<and> dict_inv d' \<and> d_type d' = ty \<and>
    d_iterators d' = d_iterators d \<and> dict_mset d = add_mset e (dict_mset d') \<and>
    pending d' it = pending d it \<and> iter_ok d' it"
proof -
  note w = dict_inv_iter_wf [OF inv]
  obtain xs ys where b: "ht_table (it_ht d (it_table it)) ! nat (it_index it) = xs @ e # ys" "it_next it = head_addr ys"
    and en: "it_entry it \<noteq> None" using at by (auto simp: iter_at_def)
  have i: "nat (it_index it) < ht_size (it_ht d (it_table it))" "it_table it \<le> 1"
    using ok en by (auto simp: iter_ok_def)
  have hok: "ht_ok ty (d_ht0 d)" "ht_ok ty (d_ht1 d)" using inv ty by (auto simp: dict_inv_def)
  have inb: "e \<in># ht_entries (it_ht d (it_table it))"
    using ht_bucket_entries [of ty "it_ht d (it_table it)" "nat (it_index it)" e] hok i b by (auto simp: it_ht_def)
  have ine: "e \<in># dict_mset d" using inb by (auto simp: dict_mset_split it_ht_def split: if_splits)
  obtain rel d' where D: "dictGenericDelete d (de_key e) False = Some (True, rel, d')" "dict_inv d'" "d_type d' = ty"
    "d_iterators d' = d_iterators d" "dict_mset d = add_mset e (dict_mset d')"
  proof -
    obtain okk rel d' where R: "dictGenericDelete d (de_key e) False = Some (okk, rel, d')" "dict_inv d'" "d_type d' = ty"
      "d_iterators d' = d_iterators d"
      "if okk then \<exists>e'. sameKey ty (de_key e) (de_key e') \<and> dict_mset d = add_mset e' (dict_mset d') \<and> rel = entry_release ty False e'
       else rel = [] \<and> dict_mset d' = dict_mset d \<and> (\<forall>x \<in># dict_mset d. \<not> sameKey ty (de_key e) (de_key x))"
      using dictGenericDelete_ok [OF inv ty] by blast
    have okk: okk using R(5) ine by (auto simp: sameKey_def split: if_splits)
    then obtain e' where e': "sameKey ty (de_key e) (de_key e')" "dict_mset d = add_mset e' (dict_mset d')" using R(5) by auto
    have "keys_once ty (dict_mset d)" using inv ty by (simp add: dict_inv_def entries_ok_def)
    then have "e' = e" using keys_onceD [of ty "dict_mset d" e e' "de_key e"] ine e' by (auto simp: sameKey_def)
    then show ?thesis using that [of rel d'] R okk e' by simp
  qed
  have uniq: "\<not> sameKey ty (de_key e) (de_key x)" if "x \<in># dict_mset d'" for x
    using others_differ [OF inv ty D(5) that] .
  have rest: "x \<in># dict_mset d \<Longrightarrow> x \<noteq> e \<Longrightarrow> x \<in># dict_mset d'" for x using D(5) by simp
  have dist: "distinct (map de_addr (xs @ e # ys))" using distinct_bucket [OF w i(2) i(1)] b by simp
  have xs: "\<forall>x \<in> set xs. \<not> sameKey ty (de_key e) (de_key x)"
  proof
    fix x assume x: "x \<in> set xs"
    have "x \<in># ht_entries (it_ht d (it_table it))"
      using ht_bucket_entries [of ty "it_ht d (it_table it)" "nat (it_index it)" x] hok i b x by (auto simp: it_ht_def)
    then have "x \<in># dict_mset d" by (auto simp: dict_mset_split it_ht_def split: if_splits)
    moreover have "x \<noteq> e" using dist x by auto
    ultimately show "\<not> sameKey ty (de_key e) (de_key x)" using uniq rest by blast
  qed
  have sz0: "ht_size (d_ht0 d) \<noteq> 0"
    using ht_entries_bucket [OF hok(1), of e] ok inb inv by (auto simp: it_ht_def iter_ok_def dict_inv_def split: if_splits)
  have rh: "rehash_if d = Some d" using pin by (simp add: rehash_if_def dictRehashStep_def)
  have "\<exists>ht. d' = (if it_table it = 0 then d\<lparr>d_ht0 := ht\<rparr> else d\<lparr>d_ht1 := ht\<rparr>) \<and>
      ht_table ht = (ht_table (it_ht d (it_table it)))[nat (it_index it) := xs @ ys] \<and> ht_size ht = ht_size (it_ht d (it_table it))"
  proof (cases "it_table it = 0")
    case True
    have R: "ht_remove ty (de_key e) (d_ht0 d) = Some (Some (e, (d_ht0 d)\<lparr>ht_table := (ht_table (d_ht0 d))[nat (it_index it) := xs @ ys],
        ht_used := ulong_dec (ht_used (d_ht0 d))\<rparr>))"
      using ht_remove_at [OF hok(1), of "nat (it_index it)" xs e ys] i b xs True by (simp add: it_ht_def)
    show ?thesis using D(1) sz0 rh R True ty by (auto simp: dictGenericDelete_def it_ht_def)
  next
    case False
    have t1: "it_table it = 1" "dictIsRehashing d" using False ok by (auto simp: iter_ok_def)
    have R: "ht_remove ty (de_key e) (d_ht1 d) = Some (Some (e, (d_ht1 d)\<lparr>ht_table := (ht_table (d_ht1 d))[nat (it_index it) := xs @ ys],
        ht_used := ulong_dec (ht_used (d_ht1 d))\<rparr>))"
      using ht_remove_at [OF hok(2), of "nat (it_index it)" xs e ys] i b xs False by (simp add: it_ht_def)
    have "x \<noteq> e" if "x \<in># ht_entries (d_ht0 d)" for x
      using w that inb False by (auto simp: iter_wf_def dict_entries_def it_ht_def)
    then have "ht_remove ty (de_key e) (d_ht0 d) = Some None"
      using uniq rest by (intro ht_remove_none [OF hok(1) sz0]) (auto simp: dict_mset_split)
    then show ?thesis using D(1) sz0 rh R False t1 ty by (auto simp: dictGenericDelete_def it_ht_def)
  qed
  then obtain ht where ht: "d' = (if it_table it = 0 then d\<lparr>d_ht0 := ht\<rparr> else d\<lparr>d_ht1 := ht\<rparr>)"
    "ht_table ht = (ht_table (it_ht d (it_table it)))[nat (it_index it) := xs @ ys]" "ht_size ht = ht_size (it_ht d (it_table it))" by blast
  have "pending d' it = pending d it \<and> iter_ok d' it"
    by (rule pending_removed [OF w ok at b]) (use ht in \<open>auto simp: it_ht_def dictIsRehashing_def\<close>)
  then show ?thesis using D by (auto simp: dictDelete_def)
qed

end

section \<open>A complete iteration\<close>

text \<open>A client that calls \<open>dictNext\<close> until it returns \<open>NULL\<close> and deletes the entries it was just given
  and that \<open>del\<close> selects. The result is the entries returned.\<close>

fun iterate :: "nat \<Rightarrow> 64 word \<times> 64 word \<Rightarrow> (('k, 'v) dictEntry \<Rightarrow> bool) \<Rightarrow> ('k, 'v) dict \<Rightarrow> dictIterator \<Rightarrow>
    (('k, 'v) dictEntry list \<times> ('k, 'v) dict \<times> dictIterator) option" where
  "iterate 0 tabs del d it = None"
| "iterate (Suc n) tabs del d it = do {
     (r, d, it) \<leftarrow> dictNext tabs d it;
     case r of
       None \<Rightarrow> Some ([], d, it)
     | Some a \<Rightarrow> do {
         e \<leftarrow> List.find (\<lambda>e. de_addr e = a) (dict_entries d);
         d \<leftarrow> (if del e then map_option (\<lambda>(ok, rel, d). d) (dictDelete d (de_key e)) else Some d);
         (es, d, it) \<leftarrow> iterate n tabs del d it;
         Some (e # es, d, it)
       }
   }"

lemma pending_entries: "iter_wf d \<Longrightarrow> iter_ok d it \<Longrightarrow> set (pending d it) \<subseteq> set (dict_entries d)"
proof -
  assume w: "iter_wf d" and ok: "iter_ok d it"
  have "set (from_addr n ch) \<subseteq> set ch" for n and ch :: "('a, 'b) dictEntry list"
    by (auto simp: from_addr_def split: option.splits dest: set_dropWhileD)
  moreover have "ch \<in> set (ht_table (it_ht d (it_table it))) \<Longrightarrow> set ch \<subseteq> set (dict_entries d)" for ch
    by (auto simp: dict_entries_def it_ht_def split: if_splits)
  moreover have "it_entry it \<noteq> None \<Longrightarrow> ht_table (it_ht d (it_table it)) ! nat (it_index it) \<in> set (ht_table (it_ht d (it_table it)))"
    using w ok by (auto simp: iter_wf_def iter_ok_def it_ht_def)
  moreover have "set (later_buckets d (it_table it) (it_index it)) \<subseteq> set (dict_entries d)"
    by (auto simp: later_buckets_def dict_entries_def it_ht_def dest!: in_set_dropD)
  ultimately show ?thesis by (auto simp: pending_def subset_iff)
qed

lemma iter_start_dict_inv [simp]: "dict_inv (fst (iter_start tabs d it)) = dict_inv d"
  "dict_entries (fst (iter_start tabs d it)) = dict_entries d"
  by (simp_all add: dict_inv_def dict_entries_def)

lemma find_addr:
  "distinct (map de_addr es) \<Longrightarrow> e \<in> set es \<Longrightarrow> List.find (\<lambda>x. de_addr x = de_addr e) es = Some e"
  by (induction es) auto

context dict_keys
begin

lemma iterate_ok:
  assumes "dict_inv d" and "d_type d = ty" and "iter_ok d it" and "length (pending d it) < n"
    and "(it_safe it \<and> d_iterators (fst (iter_start tabs d it)) \<noteq> 0) \<or> (\<forall>e. \<not> del e)"
  shows "\<exists>d' it'. iterate n tabs del d it = Some (pending d it, d', it') \<and> dict_inv d' \<and> d_type d' = ty \<and>
    d_iterators d' = d_iterators (fst (iter_start tabs d it)) \<and>
    dict_mset d' = dict_mset d - mset (filter del (pending d it)) \<and>
    it_safe it' = it_safe it \<and> 0 \<le> it_index it' \<and>
    it_fingerprint it' = it_fingerprint (snd (iter_start tabs d it)) \<and>
    ((\<forall>e. \<not> del e) \<longrightarrow> d' = fst (iter_start tabs d it))"
  using assms
proof (induction n arbitrary: d it)
  case (Suc n)
  let ?d = "fst (iter_start tabs d it)"
  note w = dict_inv_iter_wf [OF Suc.prems(1)]
  obtain r it1 where N: "dictNext tabs d it = Some (r, ?d, it1)" "it_safe it1 = it_safe it" "0 \<le> it_index it1"
    "it_fingerprint it1 = it_fingerprint (snd (iter_start tabs d it))" "next_post d (pending d it) r it1"
    using dictNext_ok [OF w Suc.prems(3), of tabs] unfolding next_result_def by blast
  show ?case
  proof (cases "pending d it")
    case Nil
    then show ?thesis using N Suc.prems by (simp add: next_post_def)
  next
    case (Cons e p)
    then have P: "r = Some (de_addr e)" "pending d it1 = p" "iter_ok d it1" "iter_at d it1 e"
      using N(5) by (simp_all add: next_post_def)
    have ein: "e \<in> set (dict_entries d)" using pending_entries [OF w Suc.prems(3)] Cons by auto
    have f: "List.find (\<lambda>x. de_addr x = de_addr e) (dict_entries ?d) = Some e"
      using find_addr [of "dict_entries d" e] w ein by (simp add: iter_wf_def)
    obtain d1 where d1: "(if del e then map_option (\<lambda>(ok, rel, d). d) (dictDelete ?d (de_key e)) else Some ?d) = Some d1"
      "dict_inv d1" "d_type d1 = ty" "d_iterators d1 = d_iterators ?d" "pending d1 it1 = p" "iter_ok d1 it1"
      "dict_mset d1 = dict_mset d - (if del e then {#e#} else {#})" "\<not> del e \<longrightarrow> d1 = ?d"
    proof (cases "del e")
      case True
      then have "d_iterators ?d \<noteq> 0" using Suc.prems(5) by auto
      moreover have "iter_at ?d it1 e" using P(4) by (simp add: iter_at_def)
      ultimately obtain rel d1 where "dictDelete ?d (de_key e) = Some (True, rel, d1)" "dict_inv d1" "d_type d1 = ty"
        "d_iterators d1 = d_iterators ?d" "dict_mset ?d = add_mset e (dict_mset d1)" "pending d1 it1 = pending ?d it1" "iter_ok d1 it1"
        using delete_current [of ?d it1 e] Suc.prems P by auto
      then show ?thesis using True that [of d1] P by simp
    next
      case False
      then show ?thesis using that [of ?d] Suc.prems P by simp
    qed
    have st: "iter_start tabs d1 it1 = (d1, it1)" using N(3) by (simp add: iter_start_def)
    have "(it_safe it1 \<and> d_iterators (fst (iter_start tabs d1 it1)) \<noteq> 0) \<or> (\<forall>e. \<not> del e)"
      using Suc.prems(5) N(2) d1(4) st by auto
    then obtain d2 it2 where R: "iterate n tabs del d1 it1 = Some (p, d2, it2)" "dict_inv d2" "d_type d2 = ty"
      "d_iterators d2 = d_iterators d1" "dict_mset d2 = dict_mset d1 - mset (filter del p)" "it_safe it2 = it_safe it1"
      "0 \<le> it_index it2" "it_fingerprint it2 = it_fingerprint it1" "(\<forall>e. \<not> del e) \<longrightarrow> d2 = d1"
      using Suc.IH [OF d1(2,3,6)] Suc.prems(4) Cons d1(5) st by auto
    have "iterate (Suc n) tabs del d it = Some (e # p, d2, it2)" using N(1) P(1) f d1(1) R(1) by simp
    moreover have "dict_mset d2 = dict_mset d - mset (filter del (e # p))" using R(5) d1(7) by simp
    ultimately show ?thesis using Cons R d1 N by simp
  qed
qed simp

lemma iteration_complete:
  assumes inv: "dict_inv d" and ty: "d_type d = ty" and pos: "0 \<le> d_iterators d"
  shows "(\<exists>d' it' d''. iterate (Suc (length (dict_entries d))) tabs del d dictGetSafeIterator = Some (dict_entries d, d', it') \<and>
      dictReleaseIterator tabs d' it' = Some d'' \<and> dict_inv d'' \<and> d_iterators d'' = d_iterators d \<and>
      dict_mset d'' = {#e \<in># dict_mset d. \<not> del e#}) \<and>
    (\<exists>it'. iterate (Suc (length (dict_entries d))) tabs (\<lambda>_. False) d dictGetIterator = Some (dict_entries d, d, it') \<and>
      dictReleaseIterator tabs d it' = Some d)"
proof -
  have ok: "iter_ok d dictGetSafeIterator" "iter_ok d dictGetIterator"
    by (simp_all add: iter_ok_def dictGetSafeIterator_def dictGetIterator_def)
  have p: "pending d dictGetSafeIterator = dict_entries d" "pending d dictGetIterator = dict_entries d"
    using inv by (auto simp: pending_def later_buckets_def dictGetSafeIterator_def dictGetIterator_def
      dict_entries_def it_ht_def dict_inv_def split: if_splits)
  have f: "dict_mset d - mset (filter del (dict_entries d)) = {#e \<in># dict_mset d. \<not> del e#}"
    by (simp add: mset_filter) (metis add_diff_cancel_left' multiset_partition)
  have s: "d_iterators (fst (iter_start tabs d dictGetSafeIterator)) = d_iterators d + 1"
    by (simp add: iter_start_def dictGetSafeIterator_def dictGetIterator_def)
  obtain d' it' where A: "iterate (Suc (length (dict_entries d))) tabs del d dictGetSafeIterator = Some (dict_entries d, d', it')"
    "dict_inv d'" "d_iterators d' = d_iterators d + 1" "dict_mset d' = {#e \<in># dict_mset d. \<not> del e#}" "it_safe it'" "0 \<le> it_index it'"
    using iterate_ok [OF inv ty ok(1), of "Suc (length (dict_entries d))" tabs del] p s pos f
    by (auto simp: dictGetSafeIterator_def)
  let ?u = "d'\<lparr>d_iterators := d_iterators d\<rparr>"
  have "dict_inv ?u" "dict_mset ?u = dict_mset d'" using A(2) by (simp_all add: dict_inv_def dict_entries_def dictIsRehashing_def)
  then have "dictReleaseIterator tabs d' it' = Some ?u \<and> dict_inv ?u \<and> d_iterators ?u = d_iterators d \<and>
      dict_mset ?u = {#e \<in># dict_mset d. \<not> del e#}"
    using A by (simp add: dictReleaseIterator_def)
  moreover obtain it2 where B: "iterate (Suc (length (dict_entries d))) tabs (\<lambda>_. False) d dictGetIterator = Some (dict_entries d, d, it2)"
    "\<not> it_safe it2" "0 \<le> it_index it2" "it_fingerprint it2 = dictFingerprint tabs d"
    using iterate_ok [OF inv ty ok(2), of "Suc (length (dict_entries d))" tabs "\<lambda>_. False"] p
    by (auto simp: dictGetIterator_def iter_start_def)
  then have "dictReleaseIterator tabs d it2 = Some d" by (simp add: dictReleaseIterator_def)
  ultimately show ?thesis using A(1) B(1) by blast
qed

end

section \<open>Random entries\<close>

text \<open>One draw: the buckets below \<open>rehashidx\<close> are skipped while rehashing.\<close>

definition random_draw :: "('k, 'v) dict \<Rightarrow> nat \<Rightarrow> ('k, 'v) dictEntry list option" where
  "random_draw d r =
     (if dictIsRehashing d then
        (let size0 = ht_size (d_ht0 d);
             idx = nat (d_rehashidx d);
             h = u32 (idx + r mod (size0 + ht_size (d_ht1 d) - idx))
         in if h \<ge> size0 then bucket (d_ht1 d) (h - size0) else bucket (d_ht0 d) h)
      else bucket (d_ht0 d) (u32 (r AND ht_sizemask (d_ht0 d))))"

text \<open>The loop that draws buckets until one is not empty. \<open>rnd\<close> is what the calls of \<open>random()\<close> return;
  \<open>None\<close> when they run out.\<close>

fun random_bucket :: "('k, 'v) dict \<Rightarrow> nat list \<Rightarrow> (('k, 'v) dictEntry list \<times> nat list) option" where
  "random_bucket d [] = None"
| "random_bucket d (r # rnd) = do {
     he \<leftarrow> random_draw d r;
     if he = [] then random_bucket d rnd else Some (he, rnd)
   }"

definition dictGetRandomKey :: "('k, 'v) dict \<Rightarrow> nat list \<Rightarrow> (('k, 'v) dictEntry option \<times> ('k, 'v) dict) option" where
  "dictGetRandomKey d rnd =
     (if dictSize d = 0 then Some (None, d)
      else do {
        d \<leftarrow> rehash_if d;
        (he, rnd) \<leftarrow> random_bucket d rnd;
        case rnd of
          [] \<Rightarrow> None
        | r # _ \<Rightarrow> Some (Some (he ! (r mod length he)), d)
      })"

fun rehash_steps :: "nat \<Rightarrow> ('k, 'v) dict \<Rightarrow> ('k, 'v) dict option" where
  "rehash_steps 0 d = Some d"
| "rehash_steps (Suc n) d = (if dictIsRehashing d then do { d \<leftarrow> dictRehashStep d; rehash_steps n d } else Some d)"

text \<open>The sampling position: bucket index, empty buckets in a row, the entries stored, the random
  numbers left, and whether the function returned.\<close>

record ('k, 'v) sampling =
  sm_i :: nat
  sm_empty :: nat
  sm_des :: "('k, 'v) dictEntry list"
  sm_rnd :: "nat list"
  sm_return :: bool

definition some_table :: "('k, 'v) dict \<Rightarrow> nat \<Rightarrow> nat \<Rightarrow> nat \<Rightarrow> nat \<Rightarrow> ('k, 'v) sampling \<Rightarrow> ('k, 'v) sampling option" where
  "some_table d tables msk cnt j s =
     (if sm_return s then Some s
      else if tables = 2 \<and> j = 0 \<and> int (sm_i s) < d_rehashidx d then
        Some (if sm_i s \<ge> ht_size (d_ht1 d) then s\<lparr>sm_i := u32 (nat (d_rehashidx d))\<rparr> else s)
      else if sm_i s \<ge> ht_size (it_ht d j) then Some s
      else do {
        he \<leftarrow> bucket (it_ht d j) (sm_i s);
        if he = [] then
          (let e = sm_empty s + 1 in
           if e \<ge> 5 \<and> e > cnt then
             (case sm_rnd s of
                [] \<Rightarrow> None
              | r # rnd \<Rightarrow> Some (s\<lparr>sm_i := r AND msk, sm_empty := 0, sm_rnd := rnd\<rparr>))
           else Some (s\<lparr>sm_empty := e\<rparr>))
        else if length (sm_des s) + length he \<ge> cnt then
          Some (s\<lparr>sm_empty := 0, sm_des := take cnt (sm_des s @ he), sm_return := True\<rparr>)
        else Some (s\<lparr>sm_empty := 0, sm_des := sm_des s @ he\<rparr>)
      })"

fun some_loop :: "('k, 'v) dict \<Rightarrow> nat \<Rightarrow> nat \<Rightarrow> nat \<Rightarrow> nat \<Rightarrow> ('k, 'v) sampling \<Rightarrow> ('k, 'v) sampling option" where
  "some_loop d tables msk cnt 0 s = Some s"
| "some_loop d tables msk cnt (Suc maxsteps) s =
     (if length (sm_des s) < cnt then do {
        s \<leftarrow> some_table d tables msk cnt 0 s;
        s \<leftarrow> (if tables = 2 then some_table d tables msk cnt 1 s else Some s);
        if sm_return s then Some s
        else some_loop d tables msk cnt maxsteps (s\<lparr>sm_i := (sm_i s + 1) AND msk\<rparr>)
      }
      else Some s)"

definition dictGetSomeKeys :: "('k, 'v) dict \<Rightarrow> nat \<Rightarrow> nat list \<Rightarrow> (('k, 'v) dictEntry list \<times> ('k, 'v) dict) option" where
  "dictGetSomeKeys d cnt rnd = do {
     let cnt = (if dictSize d < cnt then u32 (dictSize d) else cnt);
     d \<leftarrow> rehash_steps cnt d;
     let tables = (if dictIsRehashing d then 2 else 1);
     let m0 = u32 (ht_sizemask (d_ht0 d));
     let msk = (if tables > 1 \<and> m0 < ht_sizemask (d_ht1 d) then u32 (ht_sizemask (d_ht1 d)) else m0);
     case rnd of
       [] \<Rightarrow> None
     | r # rnd \<Rightarrow> do {
         s \<leftarrow> some_loop d tables msk cnt (u32 (cnt * 10))
           \<lparr>sm_i = r AND msk, sm_empty = 0, sm_des = [], sm_rnd = rnd, sm_return = False\<rparr>;
         Some (sm_des s, d)
       }
   }"

lemma ht_size_bound: "ht_ok ty ht \<Longrightarrow> ht_size ht \<le> 2 ^ 31"
  using power_increasing [of _ 31 "2 :: nat"] by (auto simp: ht_ok_def)

lemma bucket_entries: "bucket (d_ht0 d) i = Some he \<or> bucket (d_ht1 d) i = Some he \<Longrightarrow> set he \<subseteq> set (dict_entries d)"
  by (auto simp: bucket_def dict_entries_def split: if_splits)

lemma random_draw_entries: "random_draw d r = Some he \<Longrightarrow> set he \<subseteq> set (dict_entries d)"
  unfolding random_draw_def Let_def by (metis bucket_entries)

lemma random_bucket_entries:
  "random_bucket d rnd = Some (he, rnd') \<Longrightarrow> he \<noteq> [] \<and> set he \<subseteq> set (dict_entries d)"
proof (induction rnd)
  case (Cons r rnd)
  then obtain he1 where "random_draw d r = Some he1" "(if he1 = [] then random_bucket d rnd else Some (he1, rnd)) = Some (he, rnd')"
    by (auto simp: bind_eq_Some_conv)
  then show ?case using Cons.IH random_draw_entries [of d r he1] by (auto split: if_splits)
qed simp

lemma entry_position:
  assumes "dict_inv d" and "e \<in> set (dict_entries d)"
  shows "\<exists>t i. t \<le> 1 \<and> i < ht_size (it_ht d t) \<and> e \<in> set (ht_table (it_ht d t) ! i) \<and> bucket (it_ht d t) i = Some (ht_table (it_ht d t) ! i) \<and>
    (t = 1 \<longrightarrow> dictIsRehashing d) \<and> (t = 0 \<longrightarrow> d_rehashidx d \<le> int i)"
proof -
  note w = dict_inv_iter_wf [OF assms(1)]
  have nth: "e \<in> set (concat tb) \<Longrightarrow> \<exists>i < length tb. e \<in> set (tb ! i)" for tb
    by (metis concat_map_singleton in_set_conv_nth set_concat UN_iff)
  obtain t i where ti: "t \<le> 1" "i < length (ht_table (it_ht d t))" "e \<in> set (ht_table (it_ht d t) ! i)"
  proof -
    consider "e \<in> set (concat (ht_table (d_ht0 d)))" | "e \<in> set (concat (ht_table (d_ht1 d)))"
      using assms(2) by (auto simp: dict_entries_def)
    then show ?thesis
    proof cases
      case 1
      then show ?thesis using that [of 0] nth by (fastforce simp: it_ht_def)
    next
      case 2
      then show ?thesis using that [of 1] nth by (fastforce simp: it_ht_def)
    qed
  qed
  have l: "length (ht_table (it_ht d t)) = ht_size (it_ht d t)" using w by (simp add: iter_wf_def it_ht_def)
  have "t = 1 \<longrightarrow> dictIsRehashing d" using assms(1) ti by (auto simp: dict_inv_def it_ht_def split: if_splits)
  moreover have "d_rehashidx d \<le> int i" if "t = 0"
  proof (rule ccontr)
    assume "\<not> d_rehashidx d \<le> int i"
    then have "ht_table (d_ht0 d) ! i = []"
      using assms(1) by (auto simp: dict_inv_def dictIsRehashing_def split: if_splits)
    then show False using ti(3) that by (simp add: it_ht_def)
  qed
  ultimately show ?thesis using ti l by (intro exI [of _ t] exI [of _ i]) (simp add: bucket_def)
qed

lemma ht_mask_and: "ht_ok ty ht \<Longrightarrow> i < ht_size ht \<Longrightarrow> i AND ht_sizemask ht = i"
proof -
  assume ok: "ht_ok ty ht" and i: "i < ht_size ht"
  then obtain k where k: "ht_size ht = 2 ^ k" by (auto simp: ht_ok_def)
  have "i AND mask k = i" using i k by (metis take_bit_eq_mask take_bit_nat_eq_self)
  then show ?thesis using ok k by (simp add: ht_ok_def mask_eq_exp_minus_1)
qed

lemma random_draw_reach:
  assumes inv: "dict_inv d" and e: "e \<in> set (dict_entries d)"
  shows "\<exists>r he. random_draw d r = Some he \<and> e \<in> set he"
proof -
  obtain t i where ti: "t \<le> 1" "i < ht_size (it_ht d t)" "e \<in> set (ht_table (it_ht d t) ! i)"
    "bucket (it_ht d t) i = Some (ht_table (it_ht d t) ! i)" "t = 1 \<longrightarrow> dictIsRehashing d" "t = 0 \<longrightarrow> d_rehashidx d \<le> int i"
    using entry_position [OF assms] by blast
  let ?he = "ht_table (it_ht d t) ! i"
  have ok: "ht_ok (d_type d) (d_ht0 d)" "ht_ok (d_type d) (d_ht1 d)" using inv by (auto simp: dict_inv_def)
  have bd: "ht_size (d_ht0 d) \<le> 2147483648" "ht_size (d_ht1 d) \<le> 2147483648" using ok ht_size_bound by fastforce+
  show ?thesis
  proof (cases "dictIsRehashing d")
    case True
    let ?x = "nat (d_rehashidx d)" and ?s0 = "ht_size (d_ht0 d)" and ?s1 = "ht_size (d_ht1 d)"
    have x: "0 \<le> d_rehashidx d" "?x \<le> ?s0" using inv True by (auto simp: dict_inv_def)
    define h where "h = (if t = 0 then i else ?s0 + i)"
    have h: "?x \<le> h" "h < ?s0 + ?s1" "h < 4294967296"
      using ti x bd by (auto simp: h_def it_ht_def)
    have "(h - ?x) mod (?s0 + ?s1 - ?x) = h - ?x" using h by (intro mod_less) linarith
    then have "u32 (?x + (h - ?x) mod (?s0 + ?s1 - ?x)) = h" using h by simp
    moreover have "(if h \<ge> ?s0 then bucket (d_ht1 d) (h - ?s0) else bucket (d_ht0 d) h) = Some ?he"
      using ti by (auto simp: h_def it_ht_def)
    ultimately have "random_draw d (h - ?x) = Some ?he"
      using True unfolding random_draw_def Let_def by (simp split: if_splits)
    then show ?thesis using ti(3) by blast
  next
    case False
    then have t0: "t = 0" using ti by (cases t) auto
    have "i < 4294967296" using ti(2) bd t0 by (simp add: it_ht_def)
    then have "u32 (i AND ht_sizemask (d_ht0 d)) = i" using ht_mask_and [OF ok(1), of i] ti(2) t0 by (simp add: it_ht_def)
    then have "random_draw d i = Some ?he" using False ti(4) t0 by (simp add: random_draw_def it_ht_def)
    then show ?thesis using ti(3) by blast
  qed
qed

lemma dictGetRandomKey_ok:
  assumes inv: "dict_inv d" and ne: "dict_entries d \<noteq> []"
  shows "(\<forall>rnd r d'. dictGetRandomKey d rnd = Some (r, d') \<longrightarrow> (\<exists>e. r = Some e \<and> e \<in># dict_mset d)) \<and>
    (\<forall>e. e \<in># dict_mset d \<longrightarrow> (\<exists>rnd d'. dictGetRandomKey d rnd = Some (Some e, d') \<and> dict_inv d' \<and> dict_mset d' = dict_mset d))"
proof -
  obtain d1 where d1: "rehash_if d = Some d1" "dict_inv d1" "dict_mset d1 = dict_mset d"
    using rehash_if_ok [OF inv] by (auto simp: same_contents_def)
  have sz: "dictSize d \<noteq> 0"
    using inv ne by (auto simp: dictSize_def dict_inv_def ht_ok_def entries_ok_def dict_entries_def)
  show ?thesis
  proof (intro conjI allI impI)
    fix rnd r d'
    assume g: "dictGetRandomKey d rnd = Some (r, d')"
    obtain he rnd1 where b: "random_bucket d1 rnd = Some (he, rnd1)"
      using g sz d1(1) by (auto simp: dictGetRandomKey_def bind_eq_Some_conv)
    then obtain q rs where "rnd1 = q # rs" "r = Some (he ! (q mod length he))"
      using g sz d1(1) by (cases rnd1) (auto simp: dictGetRandomKey_def)
    moreover have "he \<noteq> []" "set he \<subseteq> set (dict_entries d1)" using random_bucket_entries [OF b] by auto
    ultimately have "r = Some (he ! (q mod length he)) \<and> he ! (q mod length he) \<in> set (dict_entries d1)" by auto
    then show "\<exists>e. r = Some e \<and> e \<in># dict_mset d" using d1(3) by (metis set_mset_mset)
  next
    fix e
    assume "e \<in># dict_mset d"
    then have "e \<in> set (dict_entries d1)" using d1(3) by (metis set_mset_mset)
    then obtain r he where rh: "random_draw d1 r = Some he" "e \<in> set he"
      using random_draw_reach [OF d1(2)] by blast
    then obtain k where k: "k < length he" "he ! k = e" by (auto simp: in_set_conv_nth)
    have "he \<noteq> []" using k by auto
    then have "dictGetRandomKey d [r, k] = Some (Some e, d1)"
      using sz d1(1) rh(1) k by (simp add: dictGetRandomKey_def)
    then show "\<exists>rnd d'. dictGetRandomKey d rnd = Some (Some e, d') \<and> dict_inv d' \<and> dict_mset d' = dict_mset d"
      using d1 by blast
  qed
qed

lemma rehash_steps_ok:
  "dict_inv d \<Longrightarrow> \<exists>d'. rehash_steps n d = Some d' \<and> dict_inv d' \<and> dict_mset d' = dict_mset d"
proof (induction n arbitrary: d)
  case (Suc n)
  obtain d1 where "rehash_if d = Some d1" "dict_inv d1" "dict_mset d1 = dict_mset d"
    using rehash_if_ok [OF Suc.prems] by (auto simp: same_contents_def)
  then show ?case using Suc.IH [of d1] Suc.prems by (auto simp: rehash_if_def split: if_splits)
qed auto

lemma some_table_des:
  assumes "some_table d tables msk cnt j s = Some s'"
  shows "sm_des s' = sm_des s \<or> (\<exists>he. bucket (it_ht d j) (sm_i s) = Some he \<and> sm_des s' = take cnt (sm_des s @ he))"
proof (cases "sm_return s \<or> (tables = 2 \<and> j = 0 \<and> int (sm_i s) < d_rehashidx d) \<or> sm_i s \<ge> ht_size (it_ht d j)")
  case True
  then show ?thesis using assms by (auto simp: some_table_def split: if_splits)
next
  case False
  then obtain he where he: "bucket (it_ht d j) (sm_i s) = Some he"
    using assms by (auto simp: some_table_def bind_eq_Some_conv)
  show ?thesis
  proof (cases "he = []")
    case True
    then show ?thesis using assms False he
      by (auto simp: some_table_def Let_def split: if_splits list.splits)
  next
    case ne: False
    then show ?thesis using assms False he by (auto simp: some_table_def split: if_splits)
  qed
qed

lemma some_table_ok:
  assumes "some_table d tables msk cnt j s = Some s'" and "set (sm_des s) \<subseteq> set (dict_entries d)" "length (sm_des s) \<le> cnt"
  shows "set (sm_des s') \<subseteq> set (dict_entries d) \<and> length (sm_des s') \<le> cnt"
  using some_table_des [OF assms(1)]
proof (elim disjE exE conjE)
  fix he
  assume he: "bucket (it_ht d j) (sm_i s) = Some he" "sm_des s' = take cnt (sm_des s @ he)"
  have "set he \<subseteq> set (dict_entries d)"
    using bucket_entries [of d "sm_i s" he] he(1) by (auto simp: it_ht_def split: if_splits)
  moreover have "set (take cnt (sm_des s @ he)) \<subseteq> set (sm_des s) \<union> set he" using set_take_subset by fastforce
  ultimately show ?thesis using he(2) assms(2) by auto
qed (use assms in auto)

lemma some_loop_ok:
  "some_loop d tables msk cnt n s = Some s' \<Longrightarrow> set (sm_des s) \<subseteq> set (dict_entries d) \<Longrightarrow> length (sm_des s) \<le> cnt \<Longrightarrow>
    set (sm_des s') \<subseteq> set (dict_entries d) \<and> length (sm_des s') \<le> cnt"
proof (induction d tables msk cnt n s rule: some_loop.induct)
  case (2 d tables msk cnt n s)
  show ?case
  proof (cases "length (sm_des s) < cnt")
    case True
    then obtain s1 s2 where s: "some_table d tables msk cnt 0 s = Some s1"
      "(if tables = 2 then some_table d tables msk cnt 1 s1 else Some s1) = Some s2"
      "(if sm_return s2 then Some s2 else some_loop d tables msk cnt n (s2\<lparr>sm_i := (sm_i s2 + 1) AND msk\<rparr>)) = Some s'"
      using 2(2) by (auto simp: bind_eq_Some_conv)
    have "set (sm_des s2) \<subseteq> set (dict_entries d) \<and> length (sm_des s2) \<le> cnt"
      using some_table_ok [OF s(1) 2(3,4)] some_table_ok [of d tables msk cnt 1 s1 s2] s(2) by (auto split: if_splits)
    then show ?thesis using s(3) 2(1) [OF True s(1) s(2)] by (auto split: if_splits)
  qed (use 2 in simp)
qed auto

lemma dictGetSomeKeys_ok:
  assumes inv: "dict_inv d" and g: "dictGetSomeKeys d cnt rnd = Some (des, d')"
  shows "set des \<subseteq> set_mset (dict_mset d) \<and> length des \<le> cnt \<and> dict_inv d' \<and> dict_mset d' = dict_mset d"
proof -
  let ?c = "if dictSize d < cnt then u32 (dictSize d) else cnt"
  obtain d1 where d1: "rehash_steps ?c d = Some d1" "dict_inv d1" "dict_mset d1 = dict_mset d"
    using rehash_steps_ok [OF inv] by blast
  obtain tables msk n i rnd' s where s: "some_loop d1 tables msk ?c n
      \<lparr>sm_i = i, sm_empty = 0, sm_des = [], sm_rnd = rnd', sm_return = False\<rparr> = Some s" "des = sm_des s" "d' = d1"
    using g d1(1) by (cases rnd) (auto simp: dictGetSomeKeys_def Let_def bind_eq_Some_conv)
  have "set des \<subseteq> set (dict_entries d1) \<and> length des \<le> ?c" using some_loop_ok [OF s(1)] s(2) by simp
  moreover have "u32 (dictSize d) \<le> dictSize d" by (simp add: u32_def)
  ultimately show ?thesis using d1 s(3) by (auto split: if_splits simp flip: set_mset_mset)
qed

text \<open>The sampling makes at most ten steps per entry asked for, each with at most one new random number
  for each table, so it returns when that many are at hand.\<close>

lemma some_table_total:
  assumes "length (ht_table (it_ht d j)) = ht_size (it_ht d j)" and "sm_rnd s \<noteq> []"
  shows "\<exists>s'. some_table d tables msk cnt j s = Some s' \<and> length (sm_rnd s) \<le> length (sm_rnd s') + 1"
proof (cases "sm_return s \<or> (tables = 2 \<and> j = 0 \<and> int (sm_i s) < d_rehashidx d) \<or> sm_i s \<ge> ht_size (it_ht d j)")
  case True
  then show ?thesis by (auto simp: some_table_def)
next
  case False
  then have "bucket (it_ht d j) (sm_i s) = Some (ht_table (it_ht d j) ! sm_i s)"
    using assms by (simp add: bucket_def)
  then show ?thesis using False assms(2) by (auto simp: some_table_def Let_def split: list.split)
qed

lemma some_loop_total:
  assumes t: "\<And>j. length (ht_table (it_ht d j)) = ht_size (it_ht d j)"
  shows "2 * n \<le> length (sm_rnd s) \<Longrightarrow> \<exists>s'. some_loop d tables msk cnt n s = Some s'"
proof (induction n arbitrary: s)
  case (Suc n)
  have tt: "\<exists>s'. some_table d tables msk cnt j s = Some s' \<and> length (sm_rnd s) \<le> length (sm_rnd s') + 1" if "sm_rnd s \<noteq> []" for j s
    using some_table_total [of d j s] t [of j] that by simp
  obtain s1 where s1: "some_table d tables msk cnt 0 s = Some s1" "length (sm_rnd s) \<le> length (sm_rnd s1) + 1"
    using tt [of s 0] Suc.prems by fastforce
  moreover have "sm_rnd s1 \<noteq> []" using s1(2) Suc.prems by auto
  ultimately obtain s2 where s2: "(if tables = 2 then some_table d tables msk cnt 1 s1 else Some s1) = Some s2"
      "length (sm_rnd s) \<le> length (sm_rnd s2) + 2"
    using tt [of s1 1] by (cases "tables = 2") fastforce+
  show ?case using Suc.IH [of "s2\<lparr>sm_i := (sm_i s2 + 1) AND msk\<rparr>"] Suc.prems s1 s2 by auto
qed auto

lemma dictGetSomeKeys_total:
  assumes inv: "dict_inv d" and r: "20 * cnt < length rnd"
  shows "\<exists>des d'. dictGetSomeKeys d cnt rnd = Some (des, d')"
proof -
  define c where "c = (if dictSize d < cnt then u32 (dictSize d) else cnt)"
  have c: "u32 (c * 10) \<le> 10 * cnt" by (auto simp: c_def u32_def intro: order_trans [OF mod_less_eq_dividend])
  obtain d1 where d1: "rehash_steps c d = Some d1" "dict_inv d1" using rehash_steps_ok [OF inv] by blast
  have t: "length (ht_table (it_ht d1 j)) = ht_size (it_ht d1 j)" for j
    using d1(2) by (auto simp: it_ht_def dict_inv_def ht_ok_def)
  obtain r0 rnd' where rnd: "rnd = r0 # rnd'" using r by (cases rnd) auto
  from some_loop_total [OF t, of "u32 (c * 10)"] c r rnd have
    "2 * u32 (c * 10) \<le> length (sm_rnd s) \<Longrightarrow> \<exists>s'. some_loop d1 tables msk c (u32 (c * 10)) s = Some s'" for s tables msk
    by blast
  moreover have "2 * u32 (c * 10) \<le> length rnd'" using c r rnd by simp
  ultimately show ?thesis
    using d1(1) rnd unfolding dictGetSomeKeys_def Let_def c_def [symmetric] by (auto simp: bind_eq_Some_conv)
qed

section \<open>Properties\<close>

text \<open>C21. A safe iterator returns every entry the dictionary had at the start exactly once, in any state of
  rehashing, although the client deletes entries it was just given; no dangling entry is followed,
  the others stay, and releasing the iterator restores the iterator count. An unsafe iterator
  without changes also returns every entry once, and the fingerprint check at its release passes.\<close>

theorem dict_iteration:
  assumes "dict_inv d" and "d_type d = dbDictType seed" and "0 \<le> d_iterators d"
  shows "(\<exists>d' it' d''. iterate (Suc (length (dict_entries d))) tabs del d dictGetSafeIterator = Some (dict_entries d, d', it') \<and>
      dictReleaseIterator tabs d' it' = Some d'' \<and> dict_inv d'' \<and> d_iterators d'' = d_iterators d \<and>
      mset (dict_entries d'') = {#e \<in># mset (dict_entries d). \<not> del e#}) \<and>
    (\<exists>it'. iterate (Suc (length (dict_entries d))) tabs (\<lambda>_. False) d dictGetIterator = Some (dict_entries d, d, it') \<and>
      dictReleaseIterator tabs d it' = Some d)"
  using assms by (rule dbkeys.iteration_complete)

lemma db_filled:
  "\<exists>d :: (bytes, nat) dict. dict_inv d \<and> d_type d = dbDictType 5381 \<and> d_iterators d = 0 \<and> dict_entries d \<noteq> []"
proof -
  obtain d' where d': "dict_inv d'" "d_type d' = dbDictType 5381" "dict_map d' (lit ''key'') = Some (42 :: nat)"
    using dbkeys.map_add [OF db_example_ok(1,2,3), of True 1 0 "lit ''key''" 42, unfolded db_dupVal db_same]
    by (auto simp: db_example_ok(4) dictSdsKeyCompare_refl)
  let ?u = "d'\<lparr>d_iterators := 0\<rparr>"
  have "dict_inv ?u" "dict_entries ?u = dict_entries d'"
    using d'(1) by (simp_all add: dict_inv_def dict_entries_def dictIsRehashing_def)
  moreover have "dict_entries d' \<noteq> []" using d'(3) by (auto simp: dict_map_def)
  ultimately show ?thesis using d'(2) by (intro exI [of _ ?u]) simp
qed

theorem dict_iteration_witness:
  "\<exists>(d :: (bytes, nat) dict) d' it' d''. dict_entries d \<noteq> [] \<and>
     iterate (Suc (length (dict_entries d))) (0, 0) (\<lambda>_. True) d dictGetSafeIterator = Some (dict_entries d, d', it') \<and>
     dictReleaseIterator (0, 0) d' it' = Some d'' \<and> dict_entries d'' = []"
proof -
  obtain d :: "(bytes, nat) dict" where d: "dict_inv d" "d_type d = dbDictType 5381" "d_iterators d = 0" "dict_entries d \<noteq> []"
    using db_filled by blast
  obtain d' it' d'' where "iterate (Suc (length (dict_entries d))) (0, 0) (\<lambda>_. True) d dictGetSafeIterator = Some (dict_entries d, d', it')"
    "dictReleaseIterator (0, 0) d' it' = Some d''" "mset (dict_entries d'') = {#e \<in># mset (dict_entries d). \<not> True#}"
    using dict_iteration [OF d(1,2), of "(0, 0)" "\<lambda>_. True"] d(3) by auto
  with d(4) show ?thesis by (intro exI [of _ d] exI) auto
qed

text \<open>\<open>dictGetRandomKey\<close> on a non-empty dictionary returns an entry of it, any entry can be the one
  returned, and the contents stay; \<open>dictGetSomeKeys\<close> stops after a bounded number of draws and returns
  at most the number asked for, only entries of the dictionary.\<close>

theorem dict_random_entries:
  assumes "dict_inv d" and "dict_entries d \<noteq> []"
  shows "(dictGetRandomKey d rnd = Some (r, d1) \<longrightarrow> (\<exists>e. r = Some e \<and> e \<in> set (dict_entries d))) \<and>
    (e \<in> set (dict_entries d) \<longrightarrow> (\<exists>rnd d'. dictGetRandomKey d rnd = Some (Some e, d') \<and> dict_inv d' \<and>
       mset (dict_entries d') = mset (dict_entries d))) \<and>
    (dictGetSomeKeys d cnt rnd = Some (des, d2) \<longrightarrow> set des \<subseteq> set (dict_entries d) \<and> length des \<le> cnt \<and>
       mset (dict_entries d2) = mset (dict_entries d)) \<and>
    (20 * cnt < length rnd \<longrightarrow> (\<exists>des d2. dictGetSomeKeys d cnt rnd = Some (des, d2)))"
proof (intro conjI impI)
  note R = dictGetRandomKey_ok [OF assms]
  show "\<exists>e. r = Some e \<and> e \<in> set (dict_entries d)" if "dictGetRandomKey d rnd = Some (r, d1)"
    using R that by auto
  show "\<exists>rnd d'. dictGetRandomKey d rnd = Some (Some e, d') \<and> dict_inv d' \<and> mset (dict_entries d') = mset (dict_entries d)"
    if "e \<in> set (dict_entries d)"
    using conjunct2 [OF R] that by (simp only: set_mset_mset)
  show "\<exists>des d2. dictGetSomeKeys d cnt rnd = Some (des, d2)" if "20 * cnt < length rnd"
    using dictGetSomeKeys_total [OF assms(1) that] .
  assume g: "dictGetSomeKeys d cnt rnd = Some (des, d2)"
  from dictGetSomeKeys_ok [OF assms(1) g] show "set des \<subseteq> set (dict_entries d)" "length des \<le> cnt"
    "mset (dict_entries d2) = mset (dict_entries d)" by (simp_all only: set_mset_mset)
qed

theorem dict_random_entries_witness:
  "\<exists>(d :: (bytes, nat) dict) e rnd d'. dict_entries d \<noteq> [] \<and> dictGetRandomKey d rnd = Some (Some e, d') \<and>
     mset (dict_entries d') = mset (dict_entries d)"
proof -
  obtain d :: "(bytes, nat) dict" where d: "dict_inv d" "dict_entries d \<noteq> []"
    using db_filled by blast
  then have "hd (dict_entries d) \<in> set (dict_entries d)" by simp
  with dict_random_entries [OF d, of _ _ _ "hd (dict_entries d)"] d(2) show ?thesis by blast
qed

end
