(* ===== verification/DictScan.thy ===== *)
theory DictScan
  imports Dict
begin

text \<open>
  \<open>dictScan\<close> of \<open>redis-3.2/src/dict.c\<close>: the stateless cursor over a dictionary that may be modified
  and resized between the calls. The cursor is a 64-bit word that is incremented from its high bits down,
  through the bit reversal \<open>rev\<close> (\<open>rev_bits\<close> here).

  The key lemma says which entries a call emits in terms of the reversed cursor: all those whose reversed
  hash lies between the reversed cursors before and after the call. From it follows the guarantee of the
  comment in the source for every sequence of calls in which no call runs on a rehashing dictionary with
  a cursor left over from a table larger than both: whatever stays in the dictionary from start to end is
  returned. Without that restriction the guarantee fails, which is shown on a concrete dictionary.
\<close>

section \<open>Operations\<close>

function rev_rounds :: "nat \<Rightarrow> 64 word \<Rightarrow> 64 word \<Rightarrow> 64 word" where
  "rev_rounds s msk v =
     (let s = s div 2 in
      if s > 0 then
        (let msk = msk XOR push_bit s msk;
             v = (drop_bit s v AND msk) OR (push_bit s v AND NOT msk)
         in rev_rounds s msk v)
      else v)"
  by pat_completeness auto
termination
  by (relation "measure fst") auto

declare rev_rounds.simps [simp del]

definition rev_bits :: "64 word \<Rightarrow> 64 word" where
  "rev_bits v = rev_rounds 64 (- 1) v"

text \<open>The part of \<open>dictScan\<close> after the emission: the next cursor.\<close>

definition scan_next :: "64 word \<Rightarrow> 64 word \<Rightarrow> 64 word" where
  "scan_next v m0 =
     (let v = v OR NOT m0;
          v = rev_bits v;
          v = v + 1
      in rev_bits v)"

definition ht_mask :: "('k, 'v) dictht \<Rightarrow> 64 word" where
  "ht_mask ht = of_nat (ht_sizemask ht)"

text \<open>The expansions of the cursor in the larger table: the entries emitted and the cursor.\<close>

partial_function (option) scan_expand ::
  "('k, 'v) dictht \<Rightarrow> 64 word \<Rightarrow> 64 word \<Rightarrow> 64 word \<Rightarrow> (('k, 'v) dictEntry list \<times> 64 word) option" where
  "scan_expand t1 m0 m1 v = do {
     de \<leftarrow> bucket t1 (unat (v AND m1));
     let v = (((v OR m0) + 1) AND NOT m0) OR (v AND m0);
     if v AND (m0 XOR m1) \<noteq> 0 then do {
       (es, v) \<leftarrow> scan_expand t1 m0 m1 v;
       Some (de @ es, v)
     }
     else Some (de, v)
   }"

text \<open>The new cursor and the entries handed to the callback, in order.\<close>

definition dictScan :: "('k, 'v) dict \<Rightarrow> 64 word \<Rightarrow> (64 word \<times> ('k, 'v) dictEntry list) option" where
  "dictScan d v =
     (if dictSize d = 0 then Some (0, [])
      else if \<not> dictIsRehashing d then do {
        let t0 = d_ht0 d;
        let m0 = ht_mask t0;
        de \<leftarrow> bucket t0 (unat (v AND m0));
        Some (scan_next v m0, de)
      }
      else do {
        let (t0, t1) = (if ht_size (d_ht0 d) > ht_size (d_ht1 d) then (d_ht1 d, d_ht0 d) else (d_ht0 d, d_ht1 d));
        let m0 = ht_mask t0;
        let m1 = ht_mask t1;
        de \<leftarrow> bucket t0 (unat (v AND m0));
        (es, v) \<leftarrow> scan_expand t1 m0 m1 v;
        Some (scan_next v m0, de @ es)
      })"

section \<open>Reversing bits\<close>

text \<open>One round swaps the bit blocks of size \<open>s\<close>.\<close>

definition round_bits :: "nat \<Rightarrow> 64 word \<Rightarrow> 64 word \<Rightarrow> 64 word" where
  "round_bits s msk v = (drop_bit s v AND msk) OR (push_bit s v AND NOT msk)"

lemma rev_rounds_step:
  "0 < s \<Longrightarrow> rev_rounds (2 * s) msk v = rev_rounds s (msk XOR push_bit s msk) (round_bits s (msk XOR push_bit s msk) v)"
  by (subst rev_rounds.simps) (simp add: Let_def round_bits_def)

lemma rev_bits_rounds:
  "rev_bits v = round_bits 1 0x5555555555555555 (round_bits 2 0x3333333333333333 (round_bits 4 0x0F0F0F0F0F0F0F0F
     (round_bits 8 0x00FF00FF00FF00FF (round_bits 16 0x0000FFFF0000FFFF (round_bits 32 0x00000000FFFFFFFF v)))))"
proof -
  have last: "rev_rounds 1 m w = w" for m w by (subst rev_rounds.simps) simp
  have m1: "(- 1 :: 64 word) XOR push_bit 32 (- 1) = 0x00000000FFFFFFFF"
    by (simp add: mask_eq_exp_minus_1)
  have m2: "(0x00000000FFFFFFFF :: 64 word) XOR push_bit 16 0x00000000FFFFFFFF = 0x0000FFFF0000FFFF"
    and m3: "(0x0000FFFF0000FFFF :: 64 word) XOR push_bit 8 0x0000FFFF0000FFFF = 0x00FF00FF00FF00FF"
    and m4: "(0x00FF00FF00FF00FF :: 64 word) XOR push_bit 4 0x00FF00FF00FF00FF = 0x0F0F0F0F0F0F0F0F"
    and m5: "(0x0F0F0F0F0F0F0F0F :: 64 word) XOR push_bit 2 0x0F0F0F0F0F0F0F0F = 0x3333333333333333"
    and m6: "(0x3333333333333333 :: 64 word) XOR push_bit 1 0x3333333333333333 = 0x5555555555555555"
    by simp_all
  have "rev_bits v = rev_rounds (2 * 32) (- 1) v" by (simp add: rev_bits_def)
  also have "\<dots> = rev_rounds (2 * 16) 0x00000000FFFFFFFF (round_bits 32 0x00000000FFFFFFFF v)" (is "_ = rev_rounds _ _ ?v1")
    using rev_rounds_step [of 32 "- 1" v] unfolding m1 by simp
  also have "\<dots> = rev_rounds (2 * 8) 0x0000FFFF0000FFFF (round_bits 16 0x0000FFFF0000FFFF ?v1)" (is "_ = rev_rounds _ _ ?v2")
    by (subst rev_rounds_step) (simp_all add: m2)
  also have "\<dots> = rev_rounds (2 * 4) 0x00FF00FF00FF00FF (round_bits 8 0x00FF00FF00FF00FF ?v2)" (is "_ = rev_rounds _ _ ?v3")
    by (subst rev_rounds_step) (simp_all add: m3)
  also have "\<dots> = rev_rounds (2 * 2) 0x0F0F0F0F0F0F0F0F (round_bits 4 0x0F0F0F0F0F0F0F0F ?v3)" (is "_ = rev_rounds _ _ ?v4")
    by (subst rev_rounds_step) (simp_all add: m4)
  also have "\<dots> = rev_rounds (2 * 1) 0x3333333333333333 (round_bits 2 0x3333333333333333 ?v4)" (is "_ = rev_rounds _ _ ?v5")
    by (subst rev_rounds_step) (simp_all add: m5)
  also have "\<dots> = round_bits 1 0x5555555555555555 ?v5"
    using rev_rounds_step [of 1 "0x3333333333333333" ?v5] unfolding m6 last by simp
  finally show ?thesis .
qed

lemma bit_round:
  "n < 64 \<Longrightarrow> bit (round_bits s msk v) n \<longleftrightarrow> (if bit msk n then bit v (s + n) else s \<le> n \<and> bit v (n - s))"
  by (auto simp: round_bits_def bit_simps)

lemma bit_rev_bits_all: "list_all (\<lambda>n. bit (rev_bits v) n = bit v (63 - n)) [0..<64]"
proof -
  have "[0..<64] = (0 :: nat) # 1 # [2..<64]" by (simp add: upt_conv_Cons)
  then show ?thesis unfolding rev_bits_rounds by (simp add: upt_rec_numeral bit_round)
qed

lemma bit_rev_bits: "n < 64 \<Longrightarrow> bit (rev_bits v) n = bit v (63 - n)"
  using bit_rev_bits_all [of v] by (simp add: list_all_iff)

lemma rev_bits_rev_bits [simp]: "rev_bits (rev_bits v) = v"
  by (rule bit_word_eqI) (simp add: bit_rev_bits)

section \<open>The reversed cursor\<close>

lemma take_bit_eq_bits: "take_bit k (h :: 64 word) = take_bit k v \<longleftrightarrow> (\<forall>j < k. bit h j = bit v j)"
proof
  assume "take_bit k h = take_bit k v"
  then show "\<forall>j < k. bit h j = bit v j" by (metis bit_take_bit_iff)
next
  assume "\<forall>j < k. bit h j = bit v j"
  then show "take_bit k h = take_bit k v" by (intro bit_word_eqI) (auto simp: bit_take_bit_iff)
qed

lemma bit_rev_bits_ge: "64 \<le> n \<Longrightarrow> \<not> bit (rev_bits v) n"
  using bit_imp_le_length [of "rev_bits v" n] by auto

lemma drop_rev_bits:
  assumes "k \<le> 64"
  shows "drop_bit (64 - k) (rev_bits h) = drop_bit (64 - k) (rev_bits v) \<longleftrightarrow> (\<forall>j < k. bit h j = bit v j)"
proof
  assume e: "drop_bit (64 - k) (rev_bits h) = drop_bit (64 - k) (rev_bits v)"
  show "\<forall>j < k. bit h j = bit v j"
  proof (intro allI impI)
    fix j assume j: "j < k"
    have "bit (drop_bit (64 - k) (rev_bits h)) (k - 1 - j) = bit (drop_bit (64 - k) (rev_bits v)) (k - 1 - j)"
      by (simp only: e)
    moreover have "64 - k + (k - 1 - j) = 63 - j" "63 - (63 - j) = j" "63 - j < 64" using j assms by auto
    ultimately show "bit h j = bit v j" by (simp add: bit_drop_bit_eq bit_rev_bits)
  qed
next
  assume all: "\<forall>j < k. bit h j = bit v j"
  show "drop_bit (64 - k) (rev_bits h) = drop_bit (64 - k) (rev_bits v)"
  proof (rule bit_word_eqI)
    fix n assume "n < LENGTH(64)"
    show "bit (drop_bit (64 - k) (rev_bits h)) n = bit (drop_bit (64 - k) (rev_bits v)) n"
    proof (cases "n < k")
      case True
      then have "64 - k + n < 64" "63 - (64 - k + n) < k" using assms by auto
      then show ?thesis using all by (simp add: bit_drop_bit_eq bit_rev_bits)
    next
      case False
      then have "64 \<le> 64 - k + n" using assms by simp
      then show ?thesis using bit_rev_bits_ge by (simp add: bit_drop_bit_eq)
    qed
  qed
qed

lemma unat_drop_bit: "unat (drop_bit m (w :: 64 word)) = unat w div 2 ^ m"
proof -
  have "take_bit 64 (unat w) = unat w" using unsigned_less [of w] by (simp add: take_bit_nat_eq_self_iff)
  then show ?thesis by (simp add: unsigned_drop_bit_eq flip: drop_bit_eq_div)
qed

lemma rev_bits_prefix:
  "k \<le> 64 \<Longrightarrow> take_bit k h = take_bit k v \<longleftrightarrow> unat (rev_bits h) div 2 ^ (64 - k) = unat (rev_bits v) div 2 ^ (64 - k)"
  unfolding take_bit_eq_bits drop_rev_bits [symmetric]
  by (simp only: unat_drop_bit word_eq_iff_unsigned [where ?'a = nat])

lemma nat_or_mask: "(n :: nat) OR mask m = n div 2 ^ m * 2 ^ m + (2 ^ m - 1)"
proof -
  have d: "drop_bit m (n OR mask m) = n div 2 ^ m" by (simp add: drop_bit_or drop_bit_mask_eq flip: drop_bit_eq_div)
  have t: "take_bit m (n OR mask m) = 2 ^ m - 1"
    by (rule trans [OF _ mask_eq_exp_minus_1]) (rule bit_eqI, auto simp: bit_simps)
  have "n OR mask m = push_bit m (drop_bit m (n OR mask m)) + take_bit m (n OR mask m)" by (rule bits_ident [symmetric])
  also have "\<dots> = push_bit m (n div 2 ^ m) + (2 ^ m - 1)" by (simp only: d t)
  finally show ?thesis by (simp only: push_bit_eq_mult)
qed

lemma unat_or_mask: "unat ((x :: 64 word) OR mask m) = unat x div 2 ^ m * 2 ^ m + (2 ^ m - 1)" if "m \<le> 64"
proof -
  have "unat (mask m :: 64 word) = mask m" by (rule bit_eqI) (use that in \<open>auto simp: bit_simps\<close>)
  then show ?thesis by (simp add: unsigned_or_eq nat_or_mask)
qed

lemma rev_bits_or_not_mask:
  "k \<le> 64 \<Longrightarrow> rev_bits (v OR NOT (mask k)) = rev_bits v OR mask (64 - k)"
  by (rule bit_word_eqI) (auto simp: bit_rev_bits bit_simps)

lemma rev_bits_0 [simp]: "rev_bits 0 = 0"
  by (rule bit_word_eqI) (simp add: bit_rev_bits)

lemma scan_next_rev:
  assumes "k \<le> 64"
  shows "rev_bits (scan_next v (mask k)) = of_nat ((unat (rev_bits v) div 2 ^ (64 - k) + 1) * 2 ^ (64 - k))"
proof -
  have "rev_bits (scan_next v (mask k)) = (rev_bits v OR mask (64 - k)) + 1"
    using assms by (simp add: scan_next_def Let_def rev_bits_or_not_mask)
  also have "\<dots> = of_nat (unat (rev_bits v OR mask (64 - k)) + 1)" by simp
  also have "unat (rev_bits v OR mask (64 - k)) + 1 = (unat (rev_bits v) div 2 ^ (64 - k) + 1) * 2 ^ (64 - k)"
    by (subst unat_or_mask) auto
  finally show ?thesis .
qed

section \<open>What one call emits\<close>

definition hash64 :: "('k, 'v) dictType \<Rightarrow> 'k \<Rightarrow> 64 word" where
  "hash64 ty k = ucast (hashFunction ty k)"

lemma ht_mask_eq: "ht_ok ty ht \<Longrightarrow> ht_size ht = 2 ^ k \<Longrightarrow> ht_mask ht = mask k"
  by (simp add: ht_mask_def ht_ok_def of_nat_diff mask_eq_exp_minus_1)

lemma unat_and_mask: "unat ((v :: 64 word) AND mask k) = unat v mod 2 ^ k"
proof -
  have "unat (v AND mask k) = unat (take_bit k v)" by (simp only: take_bit_eq_mask)
  also have "\<dots> = take_bit k (unat v)" by (rule unsigned_take_bit_eq)
  finally show ?thesis by (simp only: take_bit_eq_mod)
qed

lemma unat_of_nat_small: "n < 2 ^ 64 \<Longrightarrow> unat (of_nat n :: 64 word) = n"
  by (simp add: unsigned_of_nat take_bit_nat_eq_self_iff)

lemma bucket_at:
  assumes ok: "ht_ok ty ht" and sz: "ht_size ht = 2 ^ k"
  shows "\<exists>es. bucket ht (unat (v AND ht_mask ht)) = Some es \<and>
     (\<forall>e \<in># ht_entries ht. take_bit k (hash64 ty (de_key e)) = take_bit k v \<longrightarrow> e \<in> set es)"
proof -
  let ?i = "unat (v AND ht_mask ht)"
  have i: "?i = unat v mod 2 ^ k" by (simp add: ht_mask_eq [OF ok sz] unat_and_mask)
  then have b: "bucket ht ?i = Some (ht_table ht ! ?i)" using ok sz by (intro ht_bucket) auto
  have "e \<in> set (ht_table ht ! ?i)"
    if e: "e \<in># ht_entries ht" and t: "take_bit k (hash64 ty (de_key e)) = take_bit k v" for e
  proof -
    have "unat (hash64 ty (de_key e)) = unat (hashFunction ty (de_key e))"
    proof -
      have "unat (hashFunction ty (de_key e)) < 2 ^ 32" using unsigned_less [of "hashFunction ty (de_key e)"] by simp
      then show ?thesis by (simp add: hash64_def unsigned_ucast_eq take_bit_nat_eq_self_iff)
    qed
    moreover have "unat (hash64 ty (de_key e)) mod 2 ^ k = unat v mod 2 ^ k"
      using arg_cong [OF t, of unat] by (simp add: take_bit_eq_mask unat_and_mask)
    ultimately have "ht_index ht (hashFunction ty (de_key e)) = ?i"
      using ht_index_mod [OF ok, of "hashFunction ty (de_key e)"] sz i by simp
    with ht_entries_bucket [OF ok e] show ?thesis by simp
  qed
  with b show ?thesis by blast
qed

lemma next_cursor_bound:
  assumes k: "k \<le> 64"
  shows "(unat (rev_bits v) div 2 ^ (64 - k) + 1) * 2 ^ (64 - k) \<le> 2 ^ 64"
proof -
  let ?S = "2 ^ (64 - k) :: nat" and ?r = "unat (rev_bits v)"
  have "?r < 2 ^ 64" using unsigned_less [of "rev_bits v"] by simp
  also have "(2 :: nat) ^ 64 = 2 ^ k * ?S" using k by (simp flip: power_add)
  finally have "?r div ?S < 2 ^ k" by (simp add: less_mult_imp_div_less)
  then have "(?r div ?S + 1) * ?S \<le> 2 ^ k * ?S" by (intro mult_le_mono1) simp
  then show ?thesis using k by (simp flip: power_add)
qed

text \<open>A hash between the reversed cursors before and after agrees with the cursor on the masked bits.\<close>

lemma between_cursors:
  assumes k: "k \<le> 64" and lo: "unat (rev_bits v) \<le> unat (rev_bits h)"
    and hi: "v' = 0 \<or> unat (rev_bits h) < unat (rev_bits v')" and v': "v' = scan_next v (mask k)"
  shows "take_bit k h = take_bit k v"
proof -
  let ?S = "2 ^ (64 - k) :: nat" and ?r = "unat (rev_bits v)" and ?x = "unat (rev_bits h)"
  let ?n = "(?r div ?S + 1) * ?S"
  have "?x < 2 ^ 64" using unsigned_less [of "rev_bits h"] by simp
  note le = next_cursor_bound [OF k, of v]
  have "?x < ?n"
  proof (cases "?n = 2 ^ 64")
    case True
    then show ?thesis using \<open>?x < 2 ^ 64\<close> by simp
  next
    case False
    with le have "unat (of_nat ?n :: 64 word) = ?n" by (intro unat_of_nat_small) linarith
    then have "unat (rev_bits v') = ?n" using scan_next_rev [OF k, of v] v' by simp
    moreover have "v' \<noteq> 0"
    proof
      assume "v' = 0"
      with calculation show False by simp
    qed
    ultimately show ?thesis using hi by simp
  qed
  then have "?x div ?S < ?r div ?S + 1" by (simp only: less_mult_imp_div_less)
  moreover have "?r div ?S \<le> ?x div ?S" using lo by (rule div_le_mono)
  ultimately show ?thesis using rev_bits_prefix [OF k, of h v] by simp
qed

section \<open>The expansions of the cursor\<close>

lemma or_mask_plus: "(v :: 64 word) OR mask k = (v AND NOT (mask k)) + mask k"
proof -
  have "(v AND NOT (mask k)) + mask k = (v AND NOT (mask k)) OR mask k"
    by (rule disjunctive_add) (auto simp: bit_simps)
  moreover have "v OR mask k = (v AND NOT (mask k)) OR mask k" by (rule bit_word_eqI) (auto simp: bit_simps)
  ultimately show ?thesis by simp
qed

lemma and_not_mask_plus_exp:
  assumes k: "k < 64"
  shows "((v AND NOT (mask k)) + 2 ^ k) AND NOT (mask k) = (v AND NOT (mask k)) + (2 ^ k :: 64 word)"
proof -
  let ?a = "v AND NOT (mask k)"
  have "?a AND mask k = 0" by (rule bit_word_eqI) (simp add: bit_simps)
  then have a: "unat ?a mod 2 ^ k = 0" using unat_and_mask [of ?a k] by simp
  have "(2 :: nat) ^ k < 2 ^ 64" using k by (rule power_strict_increasing) simp
  then have "unat (2 ^ k :: 64 word) = 2 ^ k" using unat_of_nat_small [of "2 ^ k"] by simp
  then have u: "unat (?a + 2 ^ k) = (unat ?a + 2 ^ k) mod 2 ^ 64" by (simp add: unat_word_ariths)
  have dvd: "(2 :: nat) ^ k dvd 2 ^ 64" using k by (intro le_imp_power_dvd) simp
  have "unat (?a + 2 ^ k) mod 2 ^ k = (unat ?a + 2 ^ k) mod 2 ^ k" unfolding u by (rule mod_mod_cancel [OF dvd])
  also have "\<dots> = 0" using a by simp
  finally have "unat ((?a + 2 ^ k) AND mask k) = 0" by (simp only: unat_and_mask)
  then have "(?a + 2 ^ k) AND mask k = 0" by (simp only: unsigned_eq_0_iff)
  then have t: "take_bit k (?a + 2 ^ k) = 0" by (simp only: take_bit_eq_mask)
  have low: "\<not> bit ((v AND NOT (mask k)) + 2 ^ k) j" if "j < k" for j
    using bit_take_bit_iff [of k "?a + 2 ^ k" j] that unfolding t by simp
  show ?thesis
  proof (rule bit_word_eqI)
    fix j assume "j < LENGTH(64)"
    show "bit (((v AND NOT (mask k)) + 2 ^ k) AND NOT (mask k)) j = bit ((v AND NOT (mask k)) + 2 ^ k) j"
      using low [of j] \<open>j < LENGTH(64)\<close> by (cases "j < k") (simp_all only: bit_and_iff bit_not_iff bit_mask_iff, auto)
  qed
qed

text \<open>The increment of the loop adds the size of the smaller table.\<close>

lemma expand_increment:
  assumes k: "k < 64"
  shows "(((v OR mask k) + 1) AND NOT (mask k)) OR (v AND mask k) = (v :: 64 word) + 2 ^ k"
proof -
  let ?n = "v AND NOT (mask k)"
  have "(v OR mask k) + 1 = ?n + 2 ^ k" 
  proof -
    have "mask k + 1 = (2 ^ k :: 64 word)" by (simp add: mask_eq_exp_minus_1)
    then show ?thesis by (simp only: or_mask_plus add.assoc)
  qed
  then have "((v OR mask k) + 1) AND NOT (mask k) = ?n + 2 ^ k" by (simp only: and_not_mask_plus_exp [OF k])
  moreover have "(?n + 2 ^ k) OR (v AND mask k) = (?n + 2 ^ k) + (v AND mask k)"
  proof (rule disjunctive_add [symmetric])
    fix j
    have "\<not> bit (?n + 2 ^ k) j" if "j < k"
      using that arg_cong [OF and_not_mask_plus_exp [OF k, of v], of "\<lambda>w. bit w j"] by (auto simp: bit_simps)
    then show "\<not> bit (?n + 2 ^ k) j \<or> \<not> bit (v AND mask k) j" by (auto simp: bit_simps)
  qed
  moreover have "?n + (v AND mask k) = v"
  proof -
    have "?n + (v AND mask k) = ?n OR (v AND mask k)" by (rule disjunctive_add) (auto simp: bit_simps)
    also have "\<dots> = v" by (rule bit_word_eqI) (auto simp: bit_simps)
    finally show ?thesis .
  qed
  ultimately show ?thesis by (simp add: algebra_simps)
qed

lemma word_xor_eq_0: "(a :: 64 word) XOR b = 0 \<longleftrightarrow> a = b"
  by (auto simp: bit_eq_iff bit_simps)

lemma expand_stop:
  assumes w: "unat w = c + i * 2 ^ k0" and c: "c < 2 ^ k0" and k: "k0 \<le> k1" and i: "0 < i" "i \<le> 2 ^ (k1 - k0)"
  shows "w AND (mask k0 XOR mask k1) = (0 :: 64 word) \<longleftrightarrow> i = 2 ^ (k1 - k0)"
proof -
  have p: "(2 :: nat) ^ k1 = 2 ^ (k1 - k0) * 2 ^ k0" using k by (simp flip: power_add)
  have "w AND (mask k0 XOR mask k1) = (w AND mask k0) XOR (w AND mask k1)" by (rule bit_word_eqI) (auto simp: bit_simps)
  then have "w AND (mask k0 XOR mask k1) = 0 \<longleftrightarrow> w AND mask k0 = w AND mask k1" by (simp only: word_xor_eq_0)
  also have "\<dots> \<longleftrightarrow> unat w mod 2 ^ k0 = unat w mod 2 ^ k1"
    by (simp only: word_eq_iff_unsigned [where ?'a = nat] unat_and_mask)
  also have "unat w mod 2 ^ k0 = c" using w c by simp
  also have "c = unat w mod 2 ^ k1 \<longleftrightarrow> i = 2 ^ (k1 - k0)"
  proof (cases "i = 2 ^ (k1 - k0)")
    case True
    have "c < 2 ^ k1" using c k by (meson less_le_trans one_le_numeral power_increasing)
    moreover have "unat w = c + 2 ^ k1" using True w p by simp
    ultimately show ?thesis using True by simp
  next
    case False
    then have "i + 1 \<le> 2 ^ (k1 - k0)" using i by simp
    then have "(i + 1) * 2 ^ k0 \<le> 2 ^ k1" unfolding p by (rule mult_le_mono1)
    then have "unat w < 2 ^ k1" using w c by simp
    then show ?thesis using False w i c by simp
  qed
  finally show ?thesis .
qed

lemma scan_expand_spec:
  assumes ok: "ht_ok ty t1" and sz: "ht_size t1 = 2 ^ k1" and k: "k0 \<le> k1" "k1 \<le> 31"
    and v: "unat v = c + j * 2 ^ k0" and c: "c < 2 ^ k0" and j: "j < 2 ^ (k1 - k0)"
  shows "\<exists>es v'. scan_expand t1 (mask k0) (mask k1) v = Some (es, v') \<and> take_bit k0 v' = take_bit k0 v \<and>
     (\<forall>e \<in># ht_entries t1. take_bit k0 (hash64 ty (de_key e)) = take_bit k0 v \<and>
        j \<le> unat (hash64 ty (de_key e)) mod 2 ^ k1 div 2 ^ k0 \<longrightarrow> e \<in> set es)"
  using v j
proof (induction "2 ^ (k1 - k0) - j" arbitrary: v j)
  case 0
  then show ?case by simp
next
  case (Suc n)
  have p: "(2 :: nat) ^ k1 = 2 ^ (k1 - k0) * 2 ^ k0" using k by (simp flip: power_add)
  have "(j + 1) * 2 ^ k0 \<le> 2 ^ k1" unfolding p using Suc.prems(2) by (intro mult_le_mono1) simp
  then have vk: "unat v < 2 ^ k1" using Suc.prems(1) c by simp
  have k31: "(2 :: nat) ^ k1 \<le> 2 ^ 31" using k(2) by (rule power_increasing) simp
  obtain es where es: "bucket t1 (unat (v AND mask k1)) = Some es"
      "\<forall>e \<in># ht_entries t1. take_bit k1 (hash64 ty (de_key e)) = take_bit k1 v \<longrightarrow> e \<in> set es"
    using bucket_at [OF ok sz, of v] ht_mask_eq [OF ok sz] by auto
  let ?w = "v + 2 ^ k0"
  have "(2 :: nat) ^ k0 \<le> 2 ^ k1" using k(1) by (rule power_increasing) simp
  moreover have "(2 :: nat) ^ 31 + 2 ^ 31 < 2 ^ 64" by simp
  ultimately have small: "unat v + 2 ^ k0 < (2 :: nat) ^ 64" using k31 vk by linarith
  then have "unat (of_nat (2 ^ k0) :: 64 word) = 2 ^ k0" by (intro unat_of_nat_small) linarith
  with small have "unat ?w = unat v + 2 ^ k0" by (simp add: unat_word_ariths)
  then have w: "unat ?w = c + (j + 1) * 2 ^ k0" using Suc.prems(1) by simp
  have inc: "(((v OR mask k0) + 1) AND NOT (mask k0)) OR (v AND mask k0) = ?w"
    using k by (intro expand_increment) simp
  have stop: "?w AND (mask k0 XOR mask k1) = 0 \<longleftrightarrow> j + 1 = 2 ^ (k1 - k0)"
    by (rule expand_stop [OF w c k(1)]) (use Suc.prems(2) in auto)
  have tb: "take_bit k0 x = take_bit k0 y \<longleftrightarrow> unat x mod 2 ^ k0 = unat y mod 2 ^ k0" for x y :: "64 word"
    by (simp only: take_bit_eq_mask word_eq_iff_unsigned [where ?'a = nat] unat_and_mask)
  have tb1: "take_bit k1 x = take_bit k1 y \<longleftrightarrow> unat x mod 2 ^ k1 = unat y mod 2 ^ k1" for x y :: "64 word"
    by (simp only: take_bit_eq_mask word_eq_iff_unsigned [where ?'a = nat] unat_and_mask)
  have tw: "take_bit k0 ?w = take_bit k0 v" by (simp only: tb w Suc.prems(1) mod_mult_self1)
  have here: "e \<in> set es" if e: "e \<in># ht_entries t1" "take_bit k0 (hash64 ty (de_key e)) = take_bit k0 v"
      "unat (hash64 ty (de_key e)) mod 2 ^ k1 div 2 ^ k0 = j" for e
  proof -
    let ?h = "unat (hash64 ty (de_key e))"
    have "?h mod 2 ^ k1 mod 2 ^ k0 = ?h mod 2 ^ k0" using k(1) by (intro mod_mod_cancel le_imp_power_dvd)
    also have "\<dots> = c" using e(2) Suc.prems(1) c by (simp add: tb)
    finally have "?h mod 2 ^ k1 = c + j * 2 ^ k0" using e(3) by (metis add.commute div_mult_mod_eq)
    then have "take_bit k1 (hash64 ty (de_key e)) = take_bit k1 v" using Suc.prems(1) vk by (simp add: tb1)
    with es(2) e(1) show ?thesis by blast
  qed
  have top: "unat (hash64 ty (de_key e)) mod 2 ^ k1 div 2 ^ k0 < 2 ^ (k1 - k0)" for e :: "('a, 'b) dictEntry"
    by (rule less_mult_imp_div_less) (simp flip: p)
  show ?case
  proof (cases "j + 1 = 2 ^ (k1 - k0)")
    case True
    then have "scan_expand t1 (mask k0) (mask k1) v = Some (es, ?w)"
      by (subst scan_expand.simps) (simp add: es(1) inc stop)
    moreover have "e \<in> set es" if "e \<in># ht_entries t1" "take_bit k0 (hash64 ty (de_key e)) = take_bit k0 v"
        "j \<le> unat (hash64 ty (de_key e)) mod 2 ^ k1 div 2 ^ k0" for e
      using here [OF that(1,2)] that(3) top [of e] True by linarith
    ultimately show ?thesis using tw by blast
  next
    case False
    then have j1: "j + 1 < 2 ^ (k1 - k0)" using Suc.prems(2) by simp
    have "n = 2 ^ (k1 - k0) - (j + 1)" using Suc.hyps(2) by simp
    from Suc.hyps(1) [OF this w j1] obtain es' v' where r: "scan_expand t1 (mask k0) (mask k1) ?w = Some (es', v')"
        "take_bit k0 v' = take_bit k0 ?w"
        "\<forall>e \<in># ht_entries t1. take_bit k0 (hash64 ty (de_key e)) = take_bit k0 ?w \<and>
           j + 1 \<le> unat (hash64 ty (de_key e)) mod 2 ^ k1 div 2 ^ k0 \<longrightarrow> e \<in> set es'" by blast
    have "scan_expand t1 (mask k0) (mask k1) v = Some (es @ es', v')"
      using False by (subst scan_expand.simps) (simp add: es(1) inc stop r(1))
    moreover have "e \<in> set (es @ es')" if e: "e \<in># ht_entries t1" "take_bit k0 (hash64 ty (de_key e)) = take_bit k0 v"
        "j \<le> unat (hash64 ty (de_key e)) mod 2 ^ k1 div 2 ^ k0" for e
    proof (cases "unat (hash64 ty (de_key e)) mod 2 ^ k1 div 2 ^ k0 = j")
      case True
      then show ?thesis using here [OF e(1,2)] by simp
    next
      case False
      then have "j + 1 \<le> unat (hash64 ty (de_key e)) mod 2 ^ k1 div 2 ^ k0" using e(3) by simp
      with r(3) [rule_format, OF e(1)] e(2) tw show ?thesis by simp
    qed
    moreover have "take_bit k0 v' = take_bit k0 v" using r(2) tw by simp
    ultimately show ?thesis by (intro exI [of _ "es @ es'"] exI [of _ v']) blast
  qed
qed

section \<open>The guarantee\<close>

text \<open>The cursor is no leftover of a table larger than both tables of a rehashing dictionary.\<close>

definition cursor_ok :: "('k, 'v) dict \<Rightarrow> 64 word \<Rightarrow> bool" where
  "cursor_ok d v \<longleftrightarrow> \<not> dictIsRehashing d \<or> unat v < min (ht_size (d_ht0 d)) (ht_size (d_ht1 d))"

text \<open>The reversed hash of the entry lies between the reversed cursors; the cursor 0 after a call is the end.\<close>

definition scanned :: "64 word \<Rightarrow> 64 word \<Rightarrow> 64 word \<Rightarrow> bool" where
  "scanned v v' h \<longleftrightarrow> unat (rev_bits v) \<le> unat (rev_bits h) \<and> (v' = 0 \<or> unat (rev_bits h) < unat (rev_bits v'))"

lemma scan_next_cong:
  assumes "k \<le> 64" and "take_bit k v = take_bit k w"
  shows "scan_next v (mask k) = scan_next w (mask k)"
proof -
  have "rev_bits (scan_next v (mask k)) = rev_bits (scan_next w (mask k))"
    using scan_next_rev [OF assms(1)] rev_bits_prefix [OF assms(1), of v w] assms(2) by metis
  then show ?thesis by (metis rev_bits_rev_bits)
qed

lemma two_tables_scan:
  assumes ok: "ht_ok ty t0" "ht_ok ty t1" and sz: "ht_size t0 \<noteq> 0" "ht_size t0 \<le> ht_size t1" and v: "unat v < ht_size t0"
  shows "\<exists>es0 es1 w. bucket t0 (unat (v AND ht_mask t0)) = Some es0 \<and> scan_expand t1 (ht_mask t0) (ht_mask t1) v = Some (es1, w) \<and>
     (\<exists>k \<le> 64. ht_size t0 = 2 ^ k \<and> scan_next w (ht_mask t0) = scan_next v (mask k)) \<and>
     (\<forall>e \<in># ht_entries t0 + ht_entries t1.
        scanned v (scan_next w (ht_mask t0)) (hash64 ty (de_key e)) \<longrightarrow> e \<in> set (es0 @ es1))"
proof -
  obtain k0 k1 where k: "ht_size t0 = 2 ^ k0" "ht_size t1 = 2 ^ k1" "k1 \<le> 31"
    using ok sz by (auto simp: ht_ok_def)
  then have le: "k0 \<le> k1" using sz(2) by (simp add: power_increasing_iff)
  note m = ht_mask_eq [OF ok(1) k(1)] ht_mask_eq [OF ok(2) k(2)]
  obtain es0 where es0: "bucket t0 (unat (v AND ht_mask t0)) = Some es0"
      "\<forall>e \<in># ht_entries t0. take_bit k0 (hash64 ty (de_key e)) = take_bit k0 v \<longrightarrow> e \<in> set es0"
    using bucket_at [OF ok(1) k(1)] by blast
  have "unat v = unat v + 0 * 2 ^ k0" "unat v < 2 ^ k0" "(0 :: nat) < 2 ^ (k1 - k0)" using v k(1) by simp_all
  from scan_expand_spec [OF ok(2) k(2) le k(3) this] obtain es1 w where
      w: "scan_expand t1 (mask k0) (mask k1) v = Some (es1, w)" "take_bit k0 w = take_bit k0 v"
      "\<forall>e \<in># ht_entries t1. take_bit k0 (hash64 ty (de_key e)) = take_bit k0 v \<longrightarrow> e \<in> set es1" by auto
  have k64: "k0 \<le> 64" using le k(3) by simp
  have "take_bit k0 h = take_bit k0 v" if "scanned v (scan_next w (mask k0)) h" for h
    using that between_cursors [OF k64 _ _ refl, of v h] scan_next_cong [OF k64 w(2)] by (simp add: scanned_def)
  then have "\<forall>e \<in># ht_entries t0 + ht_entries t1.
      scanned v (scan_next w (ht_mask t0)) (hash64 ty (de_key e)) \<longrightarrow> e \<in> set (es0 @ es1)"
    using es0(2) w(3) unfolding m by auto
  moreover have "\<exists>k \<le> 64. ht_size t0 = 2 ^ k \<and> scan_next w (ht_mask t0) = scan_next v (mask k)"
    using k(1) k64 scan_next_cong [OF k64 w(2)] unfolding m by auto
  ultimately show ?thesis using es0(1) w(1) unfolding m by blast
qed

lemma dictScan_step:
  assumes inv: "dict_inv d" and v: "cursor_ok d v"
  shows "\<exists>v' es. dictScan d v = Some (v', es) \<and>
     (\<forall>e \<in># dict_mset d. scanned v v' (hash64 (d_type d) (de_key e)) \<longrightarrow> e \<in> set es) \<and>
     (v' = 0 \<or> (\<exists>k \<le> 64. v' = scan_next v (mask k) \<and>
        (dictIsRehashing d \<longrightarrow> min (ht_size (d_ht0 d)) (ht_size (d_ht1 d)) = 2 ^ k)))"
proof (cases "dict_mset d = {#}")
  case True
  then show ?thesis using dict_used [OF inv] by (simp add: dictScan_def dictSize_def)
next
  case ne: False
  let ?ty = "d_type d"
  have ok: "ht_ok ?ty (d_ht0 d)" "ht_ok ?ty (d_ht1 d)" using inv by (auto simp: dict_inv_def)
  have u: "dictSize d \<noteq> 0" using dict_used [OF inv] ne by (auto simp: dictSize_def)
  show ?thesis
  proof (cases "dictIsRehashing d")
    case False
    then have m: "dict_mset d = ht_entries (d_ht0 d)" using inv by (simp add: dict_inv_def dict_mset_split)
    then obtain e where "e \<in># ht_entries (d_ht0 d)" using ne by (metis multiset_nonemptyE)
    then have "ht_size (d_ht0 d) \<noteq> 0" using ht_entries_bucket [OF ok(1)] by blast
    then obtain k where k: "ht_size (d_ht0 d) = 2 ^ k" "k \<le> 64" using ok(1) by (auto simp: ht_ok_def)
    obtain es where es: "bucket (d_ht0 d) (unat (v AND ht_mask (d_ht0 d))) = Some es"
        "\<forall>e \<in># ht_entries (d_ht0 d). take_bit k (hash64 ?ty (de_key e)) = take_bit k v \<longrightarrow> e \<in> set es"
      using bucket_at [OF ok(1) k(1)] by blast
    have "take_bit k h = take_bit k v" if "scanned v (scan_next v (mask k)) h" for h
      using that between_cursors [OF k(2) _ _ refl, of v h] by (simp add: scanned_def)
    then have "\<forall>e \<in># dict_mset d. scanned v (scan_next v (ht_mask (d_ht0 d))) (hash64 ?ty (de_key e)) \<longrightarrow> e \<in> set es"
      using es(2) unfolding m ht_mask_eq [OF ok(1) k(1)] by blast
    then show ?thesis using u False es(1) k(2) ht_mask_eq [OF ok(1) k(1)] by (auto simp: dictScan_def Let_def)
  next
    case True
    have sz: "ht_size (d_ht0 d) \<noteq> 0" "ht_size (d_ht1 d) \<noteq> 0" using inv True by (auto simp: dict_inv_def)
    have vs: "unat v < ht_size (d_ht0 d)" "unat v < ht_size (d_ht1 d)" using v True by (auto simp: cursor_ok_def)
    show ?thesis
    proof (cases "ht_size (d_ht0 d) > ht_size (d_ht1 d)")
      case gt: True
      then obtain es0 es1 w where r: "bucket (d_ht1 d) (unat (v AND ht_mask (d_ht1 d))) = Some es0"
          "scan_expand (d_ht0 d) (ht_mask (d_ht1 d)) (ht_mask (d_ht0 d)) v = Some (es1, w)"
          "\<forall>e \<in># ht_entries (d_ht1 d) + ht_entries (d_ht0 d).
             scanned v (scan_next w (ht_mask (d_ht1 d))) (hash64 ?ty (de_key e)) \<longrightarrow> e \<in> set (es0 @ es1)"
          "\<exists>k \<le> 64. ht_size (d_ht1 d) = 2 ^ k \<and> scan_next w (ht_mask (d_ht1 d)) = scan_next v (mask k)"
        using two_tables_scan [OF ok(2,1) sz(2) _ vs(2)] by auto
      have "dictScan d v = Some (scan_next w (ht_mask (d_ht1 d)), es0 @ es1)"
        using u True gt r(1,2) by (simp add: dictScan_def)
      moreover have "dict_mset d = ht_entries (d_ht1 d) + ht_entries (d_ht0 d)" by (simp add: dict_mset_split add.commute)
      moreover have "min (ht_size (d_ht0 d)) (ht_size (d_ht1 d)) = ht_size (d_ht1 d)" using gt by simp
      ultimately show ?thesis using r(3,4) by (intro exI conjI) (assumption, simp only:, metis)
    next
      case le: False
      then obtain es0 es1 w where r: "bucket (d_ht0 d) (unat (v AND ht_mask (d_ht0 d))) = Some es0"
          "scan_expand (d_ht1 d) (ht_mask (d_ht0 d)) (ht_mask (d_ht1 d)) v = Some (es1, w)"
          "\<forall>e \<in># ht_entries (d_ht0 d) + ht_entries (d_ht1 d).
             scanned v (scan_next w (ht_mask (d_ht0 d))) (hash64 ?ty (de_key e)) \<longrightarrow> e \<in> set (es0 @ es1)"
          "\<exists>k \<le> 64. ht_size (d_ht0 d) = 2 ^ k \<and> scan_next w (ht_mask (d_ht0 d)) = scan_next v (mask k)"
        using two_tables_scan [OF ok sz(1) _ vs(1)] by auto
      have "dictScan d v = Some (scan_next w (ht_mask (d_ht0 d)), es0 @ es1)"
        using u True le r(1,2) by (simp add: dictScan_def)
      moreover have "min (ht_size (d_ht0 d)) (ht_size (d_ht1 d)) = ht_size (d_ht0 d)" using le by simp
      ultimately show ?thesis using r(3,4) dict_mset_split [of d] by (intro exI conjI) (assumption, simp only:, metis)
    qed
  qed
qed

text \<open>Cursors grow in the reversed order and stay below the size of the table they were computed for.\<close>

lemma scan_next_grows:
  assumes k: "k \<le> 64" and ne: "scan_next v (mask k) \<noteq> 0"
  shows "unat (rev_bits v) < unat (rev_bits (scan_next v (mask k)))" and "take_bit k (scan_next v (mask k)) = scan_next v (mask k)"
proof -
  let ?S = "2 ^ (64 - k) :: nat" and ?r = "unat (rev_bits v)" and ?v' = "scan_next v (mask k)"
  let ?n = "(?r div ?S + 1) * ?S"
  have R: "rev_bits ?v' = of_nat ?n" by (rule scan_next_rev [OF k])
  note le = next_cursor_bound [OF k, of v]
  have "?n \<noteq> 2 ^ 64"
  proof
    assume "?n = 2 ^ 64"
    then have "rev_bits ?v' = of_nat (2 ^ 64)" using R by (simp only:)
    also have "(of_nat (2 ^ 64) :: 64 word) = 0" by simp
    finally show False using ne by (metis rev_bits_0 rev_bits_rev_bits)
  qed
  with le have n: "unat (rev_bits ?v') = ?n" unfolding R by (intro unat_of_nat_small) linarith
  have "?r < ?n" by (metis Suc_eq_plus1 dividend_less_times_div mult.commute mult_Suc zero_less_numeral zero_less_power)
  with n show "?r < unat (rev_bits ?v')" by simp
  have "\<not> bit ?v' j" if j: "k \<le> j" "j < 64" for j
  proof -
    have "take_bit (64 - k) (rev_bits ?v') = 0"
    proof -
      have "unat (take_bit (64 - k) (rev_bits ?v')) = ?n mod ?S"
        by (simp only: take_bit_eq_mask unat_and_mask n)
      also have "\<dots> = 0" by simp
      finally show ?thesis by (simp only: unsigned_eq_0_iff)
    qed
    then have "\<not> bit (rev_bits ?v') (63 - j)" using j k bit_take_bit_iff [of "64 - k" "rev_bits ?v'" "63 - j"] by auto
    then show ?thesis using j by (simp add: bit_rev_bits)
  qed
  then have "bit ?v' j \<Longrightarrow> j < 64 \<Longrightarrow> j < k" for j by (meson linorder_not_le)
  then show "take_bit k ?v' = ?v'" by (intro bit_word_eqI) (auto simp: bit_take_bit_iff)
qed

section \<open>A whole iteration\<close>

text \<open>One call per state of the dictionary, each with the cursor the last one returned.\<close>

fun scan_seq :: "('k, 'v) dict list \<Rightarrow> 64 word \<Rightarrow> (64 word \<times> ('k, 'v) dictEntry list) option" where
  "scan_seq [] v = Some (v, [])"
| "scan_seq (d # ds) v = do {
     (v1, es) \<leftarrow> dictScan d v;
     (v2, es') \<leftarrow> scan_seq ds v1;
     Some (v2, es @ es')
   }"

text \<open>A complete iteration from cursor \<open>v\<close>: the calls go on until the cursor is 0 again.\<close>

fun scan_complete :: "('k, 'v) dict list \<Rightarrow> 64 word \<Rightarrow> bool" where
  "scan_complete [] v \<longleftrightarrow> False"
| "scan_complete (d # ds) v \<longleftrightarrow>
     cursor_ok d v \<and>
     (case dictScan d v of None \<Rightarrow> False
      | Some (v', es) \<Rightarrow> if v' = 0 then ds = [] else scan_complete ds v')"

lemma scan_complete_seq: "scan_complete ds v \<Longrightarrow> \<exists>es. scan_seq ds v = Some (0, es)"
proof (induction ds arbitrary: v)
  case (Cons d ds)
  then obtain v' es where r: "dictScan d v = Some (v', es)" "if v' = 0 then ds = [] else scan_complete ds v'"
    by (auto split: option.splits)
  then have "\<exists>es'. scan_seq ds v' = Some (0, es')" using Cons.IH [of v'] by (cases "v' = 0") auto
  with r(1) show ?case by auto
qed simp

lemma scan_seq_covers:
  assumes "scan_complete ds v" and "\<forall>d \<in> set ds. dict_inv d \<and> d_type d = ty"
    and "\<forall>d \<in> set ds. \<exists>e \<in> set (dict_entries d). de_key e = k"
    and "unat (rev_bits v) \<le> unat (rev_bits (hash64 ty k))"
  shows "\<exists>es. scan_seq ds v = Some (0, es) \<and> (\<exists>e \<in> set es. de_key e = k)"
  using assms
proof (induction ds arbitrary: v)
  case (Cons d ds)
  have inv: "dict_inv d" "d_type d = ty" "cursor_ok d v" using Cons.prems by auto
  obtain v' es where r: "dictScan d v = Some (v', es)"
      "\<forall>e \<in># dict_mset d. scanned v v' (hash64 ty (de_key e)) \<longrightarrow> e \<in> set es"
    using dictScan_step [OF inv(1,3)] inv(2) by auto
  obtain e where e: "e \<in> set (dict_entries d)" "de_key e = k" using Cons.prems(3) by auto
  have now: "e \<in> set es" if "v' = 0 \<or> unat (rev_bits (hash64 ty k)) < unat (rev_bits v')"
    using r(2) e that Cons.prems(4) by (auto simp: scanned_def)
  show ?case
  proof (cases "v' = 0")
    case True
    then have "ds = []" using Cons.prems(1) r(1) by simp
    with True r(1) now e(2) show ?thesis by auto
  next
    case False
    then have c: "scan_complete ds v'" using Cons.prems(1) r(1) by simp
    show ?thesis
    proof (cases "unat (rev_bits v') \<le> unat (rev_bits (hash64 ty k))")
      case True
      with Cons.IH [OF c] Cons.prems(2,3) r(1) show ?thesis by auto
    next
      case less: False
      obtain es' where "scan_seq ds v' = Some (0, es')" using scan_complete_seq [OF c] by blast
      with r(1) now less e(2) show ?thesis by auto
    qed
  qed
qed simp

text \<open>On a dictionary that does not change the iteration ends.\<close>

lemma scan_fixed_ends:
  assumes inv: "dict_inv d" and "cursor_ok d v"
  shows "\<exists>n. scan_complete (replicate n d) v"
  using assms(2)
proof (induction "2 ^ 64 - unat (rev_bits v)" arbitrary: v rule: less_induct)
  case less
  obtain v' es where r: "dictScan d v = Some (v', es)"
      "v' = 0 \<or> (\<exists>k \<le> 64. v' = scan_next v (mask k) \<and>
        (dictIsRehashing d \<longrightarrow> min (ht_size (d_ht0 d)) (ht_size (d_ht1 d)) = 2 ^ k))"
    using dictScan_step [OF inv less.prems] by blast
  show ?case
  proof (cases "v' = 0")
    case True
    then have "scan_complete (replicate 1 d) v" using less.prems r(1) by simp
    then show ?thesis by blast
  next
    case False
    with r(2) obtain k where k: "k \<le> 64" "v' = scan_next v (mask k)"
      "dictIsRehashing d \<longrightarrow> min (ht_size (d_ht0 d)) (ht_size (d_ht1 d)) = 2 ^ k" by blast
    note g = scan_next_grows [OF k(1), of v, folded k(2), OF False]
    have "unat v' = unat v' mod 2 ^ k" using unat_and_mask [of v' k] g(2) by (simp add: take_bit_eq_mask)
    then have "unat v' < 2 ^ k" by (metis mod_less_divisor zero_less_numeral zero_less_power)
    then have "cursor_ok d v'" using k(3) by (auto simp: cursor_ok_def)
    moreover have "unat (rev_bits v') < 2 ^ 64" using unsigned_less [of "rev_bits v'"] by simp
    moreover from this g(1) have "2 ^ 64 - unat (rev_bits v') < 2 ^ 64 - unat (rev_bits v)"
      by (intro diff_less_mono2) linarith+
    ultimately obtain n where "scan_complete (replicate n d) v'" using less.hyps [of v'] by blast
    then have "scan_complete (replicate (Suc n) d) v" using less.prems r(1) False by simp
    then show ?thesis by blast
  qed
qed

section \<open>Properties\<close>

text \<open>C1. The guarantee of \<open>dictScan\<close>: take any sequence of states of a dictionary, one per call, with the
  insertions, deletions, growth and rehashing that happened in between, and iterate from cursor 0 until
  the cursor is 0 again. If no call runs on a rehashing dictionary with a cursor beyond its smaller table,
  every call is defined and each key that is in the dictionary all the time is returned at least once.\<close>

theorem dictScan_guarantee:
  assumes "scan_complete ds 0" and "\<forall>d \<in> set ds. dict_inv d \<and> d_type d = ty"
    and "\<forall>d \<in> set ds. \<exists>e \<in> set (dict_entries d). de_key e = k"
  shows "\<exists>es. scan_seq ds 0 = Some (0, es) \<and> (\<exists>e \<in> set es. de_key e = k)"
  by (rule scan_seq_covers [OF assms]) simp

definition scan_type :: "(nat, nat) dictType" where
  "scan_type = \<lparr>hashFunction = of_nat, keyDup = None, valDup = None, keyCompare = None,
     keyDestructor = False, valDestructor = False\<rparr>"

definition scan_example :: "(nat, nat) dict" where
  "scan_example = (dictCreate scan_type)\<lparr>d_ht0 :=
     \<lparr>ht_table = replicate 4 [] @ [[\<lparr>de_addr = 1, de_key = 4, de_val = 9\<rparr>]] @ replicate 11 [],
      ht_size = 16, ht_sizemask = 15, ht_used = 1\<rparr>\<rparr>"

lemma scan_example_inv: "dict_inv scan_example"
proof -
  have l: "i < 16 \<Longrightarrow> (replicate 4 [] @ [x] @ replicate 11 [] :: (nat, nat) dictEntry list list) ! i = (if i = 4 then x else [])" for i x
    by (auto simp: nth_append nth_Cons')
  have "ht_ok scan_type (d_ht0 scan_example)"
    unfolding ht_ok_def scan_example_def scan_type_def
    by (auto simp: l ht_index_def dictCreate_def simp del: append.simps intro: exI [of _ 4])
  moreover have "entries_ok scan_type (mset (dict_entries scan_example))"
    by (simp add: entries_ok_def keys_once_def dict_entries_def scan_example_def dictCreate_def)
  ultimately show ?thesis
    by (simp add: dict_inv_def dictIsRehashing_def) (simp add: scan_example_def dictCreate_def)
qed

lemma scan_example_entries: "dict_entries scan_example = [\<lparr>de_addr = 1, de_key = 4, de_val = 9\<rparr>]"
  by (simp add: dict_entries_def scan_example_def dictCreate_def)

theorem dictScan_guarantee_witness:
  "\<exists>n es. scan_seq (replicate n scan_example) 0 = Some (0, es) \<and> (\<exists>e \<in> set es. de_key e = 4)"
proof -
  have "cursor_ok scan_example 0" by (simp add: cursor_ok_def dictIsRehashing_def scan_example_def dictCreate_def)
  then obtain n where n: "scan_complete (replicate n scan_example) 0" using scan_fixed_ends [OF scan_example_inv] by blast
  from dictScan_guarantee [OF n, of "d_type scan_example" 4] scan_example_inv scan_example_entries show ?thesis by auto
qed

lemma scan_next_mask:
  "k \<le> 64 \<Longrightarrow> scan_next v (mask k) = rev_bits ((rev_bits v OR mask (64 - k)) + 1)"
  by (simp add: scan_next_def Let_def rev_bits_or_not_mask)

lemma scan_next_eval: "scan_next 0 15 = 8" "scan_next 16 3 = 2" "scan_next 18 3 = 1" "scan_next 17 3 = 3" "scan_next 19 3 = 0"
proof -
  have m: "(mask 4 :: 64 word) = 15" "(mask 2 :: 64 word) = 3" "mask 60 = (0xFFFFFFFFFFFFFFF :: 64 word)"
    "mask 62 = (0x3FFFFFFFFFFFFFFF :: 64 word)"
    by (simp_all add: mask_eq_exp_minus_1)
  have a: "scan_next v 15 = rev_bits ((rev_bits v OR 0xFFFFFFFFFFFFFFF) + 1)" for v
    using scan_next_mask [of 4 v] by (simp add: m)
  have b: "scan_next v 3 = rev_bits ((rev_bits v OR 0x3FFFFFFFFFFFFFFF) + 1)" for v
    using scan_next_mask [of 2 v] by (simp add: m)
  show "scan_next 0 15 = 8" "scan_next 16 3 = 2" "scan_next 18 3 = 1" "scan_next 17 3 = 3" "scan_next 19 3 = 0"
    by (simp_all add: a b rev_bits_rounds round_bits_def)
qed

text \<open>The dictionary above while it shrinks to four buckets.\<close>

definition scan_shrunk :: "(nat, nat) dict" where
  "scan_shrunk = scan_example\<lparr>d_ht1 := \<lparr>ht_table = replicate 4 [], ht_size = 4, ht_sizemask = 3, ht_used = 0\<rparr>,
     d_rehashidx := 0\<rparr>"

lemma scan_shrunk_resize: "dictResize True scan_example = Some (True, scan_shrunk)"
proof -
  have "dictNextPower_loop 4 4 = Some 4" by (subst dictNextPower_loop.simps) simp
  moreover have "s32 1 = 1" by (simp add: s32_id)
  ultimately show ?thesis
    by (simp add: dictResize_def dictExpand_def dictNextPower_def dictIsRehashing_def scan_example_def dictCreate_def
        scan_shrunk_def)
qed

definition scan_t16 :: "(nat, nat) dictht" where
  "scan_t16 = d_ht0 scan_example"

lemma scan_t16_bucket: "i < 16 \<Longrightarrow> i \<noteq> 4 \<Longrightarrow> bucket scan_t16 i = Some []"
  by (auto simp: bucket_def scan_t16_def scan_example_def nth_append nth_Cons')

lemma scan_expand_t16:
  "scan_expand scan_t16 3 15 8 = Some ([], 16)" "scan_expand scan_t16 3 15 2 = Some ([], 18)"
  "scan_expand scan_t16 3 15 1 = Some ([], 17)" "scan_expand scan_t16 3 15 3 = Some ([], 19)"
proof -
  have stop: "scan_expand scan_t16 3 15 v = Some ([], w)"
    if "bucket scan_t16 (unat (v AND 15)) = Some []" "(((v OR 3) + 1) AND NOT 3) OR (v AND 3) = w" "w AND 12 = 0" for v w
    using that by (subst scan_expand.simps) simp
  have step: "scan_expand scan_t16 3 15 v = Some ([], u)"
    if "bucket scan_t16 (unat (v AND 15)) = Some []" "(((v OR 3) + 1) AND NOT 3) OR (v AND 3) = w" "w AND 12 \<noteq> 0"
      "scan_expand scan_t16 3 15 w = Some ([], u)" for v w u
    using that by (subst scan_expand.simps) simp
  have 12: "scan_expand scan_t16 3 15 12 = Some ([], 16)" by (rule stop) (simp_all add: scan_t16_bucket)
  show "scan_expand scan_t16 3 15 8 = Some ([], 16)" by (rule step [OF _ _ _ 12]) (simp_all add: scan_t16_bucket)
  have 14: "scan_expand scan_t16 3 15 14 = Some ([], 18)" by (rule stop) (simp_all add: scan_t16_bucket)
  have 10: "scan_expand scan_t16 3 15 10 = Some ([], 18)" by (rule step [OF _ _ _ 14]) (simp_all add: scan_t16_bucket)
  have 6: "scan_expand scan_t16 3 15 6 = Some ([], 18)" by (rule step [OF _ _ _ 10]) (simp_all add: scan_t16_bucket)
  show "scan_expand scan_t16 3 15 2 = Some ([], 18)" by (rule step [OF _ _ _ 6]) (simp_all add: scan_t16_bucket)
  have 13: "scan_expand scan_t16 3 15 13 = Some ([], 17)" by (rule stop) (simp_all add: scan_t16_bucket)
  have 9: "scan_expand scan_t16 3 15 9 = Some ([], 17)" by (rule step [OF _ _ _ 13]) (simp_all add: scan_t16_bucket)
  have 5: "scan_expand scan_t16 3 15 5 = Some ([], 17)" by (rule step [OF _ _ _ 9]) (simp_all add: scan_t16_bucket)
  show "scan_expand scan_t16 3 15 1 = Some ([], 17)" by (rule step [OF _ _ _ 5]) (simp_all add: scan_t16_bucket)
  have 15: "scan_expand scan_t16 3 15 15 = Some ([], 19)" by (rule stop) (simp_all add: scan_t16_bucket)
  have 11: "scan_expand scan_t16 3 15 11 = Some ([], 19)" by (rule step [OF _ _ _ 15]) (simp_all add: scan_t16_bucket)
  have 7: "scan_expand scan_t16 3 15 7 = Some ([], 19)" by (rule step [OF _ _ _ 11]) (simp_all add: scan_t16_bucket)
  show "scan_expand scan_t16 3 15 3 = Some ([], 19)" by (rule step [OF _ _ _ 7]) (simp_all add: scan_t16_bucket)
qed

lemma scan_shrunk_step:
  assumes "scan_expand scan_t16 3 15 v = Some ([], w)" and "unat (v AND 3) < 4"
  shows "dictScan scan_shrunk v = Some (scan_next w 3, [])"
proof -
  have "bucket (d_ht1 scan_shrunk) (unat (v AND 3)) = Some []"
    using assms(2) by (simp add: bucket_def scan_shrunk_def)
  moreover have "d_ht0 scan_shrunk = scan_t16" by (simp add: scan_shrunk_def scan_t16_def)
  moreover have "dictSize scan_shrunk = 1" "dictIsRehashing scan_shrunk" "ht_size scan_t16 = 16"
    "ht_size (d_ht1 scan_shrunk) = 4" "ht_mask scan_t16 = 15" "ht_mask (d_ht1 scan_shrunk) = 3"
    by (simp_all add: dictSize_def dictIsRehashing_def ht_mask_def scan_shrunk_def scan_example_def scan_t16_def dictCreate_def)
  ultimately show ?thesis using assms(1) by (simp add: dictScan_def Let_def)
qed

text \<open>C35. The guarantee does not hold without that condition: when a dictionary starts to shrink to less than half
  between two calls, an iteration from 0 back to 0 can miss a key that was there all the time. The comment
  of the function says that all such keys are returned.\<close>

theorem dictScan_misses_when_shrinking:
  "\<exists>d1 d2 :: (nat, nat) dict. dict_inv d1 \<and> dictResize True d1 = Some (True, d2) \<and> dict_inv d2 \<and>
     4 \<in> de_key ` set (dict_entries d1) \<and> 4 \<in> de_key ` set (dict_entries d2) \<and>
     scan_seq [d1, d2, d2, d2, d2] 0 = Some (0, [])"
proof -
  have s1: "dictScan scan_example 0 = Some (8, [])"
  proof -
    have "bucket (d_ht0 scan_example) 0 = Some []" using scan_t16_bucket [of 0] by (simp add: scan_t16_def)
    moreover have "ht_mask (d_ht0 scan_example) = 15" by (simp add: ht_mask_def scan_example_def)
    ultimately show ?thesis
      by (simp add: dictScan_def scan_next_eval Let_def) (simp add: dictSize_def dictIsRehashing_def scan_example_def dictCreate_def)
  qed
  have s2: "dictScan scan_shrunk 8 = Some (2, [])" "dictScan scan_shrunk 2 = Some (1, [])"
    "dictScan scan_shrunk 1 = Some (3, [])" "dictScan scan_shrunk 3 = Some (0, [])"
    by (simp_all add: scan_shrunk_step [OF scan_expand_t16(1)] scan_shrunk_step [OF scan_expand_t16(2)]
        scan_shrunk_step [OF scan_expand_t16(3)] scan_shrunk_step [OF scan_expand_t16(4)] scan_next_eval)
  have "dict_inv scan_shrunk" "same_contents scan_example scan_shrunk"
    using dictExpand_ok [OF scan_example_inv, of 4] scan_shrunk_resize
    by (auto simp: dictResize_def s32_id scan_example_def dictCreate_def dictIsRehashing_def)
  moreover from this(2) have "set (dict_entries scan_shrunk) = set (dict_entries scan_example)"
    by (metis same_contents_def set_mset_mset)
  ultimately show ?thesis using scan_example_inv scan_shrunk_resize scan_example_entries s1 s2
    by (intro exI [of _ scan_example] exI [of _ scan_shrunk]) simp
qed

text \<open>C32. On a dictionary that does not change between the calls, rehashing or not, the iteration that starts
  with cursor 0 comes back to 0 and returns every entry.\<close>

theorem dictScan_fixed:
  assumes "dict_inv d"
  shows "\<exists>n es. scan_seq (replicate n d) 0 = Some (0, es) \<and> (\<forall>e \<in> set (dict_entries d). \<exists>f \<in> set es. de_key f = de_key e)"
proof -
  have "cursor_ok d 0" using assms by (auto simp: cursor_ok_def dict_inv_def)
  then obtain n where n: "scan_complete (replicate n d) 0" using scan_fixed_ends [OF assms] by blast
  obtain es where es: "scan_seq (replicate n d) 0 = Some (0, es)" using scan_complete_seq [OF n] by blast
  have "\<exists>f \<in> set es. de_key f = de_key e" if e: "e \<in> set (dict_entries d)" for e
    using scan_seq_covers [OF n, of "d_type d" "de_key e"] assms e es by auto
  with es show ?thesis by blast
qed

theorem dictScan_fixed_witness:
  "\<exists>n es. scan_seq (replicate n scan_example) 0 = Some (0, es) \<and> (\<exists>f \<in> set es. de_key f = 4)"
  using dictScan_fixed [OF scan_example_inv] scan_example_entries by auto

end
