(* ===== verification/Glob.thy ===== *)
theory Glob
  imports Prelude "HOL-Library.Monad_Syntax"
begin

text \<open>
  Glob-style matching of \<^verbatim>\<open>util.c\<close> (\<open>stringmatchlen\<close>, \<open>stringmatch\<close>). The two buffers are the bytes
  with their terminating zero; the moving pointers are positions in them, the two lengths the C
  \<open>int\<close>s the code decrements. A read outside a buffer and the decrement of the least \<open>int\<close> are
  \<open>None\<close>. Every pass of every loop reads the pattern at a position that grows, so the model is a
  total function. The reference is a parser of the pattern into tokens and the textbook matching
  of a token list.
\<close>

section \<open>Model\<close>

definition idec :: "int \<Rightarrow> int option" where
  "idec n = (if n \<le> INT32_MIN then None else Some (n - 1))"

text \<open>\<open>while (pattern[1] == '*')\<close> and \<open>while (*pattern == '*')\<close>\<close>

function skip_next_stars :: "bytes \<Rightarrow> nat \<Rightarrow> int \<Rightarrow> (nat \<times> int) option" where
  "skip_next_stars pb pi pl =
     do { c \<leftarrow> rd pb (Suc pi);
          if c = 42 then do { pl \<leftarrow> idec pl; skip_next_stars pb (Suc pi) pl } else Some (pi, pl) }"
  by pat_completeness auto
termination
  by (relation "measure (\<lambda>(pb, pi, pl). length pb - pi)") (auto dest: rd_less)

function skip_stars :: "bytes \<Rightarrow> nat \<Rightarrow> int \<Rightarrow> (nat \<times> int) option" where
  "skip_stars pb pi pl =
     do { c \<leftarrow> rd pb pi;
          if c = 42 then do { pl \<leftarrow> idec pl; skip_stars pb (Suc pi) pl } else Some (pi, pl) }"
  by pat_completeness auto
termination
  by (relation "measure (\<lambda>(pb, pi, pl). length pb - pi)") (auto dest: rd_less)

declare skip_next_stars.simps [simp del] skip_stars.simps [simp del]

text \<open>The comparison of one pattern byte with one string byte.\<close>

definition char_eq :: "bool \<Rightarrow> byte \<Rightarrow> byte \<Rightarrow> bool" where
  "char_eq nocase a b \<longleftrightarrow> (if nocase then tolower a = tolower b else a = b)"

definition in_range :: "bool \<Rightarrow> byte \<Rightarrow> byte \<Rightarrow> byte \<Rightarrow> bool" where
  "in_range nocase start fin c =
     (let (a, b) = (if schar start > schar fin then (fin, start) else (start, fin));
          (a, b, c) = (if nocase then (tolower a, tolower b, tolower c) else (a, b, c))
      in schar a \<le> schar c \<and> schar c \<le> schar b)"

text \<open>The \<open>while(1)\<close> loop inside \<open>'['\<close>.\<close>

function class_loop :: "bytes \<Rightarrow> bytes \<Rightarrow> bool \<Rightarrow> nat \<Rightarrow> nat \<Rightarrow> int \<Rightarrow> bool \<Rightarrow> (nat \<times> int \<times> bool) option" where
  "class_loop pb sb nocase si pi pl m =
     do { c \<leftarrow> rd pb pi;
          if c = 92 then do {
            pl \<leftarrow> idec pl; d \<leftarrow> rd pb (Suc pi); x \<leftarrow> rd sb si; pl \<leftarrow> idec pl;
            class_loop pb sb nocase si (Suc (Suc pi)) pl (m \<or> d = x)
          }
          else if c = 93 then Some (pi, pl, m)
          else if pl = 0 then Some (pi - 1, pl + 1, m)
          else do {
            n \<leftarrow> rd pb (Suc pi);
            if n = 45 \<and> 3 \<le> pl then do {
              e \<leftarrow> rd pb (Suc (Suc pi)); x \<leftarrow> rd sb si;
              class_loop pb sb nocase si (pi + 3) (pl - 3) (m \<or> in_range nocase c e x)
            }
            else do {
              x \<leftarrow> rd sb si; pl \<leftarrow> idec pl;
              class_loop pb sb nocase si (Suc pi) pl (m \<or> char_eq nocase c x)
            }
          } }"
  by pat_completeness auto
termination
  by (relation "measure (\<lambda>(pb, sb, nocase, si, pi, pl, m). length pb - pi)") (auto dest!: rd_less)

declare class_loop.simps [simp del]

text \<open>One pattern element other than a star: \<open>Some None\<close> is \<open>return 0\<close>, otherwise the new pointers
  and lengths before the closing \<open>pattern++\<close>.\<close>

definition match_elem :: "bytes \<Rightarrow> bytes \<Rightarrow> bool \<Rightarrow> nat \<Rightarrow> int \<Rightarrow> nat \<Rightarrow> int \<Rightarrow>
    (nat \<times> int \<times> nat \<times> int) option option" where
  "match_elem pb sb nocase pi pl si sl =
     do { c \<leftarrow> rd pb pi;
          if c = 63 then
            (if sl = 0 then Some None
             else do { sl \<leftarrow> idec sl; Some (Some (pi, pl, Suc si, sl)) })
          else if c = 91 then do {
            pl \<leftarrow> idec pl;
            d \<leftarrow> rd pb (Suc pi);
            (pi, pl) \<leftarrow> (if d = 94 then do { pl \<leftarrow> idec pl; Some (Suc (Suc pi), pl) } else Some (Suc pi, pl));
            (pi, pl, m) \<leftarrow> class_loop pb sb nocase si pi pl False;
            (if (if d = 94 then \<not> m else m)
             then do { sl \<leftarrow> idec sl; Some (Some (pi, pl, Suc si, sl)) }
             else Some None)
          }
          else do {
            (pi, pl) \<leftarrow> (if c = 92 \<and> 2 \<le> pl then Some (Suc pi, pl - 1) else Some (pi, pl));
            c \<leftarrow> rd pb pi;
            x \<leftarrow> rd sb si;
            (if char_eq nocase c x then do { sl \<leftarrow> idec sl; Some (Some (pi, pl, Suc si, sl)) }
             else Some None)
          } }"

lemma skip_next_stars_ge: "skip_next_stars pb pi pl = Some (pi', pl') \<Longrightarrow> pi \<le> pi' \<and> pi' < length pb"
  by (induction pb pi pl rule: skip_next_stars.induct, subst (asm) (2) skip_next_stars.simps)
    (fastforce simp: bind_eq_Some_conv dest: rd_less split: if_splits)

lemma class_loop_ge: "class_loop pb sb nocase si pi pl m = Some (pi', pl', m') \<Longrightarrow> pi - 1 \<le> pi'"
  by (induction pb sb nocase si pi pl m rule: class_loop.induct, subst (asm) (4) class_loop.simps)
    (fastforce simp: bind_eq_Some_conv split: if_splits)

lemma match_elem_ge:
  "match_elem pb sb nocase pi pl si sl = Some (Some (pi', pl', si', sl')) \<Longrightarrow> pi \<le> pi' \<and> pi < length pb"
  by (auto simp: match_elem_def bind_eq_Some_conv dest: rd_less class_loop_ge split: if_splits)

text \<open>The outer loop, and the loop behind a star that tries every suffix of the string (it runs with
  the pattern pointer on a star, hence inside the pattern).\<close>

function (sequential) smatch :: "bytes \<Rightarrow> bytes \<Rightarrow> bool \<Rightarrow> nat \<Rightarrow> int \<Rightarrow> nat \<Rightarrow> int \<Rightarrow> bool option"
  and star_loop :: "bytes \<Rightarrow> bytes \<Rightarrow> bool \<Rightarrow> nat \<Rightarrow> int \<Rightarrow> nat \<Rightarrow> int \<Rightarrow> bool option" where
  "smatch pb sb nocase pi pl si sl =
     (if pl = 0 then Some (sl = 0)
      else do {
        c \<leftarrow> rd pb pi;
        if c = 42 then do {
          (pi, pl) \<leftarrow> skip_next_stars pb pi pl;
          if pl = 1 then Some True else star_loop pb sb nocase pi pl si sl
        }
        else do {
          r \<leftarrow> match_elem pb sb nocase pi pl si sl;
          case r of
            None \<Rightarrow> Some False
          | Some (pi, pl, si, sl) \<Rightarrow> do {
              pl \<leftarrow> idec pl;
              if sl = 0 then do {
                (pi, pl) \<leftarrow> skip_stars pb (Suc pi) pl;
                Some (pl = 0)
              }
              else smatch pb sb nocase (Suc pi) pl si sl
            }
        }
      })"
| "star_loop pb sb nocase pi pl si sl =
     (if sl = 0 then Some False
      else do {
        pl1 \<leftarrow> idec pl;
        b \<leftarrow> (if pi < length pb then smatch pb sb nocase (Suc pi) pl1 si sl else None);
        if b then Some True
        else do {
          sl1 \<leftarrow> idec sl;
          star_loop pb sb nocase pi pl (Suc si) sl1
        }
      })"
  by pat_completeness auto
termination
  apply (relation "measures [\<lambda>x. (case x of Inl (pb, sb, nocase, pi, pl, si, sl) \<Rightarrow> 2 * (length pb - pi)
        | Inr (pb, sb, nocase, pi, pl, si, sl) \<Rightarrow> 2 * (length pb - pi) - 1),
      \<lambda>x. (case x of Inl (pb, sb, nocase, pi, pl, si, sl) \<Rightarrow> 0
        | Inr (pb, sb, nocase, pi, pl, si, sl) \<Rightarrow> nat (sl - INT32_MIN))]")
     apply simp
    apply (auto dest!: skip_next_stars_ge)[1]
   apply (auto dest!: match_elem_ge)[1]
  apply (auto simp: idec_def split: if_splits)
  done

declare smatch.simps [simp del] star_loop.simps [simp del]

definition stringmatchlen :: "bytes \<Rightarrow> int \<Rightarrow> bytes \<Rightarrow> int \<Rightarrow> bool \<Rightarrow> bool option" where
  "stringmatchlen pb patternLen sb stringLen nocase = smatch pb sb nocase 0 patternLen 0 stringLen"

definition stringmatch :: "bytes \<Rightarrow> bytes \<Rightarrow> bool \<Rightarrow> bool option" where
  "stringmatch p s nocase =
     stringmatchlen (p @ [0]) (s32 (int (length p))) (s @ [0]) (s32 (int (length s))) nocase"

section \<open>Reference: tokens of a pattern and their meaning\<close>

datatype citem = Exact byte | One byte | Range byte byte

datatype gtok = Star | Any | Cls bool "citem list" | Chr byte

text \<open>The items of a bracket expression up to its closing bracket or the end of the pattern;
  a pattern that ends in a backslash there has no meaning.\<close>

function cparse :: "bytes \<Rightarrow> (citem list \<times> bytes) option" where
  "cparse [] = Some ([], [])"
| "cparse (c # r) =
     (if c = 92 then
        (if r = [] then None else map_option (apfst (Cons (Exact (hd r)))) (cparse (tl r)))
      else if c = 93 then Some ([], r)
      else if hd r = 45 \<and> 2 \<le> length r
        then map_option (apfst (Cons (Range c (hd (tl r))))) (cparse (tl (tl r)))
      else map_option (apfst (Cons (One c))) (cparse r))"
  by pat_completeness auto
termination
  by (relation "measure length") auto

lemma cparse_length: "cparse r = Some (is, rest) \<Longrightarrow> length rest \<le> length r"
  by (induction r arbitrary: "is" rest rule: cparse.induct) (fastforce split: if_splits)+

function gparse :: "bytes \<Rightarrow> gtok list option" where
  "gparse [] = Some []"
| "gparse (c # r) =
     (if c = 42 then map_option (Cons Star) (gparse r)
      else if c = 63 then map_option (Cons Any) (gparse r)
      else if c = 91 then
        (let neg = r \<noteq> [] \<and> hd r = 94
         in case cparse (if neg then tl r else r) of
              None \<Rightarrow> None
            | Some (its, rest) \<Rightarrow> map_option (Cons (Cls neg its)) (gparse rest))
      else if c = 92 \<and> r \<noteq> [] then map_option (Cons (Chr (hd r))) (gparse (tl r))
      else map_option (Cons (Chr c)) (gparse r))"
  by pat_completeness auto
termination
  by (relation "measure length") (auto dest!: cparse_length split: if_splits)

fun imatch :: "bool \<Rightarrow> citem \<Rightarrow> byte \<Rightarrow> bool" where
  "imatch nocase (Exact d) x = (d = x)"
| "imatch nocase (One c) x = char_eq nocase c x"
| "imatch nocase (Range a b) x = in_range nocase a b x"

fun tmatch :: "bool \<Rightarrow> gtok \<Rightarrow> byte \<Rightarrow> bool" where
  "tmatch nocase Star x = False"
| "tmatch nocase Any x = True"
| "tmatch nocase (Cls neg its) x = (list_ex (\<lambda>i. imatch nocase i x) its \<noteq> neg)"
| "tmatch nocase (Chr c) x = char_eq nocase c x"

fun gmatch :: "bool \<Rightarrow> gtok list \<Rightarrow> bytes \<Rightarrow> bool" where
  "gmatch nocase [] s = (s = [])"
| "gmatch nocase (Star # ts) [] = gmatch nocase ts []"
| "gmatch nocase (Star # ts) (x # s) = (gmatch nocase ts (x # s) \<or> gmatch nocase (Star # ts) s)"
| "gmatch nocase (t # ts) [] = False"
| "gmatch nocase (t # ts) (x # s) = (tmatch nocase t x \<and> gmatch nocase ts s)"

section \<open>The code implements the reference\<close>

lemma idec_ok [simp]: "INT32_MIN < n \<Longrightarrow> idec n = Some (n - 1)"
  by (simp add: idec_def)

lemma rd_pattern: "i \<le> length p \<Longrightarrow> rd (p @ [0]) i = Some (case drop i p of [] \<Rightarrow> 0 | c # _ \<Rightarrow> c)"
proof (cases "i = length p")
  case False
  assume "i \<le> length p"
  with False have "i < length p" by simp
  then show ?thesis by (simp add: rd_def nth_append Cons_nth_drop_Suc [symmetric])
qed (simp add: rd_def nth_append)

lemma drop_ConsD: "drop i p = c # r \<Longrightarrow> i < length p \<and> drop (Suc i) p = r"
  by (metis drop_Suc drop_eq_Nil list.sel(3) list.distinct(1) not_le tl_drop)

lemma class_loop_ok:
  assumes x: "rd sb si = Some x" and pl: "int (length p) \<le> INT32_MAX"
  shows "\<lbrakk>cparse (drop pi p) = Some (its, rest); pi \<le> length p; 0 < pi\<rbrakk> \<Longrightarrow>
    \<exists>pi'. class_loop (p @ [0]) sb nc si pi (int (length p) - int pi) m =
        Some (pi', int (length p) - int pi', m \<or> list_ex (\<lambda>i. imatch nc i x) its) \<and>
      pi' < length p \<and> pi \<le> Suc pi' \<and> rest = drop (Suc pi') p"
proof (induction "length p - pi" arbitrary: pi m its rest rule: less_induct)
  case less
  let ?P = "\<lambda>q m its. \<exists>pi'. class_loop (p @ [0]) sb nc si q (int (length p) - int q) m =
        Some (pi', int (length p) - int pi', m \<or> list_ex (\<lambda>i. imatch nc i x) its) \<and>
      pi' < length p \<and> q \<le> Suc pi' \<and> rest = drop (Suc pi') p"
  have IH: "?P q m its'" if "pi < q" "q \<le> length p" "cparse (drop q p) = Some (its', rest)" for q m its'
    using less.hyps [of q its' rest m] that by auto
  show ?case
  proof (cases "drop pi p")
    case Nil
    then have "pi = length p" using less.prems by simp
    then show ?thesis using less.prems
      by (subst class_loop.simps) (simp add: rd_pattern of_nat_diff Suc_le_eq)
  next
    case (Cons c r)
    note D = drop_ConsD [OF Cons]
    have len: "length r = length p - Suc pi" using D by (metis length_drop)
    note S = class_loop.simps [of "p @ [0]" sb nc si pi]
    have rd0: "rd (p @ [0]) pi = Some c" using D Cons by (simp add: rd_pattern)
    have rd1: "rd (p @ [0]) (Suc pi) = Some (case r of [] \<Rightarrow> 0 | d # _ \<Rightarrow> d)"
      using D by (simp add: rd_pattern)
    consider "c = 92" | "c = 93" | "c \<noteq> 92" "c \<noteq> 93" "hd r = 45" "2 \<le> length r"
      | "c \<noteq> 92" "c \<noteq> 93" "\<not> (hd r = 45 \<and> 2 \<le> length r)" by blast
    then show ?thesis
    proof cases
      case 1
      then obtain d r' its' where r: "r = d # r'" and i: "cparse r' = Some (its', rest)" "its = Exact d # its'"
        using less.prems(1) Cons by (cases r) auto
      have D2: "Suc pi < length p \<and> drop (Suc (Suc pi)) p = r'"
        using drop_ConsD [of "Suc pi" p d r'] D r by simp
      have "?P (Suc (Suc pi)) (m \<or> d = x) its'" using IH [of "Suc (Suc pi)" its' "m \<or> d = x"] D2 i by simp
      then show ?thesis using 1 rd0 rd1 r x pl D2 less.prems i
        by (elim exE, intro exI, subst S) (auto simp: algebra_simps)
    next
      case 2
      then show ?thesis using rd0 less.prems Cons D by (subst S) auto
    next
      case 3
      then obtain e r' where r: "r = 45 # e # r'" by (cases r; cases "tl r") auto
      have D2: "pi + 2 < length p \<and> drop (pi + 3) p = r'" and rd2: "rd (p @ [0]) (Suc (Suc pi)) = Some e"
        using drop_ConsD [of "Suc pi" p 45 "e # r'"] drop_ConsD [of "Suc (Suc pi)" p e r'] D r
        by (auto simp: rd_pattern eval_nat_numeral)
      obtain its' where i: "cparse r' = Some (its', rest)" "its = Range c e # its'"
        using less.prems(1) Cons 3 r by auto
      have "?P (pi + 3) (m \<or> in_range nc c e x) its'"
        using IH [of "pi + 3" its' "m \<or> in_range nc c e x"] D2 i by simp
      then show ?thesis using 3 rd0 rd1 rd2 r x pl D2 less.prems i
        by (elim exE, intro exI, subst S) (auto simp: algebra_simps)
    next
      case 4
      obtain its' where i: "cparse r = Some (its', rest)" "its = One c # its'"
        using less.prems(1) Cons 4 by (auto split: if_splits)
      have "?P (Suc pi) (m \<or> char_eq nc c x) its'"
        using IH [of "Suc pi" its' "m \<or> char_eq nc c x"] D i by simp
      moreover have "\<not> ((case r of [] \<Rightarrow> 0 | d # _ \<Rightarrow> d) = 45 \<and> 3 \<le> int (length p) - int pi)"
        using 4(3) D len by (cases r) auto
      ultimately show ?thesis using 4 rd0 rd1 x pl D less.prems i
        by (elim exE, intro exI, subst S) (auto simp: algebra_simps)
    qed
  qed
qed

text \<open>A pattern element that is not a star consumes its token and one byte of the string.\<close>

lemma match_elem_ok:
  assumes pl: "int (length p) \<le> INT32_MAX" and sl: "INT32_MIN < sl" "t = Any \<longrightarrow> sl \<noteq> 0"
    and x: "rd sb si = Some x"
    and c: "drop pi p = c # r" "c \<noteq> 42" and g: "gparse (c # r) = Some (t # ts)"
  shows "\<exists>pi'. match_elem (p @ [0]) sb nc pi (int (length p) - int pi) si sl =
        Some (if tmatch nc t x then Some (pi', int (length p) - int pi', Suc si, sl - 1) else None) \<and>
      pi \<le> pi' \<and> pi' < length p \<and> gparse (drop (Suc pi') p) = Some ts"
proof -
  note D = drop_ConsD [OF c(1)]
  have rd0: "rd (p @ [0]) pi = Some c" using D c by (simp add: rd_pattern)
  have rd1: "rd (p @ [0]) (Suc pi) = Some (case r of [] \<Rightarrow> 0 | d # _ \<Rightarrow> d)"
    using D by (simp add: rd_pattern)
  have tl1: "r = d # r' \<Longrightarrow> Suc pi < length p \<and> drop (Suc (Suc pi)) p = r'" for d r'
    using drop_ConsD [of "Suc pi" p] D by simp
  consider "c = 63" | "c = 91" | "c \<noteq> 63" "c \<noteq> 91" "c = 92" "r \<noteq> []"
    | "c \<noteq> 63" "c \<noteq> 91" "\<not> (c = 92 \<and> r \<noteq> [])" by blast
  then show ?thesis
  proof cases
    case 1
    then show ?thesis using rd0 sl g D by (auto simp: match_elem_def)
  next
    case 2
    let ?ng = "r \<noteq> [] \<and> hd r = 94"
    let ?q = "if ?ng then Suc (Suc pi) else Suc pi"
    have q: "drop ?q p = (if ?ng then tl r else r)" "?q \<le> length p"
      using D tl1 by (cases r; auto)+
    obtain its rest where i: "cparse (drop ?q p) = Some (its, rest)"
      and t: "t = Cls ?ng its" "gparse rest = Some ts"
      using g c 2 q by (auto simp: Let_def split: option.splits)
    obtain pi' where C: "class_loop (p @ [0]) sb nc si ?q (int (length p) - int ?q) False =
        Some (pi', int (length p) - int pi', False \<or> list_ex (\<lambda>i. imatch nc i x) its)"
      and P: "pi' < length p" "?q \<le> Suc pi'" "rest = drop (Suc pi') p"
    proof -
      have "0 < ?q" by simp
      from class_loop_ok [OF x pl i q(2) this, of nc False] that show ?thesis by blast
    qed
    have ng: "((case r of [] \<Rightarrow> 0 | d # _ \<Rightarrow> d) = 94) = ?ng" by (cases r) auto
    have "match_elem (p @ [0]) sb nc pi (int (length p) - int pi) si sl =
        Some (if tmatch nc t x then Some (pi', int (length p) - int pi', Suc si, sl - 1) else None)"
    proof -
      have ne: "(91 :: byte) \<noteq> 63" by simp
      have e1: "int (length p) - int pi - 1 = int (length p) - int (Suc pi)"
        "int (length p) - int (Suc pi) - 1 = int (length p) - int (Suc (Suc pi))" by simp_all
      have b: "INT32_MIN < int (length p) - int pi" "INT32_MIN < int (length p) - int (Suc pi)"
        using D by linarith+
      show ?thesis
        using 2 rd0 rd1 sl pl C t D b ne unfolding match_elem_def
        by (cases ?ng) (simp_all add: ng e1 del: of_nat_Suc, blast+)
    qed
    then show ?thesis using P t by (intro exI [of _ pi']) (auto split: if_splits)
  next
    case 3
    then obtain d r' where r: "r = d # r'" by (cases r) auto
    then show ?thesis using 3 rd0 rd1 x sl pl g c tl1 [OF r] 
      by (intro exI [of _ "Suc pi"]) (auto simp: match_elem_def)
  next
    case 4
    have "\<not> (c = 92 \<and> 2 \<le> int (length p) - int pi)"
      using 4 D by auto
    then show ?thesis using 4 rd0 x sl pl g c D
      by (intro exI [of _ pi]) (auto simp: match_elem_def)
  qed
qed

abbreviation unstar :: "bytes \<Rightarrow> bytes" where
  "unstar \<equiv> dropWhile (\<lambda>b. b = 42)"

lemma skip_stars_ok:
  "pi \<le> length p \<Longrightarrow> int (length p) \<le> INT32_MAX \<Longrightarrow>
    \<exists>pi'. skip_stars (p @ [0]) pi (int (length p) - int pi) = Some (pi', int (length p) - int pi') \<and>
      pi' \<le> length p \<and> drop pi' p = unstar (drop pi p)"
proof (induction "length p - pi" arbitrary: pi rule: less_induct)
  case less
  show ?case
  proof (cases "drop pi p")
    case Nil
    then show ?thesis using less.prems by (subst skip_stars.simps) (simp add: rd_pattern)
  next
    case (Cons c r)
    note D = drop_ConsD [OF Cons]
    have "c = 42 \<Longrightarrow> ?thesis"
      using less.hyps [of "Suc pi"] less.prems Cons D
      by (subst skip_stars.simps) (auto simp: rd_pattern algebra_simps)
    moreover have "c \<noteq> 42 \<Longrightarrow> ?thesis"
      using less.prems Cons by (subst skip_stars.simps) (auto simp: rd_pattern)
    ultimately show ?thesis by blast
  qed
qed

lemma skip_next_stars_ok:
  "drop pi p = 42 # r \<Longrightarrow> int (length p) \<le> INT32_MAX \<Longrightarrow>
    \<exists>pi'. skip_next_stars (p @ [0]) pi (int (length p) - int pi) = Some (pi', int (length p) - int pi') \<and>
      pi \<le> pi' \<and> drop pi' p = 42 # unstar r"
proof (induction "length p - pi" arbitrary: pi r rule: less_induct)
  case less
  note D = drop_ConsD [OF less.prems(1)]
  show ?case
  proof (cases r)
    case Nil
    then show ?thesis using less.prems D by (subst skip_next_stars.simps) (simp add: rd_pattern)
  next
    case (Cons d r')
    have "d = 42 \<Longrightarrow> ?thesis"
      using less.hyps [of "Suc pi" r'] less.prems Cons D
      by (subst skip_next_stars.simps) (fastforce simp: rd_pattern algebra_simps dest: Suc_leD)
    moreover have "d \<noteq> 42 \<Longrightarrow> ?thesis"
      using less.prems Cons D by (subst skip_next_stars.simps) (auto simp: rd_pattern)
    ultimately show ?thesis by blast
  qed
qed

section \<open>Laws of the reference\<close>

lemma gparse_Cons_not_star:
  "gparse (c # r) = Some ts \<Longrightarrow> c \<noteq> 42 \<Longrightarrow> \<exists>t ts'. ts = t # ts' \<and> t \<noteq> Star"
  by (auto simp: Let_def split: if_splits option.splits)

lemma gmatch_star_ex: "gmatch nc (Star # ts) s \<longleftrightarrow> (\<exists>k \<le> length s. gmatch nc ts (drop k s))"
proof (induction s)
  case (Cons x s)
  have "(\<exists>k \<le> Suc (length s). gmatch nc ts (drop k (x # s))) \<longleftrightarrow>
      gmatch nc ts (x # s) \<or> (\<exists>k \<le> length s. gmatch nc ts (drop k s))"
    by (metis drop_0 drop_Suc_Cons Suc_le_mono le0 not0_implies_Suc)
  then show ?case using Cons by simp
qed simp

lemma gmatch_star_star: "gmatch nc (Star # Star # ts) s = gmatch nc (Star # ts) s"
  by (induction s) auto

lemma gparse_unstar:
  "gparse r = Some ts \<Longrightarrow> \<exists>ts'. gparse (unstar r) = Some ts' \<and> gmatch nc (Star # ts) s = gmatch nc (Star # ts') s"
proof (induction r arbitrary: ts)
  case (Cons c r)
  then show ?case by (cases "c = 42") (fastforce simp: gmatch_star_star)+
qed simp

lemma gmatch_nonstar_Nil: "t \<noteq> Star \<Longrightarrow> \<not> gmatch nc (t # ts) []"
  by (cases t) auto

lemma gmatch_nonstar_Cons: "t \<noteq> Star \<Longrightarrow> gmatch nc (t # ts) (x # s) = (tmatch nc t x \<and> gmatch nc ts s)"
  by (cases t) auto

lemma gmatch_empty: "gparse r = Some ts \<Longrightarrow> gmatch nc ts [] \<longleftrightarrow> unstar r = []"
proof (induction r arbitrary: ts)
  case (Cons c r)
  show ?case
  proof (cases "c = 42")
    case True
    then show ?thesis using Cons by auto
  next
    case False
    then show ?thesis using gparse_Cons_not_star [OF Cons.prems False] gmatch_nonstar_Nil by auto
  qed
qed auto

section \<open>Main result\<close>

lemma rd_string: "i < length s \<Longrightarrow> rd (s @ [0]) i = Some (s ! i)"
  by (simp add: rd_def nth_append)

text \<open>The loop behind a star tries the suffixes from the longest to the last non-empty one.\<close>

lemma star_loop_ok:
  assumes f: "\<And>si. si < length s \<Longrightarrow>
      smatch (p @ [0]) (s @ [0]) nc (Suc pi) (int (length p) - int (Suc pi)) si (int (length s) - int si) =
        Some (gmatch nc ts (drop si s))"
    and n: "\<not> gmatch nc ts []" and pi: "pi < length p"
    and b: "int (length p) \<le> INT32_MAX" "int (length s) \<le> INT32_MAX"
  shows "si \<le> length s \<Longrightarrow>
    star_loop (p @ [0]) (s @ [0]) nc pi (int (length p) - int pi) si (int (length s) - int si) =
      Some (gmatch nc (Star # ts) (drop si s))"
proof (induction "length s - si" arbitrary: si rule: less_induct)
  case less
  show ?case
  proof (cases "si = length s")
    case True
    then show ?thesis using n by (subst star_loop.simps) simp
  next
    case False
    then have si: "si < length s" using less.prems by simp
    have e: "int (length s) - int si - 1 = int (length s) - int (Suc si)"
      "int (length p) - int pi - 1 = int (length p) - int (Suc pi)" by simp_all
    have ih: "star_loop (p @ [0]) (s @ [0]) nc pi (int (length p) - int pi) (Suc si)
        (int (length s) - int (Suc si)) = Some (gmatch nc (Star # ts) (drop (Suc si) s))"
      using less.hyps [of "Suc si"] si by simp
    have d: "gmatch nc (Star # ts) (drop si s) \<longleftrightarrow>
        gmatch nc ts (drop si s) \<or> gmatch nc (Star # ts) (drop (Suc si) s)"
      using si by (simp add: Cons_nth_drop_Suc [symmetric])
    show ?thesis
      using f [OF si] ih si pi b
      by (subst star_loop.simps) (simp add: e d del: of_nat_Suc gmatch.simps)
  qed
qed

lemma smatch_ok:
  assumes b: "int (length p) \<le> INT32_MAX" "int (length s) \<le> INT32_MAX"
  shows "\<lbrakk>gparse (drop pi p) = Some ts; pi \<le> length p; si < length s\<rbrakk> \<Longrightarrow>
    smatch (p @ [0]) (s @ [0]) nc pi (int (length p) - int pi) si (int (length s) - int si) =
      Some (gmatch nc ts (drop si s))"
proof (induction "length p - pi" arbitrary: pi ts si rule: less_induct)
  case less
  note x = rd_string [OF less.prems(3)]
  note S = smatch.simps [of "p @ [0]" "s @ [0]" nc pi]
  show ?case
  proof (cases "drop pi p")
    case Nil
    then show ?thesis using less.prems by (subst S) simp
  next
    case (Cons c r)
    note D = drop_ConsD [OF Cons]
    have rd0: "rd (p @ [0]) pi = Some c" using D Cons by (simp add: rd_pattern)
    have ne: "int (length p) - int pi \<noteq> 0" using D by simp
    show ?thesis
    proof (cases "c = 42")
      case True
      obtain ts0 where ts0: "gparse r = Some ts0" "ts = Star # ts0" using less.prems Cons True by auto
      obtain q where q: "skip_next_stars (p @ [0]) pi (int (length p) - int pi) = Some (q, int (length p) - int q)"
        "pi \<le> q" "drop q p = 42 # unstar r"
        using skip_next_stars_ok [of pi p r] Cons True b by auto
      note Q = drop_ConsD [OF q(3)]
      obtain ts1 where ts1: "gparse (unstar r) = Some ts1"
        "gmatch nc (Star # ts0) (drop si s) = gmatch nc (Star # ts1) (drop si s)"
        using gparse_unstar [OF ts0(1)] by blast
      show ?thesis
      proof (cases "unstar r")
        case Nil
        then have "length p = Suc q" using Q by (metis Suc_leI drop_eq_Nil le_antisym)
        then have "int (length p) - int q = 1" by simp
        moreover have "gmatch nc (Star # ts1) (drop si s)"
          unfolding gmatch_star_ex using ts1 Nil by (intro exI [of _ "length (drop si s)"]) simp
        ultimately show ?thesis using True rd0 ne q(1) ts0(2) ts1(2)
          by (subst S) (simp del: gmatch.simps)
      next
        case (Cons d r')
        then have "d \<noteq> 42" using hd_dropWhile [of "\<lambda>b. b = 42" r] by simp
        then have n: "\<not> gmatch nc ts1 []"
          using gparse_Cons_not_star [of d r'] ts1(1) Cons gmatch_nonstar_Nil by metis
        have q1: "int (length p) - int q \<noteq> 1" using Q Cons
          by (metis One_nat_def diff_eq_eq drop_eq_Nil int_ops(2) list.distinct(1) of_nat_add of_nat_eq_iff order_refl plus_1_eq_Suc)
        have "star_loop (p @ [0]) (s @ [0]) nc q (int (length p) - int q) si (int (length s) - int si) =
            Some (gmatch nc (Star # ts1) (drop si s))"
        proof (rule star_loop_ok [OF _ n _ b])
          show "smatch (p @ [0]) (s @ [0]) nc (Suc q) (int (length p) - int (Suc q)) si
              (int (length s) - int si) = Some (gmatch nc ts1 (drop si s))" if "si < length s" for si
          proof -
            have "length p - Suc q < length p - pi" using Q q(2) by linarith
            then show ?thesis using less.hyps [of "Suc q" ts1 si] that Q ts1(1) by simp
          qed
        qed (use Q less.prems in auto)
        then show ?thesis using True rd0 ne q q1 ts0 ts1 by (subst S) (simp del: gmatch.simps)
      qed
    next
      case False
      obtain t ts' where t: "ts = t # ts'" "t \<noteq> Star"
        using gparse_Cons_not_star [of c r] less.prems Cons False by metis
      have sl: "INT32_MIN < int (length s) - int si" "t = Any \<longrightarrow> int (length s) - int si \<noteq> 0"
        using less.prems b by auto
      obtain q where q: "match_elem (p @ [0]) (s @ [0]) nc pi (int (length p) - int pi) si (int (length s) - int si) =
          Some (if tmatch nc t (s ! si) then Some (q, int (length p) - int q, Suc si, int (length s) - int si - 1) else None)"
        "pi \<le> q" "q < length p" "gparse (drop (Suc q) p) = Some ts'"
        using match_elem_ok [OF b(1) sl x Cons False] less.prems Cons t by metis
      have e: "int (length p) - int q - 1 = int (length p) - int (Suc q)"
        "int (length s) - int si - 1 = int (length s) - int (Suc si)" by simp_all
      have i: "idec (int (length p) - int q) = Some (int (length p) - int (Suc q))" using q e by simp
      have g: "gmatch nc ts (drop si s) \<longleftrightarrow> tmatch nc t (s ! si) \<and> gmatch nc ts' (drop (Suc si) s)"
        using less.prems(3) t by (simp add: Cons_nth_drop_Suc [symmetric] gmatch_nonstar_Cons)
      show ?thesis
      proof (cases "Suc si = length s")
        case True
        obtain w where w: "skip_stars (p @ [0]) (Suc q) (int (length p) - int (Suc q)) = Some (w, int (length p) - int w)"
          "w \<le> length p" "drop w p = unstar (drop (Suc q) p)"
          using skip_stars_ok [of "Suc q" p] q b by auto
        have "gmatch nc ts' (drop (Suc si) s) \<longleftrightarrow> int (length p) - int w = 0"
        proof -
          have "gmatch nc ts' (drop (Suc si) s) \<longleftrightarrow> drop w p = []"
            using gmatch_empty [OF q(4), of nc] True unfolding w(3) by simp
          also have "\<dots> \<longleftrightarrow> int (length p) - int w = 0" using w(2) by auto
          finally show ?thesis .
        qed
        then show ?thesis using False rd0 ne q(1) i w(1) True g
          by (subst S) (simp add: e del: of_nat_Suc)
      next
        case False2: False
        have "smatch (p @ [0]) (s @ [0]) nc (Suc q) (int (length p) - int (Suc q)) (Suc si)
            (int (length s) - int (Suc si)) = Some (gmatch nc ts' (drop (Suc si) s))"
          using less.hyps [of "Suc q" ts' "Suc si"] q less.prems False2 by simp
        moreover have "int (length s) - int (Suc si) \<noteq> 0" using False2 by simp
        ultimately show ?thesis using False rd0 ne q(1) i g
          by (subst S) (simp add: e del: of_nat_Suc)
      qed
    qed
  qed
qed

text \<open>On the empty string the code reads the terminating zero of the string as if it were a
  character: a bracket expression or literal that matches the zero byte goes wrong.\<close>

definition empty_safe :: "bool \<Rightarrow> gtok list \<Rightarrow> bool" where
  "empty_safe nc ts \<longleftrightarrow> (case ts of [] \<Rightarrow> True | t # _ \<Rightarrow> t = Star \<or> t = Any \<or> \<not> tmatch nc t 0)"

lemma smatch_empty:
  assumes b: "int (length p) \<le> INT32_MAX" and g: "gparse p = Some ts" and e: "empty_safe nc ts"
  shows "smatch (p @ [0]) [0] nc 0 (int (length p)) 0 0 = Some (gmatch nc ts [])"
proof (cases p)
  case Nil
  then show ?thesis using g by (subst smatch.simps) simp
next
  case (Cons c r)
  have rd0: "rd (p @ [0]) 0 = Some c" using Cons by (simp add: rd_def)
  show ?thesis
  proof (cases "c = 42")
    case True
    obtain q where q: "skip_next_stars (p @ [0]) 0 (int (length p)) = Some (q, int (length p) - int q)"
      "drop q p = 42 # unstar r"
      using skip_next_stars_ok [of 0 p r] Cons True b by auto
    have "int (length p) - int q = 1 \<longleftrightarrow> unstar r = []"
    proof -
      have l: "length p - q = Suc (length (unstar r))" using arg_cong [OF q(2), of length] by simp
      moreover from this have "q \<le> length p" by linarith
      ultimately have "int (length p) - int q = int (Suc (length (unstar r)))"
        by (metis of_nat_diff)
      then show ?thesis by auto
    qed
    then show ?thesis
      using True rd0 q Cons gmatch_empty [OF g, of nc]
      by (subst smatch.simps, subst star_loop.simps) simp
  next
    case False
    then obtain t ts' where t: "ts = t # ts'" "t \<noteq> Star"
      using gparse_Cons_not_star [of c r] g Cons by metis
    have m: "match_elem (p @ [0]) [0] nc 0 (int (length p)) 0 0 = Some None"
    proof (cases "t = Any")
      case True
      then have "c = 63" using g Cons False t by (auto simp: Let_def split: if_splits option.splits)
      then show ?thesis using rd0 by (simp add: match_elem_def)
    next
      case any: False
      have "\<not> tmatch nc t 0" using e t any by (simp add: empty_safe_def)
      then show ?thesis
        using match_elem_ok [OF b, of 0 t "[0]" 0 0 0 c r ts' nc] any g Cons False t by (auto simp: rd_def)
    qed
    show ?thesis
      using rd0 Cons False m t gmatch_nonstar_Nil [of t nc ts'] by (subst smatch.simps) simp
  qed
qed

section \<open>Properties\<close>

text \<open>C3. \<open>stringmatch\<close> returns, without reading outside the two strings, what the token semantics of
  the pattern says: stars, question marks, bracket expressions with ranges, negation and escapes,
  escaped and plain characters, in both case modes. The pattern must not end in a backslash inside
  a bracket expression; a non-empty string needs nothing else, the empty string needs a pattern
  whose first element does not match a zero byte.\<close>

theorem stringmatch_correct:
  assumes "int (length p) \<le> INT32_MAX" and "int (length s) \<le> INT32_MAX"
    and "gparse p = Some ts" and "s = [] \<Longrightarrow> empty_safe nc ts"
  shows "stringmatch p s nc = Some (gmatch nc ts s)"
proof (cases s)
  case Nil
  then show ?thesis using smatch_empty [OF assms(1,3)] assms
    by (simp add: stringmatch_def stringmatchlen_def)
next
  case (Cons c s')
  then show ?thesis using smatch_ok [OF assms(1,2), of 0 ts 0 nc] assms
    by (simp add: stringmatch_def stringmatchlen_def)
qed

theorem stringmatch_correct_witness:
  "gparse (lit ''h*[^a-c]?'') = Some [Chr 104, Star, Cls True [Range 97 99], Any] \<and>
   stringmatch (lit ''h*[^a-c]?'') (lit ''hello'') False =
     Some (gmatch False [Chr 104, Star, Cls True [Range 97 99], Any] (lit ''hello''))"
proof -
  have g: "gparse (lit ''h*[^a-c]?'') = Some [Chr 104, Star, Cls True [Range 97 99], Any]"
    by (simp add: lit_def Let_def)
  show ?thesis using g stringmatch_correct [OF _ _ g, of "lit ''hello''" False] by (simp add: lit_def)
qed

text \<open>Without that proviso the code goes wrong on the empty string: \<open>[^a]*\<close> is reported to match it
  although the bracket needs a character, and \<open>[^a]b\<close> makes it read behind the terminating zero of
  the string; a pattern that ends in a backslash inside a bracket makes it read behind the
  terminating zero of the pattern.\<close>

theorem stringmatch_empty_string:
  "stringmatch (lit ''[^a]*'') [] False = Some True \<and> \<not> gmatch False [Cls True [One 97], Star] [] \<and>
   stringmatch (lit ''[^a]b'') [] False = None \<and> stringmatch (lit ''[a'' @ [92]) (lit ''a'') False = None"
  by (simp add: stringmatch_def stringmatchlen_def lit_def smatch.simps match_elem_def rd_def
    class_loop.simps idec_def char_eq_def skip_next_stars.simps)

end
