(* ===== verification/Util.thy ===== *)
theory Util
  imports Prelude "HOL-Library.Monad_Syntax"
begin

text \<open>
  The conversions of \<^verbatim>\<open>util.c\<close> between numbers and text: \<open>digits10\<close>, \<open>sdigits10\<close>,
  \<open>ll2string\<close> with its table of two-digit groups and its writes from the right end of the
  caller's buffer, \<open>string2ll\<close> and \<open>string2l\<close> with their overflow checks, \<open>memtoll\<close>, and
  \<open>pathIsBaseName\<close>. \<open>PORT_LONG\<close> and \<open>PORT_LONGLONG\<close> are 64 bits wide.
\<close>

section \<open>Number of digits\<close>

fun digits10 :: "nat \<Rightarrow> nat" where
  "digits10 v =
     (if v < 10 then 1
      else if v < 100 then 2
      else if v < 1000 then 3
      else if v < 1000000000000 then
        (if v < 100000000 then
           (if v < 1000000 then
              (if v < 10000 then 4 else 5 + (if v \<ge> 100000 then 1 else 0))
            else 7 + (if v \<ge> 10000000 then 1 else 0))
         else if v < 10000000000 then 9 + (if v \<ge> 1000000000 then 1 else 0)
         else 11 + (if v \<ge> 100000000000 then 1 else 0))
      else 12 + digits10 (v div 1000000000000))"

declare digits10.simps [simp del]

definition uabs :: "int \<Rightarrow> nat" where
  "uabs v = (if v \<noteq> INT64_MIN then nat (- v) else nat INT64_MAX + 1)"

definition sdigits10 :: "int \<Rightarrow> nat" where
  "sdigits10 v = (if v < 0 then digits10 (uabs v) + 1 else digits10 (nat v))"

section \<open>Printing\<close>

definition ll_digits :: bytes where
  "ll_digits = lit
    (''0001020304050607080910111213141516171819'' @
     ''2021222324252627282930313233343536373839'' @
     ''4041424344454647484950515253545556575859'' @
     ''6061626364656667686970717273747576777879'' @
     ''8081828384858687888990919293949596979899'')"

text \<open>\<open>uint32_t\<close> subtraction.\<close>

definition u32_minus :: "nat \<Rightarrow> nat \<Rightarrow> nat" where
  "u32_minus n d = u32 (n + 4294967296 - d)"

fun ll2string_loop :: "cmemory \<Rightarrow> nat \<Rightarrow> nat \<Rightarrow> cmemory option" where
  "ll2string_loop dst val nxt =
     (if 100 \<le> val then do {
        dst \<leftarrow> mem_write dst nxt [ll_digits ! ((val mod 100) * 2 + 1)];
        dst \<leftarrow> mem_write dst (u32_minus nxt 1) [ll_digits ! ((val mod 100) * 2)];
        ll2string_loop dst (val div 100) (u32_minus nxt 2)
      }
      else if val < 10 then mem_write dst nxt [digit_byte val]
      else do {
        dst \<leftarrow> mem_write dst nxt [ll_digits ! (val * 2 + 1)];
        mem_write dst (u32_minus nxt 1) [ll_digits ! (val * 2)]
      })"

declare ll2string_loop.simps [simp del]

definition ll2string :: "cmemory \<Rightarrow> nat \<Rightarrow> int \<Rightarrow> (cmemory \<times> nat) option" where
  "ll2string dst dstlen svalue =
     (let val = (if svalue < 0 then uabs svalue else nat svalue);
          neg = svalue < 0;
          len = u32 (digits10 val + (if neg then 1 else 0))
      in if len \<ge> dstlen then Some (dst, 0)
         else do {
           dst \<leftarrow> mem_write dst len [0];
           dst \<leftarrow> ll2string_loop dst val (u32_minus len 1);
           dst \<leftarrow> (if neg then mem_write dst 0 [45] else Some dst);
           Some (dst, len)
         })"

section \<open>Parsing\<close>

text \<open>The digit loop of \<open>string2ll\<close>: \<open>None\<close> is the return on overflow; otherwise the value and the
  bytes not used.\<close>

fun string2ll_loop :: "nat \<Rightarrow> bytes \<Rightarrow> (nat \<times> bytes) option" where
  "string2ll_loop v [] = Some (v, [])"
| "string2ll_loop v (c # cs) =
     (if 48 \<le> schar c \<and> schar c \<le> 57 then
        (if v > UINT64_MAX div 10 then None
         else if v * 10 > UINT64_MAX - nat (schar c - 48) then None
         else string2ll_loop (v * 10 + nat (schar c - 48)) cs)
      else Some (v, c # cs))"

text \<open>\<open>string2ll s\<close> is \<open>Some v\<close> when the code returns 1 and sets \<open>*value\<close> to \<open>v\<close>.\<close>

definition string2ll_digits :: "bool \<Rightarrow> bytes \<Rightarrow> nat \<Rightarrow> int option" where
  "string2ll_digits negative p slen =
     (if 49 \<le> schar (hd p) \<and> schar (hd p) \<le> 57 then
        (case string2ll_loop (nat (schar (hd p) - 48)) (tl p) of
           None \<Rightarrow> None
         | Some (v, rest) \<Rightarrow>
             if rest \<noteq> [] then None
             else if negative then
               (if int v > - (INT64_MIN + 1) + 1 then None else Some (- int v))
             else if int v > INT64_MAX then None else Some (int v))
      else if hd p = 48 \<and> slen = 1 then Some 0
      else None)"

definition string2ll :: "bytes \<Rightarrow> int option" where
  "string2ll s =
     (if s = [] then None
      else if length s = 1 \<and> hd s = 48 then Some 0
      else if hd s = 45 then
        (if length s = 1 then None else string2ll_digits True (tl s) (length s))
      else string2ll_digits False s (length s))"

definition string2l :: "bytes \<Rightarrow> int option" where
  "string2l s = (case string2ll s of
       None \<Rightarrow> None
     | Some llval \<Rightarrow> if llval < INT64_MIN \<or> llval > INT64_MAX then None else Some llval)"

section \<open>Amounts of memory\<close>

definition strcaseeq :: "bytes \<Rightarrow> bytes \<Rightarrow> bool" where
  "strcaseeq s t \<longleftrightarrow> map tolower s = map tolower t"

text \<open>\<open>strtol(s, &endptr, 10)\<close> of the C library: the value, saturated, and the offset of \<open>endptr\<close>.\<close>

definition strtol10 :: "bytes \<Rightarrow> int \<times> nat" where
  "strtol10 s =
     (let ws = takeWhile isspace s;
          r = drop (length ws) s;
          sg = (if r \<noteq> [] \<and> (hd r = 45 \<or> hd r = 43) then 1 else 0);
          ds = takeWhile isdigit (drop sg r);
          v = (if r \<noteq> [] \<and> hd r = 45 then - int (dec_val ds) else int (dec_val ds))
      in if ds = [] then (0, 0)
         else (max INT64_MIN (min INT64_MAX v), length ws + sg + length ds))"

definition memtoll_mul :: "bytes \<Rightarrow> int option" where
  "memtoll_mul u =
     (if u = [] \<or> strcaseeq u (lit ''b'') then Some 1
      else if strcaseeq u (lit ''k'') then Some 1000
      else if strcaseeq u (lit ''kb'') then Some 1024
      else if strcaseeq u (lit ''m'') then Some (1000 * 1000)
      else if strcaseeq u (lit ''mb'') then Some (1024 * 1024)
      else if strcaseeq u (lit ''g'') then Some (1000 * 1000 * 1000)
      else if strcaseeq u (lit ''gb'') then Some (1024 * 1024 * 1024)
      else None)"

definition memtoll_prefix :: "bytes \<Rightarrow> bytes" where
  "memtoll_prefix p =
     (if p \<noteq> [] \<and> hd p = 45 then 45 # takeWhile isdigit (tl p) else takeWhile isdigit p)"

text \<open>The result is the value and \<open>*err\<close>; the multiplication overflowing is undefined. Whether
  \<open>strtol\<close> reports \<open>EINVAL\<close> when there is nothing to convert is left to the implementation by
  POSIX: \<open>einval\<close> says whether it does.\<close>

definition memtoll :: "bool \<Rightarrow> bytes \<Rightarrow> (int \<times> bool) option" where
  "memtoll einval p =
     (let buf = memtoll_prefix p;
          u = drop (length buf) p
      in case memtoll_mul u of
           None \<Rightarrow> Some (0, True)
         | Some mul \<Rightarrow>
             if length buf \<ge> 128 then Some (0, True)
             else let (v, ep) = strtol10 buf;
                      no_conversion = ep = 0
                  in if (v = 0 \<and> einval \<and> no_conversion) \<or> ep < length buf then Some (0, True)
                     else if v * mul < INT64_MIN \<or> v * mul > INT64_MAX then None
                     else Some (v * mul, False))"

definition pathIsBaseName :: "bytes \<Rightarrow> bool" where
  "pathIsBaseName path \<longleftrightarrow> strchr path 47 = None \<and> strchr path 92 = None"

section \<open>Decimal text of a number\<close>

lemma length_dec_nat_step:
  "length (dec_nat v) = (if v < 10 then 1 else Suc (length (dec_nat (v div 10))))"
  by (subst dec_nat.simps) simp

lemma length_dec_nat_div12:
  assumes "1000000000000 \<le> v"
  shows "length (dec_nat v) = 12 + length (dec_nat (v div 1000000000000))"
proof -
  have s: "10 \<le> w \<Longrightarrow> length (dec_nat w) = Suc (length (dec_nat (w div 10)))" for w
    by (simp add: length_dec_nat_step [of w])
  show ?thesis
    using assms
    by (simp add: s [of v] s [of "v div 10"] s [of "v div 100"] s [of "v div 1000"]
      s [of "v div 10000"] s [of "v div 100000"] s [of "v div 1000000"] s [of "v div 10000000"]
      s [of "v div 100000000"] s [of "v div 1000000000"] s [of "v div 10000000000"]
      s [of "v div 100000000000"] div_mult2_eq [symmetric])
qed

lemma length_dec_nat_exact:
  "10 ^ k \<le> v \<Longrightarrow> v < 10 ^ Suc k \<Longrightarrow> 0 < k \<Longrightarrow> length (dec_nat v) = Suc k"
proof (induction k arbitrary: v)
  case (Suc k)
  have "length (dec_nat v) = Suc (length (dec_nat (v div 10)))"
    using Suc.prems order.trans [of 10 "10 ^ Suc k" v] by (subst length_dec_nat_step) auto
  moreover have "length (dec_nat (v div 10)) = Suc k"
  proof (cases "k = 0")
    case True
    then show ?thesis using Suc.prems by (subst length_dec_nat_step) simp
  next
    case False
    have "10 ^ k \<le> v div 10" "v div 10 < 10 ^ Suc k"
      using Suc.prems by (simp_all add: less_eq_div_iff_mult_less_eq div_less_iff_less_mult mult.commute)
    then show ?thesis using Suc.IH [of "v div 10"] False by simp
  qed
  ultimately show ?case by simp
qed simp

lemma digits10_length: "digits10 v = length (dec_nat v)"
proof (induction v rule: digits10.induct)
  case (1 v)
  note E = length_dec_nat_exact [of 1 v] length_dec_nat_exact [of 2 v] length_dec_nat_exact [of 3 v]
    length_dec_nat_exact [of 4 v] length_dec_nat_exact [of 5 v] length_dec_nat_exact [of 6 v]
    length_dec_nat_exact [of 7 v] length_dec_nat_exact [of 8 v] length_dec_nat_exact [of 9 v]
    length_dec_nat_exact [of 10 v] length_dec_nat_exact [of 11 v]
  show ?case
  proof (cases "v < 1000000000000")
    case True
    then show ?thesis using E length_dec_nat_step [of v]
      by (subst digits10.simps) (simp split: if_splits)
  next
    case False
    then show ?thesis using 1 length_dec_nat_div12 [of v] by (subst digits10.simps) simp
  qed
qed

section \<open>Correctness of \<open>ll2string\<close>\<close>

lemma u32_minus_sub: "d \<le> n \<Longrightarrow> n < 4294967296 \<Longrightarrow> u32_minus n d = n - d"
  by (simp add: u32_minus_def u32_sub)

text \<open>The table holds the two decimal digits of every number below 100.\<close>

lemma concat_pairs_nth:
  "i < n \<Longrightarrow> concat (map (\<lambda>i. [f i, g i]) [k..<k + n]) ! (i * 2) = f (k + i) \<and>
    concat (map (\<lambda>i. [f i, g i]) [k..<k + n]) ! Suc (i * 2) = g (k + i)"
proof (induction n arbitrary: i k)
  case (Suc n)
  have u: "[k..<k + Suc n] = k # [Suc k..<Suc k + n]" by (simp add: upt_rec)
  show ?case unfolding u using Suc.IH [of "i - 1" "Suc k"] Suc.prems by (cases i) auto
qed simp

lemma ll_digits_pairs:
  "ll_digits = concat (map (\<lambda>i. [digit_byte (i div 10), digit_byte (i mod 10)]) [0..<0 + 100])"
  by (simp add: ll_digits_def lit_def digit_byte_def upt_conv_Cons)

lemma ll_digits_table:
  assumes "i < 100"
  shows "ll_digits ! (i * 2) = digit_byte (i div 10) \<and> ll_digits ! (i * 2 + 1) = digit_byte (i mod 10)"
  using concat_pairs_nth [of i 100 "\<lambda>i. digit_byte (i div 10)" "\<lambda>i. digit_byte (i mod 10)" 0] assms
  unfolding ll_digits_pairs by simp

lemma dec_nat_two: "10 \<le> v \<Longrightarrow> v < 100 \<Longrightarrow> dec_nat v = [digit_byte (v div 10), digit_byte (v mod 10)]"
  by (subst dec_nat.simps, simp, subst dec_nat.simps, simp)

lemma dec_nat_group:
  assumes "100 \<le> v"
  shows "dec_nat v = dec_nat (v div 100) @ [digit_byte (v mod 100 div 10), digit_byte (v mod 10)]"
proof -
  have "v div 10 div 10 = v div 100" "v div 10 mod 10 = v mod 100 div 10"
    by (simp_all add: div_mult2_eq [symmetric] mod_mult2_eq [of v 10 10, simplified])
  with assms show ?thesis
    by (subst dec_nat.simps, simp, subst dec_nat.simps, simp)
qed

lemma mem_write_Suc2:
  assumes "Suc n < length m"
  shows "do { m1 \<leftarrow> mem_write m (Suc n) [b]; mem_write m1 n [a] }
    = Some (take n m @ [Some a, Some b] @ drop (Suc (Suc n)) m)"
  using assms by (simp add: mem_write_def min_def)

lemma ll2string_loop_ok:
  assumes "length (dec_nat val) \<le> Suc nxt" and "nxt < length dst" and "nxt < 4294967296"
  shows "ll2string_loop dst val nxt =
    Some (take (Suc nxt - length (dec_nat val)) dst @ map Some (dec_nat val) @ drop (Suc nxt) dst)"
  using assms
proof (induction dst val nxt rule: ll2string_loop.induct)
  case (1 dst val nxt)
  consider "100 \<le> val" | "val < 10" | "10 \<le> val" "val < 100" by linarith
  then show ?case
  proof cases
    case 1
    note D = dec_nat_group [OF 1]
    obtain n where n: "nxt = Suc (Suc n)"
      using "1.prems"(1) D by (cases nxt; cases "nxt - 1") auto
    have tm: "ll_digits ! ((val mod 100) * 2 + 1) = digit_byte (val mod 10)"
      "ll_digits ! ((val mod 100) * 2) = digit_byte (val mod 100 div 10)"
      using ll_digits_table [of "val mod 100"] by (simp_all add: mod_mod_cancel)
    let ?m1 = "take (Suc (Suc n)) dst @ Some (digit_byte (val mod 10)) # drop (Suc (Suc (Suc n))) dst"
    let ?m2 = "take (Suc n) dst @ [Some (digit_byte (val mod 100 div 10)), Some (digit_byte (val mod 10))]
      @ drop (Suc (Suc (Suc n))) dst"
    have w1: "mem_write dst nxt [ll_digits ! ((val mod 100) * 2 + 1)] = Some ?m1"
      using "1.prems" n tm by (simp add: mem_write_def)
    have w2: "mem_write ?m1 (u32_minus nxt 1) [ll_digits ! ((val mod 100) * 2)] = Some ?m2"
      using "1.prems" n tm by (simp add: mem_write_def u32_minus_sub min_def)
    have "ll2string_loop dst val nxt = ll2string_loop ?m2 (val div 100) n"
      using 1 w1 w2 "1.prems" n by (subst ll2string_loop.simps) (simp add: u32_minus_sub)
    also have "\<dots> = Some (take (Suc n - length (dec_nat (val div 100))) ?m2 @
        map Some (dec_nat (val div 100)) @ drop (Suc n) ?m2)"
      using "1.IH" [OF 1 w1 w2] "1.prems" n D by (simp add: u32_minus_sub)
    finally show ?thesis using "1.prems" n D by (simp add: min_def)
  next
    case 2
    then have "dec_nat val = [digit_byte val]" by (subst dec_nat.simps) simp
    with 2 "1.prems" show ?thesis by (subst ll2string_loop.simps) (simp add: mem_write_def)
  next
    case 3
    note D = dec_nat_two [OF 3]
    obtain n where n: "nxt = Suc n" using "1.prems"(1) D by (cases nxt) auto
    have tm: "ll_digits ! (val * 2 + 1) = digit_byte (val mod 10)"
      "ll_digits ! (val * 2) = digit_byte (val div 10)"
      using ll_digits_table [of val] 3 by simp_all
    show ?thesis
      using 3 "1.prems" n D tm mem_write_Suc2 [of n dst "digit_byte (val mod 10)" "digit_byte (val div 10)"]
      by (subst ll2string_loop.simps) (simp add: u32_minus_sub)
  qed
qed

lemma length_dec_nat_bound: "v < 10 ^ Suc k \<Longrightarrow> length (dec_nat v) \<le> Suc k"
proof (induction k arbitrary: v)
  case 0
  then show ?case by (subst length_dec_nat_step) simp
next
  case (Suc k)
  have "v div 10 < 10 ^ Suc k" using Suc.prems by (simp add: div_less_iff_less_mult mult.commute)
  from Suc.IH [OF this] show ?case by (subst length_dec_nat_step) simp
qed

definition int64 :: "int \<Rightarrow> bool" where
  "int64 v \<longleftrightarrow> INT64_MIN \<le> v \<and> v \<le> INT64_MAX"

lemma uabs_neg: "v < 0 \<Longrightarrow> uabs v = nat (- v)"
  by (simp add: uabs_def)

lemma sdigits10_length: "sdigits10 v = length (dec_int v)"
  by (simp add: sdigits10_def dec_int_def digits10_length uabs_neg)

lemma length_dec_int_bound: "int64 v \<Longrightarrow> length (dec_int v) \<le> 20"
proof -
  assume "int64 v"
  then have "nat (- v) < 10 ^ Suc 18" "nat v < 10 ^ Suc 18" unfolding int64_def by (simp_all, linarith+)
  then show ?thesis
    using length_dec_nat_bound [of "nat (- v)" 18] length_dec_nat_bound [of "nat v" 18]
    by (simp add: dec_int_def)
qed

lemma length_dec_int_pos: "0 < length (dec_int v)"
  by (simp add: dec_int_def)

lemma ll2string_eq:
  assumes v: "int64 v" and room: "dstlen \<le> length dst"
  shows "ll2string dst dstlen v =
    (if length (dec_int v) < dstlen
     then Some (map Some (dec_int v @ [0]) @ drop (Suc (length (dec_int v))) dst, length (dec_int v))
     else Some (dst, 0))"
proof (cases "length (dec_int v) < dstlen")
  case False
  then show ?thesis using length_dec_int_bound [OF v]
    by (auto simp: ll2string_def Let_def digits10_length dec_int_def uabs_neg)
next
  case True
  let ?n = "length (dec_int v)"
  let ?a = "if v < 0 then uabs v else nat v"
  let ?s = "if v < 0 then 1 else 0 :: nat"
  have n: "u32 (digits10 ?a + ?s) = ?n"
    using length_dec_int_bound [OF v] by (auto simp: digits10_length dec_int_def uabs_neg)
  have la: "length (dec_nat ?a) = ?n - ?s"
    by (auto simp: dec_int_def uabs_neg)
  obtain k where k: "?n = Suc k" using length_dec_int_pos [of v] by (cases ?n) auto
  have k20: "k < 20" using k length_dec_int_bound [OF v] by simp
  let ?m1 = "take ?n dst @ Some 0 # drop (Suc ?n) dst"
  have w1: "mem_write dst ?n [0] = Some ?m1" using True room by (simp add: mem_write_def)
  have w2: "ll2string_loop ?m1 ?a (u32_minus ?n 1) =
      Some (take ?s dst @ map Some (dec_nat ?a) @ Some 0 # drop (Suc ?n) dst)"
    using True room k k20 la ll2string_loop_ok [of ?a k ?m1]
    by (auto simp: u32_minus_sub min_def)
  have w3: "(if v < 0 then mem_write (take ?s dst @ map Some (dec_nat ?a) @ Some 0 # drop (Suc ?n) dst) 0 [45]
      else Some (take ?s dst @ map Some (dec_nat ?a) @ Some 0 # drop (Suc ?n) dst)) =
      Some (map Some (dec_int v @ [0]) @ drop (Suc ?n) dst)"
    using True room k by (auto simp: mem_write_def dec_int_def uabs_neg)
  show ?thesis using True w1 w2 w3 by (simp add: ll2string_def Let_def n)
qed

section \<open>Correctness of \<open>string2ll\<close>\<close>

lemma schar_digit: "48 \<le> schar c \<and> schar c \<le> 57 \<longleftrightarrow> isdigit c"
  and schar_digit1: "49 \<le> schar c \<and> schar c \<le> 57 \<longleftrightarrow> isdigit c \<and> c \<noteq> 48"
  and schar_digit_val: "isdigit c \<Longrightarrow> schar c - 48 = int (digit_val c)"
proof -
  have u: "uint c < 256" "0 \<le> uint c" using uint_lt2p [of c] by auto
  have s: "sint c = (if uint c < 128 then uint c else uint c - 256)"
  proof -
    have e: "sint c = (uint c + 128) mod 256 - 128"
      by (simp add: sint_uint signed_take_bit_eq_take_bit_shift take_bit_eq_mod)
    show ?thesis
    proof (cases "uint c < 128")
      case True
      then show ?thesis using e u by simp
    next
      case False
      have "(uint c + 128) mod 256 = ((uint c - 128) + 256) mod 256" by (simp add: add.commute)
      also have "\<dots> = uint c - 128" unfolding mod_add_self2 using u False by simp
      finally show ?thesis using e False by simp
    qed
  qed
  show "48 \<le> schar c \<and> schar c \<le> 57 \<longleftrightarrow> isdigit c"
    using u s by (auto simp: schar_def isdigit_def word_le_def)
  have "c = 48 \<longleftrightarrow> uint c = 48" by (simp add: word_uint_eq_iff)
  then show "49 \<le> schar c \<and> schar c \<le> 57 \<longleftrightarrow> isdigit c \<and> c \<noteq> 48"
    using u s by (auto simp: schar_def isdigit_def word_le_def)
  show "isdigit c \<Longrightarrow> schar c - 48 = int (digit_val c)"
  proof -
    assume "isdigit c"
    then have "48 \<le> uint c" "uint c \<le> 57" by (simp_all add: isdigit_def word_le_def)
    moreover have "int (unat c) = uint c" by simp
    ultimately show ?thesis using s by (simp add: schar_def digit_val_def del: of_nat_unat)
  qed
qed

lemma digit_val_bound: "isdigit c \<Longrightarrow> digit_val c < 10"
  by (auto simp: isdigit_def digit_val_def word_le_nat_alt)

lemma digit_byte_val: "isdigit c \<Longrightarrow> digit_byte (digit_val c) = c"
  by (simp add: isdigit_def digit_val_def digit_byte_def word_le_nat_alt)

definition dec_acc :: "nat \<Rightarrow> bytes \<Rightarrow> nat" where
  "dec_acc v ds = foldl (\<lambda>v d. 10 * v + digit_val d) v ds"

lemma dec_acc_simps [simp]:
  "dec_acc v [] = v" "dec_acc v (d # ds) = dec_acc (10 * v + digit_val d) ds"
  by (simp_all add: dec_acc_def)

lemma dec_acc_ge: "v \<le> dec_acc v ds"
proof (induction ds arbitrary: v)
  case (Cons d ds)
  have "v \<le> 10 * v + digit_val d" by simp
  also have "\<dots> \<le> dec_acc v (d # ds)" using Cons by simp
  finally show ?case .
qed simp

text \<open>The loop computes the value of the digits, and gives up exactly when it exceeds 64 bits.\<close>

lemma string2ll_loop_iff:
  "v \<le> UINT64_MAX \<Longrightarrow> string2ll_loop v cs = Some (w, []) \<longleftrightarrow>
     (\<forall>c \<in> set cs. isdigit c) \<and> w = dec_acc v cs \<and> w \<le> UINT64_MAX"
proof (induction cs arbitrary: v)
  case (Cons c cs)
  show ?case
  proof (cases "isdigit c")
    case True
    let ?v = "10 * v + digit_val c"
    have d: "nat (schar c - 48) = digit_val c" "digit_val c < 10"
      using True schar_digit_val [of c] digit_val_bound [of c] by simp_all
    show ?thesis
    proof (cases "?v \<le> UINT64_MAX")
      case le: True
      then have "string2ll_loop v (c # cs) = string2ll_loop ?v cs"
        using True d by (auto simp: schar_digit mult.commute)
      then show ?thesis using Cons.IH [OF le] True by simp
    next
      case False
      then have "string2ll_loop v (c # cs) = None" using True d by (auto simp: schar_digit)
      moreover have "\<not> dec_acc v (c # cs) \<le> UINT64_MAX" using False dec_acc_ge [of ?v cs] by simp
      ultimately show ?thesis by auto
    qed
  next
    case False
    then show ?thesis by (simp add: schar_digit)
  qed
qed auto

lemma dec_nat_val:
  "ds \<noteq> [] \<Longrightarrow> \<forall>c \<in> set ds. isdigit c \<Longrightarrow> hd ds \<noteq> 48 \<Longrightarrow> dec_nat (dec_val ds) = ds \<and> 0 < dec_val ds"
proof (induction ds rule: rev_induct)
  case (snoc d ds)
  have d: "digit_val d < 10" "digit_byte (digit_val d) = d"
    using snoc.prems digit_val_bound digit_byte_val by auto
  show ?case
  proof (cases "ds = []")
    case True
    have "digit_val d \<noteq> 0"
      using snoc.prems True d(2) by (auto simp: digit_byte_def intro: ccontr)
    then show ?thesis using True d by (subst dec_nat.simps) (simp add: dec_val_def)
  next
    case False
    with snoc have IH: "dec_nat (dec_val ds) = ds" "0 < dec_val ds" by auto
    then show ?thesis using d by (subst dec_nat.simps) simp
  qed
qed simp

lemma hd_dec_nat_nz: "0 < n \<Longrightarrow> hd (dec_nat n) \<noteq> 48"
proof (induction n rule: dec_nat.induct)
  case (1 n)
  show ?case
  proof (cases "n < 10")
    case True
    have "unat (digit_byte n) \<noteq> unat (48 :: byte)" using True 1 by simp
    then have "digit_byte n \<noteq> 48" by metis
    then show ?thesis using True by (subst dec_nat.simps) auto
  next
    case False
    then show ?thesis using 1 by (subst dec_nat.simps) (simp add: hd_append)
  qed
qed

lemma dec_nat_pos_iff:
  "0 < n \<and> s = dec_nat n \<longleftrightarrow> s \<noteq> [] \<and> (\<forall>c \<in> set s. isdigit c) \<and> hd s \<noteq> 48 \<and> dec_val s = n"
  using dec_nat_val [of s] hd_dec_nat_nz [of n] dec_nat_digits [of n] by auto

lemma string2ll_digits_iff:
  assumes "p \<noteq> []" and "hd p = 48 \<longrightarrow> slen \<noteq> 1"
  shows "string2ll_digits ng p slen = Some v \<longleftrightarrow>
    (\<exists>n > 0. p = dec_nat n \<and> v = (if ng then - int n else int n) \<and> int64 v)"
proof -
  obtain c cs where p: "p = c # cs" using assms(1) by (cases p) auto
  show ?thesis
  proof (cases "isdigit c \<and> c \<noteq> 48")
    case False
    then have "string2ll_digits ng p slen = None"
      using assms(2) p by (auto simp: string2ll_digits_def schar_digit1)
    moreover have "p \<noteq> dec_nat n" if "n > 0" for n
      using False p dec_nat_pos_iff [of n p] that by auto
    ultimately show ?thesis by auto
  next
    case True
    let ?d = "digit_val c"
    have d: "nat (schar c - 48) = ?d" "?d \<le> UINT64_MAX"
      using True schar_digit_val [of c] digit_val_bound [of c] by simp_all
    have dv: "dec_acc ?d cs = dec_val p" by (simp add: p dec_val_def dec_acc_def)
    have L: "string2ll_loop ?d cs = Some (w, []) \<longleftrightarrow>
        (\<forall>c \<in> set p. isdigit c) \<and> w = dec_val p \<and> w \<le> UINT64_MAX" for w
      using string2ll_loop_iff [OF d(2)] True by (simp add: dv) (simp add: p)
    have "string2ll_digits ng p slen = Some v \<longleftrightarrow>
        (\<exists>w. string2ll_loop ?d cs = Some (w, []) \<and> v = (if ng then - int w else int w) \<and> int64 v)"
      using True d(1) p
      by (auto simp: string2ll_digits_def schar_digit1 int64_def split: option.split if_splits)
    also have "\<dots> \<longleftrightarrow> (\<exists>n > 0. p = dec_nat n \<and> v = (if ng then - int n else int n) \<and> int64 v)"
      unfolding L using True dec_nat_pos_iff [of _ p] p
      by (auto simp: int64_def split: if_splits)
    finally show ?thesis .
  qed
qed

lemma dec_nat_not_minus: "hd (dec_nat n) \<noteq> 45"
proof -
  have "isdigit (hd (dec_nat n))" using dec_nat_digits [of n] by auto
  then show ?thesis by (auto simp: isdigit_def)
qed

lemma dec_nat_0: "dec_nat 0 = [48]"
  by (subst dec_nat.simps) (simp add: digit_byte_def)

lemma dec_int_cases:
  "s = dec_int v \<longleftrightarrow>
     (v = 0 \<and> s = [48]) \<or> (\<exists>n > 0. s = dec_nat n \<and> v = int n) \<or>
     (\<exists>n > 0. s = 45 # dec_nat n \<and> v = - int n)"
proof (cases "v = 0" "v < 0" rule: bool.exhaust [case_product bool.exhaust])
qed (auto simp: dec_int_def dec_nat_0 intro: exI [of _ "nat v"] exI [of _ "nat (- v)"])

lemma string2ll_eq: "string2ll s = Some v \<longleftrightarrow> int64 v \<and> s = dec_int v"
proof -
  consider "s = []" | "s = [48]" | "s = [45]" | t where "s = 45 # t" "t \<noteq> []"
    | "s \<noteq> []" "s \<noteq> [48]" "hd s \<noteq> 45"
  proof (cases s)
    case (Cons c t)
    then show ?thesis using that by (cases "t = []"; cases "c = 45") auto
  qed (use that in auto)
  then show ?thesis
  proof cases
    case 1
    then show ?thesis using length_dec_int_pos [of v] by (auto simp: string2ll_def)
  next
    case 2
    have "dec_int v = [48] \<longleftrightarrow> v = 0"
    proof
      assume "dec_int v = [48]"
      then have "v = 0 \<or> (\<exists>n > 0. dec_nat n = [48])" using dec_int_cases [of "[48]" v] by auto
      then show "v = 0" by (metis hd_dec_nat_nz list.sel(1))
    qed (simp add: dec_int_def dec_nat_0)
    then show ?thesis using 2 by (auto simp: string2ll_def int64_def)
  next
    case 3
    have "s \<noteq> dec_nat n" "tl s \<noteq> dec_nat n" for n
      using 3 dec_nat_not_minus [of n] dec_nat_nonempty [of n] by (metis list.sel(1), metis list.sel(3))
    then show ?thesis using 3 dec_int_cases [of s v] by (auto simp: string2ll_def)
  next
    case 4
    then have "string2ll s = string2ll_digits True t (length s)" by (simp add: string2ll_def)
    also have "\<dots> = Some v \<longleftrightarrow> (\<exists>n > 0. t = dec_nat n \<and> v = - int n \<and> int64 v)"
      using string2ll_digits_iff [of t "length s" True v] 4 by simp
    also have "\<dots> \<longleftrightarrow> int64 v \<and> s = dec_int v"
    proof -
      have "s \<noteq> dec_nat n" for n using 4 dec_nat_not_minus [of n] by (metis list.sel(1))
      then show ?thesis using dec_int_cases [of s v] 4 by auto
    qed
    finally show ?thesis .
  next
    case 5
    then have "string2ll s = string2ll_digits False s (length s)"
      by (cases s) (auto simp: string2ll_def)
    also have "\<dots> = Some v \<longleftrightarrow> (\<exists>n > 0. s = dec_nat n \<and> v = int n \<and> int64 v)"
      using string2ll_digits_iff [of s "length s" False v] 5
      by (cases s) auto
    also have "\<dots> \<longleftrightarrow> int64 v \<and> s = dec_int v"
      using dec_int_cases [of s v] 5 by auto
    finally show ?thesis .
  qed
qed

section \<open>Correctness of \<open>memtoll\<close>\<close>

lemma takeWhile_digits: "\<forall>c \<in> set ds. isdigit c \<Longrightarrow> u = [] \<or> \<not> isdigit (hd u) \<Longrightarrow>
    takeWhile isdigit (ds @ u) = ds"
  by (cases u) auto

lemma digit_not_sign: "isdigit c \<Longrightarrow> c \<noteq> 45 \<and> c \<noteq> 43 \<and> \<not> isspace c"
  by (auto simp: isdigit_def isspace_def word_le_nat_alt)

lemma minus_not_space: "\<not> isspace 45"
  by (simp add: isspace_def)

lemma hd_dec_nat_digit: "isdigit (hd (dec_nat n))"
  using dec_nat_digits [of n] by auto

lemma memtoll_prefix_dec:
  assumes "u = [] \<or> \<not> isdigit (hd u)"
  shows "memtoll_prefix (dec_int v @ u) = dec_int v"
  using takeWhile_digits [OF dec_nat_digits assms] dec_nat_not_minus
  by (simp add: memtoll_prefix_def dec_int_def)

lemma strtol10_dec:
  assumes "int64 v"
  shows "strtol10 (dec_int v) = (v, length (dec_int v))"
proof -
  have sp: "takeWhile isspace (dec_int v) = []"
    using digit_not_sign [OF hd_dec_nat_digit] minus_not_space
    by (auto simp: dec_int_def takeWhile_eq_Nil_iff)
  have d: "takeWhile isdigit (dec_nat n) = dec_nat n" for n
    using takeWhile_digits [of "dec_nat n" "[]"] dec_nat_digits by simp
  show ?thesis
    using assms digit_not_sign [OF hd_dec_nat_digit, of "nat v"] sp
    by (auto simp: strtol10_def Let_def d dec_int_def int64_def)
qed

text \<open>A unit never starts with a digit.\<close>

lemma tolower_digit: "isdigit c \<Longrightarrow> tolower c = c"
  by (auto simp: tolower_def isdigit_def word_le_nat_alt)

lemma unit_not_digit:
  assumes "memtoll_mul u = Some m" and "u \<noteq> []"
  shows "\<not> isdigit (hd u)"
proof
  assume d: "isdigit (hd u)"
  obtain c cs where u: "u = c # cs" using assms(2) by (cases u) auto
  have "tolower c = c" "isdigit c" using d u tolower_digit by auto
  then show False using assms(1) unfolding u
    by (auto simp: memtoll_mul_def strcaseeq_def lit_def tolower_def isdigit_def split: if_splits)
qed

lemma memtoll_dec:
  assumes v: "int64 v" and m: "memtoll_mul u = Some m" and f: "int64 (v * m)"
  shows "memtoll einval (dec_int v @ u) = Some (v * m, False)"
proof -
  have "memtoll_prefix (dec_int v @ u) = dec_int v"
    using memtoll_prefix_dec unit_not_digit [OF m] by blast
  moreover have "length (dec_int v) < 128" using length_dec_int_bound [OF v] by simp
  ultimately show ?thesis
    using strtol10_dec [OF v] m f length_dec_int_pos [of v]
    by (simp add: memtoll_def Let_def int64_def)
qed

lemma memtoll_unit_error:
  "memtoll_mul (drop (length (memtoll_prefix p)) p) = None \<Longrightarrow> memtoll einval p = Some (0, True)"
  by (simp add: memtoll_def Let_def)

section \<open>Properties\<close>

text \<open>\<open>ll2string\<close> with a destination of at least \<open>dstlen\<close> bytes writes the decimal text of any 64-bit
  number followed by a zero byte, touches nothing behind it and returns the length of the text;
  when the text and its terminator do not fit in \<open>dstlen\<close> bytes it returns 0 and leaves the buffer
  as it was. No write leaves the buffer and the unsigned index never wraps.\<close>

theorem ll2string_correct:
  assumes "int64 v" and "dstlen \<le> length dst"
  shows "ll2string dst dstlen v =
    (if length (dec_int v) < dstlen
     then Some (map Some (dec_int v @ [0]) @ drop (Suc (length (dec_int v))) dst, length (dec_int v))
     else Some (dst, 0))"
  using assms by (rule ll2string_eq)

theorem ll2string_correct_witness:
  "ll2string (replicate 21 None) 21 (- 9223372036854775808) =
     (if length (dec_int (- 9223372036854775808)) < 21
      then Some (map Some (dec_int (- 9223372036854775808) @ [0]) @
             drop (Suc (length (dec_int (- 9223372036854775808)))) (replicate 21 None),
             length (dec_int (- 9223372036854775808)))
      else Some (replicate 21 None, 0))"
  by (rule ll2string_correct) (simp_all add: int64_def)

text \<open>C28. \<open>string2ll\<close> accepts exactly the canonical decimal texts of the 64-bit numbers, with no leading
  zero, sign or space beyond the minus of a negative number, and returns the number; hence it
  inverts \<open>ll2string\<close>, and every text it accepts is the one \<open>ll2string\<close> prints.\<close>

theorem string2ll_canonical:
  "string2ll s = Some v \<longleftrightarrow> int64 v \<and> s = dec_int v"
  by (rule string2ll_eq)

text \<open>\<open>memtoll\<close> on a number followed by a known unit returns the product and reports no error when
  number and product fit in 64 bits; an unknown unit is reported as an error with value 0.\<close>

theorem memtoll_correct:
  "(int64 v \<and> memtoll_mul u = Some m \<and> int64 (v * m) \<longrightarrow>
      memtoll einval (dec_int v @ u) = Some (v * m, False)) \<and>
   (memtoll_mul (drop (length (memtoll_prefix p)) p) = None \<longrightarrow> memtoll einval p = Some (0, True))"
  using memtoll_dec memtoll_unit_error by blast

theorem memtoll_correct_witness:
  "memtoll False (dec_int 1 @ lit ''Gb'') = Some (1 * 1073741824, False) \<and>
   memtoll False (lit ''1x'') = Some (0, True)"
proof
  show "memtoll False (dec_int 1 @ lit ''Gb'') = Some (1 * 1073741824, False)"
    using memtoll_correct [of 1 "lit ''Gb''" 1073741824 False "[]"]
    by (simp add: int64_def memtoll_mul_def strcaseeq_def lit_def tolower_def)
  show "memtoll False (lit ''1x'') = Some (0, True)"
    using memtoll_correct [of 1 "[]" 1 False "lit ''1x''"]
    by (simp add: memtoll_mul_def memtoll_prefix_def strcaseeq_def lit_def tolower_def isdigit_def)
qed

text \<open>\<open>memtoll\<close> does not check its multiplication: the largest 64-bit number with the unit
  kilobyte overflows a signed 64-bit product, which is undefined behaviour in C; and a unit with
  no number before it is accepted as 0 where the C library does not report \<open>EINVAL\<close>.\<close>

theorem memtoll_overflow:
  "memtoll einval (dec_int INT64_MAX @ lit ''k'') = None \<and> memtoll False (lit ''gb'') = Some (0, False)"
proof
  have "memtoll_prefix (dec_int INT64_MAX @ lit ''k'') = dec_int INT64_MAX"
    by (rule memtoll_prefix_dec) (simp add: lit_def isdigit_def)
  moreover have v: "int64 INT64_MAX" by (simp add: int64_def)
  ultimately show "memtoll einval (dec_int INT64_MAX @ lit ''k'') = None"
    using strtol10_dec [OF v] length_dec_int_bound [OF v] length_dec_int_pos [of INT64_MAX]
    by (simp add: memtoll_def Let_def memtoll_mul_def strcaseeq_def lit_def tolower_def)
  show "memtoll False (lit ''gb'') = Some (0, False)"
    by (simp add: memtoll_def Let_def memtoll_mul_def memtoll_prefix_def strtol10_def strcaseeq_def
      lit_def tolower_def isdigit_def)
qed

end
