(* ===== verification/Sds.thy ===== *)
theory Sds
  imports Util
begin

text \<open>
  Dynamic strings (\<^verbatim>\<open>sds.h\<close>, \<^verbatim>\<open>sds.c\<close>). An sds is its header (the flag byte whose low three bits are
  the header type, and the \<open>len\<close> and \<open>alloc\<close> fields at the width of that type) and the cells from the
  string pointer to the end of the allocation. Type 5 has no fields: its length is in the upper bits
  of the flag byte. The allocator never returns a null pointer (it aborts the process), so the null
  checks of the sources do not appear; a request whose size wraps around is \<open>None\<close>.

  The abstraction is \<open>sds_rep s xs\<close>: the object is well formed and holds the bytes \<open>xs\<close> and the
  terminating zero. Each operation is shown to take represented strings to represented strings and
  to do to \<open>xs\<close> what it promises.
\<close>

section \<open>Header\<close>

record sds =
  sds_flags :: byte
  sds_len :: nat
  sds_alloc :: nat
  sds_buf :: cmemory

abbreviation SDS_MAX_PREALLOC :: nat where "SDS_MAX_PREALLOC \<equiv> 1048576"

definition sds_type :: "sds \<Rightarrow> nat" where
  "sds_type s = unat (sds_flags s) mod 8"

definition SDS_TYPE_5_LEN :: "byte \<Rightarrow> nat" where
  "SDS_TYPE_5_LEN f = unat f div 8"

text \<open>Bits of the \<open>len\<close> and \<open>alloc\<close> fields of the header types 8, 16, 32 and 64.\<close>

definition field_bits :: "nat \<Rightarrow> nat" where
  "field_bits t = (if t = 1 then 8 else if t = 2 then 16 else if t = 3 then 32 else 64)"

definition sdsHdrSize :: "nat \<Rightarrow> nat" where
  "sdsHdrSize t = (if t = 0 then 1 else if t = 1 then 3 else if t = 2 then 5 else if t = 3 then 9
     else if t = 4 then 17 else 0)"

definition sdsReqType :: "nat \<Rightarrow> nat" where
  "sdsReqType n = (if n < 2 ^ 5 then 0 else if n < 2 ^ 8 then 1 else if n < 2 ^ 16 then 2
     else if n < 2 ^ 32 then 3 else 4)"

definition sdslen :: "sds \<Rightarrow> nat" where
  "sdslen s = (let t = sds_type s in
     if t = 0 then SDS_TYPE_5_LEN (sds_flags s) else if t \<le> 4 then sds_len s else 0)"

definition sdsavail :: "sds \<Rightarrow> nat" where
  "sdsavail s = (let t = sds_type s in
     if t = 0 then 0
     else if t = 3 then (sds_alloc s + 2 ^ 32 - sds_len s) mod 2 ^ 32
     else if t \<le> 4 then (sds_alloc s + 2 ^ 64 - sds_len s) mod 2 ^ 64
     else 0)"

definition sdssetlen :: "sds \<Rightarrow> nat \<Rightarrow> sds" where
  "sdssetlen s newlen = (let t = sds_type s in
     if t = 0 then s\<lparr>sds_flags := of_nat (newlen * 8)\<rparr>
     else if t \<le> 4 then s\<lparr>sds_len := newlen mod 2 ^ field_bits t\<rparr>
     else s)"

definition sdsinclen :: "sds \<Rightarrow> nat \<Rightarrow> sds" where
  "sdsinclen s inc = (let t = sds_type s in
     if t = 0 then s\<lparr>sds_flags := of_nat ((SDS_TYPE_5_LEN (sds_flags s) + inc) mod 256 * 8)\<rparr>
     else if t \<le> 4 then s\<lparr>sds_len := (sds_len s + inc) mod 2 ^ field_bits t\<rparr>
     else s)"

definition sdsalloc :: "sds \<Rightarrow> nat" where
  "sdsalloc s = (let t = sds_type s in
     if t = 0 then SDS_TYPE_5_LEN (sds_flags s) else if t \<le> 4 then sds_alloc s else 0)"

definition sdssetalloc :: "sds \<Rightarrow> nat \<Rightarrow> sds" where
  "sdssetalloc s newlen = (let t = sds_type s in
     if t = 0 then s
     else if t \<le> 4 then s\<lparr>sds_alloc := newlen mod 2 ^ field_bits t\<rparr>
     else s)"

text \<open>Accesses through the string pointer.\<close>

definition sds_read :: "sds \<Rightarrow> nat \<Rightarrow> nat \<Rightarrow> bytes option" where
  "sds_read s off n = mem_read (sds_buf s) off n"

definition sds_write :: "sds \<Rightarrow> nat \<Rightarrow> bytes \<Rightarrow> sds option" where
  "sds_write s off bs = map_option (\<lambda>b. s\<lparr>sds_buf := b\<rparr>) (mem_write (sds_buf s) off bs)"

section \<open>Creation\<close>

text \<open>\<open>init\<close> is \<open>None\<close> for the null pointer; otherwise the object it points to.\<close>

definition sdsnewlen :: "bytes option \<Rightarrow> nat \<Rightarrow> sds option" where
  "sdsnewlen init initlen = do {
     let t = sdsReqType initlen;
     let t = (if t = 0 \<and> initlen = 0 then 1 else t);
     if sdsHdrSize t + initlen + 1 \<ge> 2 ^ 64 then None else do {
       let s = (if t = 0
          then \<lparr>sds_flags = of_nat (initlen * 8), sds_len = 0, sds_alloc = 0,
                 sds_buf = replicate (initlen + 1) (if init = None then Some 0 else None)\<rparr>
          else \<lparr>sds_flags = of_nat t, sds_len = initlen mod 2 ^ field_bits t,
                 sds_alloc = initlen mod 2 ^ field_bits t,
                 sds_buf = replicate (initlen + 1) (if init = None then Some 0 else None)\<rparr>);
       s \<leftarrow> (case init of
               None \<Rightarrow> Some s
             | Some bs \<Rightarrow> if initlen = 0 then Some s
                        else if length bs < initlen then None
                        else sds_write s 0 (take initlen bs));
       sds_write s initlen [0]
     } }"

definition sdsempty :: "sds option" where
  "sdsempty = sdsnewlen (Some []) 0"

definition sdsnew :: "bytes option \<Rightarrow> sds option" where
  "sdsnew init = sdsnewlen init (case init of None \<Rightarrow> 0 | Some s \<Rightarrow> length s)"

definition sdsdup :: "sds \<Rightarrow> sds option" where
  "sdsdup s = do { bs \<leftarrow> sds_read s 0 (sdslen s); sdsnewlen (Some bs) (sdslen s) }"

section \<open>Length and space\<close>

text \<open>\<open>strlen\<close>: cells up to the first zero byte; \<open>None\<close> when the object ends or an indeterminate
  byte comes first.\<close>

fun c_strlen :: "cmemory \<Rightarrow> nat option" where
  "c_strlen [] = None"
| "c_strlen (None # m) = None"
| "c_strlen (Some b # m) = (if b = 0 then Some 0 else map_option Suc (c_strlen m))"

definition sdsupdatelen :: "sds \<Rightarrow> sds option" where
  "sdsupdatelen s = do {
     n \<leftarrow> c_strlen (sds_buf s);
     Some (sdssetlen s (nat (s32 (int n) mod 2 ^ 64))) }"

definition sdsclear :: "sds \<Rightarrow> sds option" where
  "sdsclear s = sds_write (sdssetlen s 0) 0 [0]"

text \<open>The move of a string into a new allocation of another header type.\<close>

definition sds_realloc :: "sds \<Rightarrow> nat \<Rightarrow> nat \<Rightarrow> sds option" where
  "sds_realloc s t newlen =
     (if sdsHdrSize t + newlen + 1 \<ge> 2 ^ 64 then None
      else if sds_type s = t
        then Some (sdssetalloc (s\<lparr>sds_buf := mem_resize (sds_buf s) (newlen + 1)\<rparr>) newlen)
      else if sdslen s + 1 > length (sds_buf s) \<or> sdslen s > newlen then None
      else Some (sdssetalloc (sdssetlen
             \<lparr>sds_flags = of_nat t, sds_len = 0, sds_alloc = 0,
               sds_buf = take (sdslen s + 1) (sds_buf s) @ replicate (newlen - sdslen s) None\<rparr>
             (sdslen s)) newlen))"

definition sdsMakeRoomFor :: "sds \<Rightarrow> nat \<Rightarrow> sds option" where
  "sdsMakeRoomFor s addlen =
     (if sdsavail s \<ge> addlen then Some s
      else let n = (sdslen s + addlen) mod 2 ^ 64;
               newlen = (if n < SDS_MAX_PREALLOC then n * 2 else (n + SDS_MAX_PREALLOC) mod 2 ^ 64);
               t = sdsReqType newlen;
               t = (if t = 0 then 1 else t)
           in sds_realloc s t newlen)"

definition sdsRemoveFreeSpace :: "sds \<Rightarrow> sds option" where
  "sdsRemoveFreeSpace s = sds_realloc s (sdsReqType (sdslen s)) (sdslen s)"

definition sdsAllocSize :: "sds \<Rightarrow> nat" where
  "sdsAllocSize s = sdsHdrSize (sds_type s) + sdsalloc s + 1"

text \<open>A failing assertion is \<open>None\<close>. \<open>(unsigned int)(-incr)\<close> of a negative \<open>incr\<close> is its absolute
  value.\<close>

definition sdsIncrLen :: "sds \<Rightarrow> int \<Rightarrow> sds option" where
  "sdsIncrLen s incr =
     (let t = sds_type s; old = sdslen s; new = nat (int old + incr) in
      if t = 0 then
        (if (incr > 0 \<and> int old + incr < 32) \<or> (incr < 0 \<and> int old \<ge> - incr)
         then sds_write (s\<lparr>sds_flags := of_nat (new * 8)\<rparr>) new [0] else None)
      else if t \<le> 4 then
        (if (incr \<ge> 0 \<and> int (sds_alloc s) - int old \<ge> incr) \<or> (incr < 0 \<and> int old \<ge> - incr)
         then sds_write (s\<lparr>sds_len := new mod 2 ^ field_bits t\<rparr>) (new mod 2 ^ field_bits t) [0] else None)
      else sds_write s 0 [0])"

section \<open>Growing, appending, copying\<close>

definition sdsgrowzero :: "sds \<Rightarrow> nat \<Rightarrow> sds option" where
  "sdsgrowzero s len =
     (let curlen = sdslen s in
      if len \<le> curlen then Some s
      else do {
        s \<leftarrow> sdsMakeRoomFor s (len - curlen);
        s \<leftarrow> sds_write s curlen (replicate (len - curlen + 1) 0);
        Some (sdssetlen s len)
      })"

definition sdscatlen :: "sds \<Rightarrow> bytes \<Rightarrow> sds option" where
  "sdscatlen s t = do {
     let curlen = sdslen s;
     s \<leftarrow> sdsMakeRoomFor s (length t);
     s \<leftarrow> sds_write s curlen t;
     sds_write (sdssetlen s (curlen + length t)) (curlen + length t) [0] }"

definition sdscat :: "sds \<Rightarrow> bytes \<Rightarrow> sds option" where
  "sdscat s t = sdscatlen s t"

definition sdscatsds :: "sds \<Rightarrow> sds \<Rightarrow> sds option" where
  "sdscatsds s t = do { bs \<leftarrow> sds_read t 0 (sdslen t); sdscatlen s bs }"

definition sdscpylen :: "sds \<Rightarrow> bytes \<Rightarrow> sds option" where
  "sdscpylen s t = do {
     s \<leftarrow> (if sdsalloc s < length t then sdsMakeRoomFor s (length t - sdslen s) else Some s);
     s \<leftarrow> sds_write s 0 t;
     s \<leftarrow> sds_write s (length t) [0];
     Some (sdssetlen s (length t)) }"

definition sdscpy :: "sds \<Rightarrow> bytes \<Rightarrow> sds option" where
  "sdscpy s t = sdscpylen s t"

section \<open>Representation\<close>

text \<open>\<open>sds_body s xs\<close>: the header is consistent with the allocation and the first bytes are \<open>xs\<close>;
  \<open>sds_rep\<close> adds the terminator.\<close>

definition sds_wf :: "sds \<Rightarrow> bool" where
  "sds_wf s \<longleftrightarrow> sds_type s \<le> 4 \<and> sdslen s \<le> sdsalloc s \<and>
     (if sds_type s = 0 then sdsalloc s + 1 \<le> length (sds_buf s)
      else length (sds_buf s) = sdsalloc s + 1 \<and> sdsalloc s < 2 ^ field_bits (sds_type s))"

definition sds_body :: "sds \<Rightarrow> bytes \<Rightarrow> bool" where
  "sds_body s xs \<longleftrightarrow> sds_wf s \<and> sdslen s = length xs \<and> take (length xs) (sds_buf s) = map Some xs"

definition sds_rep :: "sds \<Rightarrow> bytes \<Rightarrow> bool" where
  "sds_rep s xs \<longleftrightarrow> sds_body s xs \<and> sds_buf s ! length xs = Some 0"

lemma sds_wf_room: "sds_wf s \<Longrightarrow> sdslen s \<le> sdsalloc s \<and> sdsalloc s < length (sds_buf s)"
  by (auto simp: sds_wf_def split: if_splits)

lemma unat_flags5: "n < 32 \<Longrightarrow> unat (of_nat (n * 8) :: byte) = n * 8"
  by (subst unat_of_nat) simp

lemma type5_flags [simp]:
  "n < 32 \<Longrightarrow> unat (of_nat (n * 8) :: byte) mod 8 = 0"
  "n < 32 \<Longrightarrow> SDS_TYPE_5_LEN (of_nat (n * 8)) = n"
  by (simp_all add: unat_flags5 SDS_TYPE_5_LEN_def del: of_nat_mult)

lemma type_flags [simp]: "t \<le> 4 \<Longrightarrow> unat (of_nat t :: byte) mod 8 = t"
  by (simp add: unat_of_nat)

lemma type5_len_bound: "SDS_TYPE_5_LEN f < 32"
proof -
  have "unat f < 2 ^ LENGTH(8)" by (rule unsigned_less)
  then show ?thesis by (simp add: SDS_TYPE_5_LEN_def div_less_iff_less_mult)
qed

lemma sds_type_setlen [simp]: "sds_wf s \<Longrightarrow> n \<le> sdsalloc s \<Longrightarrow> sds_type (sdssetlen s n) = sds_type s"
proof -
  assume a: "sds_wf s" "n \<le> sdsalloc s"
  show ?thesis
  proof (cases "sds_type s = 0")
    case True
    then have "n < 32" using a type5_len_bound [of "sds_flags s"] by (simp add: sdsalloc_def)
    then show ?thesis using True by (simp add: sdssetlen_def sds_type_def Let_def del: of_nat_mult)
  qed (simp add: sdssetlen_def sds_type_def Let_def)
qed

lemma sdssetlen_ok:
  assumes w: "sds_wf s" and n: "n \<le> sdsalloc s"
  shows "sdslen (sdssetlen s n) = n" "sds_buf (sdssetlen s n) = sds_buf s"
    "sdsalloc (sdssetlen s n) = (if sds_type s = 0 then n else sdsalloc s)" "sds_wf (sdssetlen s n)"
proof -
  have t: "sds_type (sdssetlen s n) = sds_type s" using w n by simp
  show b: "sds_buf (sdssetlen s n) = sds_buf s" by (simp add: sdssetlen_def Let_def)
  have n5: "sds_type s = 0 \<Longrightarrow> n < 32"
    using n type5_len_bound [of "sds_flags s"] by (simp add: sdsalloc_def)
  have nf: "sds_type s \<noteq> 0 \<Longrightarrow> n < 2 ^ field_bits (sds_type s)" using w n by (auto simp: sds_wf_def)
  show l: "sdslen (sdssetlen s n) = n"
    using w n n5 nf by (simp add: sdslen_def t Let_def) (simp add: sdssetlen_def Let_def sds_wf_def del: of_nat_mult)
  show a: "sdsalloc (sdssetlen s n) = (if sds_type s = 0 then n else sdsalloc s)"
    using w n n5 by (simp add: sdsalloc_def t Let_def) (simp add: sdssetlen_def Let_def sds_wf_def del: of_nat_mult)
  show "sds_wf (sdssetlen s n)" using w n l a b t by (auto simp: sds_wf_def)
qed

lemma sdsavail_eq: "sds_wf s \<Longrightarrow> sdsavail s = sdsalloc s - sdslen s"
proof -
  assume w: "sds_wf s"
  show ?thesis
  proof (cases "sds_type s = 0")
    case True
    then show ?thesis by (simp add: sdsavail_def sdsalloc_def sdslen_def)
  next
    case False
    let ?t = "sds_type s" and ?a = "sds_alloc s" and ?l = "sds_len s"
    have f: "?t \<le> 4" "?l \<le> ?a" "?a < 2 ^ field_bits ?t"
      using w False by (auto simp: sds_wf_def sdsalloc_def sdslen_def Let_def)
    have e: "(?a + m - ?l) mod m = ?a - ?l" if "?a < m" for m
    proof -
      have "?a + m - ?l = (?a - ?l) + m" using f by simp
      moreover have "?a - ?l < m" using that by linarith
      ultimately show ?thesis by (metis mod_add_self2 mod_less)
    qed
    have "?t = 3 \<Longrightarrow> ?a < 2 ^ 32"
      using f(3) by (simp add: field_bits_def)
    moreover have "?a < 2 ^ 64"
    proof -
      have "field_bits ?t \<le> 64" by (simp add: field_bits_def)
      then have "(2 :: nat) ^ field_bits ?t \<le> 2 ^ 64" by (rule power_increasing) simp
      with f(3) show ?thesis by linarith
    qed
    ultimately show ?thesis using False f(1) e
      unfolding sdsavail_def sdsalloc_def sdslen_def Let_def by presburger
  qed
qed

lemma sds_write_ok:
  assumes "off + length bs \<le> length (sds_buf s)"
  shows "sds_write s off bs = Some (s\<lparr>sds_buf := take off (sds_buf s) @ map Some bs @ drop (off + length bs) (sds_buf s)\<rparr>)"
  using assms by (simp add: sds_write_def mem_write_def)

lemma sds_hdr_buf [simp]:
  "sds_type (s\<lparr>sds_buf := b\<rparr>) = sds_type s" "sdslen (s\<lparr>sds_buf := b\<rparr>) = sdslen s"
  "sdsalloc (s\<lparr>sds_buf := b\<rparr>) = sdsalloc s" "sdsavail (s\<lparr>sds_buf := b\<rparr>) = sdsavail s"
  by (simp_all add: sds_type_def sdslen_def sdsalloc_def sdsavail_def Let_def)

lemma sds_wf_buf: "sds_wf s \<Longrightarrow> length b = length (sds_buf s) \<Longrightarrow> sds_wf (s\<lparr>sds_buf := b\<rparr>)"
  unfolding sds_wf_def by (auto split: if_splits)

text \<open>Setting length and content inside the allocation: the step behind every in-place operation.\<close>

lemma sds_rep_set:
  assumes w: "sds_wf s" and n: "length xs \<le> sdsalloc s" and b: "length b = length (sds_buf s)"
    and c: "take (length xs) b = map Some xs"
  shows "sds_body ((sdssetlen s (length xs))\<lparr>sds_buf := b\<rparr>) xs"
    and "b ! length xs = Some 0 \<Longrightarrow> sds_rep ((sdssetlen s (length xs))\<lparr>sds_buf := b\<rparr>) xs"
proof -
  note S = sdssetlen_ok [OF w n]
  show B: "sds_body ((sdssetlen s (length xs))\<lparr>sds_buf := b\<rparr>) xs"
    using S b c sds_wf_buf [of "sdssetlen s (length xs)" b] by (simp add: sds_body_def)
  show "b ! length xs = Some 0 \<Longrightarrow> sds_rep ((sdssetlen s (length xs))\<lparr>sds_buf := b\<rparr>) xs"
    using B by (simp add: sds_rep_def)
qed

lemma sdssetlen_buf: "(sdssetlen s n)\<lparr>sds_buf := b\<rparr> = sdssetlen (s\<lparr>sds_buf := b\<rparr>) n"
  by (simp add: sdssetlen_def Let_def)

lemma sds_buf_upd_twice [simp]: "s\<lparr>sds_buf := a, sds_buf := b\<rparr> = s\<lparr>sds_buf := b\<rparr>"
  by simp

section \<open>Creation and growth keep the representation\<close>

lemma sdsReqType_le: "sdsReqType n \<le> 4"
  by (simp add: sdsReqType_def)

lemma sdsReqType_bits: "n < 2 ^ 64 \<Longrightarrow> n < 2 ^ field_bits (if sdsReqType n = 0 then 1 else sdsReqType n)"
  and sdsReqType_5: "sdsReqType n = 0 \<longleftrightarrow> n < 32"
  and sdsReqType_bits': "n < 2 ^ 64 \<Longrightarrow> sdsReqType n \<noteq> 0 \<Longrightarrow> n < 2 ^ field_bits (sdsReqType n)"
  by (simp_all add: sdsReqType_def field_bits_def)

abbreviation SDS_LIMIT :: nat where "SDS_LIMIT \<equiv> 4611686018427387904"

lemma sdsHdrSize_le: "sdsHdrSize t \<le> 17"
  by (simp add: sdsHdrSize_def)

lemma sdsnewlen_ok:
  assumes n: "n \<le> length bs" "n < SDS_LIMIT"
  shows "\<exists>s. sdsnewlen (Some bs) n = Some s \<and> sds_rep s (take n bs)"
proof -
  let ?t = "if sdsReqType n = 0 \<and> n = 0 then 1 else sdsReqType n"
  let ?s = "if ?t = 0
          then \<lparr>sds_flags = of_nat (n * 8), sds_len = 0, sds_alloc = 0, sds_buf = replicate (n + 1) None\<rparr>
          else \<lparr>sds_flags = of_nat ?t, sds_len = n mod 2 ^ field_bits ?t,
                 sds_alloc = n mod 2 ^ field_bits ?t, sds_buf = replicate (n + 1) None\<rparr>"
  let ?b = "map Some (take n bs) @ [Some 0]"
  have t: "?t \<le> 4" using sdsReqType_le [of n] by simp
  have ty: "sds_type ?s = ?t"
    using t sdsReqType_5 [of n] by (auto simp: sds_type_def simp del: of_nat_mult)
  have h: "\<not> sdsHdrSize ?t + n + 1 \<ge> 2 ^ 64" using n sdsHdrSize_le [of ?t] by simp
  have nb: "?t \<noteq> 0 \<Longrightarrow> n < 2 ^ field_bits ?t"
    using sdsReqType_bits' [of n] n by (cases "n = 0") (auto simp: field_bits_def)
  have l: "sdslen ?s = n" "sdsalloc ?s = n"
    using ty t nb sdsReqType_5 [of n]
    by (simp_all add: sdslen_def sdsalloc_def Let_def del: of_nat_mult)
  have bl: "length (sds_buf ?s) = n + 1" by simp
  have w: "sds_wf ?s" using ty t l nb bl unfolding sds_wf_def by auto
  let ?s1 = "?s\<lparr>sds_buf := ?b\<rparr>"
  have "sdsnewlen (Some bs) n = Some ?s1"
  proof (cases "n = 0")
    case True
    then have "sdsnewlen (Some bs) n = sds_write ?s n [0]"
      using h unfolding sdsnewlen_def Let_def by simp
    then show ?thesis using True bl by (simp add: sds_write_ok)
  next
    case False
    then have "sdsnewlen (Some bs) n = do { s \<leftarrow> sds_write ?s 0 (take n bs); sds_write s n [0] }"
      using h n unfolding sdsnewlen_def Let_def by simp
    then show ?thesis using n bl by (simp add: sds_write_ok)
  qed
  moreover have "sds_rep ?s1 (take n bs)"
    using sds_wf_buf [OF w, of ?b] l n by (auto simp: sds_rep_def sds_body_def nth_append)
  ultimately show ?thesis by blast
qed

lemma take_mem_resize: "n \<le> k \<Longrightarrow> n \<le> length m \<Longrightarrow> take n (mem_resize m k) = take n m"
  by (simp add: mem_resize_def min_absorb1)

lemma nth_mem_resize: "n < k \<Longrightarrow> n < length m \<Longrightarrow> mem_resize m k ! n = m ! n"
  by (simp add: mem_resize_def nth_append)

lemma length_mem_resize: "length (mem_resize m k) = k"
  by (simp add: mem_resize_def)

lemma sdssetalloc_ok:
  assumes "sds_type s \<noteq> 0" "sds_type s \<le> 4" "n < 2 ^ field_bits (sds_type s)"
  shows "sds_type (sdssetalloc s n) = sds_type s" "sdslen (sdssetalloc s n) = sdslen s"
    "sdsalloc (sdssetalloc s n) = n" "sds_buf (sdssetalloc s n) = sds_buf s"
proof -
  show t: "sds_type (sdssetalloc s n) = sds_type s" by (simp add: sdssetalloc_def sds_type_def Let_def)
  show "sdslen (sdssetalloc s n) = sdslen s" "sdsalloc (sdssetalloc s n) = n"
    "sds_buf (sdssetalloc s n) = sds_buf s"
    using assms by (simp_all add: sdslen_def sdsalloc_def t Let_def) (simp_all add: sdssetalloc_def Let_def)
qed

text \<open>Moving a string to an allocation that has room for it keeps its bytes and its terminator.\<close>

lemma sds_realloc_ok:
  assumes b: "sds_body s xs" and t: "t \<le> 4" and n: "length xs \<le> n" "n < 2 ^ 63"
    and f: "if t = 0 then n < 32 else n < 2 ^ field_bits t" and z: "t = 0 \<Longrightarrow> n = length xs"
  shows "\<exists>s'. sds_realloc s t n = Some s' \<and> sds_body s' xs \<and> sdsalloc s' = n \<and> sds_type s' = t \<and>
    (sds_rep s xs \<longrightarrow> sds_rep s' xs)"
proof -
  have w: "sds_wf s" and l: "sdslen s = length xs" and c: "take (length xs) (sds_buf s) = map Some xs"
    using b by (auto simp: sds_body_def)
  note R = sds_wf_room [OF w]
  have h: "\<not> sdsHdrSize t + n + 1 \<ge> 2 ^ 64" using n sdsHdrSize_le [of t] by simp
  show ?thesis
  proof (cases "sds_type s = t")
    case True
    let ?m = "mem_resize (sds_buf s) (n + 1)"
    let ?r = "s\<lparr>sds_buf := ?m\<rparr>"
    have m: "take (length xs) ?m = map Some xs" "?m ! length xs = sds_buf s ! length xs" "length ?m = n + 1"
      using c n R l by (simp_all add: take_mem_resize nth_mem_resize length_mem_resize)
    have e: "sds_realloc s t n = Some (sdssetalloc ?r n)" using h True by (simp add: sds_realloc_def)
    show ?thesis
    proof (cases "t = 0")
      case T0: True
      have r: "sdssetalloc ?r n = ?r" using True T0 by (simp add: sdssetalloc_def)
      have a: "sdsalloc s = n" using z T0 True l R by (simp add: sdsalloc_def sdslen_def)
      have "sds_body ?r xs" using w l m a True T0 by (simp add: sds_body_def sds_wf_def)
      then show ?thesis using e r m True a by (auto simp: sds_rep_def)
    next
      case T1: False
      note A = sdssetalloc_ok [of ?r n]
      have "sds_body (sdssetalloc ?r n) xs"
        using w l m A True T1 f n t by (simp add: sds_body_def sds_wf_def)
      then show ?thesis using e m A True T1 f t by (auto simp: sds_rep_def)
    qed
  next
    case False
    let ?m = "take (length xs + 1) (sds_buf s) @ replicate (n - length xs) None"
    let ?r = "\<lparr>sds_flags = of_nat t, sds_len = 0, sds_alloc = 0, sds_buf = ?m\<rparr>"
    have m: "take (length xs) ?m = map Some xs" "?m ! length xs = sds_buf s ! length xs" "length ?m = n + 1"
      using c n R l by (simp_all add: min_absorb1 nth_append)
    have e: "sds_realloc s t n = Some (sdssetalloc (sdssetlen ?r (length xs)) n)"
      using h False l R n by (simp add: sds_realloc_def)
    have tr: "sds_type ?r = t" using t by (simp add: sds_type_def)
    show ?thesis
    proof (cases "t = 0")
      case T0: True
      then have n32: "n < 32" using f by simp
      have s: "sdssetalloc (sdssetlen ?r (length xs)) n = ?r\<lparr>sds_flags := of_nat (length xs * 8)\<rparr>" (is "_ = ?q")
        using tr T0 z n32 by (simp add: sdssetlen_def sdssetalloc_def Let_def sds_type_def del: of_nat_mult)
      have q: "sds_type ?q = 0" "sdslen ?q = length xs" "sdsalloc ?q = length xs"
        using n32 z T0 by (simp_all add: sds_type_def sdslen_def sdsalloc_def Let_def del: of_nat_mult)
      have "sds_body ?q xs" unfolding sds_body_def sds_wf_def q using m z T0 by simp
      then show ?thesis using e s m q z T0 by (auto simp: sds_rep_def)
    next
      case T1: False
      let ?q = "sdssetlen ?r (length xs)"
      have lx: "length xs < 2 ^ field_bits t" using f T1 n by simp
      have q: "sds_type ?q = t" "sdslen ?q = length xs" "sds_buf ?q = ?m"
        using tr T1 t lx by (simp_all add: sdssetlen_def Let_def sdslen_def) (simp_all add: sds_type_def)
      note A = sdssetalloc_ok [of ?q n]
      have "sds_body (sdssetalloc ?q n) xs"
        unfolding sds_body_def sds_wf_def using A q T1 f n t m by simp
      then show ?thesis using e m A q T1 f t by (auto simp: sds_rep_def)
    qed
  qed
qed

lemma sdsMakeRoomFor_ok:
  assumes b: "sds_body s xs" and n: "length xs + addlen < SDS_LIMIT"
  shows "\<exists>s'. sdsMakeRoomFor s addlen = Some s' \<and> sds_body s' xs \<and> addlen \<le> sdsavail s' \<and>
    (sds_rep s xs \<longrightarrow> sds_rep s' xs)"
proof (cases "sdsavail s \<ge> addlen")
  case True
  then show ?thesis using b by (simp add: sdsMakeRoomFor_def)
next
  case False
  have l: "sdslen s = length xs" using b by (simp add: sds_body_def)
  let ?k = "length xs + addlen"
  define m where "m = (if ?k < SDS_MAX_PREALLOC then ?k * 2 else ?k + SDS_MAX_PREALLOC)"
  define t where "t = (if sdsReqType m = 0 then 1 else sdsReqType m)"
  have m63: "m < 2 ^ 63" "?k \<le> m" using n by (simp_all add: m_def)
  have e: "sdsMakeRoomFor s addlen = sds_realloc s t m"
    using False l n by (simp add: sdsMakeRoomFor_def Let_def m_def t_def)
  have t: "t \<le> 4" "t \<noteq> 0" "m < 2 ^ field_bits t"
    using sdsReqType_le [of m] sdsReqType_bits [of m] m63 by (simp_all add: t_def)
  obtain s' where s': "sds_realloc s t m = Some s'" "sds_body s' xs" "sdsalloc s' = m"
    "sds_rep s xs \<longrightarrow> sds_rep s' xs"
    using sds_realloc_ok [OF b t(1), of m] m63 t by auto
  have "addlen \<le> sdsavail s'"
    using s'(2,3) sdsavail_eq [of s'] m63 by (simp add: sds_body_def)
  then show ?thesis using e s' by auto
qed

lemma sds_write_append:
  assumes b: "sds_body s xs" and n: "length xs + length ys \<le> sdsalloc s"
  shows "\<exists>s'. sds_write s (length xs) ys = Some s' \<and> sds_body (sdssetlen s' (length xs + length ys)) (xs @ ys)
    \<and> sdsalloc s' = sdsalloc s \<and> sds_wf s' \<and> take (length xs + length ys) (sds_buf s') = map Some (xs @ ys)"
proof -
  have w: "sds_wf s" and c: "take (length xs) (sds_buf s) = map Some xs" using b by (auto simp: sds_body_def)
  note R = sds_wf_room [OF w]
  let ?b = "map Some xs @ map Some ys @ drop (length xs + length ys) (sds_buf s)"
  have lb: "length ?b = length (sds_buf s)" using R n by simp
  have e: "sds_write s (length xs) ys = Some (s\<lparr>sds_buf := ?b\<rparr>)"
    using sds_write_ok [of "length xs" ys s] R n c by simp
  have "sds_body ((sdssetlen s (length (xs @ ys)))\<lparr>sds_buf := ?b\<rparr>) (xs @ ys)"
    using n lb by (intro sds_rep_set(1) [OF w]) simp_all
  then show ?thesis using e sds_wf_buf [OF w lb] by (simp add: sdssetlen_buf)
qed

lemma sds_terminate:
  assumes b: "sds_body s xs"
  shows "\<exists>s'. sds_write s (length xs) [0] = Some s' \<and> sds_rep s' xs"
proof -
  have w: "sds_wf s" and c: "take (length xs) (sds_buf s) = map Some xs" and l: "sdslen s = length xs"
    using b by (auto simp: sds_body_def)
  note R = sds_wf_room [OF w]
  let ?b = "map Some xs @ Some 0 # drop (Suc (length xs)) (sds_buf s)"
  have lb: "length ?b = length (sds_buf s)" using R l by auto
  have "sds_write s (length xs) [0] = Some (s\<lparr>sds_buf := ?b\<rparr>)"
    using sds_write_ok [of "length xs" "[0]" s] R l c by simp
  then show ?thesis using sds_wf_buf [OF w lb] l by (simp add: sds_rep_def sds_body_def nth_append)
qed

lemma sdscatlen_ok:
  assumes b: "sds_body s xs" and n: "length xs + length ys < SDS_LIMIT"
  shows "\<exists>s'. sdscatlen s ys = Some s' \<and> sds_rep s' (xs @ ys)"
proof -
  have l: "sdslen s = length xs" using b by (simp add: sds_body_def)
  obtain s1 where s1: "sdsMakeRoomFor s (length ys) = Some s1" "sds_body s1 xs" "length ys \<le> sdsavail s1"
    using sdsMakeRoomFor_ok [OF b n] by auto
  have "length xs + length ys \<le> sdsalloc s1"
    using s1 sdsavail_eq [of s1] sds_wf_room [of s1] by (auto simp: sds_body_def)
  then obtain s2 where s2: "sds_write s1 (length xs) ys = Some s2"
    "sds_body (sdssetlen s2 (length xs + length ys)) (xs @ ys)"
    using sds_write_append [OF s1(2)] by auto
  show ?thesis using s1(1) s2 l sds_terminate [OF s2(2)] by (simp add: sdscatlen_def Let_def)
qed

lemma sds_read_ok: "sds_body s xs \<Longrightarrow> sds_read s 0 (sdslen s) = Some xs"
  by (auto simp: sds_read_def mem_read_def sds_body_def dest!: sds_wf_room)

lemma sdsdup_ok: "sds_body s xs \<Longrightarrow> length xs < SDS_LIMIT \<Longrightarrow> \<exists>s'. sdsdup s = Some s' \<and> sds_rep s' xs"
  using sds_read_ok [of s xs] sdsnewlen_ok [of "length xs" xs] by (simp add: sdsdup_def sds_body_def)

lemma sdscatsds_ok:
  "sds_body s xs \<Longrightarrow> sds_body t ys \<Longrightarrow> length xs + length ys < SDS_LIMIT \<Longrightarrow>
    \<exists>s'. sdscatsds s t = Some s' \<and> sds_rep s' (xs @ ys)"
  using sds_read_ok [of t ys] sdscatlen_ok [of s xs ys] by (simp add: sdscatsds_def)

lemma sdsempty_ok: "\<exists>s. sdsempty = Some s \<and> sds_rep s []"
  using sdsnewlen_ok [of 0 "[]"] by (simp add: sdsempty_def)

lemma sdsclear_ok: "sds_body s xs \<Longrightarrow> \<exists>s'. sdsclear s = Some s' \<and> sds_rep s' []"
proof -
  assume b: "sds_body s xs"
  then have w: "sds_wf s" by (simp add: sds_body_def)
  have "sds_body (sdssetlen s 0) []" using sdssetlen_ok [OF w, of 0] by (simp add: sds_body_def)
  from sds_terminate [OF this] show ?thesis by (simp add: sdsclear_def)
qed

lemma sdsgrowzero_ok:
  assumes b: "sds_rep s xs" and n: "n < SDS_LIMIT"
  shows "\<exists>s'. sdsgrowzero s n = Some s' \<and> sds_rep s' (xs @ replicate (n - length xs) 0)"
proof (cases "n \<le> length xs")
  case True
  then show ?thesis using b by (simp add: sdsgrowzero_def sds_rep_def sds_body_def Let_def)
next
  case False
  let ?k = "n - length xs"
  have bb: "sds_body s xs" and l: "sdslen s = length xs" using b by (simp_all add: sds_rep_def sds_body_def)
  obtain s1 where s1: "sdsMakeRoomFor s ?k = Some s1" "sds_body s1 xs" "?k \<le> sdsavail s1"
    using sdsMakeRoomFor_ok [OF bb, of ?k] False n by auto
  have w: "sds_wf s1" and c: "take (length xs) (sds_buf s1) = map Some xs" and l1: "sdslen s1 = length xs"
    using s1 by (auto simp: sds_body_def)
  have a: "n \<le> sdsalloc s1" "n < length (sds_buf s1)"
    using s1(3) sdsavail_eq [OF w] sds_wf_room [OF w] l1 False by auto
  let ?y = "xs @ replicate ?k 0"
  let ?b = "map Some ?y @ Some 0 # drop (Suc n) (sds_buf s1)"
  have r: "replicate (?k + 1) 0 = replicate ?k (0 :: byte) @ [0]" by (simp add: replicate_append_same)
  have ly: "length ?y = n" using False by simp
  have "sds_write s1 (length xs) (replicate (?k + 1) 0) = Some (s1\<lparr>sds_buf := ?b\<rparr>)"
    unfolding r using a False c by (subst sds_write_ok) simp_all
  moreover have "sds_rep ((sdssetlen s1 (length ?y))\<lparr>sds_buf := ?b\<rparr>) ?y"
  proof (rule sds_rep_set(2) [OF w])
    show "length ?b = length (sds_buf s1)" using a ly by (metis Suc_leI append_take_drop_id length_Cons
      length_append length_drop length_map le_add_diff_inverse add_Suc_right add_Suc)
    show "?b ! length ?y = Some 0" by (metis length_map nth_append_length)
  qed (use a ly in auto)
  ultimately show ?thesis using s1(1) l False ly
    by (simp add: sdsgrowzero_def Let_def sdssetlen_buf del: replicate_Suc)
qed

lemma sdscpylen_ok:
  assumes b: "sds_body s xs" and n: "length ys < SDS_LIMIT" "length xs < SDS_LIMIT"
  shows "\<exists>s'. sdscpylen s ys = Some s' \<and> sds_rep s' ys"
proof -
  have w: "sds_wf s" and l: "sdslen s = length xs" using b by (auto simp: sds_body_def)
  obtain s1 where s1: "(if sdsalloc s < length ys then sdsMakeRoomFor s (length ys - sdslen s) else Some s) = Some s1"
    "sds_wf s1" "length ys \<le> sdsalloc s1"
  proof (cases "sdsalloc s < length ys")
    case True
    then have le: "length xs \<le> length ys" using sds_wf_room [OF w] l by simp
    obtain s1 where "sdsMakeRoomFor s (length ys - length xs) = Some s1" "sds_body s1 xs"
      "length ys - length xs \<le> sdsavail s1"
      using sdsMakeRoomFor_ok [OF b, of "length ys - length xs"] n le by auto
    then show ?thesis using True l le that [of s1] sdsavail_eq [of s1] sds_wf_room [of s1]
      by (auto simp: sds_body_def)
  qed (use w that in auto)
  note R = sds_wf_room [OF s1(2)]
  let ?b = "map Some ys @ drop (length ys) (sds_buf s1)"
  let ?c = "map Some ys @ Some 0 # drop (Suc (length ys)) (sds_buf s1)"
  have "sds_write s1 0 ys = Some (s1\<lparr>sds_buf := ?b\<rparr>)" using R s1(3) by (subst sds_write_ok) simp_all
  moreover have "sds_write (s1\<lparr>sds_buf := ?b\<rparr>) (length ys) [0] = Some (s1\<lparr>sds_buf := ?c\<rparr>)"
    using R s1(3) by (subst sds_write_ok) auto
  moreover have "sds_rep ((sdssetlen s1 (length ys))\<lparr>sds_buf := ?c\<rparr>) ys"
    using R s1(3) by (intro sds_rep_set(2) [OF s1(2)]) (auto simp: nth_append)
  ultimately show ?thesis using s1(1) by (simp add: sdscpylen_def sdssetlen_buf)
qed

lemma sdsRemoveFreeSpace_ok:
  assumes b: "sds_rep s xs" and n: "length xs < SDS_LIMIT"
  shows "\<exists>s'. sdsRemoveFreeSpace s = Some s' \<and> sds_rep s' xs \<and> sdsavail s' = 0"
proof -
  have bb: "sds_body s xs" and l: "sdslen s = length xs" using b by (simp_all add: sds_rep_def sds_body_def)
  obtain s' where s': "sds_realloc s (sdsReqType (length xs)) (length xs) = Some s'" "sds_rep s' xs"
    "sdsalloc s' = length xs"
    using sds_realloc_ok [OF bb sdsReqType_le, of "length xs" "length xs"] n b
      sdsReqType_5 [of "length xs"] sdsReqType_bits' [of "length xs"] by auto
  then show ?thesis using l sdsavail_eq [of s'] by (auto simp: sdsRemoveFreeSpace_def sds_rep_def sds_body_def)
qed

lemma c_strlen_map: "c_strlen (map Some xs @ Some 0 # m) = Some (length (takeWhile (\<lambda>b. b \<noteq> 0) xs))"
  by (induction xs) auto

lemma sds_buf_split: "sds_rep s xs \<Longrightarrow> sds_buf s = map Some xs @ Some 0 # drop (Suc (length xs)) (sds_buf s)"
  using id_take_nth_drop [of "length xs" "sds_buf s"]
  by (auto simp: sds_rep_def sds_body_def dest!: sds_wf_room)

text \<open>\<open>sdsupdatelen\<close> cuts the string at its first zero byte.\<close>

lemma sdsupdatelen_ok:
  assumes b: "sds_rep s xs" and n: "int (length xs) \<le> INT32_MAX"
  shows "\<exists>s'. sdsupdatelen s = Some s' \<and> sds_rep s' (takeWhile (\<lambda>b. b \<noteq> 0) xs)"
proof -
  let ?y = "takeWhile (\<lambda>b. b \<noteq> 0) xs"
  have w: "sds_wf s" and l: "sdslen s = length xs" using b by (simp_all add: sds_rep_def sds_body_def)
  have y: "length ?y \<le> length xs" by (rule length_takeWhile_le)
  have yi: "int (length ?y) \<le> INT32_MAX" using y n by linarith
  have "sdsupdatelen s = Some (sdssetlen s (length ?y))"
    using sds_buf_split [OF b] c_strlen_map [of xs "drop (Suc (length xs)) (sds_buf s)"] yi
    by (simp add: sdsupdatelen_def)
  moreover have "sds_rep ((sdssetlen s (length ?y))\<lparr>sds_buf := sds_buf s\<rparr>) ?y"
  proof (rule sds_rep_set(2) [OF w])
    show "length ?y \<le> sdsalloc s" using y sds_wf_room [OF w] l by simp
    have t: "take (length ?y) xs = ?y" by (metis takeWhile_eq_take)
    then show "take (length ?y) (sds_buf s) = map Some ?y"
      using sds_buf_split [OF b] y by (metis (no_types, lifting) diff_is_0_eq length_map take0 take_append append_Nil2 take_map)
    show "sds_buf s ! length ?y = Some 0"
    proof (cases "length ?y < length xs")
      case True
      then have "sds_buf s ! length ?y = Some (xs ! length ?y)"
        using sds_buf_split [OF b] by (metis length_map nth_append nth_map)
      then show ?thesis using True nth_length_takeWhile by fastforce
    next
      case False
      then have "length ?y = length xs" using y by simp
      then show ?thesis using b by (simp add: sds_rep_def)
    qed
  qed simp
  ultimately show ?thesis by (simp add: sdssetlen_buf)
qed

text \<open>\<open>sdsIncrLen\<close> after the caller wrote \<open>ys\<close> behind the string, and as a right trim.\<close>

lemma sdsIncrLen_grow:
  assumes b: "sds_body s xs" and t: "sds_type s \<noteq> 0" and n: "length xs + length ys \<le> sdsalloc s"
    and c: "take (length xs + length ys) (sds_buf s) = map Some (xs @ ys)"
  shows "\<exists>s'. sdsIncrLen s (int (length ys)) = Some s' \<and> sds_rep s' (xs @ ys)"
proof -
  have w: "sds_wf s" and l: "sdslen s = length xs" using b by (auto simp: sds_body_def)
  have t4: "sds_type s \<le> 4" and f: "sdsalloc s < 2 ^ field_bits (sds_type s)" and al: "sds_alloc s = sdsalloc s"
    using w t by (auto simp: sds_wf_def sdsalloc_def Let_def)
  let ?n = "length xs + length ys"
  have n1: "?n < 2 ^ field_bits (sds_type s)" using n f by simp
  have e: "s\<lparr>sds_len := ?n mod 2 ^ field_bits (sds_type s)\<rparr> = sdssetlen s ?n"
    using t t4 by (simp add: sdssetlen_def)
  have "sds_body ((sdssetlen s (length (xs @ ys)))\<lparr>sds_buf := sds_buf s\<rparr>) (xs @ ys)"
    using n c by (intro sds_rep_set(1) [OF w]) simp_all
  then have "sds_body (sdssetlen s ?n) (xs @ ys)" by (simp add: sdssetlen_buf)
  from sds_terminate [OF this] obtain s' where
    s': "sds_write (sdssetlen s ?n) ?n [0] = Some s'" "sds_rep s' (xs @ ys)" by auto
  have "sdsIncrLen s (int (length ys)) = sds_write (s\<lparr>sds_len := ?n mod 2 ^ field_bits (sds_type s)\<rparr>) ?n [0]"
    using t t4 l n n1 al by (simp add: sdsIncrLen_def Let_def nat_int_add)
  then show ?thesis using s' e by simp
qed

lemma sdsIncrLen_shrink:
  assumes b: "sds_body s xs" and k: "0 < k" "k \<le> length xs"
  shows "\<exists>s'. sdsIncrLen s (- int k) = Some s' \<and> sds_rep s' (take (length xs - k) xs)"
proof -
  have w: "sds_wf s" and l: "sdslen s = length xs" and c: "take (length xs) (sds_buf s) = map Some xs"
    using b by (auto simp: sds_body_def)
  let ?y = "take (length xs - k) xs"
  let ?n = "length xs - k"
  have ly: "length ?y = ?n" by simp
  have n: "?n \<le> sdsalloc s" using sds_wf_room [OF w] l by auto
  have ni: "nat (int (length xs) + - int k) = ?n" using k by linarith
  have "sds_body ((sdssetlen s (length ?y))\<lparr>sds_buf := sds_buf s\<rparr>) ?y"
  proof (rule sds_rep_set(1) [OF w])
    have "take ?n (take (length xs) (sds_buf s)) = take ?n (map Some xs)" by (simp only: c)
    then show "take (length ?y) (sds_buf s) = map Some ?y" unfolding ly by (simp add: take_map min_absorb1)
  qed (use n in simp_all)
  then have "sds_body (sdssetlen s ?n) ?y" by (simp add: sdssetlen_buf)
  from sds_terminate [OF this] obtain s' where
    s': "sds_write (sdssetlen s ?n) ?n [0] = Some s'" "sds_rep s' ?y" by auto
  have "sdsIncrLen s (- int k) = sds_write (sdssetlen s ?n) ?n [0]"
  proof (cases "sds_type s = 0")
    case True
    then show ?thesis using k l ni by (simp add: sdsIncrLen_def sdssetlen_def Let_def)
  next
    case False
    have "?n < 2 ^ field_bits (sds_type s)" "sds_type s \<le> 4" using w False n by (auto simp: sds_wf_def)
    then show ?thesis using False k l ni by (simp add: sdsIncrLen_def sdssetlen_def Let_def)
  qed
  then show ?thesis using s' by simp
qed

section \<open>The buffer interface\<close>

text \<open>What the text functions rely on: appending to a represented buffer succeeds below the size
  limit and concatenates. Their lemmas are proved once, from this contract.\<close>

locale byte_buffer =
  fixes rep :: "'b \<Rightarrow> bytes \<Rightarrow> bool" and append :: "'b \<Rightarrow> bytes \<Rightarrow> 'b option" and limit :: nat
  assumes append_rep: "rep b xs \<Longrightarrow> length xs + length ys < limit \<Longrightarrow>
    \<exists>b'. append b ys = Some b' \<and> rep b' (xs @ ys)"
begin

text \<open>A loop that appends \<open>f x\<close> for each element of a list.\<close>

lemma append_loop:
  assumes step: "\<And>b x xs. rep b xs \<Longrightarrow> length xs + length (f x) < limit \<Longrightarrow>
      \<exists>b'. g x b = Some b' \<and> rep b' (xs @ f x)"
    and e: "\<And>b. h [] b = Some b" "\<And>x l b. h (x # l) b = Option.bind (g x b) (h l)"
  shows "rep b xs \<Longrightarrow> length xs + length (concat (map f l)) < limit \<Longrightarrow>
    \<exists>b'. h l b = Some b' \<and> rep b' (xs @ concat (map f l))"
proof (induction l arbitrary: b xs)
  case (Cons x l)
  obtain b1 where "g x b = Some b1" "rep b1 (xs @ f x)"
    using step [OF Cons.prems(1), of x] Cons.prems(2) by auto
  then show ?case using Cons.IH [of b1 "xs @ f x"] Cons.prems(2) e(2) [of x l b] by simp
qed (use e in simp)

lemma append_two:
  assumes "rep b xs" "length xs + length ys + length zs < limit"
  shows "\<exists>b'. do { b \<leftarrow> append b ys; append b zs } = Some b' \<and> rep b' (xs @ ys @ zs)"
proof -
  obtain b1 where "append b ys = Some b1" "rep b1 (xs @ ys)" using append_rep [of b xs ys] assms by auto
  then show ?thesis using append_rep [of b1 "xs @ ys" zs] assms by simp
qed

end

interpretation sdsbuf: byte_buffer sds_rep sdscatlen SDS_LIMIT
  by unfold_locales (rule sdscatlen_ok, auto simp: sds_rep_def)

section \<open>Properties\<close>

text \<open>\<open>sdsMakeRoomFor\<close> leaves the bytes alone and gives at least the room asked for; after the caller
  has written that many bytes behind the string, \<open>sdsIncrLen\<close> makes them part of it, and with a
  negative argument it removes bytes at the end. Its assertion cannot fail in these uses.\<close>

theorem sds_room_incr:
  assumes "sds_rep s xs" and "length xs + length ys < SDS_LIMIT" and "0 < length ys"
  shows "\<exists>s1 s2 s3. sdsMakeRoomFor s (length ys) = Some s1 \<and> sds_rep s1 xs \<and> length ys \<le> sdsavail s1 \<and>
    sds_write s1 (sdslen s1) ys = Some s2 \<and> sdsIncrLen s2 (int (length ys)) = Some s3 \<and> sds_rep s3 (xs @ ys) \<and>
    (\<exists>s4. sdsIncrLen s3 (- int (length ys)) = Some s4 \<and> sds_rep s4 xs)"
proof -
  have b: "sds_body s xs" using assms(1) by (simp add: sds_rep_def)
  obtain s1 where s1: "sdsMakeRoomFor s (length ys) = Some s1" "sds_body s1 xs" "length ys \<le> sdsavail s1" "sds_rep s1 xs"
    using sdsMakeRoomFor_ok [OF b assms(2)] assms(1) by auto
  have w: "sds_wf s1" and l: "sdslen s1 = length xs" using s1 by (simp_all add: sds_body_def)
  have n: "length xs + length ys \<le> sdsalloc s1"
    using s1 sdsavail_eq [OF w] sds_wf_room [OF w] l by auto
  have t: "sds_type s1 \<noteq> 0"
  proof
    assume "sds_type s1 = 0"
    then have "sdsavail s1 = 0" by (simp add: sdsavail_def)
    then show False using s1(3) assms(3) by simp
  qed
  obtain s2 where s2: "sds_write s1 (length xs) ys = Some s2" "sdsalloc s2 = sdsalloc s1" "sds_wf s2"
    "take (length xs + length ys) (sds_buf s2) = map Some (xs @ ys)"
    using sds_write_append [OF s1(2) n] by auto
  have s2': "sdslen s2 = length xs" "sds_type s2 = sds_type s1"
    using s2(1) l by (auto simp: sds_write_def)
  have "take (length xs) (sds_buf s2) = take (length xs) (map Some (xs @ ys))"
    unfolding s2(4) [symmetric] by (simp add: min_def)
  then have b2: "sds_body s2 xs" using s2 s2' by (simp add: sds_body_def)
  obtain s3 where s3: "sdsIncrLen s2 (int (length ys)) = Some s3" "sds_rep s3 (xs @ ys)"
    using sdsIncrLen_grow [OF b2, of ys] s2 s2' n t by auto
  have "\<exists>s4. sdsIncrLen s3 (- int (length ys)) = Some s4 \<and> sds_rep s4 xs"
    using sdsIncrLen_shrink [of s3 "xs @ ys" "length ys"] s3(2) assms(3) by (simp add: sds_rep_def)
  then show ?thesis using s1 s2(1) s3 l by auto
qed

theorem sds_room_incr_witness:
  "\<exists>s s1 s2 s3. sdsnewlen (Some (lit ''ab'')) 2 = Some s \<and> sdsMakeRoomFor s 1 = Some s1 \<and>
    sds_write s1 (sdslen s1) [99] = Some s2 \<and> sdsIncrLen s2 1 = Some s3 \<and> sds_rep s3 (lit ''abc'')"
proof -
  obtain s where s: "sdsnewlen (Some (lit ''ab'')) 2 = Some s" "sds_rep s (lit ''ab'')"
    using sdsnewlen_ok [of 2 "lit ''ab''"] by (auto simp: lit_def)
  then show ?thesis using sds_room_incr [OF s(2), of "[99]"] by (auto simp: lit_def)
qed

end
