(* ===== verification/SdsText.thy ===== *)
theory SdsText
  imports Sds
begin

text \<open>
  The text functions of \<^verbatim>\<open>sds.c\<close>: number formatting, trimming and ranges, comparison, splitting and
  joining, the quoted representation \<open>sdscatrepr\<close> and the argument parser \<open>sdssplitargs\<close> that reads it
  back, and the formatted append \<open>sdscatfmt\<close>. They are built on the operations of \<open>Sds\<close> and proved
  through its buffer interface.
\<close>

section \<open>Number formatting\<close>

text \<open>The \<open>do\<close> loop that writes the digits from the least significant one.\<close>

fun ll2str_digits :: "cmemory \<Rightarrow> nat \<Rightarrow> nat \<Rightarrow> (cmemory \<times> nat) option" where
  "ll2str_digits m p v = do {
     m \<leftarrow> mem_write m p [digit_byte (v mod 10)];
     if v div 10 = 0 then Some (m, Suc p) else ll2str_digits m (Suc p) (v div 10) }"

declare ll2str_digits.simps [simp del]

text \<open>The \<open>while (s < p)\<close> loop that swaps the ends.\<close>

function ll2str_reverse :: "cmemory \<Rightarrow> nat \<Rightarrow> nat \<Rightarrow> cmemory option" where
  "ll2str_reverse m s p =
     (if s < p then do {
        a \<leftarrow> mem_read m s 1;
        b \<leftarrow> mem_read m p 1;
        m \<leftarrow> mem_write m s b;
        m \<leftarrow> mem_write m p a;
        ll2str_reverse m (Suc s) (p - 1)
      } else Some m)"
  by pat_completeness auto
termination
  by (relation "measure (\<lambda>(m, s, p). p - s)") auto

declare ll2str_reverse.simps [simp del]

text \<open>\<open>-value\<close> overflows for the least 64-bit number.\<close>

definition sdsll2str :: "cmemory \<Rightarrow> int \<Rightarrow> (cmemory \<times> nat) option" where
  "sdsll2str m val =
     (if val = INT64_MIN then None
      else do {
        (m, p) \<leftarrow> ll2str_digits m 0 (nat \<bar>val\<bar>);
        (m, p) \<leftarrow> (if val < 0 then do { m \<leftarrow> mem_write m p [45]; Some (m, Suc p) } else Some (m, p));
        m \<leftarrow> mem_write m p [0];
        m \<leftarrow> ll2str_reverse m 0 (p - 1);
        Some (m, p)
      })"

definition sdsull2str :: "cmemory \<Rightarrow> nat \<Rightarrow> (cmemory \<times> nat) option" where
  "sdsull2str m v = do {
     (m, p) \<leftarrow> ll2str_digits m 0 v;
     m \<leftarrow> mem_write m p [0];
     m \<leftarrow> ll2str_reverse m 0 (p - 1);
     Some (m, p) }"

abbreviation SDS_LLSTR_SIZE :: nat where "SDS_LLSTR_SIZE \<equiv> 21"

definition sdsfromlonglong :: "int \<Rightarrow> sds option" where
  "sdsfromlonglong val = do {
     (m, len) \<leftarrow> sdsll2str (replicate SDS_LLSTR_SIZE None) val;
     bs \<leftarrow> mem_read m 0 len;
     sdsnewlen (Some bs) len }"

text \<open>\<open>sdscatvprintf\<close>: \<open>out\<close> is the text the format and its arguments denote, of which \<open>vsnprintf\<close>
  writes what fits. The buffer doubles as long as its last but one byte was overwritten with
  something else than zero; then the C string in it is appended.\<close>

function vprintf_buf :: "bytes \<Rightarrow> nat \<Rightarrow> bytes" where
  "vprintf_buf out buflen =
     (if 2 \<le> buflen \<and> buflen - 2 < length out \<and> out ! (buflen - 2) \<noteq> 0
      then vprintf_buf out (buflen * 2)
      else takeWhile (\<lambda>b. b \<noteq> 0) (take (buflen - 1) out))"
  by pat_completeness auto
termination
  by (relation "measure (\<lambda>(out, buflen). length out + 2 - buflen)") auto

declare vprintf_buf.simps [simp del]

definition sdscatvprintf :: "sds \<Rightarrow> bytes \<Rightarrow> bytes \<Rightarrow> sds option" where
  "sdscatvprintf s fmt out =
     sdscat s (vprintf_buf out (if length fmt * 2 > 1024 then length fmt * 2 else 1024))"

definition sdscatprintf :: "sds \<Rightarrow> bytes \<Rightarrow> bytes \<Rightarrow> sds option" where
  "sdscatprintf s fmt out = sdscatvprintf s fmt out"

section \<open>Trimming, ranges, case, comparison\<close>

text \<open>\<open>strchr\<close> also finds the terminator: the zero byte is in every set.\<close>

definition in_cset :: "bytes \<Rightarrow> byte \<Rightarrow> bool" where
  "in_cset cset c \<longleftrightarrow> c = 0 \<or> c \<in> set cset"

function trim_start :: "bytes \<Rightarrow> bytes \<Rightarrow> nat \<Rightarrow> nat" where
  "trim_start cset bs sp =
     (if sp < length bs \<and> in_cset cset (bs ! sp) then trim_start cset bs (Suc sp) else sp)"
  by pat_completeness auto
termination
  by (relation "measure (\<lambda>(cset, bs, sp). length bs - sp)") auto

text \<open>\<open>e\<close> is \<open>ep + 1\<close>.\<close>

fun trim_end :: "bytes \<Rightarrow> bytes \<Rightarrow> nat \<Rightarrow> nat \<Rightarrow> nat" where
  "trim_end cset bs sp 0 = 0"
| "trim_end cset bs sp (Suc ep) = (if ep > sp \<and> in_cset cset (bs ! ep) then trim_end cset bs sp ep else Suc ep)"

declare trim_start.simps [simp del]

definition sds_move :: "sds \<Rightarrow> nat \<Rightarrow> nat \<Rightarrow> sds option" where
  "sds_move s src n = map_option (\<lambda>b. s\<lparr>sds_buf := b\<rparr>) (mem_move (sds_buf s) 0 src n)"

definition sdstrim :: "sds \<Rightarrow> bytes \<Rightarrow> sds option" where
  "sdstrim s cset = do {
     bs \<leftarrow> sds_read s 0 (sdslen s);
     let sp = trim_start cset bs 0;
     let e = trim_end cset bs sp (sdslen s);
     let len = (if sp \<ge> e then 0 else e - sp);
     s \<leftarrow> (if sp \<noteq> 0 then sds_move s sp len else Some s);
     s \<leftarrow> sds_write s len [0];
     Some (sdssetlen s len) }"

text \<open>A length of the range that does not fit in an \<open>int\<close> is undefined.\<close>

definition range_len :: "int \<Rightarrow> int \<Rightarrow> int option" where
  "range_len start fin =
     (if start > fin then Some 0 else if fin - start + 1 > INT32_MAX then None else Some (fin - start + 1))"

definition sdsrange :: "sds \<Rightarrow> int \<Rightarrow> int \<Rightarrow> sds option" where
  "sdsrange s start fin =
     (let len = s32 (int (sdslen s)) in
      if sdslen s = 0 then Some s
      else do {
        let start = (if start < 0 then max 0 (len + start) else start);
        let fin = (if fin < 0 then max 0 (len + fin) else fin);
        newlen \<leftarrow> range_len start fin;
        (start, newlen) \<leftarrow>
          (if newlen \<noteq> 0 then
             (if start \<ge> len then Some (start, 0)
              else if fin \<ge> len then map_option (Pair start) (range_len start (len - 1))
              else Some (start, newlen))
           else Some (0, 0));
        s \<leftarrow> (if start \<noteq> 0 \<and> newlen \<noteq> 0 then sds_move s (nat start) (nat newlen) else Some s);
        s \<leftarrow> sds_write s (nat newlen) [0];
        Some (sdssetlen s (nat newlen))
      })"

definition sdstolower :: "sds \<Rightarrow> sds option" where
  "sdstolower s = do {
     bs \<leftarrow> sds_read s 0 (nat (s32 (int (sdslen s))));
     sds_write s 0 (map tolower bs) }"

definition sdstoupper :: "sds \<Rightarrow> sds option" where
  "sdstoupper s = do {
     bs \<leftarrow> sds_read s 0 (nat (s32 (int (sdslen s))));
     sds_write s 0 (map toupper bs) }"

fun memcmp :: "bytes \<Rightarrow> bytes \<Rightarrow> int" where
  "memcmp (a # as) (b # bs) = (if a = b then memcmp as bs else uint a - uint b)"
| "memcmp _ _ = 0"

definition sdscmp :: "sds \<Rightarrow> sds \<Rightarrow> int option" where
  "sdscmp s1 s2 = do {
     let l1 = sdslen s1;
     let l2 = sdslen s2;
     a \<leftarrow> sds_read s1 0 (min l1 l2);
     b \<leftarrow> sds_read s2 0 (min l1 l2);
     let cmp = memcmp a b;
     Some (if cmp = 0 then s32 (int l1 - int l2) else cmp) }"

fun mapchars :: "bytes \<Rightarrow> bytes \<Rightarrow> byte \<Rightarrow> byte" where
  "mapchars (f # from) (t # to) c = (if c = f then t else mapchars from to c)"
| "mapchars _ _ c = c"

definition sdsmapchars :: "sds \<Rightarrow> bytes \<Rightarrow> bytes \<Rightarrow> sds option" where
  "sdsmapchars s from to = do {
     bs \<leftarrow> sds_read s 0 (sdslen s);
     sds_write s 0 (map (mapchars from to) bs) }"

section \<open>Splitting and joining\<close>

text \<open>The state of the loop of \<open>sdssplitlen\<close>: position, start of the current token, size of the token
  array and the tokens stored so far. A token stored beyond the array is \<open>None\<close>.\<close>

definition store_token :: "nat \<Rightarrow> sds list \<Rightarrow> bytes \<Rightarrow> sds list option" where
  "store_token slots tokens t =
     (if length tokens < slots then do { x \<leftarrow> sdsnewlen (Some t) (length t); Some (tokens @ [x]) } else None)"

function splitlen_loop :: "bytes \<Rightarrow> bytes \<Rightarrow> nat \<Rightarrow> nat \<Rightarrow> nat \<Rightarrow> sds list \<Rightarrow> sds list option" where
  "splitlen_loop s sep j start slots tokens =
     (if sep \<noteq> [] \<and> j + length sep \<le> length s then
        let slots = (if slots < length tokens + 2 then slots * 2 else slots) in
        if take (length sep) (drop j s) = sep then do {
          tokens \<leftarrow> store_token slots tokens (take (j - start) (drop start s));
          splitlen_loop s sep (j + length sep) (j + length sep) slots tokens
        }
        else splitlen_loop s sep (Suc j) start slots tokens
      else store_token slots tokens (drop start s))"
  by pat_completeness auto
termination
  by (relation "measure (\<lambda>(s, sep, j, start, slots, tokens). length s - j)")
    (auto simp flip: length_greater_0_conv)

declare splitlen_loop.simps [simp del]

text \<open>\<open>Some None\<close> is the null pointer.\<close>

definition sdssplitlen :: "bytes \<Rightarrow> bytes \<Rightarrow> sds list option option" where
  "sdssplitlen s sep =
     (if length sep < 1 then Some None
      else if s = [] then Some (Some [])
      else map_option Some (splitlen_loop s sep 0 0 5 []))"

fun join_loop :: "bytes \<Rightarrow> bytes list \<Rightarrow> sds \<Rightarrow> sds option" where
  "join_loop sep [] join = Some join"
| "join_loop sep (a # argv) join = do {
     join \<leftarrow> sdscat join a;
     join \<leftarrow> (if argv \<noteq> [] then sdscat join sep else Some join);
     join_loop sep argv join }"

definition sdsjoin :: "bytes list \<Rightarrow> bytes \<Rightarrow> sds option" where
  "sdsjoin argv sep = do { join \<leftarrow> sdsempty; join_loop sep argv join }"

fun joinsds_loop :: "bytes \<Rightarrow> sds list \<Rightarrow> sds \<Rightarrow> sds option" where
  "joinsds_loop sep [] join = Some join"
| "joinsds_loop sep (a # argv) join = do {
     join \<leftarrow> sdscatsds join a;
     join \<leftarrow> (if argv \<noteq> [] then sdscatlen join sep else Some join);
     joinsds_loop sep argv join }"

definition sdsjoinsds :: "sds list \<Rightarrow> bytes \<Rightarrow> sds option" where
  "sdsjoinsds argv sep = do { join \<leftarrow> sdsempty; joinsds_loop sep argv join }"

section \<open>Quoted representation and argument parser\<close>

definition hex_char :: "nat \<Rightarrow> byte" where
  "hex_char d = (if d < 10 then of_nat (48 + d) else of_nat (87 + d))"

text \<open>What \<open>%02x\<close> prints.\<close>

definition hex2 :: "byte \<Rightarrow> bytes" where
  "hex2 b = [hex_char (unat b div 16), hex_char (unat b mod 16)]"

definition catrepr_char :: "byte \<Rightarrow> sds \<Rightarrow> sds option" where
  "catrepr_char c s =
     (if c = 92 \<or> c = 34 then sdscatprintf s [92, 37, 99] [92, c]
      else if c = 10 then sdscatlen s [92, 110]
      else if c = 13 then sdscatlen s [92, 114]
      else if c = 9 then sdscatlen s [92, 116]
      else if c = 7 then sdscatlen s [92, 97]
      else if c = 8 then sdscatlen s [92, 98]
      else if isprint c then sdscatprintf s [37, 99] [c]
      else sdscatprintf s [92, 120, 37, 48, 50, 120] ([92, 120] @ hex2 c))"

fun catrepr_loop :: "bytes \<Rightarrow> sds \<Rightarrow> sds option" where
  "catrepr_loop [] s = Some s"
| "catrepr_loop (c # p) s = do { s \<leftarrow> catrepr_char c s; catrepr_loop p s }"

definition sdscatrepr :: "sds \<Rightarrow> bytes \<Rightarrow> sds option" where
  "sdscatrepr s p = do {
     s \<leftarrow> sdscatlen s [34];
     s \<leftarrow> catrepr_loop p s;
     sdscatlen s [34] }"

definition is_hex_digit :: "byte \<Rightarrow> bool" where
  "is_hex_digit c \<longleftrightarrow> (48 \<le> schar c \<and> schar c \<le> 57) \<or> (97 \<le> schar c \<and> schar c \<le> 102) \<or>
     (65 \<le> schar c \<and> schar c \<le> 70)"

definition hex_digit_to_int :: "byte \<Rightarrow> nat" where
  "hex_digit_to_int c =
     (if 48 \<le> c \<and> c \<le> 57 then unat c - 48
      else if 97 \<le> c \<and> c \<le> 102 then unat c - 87
      else if 65 \<le> c \<and> c \<le> 70 then unat c - 55
      else 0)"

definition unescape :: "byte \<Rightarrow> byte" where
  "unescape c = (if c = 110 then 10 else if c = 114 then 13 else if c = 116 then 9
     else if c = 98 then 8 else if c = 97 then 7 else c)"

text \<open>One argument: the quoting state is none, double or single quotes. The line is the bytes before
  its terminating zero, so the byte at its end is zero. One pass of the \<open>while (!done)\<close> loop jumps to
  the error exit, is done with the rest of the line, or appends at most one byte and goes on.\<close>

datatype quoting = Plain | InQ | InSQ

datatype arg_res = Err | Finish bytes | Go bytes quoting bytes

definition at :: "bytes \<Rightarrow> nat \<Rightarrow> byte" where
  "at p i = (if i < length p then p ! i else 0)"

fun arg_step :: "quoting \<Rightarrow> bytes \<Rightarrow> arg_res" where
  "arg_step InQ p =
     (if at p 0 = 92 \<and> at p 1 = 120 \<and> is_hex_digit (at p 2) \<and> is_hex_digit (at p 3)
        then Go [of_nat (hex_digit_to_int (at p 2) * 16 + hex_digit_to_int (at p 3))] InQ (drop 4 p)
      else if at p 0 = 92 \<and> at p 1 \<noteq> 0 then Go [unescape (at p 1)] InQ (drop 2 p)
      else if at p 0 = 34 then
        (if at p 1 \<noteq> 0 \<and> \<not> isspace (at p 1) then Err else Finish (drop 1 p))
      else if at p 0 = 0 then Err
      else Go [at p 0] InQ (drop 1 p))"
| "arg_step InSQ p =
     (if at p 0 = 92 \<and> at p 1 = 39 then Go [39] InSQ (drop 2 p)
      else if at p 0 = 39 then
        (if at p 1 \<noteq> 0 \<and> \<not> isspace (at p 1) then Err else Finish (drop 1 p))
      else if at p 0 = 0 then Err
      else Go [at p 0] InSQ (drop 1 p))"
| "arg_step Plain p =
     (if at p 0 = 32 \<or> at p 0 = 10 \<or> at p 0 = 13 \<or> at p 0 = 9 \<or> at p 0 = 0 then Finish (drop 1 p)
      else if at p 0 = 34 then Go [] InQ (drop 1 p)
      else if at p 0 = 39 then Go [] InSQ (drop 1 p)
      else Go [at p 0] Plain (drop 1 p))"

lemma arg_step_shorter: "arg_step q p = Go ch q' r \<Longrightarrow> length r < length p"
  by (cases q; cases p) (auto simp: at_def split: if_splits)

lemma arg_step_finish: "arg_step q p = Finish r \<Longrightarrow> r = drop 1 p"
  by (cases q) (auto split: if_splits)

text \<open>\<open>Some None\<close> is the error exit; otherwise the rest of the line and the argument.\<close>

function arg_loop :: "quoting \<Rightarrow> bytes \<Rightarrow> sds \<Rightarrow> (bytes \<times> sds) option option" where
  "arg_loop q p current =
     (case arg_step q p of
        Err \<Rightarrow> Some None
      | Finish r \<Rightarrow> Some (Some (r, current))
      | Go ch q' r \<Rightarrow> do {
          current \<leftarrow> (if ch = [] then Some current else sdscatlen current ch);
          arg_loop q' r current
        })"
  by pat_completeness auto
termination
  by (relation "measure (\<lambda>(q, p, current). length p)") (auto dest: arg_step_shorter)

declare arg_loop.simps [simp del] arg_step.simps [simp del]

lemma arg_loop_shorter: "arg_loop q p c = Some (Some (p', c')) \<Longrightarrow> length p' \<le> length p - 1"
proof (induction q p c rule: arg_loop.induct)
  case (1 q p c)
  show ?case
  proof (cases "arg_step q p")
    case (Go ch q' r)
    then obtain x where "(if ch = [] then Some c else sdscatlen c ch) = Some x"
      "arg_loop q' r x = Some (Some (p', c'))"
      using 1(2) unfolding arg_loop.simps [of q p c] by (auto simp: bind_eq_Some_conv)
    from 1(1) [OF Go this] show ?thesis using arg_step_shorter [OF Go] by linarith
  next
    case (Finish r)
    then show ?thesis using 1(2) arg_step_finish [OF Finish]
      unfolding arg_loop.simps [of q p c] by auto
  next
    case Err
    then show ?thesis using 1(2) unfolding arg_loop.simps [of q p c] by simp
  qed
qed

function splitargs_loop :: "bytes \<Rightarrow> sds list \<Rightarrow> sds list option option" where
  "splitargs_loop p vector =
     (let p = dropWhile isspace p in
      if p = [] then Some (Some vector)
      else do {
        current \<leftarrow> sdsempty;
        r \<leftarrow> arg_loop Plain p current;
        case r of
          None \<Rightarrow> Some None
        | Some (p', current) \<Rightarrow> splitargs_loop p' (vector @ [current])
      })"
  by pat_completeness auto
termination
proof (relation "measure (\<lambda>(p, vector). length p)", goal_cases)
  case (2 p vector ps current r a p' current')
  have "length p' \<le> length ps - 1" using arg_loop_shorter [of Plain ps current p' current'] 2 by simp
  moreover have "0 < length ps" "length ps \<le> length p" using 2 length_dropWhile_le [of isspace p] by auto
  ultimately have "length p' < length p" by linarith
  then show ?case by simp
qed simp

declare splitargs_loop.simps [simp del]

definition sdssplitargs :: "bytes \<Rightarrow> sds list option option" where
  "sdssplitargs line = splitargs_loop line []"

section \<open>Formatted append\<close>

datatype fmt_arg = FmtStr bytes | FmtSds sds | FmtInt int | FmtUInt nat

text \<open>\<open>i\<close> is an \<open>int\<close>.\<close>

definition iadd :: "nat \<Rightarrow> nat \<Rightarrow> nat option" where
  "iadd i l = (if int (i + l) > INT32_MAX then None else Some (i + l))"

text \<open>The common tail of the directives: make room for the bytes, copy them, count them.\<close>

definition catfmt_put :: "sds \<Rightarrow> nat \<Rightarrow> bytes \<Rightarrow> (sds \<times> nat) option" where
  "catfmt_put s i str = do {
     s \<leftarrow> (if sdsavail s < length str then sdsMakeRoomFor s (length str) else Some s);
     s \<leftarrow> sds_write s i str;
     i \<leftarrow> iadd i (length str);
     Some (sdsinclen s (length str), i) }"

text \<open>A single byte goes to the space that the head of the loop made sure of.\<close>

definition catfmt_char :: "sds \<Rightarrow> nat \<Rightarrow> byte \<Rightarrow> (sds \<times> nat) option" where
  "catfmt_char s i c = do {
     s \<leftarrow> sds_write s i [c];
     i \<leftarrow> iadd i 1;
     Some (sdsinclen s 1, i) }"

text \<open>The bytes of an argument; an argument of another type than the directive asks for is undefined.\<close>

definition fmt_bytes :: "byte \<Rightarrow> fmt_arg \<Rightarrow> bytes option" where
  "fmt_bytes d a =
     (case a of
        FmtStr t \<Rightarrow> if d = 115 then Some t else None
      | FmtSds x \<Rightarrow> if d = 83 then sds_read x 0 (sdslen x) else None
      | FmtInt v \<Rightarrow>
          if (d = 105 \<and> INT32_MIN \<le> v \<and> v \<le> INT32_MAX) \<or> (d = 73 \<and> INT64_MIN \<le> v \<and> v \<le> INT64_MAX)
          then do { (m, l) \<leftarrow> sdsll2str (replicate SDS_LLSTR_SIZE None) v; mem_read m 0 l } else None
      | FmtUInt v \<Rightarrow>
          if (d = 117 \<and> v < 2 ^ 32) \<or> (d = 85 \<and> v < 2 ^ 64)
          then do { (m, l) \<leftarrow> sdsull2str (replicate SDS_LLSTR_SIZE None) v; mem_read m 0 l } else None)"

text \<open>The loop over the format \<open>fb\<close>, with its terminating zero.\<close>

function catfmt_loop :: "bytes \<Rightarrow> nat \<Rightarrow> fmt_arg list \<Rightarrow> sds \<Rightarrow> nat \<Rightarrow> (sds \<times> nat) option" where
  "catfmt_loop fb f args s i = do {
     c \<leftarrow> rd fb f;
     if c = 0 then Some (s, i)
     else do {
       s \<leftarrow> (if sdsavail s = 0 then sdsMakeRoomFor s 1 else Some s);
       if c = 37 then do {
         d \<leftarrow> rd fb (Suc f);
         if d = 115 \<or> d = 83 \<or> d = 105 \<or> d = 73 \<or> d = 117 \<or> d = 85 then
           (case args of
              [] \<Rightarrow> None
            | a # args' \<Rightarrow> do {
                str \<leftarrow> fmt_bytes d a;
                (s, i) \<leftarrow> catfmt_put s i str;
                catfmt_loop fb (Suc (Suc f)) args' s i
              })
         else do {
           (s, i) \<leftarrow> catfmt_char s i d;
           catfmt_loop fb (Suc (Suc f)) args s i
         }
       }
       else do {
         (s, i) \<leftarrow> catfmt_char s i c;
         catfmt_loop fb (Suc f) args s i
       }
     } }"
  by pat_completeness auto
termination
  by (relation "measure (\<lambda>(fb, f, args, s, i). length fb - f)") (auto dest!: rd_less)

declare catfmt_loop.simps [simp del]

definition sdscatfmt :: "sds \<Rightarrow> bytes \<Rightarrow> fmt_arg list \<Rightarrow> sds option" where
  "sdscatfmt s fmt args = do {
     i \<leftarrow> iadd 0 (sdslen s);
     (s, i) \<leftarrow> catfmt_loop (fmt @ [0]) 0 args s i;
     sds_write s i [0] }"

section \<open>Number formatting is correct\<close>

lemma ll2str_digits_ok:
  "p + length (dec_nat v) \<le> length m \<Longrightarrow>
    ll2str_digits m p v =
      Some (take p m @ map Some (rev (dec_nat v)) @ drop (p + length (dec_nat v)) m, p + length (dec_nat v))"
proof (induction m p v rule: ll2str_digits.induct)
  case (1 m p v)
  show ?case
  proof (cases "v < 10")
    case True
    then have "dec_nat v = [digit_byte v]" by (subst dec_nat.simps) simp
    then show ?thesis using True 1(2) by (subst ll2str_digits.simps) (simp add: mem_write_def)
  next
    case False
    then have d: "dec_nat v = dec_nat (v div 10) @ [digit_byte (v mod 10)]" by (subst dec_nat.simps) simp
    let ?m = "take p m @ Some (digit_byte (v mod 10)) # drop (Suc p) m"
    have w: "mem_write m p [digit_byte (v mod 10)] = Some ?m" using 1(2) d by (simp add: mem_write_def)
    have "ll2str_digits ?m (Suc p) (v div 10) = Some (take (Suc p) ?m @ map Some (rev (dec_nat (v div 10))) @
        drop (Suc p + length (dec_nat (v div 10))) ?m, Suc p + length (dec_nat (v div 10)))"
      using False 1(1) [OF w] 1(2) d by simp
    moreover have "take (Suc p) ?m = take p m @ [Some (digit_byte (v mod 10))]" using 1(2) d by simp
    moreover have "v div 10 \<noteq> 0" using False by simp
    ultimately show ?thesis using w 1(2) d by (subst ll2str_digits.simps) (simp add: add.commute)
  qed
qed

lemma ll2str_reverse_ok:
  "ll2str_reverse (a @ map Some xs @ b) (length a) (length a + length xs - 1) = Some (a @ map Some (rev xs) @ b)"
proof (induction "length xs" arbitrary: a xs b rule: less_induct)
  case less
  consider "xs = []" | x where "xs = [x]" | x ys z where "xs = x # ys @ [z]"
    by (cases xs; cases "tl xs" rule: rev_exhaust) auto
  then show ?case
  proof cases
    case 1
    have "\<not> length a < length a - 1" by linarith
    then show ?thesis using 1 by (subst ll2str_reverse.simps) simp
  next
    case 2
    then show ?thesis by (subst ll2str_reverse.simps) simp
  next
    case 3
    let ?p = "Suc (length a + length ys)"
    have m: "a @ map Some xs @ b = a @ Some x # map Some ys @ Some z # b" using 3 by simp
    have r1: "mem_read (a @ map Some xs @ b) (length a) 1 = Some [x]" unfolding m by (simp add: mem_read_def)
    have r2: "mem_read (a @ map Some xs @ b) ?p 1 = Some [z]" unfolding m by (simp add: mem_read_def)
    have w1: "mem_write (a @ map Some xs @ b) (length a) [z] = Some (a @ Some z # map Some ys @ Some z # b)"
      unfolding m by (simp add: mem_write_def)
    have w2: "mem_write (a @ Some z # map Some ys @ Some z # b) ?p [x] =
        Some ((a @ [Some z]) @ map Some ys @ (Some x # b))"
      by (simp add: mem_write_def)
    have ih: "ll2str_reverse ((a @ [Some z]) @ map Some ys @ (Some x # b)) (length (a @ [Some z]))
        (length (a @ [Some z]) + length ys - 1) = Some ((a @ [Some z]) @ map Some (rev ys) @ (Some x # b))"
      by (rule less) (simp add: 3)
    have p: "length a + length xs - 1 = ?p" using 3 by simp
    show ?thesis unfolding p using r1 r2 w1 w2 ih 3 by (subst ll2str_reverse.simps) simp
  qed
qed

lemma ll2str_finish:
  assumes "m = map Some (rev xs) @ Some 0 # b" and "xs \<noteq> []"
  shows "ll2str_reverse m 0 (length xs - 1) = Some (map Some (xs @ [0]) @ b)"
  using ll2str_reverse_ok [of "[]" "rev xs" "Some 0 # b"] assms by simp

lemma sdsull2str_ok:
  assumes "length (dec_nat v) < length m"
  shows "sdsull2str m v = Some (map Some (dec_nat v @ [0]) @ drop (Suc (length (dec_nat v))) m, length (dec_nat v))"
  using assms ll2str_digits_ok [of 0 v m]
    ll2str_finish [OF refl, of "dec_nat v" "drop (Suc (length (dec_nat v))) m"]
  by (simp add: sdsull2str_def mem_write_def)

lemma sdsll2str_ok:
  assumes "val \<noteq> INT64_MIN" and "length (dec_int val) < length m"
  shows "sdsll2str m val = Some (map Some (dec_int val @ [0]) @ drop (Suc (length (dec_int val))) m, length (dec_int val))"
proof (cases "val < 0")
  case True
  then have d: "dec_int val = 45 # dec_nat (nat \<bar>val\<bar>)" by (simp add: dec_int_def)
  show ?thesis
    using assms True ll2str_digits_ok [of 0 "nat \<bar>val\<bar>" m]
      ll2str_finish [OF refl, of "dec_int val" "drop (Suc (length (dec_int val))) m"]
    by (simp add: sdsll2str_def mem_write_def d)
next
  case False
  then have d: "dec_int val = dec_nat (nat \<bar>val\<bar>)" by (simp add: dec_int_def)
  show ?thesis
    using assms False ll2str_digits_ok [of 0 "nat \<bar>val\<bar>" m]
      ll2str_finish [OF refl, of "dec_int val" "drop (Suc (length (dec_int val))) m"]
    by (simp add: sdsll2str_def mem_write_def d)
qed

lemma sdsfromlonglong_ok:
  assumes "int64 v" and "v \<noteq> INT64_MIN"
  shows "\<exists>s. sdsfromlonglong v = Some s \<and> sds_rep s (dec_int v)"
proof -
  have n: "length (dec_int v) < 21" using length_dec_int_bound [OF assms(1)] by simp
  have "sdsll2str (replicate 21 None) v = Some (map Some (dec_int v @ [0]) @
      drop (Suc (length (dec_int v))) (replicate 21 None), length (dec_int v))"
    using sdsll2str_ok [OF assms(2), of "replicate 21 None"] n by simp
  moreover have "mem_read (map Some (dec_int v @ [0]) @ drop (Suc (length (dec_int v))) (replicate 21 None)) 0
      (length (dec_int v)) = Some (dec_int v)"
    by (simp add: mem_read_def)
  ultimately show ?thesis
    using sdsnewlen_ok [of "length (dec_int v)" "dec_int v"] n by (simp add: sdsfromlonglong_def)
qed

text \<open>Text without a zero byte is appended whole, whatever the first buffer size.\<close>

lemma vprintf_buf_ok: "2 \<le> n \<Longrightarrow> 0 \<notin> set out \<Longrightarrow> vprintf_buf out n = out"
proof (induction out n rule: vprintf_buf.induct)
  case (1 out n)
  show ?case
  proof (cases "n - 2 < length out")
    case True
    then have "out ! (n - 2) \<noteq> 0" using 1(3) nth_mem by fastforce
    then show ?thesis using 1 True by (subst vprintf_buf.simps) simp
  next
    case False
    have "takeWhile (\<lambda>b. b \<noteq> 0) out = out" using 1(3) by (auto simp: takeWhile_eq_all_conv)
    then show ?thesis using False 1(2) by (subst vprintf_buf.simps) simp
  qed
qed

lemma sdscatprintf_eq: "0 \<notin> set out \<Longrightarrow> sdscatprintf s fmt out = sdscatlen s out"
  by (simp add: sdscatprintf_def sdscatvprintf_def sdscat_def vprintf_buf_ok)

section \<open>Trimming and ranges\<close>

lemma trim_start_ok: "sp \<le> length bs \<Longrightarrow> trim_start cset bs sp = sp + length (takeWhile (in_cset cset) (drop sp bs))"
proof (induction cset bs sp rule: trim_start.induct)
  case (1 cset bs sp)
  show ?case
  proof (cases "sp < length bs")
    case True
    then have d: "drop sp bs = bs ! sp # drop (Suc sp) bs" by (simp add: Cons_nth_drop_Suc)
    show ?thesis using True 1 unfolding d by (subst trim_start.simps) auto
  next
    case False
    then show ?thesis using 1(2) by (subst trim_start.simps) simp
  qed
qed

lemma trim_end_ok:
  "sp < e \<Longrightarrow> e \<le> length bs \<Longrightarrow> \<not> in_cset cset (bs ! sp) \<Longrightarrow>
    drop sp (take (trim_end cset bs sp e) bs) = rev (dropWhile (in_cset cset) (rev (drop sp (take e bs)))) \<and>
    sp < trim_end cset bs sp e \<and> trim_end cset bs sp e \<le> e"
proof (induction e)
  case (Suc ep)
  have t: "drop sp (take (Suc ep) bs) = drop sp (take ep bs) @ [bs ! ep]"
    using Suc.prems by (simp add: take_Suc_conv_app_nth)
  show ?case
  proof (cases "ep > sp \<and> in_cset cset (bs ! ep)")
    case True
    then show ?thesis using Suc unfolding t by auto
  next
    case False
    then have "\<not> in_cset cset (bs ! ep)" using Suc.prems by (cases "ep = sp") auto
    then show ?thesis using False Suc.prems t by auto
  qed
qed simp

definition trim_ref :: "bytes \<Rightarrow> bytes \<Rightarrow> bytes" where
  "trim_ref cset xs = rev (dropWhile (in_cset cset) (rev (dropWhile (in_cset cset) xs)))"

lemma sds_cut:
  assumes b: "sds_body s xs" and n: "src + n \<le> length xs"
  shows "\<exists>s'. do { s \<leftarrow> (if src \<noteq> 0 \<and> g then sds_move s src n else Some s); s \<leftarrow> sds_write s n [0]; Some (sdssetlen s n) } = Some s' \<and>
    (src = 0 \<or> g \<or> n = 0 \<longrightarrow> sds_rep s' (take n (drop src xs)))"
proof -
  have w: "sds_wf s" and l: "sdslen s = length xs" and c: "take (length xs) (sds_buf s) = map Some xs"
    using b by (auto simp: sds_body_def)
  note R = sds_wf_room [OF w]
  have "\<exists>m. (if src \<noteq> 0 \<and> g then sds_move s src n else Some s) = Some (s\<lparr>sds_buf := m\<rparr>) \<and> length m = length (sds_buf s) \<and>
      (src = 0 \<or> g \<or> n = 0 \<longrightarrow> take n m = map Some (take n (drop src xs)))"
  proof (cases "src \<noteq> 0 \<and> g")
    case True
    let ?m = "take n (drop src (sds_buf s)) @ drop n (sds_buf s)"
    have "take n (drop src (take (length xs) (sds_buf s))) = take n (drop src (sds_buf s))"
      using n by (simp add: drop_take min_absorb1)
    then have "take n (drop src (sds_buf s)) = map Some (take n (drop src xs))"
      unfolding c by (simp add: take_map drop_map)
    moreover have "sds_move s src n = Some (s\<lparr>sds_buf := ?m\<rparr>)" "length ?m = length (sds_buf s)"
      using R l n by (auto simp: sds_move_def mem_move_def min_def)
    ultimately show ?thesis using True n R l by (intro exI [of _ ?m]) simp
  next
    case False
    have "take n (take (length xs) (sds_buf s)) = map Some (take n xs)" unfolding c by (simp add: take_map)
    then show ?thesis using False n by (intro exI [of _ "sds_buf s"]) (auto simp: min_absorb1)
  qed
  then obtain m where m: "(if src \<noteq> 0 \<and> g then sds_move s src n else Some s) = Some (s\<lparr>sds_buf := m\<rparr>)"
    "length m = length (sds_buf s)" "src = 0 \<or> g \<or> n = 0 \<longrightarrow> take n m = map Some (take n (drop src xs))" by blast
  let ?b = "take n m @ Some 0 # drop (Suc n) m"
  have "n < length m" using m(2) R l n by linarith
  then have wr: "sds_write (s\<lparr>sds_buf := m\<rparr>) n [0] = Some (s\<lparr>sds_buf := ?b\<rparr>)" "length ?b = length (sds_buf s)" "length (take n m) = n"
    using m(2) by (subst sds_write_ok, auto)
  have ln: "length (take n (drop src xs)) = n" using n by simp
  have "src = 0 \<or> g \<or> n = 0 \<Longrightarrow> sds_rep ((sdssetlen s n)\<lparr>sds_buf := ?b\<rparr>) (take n (drop src xs))"
    using sds_rep_set(2) [OF w, of "take n (drop src xs)" ?b] ln wr m(3) R l n
    by (simp add: nth_append)
  moreover have "do { s \<leftarrow> (if src \<noteq> 0 \<and> g then sds_move s src n else Some s); s \<leftarrow> sds_write s n [0]; Some (sdssetlen s n) } =
      Some ((sdssetlen s n)\<lparr>sds_buf := ?b\<rparr>)"
    unfolding m(1) by (simp add: wr(1) sdssetlen_buf)
  ultimately show ?thesis by blast
qed

lemma sdstrim_ok:
  assumes b: "sds_body s xs"
  shows "\<exists>s'. sdstrim s cset = Some s' \<and> sds_rep s' (trim_ref cset xs)"
proof -
  have l: "sdslen s = length xs" using b by (simp add: sds_body_def)
  define sp where "sp = trim_start cset xs 0"
  define e where "e = trim_end cset xs sp (length xs)"
  have spl: "sp = length (takeWhile (in_cset cset) xs)" using trim_start_ok [of 0 xs cset] by (simp add: sp_def)
  have d: "drop sp xs = dropWhile (in_cset cset) xs" by (simp add: spl dropWhile_eq_drop)
  have r: "sdstrim s cset = do {
      s \<leftarrow> (if sp \<noteq> 0 \<and> True then sds_move s sp (if sp \<ge> e then 0 else e - sp) else Some s);
      s \<leftarrow> sds_write s (if sp \<ge> e then 0 else e - sp) [0];
      Some (sdssetlen s (if sp \<ge> e then 0 else e - sp)) }"
    using sds_read_ok [OF b] l by (simp add: sdstrim_def Let_def sp_def e_def)
  show ?thesis
  proof (cases "sp < length xs")
    case True
    have ns: "\<not> in_cset cset (xs ! sp)" using True nth_length_takeWhile [of "in_cset cset" xs] spl by simp
    have E: "drop sp (take e xs) = trim_ref cset xs" "sp < e" "e \<le> length xs"
      using trim_end_ok [OF True _ ns] True by (simp_all add: e_def trim_ref_def d)
    have "take (e - sp) (drop sp xs) = trim_ref cset xs" using E(1,2) by (simp add: take_drop)
    then show ?thesis using sds_cut [OF b, of sp "e - sp" True] E r by auto
  next
    case False
    have spe: "sp = length xs" using False spl length_takeWhile_le [of "in_cset cset" xs] by simp
    have "e \<le> sp" using spe by (cases "length xs") (auto simp: e_def)
    moreover have "trim_ref cset xs = []" using d spe by (simp add: trim_ref_def)
    ultimately show ?thesis using sds_cut [OF b, of sp 0 True] r spe by auto
  qed
qed

text \<open>The meaning of a range: indexes count from the end when negative, and are clipped.\<close>

definition range_ref :: "int \<Rightarrow> int \<Rightarrow> bytes \<Rightarrow> bytes" where
  "range_ref start fin xs =
     (let n = int (length xs);
          a = (if start < 0 then max 0 (n + start) else start);
          b = (if fin < 0 then max 0 (n + fin) else fin)
      in take (nat (min b (n - 1) - a + 1)) (drop (nat a) xs))"

lemma sdsrange_ok:
  assumes b: "sds_rep s xs" and n: "int (length xs) \<le> INT32_MAX"
    and r: "INT32_MIN \<le> start" "fin < INT32_MAX"
  shows "\<exists>s'. sdsrange s start fin = Some s' \<and> sds_rep s' (range_ref start fin xs)"
proof (cases "xs = []")
  case True
  then show ?thesis using b by (simp add: sdsrange_def range_ref_def sds_rep_def sds_body_def Let_def)
next
  case False
  have bb: "sds_body s xs" and l: "sdslen s = length xs" using b by (simp_all add: sds_rep_def sds_body_def)
  let ?n = "int (length xs)"
  define a where "a = (if start < 0 then max 0 (?n + start) else start)"
  define e where "e = (if fin < 0 then max 0 (?n + fin) else fin)"
  define k where "k = (if a > e \<or> a \<ge> ?n then 0 else min e (?n - 1) - a + 1)"
  have ae: "0 \<le> a" "0 \<le> e" "e < INT32_MAX" using n r by (auto simp: a_def e_def)
  have n0: "0 < ?n" using False by simp
  have k: "0 \<le> k" "k \<noteq> 0 \<Longrightarrow> a + k \<le> ?n" using n0 ae by (auto simp: k_def)
  have L: "range_len a e = Some (if a > e then 0 else e - a + 1)" "a < ?n \<Longrightarrow> range_len a (?n - 1) = Some (?n - a)"
    using ae n by (auto simp: range_len_def)
  define st where "st = (if a > e then 0 else a)"
  have E: "sdsrange s start fin = do {
      s \<leftarrow> (if nat st \<noteq> 0 \<and> k \<noteq> 0 then sds_move s (nat st) (nat k) else Some s);
      s \<leftarrow> sds_write s (nat k) [0];
      Some (sdssetlen s (nat k)) }"
    using False l n n0 ae L
    by (auto simp: sdsrange_def Let_def a_def [symmetric] e_def [symmetric] k_def st_def)
  have ref: "range_ref start fin xs = take (nat k) (drop (nat st) xs)"
    unfolding range_ref_def Let_def a_def [symmetric] e_def [symmetric] k_def st_def using n0 by auto
  show ?thesis
  proof (cases "k = 0")
    case True
    then show ?thesis using sds_cut [OF bb, of 0 0 False] E ref by auto
  next
    case False
    then have "nat st + nat k \<le> length xs" using k ae by (auto simp: st_def k_def split: if_splits)
    then show ?thesis using sds_cut [OF bb, of "nat st" "nat k" True] E ref False by auto
  qed
qed

section \<open>Comparison\<close>

text \<open>The sign of \<open>sdscmp\<close> is the lexicographic order of the bytes, a proper prefix being smaller.\<close>

definition lex_less :: "bytes \<Rightarrow> bytes \<Rightarrow> bool" where
  "lex_less xs ys \<longleftrightarrow> (xs, ys) \<in> lexord {(a, b). a < b}"

lemma memcmp_lex:
  fixes xs ys :: bytes
  defines "k \<equiv> min (length xs) (length ys)"
  shows "(memcmp (take k xs) (take k ys) < 0 \<or> memcmp (take k xs) (take k ys) = 0 \<and> length xs < length ys) \<longleftrightarrow> lex_less xs ys"
  unfolding k_def
proof (induction xs ys rule: list_induct2')
  case (4 x xs y ys)
  have "uint x = uint y \<longleftrightarrow> x = y" by (simp add: word_uint_eq_iff)
  moreover have "x < y \<longleftrightarrow> uint x < uint y" by (simp add: word_less_def)
  ultimately show ?case using 4 by (auto simp: lex_less_def)
qed (auto simp: lex_less_def)

lemma memcmp_0: "length a = length b \<Longrightarrow> memcmp a b = 0 \<longleftrightarrow> a = b"
  by (induction a b rule: list_induct2) (auto simp: word_uint_eq_iff)

lemma sdscmp_ok:
  assumes "sds_body s1 xs" "sds_body s2 ys" "length xs < 2 ^ 31" "length ys < 2 ^ 31"
  shows "\<exists>c. sdscmp s1 s2 = Some c \<and> (c < 0 \<longleftrightarrow> lex_less xs ys) \<and> (c = 0 \<longleftrightarrow> xs = ys)"
proof -
  let ?k = "min (length xs) (length ys)"
  let ?c = "memcmp (take ?k xs) (take ?k ys)"
  have r: "sds_read s k n = Some (take n zs)" if "sds_body s zs" "n \<le> length zs" "k = 0" for s zs n k
  proof -
    have "take n (sds_buf s) = take n (take (length zs) (sds_buf s))" using that by (simp add: min_absorb1)
    also have "\<dots> = map Some (take n zs)" using that by (simp add: sds_body_def take_map)
    finally show ?thesis using that sds_wf_room [of s] by (auto simp: sds_read_def mem_read_def sds_body_def)
  qed
  have l: "sdslen s1 = length xs" "sdslen s2 = length ys" using assms by (auto simp: sds_body_def)
  have "s32 (int (length xs) - int (length ys)) = int (length xs) - int (length ys)"
    using assms by (intro s32_id) auto
  then have e: "sdscmp s1 s2 = Some (if ?c = 0 then int (length xs) - int (length ys) else ?c)"
    using l r [OF assms(1), of ?k] r [OF assms(2), of ?k] by (simp add: sdscmp_def Let_def)
  moreover have "length xs = length ys \<and> ?c = 0 \<longleftrightarrow> xs = ys"
    using memcmp_0 [of xs ys] by (auto simp: memcmp_0)
  ultimately show ?thesis using memcmp_lex [of xs ys] by auto
qed

section \<open>Splitting and joining\<close>

lemma store_token_ok:
  assumes "length t < SDS_LIMIT" "length tokens < slots" "list_all2 sds_rep tokens ts"
  shows "\<exists>tokens'. store_token slots tokens t = Some tokens' \<and> list_all2 sds_rep tokens' (ts @ [t])"
  using assms sdsnewlen_ok [of "length t" t] by (auto simp: store_token_def list_all2_appendI)

text \<open>Occurrence of the separator inside a token.\<close>

definition occurs :: "bytes \<Rightarrow> bytes \<Rightarrow> bool" where
  "occurs sep t \<longleftrightarrow> (\<exists>j. j + length sep \<le> length t \<and> take (length sep) (drop j t) = sep)"

fun intercalate :: "bytes \<Rightarrow> bytes list \<Rightarrow> bytes" where
  "intercalate sep [] = []"
| "intercalate sep [a] = a"
| "intercalate sep (a # b # l) = a @ sep @ intercalate sep (b # l)"

lemma intercalate_snoc: "ts \<noteq> [] \<Longrightarrow> intercalate sep (ts @ [t]) = intercalate sep ts @ sep @ t"
  by (induction sep ts rule: intercalate.induct) auto

lemma splitlen_loop_ok:
  assumes len: "length s < SDS_LIMIT" and sep: "sep \<noteq> []"
  shows "\<lbrakk>start \<le> j; start \<le> length s; length tokens < slots; list_all2 sds_rep tokens ts;
      (if ts = [] then start = 0 else intercalate sep ts @ sep = take start s);
      \<forall>t \<in> set ts. \<not> occurs sep t;
      \<forall>i. start \<le> i \<and> i < j \<longrightarrow> i + length sep \<le> length s \<longrightarrow> take (length sep) (drop i s) \<noteq> sep\<rbrakk> \<Longrightarrow>
    \<exists>tokens' ts'. splitlen_loop s sep j start slots tokens = Some tokens' \<and> list_all2 sds_rep tokens' ts' \<and>
      intercalate sep ts' = s \<and> (\<forall>t \<in> set ts'. \<not> occurs sep t)"
proof (induction "length s - j" arbitrary: j start slots tokens ts rule: less_induct)
  case less
  let ?sl = "if slots < length tokens + 2 then slots * 2 else slots"
  have lts: "length tokens = length ts" using less.prems(4) by (rule list_all2_lengthD)
  have sl: "length tokens + 1 < ?sl \<or> (slots = 1 \<and> tokens = [])"
    using less.prems(3) by (cases tokens) auto
  have sl0: "length tokens < ?sl" using less.prems(3) by simp
  have tok: "\<not> occurs sep (take (k - start) (drop start s))" if "k \<le> length s"
    "\<forall>i. start \<le> i \<and> i + length sep \<le> k \<longrightarrow> take (length sep) (drop i s) \<noteq> sep" for k
  proof
    assume "occurs sep (take (k - start) (drop start s))"
    then obtain i where i: "i + length sep \<le> k - start"
      "take (length sep) (drop i (take (k - start) (drop start s))) = sep"
      using that(1) by (auto simp: occurs_def)
    then have "take (length sep) (drop (start + i) s) = sep"
      by (simp add: drop_take min_absorb1 add.commute)
    moreover have "start + i + length sep \<le> k" using i(1) sep by (cases "k - start") auto
    ultimately show False using that(2) by auto
  qed
  show ?case
  proof (cases "j + length sep \<le> length s")
    case True
    show ?thesis
    proof (cases "take (length sep) (drop j s) = sep")
      case m: True
      let ?t = "take (j - start) (drop start s)"
      let ?k = "j + length sep"
      obtain tokens1 where t1: "store_token ?sl tokens ?t = Some tokens1" "list_all2 sds_rep tokens1 (ts @ [?t])"
      proof -
        have "length ?t \<le> length s" by simp
        then have "length ?t < SDS_LIMIT" using len by linarith
        from store_token_ok [OF this sl0 less.prems(4)] that show ?thesis by blast
      qed
      have "take ?k s = take start s @ ?t @ sep"
      proof -
        have "take ?k s = take j s @ take (length sep) (drop j s)" by (simp add: take_add)
        moreover have "take j s = take start s @ ?t" using take_add [of start "j - start" s] less.prems(1) by simp
        ultimately show ?thesis using m by simp
      qed
      then have ic: "intercalate sep (ts @ [?t]) @ sep = take ?k s"
        using less.prems(5) intercalate_snoc [of ts sep ?t] by (cases "ts = []") auto
      have "start \<le> i \<and> i + length sep \<le> j \<longrightarrow> take (length sep) (drop i s) \<noteq> sep" for i
        using less.prems(7) [rule_format, of i] True sep by (cases sep) auto
      then have no: "\<not> occurs sep ?t" using tok [of j] True by simp
      have l1: "length tokens1 < ?sl"
        using list_all2_lengthD [OF t1(2)] lts sl less.prems(3) by (auto split: if_splits)
      have "\<exists>tokens' ts'. splitlen_loop s sep ?k ?k ?sl tokens1 = Some tokens' \<and> list_all2 sds_rep tokens' ts' \<and>
          intercalate sep ts' = s \<and> (\<forall>t \<in> set ts'. \<not> occurs sep t)"
      proof (rule less.hyps [where ts = "ts @ [?t]"])
        show "length s - ?k < length s - j" using True sep by (cases sep) auto
      qed (use True sep l1 t1(2) ic no less.prems(6) in auto)
      then show ?thesis using True m t1(1) sep by (subst splitlen_loop.simps) (simp add: Let_def)
    next
      case nm: False
      have "\<exists>tokens' ts'. splitlen_loop s sep (Suc j) start ?sl tokens = Some tokens' \<and> list_all2 sds_rep tokens' ts' \<and>
          intercalate sep ts' = s \<and> (\<forall>t \<in> set ts'. \<not> occurs sep t)"
      proof (rule less.hyps [where ts = ts])
        show "length s - Suc j < length s - j" using True sep by (cases sep) auto
        show "\<forall>i. start \<le> i \<and> i < Suc j \<longrightarrow> i + length sep \<le> length s \<longrightarrow> take (length sep) (drop i s) \<noteq> sep"
          using nm less.prems(7) by (auto simp: less_Suc_eq)
      qed (use sl0 less.prems in simp_all)
      then show ?thesis using True nm sep by (subst splitlen_loop.simps) (simp add: Let_def)
    qed
  next
    case False
    let ?t = "drop start s"
    obtain tokens1 where t1: "store_token slots tokens ?t = Some tokens1" "list_all2 sds_rep tokens1 (ts @ [?t])"
    proof -
      have "length ?t \<le> length s" by simp
      then have "length ?t < SDS_LIMIT" using len by linarith
      from store_token_ok [OF this less.prems(3,4)] that show ?thesis by blast
    qed
    have "intercalate sep (ts @ [?t]) = s"
      using less.prems(5) intercalate_snoc [of ts sep ?t]
      by (cases "ts = []") (auto simp flip: append_assoc)
    moreover have "\<not> occurs sep ?t"
      using tok [of "length s"] less.prems(7) False by (auto simp: not_le)
    ultimately show ?thesis using t1 False less.prems(6)
      by (intro exI [of _ tokens1] exI [of _ "ts @ [?t]"], subst splitlen_loop.simps) auto
  qed
qed

lemma sdssplitlen_ok:
  assumes "s \<noteq> []" "sep \<noteq> []" "length s < SDS_LIMIT"
  shows "\<exists>tokens ts. sdssplitlen s sep = Some (Some tokens) \<and> list_all2 sds_rep tokens ts \<and>
    intercalate sep ts = s \<and> (\<forall>t \<in> set ts. \<not> occurs sep t)"
proof -
  have "length sep \<ge> 1" using assms(2) by (cases sep) auto
  then show ?thesis
    using splitlen_loop_ok [OF assms(3,2), of 0 0 "[]" 5 "[]"] assms(1) by (auto simp: sdssplitlen_def)
qed

lemma joinsds_loop_ok:
  "list_all2 sds_rep argv ts \<Longrightarrow> sds_rep join xs \<Longrightarrow> length xs + length (intercalate sep ts) < SDS_LIMIT \<Longrightarrow>
    \<exists>s. joinsds_loop sep argv join = Some s \<and> sds_rep s (xs @ intercalate sep ts)"
proof (induction sep ts arbitrary: argv join xs rule: intercalate.induct)
  case (2 sep a)
  then obtain x where "argv = [x]" "sds_rep x a" by (auto simp: list_all2_Cons2)
  then show ?case using 2 sdscatsds_ok [of join xs x a] by (auto simp: sds_rep_def)
next
  case (3 sep a b l)
  then obtain x rest where x: "argv = x # rest" "sds_rep x a" "list_all2 sds_rep rest (b # l)"
    by (auto simp: list_all2_Cons2)
  have ne: "rest \<noteq> []" using x(3) by auto
  obtain j1 where j1: "sdscatsds join x = Some j1" "sds_rep j1 (xs @ a)"
    using sdscatsds_ok [of join xs x a] 3 x(2) by (auto simp: sds_rep_def)
  obtain j2 where j2: "sdscatlen j1 sep = Some j2" "sds_rep j2 (xs @ a @ sep)"
    using sdsbuf.append_rep [OF j1(2), of sep] 3 by auto
  show ?case using 3(1) [OF x(3) j2(2)] 3(4) j1(1) j2(1) x(1) ne by simp
qed simp

lemma join_loop_ok:
  "sds_rep join xs \<Longrightarrow> length xs + length (intercalate sep ts) < SDS_LIMIT \<Longrightarrow>
    \<exists>s. join_loop sep ts join = Some s \<and> sds_rep s (xs @ intercalate sep ts)"
proof (induction sep ts arbitrary: join xs rule: intercalate.induct)
  case (2 sep a)
  then show ?case using sdsbuf.append_rep [of join xs a] by (auto simp: sdscat_def)
next
  case (3 sep a b l)
  obtain j1 where j1: "do { b \<leftarrow> sdscatlen join a; sdscatlen b sep } = Some j1" "sds_rep j1 (xs @ a @ sep)"
    using sdsbuf.append_two [OF 3(2), of a sep] 3(3) by auto
  have "join_loop sep (a # b # l) join = join_loop sep (b # l) j1"
    using j1(1) by (auto simp: sdscat_def bind_eq_Some_conv simp del: join_loop.simps(2) simp: join_loop.simps(2) [of sep a])
  then show ?case using 3(1) [OF j1(2)] 3(3) by simp
qed simp

lemma sdsjoin_ok: "length (intercalate sep ts) < SDS_LIMIT \<Longrightarrow>
    \<exists>s. sdsjoin ts sep = Some s \<and> sds_rep s (intercalate sep ts)"
proof -
  assume n: "length (intercalate sep ts) < SDS_LIMIT"
  obtain e where e: "sdsempty = Some e" "sds_rep e []" using sdsempty_ok by blast
  show ?thesis using join_loop_ok [of e "[]" sep ts] e(2) n unfolding sdsjoin_def e(1) by simp
qed

lemma sdsjoinsds_ok: "list_all2 sds_rep argv ts \<Longrightarrow> length (intercalate sep ts) < SDS_LIMIT \<Longrightarrow>
    \<exists>s. sdsjoinsds argv sep = Some s \<and> sds_rep s (intercalate sep ts)"
proof -
  assume n: "list_all2 sds_rep argv ts" "length (intercalate sep ts) < SDS_LIMIT"
  obtain e where e: "sdsempty = Some e" "sds_rep e []" using sdsempty_ok by blast
  show ?thesis using joinsds_loop_ok [OF n(1), of e "[]" sep] n(2) e(2) unfolding sdsjoinsds_def e(1) by simp
qed

section \<open>Quoting\<close>

definition repr_char :: "byte \<Rightarrow> bytes" where
  "repr_char c =
     (if c = 92 \<or> c = 34 then [92, c]
      else if c = 10 then [92, 110]
      else if c = 13 then [92, 114]
      else if c = 9 then [92, 116]
      else if c = 7 then [92, 97]
      else if c = 8 then [92, 98]
      else if isprint c then [c]
      else [92, 120] @ hex2 c)"

definition repr :: "bytes \<Rightarrow> bytes" where
  "repr p = 34 # concat (map repr_char p) @ [34]"

lemma hex_char_nz: "d < 16 \<Longrightarrow> hex_char d \<noteq> 0"
proof -
  assume "d < 16"
  then have "unat (hex_char d) \<noteq> 0" by (auto simp: hex_char_def unat_of_nat simp del: of_nat_add)
  then show ?thesis by auto
qed

lemma hex2_nz: "0 \<notin> set (hex2 c)"
proof -
  have "unat c < 2 ^ LENGTH(8)" by (rule unsigned_less)
  then have "unat c div 16 < 16" by (simp add: div_less_iff_less_mult)
  then show ?thesis using hex_char_nz by (auto simp: hex2_def)
qed

lemma isprint_nz: "isprint c \<Longrightarrow> c \<noteq> 0"
  by (auto simp: isprint_def)

lemma catrepr_char_eq: "catrepr_char c s = sdscatlen s (repr_char c)"
  using hex2_nz [of c] by (auto simp: catrepr_char_def repr_char_def sdscatprintf_eq isprint_nz)

lemma sdscatrepr_ok:
  assumes "sds_rep s xs" and "length xs + length (repr p) < SDS_LIMIT"
  shows "\<exists>s'. sdscatrepr s p = Some s' \<and> sds_rep s' (xs @ repr p)"
proof -
  obtain s1 where s1: "sdscatlen s [34] = Some s1" "sds_rep s1 (xs @ [34])"
    using sdsbuf.append_rep [OF assms(1), of "[34]"] assms(2) by (auto simp: repr_def)
  obtain s2 where s2: "catrepr_loop p s1 = Some s2" "sds_rep s2 ((xs @ [34]) @ concat (map repr_char p))"
    using sdsbuf.append_loop [of repr_char catrepr_char catrepr_loop s1 "xs @ [34]" p]
      sdsbuf.append_rep s1(2) assms(2) by (auto simp: catrepr_char_eq repr_def)
  show ?thesis
    using sdsbuf.append_rep [OF s2(2), of "[34]"] s1 s2 assms(2) by (auto simp: sdscatrepr_def repr_def)
qed

section \<open>The parser reads quoted text back\<close>

lemma arg_loop_go:
  assumes "arg_step q p = Go [c] q' r" and "sds_rep cur ys" and "Suc (length ys) < SDS_LIMIT"
  shows "\<exists>cur'. arg_loop q p cur = arg_loop q' r cur' \<and> sds_rep cur' (ys @ [c])"
proof -
  obtain cur' where "sdscatlen cur [c] = Some cur'" "sds_rep cur' (ys @ [c])"
    using sdsbuf.append_rep [OF assms(2), of "[c]"] assms(3) by auto
  then show ?thesis using assms(1) by (subst arg_loop.simps) auto
qed

lemma hex_digit_char:
  assumes "d < 16"
  shows "is_hex_digit (hex_char d) \<and> hex_digit_to_int (hex_char d) = d"
proof -
  have "\<forall>d \<in> set [0..<16]. is_hex_digit (hex_char d) \<and> hex_digit_to_int (hex_char d) = d"
    by (simp add: is_hex_digit_def hex_digit_to_int_def hex_char_def schar_def upt_conv_Cons)
  then show ?thesis using assms by auto
qed

text \<open>Inside double quotes one pass reads back one quoted byte.\<close>

lemma arg_step_repr: "arg_step InQ (repr_char c @ r) = Go [c] InQ r"
proof -
  have b: "unat c < 256" using unsigned_less [of c, where 'a = nat] by simp
  then have h: "unat c div 16 < 16" by (simp add: div_less_iff_less_mult)
  have v: "(of_nat (unat c div 16 * 16 + unat c mod 16) :: byte) = c"
    by (simp only: div_mult_mod_eq of_nat_unat ucast_id) 
  consider "c = 92 \<or> c = 34 \<or> c = 10 \<or> c = 13 \<or> c = 9 \<or> c = 7 \<or> c = 8"
    | "c \<noteq> 92" "c \<noteq> 34" "c \<noteq> 10" "c \<noteq> 13" "c \<noteq> 9" "c \<noteq> 7" "c \<noteq> 8" "isprint c"
    | "c \<noteq> 92" "c \<noteq> 34" "c \<noteq> 10" "c \<noteq> 13" "c \<noteq> 9" "c \<noteq> 7" "c \<noteq> 8" "\<not> isprint c" by blast
  then show ?thesis
  proof cases
    case 1
    then show ?thesis
      by (elim disjE) (simp_all add: repr_char_def arg_step.simps at_def unescape_def)
  next
    case 2
    then show ?thesis using isprint_nz [of c] by (simp add: repr_char_def arg_step.simps at_def)
  next
    case 3
    then show ?thesis
    proof -
      let ?a = "hex_char (unat c div 16)" and ?b = "hex_char (unat c mod 16)"
      have R: "repr_char c @ r = 92 # 120 # ?a # ?b # r" using 3 by (simp add: repr_char_def hex2_def)
      have A: "at (92 # 120 # ?a # ?b # r) 0 = 92" "at (92 # 120 # ?a # ?b # r) 1 = 120"
        "at (92 # 120 # ?a # ?b # r) 2 = ?a" "at (92 # 120 # ?a # ?b # r) 3 = ?b"
        "drop 4 (92 # 120 # ?a # ?b # r) = r" by (simp_all add: at_def)
      have H: "is_hex_digit ?a" "is_hex_digit ?b" "hex_digit_to_int ?a = unat c div 16"
        "hex_digit_to_int ?b = unat c mod 16"
        using hex_digit_char [OF h] hex_digit_char [of "unat c mod 16"] by auto
      show ?thesis unfolding R arg_step.simps A H v using H by simp
    qed
  qed
qed

lemma arg_loop_repr:
  "sds_rep cur ys \<Longrightarrow> length ys + length p < SDS_LIMIT \<Longrightarrow>
    \<exists>cur'. arg_loop InQ (concat (map repr_char p) @ r) cur = arg_loop InQ r cur' \<and> sds_rep cur' (ys @ p)"
proof (induction p arbitrary: cur ys)
  case (Cons c p)
  obtain cur1 where c1: "arg_loop InQ (repr_char c @ (concat (map repr_char p) @ r)) cur =
      arg_loop InQ (concat (map repr_char p) @ r) cur1" "sds_rep cur1 (ys @ [c])"
    using arg_loop_go [OF arg_step_repr Cons.prems(1)] Cons.prems(2) by auto
  show ?case using Cons.IH [OF c1(2)] Cons.prems(2) c1(1) by auto
qed auto

definition arg_end :: "bytes \<Rightarrow> bool" where
  "arg_end r \<longleftrightarrow> r = [] \<or> isspace (hd r)"

text \<open>One quoted argument, followed by a space or the end of the line.\<close>

lemma arg_loop_quoted:
  assumes e: "sds_rep cur []" and n: "length p < SDS_LIMIT" and r: "arg_end r"
  shows "\<exists>cur'. arg_loop Plain (repr p @ r) cur = Some (Some (r, cur')) \<and> sds_rep cur' p"
proof -
  let ?t = "concat (map repr_char p) @ 34 # r"
  have "arg_step Plain (repr p @ r) = Go [] InQ ?t"
    by (simp add: arg_step.simps repr_def at_def)
  then have "arg_loop Plain (repr p @ r) cur = arg_loop InQ ?t cur"
    by (subst arg_loop.simps) simp
  moreover obtain cur' where c: "arg_loop InQ ?t cur = arg_loop InQ (34 # r) cur'" "sds_rep cur' p"
    using arg_loop_repr [OF e, of p "34 # r"] n by auto
  moreover have "arg_step InQ (34 # r) = Finish r"
    using r by (cases r) (simp_all add: arg_step.simps at_def arg_end_def)
  then have "arg_loop InQ (34 # r) cur' = Some (Some (r, cur'))" by (subst arg_loop.simps) simp
  ultimately show ?thesis by auto
qed

definition quoted_line :: "bytes list \<Rightarrow> bytes" where
  "quoted_line args = intercalate [32] (map repr args)"

lemma repr_start: "repr p @ r \<noteq> [] \<and> dropWhile isspace (repr p @ r) = repr p @ r"
  by (simp add: repr_def isspace_def)

lemma splitargs_loop_quoted:
  "\<lbrakk>list_all2 sds_rep vector vs; \<forall>p \<in> set args. length p < SDS_LIMIT; dropWhile isspace ws = []\<rbrakk> \<Longrightarrow>
    \<exists>v. splitargs_loop (ws @ quoted_line args) vector = Some (Some v) \<and> list_all2 sds_rep v (vs @ args)"
proof (induction args arbitrary: vector vs ws)
  case Nil
  then show ?case by (subst splitargs_loop.simps) (simp add: quoted_line_def)
next
  case (Cons a args)
  define r where "r = (if args = [] then [] else 32 # quoted_line args)"
  have q: "quoted_line (a # args) = repr a @ r"
    by (cases args) (simp_all add: quoted_line_def r_def)
  have dw: "dropWhile isspace (ws @ repr a @ r) = repr a @ r"
    using Cons.prems(3) repr_start [of a r] by (metis dropWhile_append append_Nil dropWhile_eq_Nil_conv)
  have ar: "arg_end r" by (simp add: arg_end_def r_def isspace_def)
  obtain e where e: "sdsempty = Some e" "sds_rep e []" using sdsempty_ok by blast
  obtain cur where c: "arg_loop Plain (repr a @ r) e = Some (Some (r, cur))" "sds_rep cur a"
    using arg_loop_quoted [OF e(2) _ ar, of a] Cons.prems(2) by auto
  have "splitargs_loop (ws @ quoted_line (a # args)) vector = splitargs_loop r (vector @ [cur])"
    unfolding q using dw c(1) repr_start [of a r]
    by (subst splitargs_loop.simps) (auto simp: Let_def e(1) [THEN arg_cong, of "\<lambda>x. Option.bind x _"])
  moreover have "list_all2 sds_rep (vector @ [cur]) (vs @ [a])"
    using Cons.prems(1) c(2) by (simp add: list_all2_appendI)
  moreover have "r = (if args = [] then [] else [32]) @ quoted_line args"
    by (simp add: r_def quoted_line_def)
  ultimately show ?case
    using Cons.IH [of "vector @ [cur]" "vs @ [a]" "if args = [] then [] else [32]"] Cons.prems(2)
    by (auto simp: isspace_def split: if_splits)
qed

section \<open>Formatted append\<close>

fun fmt_ref :: "bytes \<Rightarrow> fmt_arg list \<Rightarrow> bytes option" where
  "fmt_ref [] args = Some []"
| "fmt_ref [c] args = (if c = 37 then None else Some [c])"
| "fmt_ref (c # d # f) args =
     (if c = 37 then
        (if d = 115 \<or> d = 83 \<or> d = 105 \<or> d = 73 \<or> d = 117 \<or> d = 85 then
           (case args of
              [] \<Rightarrow> None
            | a # args' \<Rightarrow> do { b \<leftarrow> fmt_bytes d a; r \<leftarrow> fmt_ref f args'; Some (b @ r) })
         else do { r \<leftarrow> fmt_ref f args; Some (d # r) })
      else do { r \<leftarrow> fmt_ref (d # f) args; Some (c # r) })"

lemma fmt_bytes_numbers:
  "int64 v \<Longrightarrow> v \<noteq> INT64_MIN \<Longrightarrow> fmt_bytes 73 (FmtInt v) = Some (dec_int v)"
  "u < 2 ^ 64 \<Longrightarrow> fmt_bytes 85 (FmtUInt u) = Some (dec_nat u)"
proof -
  have r: "mem_read (map Some (xs @ [0]) @ m) 0 (length xs) = Some xs" for xs m
    by (simp add: mem_read_def)
  show "int64 v \<Longrightarrow> v \<noteq> INT64_MIN \<Longrightarrow> fmt_bytes 73 (FmtInt v) = Some (dec_int v)"
    using sdsll2str_ok [of v "replicate 21 None"] length_dec_int_bound [of v] r [of "dec_int v"]
    by (simp add: fmt_bytes_def int64_def)
  assume u: "u < 2 ^ 64"
  then have "u < 10 ^ Suc 19" by simp
  then have "length (dec_nat u) \<le> 20" using length_dec_nat_bound [of u 19] by simp
  then show "fmt_bytes 85 (FmtUInt u) = Some (dec_nat u)"
    using u sdsull2str_ok [of u "replicate 21 None"] r [of "dec_nat u"] by (simp add: fmt_bytes_def)
qed

lemma sdsinclen_eq:
  "sds_wf s \<Longrightarrow> sds_type s \<noteq> 0 \<Longrightarrow> sdsinclen s k = sdssetlen s (sdslen s + k)"
  by (simp add: sdsinclen_def sdssetlen_def sdslen_def Let_def sds_wf_def)

lemma avail_type: "0 < sdsavail s \<Longrightarrow> sds_type s \<noteq> 0"
proof
  assume "0 < sdsavail s" "sds_type s = 0"
  then show False by (simp add: sdsavail_def)
qed

lemma sds_put:
  assumes b: "sds_body s xs" and t: "sds_type s \<noteq> 0" and n: "length str \<le> sdsavail s"
  shows "\<exists>s'. sds_write s (length xs) str = Some s' \<and> sds_body (sdsinclen s' (length str)) (xs @ str)"
proof -
  have w: "sds_wf s" and l: "sdslen s = length xs" using b by (simp_all add: sds_body_def)
  have "length xs + length str \<le> sdsalloc s"
    using n sdsavail_eq [OF w] sds_wf_room [OF w] l by auto
  then obtain s' where s': "sds_write s (length xs) str = Some s'"
    "sds_body (sdssetlen s' (length xs + length str)) (xs @ str)" "sds_wf s'"
    using sds_write_append [OF b] by blast
  moreover have "sds_type s' = sds_type s" "sdslen s' = length xs"
    using s'(1) l by (auto simp: sds_write_def)
  ultimately show ?thesis using sdsinclen_eq [OF s'(3), of "length str"] t by auto
qed

lemma catfmt_put_ok:
  assumes b: "sds_body s xs" and t: "sds_type s \<noteq> 0" and n: "int (length xs + length str) \<le> INT32_MAX"
  shows "\<exists>s'. catfmt_put s (length xs) str = Some (s', length xs + length str) \<and> sds_body s' (xs @ str)"
proof -
  obtain s1 where s1: "(if sdsavail s < length str then sdsMakeRoomFor s (length str) else Some s) = Some s1"
    "sds_body s1 xs" "sds_type s1 \<noteq> 0" "length str \<le> sdsavail s1"
  proof (cases "sdsavail s < length str")
    case True
    obtain s1 where "sdsMakeRoomFor s (length str) = Some s1" "sds_body s1 xs" "length str \<le> sdsavail s1"
      using sdsMakeRoomFor_ok [OF b, of "length str"] n by auto
    then show ?thesis using True that [of s1] avail_type [of s1] by auto
  qed (use that b t in auto)
  then show ?thesis using sds_put [OF s1(2,3,4)] n by (auto simp: catfmt_put_def iadd_def)
qed

lemma catfmt_char_ok:
  assumes b: "sds_body s xs" and a: "0 < sdsavail s" and n: "int (Suc (length xs)) \<le> INT32_MAX"
  shows "\<exists>s'. catfmt_char s (length xs) c = Some (s', Suc (length xs)) \<and> sds_body s' (xs @ [c])"
  using sds_put [OF b avail_type [OF a], of "[c]"] a n by (auto simp: catfmt_char_def iadd_def)

lemma catfmt_loop_ok:
  assumes fmt: "0 \<notin> set fmt"
  shows "\<lbrakk>fmt_ref (drop f fmt) args = Some t; f \<le> length fmt; sds_body s xs;
      int (length xs + length t) \<le> INT32_MAX\<rbrakk> \<Longrightarrow>
    \<exists>s'. catfmt_loop (fmt @ [0]) f args s (length xs) = Some (s', length (xs @ t)) \<and> sds_body s' (xs @ t)"
proof (induction "length fmt - f" arbitrary: f args t s xs rule: less_induct)
  case less
  note S = catfmt_loop.simps [of "fmt @ [0]" f args s "length xs"]
  show ?case
  proof (cases "drop f fmt")
    case Nil
    then have "f = length fmt" using less.prems(2) by simp
    then show ?thesis using less.prems by (subst S) (simp add: rd_def nth_append)
  next
    case (Cons c r)
    have f: "f < length fmt" using Cons less.prems(2) by (cases "f < length fmt") auto
    have c: "fmt ! f = c" "drop (Suc f) fmt = r" using Cons f by (metis Cons_nth_drop_Suc list.inject)+
    have c0: "c \<noteq> 0" using fmt f c(1) nth_mem by fastforce
    have rd0: "rd (fmt @ [0]) f = Some c" using f c by (simp add: rd_def nth_append)
    obtain s1 where s1: "(if sdsavail s = 0 then sdsMakeRoomFor s 1 else Some s) = Some s1" "sds_body s1 xs" "0 < sdsavail s1"
    proof (cases "sdsavail s = 0")
      case True
      obtain s1 where "sdsMakeRoomFor s 1 = Some s1" "sds_body s1 xs" "1 \<le> sdsavail s1"
        using sdsMakeRoomFor_ok [OF less.prems(3), of 1] less.prems(4) by auto
      then show ?thesis using True that [of s1] by auto
    qed (use that less.prems(3) in auto)
    show ?thesis
    proof (cases "c = 37")
      case False
      then obtain t' where t': "fmt_ref r args = Some t'" "t = c # t'"
        using less.prems(1) Cons by (cases r) (auto simp: bind_eq_Some_conv)
      obtain s2 where s2: "catfmt_char s1 (length xs) c = Some (s2, Suc (length xs))" "sds_body s2 (xs @ [c])"
        using catfmt_char_ok [OF s1(2,3), of c] less.prems(4) t' by auto
      have "\<exists>s'. catfmt_loop (fmt @ [0]) (Suc f) args s2 (length (xs @ [c])) = Some (s', length ((xs @ [c]) @ t')) \<and>
          sds_body s' ((xs @ [c]) @ t')"
        using f c t' s2 less.prems(4) by (intro less.hyps) auto
      then show ?thesis using False c0 rd0 s1(1) s2(1) t' by (subst S) simp
    next
      case True
      then obtain d r' where r: "r = d # r'" using less.prems(1) Cons by (cases r) auto
      have f1: "Suc f < length fmt" using c(2) r by (metis drop_eq_Nil linorder_not_le list.distinct(1))
      have d: "fmt ! Suc f = d" "drop (Suc (Suc f)) fmt = r'" using c(2) r f1 by (metis Cons_nth_drop_Suc list.inject)+
      have rd1: "rd (fmt @ [0]) (Suc f) = Some d" using f1 d by (simp add: rd_def nth_append)
      show ?thesis
      proof (cases "d = 115 \<or> d = 83 \<or> d = 105 \<or> d = 73 \<or> d = 117 \<or> d = 85")
        case D: True
        obtain a args' b t' where a: "args = a # args'" "fmt_bytes d a = Some b" "fmt_ref r' args' = Some t'" "t = b @ t'"
          using less.prems(1) Cons True r D by (auto simp: bind_eq_Some_conv split: list.splits)
        obtain s2 where s2: "catfmt_put s1 (length xs) b = Some (s2, length xs + length b)" "sds_body s2 (xs @ b)"
          using catfmt_put_ok [OF s1(2) avail_type [OF s1(3)], of b] less.prems(4) a by auto
        have "\<exists>s'. catfmt_loop (fmt @ [0]) (Suc (Suc f)) args' s2 (length (xs @ b)) = Some (s', length ((xs @ b) @ t')) \<and>
            sds_body s' ((xs @ b) @ t')"
          using f1 d a s2 less.prems(4) by (intro less.hyps) auto
        then show ?thesis using True D rd0 rd1 s1(1) s2(1) a by (subst S) simp
      next
        case D: False
        obtain t' where t': "fmt_ref r' args = Some t'" "t = d # t'"
          using less.prems(1) Cons True r D by (auto simp: bind_eq_Some_conv)
        obtain s2 where s2: "catfmt_char s1 (length xs) d = Some (s2, Suc (length xs))" "sds_body s2 (xs @ [d])"
          using catfmt_char_ok [OF s1(2,3), of d] less.prems(4) t' by auto
        have "\<exists>s'. catfmt_loop (fmt @ [0]) (Suc (Suc f)) args s2 (length (xs @ [d])) = Some (s', length ((xs @ [d]) @ t')) \<and>
            sds_body s' ((xs @ [d]) @ t')"
          using f1 d t' s2 less.prems(4) by (intro less.hyps) auto
        then show ?thesis using True D rd0 rd1 s1(1) s2(1) t' by (subst S) simp
      qed
    qed
  qed
qed

lemma sdscatfmt_ok:
  assumes "0 \<notin> set fmt" "fmt_ref fmt args = Some t" "sds_body s xs" "int (length xs + length t) \<le> INT32_MAX"
  shows "\<exists>s'. sdscatfmt s fmt args = Some s' \<and> sds_rep s' (xs @ t)"
proof -
  obtain s1 where s1: "catfmt_loop (fmt @ [0]) 0 args s (length xs) = Some (s1, length (xs @ t))" "sds_body s1 (xs @ t)"
    using catfmt_loop_ok [OF assms(1), of 0 args t s xs] assms by auto
  show ?thesis using s1(1) sds_terminate [OF s1(2)] assms(3,4)
    by (auto simp: sdscatfmt_def iadd_def sds_body_def)
qed

section \<open>In-place mapping\<close>

lemma sds_map_ok:
  assumes b: "sds_rep s xs"
  shows "\<exists>s'. do { bs \<leftarrow> sds_read s 0 (length xs); sds_write s 0 (map f bs) } = Some s' \<and> sds_rep s' (map f xs)"
proof -
  have bb: "sds_body s xs" and w: "sds_wf s" and l: "sdslen s = length xs" and z: "sds_buf s ! length xs = Some 0"
    using b by (auto simp: sds_rep_def sds_body_def)
  let ?b = "map Some (map f xs) @ drop (length xs) (sds_buf s)"
  have R: "length xs < length (sds_buf s)" using sds_wf_room [OF w] l by simp
  have "sds_write s 0 (map f xs) = Some (s\<lparr>sds_buf := ?b\<rparr>)" using R by (subst sds_write_ok) simp_all
  moreover have "sds_rep (s\<lparr>sds_buf := ?b\<rparr>) (map f xs)"
    using sds_wf_buf [OF w, of ?b] R l z by (simp add: sds_rep_def sds_body_def nth_append)
  ultimately show ?thesis using sds_read_ok [OF bb] l by simp
qed

lemma sdstolower_ok: "sds_rep s xs \<Longrightarrow> int (length xs) \<le> INT32_MAX \<Longrightarrow>
    (\<exists>s'. sdstolower s = Some s' \<and> sds_rep s' (map tolower xs)) \<and>
    (\<exists>s'. sdstoupper s = Some s' \<and> sds_rep s' (map toupper xs))"
  using sds_map_ok [of s xs tolower] sds_map_ok [of s xs toupper]
  by (simp add: sdstolower_def sdstoupper_def sds_rep_def sds_body_def)

lemma sdsmapchars_ok: "sds_rep s xs \<Longrightarrow> \<exists>s'. sdsmapchars s from to = Some s' \<and> sds_rep s' (map (mapchars from to) xs)"
  using sds_map_ok [of s xs "mapchars from to"] by (simp add: sdsmapchars_def sds_rep_def sds_body_def)

lemma repr_nz: "0 \<notin> set (repr p)"
proof -
  have "\<not> isprint 0" by (simp add: isprint_def)
  then have "0 \<notin> set (repr_char c)" for c using hex2_nz [of c] by (auto simp: repr_char_def)
  then show ?thesis by (auto simp: repr_def)
qed

section \<open>Properties\<close>

text \<open>C15. What \<open>sdscatrepr\<close> prints, \<open>sdssplitargs\<close> reads back: the quoted form of any byte string, zero and
  non-printable bytes included, is a C string, and a line of quoted arguments separated by spaces
  is split into exactly those arguments.\<close>

theorem sds_quote_roundtrip:
  assumes "\<forall>p \<in> set args. length (repr p) < SDS_LIMIT"
  shows "(\<forall>p \<in> set args. \<exists>e s. sdsempty = Some e \<and> sdscatrepr e p = Some s \<and> sds_rep s (repr p) \<and> 0 \<notin> set (repr p)) \<and>
    (\<exists>v. sdssplitargs (intercalate [32] (map repr args)) = Some (Some v) \<and> list_all2 sds_rep v args)"
proof
  obtain e where e: "sdsempty = Some e" "sds_rep e []" using sdsempty_ok by blast
  show "\<forall>p \<in> set args. \<exists>e s. sdsempty = Some e \<and> sdscatrepr e p = Some s \<and> sds_rep s (repr p) \<and> 0 \<notin> set (repr p)"
    using sdscatrepr_ok [OF e(2)] assms repr_nz e(1) by fastforce
  have "length p \<le> length (repr p)" for p
  proof (induction p)
    case (Cons c p)
    have "0 < length (repr_char c)" by (simp add: repr_char_def)
    then show ?case using Cons unfolding repr_def by (simp del: length_greater_0_conv)
  qed (simp add: repr_def)
  then have "\<forall>p \<in> set args. length p < SDS_LIMIT" using assms le_less_trans by blast
  then show "\<exists>v. sdssplitargs (intercalate [32] (map repr args)) = Some (Some v) \<and> list_all2 sds_rep v args"
    using splitargs_loop_quoted [of "[]" "[]" args "[]"] by (simp add: sdssplitargs_def quoted_line_def)
qed

theorem sds_quote_roundtrip_witness:
  "\<exists>v. sdssplitargs (intercalate [32] (map repr [[0, 34, 92, 10], [255], []])) = Some (Some v) \<and>
     list_all2 sds_rep v [[0, 34, 92, 10], [255], []]"
  using sds_quote_roundtrip [of "[[0, 34, 92, 10], [255], []]"]
  by (simp add: repr_def repr_char_def hex2_def isprint_def)



text \<open>\<open>sdssplitlen\<close> of a non-empty string returns tokens none of which contains the separator, stores
  every token inside its array, and joining them with \<open>sdsjoinsds\<close> gives the string back.\<close>

theorem sds_split_join:
  assumes "s \<noteq> []" and "sep \<noteq> []" and "length s < SDS_LIMIT"
  shows "\<exists>tokens ts j. sdssplitlen s sep = Some (Some tokens) \<and> list_all2 sds_rep tokens ts \<and>
    (\<forall>t \<in> set ts. \<not> occurs sep t) \<and> sdsjoinsds tokens sep = Some j \<and> sds_rep j s"
proof -
  obtain tokens ts where t: "sdssplitlen s sep = Some (Some tokens)" "list_all2 sds_rep tokens ts"
    "intercalate sep ts = s" "\<forall>t \<in> set ts. \<not> occurs sep t"
    using sdssplitlen_ok [OF assms] by blast
  then show ?thesis using sdsjoinsds_ok [OF t(2), of sep] assms(3) by blast
qed

theorem sds_split_join_witness:
  "\<exists>tokens ts j. sdssplitlen (lit ''foo_-_bar'') (lit ''_-_'') = Some (Some tokens) \<and> list_all2 sds_rep tokens ts \<and>
     sdsjoinsds tokens (lit ''_-_'') = Some j \<and> sds_rep j (lit ''foo_-_bar'')"
  using sds_split_join [of "lit ''foo_-_bar''" "lit ''_-_''"] by (auto simp: lit_def)

text \<open>\<open>sdstrim\<close> removes from both ends the bytes of the set (and zero bytes, which \<open>strchr\<close> finds in
  every set), \<open>sdsrange\<close> keeps the clipped range with negative indexes counted from the end,
  \<open>sdstolower\<close> changes every byte, and the sign of \<open>sdscmp\<close> is the lexicographic order.\<close>

theorem sds_text_ops:
  assumes "sds_rep s xs" and "sds_rep r ys" and "length xs < 2 ^ 31" and "length ys < 2 ^ 31"
    and "INT32_MIN \<le> start" and "fin < INT32_MAX"
  shows "(\<exists>s'. sdstrim s cset = Some s' \<and>
      sds_rep s' (rev (dropWhile (\<lambda>c. c = 0 \<or> c \<in> set cset) (rev (dropWhile (\<lambda>c. c = 0 \<or> c \<in> set cset) xs))))) \<and>
    (\<exists>s'. sdsrange s start fin = Some s' \<and> sds_rep s' (range_ref start fin xs)) \<and>
    (\<exists>s'. sdstolower s = Some s' \<and> sds_rep s' (map tolower xs)) \<and>
    (\<exists>c. sdscmp s r = Some c \<and> (c < 0 \<longleftrightarrow> lex_less xs ys) \<and> (c = 0 \<longleftrightarrow> xs = ys))"
proof -
  have b: "sds_body s xs" "sds_body r ys" using assms by (simp_all add: sds_rep_def)
  have n: "int (length xs) \<le> INT32_MAX" using assms(3) by simp
  have p: "in_cset cset = (\<lambda>c. c = 0 \<or> c \<in> set cset)" by (simp add: in_cset_def fun_eq_iff)
  show ?thesis
    using sdstrim_ok [OF b(1), of cset] sdsrange_ok [OF assms(1) n assms(5,6)] sdstolower_ok [OF assms(1) n]
      sdscmp_ok [OF b assms(3,4)] unfolding trim_ref_def p by blast
qed

theorem sds_text_ops_witness:
  "\<exists>s s'. sdsnewlen (Some (lit '' ab '')) 4 = Some s \<and> sdstrim s (lit '' '') = Some s' \<and> sds_rep s' (lit ''ab'')"
proof -
  obtain s where s: "sdsnewlen (Some (lit '' ab '')) 4 = Some s" "sds_rep s (lit '' ab '')"
    using sdsnewlen_ok [of 4 "lit '' ab ''"] by (auto simp: lit_def)
  then show ?thesis using sds_text_ops [OF s(2) s(2), of 0 0 "lit '' ''"] by (auto simp: lit_def)
qed

text \<open>\<open>sdsll2str\<close> and \<open>ll2string\<close> leave the same buffer and return the same length for every 64-bit
  number but the least; there \<open>sdsll2str\<close> negates a signed number that has no negation, which is
  undefined, while \<open>ll2string\<close> handles it.\<close>

theorem sdsll2str_ll2string:
  assumes "int64 v" and "length (dec_int v) < length m"
  shows "sdsll2str m v = (if v = INT64_MIN then None else ll2string m (length m) v)"
  using sdsll2str_ok [of v m] ll2string_eq [OF assms(1), of "length m" m] assms(2)
  by (auto simp: sdsll2str_def)

theorem sdsll2str_ll2string_witness:
  "sdsll2str (replicate 21 None) (- 45) = (if - 45 = INT64_MIN then None else ll2string (replicate 21 None) (length (replicate 21 (None :: cell))) (- 45))"
  by (rule sdsll2str_ll2string, simp add: int64_def)
    (use length_dec_int_bound [of "- 45"] in \<open>simp add: int64_def\<close>)

text \<open>\<open>sdscatfmt\<close> appends the text of its format: plain bytes, strings, sds strings, numbers and
  \<open>%%\<close>, growing the string as it goes and terminating it at the end. A format that ends in a percent
  sign makes it read behind the terminating zero of the format.\<close>

theorem sdscatfmt_correct:
  assumes "0 \<notin> set fmt" and "fmt_ref fmt args = Some t" and "sds_rep s xs"
    and "int (length xs + length t) \<le> INT32_MAX"
  shows "(\<exists>s'. sdscatfmt s fmt args = Some s' \<and> sds_rep s' (xs @ t)) \<and>
    sdscatfmt s [37] [] = None"
proof
  have b: "sds_body s xs" using assms(3) by (simp add: sds_rep_def)
  show "\<exists>s'. sdscatfmt s fmt args = Some s' \<and> sds_rep s' (xs @ t)" by (rule sdscatfmt_ok [OF assms(1,2) b assms(4)])
  show "sdscatfmt s [37] [] = None"
    by (auto simp: sdscatfmt_def catfmt_loop.simps [of _ 0] catfmt_loop.simps [of _ 2] catfmt_loop.simps [of _ "Suc (Suc 0)"]
      rd_def bind_eq_None_conv)
qed

theorem sdscatfmt_correct_witness:
  "\<exists>s s'. sdsempty = Some s \<and> sdscatfmt s (lit ''%I%%'') [FmtInt 7] = Some s' \<and> sds_rep s' (dec_int 7 @ [37])"
proof -
  obtain e where e: "sdsempty = Some e" "sds_rep e []" using sdsempty_ok by blast
  have f: "fmt_bytes 73 (FmtInt 7) = Some (dec_int 7)" by (rule fmt_bytes_numbers) (simp_all add: int64_def)
  have "fmt_ref (lit ''%I%%'') [FmtInt 7] = Some (dec_int 7 @ [37])" using f by (simp add: lit_def)
  moreover have "int (length [] + length (dec_int 7 @ [37])) \<le> INT32_MAX"
    using length_dec_int_bound [of 7] by (simp add: int64_def)
  ultimately have "\<exists>s'. sdscatfmt e (lit ''%I%%'') [FmtInt 7] = Some s' \<and> sds_rep s' (dec_int 7 @ [37])"
    using sdscatfmt_correct [OF _ _ e(2), of "lit ''%I%%''" "[FmtInt 7]"] by (auto simp: lit_def)
  then show ?thesis using e(1) by blast
qed

end
