(* ===== verification/Ziplist.thy ===== *)
theory Ziplist
  imports Util
begin

text \<open>
  The compact list of \<^verbatim>\<open>ziplist.c\<close>: one allocation holding a header (total bytes, offset of the last
  entry, number of entries), the entries and an end byte. An entry starts with the length of the
  entry before it, in one byte or, from 254 on, in five; then comes the encoding, which for a string
  holds its length and for a text that is a canonical decimal number selects a binary integer.

  The model is the allocation itself, cell by cell; pointers are offsets, and a read of an
  indeterminate or outside cell is \<open>None\<close>. The host is little-endian, so the \<open>...ifbe\<close> macros are empty.

  This theory holds the operations; \<open>ZiplistRep\<close> and \<open>ZiplistOps\<close> hold the abstraction and the proofs.
\<close>

unbundle bit_operations_syntax

section \<open>Encodings\<close>

abbreviation ZIP_END :: byte where "ZIP_END \<equiv> 255"
abbreviation ZIP_BIGLEN :: nat where "ZIP_BIGLEN \<equiv> 254"
abbreviation ZIP_STR_MASK :: byte where "ZIP_STR_MASK \<equiv> 192"
abbreviation ZIP_STR_06B :: byte where "ZIP_STR_06B \<equiv> 0"
abbreviation ZIP_STR_14B :: byte where "ZIP_STR_14B \<equiv> 64"
abbreviation ZIP_STR_32B :: byte where "ZIP_STR_32B \<equiv> 128"
abbreviation ZIP_INT_16B :: byte where "ZIP_INT_16B \<equiv> 192"
abbreviation ZIP_INT_32B :: byte where "ZIP_INT_32B \<equiv> 208"
abbreviation ZIP_INT_64B :: byte where "ZIP_INT_64B \<equiv> 224"
abbreviation ZIP_INT_24B :: byte where "ZIP_INT_24B \<equiv> 240"
abbreviation ZIP_INT_8B :: byte where "ZIP_INT_8B \<equiv> 254"
abbreviation ZIP_INT_IMM_MIN :: byte where "ZIP_INT_IMM_MIN \<equiv> 241"
abbreviation ZIP_INT_IMM_MAX :: byte where "ZIP_INT_IMM_MAX \<equiv> 253"
abbreviation ZIPLIST_HEADER_SIZE :: nat where "ZIPLIST_HEADER_SIZE \<equiv> 10"
abbreviation INT24_MIN :: int where "INT24_MIN \<equiv> - 8388608"
abbreviation INT24_MAX :: int where "INT24_MAX \<equiv> 8388607"

definition ZIP_IS_STR :: "byte \<Rightarrow> bool" where
  "ZIP_IS_STR enc \<longleftrightarrow> enc AND ZIP_STR_MASK < ZIP_STR_MASK"

definition zipIntSize :: "byte \<Rightarrow> nat" where
  "zipIntSize enc =
     (if enc = ZIP_INT_8B then 1 else if enc = ZIP_INT_16B then 2 else if enc = ZIP_INT_24B then 3
      else if enc = ZIP_INT_32B then 4 else if enc = ZIP_INT_64B then 8 else 0)"

text \<open>The bytes \<open>zipEncodeLength\<close> writes; their number is its result. The conversion to a byte is the
  \<open>& 0xff\<close> of the sources.\<close>

definition zipEncodeLength :: "byte \<Rightarrow> nat \<Rightarrow> bytes" where
  "zipEncodeLength enc rawlen =
     (if ZIP_IS_STR enc then
        (if rawlen \<le> 63 then [ZIP_STR_06B OR of_nat rawlen]
         else if rawlen \<le> 16383 then [ZIP_STR_14B OR (of_nat (rawlen div 256) AND 63), of_nat rawlen]
         else [ZIP_STR_32B, of_nat (rawlen div 16777216), of_nat (rawlen div 65536), of_nat (rawlen div 256), of_nat rawlen])
      else [enc])"

definition zipPrevEncodeLength :: "nat \<Rightarrow> bytes" where
  "zipPrevEncodeLength len = (if len < ZIP_BIGLEN then [of_nat len] else of_nat ZIP_BIGLEN # le_enc 4 (int len))"

definition zipPrevEncodeLengthForceLarge :: "nat \<Rightarrow> bytes" where
  "zipPrevEncodeLengthForceLarge len = of_nat ZIP_BIGLEN # le_enc 4 (int len)"

text \<open>The value and the encoding of a text that can be stored as an integer.\<close>

definition zipTryEncoding :: "bytes \<Rightarrow> (int \<times> byte) option" where
  "zipTryEncoding s =
     (if length s \<ge> 32 \<or> length s = 0 then None
      else
        (case string2ll s of
           None \<Rightarrow> None
         | Some v \<Rightarrow> Some (v,
             if 0 \<le> v \<and> v \<le> 12 then ZIP_INT_IMM_MIN + word_of_int v
             else if - 128 \<le> v \<and> v \<le> 127 then ZIP_INT_8B
             else if INT16_MIN \<le> v \<and> v \<le> INT16_MAX then ZIP_INT_16B
             else if INT24_MIN \<le> v \<and> v \<le> INT24_MAX then ZIP_INT_24B
             else if INT32_MIN \<le> v \<and> v \<le> INT32_MAX then ZIP_INT_32B
             else ZIP_INT_64B)))"

text \<open>The bytes \<open>zipSaveInteger\<close> writes; \<open>None\<close> is the failing assertion.\<close>

definition zipSaveInteger :: "int \<Rightarrow> byte \<Rightarrow> bytes option" where
  "zipSaveInteger v enc =
     (if enc = ZIP_INT_8B then Some (le_enc 1 v)
      else if enc = ZIP_INT_16B then Some (le_enc 2 v)
      else if enc = ZIP_INT_24B then Some (drop 1 (le_enc 4 (v * 256)))
      else if enc = ZIP_INT_32B then Some (le_enc 4 v)
      else if enc = ZIP_INT_64B then Some (le_enc 8 v)
      else if ZIP_INT_IMM_MIN \<le> enc \<and> enc \<le> ZIP_INT_IMM_MAX then Some []
      else None)"

section \<open>Reading an entry\<close>

definition zl_byte :: "cmemory \<Rightarrow> nat \<Rightarrow> byte option" where
  "zl_byte zl p = map_option hd (mem_read zl p 1)"

text \<open>Encoding, size of the length field and length. The bytes of a long length occupy different bits,
  so their disjunction is a sum.\<close>

definition ZIP_DECODE_LENGTH :: "cmemory \<Rightarrow> nat \<Rightarrow> (byte \<times> nat \<times> nat) option" where
  "ZIP_DECODE_LENGTH zl p = do {
     b0 \<leftarrow> zl_byte zl p;
     let enc = (if b0 < ZIP_STR_MASK then b0 AND ZIP_STR_MASK else b0);
     if enc < ZIP_STR_MASK then
       (if enc = ZIP_STR_06B then Some (enc, 1, unat (b0 AND 63))
        else if enc = ZIP_STR_14B then do {
          b1 \<leftarrow> zl_byte zl (p + 1);
          Some (enc, 2, unat (b0 AND 63) * 256 + unat b1)
        }
        else if enc = ZIP_STR_32B then do {
          b1 \<leftarrow> zl_byte zl (p + 1);
          b2 \<leftarrow> zl_byte zl (p + 2);
          b3 \<leftarrow> zl_byte zl (p + 3);
          b4 \<leftarrow> zl_byte zl (p + 4);
          Some (enc, 5, unat b1 * 16777216 + unat b2 * 65536 + unat b3 * 256 + unat b4)
        }
        else None)
     else Some (enc, 1, zipIntSize enc)
   }"

definition ZIP_DECODE_PREVLENSIZE :: "cmemory \<Rightarrow> nat \<Rightarrow> nat option" where
  "ZIP_DECODE_PREVLENSIZE zl p = do { b \<leftarrow> zl_byte zl p; Some (if unat b < ZIP_BIGLEN then 1 else 5) }"

text \<open>Size of the field and the length it holds.\<close>

definition ZIP_DECODE_PREVLEN :: "cmemory \<Rightarrow> nat \<Rightarrow> (nat \<times> nat) option" where
  "ZIP_DECODE_PREVLEN zl p = do {
     n \<leftarrow> ZIP_DECODE_PREVLENSIZE zl p;
     if n = 1 then do { b \<leftarrow> zl_byte zl p; Some (n, unat b) }
     else do { bs \<leftarrow> mem_read zl (p + 1) 4; Some (n, nat (le_dec bs)) }
   }"

definition zipPrevLenByteDiff :: "cmemory \<Rightarrow> nat \<Rightarrow> nat \<Rightarrow> int option" where
  "zipPrevLenByteDiff zl p len = do {
     n \<leftarrow> ZIP_DECODE_PREVLENSIZE zl p;
     Some (int (length (zipPrevEncodeLength len)) - int n)
   }"

definition zipRawEntryLength :: "cmemory \<Rightarrow> nat \<Rightarrow> nat option" where
  "zipRawEntryLength zl p = do {
     n \<leftarrow> ZIP_DECODE_PREVLENSIZE zl p;
     (enc, lensize, len) \<leftarrow> ZIP_DECODE_LENGTH zl (p + n);
     Some (u32 (n + lensize + len))
   }"

definition zipLoadInteger :: "cmemory \<Rightarrow> nat \<Rightarrow> byte \<Rightarrow> int option" where
  "zipLoadInteger zl p enc =
     (if enc = ZIP_INT_8B then map_option le_sdec (mem_read zl p 1)
      else if enc = ZIP_INT_16B then map_option le_sdec (mem_read zl p 2)
      else if enc = ZIP_INT_32B then map_option le_sdec (mem_read zl p 4)
      else if enc = ZIP_INT_24B then map_option (\<lambda>bs. le_sdec (0 # bs) div 256) (mem_read zl p 3)
      else if enc = ZIP_INT_64B then map_option le_sdec (mem_read zl p 8)
      else if ZIP_INT_IMM_MIN \<le> enc \<and> enc \<le> ZIP_INT_IMM_MAX then Some (uint (enc AND 15) - 1)
      else None)"

record zlentry =
  prevrawlensize :: nat
  prevrawlen :: nat
  lensize :: nat
  zlen :: nat
  headersize :: nat
  encoding :: byte

definition zipEntry :: "cmemory \<Rightarrow> nat \<Rightarrow> zlentry option" where
  "zipEntry zl p = do {
     (ps, pl) \<leftarrow> ZIP_DECODE_PREVLEN zl p;
     (enc, ls, l) \<leftarrow> ZIP_DECODE_LENGTH zl (p + ps);
     Some \<lparr>prevrawlensize = ps, prevrawlen = pl, lensize = ls, zlen = l, headersize = ps + ls, encoding = enc\<rparr>
   }"

section \<open>Header\<close>

definition ZIPLIST_BYTES :: "cmemory \<Rightarrow> nat option" where
  "ZIPLIST_BYTES zl = map_option (nat \<circ> le_dec) (mem_read zl 0 4)"

definition ZIPLIST_TAIL_OFFSET :: "cmemory \<Rightarrow> nat option" where
  "ZIPLIST_TAIL_OFFSET zl = map_option (nat \<circ> le_dec) (mem_read zl 4 4)"

definition ZIPLIST_LENGTH :: "cmemory \<Rightarrow> nat option" where
  "ZIPLIST_LENGTH zl = map_option (nat \<circ> le_dec) (mem_read zl 8 2)"

text \<open>Assignments to the fields; the value is cut to the width of the field.\<close>

definition set_bytes :: "cmemory \<Rightarrow> int \<Rightarrow> cmemory option" where
  "set_bytes zl v = mem_write zl 0 (le_enc 4 v)"

definition set_tail :: "cmemory \<Rightarrow> int \<Rightarrow> cmemory option" where
  "set_tail zl v = mem_write zl 4 (le_enc 4 v)"

definition set_length :: "cmemory \<Rightarrow> int \<Rightarrow> cmemory option" where
  "set_length zl v = mem_write zl 8 (le_enc 2 v)"

definition ZIPLIST_INCR_LENGTH :: "cmemory \<Rightarrow> int \<Rightarrow> cmemory option" where
  "ZIPLIST_INCR_LENGTH zl incr = do {
     n \<leftarrow> ZIPLIST_LENGTH zl;
     if n < 65535 then set_length zl (int n + incr) else Some zl
   }"

definition ziplistNew :: "cmemory option" where
  "ziplistNew = do {
     let zl = replicate (ZIPLIST_HEADER_SIZE + 1) None;
     zl \<leftarrow> set_bytes zl (int (ZIPLIST_HEADER_SIZE + 1));
     zl \<leftarrow> set_tail zl (int ZIPLIST_HEADER_SIZE);
     zl \<leftarrow> set_length zl 0;
     mem_write zl ZIPLIST_HEADER_SIZE [ZIP_END]
   }"

definition ziplistResize :: "cmemory \<Rightarrow> nat \<Rightarrow> cmemory option" where
  "ziplistResize zl len =
     (if len = 0 then None
      else do {
        let zl = mem_resize zl len;
        zl \<leftarrow> set_bytes zl (int len);
        mem_write zl (len - 1) [ZIP_END]
      })"

text \<open>\<open>memmove\<close> with computed positions.\<close>

definition zl_move :: "cmemory \<Rightarrow> int \<Rightarrow> int \<Rightarrow> int \<Rightarrow> cmemory option" where
  "zl_move zl dst src n = (if dst < 0 \<or> src < 0 \<or> n < 0 then None else mem_move zl (nat dst) (nat src) (nat n))"

section \<open>Operations\<close>

text \<open>The loop of \<open>__ziplistCascadeUpdate\<close>, with the local \<open>curlen\<close>. Whether it ends depends on the
  contents, hence the partial function.\<close>

partial_function (option) cascade_loop :: "nat \<Rightarrow> cmemory \<Rightarrow> nat \<Rightarrow> cmemory option" where
  "cascade_loop curlen zl p = do {
     b \<leftarrow> zl_byte zl p;
     if b = ZIP_END then Some zl
     else do {
       cur \<leftarrow> zipEntry zl p;
       let rawlen = u32 (headersize cur + zlen cur);
       let rawlensize = length (zipPrevEncodeLength rawlen);
       b' \<leftarrow> zl_byte zl (p + rawlen);
       if b' = ZIP_END then Some zl
       else do {
         nxt \<leftarrow> zipEntry zl (p + rawlen);
         if prevrawlen nxt = rawlen then Some zl
         else if prevrawlensize nxt < rawlensize then do {
           let extra = rawlensize - prevrawlensize nxt;
           zl \<leftarrow> ziplistResize zl (u32 (curlen + extra));
           let np = p + rawlen;
           tail \<leftarrow> ZIPLIST_TAIL_OFFSET zl;
           zl \<leftarrow> (if tail \<noteq> np then set_tail zl (int (tail + extra)) else Some zl);
           zl \<leftarrow> zl_move zl (int (np + rawlensize)) (int (np + prevrawlensize nxt))
                  (int curlen - int np - int (prevrawlensize nxt) - 1);
           zl \<leftarrow> mem_write zl np (zipPrevEncodeLength rawlen);
           cascade_loop (curlen + extra) zl np
         }
         else if prevrawlensize nxt > rawlensize then
           mem_write zl (p + rawlen) (zipPrevEncodeLengthForceLarge rawlen)
         else mem_write zl (p + rawlen) (zipPrevEncodeLength rawlen)
       }
     }
   }"

definition ziplistCascadeUpdate :: "cmemory \<Rightarrow> nat \<Rightarrow> cmemory option" where
  "ziplistCascadeUpdate zl p = do { curlen \<leftarrow> ZIPLIST_BYTES zl; cascade_loop curlen zl p }"

text \<open>The loop of \<open>__ziplistDelete\<close> over the entries to delete: the position behind them and their number.\<close>

fun skip_entries :: "cmemory \<Rightarrow> nat \<Rightarrow> nat \<Rightarrow> (nat \<times> nat) option" where
  "skip_entries zl p 0 = Some (p, 0)"
| "skip_entries zl p (Suc num) = do {
     b \<leftarrow> zl_byte zl p;
     if b = ZIP_END then Some (p, 0)
     else do {
       n \<leftarrow> zipRawEntryLength zl p;
       (q, deleted) \<leftarrow> skip_entries zl (p + n) num;
       Some (q, Suc deleted)
     }
   }"

text \<open>\<open>__ziplistDelete\<close>\<close>

definition ziplistDelete_at :: "cmemory \<Rightarrow> nat \<Rightarrow> nat \<Rightarrow> cmemory option" where
  "ziplistDelete_at zl p num = do {
     first \<leftarrow> zipEntry zl p;
     (q, deleted) \<leftarrow> skip_entries zl p num;
     let totlen = u32 (q - p);
     if totlen > 0 then do {
       b \<leftarrow> zl_byte zl q;
       (zl, nextdiff) \<leftarrow>
         (if b \<noteq> ZIP_END then do {
            nextdiff \<leftarrow> zipPrevLenByteDiff zl q (prevrawlen first);
            let q = nat (int q - nextdiff);
            zl \<leftarrow> mem_write zl q (zipPrevEncodeLength (prevrawlen first));
            t \<leftarrow> ZIPLIST_TAIL_OFFSET zl;
            zl \<leftarrow> set_tail zl (int t - int totlen);
            tail \<leftarrow> zipEntry zl q;
            b \<leftarrow> zl_byte zl (q + headersize tail + zlen tail);
            zl \<leftarrow> (if b \<noteq> ZIP_END then do { t \<leftarrow> ZIPLIST_TAIL_OFFSET zl; set_tail zl (int t + nextdiff) } else Some zl);
            total \<leftarrow> ZIPLIST_BYTES zl;
            zl \<leftarrow> zl_move zl (int p) (int q) (int total - int q - 1);
            Some (zl, nextdiff)
          }
          else do {
            zl \<leftarrow> set_tail zl (int p - int (prevrawlen first));
            Some (zl, 0)
          });
       total \<leftarrow> ZIPLIST_BYTES zl;
       zl \<leftarrow> ziplistResize zl (nat ((int total - int totlen + nextdiff) mod 4294967296));
       zl \<leftarrow> ZIPLIST_INCR_LENGTH zl (- int deleted);
       if nextdiff \<noteq> 0 then ziplistCascadeUpdate zl p else Some zl
     }
     else Some zl
   }"

text \<open>\<open>__ziplistInsert\<close>; \<open>s\<close> is the array of \<open>slen\<close> bytes.\<close>

definition insert_prevlen :: "cmemory \<Rightarrow> nat \<Rightarrow> nat option" where
  "insert_prevlen zl p = do {
     b \<leftarrow> zl_byte zl p;
     if b \<noteq> ZIP_END then map_option snd (ZIP_DECODE_PREVLEN zl p)
     else do {
       ptail \<leftarrow> ZIPLIST_TAIL_OFFSET zl;
       b \<leftarrow> zl_byte zl ptail;
       if b \<noteq> ZIP_END then zipRawEntryLength zl ptail else Some 0
     }
   }"

definition insert_move :: "cmemory \<Rightarrow> nat \<Rightarrow> nat \<Rightarrow> nat \<Rightarrow> int \<Rightarrow> cmemory option" where
  "insert_move zl p curlen reqlen nextdiff = do {
     b \<leftarrow> zl_byte zl p;
     if b \<noteq> ZIP_END then do {
       zl \<leftarrow> zl_move zl (int (p + reqlen)) (int p - nextdiff) (int curlen - int p - 1 + nextdiff);
       zl \<leftarrow> mem_write zl (p + reqlen) (zipPrevEncodeLength (u32 reqlen));
       t \<leftarrow> ZIPLIST_TAIL_OFFSET zl;
       zl \<leftarrow> set_tail zl (int t + int reqlen);
       tail \<leftarrow> zipEntry zl (p + reqlen);
       b \<leftarrow> zl_byte zl (p + reqlen + headersize tail + zlen tail);
       if b \<noteq> ZIP_END then do { t \<leftarrow> ZIPLIST_TAIL_OFFSET zl; set_tail zl (int t + nextdiff) } else Some zl
     }
     else set_tail zl (int p)
   }"

definition insert_write :: "cmemory \<Rightarrow> nat \<Rightarrow> nat \<Rightarrow> int \<Rightarrow> byte \<Rightarrow> bytes \<Rightarrow> cmemory option" where
  "insert_write zl p prevlen val enc s = do {
     zl \<leftarrow> mem_write zl p (zipPrevEncodeLength prevlen);
     let p = p + length (zipPrevEncodeLength prevlen);
     zl \<leftarrow> mem_write zl p (zipEncodeLength enc (length s));
     let p = p + length (zipEncodeLength enc (length s));
     if ZIP_IS_STR enc then mem_write zl p s
     else do { bs \<leftarrow> zipSaveInteger val enc; mem_write zl p bs }
   }"

definition ziplistInsert_at :: "cmemory \<Rightarrow> nat \<Rightarrow> bytes \<Rightarrow> cmemory option" where
  "ziplistInsert_at zl p s = do {
     curlen \<leftarrow> ZIPLIST_BYTES zl;
     prevlen \<leftarrow> insert_prevlen zl p;
     let (val, enc, reqlen) =
       (case zipTryEncoding s of
          Some (v, e) \<Rightarrow> (v, e, zipIntSize e)
        | None \<Rightarrow> (123456789, 0, length s));
     let reqlen = reqlen + length (zipPrevEncodeLength prevlen) + length (zipEncodeLength enc (length s));
     b \<leftarrow> zl_byte zl p;
     nextdiff \<leftarrow> (if b \<noteq> ZIP_END then zipPrevLenByteDiff zl p (u32 reqlen) else Some 0);
     zl \<leftarrow> ziplistResize zl (nat ((int (curlen + reqlen) + nextdiff) mod 4294967296));
     zl \<leftarrow> insert_move zl p curlen reqlen nextdiff;
     zl \<leftarrow> (if nextdiff \<noteq> 0 then ziplistCascadeUpdate zl (p + reqlen) else Some zl);
     zl \<leftarrow> insert_write zl p prevlen val enc s;
     ZIPLIST_INCR_LENGTH zl 1
   }"

text \<open>\<open>memcpy\<close> from another object, with indeterminate cells.\<close>

definition mem_copy :: "cmemory \<Rightarrow> nat \<Rightarrow> cmemory \<Rightarrow> nat \<Rightarrow> nat \<Rightarrow> cmemory option" where
  "mem_copy m dst m' src n =
     (if dst + n \<le> length m \<and> src + n \<le> length m'
      then Some (take dst m @ take n (drop src m') @ drop (dst + n) m) else None)"

text \<open>\<open>ziplistMerge\<close>: \<open>None\<close> inside the arguments and results is the null pointer, \<open>same\<close> says whether the
  two lists are one object. The result is the value returned, \<open>*first\<close> and \<open>*second\<close>.\<close>

definition merge_bytes :: "cmemory \<Rightarrow> nat \<Rightarrow> cmemory \<Rightarrow> nat \<Rightarrow> bool \<Rightarrow> cmemory option" where
  "merge_bytes f first_bytes g second_bytes append_second =
     (if first_bytes + second_bytes < ZIPLIST_HEADER_SIZE + 1 \<or> first_bytes = 0 \<or> second_bytes < ZIPLIST_HEADER_SIZE then None
      else
        (let zlbytes = first_bytes + second_bytes - ZIPLIST_HEADER_SIZE - 1 in
         if append_second then
           mem_copy (mem_resize f zlbytes) (first_bytes - 1) g ZIPLIST_HEADER_SIZE (second_bytes - ZIPLIST_HEADER_SIZE)
         else do {
           m \<leftarrow> mem_move (mem_resize g zlbytes) (first_bytes - 1) ZIPLIST_HEADER_SIZE (second_bytes - ZIPLIST_HEADER_SIZE);
           mem_copy m 0 f 0 (first_bytes - 1)
         }))"

definition ziplistMerge :: "bool \<Rightarrow> cmemory option \<Rightarrow> cmemory option \<Rightarrow>
    (cmemory option \<times> cmemory option \<times> cmemory option) option" where
  "ziplistMerge same first second =
     (case (first, second) of
        (Some f, Some g) \<Rightarrow>
          if same then Some (None, first, second)
          else do {
            first_bytes \<leftarrow> ZIPLIST_BYTES f;
            first_len \<leftarrow> ZIPLIST_LENGTH f;
            second_bytes \<leftarrow> ZIPLIST_BYTES g;
            second_len \<leftarrow> ZIPLIST_LENGTH g;
            let append_second = (first_len \<ge> second_len);
            let zllength = min (first_len + second_len) 65535;
            first_offset \<leftarrow> ZIPLIST_TAIL_OFFSET f;
            second_offset \<leftarrow> ZIPLIST_TAIL_OFFSET g;
            target \<leftarrow> merge_bytes f first_bytes g second_bytes append_second;
            target \<leftarrow> set_bytes target (int (first_bytes + second_bytes) - int ZIPLIST_HEADER_SIZE - 1);
            target \<leftarrow> set_length target (int zllength);
            target \<leftarrow> set_tail target ((int first_bytes - 1) + (int second_offset - int ZIPLIST_HEADER_SIZE));
            target \<leftarrow> ziplistCascadeUpdate target first_offset;
            Some (Some target, if append_second then Some target else None, if append_second then None else Some target)
          }
      | _ \<Rightarrow> Some (None, first, second))"

definition ziplistPush :: "cmemory \<Rightarrow> bytes \<Rightarrow> bool \<Rightarrow> cmemory option" where
  "ziplistPush zl s at_head =
     (if at_head then ziplistInsert_at zl ZIPLIST_HEADER_SIZE s
      else do { total \<leftarrow> ZIPLIST_BYTES zl; ziplistInsert_at zl (total - 1) s })"

text \<open>The loops of \<open>ziplistIndex\<close>: the position and the value of \<open>index\<close> at the end, one less than the
  count when the condition decremented it last.\<close>

fun index_back :: "cmemory \<Rightarrow> nat \<Rightarrow> nat \<Rightarrow> nat \<Rightarrow> (nat \<times> int) option" where
  "index_back zl p prevlen 0 = Some (p, if prevlen > 0 then - 1 else 0)"
| "index_back zl p prevlen (Suc index) =
     (if prevlen > 0 then
        (if p < prevlen then None
         else do {
           (n, prevlen') \<leftarrow> ZIP_DECODE_PREVLEN zl (p - prevlen);
           index_back zl (p - prevlen) prevlen' index
         })
      else Some (p, int (Suc index)))"

fun index_forward :: "cmemory \<Rightarrow> nat \<Rightarrow> nat \<Rightarrow> (nat \<times> int) option" where
  "index_forward zl p 0 = do { b \<leftarrow> zl_byte zl p; Some (p, if b = ZIP_END then 0 else - 1) }"
| "index_forward zl p (Suc index) = do {
     b \<leftarrow> zl_byte zl p;
     if b = ZIP_END then Some (p, int (Suc index))
     else do { n \<leftarrow> zipRawEntryLength zl p; index_forward zl (p + n) index }
   }"

text \<open>\<open>Some None\<close> is the null pointer; negating the least \<open>int\<close> is undefined.\<close>

definition ziplistIndex :: "cmemory \<Rightarrow> int \<Rightarrow> nat option option" where
  "ziplistIndex zl index = do {
     (p, index) \<leftarrow>
       (if index < 0 then
          (if index = INT32_MIN then None
           else do {
             let index = (- index) - 1;
             p \<leftarrow> ZIPLIST_TAIL_OFFSET zl;
             b \<leftarrow> zl_byte zl p;
             if b \<noteq> ZIP_END then do {
               (n, prevlen) \<leftarrow> ZIP_DECODE_PREVLEN zl p;
               index_back zl p prevlen (nat index)
             }
             else Some (p, index)
           })
        else index_forward zl ZIPLIST_HEADER_SIZE (nat index));
     b \<leftarrow> zl_byte zl p;
     Some (if b = ZIP_END \<or> index > 0 then None else Some p)
   }"

definition ziplistNext :: "cmemory \<Rightarrow> nat \<Rightarrow> nat option option" where
  "ziplistNext zl p = do {
     b \<leftarrow> zl_byte zl p;
     if b = ZIP_END then Some None
     else do {
       n \<leftarrow> zipRawEntryLength zl p;
       b \<leftarrow> zl_byte zl (p + n);
       Some (if b = ZIP_END then None else Some (p + n))
     }
   }"

definition ziplistPrev :: "cmemory \<Rightarrow> nat \<Rightarrow> nat option option" where
  "ziplistPrev zl p = do {
     b \<leftarrow> zl_byte zl p;
     if b = ZIP_END then do {
       t \<leftarrow> ZIPLIST_TAIL_OFFSET zl;
       b \<leftarrow> zl_byte zl t;
       Some (if b = ZIP_END then None else Some t)
     }
     else if p = ZIPLIST_HEADER_SIZE then Some None
     else do {
       (n, prevlen) \<leftarrow> ZIP_DECODE_PREVLEN zl p;
       if prevlen > 0 \<and> prevlen \<le> p then Some (Some (p - prevlen)) else None
     }
   }"

text \<open>What \<open>ziplistGet\<close> stores: position and length of a string, or an integer.\<close>

datatype zlvalue = Sstr nat nat | Sval int

definition ziplistGet :: "cmemory \<Rightarrow> nat option \<Rightarrow> zlvalue option option" where
  "ziplistGet zl p =
     (case p of
        None \<Rightarrow> Some None
      | Some p \<Rightarrow> do {
          b \<leftarrow> zl_byte zl p;
          if b = ZIP_END then Some None
          else do {
            entry \<leftarrow> zipEntry zl p;
            if ZIP_IS_STR (encoding entry) then Some (Some (Sstr (p + headersize entry) (zlen entry)))
            else do {
              v \<leftarrow> zipLoadInteger zl (p + headersize entry) (encoding entry);
              Some (Some (Sval v))
            }
          }
        })"

definition ziplistInsert :: "cmemory \<Rightarrow> nat \<Rightarrow> bytes \<Rightarrow> cmemory option" where
  "ziplistInsert zl p s = ziplistInsert_at zl p s"

text \<open>The list and the value of \<open>*p\<close>.\<close>

definition ziplistDelete :: "cmemory \<Rightarrow> nat \<Rightarrow> (cmemory \<times> nat) option" where
  "ziplistDelete zl p = do { zl \<leftarrow> ziplistDelete_at zl p 1; Some (zl, p) }"

definition ziplistDeleteRange :: "cmemory \<Rightarrow> int \<Rightarrow> nat \<Rightarrow> cmemory option" where
  "ziplistDeleteRange zl index num = do {
     p \<leftarrow> ziplistIndex zl index;
     case p of None \<Rightarrow> Some zl | Some p \<Rightarrow> ziplistDelete_at zl p num
   }"

definition ziplistCompare :: "cmemory \<Rightarrow> nat \<Rightarrow> bytes \<Rightarrow> bool option" where
  "ziplistCompare zl p s = do {
     b \<leftarrow> zl_byte zl p;
     if b = ZIP_END then Some False
     else do {
       entry \<leftarrow> zipEntry zl p;
       if ZIP_IS_STR (encoding entry) then
         (if zlen entry = length s then do {
            bs \<leftarrow> mem_read zl (p + headersize entry) (length s);
            Some (bs = s)
          }
          else Some False)
       else
         (case zipTryEncoding s of
            Some (sval, _) \<Rightarrow> do {
              zval \<leftarrow> zipLoadInteger zl (p + headersize entry) (encoding entry);
              Some (zval = sval)
            }
          | None \<Rightarrow> Some False)
     }
   }"

lemma zl_byte_less [termination_simp]: "zl_byte zl p = Some b \<Longrightarrow> p < length zl"
  by (auto simp: zl_byte_def mem_read_def split: if_splits)

lemma zl_prevlensize_less [termination_simp]: "ZIP_DECODE_PREVLENSIZE zl p = Some n \<Longrightarrow> p < length zl \<and> 0 < n"
  by (auto simp: ZIP_DECODE_PREVLENSIZE_def bind_eq_Some_conv dest: zl_byte_less)

text \<open>The comparison in \<open>ziplistFind\<close> with the cached \<open>vencoding\<close> and \<open>vll\<close>: the answer and the cache.\<close>

definition find_compare :: "cmemory \<Rightarrow> nat \<Rightarrow> byte \<Rightarrow> nat \<Rightarrow> bytes \<Rightarrow> byte \<times> int \<Rightarrow> (bool \<times> byte \<times> int) option" where
  "find_compare zl q enc len vstr cache =
     (if ZIP_IS_STR enc then
        (if len = length vstr then do {
           bs \<leftarrow> mem_read zl q (length vstr);
           Some (bs = vstr, cache)
         }
         else Some (False, cache))
      else do {
        let cache =
          (if fst cache = 0 then
             (case zipTryEncoding vstr of
                Some (v, e) \<Rightarrow> (e, v)
              | None \<Rightarrow> (255, snd cache))
           else cache);
        if fst cache = 0 then None
        else if fst cache \<noteq> 255 then do {
          ll \<leftarrow> zipLoadInteger zl q enc;
          Some (ll = snd cache, cache)
        }
        else Some (False, cache)
      })"

function zlfind_loop :: "cmemory \<Rightarrow> bytes \<Rightarrow> nat \<Rightarrow> nat \<Rightarrow> nat \<Rightarrow> byte \<times> int \<Rightarrow> nat option option" where
  "zlfind_loop zl vstr skip p skipcnt cache = do {
     b \<leftarrow> zl_byte zl p;
     if b = ZIP_END then Some None
     else do {
       n \<leftarrow> ZIP_DECODE_PREVLENSIZE zl p;
       (enc, ls, len) \<leftarrow> ZIP_DECODE_LENGTH zl (p + n);
       let q = p + n + ls;
       if skipcnt = 0 then do {
         (found, cache) \<leftarrow> find_compare zl q enc len vstr cache;
         if found then Some (Some p) else zlfind_loop zl vstr skip (q + len) skip cache
       }
       else zlfind_loop zl vstr skip (q + len) (skipcnt - 1) cache
     }
   }"
  by pat_completeness auto
termination
  by (relation "measure (\<lambda>(zl, vstr, skip, p, skipcnt, cache). length zl - p)") (auto dest!: zl_prevlensize_less zl_byte_less)

declare zlfind_loop.simps [simp del]

definition ziplistFind :: "cmemory \<Rightarrow> nat \<Rightarrow> bytes \<Rightarrow> nat \<Rightarrow> nat option option" where
  "ziplistFind zl p vstr skip = zlfind_loop zl vstr skip p 0 (0, 0)"

text \<open>The counting loop of \<open>ziplistLen\<close>.\<close>

partial_function (option) len_loop :: "cmemory \<Rightarrow> nat \<Rightarrow> nat \<Rightarrow> nat option" where
  "len_loop zl p len = do {
     b \<leftarrow> zl_byte zl p;
     if b = ZIP_END then Some len
     else do { n \<leftarrow> zipRawEntryLength zl p; len_loop zl (p + n) (u32 (len + 1)) }
   }"

definition ziplistLen :: "cmemory \<Rightarrow> (nat \<times> cmemory) option" where
  "ziplistLen zl = do {
     n \<leftarrow> ZIPLIST_LENGTH zl;
     if n < 65535 then Some (n, zl)
     else do {
       len \<leftarrow> len_loop zl ZIPLIST_HEADER_SIZE 0;
       zl \<leftarrow> (if len < 65535 then set_length zl (int len) else Some zl);
       Some (len, zl)
     }
   }"

definition ziplistBlobLen :: "cmemory \<Rightarrow> nat option" where
  "ziplistBlobLen zl = ZIPLIST_BYTES zl"

end
