(* ===== verification/ZiplistRep.thy ===== *)
theory ZiplistRep
  imports Ziplist
begin

text \<open>
  The bytes of a ziplist as a list of strings. \<open>zl_rep zl es\<close>: the cells of \<open>zl\<close> are the header, the
  entries of the strings \<open>es\<close> and the end byte, where each string comes with a flag that says whether
  the length field in front of its entry is a long one. The theory proves the round trip of the entry
  encodings and that the reading operations do on the cells what they say on the list.
\<close>

unbundle bit_operations_syntax

section \<open>Bytes at a position\<close>

definition zl_at :: "cmemory \<Rightarrow> nat \<Rightarrow> bytes \<Rightarrow> bool" where
  "zl_at zl p bs \<longleftrightarrow> take (length bs) (drop p zl) = map Some bs"

lemma zl_at_append [simp]: "zl_at zl p (a @ b) \<longleftrightarrow> zl_at zl p a \<and> zl_at zl (p + length a) b"
proof -
  have t: "take (length (a @ b)) (drop p zl) = take (length a) (drop p zl) @ take (length b) (drop (p + length a) zl)"
    by (simp add: take_add add.commute)
  show ?thesis
  proof
    assume l: "zl_at zl p (a @ b)"
    then have "length (take (length (a @ b)) (drop p zl)) = length a + length b" unfolding zl_at_def by (metis length_append length_map)
    then have "length (take (length a) (drop p zl)) = length (map Some a)" by simp
    with l show "zl_at zl p a \<and> zl_at zl (p + length a) b" unfolding zl_at_def t map_append by simp
  qed (simp add: zl_at_def t [simplified])
qed

lemma zl_at_here [simp]: "length A = p \<Longrightarrow> zl_at (A @ map Some bs @ C) p bs"
  by (auto simp: zl_at_def)

lemma zl_at_Cons: "zl_at zl p (b # bs) \<longleftrightarrow> zl_at zl p [b] \<and> zl_at zl (Suc p) bs"
  using zl_at_append [of zl p "[b]" bs] by simp

lemma zl_at_tl: "zl_at zl p (b # bs) \<Longrightarrow> zl_at zl (Suc p) bs"
  using zl_at_Cons [of zl p b bs] by blast

lemma zl_at_read: "zl_at zl p bs \<Longrightarrow> bs \<noteq> [] \<Longrightarrow> length bs = n \<Longrightarrow> mem_read zl p n = Some bs"
proof -
  assume a: "zl_at zl p bs" "bs \<noteq> []" "length bs = n"
  then have "length (take (length bs) (drop p zl)) = length bs" by (simp add: zl_at_def)
  with a have "p + length bs \<le> length zl" by (cases "p \<le> length zl") auto
  with a show ?thesis by (auto simp: zl_at_def mem_read_def)
qed

lemma zl_at_byte: "zl_at zl p (b # bs) \<Longrightarrow> zl_byte zl p = Some b"
  using zl_at_read [of zl p "[b]" 1] by (simp add: zl_at_Cons [of zl p b bs] zl_byte_def)

section \<open>Round trip of the entry encodings\<close>

lemma byte_range: "list_all (\<lambda>n. P (of_nat n)) [a..<b] \<Longrightarrow> a \<le> unat x \<Longrightarrow> unat x < b \<Longrightarrow> P (x :: byte)"
proof -
  assume a: "list_all (\<lambda>n. P (of_nat n)) [a..<b]" "a \<le> unat x" "unat x < b"
  then have "unat x \<in> set [a..<b]" by simp
  with a(1) have "P (of_nat (unat x))" unfolding list_all_iff by blast
  then show ?thesis by simp
qed

lemma mask6_table:
  "list_all (\<lambda>n. (of_nat n :: byte) AND 192 = 0 \<and> of_nat n AND 63 = (of_nat n :: byte) \<and> 64 OR of_nat n < (192 :: byte) \<and>
      (64 OR of_nat n) AND 192 = (64 :: byte) \<and> (64 OR of_nat n) AND 63 = (of_nat n :: byte)) [0..<64]"
  by code_simp

lemma mask6: "n < 64 \<Longrightarrow> (of_nat n :: byte) AND 192 = 0 \<and> of_nat n AND 63 = (of_nat n :: byte) \<and> 64 OR of_nat n < (192 :: byte) \<and>
      (64 OR of_nat n) AND 192 = (64 :: byte) \<and> (64 OR of_nat n) AND 63 = (of_nat n :: byte)"
  using mask6_table unfolding list_all_iff by simp

lemma unat_byte [simp]: "unat (of_nat n :: byte) = n mod 256"
  by (simp add: unat_of_nat)

text \<open>Integer encodings: the first byte tells the size, and is not the one of a string.\<close>

definition int_encoding :: "byte \<Rightarrow> bool" where
  "int_encoding e \<longleftrightarrow> e = ZIP_INT_8B \<or> e = ZIP_INT_16B \<or> e = ZIP_INT_24B \<or> e = ZIP_INT_32B \<or> e = ZIP_INT_64B \<or>
     (ZIP_INT_IMM_MIN \<le> e \<and> e \<le> ZIP_INT_IMM_MAX)"

lemma imm_table: "list_all (\<lambda>n. \<not> ZIP_IS_STR (of_nat n)) [241..<254]"
  by code_simp

lemma int_encodingD: "int_encoding e \<Longrightarrow> \<not> e < 192 \<and> \<not> ZIP_IS_STR e \<and> e \<noteq> 0 \<and> e \<noteq> 255"
  using byte_range [OF imm_table, of e]
  by (auto simp: int_encoding_def ZIP_IS_STR_def word_le_nat_alt word_less_nat_alt)

lemma is_str_0 [simp]: "ZIP_IS_STR 0" by (simp add: ZIP_IS_STR_def)

lemma imm_encoding: "0 \<le> v \<Longrightarrow> v \<le> 12 \<Longrightarrow>
    int_encoding (ZIP_INT_IMM_MIN + word_of_int v) \<and> uint ((ZIP_INT_IMM_MIN + word_of_int v :: byte) AND 15) = v + 1 \<and>
    ZIP_INT_IMM_MIN + word_of_int v \<noteq> ZIP_INT_8B \<and> ZIP_INT_IMM_MIN + word_of_int v \<noteq> ZIP_INT_24B \<and>
    (ZIP_INT_IMM_MIN + word_of_int v :: byte) \<notin> {192, 208, 224}"
proof -
  assume "0 \<le> v" "v \<le> 12"
  then have "v \<in> set [0..12]" by simp
  moreover have "list_all (\<lambda>v. int_encoding (ZIP_INT_IMM_MIN + word_of_int v) \<and> uint ((ZIP_INT_IMM_MIN + word_of_int v :: byte) AND 15) = v + 1 \<and>
    ZIP_INT_IMM_MIN + word_of_int v \<noteq> ZIP_INT_8B \<and> ZIP_INT_IMM_MIN + word_of_int v \<noteq> ZIP_INT_24B \<and>
    (ZIP_INT_IMM_MIN + word_of_int v :: byte) \<notin> {192, 208, 224}) [0..12]" by code_simp
  ultimately show ?thesis unfolding list_all_iff by blast
qed

lemma zipTryEncoding_int:
  "zipTryEncoding s = Some (v, e) \<Longrightarrow> string2ll s = Some v \<and> int_encoding e \<and>
     (\<exists>bs. zipSaveInteger v e = Some bs \<and> length bs = zipIntSize e)"
  using imm_encoding [of v]
  by (auto simp: zipTryEncoding_def int_encoding_def zipSaveInteger_def zipIntSize_def split: if_splits option.splits)

lemma save_24: "0 # drop 1 (le_enc 4 (v * 256)) = le_enc 4 (v * 256)"
proof -
  have "(word_of_int (v * 256) :: byte) = 0" unfolding word_uint_eq_iff by (simp add: uint_word_of_int del: of_int_mult)
  then show ?thesis by (simp add: numeral_eq_Suc)
qed

lemma zipLoadInteger_save:
  assumes t: "zipTryEncoding s = Some (v, e)" and b: "zipSaveInteger v e = Some bs" and at: "zl_at zl p bs"
  shows "zipLoadInteger zl p e = Some v"
proof -
  have i: "int64 v" using t string2ll_eq [of s v] by (auto simp: zipTryEncoding_def split: if_splits option.splits)
  have r: "mem_read zl p (length bs) = Some bs" if "bs \<noteq> []" using zl_at_read [OF at that] by simp
  note S = le_sdec_enc [of 1 v] le_sdec_enc [of 2 v] le_sdec_enc [of 4 v] le_sdec_enc [of 8 v] le_sdec_enc [of 4 "v * 256"]
  note R = r i imm_encoding [of v] save_24 [of v] S
  have ne: "le_enc 1 v \<noteq> []" "le_enc 2 v \<noteq> []" "le_enc 4 v \<noteq> []" "le_enc 8 v \<noteq> []" "drop 1 (le_enc 4 (v * 256)) \<noteq> []"
    using length_le_enc [of 1 v] length_le_enc [of 2 v] length_le_enc [of 4 v] length_le_enc [of 8 v] length_le_enc [of 4 "v * 256"]
    by (auto simp del: length_le_enc)
  consider "0 \<le> v \<and> v \<le> 12" "e = ZIP_INT_IMM_MIN + word_of_int v"
    | "\<not> (0 \<le> v \<and> v \<le> 12)" "- 128 \<le> v \<and> v \<le> 127" "e = ZIP_INT_8B"
    | "INT16_MIN \<le> v \<and> v \<le> INT16_MAX" "e = ZIP_INT_16B"
    | "INT24_MIN \<le> v \<and> v \<le> INT24_MAX" "e = ZIP_INT_24B"
    | "INT32_MIN \<le> v \<and> v \<le> INT32_MAX" "e = ZIP_INT_32B"
    | "e = ZIP_INT_64B"
    using t by (auto simp: zipTryEncoding_def split: if_splits option.splits)
  then show ?thesis
  proof cases
    case 1
    then have "int_encoding e \<and> uint (e AND 15) = v + 1 \<and> e \<noteq> ZIP_INT_8B \<and> e \<noteq> ZIP_INT_24B \<and> e \<notin> {192, 208, 224}"
      using imm_encoding [of v] unfolding 1(2) by blast
    then show ?thesis by (auto simp: zipLoadInteger_def int_encoding_def)
  next
    case 2
    then show ?thesis using b r S(1) ne by (auto simp add: zipLoadInteger_def zipSaveInteger_def fits_bytes_def)
  next
    case 3
    then show ?thesis using b r S(2) ne by (auto simp add: zipLoadInteger_def zipSaveInteger_def fits_bytes_def)
  next
    case 4
    then have "bs = drop 1 (le_enc 4 (v * 256))" using b by (simp add: zipSaveInteger_def)
    then have "mem_read zl p 3 = Some bs" "0 # bs = le_enc 4 (v * 256)" using r ne save_24 by simp_all
    moreover have "le_sdec (le_enc 4 (v * 256)) = v * 256" using S(5) 4 by (simp add: fits_bytes_def)
    ultimately show ?thesis using 4 by (simp add: zipLoadInteger_def)
  next
    case 5
    then show ?thesis using b r S(3) ne by (auto simp add: zipLoadInteger_def zipSaveInteger_def fits_bytes_def)
  next
    case 6
    then show ?thesis using b r S(4) ne i by (auto simp add: zipLoadInteger_def zipSaveInteger_def fits_bytes_def int64_def)
  qed
qed

text \<open>An entry without its first field, and what decoding it gives.\<close>

definition payload :: "bytes \<Rightarrow> bytes" where
  "payload s =
     (case zipTryEncoding s of
        Some (v, e) \<Rightarrow> e # the (zipSaveInteger v e)
      | None \<Rightarrow> zipEncodeLength 0 (length s) @ s)"

definition pl_enc :: "bytes \<Rightarrow> byte" where
  "pl_enc s =
     (case zipTryEncoding s of
        Some (v, e) \<Rightarrow> e
      | None \<Rightarrow> if length s \<le> 63 then ZIP_STR_06B else if length s \<le> 16383 then ZIP_STR_14B else ZIP_STR_32B)"

definition pl_lensize :: "bytes \<Rightarrow> nat" where
  "pl_lensize s =
     (case zipTryEncoding s of
        Some (v, e) \<Rightarrow> 1
      | None \<Rightarrow> if length s \<le> 63 then 1 else if length s \<le> 16383 then 2 else 5)"

definition pl_len :: "bytes \<Rightarrow> nat" where
  "pl_len s = (case zipTryEncoding s of Some (v, e) \<Rightarrow> zipIntSize e | None \<Rightarrow> length s)"

lemma length_payload: "length (payload s) = pl_lensize s + pl_len s"
  by (auto simp: payload_def pl_lensize_def pl_len_def zipEncodeLength_def split: option.split dest: zipTryEncoding_int)

lemma payload_pos [simp]: "0 < length (payload s)" "payload s \<noteq> []"
  by (auto simp: payload_def zipEncodeLength_def split: option.split)

lemma be4: "n < 4294967296 \<Longrightarrow> n div 16777216 * 16777216 + n div 65536 mod 256 * 65536 + n div 256 mod 256 * 256 + n mod 256 = (n :: nat)"
proof -
  assume "n < 4294967296"
  have d: "n div 65536 = n div 256 div 256" "n div 16777216 = n div 256 div 256 div 256" by (simp_all add: div_mult2_eq [symmetric])
  have e: "256 * (n div 256) + n mod 256 = n" "256 * (n div 256 div 256) + n div 256 mod 256 = n div 256"
    "256 * (n div 256 div 256 div 256) + n div 256 div 256 mod 256 = n div 256 div 256"
    by (rule mult_div_mod_eq)+
  show ?thesis unfolding d using e by linarith
qed

lemma zl_at_bytes5:
  "zl_at zl p [a, b, c, d, e] \<Longrightarrow> zl_byte zl p = Some a \<and> zl_byte zl (p + 1) = Some b \<and> zl_byte zl (p + 2) = Some c \<and>
     zl_byte zl (p + 3) = Some d \<and> zl_byte zl (p + 4) = Some e"
proof -
  assume "zl_at zl p [a, b, c, d, e]"
  then have "zl_at zl p [a] \<and> zl_at zl (Suc p) [b] \<and> zl_at zl (Suc (Suc p)) [c] \<and> zl_at zl (Suc (Suc (Suc p))) [d] \<and>
      zl_at zl (Suc (Suc (Suc (Suc p)))) [e]"
    by (metis zl_at_Cons)
  moreover have e: "p + 1 = Suc p" "p + 2 = Suc (Suc p)" "p + 3 = Suc (Suc (Suc p))" "p + 4 = Suc (Suc (Suc (Suc p)))" by simp_all
  ultimately show ?thesis unfolding e by (auto dest: zl_at_byte)
qed

lemma ZIP_DECODE_LENGTH_payload:
  assumes at: "zl_at zl p (payload s)" and l: "length s < 4294967296"
  shows "ZIP_DECODE_LENGTH zl p = Some (pl_enc s, pl_lensize s, pl_len s)"
proof (cases "zipTryEncoding s")
  case (Some ve)
  then obtain v e where ve: "zipTryEncoding s = Some (v, e)" by (cases ve) auto
  have "zl_byte zl p = Some e" using at ve by (auto simp: payload_def intro: zl_at_byte)
  moreover have "int_encoding e" using zipTryEncoding_int [OF ve] by blast
  ultimately show ?thesis using ve int_encodingD [of e] by (simp add: ZIP_DECODE_LENGTH_def pl_enc_def pl_lensize_def pl_len_def)
next
  case None
  then have at': "zl_at zl p (zipEncodeLength 0 (length s))" using at by (simp add: payload_def)
  consider "length s \<le> 63" | "63 < length s" "length s \<le> 16383" | "16383 < length s" by linarith
  then show ?thesis
  proof cases
    case 1
    then have "zl_byte zl p = Some (of_nat (length s))" using at' by (auto simp: zipEncodeLength_def intro: zl_at_byte)
    then show ?thesis using None 1 mask6 [of "length s"]
      by (simp add: ZIP_DECODE_LENGTH_def pl_enc_def pl_lensize_def pl_len_def word_less_nat_alt)
  next
    case 2
    let ?h = "of_nat (length s div 256) :: byte"
    have h: "length s div 256 < 64" using 2 by simp
    note m = mask6 [OF h]
    have "zl_byte zl p = Some (64 OR ?h)" "zl_byte zl (p + 1) = Some (of_nat (length s))"
      using at' 2 m by (auto simp: zipEncodeLength_def zl_at_Cons [of _ _ _ "[_]"] intro: zl_at_byte)
    then show ?thesis using None 2 m h
      by (simp add: ZIP_DECODE_LENGTH_def pl_enc_def pl_lensize_def pl_len_def)
  next
    case 3
    have "zl_byte zl p = Some 128" "zl_byte zl (p + 1) = Some (of_nat (length s div 16777216))"
      "zl_byte zl (p + 2) = Some (of_nat (length s div 65536))" "zl_byte zl (p + 3) = Some (of_nat (length s div 256))"
      "zl_byte zl (p + 4) = Some (of_nat (length s))"
      using at' 3 zl_at_bytes5 by (simp_all add: zipEncodeLength_def)
    moreover have "length s div 16777216 mod 256 = length s div 16777216" using l by (intro mod_less) linarith
    ultimately show ?thesis using None 3 be4 [OF l]
      by (simp add: ZIP_DECODE_LENGTH_def pl_enc_def pl_lensize_def pl_len_def)
  qed
qed

section \<open>Lists of entries\<close>

text \<open>An entry is a string and a flag for a long length field in front of it.\<close>

type_synonym zent = "bool \<times> bytes"

definition prev_size :: "bool \<Rightarrow> nat" where
  "prev_size big = (if big then 5 else 1)"

definition prev_field :: "bool \<Rightarrow> nat \<Rightarrow> bytes" where
  "prev_field big n = (if big then zipPrevEncodeLengthForceLarge n else [of_nat n])"

definition prev_ok :: "bool \<Rightarrow> nat \<Rightarrow> bool" where
  "prev_ok big n \<longleftrightarrow> n < 4294967296 \<and> (big \<or> n < ZIP_BIGLEN)"

definition entry_len :: "zent \<Rightarrow> nat" where
  "entry_len e = prev_size (fst e) + length (payload (snd e))"

fun entries :: "nat \<Rightarrow> zent list \<Rightarrow> bytes" where
  "entries prev [] = []"
| "entries prev (e # es) = prev_field (fst e) prev @ payload (snd e) @ entries (entry_len e) es"

fun zl_entries_ok :: "nat \<Rightarrow> zent list \<Rightarrow> bool" where
  "zl_entries_ok prev [] = True"
| "zl_entries_ok prev (e # es) = (prev_ok (fst e) prev \<and> zl_entries_ok (entry_len e) es)"

definition last_len :: "nat \<Rightarrow> zent list \<Rightarrow> nat" where
  "last_len prev es = (if es = [] then prev else entry_len (last es))"

definition ent_bytes :: "zent list \<Rightarrow> nat" where
  "ent_bytes es = sum_list (map entry_len es)"

text \<open>Offset behind the entries \<open>es\<close>, of the last entry, and the header.\<close>

definition offs :: "zent list \<Rightarrow> nat" where
  "offs es = ZIPLIST_HEADER_SIZE + ent_bytes es"

definition tail_off :: "zent list \<Rightarrow> nat" where
  "tail_off es = offs (butlast es)"

definition hdr :: "nat \<Rightarrow> nat \<Rightarrow> nat \<Rightarrow> cmemory" where
  "hdr n t c = map Some (le_enc 4 (int n) @ le_enc 4 (int t) @ le_enc 2 (int c))"

text \<open>The counter is exact or stuck at its greatest value.\<close>

definition cnt_ok :: "nat \<Rightarrow> nat \<Rightarrow> bool" where
  "cnt_ok c n \<longleftrightarrow> c = 65535 \<or> (c = n \<and> n < 65535)"

definition zl_rep :: "cmemory \<Rightarrow> zent list \<Rightarrow> bool" where
  "zl_rep zl es \<longleftrightarrow>
     (\<exists>c. cnt_ok c (length es) \<and> zl = hdr (offs es + 1) (tail_off es) c @ map Some (entries 0 es @ [ZIP_END])) \<and>
     zl_entries_ok 0 es \<and> offs es + 1 < 4294967296"

lemma length_prev_field [simp]: "length (prev_field b n) = prev_size b"
  by (simp add: prev_field_def prev_size_def zipPrevEncodeLengthForceLarge_def)

lemma prev_field_ne [simp]: "prev_field b n \<noteq> []"
  by (simp add: prev_field_def zipPrevEncodeLengthForceLarge_def)

lemma length_hdr [simp]: "length (hdr t l c) = 10"
  by (simp add: hdr_def)

lemma entry_len_pos [simp]: "0 < entry_len e" "entry_len e \<noteq> 0"
  by (simp_all add: entry_len_def)

lemma ent_bytes_simps [simp]:
  "ent_bytes [] = 0" "ent_bytes (e # es) = entry_len e + ent_bytes es" "ent_bytes (es @ es') = ent_bytes es + ent_bytes es'"
  by (simp_all add: ent_bytes_def)

lemma offs_simps [simp]:
  "offs [] = 10" "offs (e # es) = entry_len e + offs es" "offs (es @ es') = offs es + ent_bytes es'"
  by (simp_all add: offs_def)

lemma length_entries [simp]: "length (entries prev es) = ent_bytes es"
  by (induction es arbitrary: prev) (simp_all add: entry_len_def)

lemma last_len_simps [simp]: "last_len prev [] = prev" "last_len prev (e # es) = last_len (entry_len e) es"
  "last_len prev (es @ [e]) = entry_len e"
  by (simp_all add: last_len_def)

lemma entries_append [simp]: "entries prev (es @ es') = entries prev es @ entries (last_len prev es) es'"
  by (induction es arbitrary: prev) simp_all

lemma zl_entries_ok_append [simp]: "zl_entries_ok prev (es @ es') \<longleftrightarrow> zl_entries_ok prev es \<and> zl_entries_ok (last_len prev es) es'"
  by (induction es arbitrary: prev) simp_all

lemma length_string_payload: "length s \<le> 31 + length (payload s)"
proof (cases "zipTryEncoding s")
  case (Some ve)
  then show ?thesis by (auto simp: zipTryEncoding_def split: if_splits)
qed (simp add: payload_def)

text \<open>Small lengths in five bytes are what \<open>zipPrevEncodeLengthForceLarge\<close> writes, others what
  \<open>zipPrevEncodeLength\<close> writes.\<close>

lemma zipPrevEncodeLength_field: "zipPrevEncodeLength n = prev_field (254 \<le> n) n"
  by (simp add: zipPrevEncodeLength_def prev_field_def zipPrevEncodeLengthForceLarge_def)

lemma prev_field_byte: "zl_at zl p (prev_field b n) \<Longrightarrow> prev_ok b n \<Longrightarrow> zl_byte zl p = Some (if b then 254 else of_nat n)"
  by (auto simp: prev_field_def zipPrevEncodeLengthForceLarge_def dest: zl_at_byte)

lemma small_byte: "n < 254 \<Longrightarrow> (of_nat n :: byte) \<noteq> 255"
  using unat_byte [of n] by (auto simp: word_unat_eq_iff)

section \<open>Reading entries and the header\<close>

definition ent_at :: "cmemory \<Rightarrow> nat \<Rightarrow> nat \<Rightarrow> zent \<Rightarrow> bool" where
  "ent_at zl p prev e \<longleftrightarrow> zl_at zl p (prev_field (fst e) prev @ payload (snd e)) \<and> prev_ok (fst e) prev \<and>
     entry_len e < 4294967296 \<and> length (snd e) < 4294967296"

lemma ent_at_byte: "ent_at zl p prev e \<Longrightarrow> \<exists>b. zl_byte zl p = Some b \<and> b \<noteq> ZIP_END \<and> (unat b < 254) = (\<not> fst e)"
  using small_byte [of prev] prev_field_byte [of zl p "fst e" prev] by (cases "fst e") (auto simp: ent_at_def prev_ok_def)

lemma ent_at_prevlensize: "ent_at zl p prev e \<Longrightarrow> ZIP_DECODE_PREVLENSIZE zl p = Some (prev_size (fst e))"
  using ent_at_byte [of zl p prev e] by (auto simp: ZIP_DECODE_PREVLENSIZE_def prev_size_def)

lemma ent_at_prevlen: "ent_at zl p prev e \<Longrightarrow> ZIP_DECODE_PREVLEN zl p = Some (prev_size (fst e), prev)"
proof -
  assume a: "ent_at zl p prev e"
  note n = ent_at_prevlensize [OF a]
  have f: "zl_at zl p (prev_field (fst e) prev)" and ok: "prev_ok (fst e) prev" using a by (simp_all add: ent_at_def)
  show ?thesis
  proof (cases "fst e")
    case True
    have "zl_at zl (Suc p) (le_enc 4 (int prev))"
      using f True by (auto simp: prev_field_def zipPrevEncodeLengthForceLarge_def dest: zl_at_tl)
    moreover have "le_enc 4 (int prev) \<noteq> []" using length_le_enc [of 4 "int prev"] by (auto simp del: length_le_enc)
    ultimately have "mem_read zl (Suc p) 4 = Some (le_enc 4 (int prev))" by (intro zl_at_read) simp_all
    moreover have "nat (le_dec (le_enc 4 (int prev))) = prev" using ok by (simp add: le_dec_enc prev_ok_def)
    ultimately show ?thesis using n True by (simp add: ZIP_DECODE_PREVLEN_def prev_size_def)
  next
    case False
    then show ?thesis using n prev_field_byte [OF f ok] ok by (simp add: ZIP_DECODE_PREVLEN_def prev_size_def prev_ok_def)
  qed
qed

lemma ent_at_length: "ent_at zl p prev e \<Longrightarrow> ZIP_DECODE_LENGTH zl (p + prev_size (fst e)) = Some (pl_enc (snd e), pl_lensize (snd e), pl_len (snd e))"
  by (intro ZIP_DECODE_LENGTH_payload) (simp_all add: ent_at_def)

lemma ent_at_raw: "ent_at zl p prev e \<Longrightarrow> zipRawEntryLength zl p = Some (entry_len e)"
  using ent_at_prevlensize [of zl p prev e] ent_at_length [of zl p prev e] length_payload [of "snd e"]
  by (simp add: zipRawEntryLength_def entry_len_def ent_at_def add.assoc)

definition zl_entry_of :: "nat \<Rightarrow> zent \<Rightarrow> zlentry" where
  "zl_entry_of prev e =
     \<lparr>prevrawlensize = prev_size (fst e), prevrawlen = prev, lensize = pl_lensize (snd e), zlen = pl_len (snd e),
      headersize = prev_size (fst e) + pl_lensize (snd e), encoding = pl_enc (snd e)\<rparr>"

lemma ent_at_entry: "ent_at zl p prev e \<Longrightarrow> zipEntry zl p = Some (zl_entry_of prev e)"
  using ent_at_prevlen [of zl p prev e] ent_at_length [of zl p prev e] by (simp add: zipEntry_def zl_entry_of_def)

lemma zl_entry_of_len [simp]: "headersize (zl_entry_of prev e) + zlen (zl_entry_of prev e) = entry_len e"
  by (simp add: zl_entry_of_def entry_len_def length_payload)

lemma zl_entry_of_simps [simp]:
  "prevrawlen (zl_entry_of prev e) = prev" "prevrawlensize (zl_entry_of prev e) = prev_size (fst e)"
  by (simp_all add: zl_entry_of_def)

lemma le_dec_nat: "int n < 256 ^ k \<Longrightarrow> nat (le_dec (le_enc k (int n))) = n"
  by (simp add: le_dec_enc)

lemma hdr_read [simp]:
  "n < 4294967296 \<Longrightarrow> ZIPLIST_BYTES (hdr n t c @ m) = Some n"
  "t < 4294967296 \<Longrightarrow> ZIPLIST_TAIL_OFFSET (hdr n t c @ m) = Some t"
  "c < 65536 \<Longrightarrow> ZIPLIST_LENGTH (hdr n t c @ m) = Some c"
proof -
  have a: "zl_at (hdr n t c @ m) 0 (le_enc 4 (int n) @ le_enc 4 (int t) @ le_enc 2 (int c))"
    unfolding hdr_def zl_at_def by simp
  have ne: "le_enc 4 x \<noteq> []" "le_enc 2 x \<noteq> []" for x
    using length_le_enc [of 4 x] length_le_enc [of 2 x] by (auto simp del: length_le_enc)
  from a show "n < 4294967296 \<Longrightarrow> ZIPLIST_BYTES (hdr n t c @ m) = Some n"
    using zl_at_read [of _ 0 "le_enc 4 (int n)" 4] ne by (simp add: ZIPLIST_BYTES_def le_dec_nat)
  from a show "t < 4294967296 \<Longrightarrow> ZIPLIST_TAIL_OFFSET (hdr n t c @ m) = Some t"
    using zl_at_read [of _ 4 "le_enc 4 (int t)" 4] ne by (simp add: ZIPLIST_TAIL_OFFSET_def le_dec_nat)
  from a show "c < 65536 \<Longrightarrow> ZIPLIST_LENGTH (hdr n t c @ m) = Some c"
    using zl_at_read [of _ 8 "le_enc 2 (int c)" 2] ne by (simp add: ZIPLIST_LENGTH_def le_dec_nat)
qed

lemma hdr_write [simp]:
  "set_bytes (hdr n t c @ m) (int n') = Some (hdr n' t c @ m)"
  "set_tail (hdr n t c @ m) (int t') = Some (hdr n t' c @ m)"
  "set_length (hdr n t c @ m) (int c') = Some (hdr n t c' @ m)"
  by (simp_all add: set_bytes_def set_tail_def set_length_def hdr_def mem_write_def)

section \<open>Reading operations on a represented list\<close>

lemma length_string: "length s \<le> max 31 (length (payload s))"
proof (cases "zipTryEncoding s")
  case (Some ve)
  then show ?thesis by (auto simp: zipTryEncoding_def split: if_splits)
qed (simp add: payload_def)

lemma rep_entries_ok: "zl_rep zl es \<Longrightarrow> zl_entries_ok 0 es"
  by (simp add: zl_rep_def)

lemma ent_at_split:
  assumes "zl_at zl p (entries prev (e # es))" and "zl_entries_ok prev (e # es)" and "entry_len e < 4294967296"
  shows "ent_at zl p prev e" and "zl_at zl (p + entry_len e) (entries (entry_len e) es)"
proof -
  have "length (snd e) < 4294967296" using length_string [of "snd e"] assms(3) by (auto simp: entry_len_def max_def split: if_splits)
  then show "ent_at zl p prev e" using assms by (simp add: ent_at_def)
  show "zl_at zl (p + entry_len e) (entries (entry_len e) es)" using assms(1) by (simp add: entry_len_def add.assoc)
qed

lemma rep_at: "zl_rep zl (xs @ ys) \<Longrightarrow> zl_at zl (offs xs) (entries (last_len 0 xs) ys @ [ZIP_END])"
proof -
  assume "zl_rep zl (xs @ ys)"
  then obtain n t c where zl: "zl = hdr n t c @ map Some (entries 0 (xs @ ys) @ [ZIP_END])" unfolding zl_rep_def by blast
  have "zl_at zl 10 (entries 0 (xs @ ys) @ [ZIP_END])"
    unfolding zl using zl_at_here [of "hdr n t c" 10 "entries 0 (xs @ ys) @ [ZIP_END]" "[]"]
    by (simp only: length_hdr append_Nil2 simp_thms)
  then show ?thesis by (simp add: offs_def add.assoc)
qed

lemma rep_ent: "zl_rep zl (xs @ e # ys) \<Longrightarrow> ent_at zl (offs xs) (last_len 0 xs) e"
proof -
  assume a: "zl_rep zl (xs @ e # ys)"
  then have "entry_len e < 4294967296" by (simp add: zl_rep_def)
  then show ?thesis using rep_at [OF a] rep_entries_ok [OF a] by (intro ent_at_split(1) [where es = ys]) simp_all
qed

lemma rep_end: "zl_rep zl es \<Longrightarrow> zl_byte zl (offs es) = Some ZIP_END"
  using rep_at [of zl es "[]"] by (auto intro: zl_at_byte)

lemma rep_shift: "zl_rep zl (xs @ y # ys) \<Longrightarrow> zl_rep zl ((xs @ [y]) @ ys)"
  by simp

lemma rep_byte: "zl_rep zl (xs @ e # ys) \<Longrightarrow> \<exists>b. zl_byte zl (offs xs) = Some b \<and> b \<noteq> ZIP_END"
  using ent_at_byte [OF rep_ent] by blast

lemma rep_raw: "zl_rep zl (xs @ e # ys) \<Longrightarrow> zipRawEntryLength zl (offs xs) = Some (entry_len e)"
  using ent_at_raw [OF rep_ent] .

lemma rep_header:
  "zl_rep zl es \<Longrightarrow> ZIPLIST_BYTES zl = Some (offs es + 1) \<and> ZIPLIST_TAIL_OFFSET zl = Some (tail_off es) \<and>
     (\<exists>c. cnt_ok c (length es) \<and> ZIPLIST_LENGTH zl = Some c)"
proof -
  assume "zl_rep zl es"
  then obtain c where c: "cnt_ok c (length es)" "zl = hdr (offs es + 1) (tail_off es) c @ map Some (entries 0 es @ [ZIP_END])"
    "offs es + 1 < 4294967296" unfolding zl_rep_def by blast
  have "offs (butlast es) \<le> offs es" by (cases es rule: rev_cases) auto
  then have "tail_off es < 4294967296" using c(3) by (simp add: tail_off_def)
  moreover have "c < 65536" using c(1) by (auto simp: cnt_ok_def)
  ultimately show ?thesis using c by simp
qed

lemma index_forward_ok:
  "zl_rep zl (xs @ ys) \<Longrightarrow> index_forward zl (offs xs) i =
     Some (if i < length ys then (offs (xs @ take i ys), - 1) else (offs (xs @ ys), int (i - length ys)))"
proof (induction ys arbitrary: xs i)
  case Nil
  then show ?case using rep_end [of zl xs] by (cases i) simp_all
next
  case (Cons y ys)
  show ?case
  proof (cases i)
    case 0
    then show ?thesis using rep_byte [OF Cons.prems] by auto
  next
    case (Suc j)
    have "offs (xs @ [y]) = offs xs + entry_len y" by simp
    then show ?thesis
      using Cons.IH [OF rep_shift [OF Cons.prems], of j] rep_byte [OF Cons.prems] rep_raw [OF Cons.prems] Suc by auto
  qed
qed

lemma last_len_pos: "last_len 0 xs = 0 \<longleftrightarrow> xs = []"
  by (auto simp: last_len_def)

lemma index_back_ok:
  "zl_rep zl (xs @ e # ys) \<Longrightarrow> index_back zl (offs xs) (last_len 0 xs) i =
     Some (if i \<le> length xs then (offs (take (length xs - i) xs), if i < length xs then - 1 else 0) else (offs [], int (i - length xs)))"
proof (induction xs arbitrary: e ys i rule: rev_induct)
  case Nil
  then show ?case by (cases i) simp_all
next
  case (snoc x xs)
  have z: "zl_rep zl (xs @ x # e # ys)" using snoc.prems by simp
  show ?case
  proof (cases i)
    case (Suc j)
    then show ?thesis using snoc.IH [OF z, of j] ent_at_prevlen [OF rep_ent [OF z]] by (auto simp: Suc_diff_le)
  qed simp
qed

lemma ziplistIndex_ok:
  assumes r: "zl_rep zl es" and i: "INT32_MIN < i"
  shows "ziplistIndex zl i =
     Some (if 0 \<le> i \<and> i < int (length es) then Some (offs (take (nat i) es))
           else if i < 0 \<and> - i \<le> int (length es) then Some (offs (take (length es - nat (- i)) es))
           else None)"
proof (cases "0 \<le> i")
  case True
  have f: "index_forward zl 10 (nat i) = Some (if nat i < length es then (offs (take (nat i) es), - 1) else (offs es, int (nat i - length es)))"
    using index_forward_ok [of zl "[]" es "nat i"] r by simp
  show ?thesis
  proof (cases "nat i < length es")
    case l: True
    then have "zl_rep zl (take (nat i) es @ es ! nat i # drop (Suc (nat i)) es)" using r by (simp add: id_take_nth_drop [symmetric])
    then show ?thesis using f l True rep_byte by (fastforce simp: ziplistIndex_def)
  next
    case False
    then show ?thesis using f True rep_end [OF r] by (simp add: ziplistIndex_def)
  qed
next
  case neg: False
  note h = rep_header [OF r]
  show ?thesis
  proof (cases es rule: rev_cases)
    case Nil
    then show ?thesis using neg i h rep_end [OF r] by (simp add: ziplistIndex_def tail_off_def)
  next
    case (snoc xs e)
    then have z: "zl_rep zl (xs @ e # [])" using r by simp
    obtain b where b: "zl_byte zl (offs xs) = Some b" "b \<noteq> ZIP_END" using rep_byte [OF z] by blast
    have k: "index_back zl (offs xs) (last_len 0 xs) (nat (- i - 1)) =
        Some (if nat (- i - 1) \<le> length xs then (offs (take (length xs - nat (- i - 1)) xs), if nat (- i - 1) < length xs then - 1 else 0)
              else (offs [], int (nat (- i - 1) - length xs)))"
      using index_back_ok [OF z] .
    have t: "ZIPLIST_TAIL_OFFSET zl = Some (offs xs)" using h snoc by (simp add: tail_off_def)
    note p = ent_at_prevlen [OF rep_ent [OF z]]
    show ?thesis
    proof (cases "nat (- i - 1) \<le> length xs")
      case le: True
      let ?k = "length xs - nat (- i - 1)"
      have "es = take ?k es @ es ! ?k # drop (Suc ?k) es" using snoc le by (intro id_take_nth_drop) simp
      then have "zl_rep zl (take ?k es @ es ! ?k # drop (Suc ?k) es)" using r by simp
      then obtain b' where "zl_byte zl (offs (take ?k es)) = Some b'" "b' \<noteq> ZIP_END" using rep_byte by blast
      moreover have "take ?k es = take ?k xs" using snoc by simp
      moreover have "length es - nat (- i) = ?k" "- i \<le> int (length es)" using snoc neg le by auto
      ultimately show ?thesis using neg i le b k t p by (simp add: ziplistIndex_def Let_def)
    next
      case gt: False
      have "\<not> - i \<le> int (length es)" using snoc neg gt by auto
      moreover have "\<exists>b'. zl_byte zl 10 = Some b'"
      proof -
        have "es \<noteq> []" using snoc by simp
        then obtain y ys where "es = [] @ y # ys" by (metis append_Nil neq_Nil_conv)
        then show ?thesis using rep_byte [of zl "[]" y ys] r by auto
      qed
      ultimately show ?thesis using neg i gt b k t p by (auto simp: ziplistIndex_def Let_def)
    qed
  qed
qed

lemma ziplistNext_ok:
  assumes r: "zl_rep zl (xs @ e # ys)"
  shows "ziplistNext zl (offs xs) = Some (if ys = [] then None else Some (offs (xs @ [e])))"
proof -
  obtain b where b: "zl_byte zl (offs xs) = Some b" "b \<noteq> ZIP_END" using rep_byte [OF r] by blast
  have o: "offs (xs @ [e]) = offs xs + entry_len e" by simp
  show ?thesis
  proof (cases ys)
    case Nil
    then have "zl_byte zl (offs xs + entry_len e) = Some ZIP_END" using rep_end [OF r] by simp
    then show ?thesis using b rep_raw [OF r] Nil by (simp add: ziplistNext_def)
  next
    case (Cons y ys')
    then obtain b' where "zl_byte zl (offs xs + entry_len e) = Some b'" "b' \<noteq> ZIP_END"
      using rep_byte [of zl "xs @ [e]" y ys'] r by auto
    then show ?thesis using b rep_raw [OF r] Cons by (simp add: ziplistNext_def)
  qed
qed

lemma entry_len_le: "zl_rep zl (xs @ [e] @ ys) \<Longrightarrow> entry_len e \<le> offs (xs @ [e])"
  by simp

lemma ziplistPrev_ok:
  assumes r: "zl_rep zl (xs @ ys)"
  shows "ziplistPrev zl (offs xs) = Some (if xs = [] then None else Some (offs (butlast xs)))"
proof (cases ys)
  case Nil
  then have z: "zl_rep zl xs" using r by simp
  note h = rep_header [OF z]
  show ?thesis
  proof (cases xs rule: rev_cases)
    case Nil
    then show ?thesis using h rep_end [OF z] by (simp add: ziplistPrev_def tail_off_def)
  next
    case (snoc xs' x)
    then show ?thesis using h rep_end [OF z] rep_byte [of zl xs' x "[]"] z by (auto simp: ziplistPrev_def tail_off_def)
  qed
next
  case (Cons y ys')
  then have z: "zl_rep zl (xs @ y # ys')" using r by simp
  obtain b where b: "zl_byte zl (offs xs) = Some b" "b \<noteq> ZIP_END" using rep_byte [OF z] by blast
  show ?thesis
  proof (cases xs rule: rev_cases)
    case Nil
    then show ?thesis using b by (simp add: ziplistPrev_def)
  next
    case (snoc xs' x)
    then have "offs xs \<noteq> 10" by (simp add: offs_def)
    then show ?thesis using b ent_at_prevlen [OF rep_ent [OF z]] snoc by (simp add: ziplistPrev_def)
  qed
qed

text \<open>A string that is stored as an integer is the decimal text of it.\<close>

lemma zipTryEncoding_text: "zipTryEncoding s = Some (v, e) \<Longrightarrow> s = dec_int v"
  using zipTryEncoding_int [of s v e] string2ll_eq [of s v] by blast

lemma pl_is_str: "ZIP_IS_STR (pl_enc s) \<longleftrightarrow> zipTryEncoding s = None"
proof (cases "zipTryEncoding s")
  case None
  then show ?thesis by (simp add: pl_enc_def ZIP_IS_STR_def)
next
  case (Some ve)
  then show ?thesis using zipTryEncoding_int [of s] int_encodingD by (cases ve) (auto simp: pl_enc_def)
qed

lemma ent_at_string:
  assumes a: "ent_at zl p prev e" and n: "zipTryEncoding (snd e) = None"
  shows "mem_read zl (p + headersize (zl_entry_of prev e)) (length (snd e)) = Some (snd e)"
proof -
  have l: "length (zipEncodeLength 0 (length (snd e))) = pl_lensize (snd e)"
    using n by (simp add: pl_lensize_def zipEncodeLength_def)
  have at: "zl_at zl (p + headersize (zl_entry_of prev e)) (snd e)"
    using a n l by (simp add: ent_at_def payload_def zl_entry_of_def add.assoc)
  have "zl_at zl (p + prev_size (fst e)) (payload (snd e))" using a by (simp add: ent_at_def)
  then have "mem_read zl (p + prev_size (fst e)) (length (payload (snd e))) = Some (payload (snd e))"
    by (intro zl_at_read) simp_all
  then have "p + prev_size (fst e) + length (payload (snd e)) \<le> length zl" by (auto simp: mem_read_def split: if_splits)
  then have "p + headersize (zl_entry_of prev e) + length (snd e) \<le> length zl"
    using n by (simp add: zl_entry_of_def length_payload pl_len_def)
  then show ?thesis using at by (auto simp: zl_at_def mem_read_def)
qed

lemma ent_at_int:
  assumes a: "ent_at zl p prev e" and n: "zipTryEncoding (snd e) = Some (v, enc)"
  shows "zipLoadInteger zl (p + headersize (zl_entry_of prev e)) enc = Some v"
proof -
  obtain bs where bs: "zipSaveInteger v enc = Some bs" using zipTryEncoding_int [OF n] by blast
  have "zl_at zl (p + prev_size (fst e)) ([enc] @ bs)" using a n bs by (simp add: ent_at_def payload_def)
  then have "zl_at zl (p + headersize (zl_entry_of prev e)) bs"
    using n unfolding zl_at_append by (simp add: zl_entry_of_def pl_lensize_def)
  then show ?thesis by (rule zipLoadInteger_save [OF n bs])
qed

lemma ziplistGet_ok:
  assumes r: "zl_rep zl (xs @ e # ys)"
  shows "case zipTryEncoding (snd e) of
      Some (v, enc) \<Rightarrow> ziplistGet zl (Some (offs xs)) = Some (Some (Sval v)) \<and> snd e = dec_int v
    | None \<Rightarrow> (\<exists>q. ziplistGet zl (Some (offs xs)) = Some (Some (Sstr q (length (snd e)))) \<and> mem_read zl q (length (snd e)) = Some (snd e))"
proof -
  note a = rep_ent [OF r]
  obtain b where b: "zl_byte zl (offs xs) = Some b" "b \<noteq> ZIP_END" using rep_byte [OF r] by blast
  show ?thesis
  proof (cases "zipTryEncoding (snd e)")
    case None
    then show ?thesis using b ent_at_entry [OF a] ent_at_string [OF a None] pl_is_str [of "snd e"]
      by (simp add: ziplistGet_def zl_entry_of_def pl_len_def)
  next
    case (Some ve)
    then obtain v enc where ve: "zipTryEncoding (snd e) = Some (v, enc)" by (cases ve) auto
    then show ?thesis using b ent_at_entry [OF a] ent_at_int [OF a ve] pl_is_str [of "snd e"] zipTryEncoding_text [OF ve]
      by (simp add: ziplistGet_def zl_entry_of_def pl_enc_def)
  qed
qed

text \<open>The comparison of an entry with a text is equality of texts.\<close>

definition cache_ok :: "bytes \<Rightarrow> byte \<times> int \<Rightarrow> bool" where
  "cache_ok s cache \<longleftrightarrow> fst cache = 0 \<or>
     (case zipTryEncoding s of Some (v, enc) \<Rightarrow> cache = (enc, v) | None \<Rightarrow> fst cache = 255)"

lemma try_codes: "zipTryEncoding t = Some (v, enc) \<Longrightarrow> enc \<noteq> 0 \<and> enc \<noteq> 255"
  using zipTryEncoding_int [of t v enc] int_encodingD by blast

lemma entry_compare:
  assumes a: "ent_at zl p prev e" and c: "cache_ok s cache"
  shows "\<exists>cache'. find_compare zl (p + headersize (zl_entry_of prev e)) (pl_enc (snd e)) (pl_len (snd e)) s cache =
      Some (snd e = s, cache') \<and> cache_ok s cache'"
proof (cases "zipTryEncoding (snd e)")
  case None
  then show ?thesis using c ent_at_string [OF a None] pl_is_str [of "snd e"]
    by (intro exI [of _ cache]) (auto simp: find_compare_def pl_len_def)
next
  case (Some ve)
  then obtain w enc where ve: "zipTryEncoding (snd e) = Some (w, enc)" by (cases ve) auto
  have enc: "pl_enc (snd e) = enc" "\<not> ZIP_IS_STR enc" using ve pl_is_str [of "snd e"] by (simp_all add: pl_enc_def)
  note l = ent_at_int [OF a ve]
  show ?thesis
  proof (cases "zipTryEncoding s")
    case None
    then have "snd e \<noteq> s" using ve by auto
    then show ?thesis using None enc c by (cases "fst cache = 0") (simp_all add: find_compare_def cache_ok_def)
  next
    case (Some ve')
    then obtain w' enc' where s: "zipTryEncoding s = Some (w', enc')" by (cases ve') auto
    have "w = w' \<longleftrightarrow> snd e = s" using ve s zipTryEncoding_text by (metis option.inject prod.inject)
    then show ?thesis using s enc c l try_codes [OF s] by (cases "fst cache = 0") (simp_all add: find_compare_def cache_ok_def)
  qed
qed

lemma ziplistCompare_ok:
  assumes r: "zl_rep zl (xs @ e # ys)"
  shows "ziplistCompare zl (offs xs) s = Some (snd e = s)"
proof -
  note a = rep_ent [OF r]
  obtain b where b: "zl_byte zl (offs xs) = Some b" "b \<noteq> ZIP_END" using rep_byte [OF r] by blast
  show ?thesis
  proof (cases "zipTryEncoding (snd e)")
    case None
    then show ?thesis using b ent_at_entry [OF a] ent_at_string [OF a None] pl_is_str [of "snd e"]
      by (auto simp: ziplistCompare_def zl_entry_of_def pl_len_def)
  next
    case (Some ve)
    then obtain v enc where ve: "zipTryEncoding (snd e) = Some (v, enc)" by (cases ve) auto
    then have "zipTryEncoding s = Some (w, enc') \<Longrightarrow> v = w \<longleftrightarrow> snd e = s" for w enc'
      using zipTryEncoding_text by (metis option.inject prod.inject)
    then show ?thesis using b ve ent_at_entry [OF a] ent_at_int [OF a ve] pl_is_str [of "snd e"]
      by (auto simp: ziplistCompare_def zl_entry_of_def pl_enc_def split: option.split)
  qed
qed

text \<open>The search looks at every \<open>skip + 1\<close>st entry.\<close>

fun find_idx :: "nat \<Rightarrow> nat \<Rightarrow> bytes \<Rightarrow> bytes list \<Rightarrow> nat option" where
  "find_idx skip n v [] = None"
| "find_idx skip n v (s # ss) =
     (if n = 0 \<and> s = v then Some 0 else map_option Suc (find_idx skip (if n = 0 then skip else n - 1) v ss))"

lemma zl_find_loop_ok:
  "zl_rep zl (xs @ ys) \<Longrightarrow> cache_ok v cache \<Longrightarrow>
     zlfind_loop zl v skip (offs xs) n cache = Some (map_option (\<lambda>i. offs (xs @ take i ys)) (find_idx skip n v (map snd ys)))"
proof (induction ys arbitrary: xs n cache)
  case Nil
  then show ?case using rep_end [of zl xs] by (subst zlfind_loop.simps) simp
next
  case (Cons y ys)
  note a = rep_ent [OF Cons.prems(1)]
  note d = ent_at_byte [OF a] ent_at_prevlensize [OF a] ent_at_length [OF a]
  have o: "offs xs + prev_size (fst y) + pl_lensize (snd y) = offs xs + headersize (zl_entry_of (last_len 0 xs) y)"
    "offs xs + headersize (zl_entry_of (last_len 0 xs) y) + pl_len (snd y) = offs (xs @ [y])"
    by (simp_all add: zl_entry_of_def entry_len_def length_payload)
  obtain b where b: "zl_byte zl (offs xs) = Some b" "b \<noteq> ZIP_END" using d(1) by blast
  obtain cache' where c: "find_compare zl (offs xs + headersize (zl_entry_of (last_len 0 xs) y)) (pl_enc (snd y)) (pl_len (snd y)) v cache =
      Some (snd y = v, cache')" "cache_ok v cache'"
    using entry_compare [OF a Cons.prems(2)] by blast
  have IH: "cache_ok v cache \<Longrightarrow> zlfind_loop zl v skip (offs (xs @ [y])) m cache =
      Some (map_option (\<lambda>i. offs ((xs @ [y]) @ take i ys)) (find_idx skip m v (map snd ys)))" for m cache
    using Cons.IH [OF rep_shift [OF Cons.prems(1)]] .
  show ?case
  proof (cases "n = 0")
    case True
    then show ?thesis using b d(2,3) c IH [OF c(2), of skip]
      by (subst zlfind_loop.simps) (simp add: o Let_def option.map_comp comp_def del: offs_simps)
  next
    case False
    then show ?thesis using b d(2,3) IH [OF Cons.prems(2), of "n - 1"]
      by (subst zlfind_loop.simps) (simp add: o Let_def option.map_comp comp_def del: offs_simps)
  qed
qed

lemma find_idx_iff:
  "find_idx skip n v ss = Some i \<longleftrightarrow> i < length ss \<and> n \<le> i \<and> (i - n) mod Suc skip = 0 \<and> ss ! i = v \<and>
     (\<forall>j < i. n \<le> j \<and> (j - n) mod Suc skip = 0 \<longrightarrow> ss ! j \<noteq> v)"
proof (induction ss arbitrary: n i)
  case (Cons s ss)
  have m: "Suc k mod Suc skip = 0 \<longleftrightarrow> skip \<le> k \<and> (k - skip) mod Suc skip = 0" for k
    by (cases "skip \<le> k") (auto simp: le_mod_geq)
  show ?case
  proof (cases i)
    case 0
    then show ?thesis by auto
  next
    case (Suc k)
    have all: "(\<forall>j < Suc k. P j) \<longleftrightarrow> P 0 \<and> (\<forall>j < k. P (Suc j))" for P by (auto simp: less_Suc_eq_0_disj)
    show ?thesis
    proof (cases n)
      case 0
      show ?thesis unfolding Suc all using 0 Cons.IH [of skip k] m by (auto simp: map_option_case split: option.splits)
    next
      case (Suc n')
      show ?thesis unfolding \<open>i = Suc k\<close> all using Suc Cons.IH [of n' k] by auto
    qed
  qed
qed simp

lemma len_loop_ok:
  "zl_rep zl (xs @ ys) \<Longrightarrow> n + length ys < 4294967296 \<Longrightarrow> len_loop zl (offs xs) n = Some (n + length ys)"
proof (induction ys arbitrary: xs n)
  case Nil
  then show ?case using rep_end [of zl xs] by (subst len_loop.simps) simp
next
  case (Cons y ys)
  have "offs (xs @ [y]) = offs xs + entry_len y" by simp
  then show ?case using Cons.IH [OF rep_shift [OF Cons.prems(1)], of "Suc n"] Cons.prems(2) rep_byte [OF Cons.prems(1)] rep_raw [OF Cons.prems(1)]
    by (subst len_loop.simps) auto
qed

lemma length_le_bytes: "length es \<le> ent_bytes es"
proof (induction es)
  case (Cons e es)
  moreover have "1 \<le> entry_len e" using entry_len_pos(1) [of e] by linarith
  ultimately show ?case by simp
qed simp

lemma ziplistLen_ok:
  assumes r: "zl_rep zl es"
  shows "\<exists>zl'. ziplistLen zl = Some (length es, zl') \<and> zl_rep zl' es"
proof -
  obtain c where c: "cnt_ok c (length es)" "zl = hdr (offs es + 1) (tail_off es) c @ map Some (entries 0 es @ [ZIP_END])"
    "zl_entries_ok 0 es" "offs es + 1 < 4294967296" using r unfolding zl_rep_def by blast
  have n: "length es < 4294967296" using length_le_bytes [of es] c(4) by (simp add: offs_def)
  have "ZIPLIST_LENGTH zl = Some c" using c(1,2) by (auto simp: cnt_ok_def)
  moreover have "c \<noteq> 65535 \<Longrightarrow> c = length es \<and> c < 65535" using c(1) by (simp add: cnt_ok_def)
  moreover have "len_loop zl 10 0 = Some (length es)" using len_loop_ok [of zl "[]" es 0] r n by simp
  moreover have "length es < 65535 \<Longrightarrow> zl_rep (hdr (offs es + 1) (tail_off es) (length es) @ map Some (entries 0 es @ [ZIP_END])) es"
    using c(3,4) unfolding zl_rep_def by (intro conjI exI [of _ "length es"]) (simp_all add: cnt_ok_def)
  ultimately show ?thesis using r c(2) by (cases "c = 65535") (auto simp: ziplistLen_def)
qed

lemma ziplistNew_ok: "\<exists>zl. ziplistNew = Some zl \<and> zl_rep zl []"
proof -
  have "ziplistNew = Some (hdr 11 10 0 @ [Some ZIP_END])"
    by (simp add: ziplistNew_def set_bytes_def set_tail_def set_length_def mem_write_def hdr_def)
  moreover have "zl_rep (hdr 11 10 0 @ [Some ZIP_END]) []"
    unfolding zl_rep_def by (simp add: tail_off_def) (rule exI [of _ 0], simp add: cnt_ok_def)
  ultimately show ?thesis by blast
qed

end
