(* ===== verification/ZiplistOps.thy ===== *)
theory ZiplistOps
  imports ZiplistRep
begin

text \<open>
  The changing operations of \<^verbatim>\<open>ziplist.c\<close> on represented lists: the cascading update of the length
  fields, insertion, deletion and merging.
\<close>

section \<open>Memory moves\<close>

text \<open>A field \<open>f\<close> is replaced by a longer one, with the cells \<open>Y\<close> behind it moved into the gap \<open>g\<close>.\<close>

lemma grow_field:
  assumes "length f' = length f + length g"
  shows "do { m \<leftarrow> mem_move (X @ f @ Y @ g @ Z) (length X + length f') (length X + length f) (length Y);
              mem_write m (length X) f' } = Some (X @ map Some f' @ Y @ Z)"
  using assms by (simp add: mem_move_def mem_write_def)

lemma ziplistResize_hdr:
  assumes "mem_resize (hdr n' t c @ A) n = hdr n' t c @ B @ [x]" and "n = 10 + length B + 1"
  shows "ziplistResize (hdr n' t c @ A) n = Some (hdr n t c @ B @ [Some ZIP_END])"
proof -
  have "mem_write (hdr n t c @ B @ [x]) (n - 1) [ZIP_END] = Some (hdr n t c @ B @ [Some ZIP_END])"
    using mem_write_at [of "hdr n t c @ B" "n - 1" "[x]" "[ZIP_END]" "[]"] assms(2) by simp
  moreover have "n \<noteq> 0" using assms(2) by simp
  ultimately show ?thesis unfolding ziplistResize_def Let_def assms(1) hdr_write(1) by simp
qed

lemma resize_grow:
  assumes "n = 10 + length M + 1" and "0 < k"
  shows "ziplistResize (hdr n' t c @ M @ [z]) (n + k) = Some (hdr (n + k) t c @ M @ (z # replicate (k - 1) None) @ [Some ZIP_END])"
proof -
  obtain j where k: "k = Suc j" using assms(2) by (cases k) auto
  have "mem_resize (hdr n' t c @ M @ [z]) (n + k) = hdr n' t c @ (M @ (z # replicate j None)) @ [None]"
    using assms(1) k by (simp add: mem_resize_def replicate_append_same)
  from ziplistResize_hdr [OF this] show ?thesis using assms(1) k by simp
qed

lemma resize_shrink:
  assumes "n = 10 + length M + 1" and "R \<noteq> []"
  shows "ziplistResize (hdr n' t c @ M @ R) n = Some (hdr n t c @ M @ [Some ZIP_END])"
proof -
  obtain r R' where R: "R = r # R'" using assms(2) by (cases R) auto
  have "mem_resize (hdr n' t c @ M @ R) n = hdr n' t c @ M @ [r]" using assms(1) R by (simp add: mem_resize_def)
  from ziplistResize_hdr [OF this assms(1)] show ?thesis .
qed

section \<open>The cascading update\<close>

text \<open>Length fields are made long as far as the previous length requires.\<close>

fun fix_flags :: "nat \<Rightarrow> zent list \<Rightarrow> zent list" where
  "fix_flags l [] = []"
| "fix_flags l (e # es) =
     (if fst e \<or> l < ZIP_BIGLEN then e # es else (True, snd e) # fix_flags (entry_len (True, snd e)) es)"

lemma fix_flags_snd [simp]: "map snd (fix_flags l es) = map snd es" "length (fix_flags l es) = length es"
  "fix_flags l es = [] \<longleftrightarrow> es = []"
  by (induction es arbitrary: l) auto

lemma fix_flags_bytes: "ent_bytes es \<le> ent_bytes (fix_flags l es)"
proof (induction es arbitrary: l)
  case (Cons e es)
  then show ?case by (auto simp: entry_len_def prev_size_def intro: trans_le_add2)
qed simp

lemma fix_flags_id: "zl_entries_ok l es \<Longrightarrow> fix_flags l es = es"
  by (cases es) (auto simp: prev_ok_def)

lemma fix_flags_ok:
  "zl_entries_ok l' es \<Longrightarrow> l + ent_bytes (fix_flags l es) < 4294967296 \<Longrightarrow> zl_entries_ok l (fix_flags l es)"
proof (induction es arbitrary: l' l)
  case (Cons e es)
  then show ?case
    using Cons.IH [of "entry_len e" "entry_len (True, snd e)"] by (auto simp: prev_ok_def)
qed simp

lemma butlast_bytes: "es \<noteq> [] \<Longrightarrow> ent_bytes (butlast (e # es)) = entry_len e + ent_bytes (butlast es)"
  by simp

lemma cascade_step_grow:
  assumes "\<not> fst e'" and l: "254 \<le> l" and n: "n = 10 + length P + entry_len e' + ent_bytes es + 1" and b: "n + 4 < 4294967296"
    and t: "t = 10 + length P + ent_bytes (butlast (e' # es))"
  shows "do {
           zl \<leftarrow> ziplistResize (hdr n t c @ P @ map Some (prev_field (fst e') pv @ payload (snd e') @ entries (entry_len e') es @ [ZIP_END])) (n + 4);
           tail \<leftarrow> ZIPLIST_TAIL_OFFSET zl;
           zl \<leftarrow> (if tail \<noteq> 10 + length P then set_tail zl (int (tail + 4)) else Some zl);
           zl \<leftarrow> zl_move zl (int (10 + length P + 5)) (int (10 + length P + 1)) (int n - int (10 + length P) - 1 - 1);
           mem_write zl (10 + length P) (zipPrevEncodeLength l)
         } = Some (hdr (n + 4) (if es = [] then t else t + 4) c @ P @
               map Some (prev_field True l @ payload (snd e') @ entries (entry_len e') es @ [ZIP_END]))"
proof -
  let ?f = "map Some (prev_field (fst e') pv)" and ?Y = "map Some (payload (snd e') @ entries (entry_len e') es)"
  let ?g = "[Some ZIP_END, None, None, None] :: cmemory"
  let ?t = "if es = [] then t else t + 4"
  let ?X = "hdr (n + 4) ?t c @ P"
  have f: "length ?f = 1" using assms(1) by (simp add: prev_size_def)
  have Y: "length ?Y = entry_len e' - 1 + ent_bytes es" using assms(1) by (simp add: entry_len_def prev_size_def)
  have r: "ziplistResize (hdr n t c @ (P @ ?f @ ?Y) @ [Some ZIP_END]) (n + 4) =
      Some (hdr (n + 4) t c @ P @ ?f @ ?Y @ ?g @ [Some ZIP_END])"
    using resize_grow [of n "P @ ?f @ ?Y" 4 n t c "Some ZIP_END"] n f Y by (simp add: numeral_eq_Suc)
  have tb: "t < 4294967296" using t n b by (cases es rule: rev_cases) auto
  have "t = 10 + length P \<longleftrightarrow> es = []" using t by auto
  then have w: "(if t \<noteq> 10 + length P then set_tail (hdr (n + 4) t c @ m) (int (t + 4)) else Some (hdr (n + 4) t c @ m)) = Some (hdr (n + 4) ?t c @ m)" for m
    using hdr_write(2) [of "n + 4" t c m "t + 4"] by auto
  have z: "zipPrevEncodeLength l = prev_field True l" using l by (simp add: zipPrevEncodeLength_field)
  have mv: "do { m \<leftarrow> zl_move (?X @ ?f @ ?Y @ ?g @ [Some ZIP_END]) (int (10 + length P + 5)) (int (10 + length P + 1)) (int n - int (10 + length P) - 1 - 1);
        mem_write m (10 + length P) (zipPrevEncodeLength l) } = Some (?X @ map Some (prev_field True l) @ ?Y @ [Some ZIP_END])"
  proof -
    have "nat (int n - int (10 + length P) - 1 - 1) = length ?Y" "0 \<le> int n - int (10 + length P) - 1 - 1"
      using n Y entry_len_pos(1) [of e'] by linarith+
    then have "zl_move m (int (10 + length P + 5)) (int (10 + length P + 1)) (int n - int (10 + length P) - 1 - 1) =
        mem_move m (length ?X + length (prev_field True l)) (length ?X + length ?f) (length ?Y)" for m
      using f unfolding zl_move_def nat_int by (simp add: prev_size_def add.commute add.left_commute del: of_nat_add)
    then show ?thesis using grow_field [of "prev_field True l" ?f ?g ?X ?Y "[Some ZIP_END]"] f
      unfolding z by (simp add: prev_size_def)
  qed
  show ?thesis using r w mv tb by simp
qed

lemma prev_size_less: "prev_size b < prev_size (254 \<le> (l :: nat)) \<longleftrightarrow> \<not> b \<and> 254 \<le> l"
  "prev_size (254 \<le> l) < prev_size b \<longleftrightarrow> b \<and> l < 254"
  by (auto simp: prev_size_def)

text \<open>A field is overwritten by another one of the same size.\<close>

lemma write_field:
  assumes "length f' = length f"
  shows "mem_write (X @ map Some f @ Y) (length X) f' = Some (X @ map Some f' @ Y)"
  using assms by (simp add: mem_write_def)

abbreviation ent_cells :: "nat \<Rightarrow> zent \<Rightarrow> cmemory" where
  "ent_cells prev e \<equiv> map Some (prev_field (fst e) prev @ payload (snd e))"

lemma cascade_loop_ok:
  assumes "prev_ok (fst e) pv" and "zl_entries_ok pv' ns"
    and "n = 10 + length P + entry_len e + ent_bytes ns + 1"
    and "ns \<noteq> [] \<longrightarrow> t = 10 + length P + entry_len e + ent_bytes (butlast ns)"
    and "10 + length P + entry_len e + ent_bytes (fix_flags (entry_len e) ns) + 1 < 4294967296"
  shows "cascade_loop n (hdr n t c @ P @ ent_cells pv e @ map Some (entries pv' ns @ [ZIP_END])) (10 + length P) =
     Some (hdr (10 + length P + entry_len e + ent_bytes (fix_flags (entry_len e) ns) + 1)
       (if ns = [] then t else 10 + length P + entry_len e + ent_bytes (butlast (fix_flags (entry_len e) ns))) c @ P @
       ent_cells pv e @ map Some (entries (entry_len e) (fix_flags (entry_len e) ns) @ [ZIP_END]))"
  using assms
proof (induction ns arbitrary: pv' e pv P n t)
  case Nil
  let ?zl = "hdr n t c @ P @ ent_cells pv e @ map Some (entries pv' [] @ [ZIP_END])"
  have "zl_at ?zl (10 + length P) (entries pv [e])" using zl_at_here [of "hdr n t c @ P" "10 + length P"] by (simp del: map_append zl_at_append)
  then have a: "ent_at ?zl (10 + length P) pv e" using Nil by (intro ent_at_split(1) [where es = "[]"]) simp_all
  have "zl_at ?zl (10 + length P + entry_len e) [ZIP_END]"
    using zl_at_here [of "hdr n t c @ P @ ent_cells pv e" "10 + length P + entry_len e" "[ZIP_END]" "[]"] by (simp add: entry_len_def)
  then have "zl_byte ?zl (10 + length P + entry_len e) = Some ZIP_END" by (rule zl_at_byte)
  then show ?case using ent_at_byte [OF a] ent_at_entry [OF a] Nil(5) by (subst cascade_loop.simps) (auto simp: Nil(3))
next
  case (Cons e' es)
  define L where "L = entry_len e"
  define p where "p = 10 + length P"
  define X where "X = hdr n t c @ P @ ent_cells pv e"
  define zl where "zl = X @ map Some (entries pv' (e' # es) @ [ZIP_END])"
  have len: "length X = p + L" by (simp add: entry_len_def X_def L_def p_def)
  have Lb: "L < 4294967296" "entry_len e' < 4294967296"
    using Cons.prems(5) fix_flags_bytes [of "e' # es" L] by (simp_all add: L_def)
  have "zl_at zl p (entries pv [e])"
    using zl_at_here [of "hdr n t c @ P" p] by (simp add: zl_def X_def p_def del: map_append zl_at_append)
  then have a: "ent_at zl p pv e" using Cons.prems Lb by (intro ent_at_split(1) [where es = "[]"]) (simp_all add: L_def)
  have "zl_at zl (p + L) (entries pv' (e' # es))"
    using zl_at_here [of X "p + L" "entries pv' (e' # es) @ [ZIP_END]" "[]"] len by (simp add: zl_def del: map_append)
  then have a': "ent_at zl (p + L) pv' e'" using Cons.prems Lb by (intro ent_at_split(1) [where es = es])
  obtain b where b: "zl_byte zl p = Some b" "b \<noteq> ZIP_END" using ent_at_byte [OF a] by blast
  obtain b' where b': "zl_byte zl (p + L) = Some b'" "b' \<noteq> ZIP_END" using ent_at_byte [OF a'] by blast
  have L: "u32 (headersize (zl_entry_of pv e) + zlen (zl_entry_of pv e)) = L" using Lb by (simp add: L_def)
  have sz: "length (zipPrevEncodeLength L) = prev_size (254 \<le> L)" by (simp add: zipPrevEncodeLength_field)
  note ev = b b' L sz ent_at_entry [OF a] ent_at_entry [OF a'] prev_size_less
  let ?res = "hdr (p + L + ent_bytes (fix_flags L (e' # es)) + 1) (p + L + ent_bytes (butlast (fix_flags L (e' # es)))) c @ P @
       ent_cells pv e @ map Some (entries L (fix_flags L (e' # es)) @ [ZIP_END])"
  have n: "n = p + L + entry_len e' + ent_bytes es + 1" and t: "t = p + L + ent_bytes (butlast (e' # es))"
    using Cons.prems(3,4) by (simp_all add: p_def L_def)
  consider (same) "pv' = L" | (grow) "pv' \<noteq> L" "\<not> fst e'" "254 \<le> L" | (fits) "pv' \<noteq> L" "fst e' \<or> L < 254" by linarith
  then have "cascade_loop n zl p = Some ?res"
  proof cases
    case same
    then have "fix_flags L (e' # es) = e' # es" using Cons.prems(2) by (intro fix_flags_id) simp
    then have "?res = zl" using n t same by (simp add: zl_def X_def p_def)
    then show ?thesis using ev same by (subst cascade_loop.simps) simp
  next
    case fits
    let ?Y = "map Some (payload (snd e') @ entries (entry_len e') es @ [ZIP_END])"
    have "?res = X @ map Some (prev_field (fst e') L) @ ?Y" using fits n t by (simp add: X_def p_def)
    moreover have "zl = X @ map Some (prev_field (fst e') pv') @ ?Y" by (simp add: zl_def)
    ultimately have w: "mem_write zl (p + L) (prev_field (fst e') L) = Some ?res"
      using write_field [of "prev_field (fst e') L" "prev_field (fst e') pv'" X ?Y] len by simp
    have f: "zipPrevEncodeLengthForceLarge L = prev_field True L" "zipPrevEncodeLength L = prev_field (254 \<le> L) L"
      by (simp add: prev_field_def) (rule zipPrevEncodeLength_field)
    have "cascade_loop n zl p = mem_write zl (p + L) (prev_field (fst e') L)"
      using ev fits f by (subst cascade_loop.simps) (cases "fst e'"; cases "L < 254"; simp add: Let_def prev_size_def)
    then show ?thesis unfolding w .
  next
    case grow
    let ?e = "(True, snd e')"
    let ?P = "P @ ent_cells pv e"
    have P: "10 + length ?P = p + L" by (simp add: p_def L_def entry_len_def)
    have el: "entry_len ?e = entry_len e' + 4" using grow by (simp add: entry_len_def prev_size_def)
    have fx: "fix_flags L (e' # es) = ?e # fix_flags (entry_len ?e) es" using grow by simp
    have bd: "p + L + entry_len ?e + ent_bytes (fix_flags (entry_len ?e) es) + 1 < 4294967296"
      using Cons.prems(5) fx by (simp add: p_def L_def)
    have n4: "n + 4 < 4294967296" using bd fix_flags_bytes [of es "entry_len ?e"] n el by linarith
    let ?t = "if es = [] then t else t + 4"
    let ?zl = "hdr (n + 4) ?t c @ ?P @ map Some (prev_field True L @ payload (snd e') @ entries (entry_len e') es @ [ZIP_END])"
    have zl': "zl = hdr n t c @ ?P @ map Some (prev_field (fst e') pv' @ payload (snd e') @ entries (entry_len e') es @ [ZIP_END])"
      by (simp add: zl_def X_def)
    have "n = 10 + length ?P + entry_len e' + ent_bytes es + 1" "t = 10 + length ?P + ent_bytes (butlast (e' # es))"
      unfolding P using n t by simp_all
    note G = cascade_step_grow [OF grow(2,3) this(1) n4 this(2), of c pv', folded zl', unfolded P bind_eq_Some_conv]
    have u: "u32 (n + 4) = n + 4" "prev_size (254 \<le> L) - prev_size (fst e') = 4" "prev_size (fst e') = 1" "prev_size (254 \<le> L) = 5"
      using n4 grow by (simp_all add: prev_size_def)
    obtain z1 tl z2 z3 where z: "ziplistResize zl (n + 4) = Some z1" "ZIPLIST_TAIL_OFFSET z1 = Some tl"
        "(if tl \<noteq> p + L then set_tail z1 (int (tl + 4)) else Some z1) = Some z2"
        "zl_move z2 (int (p + L + 5)) (int (p + L + 1)) (int n - int (p + L) - 1 - 1) = Some z3"
        "mem_write z3 (p + L) (zipPrevEncodeLength L) = Some ?zl"
      using G by - (elim exE conjE, rule that)
    define R where "R = ?zl"
    have step: "cascade_loop n zl p = cascade_loop (n + 4) ?zl (p + L)"
      using z grow ev(1-8) u unfolding R_def [symmetric] by (subst cascade_loop.simps) (simp add: Let_def del: of_nat_add)
    have "cascade_loop (n + 4) (hdr (n + 4) ?t c @ ?P @ ent_cells L ?e @ map Some (entries (entry_len e') es @ [ZIP_END])) (10 + length ?P) =
       Some (hdr (10 + length ?P + entry_len ?e + ent_bytes (fix_flags (entry_len ?e) es) + 1)
       (if es = [] then ?t else 10 + length ?P + entry_len ?e + ent_bytes (butlast (fix_flags (entry_len ?e) es))) c @ ?P @
       ent_cells L ?e @ map Some (entries (entry_len ?e) (fix_flags (entry_len ?e) es) @ [ZIP_END]))"
    proof (rule Cons.IH)
      show "prev_ok (fst ?e) L" using Lb by (simp add: prev_ok_def)
      show "zl_entries_ok (entry_len e') es" using Cons.prems(2) by simp
      show "n + 4 = 10 + length ?P + entry_len ?e + ent_bytes es + 1" unfolding P using n el by simp
      show "es \<noteq> [] \<longrightarrow> ?t = 10 + length ?P + entry_len ?e + ent_bytes (butlast es)" unfolding P using t el by simp
      show "10 + length ?P + entry_len ?e + ent_bytes (fix_flags (entry_len ?e) es) + 1 < 4294967296" unfolding P by (rule bd)
    qed
    then show ?thesis unfolding step P fx using t by (simp add: add.assoc)
  qed
  then show ?case by (simp only: zl_def X_def p_def L_def append_assoc) simp
qed

lemma ziplistCascadeUpdate_ok:
  assumes "prev_ok (fst e) pv" and "zl_entries_ok pv' ns"
    and "n = 10 + length P + entry_len e + ent_bytes ns + 1"
    and "ns \<noteq> [] \<longrightarrow> t = 10 + length P + entry_len e + ent_bytes (butlast ns)"
    and "10 + length P + entry_len e + ent_bytes (fix_flags (entry_len e) ns) + 1 < 4294967296"
  shows "ziplistCascadeUpdate (hdr n t c @ P @ ent_cells pv e @ map Some (entries pv' ns @ [ZIP_END])) (10 + length P) =
     Some (hdr (10 + length P + entry_len e + ent_bytes (fix_flags (entry_len e) ns) + 1)
       (if ns = [] then t else 10 + length P + entry_len e + ent_bytes (butlast (fix_flags (entry_len e) ns))) c @ P @
       ent_cells pv e @ map Some (entries (entry_len e) (fix_flags (entry_len e) ns) @ [ZIP_END]))"
proof -
  have "n < 4294967296" using assms(3,5) fix_flags_bytes [of ns "entry_len e"] by linarith
  then show ?thesis unfolding ziplistCascadeUpdate_def hdr_read(1) [OF \<open>n < 4294967296\<close>]
    using cascade_loop_ok [OF assms] by (simp only: bind.bind_lunit)
qed

text \<open>The update is skipped when the size of the changed entry stays the same, with the same result.\<close>

lemma cascade_if:
  assumes ok: "prev_ok (fst e) pv" "zl_entries_ok l ns" and el: "int (entry_len e) = int l + nd" and q: "q = 10 + length P"
    and F: "F = fix_flags (entry_len e) ns" and b: "q + entry_len e + ent_bytes F + 1 < 4294967296"
    and Z: "Z = hdr (q + entry_len e + ent_bytes ns + 1) (q + ent_bytes (butlast (e # ns))) c @ P @ ent_cells pv e @
       map Some (entries l ns @ [ZIP_END])"
  shows "(if nd \<noteq> 0 then ziplistCascadeUpdate Z q else Some Z) =
     Some (hdr (q + entry_len e + ent_bytes F + 1) (q + ent_bytes (butlast (e # F))) c @ P @ ent_cells pv e @
       map Some (entries (entry_len e) F @ [ZIP_END]))"
proof (cases "nd = 0")
  case True
  then have "entry_len e = l" using el by simp
  moreover from this have "F = ns" using ok(2) by (simp add: F fix_flags_id)
  ultimately show ?thesis using True Z by simp
next
  case False
  have t: "(if ns = [] then q + ent_bytes (butlast (e # ns)) else q + entry_len e + ent_bytes (butlast F)) = q + ent_bytes (butlast (e # F))"
    by (simp add: F)
  have "ziplistCascadeUpdate Z q = Some (hdr (q + entry_len e + ent_bytes F + 1)
      (if ns = [] then q + ent_bytes (butlast (e # ns)) else q + entry_len e + ent_bytes (butlast F)) c @ P @ ent_cells pv e @
       map Some (entries (entry_len e) F @ [ZIP_END]))"
    unfolding Z using ziplistCascadeUpdate_ok [OF ok, of _ P "q + ent_bytes (butlast (e # ns))" c, folded F q] b by simp
  then show ?thesis using False unfolding t by simp
qed

section \<open>Insertion\<close>

text \<open>The list after inserting \<open>s\<close> between \<open>xs\<close> and \<open>ys\<close>.\<close>

definition ins_list :: "zent list \<Rightarrow> bytes \<Rightarrow> zent list \<Rightarrow> zent list" where
  "ins_list xs s ys =
     (let e = (254 \<le> last_len 0 xs, s) in
      xs @ e # (case ys of [] \<Rightarrow> [] | y # ys' \<Rightarrow>
        let y' = (254 \<le> entry_len e, snd y) in y' # fix_flags (entry_len y') ys'))"

lemma ins_list_snd: "map snd (ins_list xs s ys) = map snd xs @ s # map snd ys"
  by (simp add: ins_list_def Let_def split: list.split)

lemma resize_ge:
  assumes "n = 10 + length M + 1"
  shows "\<exists>G. length G = k \<and> (k \<noteq> 0 \<longrightarrow> hd G = z) \<and>
     ziplistResize (hdr n' t c @ M @ [z]) (n + k) = Some (hdr (n + k) t c @ M @ G @ [Some ZIP_END])"
proof (cases "k = 0")
  case True
  then show ?thesis using resize_shrink [OF assms, of "[z]" n' t c] by simp
next
  case False
  then show ?thesis using resize_grow [OF assms, of k n' t c z]
    by (intro exI [of _ "z # replicate (k - 1) None"]) simp
qed

text \<open>The move that makes room for \<open>req\<close> cells in front of a field and puts the new field there.\<close>

lemma move_field:
  assumes "length f + length G = req + length f'" and "length f' \<le> length H + length f"
  shows "\<exists>gap. length gap = req \<and>
     do { m \<leftarrow> mem_move (H @ f @ Y @ G @ Z) (length H + req) (length H + length f - length f') (length f' + length Y);
          mem_write m (length H + req) f' } = Some (H @ gap @ map Some f' @ Y @ Z)"
proof -
  let ?m = "H @ f @ Y @ G @ Z"
  let ?T = "H @ take req (f @ Y @ G @ Z)"
  let ?s = "length H + length f - length f'"
  have T: "take (length H + req) ?m = ?T" "length (take req (f @ Y @ G @ Z)) = req" using assms(1) by simp_all
  have "take (length f' + length Y) (drop ?s ?m) = take (length f' + length Y) (drop ?s (H @ f) @ Y @ G @ Z)"
    using assms(2) by (metis append_assoc diff_le_self drop_append length_append diff_is_0_eq drop0)
  moreover have l: "length (drop ?s (H @ f)) = length f'" unfolding length_drop length_append using assms(2) by linarith
  ultimately have W: "take (length f' + length Y) (drop ?s ?m) = drop ?s (H @ f) @ Y" by simp
  have "drop (length H + req + (length f' + length Y)) ?m = drop (length (H @ f @ Y @ G)) ((H @ f @ Y @ G) @ Z)"
    using assms(1) by (simp add: add.commute add.left_commute)
  then have Z: "drop (length H + req + (length f' + length Y)) ?m = Z" by simp
  have "mem_move ?m (length H + req) ?s (length f' + length Y) = Some (?T @ (drop ?s (H @ f) @ Y) @ Z)"
    unfolding mem_move_def T W Z using assms by simp
  moreover have "mem_write (?T @ (drop ?s (H @ f)) @ Y @ Z) (length H + req) f' = Some (?T @ map Some f' @ Y @ Z)"
  proof (rule mem_write_at)
    show "length ?T = length H + req" unfolding length_append T(2) ..
    show "length (drop ?s (H @ f)) = length f'" by (rule l)
  qed
  ultimately have "do { m \<leftarrow> mem_move ?m (length H + req) ?s (length f' + length Y); mem_write m (length H + req) f' } =
      Some (H @ take req (f @ Y @ G @ Z) @ map Some f' @ Y @ Z)" by simp
  with T(2) show ?thesis by blast
qed

lemma insert_prevlen_ok:
  assumes r: "zl_rep zl (xs @ ys)"
  shows "insert_prevlen zl (offs xs) = Some (last_len 0 xs)"
proof (cases ys)
  case (Cons y ys')
  then have z: "zl_rep zl (xs @ y # ys')" using r by simp
  then show ?thesis using rep_byte [OF z] ent_at_prevlen [OF rep_ent [OF z]] by (auto simp: insert_prevlen_def)
next
  case Nil
  then have z: "zl_rep zl xs" using r by simp
  note h = rep_header [OF z] rep_end [OF z]
  show ?thesis
  proof (cases xs rule: rev_cases)
    case Nil
    then show ?thesis using h by (simp add: insert_prevlen_def tail_off_def)
  next
    case (snoc xs' x)
    then have z': "zl_rep zl (xs' @ x # [])" using z by simp
    show ?thesis using h rep_byte [OF z'] rep_raw [OF z'] snoc by (auto simp: insert_prevlen_def tail_off_def)
  qed
qed

text \<open>The chosen value, encoding and length, and what is written.\<close>

definition enc_choice :: "bytes \<Rightarrow> int \<times> byte \<times> nat" where
  "enc_choice s = (case zipTryEncoding s of Some (v, e) \<Rightarrow> (v, e, zipIntSize e) | None \<Rightarrow> (123456789, 0, length s))"

lemma enc_choice_len:
  "enc_choice s = (v, enc, n) \<Longrightarrow> n + length (zipEncodeLength enc (length s)) = length (payload s)"
  using zipTryEncoding_int [of s] int_encodingD
  by (auto simp: enc_choice_def length_payload pl_lensize_def pl_len_def zipEncodeLength_def split: option.splits if_splits)

lemma insert_write_ok:
  assumes c: "enc_choice s = (v, enc, n)" and g: "length gap = entry_len (254 \<le> prev, s)"
  shows "insert_write (A @ gap @ B) (length A) prev v enc s = Some (A @ ent_cells prev (254 \<le> prev, s) @ B)"
proof -
  let ?f = "prev_field (254 \<le> prev) prev"
  obtain bs where bs: "payload s = zipEncodeLength enc (length s) @ bs"
    "if ZIP_IS_STR enc then bs = s else zipSaveInteger v enc = Some bs"
    using c zipTryEncoding_int [of s] int_encodingD
    by (cases "zipTryEncoding s") (auto simp: enc_choice_def payload_def zipEncodeLength_def)
  let ?l = "zipEncodeLength enc (length s)"
  obtain g1 g2 g3 where g3: "gap = g1 @ g2 @ g3" "length g1 = length ?f" "length g2 = length ?l" "length g3 = length bs"
  proof -
    have "length gap = length ?f + length ?l + length bs" using g bs(1) by (simp add: entry_len_def)
    then show ?thesis
      by (intro that [of "take (length ?f) gap" "take (length ?l) (drop (length ?f) gap)" "drop (length ?l) (drop (length ?f) gap)"])
        (simp_all only: append_take_drop_id length_take length_drop min_def split: if_splits, linarith+)
  qed
  have w1: "mem_write (A @ gap @ B) (length A) ?f = Some (A @ map Some ?f @ g2 @ g3 @ B)"
    using mem_write_at [of A "length A" g1 ?f "g2 @ g3 @ B"] g3 by simp
  have w2: "mem_write (A @ map Some ?f @ g2 @ g3 @ B) (length A + length ?f) ?l = Some (A @ map Some ?f @ map Some ?l @ g3 @ B)"
    using mem_write_at [of "A @ map Some ?f" "length A + length ?f" g2 ?l "g3 @ B"] g3 by simp
  have w3: "mem_write (A @ map Some ?f @ map Some ?l @ g3 @ B) (length A + length ?f + length ?l) bs = Some (A @ map Some ?f @ map Some ?l @ map Some bs @ B)"
    using mem_write_at [of "A @ map Some ?f @ map Some ?l" "length A + length ?f + length ?l" g3 bs B] g3 by simp
  show ?thesis using bs w1 w2 w3 by (simp add: insert_write_def zipPrevEncodeLength_field split: if_splits)
qed

lemma ent_at_cells:
  assumes "prev_ok (fst e) pv" and "entry_len e < 4294967296" and "length X = p"
  shows "ent_at (X @ ent_cells pv e @ Y) p pv e"
  using assms zl_at_here [of X p "entries pv [e]" Y] by (intro ent_at_split(1) [where es = "[]"]) simp_all

lemma entries_byte:
  assumes "zl_entries_ok pv es" and "length X = p" and "ent_bytes es < 4294967296"
  shows "\<exists>b. zl_byte (X @ map Some (entries pv es @ [ZIP_END])) p = Some b \<and> (b = ZIP_END \<longleftrightarrow> es = [])"
proof (cases es)
  case Nil
  then show ?thesis using zl_at_here [of X p "[ZIP_END]" "[]"] assms(2) by (auto dest: zl_at_byte)
next
  case (Cons e es')
  then have "ent_at (X @ ent_cells pv e @ map Some (entries (entry_len e) es' @ [ZIP_END])) p pv e"
    using assms by (intro ent_at_cells) simp_all
  then show ?thesis using ent_at_byte Cons by fastforce
qed

text \<open>The tail offset after the neighbour of the new entry got a field of another size.\<close>

lemma insert_move_ok:
  assumes d: "nextdiff = int (prev_size (254 \<le> req)) - int (prev_size (fst y))"
    and G: "int (length G) = int req + nextdiff"
    and A: "p = 10 + length A" and cur: "curlen = p + entry_len y + ent_bytes ys + 1"
    and t: "t = p + ent_bytes (butlast (y # ys))"
    and ok: "prev_ok (fst y) prev" "zl_entries_ok (entry_len y) ys"
    and b: "p + req + entry_len (254 \<le> req, snd y) + ent_bytes ys + 5 < 4294967296"
  shows "\<exists>gap. length gap = req \<and>
     insert_move (hdr n t c @ A @ ent_cells prev y @ map Some (entries (entry_len y) ys) @ G @ [Some ZIP_END]) p curlen req nextdiff =
     Some (hdr n (p + req + ent_bytes (butlast ((254 \<le> req, snd y) # ys))) c @ A @ gap @
       ent_cells req (254 \<le> req, snd y) @ map Some (entries (entry_len y) ys @ [ZIP_END]))"
proof -
  let ?y = "(254 \<le> req, snd y)"
  let ?f = "map Some (prev_field (fst y) prev)" and ?f' = "prev_field (254 \<le> req) req"
  define Y where "Y = map Some (payload (snd y) @ entries (entry_len y) ys)"
  define H where "H = hdr n t c @ A"
  have H: "length H = p" by (simp add: H_def A)
  have Y: "length Y = length (payload (snd y)) + ent_bytes ys" by (simp add: Y_def)
  have z0: "hdr n t c @ A @ ent_cells prev y @ map Some (entries (entry_len y) ys) @ G @ [Some ZIP_END] = H @ ?f @ Y @ G @ [Some ZIP_END]"
    by (simp add: H_def Y_def)
  have el: "int (entry_len ?y) = int (entry_len y) + nextdiff" using d by (simp add: entry_len_def)
  have "\<exists>b. zl_byte (H @ ?f @ Y @ G @ [Some ZIP_END]) p = Some b \<and> b \<noteq> ZIP_END"
  proof -
    have "zl_at (H @ ?f @ Y @ G @ [Some ZIP_END]) p (prev_field (fst y) prev)" using H by simp
    from prev_field_byte [OF this ok(1)] show ?thesis using small_byte [of prev] ok(1) by (auto simp: prev_ok_def)
  qed
  then obtain b0 where b0: "zl_byte (H @ ?f @ Y @ G @ [Some ZIP_END]) p = Some b0" "b0 \<noteq> ZIP_END" by blast
  obtain gap where gap: "length gap = req"
     "do { m \<leftarrow> mem_move (H @ ?f @ Y @ G @ [Some ZIP_END]) (length H + req) (length H + length ?f - length ?f') (length ?f' + length Y);
          mem_write m (length H + req) ?f' } = Some (H @ gap @ map Some ?f' @ Y @ [Some ZIP_END])"
    using move_field [of ?f G req ?f' H Y "[Some ZIP_END]"] d G H A by (auto simp: prev_size_def split: if_splits)
  have mv: "zl_move m (int (p + req)) (int p - nextdiff) (int curlen - int p - 1 + nextdiff) =
      mem_move m (length H + req) (length H + length ?f - length ?f') (length ?f' + length Y)" for m
  proof -
    have "nat (int p - nextdiff) = length H + length ?f - length ?f'" "int p - nextdiff \<ge> 0"
      using d H A by (auto simp: prev_size_def)
    moreover have "int curlen - int p - 1 + nextdiff = int (length ?f' + length Y)"
      using cur d Y by (simp add: entry_len_def)
    ultimately show ?thesis by (simp add: zl_move_def H nat_add_distrib)
  qed
  define z1 where "z1 = A @ gap @ ent_cells req ?y @ map Some (entries (entry_len y) ys @ [ZIP_END])"
  have z1: "H @ gap @ map Some ?f' @ Y @ [Some ZIP_END] = hdr n t c @ z1" by (simp add: z1_def H_def Y_def)
  have bl: "ent_bytes (butlast ys) \<le> ent_bytes ys" by (cases ys rule: rev_cases) simp_all
  have nd: "- 4 \<le> nextdiff" "nextdiff \<le> 4" using d by (simp_all add: prev_size_def)
  have tb: "t + req < 4294967296"
  proof (cases "ys = []")
    case True
    then show ?thesis using b t by simp
  next
    case False
    then have "t = p + entry_len y + ent_bytes (butlast ys)" using t by simp
    then show ?thesis using b el bl nd by linarith
  qed
  have lens: "req < 4294967296" "entry_len ?y < 4294967296" "t < 4294967296" "ent_bytes ys < 4294967296"
    using b tb by linarith+
  have "prev_ok (fst ?y) req" using lens by (auto simp: prev_ok_def)
  then have at: "ent_at (hdr n t' c @ z1) (p + req) req ?y" for t'
    using ent_at_cells [of ?y req "hdr n t' c @ A @ gap" "p + req"] lens gap(1) A by (simp add: z1_def)
  have "\<exists>b. zl_byte (hdr n t' c @ z1) (p + req + entry_len ?y) = Some b \<and> (b = ZIP_END \<longleftrightarrow> ys = [])" for t'
    using entries_byte [of "entry_len y" ys "hdr n t' c @ A @ gap @ ent_cells req ?y" "p + req + entry_len ?y"] ok(2) lens gap(1) A
    by (simp add: z1_def entry_len_def)
  then obtain b1 where b1: "zl_byte (hdr n t' c @ z1) (p + req + entry_len ?y) = Some (b1 t')" "b1 t' = ZIP_END \<longleftrightarrow> ys = []" for t'
    by metis
  have s1: "set_tail (hdr n t c @ z1) (int t + int req) = Some (hdr n (t + req) c @ z1)"
    using hdr_write(2) [of n t c z1 "t + req"] by simp
  let ?t2 = "p + req + ent_bytes (butlast (?y # ys))"
  have t2: "if ys = [] then ?t2 = t + req else int ?t2 = int (t + req) + nextdiff" using t el by simp
  obtain m where m: "mem_move (H @ ?f @ Y @ G @ [Some ZIP_END]) (length H + req) (length H + length ?f - length ?f') (length ?f' + length Y) = Some m"
      "mem_write m (p + req) ?f' = Some (hdr n t c @ z1)"
    using gap(2) unfolding z1 H bind_eq_Some_conv by blast
  have hz: "p + req + headersize (zl_entry_of req ?y) + zlen (zl_entry_of req ?y) = p + req + entry_len ?y"
    by (simp only: add.assoc zl_entry_of_len)
  have s2: "(if b1 (t + req) \<noteq> ZIP_END then do { u \<leftarrow> ZIPLIST_TAIL_OFFSET (hdr n (t + req) c @ z1); set_tail (hdr n (t + req) c @ z1) (int u + nextdiff) }
      else Some (hdr n (t + req) c @ z1)) = Some (hdr n ?t2 c @ z1)"
    using t2 tb b1(2) [of "t + req"] hdr_write(2) [of n "t + req" c z1 ?t2] by (cases "ys = []") (simp_all del: of_nat_add)
  have u: "u32 req = req" "ZIPLIST_TAIL_OFFSET (hdr n t c @ z1) = Some t" using lens by simp_all
  have "insert_move (H @ ?f @ Y @ G @ [Some ZIP_END]) p curlen req nextdiff = Some (hdr n ?t2 c @ z1)"
    unfolding insert_move_def b0(1) bind.bind_lunit if_P [OF b0(2)] mv m zipPrevEncodeLength_field u s1 ent_at_entry [OF at] hz b1(1) s2 ..
  then have "insert_move (hdr n t c @ A @ ent_cells prev y @ map Some (entries (entry_len y) ys) @ G @ [Some ZIP_END]) p curlen req nextdiff = Some (hdr n ?t2 c @ z1)"
    unfolding z0 .
  then show ?thesis using gap(1) by (auto simp: z1_def)
qed

lemma incr_length:
  "cnt_ok c n \<Longrightarrow> \<exists>c'. cnt_ok c' (Suc n) \<and> ZIPLIST_INCR_LENGTH (hdr N t c @ m) 1 = Some (hdr N t c' @ m)"
proof -
  assume c: "cnt_ok c n"
  show ?thesis
  proof (cases "c = 65535")
    case True
    then show ?thesis by (intro exI [of _ c]) (simp add: ZIPLIST_INCR_LENGTH_def cnt_ok_def)
  next
    case False
    then have "c = n" "n < 65535" using c by (simp_all add: cnt_ok_def)
    then show ?thesis using hdr_write(3) [of N t c m "Suc n"]
      by (intro exI [of _ "Suc n"]) (auto simp: ZIPLIST_INCR_LENGTH_def cnt_ok_def add.commute)
  qed
qed

lemma ziplistInsert_at_unfold:
  assumes "ZIPLIST_BYTES zl = Some curlen" and "insert_prevlen zl p = Some prevlen" and "enc_choice s = (v, enc, r0)"
    and "reqlen = r0 + length (zipPrevEncodeLength prevlen) + length (zipEncodeLength enc (length s))"
    and "zl_byte zl p = Some b"
  shows "ziplistInsert_at zl p s = do {
     nextdiff \<leftarrow> (if b \<noteq> ZIP_END then zipPrevLenByteDiff zl p (u32 reqlen) else Some 0);
     zl \<leftarrow> ziplistResize zl (nat ((int (curlen + reqlen) + nextdiff) mod 4294967296));
     zl \<leftarrow> insert_move zl p curlen reqlen nextdiff;
     zl \<leftarrow> (if nextdiff \<noteq> 0 then ziplistCascadeUpdate zl (p + reqlen) else Some zl);
     zl \<leftarrow> insert_write zl p prevlen v enc s;
     ZIPLIST_INCR_LENGTH zl 1
   }"
  using assms(3) unfolding ziplistInsert_at_def assms(1,2,5) bind.bind_lunit enc_choice_def [symmetric] assms(4) by (simp add: Let_def)

lemma last_len_le: "last_len 0 xs \<le> ent_bytes xs"
  by (cases xs rule: rev_cases) simp_all

lemma insert_end:
  assumes r: "zl_rep zl xs" and b: "offs (ins_list xs s []) + 9 < 4294967296"
  shows "\<exists>zl'. ziplistInsert_at zl (offs xs) s = Some zl' \<and> zl_rep zl' (ins_list xs s [])"
proof -
  define prev where "prev = last_len 0 xs"
  define e where "e = (254 \<le> prev, s)"
  obtain v enc r0 where ch: "enc_choice s = (v, enc, r0)" by (cases "enc_choice s") auto
  obtain c where c: "cnt_ok c (length xs)" "zl = hdr (offs xs + 1) (tail_off xs) c @ map Some (entries 0 xs @ [ZIP_END])"
    "zl_entries_ok 0 xs" "offs xs + 1 < 4294967296" using r unfolding zl_rep_def by blast
  have il: "ins_list xs s [] = xs @ [e]" by (simp add: ins_list_def e_def prev_def)
  have req: "entry_len e = r0 + length (zipPrevEncodeLength prev) + length (zipEncodeLength enc (length s))"
    using enc_choice_len [OF ch] by (simp add: entry_len_def e_def zipPrevEncodeLength_field)
  have "ZIPLIST_BYTES zl = Some (offs xs + 1)" "insert_prevlen zl (offs xs) = Some prev"
    using rep_header [OF r] insert_prevlen_ok [of zl xs "[]"] r by (simp_all add: prev_def)
  note unf = ziplistInsert_at_unfold [OF this ch req rep_end [OF r]]
  let ?M = "map Some (entries 0 xs)"
  obtain G where G: "length G = entry_len e" "entry_len e \<noteq> 0 \<longrightarrow> hd G = Some ZIP_END"
     "ziplistResize zl (offs xs + 1 + entry_len e) = Some (hdr (offs xs + 1 + entry_len e) (tail_off xs) c @ ?M @ G @ [Some ZIP_END])"
    using resize_ge [of "offs xs + 1" ?M "entry_len e" "Some ZIP_END" "offs xs + 1" "tail_off xs" c] c(2) by (auto simp: offs_def)
  let ?N = "offs xs + 1 + entry_len e"
  have z: "nat ((int (offs xs + 1 + entry_len e) + 0) mod 4294967296) = ?N" using b il by simp
  obtain G' where G': "G = Some ZIP_END # G'" using G(1,2) by (cases G) auto
  have "zl_at (hdr ?N t c @ ?M @ G @ [Some ZIP_END]) (offs xs) [ZIP_END]" for t
    using zl_at_here [of "hdr ?N t c @ ?M" "offs xs" "[ZIP_END]" "G' @ [Some ZIP_END]"] by (simp add: G' offs_def)
  then have "zl_byte (hdr ?N t c @ ?M @ G @ [Some ZIP_END]) (offs xs) = Some ZIP_END" for t by (rule zl_at_byte)
  then have mv: "insert_move (hdr ?N (tail_off xs) c @ ?M @ G @ [Some ZIP_END]) (offs xs) curlen q 0 =
      Some (hdr ?N (offs xs) c @ ?M @ G @ [Some ZIP_END])" for curlen q
    by (simp add: insert_move_def)
  have wr: "insert_write (hdr ?N (offs xs) c @ ?M @ G @ [Some ZIP_END]) (offs xs) prev v enc s =
      Some (hdr ?N (offs xs) c @ ?M @ ent_cells prev e @ [Some ZIP_END])"
    using insert_write_ok [OF ch, of G prev "hdr ?N (offs xs) c @ ?M" "[Some ZIP_END]"] G(1) by (simp add: e_def offs_def)
  obtain c' where c': "cnt_ok c' (Suc (length xs))"
    "ZIPLIST_INCR_LENGTH (hdr ?N (offs xs) c @ ?M @ ent_cells prev e @ [Some ZIP_END]) 1 = Some (hdr ?N (offs xs) c' @ ?M @ ent_cells prev e @ [Some ZIP_END])"
    using incr_length [OF c(1)] by blast
  have "zl_rep (hdr ?N (offs xs) c' @ ?M @ ent_cells prev e @ [Some ZIP_END]) (xs @ [e])"
    unfolding zl_rep_def
  proof (intro conjI exI [of _ c'])
    have "prev < 4294967296" using last_len_le [of xs] c(4) by (simp add: prev_def offs_def)
    then show "zl_entries_ok 0 (xs @ [e])" using c(3) by (auto simp: e_def prev_ok_def simp flip: prev_def)
  qed (use c'(1) b il in \<open>simp_all add: tail_off_def prev_def add.assoc\<close>)
  moreover have "ziplistInsert_at zl (offs xs) s = Some (hdr ?N (offs xs) c' @ ?M @ ent_cells prev e @ [Some ZIP_END])"
    unfolding unf by (simp only: z G(3) mv wr c'(2) bind.bind_lunit simp_thms if_False)
  ultimately show ?thesis unfolding il by blast
qed

lemma insert_mid:
  assumes r: "zl_rep zl (xs @ y # ys)" and b: "offs (ins_list xs s (y # ys)) + 9 < 4294967296"
    and safe: "\<not> (fst y \<and> entry_len (254 \<le> last_len 0 xs, s) < 4)"
  shows "\<exists>zl'. ziplistInsert_at zl (offs xs) s = Some zl' \<and> zl_rep zl' (ins_list xs s (y # ys))"
proof -
  define prev where "prev = last_len 0 xs"
  define e where "e = (254 \<le> prev, s)"
  define req where "req = entry_len e"
  define y' where "y' = (254 \<le> req, snd y)"
  define F where "F = fix_flags (entry_len y') ys"
  define p where "p = offs xs"
  define nd where "nd = int (prev_size (254 \<le> req)) - int (prev_size (fst y))"
  define A where "A = map Some (entries 0 xs)"
  obtain v enc r0 where ch: "enc_choice s = (v, enc, r0)" by (cases "enc_choice s") auto
  obtain c where c: "cnt_ok c (length (xs @ y # ys))"
    "zl = hdr (offs (xs @ y # ys) + 1) (tail_off (xs @ y # ys)) c @ map Some (entries 0 (xs @ y # ys) @ [ZIP_END])"
    "zl_entries_ok 0 (xs @ y # ys)" "offs (xs @ y # ys) + 1 < 4294967296" using r unfolding zl_rep_def by blast
  have il: "ins_list xs s (y # ys) = xs @ e # y' # F" by (simp add: ins_list_def e_def prev_def Let_def req_def y'_def F_def)
  have p: "p = 10 + length A" by (simp add: p_def A_def offs_def)
  have el: "int (entry_len y') = int (entry_len y) + nd" by (simp add: entry_len_def y'_def nd_def)
  have bF: "p + req + entry_len y' + ent_bytes F + 10 \<le> 4294967296" using b il by (simp add: p_def req_def)
  have Fb: "ent_bytes ys \<le> ent_bytes F" unfolding F_def by (rule fix_flags_bytes)
  have req: "req = r0 + length (zipPrevEncodeLength prev) + length (zipEncodeLength enc (length s))"
    using enc_choice_len [OF ch] by (simp add: req_def entry_len_def e_def zipPrevEncodeLength_field)
  have u: "u32 req = req" using bF by simp
  obtain b0 where b0: "zl_byte zl p = Some b0" "b0 \<noteq> ZIP_END" using rep_byte [OF r] by (auto simp: p_def)
  define n where "n = offs (xs @ y # ys) + 1"
  have n: "n = p + entry_len y + ent_bytes ys + 1" by (simp add: n_def p_def)
  have "ZIPLIST_BYTES zl = Some n" "insert_prevlen zl p = Some prev"
    using rep_header [OF r] insert_prevlen_ok [OF r] by (simp_all add: prev_def p_def n_def)
  note unf = ziplistInsert_at_unfold [OF this ch req b0(1)]
  have diff: "(if b0 \<noteq> ZIP_END then zipPrevLenByteDiff zl p (u32 req) else Some 0) = Some nd"
    using b0(2) ent_at_prevlensize [OF rep_ent [OF r]] u by (simp add: zipPrevLenByteDiff_def zipPrevEncodeLength_field nd_def p_def)
  have nn: "0 \<le> int req + nd" using safe by (auto simp: nd_def prev_size_def req_def e_def prev_def split: if_splits)
  define k where "k = nat (int req + nd)"
  have k: "int k = int req + nd" using nn by (simp add: k_def)
  have tail: "tail_off (xs @ y # ys) = p + ent_bytes (butlast (y # ys))" by (simp add: tail_off_def butlast_append p_def)
  let ?M = "A @ ent_cells prev y @ map Some (entries (entry_len y) ys)"
  have zl: "zl = hdr n (tail_off (xs @ y # ys)) c @ ?M @ [Some ZIP_END]" using c(2) by (simp add: A_def n_def prev_def)
  obtain G where G: "length G = k"
      "ziplistResize zl (n + k) = Some (hdr (n + k) (tail_off (xs @ y # ys)) c @ ?M @ G @ [Some ZIP_END])"
    using resize_ge [of n ?M k "Some ZIP_END" n "tail_off (xs @ y # ys)" c] zl n p by (auto simp: entry_len_def)
  have N: "n + k = p + req + entry_len y' + ent_bytes ys + 1" using k el n by linarith
  have z: "nat ((int (n + req) + nd) mod 4294967296) = n + k" using N bF Fb k by simp
  have ok: "prev_ok (fst y) prev" "zl_entries_ok (entry_len y) ys" using c(3) by (simp_all add: prev_def)
  have lb: "p + req + entry_len (254 \<le> req, snd y) + ent_bytes ys + 5 < 4294967296" using bF Fb by (simp add: y'_def)
  obtain gap where gap: "length gap = req"
    "insert_move (hdr (n + k) (tail_off (xs @ y # ys)) c @ ?M @ G @ [Some ZIP_END]) p n req nd =
     Some (hdr (n + k) (p + req + ent_bytes (butlast (y' # ys))) c @ A @ gap @ ent_cells req y' @ map Some (entries (entry_len y) ys @ [ZIP_END]))"
    using insert_move_ok [OF nd_def _ p n tail ok lb, of G "n + k" c] G(1) k unfolding append_assoc y'_def [symmetric] by auto
  let ?t = "p + req + ent_bytes (butlast (y' # F))"
  let ?N = "p + req + entry_len y' + ent_bytes F + 1"
  let ?R = "ent_cells req y' @ map Some (entries (entry_len y') F @ [ZIP_END])"
  have P: "p + req = 10 + length (A @ gap)" using p gap(1) by simp
  have py: "prev_ok (fst y') req" using bF by (auto simp: y'_def prev_ok_def)
  have cas: "(if nd \<noteq> 0 then ziplistCascadeUpdate (hdr (n + k) (p + req + ent_bytes (butlast (y' # ys))) c @ A @ gap @ ent_cells req y' @
        map Some (entries (entry_len y) ys @ [ZIP_END])) (p + req)
      else Some (hdr (n + k) (p + req + ent_bytes (butlast (y' # ys))) c @ A @ gap @ ent_cells req y' @ map Some (entries (entry_len y) ys @ [ZIP_END])))
     = Some (hdr ?N ?t c @ A @ gap @ ?R)"
    using cascade_if [OF py ok(2) el P F_def _ refl, of c] bF unfolding N append_assoc by simp
  have wr: "insert_write (hdr ?N ?t c @ A @ gap @ ?R) p prev v enc s = Some (hdr ?N ?t c @ A @ ent_cells prev e @ ?R)"
    using insert_write_ok [OF ch, of gap prev "hdr ?N ?t c @ A" ?R] gap(1) p by (simp add: e_def req_def)
  obtain c' where c': "cnt_ok c' (Suc (length (xs @ y # ys)))"
    "ZIPLIST_INCR_LENGTH (hdr ?N ?t c @ A @ ent_cells prev e @ ?R) 1 = Some (hdr ?N ?t c' @ A @ ent_cells prev e @ ?R)"
    using incr_length [OF c(1)] by blast
  have res: "ziplistInsert_at zl p s = Some (hdr ?N ?t c' @ A @ ent_cells prev e @ ?R)"
    unfolding unf diff bind.bind_lunit z G(2) gap(2) cas wr c'(2) ..
  have "zl_rep (hdr ?N ?t c' @ A @ ent_cells prev e @ ?R) (xs @ e # y' # F)"
    unfolding zl_rep_def
  proof (intro conjI exI [of _ c'])
    have "prev < 4294967296" using last_len_le [of xs] c(4) by (simp add: prev_def offs_def)
    then have "prev_ok (fst e) prev" by (auto simp: e_def prev_ok_def)
    moreover have "prev_ok (fst y') req" using bF by (auto simp: y'_def prev_ok_def)
    moreover have "zl_entries_ok (entry_len y') F" unfolding F_def using ok(2) bF by (intro fix_flags_ok) (simp_all add: F_def)
    ultimately show "zl_entries_ok 0 (xs @ e # y' # F)" using c(3) by (simp add: prev_def req_def)
    show "cnt_ok c' (length (xs @ e # y' # F))" using c'(1) by (simp add: F_def)
    have "offs (xs @ e # y' # F) + 1 = ?N" "tail_off (xs @ e # y' # F) = ?t"
      by (simp_all add: p_def req_def tail_off_def butlast_append)
    then show "hdr ?N ?t c' @ A @ ent_cells prev e @ ?R =
        hdr (offs (xs @ e # y' # F) + 1) (tail_off (xs @ e # y' # F)) c' @ map Some (entries 0 (xs @ e # y' # F) @ [ZIP_END])"
      by (simp add: A_def prev_def req_def add.assoc)
    show "offs (xs @ e # y' # F) + 1 < 4294967296" using b il by simp
  qed
  then show ?thesis using res unfolding il p_def by blast
qed


text \<open>Bounds on the size after an insertion.\<close>

lemma fix_flags_bytes_le: "ent_bytes (fix_flags l es) \<le> ent_bytes es + 4 * length es"
proof (induction es arbitrary: l)
  case (Cons e es)
  have "entry_len (True, snd e) \<le> entry_len e + 4" by (simp add: entry_len_def prev_size_def)
  then show ?case using Cons.IH [of "entry_len (True, snd e)"] by auto
qed simp

lemma payload_le: "length (payload s) \<le> length s + 9"
proof (cases "zipTryEncoding s")
  case (Some ve)
  then show ?thesis by (cases ve) (simp add: length_payload pl_lensize_def pl_len_def zipIntSize_def)
qed (simp add: length_payload pl_lensize_def pl_len_def)

lemma ins_list_bytes: "offs (ins_list xs s ys) \<le> offs (xs @ ys) + length s + 14 + 4 * length ys"
proof -
  have S: "entry_len (b, s) \<le> length s + 14" for b using payload_le [of s] by (simp add: entry_len_def prev_size_def)
  have E: "entry_len (b, snd y) \<le> entry_len y + 4" for b y by (simp add: entry_len_def prev_size_def)
  have B: "entry_len (b, s) + entry_len (b', snd y) + ent_bytes (fix_flags l ys') \<le>
      entry_len y + ent_bytes ys' + length s + 18 + 4 * length ys'" for b b' y l ys'
  proof -
    have "entry_len (b, s) \<le> length s + 14" "entry_len (b', snd y) \<le> entry_len y + 4"
      "ent_bytes (fix_flags l ys') \<le> ent_bytes ys' + 4 * length ys'"
      by (rule S, rule E, rule fix_flags_bytes_le)
    then show ?thesis by linarith
  qed
  show ?thesis
  proof (cases ys)
    case Nil
    then show ?thesis using S by (simp add: ins_list_def)
  next
    case (Cons y ys')
    then show ?thesis using B [where y = y and ys' = ys'] by (simp add: ins_list_def Let_def add.assoc)
  qed
qed

lemma insert_at_ok:
  assumes r: "zl_rep zl (xs @ ys)" and b: "offs (xs @ ys) + length s + 4 * length ys + 23 < 4294967296"
    and safe: "\<not> (ys \<noteq> [] \<and> fst (hd ys) \<and> entry_len (254 \<le> last_len 0 xs, s) < 4)"
  shows "\<exists>zl'. ziplistInsert_at zl (offs xs) s = Some zl' \<and> zl_rep zl' (ins_list xs s ys)"
proof -
  have "offs (ins_list xs s ys) + 9 < 4294967296" using ins_list_bytes [of xs s ys] b by linarith
  then show ?thesis using insert_end [of zl xs s] insert_mid [of zl xs _ _ s] r safe by (cases ys) auto
qed

section \<open>Deletion\<close>

text \<open>The list after deleting the entries between \<open>xs\<close> and \<open>zs\<close>.\<close>

definition del_list :: "zent list \<Rightarrow> zent list \<Rightarrow> zent list" where
  "del_list xs zs =
     xs @ (case zs of [] \<Rightarrow> [] | z # zs' \<Rightarrow>
        let z' = (254 \<le> last_len 0 xs, snd z) in z' # fix_flags (entry_len z') zs')"

lemma del_list_snd: "map snd (del_list xs zs) = map snd xs @ map snd zs"
  by (simp add: del_list_def Let_def split: list.split)

lemma skip_entries_ok:
  "zl_rep zl (xs @ ys) \<Longrightarrow> skip_entries zl (offs xs) num = Some (offs (xs @ take num ys), length (take num ys))"
proof (induction num arbitrary: xs ys)
  case (Suc num)
  show ?case
  proof (cases ys)
    case Nil
    then show ?thesis using rep_end [of zl xs] Suc.prems by simp
  next
    case (Cons y ys')
    then have z: "zl_rep zl (xs @ y # ys')" using Suc.prems by simp
    have "offs (xs @ [y]) = offs xs + entry_len y" by simp
    then show ?thesis using Suc.IH [OF rep_shift [OF z]] rep_byte [OF z] rep_raw [OF z] Cons by auto
  qed
qed simp

lemma decr_length:
  "cnt_ok c n \<Longrightarrow> k \<le> n \<Longrightarrow> \<exists>c'. cnt_ok c' (n - k) \<and> ZIPLIST_INCR_LENGTH (hdr N t c @ m) (- int k) = Some (hdr N t c' @ m)"
proof -
  assume c: "cnt_ok c n" "k \<le> n"
  show ?thesis
  proof (cases "c = 65535")
    case True
    then show ?thesis by (intro exI [of _ c]) (simp add: ZIPLIST_INCR_LENGTH_def cnt_ok_def)
  next
    case False
    then have "c = n" "n < 65535" using c by (simp_all add: cnt_ok_def)
    then show ?thesis using hdr_write(3) [of N t c m "n - k"] c(2)
      by (intro exI [of _ "n - k"]) (auto simp: ZIPLIST_INCR_LENGTH_def cnt_ok_def of_nat_diff)
  qed
qed

text \<open>The new length field is written so that it ends where the old one ends.\<close>

lemma write_field_before:
  assumes "length f' \<le> length D + length f"
  shows "\<exists>D'. length D' + length f' = length D + length f \<and>
     mem_write (H @ D @ f @ Y) (length H + length D + length f - length f') f' = Some (H @ D' @ map Some f' @ Y)"
proof -
  let ?k = "length D + length f - length f'"
  let ?D = "take ?k (D @ f)"
  have s: "H @ D @ f @ Y = (H @ ?D) @ drop ?k (D @ f) @ Y" using append_take_drop_id [of ?k "D @ f"] by simp
  have l: "length ?D = ?k" "length (drop ?k (D @ f)) = length f'" using assms by simp_all
  have "mem_write ((H @ ?D) @ drop ?k (D @ f) @ Y) (length H + length D + length f - length f') f' = Some ((H @ ?D) @ map Some f' @ Y)"
    by (rule mem_write_at) (use l assms in simp_all)
  then have "mem_write (H @ D @ f @ Y) (length H + length D + length f - length f') f' = Some (H @ ?D @ map Some f' @ Y)"
    unfolding s by simp
  moreover have "length ?D + length f' = length D + length f" using l assms by simp
  ultimately show ?thesis by blast
qed

lemma move_down:
  "\<exists>R. R \<noteq> [] \<and> mem_move (H @ D' @ X @ [z]) (length H) (length H + length D') (length X) = Some (H @ X @ R)"
proof -
  have "mem_move (H @ D' @ X @ [z]) (length H) (length H + length D') (length X) = Some (H @ X @ drop (length X) (D' @ X @ [z]))"
    by (simp add: mem_move_def)
  moreover have "drop (length X) (D' @ X @ [z]) \<noteq> []" by simp
  ultimately show ?thesis by blast
qed

lemma delete_end:
  assumes r: "zl_rep zl (xs @ ds)" and ds: "ds \<noteq> []" and num: "length ds \<le> num"
  shows "\<exists>zl'. ziplistDelete_at zl (offs xs) num = Some zl' \<and> zl_rep zl' xs"
proof -
  obtain d ds' where d: "ds = d # ds'" using ds by (cases ds) auto
  define A where "A = map Some (entries 0 xs)"
  obtain c where c: "cnt_ok c (length (xs @ ds))"
    "zl = hdr (offs (xs @ ds) + 1) (tail_off (xs @ ds)) c @ map Some (entries 0 (xs @ ds) @ [ZIP_END])"
    "zl_entries_ok 0 (xs @ ds)" "offs (xs @ ds) + 1 < 4294967296" using r unfolding zl_rep_def by blast
  have A: "offs xs = 10 + length A" by (simp add: A_def offs_def)
  let ?D = "map Some (entries (last_len 0 xs) ds @ [ZIP_END])"
  have zl: "zl = hdr (offs (xs @ ds) + 1) (tail_off (xs @ ds)) c @ A @ ?D" using c(2) by (simp add: A_def)
  have first: "zipEntry zl (offs xs) = Some (zl_entry_of (last_len 0 xs) d)"
    using ent_at_entry [OF rep_ent] r d by simp
  have skip: "skip_entries zl (offs xs) num = Some (offs (xs @ ds), length ds)" using skip_entries_ok [OF r] num by simp
  have tot: "u32 (offs (xs @ ds) - offs xs) = ent_bytes ds" "0 < ent_bytes ds" using c(4) d by simp_all
  have tail: "int (offs xs) - int (last_len 0 xs) = int (tail_off xs)"
    by (cases xs rule: rev_cases) (simp_all add: tail_off_def)
  have st: "set_tail zl (int (offs xs) - int (last_len 0 xs)) = Some (hdr (offs (xs @ ds) + 1) (tail_off xs) c @ A @ ?D)"
    unfolding zl tail by (rule hdr_write(2))
  have sz: "nat ((int (offs (xs @ ds) + 1) - int (ent_bytes ds) + 0) mod 4294967296) = offs xs + 1" using c(4) by simp
  have rs: "ziplistResize (hdr (offs (xs @ ds) + 1) (tail_off xs) c @ A @ ?D) (offs xs + 1) =
      Some (hdr (offs xs + 1) (tail_off xs) c @ A @ [Some ZIP_END])" using A by (intro resize_shrink) simp_all
  obtain c' where c': "cnt_ok c' (length xs)"
    "ZIPLIST_INCR_LENGTH (hdr (offs xs + 1) (tail_off xs) c @ A @ [Some ZIP_END]) (- int (length ds)) = Some (hdr (offs xs + 1) (tail_off xs) c' @ A @ [Some ZIP_END])"
    using decr_length [OF c(1), of "length ds" "offs xs + 1" "tail_off xs" "A @ [Some ZIP_END]"] by auto
  have "ziplistDelete_at zl (offs xs) num = Some (hdr (offs xs + 1) (tail_off xs) c' @ A @ [Some ZIP_END])"
    unfolding ziplistDelete_at_def first skip
    using tot rep_end [OF r] st sz rs c'(2) c(4) by (simp del: of_nat_add)
  moreover have "zl_rep (hdr (offs xs + 1) (tail_off xs) c' @ A @ [Some ZIP_END]) xs"
    unfolding zl_rep_def using c'(1) c(3,4) by (intro conjI exI [of _ c']) (simp_all add: A_def)
  ultimately show ?thesis by blast
qed


lemma delete_mid:
  assumes r: "zl_rep zl (xs @ ds @ z # zs)" and ds: "ds \<noteq> []" and num: "num = length ds"
    and b: "offs (del_list xs (z # zs)) + 1 < 4294967296"
  shows "\<exists>zl'. ziplistDelete_at zl (offs xs) num = Some zl' \<and> zl_rep zl' (del_list xs (z # zs))"
proof -
  obtain d ds' where d: "ds = d # ds'" using ds by (cases ds) auto
  define prev where "prev = last_len 0 xs"
  define old where "old = last_len prev ds"
  define z' where "z' = (254 \<le> prev, snd z)"
  define F where "F = fix_flags (entry_len z') zs"
  define p where "p = offs xs"
  define nd where "nd = int (prev_size (254 \<le> prev)) - int (prev_size (fst z))"
  define A where "A = map Some (entries 0 xs)"
  define D where "D = map Some (entries prev ds)"
  define Y where "Y = map Some (payload (snd z) @ entries (entry_len z) zs)"
  let ?f = "map Some (prev_field (fst z) old)" and ?f' = "prev_field (254 \<le> prev) prev"
  let ?es = "xs @ ds @ z # zs"
  obtain c where c: "cnt_ok c (length ?es)"
    "zl = hdr (offs ?es + 1) (tail_off ?es) c @ map Some (entries 0 ?es @ [ZIP_END])"
    "zl_entries_ok 0 ?es" "offs ?es + 1 < 4294967296" using r unfolding zl_rep_def by blast
  define n where "n = offs ?es + 1"
  have dl: "del_list xs (z # zs) = xs @ z' # F" by (simp add: del_list_def z'_def prev_def Let_def F_def)
  have p: "p = 10 + length A" by (simp add: p_def A_def offs_def)
  have el: "int (entry_len z') = int (entry_len z) + nd" by (simp add: entry_len_def z'_def nd_def)
  have n: "n = p + ent_bytes ds + entry_len z + ent_bytes zs + 1" by (simp add: n_def p_def)
  have ok: "prev_ok (fst d) prev" "zl_entries_ok (entry_len z) zs" using c(3) d by (simp_all add: prev_def)
  have pz: "prev_ok (fst z') prev" using ok(1) by (auto simp: z'_def prev_ok_def)
  have room: "length ?f' \<le> length D + length ?f"
    using ok(1) d by (auto simp: D_def entry_len_def prev_size_def prev_ok_def)
  have zl: "zl = hdr n (tail_off ?es) c @ A @ D @ ?f @ Y @ [Some ZIP_END]"
    using c(2) by (simp add: A_def D_def Y_def n_def prev_def old_def)
  obtain D' where D': "length D' + length ?f' = length D + length ?f"
      "mem_write zl (p + length D + length ?f - length ?f') ?f' = Some (hdr n (tail_off ?es) c @ A @ D' @ map Some ?f' @ Y @ [Some ZIP_END])"
    using write_field_before [OF room, of "hdr n (tail_off ?es) c @ A" "Y @ [Some ZIP_END]"] p zl by auto
  define X where "X = map Some ?f' @ Y"
  have X: "X = ent_cells prev z' @ map Some (entries (entry_len z) zs)" by (simp add: X_def Y_def z'_def)
  have lX: "length X = entry_len z' + ent_bytes zs" by (simp add: X entry_len_def)
  define q where "q = p + ent_bytes ds"
  define q' where "q' = p + length D'"
  have q': "nat (int q - nd) = q'" "q' = p + length D + length ?f - length ?f'"
    using D'(1) by (simp_all add: q_def q'_def nd_def D_def)
  have first: "zipEntry zl p = Some (zl_entry_of prev d)" using ent_at_entry [OF rep_ent] r d by (simp add: p_def prev_def)
  have skip: "skip_entries zl p num = Some (q, length ds)"
    using skip_entries_ok [of zl xs "ds @ z # zs" num] r num by (simp add: p_def q_def)
  have tot: "u32 (q - p) = ent_bytes ds" "0 < ent_bytes ds" using c(4) d by (simp_all add: q_def)
  have r': "zl_rep zl ((xs @ ds) @ z # zs)" using r by simp
  have oq: "offs (xs @ ds) = q" by (simp add: q_def p_def)
  obtain b0 where b0: "zl_byte zl q = Some b0" "b0 \<noteq> ZIP_END" using rep_byte [OF r'] unfolding oq by blast
  have diff: "zipPrevLenByteDiff zl q prev = Some nd"
    using ent_at_prevlensize [OF rep_ent [OF r']] unfolding oq by (simp add: zipPrevLenByteDiff_def zipPrevEncodeLength_field nd_def)
  let ?z = "\<lambda>t. hdr n t c @ A @ D' @ X @ [Some ZIP_END]"
  have bz: "entry_len z' + ent_bytes zs < 4294967296"
    using b dl fix_flags_bytes [of zs "entry_len z'"] by (simp add: F_def)
  have wr: "mem_write zl q' (zipPrevEncodeLength prev) = Some (?z (tail_off ?es))"
    using D'(2) by (simp add: q'(2) zipPrevEncodeLength_field X_def)
  define t1 where "t1 = p + ent_bytes (butlast (z # zs))"
  define t2 where "t2 = p + ent_bytes (butlast (z' # zs))"
  have tail: "tail_off ?es = t1 + ent_bytes ds" by (simp add: tail_off_def butlast_append t1_def p_def)
  have tle: "tail_off ?es < 4294967296" using rep_header [OF r] c(4) by (simp add: tail_off_def butlast_append) (cases zs rule: rev_cases; simp)
  have s1: "set_tail (?z (tail_off ?es)) (int (tail_off ?es) - int (ent_bytes ds)) = Some (?z t1)"
    using hdr_write(2) [of n "tail_off ?es" c "A @ D' @ X @ [Some ZIP_END]" t1] tail by simp
  have Xe: "X @ [Some ZIP_END] = ent_cells prev z' @ map Some (entries (entry_len z) zs @ [ZIP_END])" by (simp add: X)
  have "ent_at (?z t) q' prev z'" for t
    unfolding Xe using ent_at_cells [OF pz, of "hdr n t c @ A @ D'" q'] bz p by (simp add: q'_def)
  note en = ent_at_entry [OF this]
  have "\<exists>b. zl_byte (?z t) (q' + entry_len z') = Some b \<and> (b = ZIP_END \<longleftrightarrow> zs = [])" for t
    unfolding Xe using entries_byte [OF ok(2), of "hdr n t c @ A @ D' @ ent_cells prev z'" "q' + entry_len z'"] bz p
    by (simp add: q'_def entry_len_def)
  then obtain b1 where b1: "zl_byte (?z t) (q' + entry_len z') = Some (b1 t)" "b1 t = ZIP_END \<longleftrightarrow> zs = []" for t by metis
  have hz: "q' + headersize (zl_entry_of prev z') + zlen (zl_entry_of prev z') = q' + entry_len z'"
    by (simp only: add.assoc zl_entry_of_len)
  have t12: "if zs = [] then t2 = t1 else int t2 = int t1 + nd" using el by (simp add: t1_def t2_def)
  have t1b: "t1 < 4294967296" using tle tail by simp
  have s2: "(if b1 t1 \<noteq> ZIP_END then do { t \<leftarrow> ZIPLIST_TAIL_OFFSET (?z t1); set_tail (?z t1) (int t + nd) } else Some (?z t1)) = Some (?z t2)"
    using t12 t1b b1(2) [of t1] hdr_write(2) [of n t1 c "A @ D' @ X @ [Some ZIP_END]" t2] by (cases "zs = []") simp_all
  have nb: "n < 4294967296" using c(4) by (simp add: n_def)
  obtain R where R: "R \<noteq> []" "mem_move (?z t2) p q' (length X) = Some (hdr n t2 c @ A @ X @ R)"
    using move_down [of "hdr n t2 c @ A" D' X "Some ZIP_END"] p by (auto simp: q'_def)
  have "int (length D') + int (prev_size (254 \<le> prev)) = int (ent_bytes ds) + int (prev_size (fst z))"
    using D'(1) by (simp add: D_def flip: of_nat_add)
  then have lD: "int n - int q' - 1 = int (length X)" using n el by (simp add: q'_def lX nd_def)
  have mv: "zl_move (?z t2) (int p) (int q') (int n - int q' - 1) = Some (hdr n t2 c @ A @ X @ R)"
    unfolding lD using R(2) by (simp add: zl_move_def)
  have N: "int n - int (ent_bytes ds) + nd = int (p + length X + 1)" using n el lX by simp
  have Nb: "p + length X + 1 < 4294967296"
    using b dl fix_flags_bytes [of zs "entry_len z'"] by (simp add: F_def lX p_def)
  have sz: "nat ((int n - int (ent_bytes ds) + nd) mod 4294967296) = p + length X + 1" unfolding N using Nb by simp
  have rs: "ziplistResize (hdr n t2 c @ A @ X @ R) (p + length X + 1) = Some (hdr (p + length X + 1) t2 c @ A @ X @ [Some ZIP_END])"
    using resize_shrink [of "p + length X + 1" "A @ X" R n t2 c] R(1) p by simp
  obtain c' where c': "cnt_ok c' (length xs + Suc (length zs))"
    "ZIPLIST_INCR_LENGTH (hdr (p + length X + 1) t2 c @ A @ X @ [Some ZIP_END]) (- int (length ds)) = Some (hdr (p + length X + 1) t2 c' @ A @ X @ [Some ZIP_END])"
    using decr_length [OF c(1), of "length ds" "p + length X + 1" t2 "A @ X @ [Some ZIP_END]"] by auto
  let ?R = "hdr (p + entry_len z' + ent_bytes F + 1) (p + ent_bytes (butlast (z' # F))) c' @ A @ ent_cells prev z' @
       map Some (entries (entry_len z') F @ [ZIP_END])"
  have cas: "(if nd \<noteq> 0 then ziplistCascadeUpdate (hdr (p + length X + 1) t2 c' @ A @ X @ [Some ZIP_END]) p
      else Some (hdr (p + length X + 1) t2 c' @ A @ X @ [Some ZIP_END])) = Some ?R"
  proof (rule cascade_if [OF pz ok(2) el p F_def])
    show "p + entry_len z' + ent_bytes F + 1 < 4294967296" using b dl by (simp add: p_def)
    show "hdr (p + length X + 1) t2 c' @ A @ X @ [Some ZIP_END] = hdr (p + entry_len z' + ent_bytes zs + 1) (p + ent_bytes (butlast (z' # zs))) c' @
        A @ ent_cells prev z' @ map Some (entries (entry_len z) zs @ [ZIP_END])"
      unfolding Xe lX t2_def by (simp add: add.assoc)
  qed
  have bytes: "ZIPLIST_BYTES (?z t2) = Some n" "ZIPLIST_BYTES (hdr n t2 c @ A @ X @ R) = Some n" "ZIPLIST_TAIL_OFFSET (?z (tail_off ?es)) = Some (tail_off ?es)"
    using nb tle by simp_all
  have "ziplistDelete_at zl p num = Some ?R"
    unfolding ziplistDelete_at_def first bind.bind_lunit skip prod.case Let_def tot(1) if_P [OF tot(2)] b0(1) if_P [OF b0(2)]
      zl_entry_of_simps diff q'(1) wr bytes s1 en hz b1(1) s2 mv sz rs c'(2) cas ..
  moreover have "zl_rep ?R (xs @ z' # F)"
    unfolding zl_rep_def
  proof (intro conjI exI [of _ c'])
    have "zl_entries_ok (entry_len z') F" unfolding F_def using ok(2) b dl by (intro fix_flags_ok) (simp_all add: F_def)
    then show "zl_entries_ok 0 (xs @ z' # F)" using c(3) pz by (simp add: prev_def)
    show "cnt_ok c' (length (xs @ z' # F))" using c'(1) by (simp add: F_def)
    have "offs (xs @ z' # F) + 1 = p + entry_len z' + ent_bytes F + 1" "tail_off (xs @ z' # F) = p + ent_bytes (butlast (z' # F))"
      by (simp_all add: p_def tail_off_def butlast_append)
    then show "?R = hdr (offs (xs @ z' # F) + 1) (tail_off (xs @ z' # F)) c' @ map Some (entries 0 (xs @ z' # F) @ [ZIP_END])"
      by (simp add: A_def prev_def add.assoc)
    show "offs (xs @ z' # F) + 1 < 4294967296" using b dl by simp
  qed
  ultimately show ?thesis unfolding dl p_def by blast
qed

text \<open>The first entry of every list the operations build has a short length field.\<close>

definition head_short :: "zent list \<Rightarrow> bool" where
  "head_short es \<longleftrightarrow> es = [] \<or> \<not> fst (hd es)"

lemma head_short_ins: "head_short (xs @ ys) \<Longrightarrow> head_short (ins_list xs s ys)"
  by (cases xs) (simp_all add: head_short_def ins_list_def Let_def)

lemma head_short_del: "head_short (xs @ ys) \<Longrightarrow> head_short (del_list xs (drop n ys))"
  by (cases xs) (simp_all add: head_short_def del_list_def Let_def split: list.split)

lemma del_list_bytes: "offs (del_list xs zs) \<le> offs (xs @ zs) + 4 * length zs"
proof (cases zs)
  case (Cons z zs')
  let ?z = "(254 \<le> last_len 0 xs, snd z)"
  have "entry_len ?z \<le> entry_len z + 4" by (simp add: entry_len_def prev_size_def)
  then show ?thesis using Cons fix_flags_bytes_le [of "entry_len ?z" zs'] by (simp add: del_list_def Let_def)
qed (simp add: del_list_def)

lemma delete_at_ok:
  assumes r: "zl_rep zl (xs @ ys)" and ys: "ys \<noteq> []" and b: "offs (xs @ ys) + 4 * length ys + 1 < 4294967296"
  shows "\<exists>zl' es'. ziplistDelete_at zl (offs xs) num = Some zl' \<and> zl_rep zl' es' \<and> map snd es' = map snd (xs @ drop num ys) \<and>
     (head_short (xs @ ys) \<longrightarrow> head_short es')"
proof (cases "num = 0")
  case True
  obtain y ys' where "ys = y # ys'" using ys by (cases ys) auto
  then have "zipEntry zl (offs xs) = Some (zl_entry_of (last_len 0 xs) y)" using ent_at_entry [OF rep_ent] r by simp
  then show ?thesis using True r by (intro exI [of _ zl] exI [of _ "xs @ ys"]) (simp add: ziplistDelete_at_def)
next
  case False
  show ?thesis
  proof (cases "drop num ys")
    case Nil
    then have "length ys \<le> num" by simp
    then obtain zl' where "ziplistDelete_at zl (offs xs) num = Some zl'" "zl_rep zl' xs" using delete_end [OF r ys] by blast
    moreover have "head_short (xs @ ys) \<longrightarrow> head_short xs" by (cases xs) (simp_all add: head_short_def)
    ultimately show ?thesis using Nil by (intro exI [of _ zl'] exI [of _ xs]) simp
  next
    case (Cons z zs)
    then have ys: "ys = take num ys @ z # zs" by (metis append_take_drop_id)
    have "num < length ys" using Cons by (metis drop_all not_le list.distinct(1))
    then have num: "num = length (take num ys)" "take num ys \<noteq> []" using False by auto
    have r': "zl_rep zl (xs @ take num ys @ z # zs)" using r ys by simp
    have "offs (xs @ (z # zs)) + 4 * length (z # zs) \<le> offs (xs @ ys) + 4 * length ys"
    proof -
      have "ent_bytes ys = ent_bytes (take num ys) + ent_bytes (z # zs)" "length ys = length (take num ys) + length (z # zs)"
        using arg_cong [OF ys, of ent_bytes] arg_cong [OF ys, of length] unfolding ent_bytes_simps(3) length_append by blast+
      then show ?thesis unfolding offs_simps(3) by linarith
    qed
    then have "offs (del_list xs (z # zs)) + 1 < 4294967296" using b del_list_bytes [of xs "z # zs"] by linarith
    from delete_mid [OF r' num(2,1) this] show ?thesis
      using del_list_snd [of xs "z # zs"] head_short_del [of xs ys num] Cons by auto
  qed
qed

section \<open>Merging\<close>

lemma merge_bytes_ok:
  assumes "length hf = 10" and "length hg = 10" and "Y \<noteq> []"
    and "fb = 10 + length X + 1" and "sb = 10 + length Y"
  shows "merge_bytes (hf @ X @ [e]) fb (hg @ Y) sb app = Some (hf @ X @ Y)"
proof -
  have n: "fb + sb - ZIPLIST_HEADER_SIZE - 1 = 10 + length X + length Y" using assms by simp
  show ?thesis
  proof (cases app)
    case True
    obtain k where k: "length Y = Suc k" using assms(3) by (cases Y) auto
    have "mem_resize (hf @ X @ [e]) (10 + length X + length Y) = hf @ X @ [e] @ replicate k None"
      using assms(1) k by (simp add: mem_resize_def)
    then show ?thesis using True assms k unfolding merge_bytes_def Let_def n by (simp add: mem_copy_def)
  next
    case False
    have "mem_resize (hg @ Y) (10 + length X + length Y) = hg @ Y @ replicate (length X) None"
      using assms(2) by (simp add: mem_resize_def)
    then show ?thesis using False assms unfolding merge_bytes_def Let_def n by (simp add: mem_copy_def mem_move_def)
  qed
qed

lemma merge_cnt: "cnt_ok c n \<Longrightarrow> cnt_ok c' n' \<Longrightarrow> cnt_ok (min (c + c') 65535) (n + n')"
  by (auto simp: cnt_ok_def min_def)

text \<open>The seam: the first entry of the second list gets the length of the last entry of the first.\<close>

lemma merge_seam:
  assumes x: "zl_entries_ok 0 xs" and y: "zl_entries_ok 0 ys" and ne: "ys = [] \<longrightarrow> xs = []"
    and b: "offs (xs @ fix_flags (last_len 0 xs) ys) + 1 < 4294967296"
  shows "ziplistCascadeUpdate (hdr (offs xs + ent_bytes ys + 1) (offs xs + (tail_off ys - 10)) c @ map Some (entries 0 xs @ entries 0 ys @ [ZIP_END])) (tail_off xs) =
     Some (hdr (offs (xs @ fix_flags (last_len 0 xs) ys) + 1) (tail_off (xs @ fix_flags (last_len 0 xs) ys)) c @
       map Some (entries 0 (xs @ fix_flags (last_len 0 xs) ys) @ [ZIP_END]))"
proof (cases xs rule: rev_cases)
  case Nil
  show ?thesis
  proof (cases ys)
    case Nil
    then have "zl_byte (hdr n t c @ map Some [ZIP_END]) 10 = Some ZIP_END" for n t
      using zl_at_here [of "hdr n t c" 10 "[ZIP_END]" "[]"] by (auto intro: zl_at_byte)
    then show ?thesis using Nil \<open>xs = []\<close> by (simp add: ziplistCascadeUpdate_def tail_off_def) (subst cascade_loop.simps, simp)
  next
    case (Cons y' ys')
    then have f: "fix_flags 0 ys = ys" "fix_flags (entry_len y') ys' = ys'" using y by (simp_all add: fix_flags_id)
    have t: "tail_off ys = 10 + ent_bytes (butlast (y' # ys'))" using Cons by (simp add: tail_off_def offs_def)
    let ?Z = "hdr (10 + entry_len y' + ent_bytes ys' + 1) (tail_off ys) c @ [] @ ent_cells 0 y' @ map Some (entries (entry_len y') ys' @ [ZIP_END])"
    have "(if ys' = [] then tail_off ys else 10 + length ([] :: cmemory) + entry_len y' + ent_bytes (butlast ys')) = tail_off ys"
      unfolding t by simp
    moreover have "ys' \<noteq> [] \<longrightarrow> tail_off ys = 10 + length ([] :: cmemory) + entry_len y' + ent_bytes (butlast ys')" unfolding t by simp
    moreover have "10 + entry_len y' + ent_bytes ys' + 1 < 4294967296" using b f \<open>xs = []\<close> Cons by (simp add: offs_def)
    ultimately have "ziplistCascadeUpdate ?Z (10 + length ([] :: cmemory)) = Some ?Z"
      using ziplistCascadeUpdate_ok [of y' 0 "entry_len y'" ys' "10 + entry_len y' + ent_bytes ys' + 1" "[]" "tail_off ys" c, unfolded f(2)] y Cons
      by simp
    moreover have "10 \<le> tail_off ys" "offs ys = 10 + entry_len y' + ent_bytes ys'" using Cons by (simp_all add: tail_off_def offs_def)
    ultimately show ?thesis using \<open>xs = []\<close> Cons f by (simp add: tail_off_def [of "[]"])
  qed
next
  case (snoc xs' x)
  let ?F = "fix_flags (entry_len x) ys"
  have ys: "ys \<noteq> []" using ne snoc by simp
  let ?P = "map Some (entries 0 xs')"
  have P: "10 + length ?P = offs xs'" by (simp add: offs_def)
  have t: "tail_off ys - 10 = ent_bytes (butlast ys)" by (simp add: tail_off_def offs_def)
  have "ziplistCascadeUpdate (hdr (offs xs' + entry_len x + ent_bytes ys + 1) (offs xs' + entry_len x + ent_bytes (butlast ys)) c @ ?P @ ent_cells (last_len 0 xs') x @
        map Some (entries 0 ys @ [ZIP_END])) (offs xs') =
     Some (hdr (offs xs' + entry_len x + ent_bytes ?F + 1) (offs xs' + entry_len x + ent_bytes (butlast ?F)) c @ ?P @ ent_cells (last_len 0 xs') x @
        map Some (entries (entry_len x) ?F @ [ZIP_END]))"
    using ziplistCascadeUpdate_ok [of x "last_len 0 xs'" 0 ys "offs xs' + entry_len x + ent_bytes ys + 1" ?P "offs xs' + entry_len x + ent_bytes (butlast ys)" c, unfolded P]
      x y ys b snoc by simp
  then show ?thesis using snoc t ys by (simp add: tail_off_def butlast_append add.assoc)
qed

lemma ziplistMerge_cascade:
  assumes f: "zl_rep f xs" and g: "zl_rep g ys"
  shows "\<exists>c keep. cnt_ok c (length xs + length ys) \<and> c < 65536 \<and> ziplistMerge False (Some f) (Some g) =
     map_option (\<lambda>m. (Some m, if keep then Some m else None, if keep then None else Some m))
       (ziplistCascadeUpdate (hdr (offs xs + ent_bytes ys + 1) (offs xs + (tail_off ys - 10)) c @ map Some (entries 0 xs @ entries 0 ys @ [ZIP_END])) (tail_off xs))"
proof -
  obtain c where c: "cnt_ok c (length xs)" "f = hdr (offs xs + 1) (tail_off xs) c @ map Some (entries 0 xs) @ [Some ZIP_END]"
    using f unfolding zl_rep_def by auto
  obtain c' where c': "cnt_ok c' (length ys)" "g = hdr (offs ys + 1) (tail_off ys) c' @ map Some (entries 0 ys @ [ZIP_END])"
    using g unfolding zl_rep_def by auto
  note hf = rep_header [OF f] and hg = rep_header [OF g]
  have len: "ZIPLIST_LENGTH f = Some c" "ZIPLIST_LENGTH g = Some c'" using c(1,2) c'(1,2) by (auto simp: cnt_ok_def)
  let ?B = "map Some (entries 0 xs @ entries 0 ys @ [ZIP_END])"
  have mb: "merge_bytes f (offs xs + 1) g (offs ys + 1) k = Some (hdr (offs xs + 1) (tail_off xs) c @ ?B)" for k
    using merge_bytes_ok [of "hdr (offs xs + 1) (tail_off xs) c" "hdr (offs ys + 1) (tail_off ys) c'" "map Some (entries 0 ys @ [ZIP_END])"
      "offs xs + 1" "map Some (entries 0 xs)" "offs ys + 1" "Some ZIP_END" k] c(2) c'(2) by (simp add: offs_def)
  have "int (offs xs + 1 + (offs ys + 1)) - int 10 - 1 = int (offs xs + ent_bytes ys + 1)" by (simp add: offs_def)
  then have w1: "set_bytes (hdr n t k @ ?B) (int (offs xs + 1 + (offs ys + 1)) - int 10 - 1) = Some (hdr (offs xs + ent_bytes ys + 1) t k @ ?B)" for n t k
    by (simp only: hdr_write(1))
  have "int (offs xs + 1) - 1 + (int (tail_off ys) - int 10) = int (offs xs + (tail_off ys - 10))" by (simp add: offs_def tail_off_def)
  then have w2: "set_tail (hdr n t k @ ?B) (int (offs xs + 1) - 1 + (int (tail_off ys) - int 10)) = Some (hdr n (offs xs + (tail_off ys - 10)) k @ ?B)" for n t k
    by (simp only: hdr_write(2))
  have o: "do { m \<leftarrow> x; Some (g m) } = map_option g x" for x and g :: "cmemory \<Rightarrow> 'b" by (cases x) simp_all
  let ?c = "min (c + c') 65535"
  have "ziplistMerge False (Some f) (Some g) = map_option (\<lambda>m. (Some m, if c \<ge> c' then Some m else None, if c \<ge> c' then None else Some m))
       (ziplistCascadeUpdate (hdr (offs xs + ent_bytes ys + 1) (offs xs + (tail_off ys - 10)) ?c @ ?B) (tail_off xs))"
    unfolding ziplistMerge_def prod.case option.case if_False conjunct1 [OF hf] conjunct1 [OF hg] conjunct1 [OF conjunct2 [OF hf]]
      conjunct1 [OF conjunct2 [OF hg]] len bind.bind_lunit Let_def mb w1 w2 hdr_write(3) o ..
  moreover have "cnt_ok ?c (length xs + length ys)" "?c < 65536" using merge_cnt [OF c(1) c'(1)] by simp_all
  ultimately show ?thesis by blast
qed

lemma ziplistMerge_ok:
  assumes f: "zl_rep f xs" and g: "zl_rep g ys" and ne: "ys = [] \<longrightarrow> xs = []"
    and b: "offs xs + ent_bytes ys + 4 * length ys + 1 < 4294967296"
  shows "\<exists>m keep. ziplistMerge False (Some f) (Some g) = Some (Some m, if keep then Some m else None, if keep then None else Some m) \<and>
     zl_rep m (xs @ fix_flags (last_len 0 xs) ys)"
proof -
  let ?es = "xs @ fix_flags (last_len 0 xs) ys"
  have ok: "zl_entries_ok 0 xs" "zl_entries_ok 0 ys" using f g by (simp_all add: rep_entries_ok)
  have bd: "offs ?es + 1 < 4294967296" using b fix_flags_bytes_le [of "last_len 0 xs" ys] by simp
  obtain c keep where c: "cnt_ok c (length xs + length ys)" and m: "ziplistMerge False (Some f) (Some g) =
     map_option (\<lambda>m. (Some m, if keep then Some m else None, if keep then None else Some m))
       (ziplistCascadeUpdate (hdr (offs xs + ent_bytes ys + 1) (offs xs + (tail_off ys - 10)) c @ map Some (entries 0 xs @ entries 0 ys @ [ZIP_END])) (tail_off xs))"
    using ziplistMerge_cascade [OF f g] by blast
  have "zl_rep (hdr (offs ?es + 1) (tail_off ?es) c @ map Some (entries 0 ?es @ [ZIP_END])) ?es"
    unfolding zl_rep_def
  proof (intro conjI exI [of _ c])
    have "zl_entries_ok (last_len 0 xs) (fix_flags (last_len 0 xs) ys)" using ok(2) bd last_len_le [of xs]
      by (intro fix_flags_ok) (simp_all add: offs_def)
    then show "zl_entries_ok 0 ?es" using ok(1) by simp
  qed (use c bd in simp_all)
  then show ?thesis unfolding m merge_seam [OF ok ne bd] by auto
qed

text \<open>With an empty second list the tail offset points behind the last entry.\<close>

lemma merge_empty_second:
  assumes f: "zl_rep f xs" and g: "zl_rep g []" and ne: "xs \<noteq> []"
  shows "\<exists>m keep. ziplistMerge False (Some f) (Some g) = Some (Some m, if keep then Some m else None, if keep then None else Some m) \<and>
     ziplistIndex m (- 1) = Some None"
proof -
  obtain xs' x where xs: "xs = xs' @ [x]" using ne by (cases xs rule: rev_cases) auto
  let ?P = "map Some (entries 0 xs')"
  have P: "10 + length ?P = offs xs'" by (simp add: offs_def)
  have ok: "zl_entries_ok 0 xs" "offs xs + 1 < 4294967296" using f by (simp_all add: zl_rep_def)
  let ?m = "\<lambda>c. hdr (offs xs + 1) (offs xs) c @ map Some (entries 0 xs @ [ZIP_END])"
  have "ziplistCascadeUpdate (?m c) (offs xs') = Some (?m c)" for c
    using ziplistCascadeUpdate_ok [of x "last_len 0 xs'" 0 "[]" "offs xs + 1" ?P "offs xs" c, unfolded P] ok xs by simp
  moreover have "tail_off ([] :: zent list) = 10" "tail_off xs = offs xs'" using xs by (simp_all add: tail_off_def)
  moreover have "ziplistIndex (?m c) (- 1) = Some None" for c
  proof -
    have "zl_byte (?m c) (offs xs) = Some ZIP_END"
      using zl_at_here [of "hdr (offs xs + 1) (offs xs) c @ map Some (entries 0 xs)" "offs xs" "[ZIP_END]" "[]"]
      by (intro zl_at_byte) (simp add: offs_def)
    then show ?thesis using ok(2) by (simp add: ziplistIndex_def)
  qed
  moreover obtain c keep where "ziplistMerge False (Some f) (Some g) =
      map_option (\<lambda>m. (Some m, if keep then Some m else None, if keep then None else Some m))
       (ziplistCascadeUpdate (hdr (offs xs + ent_bytes [] + 1) (offs xs + (tail_off [] - 10)) c @ map Some (entries 0 xs @ entries 0 [] @ [ZIP_END])) (tail_off xs))"
    using ziplistMerge_cascade [OF f g] by blast
  ultimately show ?thesis by (intro exI [of _ "?m c"] exI [of _ keep]) simp
qed

section \<open>Strings at positions\<close>

text \<open>The bytes an insertion may need, and the lists with that much room.\<close>

definition zl_room :: "zent list \<Rightarrow> bytes \<Rightarrow> bool" where
  "zl_room es s \<longleftrightarrow> offs es + length s + 4 * length es + 23 < 4294967296"

text \<open>Inserting between entries goes wrong when a new entry of two or three bytes comes before an entry
  whose length field has four bytes to give back.\<close>

definition insert_safe :: "zent list \<Rightarrow> nat \<Rightarrow> bytes \<Rightarrow> bool" where
  "insert_safe es i s \<longleftrightarrow> i < length es \<and> fst (es ! i) \<longrightarrow> 4 \<le> entry_len (254 \<le> last_len 0 (take i es), s)"

lemma insert_ok:
  assumes "zl_rep zl es" and "i \<le> length es" and "zl_room es s" and "insert_safe es i s"
  shows "\<exists>zl'. ziplistInsert_at zl (offs (take i es)) s = Some zl' \<and> zl_rep zl' (ins_list (take i es) s (drop i es))"
proof (rule insert_at_ok)
  show "offs (take i es @ drop i es) + length s + 4 * length (drop i es) + 23 < 4294967296"
    using assms(3) unfolding append_take_drop_id zl_room_def by simp
  show "\<not> (drop i es \<noteq> [] \<and> fst (hd (drop i es)) \<and> entry_len (254 \<le> last_len 0 (take i es), s) < 4)"
    using assms(2,4) by (auto simp: insert_safe_def hd_drop_conv_nth)
qed (use assms in simp)

lemma push_ok:
  assumes r: "zl_rep zl es" and h: "head_short es" and "zl_room es s"
  shows "\<exists>zl' es'. ziplistPush zl s at_head = Some zl' \<and> zl_rep zl' es' \<and> head_short es' \<and>
     map snd es' = (if at_head then s # map snd es else map snd es @ [s])"
proof (cases at_head)
  case True
  have "insert_safe es 0 s" using h by (cases es) (auto simp: insert_safe_def head_short_def)
  then obtain zl' where z: "ziplistInsert_at zl 10 s = Some zl'" "zl_rep zl' (ins_list [] s es)"
    using insert_ok [OF r _ assms(3), of 0] by auto
  then show ?thesis using True h head_short_ins [of "[]" es s] ins_list_snd [of "[]" s es] by (auto simp: ziplistPush_def)
next
  case False
  have "insert_safe es (length es) s" by (simp add: insert_safe_def)
  then obtain zl' where z: "ziplistInsert_at zl (offs es) s = Some zl'" "zl_rep zl' (ins_list es s [])"
    using insert_ok [OF r _ assms(3), of "length es"] by auto
  then show ?thesis using False h head_short_ins [of es "[]" s] ins_list_snd [of es s "[]"] rep_header [OF r]
    by (intro exI [of _ zl'] exI [of _ "ins_list es s []"]) (simp add: ziplistPush_def)
qed

section \<open>Insertion before a long length field\<close>

lemma zl_byte_nth: "zl_byte zl p = (if p < length zl then zl ! p else None)"
proof (cases "p < length zl")
  case True
  then have "take 1 (drop p zl) = [zl ! p]" by (simp add: Cons_nth_drop_Suc [symmetric])
  then show ?thesis using True by (cases "zl ! p") (auto simp: zl_byte_def mem_read_def)
qed (simp add: zl_byte_def mem_read_def)

lemma insert_overrun:
  assumes r: "zl_rep zl (xs @ y # ys)" and y: "fst y" and e: "entry_len (254 \<le> last_len 0 xs, s) = 2"
  shows "ziplistInsert_at zl (offs xs) s = None"
proof -
  define prev where "prev = last_len 0 xs"
  define p where "p = offs xs"
  obtain v enc r0 where ch: "enc_choice s = (v, enc, r0)" by (cases "enc_choice s") auto
  have req: "2 = r0 + length (zipPrevEncodeLength prev) + length (zipEncodeLength enc (length s))"
    using enc_choice_len [OF ch] e by (simp add: entry_len_def prev_def zipPrevEncodeLength_field)
  define n where "n = offs (xs @ y # ys) + 1"
  obtain c where c: "zl = hdr n (tail_off (xs @ y # ys)) c @ map Some (entries 0 (xs @ y # ys) @ [ZIP_END])"
    "n < 4294967296" "prev_ok (fst y) prev" using r unfolding zl_rep_def n_def by (auto simp: prev_def)
  have n: "n = p + entry_len y + ent_bytes ys + 1" by (simp add: n_def p_def)
  obtain b0 where b0: "zl_byte zl p = Some b0" "b0 \<noteq> ZIP_END" using rep_byte [OF r] by (auto simp: p_def)
  have "ZIPLIST_BYTES zl = Some n" "insert_prevlen zl p = Some prev"
    using rep_header [OF r] insert_prevlen_ok [OF r] by (simp_all add: prev_def p_def n_def)
  note unf = ziplistInsert_at_unfold [OF this ch req b0(1)]
  have diff: "(if b0 \<noteq> ZIP_END then zipPrevLenByteDiff zl p (u32 2) else Some 0) = Some (- 4)"
    using b0(2) ent_at_prevlensize [OF rep_ent [OF r]] y by (simp add: zipPrevLenByteDiff_def zipPrevEncodeLength_field p_def prev_size_def)
  have "1 \<le> length (payload (snd y))" using payload_pos(1) [of "snd y"] by linarith
  then have ey: "6 \<le> entry_len y" using y by (simp add: entry_len_def prev_size_def)
  have p10: "10 \<le> p" by (simp add: p_def offs_def)
  define B where "B = map Some (entries 0 (xs @ y # ys) @ [ZIP_END])"
  define m where "m = take (n - 13) B"
  have l: "length B = n - 10" using n by (simp add: B_def p_def offs_def entry_len_def)
  have lm: "length m = n - 13" using l by (simp add: m_def)
  have n2: "n - 2 = 10 + length m + 1" using lm n ey p10 by linarith
  have "drop (n - 13) B \<noteq> []" using l n ey p10 by simp
  moreover have "zl = hdr n (tail_off (xs @ y # ys)) c @ m @ drop (n - 13) B" using c(1) unfolding m_def B_def append_take_drop_id .
  ultimately have z': "ziplistResize zl (n - 2) = Some (hdr (n - 2) (tail_off (xs @ y # ys)) c @ m @ [Some ZIP_END])" (is "_ = Some ?z")
    using resize_shrink [OF n2, of "drop (n - 13) B" n "tail_off (xs @ y # ys)" c] by metis
  have pn: "p - 10 < n - 13" "\<not> p < 10" using n ey p10 by linarith+
  then have "?z ! p = zl ! p" using lm l unfolding c(1) [folded B_def] by (simp add: nth_append m_def)
  then have b1: "zl_byte ?z p = Some b0" using b0(1) lm n ey p10 by (simp add: zl_byte_nth split: if_splits)
  have "length ?z = n - 2" using n2 by simp
  moreover have "\<not> p + 4 + (n - p - 5) \<le> n - 2" using n ey by linarith
  ultimately have "mem_move ?z (p + 2) (p + 4) (n - p - 5) = None" by (simp only: mem_move_def simp_thms if_False)
  moreover have "nat (int n - int p - 1 + - 4) = n - p - 5" "nat (int p - - 4) = p + 4" "nat (int (p + 2)) = p + 2" using n ey by linarith+
  ultimately have "zl_move ?z (int (p + 2)) (int p - - 4) (int n - int p - 1 + - 4) = None" by (simp only: zl_move_def if_cancel)
  then have "insert_move ?z p n 2 (- 4) = None" using b1 b0(2) by (simp add: insert_move_def)
  moreover have "nat ((int (n + 2) + - 4) mod 4294967296) = n - 2" using c(2) n ey by (simp add: of_nat_diff [symmetric] del: of_nat_diff)
  ultimately show ?thesis using unf diff z' by (simp add: p_def)
qed

end
