(* ===== verification/ZiplistSpec.thy ===== *)
theory ZiplistSpec
  imports ZiplistOps "HOL-Library.Multiset"
begin

text \<open>
  The ziplist as a list of strings. \<open>zl_strings zl ss\<close> forgets the sizes of the length fields; the
  interface \<open>string_list\<close> states what the clients of \<^verbatim>\<open>ziplist.c\<close> rely on, with a bound on the total
  size, and the interpretation discharges it for the model. The properties of the component follow.
\<close>

section \<open>Strings of a ziplist\<close>

definition zl_strings :: "cmemory \<Rightarrow> bytes list \<Rightarrow> bool" where
  "zl_strings zl ss \<longleftrightarrow> (\<exists>es. zl_rep zl es \<and> head_short es \<and> map snd es = ss)"

text \<open>Strings whose entries fit a ziplist whatever the sizes of the length fields.\<close>

definition zl_fits :: "bytes list \<Rightarrow> bool" where
  "zl_fits ss \<longleftrightarrow> sum_list (map (\<lambda>s. length s + 18) ss) + 33 < 4294967296"

lemma zl_fits_offs: "offs es + 4 * length es \<le> 10 + sum_list (map (\<lambda>s. length s + 18) (map snd es))"
proof (induction es)
  case (Cons e es)
  have "entry_len e \<le> length (snd e) + 14" using payload_le [of "snd e"] by (simp add: entry_len_def prev_size_def)
  then show ?case using Cons by simp
qed simp

lemma zl_fits_room: "zl_fits (s # map snd es) \<Longrightarrow> zl_room es s"
  using zl_fits_offs [of es] by (simp add: zl_fits_def zl_room_def)

lemma zl_push:
  assumes "zl_strings zl ss" and "zl_fits (s # ss)"
  shows "\<exists>zl'. ziplistPush zl s at_head = Some zl' \<and> zl_strings zl' (if at_head then s # ss else ss @ [s])"
  using assms push_ok [OF _ _ zl_fits_room] unfolding zl_strings_def by (metis (no_types, lifting))

lemma zl_delete:
  assumes r: "zl_rep zl es" "head_short es" and i: "i < length es" and f: "zl_fits (map snd es)"
  shows "\<exists>zl'. ziplistDelete_at zl (offs (take i es)) num = Some zl' \<and>
     zl_strings zl' (take i (map snd es) @ drop (i + num) (map snd es))"
proof -
  have z: "zl_rep zl (take i es @ drop i es)" using r by simp
  have b: "offs (take i es @ drop i es) + 4 * length (drop i es) + 1 < 4294967296"
    unfolding append_take_drop_id using zl_fits_offs [of es] f i by (simp add: zl_fits_def)
  obtain zl' es' where "ziplistDelete_at zl (offs (take i es)) num = Some zl'" "zl_rep zl' es'"
      "map snd es' = map snd (take i es @ drop num (drop i es))" "head_short es'"
    using delete_at_ok [OF z _ b, of num] i r(2) unfolding append_take_drop_id by auto
  moreover from this(3) have "map snd es' = take i (map snd es) @ drop (i + num) (map snd es)"
    by (simp add: take_map drop_map add.commute)
  ultimately show ?thesis unfolding zl_strings_def by blast
qed

lemma ziplistDeleteRange_ok:
  assumes r: "zl_strings zl ss" and i: "INT32_MIN < i" and f: "zl_fits ss"
  shows "\<exists>zl'. ziplistDeleteRange zl i num = Some zl' \<and>
     zl_strings zl' (let k = (if 0 \<le> i then nat i else nat (int (length ss) + i))
       in if i < - int (length ss) then ss else take k ss @ drop (k + num) ss)"
proof -
  obtain es where es: "zl_rep zl es" "head_short es" "map snd es = ss" using r unfolding zl_strings_def by blast
  have l: "length es = length ss" using es(3) by auto
  note ix = ziplistIndex_ok [OF es(1) i]
  consider (pos) "0 \<le> i" "i < int (length ss)" | (neg) "i < 0" "- i \<le> int (length ss)" | (out) "int (length ss) \<le> i \<or> i < - int (length ss)"
    by linarith
  then show ?thesis
  proof cases
    case pos
    then have "nat i < length es" using l by simp
    then obtain zl' where "ziplistDelete_at zl (offs (take (nat i) es)) num = Some zl'" "zl_strings zl' (take (nat i) ss @ drop (nat i + num) ss)"
      using zl_delete [OF es(1,2)] f es(3) by blast
    then show ?thesis using ix pos l by (intro exI [of _ zl']) (simp add: ziplistDeleteRange_def Let_def)
  next
    case neg
    then have "nat (int (length ss) + i) < length es" "length es - nat (- i) = nat (int (length ss) + i)" using l by auto
    moreover from this(1) obtain zl' where "ziplistDelete_at zl (offs (take (nat (int (length ss) + i)) es)) num = Some zl'"
        "zl_strings zl' (take (nat (int (length ss) + i)) ss @ drop (nat (int (length ss) + i) + num) ss)"
      using zl_delete [OF es(1,2)] f es(3) by blast
    ultimately show ?thesis using ix neg l by (intro exI [of _ zl']) (simp add: ziplistDeleteRange_def Let_def)
  next
    case out
    then show ?thesis using ix r l by (auto simp: ziplistDeleteRange_def Let_def)
  qed
qed

section \<open>The interface\<close>

text \<open>A store of strings in order, as the clients of the ziplist use it.\<close>

locale string_list =
  fixes rep :: "'z \<Rightarrow> bytes list \<Rightarrow> bool" and fits :: "bytes list \<Rightarrow> bool"
    and empty :: "'z option" and push :: "'z \<Rightarrow> bytes \<Rightarrow> bool \<Rightarrow> 'z option"
    and delete :: "'z \<Rightarrow> int \<Rightarrow> nat \<Rightarrow> 'z option" and len :: "'z \<Rightarrow> (nat \<times> 'z) option"
  assumes empty_rep: "\<exists>z. empty = Some z \<and> rep z []"
    and push_rep: "rep z ss \<Longrightarrow> fits (s # ss) \<Longrightarrow> \<exists>z'. push z s at_head = Some z' \<and> rep z' (if at_head then s # ss else ss @ [s])"
    and delete_rep: "rep z ss \<Longrightarrow> fits ss \<Longrightarrow> i < length ss \<Longrightarrow> i \<le> 2147483647 \<Longrightarrow>
       \<exists>z'. delete z (int i) n = Some z' \<and> rep z' (take i ss @ drop (i + n) ss)"
    and len_rep: "rep z ss \<Longrightarrow> \<exists>z'. len z = Some (length ss, z') \<and> rep z' ss"
    and fits_perm: "mset ss = mset ts \<Longrightarrow> fits ss = fits ts"
    and fits_tail: "fits (s # ss) \<Longrightarrow> fits ss"
begin

definition push_all :: "'z \<Rightarrow> bytes list \<Rightarrow> 'z option" where
  "push_all z ss = foldl (\<lambda>z s. Option.bind z (\<lambda>z. push z s False)) (Some z) ss"

lemma fits_append: "fits (ss @ ts) \<Longrightarrow> fits ts"
  by (induction ss) (auto dest: fits_tail)

lemma push_all_rep: "rep z ss \<Longrightarrow> fits (ss @ ts) \<Longrightarrow> \<exists>z'. push_all z ts = Some z' \<and> rep z' (ss @ ts)"
proof (induction ts arbitrary: z ss)
  case Nil
  then show ?case by (simp add: push_all_def)
next
  case (Cons t ts)
  have "mset (ss @ t # ts) = mset (ts @ t # ss)" by simp
  then have "fits (ts @ t # ss)" using Cons.prems(2) fits_perm by metis
  then obtain z1 where z1: "push z t False = Some z1" "rep z1 (ss @ [t])"
    using push_rep [OF Cons.prems(1), of t False] fits_append by auto
  from Cons.IH [OF z1(2)] Cons.prems(2) obtain z' where "push_all z1 ts = Some z'" "rep z' (ss @ t # ts)" by auto
  then show ?case using z1(1) by (auto simp: push_all_def)
qed

lemma queue:
  assumes "fits ss" and "ss \<noteq> []"
  shows "\<exists>z z1 z2 z3. empty = Some z \<and> push_all z ss = Some z1 \<and> len z1 = Some (length ss, z2) \<and>
     delete z2 0 1 = Some z3 \<and> rep z3 (tl ss)"
proof -
  obtain z where z: "empty = Some z" "rep z []" using empty_rep by blast
  obtain z1 where z1: "push_all z ss = Some z1" "rep z1 ss" using push_all_rep [OF z(2), of ss] assms(1) by auto
  obtain z2 where z2: "len z1 = Some (length ss, z2)" "rep z2 ss" using len_rep [OF z1(2)] by blast
  obtain z3 where "delete z2 0 1 = Some z3" "rep z3 (drop 1 ss)" using delete_rep [OF z2(2) assms(1), of 0 1] assms(2) by auto
  then show ?thesis using z(1) z1(1) z2(1) by (metis drop_Suc drop_0 One_nat_def)
qed

end

interpretation zl: string_list zl_strings zl_fits ziplistNew ziplistPush ziplistDeleteRange ziplistLen
proof
  show "\<exists>z. ziplistNew = Some z \<and> zl_strings z []" using ziplistNew_ok by (auto simp: zl_strings_def head_short_def)
  show "zl_strings z ss \<Longrightarrow> zl_fits (s # ss) \<Longrightarrow> \<exists>z'. ziplistPush z s at_head = Some z' \<and> zl_strings z' (if at_head then s # ss else ss @ [s])"
    for z s ss at_head by (rule zl_push)
  show "\<exists>z'. ziplistDeleteRange z (int i) n = Some z' \<and> zl_strings z' (take i ss @ drop (i + n) ss)"
    if "zl_strings z ss" "zl_fits ss" "i < length ss" "i \<le> 2147483647" for z ss i n
    using ziplistDeleteRange_ok [OF that(1) _ that(2), of "int i" n] that(3) by simp
  show "\<exists>z'. ziplistLen z = Some (length ss, z') \<and> zl_strings z' ss" if "zl_strings z ss" for z ss
    using that ziplistLen_ok unfolding zl_strings_def by (metis length_map)
  show "zl_fits ss = zl_fits ts" if "mset ss = mset ts" for ss ts
  proof -
    have "sum_list (map f ss) = sum_list (map f ts)" for f :: "bytes \<Rightarrow> nat"
      using that by (metis mset_map sum_mset_sum_list)
    then show ?thesis by (simp add: zl_fits_def)
  qed
  show "zl_fits (s # ss) \<Longrightarrow> zl_fits ss" for s ss by (simp add: zl_fits_def)
qed

section \<open>Properties\<close>

text \<open>The text a client gets for an entry: the stored bytes or the decimal text of the stored integer.\<close>

definition zl_text :: "cmemory \<Rightarrow> nat \<Rightarrow> bytes option" where
  "zl_text zl p =
     (case ziplistGet zl (Some p) of
        Some (Some (Sval v)) \<Rightarrow> Some (dec_int v)
      | Some (Some (Sstr q n)) \<Rightarrow> mem_read zl q n
      | _ \<Rightarrow> None)"

lemma zl_text_ok: "zl_rep zl (xs @ e # ys) \<Longrightarrow> zl_text zl (offs xs) = Some (snd e)"
  using ziplistGet_ok [of zl xs e ys] by (auto simp: zl_text_def split: option.splits)

lemma offs_mono: "i < j \<Longrightarrow> j \<le> length es \<Longrightarrow> offs (take i es) < offs (take j es)"
proof (induction j)
  case (Suc j)
  have "offs (take j es) < offs (take (Suc j) es)" using Suc.prems(2) by (simp add: take_Suc_conv_app_nth)
  then show ?case using Suc by (cases "i = j") auto
qed simp

lemma offs_inj: "offs (take i es) = offs (take j es) \<Longrightarrow> i \<le> length es \<Longrightarrow> j \<le> length es \<Longrightarrow> i = j"
  using offs_mono [of i j es] offs_mono [of j i es] by (cases i j rule: linorder_cases) auto

text \<open>Reading a ziplist: positions count from either end, the neighbours of an entry are found in both
  directions through entries of any size, an entry is read back as the text it was stored from although
  it may be kept as an integer, comparison is equality of texts, and the search returns the first
  match among every \<open>skip + 1\<close>st entry.\<close>

theorem ziplist_reading:
  assumes "zl_rep zl es" and "i < length es" and "length es \<le> 2147483647"
  shows "ziplistIndex zl (int i) = Some (Some (offs (take i es))) \<and>
    ziplistIndex zl (int i - int (length es)) = Some (Some (offs (take i es))) \<and>
    ziplistIndex zl (int (length es)) = Some None \<and>
    ziplistNext zl (offs (take i es)) = Some (if Suc i = length es then None else Some (offs (take (Suc i) es))) \<and>
    ziplistPrev zl (offs (take i es)) = Some (if i = 0 then None else Some (offs (take (i - 1) es))) \<and>
    zl_text zl (offs (take i es)) = Some (snd (es ! i)) \<and>
    ziplistCompare zl (offs (take i es)) s = Some (snd (es ! i) = s) \<and>
    (ziplistFind zl ZIPLIST_HEADER_SIZE s skip = Some (Some (offs (take i es))) \<longleftrightarrow>
       i mod Suc skip = 0 \<and> snd (es ! i) = s \<and> (\<forall>j < i. j mod Suc skip = 0 \<longrightarrow> snd (es ! j) \<noteq> s))"
proof (intro conjI)
  let ?xs = "take i es" and ?e = "es ! i" and ?ys = "drop (Suc i) es"
  have z: "zl_rep zl (?xs @ ?e # ?ys)" using assms(1,2) by (simp add: id_take_nth_drop [symmetric])
  note ix = ziplistIndex_ok [OF assms(1)]
  show "ziplistIndex zl (int i) = Some (Some (offs ?xs))" "ziplistIndex zl (int (length es)) = Some None"
    using ix [of "int i"] ix [of "int (length es)"] assms(2) by simp_all
  have "length es - nat (int (length es) - int i) = i" using assms(2) by simp
  then show "ziplistIndex zl (int i - int (length es)) = Some (Some (offs ?xs))"
    using ix [of "int i - int (length es)"] assms(2,3) by simp
  show "ziplistNext zl (offs ?xs) = Some (if Suc i = length es then None else Some (offs (take (Suc i) es)))"
    using ziplistNext_ok [OF z] assms(2) by (simp add: take_Suc_conv_app_nth)
  have "butlast ?xs = take (i - 1) es" using assms(2) by (simp add: butlast_take)
  then show "ziplistPrev zl (offs ?xs) = Some (if i = 0 then None else Some (offs (take (i - 1) es)))"
    using ziplistPrev_ok [of zl ?xs "?e # ?ys"] z assms(2) by auto
  show "zl_text zl (offs ?xs) = Some (snd ?e)" by (rule zl_text_ok [OF z])
  show "ziplistCompare zl (offs ?xs) s = Some (snd ?e = s)" by (rule ziplistCompare_ok [OF z])
  have "zlfind_loop zl s skip (offs []) 0 (0, 0) = Some (map_option (\<lambda>i. offs ([] @ take i es)) (find_idx skip 0 s (map snd es)))"
    using assms(1) by (intro zl_find_loop_ok) (simp_all add: cache_ok_def)
  then have f: "ziplistFind zl 10 s skip = Some (map_option (\<lambda>i. offs (take i es)) (find_idx skip 0 s (map snd es)))"
    by (simp add: ziplistFind_def)
  have "find_idx skip 0 s (map snd es) = Some i" if "find_idx skip 0 s (map snd es) = Some j" "offs (take j es) = offs ?xs" for j
  proof -
    have "j < length es" using that(1) find_idx_iff [of skip 0 s "map snd es" j] by simp
    then show ?thesis using that offs_inj [of j es i] assms(2) by simp
  qed
  then have "ziplistFind zl 10 s skip = Some (Some (offs ?xs)) \<longleftrightarrow> find_idx skip 0 s (map snd es) = Some i"
    unfolding f by auto
  then show "ziplistFind zl 10 s skip = Some (Some (offs ?xs)) \<longleftrightarrow>
      i mod Suc skip = 0 \<and> snd ?e = s \<and> (\<forall>j < i. j mod Suc skip = 0 \<longrightarrow> snd (es ! j) \<noteq> s)"
    using assms(2) by (auto simp: find_idx_iff)
qed

lemma zl_build: "zl_fits ss \<Longrightarrow> \<exists>zl es. zl_rep zl es \<and> head_short es \<and> map snd es = ss"
  using zl.empty_rep zl.push_all_rep [of _ "[]" ss] by (fastforce simp: zl_strings_def)

lemma zl_example:
  obtains zl es where "zl_rep zl es" "head_short es" "map snd es = [lit ''name'', lit ''42'']"
proof -
  have "zl_fits [lit ''name'', lit ''42'']" by (simp add: zl_fits_def lit_def)
  from zl_build [OF this] show ?thesis by (elim exE conjE) (rule that)
qed

theorem ziplist_reading_witness:
  "\<exists>zl p. zl_strings zl [lit ''name'', lit ''42''] \<and> ziplistIndex zl (- 1) = Some (Some p) \<and> zl_text zl p = Some (lit ''42'')"
proof -
  obtain zl es where es: "zl_rep zl es" "head_short es" "map snd es = [lit ''name'', lit ''42'']" by (rule zl_example)
  have "length (map snd es) = 2" "map snd es ! 1 = lit ''42''" by (simp_all add: es(3))
  then have l: "length es = 2" "snd (es ! 1) = lit ''42''" by simp_all
  from ziplist_reading [OF es(1), of 1] l have "ziplistIndex zl (- 1) = Some (Some (offs (take 1 es)))" "zl_text zl (offs (take 1 es)) = Some (lit ''42'')"
    by simp_all
  with es show ?thesis unfolding zl_strings_def by (intro exI conjI)
qed

text \<open>C10. Inserting at any position puts exactly the new string there and keeps all others, in bytes: the
  length fields of the entries behind are widened as far as needed, the update ends, and no access
  leaves the allocation. The exception is a new entry of less than four bytes before an entry with
  a long length field, where the list shrinks before its end is moved.\<close>

theorem ziplistInsert_correct:
  assumes "zl_rep zl es" and "i \<le> length es" and "zl_room es s" and "insert_safe es i s"
  shows "\<exists>zl' es'. ziplistInsert zl (offs (take i es)) s = Some zl' \<and> zl_rep zl' es' \<and>
     map snd es' = take i (map snd es) @ s # drop i (map snd es)"
  using insert_ok [OF assms] ins_list_snd [of "take i es" s "drop i es"] by (auto simp: ziplistInsert_def take_map drop_map)

theorem ziplistInsert_correct_witness:
  "\<exists>zl zl' es'. zl_strings zl [lit ''name'', lit ''42''] \<and> ziplistInsert zl ZIPLIST_HEADER_SIZE (lit ''7'') = Some zl' \<and>
     zl_rep zl' es' \<and> map snd es' = [lit ''7'', lit ''name'', lit ''42'']"
proof -
  obtain zl es where es: "zl_rep zl es" "head_short es" "map snd es = [lit ''name'', lit ''42'']" by (rule zl_example)
  have "zl_fits (lit ''7'' # map snd es)" by (simp add: es(3) zl_fits_def lit_def)
  moreover have "insert_safe es 0 (lit ''7'')" using es(2) by (cases es) (auto simp: insert_safe_def head_short_def)
  ultimately have "\<exists>zl' es'. ziplistInsert zl 10 (lit ''7'') = Some zl' \<and> zl_rep zl' es' \<and> map snd es' = lit ''7'' # map snd es"
    using ziplistInsert_correct [OF es(1), of 0 "lit ''7''"] zl_fits_room by simp
  then show ?thesis using es unfolding zl_strings_def by metis
qed

text \<open>Strings pushed one after the other onto a new ziplist are its contents in that order, the length is
  their number, and deleting the head leaves the rest: the ziplist is a queue of strings, whatever their
  lengths, up to its size limit.\<close>

theorem ziplist_queue:
  assumes "zl_fits ss" and "ss \<noteq> []"
  shows "\<exists>z z1 z2 z3. ziplistNew = Some z \<and>
     foldl (\<lambda>z s. Option.bind z (\<lambda>z. ziplistPush z s False)) (Some z) ss = Some z1 \<and>
     ziplistLen z1 = Some (length ss, z2) \<and> ziplistDeleteRange z2 0 1 = Some z3 \<and> zl_strings z3 (tl ss)"
  using zl.queue [OF assms] unfolding zl.push_all_def .

theorem ziplist_queue_witness:
  "\<exists>z z1 z2. ziplistNew = Some z \<and>
     foldl (\<lambda>z s. Option.bind z (\<lambda>z. ziplistPush z s False)) (Some z) [lit ''a'', lit ''7''] = Some z1 \<and> ziplistLen z1 = Some (2, z2)"
proof -
  have "zl_fits [lit ''a'', lit ''7'']" by (simp add: zl_fits_def lit_def)
  from ziplist_queue [OF this] show ?thesis by (auto simp: numeral_2_eq_2)
qed

text \<open>C29. Pushing at either end adds the string there, and deleting a range removes exactly the entries from
  the given position on, counted from the front or the back; out of range nothing changes.\<close>

theorem ziplist_push_delete:
  assumes "zl_strings zl ss" and "zl_fits (s # ss)" and "INT32_MIN < i"
  shows "(\<exists>zl'. ziplistPush zl s at_head = Some zl' \<and> zl_strings zl' (if at_head then s # ss else ss @ [s])) \<and>
    (\<exists>zl'. ziplistDeleteRange zl i num = Some zl' \<and>
       zl_strings zl' (let k = (if 0 \<le> i then nat i else nat (int (length ss) + i))
         in if i < - int (length ss) then ss else take k ss @ drop (k + num) ss))"
  using zl_push [OF assms(1,2)] ziplistDeleteRange_ok [OF assms(1,3) zl.fits_tail [OF assms(2)]] by blast

theorem ziplist_push_delete_witness:
  "\<exists>zl zl'. zl_strings zl [lit ''name'', lit ''42''] \<and> ziplistDeleteRange zl (- 1) 1 = Some zl' \<and> zl_strings zl' [lit ''name'']"
proof -
  obtain zl es where es: "zl_rep zl es" "head_short es" "map snd es = [lit ''name'', lit ''42'']" by (rule zl_example)
  then have zl: "zl_strings zl [lit ''name'', lit ''42'']" unfolding zl_strings_def by (intro exI [of _ es] conjI)
  have "zl_fits [lit ''x'', lit ''name'', lit ''42'']" by (simp add: zl_fits_def lit_def)
  from ziplist_push_delete [OF zl this, of "- 1" False 1] show ?thesis using zl by (auto simp: nat_1)
qed

text \<open>Merging appends the second list to the first and frees one of the two, with the length fields at
  the seam corrected. A second list without entries is an exception: the tail offset then points to the
  end byte, and the last entry is not found from the back.\<close>

theorem ziplistMerge_correct:
  assumes "zl_rep f xs" and "zl_rep g ys"
  shows "(ys \<noteq> [] \<and> offs xs + ent_bytes ys + 4 * length ys + 1 < 4294967296 \<longrightarrow>
      (\<exists>m keep es. ziplistMerge False (Some f) (Some g) = Some (Some m, if keep then Some m else None, if keep then None else Some m) \<and>
         zl_rep m es \<and> map snd es = map snd xs @ map snd ys)) \<and>
    (ys = [] \<and> xs \<noteq> [] \<longrightarrow>
      (\<exists>m keep. ziplistMerge False (Some f) (Some g) = Some (Some m, if keep then Some m else None, if keep then None else Some m) \<and>
         ziplistIndex m (- 1) = Some None))"
proof (intro conjI impI; elim conjE)
  assume "ys \<noteq> []" "offs xs + ent_bytes ys + 4 * length ys + 1 < 4294967296"
  then obtain m keep where "ziplistMerge False (Some f) (Some g) = Some (Some m, if keep then Some m else None, if keep then None else Some m)"
      "zl_rep m (xs @ fix_flags (last_len 0 xs) ys)" using ziplistMerge_ok [OF assms] by blast
  moreover have "map snd (xs @ fix_flags (last_len 0 xs) ys) = map snd xs @ map snd ys" by simp
  ultimately show "\<exists>m keep es. ziplistMerge False (Some f) (Some g) = Some (Some m, if keep then Some m else None, if keep then None else Some m) \<and>
         zl_rep m es \<and> map snd es = map snd xs @ map snd ys" by blast
next
  assume "ys = []" "xs \<noteq> []"
  then show "\<exists>m keep. ziplistMerge False (Some f) (Some g) = Some (Some m, if keep then Some m else None, if keep then None else Some m) \<and>
         ziplistIndex m (- 1) = Some None" using merge_empty_second [OF assms(1)] assms(2) by simp
qed

theorem ziplistMerge_correct_witness:
  "\<exists>f g m r s. zl_strings f [lit ''name'', lit ''42''] \<and> zl_strings g [] \<and> ziplistMerge False (Some f) (Some g) = Some (Some m, r, s) \<and>
     ziplistIndex m (- 1) = Some None"
proof -
  obtain f es where es: "zl_rep f es" "head_short es" "map snd es = [lit ''name'', lit ''42'']" by (rule zl_example)
  obtain g where g: "zl_rep g []" using ziplistNew_ok by blast
  have ne: "es \<noteq> []" using es(3) by auto
  have "zl_strings f [lit ''name'', lit ''42'']" "zl_strings g []" using es g by (auto simp: zl_strings_def head_short_def)
  then show ?thesis using conjunct2 [OF ziplistMerge_correct [OF es(1) g]] ne by blast
qed

text \<open>C36. An insertion can leave the allocation: after pushing three strings and deleting the first one, the
  third entry keeps a long length field although its neighbour became short, and inserting a
  one-digit text before it moves memory from behind the list that was made smaller first.\<close>

theorem ziplist_insert_overrun:
  "\<exists>z3 z4 p. do { z \<leftarrow> ziplistNew; z \<leftarrow> ziplistPush z (replicate 300 97) False; z \<leftarrow> ziplistPush z (replicate 247 98) False;
       ziplistPush z (lit ''c'') False } = Some z3 \<and>
     ziplistDeleteRange z3 0 1 = Some z4 \<and> ziplistIndex z4 1 = Some (Some p) \<and> ziplistInsert z4 p (lit ''1'') = None"
proof -
  define a b c where "a = (replicate 300 97 :: bytes)" and "b = (replicate 247 98 :: bytes)" and "c = lit ''c''"
  have n: "zipTryEncoding a = None" "zipTryEncoding b = None" by (simp_all add: zipTryEncoding_def a_def b_def)
  have pa: "length (payload a) = 302" "length (payload b) = 249" using n by (simp_all add: length_payload pl_lensize_def pl_len_def a_def b_def)
  have p1: "length (payload (lit ''1'')) = 1"
    by (simp add: length_payload pl_lensize_def pl_len_def zipTryEncoding_def lit_def string2ll_def string2ll_digits_def schar_def zipIntSize_def)
  have push: "\<exists>z'. ziplistPush z s False = Some z' \<and> zl_rep z' (ins_list es s [])" if "zl_rep z es" "zl_room es s" for z es s
    using insert_ok [OF that(1) _ that(2), of "length es"] that(1) rep_header [OF that(1)] by (auto simp: insert_safe_def ziplistPush_def)
  have el: "entry_len (False, a) = 303" "entry_len (True, b) = 254" "entry_len (False, b) = 250" "entry_len (False, lit ''1'') = 2"
    using pa p1 by (simp_all add: entry_len_def prev_size_def)
  have ec: "entry_len (f, c) \<le> 15" for f using payload_le [of c] by (simp add: entry_len_def prev_size_def c_def lit_def)
  obtain z0 where z0: "ziplistNew = Some z0" "zl_rep z0 []" using ziplistNew_ok by blast
  obtain z1 where z1: "ziplistPush z0 a False = Some z1" "zl_rep z1 [(False, a)]"
    using push [OF z0(2), of a] by (auto simp: zl_room_def a_def ins_list_def Let_def)
  obtain z2 where z2: "ziplistPush z1 b False = Some z2" "zl_rep z2 [(False, a), (True, b)]"
    using push [OF z1(2), of b] el by (auto simp: zl_room_def b_def ins_list_def Let_def)
  obtain z3 where z3: "ziplistPush z2 c False = Some z3" "zl_rep z3 [(False, a), (True, b), (True, c)]"
    using push [OF z2(2), of c] el by (auto simp: zl_room_def c_def lit_def ins_list_def Let_def)
  have d: "del_list [] [(True, b), (True, c)] = [(False, b), (True, c)]" by (simp add: del_list_def Let_def)
  obtain z4 where z4: "ziplistDelete_at z3 10 1 = Some z4" "zl_rep z4 [(False, b), (True, c)]"
    using delete_mid [of z3 "[]" "[(False, a)]" "(True, b)" "[(True, c)]" 1] z3(2) d el ec [of True] by auto
  have "ziplistDeleteRange z3 0 1 = Some z4" using ziplistIndex_ok [OF z3(2), of 0] z4(1) by (simp add: ziplistDeleteRange_def)
  moreover have "ziplistIndex z4 1 = Some (Some (offs [(False, b)]))" using ziplistIndex_ok [OF z4(2), of 1] by simp
  moreover have "ziplistInsert z4 (offs [(False, b)]) (lit ''1'') = None"
    using insert_overrun [of z4 "[(False, b)]" "(True, c)" "[]" "lit ''1''"] z4(2) el by (simp add: ziplistInsert_def)
  moreover have "do { z \<leftarrow> ziplistNew; z \<leftarrow> ziplistPush z a False; z \<leftarrow> ziplistPush z b False; ziplistPush z c False } = Some z3"
    unfolding z0(1) bind.bind_lunit z1(1) z2(1) z3(1) ..
  ultimately show ?thesis unfolding a_def b_def c_def by (intro exI conjI)
qed

end
