(* ===== verification/Robj.thy ===== *)
theory Robj
  imports DictIter SdsText
begin

text \<open>
  String objects of \<open>redis-3.2/src/object.c\<close> and the dictionary types of \<open>server.c\<close> whose keys are
  such objects.

  A string object is kept as an \<open>sds\<close> (raw, or in one allocation with the object) or as an integer in
  the place of the pointer; an \<open>sds\<close> is the byte string it holds, and the pointer of an integer object
  is a 64 bit word. Objects are values here: the reference counter a function tests is an argument of
  it, the counting itself and the time of the last access are not modelled. The shared integer object
  of a number and a private one are the same value.

  The lemmas show that the encoding is invisible: all operations depend on the text an object stands
  for (\<open>obj_text\<close>) only, hashing and comparing of keys included.
\<close>

unbundle bit_operations_syntax

section \<open>Objects\<close>

datatype strobj = ObjRaw bytes | ObjEmbstr bytes | ObjInt "64 word"

abbreviation OBJ_SHARED_INTEGERS :: int where "OBJ_SHARED_INTEGERS \<equiv> 10000"
abbreviation OBJ_ENCODING_EMBSTR_SIZE_LIMIT :: nat where "OBJ_ENCODING_EMBSTR_SIZE_LIMIT \<equiv> 44"

definition sdsEncodedObject :: "strobj \<Rightarrow> bool" where
  "sdsEncodedObject ob = (case ob of ObjRaw _ \<Rightarrow> True | ObjEmbstr _ \<Rightarrow> True | ObjInt _ \<Rightarrow> False)"

text \<open>\<open>o->ptr\<close> used as a string and as a \<open>PORT_LONG\<close>; anything else is undefined.\<close>

fun ptr_sds :: "strobj \<Rightarrow> bytes option" where
  "ptr_sds (ObjRaw s) = Some s"
| "ptr_sds (ObjEmbstr s) = Some s"
| "ptr_sds (ObjInt w) = None"

fun ptr_long :: "strobj \<Rightarrow> int option" where
  "ptr_long (ObjInt w) = Some (sint w)"
| "ptr_long _ = None"

text \<open>The \<open>len\<close> bytes a new string starts with: copied, or zero for the null pointer.\<close>

definition init_bytes :: "bytes option \<Rightarrow> nat \<Rightarrow> bytes option" where
  "init_bytes ptr len =
     (case ptr of
        None \<Rightarrow> Some (replicate len 0)
      | Some bs \<Rightarrow> if length bs < len then None else Some (take len bs))"

definition createRawStringObject :: "bytes option \<Rightarrow> nat \<Rightarrow> strobj option" where
  "createRawStringObject ptr len = map_option ObjRaw (init_bytes ptr len)"

text \<open>The length is stored in the eight bits of \<open>sdshdr8\<close>.\<close>

definition createEmbeddedStringObject :: "bytes option \<Rightarrow> nat \<Rightarrow> strobj option" where
  "createEmbeddedStringObject ptr len = map_option (\<lambda>bs. ObjEmbstr (take (len mod 256) bs)) (init_bytes ptr len)"

definition createStringObject :: "bytes option \<Rightarrow> nat \<Rightarrow> strobj option" where
  "createStringObject ptr len =
     (if len \<le> OBJ_ENCODING_EMBSTR_SIZE_LIMIT then createEmbeddedStringObject ptr len
      else createRawStringObject ptr len)"

definition createStringObjectFromLongLong :: "int \<Rightarrow> strobj option" where
  "createStringObjectFromLongLong val =
     (if 0 \<le> val \<and> val < OBJ_SHARED_INTEGERS then Some (ObjInt (word_of_int val))
      else if INT64_MIN \<le> val \<and> val \<le> INT64_MAX then Some (ObjInt (word_of_int val))
      else do {
        s \<leftarrow> sdsfromlonglong val;
        bs \<leftarrow> sds_read s 0 (sdslen s);
        Some (ObjRaw bs)
      })"

definition dupStringObject :: "strobj \<Rightarrow> strobj option" where
  "dupStringObject ob =
     (case ob of
        ObjRaw s \<Rightarrow> createRawStringObject (Some s) (length s)
      | ObjEmbstr s \<Rightarrow> createEmbeddedStringObject (Some s) (length s)
      | ObjInt w \<Rightarrow> Some (ObjInt w))"

definition isObjectRepresentableAsLongLong :: "strobj \<Rightarrow> int option" where
  "isObjectRepresentableAsLongLong ob =
     (case ob of ObjInt w \<Rightarrow> Some (sint w) | ObjRaw s \<Rightarrow> string2ll s | ObjEmbstr s \<Rightarrow> string2ll s)"

text \<open>\<open>refcount\<close> is the object's reference counter. Removing the free space of a long string does not
  change it.\<close>

definition tryObjectEncoding :: "nat \<Rightarrow> strobj \<Rightarrow> strobj option" where
  "tryObjectEncoding refcount ob =
     (case ptr_sds ob of
        None \<Rightarrow> Some ob
      | Some s \<Rightarrow>
          if refcount > 1 then Some ob
          else
            (case (if length s \<le> 20 then string2l s else None) of
               Some val \<Rightarrow> Some (ObjInt (word_of_int val))
             | None \<Rightarrow>
                 if length s \<le> OBJ_ENCODING_EMBSTR_SIZE_LIMIT then
                   (case ob of ObjEmbstr _ \<Rightarrow> Some ob | _ \<Rightarrow> createEmbeddedStringObject (Some s) (length s))
                 else Some ob))"

text \<open>The text of a \<open>PORT_LONG\<close> written to a buffer of \<open>n\<close> bytes on the stack: \<open>ll2string\<close> and its
  result.\<close>

definition long_text :: "nat \<Rightarrow> int \<Rightarrow> (bytes \<times> nat) option" where
  "long_text n val = do {
     (buf, len) \<leftarrow> ll2string (replicate n None) n val;
     bs \<leftarrow> mem_read buf 0 len;
     Some (bs, len)
   }"

definition getDecodedObject :: "strobj \<Rightarrow> strobj option" where
  "getDecodedObject ob =
     (if sdsEncodedObject ob then Some ob
      else do {
        val \<leftarrow> ptr_long ob;
        (buf, len) \<leftarrow> ll2string (replicate 32 None) 32 val;
        n \<leftarrow> c_strlen buf;
        bs \<leftarrow> mem_read buf 0 n;
        createStringObject (Some bs) n
      })"

text \<open>The string of an object for a comparison: its \<open>sds\<close>, or the text of its integer in a buffer of
  128 bytes.\<close>

definition compare_text :: "strobj \<Rightarrow> bytes option" where
  "compare_text ob =
     (if sdsEncodedObject ob then ptr_sds ob
      else do { val \<leftarrow> ptr_long ob; (buf, len) \<leftarrow> long_text 128 val; Some buf })"

text \<open>\<open>strcoll\<close> is the argument \<open>coll\<close>; it compares the C strings the buffers start with.\<close>

definition compareStringObjectsWithFlags :: "(bytes \<Rightarrow> bytes \<Rightarrow> int) \<Rightarrow> strobj \<Rightarrow> strobj \<Rightarrow> bool \<Rightarrow> int option" where
  "compareStringObjectsWithFlags coll a b collate =
     (if a = b then Some 0
      else do {
        astr \<leftarrow> compare_text a;
        bstr \<leftarrow> compare_text b;
        if collate then Some (coll (to_nul astr) (to_nul bstr))
        else do {
          let minlen = min (length astr) (length bstr);
          let cmp = memcmp (take minlen astr) (take minlen bstr);
          Some (if cmp = 0 then s32 (int (length astr) - int (length bstr)) else cmp)
        }
      })"

definition compareStringObjects :: "strobj \<Rightarrow> strobj \<Rightarrow> int option" where
  "compareStringObjects a b = compareStringObjectsWithFlags (\<lambda>_ _. 0) a b False"

definition collateStringObjects :: "(bytes \<Rightarrow> bytes \<Rightarrow> int) \<Rightarrow> strobj \<Rightarrow> strobj \<Rightarrow> int option" where
  "collateStringObjects coll a b = compareStringObjectsWithFlags coll a b True"

definition equalStringObjects :: "strobj \<Rightarrow> strobj \<Rightarrow> bool option" where
  "equalStringObjects a b =
     (case (a, b) of
        (ObjInt v, ObjInt w) \<Rightarrow> Some (v = w)
      | _ \<Rightarrow> map_option (\<lambda>c. c = 0) (compareStringObjects a b))"

definition stringObjectLen :: "strobj \<Rightarrow> nat option" where
  "stringObjectLen ob =
     (if sdsEncodedObject ob then map_option length (ptr_sds ob) else map_option sdigits10 (ptr_long ob))"

text \<open>\<open>None\<close> for the null pointer; the result is \<open>C_ERR\<close> or the number.\<close>

definition getLongLongFromObject :: "strobj option \<Rightarrow> int option" where
  "getLongLongFromObject ob =
     (case ob of
        None \<Rightarrow> Some 0
      | Some ob \<Rightarrow> (case ptr_sds ob of Some s \<Rightarrow> string2ll s | None \<Rightarrow> ptr_long ob))"

text \<open>\<open>Inl\<close> is the error reply that is sent.\<close>

definition getLongLongFromObjectOrReply :: "strobj option \<Rightarrow> string option \<Rightarrow> string + int" where
  "getLongLongFromObjectOrReply ob msg =
     (case getLongLongFromObject ob of
        None \<Rightarrow> Inl (case msg of Some m \<Rightarrow> m | None \<Rightarrow> ''value is not an integer or out of range'')
      | Some val \<Rightarrow> Inr val)"

definition getLongFromObjectOrReply :: "strobj option \<Rightarrow> string option \<Rightarrow> string + int" where
  "getLongFromObjectOrReply ob msg =
     (case getLongLongFromObjectOrReply ob msg of
        Inl e \<Rightarrow> Inl e
      | Inr val \<Rightarrow>
          if val < INT64_MIN \<or> val > INT64_MAX
          then Inl (case msg of Some m \<Rightarrow> m | None \<Rightarrow> ''value is out of range'')
          else Inr val)"

section \<open>Dictionary types with object keys\<close>

text \<open>The methods of a dictionary type are total functions: decoding an object never fails, as
  \<open>decoded_text\<close> below shows, and the value given for that case is never used.\<close>

definition dictEncObjKeyCompare :: "strobj \<Rightarrow> strobj \<Rightarrow> bool" where
  "dictEncObjKeyCompare o1 o2 =
     (case (o1, o2) of
        (ObjInt v, ObjInt w) \<Rightarrow> v = w
      | _ \<Rightarrow>
          (case (Option.bind (getDecodedObject o1) ptr_sds, Option.bind (getDecodedObject o2) ptr_sds) of
             (Some s1, Some s2) \<Rightarrow> dictSdsKeyCompare s1 s2
           | _ \<Rightarrow> False))"

definition dictEncObjHash :: "32 word \<Rightarrow> strobj \<Rightarrow> 32 word" where
  "dictEncObjHash seed ob =
     (case ptr_sds ob of
        Some s \<Rightarrow> dictGenHashFunction seed s (sdslen_int s)
      | None \<Rightarrow>
          (case Option.bind (ptr_long ob) (long_text 32) of
             Some (buf, len) \<Rightarrow> dictGenHashFunction seed buf (int len)
           | None \<Rightarrow> 0))"

definition setDictType :: "32 word \<Rightarrow> (strobj, 'v) dictType" where
  "setDictType seed = \<lparr>hashFunction = dictEncObjHash seed, keyDup = None, valDup = None,
     keyCompare = Some dictEncObjKeyCompare, keyDestructor = True, valDestructor = False\<rparr>"

definition zsetDictType :: "32 word \<Rightarrow> (strobj, 'v) dictType" where
  "zsetDictType seed = \<lparr>hashFunction = dictEncObjHash seed, keyDup = None, valDup = None,
     keyCompare = Some dictEncObjKeyCompare, keyDestructor = True, valDestructor = False\<rparr>"

definition hashDictType :: "32 word \<Rightarrow> (strobj, 'v) dictType" where
  "hashDictType seed = \<lparr>hashFunction = dictEncObjHash seed, keyDup = None, valDup = None,
     keyCompare = Some dictEncObjKeyCompare, keyDestructor = True, valDestructor = True\<rparr>"

text \<open>\<open>dictSlots\<close>, and the test for a table with too many empty slots, in \<open>PORT_LONGLONG\<close>.\<close>

definition dictSlots :: "('k, 'v) dict \<Rightarrow> nat" where
  "dictSlots d = (ht_size (d_ht0 d) + ht_size (d_ht1 d)) mod 2 ^ 64"

abbreviation HASHTABLE_MIN_FILL :: int where "HASHTABLE_MIN_FILL \<equiv> 10"

definition htNeedsResize :: "('k, 'v) dict \<Rightarrow> bool" where
  "htNeedsResize d =
     (let sz = sint (of_nat (dictSlots d) :: 64 word);
          used = sint (of_nat (dictSize d) :: 64 word)
      in sz > int DICT_HT_INITIAL_SIZE \<and> used * 100 div sz < HASHTABLE_MIN_FILL)"

section \<open>The text of an object\<close>

fun obj_text :: "strobj \<Rightarrow> bytes" where
  "obj_text (ObjRaw s) = s"
| "obj_text (ObjEmbstr s) = s"
| "obj_text (ObjInt w) = dec_int (sint w)"

lemma int64_sint: "int64 (sint (w :: 64 word))"
  using sint_ge [of w] sint_lt [of w] by (simp add: int64_def)

lemma sint_word_of_int64: "int64 v \<Longrightarrow> sint (word_of_int v :: 64 word) = v"
  by (simp add: int64_def int_word_sint)

lemma dec_int64_inj: "int64 v \<Longrightarrow> int64 w \<Longrightarrow> dec_int v = dec_int w \<longleftrightarrow> v = w"
  using string2ll_eq [of "dec_int v" v] string2ll_eq [of "dec_int v" w] by auto

lemma dec_int_inj [simp]: "dec_int (sint v) = dec_int (sint w) \<longleftrightarrow> v = (w :: 64 word)"
  by (auto simp: dec_int64_inj int64_sint intro: signed_word_eqI)

lemma dec_int_no_zero: "0 \<notin> set (dec_int v)"
proof -
  have "0 \<notin> set (dec_nat n)" for n using dec_nat_digits [of n] by (auto simp: isdigit_def)
  then show ?thesis by (simp add: dec_int_def)
qed

lemma to_nul_dec_int [simp]: "to_nul (dec_int v) = dec_int v"
  using dec_int_no_zero [of v] by (auto simp: to_nul_def takeWhile_eq_all_conv)

lemma long_text_ok:
  assumes "int64 v" and "21 \<le> n"
  shows "long_text n v = Some (dec_int v, length (dec_int v))"
proof -
  have "length (dec_int v) \<le> 20" by (rule length_dec_int_bound [OF assms(1)])
  then show ?thesis using ll2string_eq [OF assms(1), of n "replicate n None"] assms(2)
    by (simp add: long_text_def mem_read_def)
qed

lemma init_bytes_all [simp]: "init_bytes (Some s) (length s) = Some s"
  by (simp add: init_bytes_def)

lemma createStringObject_ok: "\<exists>ob. createStringObject (Some s) (length s) = Some ob \<and> ptr_sds ob = Some s \<and> obj_text ob = s"
  by (simp add: createStringObject_def createEmbeddedStringObject_def createRawStringObject_def)

lemma decoded_text:
  obtains ob' where "getDecodedObject ob = Some ob'" "ptr_sds ob' = Some (obj_text ob)"
proof (cases ob)
  case (ObjInt w)
  let ?t = "dec_int (sint w)"
  obtain ob' where o: "createStringObject (Some ?t) (length ?t) = Some ob'" "ptr_sds ob' = Some ?t" using createStringObject_ok by blast
  have l: "length ?t \<le> 20" by (rule length_dec_int_bound [OF int64_sint])
  obtain m where b: "ll2string (replicate 32 None) 32 (sint w) = Some (map Some ?t @ Some 0 # m, length ?t)"
    using ll2string_eq [OF int64_sint, of 32 "replicate 32 None"] l by auto
  have "c_strlen (map Some ?t @ Some 0 # m) = Some (length ?t)" using c_strlen_map [of ?t m] arg_cong [OF to_nul_dec_int [of "sint w"], of length] by (simp only: to_nul_def)
  then show ?thesis using that [of ob'] o ObjInt b by (simp add: getDecodedObject_def sdsEncodedObject_def mem_read_def)
qed (use that [of ob] in \<open>simp_all add: getDecodedObject_def sdsEncodedObject_def\<close>)

lemma compare_text_ok: "compare_text ob = Some (obj_text ob)"
  by (cases ob) (simp_all add: compare_text_def sdsEncodedObject_def long_text_ok int64_sint)

lemma long_long_text: "createStringObjectFromLongLong v = Some (ObjInt (word_of_int v))" if "int64 v"
  using that by (simp add: createStringObjectFromLongLong_def int64_def)

lemma tryObjectEncoding_ok:
  "\<exists>ob'. tryObjectEncoding rc ob = Some ob' \<and> obj_text ob' = obj_text ob"
proof (cases "ptr_sds ob")
  case (Some s)
  have t: "obj_text ob = s" using Some by (cases ob) auto
  show ?thesis
  proof (cases "rc > 1")
    case False
    show ?thesis
    proof (cases "if length s \<le> 20 then string2l s else None")
      case None
      then show ?thesis using Some False t
        by (cases ob) (auto simp: tryObjectEncoding_def createEmbeddedStringObject_def)
    next
      case v: (Some v)
      then have "string2ll s = Some v" by (auto simp: string2l_def split: if_splits option.splits)
      then have "int64 v" "s = dec_int v" using string2ll_eq by blast+
      with Some False t sint_word_of_int64 [of v] show ?thesis
        by (intro exI [of _ "ObjInt (word_of_int v)"]) (simp add: tryObjectEncoding_def v [unfolded \<open>s = dec_int v\<close>])
    qed
  qed (use Some in \<open>simp add: tryObjectEncoding_def\<close>)
qed (simp add: tryObjectEncoding_def)

section \<open>Keys\<close>

lemma dictEncObjHash_text: "dictEncObjHash seed ob = dictSdsHash seed (obj_text ob)"
proof (cases ob)
  case (ObjInt w)
  have "length (dec_int (sint w)) \<le> 20" by (rule length_dec_int_bound [OF int64_sint])
  then show ?thesis using ObjInt long_text_ok [OF int64_sint, of 32 w]
    by (simp add: dictEncObjHash_def dictSdsHash_def sdslen_int_id)
qed (simp_all add: dictEncObjHash_def dictSdsHash_def)

lemma dictEncObjKeyCompare_text: "dictEncObjKeyCompare a b \<longleftrightarrow> dictSdsKeyCompare (obj_text a) (obj_text b)"
proof -
  obtain a' b' where d: "getDecodedObject a = Some a'" "ptr_sds a' = Some (obj_text a)"
    "getDecodedObject b = Some b'" "ptr_sds b' = Some (obj_text b)" by (metis decoded_text)
  have i: "dictSdsKeyCompare (dec_int (sint v)) (dec_int (sint w)) \<longleftrightarrow> v = w" for v w :: "64 word"
  proof -
    have "length (dec_int (sint v)) < 2 ^ 31" "length (dec_int (sint w)) < 2 ^ 31"
      using length_dec_int_bound [OF int64_sint, of v] length_dec_int_bound [OF int64_sint, of w] by simp_all
    from dictSdsKeyCompare_eq [OF this] show ?thesis by simp
  qed
  show ?thesis using d i by (cases a; cases b) (simp_all add: dictEncObjKeyCompare_def)
qed

lemma obj_dict_keys:
  assumes "hashFunction ty = dictEncObjHash seed" and "keyCompare ty = Some dictEncObjKeyCompare" and "keyDup ty = None"
  shows "dict_keys ty"
proof
  have s: "sameKey ty a b \<longleftrightarrow> dictSdsKeyCompare (obj_text a) (obj_text b)" for a b
    using assms by (auto simp: sameKey_def dictCompareKeys_def dictEncObjKeyCompare_text dictSdsKeyCompare_iff)
  show "sameKey ty a b \<Longrightarrow> sameKey ty b a" for a b by (simp add: s dictSdsKeyCompare_iff)
  show "sameKey ty a b \<Longrightarrow> sameKey ty b c \<Longrightarrow> sameKey ty a c" for a b c by (simp add: s dictSdsKeyCompare_iff)
  show "sameKey ty a b \<Longrightarrow> hashFunction ty a = hashFunction ty b" for a b
    using assms sds_hash_cong by (simp add: s dictEncObjHash_text)
  show "sameKey ty (dupKey ty a) a" for a using assms by (simp add: dupKey_def sameKey_def)
qed

interpretation setkeys: dict_keys "setDictType seed"
  by (rule obj_dict_keys) (simp_all add: setDictType_def)

interpretation zsetkeys: dict_keys "zsetDictType seed"
  by (rule obj_dict_keys) (simp_all add: zsetDictType_def)

interpretation hashkeys: dict_keys "hashDictType seed"
  by (rule obj_dict_keys) (simp_all add: hashDictType_def)

lemma obj_same:
  "sameKey (hashDictType seed) a b \<longleftrightarrow> dictSdsKeyCompare (obj_text a) (obj_text b)"
  "sameKey (setDictType seed) a b \<longleftrightarrow> dictSdsKeyCompare (obj_text a) (obj_text b)"
  by (auto simp: sameKey_def dictCompareKeys_def hashDictType_def setDictType_def dictEncObjKeyCompare_text dictSdsKeyCompare_iff)

section \<open>Properties\<close>

lemma compare_lex:
  assumes "length (obj_text a) < 2 ^ 31" and "length (obj_text b) < 2 ^ 31"
  shows "\<exists>c. compareStringObjects a b = Some c \<and> (c = 0 \<longleftrightarrow> obj_text a = obj_text b) \<and>
     (c < 0 \<longleftrightarrow> lex_less (obj_text a) (obj_text b))"
proof (cases "a = b")
  case True
  then show ?thesis using memcmp_lex [of "obj_text a" "obj_text a"] memcmp_0 [of "obj_text a" "obj_text a"]
    by (simp add: compareStringObjects_def compareStringObjectsWithFlags_def)
next
  case False
  let ?k = "min (length (obj_text a)) (length (obj_text b))"
  let ?c = "memcmp (take ?k (obj_text a)) (take ?k (obj_text b))"
  have s: "s32 (int (length (obj_text a)) - int (length (obj_text b))) = int (length (obj_text a)) - int (length (obj_text b))"
    using assms by (intro s32_id) auto
  have "?c = 0 \<Longrightarrow> length (obj_text a) = length (obj_text b) \<Longrightarrow> obj_text a = obj_text b"
    using memcmp_0 [of "obj_text a" "obj_text b"] by simp
  moreover have "obj_text a = obj_text b \<Longrightarrow> ?c = 0" using memcmp_0 [of "obj_text a" "obj_text b"] by simp
  ultimately show ?thesis using False s memcmp_lex [of "obj_text a" "obj_text b"]
    by (auto simp: compareStringObjects_def compareStringObjectsWithFlags_def compare_text_ok Let_def)
qed

lemma equal_text:
  assumes "length (obj_text a) < 2 ^ 31" and "length (obj_text b) < 2 ^ 31"
  shows "equalStringObjects a b = Some (obj_text a = obj_text b)"
  using compare_lex [OF assms] by (cases a; cases b) (auto simp: equalStringObjects_def)

lemma getLongLong_text: "getLongLongFromObject (Some ob) = Some v \<longleftrightarrow> int64 v \<and> obj_text ob = dec_int v"
  by (cases ob) (auto simp: getLongLongFromObject_def string2ll_eq int64_sint dec_int64_inj)

lemma stringObjectLen_text: "stringObjectLen ob = Some (length (obj_text ob))"
  by (cases ob) (simp_all add: stringObjectLen_def sdsEncodedObject_def sdigits10_length)

text \<open>C26. The encoding of a string object is invisible. Encoding keeps the text whatever the reference
  counter, decoding gives back an \<open>sds\<close> with it, equality is equality of texts and comparison their
  lexicographic order also between integers and strings, the length is that of the text, and an
  object is a number exactly when its text is the decimal text of a 64 bit integer.\<close>

theorem object_encoding:
  assumes "length (obj_text a) < 2 ^ 31" and "length (obj_text b) < 2 ^ 31"
  shows "(\<exists>a'. tryObjectEncoding rc a = Some a' \<and> obj_text a' = obj_text a) \<and>
    (\<exists>a'. getDecodedObject a = Some a' \<and> ptr_sds a' = Some (obj_text a)) \<and>
    equalStringObjects a b = Some (obj_text a = obj_text b) \<and>
    (\<exists>c. compareStringObjects a b = Some c \<and> (c < 0 \<longleftrightarrow> lex_less (obj_text a) (obj_text b))) \<and>
    stringObjectLen a = Some (length (obj_text a)) \<and>
    (getLongLongFromObject (Some a) = Some v \<longleftrightarrow> int64 v \<and> obj_text a = dec_int v) \<and>
    (dictEncObjKeyCompare a b \<longleftrightarrow> obj_text a = obj_text b) \<and>
    (obj_text a = obj_text b \<longrightarrow> dictEncObjHash seed a = dictEncObjHash seed b)"
proof -
  have "\<exists>a'. getDecodedObject a = Some a' \<and> ptr_sds a' = Some (obj_text a)" by (rule decoded_text [of a]) blast
  moreover have "\<exists>c. compareStringObjects a b = Some c \<and> (c < 0 \<longleftrightarrow> lex_less (obj_text a) (obj_text b))"
    using compare_lex [OF assms] by blast
  moreover have "dictEncObjKeyCompare a b \<longleftrightarrow> obj_text a = obj_text b"
    using dictSdsKeyCompare_eq [OF assms] by (simp add: dictEncObjKeyCompare_text)
  ultimately show ?thesis
    using tryObjectEncoding_ok equal_text [OF assms] stringObjectLen_text getLongLong_text by (simp add: dictEncObjHash_text)
qed

theorem object_encoding_witness:
  "equalStringObjects (ObjInt 42) (ObjRaw (lit ''42'')) = Some True \<and> stringObjectLen (ObjInt 42) = Some 2"
proof -
  have t: "obj_text (ObjInt 42) = lit ''42''"
    by (simp add: dec_int_def lit_def) (subst dec_nat.simps, simp, subst dec_nat.simps, simp add: digit_byte_def)
  have "length (obj_text (ObjInt 42)) < 2 ^ 31" "length (obj_text (ObjRaw (lit ''42''))) < 2 ^ 31"
    unfolding t by (simp_all add: lit_def)
  from object_encoding [OF this] t show ?thesis by (simp add: lit_def)
qed

end
