(* ===== verification/TextDict.thy ===== *)
theory TextDict
  imports DictIter
begin

text \<open>
  Dictionaries whose keys are compared by the byte string they denote, as finite maps. The interface
  \<open>text_keys\<close> extends the one of dictionaries by that law and gives every operation as an operation
  on a finite map from texts to values (\<open>key_map\<close>), for keys of less than two gigabytes. It is
  interpreted for the key space and the expire table, whose keys are strings, and in \<open>ObjDict\<close> for the
  types with string objects as keys.
\<close>

definition short_key :: "('k \<Rightarrow> bytes) \<Rightarrow> 'k \<Rightarrow> bool" where
  "short_key den k \<longleftrightarrow> length (den k) < 2 ^ 31"

definition key_dict :: "('k \<Rightarrow> bytes) \<Rightarrow> ('k, 'v) dictType \<Rightarrow> ('k, 'v) dict \<Rightarrow> bool" where
  "key_dict den ty d \<longleftrightarrow> dict_inv d \<and> d_type d = ty \<and> (\<forall>e \<in> set (dict_entries d). short_key den (de_key e))"

definition key_pairs :: "('k \<Rightarrow> bytes) \<Rightarrow> ('k, 'v) dict \<Rightarrow> (bytes \<times> 'v) list" where
  "key_pairs den d = map (\<lambda>e. (den (de_key e), de_val e)) (dict_entries d)"

definition key_map :: "('k \<Rightarrow> bytes) \<Rightarrow> ('k, 'v) dict \<Rightarrow> bytes \<Rightarrow> 'v option" where
  "key_map den d = map_of (key_pairs den d)"

text \<open>A dictionary whose entries are at addresses of another one, and not more.\<close>

definition dict_sub :: "('k, 'v) dict \<Rightarrow> ('k, 'v) dict \<Rightarrow> bool" where
  "dict_sub d d' \<longleftrightarrow> de_addr ` set (dict_entries d') \<subseteq> de_addr ` set (dict_entries d) \<and> length (dict_entries d') \<le> length (dict_entries d)"

lemma dict_sub_refl [simp]: "dict_sub d d"
  by (simp add: dict_sub_def)

lemma dict_sub_trans: "dict_sub d d1 \<Longrightarrow> dict_sub d1 d2 \<Longrightarrow> dict_sub d d2"
  unfolding dict_sub_def by (meson order_trans)

lemma dict_sub_room: "dict_room d a \<Longrightarrow> dict_sub d d' \<Longrightarrow> dict_room d' a"
  by (auto simp: dict_room_def dict_sub_def)

lemma dict_sub_mset: "dict_mset d' \<subseteq># dict_mset d \<Longrightarrow> dict_sub d d'"
  by (metis (mono_tags, lifting) dict_sub_def image_mono set_mset_mono set_mset_mset size_mset size_mset_mono)

lemma key_pairs_set: "(f, v) \<in> set (key_pairs den d) \<longleftrightarrow> (\<exists>e \<in># dict_mset d. den (de_key e) = f \<and> de_val e = v)"
  by (auto simp: key_pairs_def)

lemma map_of_set: "distinct (map fst ps) \<Longrightarrow> map_of ps k = Some v \<longleftrightarrow> (k, v) \<in> set ps"
  by simp

lemma map_eqI: "(\<And>k v. m k = Some v \<longleftrightarrow> n k = Some v) \<Longrightarrow> m = n"
  by (rule ext) (metis option.exhaust)

lemma filter_mset_mono_pred: "(\<And>x. P x \<Longrightarrow> Q x) \<Longrightarrow> {#x \<in># M. P x#} \<subseteq># {#x \<in># M. Q x#}"
  by (auto simp: subseteq_mset_def)

lemma count_map_filter: "count (mset (map g es)) x = size {#e \<in># mset es. g e = x#}"
  by (induction es) auto

lemma distinct_filter:
  assumes "\<And>x. size {#e \<in># mset es. g e = x#} \<le> 1"
  shows "distinct (map g es)"
proof -
  have "count (mset (map g es)) x \<le> 1" for x using assms by (simp only: count_map_filter)
  then show ?thesis
    by (metis distinct_count_atmost_1 count_eq_zero_iff le_neq_implies_less less_one set_mset_mset)
qed

lemma filter_distinct: "distinct (map g es) \<Longrightarrow> size {#e \<in># mset es. g e = x#} \<le> 1"
  unfolding count_map_filter [symmetric] distinct_count_atmost_1 by simp

locale text_keys = dict_keys ty for ty :: "('k, 'v) dictType" +
  fixes den :: "'k \<Rightarrow> bytes"
  assumes text_same: "sameKey ty a b \<longleftrightarrow> dictSdsKeyCompare (den a) (den b)"
    and no_dup: "dupKey ty k = k" "dupVal ty v = v"
begin

lemma same_text: "short_key den a \<Longrightarrow> short_key den b \<Longrightarrow> sameKey ty a b \<longleftrightarrow> den a = den b"
  by (simp add: text_same short_key_def dictSdsKeyCompare_eq)

lemma texts_distinct:
  assumes "key_dict den ty d"
  shows "distinct (map fst (key_pairs den d))"
proof -
  have "size {#e \<in># dict_mset d. den (de_key e) = x#} \<le> 1" for x
  proof -
    have k: "keys_once ty (dict_mset d)" using assms inv_keys_once by (auto simp: key_dict_def)
    show ?thesis
    proof (cases "{#e \<in># dict_mset d. den (de_key e) = x#} = {#}")
      case True
      then show ?thesis by (simp only: size_empty)
    next
      case False
      then obtain e0 where "e0 \<in># {#e \<in># dict_mset d. den (de_key e) = x#}" by (rule multiset_nonemptyE)
      then have "den (de_key e0) = x" by simp
      then have "{#e \<in># dict_mset d. den (de_key e) = x#} \<subseteq># {#e \<in># dict_mset d. sameKey ty (de_key e0) (de_key e)#}"
        by (intro filter_mset_mono_pred) (simp add: text_same dictSdsKeyCompare_refl)
      then show ?thesis using k unfolding keys_once_def by (meson order_trans size_mset_mono)
    qed
  qed
  from distinct_filter [OF this] show ?thesis by (simp add: key_pairs_def comp_def)
qed

lemma key_map_Some:
  assumes "key_dict den ty d"
  shows "key_map den d f = Some v \<longleftrightarrow> (\<exists>e \<in># dict_mset d. den (de_key e) = f \<and> de_val e = v)"
  using map_of_set [OF texts_distinct [OF assms]] by (simp add: key_map_def key_pairs_set)

lemma key_map_None: "key_map den d f = None \<longleftrightarrow> (\<forall>e \<in># dict_mset d. den (de_key e) \<noteq> f)"
  by (force simp: key_map_def map_of_eq_None_iff key_pairs_def)

lemma key_dict_mset: "key_dict den ty d \<Longrightarrow> dict_inv d' \<Longrightarrow> d_type d' = ty \<Longrightarrow> dict_mset d' = dict_mset d \<Longrightarrow>
    key_dict den ty d' \<and> key_map den d' = key_map den d"
proof -
  assume a: "key_dict den ty d" "dict_inv d'" "d_type d' = ty" "dict_mset d' = dict_mset d"
  then have "set (dict_entries d') = set (dict_entries d)" by (metis set_mset_mset)
  with a have ok: "key_dict den ty d'" by (simp add: key_dict_def)
  moreover have "key_map den d' = key_map den d"
    by (rule map_eqI) (simp only: key_map_Some [OF ok] key_map_Some [OF a(1)] a(4))
  ultimately show ?thesis by simp
qed

lemma same_entry:
  assumes "key_dict den ty d" and "e \<in># dict_mset d" and "short_key den k"
  shows "sameKey ty k (de_key e) \<longleftrightarrow> den (de_key e) = den k"
  using assms same_text [of k "de_key e"] by (auto simp: key_dict_def)

lemma find_text:
  assumes "key_dict den ty d" and "short_key den k"
  shows "\<exists>r d'. dictFind d k = Some (r, d') \<and> key_dict den ty d' \<and> key_map den d' = key_map den d \<and> dict_mset d' = dict_mset d \<and>
     map_option de_val r = key_map den d (den k) \<and> map_option (\<lambda>e. den (de_key e)) r = map_option (\<lambda>v. den k) (key_map den d (den k)) \<and>
     dict_sub d d' \<and> (\<forall>e. r = Some e \<longrightarrow> short_key den (de_key e))"
proof -
  obtain r d' where r: "dictFind d k = Some (r, d')" "dict_inv d'" "same_contents d d'"
     "case r of None \<Rightarrow> \<forall>e \<in># dict_mset d. \<not> sameKey ty k (de_key e)
      | Some e \<Rightarrow> e \<in># dict_mset d' \<and> e \<in># dict_mset d \<and> sameKey ty k (de_key e)"
    using dictFind_ok [of d k] assms by (auto simp: key_dict_def)
  have "map_option de_val r = key_map den d (den k) \<and> map_option (\<lambda>e. den (de_key e)) r = map_option (\<lambda>v. den k) (key_map den d (den k)) \<and>
      (\<forall>e. r = Some e \<longrightarrow> short_key den (de_key e))"
  proof (cases r)
    case None
    then have "key_map den d (den k) = None"
      using r(4) same_entry [OF assms(1) _ assms(2)] by (simp add: key_map_None)
    with None show ?thesis by simp
  next
    case (Some e)
    then have "e \<in># dict_mset d" "den (de_key e) = den k" using r(4) same_entry [OF assms(1) _ assms(2)] by auto
    then have "key_map den d (den k) = Some (de_val e)" using key_map_Some [OF assms(1)] by blast
    with Some assms(1) \<open>e \<in># dict_mset d\<close> \<open>den (de_key e) = den k\<close> show ?thesis by (auto simp: key_dict_def)
  qed
  moreover have "dict_sub d d'" using r(3) by (intro dict_sub_mset) (simp add: same_contents_def)
  moreover have "key_dict den ty d' \<and> key_map den d' = key_map den d"
    using key_dict_mset [OF assms(1) r(2)] r(3) assms(1) by (simp add: same_contents_def key_dict_def)
  ultimately show ?thesis using r(1,3) by (auto simp: same_contents_def)
qed

lemma key_map_add:
  assumes ok: "key_dict den ty d" and inv: "dict_inv d'" "d_type d' = ty"
    and m: "dict_mset d' = add_mset \<lparr>de_addr = a, de_key = k, de_val = v\<rparr> (dict_mset d)"
    and new: "key_map den d (den k) = None" and k: "short_key den k"
  shows "key_dict den ty d' \<and> key_map den d' = (key_map den d)(den k \<mapsto> v)"
proof -
  have "set (dict_entries d') = insert \<lparr>de_addr = a, de_key = k, de_val = v\<rparr> (set (dict_entries d))"
    using m by (metis set_mset_add_mset_insert set_mset_mset)
  then have ok': "key_dict den ty d'" using ok inv k by (simp add: key_dict_def)
  have "key_map den d' = (key_map den d)(den k \<mapsto> v)"
  proof (rule map_eqI)
    fix f w
    have "key_map den d' f = Some w \<longleftrightarrow> (den k = f \<and> v = w) \<or> key_map den d f = Some w"
      unfolding key_map_Some [OF ok'] key_map_Some [OF ok] m by auto
    then show "key_map den d' f = Some w \<longleftrightarrow> ((key_map den d)(den k \<mapsto> v)) f = Some w" using new by auto
  qed
  with ok' show ?thesis by simp
qed

lemma key_map_set:
  assumes ok: "key_dict den ty d" and e: "e \<in># dict_mset d" and inv: "dict_inv d'" "d_type d' = ty"
    and m: "dict_mset d' = add_mset (e\<lparr>de_val := v\<rparr>) (dict_mset d - {#e#})"
  shows "key_dict den ty d' \<and> key_map den d' = (key_map den d)(den (de_key e) \<mapsto> v)"
proof -
  have in': "x \<in># dict_mset d' \<longleftrightarrow> x = e\<lparr>de_val := v\<rparr> \<or> x \<in># dict_mset d - {#e#}" for x
    by (simp only: m) simp
  have "short_key den (de_key x)" if "x \<in># dict_mset d'" for x
    using that in' [of x] ok e by (auto simp: key_dict_def dest: in_diffD)
  then have ok': "key_dict den ty d'" using inv by (simp add: key_dict_def)
  have "key_map den d' = (key_map den d)(den (de_key e) \<mapsto> v)"
  proof (rule map_eqI)
    fix f w
    show "key_map den d' f = Some w \<longleftrightarrow> ((key_map den d)(den (de_key e) \<mapsto> v)) f = Some w"
    proof (cases "f = den (de_key e)")
      case True
      have "key_map den d' (den (de_key e)) = Some v" unfolding key_map_Some [OF ok'] using in' [of "e\<lparr>de_val := v\<rparr>"]
        by (intro bexI [of _ "e\<lparr>de_val := v\<rparr>"]) simp_all
      with True show ?thesis by simp
    next
      case ne: False
      have "x \<in># dict_mset d' \<longleftrightarrow> x \<in># dict_mset d" if "den (de_key x) = f" for x
      proof -
        have "x \<noteq> e" "x \<noteq> e\<lparr>de_val := v\<rparr>" using that ne by auto
        then show ?thesis using in' [of x] in_diff_other [of x e "dict_mset d"] by blast
      qed
      then have "key_map den d' f = Some w \<longleftrightarrow> key_map den d f = Some w"
        unfolding key_map_Some [OF ok'] key_map_Some [OF ok] by blast
      with ne show ?thesis by simp
    qed
  qed
  with ok' show ?thesis by simp
qed

lemma exists_same:
  assumes "key_dict den ty d" and "short_key den k"
  shows "(\<exists>e \<in># dict_mset d. sameKey ty k (de_key e)) \<longleftrightarrow> key_map den d (den k) \<noteq> None"
  using same_entry [OF assms(1) _ assms(2)] by (auto simp: key_map_None)

lemma add_text:
  assumes ok: "key_dict den ty d" and k: "short_key den k" and room: "dict_room d a"
  shows "\<exists>d'. dictAdd can d a junk k v = Some (key_map den d (den k) = None, d') \<and> key_dict den ty d' \<and>
     key_map den d' = (if key_map den d (den k) = None then (key_map den d)(den k \<mapsto> v) else key_map den d) \<and>
     de_addr ` set (dict_entries d') \<subseteq> insert a (de_addr ` set (dict_entries d)) \<and>
     length (dict_entries d') \<le> Suc (length (dict_entries d))"
proof -
  have fresh: "\<forall>e \<in># dict_mset d. de_addr e \<noteq> a" and sz: "size (dict_mset d) + 1 < 2 ^ 30"
    using room by (auto simp: dict_room_def)
  obtain r d' where r: "dictAdd can d a junk k v = Some (r, d')" "dict_inv d'" "d_type d' = ty"
     "if \<exists>e \<in># dict_mset d. sameKey ty k (de_key e) then \<not> r \<and> dict_mset d' = dict_mset d
      else r \<and> dict_mset d' = add_mset \<lparr>de_addr = a, de_key = k, de_val = v\<rparr> (dict_mset d)"
    using dictAdd_ok [OF _ _ fresh sz, of can junk k v, unfolded no_dup] ok unfolding key_dict_def by blast
  show ?thesis
  proof (cases "key_map den d (den k) = None")
    case True
    then have m: "r" "dict_mset d' = add_mset \<lparr>de_addr = a, de_key = k, de_val = v\<rparr> (dict_mset d)"
      using r(4) exists_same [OF ok k] by (simp_all split: if_splits)
    have "set (dict_entries d') = insert \<lparr>de_addr = a, de_key = k, de_val = v\<rparr> (set (dict_entries d))"
      using m(2) by (metis set_mset_add_mset_insert set_mset_mset)
    moreover have "length (dict_entries d') = Suc (length (dict_entries d))"
      using m(2) by (metis size_add_mset size_mset)
    ultimately show ?thesis using True r m key_map_add [OF ok r(2,3) m(2) True k] by auto
  next
    case False
    then have m: "\<not> r" "dict_mset d' = dict_mset d" using r(4) exists_same [OF ok k] by (simp_all split: if_splits)
    have "set (dict_entries d') = set (dict_entries d)" "length (dict_entries d') = length (dict_entries d)"
      using m(2) by (metis set_mset_mset, metis size_mset)
    then show ?thesis using False r m key_dict_mset [OF ok r(2,3) m(2)] by auto
  qed
qed

lemma replace_text:
  assumes ok: "key_dict den ty d" and k: "short_key den k" and room: "dict_room d a"
  shows "\<exists>rel d'. dictReplace can d a junk k v = Some (key_map den d (den k) = None, rel, d') \<and> key_dict den ty d' \<and>
     key_map den d' = (key_map den d)(den k \<mapsto> v)"
proof -
  have fresh: "\<forall>e \<in># dict_mset d. de_addr e \<noteq> a" and sz: "size (dict_mset d) + 1 < 2 ^ 30"
    using room by (auto simp: dict_room_def)
  obtain new rel d' where r: "dictReplace can d a junk k v = Some (new, rel, d')" "dict_inv d'" "d_type d' = ty"
     "if \<exists>e \<in># dict_mset d. sameKey ty k (de_key e) then
        \<not> new \<and> (\<exists>e. e \<in># dict_mset d \<and> sameKey ty k (de_key e) \<and> rel = dictFreeVal ty e \<and>
           dict_mset d' = add_mset (e\<lparr>de_val := v\<rparr>) (dict_mset d - {#e#}))
      else new \<and> rel = [] \<and> dict_mset d' = add_mset \<lparr>de_addr = a, de_key = k, de_val = v\<rparr> (dict_mset d)"
    using dictReplace_ok [OF _ _ fresh sz, of can junk k v, unfolded no_dup] ok unfolding key_dict_def by blast
  show ?thesis
  proof (cases "key_map den d (den k) = None")
    case True
    then have m: "new" "dict_mset d' = add_mset \<lparr>de_addr = a, de_key = k, de_val = v\<rparr> (dict_mset d)"
      using r(4) exists_same [OF ok k] by (simp_all split: if_splits)
    then show ?thesis using True r key_map_add [OF ok r(2,3) m(2) True k] by auto
  next
    case False
    then obtain e where e: "\<not> new" "e \<in># dict_mset d" "sameKey ty k (de_key e)"
        "dict_mset d' = add_mset (e\<lparr>de_val := v\<rparr>) (dict_mset d - {#e#})"
      using r(4) exists_same [OF ok k] by (auto split: if_splits)
    have te: "den (de_key e) = den k" using same_entry [OF ok e(2) k] e(3) by simp
    from key_map_set [OF ok e(2) r(2,3) e(4)] have "key_dict den ty d' \<and> key_map den d' = (key_map den d)(den k \<mapsto> v)"
      unfolding te .
    with False r e(1) show ?thesis by auto
  qed
qed

text \<open>The entry for a key, made if there is none, and its value assigned.\<close>

lemma replace_raw_text:
  assumes ok: "key_dict den ty d" and k: "short_key den k" and room: "dict_room d a"
  obtains e d1 d' where "dictReplaceRaw can d a junk k = Some (Some e, d1)" "dictSetVal d1 e v = Some d'"
    "key_dict den ty d'" "key_map den d' = (key_map den d)(den k \<mapsto> v)"
proof -
  have fresh: "\<forall>e \<in># dict_mset d. de_addr e \<noteq> a" and sz: "size (dict_mset d) + 1 < 2 ^ 30"
    using room by (auto simp: dict_room_def)
  obtain r d0 where r: "dictFind d k = Some (r, d0)" "dict_inv d0" "same_contents d d0"
     "case r of None \<Rightarrow> \<forall>e \<in># dict_mset d. \<not> sameKey ty k (de_key e)
      | Some e \<Rightarrow> e \<in># dict_mset d0 \<and> e \<in># dict_mset d \<and> sameKey ty k (de_key e)"
    using dictFind_ok [of d k] ok unfolding key_dict_def by blast
  have m0: "d_type d0 = ty" "dict_mset d0 = dict_mset d" using r(3) ok by (simp_all add: same_contents_def key_dict_def)
  have ok0: "key_dict den ty d0" "key_map den d0 = key_map den d" using key_dict_mset [OF ok r(2) m0] by simp_all
  show ?thesis
  proof (cases r)
    case (Some e)
    then have e: "e \<in># dict_mset d0" "den (de_key e) = den k" using r(4) same_entry [OF ok _ k] by auto
    obtain d' where d': "dictSetVal d0 (de_addr e) v = Some d'" "dict_inv d'" "d_type d' = ty"
       "dict_mset d' = add_mset (e\<lparr>de_val := v\<rparr>) (dict_mset d0 - {#e#})"
      using dictSetVal_ok [OF r(2) e(1), of v] unfolding m0(1) no_dup by blast
    from key_map_set [OF ok0(1) e(1) d'(2,3,4)] have "key_dict den ty d'" "key_map den d' = (key_map den d)(den k \<mapsto> v)"
      unfolding e(2) ok0(2) by simp_all
    then show ?thesis using that [of "de_addr e" d0 d'] d'(1) r(1) Some by (simp add: dictReplaceRaw_def)
  next
    case None
    then have n: "\<not> (\<exists>e \<in># dict_mset d0. sameKey ty k (de_key e))" using r(4) m0(2) by simp
    have fresh0: "\<forall>e \<in># dict_mset d0. de_addr e \<noteq> a" "size (dict_mset d0) + 1 < 2 ^ 30" using fresh sz m0(2) by simp_all
    obtain d1 where d1: "dictAddRaw can d0 a junk k = Some (Some a, d1)" "dict_inv d1" "d_type d1 = ty"
        "dict_mset d1 = add_mset \<lparr>de_addr = a, de_key = k, de_val = junk\<rparr> (dict_mset d0)"
      using dictAddRaw_ok [OF r(2) m0(1) fresh0, of can junk k] n unfolding no_dup by auto
    have none: "key_map den d0 (den k) = None" using exists_same [OF ok0(1) k] n by blast
    let ?e = "\<lparr>de_addr = a, de_key = k, de_val = junk\<rparr>"
    have ok1: "key_dict den ty d1" "key_map den d1 = (key_map den d)(den k \<mapsto> junk)"
      using key_map_add [OF ok0(1) d1(2,3,4) none k] ok0(2) by simp_all
    have e1: "?e \<in># dict_mset d1" unfolding d1(4) by simp
    obtain d' where d': "dictSetVal d1 a v = Some d'" "dict_inv d'" "d_type d' = ty"
       "dict_mset d' = add_mset (?e\<lparr>de_val := v\<rparr>) (dict_mset d1 - {#?e#})"
      using dictSetVal_ok [OF d1(2) e1, of v] unfolding d1(3) no_dup by auto
    from key_map_set [OF ok1(1) e1 d'(2,3,4)] have "key_dict den ty d'" "key_map den d' = (key_map den d)(den k \<mapsto> v)"
      unfolding ok1(2) by simp_all
    then show ?thesis using that [of a d1 d'] d'(1) r(1) None d1(1) by (simp add: dictReplaceRaw_def)
  qed
qed

lemma delete_text:
  assumes ok: "key_dict den ty d" and k: "short_key den k"
  shows "\<exists>rel d'. dictDelete d k = Some (key_map den d (den k) \<noteq> None, rel, d') \<and> key_dict den ty d' \<and>
     key_map den d' = (key_map den d)(den k := None) \<and> dict_sub d d'"
proof -
  obtain r rel d' where r: "dictDelete d k = Some (r, rel, d')" "dict_inv d'" "d_type d' = ty"
     "if r then \<exists>e. sameKey ty k (de_key e) \<and> dict_mset d = add_mset e (dict_mset d')
      else dict_mset d' = dict_mset d \<and> (\<forall>e \<in># dict_mset d. \<not> sameKey ty k (de_key e))"
    using dictGenericDelete_ok [of d k False] ok unfolding key_dict_def dictDelete_def by metis
  show ?thesis
  proof (cases r)
    case True
    then obtain e where e: "sameKey ty k (de_key e)" "dict_mset d = add_mset e (dict_mset d')" using r(4) by auto
    have te: "den (de_key e) = den k" using same_entry [OF ok _ k, of e] e by simp
    have ok': "key_dict den ty d'" using ok e(2) r(2,3)
      by (auto simp: key_dict_def) (metis set_mset_mset union_single_eq_member insertCI set_mset_add_mset_insert)
    have dist: "size {#x \<in># dict_mset d. den (de_key x) = den k#} \<le> 1"
      using texts_distinct [OF ok] by (intro filter_distinct) (simp add: key_pairs_def comp_def)
    have gone: "den (de_key x) \<noteq> den k" if "x \<in># dict_mset d'" for x
      using dist that te unfolding e(2) by (auto dest: multi_member_split)
    have "key_map den d' = (key_map den d)(den k := None)"
    proof (rule map_eqI)
      fix f w
      have "key_map den d' f = Some w \<longleftrightarrow> f \<noteq> den k \<and> key_map den d f = Some w"
        unfolding key_map_Some [OF ok'] key_map_Some [OF ok] e(2) using gone te by auto
      then show "key_map den d' f = Some w \<longleftrightarrow> ((key_map den d)(den k := None)) f = Some w" by auto
    qed
    moreover have "key_map den d (den k) \<noteq> None" using exists_same [OF ok k] e by auto
    moreover have "dict_sub d d'" using e(2) by (intro dict_sub_mset) simp
    ultimately show ?thesis using r(1) True ok' by auto
  next
    case False
    then have "key_map den d (den k) = None" "dict_mset d' = dict_mset d" using r(4) exists_same [OF ok k] by auto
    moreover from this(1) have "(key_map den d)(den k := None) = key_map den d" by auto
    moreover have "dict_sub d d'" using r(4) False by (intro dict_sub_mset) simp
    ultimately show ?thesis using r False key_dict_mset [OF ok r(2,3)] by auto
  qed
qed

lemma resize_text:
  assumes ok: "key_dict den ty d"
  shows "\<exists>r d'. dictResize can d = Some (r, d') \<and> key_dict den ty d' \<and> key_map den d' = key_map den d"
proof (cases "\<not> can \<or> dictIsRehashing d")
  case True
  then show ?thesis using ok by (auto simp: dictResize_def)
next
  case False
  have u: "ht_used (d_ht0 d) < 2 ^ 30" using dict_used [of d] ok by (auto simp: key_dict_def)
  then have s: "s32 (int (ht_used (d_ht0 d))) = int (ht_used (d_ht0 d))" by (intro s32_id) auto
  define sz where "sz = (if ht_used (d_ht0 d) < 4 then 4 else ht_used (d_ht0 d))"
  have "dictResize can d = dictExpand d sz" using False unfolding dictResize_def Let_def s sz_def by simp
  moreover have "sz \<le> 2 ^ 31" using u by (simp add: sz_def)
  ultimately obtain r d' where e: "dictResize can d = Some (r, d')" "dict_inv d'" "same_contents d d'"
    using dictExpand_ok [of d sz] ok unfolding key_dict_def by metis
  then have "d_type d' = ty" "dict_mset d' = dict_mset d" using ok unfolding same_contents_def key_dict_def by simp_all
  from key_dict_mset [OF ok e(2) this] show ?thesis using e(1) by blast
qed

lemma size_text:
  assumes "key_dict den ty d"
  shows "dictSize d = card (dom (key_map den d))"
proof -
  have "dictSize d = length (dict_entries d)"
    using dict_used [of d] assms by (simp add: key_dict_def dictSize_def)
  also have "\<dots> = length (map fst (key_pairs den d))" by (simp add: key_pairs_def)
  also have "\<dots> = card (set (map fst (key_pairs den d)))" by (rule distinct_card [OF texts_distinct [OF assms], symmetric])
  also have "set (map fst (key_pairs den d)) = dom (key_map den d)" by (simp add: key_map_def dom_map_of_conv_image_fst)
  finally show ?thesis .
qed

lemma random_text:
  assumes ok: "key_dict den ty d" and g: "dictGetRandomKey d rnd = Some (r, d')"
  shows "key_dict den ty d' \<and> key_map den d' = key_map den d \<and> dict_sub d d' \<and>
    (case r of None \<Rightarrow> key_map den d = Map.empty | Some e \<Rightarrow> key_map den d (den (de_key e)) = Some (de_val e) \<and> short_key den (de_key e))"
proof -
  have inv: "dict_inv d" and ty: "d_type d = ty" using ok by (simp_all add: key_dict_def)
  show ?thesis
  proof (cases "dict_entries d = []")
    case True
    then have "dictSize d = 0"
      using inv by (auto simp: dictSize_def dict_inv_def ht_ok_def entries_ok_def dict_entries_def)
    then have "r = None" "d' = d" using g by (simp_all add: dictGetRandomKey_def)
    then show ?thesis using ok True by (simp add: key_map_def key_pairs_def)
  next
    case False
    then have sz: "dictSize d \<noteq> 0"
      using inv by (auto simp: dictSize_def dict_inv_def ht_ok_def entries_ok_def dict_entries_def)
    obtain e where e: "r = Some e" "e \<in># dict_mset d" using dictGetRandomKey_ok [OF inv False] g by blast
    obtain d1 where d1: "rehash_if d = Some d1" "dict_inv d1" "same_contents d d1" using rehash_if_ok [OF inv] by blast
    obtain he rnd1 where b: "random_bucket d1 rnd = Some (he, rnd1)"
      using g sz d1(1) by (auto simp: dictGetRandomKey_def bind_eq_Some_conv)
    have "d' = d1" using g sz d1(1) b by (cases rnd1) (simp_all add: dictGetRandomKey_def)
    then have "key_dict den ty d' \<and> key_map den d' = key_map den d" "dict_sub d d'"
      using key_dict_mset [OF ok d1(2)] d1(3) ty dict_sub_mset [of d1 d] by (simp_all add: same_contents_def)
    moreover have "key_map den d (den (de_key e)) = Some (de_val e)" using key_map_Some [OF ok] e(2) by blast
    moreover have "short_key den (de_key e)" using ok e(2) by (simp add: key_dict_def)
    ultimately show ?thesis using e(1) by simp
  qed
qed

lemma create_text: "key_dict den ty (dictCreate ty)" "key_map den (dictCreate ty) = Map.empty"
proof -
  have e: "dict_entries (dictCreate ty) = []" by (simp add: dictCreate_def dictReset_def dict_entries_def)
  then show "key_dict den ty (dictCreate ty)" by (simp add: key_dict_def dictCreate_inv) (simp add: dictCreate_def)
  show "key_map den (dictCreate ty) = Map.empty" by (simp add: key_map_def key_pairs_def e)
qed

end

interpretation keysd: text_keys "dbDictType seed" "\<lambda>s. s"
  by unfold_locales (rule db_same, simp_all add: dupKey_def dupVal_def dbDictType_def)

lemma exp_same: "sameKey (keyptrDictType seed) a b = dictSdsKeyCompare a b"
  by (auto simp: sameKey_def dictCompareKeys_def keyptrDictType_def dictSdsKeyCompare_iff)

interpretation expd: text_keys "keyptrDictType seed" "\<lambda>s. s"
  by unfold_locales (rule exp_same, simp_all add: dupKey_def dupVal_def keyptrDictType_def)

end
