(* ===== verification/ObjDict.thy ===== *)
theory ObjDict
  imports Robj TextDict
begin

text \<open>
  Dictionaries with string objects as keys: what the hash, set and sorted set types rely on. Keys are
  compared by the text of the object, so the interface \<open>text_keys\<close> applies.
\<close>

abbreviation obj_short :: "strobj \<Rightarrow> bool" where
  "obj_short ob \<equiv> short_key obj_text ob"

abbreviation obj_dict :: "(strobj, 'v) dictType \<Rightarrow> (strobj, 'v) dict \<Rightarrow> bool" where
  "obj_dict ty d \<equiv> key_dict obj_text ty d"

abbreviation text_pairs :: "(strobj, 'v) dict \<Rightarrow> (bytes \<times> 'v) list" where
  "text_pairs d \<equiv> key_pairs obj_text d"

abbreviation text_map :: "(strobj, 'v) dict \<Rightarrow> bytes \<Rightarrow> 'v option" where
  "text_map d \<equiv> key_map obj_text d"

lemmas obj_short_def = short_key_def [of obj_text]

lemmas obj_dict_def = key_dict_def [of obj_text]

lemmas text_map_def = key_map_def [of obj_text]

lemmas text_pairs_def = key_pairs_def [of obj_text]

interpretation hashd: text_keys "hashDictType seed" obj_text
  by unfold_locales (rule obj_same, simp_all add: dupKey_def dupVal_def hashDictType_def)

interpretation setd: text_keys "setDictType seed" obj_text
  by unfold_locales (rule obj_same, simp_all add: dupKey_def dupVal_def setDictType_def)

end
