(* ===== verification/ZiplistShort.thy ===== *)
theory ZiplistShort
  imports ZiplistSpec
begin

text \<open>
  Ziplists of short strings, as the hash and sorted set types keep them: every string has at most 240
  bytes, so all entries are shorter than 254 bytes and no length field is ever widened. Then the
  position of an entry depends on the strings alone (\<open>spos\<close>), and inserting and deleting at any
  position succeed.
\<close>

abbreviation SHORT_MAX :: nat where "SHORT_MAX \<equiv> 240"

definition short :: "bytes list \<Rightarrow> zent list" where
  "short ss = map (Pair False) ss"

definition zl_short :: "cmemory \<Rightarrow> bytes list \<Rightarrow> bool" where
  "zl_short zl ss \<longleftrightarrow> zl_rep zl (short ss) \<and> (\<forall>s \<in> set ss. length s \<le> SHORT_MAX)"

text \<open>The position of what follows the strings \<open>ss\<close>.\<close>

definition spos :: "bytes list \<Rightarrow> nat" where
  "spos ss = offs (short ss)"

lemma short_simps [simp]:
  "short [] = []" "short (s # ss) = (False, s) # short ss" "short (ss @ ts) = short ss @ short ts"
  "map snd (short ss) = ss" "length (short ss) = length ss" "short ss = [] \<longleftrightarrow> ss = []"
  by (simp_all add: short_def comp_def)

lemma take_short: "take n (short ss) = short (take n ss)" "drop n (short ss) = short (drop n ss)"
  by (simp_all add: short_def take_map drop_map)

lemma short_entry: "length s \<le> SHORT_MAX \<Longrightarrow> entry_len (False, s) < 254"
  using payload_le [of s] by (simp add: entry_len_def prev_size_def)

lemma short_last: "\<forall>s \<in> set ss. length s \<le> SHORT_MAX \<Longrightarrow> last_len 0 (short ss) < 254"
  by (cases ss rule: rev_cases) (simp_all add: short_entry)

lemma short_ins:
  assumes "\<forall>t \<in> set (xs @ s # ys). length t \<le> SHORT_MAX"
  shows "ins_list (short xs) s (short ys) = short (xs @ s # ys)"
proof -
  have "last_len 0 (short xs) < 254" "entry_len (False, s) < 254" using assms short_last short_entry by auto
  moreover have "fix_flags (entry_len (False, y)) (short zs) = short zs" if "length y \<le> SHORT_MAX" for y zs
    using short_entry [OF that] by (cases zs) simp_all
  ultimately show ?thesis using assms by (cases ys) (simp_all add: ins_list_def Let_def)
qed

lemma short_del:
  assumes "\<forall>t \<in> set (xs @ ys). length t \<le> SHORT_MAX"
  shows "del_list (short xs) (short ys) = short (xs @ ys)"
proof -
  have "last_len 0 (short xs) < 254" using assms short_last by auto
  moreover have "fix_flags (entry_len (False, y)) (short zs) = short zs" if "length y \<le> SHORT_MAX" for y zs
    using short_entry [OF that] by (cases zs) simp_all
  ultimately show ?thesis using assms by (cases ys) (simp_all add: del_list_def Let_def)
qed

text \<open>Room for one more string.\<close>

lemma short_room: "zl_fits (s # ss) \<Longrightarrow> zl_room (short ss) s"
  by (rule zl_fits_room) simp

lemma short_fits:
  assumes "\<forall>s \<in> set ss. length s \<le> SHORT_MAX" and "length ss \<le> 2 ^ 23"
  shows "zl_fits ss"
proof -
  have "sum_list (map (\<lambda>s. length s + 18) ss) \<le> 258 * length ss" using assms(1) by (induction ss) auto
  then show ?thesis using assms(2) by (simp add: zl_fits_def)
qed

lemma zl_short_new: "\<exists>zl. ziplistNew = Some zl \<and> zl_short zl []"
  using ziplistNew_ok by (auto simp: zl_short_def)

lemma zl_short_insert:
  assumes z: "zl_short zl (xs @ ys)" and s: "length s \<le> SHORT_MAX" and f: "zl_fits (s # xs @ ys)"
  shows "\<exists>zl'. ziplistInsert zl (spos xs) s = Some zl' \<and> zl_short zl' (xs @ s # ys)"
proof -
  have "insert_safe (short (xs @ ys)) (length xs) s" by (cases ys) (simp_all add: insert_safe_def nth_append)
  from insert_ok [OF _ _ short_room [OF f] this] z
  obtain zl' where "ziplistInsert_at zl (offs (short xs)) s = Some zl'" "zl_rep zl' (ins_list (short xs) s (short ys))"
    by (auto simp: zl_short_def)
  moreover have "ins_list (short xs) s (short ys) = short (xs @ s # ys)" using z s by (intro short_ins) (auto simp: zl_short_def)
  ultimately show ?thesis using z s by (auto simp: zl_short_def spos_def ziplistInsert_def)
qed

lemma zl_short_push:
  assumes z: "zl_short zl ss" and s: "length s \<le> SHORT_MAX" and f: "zl_fits (s # ss)"
  shows "\<exists>zl'. ziplistPush zl s False = Some zl' \<and> zl_short zl' (ss @ [s])"
proof -
  have "zl_rep zl (short ss)" using z by (simp add: zl_short_def)
  from rep_header [OF this] have "ziplistPush zl s False = ziplistInsert zl (spos ss) s"
    by (simp add: ziplistPush_def ziplistInsert_def spos_def)
  then show ?thesis using zl_short_insert [of zl ss "[]" s] z s f by simp
qed

lemma zl_short_delete:
  assumes z: "zl_short zl (xs @ d # ys)" and f: "zl_fits (xs @ d # ys)"
  shows "\<exists>zl'. ziplistDelete zl (spos xs) = Some (zl', spos xs) \<and> zl_short zl' (xs @ ys)"
proof -
  have r: "zl_rep zl (short xs @ [(False, d)] @ short ys)" and l: "\<forall>t \<in> set (xs @ ys). length t \<le> SHORT_MAX"
    using z by (auto simp: zl_short_def)
  have "\<exists>zl'. ziplistDelete_at zl (offs (short xs)) 1 = Some zl' \<and> zl_rep zl' (short (xs @ ys))"
  proof (cases ys)
    case Nil
    then show ?thesis using delete_end [of zl "short xs" "[(False, d)]" 1] r by simp
  next
    case (Cons y zs)
    have "offs (short (xs @ d # ys)) + 1 < 4294967296" using z unfolding zl_short_def zl_rep_def by blast
    then have "offs (del_list (short xs) (short ys)) + 1 < 4294967296" unfolding short_del [OF l] by simp
    then show ?thesis using delete_mid [of zl "short xs" "[(False, d)]" "(False, y)" "short zs" 1] r Cons short_del [OF l] by simp
  qed
  then show ?thesis using l by (auto simp: zl_short_def ziplistDelete_def spos_def)
qed

section \<open>Reading\<close>

lemma zl_short_head:
  assumes "zl_short zl ss"
  shows "ziplistIndex zl 0 = Some (if ss = [] then None else Some (spos []))"
  using ziplistIndex_ok [of zl "short ss" 0] assms by (auto simp: zl_short_def spos_def)

lemma zl_short_next:
  assumes "zl_short zl (xs @ s # ys)"
  shows "ziplistNext zl (spos xs) = Some (if ys = [] then None else Some (spos (xs @ [s])))"
  using ziplistNext_ok [of zl "short xs" "(False, s)" "short ys"] assms by (simp add: zl_short_def spos_def)

lemma zl_short_get:
  assumes "zl_short zl (xs @ s # ys)"
  shows "case zipTryEncoding s of
      Some (v, enc) \<Rightarrow> ziplistGet zl (Some (spos xs)) = Some (Some (Sval v)) \<and> s = dec_int v
    | None \<Rightarrow> (\<exists>q. ziplistGet zl (Some (spos xs)) = Some (Some (Sstr q (length s))) \<and> mem_read zl q (length s) = Some s)"
  using ziplistGet_ok [of zl "short xs" "(False, s)" "short ys", unfolded snd_conv] assms
  unfolding zl_short_def spos_def by simp

lemma zl_short_find:
  assumes "zl_short zl ss"
  shows "ziplistFind zl (spos []) v skip = Some (map_option (\<lambda>i. spos (take i ss)) (find_idx skip 0 v ss))"
  using zl_find_loop_ok [of zl "[]" "short ss" v "(0, 0)" skip 0] assms
  by (simp add: zl_short_def spos_def cache_ok_def ziplistFind_def take_short)

lemma zl_short_len:
  assumes "zl_short zl ss"
  shows "\<exists>zl'. ziplistLen zl = Some (length ss, zl') \<and> zl_short zl' ss"
  using ziplistLen_ok [of zl "short ss"] assms by (auto simp: zl_short_def)

section \<open>Pairs\<close>

text \<open>Fields and values in turn.\<close>

fun flat :: "(bytes \<times> bytes) list \<Rightarrow> bytes list" where
  "flat [] = []"
| "flat (p # ps) = fst p # snd p # flat ps"

lemma flat_append [simp]: "flat (ps @ qs) = flat ps @ flat qs" "length (flat ps) = 2 * length ps" "flat ps = [] \<longleftrightarrow> ps = []"
  by (induction ps) simp_all

lemma set_flat: "set (flat ps) = fst ` set ps \<union> snd ` set ps"
  by (induction ps) auto

lemma find_idx_flat_notin: "f \<notin> fst ` set ps \<Longrightarrow> find_idx 1 0 f (flat ps) = None"
  by (induction ps) auto

lemma find_idx_flat: "f \<notin> fst ` set ps \<Longrightarrow> find_idx 1 0 f (flat (ps @ (f, v) # qs)) = Some (2 * length ps)"
  by (induction ps) auto

lemma zl_short_find_pair:
  assumes "zl_short zl (flat (ps @ (f, v) # qs))" and "f \<notin> fst ` set ps"
  shows "ziplistFind zl (spos []) f 1 = Some (Some (spos (flat ps)))"
  using zl_short_find [OF assms(1), of f 1] find_idx_flat [OF assms(2), of v qs] by simp

lemma zl_short_find_none:
  assumes "zl_short zl (flat ps)" and "f \<notin> fst ` set ps"
  shows "ziplistFind zl (spos []) f 1 = Some None"
  using zl_short_find [OF assms(1), of f 1] find_idx_flat_notin [OF assms(2)] by simp

end
