(* ===== verification/HashType.thy ===== *)
theory HashType
  imports ObjDict ZiplistShort
begin

text \<open>
  The hash type of \<open>redis-3.2/src/t_hash.c\<close>: a mapping of fields to values kept as a ziplist of
  alternating fields and values while it is small, and as a dictionary from then on.

  A hash object is the union of its two encodings. Operations return the object they leave behind:
  a lookup advances an incremental rehash, and counting may store the length of a ziplist. The
  configuration parameters are a record. New dictionary entries get the addresses of a list, in order.
  Fields and values are string objects (\<open>Robj\<close>); what is released is described with the dictionary.
  \<open>None\<close> is undefined behaviour, a failed assertion or \<open>serverPanic\<close>.
\<close>

section \<open>Data\<close>

record hash_conf =
  hash_max_ziplist_entries :: nat
  hash_max_ziplist_value :: nat
  dict_can_resize :: bool
  dict_hash_seed :: "32 word"

datatype hashobj = HashZiplist cmemory | HashHt "(strobj, strobj) dict"

datatype hash_encoding = OBJ_ENCODING_ZIPLIST | OBJ_ENCODING_HT

definition createHashObject :: "hashobj option" where
  "createHashObject = map_option HashZiplist ziplistNew"

text \<open>A string passed to the ziplist: its length is cast to 32 bits.\<close>

definition zl_arg :: "bytes \<Rightarrow> bytes" where
  "zl_arg s = take (u32 (length s)) s"

definition decoded :: "strobj \<Rightarrow> bytes option" where
  "decoded ob = do { ob \<leftarrow> getDecodedObject ob; ptr_sds ob }"

section \<open>Lookup\<close>

text \<open>The search for a field that the ziplist branches open with: the position of the field, if any.\<close>

definition zl_field :: "cmemory \<Rightarrow> strobj \<Rightarrow> nat option option" where
  "zl_field zl field = do {
     field \<leftarrow> decoded field;
     fptr \<leftarrow> ziplistIndex zl 0;
     case fptr of None \<Rightarrow> Some None | Some fptr \<Rightarrow> ziplistFind zl fptr (zl_arg field) 1
   }"

text \<open>\<open>ziplistNext\<close> with the assertion that there is an entry.\<close>

definition zl_value :: "cmemory \<Rightarrow> nat \<Rightarrow> nat option" where
  "zl_value zl fptr = do { vptr \<leftarrow> ziplistNext zl fptr; vptr }"

text \<open>The inner \<open>None\<close> is the result -1.\<close>

definition hashTypeGetFromZiplist :: "hashobj \<Rightarrow> strobj \<Rightarrow> zlvalue option option" where
  "hashTypeGetFromZiplist ob field =
     (case ob of
        HashHt _ \<Rightarrow> None
      | HashZiplist zl \<Rightarrow> do {
          fptr \<leftarrow> zl_field zl field;
          case fptr of
            None \<Rightarrow> Some None
          | Some fptr \<Rightarrow> do {
              vptr \<leftarrow> zl_value zl fptr;
              ret \<leftarrow> ziplistGet zl (Some vptr);
              val \<leftarrow> ret;
              Some (Some val)
            }
        })"

definition hashTypeGetFromHashTable :: "hashobj \<Rightarrow> strobj \<Rightarrow> (strobj option \<times> hashobj) option" where
  "hashTypeGetFromHashTable ob field =
     (case ob of
        HashZiplist _ \<Rightarrow> None
      | HashHt d \<Rightarrow> do {
          (de, d) \<leftarrow> dictFind d field;
          Some (map_option de_val de, HashHt d)
        })"

text \<open>The object for what \<open>ziplistGet\<close> found.\<close>

definition zl_object :: "cmemory \<Rightarrow> zlvalue \<Rightarrow> strobj option" where
  "zl_object zl val =
     (case val of
        Sstr q n \<Rightarrow> do { bs \<leftarrow> mem_read zl q n; createStringObject (Some bs) n }
      | Sval v \<Rightarrow> createStringObjectFromLongLong v)"

definition hashTypeGetObject :: "hashobj \<Rightarrow> strobj \<Rightarrow> (strobj option \<times> hashobj) option" where
  "hashTypeGetObject ob field =
     (case ob of
        HashZiplist zl \<Rightarrow> do {
          r \<leftarrow> hashTypeGetFromZiplist ob field;
          case r of
            None \<Rightarrow> Some (None, ob)
          | Some val \<Rightarrow> do { val \<leftarrow> zl_object zl val; Some (Some val, ob) }
        }
      | HashHt d \<Rightarrow> hashTypeGetFromHashTable ob field)"

definition hashTypeGetValueLength :: "hashobj \<Rightarrow> strobj \<Rightarrow> (nat \<times> hashobj) option" where
  "hashTypeGetValueLength ob field =
     (case ob of
        HashZiplist zl \<Rightarrow> do {
          r \<leftarrow> hashTypeGetFromZiplist ob field;
          Some (case r of None \<Rightarrow> 0 | Some (Sstr q n) \<Rightarrow> n | Some (Sval v) \<Rightarrow> sdigits10 v, ob)
        }
      | HashHt d \<Rightarrow> do {
          (r, ob) \<leftarrow> hashTypeGetFromHashTable ob field;
          case r of
            None \<Rightarrow> Some (0, ob)
          | Some aux \<Rightarrow> do { len \<leftarrow> stringObjectLen aux; Some (len, ob) }
        })"

definition hashTypeExists :: "hashobj \<Rightarrow> strobj \<Rightarrow> (bool \<times> hashobj) option" where
  "hashTypeExists ob field =
     (case ob of
        HashZiplist zl \<Rightarrow> do { r \<leftarrow> hashTypeGetFromZiplist ob field; Some (r \<noteq> None, ob) }
      | HashHt d \<Rightarrow> do { (r, ob) \<leftarrow> hashTypeGetFromHashTable ob field; Some (r \<noteq> None, ob) })"

definition hashTypeLength :: "hashobj \<Rightarrow> (nat \<times> hashobj) option" where
  "hashTypeLength ob =
     (case ob of
        HashZiplist zl \<Rightarrow> do { (len, zl) \<leftarrow> ziplistLen zl; Some (len div 2, HashZiplist zl) }
      | HashHt d \<Rightarrow> Some (dictSize d, ob))"

section \<open>Iteration\<close>

text \<open>Field and value positions in a ziplist, or an iterator of the dictionary and the entry it is at.\<close>

datatype hashTypeIterator = ZlIter "nat option" "nat option" | HtIter dictIterator "nat option"

definition hashTypeInitIterator :: "hashobj \<Rightarrow> hashTypeIterator" where
  "hashTypeInitIterator ob =
     (case ob of HashZiplist _ \<Rightarrow> ZlIter None None | HashHt _ \<Rightarrow> HtIter dictGetIterator None)"

definition hashTypeReleaseIterator :: "64 word \<times> 64 word \<Rightarrow> hashobj \<Rightarrow> hashTypeIterator \<Rightarrow> hashobj option" where
  "hashTypeReleaseIterator tabs ob hi =
     (case (hi, ob) of
        (HtIter di de, HashHt d) \<Rightarrow> map_option HashHt (dictReleaseIterator tabs d di)
      | (ZlIter _ _, _) \<Rightarrow> Some ob
      | _ \<Rightarrow> None)"

text \<open>The boolean is \<open>C_OK\<close>. A changed encoding of the subject is undefined.\<close>

definition hashTypeNext :: "64 word \<times> 64 word \<Rightarrow> hashobj \<Rightarrow> hashTypeIterator \<Rightarrow>
    (bool \<times> hashobj \<times> hashTypeIterator) option" where
  "hashTypeNext tabs ob hi =
     (case (hi, ob) of
        (ZlIter fptr vptr, HashZiplist zl) \<Rightarrow> do {
          fptr \<leftarrow> (case fptr of
             None \<Rightarrow> if vptr = None then ziplistIndex zl 0 else None
           | Some _ \<Rightarrow> do { vptr \<leftarrow> vptr; ziplistNext zl vptr });
          case fptr of
            None \<Rightarrow> Some (False, ob, hi)
          | Some fptr \<Rightarrow> do {
              vptr \<leftarrow> zl_value zl fptr;
              Some (True, ob, ZlIter (Some fptr) (Some vptr))
            }
        }
      | (HtIter di de, HashHt d) \<Rightarrow> do {
          (de, d, di) \<leftarrow> dictNext tabs d di;
          Some (de \<noteq> None, HashHt d, HtIter di de)
        }
      | _ \<Rightarrow> None)"

text \<open>\<open>key\<close>: the field is asked for (\<open>OBJ_HASH_KEY\<close>), otherwise the value.\<close>

definition hashTypeCurrentFromZiplist :: "hashobj \<Rightarrow> hashTypeIterator \<Rightarrow> bool \<Rightarrow> zlvalue option" where
  "hashTypeCurrentFromZiplist ob hi key =
     (case (hi, ob) of
        (ZlIter fptr vptr, HashZiplist zl) \<Rightarrow> do {
          ret \<leftarrow> ziplistGet zl (if key then fptr else vptr);
          ret
        }
      | _ \<Rightarrow> None)"

definition hashTypeCurrentFromHashTable :: "hashobj \<Rightarrow> hashTypeIterator \<Rightarrow> bool \<Rightarrow> strobj option" where
  "hashTypeCurrentFromHashTable ob hi key =
     (case (hi, ob) of
        (HtIter di de, HashHt d) \<Rightarrow> do {
          a \<leftarrow> de;
          e \<leftarrow> List.find (\<lambda>e. de_addr e = a) (dict_entries d);
          Some (if key then de_key e else de_val e)
        }
      | _ \<Rightarrow> None)"

definition hashTypeCurrentObject :: "hashobj \<Rightarrow> hashTypeIterator \<Rightarrow> bool \<Rightarrow> strobj option" where
  "hashTypeCurrentObject ob hi key =
     (case ob of
        HashZiplist zl \<Rightarrow> do { val \<leftarrow> hashTypeCurrentFromZiplist ob hi key; zl_object zl val }
      | HashHt d \<Rightarrow> hashTypeCurrentFromHashTable ob hi key)"

section \<open>Conversion\<close>

text \<open>The loop of \<open>hashTypeConvertZiplist\<close>. A field that is already in the dictionary fails an
  assertion. The new objects have one reference.\<close>

partial_function (option) convert_loop :: "hash_conf \<Rightarrow> hashobj \<Rightarrow> nat list \<Rightarrow> hashTypeIterator \<Rightarrow>
    (strobj, strobj) dict \<Rightarrow> (strobj, strobj) dict option" where
  "convert_loop conf ob addrs hi d = do {
     (ok, ob, hi) \<leftarrow> hashTypeNext (0, 0) ob hi;
     if \<not> ok then Some d
     else do {
       field \<leftarrow> hashTypeCurrentObject ob hi True;
       field \<leftarrow> tryObjectEncoding 1 field;
       val \<leftarrow> hashTypeCurrentObject ob hi False;
       val \<leftarrow> tryObjectEncoding 1 val;
       (case addrs of
          [] \<Rightarrow> None
        | a # addrs \<Rightarrow> do {
            (ret, d) \<leftarrow> dictAdd (dict_can_resize conf) d a val field val;
            if ret then convert_loop conf ob addrs hi d else None
          })
     }
   }"

definition hashTypeConvertZiplist :: "hash_conf \<Rightarrow> nat list \<Rightarrow> hashobj \<Rightarrow> hash_encoding \<Rightarrow> hashobj option" where
  "hashTypeConvertZiplist conf addrs ob enc =
     (case (ob, enc) of
        (HashHt _, _) \<Rightarrow> None
      | (HashZiplist zl, OBJ_ENCODING_ZIPLIST) \<Rightarrow> Some ob
      | (HashZiplist zl, OBJ_ENCODING_HT) \<Rightarrow>
          map_option HashHt (convert_loop conf ob addrs (hashTypeInitIterator ob)
            (dictCreate (hashDictType (dict_hash_seed conf)))))"

definition hashTypeConvert :: "hash_conf \<Rightarrow> nat list \<Rightarrow> hashobj \<Rightarrow> hash_encoding \<Rightarrow> hashobj option" where
  "hashTypeConvert conf addrs ob enc =
     (case ob of HashZiplist _ \<Rightarrow> hashTypeConvertZiplist conf addrs ob enc | HashHt _ \<Rightarrow> None)"

text \<open>The arguments from \<open>start\<close> to \<open>end\<close> as a list.\<close>

fun hashTypeTryConversion :: "hash_conf \<Rightarrow> nat list \<Rightarrow> hashobj \<Rightarrow> strobj list \<Rightarrow> hashobj option" where
  "hashTypeTryConversion conf addrs (HashHt d) argv = Some (HashHt d)"
| "hashTypeTryConversion conf addrs (HashZiplist zl) [] = Some (HashZiplist zl)"
| "hashTypeTryConversion conf addrs (HashZiplist zl) (arg # argv) =
     (case ptr_sds arg of
        Some s \<Rightarrow>
          if length s > hash_max_ziplist_value conf then hashTypeConvert conf addrs (HashZiplist zl) OBJ_ENCODING_HT
          else hashTypeTryConversion conf addrs (HashZiplist zl) argv
      | None \<Rightarrow> hashTypeTryConversion conf addrs (HashZiplist zl) argv)"

text \<open>\<open>None\<close> for a null pointer; \<open>refcount\<close> of the two arguments.\<close>

definition hashTypeTryObjectEncoding :: "hashobj \<Rightarrow> nat \<Rightarrow> strobj option \<Rightarrow> nat \<Rightarrow> strobj option \<Rightarrow>
    (strobj option \<times> strobj option) option" where
  "hashTypeTryObjectEncoding subject rc1 o1 rc2 o2 =
     (case subject of
        HashHt _ \<Rightarrow> do {
          o1 \<leftarrow> (case o1 of None \<Rightarrow> Some None | Some ob \<Rightarrow> map_option Some (tryObjectEncoding rc1 ob));
          o2 \<leftarrow> (case o2 of None \<Rightarrow> Some None | Some ob \<Rightarrow> map_option Some (tryObjectEncoding rc2 ob));
          Some (o1, o2)
        }
      | HashZiplist _ \<Rightarrow> Some (o1, o2))"

section \<open>Update\<close>

text \<open>The ziplist branch: the list with the pair, and whether a value was replaced.\<close>

definition hashSet_ziplist :: "cmemory \<Rightarrow> strobj \<Rightarrow> strobj \<Rightarrow> (bool \<times> cmemory) option" where
  "hashSet_ziplist zl field val = do {
     fs \<leftarrow> decoded field;
     vs \<leftarrow> decoded val;
     fptr \<leftarrow> zl_field zl field;
     case fptr of
       Some fptr \<Rightarrow> do {
         vptr \<leftarrow> zl_value zl fptr;
         (zl, vptr) \<leftarrow> ziplistDelete zl vptr;
         zl \<leftarrow> ziplistInsert zl vptr (zl_arg vs);
         Some (True, zl)
       }
     | None \<Rightarrow> do {
         zl \<leftarrow> ziplistPush zl (zl_arg fs) False;
         zl \<leftarrow> ziplistPush zl (zl_arg vs) False;
         Some (False, zl)
       }
   }"

text \<open>The boolean: an existing field was updated.\<close>

definition hashTypeSet :: "hash_conf \<Rightarrow> nat list \<Rightarrow> hashobj \<Rightarrow> strobj \<Rightarrow> strobj \<Rightarrow> (bool \<times> hashobj) option" where
  "hashTypeSet conf addrs ob field val =
     (case ob of
        HashZiplist zl \<Rightarrow> do {
          (update, zl) \<leftarrow> hashSet_ziplist zl field val;
          (len, ob) \<leftarrow> hashTypeLength (HashZiplist zl);
          ob \<leftarrow> (if len > hash_max_ziplist_entries conf then hashTypeConvert conf addrs ob OBJ_ENCODING_HT else Some ob);
          Some (update, ob)
        }
      | HashHt d \<Rightarrow>
          (case addrs of
             [] \<Rightarrow> None
           | a # _ \<Rightarrow> do {
               (new, rel, d) \<leftarrow> dictReplace (dict_can_resize conf) d a val field val;
               Some (\<not> new, HashHt d)
             }))"

definition hashTypeDelete :: "hash_conf \<Rightarrow> hashobj \<Rightarrow> strobj \<Rightarrow> (bool \<times> hashobj) option" where
  "hashTypeDelete conf ob field =
     (case ob of
        HashZiplist zl \<Rightarrow> do {
          fptr \<leftarrow> zl_field zl field;
          case fptr of
            None \<Rightarrow> Some (False, ob)
          | Some fptr \<Rightarrow> do {
              (zl, fptr) \<leftarrow> ziplistDelete zl fptr;
              (zl, fptr) \<leftarrow> ziplistDelete zl fptr;
              Some (True, HashZiplist zl)
            }
        }
      | HashHt d \<Rightarrow> do {
          (ok, rel, d) \<leftarrow> dictDelete d field;
          if ok then do {
            d \<leftarrow> (if htNeedsResize d then map_option snd (dictResize (dict_can_resize conf) d) else Some d);
            Some (True, HashHt d)
          }
          else Some (False, HashHt d)
        })"

section \<open>The mapping a hash stands for\<close>

definition conf_ok :: "hash_conf \<Rightarrow> bool" where
  "conf_ok conf \<longleftrightarrow> hash_max_ziplist_entries conf \<le> 2 ^ 20 \<and> hash_max_ziplist_value conf \<le> SHORT_MAX"

text \<open>The pairs in the order of the representation.\<close>

definition hash_pairs :: "hash_conf \<Rightarrow> hashobj \<Rightarrow> (bytes \<times> bytes) list \<Rightarrow> bool" where
  "hash_pairs conf ob ps \<longleftrightarrow> distinct (map fst ps) \<and>
     (case ob of
        HashZiplist zl \<Rightarrow> zl_short zl (flat ps) \<and> length ps \<le> hash_max_ziplist_entries conf
      | HashHt d \<Rightarrow> obj_dict (hashDictType (dict_hash_seed conf)) d \<and> ps = map (\<lambda>(f, v). (f, obj_text v)) (text_pairs d))"

definition hash_rep :: "hash_conf \<Rightarrow> hashobj \<Rightarrow> (bytes \<Rightarrow> bytes option) \<Rightarrow> bool" where
  "hash_rep conf ob m \<longleftrightarrow> (\<exists>ps. hash_pairs conf ob ps \<and> m = map_of ps)"

abbreviation ht_texts :: "(strobj, strobj) dict \<Rightarrow> bytes \<Rightarrow> bytes option" where
  "ht_texts d \<equiv> map_option obj_text \<circ> text_map d"

lemma hash_rep_ht: "hash_rep conf (HashHt d) m \<longleftrightarrow> obj_dict (hashDictType (dict_hash_seed conf)) d \<and> m = ht_texts d"
proof -
  have "map fst (map (\<lambda>(f, v). (f, obj_text v)) (text_pairs d)) = map fst (text_pairs d)" by (auto simp: comp_def)
  moreover have "map_of (map (\<lambda>(f, v). (f, obj_text v)) (text_pairs d)) = ht_texts d" by (simp add: map_of_map text_map_def)
  ultimately show ?thesis unfolding hash_rep_def hash_pairs_def using hashd.texts_distinct by (auto simp del: map_map)
qed

lemma decoded_ok [simp]: "decoded ob = Some (obj_text ob)"
  by (rule decoded_text [of ob]) (simp add: decoded_def)

lemma zl_arg_id: "length s < 2 ^ 31 \<Longrightarrow> zl_arg s = s"
  by (simp add: zl_arg_def u32_def)

lemma map_of_first_ex: "map_of ps f = Some v \<Longrightarrow> \<exists>as bs. ps = as @ (f, v) # bs \<and> f \<notin> fst ` set as"
proof (induction ps)
  case (Cons p ps)
  show ?case
  proof (cases "fst p = f")
    case True
    then show ?thesis using Cons.prems by (intro exI [of _ "[]"] exI [of _ ps]) (cases p, simp)
  next
    case False
    then obtain as bs where "ps = as @ (f, v) # bs" "f \<notin> fst ` set as" using Cons by (cases p) auto
    then show ?thesis using False by (intro exI [of _ "p # as"] exI [of _ bs]) auto
  qed
qed simp

lemma map_of_snoc: "fst p \<notin> fst ` set as \<Longrightarrow> map_of (as @ [p]) = (map_of as)(fst p \<mapsto> snd p)"
  by (induction as) auto

lemma map_of_replace: "f \<notin> fst ` set as \<Longrightarrow> map_of (as @ (f, v) # bs) = (map_of (as @ (f, w) # bs))(f \<mapsto> v)"
  by (induction as) auto

lemma map_of_drop: "distinct (map fst (as @ (f, v) # bs)) \<Longrightarrow> map_of (as @ bs) = (map_of (as @ (f, v) # bs))(f := None)"
proof (induction as)
  case Nil
  then have "map_of bs f = None" by (simp add: map_of_eq_None_iff)
  then show ?case by auto
qed auto

lemma map_of_first:
  assumes "map_of ps f = Some v"
  obtains as bs where "ps = as @ (f, v) # bs" "f \<notin> fst ` set as"
  using map_of_first_ex [OF assms] by (elim exE conjE) (rule that)

section \<open>Reading a ziplist of pairs\<close>

lemma zl_field_some:
  assumes z: "zl_short zl (flat (as @ (f, v) # bs))" and "f \<notin> fst ` set as" and "obj_text field = f"
  shows "zl_field zl field = Some (Some (spos (flat as)))"
proof -
  have "length f \<le> 240" using z by (auto simp: zl_short_def)
  then show ?thesis using assms zl_short_head [OF z] zl_short_find_pair [OF z assms(2)]
    by (simp add: zl_field_def zl_arg_id)
qed

lemma zl_field_none:
  assumes z: "zl_short zl (flat ps)" and "obj_text field \<notin> fst ` set ps" and "obj_short field"
  shows "zl_field zl field = Some None"
  using zl_short_head [OF z] zl_short_find_none [OF z assms(2)] assms(3)
  by (simp add: zl_field_def zl_arg_id obj_short_def)

lemma zl_value_ok: "zl_short zl (xs @ f # v # ys) \<Longrightarrow> zl_value zl (spos xs) = Some (spos (xs @ [f]))"
  using zl_short_next [of zl xs f "v # ys"] by (simp add: zl_value_def)

lemma zl_object_ok:
  assumes "zl_short zl (xs @ s # ys)"
  obtains val ob where "ziplistGet zl (Some (spos xs)) = Some (Some val)" "zl_object zl val = Some ob" "obj_text ob = s"
    "(case val of Sstr q n \<Rightarrow> n | Sval v \<Rightarrow> sdigits10 v) = length s"
proof (cases "zipTryEncoding s")
  case None
  then obtain q where q: "ziplistGet zl (Some (spos xs)) = Some (Some (Sstr q (length s)))" "mem_read zl q (length s) = Some s"
    using zl_short_get [OF assms] by auto
  obtain ob where "createStringObject (Some s) (length s) = Some ob" "obj_text ob = s" using createStringObject_ok by blast
  with q that show ?thesis by (simp add: zl_object_def)
next
  case (Some ve)
  obtain v enc where ve: "ve = (v, enc)" by (cases ve)
  then have g: "ziplistGet zl (Some (spos xs)) = Some (Some (Sval v))" "s = dec_int v"
    using zl_short_get [OF assms] Some by auto
  have "string2ll s = Some v" using Some ve by (auto simp: zipTryEncoding_def split: if_splits option.splits)
  then have "int64 v" using string2ll_eq by blast
  then show ?thesis using that [of "Sval v" "ObjInt (word_of_int v)"] g long_long_text sint_word_of_int64
    by (simp add: zl_object_def sdigits10_length)
qed

lemma get_ziplist:
  assumes z: "zl_short zl (flat ps)" and f: "obj_short field"
  obtains (none) "map_of ps (obj_text field) = None" "hashTypeGetFromZiplist (HashZiplist zl) field = Some None"
    | (some) v val ob where "map_of ps (obj_text field) = Some v" "hashTypeGetFromZiplist (HashZiplist zl) field = Some (Some val)"
      "zl_object zl val = Some ob" "obj_text ob = v" "(case val of Sstr q n \<Rightarrow> n | Sval v \<Rightarrow> sdigits10 v) = length v"
proof (cases "map_of ps (obj_text field)")
  case None
  then have "obj_text field \<notin> fst ` set ps" by (simp add: map_of_eq_None_iff)
  from zl_field_none [OF z this f] none None show ?thesis by (simp add: hashTypeGetFromZiplist_def)
next
  case (Some v)
  then obtain as bs where ps: "ps = as @ (obj_text field, v) # bs" "obj_text field \<notin> fst ` set as" by (rule map_of_first)
  then have z': "zl_short zl (flat as @ obj_text field # v # flat bs)" using z by simp
  then have "zl_short zl ((flat as @ [obj_text field]) @ v # flat bs)" by simp
  from zl_object_ok [OF this] obtain val ob where o: "ziplistGet zl (Some (spos (flat as @ [obj_text field]))) = Some (Some val)"
    "zl_object zl val = Some ob" "obj_text ob = v" "(case val of Sstr q n \<Rightarrow> n | Sval v \<Rightarrow> sdigits10 v) = length v" by blast
  have "zl_field zl field = Some (Some (spos (flat as)))" using z ps by (intro zl_field_some) auto
  then have "hashTypeGetFromZiplist (HashZiplist zl) field = Some (Some val)"
    using zl_value_ok [OF z'] o(1) by (simp add: hashTypeGetFromZiplist_def)
  then show ?thesis using some Some o by blast
qed

section \<open>Lookup in either encoding\<close>

lemma get_ht:
  assumes "obj_dict (hashDictType (dict_hash_seed conf)) d" and "obj_short field"
  shows "\<exists>r d'. hashTypeGetFromHashTable (HashHt d) field = Some (r, HashHt d') \<and> hash_rep conf (HashHt d') (ht_texts d) \<and>
     map_option obj_text r = ht_texts d (obj_text field)"
proof -
  obtain r d' where r: "dictFind d field = Some (r, d')" "obj_dict (hashDictType (dict_hash_seed conf)) d'" "text_map d' = text_map d"
    "map_option de_val r = text_map d (obj_text field)"
    using hashd.find_text [OF assms] by blast
  have "hashTypeGetFromHashTable (HashHt d) field = Some (map_option de_val r, HashHt d')"
    unfolding hashTypeGetFromHashTable_def hashobj.case r(1) by simp
  moreover have "hash_rep conf (HashHt d') (ht_texts d)" using r(2,3) unfolding hash_rep_ht by simp
  moreover have "map_option obj_text (map_option de_val r) = ht_texts d (obj_text field)" unfolding r(4) by simp
  ultimately show ?thesis by blast
qed

lemma hashTypeGetObject_ok:
  assumes r: "hash_rep conf ob m" and f: "obj_short field"
  shows "\<exists>val ob'. hashTypeGetObject ob field = Some (val, ob') \<and> map_option obj_text val = m (obj_text field) \<and> hash_rep conf ob' m"
proof (cases ob)
  case (HashZiplist zl)
  then obtain ps where ps: "zl_short zl (flat ps)" "m = map_of ps" using r by (auto simp: hash_rep_def hash_pairs_def)
  show ?thesis
    by (rule get_ziplist [OF ps(1) f]) (use HashZiplist r ps in \<open>simp_all add: hashTypeGetObject_def\<close>)
next
  case (HashHt d)
  then have "obj_dict (hashDictType (dict_hash_seed conf)) d" "m = ht_texts d" using r by (simp_all add: hash_rep_ht)
  then show ?thesis using get_ht [OF _ f, of conf d] HashHt by (auto simp: hashTypeGetObject_def)
qed

lemma hashTypeExists_ok:
  assumes r: "hash_rep conf ob m" and f: "obj_short field"
  shows "\<exists>ob'. hashTypeExists ob field = Some (m (obj_text field) \<noteq> None, ob') \<and> hash_rep conf ob' m"
proof (cases ob)
  case (HashZiplist zl)
  then obtain ps where ps: "zl_short zl (flat ps)" "m = map_of ps" using r by (auto simp: hash_rep_def hash_pairs_def)
  show ?thesis
    by (rule get_ziplist [OF ps(1) f]) (use HashZiplist r ps in \<open>simp_all add: hashTypeExists_def\<close>)
next
  case (HashHt d)
  then have d: "obj_dict (hashDictType (dict_hash_seed conf)) d" "m = ht_texts d" using r by (simp_all add: hash_rep_ht)
  from get_ht [OF d(1) f] obtain r d' where g: "hashTypeGetFromHashTable (HashHt d) field = Some (r, HashHt d')"
    "hash_rep conf (HashHt d') m" "map_option obj_text r = m (obj_text field)" unfolding d(2) by blast
  have "(r \<noteq> None) = (m (obj_text field) \<noteq> None)" unfolding g(3) [symmetric] by simp
  then show ?thesis using g HashHt by (simp add: hashTypeExists_def)
qed

lemma hashTypeGetValueLength_ok:
  assumes r: "hash_rep conf ob m" and f: "obj_short field"
  shows "\<exists>ob'. hashTypeGetValueLength ob field =
      Some (case m (obj_text field) of None \<Rightarrow> 0 | Some v \<Rightarrow> length v, ob') \<and> hash_rep conf ob' m"
proof (cases ob)
  case (HashZiplist zl)
  then obtain ps where ps: "zl_short zl (flat ps)" "m = map_of ps" using r by (auto simp: hash_rep_def hash_pairs_def)
  show ?thesis
    by (rule get_ziplist [OF ps(1) f])
      (use HashZiplist r ps in \<open>auto simp: hashTypeGetValueLength_def split: zlvalue.splits\<close>)
next
  case (HashHt d)
  then have d: "obj_dict (hashDictType (dict_hash_seed conf)) d" "m = ht_texts d" using r by (simp_all add: hash_rep_ht)
  from get_ht [OF d(1) f] obtain r d' where g: "hashTypeGetFromHashTable (HashHt d) field = Some (r, HashHt d')"
    "hash_rep conf (HashHt d') m" "map_option obj_text r = m (obj_text field)" unfolding d(2) by blast
  show ?thesis using g HashHt by (cases r) (auto simp: hashTypeGetValueLength_def stringObjectLen_text g(3) [symmetric])
qed

lemma hashTypeLength_ok:
  assumes r: "hash_rep conf ob m"
  shows "\<exists>ob'. hashTypeLength ob = Some (card (dom m), ob') \<and> hash_rep conf ob' m"
proof (cases ob)
  case (HashZiplist zl)
  then obtain ps where ps: "zl_short zl (flat ps)" "m = map_of ps" "distinct (map fst ps)" "length ps \<le> hash_max_ziplist_entries conf"
    using r by (auto simp: hash_rep_def hash_pairs_def)
  obtain zl' where z: "ziplistLen zl = Some (2 * length ps, zl')" "zl_short zl' (flat ps)" using zl_short_len [OF ps(1)] by auto
  have "card (dom m) = length ps" using distinct_card [OF ps(3)] by (simp add: ps(2) dom_map_of_conv_image_fst)
  moreover have "hash_rep conf (HashZiplist zl') m" using z(2) ps by (auto simp: hash_rep_def hash_pairs_def)
  ultimately show ?thesis using HashZiplist z(1) by (simp add: hashTypeLength_def)
next
  case (HashHt d)
  then have "obj_dict (hashDictType (dict_hash_seed conf)) d" "m = ht_texts d" using r by (simp_all add: hash_rep_ht)
  then show ?thesis using HashHt r hashd.size_text [of _ d] by (auto simp: hashTypeLength_def dom_def)
qed

section \<open>Iteration over a ziplist\<close>

text \<open>The iterator after the pairs \<open>as\<close>.\<close>

definition hi_at :: "(bytes \<times> bytes) list \<Rightarrow> hashTypeIterator" where
  "hi_at as =
     (if as = [] then ZlIter None None
      else ZlIter (Some (spos (flat (butlast as)))) (Some (spos (flat (butlast as) @ [fst (last as)]))))"

lemma hashTypeNext_zl:
  assumes z: "zl_short zl (flat (as @ bs))"
  shows "hashTypeNext tabs (HashZiplist zl) (hi_at as) =
     Some (bs \<noteq> [], HashZiplist zl, hi_at (if bs = [] then as else as @ [hd bs]))"
proof -
  have v: "zl_value zl (spos (flat as)) = Some (spos (flat as @ [fst b]))" if "bs = b # bs'" for b bs'
    using z that by (intro zl_value_ok [of _ _ _ "snd b" "flat bs'"]) simp
  show ?thesis
  proof (cases as rule: rev_cases)
    case Nil
    then show ?thesis using zl_short_head [OF z] v by (cases bs) (auto simp: hashTypeNext_def hi_at_def)
  next
    case (snoc as' p)
    have "zl_short zl ((flat as' @ [fst p]) @ snd p # flat bs)" using z snoc by simp
    from zl_short_next [OF this] have "ziplistNext zl (spos (flat as' @ [fst p])) = Some (if bs = [] then None else Some (spos (flat as)))"
      using snoc by simp
    then show ?thesis using snoc v by (cases bs) (auto simp: hashTypeNext_def hi_at_def butlast_append)
  qed
qed

lemma hashTypeCurrent_zl:
  assumes z: "zl_short zl (flat (as @ p # bs))"
  obtains fo vo where "hashTypeCurrentObject (HashZiplist zl) (hi_at (as @ [p])) True = Some fo" "obj_text fo = fst p"
    "hashTypeCurrentObject (HashZiplist zl) (hi_at (as @ [p])) False = Some vo" "obj_text vo = snd p"
proof -
  have "zl_short zl (flat as @ fst p # snd p # flat bs)" using z by simp
  from zl_object_ok [OF this] obtain val fo where f: "ziplistGet zl (Some (spos (flat as))) = Some (Some val)"
    "zl_object zl val = Some fo" "obj_text fo = fst p" by blast
  have "zl_short zl ((flat as @ [fst p]) @ snd p # flat bs)" using z by simp
  from zl_object_ok [OF this] obtain val' vo where v: "ziplistGet zl (Some (spos (flat as @ [fst p]))) = Some (Some val')"
    "zl_object zl val' = Some vo" "obj_text vo = snd p" by blast
  show ?thesis using that [of fo vo] f v by (simp add: hashTypeCurrentObject_def hashTypeCurrentFromZiplist_def hi_at_def)
qed

section \<open>Conversion\<close>

lemma hash_dict_room:
  "a \<notin> de_addr ` set (dict_entries d) \<Longrightarrow> length (dict_entries d) \<le> n \<Longrightarrow> n < 2 ^ 29 \<Longrightarrow> dict_room d a"
  by (simp add: dict_room_def)

lemma convert_loop_ok:
  assumes "zl_short zl (flat (as @ bs))" and "distinct (map fst (as @ bs))"
    and "obj_dict (hashDictType (dict_hash_seed conf)) d" and "ht_texts d = map_of as"
    and "distinct addrs" and "set addrs \<inter> de_addr ` set (dict_entries d) = {}" and "length bs \<le> length addrs"
    and "length (dict_entries d) \<le> length as" and "length as + length bs < 2 ^ 29"
  shows "\<exists>d'. convert_loop conf (HashZiplist zl) addrs (hi_at as) d = Some d' \<and>
     obj_dict (hashDictType (dict_hash_seed conf)) d' \<and> ht_texts d' = map_of (as @ bs) \<and>
     de_addr ` set (dict_entries d') \<subseteq> de_addr ` set (dict_entries d) \<union> set addrs \<and>
     length (dict_entries d') \<le> length as + length bs"
  using assms
proof (induction bs arbitrary: as addrs d)
  case Nil
  have "convert_loop conf (HashZiplist zl) addrs (hi_at as) d = Some d"
    using hashTypeNext_zl [OF Nil.prems(1), of "(0, 0)"] by (subst convert_loop.simps) simp
  then show ?case using Nil.prems by auto
next
  case (Cons p bs)
  obtain a addrs' where a: "addrs = a # addrs'" using Cons.prems(7) by (cases addrs) auto
  obtain fo vo where cur: "hashTypeCurrentObject (HashZiplist zl) (hi_at (as @ [p])) True = Some fo" "obj_text fo = fst p"
    "hashTypeCurrentObject (HashZiplist zl) (hi_at (as @ [p])) False = Some vo" "obj_text vo = snd p"
    using hashTypeCurrent_zl [OF Cons.prems(1)] by metis
  obtain fe ve where enc: "tryObjectEncoding 1 fo = Some fe" "obj_text fe = fst p" "tryObjectEncoding 1 vo = Some ve" "obj_text ve = snd p"
    using tryObjectEncoding_ok [of 1 fo] tryObjectEncoding_ok [of 1 vo] cur by auto
  have "length (fst p) \<le> 240" using Cons.prems(1) by (simp add: zl_short_def)
  then have sh: "obj_short fe" using enc(2) by (simp add: obj_short_def)
  have "ht_texts d (fst p) = None" using Cons.prems(2) unfolding Cons.prems(4) by (auto simp: map_of_eq_None_iff)
  then have new: "text_map d (obj_text fe) = None" by (simp add: enc(2))
  have room: "dict_room d a" using Cons.prems a by (intro hash_dict_room [of a d "length as"]) auto
  obtain d1 where d1: "dictAdd (dict_can_resize conf) d a ve fe ve = Some (True, d1)"
    "obj_dict (hashDictType (dict_hash_seed conf)) d1" "text_map d1 = (text_map d)(obj_text fe \<mapsto> ve)"
    "de_addr ` set (dict_entries d1) \<subseteq> insert a (de_addr ` set (dict_entries d))" "length (dict_entries d1) \<le> Suc (length (dict_entries d))"
    using hashd.add_text [OF Cons.prems(3) sh room, of "dict_can_resize conf" ve ve] new by auto
  have m: "ht_texts d1 = map_of (as @ [p])"
  proof
    fix x
    have "ht_texts d1 x = (if x = fst p then Some (snd p) else ht_texts d x)" using d1(3) enc by simp
    also have "\<dots> = ((map_of as)(fst p \<mapsto> snd p)) x" unfolding Cons.prems(4) by simp
    also have "\<dots> = map_of (as @ [p]) x" using map_of_snoc [of p as] Cons.prems(2) by simp
    finally show "ht_texts d1 x = map_of (as @ [p]) x" .
  qed
  have dis: "set addrs' \<inter> de_addr ` set (dict_entries d1) = {}" using Cons.prems(5,6) d1(4) a by auto
  obtain d' where d': "convert_loop conf (HashZiplist zl) addrs' (hi_at (as @ [p])) d1 = Some d'"
     "obj_dict (hashDictType (dict_hash_seed conf)) d'" "ht_texts d' = map_of ((as @ [p]) @ bs)"
     "de_addr ` set (dict_entries d') \<subseteq> de_addr ` set (dict_entries d1) \<union> set addrs'"
     "length (dict_entries d') \<le> length (as @ [p]) + length bs"
    using Cons.IH [OF _ _ d1(2) m _ dis] Cons.prems(1,2,5,7,8,9) d1(5) a by (auto simp del: comp_apply map_of_append)
  have "convert_loop conf (HashZiplist zl) addrs (hi_at as) d = convert_loop conf (HashZiplist zl) addrs' (hi_at (as @ [p])) d1"
    using hashTypeNext_zl [OF Cons.prems(1), of "(0, 0)"] cur enc d1(1) a by (subst convert_loop.simps) simp
  with d' have c: "convert_loop conf (HashZiplist zl) addrs (hi_at as) d = Some d'" by simp
  have "de_addr ` set (dict_entries d') \<subseteq> de_addr ` set (dict_entries d) \<union> set addrs" using d'(4) d1(4) a by auto
  moreover have "length (dict_entries d') \<le> length as + length (p # bs)" using d'(5) by simp
  moreover have "ht_texts d' = map_of (as @ p # bs)" using d'(3) by simp
  ultimately show ?case using c d'(2) by blast
qed

text \<open>Addresses for new entries: enough for a conversion, or one for an insertion.\<close>

definition hash_room :: "hash_conf \<Rightarrow> hashobj \<Rightarrow> nat list \<Rightarrow> bool" where
  "hash_room conf ob addrs \<longleftrightarrow> distinct addrs \<and>
     (case ob of
        HashZiplist zl \<Rightarrow> hash_max_ziplist_entries conf < length addrs
      | HashHt d \<Rightarrow> addrs \<noteq> [] \<and> set addrs \<inter> de_addr ` set (dict_entries d) = {} \<and> length (dict_entries d) + 1 < 2 ^ 30)"

lemma hashTypeConvert_zl:
  assumes z: "zl_short zl (flat ps)" and dist: "distinct (map fst ps)" and l: "length ps \<le> length addrs" "length ps < 2 ^ 29"
    and a: "distinct addrs"
  shows "\<exists>d. hashTypeConvert conf addrs (HashZiplist zl) OBJ_ENCODING_HT = Some (HashHt d) \<and> hash_rep conf (HashHt d) (map_of ps) \<and>
     de_addr ` set (dict_entries d) \<subseteq> set addrs \<and> length (dict_entries d) \<le> length ps"
proof -
  let ?c = "dictCreate (hashDictType (dict_hash_seed conf)) :: (strobj, strobj) dict"
  have e: "dict_entries ?c = []" by (simp add: dictCreate_def dictReset_def dict_entries_def)
  have "ht_texts ?c = map_of []" using hashd.create_text(2) [where 'a = strobj, of "dict_hash_seed conf"] by auto
  then obtain d where "convert_loop conf (HashZiplist zl) addrs (hi_at []) ?c = Some d"
     "obj_dict (hashDictType (dict_hash_seed conf)) d" "ht_texts d = map_of ps"
     "de_addr ` set (dict_entries d) \<subseteq> set addrs" "length (dict_entries d) \<le> length ps"
    using convert_loop_ok [of zl "[]" ps conf ?c addrs] z dist l a hashd.create_text(1) e by auto
  moreover have "hashTypeInitIterator (HashZiplist zl) = hi_at []" by (simp add: hashTypeInitIterator_def hi_at_def)
  ultimately show ?thesis by (simp add: hashTypeConvert_def hashTypeConvertZiplist_def hash_rep_ht)
qed

section \<open>Update\<close>

definition zl_small :: "strobj \<Rightarrow> bool" where
  "zl_small ob \<longleftrightarrow> length (obj_text ob) \<le> SHORT_MAX"

lemma zl_small_short: "zl_small ob \<Longrightarrow> obj_short ob" "zl_small ob \<Longrightarrow> zl_arg (obj_text ob) = obj_text ob"
  by (simp_all add: zl_small_def obj_short_def zl_arg_id)

lemma hashSet_ziplist_ok:
  assumes z: "zl_short zl (flat ps)" and dist: "distinct (map fst ps)" and l: "length ps \<le> 2 ^ 20"
    and f: "zl_small field" and v: "zl_small val"
  obtains zl' ps' where "hashSet_ziplist zl field val = Some (map_of ps (obj_text field) \<noteq> None, zl')"
    "zl_short zl' (flat ps')" "distinct (map fst ps')" "map_of ps' = (map_of ps)(obj_text field \<mapsto> obj_text val)"
    "length ps' \<le> Suc (length ps)"
proof (cases "map_of ps (obj_text field)")
  case None
  then have n: "obj_text field \<notin> fst ` set ps" by (simp add: map_of_eq_None_iff)
  have b: "\<forall>s \<in> set (flat ps). length s \<le> SHORT_MAX" using z by (simp add: zl_short_def)
  have "zl_fits (obj_text field # flat ps)" "zl_fits (obj_text val # flat ps @ [obj_text field])"
    using b f v l by (auto intro!: short_fits simp: zl_small_def)
  then obtain zl1 zl2 where p: "ziplistPush zl (obj_text field) False = Some zl1" "ziplistPush zl1 (obj_text val) False = Some zl2"
      "zl_short zl2 (flat ps @ [obj_text field, obj_text val])"
    using zl_short_push [OF z, of "obj_text field"] zl_short_push [of _ "flat ps @ [obj_text field]" "obj_text val"] f v
    by (force simp: zl_small_def)
  have "hashSet_ziplist zl field val = Some (False, zl2)"
    using zl_field_none [OF z n zl_small_short(1) [OF f]] p(1,2) f v by (simp add: hashSet_ziplist_def zl_small_short)
  moreover have "map_of (ps @ [(obj_text field, obj_text val)]) = (map_of ps)(obj_text field \<mapsto> obj_text val)"
    using map_of_snoc [of "(obj_text field, obj_text val)" ps] n by simp
  ultimately show ?thesis using that [of zl2 "ps @ [(obj_text field, obj_text val)]"] None p(3) dist n by simp
next
  case (Some w)
  then obtain as bs where ps: "ps = as @ (obj_text field, w) # bs" "obj_text field \<notin> fst ` set as" by (rule map_of_first)
  let ?xs = "flat as @ [obj_text field]"
  have z': "zl_short zl (?xs @ w # flat bs)" and z'': "zl_short zl (flat as @ obj_text field # w # flat bs)"
    using z ps by simp_all
  have b: "\<forall>s \<in> set (?xs @ w # flat bs). length s \<le> SHORT_MAX" using z' by (simp add: zl_short_def)
  have "zl_fits (?xs @ w # flat bs)" "zl_fits (obj_text val # ?xs @ flat bs)"
    using b v l ps by (auto intro!: short_fits simp: zl_small_def)
  then obtain zl1 zl2 where p: "ziplistDelete zl (spos ?xs) = Some (zl1, spos ?xs)" "ziplistInsert zl1 (spos ?xs) (obj_text val) = Some zl2"
      "zl_short zl2 (?xs @ obj_text val # flat bs)"
    using zl_short_delete [OF z'] zl_short_insert [of _ ?xs "flat bs" "obj_text val"] v unfolding zl_small_def by blast
  have "zl_field zl field = Some (Some (spos (flat as)))" using z ps by (intro zl_field_some) auto
  then have "hashSet_ziplist zl field val = Some (True, zl2)"
    using zl_value_ok [OF z''] p(1,2) f v by (simp add: hashSet_ziplist_def zl_small_short)
  moreover have "map_of (as @ (obj_text field, obj_text val) # bs) = (map_of ps)(obj_text field \<mapsto> obj_text val)"
    unfolding ps(1) by (rule map_of_replace [OF ps(2)])
  ultimately show ?thesis using that [of zl2 "as @ (obj_text field, obj_text val) # bs"] Some p(3) dist ps by simp
qed

text \<open>What the set operation asks of its arguments: in a ziplist, that they are small.\<close>

definition set_args :: "hashobj \<Rightarrow> strobj \<Rightarrow> strobj \<Rightarrow> bool" where
  "set_args ob field val \<longleftrightarrow>
     (case ob of HashZiplist _ \<Rightarrow> zl_small field \<and> zl_small val | HashHt _ \<Rightarrow> obj_short field)"

lemma hashTypeSet_ok:
  assumes c: "conf_ok conf" and r: "hash_rep conf ob m" and a: "set_args ob field val" and room: "hash_room conf ob addrs"
  shows "\<exists>ob'. hashTypeSet conf addrs ob field val = Some (m (obj_text field) \<noteq> None, ob') \<and>
     hash_rep conf ob' (m(obj_text field \<mapsto> obj_text val))"
proof (cases ob)
  case (HashZiplist zl)
  let ?m = "m(obj_text field \<mapsto> obj_text val)"
  obtain ps where ps: "zl_short zl (flat ps)" "m = map_of ps" "distinct (map fst ps)" "length ps \<le> hash_max_ziplist_entries conf"
    using r HashZiplist by (auto simp: hash_rep_def hash_pairs_def)
  have "length ps \<le> 2 ^ 20" using ps(4) c by (simp add: conf_ok_def)
  moreover have "zl_small field" "zl_small val" using a HashZiplist by (simp_all add: set_args_def)
  ultimately obtain zl1 ps1 where s: "hashSet_ziplist zl field val = Some (m (obj_text field) \<noteq> None, zl1)"
    "zl_short zl1 (flat ps1)" "distinct (map fst ps1)" "map_of ps1 = ?m" "length ps1 \<le> Suc (length ps)"
    using hashSet_ziplist_ok [OF ps(1,3)] ps(2) by metis
  obtain zl2 where z: "ziplistLen zl1 = Some (2 * length ps1, zl2)" "zl_short zl2 (flat ps1)" using zl_short_len [OF s(2)] by auto
  have len: "hashTypeLength (HashZiplist zl1) = Some (length ps1, HashZiplist zl2)" using z(1) by (simp add: hashTypeLength_def)
  show ?thesis
  proof (cases "length ps1 > hash_max_ziplist_entries conf")
    case True
    have "distinct addrs" "length ps1 \<le> length addrs" "length ps1 < 2 ^ 29"
      using room HashZiplist s(5) ps(4) c by (auto simp: hash_room_def conf_ok_def)
    then obtain d where "hashTypeConvert conf addrs (HashZiplist zl2) OBJ_ENCODING_HT = Some (HashHt d)" "hash_rep conf (HashHt d) ?m"
      using hashTypeConvert_zl [OF z(2) s(3)] unfolding s(4) by blast
    then show ?thesis using HashZiplist s(1) len True by (simp add: hashTypeSet_def)
  next
    case False
    then have "hash_rep conf (HashZiplist zl2) ?m" using z(2) s(3,4) by (auto simp: hash_rep_def hash_pairs_def intro!: exI [of _ ps1])
    then show ?thesis using HashZiplist s(1) len False by (simp add: hashTypeSet_def)
  qed
next
  case (HashHt d)
  then have d: "obj_dict (hashDictType (dict_hash_seed conf)) d" "m = ht_texts d" and f: "obj_short field"
    using r a by (simp_all add: hash_rep_ht set_args_def)
  obtain x as where x: "addrs = x # as" "dict_room d x" using room HashHt by (cases addrs) (auto simp: hash_room_def dict_room_def)
  obtain rel d' where d': "dictReplace (dict_can_resize conf) d x val field val = Some (text_map d (obj_text field) = None, rel, d')"
    "obj_dict (hashDictType (dict_hash_seed conf)) d'" "text_map d' = (text_map d)(obj_text field \<mapsto> val)"
    using hashd.replace_text [OF d(1) f x(2)] by blast
  have "ht_texts d' = m(obj_text field \<mapsto> obj_text val)" unfolding d(2) d'(3) by (rule ext) simp
  then show ?thesis using HashHt d' x(1) d(2) by (simp add: hashTypeSet_def hash_rep_ht)
qed

lemma hashTypeDelete_ok:
  assumes c: "conf_ok conf" and r: "hash_rep conf ob m" and f: "obj_short field"
  shows "\<exists>ob'. hashTypeDelete conf ob field = Some (m (obj_text field) \<noteq> None, ob') \<and> hash_rep conf ob' (m(obj_text field := None))"
proof (cases ob)
  case (HashZiplist zl)
  obtain ps where ps: "zl_short zl (flat ps)" "m = map_of ps" "distinct (map fst ps)" "length ps \<le> hash_max_ziplist_entries conf"
    using r HashZiplist by (auto simp: hash_rep_def hash_pairs_def)
  show ?thesis
  proof (cases "map_of ps (obj_text field)")
    case None
    then have "obj_text field \<notin> fst ` set ps" by (simp add: map_of_eq_None_iff)
    moreover have "m(obj_text field := None) = m" using None ps(2) by (intro fun_upd_idem) simp
    ultimately show ?thesis using zl_field_none [OF ps(1) _ f] HashZiplist r None ps(2) by (simp add: hashTypeDelete_def)
  next
    case (Some w)
    then obtain as bs where s: "ps = as @ (obj_text field, w) # bs" "obj_text field \<notin> fst ` set as" by (rule map_of_first)
    have z: "zl_short zl (flat as @ obj_text field # w # flat bs)" using ps(1) s by simp
    have fits: "zl_fits (flat as @ obj_text field # w # flat bs)" "zl_fits (flat as @ w # flat bs)"
      using z ps(4) c s(1) by (auto intro!: short_fits simp: zl_short_def conf_ok_def)
    obtain zl1 zl2 where p: "ziplistDelete zl (spos (flat as)) = Some (zl1, spos (flat as))"
        "ziplistDelete zl1 (spos (flat as)) = Some (zl2, spos (flat as))" "zl_short zl2 (flat as @ flat bs)"
      using zl_short_delete [OF z fits(1)] zl_short_delete [OF _ fits(2)] by blast
    have "zl_field zl field = Some (Some (spos (flat as)))" using ps(1) s by (intro zl_field_some) auto
    then have "hashTypeDelete conf ob field = Some (True, HashZiplist zl2)" using HashZiplist p(1,2) by (simp add: hashTypeDelete_def)
    moreover have "map_of (as @ bs) = m(obj_text field := None)" using ps(3) unfolding ps(2) s(1) by (rule map_of_drop)
    then have "hash_rep conf (HashZiplist zl2) (m(obj_text field := None))"
      using p(3) ps(3,4) s(1) unfolding hash_rep_def hash_pairs_def by (intro exI [of _ "as @ bs"]) simp
    ultimately show ?thesis using Some ps(2) by simp
  qed
next
  case (HashHt d)
  then have d: "obj_dict (hashDictType (dict_hash_seed conf)) d" "m = ht_texts d" using r by (simp_all add: hash_rep_ht)
  obtain rel d' where d': "dictDelete d field = Some (text_map d (obj_text field) \<noteq> None, rel, d')"
    "obj_dict (hashDictType (dict_hash_seed conf)) d'" "text_map d' = (text_map d)(obj_text field := None)"
    using hashd.delete_text [OF d(1) f] by blast
  obtain ok d'' where d'': "dictResize (dict_can_resize conf) d' = Some (ok, d'')" "obj_dict (hashDictType (dict_hash_seed conf)) d''"
    "text_map d'' = text_map d'" using hashd.resize_text [OF d'(2)] by blast
  have m: "ht_texts d' = m(obj_text field := None)" unfolding d(2) d'(3) by (rule ext) simp
  then have "hash_rep conf (HashHt d') (m(obj_text field := None))" "hash_rep conf (HashHt d'') (m(obj_text field := None))"
    using d'(2) d''(2,3) by (simp_all add: hash_rep_ht)
  then show ?thesis using HashHt d'(1) d''(1) d(2) by (simp add: hashTypeDelete_def)
qed

section \<open>Arguments\<close>

lemma try_conversion_ok:
  assumes c: "conf_ok conf" and r: "hash_rep conf ob m" and room: "hash_room conf ob addrs"
  shows "\<exists>ob'. hashTypeTryConversion conf addrs ob argv = Some ob' \<and> hash_rep conf ob' m \<and>
     (case ob' of
        HashZiplist _ \<Rightarrow> ob' = ob \<and> (\<forall>arg \<in> set argv. zl_small arg)
      | HashHt d \<Rightarrow> ob' = ob \<or> de_addr ` set (dict_entries d) \<subseteq> set addrs \<and> length (dict_entries d) \<le> 2 ^ 20)"
proof (cases ob)
  case (HashHt d)
  then show ?thesis using r by simp
next
  case (HashZiplist zl)
  obtain ps where ps: "zl_short zl (flat ps)" "m = map_of ps" "distinct (map fst ps)" "length ps \<le> hash_max_ziplist_entries conf"
    using r HashZiplist by (auto simp: hash_rep_def hash_pairs_def)
  have a: "distinct addrs" "length ps \<le> length addrs" "length ps < 2 ^ 29" "length ps \<le> 2 ^ 20"
    using room HashZiplist ps(4) c by (auto simp: hash_room_def conf_ok_def)
  obtain d where d: "hashTypeConvert conf addrs (HashZiplist zl) OBJ_ENCODING_HT = Some (HashHt d)" "hash_rep conf (HashHt d) m"
     "de_addr ` set (dict_entries d) \<subseteq> set addrs" "length (dict_entries d) \<le> length ps"
    using hashTypeConvert_zl [OF ps(1,3) a(2,3,1)] ps(2) by blast
  have "hashTypeTryConversion conf addrs ob argv = Some (HashHt d) \<or>
     hashTypeTryConversion conf addrs ob argv = Some ob \<and> (\<forall>arg \<in> set argv. zl_small arg)"
  proof (induction argv)
    case Nil
    then show ?case by (simp add: HashZiplist)
  next
    case (Cons arg argv)
    have "zl_small arg" if "case ptr_sds arg of Some s \<Rightarrow> \<not> length s > hash_max_ziplist_value conf | None \<Rightarrow> True"
    proof (cases arg)
      case (ObjInt w)
      then show ?thesis using length_dec_int_bound [OF int64_sint, of w] by (simp add: zl_small_def)
    qed (use that c in \<open>simp_all add: zl_small_def conf_ok_def\<close>)
    then show ?case using Cons d(1) by (auto simp: HashZiplist split: option.splits)
  qed
  then show ?thesis using HashZiplist r d(2,3,4) a(4) by auto
qed

lemma try_encoding_ok:
  "\<exists>o1' o2'. hashTypeTryObjectEncoding ob rc1 o1 rc2 o2 = Some (o1', o2') \<and>
     map_option obj_text o1' = map_option obj_text o1 \<and> map_option obj_text o2' = map_option obj_text o2"
proof (cases ob)
  case (HashHt d)
  have "\<exists>x'. (case x of None \<Rightarrow> Some None | Some y \<Rightarrow> map_option Some (tryObjectEncoding rc y)) = Some x' \<and>
      map_option obj_text x' = map_option obj_text x" for rc x
    using tryObjectEncoding_ok [of rc] by (cases x) fastforce+
  from this [of rc1 o1] this [of rc2 o2] show ?thesis
    unfolding hashTypeTryObjectEncoding_def HashHt hashobj.case by (elim exE conjE) simp
qed (simp add: hashTypeTryObjectEncoding_def)

section \<open>Listing a hash\<close>

text \<open>The text \<open>addReplyBulkCBuffer\<close>, \<open>addReplyBulkLongLong\<close> and \<open>addReplyBulk\<close> send for a value.\<close>

definition zl_reply :: "cmemory \<Rightarrow> zlvalue \<Rightarrow> bytes option" where
  "zl_reply zl val =
     (case val of
        Sstr q n \<Rightarrow> mem_read zl q n
      | Sval v \<Rightarrow> map_option fst (long_text 64 v))"

definition addHashIteratorCursorToReply :: "hashobj \<Rightarrow> hashTypeIterator \<Rightarrow> bool \<Rightarrow> bytes option" where
  "addHashIteratorCursorToReply ob hi key =
     (case ob of
        HashZiplist zl \<Rightarrow> do { val \<leftarrow> hashTypeCurrentFromZiplist ob hi key; zl_reply zl val }
      | HashHt d \<Rightarrow> do { val \<leftarrow> hashTypeCurrentFromHashTable ob hi key; decoded val })"

text \<open>The loop of \<open>genericHgetallCommand\<close>: the texts sent.\<close>

partial_function (option) hgetall_loop :: "64 word \<times> 64 word \<Rightarrow> bool \<Rightarrow> bool \<Rightarrow> hashobj \<Rightarrow> hashTypeIterator \<Rightarrow>
    (bytes list \<times> hashobj \<times> hashTypeIterator) option" where
  "hgetall_loop tabs keys vals ob hi = do {
     (ok, ob, hi) \<leftarrow> hashTypeNext tabs ob hi;
     if \<not> ok then Some ([], ob, hi)
     else do {
       r1 \<leftarrow> (if keys then map_option (\<lambda>t. [t]) (addHashIteratorCursorToReply ob hi True) else Some []);
       r2 \<leftarrow> (if vals then map_option (\<lambda>t. [t]) (addHashIteratorCursorToReply ob hi False) else Some []);
       (rs, ob, hi) \<leftarrow> hgetall_loop tabs keys vals ob hi;
       Some (r1 @ r2 @ rs, ob, hi)
     }
   }"

text \<open>\<open>genericHgetallCommand\<close> on an existing hash: the announced length and the texts, which the last
  assertion compares in number.\<close>

definition hgetall_object :: "64 word \<times> 64 word \<Rightarrow> bool \<Rightarrow> bool \<Rightarrow> hashobj \<Rightarrow> (int \<times> bytes list \<times> hashobj) option" where
  "hgetall_object tabs keys vals ob = do {
     let multiplier = (if keys then 1 else 0) + (if vals then 1 else 0);
     (n, ob) \<leftarrow> hashTypeLength ob;
     let len = s32 (int (n * multiplier));
     (rs, ob, hi) \<leftarrow> hgetall_loop tabs keys vals ob (hashTypeInitIterator ob);
     ob \<leftarrow> hashTypeReleaseIterator tabs ob hi;
     if int (length rs) = len then Some (len, rs, ob) else None
   }"

definition pair_texts :: "bool \<Rightarrow> bool \<Rightarrow> bytes \<times> bytes \<Rightarrow> bytes list" where
  "pair_texts keys vals p = (if keys then [fst p] else []) @ (if vals then [snd p] else [])"

lemma zl_reply_ok:
  assumes "zl_short zl (xs @ s # ys)"
  obtains val where "ziplistGet zl (Some (spos xs)) = Some (Some val)" "zl_reply zl val = Some s"
proof (cases "zipTryEncoding s")
  case None
  then obtain q where "ziplistGet zl (Some (spos xs)) = Some (Some (Sstr q (length s)))" "mem_read zl q (length s) = Some s"
    using zl_short_get [OF assms] by auto
  with that show ?thesis by (simp add: zl_reply_def)
next
  case (Some ve)
  obtain v enc where ve: "ve = (v, enc)" by (cases ve)
  then have "int64 v" using Some zipTryEncoding_int [of s v enc] string2ll_eq [of s v] by simp
  then show ?thesis using that [of "Sval v"] zl_short_get [OF assms] Some ve long_text_ok [of v 64]
    by (simp add: zl_reply_def)
qed

lemma cursor_zl:
  assumes z: "zl_short zl (flat (as @ p # bs))"
  shows "addHashIteratorCursorToReply (HashZiplist zl) (hi_at (as @ [p])) True = Some (fst p)"
    "addHashIteratorCursorToReply (HashZiplist zl) (hi_at (as @ [p])) False = Some (snd p)"
proof -
  have "zl_short zl (flat as @ fst p # snd p # flat bs)" using z by simp
  from zl_reply_ok [OF this] obtain val where "ziplistGet zl (Some (spos (flat as))) = Some (Some val)" "zl_reply zl val = Some (fst p)" .
  then show "addHashIteratorCursorToReply (HashZiplist zl) (hi_at (as @ [p])) True = Some (fst p)"
    by (simp add: addHashIteratorCursorToReply_def hashTypeCurrentFromZiplist_def hi_at_def)
  have "zl_short zl ((flat as @ [fst p]) @ snd p # flat bs)" using z by simp
  from zl_reply_ok [OF this] obtain val where "ziplistGet zl (Some (spos (flat as @ [fst p]))) = Some (Some val)" "zl_reply zl val = Some (snd p)" .
  then show "addHashIteratorCursorToReply (HashZiplist zl) (hi_at (as @ [p])) False = Some (snd p)"
    by (simp add: addHashIteratorCursorToReply_def hashTypeCurrentFromZiplist_def hi_at_def)
qed

lemma hgetall_zl:
  "zl_short zl (flat (as @ bs)) \<Longrightarrow> hgetall_loop tabs k v (HashZiplist zl) (hi_at as) =
     Some (concat (map (pair_texts k v) bs), HashZiplist zl, hi_at (as @ bs))"
proof (induction bs arbitrary: as)
  case Nil
  then show ?case using hashTypeNext_zl [of zl as "[]" tabs] by (subst hgetall_loop.simps) simp
next
  case (Cons p bs)
  have "hgetall_loop tabs k v (HashZiplist zl) (hi_at as) = Some (pair_texts k v p @ concat (map (pair_texts k v) bs), HashZiplist zl, hi_at (as @ p # bs))"
    using hashTypeNext_zl [of zl as "p # bs" tabs] cursor_zl [OF Cons.prems] Cons.IH [of "as @ [p]"] Cons.prems
    by (subst hgetall_loop.simps) (simp add: pair_texts_def [of k v p])
  then show ?case by simp
qed

text \<open>The dictionary: the entries an iterator has still to return.\<close>

definition entry_texts :: "(strobj, strobj) dictEntry \<Rightarrow> bytes \<times> bytes" where
  "entry_texts e = (obj_text (de_key e), obj_text (de_val e))"

lemma hgetall_ht:
  assumes "dict_inv d" and "iter_ok d di" and "\<not> it_safe di" and "pending d di = es"
  shows "\<exists>di' de'. hgetall_loop tabs k v (HashHt d) (HtIter di de) =
       Some (concat (map (\<lambda>e. pair_texts k v (entry_texts e)) es), HashHt d, HtIter di' de') \<and>
     it_fingerprint di' = it_fingerprint (snd (iter_start tabs d di)) \<and> 0 \<le> it_index di' \<and> \<not> it_safe di'"
  using assms(2-)
proof (induction es arbitrary: di de)
  case Nil
  note w = dict_inv_iter_wf [OF assms(1)]
  have "fst (iter_start tabs d di) = d" using Nil.prems(2) by (simp add: iter_start_def)
  then obtain r it' where N: "dictNext tabs d di = Some (None, d, it')" "\<not> it_safe it'" "0 \<le> it_index it'"
    "it_fingerprint it' = it_fingerprint (snd (iter_start tabs d di))"
    using dictNext_ok [OF w Nil.prems(1), of tabs] Nil.prems(2,3) unfolding next_result_def next_post_def by auto
  then show ?case by (subst hgetall_loop.simps) (simp add: hashTypeNext_def)
next
  case (Cons e es)
  note w = dict_inv_iter_wf [OF assms(1)]
  have s: "fst (iter_start tabs d di) = d" using Cons.prems(2) by (simp add: iter_start_def)
  then obtain it' where N: "dictNext tabs d di = Some (Some (de_addr e), d, it')" "\<not> it_safe it'" "0 \<le> it_index it'"
    "it_fingerprint it' = it_fingerprint (snd (iter_start tabs d di))" "pending d it' = es" "iter_ok d it'"
    using dictNext_ok [OF w Cons.prems(1), of tabs] Cons.prems(2,3) unfolding next_result_def next_post_def by auto
  have ein: "e \<in> set (dict_entries d)" using pending_entries [OF w Cons.prems(1)] Cons.prems(3) by auto
  have f: "List.find (\<lambda>x. de_addr x = de_addr e) (dict_entries d) = Some e"
    using find_addr [of "dict_entries d" e] w ein by (simp add: iter_wf_def)
  obtain di' de' where R: "hgetall_loop tabs k v (HashHt d) (HtIter it' (Some (de_addr e))) =
       Some (concat (map (\<lambda>e. pair_texts k v (entry_texts e)) es), HashHt d, HtIter di' de')"
     "it_fingerprint di' = it_fingerprint (snd (iter_start tabs d it'))" "0 \<le> it_index di'" "\<not> it_safe di'"
    using Cons.IH [OF N(6,2,5)] by blast
  have "iter_start tabs d it' = (d, it')" using N(3) by (simp add: iter_start_def)
  moreover have "hgetall_loop tabs k v (HashHt d) (HtIter di de) =
       Some (concat (map (\<lambda>e. pair_texts k v (entry_texts e)) (e # es)), HashHt d, HtIter di' de')"
    using N(1) f R(1) by (subst hgetall_loop.simps)
      (simp add: hashTypeNext_def addHashIteratorCursorToReply_def hashTypeCurrentFromHashTable_def pair_texts_def entry_texts_def)
  ultimately show ?case using R N(4) by auto
qed

lemma hash_getall_ok:
  assumes p: "hash_pairs conf ob ps" and c: "conf_ok conf" and n: "length ps < 2 ^ 30"
  shows "\<exists>ob'. hgetall_object tabs k v ob = Some (int (length (concat (map (pair_texts k v) ps))), concat (map (pair_texts k v) ps), ob') \<and>
     hash_pairs conf ob' ps"
proof -
  define mul :: nat where "mul = (if k then 1 else 0) + (if v then 1 else 0)"
  have l: "length (concat (map (pair_texts k v) qs)) = length qs * mul" for qs
    by (induction qs) (simp_all add: pair_texts_def mul_def)
  have "length ps * mul \<le> 2147483647" using n by (simp add: mul_def)
  then have "int (length ps * mul) \<le> 2147483647" by linarith
  then have s: "s32 (int (length ps * mul)) = int (length ps * mul)" by (intro s32_id) linarith+
  have r: "hash_rep conf ob (map_of ps)" using p unfolding hash_rep_def by blast
  have card: "card (dom (map_of ps)) = length ps"
    using p distinct_card [of "map fst ps"] by (simp add: hash_pairs_def dom_map_of_conv_image_fst)
  show ?thesis
  proof (cases ob)
    case (HashZiplist zl)
    then have z: "zl_short zl (flat ps)" using p by (simp add: hash_pairs_def)
    obtain zl' where z': "ziplistLen zl = Some (2 * length ps, zl')" "zl_short zl' (flat ps)" using zl_short_len [OF z] by auto
    have i: "hashTypeInitIterator (HashZiplist zl') = hi_at []" by (simp add: hashTypeInitIterator_def hi_at_def)
    have "hashTypeReleaseIterator tabs (HashZiplist zl') (hi_at ps) = Some (HashZiplist zl')"
      by (simp add: hashTypeReleaseIterator_def hi_at_def)
    then have "hgetall_object tabs k v ob = Some (int (length (concat (map (pair_texts k v) ps))), concat (map (pair_texts k v) ps), HashZiplist zl')"
      using HashZiplist z'(1) hgetall_zl [of zl' "[]" ps tabs k v] z'(2) s l [of ps]
      unfolding hgetall_object_def mul_def [symmetric] Let_def by (simp add: hashTypeLength_def i)
    moreover have "hash_pairs conf (HashZiplist zl') ps" using p HashZiplist z'(2) by (simp add: hash_pairs_def)
    ultimately show ?thesis by blast
  next
    case (HashHt d)
    then have d: "obj_dict (hashDictType (dict_hash_seed conf)) d" and ps: "ps = map (\<lambda>(f, v). (f, obj_text v)) (text_pairs d)"
      using p by (simp_all add: hash_pairs_def)
    then have inv: "dict_inv d" by (simp add: obj_dict_def)
    have pe: "pending d dictGetIterator = dict_entries d" "iter_ok d dictGetIterator" "\<not> it_safe dictGetIterator"
      using inv by (auto simp: pending_def later_buckets_def dictGetIterator_def dict_entries_def it_ht_def dict_inv_def iter_ok_def
        split: if_splits)
    have m: "map (\<lambda>e. pair_texts k v (entry_texts e)) (dict_entries d) = map (pair_texts k v) ps"
      by (simp add: ps text_pairs_def entry_texts_def)
    obtain di' de' where R: "hgetall_loop tabs k v (HashHt d) (HtIter dictGetIterator None) =
       Some (concat (map (pair_texts k v) ps), HashHt d, HtIter di' de')"
      "it_fingerprint di' = it_fingerprint (snd (iter_start tabs d dictGetIterator))" "0 \<le> it_index di'" "\<not> it_safe di'"
      using hgetall_ht [OF inv pe(2,3,1), of tabs k v None] unfolding m by blast
    have "it_fingerprint (snd (iter_start tabs d dictGetIterator)) = dictFingerprint tabs d"
      by (simp add: iter_start_def dictGetIterator_def)
    then have rel: "hashTypeReleaseIterator tabs (HashHt d) (HtIter di' de') = Some (HashHt d)"
      using R by (simp add: hashTypeReleaseIterator_def dictReleaseIterator_def)
    have "dictSize d = length ps" using hashd.size_text [OF d] r HashHt card by (simp add: hash_rep_ht dom_def)
    then have "hgetall_object tabs k v ob = Some (int (length (concat (map (pair_texts k v) ps))), concat (map (pair_texts k v) ps), HashHt d)"
      using HashHt R(1) rel s l [of ps] unfolding hgetall_object_def mul_def [symmetric] Let_def
      by (simp add: hashTypeLength_def hashTypeInitIterator_def)
    then show ?thesis using p HashHt by blast
  qed
qed

end
