(* ===== verification/HashSpec.thy ===== *)
theory HashSpec
  imports HashType
begin

text \<open>
  The hash type as a mapping. The object level of the commands HSET, HSETNX and HINCRBY (what they do
  once the key is found), the interface \<open>field_map\<close> a mapping of fields to values offers, its
  interpretation for the model, and the properties of the component.
\<close>

section \<open>Commands on a hash object\<close>

text \<open>\<open>hsetCommand\<close>: the reply is 0 for an update, and 1. Addresses for a conversion, and for what
  \<open>hashTypeSet\<close> allocates; the reference counters of the two arguments.\<close>

definition hset_object :: "hash_conf \<Rightarrow> nat list \<times> nat list \<Rightarrow> nat \<times> nat \<Rightarrow> hashobj \<Rightarrow> strobj \<Rightarrow> strobj \<Rightarrow>
    (bool \<times> hashobj) option" where
  "hset_object conf addrs rc ob field val = do {
     ob \<leftarrow> hashTypeTryConversion conf (fst addrs) ob [field, val];
     (field, val) \<leftarrow> hashTypeTryObjectEncoding ob (fst rc) (Some field) (snd rc) (Some val);
     field \<leftarrow> field;
     val \<leftarrow> val;
     hashTypeSet conf (snd addrs) ob field val
   }"

text \<open>\<open>hsetnxCommand\<close>: whether the field was set.\<close>

definition hsetnx_object :: "hash_conf \<Rightarrow> nat list \<times> nat list \<Rightarrow> nat \<times> nat \<Rightarrow> hashobj \<Rightarrow> strobj \<Rightarrow> strobj \<Rightarrow>
    (bool \<times> hashobj) option" where
  "hsetnx_object conf addrs rc ob field val = do {
     ob \<leftarrow> hashTypeTryConversion conf (fst addrs) ob [field, val];
     (ex, ob) \<leftarrow> hashTypeExists ob field;
     if ex then Some (False, ob)
     else do {
       (field, val) \<leftarrow> hashTypeTryObjectEncoding ob (fst rc) (Some field) (snd rc) (Some val);
       field \<leftarrow> field;
       val \<leftarrow> val;
       (update, ob) \<leftarrow> hashTypeSet conf (snd addrs) ob field val;
       Some (True, ob)
     }
   }"

text \<open>\<open>hincrbyCommand\<close>: the error reply, or the new value. The increment is parsed before the key is
  looked up. The sum is computed in \<open>PORT_LONGLONG\<close>.\<close>

definition hincrby_object :: "hash_conf \<Rightarrow> nat list \<Rightarrow> nat \<Rightarrow> hashobj \<Rightarrow> strobj \<Rightarrow> int \<Rightarrow> ((string + int) \<times> hashobj) option" where
  "hincrby_object conf addrs rc ob field incr = do {
     (current, ob) \<leftarrow> hashTypeGetObject ob field;
     case (case current of
             Some cur \<Rightarrow> getLongLongFromObjectOrReply (Some cur) (Some ''hash value is not an integer'')
           | None \<Rightarrow> Inr 0) of
       Inl err \<Rightarrow> Some (Inl err, ob)
     | Inr oldvalue \<Rightarrow>
         if (incr < 0 \<and> oldvalue < 0 \<and> incr < INT64_MIN - oldvalue) \<or>
            (incr > 0 \<and> oldvalue > 0 \<and> incr > INT64_MAX - oldvalue)
         then Some (Inl ''increment or decrement would overflow'', ob)
         else do {
           let val = oldvalue + incr;
           new \<leftarrow> createStringObjectFromLongLong val;
           (field, _) \<leftarrow> hashTypeTryObjectEncoding ob rc (Some field) 0 None;
           field \<leftarrow> field;
           (update, ob) \<leftarrow> hashTypeSet conf addrs ob field new;
           Some (Inr val, ob)
         }
   }"

section \<open>The commands keep the representation\<close>

definition hset_room :: "hash_conf \<Rightarrow> nat list \<times> nat list \<Rightarrow> hashobj \<Rightarrow> bool" where
  "hset_room conf addrs ob \<longleftrightarrow> hash_room conf ob (fst addrs) \<and> hash_room conf ob (snd addrs) \<and>
     set (fst addrs) \<inter> set (snd addrs) = {}"

text \<open>After the conversion, in either encoding, the object and its arguments are as \<open>hashTypeSet\<close> wants them.\<close>

lemma converted_ok:
  assumes c: "conf_ok conf" and r: "hash_rep conf ob m" and room: "hset_room conf addrs ob"
    and a: "obj_short field" "obj_short val"
  obtains ob1 where "hashTypeTryConversion conf (fst addrs) ob [field, val] = Some ob1" "hash_rep conf ob1 m"
    "hash_room conf ob1 (snd addrs)" "\<And>f v. obj_text f = obj_text field \<Longrightarrow> obj_text v = obj_text val \<Longrightarrow> set_args ob1 f v"
proof -
  obtain ob1 where o: "hashTypeTryConversion conf (fst addrs) ob [field, val] = Some ob1" "hash_rep conf ob1 m"
     "case ob1 of
        HashZiplist _ \<Rightarrow> ob1 = ob \<and> (\<forall>arg \<in> set [field, val]. zl_small arg)
      | HashHt d \<Rightarrow> ob1 = ob \<or> de_addr ` set (dict_entries d) \<subseteq> set (fst addrs) \<and> length (dict_entries d) \<le> 2 ^ 20"
    using try_conversion_ok [OF c r] room unfolding hset_room_def by blast
  have "hash_room conf ob1 (snd addrs)"
  proof (cases "ob1 = ob")
    case False
    then obtain d where d: "ob1 = HashHt d" "de_addr ` set (dict_entries d) \<subseteq> set (fst addrs)" "length (dict_entries d) \<le> 2 ^ 20"
      using o(3) by (auto split: hashobj.splits)
    have "snd addrs \<noteq> []" "distinct (snd addrs)"
      using room unfolding hset_room_def hash_room_def by (auto split: hashobj.splits)
    then show ?thesis using d room unfolding hset_room_def by (auto simp: hash_room_def)
  qed (use room in \<open>simp add: hset_room_def\<close>)
  moreover have "set_args ob1 f v" if "obj_text f = obj_text field" "obj_text v = obj_text val" for f v
    using o(3) a that by (auto simp: set_args_def zl_small_def obj_short_def split: hashobj.splits)
  ultimately show ?thesis using that o by blast
qed

lemma encode_set:
  assumes c: "conf_ok conf" and r: "hash_rep conf ob m" and room: "hash_room conf ob addrs"
    and a: "\<And>f v. obj_text f = obj_text field \<Longrightarrow> obj_text v = obj_text val \<Longrightarrow> set_args ob f v"
  obtains f' v' ob' where "hashTypeTryObjectEncoding ob rc1 (Some field) rc2 (Some val) = Some (Some f', Some v')"
    "hashTypeSet conf addrs ob f' v' = Some (m (obj_text field) \<noteq> None, ob')" "hash_rep conf ob' (m(obj_text field \<mapsto> obj_text val))"
proof -
  obtain f' v' where e: "hashTypeTryObjectEncoding ob rc1 (Some field) rc2 (Some val) = Some (Some f', Some v')"
    "obj_text f' = obj_text field" "obj_text v' = obj_text val"
    using try_encoding_ok [of ob rc1 "Some field" rc2 "Some val"] by auto
  obtain ob' where "hashTypeSet conf addrs ob f' v' = Some (m (obj_text f') \<noteq> None, ob')" "hash_rep conf ob' (m(obj_text f' \<mapsto> obj_text v'))"
    using hashTypeSet_ok [OF c r a [OF e(2,3)] room] by blast
  then show ?thesis using that [OF e(1), of ob'] unfolding e(2,3) by blast
qed

text \<open>A lookup keeps the encoding and the addresses in use.\<close>

lemma hash_room_find:
  assumes "hash_rep conf (HashHt d) m" and "obj_short field" and "dictFind d field = Some (de, d')"
  shows "hash_room conf (HashHt d') addrs = hash_room conf (HashHt d) addrs"
proof -
  have "dict_mset d' = dict_mset d"
    using hashd.find_text [of "dict_hash_seed conf" d field] assms unfolding hash_rep_ht by auto
  then have "set (dict_entries d') = set (dict_entries d)" "length (dict_entries d') = length (dict_entries d)"
    by (metis set_mset_mset, metis size_mset)
  then show ?thesis by (simp add: hash_room_def)
qed

lemma lookup_encoding:
  assumes "hashTypeGetObject ob field = Some (r, ob')"
  shows "(case ob of HashZiplist _ \<Rightarrow> ob' = ob | HashHt _ \<Rightarrow> \<exists>d. ob' = HashHt d)"
  using assms by (cases ob)
    (auto simp: hashTypeGetObject_def hashTypeGetFromHashTable_def bind_eq_Some_conv split: option.splits)

lemma hash_room_lookup:
  assumes "hashTypeGetObject ob field = Some (r, ob')" and "hash_rep conf ob m" and "obj_short field" and "hash_room conf ob addrs"
  shows "hash_room conf ob' addrs"
  using lookup_encoding [OF assms(1)] assms hash_room_find [OF _ assms(3), of conf _ m]
  by (cases ob) (auto simp: hashTypeGetObject_def hashTypeGetFromHashTable_def bind_eq_Some_conv)

lemma exists_encoding:
  assumes "hashTypeExists ob field = Some (r, ob')"
  shows "(case ob of HashZiplist _ \<Rightarrow> ob' = ob | HashHt _ \<Rightarrow> \<exists>d. ob' = HashHt d)"
  using assms by (cases ob) (auto simp: hashTypeExists_def hashTypeGetFromHashTable_def bind_eq_Some_conv)

lemma hash_room_exists:
  assumes "hashTypeExists ob field = Some (r, ob')" and "hash_rep conf ob m" and "obj_short field" and "hash_room conf ob addrs"
  shows "hash_room conf ob' addrs"
  using exists_encoding [OF assms(1)] assms hash_room_find [OF _ assms(3), of conf _ m]
  by (cases ob) (auto simp: hashTypeExists_def hashTypeGetFromHashTable_def bind_eq_Some_conv)

lemma hsetnx_object_ok:
  assumes c: "conf_ok conf" and r: "hash_rep conf ob m" and room: "hset_room conf addrs ob"
    and a: "obj_short field" "obj_short val"
  shows "\<exists>ob'. hsetnx_object conf addrs rc ob field val = Some (m (obj_text field) = None, ob') \<and>
     hash_rep conf ob' (if m (obj_text field) = None then m(obj_text field \<mapsto> obj_text val) else m)"
proof -
  obtain ob1 where o: "hashTypeTryConversion conf (fst addrs) ob [field, val] = Some ob1" "hash_rep conf ob1 m"
    "hash_room conf ob1 (snd addrs)" "\<And>f v. obj_text f = obj_text field \<Longrightarrow> obj_text v = obj_text val \<Longrightarrow> set_args ob1 f v"
    using converted_ok [OF assms] by metis
  obtain ob2 where x: "hashTypeExists ob1 field = Some (m (obj_text field) \<noteq> None, ob2)" "hash_rep conf ob2 m"
    using hashTypeExists_ok [OF o(2) a(1)] by blast
  have room2: "hash_room conf ob2 (snd addrs)" by (rule hash_room_exists [OF x(1) o(2) a(1) o(3)])
  have a2: "set_args ob2 f v" if "obj_text f = obj_text field" "obj_text v = obj_text val" for f v
    using o(4) [OF that] exists_encoding [OF x(1)] by (auto simp: set_args_def split: hashobj.splits)
  show ?thesis
  proof (cases "m (obj_text field) = None")
    case True
    obtain f' v' ob3 where e: "hashTypeTryObjectEncoding ob2 (fst rc) (Some field) (snd rc) (Some val) = Some (Some f', Some v')"
      "hashTypeSet conf (snd addrs) ob2 f' v' = Some (m (obj_text field) \<noteq> None, ob3)" "hash_rep conf ob3 (m(obj_text field \<mapsto> obj_text val))"
      by (rule encode_set [OF c x(2) room2 a2])
    then have "hsetnx_object conf addrs rc ob field val = Some (True, ob3)"
      using o(1) x(1) True by (simp add: hsetnx_object_def)
    then show ?thesis using True e(3) by simp
  qed (use o(1) x in \<open>auto simp: hsetnx_object_def\<close>)
qed

lemma hset_object_ok:
  assumes c: "conf_ok conf" and r: "hash_rep conf ob m" and room: "hset_room conf addrs ob"
    and a: "obj_short field" "obj_short val"
  shows "\<exists>ob'. hset_object conf addrs rc ob field val = Some (m (obj_text field) \<noteq> None, ob') \<and>
     hash_rep conf ob' (m(obj_text field \<mapsto> obj_text val))"
proof -
  obtain ob1 where o: "hashTypeTryConversion conf (fst addrs) ob [field, val] = Some ob1" "hash_rep conf ob1 m"
    "hash_room conf ob1 (snd addrs)" "\<And>f v. obj_text f = obj_text field \<Longrightarrow> obj_text v = obj_text val \<Longrightarrow> set_args ob1 f v"
    using converted_ok [OF assms] by metis
  obtain f' v' ob3 where "hashTypeTryObjectEncoding ob1 (fst rc) (Some field) (snd rc) (Some val) = Some (Some f', Some v')"
    "hashTypeSet conf (snd addrs) ob1 f' v' = Some (m (obj_text field) \<noteq> None, ob3)" "hash_rep conf ob3 (m(obj_text field \<mapsto> obj_text val))"
    by (rule encode_set [OF c o(2,3,4)])
  then show ?thesis using o(1) by (simp add: hset_object_def)
qed

section \<open>The interface\<close>

text \<open>A mapping of fields to values: \<open>rep\<close> relates an object to the mapping it stands for, \<open>ok\<close> are the
  admissible fields and values, \<open>den\<close> what they denote.\<close>

locale field_map =
  fixes rep :: "'o \<Rightarrow> (bytes \<Rightarrow> bytes option) \<Rightarrow> bool" and ok :: "'k \<Rightarrow> bool" and den :: "'k \<Rightarrow> bytes"
    and room :: "'a \<Rightarrow> 'o \<Rightarrow> bool"
    and put :: "'a \<Rightarrow> 'o \<Rightarrow> 'k \<Rightarrow> 'k \<Rightarrow> (bool \<times> 'o) option"
    and get :: "'o \<Rightarrow> 'k \<Rightarrow> ('k option \<times> 'o) option"
    and del :: "'o \<Rightarrow> 'k \<Rightarrow> (bool \<times> 'o) option" and len :: "'o \<Rightarrow> (nat \<times> 'o) option"
  assumes put_rep: "rep s m \<Longrightarrow> room a s \<Longrightarrow> ok f \<Longrightarrow> ok v \<Longrightarrow>
      \<exists>s'. put a s f v = Some (m (den f) \<noteq> None, s') \<and> rep s' (m(den f \<mapsto> den v))"
    and get_rep: "rep s m \<Longrightarrow> ok f \<Longrightarrow> \<exists>r s'. get s f = Some (r, s') \<and> map_option den r = m (den f) \<and> rep s' m"
    and del_rep: "rep s m \<Longrightarrow> ok f \<Longrightarrow> \<exists>s'. del s f = Some (m (den f) \<noteq> None, s') \<and> rep s' (m(den f := None))"
    and len_rep: "rep s m \<Longrightarrow> \<exists>s'. len s = Some (card (dom m), s') \<and> rep s' m"
    and finite_rep: "rep s m \<Longrightarrow> finite (dom m)"
begin

text \<open>A field that was put is found with its value, the others as before, and the length counts it once.\<close>

lemma field_put_get:
  assumes "rep s m" and "room a s" and "ok f" and "ok v" and "ok f'"
  shows "\<exists>s1 s2 s3 r. put a s f v = Some (m (den f) \<noteq> None, s1) \<and> len s1 = Some (card (insert (den f) (dom m)), s2) \<and>
     get s2 f' = Some (r, s3) \<and> map_option den r = (if den f' = den f then Some (den v) else m (den f')) \<and>
     rep s3 (m(den f \<mapsto> den v))"
proof -
  obtain s1 where s1: "put a s f v = Some (m (den f) \<noteq> None, s1)" "rep s1 (m(den f \<mapsto> den v))"
    using put_rep [OF assms(1-4)] by blast
  obtain s2 where s2: "len s1 = Some (card (insert (den f) (dom m)), s2)" "rep s2 (m(den f \<mapsto> den v))"
    using len_rep [OF s1(2)] by auto
  obtain r s3 where "get s2 f' = Some (r, s3)" "map_option den r = (m(den f \<mapsto> den v)) (den f')" "rep s3 (m(den f \<mapsto> den v))"
    using get_rep [OF s2(2) assms(5)] by blast
  with s1 s2 show ?thesis by auto
qed

text \<open>Deleting reports whether the field existed, and the length drops by one exactly then.\<close>

lemma field_del_len:
  assumes "rep s m" and "ok f"
  shows "\<exists>s1 s2 s3. del s f = Some (m (den f) \<noteq> None, s1) \<and>
     len s1 = Some (card (dom m) - (if m (den f) = None then 0 else 1), s2) \<and> get s2 f = Some (None, s3) \<and>
     rep s3 (m(den f := None))"
proof -
  obtain s1 where s1: "del s f = Some (m (den f) \<noteq> None, s1)" "rep s1 (m(den f := None))" using del_rep [OF assms] by blast
  obtain s2 where s2: "len s1 = Some (card (dom (m(den f := None))), s2)" "rep s2 (m(den f := None))" using len_rep [OF s1(2)] by blast
  obtain r s3 where "get s2 f = Some (r, s3)" "map_option den r = None" "rep s3 (m(den f := None))"
    using get_rep [OF s2(2) assms(2)] by auto
  moreover have "card (dom (m(den f := None))) = card (dom m) - (if m (den f) = None then 0 else 1)"
    using finite_rep [OF assms(1)] by (auto simp: domIff card_Diff_singleton_if)
  ultimately show ?thesis using s1(1) s2(1) by auto
qed

end

lemma hash_rep_finite: "hash_rep conf ob m \<Longrightarrow> finite (dom m)"
  by (auto simp: hash_rep_def finite_dom_map_of)

text \<open>In a configuration with small ziplists.\<close>

definition hash_is :: "hash_conf \<Rightarrow> hashobj \<Rightarrow> (bytes \<Rightarrow> bytes option) \<Rightarrow> bool" where
  "hash_is conf ob m \<longleftrightarrow> conf_ok conf \<and> hash_rep conf ob m"

interpretation hmap: field_map "hash_is conf" obj_short obj_text "hset_room conf"
    "\<lambda>a ob. hset_object conf a rc ob" hashTypeGetObject "hashTypeDelete conf" hashTypeLength
proof
  fix s m a f v
  assume "hash_is conf s m" "hset_room conf a s" "obj_short f" "obj_short v"
  then show "\<exists>s'. hset_object conf a rc s f v = Some (m (obj_text f) \<noteq> None, s') \<and>
      hash_is conf s' (m(obj_text f \<mapsto> obj_text v))" using hset_object_ok unfolding hash_is_def by blast
next
  fix s m f
  assume "hash_is conf s m" "obj_short f"
  then show "\<exists>r s'. hashTypeGetObject s f = Some (r, s') \<and> map_option obj_text r = m (obj_text f) \<and> hash_is conf s' m"
      "\<exists>s'. hashTypeDelete conf s f = Some (m (obj_text f) \<noteq> None, s') \<and> hash_is conf s' (m(obj_text f := None))"
    using hashTypeGetObject_ok hashTypeDelete_ok unfolding hash_is_def by blast+
next
  fix s m
  assume "hash_is conf s m"
  then show "\<exists>s'. hashTypeLength s = Some (card (dom m), s') \<and> hash_is conf s' m" "finite (dom m)"
    using hashTypeLength_ok hash_rep_finite unfolding hash_is_def by blast+
qed

section \<open>Counters\<close>

definition incr_args :: "hashobj \<Rightarrow> strobj \<Rightarrow> bool" where
  "incr_args ob field \<longleftrightarrow> (case ob of HashZiplist _ \<Rightarrow> zl_small field | HashHt _ \<Rightarrow> obj_short field)"

text \<open>What the counter must do: the outcome and the mapping.\<close>

definition hincr_ref :: "(bytes \<Rightarrow> bytes option) \<Rightarrow> bytes \<Rightarrow> int \<Rightarrow> (string + int) \<times> (bytes \<Rightarrow> bytes option)" where
  "hincr_ref m f incr =
     (case (case m f of None \<Rightarrow> Some 0 | Some t \<Rightarrow> string2ll t) of
        None \<Rightarrow> (Inl ''hash value is not an integer'', m)
      | Some old \<Rightarrow>
          if int64 (old + incr) then (Inr (old + incr), m(f \<mapsto> dec_int (old + incr)))
          else (Inl ''increment or decrement would overflow'', m))"

lemma getLongLong_string: "getLongLongFromObject (Some ob) = string2ll (obj_text ob)"
proof -
  have "getLongLongFromObject (Some ob) = Some v \<longleftrightarrow> string2ll (obj_text ob) = Some v" for v
    using getLongLong_text [of ob v] string2ll_eq [of "obj_text ob" v] by simp
  then show ?thesis by (metis option.exhaust)
qed

lemma incr_overflow:
  assumes "int64 old" and "int64 incr"
  shows "(incr < 0 \<and> old < 0 \<and> incr < INT64_MIN - old) \<or> (incr > 0 \<and> old > 0 \<and> incr > INT64_MAX - old) \<longleftrightarrow> \<not> int64 (old + incr)"
  using assms by (auto simp: int64_def)

lemma hincrby_object_ok:
  assumes c: "conf_ok conf" and r: "hash_rep conf ob m" and room: "hash_room conf ob addrs"
    and f: "incr_args ob field" and i: "int64 incr"
  shows "\<exists>ob'. hincrby_object conf addrs rc ob field incr = Some (fst (hincr_ref m (obj_text field) incr), ob') \<and>
     hash_rep conf ob' (snd (hincr_ref m (obj_text field) incr))"
proof -
  have fs: "obj_short field" using f zl_small_short(1) by (auto simp: incr_args_def split: hashobj.splits)
  obtain cur ob1 where g: "hashTypeGetObject ob field = Some (cur, ob1)" "map_option obj_text cur = m (obj_text field)" "hash_rep conf ob1 m"
    using hashTypeGetObject_ok [OF r fs] by blast
  have room1: "hash_room conf ob1 addrs" by (rule hash_room_lookup [OF g(1) r fs room])
  have f1: "incr_args ob1 field" using lookup_encoding [OF g(1)] f by (auto simp: incr_args_def split: hashobj.splits)
  define old where "old = (case m (obj_text field) of None \<Rightarrow> Some 0 | Some t \<Rightarrow> string2ll t)"
  have o: "(case cur of Some cur \<Rightarrow> getLongLongFromObjectOrReply (Some cur) (Some ''hash value is not an integer'') | None \<Rightarrow> Inr 0) =
      (case old of None \<Rightarrow> Inl ''hash value is not an integer'' | Some v \<Rightarrow> Inr v)"
    by (cases cur) (simp_all add: old_def g(2) [symmetric] getLongLongFromObjectOrReply_def getLongLong_string split: option.split)
  show ?thesis
  proof (cases old)
    case None
    then show ?thesis using g(1,3) o by (simp add: hincrby_object_def hincr_ref_def old_def)
  next
    case (Some v)
    have v: "int64 v" using Some string2ll_eq unfolding old_def by (auto simp: int64_def split: option.splits)
    show ?thesis
    proof (cases "int64 (v + incr)")
      case False
      then show ?thesis using Some g(1,3) o incr_overflow [OF v i] by (simp add: hincrby_object_def hincr_ref_def old_def)
    next
      case True
      let ?new = "ObjInt (word_of_int (v + incr))"
      obtain f' where e: "hashTypeTryObjectEncoding ob1 rc (Some field) 0 None = Some (Some f', None)" "obj_text f' = obj_text field"
        using try_encoding_ok [of ob1 rc "Some field" 0 None] by auto
      have nt: "obj_text ?new = dec_int (v + incr)" using sint_word_of_int64 [OF True] by simp
      have "zl_small ?new" using length_dec_int_bound [OF True] unfolding zl_small_def nt by simp
      then have a: "set_args ob1 f' ?new" using f1 e(2)
        by (auto simp: set_args_def incr_args_def zl_small_def obj_short_def split: hashobj.splits)
      obtain ob2 where "hashTypeSet conf addrs ob1 f' ?new = Some (m (obj_text f') \<noteq> None, ob2)" "hash_rep conf ob2 (m(obj_text f' \<mapsto> obj_text ?new))"
        using hashTypeSet_ok [OF c g(3) a room1] by blast
      then show ?thesis using Some True g(1) o incr_overflow [OF v i] long_long_text [OF True] e nt
        by (simp add: hincrby_object_def hincr_ref_def old_def)
    qed
  qed
qed

section \<open>Properties\<close>

definition example_conf :: hash_conf where
  "example_conf = \<lparr>hash_max_ziplist_entries = 512, hash_max_ziplist_value = 64, dict_can_resize = True, dict_hash_seed = 5381\<rparr>"

definition addrs_from :: "nat \<Rightarrow> nat list" where
  "addrs_from a = [a..<a + 600]"

lemma addrs_from_simps [simp]: "set (addrs_from a) = {a..<a + 600}" "length (addrs_from a) = 600" "distinct (addrs_from a)"
  by (simp_all add: addrs_from_def)

lemma example_hash:
  obtains ob where "createHashObject = Some ob" "hash_rep example_conf ob Map.empty" "conf_ok example_conf"
    "hset_room example_conf (addrs_from 0, addrs_from 600) ob"
proof -
  obtain zl where z: "ziplistNew = Some zl" "zl_short zl []" using zl_short_new by blast
  have "hash_rep example_conf (HashZiplist zl) Map.empty"
    unfolding hash_rep_def by (intro exI [of _ "[]"]) (simp add: hash_pairs_def z(2))
  moreover have "hset_room example_conf (addrs_from 0, addrs_from 600) (HashZiplist zl)"
    by (simp add: hset_room_def hash_room_def example_conf_def)
  moreover have "createHashObject = Some (HashZiplist zl)" by (simp add: createHashObject_def z(1))
  ultimately show ?thesis using that [of "HashZiplist zl"] by (simp add: conf_ok_def example_conf_def)
qed

text \<open>C8. Setting a field of a hash works whatever the encoding, and across the conversion from the ziplist
  to the dictionary that a long argument or one entry too many causes: the reply says whether the
  field existed, the number of fields grows only for a new one, the field then has the new value and
  every other field its old one. The variant that never overwrites sets the field exactly when it is new.
  The configuration allows at most 240 bytes for a string in a ziplist and two to the power 20 entries (\<open>conf_ok\<close>).\<close>

theorem hash_set_get:
  assumes "conf_ok conf" and "hash_rep conf ob m" and "hset_room conf addrs ob"
    and "obj_short field" and "obj_short val" and "obj_short f"
  shows "(\<exists>ob1 ob2 ob3 r. hset_object conf addrs rc ob field val = Some (m (obj_text field) \<noteq> None, ob1) \<and>
     hashTypeLength ob1 = Some (card (insert (obj_text field) (dom m)), ob2) \<and>
     hashTypeGetObject ob2 f = Some (r, ob3) \<and>
     map_option obj_text r = (if obj_text f = obj_text field then Some (obj_text val) else m (obj_text f)) \<and>
     hash_rep conf ob3 (m(obj_text field \<mapsto> obj_text val))) \<and>
    (\<exists>ob'. hsetnx_object conf addrs rc ob field val = Some (m (obj_text field) = None, ob') \<and>
     hash_rep conf ob' (if m (obj_text field) = None then m(obj_text field \<mapsto> obj_text val) else m))"
  using hmap.field_put_get [of conf ob m addrs field val f rc] hsetnx_object_ok [OF assms(1-5)] assms
  unfolding hash_is_def by blast

theorem hash_set_get_witness:
  "\<exists>ob ob1 ob2. createHashObject = Some ob \<and>
     hset_object example_conf (addrs_from 0, addrs_from 600) (1, 1) ob (ObjRaw (lit ''f'')) (ObjRaw (lit ''v'')) = Some (False, ob1) \<and>
     hashTypeLength ob1 = Some (1, ob2)"
proof -
  obtain ob where ob: "createHashObject = Some ob" "hash_rep example_conf ob Map.empty" "conf_ok example_conf"
    "hset_room example_conf (addrs_from 0, addrs_from 600) ob" by (rule example_hash)
  have s: "obj_short (ObjRaw (lit ''f''))" "obj_short (ObjRaw (lit ''v''))" by (simp_all add: obj_short_def lit_def)
  from hash_set_get [OF ob(3,2,4) s s(1), of "(1, 1)"] ob(1) show ?thesis by auto
qed

text \<open>C25. Deleting a field reports whether it existed, removes exactly it, and the length drops by one
  exactly then; in a dictionary also when the table is made smaller afterwards. The configuration is limited as above (\<open>conf_ok\<close>).\<close>

theorem hash_delete:
  assumes "conf_ok conf" and "hash_rep conf ob m" and "obj_short f"
  shows "\<exists>ob1 ob2 ob3. hashTypeDelete conf ob f = Some (m (obj_text f) \<noteq> None, ob1) \<and>
     hashTypeLength ob1 = Some (card (dom m) - (if m (obj_text f) = None then 0 else 1), ob2) \<and>
     hashTypeGetObject ob2 f = Some (None, ob3) \<and> hash_rep conf ob3 (m(obj_text f := None))"
  using hmap.field_del_len [of conf ob m f] assms unfolding hash_is_def by blast

theorem hash_delete_witness:
  "\<exists>ob ob1 ob2. createHashObject = Some ob \<and> hashTypeDelete example_conf ob (ObjInt 7) = Some (False, ob1) \<and>
     hashTypeLength ob1 = Some (0, ob2)"
proof -
  obtain ob where ob: "createHashObject = Some ob" "hash_rep example_conf ob Map.empty" "conf_ok example_conf"
    "hset_room example_conf (addrs_from 0, addrs_from 600) ob" by (rule example_hash)
  have "obj_short (ObjInt 7)" using length_dec_int_bound [OF int64_sint, of 7] by (simp add: obj_short_def)
  from hash_delete [OF ob(3,2) this] ob(1) show ?thesis by auto
qed

text \<open>The reading operations agree: a field exists when the mapping has it, its length is the length of
  its text whether it is stored as an integer or as bytes, and listing sends every field and value
  once, in number as announced.\<close>

theorem hash_reading:
  assumes "conf_ok conf" and "hash_pairs conf ob ps" and "obj_short f" and "length ps < 2 ^ 30"
  shows "(\<exists>ob'. hashTypeExists ob f = Some (obj_text f \<in> fst ` set ps, ob') \<and> hash_rep conf ob' (map_of ps)) \<and>
    (\<exists>ob'. hashTypeGetValueLength ob f =
        Some (case map_of ps (obj_text f) of None \<Rightarrow> 0 | Some v \<Rightarrow> length v, ob') \<and> hash_rep conf ob' (map_of ps)) \<and>
    (\<exists>ob'. hgetall_object tabs True True ob = Some (2 * int (length ps), concat (map (\<lambda>(f, v). [f, v]) ps), ob') \<and>
        hash_pairs conf ob' ps) \<and>
    (\<exists>ob'. hgetall_object tabs True False ob = Some (int (length ps), map fst ps, ob') \<and> hash_pairs conf ob' ps)"
proof (intro conjI)
  have r: "hash_rep conf ob (map_of ps)" using assms(2) unfolding hash_rep_def by blast
  have "(map_of ps (obj_text f) \<noteq> None) = (obj_text f \<in> fst ` set ps)" by (simp add: map_of_eq_None_iff)
  then show "\<exists>ob'. hashTypeExists ob f = Some (obj_text f \<in> fst ` set ps, ob') \<and> hash_rep conf ob' (map_of ps)"
    using hashTypeExists_ok [OF r assms(3)] by simp
  show "\<exists>ob'. hashTypeGetValueLength ob f =
        Some (case map_of ps (obj_text f) of None \<Rightarrow> 0 | Some v \<Rightarrow> length v, ob') \<and> hash_rep conf ob' (map_of ps)"
    by (rule hashTypeGetValueLength_ok [OF r assms(3)])
  have kv: "pair_texts True True = (\<lambda>(f, v). [f, v])" "pair_texts True False = (\<lambda>p. [fst p])"
    by (auto simp: pair_texts_def fun_eq_iff)
  have "length (concat (map (\<lambda>(f, v). [f, v]) ps)) = 2 * length ps" by (induction ps) auto
  then show "\<exists>ob'. hgetall_object tabs True True ob = Some (2 * int (length ps), concat (map (\<lambda>(f, v). [f, v]) ps), ob') \<and>
        hash_pairs conf ob' ps"
    using hash_getall_ok [OF assms(2,1,4), of tabs True True] unfolding kv by simp
  have "concat (map (\<lambda>p. [fst p]) ps) = map fst ps" by (induction ps) auto
  then show "\<exists>ob'. hgetall_object tabs True False ob = Some (int (length ps), map fst ps, ob') \<and> hash_pairs conf ob' ps"
    using hash_getall_ok [OF assms(2,1,4), of tabs True False] unfolding kv by simp
qed

theorem hash_reading_witness:
  "\<exists>ob ob'. createHashObject = Some ob \<and> hgetall_object (0, 0) True True ob = Some (0, [], ob')"
proof -
  obtain zl where z: "ziplistNew = Some zl" "zl_short zl []" using zl_short_new by blast
  have p: "hash_pairs example_conf (HashZiplist zl) []" "conf_ok example_conf"
    by (simp_all add: hash_pairs_def z(2) conf_ok_def example_conf_def)
  have "obj_short (ObjRaw (lit ''f''))" by (simp add: obj_short_def lit_def)
  from hash_reading [OF p(2,1) this, of "(0, 0)"] z(1) show ?thesis by (auto simp: createHashObject_def)
qed

text \<open>C37. The counter: a missing field counts as 0, a value that is not the text of a 64 bit integer and a
  sum that does not fit are refused with their own error and change nothing, and otherwise the field
  holds the text of the sum. The overflow test itself never overflows. The configuration is limited as above (\<open>conf_ok\<close>).\<close>

theorem hincrby_correct:
  assumes "conf_ok conf" and "hash_rep conf ob m" and "hash_room conf ob addrs" and "incr_args ob field" and "int64 incr"
  shows "\<exists>ob'. hincrby_object conf addrs rc ob field incr = Some (fst (hincr_ref m (obj_text field) incr), ob') \<and>
     hash_rep conf ob' (snd (hincr_ref m (obj_text field) incr))"
  by (rule hincrby_object_ok [OF assms])

theorem hincrby_correct_witness:
  "\<exists>ob ob'. createHashObject = Some ob \<and> hincrby_object example_conf (addrs_from 0) 1 ob (ObjRaw (lit ''n'')) 5 = Some (Inr 5, ob')"
proof -
  obtain ob where ob: "createHashObject = Some ob" "hash_rep example_conf ob Map.empty" "conf_ok example_conf"
    "hset_room example_conf (addrs_from 0, addrs_from 600) ob" by (rule example_hash)
  have "hash_room example_conf ob (addrs_from 0)" using ob(4) by (simp add: hset_room_def)
  moreover have "incr_args ob (ObjRaw (lit ''n''))" by (simp add: incr_args_def zl_small_def obj_short_def lit_def split: hashobj.split)
  ultimately have "\<exists>ob'. hincrby_object example_conf (addrs_from 0) 1 ob (ObjRaw (lit ''n'')) 5 =
      Some (fst (hincr_ref Map.empty (lit ''n'') 5), ob')"
    using hincrby_correct [OF ob(3,2), of "addrs_from 0" "ObjRaw (lit ''n'')" 5 1] by (auto simp: int64_def)
  moreover have "fst (hincr_ref Map.empty (lit ''n'') 5) = Inr 5" by (simp add: hincr_ref_def int64_def)
  ultimately show ?thesis using ob(1) by auto
qed

text \<open>The counter does not apply the limit on the length of ziplist entries: a field of any length,
  far beyond the configured maximum, stays in the ziplist, which HSET would have converted.\<close>

theorem hincrby_long_field:
  "\<exists>ob zl. createHashObject = Some ob \<and> hash_max_ziplist_value example_conf = 64 \<and>
     hincrby_object example_conf (addrs_from 0) 1 ob (ObjRaw (replicate 300 97)) 1 = Some (Inr 1, HashZiplist zl) \<and>
     zl_strings zl [replicate 300 97, lit ''1'']"
proof -
  define f where "f = (replicate 300 97 :: bytes)"
  have lf: "length f = 300" by (simp add: f_def)
  obtain zl where z: "ziplistNew = Some zl" "zl_rep zl []" using ziplistNew_ok by blast
  then have zs: "zl_strings zl []" by (auto simp: zl_strings_def head_short_def)
  have "zl_fits [f]" "zl_fits [lit ''1'', f]" using lf by (simp_all add: zl_fits_def lit_def)
  then obtain zl1 where p1: "ziplistPush zl f False = Some zl1" "zl_strings zl1 [f]" using zl_push [OF zs, of f False] by auto
  obtain zl2 where p: "ziplistPush zl f False = Some zl1" "ziplistPush zl1 (lit ''1'') False = Some zl2" "zl_strings zl2 [f, lit ''1'']"
    using zl_push [OF p1(2), of "lit ''1''" False] p1(1) \<open>zl_fits [lit ''1'', f]\<close> by auto
  have ix: "ziplistIndex zl 0 = Some None" using ziplistIndex_ok [OF z(2), of 0] by simp
  have d1: "obj_text (ObjInt 1) = lit ''1''" by (simp add: dec_int_def lit_def) (subst dec_nat.simps, simp add: digit_byte_def)
  have fl: "zl_field zl (ObjRaw f) = Some None" using ix by (simp add: zl_field_def)
  obtain zl3 where l: "ziplistLen zl2 = Some (2, zl3)" "zl_strings zl3 [f, lit ''1'']" using zl.len_rep [OF p(3)] by auto
  have "zl_arg f = f" "zl_arg (lit ''1'') = lit ''1''" using lf by (simp_all add: zl_arg_id lit_def)
  then have "hashSet_ziplist zl (ObjRaw f) (ObjInt 1) = Some (False, zl2)"
    using fl p(1,2) unfolding hashSet_ziplist_def decoded_ok d1 by simp
  then have s: "hashTypeSet example_conf (addrs_from 0) (HashZiplist zl) (ObjRaw f) (ObjInt 1) = Some (False, HashZiplist zl3)"
    using l(1) by (simp add: hashTypeSet_def hashTypeLength_def example_conf_def)
  have "hashTypeGetObject (HashZiplist zl) (ObjRaw f) = Some (None, HashZiplist zl)"
    using fl by (simp add: hashTypeGetObject_def hashTypeGetFromZiplist_def)
  then have "hincrby_object example_conf (addrs_from 0) 1 (HashZiplist zl) (ObjRaw f) 1 = Some (Inr 1, HashZiplist zl3)"
    using s by (simp add: hincrby_object_def createStringObjectFromLongLong_def hashTypeTryObjectEncoding_def)
  then show ?thesis using z(1) l(2) unfolding f_def [symmetric]
    by (intro exI [of _ "HashZiplist zl"] exI [of _ zl3]) (simp add: createHashObject_def example_conf_def)
qed

end
