(* ===== verification/Db.thy ===== *)
theory Db
  imports TextDict Robj
begin

text \<open>
  The key space of \<open>redis-3.2/src/db.c\<close>: the dictionary of keys and the table of expire times beside
  it, the lookups that expire keys on the way, and the commands on keys of any type.

  A database is its two dictionaries; values are opaque. The counters the functions update and the
  calls they make to other parts of the server (replication and append only file, keyspace
  notification, watched keys, blocked clients, the command as it is propagated) are the state around it. Time is an argument of each
  function that asks for it (the clock, or the start of the running script), as are the addresses of
  new dictionary entries and the random numbers. Keys are the strings of the command's arguments. The
  server is not in cluster mode, and access times are not modelled. \<open>None\<close> is undefined
  behaviour or a failed assertion.
\<close>

section \<open>Data\<close>

record 'v redisDb =
  db_dict :: "(bytes, 'v) dict"
  db_expires :: "(bytes, int) dict"

datatype db_call =
    PropagateExpire bytes
  | NotifyKeyspaceEvent string bytes
  | SignalModifiedKey bytes
  | SignalListAsReady bytes
  | RewriteClientCommandVector string bytes
  | SignalFlushedDb

record 'v keyspace =
  ks_db :: "'v redisDb"
  stat_expiredkeys :: int
  stat_keyspace_hits :: int
  stat_keyspace_misses :: int
  server_dirty :: int
  ks_calls :: "db_call list"

text \<open>What the server is doing: loading a dump, replica of a master, executing a read-only command of an
  ordinary client; whether dictionaries may be resized; which values are lists.\<close>

record 'v db_env =
  e_loading :: bool
  e_masterhost :: bool
  e_readonly :: bool
  e_can_resize :: bool
  e_is_list :: "'v \<Rightarrow> bool"

datatype reply = ReplyInt int | ReplyOk | ReplyError string | ReplyNull | ReplyBulk bytes

definition with_db :: "'v keyspace \<Rightarrow> 'v redisDb \<Rightarrow> 'v keyspace" where
  "with_db ks db = ks\<lparr>ks_db := db\<rparr>"

definition log_call :: "db_call list \<Rightarrow> 'v keyspace \<Rightarrow> 'v keyspace" where
  "log_call cs ks = ks\<lparr>ks_calls := ks_calls ks @ cs\<rparr>"

definition add_dirty :: "int \<Rightarrow> 'v keyspace \<Rightarrow> 'v keyspace" where
  "add_dirty n ks = ks\<lparr>server_dirty := server_dirty ks + n\<rparr>"

section \<open>Expire times\<close>

text \<open>The expire time of a key, or -1.\<close>

definition getExpire :: "'v redisDb \<Rightarrow> bytes \<Rightarrow> (int \<times> 'v redisDb) option" where
  "getExpire db key =
     (if dictSize (db_expires db) = 0 then Some (-1, db)
      else do {
        (de, ex) \<leftarrow> dictFind (db_expires db) key;
        let db = db\<lparr>db_expires := ex\<rparr>;
        case de of
          None \<Rightarrow> Some (-1, db)
        | Some de \<Rightarrow> do {
            (kde, d) \<leftarrow> dictFind (db_dict db) key;
            if kde = None then None else Some (de_val de, db\<lparr>db_dict := d\<rparr>)
          }
      })"

definition removeExpire :: "'v redisDb \<Rightarrow> bytes \<Rightarrow> (bool \<times> 'v redisDb) option" where
  "removeExpire db key = do {
     (kde, d) \<leftarrow> dictFind (db_dict db) key;
     if kde = None then None
     else do {
       (ok, rel, ex) \<leftarrow> dictDelete (db_expires db) key;
       Some (ok, db\<lparr>db_dict := d, db_expires := ex\<rparr>)
     }
   }"

text \<open>The entry of the expire table uses the key string of the main dictionary.\<close>

definition setExpire :: "'v db_env \<Rightarrow> nat \<Rightarrow> 'v redisDb \<Rightarrow> bytes \<Rightarrow> int \<Rightarrow> 'v redisDb option" where
  "setExpire env a db key when = do {
     (kde, d) \<leftarrow> dictFind (db_dict db) key;
     kde \<leftarrow> kde;
     (de, ex) \<leftarrow> dictReplaceRaw (e_can_resize env) (db_expires db) a 0 (de_key kde);
     de \<leftarrow> de;
     ex \<leftarrow> dictSetVal ex de when;
     Some (db\<lparr>db_dict := d, db_expires := ex\<rparr>)
   }"

definition dbDelete :: "'v redisDb \<Rightarrow> bytes \<Rightarrow> (bool \<times> 'v redisDb) option" where
  "dbDelete db key = do {
     ex \<leftarrow> (if dictSize (db_expires db) > 0 then map_option (\<lambda>(ok, rel, ex). ex) (dictDelete (db_expires db) key)
            else Some (db_expires db));
     (ok, rel, d) \<leftarrow> dictDelete (db_dict db) key;
     Some (ok, db\<lparr>db_dict := d, db_expires := ex\<rparr>)
   }"

text \<open>Whether the key is expired; on a master it is deleted then.\<close>

definition expireIfNeeded :: "'v db_env \<Rightarrow> int \<Rightarrow> 'v keyspace \<Rightarrow> bytes \<Rightarrow> (bool \<times> 'v keyspace) option" where
  "expireIfNeeded env now ks key = do {
     (when, db) \<leftarrow> getExpire (ks_db ks) key;
     let ks = with_db ks db;
     if when < 0 then Some (False, ks)
     else if e_loading env then Some (False, ks)
     else if e_masterhost env then Some (now > when, ks)
     else if now \<le> when then Some (False, ks)
     else do {
       let ks = log_call [PropagateExpire key, NotifyKeyspaceEvent ''expired'' key]
         (ks\<lparr>stat_expiredkeys := stat_expiredkeys ks + 1\<rparr>);
       (deleted, db) \<leftarrow> dbDelete (ks_db ks) key;
       Some (deleted, with_db ks db)
     }
   }"

section \<open>Lookup\<close>

definition lookupKey :: "'v redisDb \<Rightarrow> bytes \<Rightarrow> ('v option \<times> 'v redisDb) option" where
  "lookupKey db key = do {
     (de, d) \<leftarrow> dictFind (db_dict db) key;
     Some (map_option de_val de, db\<lparr>db_dict := d\<rparr>)
   }"

definition lookupKeyReadWithFlags :: "'v db_env \<Rightarrow> int \<Rightarrow> 'v keyspace \<Rightarrow> bytes \<Rightarrow> ('v option \<times> 'v keyspace) option" where
  "lookupKeyReadWithFlags env now ks key = do {
     (expired, ks) \<leftarrow> expireIfNeeded env now ks key;
     if expired \<and> (\<not> e_masterhost env \<or> e_readonly env) then Some (None, ks)
     else do {
       (val, db) \<leftarrow> lookupKey (ks_db ks) key;
       let ks = with_db ks db;
       Some (val,
         if val = None then ks\<lparr>stat_keyspace_misses := stat_keyspace_misses ks + 1\<rparr>
         else ks\<lparr>stat_keyspace_hits := stat_keyspace_hits ks + 1\<rparr>)
     }
   }"

definition lookupKeyRead :: "'v db_env \<Rightarrow> int \<Rightarrow> 'v keyspace \<Rightarrow> bytes \<Rightarrow> ('v option \<times> 'v keyspace) option" where
  "lookupKeyRead env now ks key = lookupKeyReadWithFlags env now ks key"

definition lookupKeyWrite :: "'v db_env \<Rightarrow> int \<Rightarrow> 'v keyspace \<Rightarrow> bytes \<Rightarrow> ('v option \<times> 'v keyspace) option" where
  "lookupKeyWrite env now ks key = do {
     (expired, ks) \<leftarrow> expireIfNeeded env now ks key;
     (val, db) \<leftarrow> lookupKey (ks_db ks) key;
     Some (val, with_db ks db)
   }"

section \<open>Changing keys\<close>

definition dbAdd :: "'v db_env \<Rightarrow> nat \<Rightarrow> 'v keyspace \<Rightarrow> bytes \<Rightarrow> 'v \<Rightarrow> 'v keyspace option" where
  "dbAdd env a ks key val = do {
     (ok, d) \<leftarrow> dictAdd (e_can_resize env) (db_dict (ks_db ks)) a val key val;
     if \<not> ok then None
     else
       (let ks = with_db ks ((ks_db ks)\<lparr>db_dict := d\<rparr>)
        in Some (if e_is_list env val then log_call [SignalListAsReady key] ks else ks))
   }"

definition dbOverwrite :: "'v db_env \<Rightarrow> nat \<Rightarrow> 'v keyspace \<Rightarrow> bytes \<Rightarrow> 'v \<Rightarrow> 'v keyspace option" where
  "dbOverwrite env a ks key val = do {
     (de, d) \<leftarrow> dictFind (db_dict (ks_db ks)) key;
     if de = None then None
     else do {
       (new, rel, d) \<leftarrow> dictReplace (e_can_resize env) d a val key val;
       Some (with_db ks ((ks_db ks)\<lparr>db_dict := d\<rparr>))
     }
   }"

definition setKey :: "'v db_env \<Rightarrow> int \<Rightarrow> nat \<Rightarrow> 'v keyspace \<Rightarrow> bytes \<Rightarrow> 'v \<Rightarrow> 'v keyspace option" where
  "setKey env now a ks key val = do {
     (old, ks) \<leftarrow> lookupKeyWrite env now ks key;
     ks \<leftarrow> (if old = None then dbAdd env a ks key val else dbOverwrite env a ks key val);
     (removed, db) \<leftarrow> removeExpire (ks_db ks) key;
     Some (log_call [SignalModifiedKey key] (with_db ks db))
   }"

definition dbExists :: "'v redisDb \<Rightarrow> bytes \<Rightarrow> (bool \<times> 'v redisDb) option" where
  "dbExists db key = do {
     (de, d) \<leftarrow> dictFind (db_dict db) key;
     Some (de \<noteq> None, db\<lparr>db_dict := d\<rparr>)
   }"

text \<open>Each round of the loop of \<open>dbRandomKey\<close> gets its random numbers from the list; \<open>None\<close> when there are no
  more rounds.\<close>

fun dbRandomKey :: "'v db_env \<Rightarrow> int \<Rightarrow> 'v keyspace \<Rightarrow> nat list list \<Rightarrow> (bytes option \<times> 'v keyspace) option" where
  "dbRandomKey env now ks [] = None"
| "dbRandomKey env now ks (rnd # rnds) = do {
     (de, d) \<leftarrow> dictGetRandomKey (db_dict (ks_db ks)) rnd;
     let ks = with_db ks ((ks_db ks)\<lparr>db_dict := d\<rparr>);
     case de of
       None \<Rightarrow> Some (None, ks)
     | Some de \<Rightarrow> do {
         (ede, ex) \<leftarrow> dictFind (db_expires (ks_db ks)) (de_key de);
         let ks = with_db ks ((ks_db ks)\<lparr>db_expires := ex\<rparr>);
         if ede \<noteq> None then do {
           (expired, ks) \<leftarrow> expireIfNeeded env now ks (de_key de);
           if expired then dbRandomKey env now ks rnds else Some (Some (de_key de), ks)
         }
         else Some (Some (de_key de), ks)
       }
   }"

section \<open>Commands on keys\<close>

text \<open>The loop of \<open>delCommand\<close> over its arguments, and the command.\<close>

fun del_loop :: "'v db_env \<Rightarrow> int \<Rightarrow> 'v keyspace \<Rightarrow> bytes list \<Rightarrow> nat \<Rightarrow> (nat \<times> 'v keyspace) option" where
  "del_loop env now ks [] deleted = Some (deleted, ks)"
| "del_loop env now ks (key # argv) deleted = do {
     (expired, ks) \<leftarrow> expireIfNeeded env now ks key;
     (ok, db) \<leftarrow> dbDelete (ks_db ks) key;
     let ks = with_db ks db;
     if ok then
       del_loop env now (add_dirty 1 (log_call [SignalModifiedKey key, NotifyKeyspaceEvent ''del'' key] ks)) argv (deleted + 1)
     else del_loop env now ks argv deleted
   }"

definition delCommand :: "'v db_env \<Rightarrow> int \<Rightarrow> 'v keyspace \<Rightarrow> bytes list \<Rightarrow> (reply \<times> 'v keyspace) option" where
  "delCommand env now ks argv = do {
     (deleted, ks) \<leftarrow> del_loop env now ks argv 0;
     Some (ReplyInt (int deleted), ks)
   }"

fun exists_loop :: "'v db_env \<Rightarrow> int \<Rightarrow> 'v keyspace \<Rightarrow> bytes list \<Rightarrow> nat \<Rightarrow> (nat \<times> 'v keyspace) option" where
  "exists_loop env now ks [] n = Some (n, ks)"
| "exists_loop env now ks (key # argv) n = do {
     (expired, ks) \<leftarrow> expireIfNeeded env now ks key;
     (ex, db) \<leftarrow> dbExists (ks_db ks) key;
     exists_loop env now (with_db ks db) argv (if ex then n + 1 else n)
   }"

definition existsCommand :: "'v db_env \<Rightarrow> int \<Rightarrow> 'v keyspace \<Rightarrow> bytes list \<Rightarrow> (reply \<times> 'v keyspace) option" where
  "existsCommand env now ks argv = do {
     (n, ks) \<leftarrow> exists_loop env now ks argv 0;
     Some (ReplyInt (int n), ks)
   }"

definition dbsizeCommand :: "'v keyspace \<Rightarrow> reply" where
  "dbsizeCommand ks = ReplyInt (int (dictSize (db_dict (ks_db ks))))"

text \<open>Addresses for the two new entries; the clock is read by each lookup.\<close>

definition renameGenericCommand :: "'v db_env \<Rightarrow> int \<times> int \<Rightarrow> nat \<times> nat \<Rightarrow> 'v keyspace \<Rightarrow> bytes \<Rightarrow> bytes \<Rightarrow> bool \<Rightarrow>
    (reply \<times> 'v keyspace) option" where
  "renameGenericCommand env now a ks src dst nx = do {
     let samekey = (src = dst);
     (val, ks) \<leftarrow> lookupKeyWrite env (fst now) ks src;
     case val of
       None \<Rightarrow> Some (ReplyError ''no such key'', ks)
     | Some ob \<Rightarrow>
         if samekey then Some (if nx then ReplyInt 0 else ReplyOk, ks)
         else do {
           (expire, db) \<leftarrow> getExpire (ks_db ks) src;
           (old, ks) \<leftarrow> lookupKeyWrite env (snd now) (with_db ks db) dst;
           if old \<noteq> None \<and> nx then Some (ReplyInt 0, ks)
           else do {
             db \<leftarrow> (if old \<noteq> None then map_option snd (dbDelete (ks_db ks) dst) else Some (ks_db ks));
             ks \<leftarrow> dbAdd env (fst a) (with_db ks db) dst ob;
             db \<leftarrow> (if expire \<noteq> -1 then setExpire env (snd a) (ks_db ks) dst expire else Some (ks_db ks));
             (deleted, db) \<leftarrow> dbDelete db src;
             Some (if nx then ReplyInt 1 else ReplyOk,
               add_dirty 1 (log_call [SignalModifiedKey src, SignalModifiedKey dst,
                 NotifyKeyspaceEvent ''rename_from'' src, NotifyKeyspaceEvent ''rename_to'' dst] (with_db ks db)))
           }
         }
   }"

text \<open>Signed sums and products that overflow are undefined.\<close>

definition ll_op :: "int \<Rightarrow> int option" where
  "ll_op v = (if int64 v then Some v else None)"

text \<open>\<open>seconds\<close>: the unit of the argument; \<open>now\<close>: the clock at the lookup and at the test.\<close>

definition expireGenericCommand :: "'v db_env \<Rightarrow> int \<times> int \<Rightarrow> nat \<Rightarrow> 'v keyspace \<Rightarrow> bytes \<Rightarrow> strobj \<Rightarrow> int \<Rightarrow> bool \<Rightarrow>
    (reply \<times> 'v keyspace) option" where
  "expireGenericCommand env now a ks key param basetime seconds =
     (case getLongLongFromObjectOrReply (Some param) None of
        Inl err \<Rightarrow> Some (ReplyError err, ks)
      | Inr when \<Rightarrow> do {
          when \<leftarrow> (if seconds then ll_op (when * 1000) else Some when);
          when \<leftarrow> ll_op (when + basetime);
          (val, ks) \<leftarrow> lookupKeyWrite env (fst now) ks key;
          if val = None then Some (ReplyInt 0, ks)
          else if when \<le> snd now \<and> \<not> e_loading env \<and> \<not> e_masterhost env then do {
            (ok, db) \<leftarrow> dbDelete (ks_db ks) key;
            if \<not> ok then None
            else Some (ReplyInt 1,
              log_call [RewriteClientCommandVector ''DEL'' key, SignalModifiedKey key, NotifyKeyspaceEvent ''del'' key]
                (add_dirty 1 (with_db ks db)))
          }
          else do {
            db \<leftarrow> setExpire env a (ks_db ks) key when;
            Some (ReplyInt 1, add_dirty 1 (log_call [SignalModifiedKey key, NotifyKeyspaceEvent ''expire'' key] (with_db ks db)))
          }
        })"

text \<open>Division truncates; the dividend is not negative here.\<close>

definition ttlGenericCommand :: "'v db_env \<Rightarrow> int \<times> int \<Rightarrow> 'v keyspace \<Rightarrow> bytes \<Rightarrow> bool \<Rightarrow> (reply \<times> 'v keyspace) option" where
  "ttlGenericCommand env now ks key output_ms = do {
     (val, ks) \<leftarrow> lookupKeyReadWithFlags env (fst now) ks key;
     if val = None then Some (ReplyInt (-2), ks)
     else do {
       (expire, db) \<leftarrow> getExpire (ks_db ks) key;
       ttl \<leftarrow> (if expire \<noteq> -1 then map_option (\<lambda>t. max 0 t) (ll_op (expire - snd now)) else Some (-1));
       res \<leftarrow> (if ttl = -1 then Some (-1) else if output_ms then Some ttl else map_option (\<lambda>t. t div 1000) (ll_op (ttl + 500)));
       Some (ReplyInt res, with_db ks db)
     }
   }"

definition persistCommand :: "'v keyspace \<Rightarrow> bytes \<Rightarrow> (reply \<times> 'v keyspace) option" where
  "persistCommand ks key = do {
     (de, d) \<leftarrow> dictFind (db_dict (ks_db ks)) key;
     let ks = with_db ks ((ks_db ks)\<lparr>db_dict := d\<rparr>);
     if de = None then Some (ReplyInt 0, ks)
     else do {
       (removed, db) \<leftarrow> removeExpire (ks_db ks) key;
       let ks = with_db ks db;
       Some (if removed then (ReplyInt 1, add_dirty 1 ks) else (ReplyInt 0, ks))
     }
   }"

definition randomkeyCommand :: "'v db_env \<Rightarrow> int \<Rightarrow> 'v keyspace \<Rightarrow> nat list list \<Rightarrow> (reply \<times> 'v keyspace) option" where
  "randomkeyCommand env now ks rnds = do {
     (key, ks) \<leftarrow> dbRandomKey env now ks rnds;
     Some (case key of None \<Rightarrow> ReplyNull | Some k \<Rightarrow> ReplyBulk k, ks)
   }"

fun touch_loop :: "'v db_env \<Rightarrow> int \<Rightarrow> 'v keyspace \<Rightarrow> bytes list \<Rightarrow> nat \<Rightarrow> (nat \<times> 'v keyspace) option" where
  "touch_loop env now ks [] touched = Some (touched, ks)"
| "touch_loop env now ks (key # argv) touched = do {
     (val, ks) \<leftarrow> lookupKeyRead env now ks key;
     touch_loop env now ks argv (if val \<noteq> None then touched + 1 else touched)
   }"

definition touchCommand :: "'v db_env \<Rightarrow> int \<Rightarrow> 'v keyspace \<Rightarrow> bytes list \<Rightarrow> (reply \<times> 'v keyspace) option" where
  "touchCommand env now ks argv = do {
     (n, ks) \<leftarrow> touch_loop env now ks argv 0;
     Some (ReplyInt (int n), ks)
   }"

definition flushdbCommand :: "'v keyspace \<Rightarrow> reply \<times> 'v keyspace" where
  "flushdbCommand ks =
     (let ks = log_call [SignalFlushedDb] (add_dirty (int (dictSize (db_dict (ks_db ks)))) ks);
          db = ks_db ks
      in (ReplyOk, with_db ks (db\<lparr>db_dict := snd (dictEmpty (db_dict db) False), db_expires := snd (dictEmpty (db_expires db) False)\<rparr>)))"

section \<open>The mapping a database stands for\<close>

text \<open>Every key with its value and its expire time, if it has one.\<close>

abbreviation sds_map :: "(bytes, 'v) dict \<Rightarrow> bytes \<Rightarrow> 'v option" where
  "sds_map d \<equiv> key_map (\<lambda>s. s) d"

definition ks_map :: "'v redisDb \<Rightarrow> bytes \<Rightarrow> ('v \<times> int option) option" where
  "ks_map db k = map_option (\<lambda>v. (v, sds_map (db_expires db) k)) (sds_map (db_dict db) k)"

text \<open>The invariant: both dictionaries are well formed, and only keys that exist have an expire time.\<close>

definition db_inv :: "32 word \<Rightarrow> 'v redisDb \<Rightarrow> bool" where
  "db_inv seed db \<longleftrightarrow> key_dict (\<lambda>s. s) (dbDictType seed) (db_dict db) \<and> key_dict (\<lambda>s. s) (keyptrDictType seed) (db_expires db) \<and>
     dom (sds_map (db_expires db)) \<subseteq> dom (sds_map (db_dict db))"

definition db_is :: "32 word \<Rightarrow> 'v redisDb \<Rightarrow> (bytes \<Rightarrow> ('v \<times> int option) option) \<Rightarrow> bool" where
  "db_is seed db m \<longleftrightarrow> db_inv seed db \<and> m = ks_map db"

definition db_sub :: "'v redisDb \<Rightarrow> 'v redisDb \<Rightarrow> bool" where
  "db_sub db db' \<longleftrightarrow> dict_sub (db_dict db) (db_dict db') \<and> dict_sub (db_expires db) (db_expires db')"

definition db_room :: "'v redisDb \<Rightarrow> nat \<Rightarrow> bool" where
  "db_room db a \<longleftrightarrow> dict_room (db_dict db) a \<and> dict_room (db_expires db) a"

definition sds_short :: "bytes \<Rightarrow> bool" where
  "sds_short k \<longleftrightarrow> length k < 2 ^ 31"

lemma sds_short_key: "sds_short k \<Longrightarrow> short_key (\<lambda>s. s) k"
  by (simp add: sds_short_def short_key_def)

lemma db_sub_refl [simp]: "db_sub db db"
  by (simp add: db_sub_def)

lemma db_sub_trans: "db_sub db db1 \<Longrightarrow> db_sub db1 db2 \<Longrightarrow> db_sub db db2"
  unfolding db_sub_def by (auto elim: dict_sub_trans)

lemma db_sub_room: "db_room db a \<Longrightarrow> db_sub db db' \<Longrightarrow> db_room db' a"
  by (auto simp: db_room_def db_sub_def intro: dict_sub_room)

lemma db_isI:
  assumes "key_dict (\<lambda>s. s) (dbDictType seed) (db_dict db)" and "key_dict (\<lambda>s. s) (keyptrDictType seed) (db_expires db)"
    and "dom (sds_map (db_expires db)) \<subseteq> dom (sds_map (db_dict db))"
    and "\<And>k. m k = map_option (\<lambda>v. (v, sds_map (db_expires db) k)) (sds_map (db_dict db) k)"
  shows "db_is seed db m"
  using assms by (auto simp: db_is_def db_inv_def ks_map_def)

lemma db_isD:
  assumes "db_is seed db m"
  shows "key_dict (\<lambda>s. s) (dbDictType seed) (db_dict db)" "key_dict (\<lambda>s. s) (keyptrDictType seed) (db_expires db)"
    "dom (sds_map (db_expires db)) \<subseteq> dom (sds_map (db_dict db))"
    "m k = map_option (\<lambda>v. (v, sds_map (db_expires db) k)) (sds_map (db_dict db) k)"
  using assms by (simp_all add: db_is_def db_inv_def ks_map_def)

lemma db_val: "db_is seed db m \<Longrightarrow> sds_map (db_dict db) k = map_option fst (m k)"
  using db_isD(4) [of seed db m k] by (cases "sds_map (db_dict db) k") auto

lemma db_exp: "db_is seed db m \<Longrightarrow> sds_map (db_expires db) k = (case m k of Some (v, t) \<Rightarrow> t | None \<Rightarrow> None)"
proof -
  assume a: "db_is seed db m"
  show ?thesis
  proof (cases "sds_map (db_dict db) k")
    case None
    then have "sds_map (db_expires db) k = None" using db_isD(3) [OF a] by auto
    then show ?thesis using db_isD(4) [OF a, of k] None by simp
  next
    case (Some v)
    then show ?thesis using db_isD(4) [OF a, of k] by simp
  qed
qed

text \<open>Looking a key up in one of the dictionaries.\<close>

lemma db_find:
  assumes a: "db_is seed db m" and k: "sds_short k"
  obtains r d where "dictFind (db_dict db) k = Some (r, d)" "db_is seed (db\<lparr>db_dict := d\<rparr>) m" "db_sub db (db\<lparr>db_dict := d\<rparr>)"
    "map_option de_val r = map_option fst (m k)" "map_option de_key r = map_option (\<lambda>_. k) (m k)" "sds_map d = sds_map (db_dict db)"
proof -
  obtain r d where d: "dictFind (db_dict db) k = Some (r, d)" "key_dict (\<lambda>s. s) (dbDictType seed) d" "sds_map d = sds_map (db_dict db)"
    "map_option de_val r = sds_map (db_dict db) k" "map_option de_key r = map_option (\<lambda>v. k) (sds_map (db_dict db) k)" "dict_sub (db_dict db) d"
    using keysd.find_text [OF db_isD(1) [OF a] sds_short_key [OF k]] by blast
  have "db_is seed (db\<lparr>db_dict := d\<rparr>) m" using db_isD [OF a] d(2,3) by (intro db_isI) simp_all
  moreover have "map_option (\<lambda>v. k) (sds_map (db_dict db) k) = map_option (\<lambda>_. k) (m k)" by (simp add: db_val [OF a] option.map_comp comp_def)
  ultimately show ?thesis using that [of r d] d db_val [OF a, of k] by (simp add: db_sub_def)
qed

lemma db_find_exp:
  assumes a: "db_is seed db m" and k: "sds_short k"
  obtains r ex where "dictFind (db_expires db) k = Some (r, ex)" "db_is seed (db\<lparr>db_expires := ex\<rparr>) m" "db_sub db (db\<lparr>db_expires := ex\<rparr>)"
    "map_option de_val r = (case m k of Some (v, t) \<Rightarrow> t | None \<Rightarrow> None)"
proof -
  obtain r ex where d: "dictFind (db_expires db) k = Some (r, ex)" "key_dict (\<lambda>s. s) (keyptrDictType seed) ex" "sds_map ex = sds_map (db_expires db)"
    "map_option de_val r = sds_map (db_expires db) k" "dict_sub (db_expires db) ex"
    using expd.find_text [OF db_isD(2) [OF a] sds_short_key [OF k]] by blast
  have "db_is seed (db\<lparr>db_expires := ex\<rparr>) m" using db_isD [OF a] d(2,3) by (intro db_isI) simp_all
  then show ?thesis using that [of r ex] d db_exp [OF a, of k] by (simp add: db_sub_def)
qed

lemma exp_size: "db_is seed db m \<Longrightarrow> dictSize (db_expires db) = 0 \<Longrightarrow> sds_map (db_expires db) k = None"
proof -
  assume a: "db_is seed db m" and z: "dictSize (db_expires db) = 0"
  have "card (dom (sds_map (db_expires db))) = 0" using expd.size_text [OF db_isD(2) [OF a]] z by simp
  moreover have "finite (dom (sds_map (db_expires db)))" by (simp add: key_map_def finite_dom_map_of)
  ultimately have "dom (sds_map (db_expires db)) = {}" by simp
  then show ?thesis by auto
qed

section \<open>The operations on the mapping\<close>

definition expire_of :: "(bytes \<Rightarrow> ('v \<times> int option) option) \<Rightarrow> bytes \<Rightarrow> int" where
  "expire_of m k = (case m k of Some (v, Some w) \<Rightarrow> w | _ \<Rightarrow> -1)"

lemma getExpire_ok:
  assumes a: "db_is seed db m" and k: "sds_short k"
  shows "\<exists>db'. getExpire db k = Some (expire_of m k, db') \<and> db_is seed db' m \<and> db_sub db db'"
proof (cases "dictSize (db_expires db) = 0")
  case True
  then have "expire_of m k = -1" using exp_size [OF a True, of k] db_exp [OF a, of k] by (auto simp: expire_of_def split: option.splits)
  then show ?thesis using True a by (simp add: getExpire_def)
next
  case False
  obtain r ex where e: "dictFind (db_expires db) k = Some (r, ex)" "db_is seed (db\<lparr>db_expires := ex\<rparr>) m" "db_sub db (db\<lparr>db_expires := ex\<rparr>)"
    "map_option de_val r = (case m k of Some (v, t) \<Rightarrow> t | None \<Rightarrow> None)" by (rule db_find_exp [OF a k])
  show ?thesis
  proof (cases r)
    case None
    then have "expire_of m k = -1" using e(4) by (auto simp: expire_of_def split: option.splits)
    then show ?thesis using False e None by (simp add: getExpire_def)
  next
    case (Some de)
    then obtain v where v: "m k = Some (v, Some (de_val de))" using e(4) by (auto split: option.splits)
    obtain r' d where d: "dictFind (db_dict (db\<lparr>db_expires := ex\<rparr>)) k = Some (r', d)" "db_is seed (db\<lparr>db_expires := ex, db_dict := d\<rparr>) m"
      "db_sub (db\<lparr>db_expires := ex\<rparr>) (db\<lparr>db_expires := ex, db_dict := d\<rparr>)" "map_option de_val r' = map_option fst (m k)"
      using db_find [OF e(2) k] by metis
    have "r' \<noteq> None" using d(4) v by auto
    then show ?thesis using False e(1,3) Some d(1,2,3) v db_sub_trans by (auto simp: getExpire_def expire_of_def)
  qed
qed

lemma removeExpire_ok:
  assumes a: "db_is seed db m" and k: "sds_short k" and v: "m k = Some (v, t)"
  shows "\<exists>db'. removeExpire db k = Some (t \<noteq> None, db') \<and> db_is seed db' (m(k \<mapsto> (v, None))) \<and> db_sub db db'"
proof -
  obtain r d where d: "dictFind (db_dict db) k = Some (r, d)" "db_is seed (db\<lparr>db_dict := d\<rparr>) m" "db_sub db (db\<lparr>db_dict := d\<rparr>)"
    "map_option de_val r = map_option fst (m k)" by (rule db_find [OF a k])
  have r: "r \<noteq> None" using d(4) v by auto
  obtain rel ex where ex: "dictDelete (db_expires db) k = Some (sds_map (db_expires db) k \<noteq> None, rel, ex)"
    "key_dict (\<lambda>s. s) (keyptrDictType seed) ex" "sds_map ex = (sds_map (db_expires db))(k := None)" "dict_sub (db_expires db) ex"
    using expd.delete_text [OF db_isD(2) [OF a] sds_short_key [OF k]] by blast
  have "(sds_map (db_expires db) k \<noteq> None) = (t \<noteq> None)" using db_exp [OF a, of k] v by simp
  moreover have dv: "sds_map d k = Some v" using db_val [OF d(2), of k] v by simp
  have "db_is seed (db\<lparr>db_dict := d, db_expires := ex\<rparr>) (m(k \<mapsto> (v, None)))"
  proof (rule db_isI)
    show "dom (sds_map (db_expires (db\<lparr>db_dict := d, db_expires := ex\<rparr>))) \<subseteq> dom (sds_map (db_dict (db\<lparr>db_dict := d, db_expires := ex\<rparr>)))"
      using db_isD(3) [OF d(2)] ex(3) by auto
    show "(m(k \<mapsto> (v, None))) k' = map_option (\<lambda>v. (v, sds_map (db_expires (db\<lparr>db_dict := d, db_expires := ex\<rparr>)) k'))
        (sds_map (db_dict (db\<lparr>db_dict := d, db_expires := ex\<rparr>)) k')" for k'
      using db_isD(4) [OF d(2), of k'] dv ex(3) by (cases "k' = k") simp_all
  qed (use db_isD(1) [OF d(2)] ex(2) in simp_all)
  ultimately show ?thesis using d(1,3) r ex(1,4) by (simp add: removeExpire_def db_sub_def)
qed

lemma setExpire_ok:
  assumes a: "db_is seed db m" and k: "sds_short k" and v: "m k = Some (v, t)" and xr: "dict_room (db_expires db) x"
  shows "\<exists>db'. setExpire env x db k when = Some db' \<and> db_is seed db' (m(k \<mapsto> (v, Some when)))"
proof -
  obtain r d where d: "dictFind (db_dict db) k = Some (r, d)" "db_is seed (db\<lparr>db_dict := d\<rparr>) m"
    "map_option de_key r = map_option (\<lambda>_. k) (m k)" by (rule db_find [OF a k])
  obtain kde where r: "r = Some kde" "de_key kde = k" using d(3) v by auto
  obtain e ex1 ex where ex: "dictReplaceRaw (e_can_resize env) (db_expires db) x 0 k = Some (Some e, ex1)" "dictSetVal ex1 e when = Some ex"
    "key_dict (\<lambda>s. s) (keyptrDictType seed) ex" "sds_map ex = (sds_map (db_expires db))(k \<mapsto> when)"
    by (rule expd.replace_raw_text [OF db_isD(2) [OF a] sds_short_key [OF k] xr])
  have dv: "sds_map d k = Some v" using db_val [OF d(2), of k] v by simp
  have "db_is seed (db\<lparr>db_dict := d, db_expires := ex\<rparr>) (m(k \<mapsto> (v, Some when)))"
  proof (rule db_isI)
    show "dom (sds_map (db_expires (db\<lparr>db_dict := d, db_expires := ex\<rparr>))) \<subseteq> dom (sds_map (db_dict (db\<lparr>db_dict := d, db_expires := ex\<rparr>)))"
      using db_isD(3) [OF d(2)] ex(4) db_val [OF d(2), of k] v by auto
    show "(m(k \<mapsto> (v, Some when))) k' = map_option (\<lambda>v. (v, sds_map (db_expires (db\<lparr>db_dict := d, db_expires := ex\<rparr>)) k'))
        (sds_map (db_dict (db\<lparr>db_dict := d, db_expires := ex\<rparr>)) k')" for k'
      using db_isD(4) [OF d(2), of k'] dv ex(4) by (cases "k' = k") simp_all
  qed (use db_isD(1) [OF d(2)] ex(3) in simp_all)
  then show ?thesis using d(1) r ex(1,2) by (simp add: setExpire_def)
qed

lemma dbDelete_ok:
  assumes a: "db_is seed db m" and k: "sds_short k"
  shows "\<exists>db'. dbDelete db k = Some (m k \<noteq> None, db') \<and> db_is seed db' (m(k := None)) \<and> db_sub db db'"
proof -
  obtain ex where ex: "(if dictSize (db_expires db) > 0 then map_option (\<lambda>(ok, rel, ex). ex) (dictDelete (db_expires db) k)
            else Some (db_expires db)) = Some ex"
    "key_dict (\<lambda>s. s) (keyptrDictType seed) ex" "sds_map ex = (sds_map (db_expires db))(k := None)" "dict_sub (db_expires db) ex"
  proof (cases "dictSize (db_expires db) = 0")
    case True
    then have "(sds_map (db_expires db))(k := None) = sds_map (db_expires db)" using exp_size [OF a True] by auto
    then show ?thesis using that [of "db_expires db"] True db_isD(2) [OF a] by simp
  next
    case False
    then show ?thesis using that expd.delete_text [OF db_isD(2) [OF a] sds_short_key [OF k]] by auto
  qed
  obtain rel d where d: "dictDelete (db_dict db) k = Some (sds_map (db_dict db) k \<noteq> None, rel, d)"
    "key_dict (\<lambda>s. s) (dbDictType seed) d" "sds_map d = (sds_map (db_dict db))(k := None)" "dict_sub (db_dict db) d"
    using keysd.delete_text [OF db_isD(1) [OF a] sds_short_key [OF k]] by blast
  have "(sds_map (db_dict db) k \<noteq> None) = (m k \<noteq> None)" using db_val [OF a, of k] by simp
  moreover have "db_is seed (db\<lparr>db_dict := d, db_expires := ex\<rparr>) (m(k := None))"
    using db_isD(3) [OF a] db_isD(4) [OF a] d(2,3) ex(2,3) by (intro db_isI) auto
  ultimately show ?thesis using d(1,4) ex(1,4) by (simp add: dbDelete_def db_sub_def)
qed

lemma lookupKey_ok:
  assumes a: "db_is seed db m" and k: "sds_short k"
  shows "\<exists>db'. lookupKey db k = Some (map_option fst (m k), db') \<and> db_is seed db' m \<and> db_sub db db'"
  by (rule db_find [OF a k]) (auto simp: lookupKey_def)

section \<open>Expiring\<close>

definition expired :: "'v db_env \<Rightarrow> int \<Rightarrow> (bytes \<Rightarrow> ('v \<times> int option) option) \<Rightarrow> bytes \<Rightarrow> bool" where
  "expired env now m k \<longleftrightarrow> \<not> e_loading env \<and> 0 \<le> expire_of m k \<and> expire_of m k < now"

text \<open>The mapping after a lookup of the key.\<close>

definition after_expire :: "'v db_env \<Rightarrow> int \<Rightarrow> (bytes \<Rightarrow> ('v \<times> int option) option) \<Rightarrow> bytes \<Rightarrow> bytes \<Rightarrow> ('v \<times> int option) option" where
  "after_expire env now m k = (if expired env now m k \<and> \<not> e_masterhost env then m(k := None) else m)"

definition expire_calls :: "'v db_env \<Rightarrow> int \<Rightarrow> (bytes \<Rightarrow> ('v \<times> int option) option) \<Rightarrow> bytes \<Rightarrow> db_call list" where
  "expire_calls env now m k =
     (if expired env now m k \<and> \<not> e_masterhost env then [PropagateExpire k, NotifyKeyspaceEvent ''expired'' k] else [])"

lemma expired_exists: "expired env now m k \<Longrightarrow> m k \<noteq> None"
  by (cases "m k") (simp_all add: expired_def expire_of_def)

lemma after_expire_other [simp]: "k' \<noteq> k \<Longrightarrow> after_expire env now m k k' = m k'"
  by (simp add: after_expire_def)

lemma ks_simps [simp]:
  "ks_db (with_db ks db) = db" "ks_calls (with_db ks db) = ks_calls ks" "server_dirty (with_db ks db) = server_dirty ks"
  "ks_db (log_call cs ks) = ks_db ks" "ks_calls (log_call cs ks) = ks_calls ks @ cs" "server_dirty (log_call cs ks) = server_dirty ks"
  "ks_db (add_dirty n ks) = ks_db ks" "ks_calls (add_dirty n ks) = ks_calls ks" "server_dirty (add_dirty n ks) = server_dirty ks + n"
  by (simp_all add: with_db_def log_call_def add_dirty_def)

lemma expireIfNeeded_ok:
  assumes a: "db_is seed (ks_db ks) m" and k: "sds_short k"
  obtains ks' where "expireIfNeeded env now ks k = Some (expired env now m k, ks')"
    "db_is seed (ks_db ks') (after_expire env now m k)" "db_sub (ks_db ks) (ks_db ks')"
    "ks_calls ks' = ks_calls ks @ expire_calls env now m k" "server_dirty ks' = server_dirty ks"
proof -
  obtain db where g: "getExpire (ks_db ks) k = Some (expire_of m k, db)" "db_is seed db m" "db_sub (ks_db ks) db"
    using getExpire_ok [OF a k] by blast
  show ?thesis
  proof (cases "expired env now m k \<and> \<not> e_masterhost env")
    case True
    obtain db' where d: "dbDelete db k = Some (m k \<noteq> None, db')" "db_is seed db' (m(k := None))" "db_sub db db'"
      using dbDelete_ok [OF g(2) k] by blast
    let ?ks = "with_db (log_call [PropagateExpire k, NotifyKeyspaceEvent ''expired'' k]
         ((with_db ks db)\<lparr>stat_expiredkeys := stat_expiredkeys (with_db ks db) + 1\<rparr>)) db'"
    have c: "\<not> expire_of m k < 0" "\<not> e_loading env" "\<not> e_masterhost env" "\<not> now \<le> expire_of m k" "m k \<noteq> None"
      using True expired_exists [of env now m k] by (auto simp: expired_def)
    have "expireIfNeeded env now ks k = Some (True, ?ks)"
      using g(1) d(1) c by (simp add: expireIfNeeded_def Let_def)
    then show ?thesis using that [of ?ks] True d(2,3) db_sub_trans [OF g(3)]
      by (simp add: after_expire_def expire_calls_def)
  next
    case False
    have "expireIfNeeded env now ks k = Some (expired env now m k, with_db ks db)"
      using g(1) False by (auto simp: expireIfNeeded_def expired_def Let_def)
    then show ?thesis using that [of "with_db ks db"] False g(2,3) by (auto simp: after_expire_def expire_calls_def)
  qed
qed

definition read_val :: "'v db_env \<Rightarrow> int \<Rightarrow> (bytes \<Rightarrow> ('v \<times> int option) option) \<Rightarrow> bytes \<Rightarrow> 'v option" where
  "read_val env now m k =
     (if expired env now m k \<and> (\<not> e_masterhost env \<or> e_readonly env) then None else map_option fst (m k))"

lemma lookupKeyRead_ok:
  assumes a: "db_is seed (ks_db ks) m" and k: "sds_short k"
  obtains ks' where "lookupKeyReadWithFlags env now ks k = Some (read_val env now m k, ks')"
    "db_is seed (ks_db ks') (after_expire env now m k)" "db_sub (ks_db ks) (ks_db ks')"
    "ks_calls ks' = ks_calls ks @ expire_calls env now m k" "server_dirty ks' = server_dirty ks"
proof -
  obtain ks1 where e: "expireIfNeeded env now ks k = Some (expired env now m k, ks1)"
    "db_is seed (ks_db ks1) (after_expire env now m k)" "db_sub (ks_db ks) (ks_db ks1)"
    "ks_calls ks1 = ks_calls ks @ expire_calls env now m k" "server_dirty ks1 = server_dirty ks"
    by (rule expireIfNeeded_ok [OF a k])
  show ?thesis
  proof (cases "expired env now m k \<and> (\<not> e_masterhost env \<or> e_readonly env)")
    case True
    then have "lookupKeyReadWithFlags env now ks k = Some (None, ks1)" using e(1) by (simp add: lookupKeyReadWithFlags_def)
    then show ?thesis using that [of ks1] True e by (simp add: read_val_def)
  next
    case False
    then have m: "after_expire env now m k = m" by (auto simp: after_expire_def)
    obtain db where l: "lookupKey (ks_db ks1) k = Some (map_option fst (m k), db)" "db_is seed db m" "db_sub (ks_db ks1) db"
      using lookupKey_ok [OF e(2) k] unfolding m by blast
    let ?ks = "with_db ks1 db"
    let ?ks' = "if m k = None then ?ks\<lparr>stat_keyspace_misses := stat_keyspace_misses ?ks + 1\<rparr>
         else ?ks\<lparr>stat_keyspace_hits := stat_keyspace_hits ?ks + 1\<rparr>"
    have "lookupKeyReadWithFlags env now ks k = Some (map_option fst (m k), ?ks')"
      unfolding lookupKeyReadWithFlags_def e(1) bind.bind_lunit prod.case if_not_P [OF False] l(1) Let_def by simp
    then have "lookupKeyReadWithFlags env now ks k = Some (read_val env now m k, ?ks')"
      unfolding read_val_def if_not_P [OF False] .
    moreover have "ks_db ?ks' = db" "ks_calls ?ks' = ks_calls ks1" "server_dirty ?ks' = server_dirty ks1" by simp_all
    ultimately show ?thesis using that [of ?ks'] e l(2) db_sub_trans [OF e(3) l(3)] unfolding m by simp
  qed
qed

lemma lookupKeyWrite_ok:
  assumes a: "db_is seed (ks_db ks) m" and k: "sds_short k"
  obtains ks' where "lookupKeyWrite env now ks k = Some (map_option fst (after_expire env now m k k), ks')"
    "db_is seed (ks_db ks') (after_expire env now m k)" "db_sub (ks_db ks) (ks_db ks')"
    "ks_calls ks' = ks_calls ks @ expire_calls env now m k" "server_dirty ks' = server_dirty ks"
proof -
  obtain ks1 where e: "expireIfNeeded env now ks k = Some (expired env now m k, ks1)"
    "db_is seed (ks_db ks1) (after_expire env now m k)" "db_sub (ks_db ks) (ks_db ks1)"
    "ks_calls ks1 = ks_calls ks @ expire_calls env now m k" "server_dirty ks1 = server_dirty ks"
    by (rule expireIfNeeded_ok [OF a k])
  obtain db where l: "lookupKey (ks_db ks1) k = Some (map_option fst (after_expire env now m k k), db)"
    "db_is seed db (after_expire env now m k)" "db_sub (ks_db ks1) db"
    using lookupKey_ok [OF e(2) k] by blast
  have "lookupKeyWrite env now ks k = Some (map_option fst (after_expire env now m k k), with_db ks1 db)"
    using e(1) l(1) by (simp add: lookupKeyWrite_def)
  then show ?thesis using that [of "with_db ks1 db"] e l(2) db_sub_trans [OF e(3) l(3)] by simp
qed

section \<open>Setting\<close>

lemma dbAdd_ok:
  assumes a: "db_is seed (ks_db ks) m" and k: "sds_short k" and n: "m k = None" and room: "dict_room (db_dict (ks_db ks)) x"
  obtains ks' where "dbAdd env x ks k v = Some ks'" "db_is seed (ks_db ks') (m(k \<mapsto> (v, None)))"
    "db_expires (ks_db ks') = db_expires (ks_db ks)"
    "ks_calls ks' = ks_calls ks @ (if e_is_list env v then [SignalListAsReady k] else [])"
proof -
  have dn: "sds_map (db_dict (ks_db ks)) k = None" using db_val [OF a, of k] n by simp
  obtain d where d: "dictAdd (e_can_resize env) (db_dict (ks_db ks)) x v k v = Some (True, d)"
    "key_dict (\<lambda>s. s) (dbDictType seed) d" "sds_map d = (sds_map (db_dict (ks_db ks)))(k \<mapsto> v)"
    using keysd.add_text [OF db_isD(1) [OF a] sds_short_key [OF k] room, of "e_can_resize env" v v] dn by auto
  have en: "sds_map (db_expires (ks_db ks)) k = None" using db_exp [OF a, of k] n by simp
  have "db_is seed ((ks_db ks)\<lparr>db_dict := d\<rparr>) (m(k \<mapsto> (v, None)))"
  proof (rule db_isI)
    show "dom (sds_map (db_expires ((ks_db ks)\<lparr>db_dict := d\<rparr>))) \<subseteq> dom (sds_map (db_dict ((ks_db ks)\<lparr>db_dict := d\<rparr>)))"
      using db_isD(3) [OF a] d(3) by auto
    show "(m(k \<mapsto> (v, None))) k' = map_option (\<lambda>v. (v, sds_map (db_expires ((ks_db ks)\<lparr>db_dict := d\<rparr>)) k'))
        (sds_map (db_dict ((ks_db ks)\<lparr>db_dict := d\<rparr>)) k')" for k'
      using db_isD(4) [OF a, of k'] d(3) en by (cases "k' = k") simp_all
  qed (use db_isD(2) [OF a] d(2) in simp_all)
  then show ?thesis using that [of "let ks = with_db ks ((ks_db ks)\<lparr>db_dict := d\<rparr>) in if e_is_list env v then log_call [SignalListAsReady k] ks else ks"] d(1)
    by (simp add: dbAdd_def Let_def)
qed

lemma dbOverwrite_ok:
  assumes a: "db_is seed (ks_db ks) m" and k: "sds_short k" and w: "m k = Some (w, t)" and room: "dict_room (db_dict (ks_db ks)) x"
  obtains ks' where "dbOverwrite env x ks k v = Some ks'" "db_is seed (ks_db ks') (m(k \<mapsto> (v, t)))" "ks_calls ks' = ks_calls ks"
proof -
  obtain r d0 where f: "dictFind (db_dict (ks_db ks)) k = Some (r, d0)" "db_is seed ((ks_db ks)\<lparr>db_dict := d0\<rparr>) m"
    "db_sub (ks_db ks) ((ks_db ks)\<lparr>db_dict := d0\<rparr>)" "map_option de_val r = map_option fst (m k)" by (rule db_find [OF a k])
  have r: "r \<noteq> None" using f(4) w by auto
  have room0: "dict_room d0 x" using dict_sub_room [OF room] f(3) by (simp add: db_sub_def)
  have ok0: "key_dict (\<lambda>s. s) (dbDictType seed) d0" using db_isD(1) [OF f(2)] by simp
  obtain rel d where d: "dictReplace (e_can_resize env) d0 x v k v = Some (sds_map d0 k = None, rel, d)"
    "key_dict (\<lambda>s. s) (dbDictType seed) d" "sds_map d = (sds_map d0)(k \<mapsto> v)"
    using keysd.replace_text [OF ok0 sds_short_key [OF k] room0] by blast
  have et: "sds_map (db_expires (ks_db ks)) k = t" using db_exp [OF a, of k] w by simp
  have "db_is seed ((ks_db ks)\<lparr>db_dict := d\<rparr>) (m(k \<mapsto> (v, t)))"
  proof (rule db_isI)
    show "dom (sds_map (db_expires ((ks_db ks)\<lparr>db_dict := d\<rparr>))) \<subseteq> dom (sds_map (db_dict ((ks_db ks)\<lparr>db_dict := d\<rparr>)))"
      using db_isD(3) [OF f(2)] d(3) by auto
    show "(m(k \<mapsto> (v, t))) k' = map_option (\<lambda>v. (v, sds_map (db_expires ((ks_db ks)\<lparr>db_dict := d\<rparr>)) k'))
        (sds_map (db_dict ((ks_db ks)\<lparr>db_dict := d\<rparr>)) k')" for k'
      using db_isD(4) [OF f(2), of k'] d(3) et by (cases "k' = k") simp_all
  qed (use db_isD(2) [OF a] d(2) in simp_all)
  then show ?thesis using that [of "with_db ks ((ks_db ks)\<lparr>db_dict := d\<rparr>)"] d(1) f(1) r
    by (simp add: dbOverwrite_def)
qed

lemma setKey_ok:
  assumes a: "db_is seed (ks_db ks) m" and k: "sds_short k" and room: "dict_room (db_dict (ks_db ks)) x"
  obtains ks' where "setKey env now x ks k v = Some ks'" "db_is seed (ks_db ks') (m(k \<mapsto> (v, None)))"
proof -
  obtain ks1 where l: "lookupKeyWrite env now ks k = Some (map_option fst (after_expire env now m k k), ks1)"
    "db_is seed (ks_db ks1) (after_expire env now m k)" "db_sub (ks_db ks) (ks_db ks1)"
    by (rule lookupKeyWrite_ok [OF a k])
  let ?m = "after_expire env now m k"
  have room1: "dict_room (db_dict (ks_db ks1)) x" using dict_sub_room [OF room] l(3) by (simp add: db_sub_def)
  have m': "(?m(k \<mapsto> (v, t)))(k \<mapsto> (v, None)) = m(k \<mapsto> (v, None))" for t by (auto simp: after_expire_def)
  obtain ks2 t where s: "(if map_option fst (?m k) = None then dbAdd env x ks1 k v else dbOverwrite env x ks1 k v) = Some ks2"
    "db_is seed (ks_db ks2) (?m(k \<mapsto> (v, t)))"
  proof (cases "?m k")
    case None
    obtain ks2 where "dbAdd env x ks1 k v = Some ks2" "db_is seed (ks_db ks2) (?m(k \<mapsto> (v, None)))"
      by (rule dbAdd_ok [OF l(2) k None room1])
    then show ?thesis using that None by simp
  next
    case (Some p)
    obtain w t where p: "p = (w, t)" by (cases p)
    obtain ks2 where "dbOverwrite env x ks1 k v = Some ks2" "db_is seed (ks_db ks2) (?m(k \<mapsto> (v, t)))"
      by (rule dbOverwrite_ok [OF l(2) k Some [unfolded p] room1])
    then show ?thesis using that Some by simp
  qed
  have vt: "(?m(k \<mapsto> (v, t))) k = Some (v, t)" by simp
  obtain db where r: "removeExpire (ks_db ks2) k = Some (t \<noteq> None, db)" "db_is seed db ((?m(k \<mapsto> (v, t)))(k \<mapsto> (v, None)))"
    using removeExpire_ok [OF s(2) k vt] by blast
  have "setKey env now x ks k v = Some (log_call [SignalModifiedKey k] (with_db ks2 db))"
    using l(1) s(1) r(1) by (simp add: setKey_def)
  then show ?thesis using that [of "log_call [SignalModifiedKey k] (with_db ks2 db)"] r(2) unfolding m' by simp
qed

end
