(* ===== verification/DbSpec.thy ===== *)
theory DbSpec
  imports Db
begin

text \<open>
  The commands on keys as operations on the mapping from keys to values with expire times, and the
  properties of the key space.
\<close>

section \<open>Commands\<close>

lemma expired_upd [simp]: "k' \<noteq> k \<Longrightarrow> expired env now (m(k := x)) k' = expired env now m k'"
  by (simp add: expired_def expire_of_def)

lemma expired_none [simp]: "m k = None \<Longrightarrow> \<not> expired env now m k"
  using expired_exists by blast

lemma after_expire_upd [simp]: "k' \<noteq> k \<Longrightarrow> after_expire env now (m(k := x)) k' k' = after_expire env now m k' k'"
  by (simp add: after_expire_def)

lemma after_expire_twice: "after_expire env now (after_expire env now m k) k' k' = after_expire env now m k' k'"
proof (cases "expired env now m k \<and> \<not> e_masterhost env")
  case True
  then have "after_expire env now m k = m(k := None)" by (simp add: after_expire_def)
  moreover have "after_expire env now m k k = None" using True by (simp add: after_expire_def)
  moreover have "after_expire env now (m(k := None)) k k = None" by (simp add: after_expire_def)
  ultimately show ?thesis by (cases "k' = k") simp_all
qed (simp add: after_expire_def)

lemma del_loop_ok:
  "db_is seed (ks_db ks) m \<Longrightarrow> \<forall>k \<in> set argv. sds_short k \<Longrightarrow>
    \<exists>ks'. del_loop env now ks argv n = Some (n + card {k \<in> set argv. after_expire env now m k k \<noteq> None}, ks') \<and>
      db_is seed (ks_db ks') (m |` (- set argv))"
proof (induction argv arbitrary: ks m n)
  case Nil
  then show ?case by (simp add: restrict_map_def)
next
  case (Cons k argv)
  have k: "sds_short k" and sh: "\<forall>k \<in> set argv. sds_short k" using Cons.prems(2) by simp_all
  obtain ks1 where e: "expireIfNeeded env now ks k = Some (expired env now m k, ks1)" "db_is seed (ks_db ks1) (after_expire env now m k)"
    by (rule expireIfNeeded_ok [OF Cons.prems(1) k])
  obtain db where d: "dbDelete (ks_db ks1) k = Some (after_expire env now m k k \<noteq> None, db)" "db_is seed db ((after_expire env now m k)(k := None))"
    using dbDelete_ok [OF e(2) k] by blast
  have m: "(after_expire env now m k)(k := None) = m(k := None)" by (auto simp: after_expire_def)
  define p where "p = (after_expire env now m k k \<noteq> None)"
  define ks2 where "ks2 = (if p then add_dirty 1 (log_call [SignalModifiedKey k, NotifyKeyspaceEvent ''del'' k] (with_db ks1 db)) else with_db ks1 db)"
  have db2: "db_is seed (ks_db ks2) (m(k := None))" using d(2) unfolding m by (simp add: ks2_def)
  define S where "S = {k' \<in> set argv. after_expire env now (m(k := None)) k' k' \<noteq> None}"
  have kS: "k \<notin> S" by (simp add: S_def after_expire_def)
  have "{k' \<in> set (k # argv). after_expire env now m k' k' \<noteq> None} = (if p then insert k S else S)"
  proof (rule set_eqI)
    fix k'
    show "k' \<in> {k' \<in> set (k # argv). after_expire env now m k' k' \<noteq> None} \<longleftrightarrow> k' \<in> (if p then insert k S else S)"
    proof (cases "k' = k")
      case True
      have "k' \<in> (if p then insert k S else S) \<longleftrightarrow> p" using kS True by simp
      then show ?thesis using True by (simp add: p_def)
    next
      case False
      have "k' \<in> S \<longleftrightarrow> k' \<in> set argv \<and> after_expire env now m k' k' \<noteq> None"
        unfolding S_def mem_Collect_eq by (subst after_expire_upd [OF False]) simp
      then show ?thesis using False by simp
    qed
  qed
  then have c: "card {k' \<in> set (k # argv). after_expire env now m k' k' \<noteq> None} = (if p then 1 else 0) + card S"
    using kS by (simp add: S_def)
  obtain ks' where r: "del_loop env now ks2 argv (if p then n + 1 else n) = Some ((if p then n + 1 else n) + card S, ks')"
      "db_is seed (ks_db ks') ((m(k := None)) |` (- set argv))"
    using Cons.IH [OF db2 sh, of "if p then n + 1 else n"] unfolding S_def by blast
  have "del_loop env now ks (k # argv) n = Some (n + card {k' \<in> set (k # argv). after_expire env now m k' k' \<noteq> None}, ks')"
    using e(1) d(1) r(1) unfolding c p_def [symmetric] ks2_def by (cases p) (simp_all add: Let_def)
  moreover have "(m(k := None)) |` (- set argv) = m |` (- set (k # argv))" by (auto simp: restrict_map_def)
  ultimately show ?case using r(2) by auto
qed

lemma exists_loop_ok:
  "db_is seed (ks_db ks) m \<Longrightarrow> \<forall>k \<in> set argv. sds_short k \<Longrightarrow>
    \<exists>ks'. exists_loop env now ks argv n = Some (n + length (filter (\<lambda>k. after_expire env now m k k \<noteq> None) argv), ks') \<and>
      db_is seed (ks_db ks') (foldl (after_expire env now) m argv)"
proof (induction argv arbitrary: ks m n)
  case (Cons k argv)
  have k: "sds_short k" and sh: "\<forall>k \<in> set argv. sds_short k" using Cons.prems(2) by simp_all
  obtain ks1 where e: "expireIfNeeded env now ks k = Some (expired env now m k, ks1)" "db_is seed (ks_db ks1) (after_expire env now m k)"
    by (rule expireIfNeeded_ok [OF Cons.prems(1) k])
  obtain r d where f: "dictFind (db_dict (ks_db ks1)) k = Some (r, d)" "db_is seed ((ks_db ks1)\<lparr>db_dict := d\<rparr>) (after_expire env now m k)"
    "map_option de_val r = map_option fst (after_expire env now m k k)" by (rule db_find [OF e(2) k])
  have x: "(r \<noteq> None) = (after_expire env now m k k \<noteq> None)" using f(3) by (metis map_option_is_None)
  have db2: "db_is seed (ks_db (with_db ks1 ((ks_db ks1)\<lparr>db_dict := d\<rparr>))) (after_expire env now m k)" using f(2) by simp
  define n1 where "n1 = (if after_expire env now m k k \<noteq> None then n + 1 else n)"
  obtain ks' where "exists_loop env now (with_db ks1 ((ks_db ks1)\<lparr>db_dict := d\<rparr>)) argv n1 =
      Some (n1 + length (filter (\<lambda>k'. after_expire env now m k' k' \<noteq> None) argv), ks')"
      "db_is seed (ks_db ks') (foldl (after_expire env now) (after_expire env now m k) argv)"
    using Cons.IH [OF db2 sh, of n1] unfolding after_expire_twice by blast
  moreover have "exists_loop env now ks (k # argv) n = exists_loop env now (with_db ks1 ((ks_db ks1)\<lparr>db_dict := d\<rparr>)) argv n1"
    using e(1) f(1) unfolding n1_def x [symmetric] by (simp add: dbExists_def del: not_None_eq)
  moreover have "n1 + length (filter (\<lambda>k'. after_expire env now m k' k' \<noteq> None) argv) =
      n + length (filter (\<lambda>k'. after_expire env now m k' k' \<noteq> None) (k # argv))" by (simp add: n1_def del: not_None_eq)
  ultimately show ?case by (simp del: not_None_eq)
qed simp

text \<open>The expire time -1 cannot be told from none.\<close>

definition keep_time :: "int option \<Rightarrow> int option" where
  "keep_time t = (if t = Some (-1) then None else t)"

lemma rename_ok:
  assumes a: "db_is seed (ks_db ks) m" and s: "sds_short src" "sds_short dst" and ne: "src \<noteq> dst"
    and room: "db_room (ks_db ks) x" "db_room (ks_db ks) y"
    and v: "after_expire env now m src src = Some (v, t)" and free: "nx \<longrightarrow> after_expire env now' m dst dst = None"
  shows "\<exists>ks'. renameGenericCommand env (now, now') (x, y) ks src dst nx = Some (if nx then ReplyInt 1 else ReplyOk, ks') \<and>
     db_is seed (ks_db ks') (m(dst \<mapsto> (v, keep_time t), src := None))"
proof -
  let ?m1 = "after_expire env now m src"
  let ?m2 = "after_expire env now' ?m1 dst"
  obtain ks1 where l: "lookupKeyWrite env now ks src = Some (Some v, ks1)" "db_is seed (ks_db ks1) ?m1" "db_sub (ks_db ks) (ks_db ks1)"
    using lookupKeyWrite_ok [OF a s(1), of env now] v by auto
  obtain db1 where g: "getExpire (ks_db ks1) src = Some (expire_of ?m1 src, db1)" "db_is seed db1 ?m1" "db_sub (ks_db ks1) db1"
    using getExpire_ok [OF l(2) s(1)] by blast
  obtain ks2 where l2: "lookupKeyWrite env now' (with_db ks1 db1) dst = Some (map_option fst (?m2 dst), ks2)" "db_is seed (ks_db ks2) ?m2"
      "db_sub db1 (ks_db ks2)"
    using lookupKeyWrite_ok [of seed "with_db ks1 db1" ?m1 dst env now'] g(2) s(2) by auto
  have m1dst: "?m1 dst = m dst" using ne by (simp add: after_expire_def)
  have "?m2 dst = after_expire env now' m dst dst" using ne m1dst by (simp add: after_expire_def expired_def expire_of_def)
  then have nx: "\<not> (map_option fst (?m2 dst) \<noteq> None \<and> nx)" using free by auto
  obtain db2 where d: "(if map_option fst (?m2 dst) \<noteq> None then map_option snd (dbDelete (ks_db ks2) dst) else Some (ks_db ks2)) = Some db2"
      "db_is seed db2 (?m2(dst := None))" "db_sub (ks_db ks2) db2"
  proof (cases "?m2 dst")
    case None
    then have "?m2(dst := None) = ?m2" by auto
    then show ?thesis using that [of "ks_db ks2"] None l2(2) by simp
  next
    case (Some p)
    then show ?thesis using that dbDelete_ok [OF l2(2) s(2)] by auto
  qed
  have sub: "db_sub (ks_db ks) db2" by (rule db_sub_trans [OF l(3) db_sub_trans [OF g(3) db_sub_trans [OF l2(3) d(3)]]])
  have r2: "dict_room (db_dict db2) x" "dict_room (db_expires db2) y" using db_sub_room [OF _ sub] room by (simp_all add: db_room_def)
  obtain ks3 where ad: "dbAdd env x (with_db ks2 db2) dst v = Some ks3" "db_is seed (ks_db ks3) ((?m2(dst := None))(dst \<mapsto> (v, None)))"
      "db_expires (ks_db ks3) = db_expires db2"
    using dbAdd_ok [of seed "with_db ks2 db2" "?m2(dst := None)" dst x env v] d(2) s(2) r2(1) by auto
  have ex: "expire_of ?m1 src = (case t of Some w \<Rightarrow> w | None \<Rightarrow> -1)" using v by (simp add: expire_of_def split: option.split)
  obtain db3 where se: "(if expire_of ?m1 src \<noteq> -1 then setExpire env y (ks_db ks3) dst (expire_of ?m1 src) else Some (ks_db ks3)) = Some db3"
      "db_is seed db3 ((?m2(dst := None))(dst \<mapsto> (v, keep_time t)))"
  proof (cases "expire_of ?m1 src = -1")
    case True
    then have "keep_time t = None" unfolding ex by (auto simp: keep_time_def split: option.splits)
    then show ?thesis using that [of "ks_db ks3"] True ad(2) by simp
  next
    case False
    then have t: "t = Some (expire_of ?m1 src)" "keep_time t = t" unfolding ex by (auto simp: keep_time_def split: option.splits)
    have "dict_room (db_expires (ks_db ks3)) y" using r2(2) ad(3) by simp
    then obtain db3 where "setExpire env y (ks_db ks3) dst (expire_of ?m1 src) = Some db3"
        "db_is seed db3 ((?m2(dst := None, dst \<mapsto> (v, None)))(dst \<mapsto> (v, Some (expire_of ?m1 src))))"
      using setExpire_ok [OF ad(2) s(2), of v None y env "expire_of ?m1 src"] by auto
    then show ?thesis using that [of db3] False t by simp
  qed
  obtain db4 where de: "dbDelete db3 src = Some (True, db4)" "db_is seed db4 ((?m2(dst := None))(dst \<mapsto> (v, keep_time t), src := None))"
    using dbDelete_ok [OF se(2) s(1)] ne v by (auto simp: after_expire_def split: if_splits)
  have fin: "(?m2(dst := None))(dst \<mapsto> (v, keep_time t), src := None) = m(dst \<mapsto> (v, keep_time t), src := None)"
    by (auto simp: after_expire_def)
  have "renameGenericCommand env (now, now') (x, y) ks src dst nx = Some (if nx then ReplyInt 1 else ReplyOk,
      add_dirty 1 (log_call [SignalModifiedKey src, SignalModifiedKey dst,
                 NotifyKeyspaceEvent ''rename_from'' src, NotifyKeyspaceEvent ''rename_to'' dst] (with_db ks3 db4)))"
    using l(1) g(1) l2(1) d(1) ad(1) se(1) de(1) nx ne
    unfolding renameGenericCommand_def Let_def fst_conv snd_conv by (simp del: not_None_eq)
  then show ?thesis using de(2) unfolding fin by auto
qed

text \<open>The time an expire command asks for, if the sums and products fit.\<close>

definition expire_when :: "strobj \<Rightarrow> int \<Rightarrow> bool \<Rightarrow> int option" where
  "expire_when param basetime seconds = do {
     when \<leftarrow> getLongLongFromObject (Some param);
     when \<leftarrow> (if seconds then ll_op (when * 1000) else Some when);
     ll_op (when + basetime)
   }"

lemma expire_ok:
  assumes a: "db_is seed (ks_db ks) m" and k: "sds_short k" and room: "dict_room (db_expires (ks_db ks)) x"
    and w: "expire_when param basetime seconds = Some when" and v: "after_expire env now m k k = Some (v, t)"
  obtains ks' where "expireGenericCommand env (now, now') x ks k param basetime seconds = Some (ReplyInt 1, ks')"
     "db_is seed (ks_db ks') (if when \<le> now' \<and> \<not> e_loading env \<and> \<not> e_masterhost env then m(k := None) else m(k \<mapsto> (v, Some when)))"
proof -
  obtain ks1 where l: "lookupKeyWrite env now ks k = Some (Some v, ks1)" "db_is seed (ks_db ks1) (after_expire env now m k)"
      "db_sub (ks_db ks) (ks_db ks1)"
    using lookupKeyWrite_ok [OF a k, of env now] v by auto
  obtain w0 w1 where w0: "getLongLongFromObject (Some param) = Some w0"
    "(if seconds then ll_op (w0 * 1000) else Some w0) = Some w1" "ll_op (w1 + basetime) = Some when"
    using w unfolding expire_when_def bind_eq_Some_conv by blast
  have m: "after_expire env now m k = m" using v by (auto simp: after_expire_def split: if_splits)
  show ?thesis
  proof (cases "when \<le> now' \<and> \<not> e_loading env \<and> \<not> e_masterhost env")
    case True
    obtain db where d: "dbDelete (ks_db ks1) k = Some (True, db)" "db_is seed db (m(k := None))"
      using dbDelete_ok [OF l(2) k] v unfolding m by auto
    have "expireGenericCommand env (now, now') x ks k param basetime seconds = Some (ReplyInt 1,
        log_call [RewriteClientCommandVector ''DEL'' k, SignalModifiedKey k, NotifyKeyspaceEvent ''del'' k] (add_dirty 1 (with_db ks1 db)))"
      using l(1) d(1) True
      by (simp add: expireGenericCommand_def getLongLongFromObjectOrReply_def w0)
    then show ?thesis using that d(2) True by simp
  next
    case False
    have "dict_room (db_expires (ks_db ks1)) x" using dict_sub_room [OF room] l(3) by (simp add: db_sub_def)
    then obtain db where d: "setExpire env x (ks_db ks1) k when = Some db" "db_is seed db (m(k \<mapsto> (v, Some when)))"
      using setExpire_ok [OF l(2) k v] unfolding m by blast
    have "expireGenericCommand env (now, now') x ks k param basetime seconds = Some (ReplyInt 1,
        add_dirty 1 (log_call [SignalModifiedKey k, NotifyKeyspaceEvent ''expire'' k] (with_db ks1 db)))"
      using l(1) d(1) False
      by (auto simp: expireGenericCommand_def getLongLongFromObjectOrReply_def w0)
    then show ?thesis using that d(2) False by simp
  qed
qed

lemma expire_missing:
  assumes a: "db_is seed (ks_db ks) m" and k: "sds_short k"
    and w: "expire_when param basetime seconds = Some when" and v: "after_expire env now m k k = None"
  obtains ks' where "expireGenericCommand env (now, now') x ks k param basetime seconds = Some (ReplyInt 0, ks')"
     "db_is seed (ks_db ks') (m(k := None))"
proof -
  obtain ks1 where l: "lookupKeyWrite env now ks k = Some (None, ks1)" "db_is seed (ks_db ks1) (after_expire env now m k)"
    using lookupKeyWrite_ok [OF a k, of env now] v by auto
  have m: "after_expire env now m k = m(k := None)" using v by (auto simp: after_expire_def split: if_splits)
  have "expireGenericCommand env (now, now') x ks k param basetime seconds = Some (ReplyInt 0, ks1)"
    using w l(1) by (auto simp: expire_when_def expireGenericCommand_def getLongLongFromObjectOrReply_def bind_eq_Some_conv)
  then show ?thesis using that l(2) unfolding m by simp
qed

text \<open>The reply of \<open>TTL\<close> and \<open>PTTL\<close>.\<close>

definition ttl_reply :: "bool \<Rightarrow> int \<Rightarrow> int \<Rightarrow> int" where
  "ttl_reply output_ms when now = (if when = -1 then -1 else if output_ms then max 0 (when - now) else (max 0 (when - now) + 500) div 1000)"

lemma ttl_ok:
  assumes a: "db_is seed (ks_db ks) m" and k: "sds_short k" and v: "read_val env now m k = Some v"
    and fits: "int64 (expire_of m k - now' + 500)" "int64 (expire_of m k - now')"
  obtains ks' where "ttlGenericCommand env (now, now') ks k ms = Some (ReplyInt (ttl_reply ms (expire_of m k) now'), ks')"
     "db_is seed (ks_db ks') m"
proof -
  obtain ks1 where l: "lookupKeyReadWithFlags env now ks k = Some (Some v, ks1)" "db_is seed (ks_db ks1) (after_expire env now m k)"
    using lookupKeyRead_ok [OF a k, of env now] unfolding v by blast
  have m: "after_expire env now m k = m" using v by (auto simp: after_expire_def read_val_def split: if_splits)
  obtain db where g: "getExpire (ks_db ks1) k = Some (expire_of m k, db)" "db_is seed db m"
    using getExpire_ok [OF l(2) k] unfolding m by blast
  have "ttlGenericCommand env (now, now') ks k ms = Some (ReplyInt (ttl_reply ms (expire_of m k) now'), with_db ks1 db)"
    using l(1) g(1) fits
    by (auto simp: ttlGenericCommand_def ttl_reply_def ll_op_def max_def int64_def)
  then show ?thesis using that g(2) by simp
qed

lemma ttl_missing:
  assumes a: "db_is seed (ks_db ks) m" and k: "sds_short k" and v: "read_val env now m k = None"
  obtains ks' where "ttlGenericCommand env (now, now') ks k ms = Some (ReplyInt (-2), ks')"
     "db_is seed (ks_db ks') (after_expire env now m k)"
proof -
  obtain ks1 where l: "lookupKeyReadWithFlags env now ks k = Some (None, ks1)" "db_is seed (ks_db ks1) (after_expire env now m k)"
    using lookupKeyRead_ok [OF a k, of env now] unfolding v by blast
  then show ?thesis using that by (simp add: ttlGenericCommand_def)
qed

lemma persist_ok:
  assumes a: "db_is seed (ks_db ks) m" and k: "sds_short k"
  obtains ks' where "persistCommand ks k = Some (ReplyInt (case m k of Some (v, Some t) \<Rightarrow> 1 | _ \<Rightarrow> 0), ks')"
     "db_is seed (ks_db ks') (case m k of Some (v, t) \<Rightarrow> m(k \<mapsto> (v, None)) | None \<Rightarrow> m)"
proof -
  obtain r d where f: "dictFind (db_dict (ks_db ks)) k = Some (r, d)" "db_is seed ((ks_db ks)\<lparr>db_dict := d\<rparr>) m"
    "map_option de_val r = map_option fst (m k)" by (rule db_find [OF a k])
  show ?thesis
  proof (cases "m k")
    case None
    then have "persistCommand ks k = Some (ReplyInt 0, with_db ks ((ks_db ks)\<lparr>db_dict := d\<rparr>))"
      using f(1,3) by (simp add: persistCommand_def)
    then show ?thesis using that None f(2) by simp
  next
    case (Some p)
    obtain v t where p: "p = (v, t)" by (cases p)
    obtain e where r: "r = Some e" using f(3) Some by auto
    obtain db where d: "removeExpire ((ks_db ks)\<lparr>db_dict := d\<rparr>) k = Some (t \<noteq> None, db)" "db_is seed db (m(k \<mapsto> (v, None)))"
      using removeExpire_ok [OF f(2) k Some [unfolded p]] by blast
    define ks1 where "ks1 = (if t \<noteq> None then add_dirty 1 (with_db ks db) else with_db ks db)"
    have "persistCommand ks k = Some (ReplyInt (case m k of Some (v, Some t) \<Rightarrow> 1 | _ \<Rightarrow> 0), ks1)"
      using f(1) r d(1) Some p unfolding ks1_def
      by (cases t) (simp_all add: persistCommand_def with_db_def Let_def)
    moreover have "ks_db ks1 = db" by (simp add: ks1_def)
    ultimately show ?thesis using that [of ks1] d(2) Some p by simp
  qed
qed

section \<open>Random keys, touching, flushing\<close>

text \<open>What remains when some expired keys have been removed.\<close>

definition purged :: "'v db_env \<Rightarrow> int \<Rightarrow> (bytes \<Rightarrow> ('v \<times> int option) option) \<Rightarrow> (bytes \<Rightarrow> ('v \<times> int option) option) \<Rightarrow> bool" where
  "purged env now m m' \<longleftrightarrow> (\<forall>k. m' k = m k \<or> m' k = None \<and> expired env now m k)"

lemma purged_refl [simp]: "purged env now m m"
  by (simp add: purged_def)

lemma purged_expired: "purged env now m m' \<Longrightarrow> expired env now m' k \<Longrightarrow> expired env now m k"
  unfolding purged_def expired_def expire_of_def by (metis (no_types, lifting) option.simps(4) not_one_le_zero zero_le_numeral neg_0_le_iff_le le_minus_one_simps(3))

lemma purged_trans: "purged env now m m1 \<Longrightarrow> purged env now m1 m2 \<Longrightarrow> purged env now m m2"
  using purged_expired [of env now m m1] unfolding purged_def by metis

lemma purged_after [simp]: "purged env now m (after_expire env now m k)"
  by (simp add: purged_def after_expire_def)

lemma random_draw_ok:
  assumes a: "db_is seed (ks_db ks) m" and g: "dictGetRandomKey (db_dict (ks_db ks)) rnd = Some (r, d)"
  shows "db_is seed ((ks_db ks)\<lparr>db_dict := d\<rparr>) m"
    and "case r of None \<Rightarrow> m = Map.empty | Some e \<Rightarrow> m (de_key e) \<noteq> None \<and> sds_short (de_key e)"
proof -
  have R: "key_dict (\<lambda>s. s) (dbDictType seed) d \<and> sds_map d = sds_map (db_dict (ks_db ks)) \<and> dict_sub (db_dict (ks_db ks)) d \<and>
    (case r of None \<Rightarrow> sds_map (db_dict (ks_db ks)) = Map.empty
      | Some e \<Rightarrow> sds_map (db_dict (ks_db ks)) (de_key e) = Some (de_val e) \<and> short_key (\<lambda>s. s) (de_key e))"
    by (rule keysd.random_text [OF db_isD(1) [OF a] g])
  then show "db_is seed ((ks_db ks)\<lparr>db_dict := d\<rparr>) m" using db_isD [OF a] by (intro db_isI) simp_all
  show "case r of None \<Rightarrow> m = Map.empty | Some e \<Rightarrow> m (de_key e) \<noteq> None \<and> sds_short (de_key e)"
  proof (cases r)
    case None
    then have "m k = None" for k using R db_isD(4) [OF a, of k] by simp
    then show ?thesis using None by auto
  next
    case (Some e)
    then show ?thesis using R db_isD(4) [OF a, of "de_key e"] by (simp add: short_key_def sds_short_def)
  qed
qed

text \<open>One round: the draw, the look into the expire table and the expiry.\<close>

lemma random_round:
  assumes a: "db_is seed (ks_db ks) m" and r: "dbRandomKey env now ks (rnd # rnds) = Some (res, ks')"
  obtains (empty) "res = None" "m = Map.empty" "db_is seed (ks_db ks') m"
  | (found) k where "res = Some k" "m k \<noteq> None" "\<not> expired env now m k" "db_is seed (ks_db ks') m"
  | (again) k ks1 where "expired env now m k" "db_is seed (ks_db ks1) (after_expire env now m k)" "dbRandomKey env now ks1 rnds = Some (res, ks')"
proof -
  obtain e d where g: "dictGetRandomKey (db_dict (ks_db ks)) rnd = Some (e, d)" using r by (auto simp: bind_eq_Some_conv)
  define ks0 where "ks0 = with_db ks ((ks_db ks)\<lparr>db_dict := d\<rparr>)"
  have a0: "db_is seed (ks_db ks0) m" and d: "case e of None \<Rightarrow> m = Map.empty | Some e \<Rightarrow> m (de_key e) \<noteq> None \<and> sds_short (de_key e)"
    using random_draw_ok [OF a g] by (simp_all add: ks0_def)
  show ?thesis
  proof (cases e)
    case None
    then have "res = None" "ks' = ks0" using r g by (simp_all add: ks0_def)
    then show ?thesis using empty None d a0 by simp
  next
    case (Some de)
    define k where "k = de_key de"
    have k: "m k \<noteq> None" "sds_short k" using d Some by (simp_all add: k_def)
    obtain x ex where f: "dictFind (db_expires (ks_db ks0)) k = Some (x, ex)" "db_is seed ((ks_db ks0)\<lparr>db_expires := ex\<rparr>) m"
      "map_option de_val x = (case m k of Some (v, t) \<Rightarrow> t | None \<Rightarrow> None)" by (rule db_find_exp [OF a0 k(2)])
    define ks1 where "ks1 = with_db ks0 ((ks_db ks0)\<lparr>db_expires := ex\<rparr>)"
    have a1: "db_is seed (ks_db ks1) m" using f(2) by (simp add: ks1_def)
    obtain ks2 where e2: "expireIfNeeded env now ks1 k = Some (expired env now m k, ks2)" "db_is seed (ks_db ks2) (after_expire env now m k)"
      by (rule expireIfNeeded_ok [OF a1 k(2)])
    have r': "(if x \<noteq> None then (if expired env now m k then dbRandomKey env now ks2 rnds else Some (Some k, ks2)) else Some (Some k, ks1)) = Some (res, ks')"
      using r unfolding dbRandomKey.simps g bind.bind_lunit prod.case Let_def Some option.case ks0_def [symmetric] k_def [symmetric]
        f(1) ks1_def [symmetric] e2(1) .
    show ?thesis
    proof (cases "x \<noteq> None \<and> expired env now m k")
      case True
      then show ?thesis using again [of k ks2] e2(2) r' by simp
    next
      case False
      have "\<not> expired env now m k" if "x = None" using f(3) that by (auto simp: expired_def expire_of_def split: option.splits)
      with False have ne: "\<not> expired env now m k" by blast
      then have "after_expire env now m k = m" by (simp add: after_expire_def)
      then have "res = Some k" "db_is seed (ks_db ks') m" using r' False ne a1 e2(2) by (simp_all split: if_splits)
      then show ?thesis using found k(1) ne by blast
    qed
  qed
qed

lemma random_ok:
  "db_is seed (ks_db ks) m \<Longrightarrow> dbRandomKey env now ks rnds = Some (res, ks') \<Longrightarrow>
    \<exists>m'. db_is seed (ks_db ks') m' \<and> purged env now m m' \<and>
      (case res of None \<Rightarrow> m' = Map.empty | Some k \<Rightarrow> m' k \<noteq> None \<and> \<not> expired env now m' k)"
proof (induction rnds arbitrary: ks m)
  case (Cons rnd rnds)
  from Cons.prems show ?case
  proof (cases rule: random_round)
    case (again k ks1)
    then obtain m' where "db_is seed (ks_db ks') m'" "purged env now (after_expire env now m k) m'"
      "case res of None \<Rightarrow> m' = Map.empty | Some k \<Rightarrow> m' k \<noteq> None \<and> \<not> expired env now m' k"
      using Cons.IH by blast
    then show ?thesis using purged_trans [OF purged_after] by blast
  qed (auto intro!: exI [of _ m])
qed simp

text \<open>On a replica an expired key stays, so the loop goes on as long as it draws expired keys.\<close>

lemma random_stuck:
  "db_is seed (ks_db ks) m \<Longrightarrow> m \<noteq> Map.empty \<Longrightarrow> \<forall>k \<in> dom m. expired env now m k \<Longrightarrow> e_masterhost env \<Longrightarrow>
    dbRandomKey env now ks rnds = None"
proof (induction rnds arbitrary: ks)
  case (Cons rnd rnds)
  show ?case
  proof (rule ccontr)
    assume "dbRandomKey env now ks (rnd # rnds) \<noteq> None"
    then obtain res ks' where r: "dbRandomKey env now ks (rnd # rnds) = Some (res, ks')" by fast
    from Cons.prems(1) r show False
    proof (cases rule: random_round)
      case (again k ks1)
      have "after_expire env now m k = m" using Cons.prems(4) by (simp add: after_expire_def)
      then show False using Cons.IH [of ks1] Cons.prems again by simp
    qed (use Cons.prems in auto)
  qed
qed simp

lemma touch_loop_ok:
  "db_is seed (ks_db ks) m \<Longrightarrow> \<forall>k \<in> set argv. sds_short k \<Longrightarrow>
    \<exists>ks' n'. touch_loop env now ks argv n = Some (n', ks') \<and> db_is seed (ks_db ks') (foldl (after_expire env now) m argv)"
proof (induction argv arbitrary: ks m n)
  case (Cons k argv)
  have k: "sds_short k" and sh: "\<forall>k \<in> set argv. sds_short k" using Cons.prems(2) by simp_all
  obtain ks1 where l: "lookupKeyReadWithFlags env now ks k = Some (read_val env now m k, ks1)" "db_is seed (ks_db ks1) (after_expire env now m k)"
    by (rule lookupKeyRead_ok [OF Cons.prems(1) k])
  show ?case using Cons.IH [OF l(2) sh, of "if read_val env now m k \<noteq> None then n + 1 else n"] l(1)
    by (simp add: lookupKeyRead_def del: not_None_eq)
qed simp

lemma new_db: "db_is seed \<lparr>db_dict = dictCreate (dbDictType seed), db_expires = dictCreate (keyptrDictType seed)\<rparr> Map.empty"
  by (intro db_isI) (simp_all add: keysd.create_text expd.create_text)

lemma flushdb_ok:
  assumes "db_is seed (ks_db ks) m"
  shows "fst (flushdbCommand ks) = ReplyOk" "db_is seed (ks_db (snd (flushdbCommand ks))) Map.empty"
proof -
  have k: "key_dict (\<lambda>s. s) (dbDictType seed) (db_dict (ks_db ks))" "key_dict (\<lambda>s. s) (keyptrDictType seed) (db_expires (ks_db ks))"
    using db_isD(1,2) [OF assms] by simp_all
  then have e: "snd (dictEmpty (db_dict (ks_db ks)) False) = dictCreate (dbDictType seed)"
    "snd (dictEmpty (db_expires (ks_db ks)) False) = dictCreate (keyptrDictType seed)"
    using dictEmpty_ok [of "db_dict (ks_db ks)" False] dictEmpty_ok [of "db_expires (ks_db ks)" False] by (simp_all add: key_dict_def)
  show "fst (flushdbCommand ks) = ReplyOk" by (simp add: flushdbCommand_def Let_def)
  have "ks_db (snd (flushdbCommand ks)) = \<lparr>db_dict = dictCreate (dbDictType seed), db_expires = dictCreate (keyptrDictType seed)\<rparr>"
    by (simp add: flushdbCommand_def Let_def e)
  then show "db_is seed (ks_db (snd (flushdbCommand ks))) Map.empty" using new_db by simp
qed

section \<open>All branches\<close>

lemma rename_missing:
  assumes a: "db_is seed (ks_db ks) m" and s: "sds_short src" and v: "after_expire env now m src src = None"
  obtains ks' where "renameGenericCommand env (now, now') xy ks src dst nx = Some (ReplyError ''no such key'', ks')"
    "db_is seed (ks_db ks') (after_expire env now m src)"
proof -
  obtain ks1 where l: "lookupKeyWrite env now ks src = Some (None, ks1)" "db_is seed (ks_db ks1) (after_expire env now m src)"
    using lookupKeyWrite_ok [OF a s, of env now] v by auto
  then show ?thesis using that by (simp add: renameGenericCommand_def)
qed

lemma rename_same:
  assumes a: "db_is seed (ks_db ks) m" and s: "sds_short src" and v: "after_expire env now m src src \<noteq> None"
  obtains ks' where "renameGenericCommand env (now, now') xy ks src src nx = Some (if nx then ReplyInt 0 else ReplyOk, ks')"
    "db_is seed (ks_db ks') m"
proof -
  obtain w t where w: "after_expire env now m src src = Some (w, t)" using v by auto
  obtain ks1 where l: "lookupKeyWrite env now ks src = Some (Some w, ks1)" "db_is seed (ks_db ks1) (after_expire env now m src)"
    using lookupKeyWrite_ok [OF a s, of env now] w by auto
  have "after_expire env now m src = m" using v by (auto simp: after_expire_def split: if_splits)
  then show ?thesis using that l by (simp add: renameGenericCommand_def)
qed

lemma rename_taken:
  assumes a: "db_is seed (ks_db ks) m" and s: "sds_short src" "sds_short dst" and ne: "src \<noteq> dst"
    and v: "after_expire env now m src src \<noteq> None" and t: "after_expire env now' m dst dst \<noteq> None"
  obtains ks' where "renameGenericCommand env (now, now') xy ks src dst True = Some (ReplyInt 0, ks')" "db_is seed (ks_db ks') m"
proof -
  have m1: "after_expire env now m src = m" "after_expire env now' m dst = m" using v t by (auto simp: after_expire_def split: if_splits)
  obtain w tw u tu where w: "m src = Some (w, tw)" "m dst = Some (u, tu)" using v t unfolding m1 by auto
  obtain ks1 where l: "lookupKeyWrite env now ks src = Some (Some w, ks1)" "db_is seed (ks_db ks1) m"
    using lookupKeyWrite_ok [OF a s(1), of env now] w(1) unfolding m1 by auto
  obtain db1 where g: "getExpire (ks_db ks1) src = Some (expire_of m src, db1)" "db_is seed db1 m"
    using getExpire_ok [OF l(2) s(1)] by blast
  obtain ks2 where l2: "lookupKeyWrite env now' (with_db ks1 db1) dst = Some (Some u, ks2)" "db_is seed (ks_db ks2) m"
    using lookupKeyWrite_ok [of seed "with_db ks1 db1" m dst env now'] g(2) s(2) w(2) unfolding m1 by auto
  show ?thesis using that [of ks2] l(1) g(1) l2 ne by (simp add: renameGenericCommand_def)
qed

lemma rename_any:
  assumes a: "db_is seed (ks_db ks) m" and s: "sds_short src" "sds_short dst" and room: "db_room (ks_db ks) x" "db_room (ks_db ks) y"
  shows "\<exists>rep ks' m'. renameGenericCommand env (now, now') (x, y) ks src dst nx = Some (rep, ks') \<and> db_is seed (ks_db ks') m'"
proof (cases "after_expire env now m src src")
  case None
  then show ?thesis using rename_missing [OF a s(1)] by metis
next
  case (Some p)
  show ?thesis
  proof (cases "src = dst")
    case True
    then show ?thesis using rename_same [OF a s(1)] Some by (metis option.distinct(1))
  next
    case False
    show ?thesis
    proof (cases "nx \<and> after_expire env now' m dst dst \<noteq> None")
      case True
      then show ?thesis using rename_taken [OF a s False] Some by (metis option.distinct(1))
    next
      case c: False
      have "after_expire env now m src src = Some (fst p, snd p)" using Some by simp
      from rename_ok [OF a s False room this, of nx now'] c show ?thesis by blast
    qed
  qed
qed

lemma expire_any:
  assumes a: "db_is seed (ks_db ks) m" and k: "sds_short k" and room: "dict_room (db_expires (ks_db ks)) x"
    and r: "expireGenericCommand env (now, now') x ks k param basetime seconds = Some (rep, ks')"
  shows "\<exists>m'. db_is seed (ks_db ks') m'"
proof (cases "expire_when param basetime seconds")
  case None
  then have "ks' = ks" using r
    by (auto simp: expire_when_def expireGenericCommand_def getLongLongFromObjectOrReply_def bind_eq_Some_conv bind_eq_None_conv
        split: option.splits if_splits)
  then show ?thesis using a by blast
next
  case (Some w)
  show ?thesis
  proof (cases "after_expire env now m k k")
    case None
    obtain ks1 where "expireGenericCommand env (now, now') x ks k param basetime seconds = Some (ReplyInt 0, ks1)"
      "db_is seed (ks_db ks1) (m(k := None))" by (rule expire_missing [OF a k Some None])
    then show ?thesis using r by auto
  next
    case p: (Some p)
    obtain v t where p': "p = (v, t)" by (cases p)
    obtain ks1 where "expireGenericCommand env (now, now') x ks k param basetime seconds = Some (ReplyInt 1, ks1)"
      "db_is seed (ks_db ks1) (if w \<le> now' \<and> \<not> e_loading env \<and> \<not> e_masterhost env then m(k := None) else m(k \<mapsto> (v, Some w)))"
      by (rule expire_ok [OF a k room Some p [unfolded p']])
    then show ?thesis using r by auto
  qed
qed

lemma ttl_any:
  assumes a: "db_is seed (ks_db ks) m" and k: "sds_short k"
    and r: "ttlGenericCommand env (now, now') ks k ms = Some (rep, ks')"
  shows "\<exists>m'. db_is seed (ks_db ks') m'"
proof -
  obtain ks1 where l: "lookupKeyReadWithFlags env now ks k = Some (read_val env now m k, ks1)" "db_is seed (ks_db ks1) (after_expire env now m k)"
    by (rule lookupKeyRead_ok [OF a k])
  obtain db where g: "getExpire (ks_db ks1) k = Some (expire_of (after_expire env now m k) k, db)" "db_is seed db (after_expire env now m k)"
    using getExpire_ok [OF l(2) k] by blast
  have "ks' = ks1 \<or> ks' = with_db ks1 db"
    using r l(1) g(1) by (auto simp: ttlGenericCommand_def bind_eq_Some_conv split: if_splits)
  then show ?thesis using l(2) g(2) by auto
qed

section \<open>Reachable key spaces\<close>

inductive ks_step :: "'v keyspace \<Rightarrow> 'v keyspace \<Rightarrow> bool" where
  step_read: "sds_short k \<Longrightarrow> lookupKeyRead env now ks k = Some (r, ks') \<Longrightarrow> ks_step ks ks'"
| step_write: "sds_short k \<Longrightarrow> lookupKeyWrite env now ks k = Some (r, ks') \<Longrightarrow> ks_step ks ks'"
| step_set: "sds_short k \<Longrightarrow> dict_room (db_dict (ks_db ks)) a \<Longrightarrow> setKey env now a ks k v = Some ks' \<Longrightarrow> ks_step ks ks'"
| step_del: "\<forall>k \<in> set argv. sds_short k \<Longrightarrow> delCommand env now ks argv = Some (rep, ks') \<Longrightarrow> ks_step ks ks'"
| step_exists: "\<forall>k \<in> set argv. sds_short k \<Longrightarrow> existsCommand env now ks argv = Some (rep, ks') \<Longrightarrow> ks_step ks ks'"
| step_touch: "\<forall>k \<in> set argv. sds_short k \<Longrightarrow> touchCommand env now ks argv = Some (rep, ks') \<Longrightarrow> ks_step ks ks'"
| step_rename: "sds_short src \<Longrightarrow> sds_short dst \<Longrightarrow> db_room (ks_db ks) a \<Longrightarrow> db_room (ks_db ks) b \<Longrightarrow>
    renameGenericCommand env (now, now') (a, b) ks src dst nx = Some (rep, ks') \<Longrightarrow> ks_step ks ks'"
| step_expire: "sds_short k \<Longrightarrow> dict_room (db_expires (ks_db ks)) a \<Longrightarrow>
    expireGenericCommand env (now, now') a ks k param basetime seconds = Some (rep, ks') \<Longrightarrow> ks_step ks ks'"
| step_ttl: "sds_short k \<Longrightarrow> ttlGenericCommand env (now, now') ks k ms = Some (rep, ks') \<Longrightarrow> ks_step ks ks'"
| step_persist: "sds_short k \<Longrightarrow> persistCommand ks k = Some (rep, ks') \<Longrightarrow> ks_step ks ks'"
| step_random: "randomkeyCommand env now ks rnds = Some (rep, ks') \<Longrightarrow> ks_step ks ks'"
| step_flush: "flushdbCommand ks = (rep, ks') \<Longrightarrow> ks_step ks ks'"

definition new_keyspace :: "32 word \<Rightarrow> 'v keyspace" where
  "new_keyspace seed = \<lparr>ks_db = \<lparr>db_dict = dictCreate (dbDictType seed), db_expires = dictCreate (keyptrDictType seed)\<rparr>,
     stat_expiredkeys = 0, stat_keyspace_hits = 0, stat_keyspace_misses = 0, server_dirty = 0, ks_calls = []\<rparr>"

lemma new_keyspace_is: "db_is seed (ks_db (new_keyspace seed)) Map.empty"
  by (simp add: new_keyspace_def new_db)

lemma ks_step_is: "ks_step ks ks' \<Longrightarrow> db_is seed (ks_db ks) m \<Longrightarrow> \<exists>m'. db_is seed (ks_db ks') m'"
proof (induction arbitrary: m rule: ks_step.induct)
  case (step_read k env now ks r ks')
  then show ?case using lookupKeyRead_ok [OF step_read.prems step_read.hyps(1)]
    by (metis lookupKeyRead_def option.inject prod.inject)
next
  case (step_write k env now ks r ks')
  then show ?case using lookupKeyWrite_ok [OF step_write.prems step_write.hyps(1)] by (metis option.inject prod.inject)
next
  case (step_set k ks a env now v ks')
  then show ?case using setKey_ok [OF step_set.prems step_set.hyps(1,2)] by (metis option.inject)
next
  case (step_del argv env now ks rep ks')
  then show ?case using del_loop_ok [OF step_del.prems step_del.hyps(1), of env now 0] by (auto simp: delCommand_def)
next
  case (step_exists argv env now ks rep ks')
  then show ?case using exists_loop_ok [OF step_exists.prems step_exists.hyps(1), of env now 0] by (auto simp: existsCommand_def)
next
  case (step_touch argv env now ks rep ks')
  then show ?case using touch_loop_ok [OF step_touch.prems step_touch.hyps(1), of env now 0] by (auto simp: touchCommand_def)
next
  case (step_rename src dst ks a b env now now' nx rep ks')
  then show ?case using rename_any [OF step_rename.prems step_rename.hyps(1-4), of env now now' nx] by auto
next
  case (step_expire k ks a env now now' param basetime seconds rep ks')
  then show ?case using expire_any [OF step_expire.prems step_expire.hyps(1,2,3)] by blast
next
  case (step_ttl k env now now' ks ms rep ks')
  then show ?case using ttl_any [OF step_ttl.prems step_ttl.hyps(1,2)] by blast
next
  case (step_persist k ks rep ks')
  then show ?case using persist_ok [OF step_persist.prems step_persist.hyps(1)] by (metis option.inject prod.inject)
next
  case (step_random env now ks rnds rep ks')
  then obtain res where "dbRandomKey env now ks rnds = Some (res, ks')" by (auto simp: randomkeyCommand_def bind_eq_Some_conv)
  then show ?case using random_ok [OF step_random.prems] by blast
next
  case (step_flush ks rep ks')
  then show ?case using flushdb_ok(2) [OF step_flush.prems] by auto
qed

lemma ks_reach_is: "ks_step\<^sup>*\<^sup>* (new_keyspace seed) ks \<Longrightarrow> \<exists>m. db_is seed (ks_db ks) m"
  by (induction rule: rtranclp_induct) (use new_keyspace_is ks_step_is in blast)+

section \<open>Properties\<close>

lemma ks_map_is: "db_inv seed db \<Longrightarrow> db_is seed db (ks_map db)"
  by (simp add: db_is_def)

lemma db_is_map: "db_is seed db m \<Longrightarrow> db_inv seed db \<and> ks_map db = m"
  by (simp add: db_is_def)

text \<open>There is room for another entry unless there are very many keys.\<close>

lemma key_map_length: "distinct (map fst (key_pairs den d)) \<Longrightarrow> length (dict_entries d) = card (dom (key_map den d))"
proof -
  assume "distinct (map fst (key_pairs den d))"
  then have "card (set (map fst (key_pairs den d))) = length (map fst (key_pairs den d))" by (rule distinct_card)
  then show ?thesis by (simp add: key_map_def key_pairs_def dom_map_of_conv_image_fst image_image)
qed

lemma exists_room:
  assumes a: "db_is seed db m" and c: "card (dom m) + 1 < 2 ^ 30" and f: "finite (dom m)"
  shows "\<exists>x. db_room db x"
proof -
  have l: "length (dict_entries (db_dict db)) = card (dom (sds_map (db_dict db)))"
    "length (dict_entries (db_expires db)) = card (dom (sds_map (db_expires db)))"
    by (rule key_map_length [OF keysd.texts_distinct [OF db_isD(1) [OF a]]], rule key_map_length [OF expd.texts_distinct [OF db_isD(2) [OF a]]])
  have dm: "dom (sds_map (db_dict db)) = dom m" using db_val [OF a] by (auto simp: dom_def)
  have "card (dom (sds_map (db_expires db))) \<le> card (dom m)" using card_mono [OF f] db_isD(3) [OF a] dm by simp
  moreover have "\<exists>x. x \<notin> de_addr ` set (dict_entries (db_dict db)) \<union> de_addr ` set (dict_entries (db_expires db))"
    by (rule ex_new_if_finite) simp_all
  ultimately show ?thesis using l dm c by (auto simp: db_room_def dict_room_def)
qed

text \<open>A key space with one key, for examples.\<close>

definition example_env :: "bool \<Rightarrow> nat db_env" where
  "example_env replica = \<lparr>e_loading = False, e_masterhost = replica, e_readonly = True, e_can_resize = True, e_is_list = (\<lambda>_. False)\<rparr>"

definition example_step :: "nat keyspace option" where
  "example_step = do {
     ks \<leftarrow> dbAdd (example_env False) 0 (new_keyspace 5) (lit ''k'') 7;
     db \<leftarrow> setExpire (example_env False) 0 (ks_db ks) (lit ''k'') 100;
     Some (with_db ks db)
   }"

lemma example_key [simp]: "sds_short (lit ''k'')" "sds_short (lit ''l'')"
  by (simp_all add: sds_short_def lit_def)

lemma new_room [simp]: "db_room (ks_db (new_keyspace seed)) a"
  by (simp add: db_room_def dict_room_def new_keyspace_def dictCreate_def dictReset_def dict_entries_def)

text \<open>C9. A key space reached from the empty one by any sequence of reads, writes and commands keeps both
  dictionaries well formed and an expire time only for keys that exist; so no assertion of the
  lookups and deletions can fail in it, and the size reported is the number of keys.\<close>

theorem keyspace_invariant:
  assumes "ks_step\<^sup>*\<^sup>* (new_keyspace seed) ks" and "sds_short k"
  shows "db_inv seed (ks_db ks) \<and> dom (sds_map (db_expires (ks_db ks))) \<subseteq> dom (sds_map (db_dict (ks_db ks))) \<and>
    dbsizeCommand ks = ReplyInt (int (card (dom (ks_map (ks_db ks))))) \<and>
    lookupKeyRead env now ks k \<noteq> None \<and> lookupKeyWrite env now ks k \<noteq> None \<and> dbDelete (ks_db ks) k \<noteq> None"
proof -
  obtain m where m: "db_is seed (ks_db ks) m" using ks_reach_is [OF assms(1)] by blast
  have "dom (sds_map (db_dict (ks_db ks))) = dom (ks_map (ks_db ks))" by (auto simp: ks_map_def)
  then have "dictSize (db_dict (ks_db ks)) = card (dom (ks_map (ks_db ks)))"
    using keysd.size_text [OF db_isD(1) [OF m]] by simp
  moreover obtain ks1 where "lookupKeyReadWithFlags env now ks k = Some (read_val env now m k, ks1)"
    by (rule lookupKeyRead_ok [OF m assms(2)])
  moreover obtain ks2 where "lookupKeyWrite env now ks k = Some (map_option fst (after_expire env now m k k), ks2)"
    by (rule lookupKeyWrite_ok [OF m assms(2)])
  moreover have "dbDelete (ks_db ks) k \<noteq> None" using dbDelete_ok [OF m assms(2)] by auto
  ultimately show ?thesis using db_is_map [OF m] db_isD(3) [OF m] by (simp add: dbsizeCommand_def lookupKeyRead_def)
qed

theorem keyspace_invariant_witness:
  "\<exists>ks. setKey (example_env False) 50 0 (new_keyspace 5) (lit ''k'') 7 = Some ks \<and> dom (ks_map (ks_db ks)) = {lit ''k''} \<and>
     dbsizeCommand ks = ReplyInt 1"
proof -
  have r: "dict_room (db_dict (ks_db (new_keyspace 5 :: nat keyspace))) 0" by (rule new_room [unfolded db_room_def, THEN conjunct1])
  obtain ks where s: "setKey (example_env False) 50 0 (new_keyspace 5) (lit ''k'') 7 = Some ks" "db_is 5 (ks_db ks) (Map.empty(lit ''k'' \<mapsto> (7, None)))"
    by (rule setKey_ok [OF new_keyspace_is example_key(1) r])
  have "ks_step\<^sup>*\<^sup>* (new_keyspace 5) ks" using ks_step.step_set [OF example_key(1) r s(1)] by blast
  from keyspace_invariant [OF this example_key(1), of "example_env False" 0] s db_is_map [OF s(2)] show ?thesis by auto
qed

text \<open>C23. An expired key. On a master both kinds of lookup report it missing, remove it with its expire time
  and leave every other key, and propagate the deletion and notify once: a second lookup finds
  nothing to do. On a replica nothing is removed or propagated; a read by a client still reports it
  missing, while a write lookup sees the value until the master sends the deletion.\<close>

theorem expired_keys:
  assumes "db_inv seed (ks_db ks)" and "sds_short k" and "ks_map (ks_db ks) k = Some (v, Some t)"
    and "0 \<le> t" "t < now" and "\<not> e_loading env" and "e_readonly env"
  shows "\<exists>ks1 ks2 ks3. lookupKeyRead env now ks k = Some (None, ks1) \<and>
    lookupKeyWrite env now ks k = Some (if e_masterhost env then Some v else None, ks2) \<and>
    ks_map (ks_db ks1) = (if e_masterhost env then ks_map (ks_db ks) else (ks_map (ks_db ks))(k := None)) \<and>
    ks_map (ks_db ks2) = ks_map (ks_db ks1) \<and> db_inv seed (ks_db ks1) \<and> db_inv seed (ks_db ks2) \<and>
    ks_calls ks1 = ks_calls ks @ (if e_masterhost env then [] else [PropagateExpire k, NotifyKeyspaceEvent ''expired'' k]) \<and>
    ks_calls ks2 = ks_calls ks1 \<and> server_dirty ks1 = server_dirty ks \<and>
    lookupKeyRead env now ks1 k = Some (None, ks3) \<and> ks_calls ks3 = ks_calls ks1"
proof -
  let ?m = "ks_map (ks_db ks)"
  have x: "expired env now ?m k" using assms(3-6) by (simp add: expired_def expire_of_def)
  have rv: "read_val env now ?m k = None" using x assms(7) by (simp add: read_val_def)
  have ae: "after_expire env now ?m k = (if e_masterhost env then ?m else ?m(k := None))" using x by (simp add: after_expire_def)
  have ec: "expire_calls env now ?m k = (if e_masterhost env then [] else [PropagateExpire k, NotifyKeyspaceEvent ''expired'' k])"
    using x by (simp add: expire_calls_def)
  obtain ks1 where r: "lookupKeyReadWithFlags env now ks k = Some (None, ks1)" "db_is seed (ks_db ks1) (after_expire env now ?m k)"
    "ks_calls ks1 = ks_calls ks @ expire_calls env now ?m k" "server_dirty ks1 = server_dirty ks"
    using lookupKeyRead_ok [OF ks_map_is [OF assms(1)] assms(2), of env now] unfolding rv by blast
  obtain ks2 where w: "lookupKeyWrite env now ks k = Some (map_option fst (after_expire env now ?m k k), ks2)"
    "db_is seed (ks_db ks2) (after_expire env now ?m k)" "ks_calls ks2 = ks_calls ks @ expire_calls env now ?m k"
    by (rule lookupKeyWrite_ok [OF ks_map_is [OF assms(1)] assms(2)])
  have "read_val env now (after_expire env now ?m k) k = None \<and> expire_calls env now (after_expire env now ?m k) k = []"
    using rv unfolding ae by (cases "e_masterhost env") (simp_all add: expire_calls_def read_val_def)
  then obtain ks3 where r3: "lookupKeyReadWithFlags env now ks1 k = Some (None, ks3)" "ks_calls ks3 = ks_calls ks1"
    using lookupKeyRead_ok [OF r(2) assms(2), of env now] by (metis append_Nil2)
  have wv: "map_option fst (after_expire env now ?m k k) = (if e_masterhost env then Some v else None)" using assms(3) by (simp add: ae)
  have "lookupKeyRead env now ks k = Some (None, ks1) \<and>
    lookupKeyWrite env now ks k = Some (if e_masterhost env then Some v else None, ks2) \<and>
    ks_map (ks_db ks1) = (if e_masterhost env then ?m else ?m(k := None)) \<and>
    ks_map (ks_db ks2) = ks_map (ks_db ks1) \<and> db_inv seed (ks_db ks1) \<and> db_inv seed (ks_db ks2) \<and>
    ks_calls ks1 = ks_calls ks @ (if e_masterhost env then [] else [PropagateExpire k, NotifyKeyspaceEvent ''expired'' k]) \<and>
    ks_calls ks2 = ks_calls ks1 \<and> server_dirty ks1 = server_dirty ks \<and>
    lookupKeyRead env now ks1 k = Some (None, ks3) \<and> ks_calls ks3 = ks_calls ks1"
    using r w(1,3) r3 db_is_map [OF r(2)] db_is_map [OF w(2)] unfolding lookupKeyRead_def wv [symmetric] ec [symmetric] ae [symmetric] by simp
  then show ?thesis by (intro exI)
qed

lemma example_reached:
  obtains ks x where "example_step = Some ks" "db_is 5 (ks_db ks) [lit ''k'' \<mapsto> (7, Some 100)]" "db_room (ks_db ks) x"
proof -
  have r: "dict_room (db_dict (ks_db (new_keyspace 5 :: nat keyspace))) 0" "dict_room (db_expires (ks_db (new_keyspace 5 :: nat keyspace))) 0"
    by (rule new_room [unfolded db_room_def, THEN conjunct1], rule new_room [unfolded db_room_def, THEN conjunct2])
  obtain ks where s: "dbAdd (example_env False) 0 (new_keyspace 5) (lit ''k'') 7 = Some ks"
      "db_is 5 (ks_db ks) [lit ''k'' \<mapsto> (7, None)]" "db_expires (ks_db ks) = db_expires (ks_db (new_keyspace 5 :: nat keyspace))"
    by (rule dbAdd_ok [OF new_keyspace_is example_key(1) _ r(1)]) simp
  have "dict_room (db_expires (ks_db ks)) 0" using r(2) s(3) by simp
  moreover have "[lit ''k'' \<mapsto> (7, None)] (lit ''k'') = Some (7, None)" by simp
  ultimately obtain db where "setExpire (example_env False) 0 (ks_db ks) (lit ''k'') 100 = Some db" "db_is 5 db [lit ''k'' \<mapsto> (7, Some 100)]"
    using setExpire_ok [OF s(2) example_key(1)] by fastforce
  then have "example_step = Some (with_db ks db)" "db_is 5 (ks_db (with_db ks db)) [lit ''k'' \<mapsto> (7, Some 100)]"
    using s(1) by (simp_all add: example_step_def)
  moreover from exists_room [OF this(2)] have "\<exists>x. db_room (ks_db (with_db ks db)) x" by simp
  ultimately show ?thesis using that by blast
qed

theorem expired_keys_witness:
  "\<exists>ks ks1 ks2. example_step = Some ks \<and> lookupKeyRead (example_env False) 200 ks (lit ''k'') = Some (None, ks1) \<and>
    ks_map (ks_db ks1) (lit ''k'') = None \<and> lookupKeyWrite (example_env True) 200 ks (lit ''k'') = Some (Some 7, ks2)"
proof -
  obtain ks where e: "example_step = Some ks" "db_is 5 (ks_db ks) [lit ''k'' \<mapsto> (7, Some 100)]" by (rule example_reached)
  have i: "db_inv 5 (ks_db ks)" "ks_map (ks_db ks) (lit ''k'') = Some (7, Some 100)" using db_is_map [OF e(2)] by simp_all
  have v: "\<not> e_loading (example_env b)" "e_readonly (example_env b)" "e_masterhost (example_env b) = b" for b by (simp_all add: example_env_def)
  from expired_keys [OF i(1) example_key(1) i(2) _ _ v(1) [of False] v(2), of 200]
    expired_keys [OF i(1) example_key(1) i(2) _ _ v(1) [of True] v(2), of 200] e(1)
  show ?thesis by (auto simp: v(3))
qed

text \<open>C24. Setting a key stores the value whether or not the key existed or had expired, removes its expire
  time and keeps every other key with its value and expire time; a read at any later time gives the
  value.\<close>

theorem setKey_correct:
  assumes "db_inv seed (ks_db ks)" and "sds_short k" and "dict_room (db_dict (ks_db ks)) a"
  shows "\<exists>ks1 ks2. setKey env now a ks k v = Some ks1 \<and> db_inv seed (ks_db ks1) \<and> ks_map (ks_db ks1) = (ks_map (ks_db ks))(k \<mapsto> (v, None)) \<and>
    lookupKeyRead env now' ks1 k = Some (Some v, ks2) \<and> ks_map (ks_db ks2) = ks_map (ks_db ks1)"
proof -
  let ?m = "(ks_map (ks_db ks))(k \<mapsto> (v, None))"
  obtain ks1 where s: "setKey env now a ks k v = Some ks1" "db_is seed (ks_db ks1) ?m"
    by (rule setKey_ok [OF ks_map_is [OF assms(1)] assms(2,3)])
  have "\<not> expired env now' ?m k" by (simp add: expired_def expire_of_def)
  then have "read_val env now' ?m k = Some v" "after_expire env now' ?m k = ?m" by (simp_all add: read_val_def after_expire_def)
  then obtain ks2 where "lookupKeyReadWithFlags env now' ks1 k = Some (Some v, ks2)" "db_is seed (ks_db ks2) ?m"
    using lookupKeyRead_ok [OF s(2) assms(2), of env now'] by metis
  then show ?thesis using s db_is_map by (metis lookupKeyRead_def)
qed

theorem setKey_correct_witness:
  "\<exists>ks1 ks2. setKey (example_env False) 50 0 (new_keyspace 5) (lit ''k'') 7 = Some ks1 \<and>
    lookupKeyRead (example_env False) 900 ks1 (lit ''k'') = Some (Some 7, ks2)"
proof -
  have r: "dict_room (db_dict (ks_db (new_keyspace 5 :: nat keyspace))) 0" by (rule new_room [unfolded db_room_def, THEN conjunct1])
  have i: "db_inv 5 (ks_db (new_keyspace 5 :: nat keyspace))" using db_is_map [OF new_keyspace_is] by blast
  from setKey_correct [OF i example_key(1) r, of "example_env False" 50 7 900] show ?thesis by blast
qed

text \<open>Renaming on the mapping: the reply and the mapping after it.\<close>

definition rename_ref :: "'v db_env \<Rightarrow> int \<Rightarrow> int \<Rightarrow> (bytes \<Rightarrow> ('v \<times> int option) option) \<Rightarrow> bytes \<Rightarrow> bytes \<Rightarrow> bool \<Rightarrow>
    reply \<times> (bytes \<Rightarrow> ('v \<times> int option) option)" where
  "rename_ref env now now' m src dst nx =
     (if after_expire env now m src src = None then (ReplyError ''no such key'', m(src := None))
      else if src = dst then (if nx then ReplyInt 0 else ReplyOk, m)
      else if nx \<and> after_expire env now' m dst dst \<noteq> None then (ReplyInt 0, m)
      else (if nx then ReplyInt 1 else ReplyOk, m(dst := map_option (\<lambda>(v, t). (v, keep_time t)) (m src), src := None)))"

lemma rename_refines:
  assumes a: "db_is seed (ks_db ks) m" and s: "sds_short src" "sds_short dst" and room: "db_room (ks_db ks) x" "db_room (ks_db ks) y"
  obtains ks' where "renameGenericCommand env (now, now') (x, y) ks src dst nx = Some (fst (rename_ref env now now' m src dst nx), ks')"
    "db_is seed (ks_db ks') (snd (rename_ref env now now' m src dst nx))"
proof (cases "after_expire env now m src src")
  case None
  obtain ks' where r: "renameGenericCommand env (now, now') (x, y) ks src dst nx = Some (ReplyError ''no such key'', ks')"
    "db_is seed (ks_db ks') (after_expire env now m src)" by (rule rename_missing [OF a s(1) None])
  have "after_expire env now m src = m(src := None)" using None by (auto simp: after_expire_def split: if_splits)
  then show ?thesis using that [of ks'] r None by (simp add: rename_ref_def)
next
  case (Some p)
  obtain v t where p: "p = (v, t)" by (cases p)
  have m: "m src = Some (v, t)" using Some p by (auto simp: after_expire_def split: if_splits)
  have ne: "after_expire env now m src src \<noteq> None" using Some by simp
  consider (same) "src = dst" | (taken) "src \<noteq> dst" "nx" "after_expire env now' m dst dst \<noteq> None"
    | (ok) "src \<noteq> dst" "nx \<longrightarrow> after_expire env now' m dst dst = None" by metis
  then show ?thesis
  proof cases
    case same
    obtain ks' where "renameGenericCommand env (now, now') (x, y) ks src src nx = Some (if nx then ReplyInt 0 else ReplyOk, ks')"
      "db_is seed (ks_db ks') m" by (rule rename_same [OF a s(1) ne])
    then show ?thesis using that [of ks'] Some same by (simp add: rename_ref_def)
  next
    case taken
    obtain ks' where "renameGenericCommand env (now, now') (x, y) ks src dst True = Some (ReplyInt 0, ks')" "db_is seed (ks_db ks') m"
      by (rule rename_taken [OF a s taken(1) ne taken(3)])
    then show ?thesis using that [of ks'] Some taken by (simp add: rename_ref_def)
  next
    case ok
    obtain ks' where r: "renameGenericCommand env (now, now') (x, y) ks src dst nx = Some (if nx then ReplyInt 1 else ReplyOk, ks')"
      "db_is seed (ks_db ks') (m(dst \<mapsto> (v, keep_time t), src := None))"
      using rename_ok [OF a s ok(1) room Some [unfolded p] ok(2)] by blast
    have "\<not> (nx \<and> after_expire env now' m dst dst \<noteq> None)" using ok(2) by metis
    then have "rename_ref env now now' m src dst nx = (if nx then ReplyInt 1 else ReplyOk, m(dst \<mapsto> (v, keep_time t), src := None))"
      using ok(1) ne m by (simp add: rename_ref_def del: not_None_eq)
    then show ?thesis using that [of ks'] r by simp
  qed
qed

text \<open>C22. Renaming refines its specification on the mapping. A source that is missing or expired gives an
  error; the same name twice changes nothing; with \<open>nx\<close> an existing destination is left alone;
  otherwise the destination has the value and the expire time of the source, the source is gone, and
  every other key is as it was.\<close>

theorem rename_correct:
  assumes "db_inv seed (ks_db ks)" and "sds_short src" "sds_short dst" and "db_room (ks_db ks) x" "db_room (ks_db ks) y"
  shows "\<exists>ks'. renameGenericCommand env (now, now') (x, y) ks src dst nx =
      Some (fst (rename_ref env now now' (ks_map (ks_db ks)) src dst nx), ks') \<and>
    db_inv seed (ks_db ks') \<and> ks_map (ks_db ks') = snd (rename_ref env now now' (ks_map (ks_db ks)) src dst nx)"
proof -
  let ?ref = "rename_ref env now now' (ks_map (ks_db ks)) src dst nx"
  obtain ks' where r: "renameGenericCommand env (now, now') (x, y) ks src dst nx = Some (fst ?ref, ks')" "db_is seed (ks_db ks') (snd ?ref)"
    by (rule rename_refines [OF ks_map_is [OF assms(1)] assms(2-5)])
  then show ?thesis using db_is_map [OF r(2)] by (intro exI [of _ ks'] conjI) simp_all
qed

lemma example_rename:
  "rename_ref (example_env False) 50 50 [lit ''k'' \<mapsto> (7, Some 100)] (lit ''k'') (lit ''l'') False = (ReplyOk, [lit ''l'' \<mapsto> (7, Some 100)])"
proof -
  have n: "lit ''k'' \<noteq> lit ''l''" by (simp add: lit_def)
  have "after_expire (example_env False) 50 [lit ''k'' \<mapsto> (7, Some 100)] (lit ''k'') = [lit ''k'' \<mapsto> (7, Some 100)]"
    by (simp add: after_expire_def expired_def expire_of_def)
  moreover have "[lit ''k'' \<mapsto> (7 :: nat, Some 100), lit ''l'' \<mapsto> (7, Some 100)](lit ''k'' := None) = [lit ''l'' \<mapsto> (7, Some 100)]"
    using n by (auto simp: fun_eq_iff)
  ultimately show ?thesis using n by (simp add: rename_ref_def keep_time_def)
qed

theorem rename_correct_witness:
  "\<exists>ks x ks'. example_step = Some ks \<and> renameGenericCommand (example_env False) (50, 50) (x, x) ks (lit ''k'') (lit ''l'') False = Some (ReplyOk, ks') \<and>
     ks_map (ks_db ks') = [lit ''l'' \<mapsto> (7, Some 100)]"
proof -
  obtain ks x where e: "example_step = Some ks" "db_is 5 (ks_db ks) [lit ''k'' \<mapsto> (7, Some 100)]" "db_room (ks_db ks) x" by (rule example_reached)
  have i: "db_inv 5 (ks_db ks)" "ks_map (ks_db ks) = [lit ''k'' \<mapsto> (7, Some 100)]" using db_is_map [OF e(2)] by simp_all
  from rename_correct [OF i(1) example_key e(3,3), of "example_env False" 50 50 False] show ?thesis
    unfolding i(2) example_rename using e(1) by auto
qed

text \<open>Expire times. For a key that exists, \<open>EXPIRE\<close> and its variants reply 1 and, when the time asked for is
  still to come, record it: until then \<open>PTTL\<close> replies the milliseconds left and \<open>TTL\<close> the seconds,
  rounded to the nearest, and the value is read as before. After that time, on a master, the key is
  gone and the reply is -2. A time that has passed deletes the key at once.\<close>

theorem expire_ttl:
  assumes "db_inv seed (ks_db ks)" and "sds_short k" and "dict_room (db_expires (ks_db ks)) x" and "\<not> e_loading env" "\<not> e_masterhost env"
    and "ks_map (ks_db ks) k = Some (v, t)" and "\<not> expired env now (ks_map (ks_db ks)) k"
    and "expire_when param basetime seconds = Some w" and "0 \<le> w" "w + 500 < 2 ^ 63" and "0 \<le> now'"
  shows "\<exists>ks1. expireGenericCommand env (now, now') x ks k param basetime seconds = Some (ReplyInt 1, ks1) \<and> db_inv seed (ks_db ks1) \<and>
    (if w \<le> now' then ks_map (ks_db ks1) = (ks_map (ks_db ks))(k := None)
     else ks_map (ks_db ks1) = (ks_map (ks_db ks))(k \<mapsto> (v, Some w)) \<and>
       (\<forall>u ms. 0 \<le> u \<longrightarrow> (\<exists>ks2. ttlGenericCommand env (u, u) ks1 k ms =
          Some (ReplyInt (if u > w then -2 else if ms then w - u else (w - u + 500) div 1000), ks2) \<and>
          ks_map (ks_db ks2) = (if u > w then (ks_map (ks_db ks))(k := None) else ks_map (ks_db ks1)))))"
proof -
  let ?m = "ks_map (ks_db ks)"
  have e: "after_expire env now ?m k k = Some (v, t)" using assms(6,7) by (simp add: after_expire_def)
  obtain ks1 where x: "expireGenericCommand env (now, now') x ks k param basetime seconds = Some (ReplyInt 1, ks1)"
     "db_is seed (ks_db ks1) (if w \<le> now' \<and> \<not> e_loading env \<and> \<not> e_masterhost env then ?m(k := None) else ?m(k \<mapsto> (v, Some w)))"
    by (rule expire_ok [OF ks_map_is [OF assms(1)] assms(2,3,8) e])
  show ?thesis
  proof (cases "w \<le> now'")
    case True
    then show ?thesis using x db_is_map [OF x(2)] assms(4,5) by simp
  next
    case False
    let ?m1 = "?m(k \<mapsto> (v, Some w))"
    have d1: "db_is seed (ks_db ks1) ?m1" using x(2) False by simp
    have m1: "ks_map (ks_db ks1) = ?m1" using db_is_map [OF d1] by simp
    have "\<exists>ks2. ttlGenericCommand env (u, u) ks1 k ms =
          Some (ReplyInt (if u > w then -2 else if ms then w - u else (w - u + 500) div 1000), ks2) \<and>
          ks_map (ks_db ks2) = (if u > w then ?m(k := None) else ks_map (ks_db ks1))" if u: "0 \<le> u" for u ms
    proof (cases "u > w")
      case gone: True
      then have ex: "expired env u ?m1 k" using assms(4,9) by (simp add: expired_def expire_of_def)
      then have "read_val env u ?m1 k = None" "after_expire env u ?m1 k = ?m(k := None)" using assms(5) by (simp_all add: read_val_def after_expire_def)
      then obtain ks2 where "ttlGenericCommand env (u, u) ks1 k ms = Some (ReplyInt (-2), ks2)" "db_is seed (ks_db ks2) (?m(k := None))"
        using ttl_missing [OF d1 assms(2), of env u u ms] by metis
      then show ?thesis using gone db_is_map unfolding m1 by auto
    next
      case left: False
      have ex: "expire_of ?m1 k = w" "\<not> expired env u ?m1 k" using left by (simp_all add: expired_def expire_of_def)
      have rv: "read_val env u ?m1 k = Some v" using ex(2) by (simp add: read_val_def)
      have fits: "int64 (expire_of ?m1 k - u + 500)" "int64 (expire_of ?m1 k - u)" using u left assms(9,10) unfolding ex(1) by (simp_all add: int64_def)
      have reply: "ttl_reply ms w u = (if ms then w - u else (w - u + 500) div 1000)" using left assms(9) by (simp add: ttl_reply_def)
      obtain ks2 where "ttlGenericCommand env (u, u) ks1 k ms = Some (ReplyInt (ttl_reply ms (expire_of ?m1 k) u), ks2)" "db_is seed (ks_db ks2) ?m1"
        by (rule ttl_ok [OF d1 assms(2) rv fits])
      then show ?thesis using left db_is_map unfolding ex(1) reply m1 by auto
    qed
    then show ?thesis using x(1) db_is_map [OF d1] unfolding if_not_P [OF False] by blast
  qed
qed

lemma example_when: "expire_when (ObjInt 300) 0 False = Some 300"
  by (simp add: expire_when_def getLongLongFromObject_def ll_op_def int64_def)

theorem expire_ttl_witness:
  "\<exists>ks x ks1 ks2. example_step = Some ks \<and>
     expireGenericCommand (example_env False) (50, 50) x ks (lit ''k'') (ObjInt 300) 0 False = Some (ReplyInt 1, ks1) \<and>
     ttlGenericCommand (example_env False) (120, 120) ks1 (lit ''k'') True = Some (ReplyInt 180, ks2)"
proof -
  obtain ks x where e: "example_step = Some ks" "db_is 5 (ks_db ks) [lit ''k'' \<mapsto> (7, Some 100)]" "db_room (ks_db ks) x" by (rule example_reached)
  have i: "db_inv 5 (ks_db ks)" "ks_map (ks_db ks) (lit ''k'') = Some (7, Some 100)" using db_is_map [OF e(2)] by simp_all
  have r: "dict_room (db_expires (ks_db ks)) x" using e(3) by (simp add: db_room_def)
  have v: "\<not> e_loading (example_env False)" "\<not> e_masterhost (example_env False)" by (simp_all add: example_env_def)
  have n: "\<not> expired (example_env False) 50 (ks_map (ks_db ks)) (lit ''k'')" using i(2) by (simp add: expired_def expire_of_def)
  from expire_ttl [OF i(1) example_key(1) r v i(2) n example_when, of 50] obtain ks1 where
    x: "expireGenericCommand (example_env False) (50, 50) x ks (lit ''k'') (ObjInt 300) 0 False = Some (ReplyInt 1, ks1)"
    and t: "\<forall>u ms. 0 \<le> u \<longrightarrow> (\<exists>ks2. ttlGenericCommand (example_env False) (u, u) ks1 (lit ''k'') ms =
          Some (ReplyInt (if u > 300 then -2 else if ms then 300 - u else (300 - u + 500) div 1000), ks2) \<and>
          ks_map (ks_db ks2) = (if u > 300 then (ks_map (ks_db ks))(lit ''k'' := None) else ks_map (ks_db ks1)))" by auto
  from t [rule_format, of 120 True] x e(1) show ?thesis by auto
qed

text \<open>\<open>PERSIST\<close> does not look at the time: a key whose expire time has passed but which has not been looked up
  since is made permanent, with reply 1, and can be read again at every later time, although every
  reading command would have reported it missing.\<close>

theorem persist_revives:
  assumes "db_inv seed (ks_db ks)" and "sds_short k" and "ks_map (ks_db ks) k = Some (v, Some t)"
    and "0 \<le> t" "t < now" and "\<not> e_loading env" "\<not> e_masterhost env"
  shows "\<exists>ks0 ks1 ks2. lookupKeyRead env now ks k = Some (None, ks0) \<and>
    persistCommand ks k = Some (ReplyInt 1, ks1) \<and> ks_map (ks_db ks1) = (ks_map (ks_db ks))(k \<mapsto> (v, None)) \<and>
    lookupKeyRead env now' ks1 k = Some (Some v, ks2)"
proof -
  let ?m = "ks_map (ks_db ks)"
  have "expired env now ?m k" using assms(3-6) by (simp add: expired_def expire_of_def)
  then have rv: "read_val env now ?m k = None" using assms(7) by (simp add: read_val_def)
  obtain ks0 where r0: "lookupKeyReadWithFlags env now ks k = Some (None, ks0)"
    using lookupKeyRead_ok [OF ks_map_is [OF assms(1)] assms(2), of env now] unfolding rv by blast
  obtain ks1 where p: "persistCommand ks k = Some (ReplyInt 1, ks1)" "db_is seed (ks_db ks1) (?m(k \<mapsto> (v, None)))"
    using persist_ok [OF ks_map_is [OF assms(1)] assms(2)] unfolding assms(3) by auto
  have rv1: "read_val env now' (?m(k \<mapsto> (v, None))) k = Some v" by (simp add: read_val_def expired_def expire_of_def)
  obtain ks2 where "lookupKeyReadWithFlags env now' ks1 k = Some (Some v, ks2)"
    using lookupKeyRead_ok [OF p(2) assms(2), of env now'] unfolding rv1 by blast
  then show ?thesis using r0 p(1) db_is_map [OF p(2)] unfolding lookupKeyRead_def by blast
qed

theorem persist_revives_witness:
  "\<exists>ks ks1 ks2. example_step = Some ks \<and> persistCommand ks (lit ''k'') = Some (ReplyInt 1, ks1) \<and>
     lookupKeyRead (example_env False) 900 ks1 (lit ''k'') = Some (Some 7, ks2)"
proof -
  obtain ks x where e: "example_step = Some ks" "db_is 5 (ks_db ks) [lit ''k'' \<mapsto> (7, Some 100)]" "db_room (ks_db ks) x" by (rule example_reached)
  have i: "db_inv 5 (ks_db ks)" "ks_map (ks_db ks) (lit ''k'') = Some (7, Some 100)" using db_is_map [OF e(2)] by simp_all
  have v: "\<not> e_loading (example_env False)" "\<not> e_masterhost (example_env False)" by (simp_all add: example_env_def)
  from persist_revives [OF i(1) example_key(1) i(2) _ _ v, of 200 900] e(1) show ?thesis by auto
qed

text \<open>A random key is one that exists and has not expired; expired keys drawn before are removed on a master,
  and no key is reported only when none is left. On a replica expired keys stay, so when every key
  has expired the loop draws again without end, whatever the random numbers: the server hangs.\<close>

theorem random_key:
  assumes "db_inv seed (ks_db ks)" and "m = ks_map (ks_db ks)"
  shows "(dbRandomKey env now ks rnds = Some (r, ks') \<longrightarrow> db_inv seed (ks_db ks') \<and> purged env now m (ks_map (ks_db ks')) \<and>
      (case r of None \<Rightarrow> ks_map (ks_db ks') = Map.empty
       | Some k \<Rightarrow> ks_map (ks_db ks') k = m k \<and> m k \<noteq> None \<and> \<not> expired env now m k)) \<and>
    (e_masterhost env \<and> m \<noteq> Map.empty \<and> (\<forall>k \<in> dom m. expired env now m k) \<longrightarrow> dbRandomKey env now ks rnds = None)"
proof (intro conjI impI)
  have a: "db_is seed (ks_db ks) m" using ks_map_is [OF assms(1)] assms(2) by simp
  assume "dbRandomKey env now ks rnds = Some (r, ks')"
  from random_ok [OF a this] obtain m' where m': "db_is seed (ks_db ks') m'" "purged env now m m'"
    "case r of None \<Rightarrow> m' = Map.empty | Some k \<Rightarrow> m' k \<noteq> None \<and> \<not> expired env now m' k" by blast
  have eq: "ks_map (ks_db ks') = m'" "db_inv seed (ks_db ks')" using db_is_map [OF m'(1)] by simp_all
  have same: "m' k = m k" if "m' k \<noteq> None" for k using m'(2) that unfolding purged_def by metis
  have "case r of None \<Rightarrow> m' = Map.empty | Some k \<Rightarrow> m' k = m k \<and> m k \<noteq> None \<and> \<not> expired env now m k"
  proof (cases r)
    case (Some k)
    then have k: "m' k \<noteq> None" "\<not> expired env now m' k" using m'(3) by simp_all
    then have "expired env now m k = expired env now m' k" using same [OF k(1)] by (simp add: expired_def expire_of_def)
    then show ?thesis using Some k same [OF k(1)] by simp
  qed (use m'(3) in simp)
  then show "db_inv seed (ks_db ks')" "purged env now m (ks_map (ks_db ks'))" "case r of None \<Rightarrow> ks_map (ks_db ks') = Map.empty
       | Some k \<Rightarrow> ks_map (ks_db ks') k = m k \<and> m k \<noteq> None \<and> \<not> expired env now m k"
    unfolding eq(1) using eq(2) m'(2) by blast+
next
  have a: "db_is seed (ks_db ks) m" using ks_map_is [OF assms(1)] assms(2) by simp
  assume "e_masterhost env \<and> m \<noteq> Map.empty \<and> (\<forall>k \<in> dom m. expired env now m k)"
  then show "dbRandomKey env now ks rnds = None" by (intro random_stuck [OF a]) simp_all
qed

theorem random_key_witness:
  "\<exists>ks. example_step = Some ks \<and> dbRandomKey (example_env True) 200 ks (replicate 1000 [3, 4]) = None"
proof -
  obtain ks x where e: "example_step = Some ks" "db_is 5 (ks_db ks) [lit ''k'' \<mapsto> (7, Some 100)]" "db_room (ks_db ks) x" by (rule example_reached)
  have i: "db_inv 5 (ks_db ks)" "[lit ''k'' \<mapsto> (7, Some 100)] = ks_map (ks_db ks)" using db_is_map [OF e(2)] by simp_all
  have "e_masterhost (example_env True)" "\<forall>k \<in> dom [lit ''k'' \<mapsto> (7, Some 100)]. expired (example_env True) 200 [lit ''k'' \<mapsto> (7, Some 100)] k"
    by (simp_all add: example_env_def expired_def expire_of_def)
  with random_key [OF i, of "example_env True" 200 "replicate 1000 [3, 4]" None ks] e(1) show ?thesis by auto
qed

text \<open>\<open>DEL\<close> replies how many of its keys existed and had not expired, each counted once however often it is
  named, and removes exactly the keys it names; \<open>EXISTS\<close> counts a key as often as it is named.\<close>

theorem del_exists:
  assumes "db_inv seed (ks_db ks)" and "\<forall>k \<in> set argv. sds_short k"
  shows "\<exists>ks1 ks2 ks3. delCommand env now ks argv =
      Some (ReplyInt (int (card {k \<in> set argv. after_expire env now (ks_map (ks_db ks)) k k \<noteq> None})), ks1) \<and>
    db_inv seed (ks_db ks1) \<and> ks_map (ks_db ks1) = ks_map (ks_db ks) |` (- set argv) \<and>
    existsCommand env now ks argv =
      Some (ReplyInt (int (length (filter (\<lambda>k. after_expire env now (ks_map (ks_db ks)) k k \<noteq> None) argv))), ks2) \<and>
    existsCommand env now ks1 argv = Some (ReplyInt 0, ks3)"
proof -
  let ?m = "ks_map (ks_db ks)"
  have a: "db_is seed (ks_db ks) ?m" by (rule ks_map_is [OF assms(1)])
  obtain ks1 where d: "del_loop env now ks argv 0 = Some (0 + card {k \<in> set argv. after_expire env now ?m k k \<noteq> None}, ks1)"
    "db_is seed (ks_db ks1) (?m |` (- set argv))" using del_loop_ok [OF a assms(2)] by blast
  obtain ks2 where e: "exists_loop env now ks argv 0 = Some (0 + length (filter (\<lambda>k. after_expire env now ?m k k \<noteq> None) argv), ks2)"
    using exists_loop_ok [OF a assms(2)] by blast
  have z: "filter (\<lambda>k. after_expire env now (?m |` (- set argv)) k k \<noteq> None) argv = []"
    unfolding filter_empty_conv by (simp add: after_expire_def)
  obtain ks3 where f: "exists_loop env now ks1 argv 0 = Some (0, ks3)"
    using exists_loop_ok [OF d(2) assms(2), of env now 0] unfolding z by auto
  have "delCommand env now ks argv = Some (ReplyInt (int (card {k \<in> set argv. after_expire env now ?m k k \<noteq> None})), ks1)"
    unfolding delCommand_def d(1) by simp
  moreover have "existsCommand env now ks argv =
      Some (ReplyInt (int (length (filter (\<lambda>k. after_expire env now ?m k k \<noteq> None) argv))), ks2)"
    unfolding existsCommand_def e by simp
  moreover have "existsCommand env now ks1 argv = Some (ReplyInt 0, ks3)" unfolding existsCommand_def f by simp
  ultimately show ?thesis using db_is_map [OF d(2)] by (intro exI [of _ ks1] exI [of _ ks2] exI [of _ ks3] conjI) simp_all
qed

theorem del_exists_witness:
  "\<exists>ks ks1 ks2. example_step = Some ks \<and> delCommand (example_env False) 50 ks [lit ''k'', lit ''k''] = Some (ReplyInt 1, ks1) \<and>
     existsCommand (example_env False) 50 ks [lit ''k'', lit ''k''] = Some (ReplyInt 2, ks2)"
proof -
  obtain ks x where e: "example_step = Some ks" "db_is 5 (ks_db ks) [lit ''k'' \<mapsto> (7, Some 100)]" "db_room (ks_db ks) x" by (rule example_reached)
  have i: "db_inv 5 (ks_db ks)" "ks_map (ks_db ks) = [lit ''k'' \<mapsto> (7, Some 100)]" using db_is_map [OF e(2)] by simp_all
  have m: "after_expire (example_env False) 50 [lit ''k'' \<mapsto> (7, Some 100)] (lit ''k'') = [lit ''k'' \<mapsto> (7, Some 100)]"
    by (simp add: after_expire_def expired_def expire_of_def)
  have c: "{k \<in> set [lit ''k'', lit ''k'']. after_expire (example_env False) 50 [lit ''k'' \<mapsto> (7, Some 100)] k k \<noteq> None} = {lit ''k''}"
    "filter (\<lambda>k. after_expire (example_env False) 50 [lit ''k'' \<mapsto> (7, Some 100)] k k \<noteq> None) [lit ''k'', lit ''k''] = [lit ''k'', lit ''k'']"
    using m by auto
  have s: "\<forall>k \<in> set [lit ''k'', lit ''k'']. sds_short k" by simp
  from del_exists [OF i(1) s, of "example_env False" 50] show ?thesis unfolding i(2) c using e(1) by auto
qed

end
