(* ===== verification/Request.thy ===== *)
theory Request
  imports SdsText Util
begin

text \<open>
  Reading requests from a client, \<open>networking.c\<close>: the query buffer, the two request formats (a line
  of words, or a count of length-prefixed arguments), and the loop that runs the commands found.

  The query buffer is the contents of its sds string, shorter than two gigabytes, so that the casts
  to \<open>int\<close> are exact; the zero behind it is what \<open>strchr\<close> and an access at its end find. A count
  that is only set from a positive number and counted down is a natural number. Running a command is
  an argument (\<open>processCommand\<close> of \<open>server.c\<close>), with what the loop sees of it as its result. Error
  replies are the texts given to \<open>addReplyError\<close>. \<open>None\<close> is a failed assertion or an access outside
  the argument vector.
\<close>

section \<open>State\<close>

abbreviation PROTO_INLINE_MAX_SIZE :: nat where "PROTO_INLINE_MAX_SIZE \<equiv> 65536"
abbreviation PROTO_MBULK_BIG_ARG :: int where "PROTO_MBULK_BIG_ARG \<equiv> 32768"
abbreviation PROTO_IOBUF_LEN :: int where "PROTO_IOBUF_LEN \<equiv> 16384"

datatype req_type = ReqNone | ReqInline | ReqMultibulk

text \<open>\<open>argv_cap\<close>: the number of elements \<open>argv\<close> was allocated for; \<open>argc\<close> is the length of \<open>c_argv\<close>.\<close>

record client =
  querybuf :: bytes
  reqtype :: req_type
  multibulklen :: nat
  bulklen :: int
  c_argv :: "bytes list"
  argv_cap :: nat
  flag_slave :: bool
  flag_blocked :: bool
  flag_close :: bool
  c_freed :: bool
  c_errors :: "bytes list"

definition createClient :: client where
  "createClient = \<lparr>querybuf = [], reqtype = ReqNone, multibulklen = 0, bulklen = -1, c_argv = [], argv_cap = 0,
     flag_slave = False, flag_blocked = False, flag_close = False, c_freed = False, c_errors = []\<rparr>"

text \<open>\<open>strchr(q + pos, ch)\<close> for a byte other than zero, as an index into the buffer.\<close>

definition sds_strchr :: "bytes \<Rightarrow> nat \<Rightarrow> byte \<Rightarrow> nat option" where
  "sds_strchr q pos ch =
     (let s = takeWhile (\<lambda>b. b \<noteq> 0) (drop pos q)
      in if ch \<in> set s then Some (pos + length (takeWhile (\<lambda>b. b \<noteq> ch) s)) else None)"

text \<open>The byte at a position up to the length.\<close>

definition qb_at :: "bytes \<Rightarrow> nat \<Rightarrow> byte" where
  "qb_at q pos = (q @ [0]) ! pos"

definition addReplyError :: "bytes \<Rightarrow> client \<Rightarrow> client" where
  "addReplyError err c = c\<lparr>c_errors := c_errors c @ [err]\<rparr>"

text \<open>The formatted text is a C string and its line ends become spaces.\<close>

definition addReplyErrorFormat :: "bytes \<Rightarrow> client \<Rightarrow> client" where
  "addReplyErrorFormat s c =
     addReplyError (map (\<lambda>b. if b = 13 \<or> b = 10 then 32 else b) (takeWhile (\<lambda>b. b \<noteq> 0) s)) c"

definition setProtocolError :: "nat \<Rightarrow> client \<Rightarrow> client" where
  "setProtocolError pos c = c\<lparr>flag_close := True, querybuf := drop pos (querybuf c)\<rparr>"

definition resetClient :: "client \<Rightarrow> client" where
  "resetClient c = c\<lparr>c_argv := [], reqtype := ReqNone, multibulklen := 0, bulklen := -1\<rparr>"

section \<open>Requests of one line\<close>

definition sds_bytes :: "sds \<Rightarrow> bytes option" where
  "sds_bytes s = mem_read (sds_buf s) 0 (sdslen s)"

fun sds_list :: "sds list \<Rightarrow> bytes list option" where
  "sds_list [] = Some []"
| "sds_list (s # ss) = do { b \<leftarrow> sds_bytes s; bs \<leftarrow> sds_list ss; Some (b # bs) }"

definition processInlineBuffer :: "client \<Rightarrow> (bool \<times> client) option" where
  "processInlineBuffer c =
     (case sds_strchr (querybuf c) 0 10 of
        None \<Rightarrow>
          Some (False,
            if length (querybuf c) > PROTO_INLINE_MAX_SIZE
            then setProtocolError 0 (addReplyError (lit ''Protocol error: too big inline request'') c) else c)
      | Some newline \<Rightarrow> do {
          let newline = (if newline \<noteq> 0 \<and> querybuf c ! (newline - 1) = 13 then newline - 1 else newline);
          let querylen = newline;
          argv \<leftarrow> sdssplitargs (takeWhile (\<lambda>b. b \<noteq> 0) (take querylen (querybuf c)));
          case argv of
            None \<Rightarrow> Some (False, setProtocolError 0 (addReplyError (lit ''Protocol error: unbalanced quotes in request'') c))
          | Some argv \<Rightarrow> do {
              args \<leftarrow> sds_list argv;
              let c = c\<lparr>querybuf := drop (querylen + 2) (querybuf c)\<rparr>;
              let c = (if args \<noteq> [] then c\<lparr>argv_cap := length args\<rparr> else c);
              Some (True, c\<lparr>c_argv := filter (\<lambda>a. a \<noteq> []) args\<rparr>)
            }
        })"

section \<open>Requests of counted arguments\<close>

datatype bulk_step = BulkError client | BulkBreak client nat | BulkRead client nat

text \<open>The length of the next argument.\<close>

definition bulk_header :: "client \<Rightarrow> nat \<Rightarrow> bulk_step" where
  "bulk_header c pos =
     (let q = querybuf c in
      case sds_strchr q pos 13 of
        None \<Rightarrow>
          if length q > PROTO_INLINE_MAX_SIZE
          then BulkError (setProtocolError 0 (addReplyError (lit ''Protocol error: too big bulk count string'') c))
          else BulkBreak c pos
      | Some newline \<Rightarrow>
          if int newline > int (length q) - 2 then BulkBreak c pos
          else if qb_at q pos \<noteq> 36 then
            BulkError (setProtocolError pos
              (addReplyErrorFormat (lit ''Protocol error: expected '' @ [39, 36, 39] @ lit '', got '' @ [39, qb_at q pos, 39]) c))
          else
            (case string2ll (take (newline - (pos + 1)) (drop (pos + 1) q)) of
               None \<Rightarrow> BulkError (setProtocolError pos (addReplyError (lit ''Protocol error: invalid bulk length'') c))
             | Some ll \<Rightarrow>
                 if ll < 0 \<or> ll > 512 * 1024 * 1024
                 then BulkError (setProtocolError pos (addReplyError (lit ''Protocol error: invalid bulk length'') c))
                 else
                   (let pos = newline + 2;
                        (c, pos) = (if ll \<ge> PROTO_MBULK_BIG_ARG then (c\<lparr>querybuf := drop pos q\<rparr>, 0) else (c, pos))
                    in BulkRead (c\<lparr>bulklen := ll\<rparr>) pos)))"

text \<open>Storing an argument in the vector.\<close>

definition put_arg :: "bytes \<Rightarrow> client \<Rightarrow> client option" where
  "put_arg a c = (if length (c_argv c) < argv_cap c then Some (c\<lparr>c_argv := c_argv c @ [a]\<rparr>) else None)"

text \<open>The loop over the arguments: whether it returned with an error, the client and the position.\<close>

function multibulk_loop :: "client \<Rightarrow> nat \<Rightarrow> (bool \<times> client \<times> nat) option" where
  "multibulk_loop c pos =
     (if multibulklen c = 0 then Some (False, c, pos)
      else
        (case (if bulklen c = -1 then bulk_header c pos else BulkRead c pos) of
           BulkError c' \<Rightarrow> Some (True, c', pos)
         | BulkBreak c' pos' \<Rightarrow> Some (False, c', pos')
         | BulkRead c' pos' \<Rightarrow>
             (let q = querybuf c' in
              if int (length q) - int pos' < bulklen c' + 2 then Some (False, c', pos')
              else if pos' = 0 \<and> bulklen c' \<ge> PROTO_MBULK_BIG_ARG \<and> int (length q) = bulklen c' + 2 then
                (case put_arg (take (length q - 2) q) c' of
                   None \<Rightarrow> None
                 | Some c'' \<Rightarrow> multibulk_loop (c''\<lparr>querybuf := [], bulklen := -1, multibulklen := multibulklen c - 1\<rparr>) 0)
              else
                (case put_arg (take (nat (bulklen c')) (drop pos' q)) c' of
                   None \<Rightarrow> None
                 | Some c'' \<Rightarrow> multibulk_loop (c''\<lparr>bulklen := -1, multibulklen := multibulklen c - 1\<rparr>) (pos' + nat (bulklen c') + 2)))))"
  by pat_completeness auto
termination
  by (relation "measure (\<lambda>(c, pos). multibulklen c)") (auto simp: put_arg_def split: if_splits)

declare multibulk_loop.simps [simp del]

text \<open>The part behind the count: the loop, and the trimming of the buffer.\<close>

definition multibulk_args :: "client \<Rightarrow> nat \<Rightarrow> (bool \<times> client) option" where
  "multibulk_args c pos = do {
     (err, c, pos) \<leftarrow> multibulk_loop c pos;
     if err then Some (False, c)
     else
       (let c = (if pos \<noteq> 0 then c\<lparr>querybuf := drop pos (querybuf c)\<rparr> else c)
        in Some (multibulklen c = 0, c))
   }"

definition processMultibulkBuffer :: "client \<Rightarrow> (bool \<times> client) option" where
  "processMultibulkBuffer c =
     (let q = querybuf c in
      if multibulklen c = 0 then
        if c_argv c \<noteq> [] then None
        else
          (case sds_strchr q 0 13 of
             None \<Rightarrow>
               Some (False,
                 if length q > PROTO_INLINE_MAX_SIZE
                 then setProtocolError 0 (addReplyError (lit ''Protocol error: too big mbulk count string'') c) else c)
           | Some newline \<Rightarrow>
               if int newline > int (length q) - 2 then Some (False, c)
               else if qb_at q 0 \<noteq> 42 then None
               else
                 (case string2ll (take (newline - 1) (drop 1 q)) of
                    None \<Rightarrow> Some (False, setProtocolError 0 (addReplyError (lit ''Protocol error: invalid multibulk length'') c))
                  | Some ll \<Rightarrow>
                      if ll > 1024 * 1024
                      then Some (False, setProtocolError 0 (addReplyError (lit ''Protocol error: invalid multibulk length'') c))
                      else if ll \<le> 0 then Some (True, c\<lparr>querybuf := drop (newline + 2) q\<rparr>)
                      else multibulk_args (c\<lparr>multibulklen := nat ll, argv_cap := nat ll\<rparr>) (newline + 2)))
      else multibulk_args c 0)"

section \<open>The input loop\<close>

text \<open>What the loop sees of a command: the result of \<open>processCommand\<close>, whether the client was freed, and
  its flags afterwards.\<close>

record cmd_effect =
  ce_ok :: bool
  ce_freed :: bool
  ce_blocked :: bool
  ce_close :: bool

type_synonym 's runner = "'s \<Rightarrow> bytes list \<Rightarrow> 's \<times> cmd_effect"

definition run_command :: "'s runner \<Rightarrow> 's \<Rightarrow> client \<Rightarrow> 's \<times> client" where
  "run_command run s c =
     (let (s, e) = run s (c_argv c);
          c = c\<lparr>flag_blocked := ce_blocked e, flag_close := flag_close c \<or> ce_close e, c_freed := ce_freed e\<rparr>
      in (s, if ce_ok e then resetClient c else c))"

definition req_of :: "client \<Rightarrow> req_type" where
  "req_of c = (if reqtype c = ReqNone then (if qb_at (querybuf c) 0 = 42 then ReqMultibulk else ReqInline) else reqtype c)"

definition process_request :: "client \<Rightarrow> (bool \<times> client) option" where
  "process_request c =
     (let c = c\<lparr>reqtype := req_of c\<rparr>
      in if reqtype c = ReqInline then processInlineBuffer c else processMultibulkBuffer c)"

text \<open>The bytes behind the position only get fewer.\<close>

lemma bulk_header_read:
  assumes "bulk_header c pos = BulkRead c' pos'"
  shows "length (querybuf c') - pos' \<le> length (querybuf c) - pos \<and> multibulklen c' = multibulklen c"
proof -
  obtain newline where n: "sds_strchr (querybuf c) pos 13 = Some newline"
    using assms by (cases "sds_strchr (querybuf c) pos 13") (simp_all add: bulk_header_def split: if_splits)
  then have "pos \<le> newline" by (auto simp: sds_strchr_def Let_def split: if_splits)
  then show ?thesis using assms n by (auto simp: bulk_header_def Let_def split: if_splits option.splits)
qed

lemma bulk_header_break: "bulk_header c pos = BulkBreak c' pos' \<Longrightarrow> c' = c \<and> pos' = pos"
  by (auto simp: bulk_header_def Let_def split: if_splits option.splits)

text \<open>Reading the length first does not change the rest of the round.\<close>

lemma loop_header:
  assumes "bulk_header c pos = BulkRead c1 p1" and "bulklen c = -1" and "bulklen c1 \<noteq> -1" and "multibulklen c1 = multibulklen c"
    and "multibulklen c \<noteq> 0"
  shows "multibulk_loop c pos = multibulk_loop c1 p1"
  using assms(1-3,5) by (subst (1 2) multibulk_loop.simps) (simp add: assms(4) Let_def cong: option.case_cong)

lemma multibulk_loop_le:
  "multibulk_loop c pos = Some (False, c', pos') \<Longrightarrow>
     length (querybuf c') - pos' \<le> length (querybuf c) - pos \<and>
     (multibulklen c \<noteq> 0 \<and> multibulklen c' = 0 \<and> pos < length (querybuf c) \<longrightarrow>
        length (querybuf c') - pos' < length (querybuf c) - pos)"
proof (induction c pos arbitrary: c' pos' rule: multibulk_loop.induct)
  case (1 c pos)
  show ?case
  proof (cases "multibulklen c = 0")
    case True
    then show ?thesis using "1.prems" by (subst (asm) multibulk_loop.simps) simp
  next
    case False
    define r where "r = (if bulklen c = -1 then bulk_header c pos else BulkRead c pos)"
    show ?thesis
    proof (cases r)
      case (BulkError c1)
      then show ?thesis using "1.prems" False by (subst (asm) multibulk_loop.simps) (simp add: r_def [symmetric])
    next
      case (BulkBreak c1 p1)
      then have "c1 = c \<and> p1 = pos" using bulk_header_break by (auto simp: r_def split: if_splits)
      then show ?thesis using "1.prems" False BulkBreak by (subst (asm) multibulk_loop.simps) (auto simp: r_def [symmetric])
    next
      case (BulkRead c1 p1)
      have le: "length (querybuf c1) - p1 \<le> length (querybuf c) - pos" "multibulklen c1 = multibulklen c"
        using BulkRead bulk_header_read [of c pos c1 p1] by (auto simp: r_def split: if_splits)
      show ?thesis
      proof (cases "int (length (querybuf c1)) - int p1 < bulklen c1 + 2")
        case True
        then show ?thesis using "1.prems" False BulkRead le by (subst (asm) multibulk_loop.simps) (auto simp: r_def [symmetric])
      next
        case more: False
        show ?thesis
        proof (cases "p1 = 0 \<and> bulklen c1 \<ge> PROTO_MBULK_BIG_ARG \<and> int (length (querybuf c1)) = bulklen c1 + 2")
          case big: True
          obtain c2 where c2: "put_arg (take (length (querybuf c1) - 2) (querybuf c1)) c1 = Some c2"
            "multibulk_loop (c2\<lparr>querybuf := [], bulklen := -1, multibulklen := multibulklen c - 1\<rparr>) 0 = Some (False, c', pos')"
            using "1.prems" False BulkRead more big
            by (subst (asm) multibulk_loop.simps) (auto simp: r_def [symmetric] Let_def split: option.splits)
          from "1.IH"(1) [OF False BulkRead [unfolded r_def] refl more big c2(1) c2(2)]
          have "length (querybuf c') - pos' = 0" by simp
          then show ?thesis by auto
        next
          case small: False
          obtain c2 where c2: "put_arg (take (nat (bulklen c1)) (drop p1 (querybuf c1))) c1 = Some c2"
            "multibulk_loop (c2\<lparr>bulklen := -1, multibulklen := multibulklen c - 1\<rparr>) (p1 + nat (bulklen c1) + 2) = Some (False, c', pos')"
            using "1.prems" False BulkRead more small
            by (subst (asm) multibulk_loop.simps) (simp add: r_def [symmetric] Let_def split: option.splits)
          have q2: "querybuf c2 = querybuf c1" using c2(1) by (auto simp: put_arg_def split: if_splits)
          from "1.IH"(2) [OF False BulkRead [unfolded r_def] refl more small c2(1) c2(2)]
          have "length (querybuf c') - pos' \<le> length (querybuf c1) - (p1 + nat (bulklen c1) + 2)" by (simp add: q2)
          then show ?thesis using le(1) by linarith
        qed
      qed
    qed
  qed
qed

lemma multibulk_args_less:
  assumes "multibulk_args c pos = Some (True, c')" and "multibulklen c \<noteq> 0" and "pos < length (querybuf c)"
  shows "length (querybuf c') < length (querybuf c) - pos"
proof -
  obtain c1 p1 where l: "multibulk_loop c pos = Some (False, c1, p1)"
    "c' = (if p1 \<noteq> 0 then c1\<lparr>querybuf := drop p1 (querybuf c1)\<rparr> else c1)" "multibulklen c' = 0"
    using assms(1) by (auto simp: multibulk_args_def bind_eq_Some_conv Let_def split: if_splits prod.splits)
  then show ?thesis using multibulk_loop_le [OF l(1)] assms(2,3) by (auto split: if_splits)
qed

lemma multibulk_args_le:
  assumes "multibulk_args c pos = Some (True, c')"
  shows "length (querybuf c') \<le> length (querybuf c) - pos"
proof -
  obtain c1 p1 where l: "multibulk_loop c pos = Some (False, c1, p1)"
    "c' = (if p1 \<noteq> 0 then c1\<lparr>querybuf := drop p1 (querybuf c1)\<rparr> else c1)"
    using assms(1) by (auto simp: multibulk_args_def bind_eq_Some_conv Let_def split: if_splits prod.splits)
  then show ?thesis using multibulk_loop_le [OF l(1)] by (auto split: if_splits)
qed

lemma process_request_less:
  assumes "process_request c = Some (True, c')" and "querybuf c \<noteq> []"
  shows "length (querybuf c') < length (querybuf c)"
proof -
  define c0 where "c0 = c\<lparr>reqtype := req_of c\<rparr>"
  have q0: "querybuf c0 = querybuf c" by (simp add: c0_def)
  have "length (querybuf c') < length (querybuf c)" if "processInlineBuffer c0 = Some (True, c')"
    using that assms(2) q0
    by (auto simp: processInlineBuffer_def bind_eq_Some_conv Let_def split: option.splits if_splits)
  moreover have "length (querybuf c') < length (querybuf c)" if p: "processMultibulkBuffer c0 = Some (True, c')"
  proof (cases "multibulklen c0 = 0")
    case False
    then show ?thesis using p multibulk_args_less [of c0 0 c'] q0 assms(2) by (simp add: processMultibulkBuffer_def)
  next
    case True
    obtain newline ll where n: "sds_strchr (querybuf c) 0 13 = Some newline"
      and c': "c' = c0\<lparr>querybuf := drop (newline + 2) (querybuf c)\<rparr> \<or>
        multibulk_args (c0\<lparr>multibulklen := nat ll, argv_cap := nat ll\<rparr>) (newline + 2) = Some (True, c')"
      using p True q0 by (auto simp: processMultibulkBuffer_def Let_def split: option.splits if_splits)
    have q: "0 < length (querybuf c)" using assms(2) by simp
    from c' show ?thesis
    proof
      assume "c' = c0\<lparr>querybuf := drop (newline + 2) (querybuf c)\<rparr>"
      then show ?thesis using q by simp
    next
      assume "multibulk_args (c0\<lparr>multibulklen := nat ll, argv_cap := nat ll\<rparr>) (newline + 2) = Some (True, c')"
      from multibulk_args_le [OF this] have "length (querybuf c') \<le> length (querybuf c) - (newline + 2)" by (simp add: q0)
      then show ?thesis using q by linarith
    qed
  qed
  ultimately show ?thesis using assms(1) by (auto simp: process_request_def c0_def Let_def split: if_splits)
qed

text \<open>\<open>paused\<close>: what \<open>clientsArePaused\<close> returns.\<close>

function processInputBuffer :: "'s runner \<Rightarrow> bool \<Rightarrow> 's \<Rightarrow> client \<Rightarrow> ('s \<times> client) option" where
  "processInputBuffer run paused s c =
     (if querybuf c = [] then Some (s, c)
      else if \<not> flag_slave c \<and> paused then Some (s, c)
      else if flag_blocked c then Some (s, c)
      else if flag_close c then Some (s, c)
      else
        (case process_request c of
           None \<Rightarrow> None
         | Some (False, c') \<Rightarrow> Some (s, c')
         | Some (True, c') \<Rightarrow>
             if c_argv c' = [] then processInputBuffer run paused s (resetClient c')
             else
               (let (s, c') = run_command run s c'
                in if c_freed c' then Some (s, c') else processInputBuffer run paused s c')))"
  by pat_completeness auto
termination
proof (relation "measure (\<lambda>(run, paused, s, c). length (querybuf c))", goal_cases)
  case (3 run paused s c x1 x2 c1 x s' c')
  have "querybuf c' = querybuf c1"
    using 3(8-10) by (auto simp: run_command_def resetClient_def Let_def split: prod.splits if_splits)
  then have "length (querybuf c') < length (querybuf c)" using 3 process_request_less [of c c1] by simp
  then show ?case using 3(9,10) by (auto split: prod.splits)
qed (auto dest: process_request_less simp: resetClient_def)

declare processInputBuffer.simps [simp del]

text \<open>The bytes asked for from the socket.\<close>

definition query_readlen :: "client \<Rightarrow> int" where
  "query_readlen c =
     (if reqtype c = ReqMultibulk \<and> multibulklen c \<noteq> 0 \<and> bulklen c \<noteq> -1 \<and> bulklen c \<ge> PROTO_MBULK_BIG_ARG then
        (let remaining = s32 (bulklen c + 2 - int (length (querybuf c)))
         in if remaining < PROTO_IOBUF_LEN then remaining else PROTO_IOBUF_LEN)
      else PROTO_IOBUF_LEN)"

text \<open>One readable event: \<open>avail\<close> is what the socket holds, and a read of no bytes means that the peer
  has closed the connection. A negative length is an allocation of almost the whole address space.
  The result includes what is left in the socket.\<close>

definition readQueryFromClient :: "'s runner \<Rightarrow> bool \<Rightarrow> nat \<Rightarrow> 's \<Rightarrow> client \<Rightarrow> bytes \<Rightarrow> ('s \<times> client \<times> bytes) option" where
  "readQueryFromClient run paused max_len s c avail =
     (if query_readlen c < 0 then None
      else
        (let nread = min (nat (query_readlen c)) (length avail)
         in if nread = 0 then Some (s, c\<lparr>c_freed := True\<rparr>, avail)
            else
              (let c = c\<lparr>querybuf := querybuf c @ take nread avail\<rparr>
               in if length (querybuf c) > max_len then Some (s, c\<lparr>c_freed := True\<rparr>, drop nread avail)
                  else
                    (case processInputBuffer run paused s c of
                       None \<Rightarrow> None
                     | Some (s, c) \<Rightarrow> Some (s, c, drop nread avail)))))"

text \<open>The same event when \<open>read\<close> returns -1: with \<open>EAGAIN\<close> nothing happens, after any other error the client is freed.\<close>

definition readQuery_failed :: "bool \<Rightarrow> client \<Rightarrow> client option" where
  "readQuery_failed eagain c =
     (if query_readlen c < 0 then None
      else if eagain then Some c
      else Some (c\<lparr>c_freed := True\<rparr>))"

end
