(* ===== verification/RequestSafe.thy ===== *)
theory RequestSafe
  imports Request
begin

text \<open>
  Reading requests is safe on any input: whatever bytes a client sends, no assertion of the parser
  fails, no argument is stored outside the vector and no read of a negative length is asked for.
\<close>

section \<open>Splitting a line always returns\<close>

lemma sds_bytes_rep: "sds_rep s xs \<Longrightarrow> sds_bytes s = Some xs"
  by (auto simp: sds_rep_def sds_body_def sds_bytes_def mem_read_def sds_wf_def comp_def dest!: arg_cong [of _ _ length])

lemma sds_list_rep: "list_all2 sds_rep ss xs \<Longrightarrow> sds_list ss = Some xs"
  by (induction rule: list_all2_induct) (simp_all add: sds_bytes_rep)

lemma arg_step_chars: "arg_step q p = Go ch q' r \<Longrightarrow> length ch \<le> 1"
  by (cases q) (auto simp: arg_step.simps split: if_splits)

lemma arg_loop_total:
  "sds_rep s xs \<Longrightarrow> length xs + length p < SDS_LIMIT \<Longrightarrow>
    \<exists>r. arg_loop q p s = Some r \<and> (\<forall>p' s'. r = Some (p', s') \<longrightarrow> (\<exists>ys. sds_rep s' ys))"
proof (induction q p s arbitrary: xs rule: arg_loop.induct)
  case (1 q p s)
  show ?case
  proof (cases "arg_step q p")
    case (Go ch q' r)
    have l: "length ch \<le> 1" "length r < length p" using arg_step_chars [OF Go] arg_step_shorter [OF Go] by simp_all
    obtain s1 where s1: "(if ch = [] then Some s else sdscatlen s ch) = Some s1" "sds_rep s1 (xs @ ch)"
    proof (cases "ch = []")
      case True
      then show ?thesis using that "1.prems"(1) by simp
    next
      case False
      have "sds_body s xs" using "1.prems"(1) by (simp add: sds_rep_def)
      moreover have "length xs + length ch < SDS_LIMIT" using "1.prems"(2) l by simp
      ultimately show ?thesis using that sdscatlen_ok False by force
    qed
    have "length (xs @ ch) + length r < SDS_LIMIT" using "1.prems"(2) l by simp
    from "1.IH" [OF Go s1(1) s1(2) this] show ?thesis unfolding arg_loop.simps [of q p s] using Go s1(1) by simp
  qed (use "1.prems" in \<open>auto simp: arg_loop.simps [of q p s]\<close>)
qed

lemma splitargs_total:
  "list_all2 sds_rep v vs \<Longrightarrow> length p < SDS_LIMIT \<Longrightarrow>
    \<exists>r. splitargs_loop p v = Some r \<and> (\<forall>w. r = Some w \<longrightarrow> (\<exists>ws. list_all2 sds_rep w ws))"
proof (induction "length p" arbitrary: p v vs rule: less_induct)
  case less
  define p0 where "p0 = dropWhile isspace p"
  have le: "length p0 \<le> length p" by (simp add: p0_def length_dropWhile_le)
  show ?case
  proof (cases "p0 = []")
    case True
    then show ?thesis using less.prems(1) by (subst splitargs_loop.simps) (auto simp: p0_def)
  next
    case False
    obtain e where e: "sdsempty = Some e" "sds_rep e []" using sdsempty_ok by blast
    obtain r where r: "arg_loop Plain p0 e = Some r" "\<forall>p' s'. r = Some (p', s') \<longrightarrow> (\<exists>ys. sds_rep s' ys)"
      using arg_loop_total [OF e(2), of p0 Plain] le less.prems(2) by auto
    have step: "splitargs_loop p v = (case r of None \<Rightarrow> Some None | Some (p', s') \<Rightarrow> splitargs_loop p' (v @ [s']))"
      unfolding splitargs_loop.simps [of p v] Let_def p0_def [symmetric] if_not_P [OF False] e(1) bind.bind_lunit r(1) ..
    show ?thesis
    proof (cases r)
      case None
      then show ?thesis using step by simp
    next
      case (Some x)
      obtain p' s' where x: "x = (p', s')" by (cases x)
      obtain ys where "sds_rep s' ys" using r(2) Some x by blast
      then have v': "list_all2 sds_rep (v @ [s']) (vs @ [ys])" using less.prems(1) by (simp add: list_all2_appendI)
      have "length p' \<le> length p0 - 1" using arg_loop_shorter r(1) Some x by blast
      then have lt: "length p' < length p" using False le by (cases p0) auto
      have "length p' < SDS_LIMIT" using lt less.prems(2) by simp
      from less.hyps [OF lt v' this] show ?thesis using step Some x by simp
    qed
  qed
qed

lemma inline_total:
  assumes "length (querybuf c) < SDS_LIMIT"
  shows "processInlineBuffer c \<noteq> None"
proof (cases "sds_strchr (querybuf c) 0 10")
  case None
  then show ?thesis by (simp add: processInlineBuffer_def)
next
  case nl: (Some nl)
  define n where "n = (if nl \<noteq> 0 \<and> querybuf c ! (nl - 1) = 13 then nl - 1 else nl)"
  define line where "line = takeWhile (\<lambda>b. b \<noteq> 0) (take n (querybuf c))"
  have "length line \<le> length (take n (querybuf c))" unfolding line_def by (rule length_takeWhile_le)
  then have "length line < SDS_LIMIT" using assms by simp
  then obtain r where r: "sdssplitargs line = Some r" "\<forall>w. r = Some w \<longrightarrow> (\<exists>ws. list_all2 sds_rep w ws)"
    using splitargs_total [of "[]" "[]" line] by (auto simp: sdssplitargs_def)
  show ?thesis
  proof (cases r)
    case None
    then show ?thesis
      unfolding processInlineBuffer_def nl option.case Let_def n_def [symmetric] line_def [symmetric] r(1) bind.bind_lunit by simp
  next
    case (Some w)
    then obtain ws where "list_all2 sds_rep w ws" using r(2) by blast
    then have "sds_list w = Some ws" by (rule sds_list_rep)
    then show ?thesis using Some
      unfolding processInlineBuffer_def nl option.case Let_def n_def [symmetric] line_def [symmetric] r(1) bind.bind_lunit by simp
  qed
qed

section \<open>The invariant of the parser\<close>

abbreviation bulk_limit :: int where "bulk_limit \<equiv> 512 * 1024 * 1024"

definition bulk_inv :: "client \<Rightarrow> bool" where
  "bulk_inv c \<longleftrightarrow> bulklen c = -1 \<or>
     0 \<le> bulklen c \<and> bulklen c \<le> bulk_limit \<and>
     (bulklen c \<ge> PROTO_MBULK_BIG_ARG \<and> reqtype c = ReqMultibulk \<and> multibulklen c \<noteq> 0 \<longrightarrow> int (length (querybuf c)) \<le> bulklen c + 2)"

definition parse_core :: "client \<Rightarrow> bool" where
  "parse_core c \<longleftrightarrow>
     (if multibulklen c = 0
      then c_argv c = [] \<and> bulklen c = -1 \<and> (reqtype c = ReqMultibulk \<longrightarrow> querybuf c \<noteq> [] \<and> hd (querybuf c) = 42)
      else reqtype c = ReqMultibulk \<and> length (c_argv c) + multibulklen c = argv_cap c)"

text \<open>Once an error was reported or the client freed, the rest of the state does not matter.\<close>

definition parse_inv :: "client \<Rightarrow> bool" where
  "parse_inv c \<longleftrightarrow> bulk_inv c \<and> (flag_close c \<or> c_freed c \<or> parse_core c)"

lemma header_safe:
  assumes "bulklen c = -1"
  shows "(\<exists>c'. bulk_header c pos = BulkError c' \<and> flag_close c' \<and> bulklen c' = -1 \<and> c_freed c' = c_freed c) \<or> bulk_header c pos = BulkBreak c pos \<or>
    (\<exists>q ll pos'. bulk_header c pos = BulkRead (c\<lparr>querybuf := q, bulklen := ll\<rparr>) pos' \<and> 0 \<le> ll \<and> ll \<le> bulk_limit)"
proof -
  have err: ?thesis if "bulk_header c pos = BulkError (setProtocolError p (addReplyError t c))" for p t
    using that assms by (simp add: setProtocolError_def addReplyError_def)
  show ?thesis
  proof (cases "sds_strchr (querybuf c) pos 13")
    case None
    show ?thesis
    proof (cases "length (querybuf c) > PROTO_INLINE_MAX_SIZE")
      case True
      then show ?thesis using None by (intro err) (simp add: bulk_header_def)
    qed (simp add: None bulk_header_def)
  next
    case (Some nl)
    consider (short) "int nl > int (length (querybuf c)) - 2" | (dollar) "\<not> int nl > int (length (querybuf c)) - 2" "qb_at (querybuf c) pos \<noteq> 36"
      | (count) "\<not> int nl > int (length (querybuf c)) - 2" "qb_at (querybuf c) pos = 36" by blast
    then show ?thesis
    proof cases
      case short
      then show ?thesis using Some by (simp add: bulk_header_def)
    next
      case dollar
      then show ?thesis using Some by (intro err) (simp add: bulk_header_def addReplyErrorFormat_def)
    next
      case count
      show ?thesis
      proof (cases "string2ll (take (nl - (pos + 1)) (drop (pos + 1) (querybuf c)))")
        case None
        then show ?thesis using Some count by (intro err) (simp add: bulk_header_def)
      next
        case ll: (Some ll)
        show ?thesis
        proof (cases "ll < 0 \<or> ll > bulk_limit")
          case True
          then show ?thesis using Some count ll by (intro err) (simp add: bulk_header_def)
        next
          case ok: False
          show ?thesis
          proof (cases "ll \<ge> PROTO_MBULK_BIG_ARG")
            case True
            then have "bulk_header c pos = BulkRead (c\<lparr>querybuf := drop (nl + 2) (querybuf c), bulklen := ll\<rparr>) 0"
              using Some count ll ok by (simp add: bulk_header_def)
            then show ?thesis using ok by (metis not_less)
          next
            case small: False
            then have "bulk_header c pos = BulkRead (c\<lparr>querybuf := querybuf c, bulklen := ll\<rparr>) (nl + 2)"
              using Some count ll ok by (simp add: bulk_header_def)
            then show ?thesis using ok by (metis not_less)
          qed
        qed
      qed
    qed
  qed
qed

text \<open>What the argument loop guarantees for any buffer.\<close>

definition loop_post :: "client \<Rightarrow> bool \<times> client \<times> nat \<Rightarrow> bool" where
  "loop_post c r \<longleftrightarrow> (case r of (err, c', pos') \<Rightarrow> c_freed c' = c_freed c \<and>
     (if err then flag_close c' \<and> bulklen c' = -1
      else length (c_argv c') + multibulklen c' = argv_cap c' \<and> reqtype c' = reqtype c \<and>
        (if bulklen c' = -1 then True else multibulklen c' \<noteq> 0 \<and> 0 \<le> bulklen c' \<and> bulklen c' \<le> bulk_limit \<and>
           int (length (querybuf c')) - int pos' < bulklen c' + 2)))"

lemma loop_safe:
  "length (c_argv c) + multibulklen c = argv_cap c \<Longrightarrow> bulklen c = -1 \<or> multibulklen c \<noteq> 0 \<and> 0 \<le> bulklen c \<and> bulklen c \<le> bulk_limit \<Longrightarrow>
    \<exists>r. multibulk_loop c pos = Some r \<and> loop_post c r"
proof (induction "multibulklen c" arbitrary: c pos rule: less_induct)
  case less
  have data: "\<exists>r. multibulk_loop c1 p1 = Some r \<and> loop_post c r"
    if c1: "c1 = c\<lparr>querybuf := q, bulklen := ll\<rparr>" "0 \<le> ll" "ll \<le> bulk_limit" and m: "multibulklen c \<noteq> 0" for c1 p1 q ll
  proof (cases "int (length q) - int p1 < ll + 2")
    case True
    then have "multibulk_loop c1 p1 = Some (False, c1, p1)" using c1 m by (subst multibulk_loop.simps) simp
    then show ?thesis using c1 m True less.prems by (simp add: loop_post_def)
  next
    case False
    have next_round: "\<exists>r. multibulk_loop (c1\<lparr>c_argv := c_argv c @ [a], querybuf := q', bulklen := -1, multibulklen := multibulklen c - 1\<rparr>) p = Some r \<and> loop_post c r"
      for a q' p
    proof -
      let ?c = "c1\<lparr>c_argv := c_argv c @ [a], querybuf := q', bulklen := -1, multibulklen := multibulklen c - 1\<rparr>"
      have "\<exists>r. multibulk_loop ?c p = Some r \<and> loop_post ?c r" using m c1 less.prems by (intro less.hyps) simp_all
      moreover have "loop_post ?c = loop_post c" by (rule ext) (simp add: loop_post_def c1)
      ultimately show ?thesis by simp
    qed
    have put: "put_arg a c1 = Some (c1\<lparr>c_argv := c_argv c @ [a]\<rparr>)" for a using less.prems(1) m c1 by (simp add: put_arg_def)
    show ?thesis
    proof (cases "p1 = 0 \<and> ll \<ge> PROTO_MBULK_BIG_ARG \<and> int (length q) = ll + 2")
      case True
      then have "multibulk_loop c1 p1 = multibulk_loop (c1\<lparr>c_argv := c_argv c @ [take (length q - 2) q], querybuf := [], bulklen := -1, multibulklen := multibulklen c - 1\<rparr>) 0"
        using m False c1 put by (subst multibulk_loop.simps) (simp add: Let_def)
      then show ?thesis using next_round by simp
    next
      case small: False
      have "c1\<lparr>c_argv := c_argv c @ [take (nat ll) (drop p1 q)], bulklen := -1, multibulklen := multibulklen c - 1\<rparr> =
          c1\<lparr>c_argv := c_argv c @ [take (nat ll) (drop p1 q)], querybuf := q, bulklen := -1, multibulklen := multibulklen c - 1\<rparr>"
        using c1 by simp
      moreover have "multibulk_loop c1 p1 =
          multibulk_loop (c1\<lparr>c_argv := c_argv c @ [take (nat ll) (drop p1 q)], bulklen := -1, multibulklen := multibulklen c - 1\<rparr>) (p1 + nat ll + 2)"
        using m False small c1 put by (subst multibulk_loop.simps) (auto simp: Let_def)
      ultimately show ?thesis using next_round by simp
    qed
  qed
  show ?case
  proof (cases "multibulklen c = 0")
    case True
    then have "multibulk_loop c pos = Some (False, c, pos)" by (subst multibulk_loop.simps) simp
    then show ?thesis using True less.prems by (simp add: loop_post_def)
  next
    case m: False
    show ?thesis
    proof (cases "bulklen c = -1")
      case False
      have "c = c\<lparr>querybuf := querybuf c, bulklen := bulklen c\<rparr>" by simp
      then show ?thesis using data m False less.prems(2) by blast
    next
      case b: True
      from header_safe [OF b, of pos] show ?thesis
      proof (elim disjE exE conjE)
        fix c' assume "bulk_header c pos = BulkError c'" "flag_close c'" "bulklen c' = -1" "c_freed c' = c_freed c"
        then have "multibulk_loop c pos = Some (True, c', pos) \<and> loop_post c (True, c', pos)"
          using m b by (subst multibulk_loop.simps) (simp add: loop_post_def)
        then show ?thesis by blast
      next
        assume "bulk_header c pos = BulkBreak c pos"
        then have "multibulk_loop c pos = Some (False, c, pos) \<and> loop_post c (False, c, pos)"
          using m b less.prems by (subst multibulk_loop.simps) (simp add: loop_post_def)
        then show ?thesis by blast
      next
        fix q ll p assume h: "bulk_header c pos = BulkRead (c\<lparr>querybuf := q, bulklen := ll\<rparr>) p" "0 \<le> ll" "ll \<le> bulk_limit"
        have "multibulk_loop c pos = multibulk_loop (c\<lparr>querybuf := q, bulklen := ll\<rparr>) p"
          using h(1,2) b m by (intro loop_header) simp_all
        then show ?thesis using data [OF refl h(2,3) m] by simp
      qed
    qed
  qed
qed

lemma args_safe:
  assumes "length (c_argv c) + multibulklen c = argv_cap c" and "multibulklen c \<noteq> 0" and "reqtype c = ReqMultibulk"
    and "bulklen c = -1 \<or> 0 \<le> bulklen c \<and> bulklen c \<le> bulk_limit"
  shows "\<exists>fin c'. multibulk_args c pos = Some (fin, c') \<and> bulk_inv c' \<and> (if fin then bulklen c' = -1 else parse_inv c')"
proof -
  obtain err c1 p1 where l: "multibulk_loop c pos = Some (err, c1, p1)" "loop_post c (err, c1, p1)"
    using loop_safe [of c pos] assms by force
  define c2 where "c2 = (if p1 \<noteq> 0 then c1\<lparr>querybuf := drop p1 (querybuf c1)\<rparr> else c1)"
  have q2: "querybuf c2 = drop p1 (querybuf c1)" and same: "bulklen c2 = bulklen c1" "multibulklen c2 = multibulklen c1"
    "c_argv c2 = c_argv c1" "argv_cap c2 = argv_cap c1" "reqtype c2 = reqtype c1" by (simp_all add: c2_def)
  show ?thesis
  proof (cases err)
    case True
    then have "flag_close c1" "bulklen c1 = -1" using l(2) by (simp_all add: loop_post_def)
    moreover have "multibulk_args c pos = Some (False, c1)" using l(1) True by (simp add: multibulk_args_def)
    ultimately show ?thesis by (intro exI [of _ False] exI [of _ c1]) (simp add: parse_inv_def bulk_inv_def)
  next
    case False
    have p: "length (c_argv c1) + multibulklen c1 = argv_cap c1" "reqtype c1 = ReqMultibulk"
      "bulklen c1 = -1 \<or> multibulklen c1 \<noteq> 0 \<and> 0 \<le> bulklen c1 \<and> bulklen c1 \<le> bulk_limit \<and> int (length (querybuf c1)) - int p1 < bulklen c1 + 2"
      using l(2) False assms(3) by (auto simp: loop_post_def split: if_splits)
    have r: "multibulk_args c pos = Some (multibulklen c2 = 0, c2)" using l(1) False by (simp add: multibulk_args_def c2_def Let_def)
    have b: "bulk_inv c2" using p(3) by (auto simp: bulk_inv_def same q2)
    have "parse_core c2" if "multibulklen c2 \<noteq> 0" using p(1,2) that by (simp add: parse_core_def same)
    then show ?thesis using r b p(3) by (intro exI [of _ "multibulklen c2 = 0"] exI [of _ c2]) (auto simp: parse_inv_def same)
  qed
qed

lemma request_safe_step:
  assumes core: "parse_core c" and b: "bulk_inv c" and q: "querybuf c \<noteq> []" and n: "length (querybuf c) < SDS_LIMIT"
  shows "\<exists>fin c'. process_request c = Some (fin, c') \<and> bulk_inv c' \<and> (if fin then bulklen c' = -1 else parse_inv c')"
proof -
  define c0 where "c0 = c\<lparr>reqtype := req_of c\<rparr>"
  have f: "querybuf c0 = querybuf c" "c_argv c0 = c_argv c" "multibulklen c0 = multibulklen c" "bulklen c0 = bulklen c" "argv_cap c0 = argv_cap c" "reqtype c0 = req_of c"
    by (simp_all add: c0_def)
  have hd: "qb_at (querybuf c) 0 = hd (querybuf c)" using q by (simp add: qb_at_def nth_append hd_conv_nth)
  have stop: "parse_inv (setProtocolError p (addReplyError t c0)) \<and> bulk_inv (setProtocolError p (addReplyError t c0))" if "bulklen c = -1" for p t
    using that by (simp add: parse_inv_def bulk_inv_def setProtocolError_def addReplyError_def f)
  show ?thesis
  proof (cases "multibulklen c = 0")
    case False
    have m: "reqtype c = ReqMultibulk" "length (c_argv c) + multibulklen c = argv_cap c" using core False by (simp_all add: parse_core_def)
    have r: "req_of c = ReqMultibulk" using m(1) by (simp add: req_of_def)
    have "process_request c = multibulk_args c0 0" using r False f by (simp add: process_request_def c0_def processMultibulkBuffer_def)
    moreover have "length (c_argv c0) + multibulklen c0 = argv_cap c0" "multibulklen c0 \<noteq> 0" "reqtype c0 = ReqMultibulk"
      "bulklen c0 = -1 \<or> 0 \<le> bulklen c0 \<and> bulklen c0 \<le> bulk_limit" using m(2) r False b by (auto simp: f bulk_inv_def)
    ultimately show ?thesis using args_safe [of c0 0] by simp
  next
    case True
    have i: "c_argv c = []" "bulklen c = -1" "reqtype c = ReqMultibulk \<longrightarrow> hd (querybuf c) = 42" using core True by (simp_all add: parse_core_def)
    have binv: "bulk_inv c0" using i(2) by (simp add: bulk_inv_def f)
    show ?thesis
    proof (cases "req_of c = ReqMultibulk")
      case multi: False
      have il: "req_of c = ReqInline" using multi by (cases "reqtype c") (simp_all add: req_of_def split: if_splits)
      then have p: "process_request c = processInlineBuffer c0" by (simp add: process_request_def c0_def)
      obtain fin c' where r: "processInlineBuffer c0 = Some (fin, c')" using inline_total [of c0] n f(1) by auto
      have "bulklen c' = -1" using r i(2) f(4)
        by (auto simp: processInlineBuffer_def bind_eq_Some_conv Let_def setProtocolError_def addReplyError_def split: option.splits if_splits)
      moreover have "flag_close c' \<or> c' = c0" if "\<not> fin" using r that
        by (auto simp: processInlineBuffer_def bind_eq_Some_conv Let_def setProtocolError_def addReplyError_def split: option.splits if_splits)
      moreover have "parse_core c0" using True i il by (simp add: parse_core_def f)
      ultimately show ?thesis using p r by (intro exI [of _ fin] exI [of _ c']) (auto simp: parse_inv_def bulk_inv_def)
    next
      case multi: True
      then have at: "qb_at (querybuf c) 0 = 42" using i(3) hd by (auto simp: req_of_def split: if_splits)
      have p: "process_request c = processMultibulkBuffer c0" using multi by (simp add: process_request_def c0_def)
      have core0: "parse_core c0" using True i q multi at hd by (simp add: parse_core_def f)
      have wait: ?thesis if "processMultibulkBuffer c0 = Some (False, c0)" using that p core0 binv
        by (intro exI [of _ False] exI [of _ c0]) (simp add: parse_inv_def)
      have bad: ?thesis if "processMultibulkBuffer c0 = Some (False, setProtocolError 0 (addReplyError t c0))" for t
        using that p stop [OF i(2), of 0 t] by (intro exI [of _ False] exI [of _ "setProtocolError 0 (addReplyError t c0)"]) simp
      show ?thesis
      proof (cases "sds_strchr (querybuf c) 0 13")
        case None
        show ?thesis
        proof (cases "length (querybuf c) > PROTO_INLINE_MAX_SIZE")
          case long: True
          then show ?thesis using None i True by (intro bad) (simp add: processMultibulkBuffer_def f)
        next
          case short: False
          then show ?thesis using None i True by (intro wait) (simp add: processMultibulkBuffer_def f)
        qed
      next
        case nl: (Some nl)
        show ?thesis
        proof (cases "int nl > int (length (querybuf c)) - 2")
          case short: True
          then show ?thesis using nl i True by (intro wait) (simp add: processMultibulkBuffer_def f)
        next
          case line: False
          show ?thesis
          proof (cases "string2ll (take (nl - 1) (drop 1 (querybuf c)))")
            case None
            then show ?thesis using nl line at i True by (intro bad) (simp add: processMultibulkBuffer_def f)
          next
            case ll: (Some ll)
            consider (big) "ll > 1024 * 1024" | (none) "ll \<le> 0" | (some) "0 < ll" "\<not> ll > 1024 * 1024" by linarith
            then show ?thesis
            proof cases
              case big
              then show ?thesis using nl line at i True ll by (intro bad) (simp add: processMultibulkBuffer_def f)
            next
              case none
              then have "processMultibulkBuffer c0 = Some (True, c0\<lparr>querybuf := drop (nl + 2) (querybuf c)\<rparr>)"
                using nl line at i True ll by (simp add: processMultibulkBuffer_def f)
              then show ?thesis using p i(2) by (intro exI [of _ True] exI conjI, simp) (simp_all add: bulk_inv_def f)
            next
              case some
              define c1 where "c1 = c0\<lparr>multibulklen := nat ll, argv_cap := nat ll\<rparr>"
              have "processMultibulkBuffer c0 = multibulk_args c1 (nl + 2)"
                using nl line at i True ll some by (simp add: processMultibulkBuffer_def f c1_def)
              moreover have "length (c_argv c1) + multibulklen c1 = argv_cap c1" "multibulklen c1 \<noteq> 0" "reqtype c1 = ReqMultibulk" "bulklen c1 = -1"
                using i multi some by (simp_all add: c1_def f)
              ultimately show ?thesis using args_safe [of c1 "nl + 2"] p by simp
            qed
          qed
        qed
      qed
    qed
  qed
qed

text \<open>A command that does not return \<open>C_OK\<close> has closed or freed the client: what \<open>processCommand\<close> does for
  \<open>QUIT\<close> and when memory is short.\<close>

definition run_law :: "'s runner \<Rightarrow> bool" where
  "run_law run \<longleftrightarrow> (\<forall>s argv. ce_ok (snd (run s argv)) \<or> ce_freed (snd (run s argv)) \<or> ce_close (snd (run s argv)))"

definition live_inv :: "client \<Rightarrow> bool" where
  "live_inv c \<longleftrightarrow> bulk_inv c \<and> (flag_close c \<or> parse_core c)"

lemma live_parse: "live_inv c \<Longrightarrow> parse_inv c" "parse_inv c \<Longrightarrow> \<not> c_freed c \<Longrightarrow> live_inv c"
  by (auto simp: live_inv_def parse_inv_def)

lemma reset_inv: "live_inv (resetClient c)"
  by (simp add: live_inv_def bulk_inv_def parse_core_def resetClient_def)

lemma run_inv:
  assumes "run_law run" and "bulklen c = -1"
  shows "parse_inv (snd (run_command run s c)) \<and> length (querybuf (snd (run_command run s c))) = length (querybuf c)"
proof -
  obtain t e where r: "run s (c_argv c) = (t, e)" by (cases "run s (c_argv c)")
  have law: "ce_ok e \<or> ce_freed e \<or> ce_close e" using assms(1) r unfolding run_law_def by (metis snd_conv)
  show ?thesis
  proof (cases "ce_ok e")
    case True
    then show ?thesis using live_parse(1) [OF reset_inv] r by (simp add: run_command_def Let_def) (simp add: resetClient_def)
  next
    case False
    then show ?thesis using law r assms(2) by (auto simp: run_command_def Let_def parse_inv_def bulk_inv_def)
  qed
qed

lemma input_safe:
  assumes "run_law run"
  shows "live_inv c \<Longrightarrow> length (querybuf c) < SDS_LIMIT \<Longrightarrow>
    \<exists>s' c'. processInputBuffer run paused s c = Some (s', c') \<and> parse_inv c'"
proof (induction "length (querybuf c)" arbitrary: s c rule: less_induct)
  case less
  show ?case
  proof (cases "querybuf c = [] \<or> (\<not> flag_slave c \<and> paused) \<or> flag_blocked c \<or> flag_close c")
    case True
    then have "processInputBuffer run paused s c = Some (s, c)" by (subst processInputBuffer.simps) auto
    then show ?thesis using less.prems live_parse by simp
  next
    case False
    then have core: "parse_core c" "bulk_inv c" "querybuf c \<noteq> []" using less.prems(1) by (simp_all add: live_inv_def)
    obtain fin c1 where p: "process_request c = Some (fin, c1)" "bulk_inv c1" "if fin then bulklen c1 = -1 else parse_inv c1"
      using request_safe_step [OF core less.prems(2)] by blast
    show ?thesis
    proof (cases fin)
      case fin: False
      then have "processInputBuffer run paused s c = Some (s, c1)" using False p(1) by (subst processInputBuffer.simps) auto
      then show ?thesis using p(3) fin by simp
    next
      case True
      have lt: "length (querybuf c1) < length (querybuf c)" using process_request_less [of c c1] p(1) True core(3) by simp
      have rec: "\<exists>s' c'. processInputBuffer run paused s1 c2 = Some (s', c') \<and> parse_inv c'"
        if "length (querybuf c2) = length (querybuf c1)" "live_inv c2" for s1 c2
        using less.hyps [of c2 s1] that lt less.prems(2) by simp
      show ?thesis
      proof (cases "c_argv c1 = []")
        case empty: True
        then have "processInputBuffer run paused s c = processInputBuffer run paused s (resetClient c1)"
          using False p(1) True by (subst processInputBuffer.simps) auto
        moreover have "length (querybuf (resetClient c1)) = length (querybuf c1)" by (simp add: resetClient_def)
        ultimately show ?thesis using rec [of "resetClient c1" s] reset_inv by simp
      next
        case ne: False
        obtain s2 c2 where r: "run_command run s c1 = (s2, c2)" by (cases "run_command run s c1")
        have i2: "parse_inv c2" "length (querybuf c2) = length (querybuf c1)" using run_inv [OF assms, of c1 s] p(3) True r by simp_all
        show ?thesis
        proof (cases "c_freed c2")
          case freed: True
          then have "processInputBuffer run paused s c = Some (s2, c2)" using False p(1) True ne r by (subst processInputBuffer.simps) auto
          then show ?thesis using i2 by simp
        next
          case live: False
          then have "processInputBuffer run paused s c = processInputBuffer run paused s2 c2"
            using False p(1) True ne r by (subst processInputBuffer.simps) auto
          then show ?thesis using rec [OF i2(2) live_parse(2) [OF i2(1) live]] by simp
        qed
      qed
    qed
  qed
qed

section \<open>Reading\<close>

lemma readlen_nonneg: "bulk_inv c \<Longrightarrow> 0 \<le> query_readlen c"
  by (auto simp: query_readlen_def bulk_inv_def Let_def)

lemma more_inv:
  assumes "live_inv c" and "length x \<le> nat (query_readlen c)"
  shows "live_inv (c\<lparr>querybuf := querybuf c @ x\<rparr>)"
proof -
  have "bulk_inv (c\<lparr>querybuf := querybuf c @ x\<rparr>)"
  proof (cases "bulklen c \<ge> PROTO_MBULK_BIG_ARG \<and> reqtype c = ReqMultibulk \<and> multibulklen c \<noteq> 0")
    case True
    then have b: "bulklen c \<le> bulk_limit" "int (length (querybuf c)) \<le> bulklen c + 2" using assms(1) by (auto simp: live_inv_def bulk_inv_def)
    have "s32 (bulklen c + 2 - int (length (querybuf c))) = bulklen c + 2 - int (length (querybuf c))" using b by (intro s32_id) simp_all
    then have "query_readlen c \<le> bulklen c + 2 - int (length (querybuf c))" using True by (simp add: query_readlen_def Let_def)
    then show ?thesis using b True assms(2) by (auto simp: bulk_inv_def)
  next
    case False
    then show ?thesis using assms(1) by (auto simp: live_inv_def bulk_inv_def)
  qed
  moreover have "parse_core c \<Longrightarrow> parse_core (c\<lparr>querybuf := querybuf c @ x\<rparr>)" by (auto simp: parse_core_def)
  ultimately show ?thesis using assms(1) by (auto simp: live_inv_def)
qed

lemma read_safe:
  assumes run: "run_law run" and inv: "parse_inv c" and live: "\<not> c_freed c" and mx: "max_len < SDS_LIMIT"
  shows "\<exists>s' c' rest. readQueryFromClient run paused max_len s c avail = Some (s', c', rest) \<and> parse_inv c'"
proof -
  have li: "live_inv c" by (rule live_parse(2) [OF inv live])
  have r0: "0 \<le> query_readlen c" using readlen_nonneg inv by (simp add: parse_inv_def)
  define k where "k = min (nat (query_readlen c)) (length avail)"
  define c1 where "c1 = c\<lparr>querybuf := querybuf c @ take k avail\<rparr>"
  have l1: "live_inv c1" unfolding c1_def by (rule more_inv [OF li]) (simp add: k_def)
  consider (none) "k = 0" | (long) "k \<noteq> 0" "length (querybuf c1) > max_len" | (run) "k \<noteq> 0" "\<not> length (querybuf c1) > max_len" by blast
  then show ?thesis
  proof cases
    case none
    then have "readQueryFromClient run paused max_len s c avail = Some (s, c\<lparr>c_freed := True\<rparr>, avail)"
      using r0 by (simp add: readQueryFromClient_def k_def)
    moreover have "parse_inv (c\<lparr>c_freed := True\<rparr>)" using li by (simp add: live_inv_def parse_inv_def bulk_inv_def)
    ultimately show ?thesis by blast
  next
    case long
    then have "readQueryFromClient run paused max_len s c avail = Some (s, c1\<lparr>c_freed := True\<rparr>, drop k avail)"
      using r0 unfolding readQueryFromClient_def k_def [symmetric] Let_def c1_def [symmetric] by simp
    moreover have "parse_inv (c1\<lparr>c_freed := True\<rparr>)" using l1 by (simp add: live_inv_def parse_inv_def bulk_inv_def)
    ultimately show ?thesis by blast
  next
    case run
    obtain s' c' where p: "processInputBuffer run paused s c1 = Some (s', c')" "parse_inv c'"
      using input_safe [OF assms(1) l1] run(2) mx by force
    then have "readQueryFromClient run paused max_len s c avail = Some (s', c', drop k avail)"
      using r0 run unfolding readQueryFromClient_def k_def [symmetric] Let_def c1_def [symmetric] by simp
    then show ?thesis using p(2) by blast
  qed
qed

text \<open>Any sequence of readable events, with any bytes in the socket or a failing \<open>read\<close>, and with clients paused or not.\<close>

inductive read_step :: "'s runner \<Rightarrow> nat \<Rightarrow> 's \<times> client \<Rightarrow> 's \<times> client \<Rightarrow> bool" for run max_len where
  received: "\<not> c_freed c \<Longrightarrow> readQueryFromClient run paused max_len s c avail = Some (s', c', rest) \<Longrightarrow> read_step run max_len (s, c) (s', c')"
| failed: "\<not> c_freed c \<Longrightarrow> readQuery_failed eagain c = Some c' \<Longrightarrow> read_step run max_len (s, c) (s, c')"

lemma read_reach:
  assumes "run_law run" and "max_len < SDS_LIMIT" and "(read_step run max_len)\<^sup>*\<^sup>* (s0, createClient) sc"
  shows "parse_inv (snd sc)"
  using assms(3)
proof (induction rule: rtranclp_induct)
  case base
  then show ?case by (simp add: parse_inv_def bulk_inv_def parse_core_def createClient_def)
next
  case (step sc sc')
  from step.hyps(2) step.IH show ?case
  proof (cases rule: read_step.cases)
    case (received c paused s avail s' c' rest)
    then show ?thesis using read_safe [OF assms(1) _ received(3) assms(2), of paused s avail] step.IH by auto
  next
    case (failed c eagain c' s)
    then show ?thesis using step.IH by (auto simp: readQuery_failed_def parse_inv_def bulk_inv_def split: if_splits)
  qed
qed

section \<open>Properties\<close>

text \<open>C12. No input can bring the request parser into undefined behaviour: after any sequence of reads of
  arbitrary bytes and failing reads, with clients paused or not, the next read of a client that is not freed succeeds.
  No assertion fails, no argument is stored behind the end of the vector, and the length asked for
  is never negative.\<close>

theorem request_safety:
  assumes "run_law run" and "max_len < SDS_LIMIT" and "(read_step run max_len)\<^sup>*\<^sup>* (s0, createClient) (s, c)" and "\<not> c_freed c"
  shows "readQueryFromClient run paused max_len s c avail \<noteq> None \<and> 0 \<le> query_readlen c"
proof -
  have inv: "parse_inv c" using read_reach [OF assms(1-3)] by simp
  then show ?thesis using read_safe [OF assms(1) inv assms(4,2), of paused s avail] readlen_nonneg [of c] by (auto simp: parse_inv_def)
qed

text \<open>A runner that records the commands.\<close>

definition log_run :: "bytes list list runner" where
  "log_run s argv = (s @ [argv], \<lparr>ce_ok = True, ce_freed = False, ce_blocked = False, ce_close = False\<rparr>)"

theorem request_safety_witness:
  "readQueryFromClient log_run False 1073741824 [] createClient (lit ''*9x'' @ [13, 10]) \<noteq> None"
  using request_safety [of log_run 1073741824 "[]" "[]" createClient] by (simp add: run_law_def log_run_def createClient_def)

text \<open>While clients are paused nothing is taken out of the buffer. A client in the middle of a large
  argument is then read until the argument is complete; the next read asks for no bytes at all, gets
  none, and the server takes this for the end of the connection and frees the client although its
  next bytes are waiting.\<close>

theorem paused_client_dropped:
  assumes "reqtype c = ReqMultibulk" and "multibulklen c \<noteq> 0" and "bulklen c \<ge> PROTO_MBULK_BIG_ARG" "bulklen c \<le> bulk_limit"
    and "int (length (querybuf c)) + int r = bulklen c + 2" "0 < r" "int r \<le> PROTO_IOBUF_LEN" and "length (querybuf c) + r \<le> max_len"
    and "\<not> flag_slave c" "\<not> c_freed c" and "r \<le> length avail" and "later \<noteq> []"
  shows "\<exists>c1. readQueryFromClient run True max_len s c avail = Some (s, c1, drop r avail) \<and> \<not> c_freed c1 \<and>
    readQueryFromClient run True max_len s c1 later = Some (s, c1\<lparr>c_freed := True\<rparr>, later)"
proof -
  define c1 where "c1 = c\<lparr>querybuf := querybuf c @ take r avail\<rparr>"
  have rem: "bulklen c + 2 - int (length (querybuf c)) = int r" using assms(5) by simp
  have s: "s32 (int r) = int r" using assms(7) by (intro s32_id) simp_all
  have l: "query_readlen c = int r" using assms(1-3,7) unfolding query_readlen_def rem s by simp
  have l1: "query_readlen c1 = 0" using assms(1-3,5,11) by (simp add: query_readlen_def c1_def)
  have ne: "querybuf c1 \<noteq> []" using assms(6,11) by (auto simp: c1_def)
  have "processInputBuffer run True s c1 = Some (s, c1)" using ne assms(9) by (subst processInputBuffer.simps) (simp add: c1_def)
  then have "readQueryFromClient run True max_len s c avail = Some (s, c1, drop r avail)"
    using assms(6,8,11) l unfolding readQueryFromClient_def l Let_def by (simp add: c1_def [symmetric]) (simp add: c1_def)
  moreover have "readQueryFromClient run True max_len s c1 later = Some (s, c1\<lparr>c_freed := True\<rparr>, later)"
    by (simp add: readQueryFromClient_def l1)
  ultimately show ?thesis using assms(10) by (intro exI [of _ c1]) (simp add: c1_def)
qed

text \<open>A client one byte short of a large argument of one request.\<close>

definition filler :: "nat \<Rightarrow> bytes" where
  "filler n = replicate n 97"

lemma length_filler [simp]: "length (filler n) = n"
  by (simp only: filler_def length_replicate)

theorem paused_client_dropped_witness:
  "\<exists>c c1. reqtype c = ReqMultibulk \<and> bulklen c = 32768 \<and> length (querybuf c) = 32769 \<and>
     readQueryFromClient log_run True 1073741824 [] c [10] = Some ([], c1, []) \<and>
     readQueryFromClient log_run True 1073741824 [] c1 [42] = Some ([], c1\<lparr>c_freed := True\<rparr>, [42])"
proof -
  define c where "c = createClient\<lparr>reqtype := ReqMultibulk, multibulklen := 1, bulklen := 32768, argv_cap := 1, querybuf := filler 32769\<rparr>"
  have "reqtype c = ReqMultibulk" "multibulklen c \<noteq> 0" "bulklen c = 32768" "length (querybuf c) = 32769" "\<not> flag_slave c" "\<not> c_freed c"
    by (simp_all add: c_def createClient_def)
  with paused_client_dropped [of c 1 1073741824 "[10]" "[42]" log_run "[]"] show ?thesis by auto
qed

text \<open>A request of one line that ends in a line feed alone is accepted, but two bytes are removed behind
  it as if it ended in a carriage return and a line feed: the first byte of the next request in the
  buffer is lost.\<close>

theorem inline_newline_eats:
  assumes "querybuf c = line @ 10 # rest" and "0 \<notin> set line" "10 \<notin> set line" "line \<noteq> []" "last line \<noteq> 13"
    and "sdssplitargs line = Some (Some argv)" "sds_list argv = Some args"
  shows "\<exists>c'. processInlineBuffer c = Some (True, c') \<and> c_argv c' = filter (\<lambda>a. a \<noteq> []) args \<and> querybuf c' = drop 1 rest"
proof -
  have "takeWhile (\<lambda>b. b \<noteq> 0) (line @ 10 # rest) = line @ 10 # takeWhile (\<lambda>b. b \<noteq> 0) rest"
    using assms(2) by (induction line) auto
  moreover have "takeWhile (\<lambda>b. b \<noteq> 10) (line @ 10 # takeWhile (\<lambda>b. b \<noteq> 0) rest) = line" using assms(3) by (induction line) auto
  ultimately have nl: "sds_strchr (querybuf c) 0 10 = Some (length line)" using assms(1) by (simp add: sds_strchr_def)
  have "(line @ 10 # rest) ! (length line - 1) \<noteq> 13" using assms(4,5) by (simp add: nth_append last_conv_nth)
  then have n: "(if length line \<noteq> 0 \<and> querybuf c ! (length line - 1) = 13 then length line - 1 else length line) = length line"
    using assms(1) by simp
  have line: "takeWhile (\<lambda>b. b \<noteq> 0) (take (length line) (querybuf c)) = line"
    using assms(1,2) by (auto simp: takeWhile_eq_all_conv)
  have dr: "drop (length line + 2) (querybuf c) = drop 1 rest" using assms(1) by simp
  show ?thesis
    unfolding processInlineBuffer_def nl option.case Let_def n line assms(6) bind.bind_lunit assms(7) dr by simp
qed

theorem inline_newline_eats_witness:
  "\<exists>c'. processInlineBuffer (createClient\<lparr>querybuf := repr (lit ''A'') @ 10 # lit ''PING'' @ [10]\<rparr>) = Some (True, c') \<and>
     c_argv c' = [lit ''A''] \<and> querybuf c' = lit ''ING'' @ [10]"
proof -
  have s: "length (repr (lit ''A'')) < SDS_LIMIT" "repr (lit ''A'') = [34, 65, 34]" by (simp_all add: repr_def repr_char_def lit_def isprint_def)
  obtain v where v: "sdssplitargs (repr (lit ''A'')) = Some (Some v)" "list_all2 sds_rep v [lit ''A'']"
    using splitargs_loop_quoted [of "[]" "[]" "[lit ''A'']" "[]"] by (auto simp: sdssplitargs_def quoted_line_def lit_def)
  have "sds_list v = Some [lit ''A'']" by (rule sds_list_rep [OF v(2)])
  with inline_newline_eats [of "createClient\<lparr>querybuf := repr (lit ''A'') @ 10 # lit ''PING'' @ [10]\<rparr>" "repr (lit ''A'')" "lit ''PING'' @ [10]" v "[lit ''A'']"] v(1)
  show ?thesis by (simp add: s(2) [unfolded lit_def, simplified] lit_def)
qed

end
