(* ===== verification/RequestSpec.thy ===== *)
theory RequestSpec
  imports RequestSafe
begin

text \<open>
  Requests in the counted format are read back whatever way the network cuts the stream. A client
  state stands for what is still to come: \<open>args_wait\<close> relates the position in the buffer, together
  with the bytes not yet received, to the arguments missing.
\<close>

section \<open>The counted format\<close>

definition enc_bulk :: "bytes \<Rightarrow> bytes" where
  "enc_bulk a = 36 # dec_nat (length a) @ [13, 10] @ a @ [13, 10]"

definition enc_args :: "bytes list \<Rightarrow> bytes" where
  "enc_args as = concat (map enc_bulk as)"

definition enc_cmd :: "bytes list \<Rightarrow> bytes" where
  "enc_cmd as = 42 # dec_nat (length as) @ [13, 10] @ enc_args as"

lemma enc_args_simps [simp]: "enc_args [] = []" "enc_args (a # as) = enc_bulk a @ enc_args as" "enc_args (as @ bs) = enc_args as @ enc_args bs"
  by (simp_all add: enc_args_def)

section \<open>Finding the end of a count\<close>

lemma digits_plain: "b \<in> set (dec_nat n) \<Longrightarrow> b \<noteq> 0 \<and> b \<noteq> 13"
proof -
  assume "b \<in> set (dec_nat n)"
  then have "isdigit b" using dec_nat_digits by blast
  then have "48 \<le> unat b" by (simp add: isdigit_def word_le_nat_alt)
  then show ?thesis by auto
qed

lemma strchr_none: "13 \<notin> set (drop pos q) \<Longrightarrow> sds_strchr q pos 13 = None"
  by (auto simp: sds_strchr_def Let_def dest: set_takeWhileD)

lemma takeWhile_plain: "\<forall>b \<in> set h. P b \<Longrightarrow> takeWhile P (h @ r) = h @ takeWhile P r"
  by (induction h) auto

lemma strchr_some:
  assumes "drop pos q = h @ 13 # r" and h: "\<forall>b \<in> set h. b \<noteq> 0 \<and> b \<noteq> 13"
  shows "sds_strchr q pos 13 = Some (pos + length h)"
proof -
  have "takeWhile (\<lambda>b. b \<noteq> 0) (h @ 13 # r) = h @ 13 # takeWhile (\<lambda>b. b \<noteq> 0) r" using h by (subst takeWhile_plain) auto
  moreover have "takeWhile (\<lambda>b. b \<noteq> 13) (h @ 13 # takeWhile (\<lambda>b. b \<noteq> 0) r) = h" using h by (subst takeWhile_plain) auto
  ultimately show ?thesis unfolding sds_strchr_def Let_def assms(1) by simp
qed

text \<open>The three ways in which the buffer can end: inside the count, between the two bytes of the line end,
  or behind them.\<close>

lemma cut_header:
  assumes "t @ f = h @ 13 # 10 # R"
  obtains (inside) u where "h = t @ u" "f \<noteq> []" | (between) "t = h @ [13]" "f \<noteq> []" | (behind) r where "t = h @ 13 # 10 # r" "r @ f = R"
proof -
  obtain us where "t = h @ us \<and> us @ f = 13 # 10 # R \<or> t @ us = h \<and> f = us @ 13 # 10 # R"
    using assms by (auto simp: append_eq_append_conv2)
  then show ?thesis
  proof
    assume a: "t = h @ us \<and> us @ f = 13 # 10 # R"
    show ?thesis
    proof (cases us)
      case Nil
      then show ?thesis using a inside [of "[]"] by auto
    next
      case (Cons x us1)
      then have x: "x = 13" "us1 @ f = 10 # R" using a by auto
      show ?thesis
      proof (cases us1)
        case Nil
        then show ?thesis using a Cons x between by auto
      next
        case (Cons y us2)
        then show ?thesis using a \<open>us = x # us1\<close> x behind [of us2] by auto
      qed
    qed
  next
    assume "t @ us = h \<and> f = us @ 13 # 10 # R"
    then show ?thesis using inside [of us] by auto
  qed
qed

section \<open>Reading the arguments\<close>

definition args_wait :: "client \<Rightarrow> nat \<Rightarrow> bytes list \<Rightarrow> bytes \<Rightarrow> bytes \<Rightarrow> bool" where
  "args_wait c pos rest f T \<longleftrightarrow> multibulklen c = length rest \<and> pos \<le> length (querybuf c) \<and>
     (if bulklen c = -1 then drop pos (querybuf c) @ f = enc_args rest @ T
      else rest \<noteq> [] \<and> bulklen c = int (length (hd rest)) \<and> drop pos (querybuf c) @ f = hd rest @ [13, 10] @ enc_args (tl rest) @ T)"

text \<open>The buffer is not longer than the limit on counts, or holds at most the large argument being read.\<close>

definition size_ok :: "client \<Rightarrow> nat \<Rightarrow> bool" where
  "size_ok c pos \<longleftrightarrow> length (querybuf c) \<le> PROTO_INLINE_MAX_SIZE \<or>
     bulklen c \<ge> PROTO_MBULK_BIG_ARG \<and> pos = 0 \<and> int (length (querybuf c)) \<le> bulklen c + 2"

abbreviation max_bulk :: nat where "max_bulk \<equiv> 536870912"

text \<open>More input is needed, and what is left in the buffer is short.\<close>

definition args_stuck :: "client \<Rightarrow> nat \<Rightarrow> bytes \<Rightarrow> bool" where
  "args_stuck c pos f \<longleftrightarrow> f \<noteq> [] \<and>
     (if bulklen c = -1 then length (querybuf c) - pos \<le> 32 else int (length (querybuf c)) - int pos < bulklen c + 2)"

lemma string2ll_nat: "n \<le> 2 ^ 62 \<Longrightarrow> string2ll (dec_nat n) = Some (int n)"
  by (simp add: string2ll_eq int64_def dec_int_def)

lemma length_dec_nat: "n \<le> 2 ^ 62 \<Longrightarrow> length (dec_nat n) \<le> 21"
proof -
  assume "n \<le> 2 ^ 62"
  then have "int64 (int n)" by (simp add: int64_def)
  from length_dec_int_bound [OF this] show ?thesis by (simp add: dec_int_def)
qed

lemma header_step:
  assumes w: "args_wait c pos (a # rest) f T" and b: "bulklen c = -1" and s: "size_ok c pos" and a: "length a \<le> max_bulk"
  shows "bulk_header c pos = BulkBreak c pos \<and> args_stuck c pos f \<or>
    (\<exists>c1 p1. bulk_header c pos = BulkRead c1 p1 \<and> bulklen c1 = int (length a) \<and> args_wait c1 p1 (a # rest) f T \<and> size_ok c1 p1 \<and>
       (\<exists>q. c1 = c\<lparr>querybuf := q, bulklen := int (length a)\<rparr>))"
proof -
  define h where "h = 36 # dec_nat (length a)"
  define R where "R = a @ [13, 10] @ enc_args rest @ T"
  define q where "q = querybuf c"
  have eq: "drop pos q @ f = h @ 13 # 10 # R" using w b by (simp add: args_wait_def h_def R_def q_def enc_bulk_def)
  have h: "\<forall>x \<in> set h. x \<noteq> 0 \<and> x \<noteq> 13" using digits_plain by (auto simp: h_def)
  have lh: "length h \<le> 22" using length_dec_nat [of "length a"] a by (simp add: h_def)
  have pos: "pos \<le> length q" using w by (simp add: args_wait_def q_def)
  have lq: "length q \<le> PROTO_INLINE_MAX_SIZE" using s b by (simp add: size_ok_def q_def)
  from eq show ?thesis
  proof (cases rule: cut_header)
    case (inside u)
    then have "sds_strchr q pos 13 = None" using h by (intro strchr_none) auto
    then have "bulk_header c pos = BulkBreak c pos" using lq by (simp add: bulk_header_def q_def)
    moreover have "length q - pos \<le> 32" using arg_cong [OF inside(1), of length] lh by simp
    ultimately show ?thesis using inside(2) b by (simp add: args_stuck_def q_def)
  next
    case between
    then have n: "sds_strchr q pos 13 = Some (pos + length h)" using strchr_some [OF _ h, of pos q "[]"] by simp
    have l: "length q = pos + length h + 1" using arg_cong [OF between(1), of length] pos by simp
    then have "bulk_header c pos = BulkBreak c pos" using n by (simp add: bulk_header_def q_def [symmetric])
    moreover have "length q - pos \<le> 32" using l lh by simp
    ultimately show ?thesis using between(2) b by (simp add: args_stuck_def q_def)
  next
    case (behind r)
    then have n: "sds_strchr q pos 13 = Some (pos + length h)" using strchr_some [OF _ h, of pos q "10 # r"] by simp
    have l: "length q = pos + length h + 2 + length r" using arg_cong [OF behind(1), of length] pos by simp
    have at: "qb_at q pos = 36"
    proof -
      have "pos < length q" using l by simp
      then have "qb_at q pos = hd (drop pos q)" by (simp add: qb_at_def nth_append hd_drop_conv_nth)
      then show ?thesis using behind(1) by (simp add: h_def)
    qed
    have "drop (pos + 1) q = dec_nat (length a) @ 13 # 10 # r"
      using arg_cong [OF behind(1), of "drop 1"] by (simp add: h_def)
    then have dig: "string2ll (take (pos + length h - (pos + 1)) (drop (pos + 1) q)) = Some (int (length a))"
      using string2ll_nat [of "length a"] a by (simp add: h_def)
    have dr: "drop (pos + length h + 2) q = r"
    proof -
      have "drop (pos + length h + 2) q = drop (length h + 2) (drop pos q)" by (simp add: add.commute)
      then show ?thesis using behind(1) by simp
    qed
    define c1 where "c1 = (if int (length a) \<ge> PROTO_MBULK_BIG_ARG then c\<lparr>querybuf := r, bulklen := int (length a)\<rparr> else c\<lparr>bulklen := int (length a)\<rparr>)"
    define p1 where "p1 = (if int (length a) \<ge> PROTO_MBULK_BIG_ARG then 0 else pos + length h + 2)"
    have "bulk_header c pos = BulkRead c1 p1"
      using n l at dig a dr by (simp add: bulk_header_def q_def [symmetric] c1_def p1_def)
    moreover have "args_wait c1 p1 (a # rest) f T"
      using w behind(2) dr l by (simp add: args_wait_def c1_def p1_def R_def q_def)
    moreover have "size_ok c1 p1" using lq l by (simp add: size_ok_def c1_def p1_def q_def [symmetric])
    moreover have "\<exists>q. c1 = c\<lparr>querybuf := q, bulklen := int (length a)\<rparr>"
      by (rule exI [of _ "if int (length a) \<ge> PROTO_MBULK_BIG_ARG then r else querybuf c"]) (simp add: c1_def)
    ultimately show ?thesis by (auto simp: c1_def)
  qed
qed

lemma loop_break:
  "bulk_header c pos = BulkBreak c pos \<Longrightarrow> bulklen c = -1 \<Longrightarrow> multibulk_loop c pos = Some (False, c, pos)"
  by (subst multibulk_loop.simps) simp

text \<open>One argument whose length is known: it is stored, or more input is needed.\<close>

lemma data_step:
  assumes w: "args_wait c pos (a # rest) f T" and b: "bulklen c = int (length a)" and s: "size_ok c pos"
    and room: "length (c_argv c) < argv_cap c"
  shows "multibulk_loop c pos = Some (False, c, pos) \<and> args_stuck c pos f \<or>
    (\<exists>c1 p1. multibulk_loop c pos = multibulk_loop c1 p1 \<and> args_wait c1 p1 rest f T \<and> size_ok c1 p1 \<and>
       (\<exists>q. c1 = c\<lparr>querybuf := q, bulklen := -1, c_argv := c_argv c @ [a], multibulklen := length rest\<rparr>))"
proof -
  define q where "q = querybuf c"
  have m: "multibulklen c = Suc (length rest)" and pos: "pos \<le> length q"
    and eq: "drop pos q @ f = a @ [13, 10] @ enc_args rest @ T" using w b by (simp_all add: args_wait_def q_def)
  show ?thesis
  proof (cases "int (length q) - int pos < bulklen c + 2")
    case True
    have "multibulk_loop c pos = Some (False, c, pos)"
      using True m b by (subst multibulk_loop.simps) (simp add: q_def)
    moreover have "f \<noteq> []"
    proof
      assume "f = []"
      then have "length q - pos = length a + 2 + length (enc_args rest @ T)" using arg_cong [OF eq, of length] by simp
      then show False using True b pos by simp
    qed
    ultimately show ?thesis using True b by (simp add: args_stuck_def q_def)
  next
    case False
    then have l: "length a + 2 \<le> length (drop pos q)" using b pos by simp
    have "take (length a + 2) (drop pos q @ f) = a @ [13, 10]" unfolding eq by simp
    then have t2: "take (length a + 2) (drop pos q) = a @ [13, 10]" using l by simp
    have "drop (length a + 2) (drop pos q @ f) = enc_args rest @ T" unfolding eq by simp
    then have d2: "drop (pos + length a + 2) q @ f = enc_args rest @ T" using l by (simp add: add.assoc add.commute)
    have ta: "take (length a) (drop pos q) = a" using arg_cong [OF t2, of "take (length a)"] by simp
    show ?thesis
    proof (cases "pos = 0 \<and> bulklen c \<ge> PROTO_MBULK_BIG_ARG \<and> int (length q) = bulklen c + 2")
      case True
      define c1 where "c1 = c\<lparr>c_argv := c_argv c @ [a], querybuf := [], bulklen := -1, multibulklen := length rest\<rparr>"
      have c1: "c1 = c\<lparr>querybuf := [], bulklen := -1, c_argv := c_argv c @ [a], multibulklen := length rest\<rparr>"
        unfolding c1_def by (rule client.equality) simp_all
      have "length q = length a + 2" using True b by linarith
      then have lq: "length q - 2 = length a" by simp
      have "put_arg (take (length q - 2) q) c = Some (c\<lparr>c_argv := c_argv c @ [a]\<rparr>)" using ta True room unfolding lq by (simp add: put_arg_def)
      then have "multibulk_loop c pos = multibulk_loop c1 0"
        using True False m b by (subst multibulk_loop.simps) (simp add: q_def [symmetric] Let_def c1_def)
      moreover have "args_wait c1 0 rest f T" using d2 True b by (simp add: args_wait_def c1_def)
      moreover have "size_ok c1 0" by (simp add: size_ok_def c1_def)
      ultimately show ?thesis using c1 by blast
    next
      case small: False
      define c1 where "c1 = c\<lparr>c_argv := c_argv c @ [a], bulklen := -1, multibulklen := length rest\<rparr>"
      have "put_arg (take (nat (bulklen c)) (drop pos q)) c = Some (c\<lparr>c_argv := c_argv c @ [a]\<rparr>)" using ta b room by (simp add: put_arg_def)
      then have "multibulk_loop c pos = multibulk_loop c1 (pos + length a + 2)"
        using False small m b by (subst multibulk_loop.simps) (auto simp: q_def [symmetric] Let_def c1_def)
      moreover have "args_wait c1 (pos + length a + 2) rest f T" using d2 l by (simp add: args_wait_def c1_def q_def)
      moreover have "size_ok c1 (pos + length a + 2)"
        using s small False b by (auto simp: size_ok_def c1_def q_def)
      moreover have "c1 = c\<lparr>querybuf := querybuf c, bulklen := -1, c_argv := c_argv c @ [a], multibulklen := length rest\<rparr>"
        unfolding c1_def by (rule client.equality) simp_all
      ultimately show ?thesis by blast
    qed
  qed
qed

text \<open>What the loop does with arguments still missing: it stores as many as are complete.\<close>

lemma loop_ok:
  "args_wait c pos rest f T \<Longrightarrow> size_ok c pos \<Longrightarrow> \<forall>a \<in> set rest. length a \<le> max_bulk \<Longrightarrow>
    length (c_argv c) + length rest = argv_cap c \<Longrightarrow>
    \<exists>n q b pos'. let c' = c\<lparr>querybuf := q, bulklen := b, c_argv := c_argv c @ take n rest, multibulklen := length rest - n\<rparr> in
      n \<le> length rest \<and> multibulk_loop c pos = Some (False, c', pos') \<and> args_wait c' pos' (drop n rest) f T \<and> size_ok c' pos' \<and>
      (n < length rest \<longrightarrow> args_stuck c' pos' f)"
proof (induction rest arbitrary: c pos)
  case Nil
  have b: "bulklen c = -1" and m: "multibulklen c = 0" using Nil.prems(1) by (auto simp: args_wait_def split: if_splits)
  have c: "c\<lparr>querybuf := querybuf c, bulklen := -1, c_argv := c_argv c, multibulklen := 0\<rparr> = c" using b m by simp
  have "multibulk_loop c pos = Some (False, c, pos)" using m by (subst multibulk_loop.simps) simp
  then show ?case using Nil.prems(1,2) c by (intro exI [of _ 0] exI [of _ "querybuf c"] exI [of _ "-1"] exI [of _ pos]) simp
next
  case (Cons a rest)
  have m: "multibulklen c = Suc (length rest)" using Cons.prems(1) by (simp add: args_wait_def)
  have la: "length a \<le> max_bulk" using Cons.prems(3) by simp
  have stuck: ?case if "multibulk_loop c pos = Some (False, c1, p1)" "args_stuck c1 p1 f" "args_wait c1 p1 (a # rest) f T"
    "c1 = c\<lparr>querybuf := q, bulklen := b\<rparr>" "size_ok c1 p1" for c1 p1 q b
  proof -
    have "c1 = c\<lparr>querybuf := q, bulklen := b, c_argv := c_argv c, multibulklen := Suc (length rest)\<rparr>" using that(4) m by simp
    then show ?thesis using that(1-3,5) by (intro exI [of _ 0] exI [of _ q] exI [of _ b] exI [of _ p1]) simp
  qed
  have data: ?case if l: "multibulk_loop c pos = multibulk_loop c0 p0" and w: "args_wait c0 p0 (a # rest) f T" and b: "bulklen c0 = int (length a)"
    and s: "size_ok c0 p0" and c0: "c0 = c\<lparr>querybuf := q0, bulklen := int (length a)\<rparr>" for c0 p0 q0
  proof -
    have room: "length (c_argv c0) < argv_cap c0" using Cons.prems(4) c0 by simp
    from data_step [OF w b s room] show ?thesis
    proof
      assume "multibulk_loop c0 p0 = Some (False, c0, p0) \<and> args_stuck c0 p0 f"
      then show ?thesis using stuck [of c0 p0 "int (length a)" q0] l w c0 s by simp
    next
      assume "\<exists>c1 p1. multibulk_loop c0 p0 = multibulk_loop c1 p1 \<and> args_wait c1 p1 rest f T \<and> size_ok c1 p1 \<and>
       (\<exists>q. c1 = c0\<lparr>querybuf := q, bulklen := -1, c_argv := c_argv c0 @ [a], multibulklen := length rest\<rparr>)"
      then obtain c1 p1 q1 where n: "multibulk_loop c0 p0 = multibulk_loop c1 p1" "args_wait c1 p1 rest f T" "size_ok c1 p1"
        "c1 = c\<lparr>querybuf := q1, bulklen := -1, c_argv := c_argv c @ [a], multibulklen := length rest\<rparr>" using c0 by auto
      have "length (c_argv c1) + length rest = argv_cap c1" using Cons.prems(4) n(4) by simp
      from Cons.IH [OF n(2,3) _ this] Cons.prems(3) obtain k q b p' where k: "k \<le> length rest"
        "multibulk_loop c1 p1 = Some (False, c1\<lparr>querybuf := q, bulklen := b, c_argv := c_argv c1 @ take k rest, multibulklen := length rest - k\<rparr>, p')"
        "args_wait (c1\<lparr>querybuf := q, bulklen := b, c_argv := c_argv c1 @ take k rest, multibulklen := length rest - k\<rparr>) p' (drop k rest) f T"
        "size_ok (c1\<lparr>querybuf := q, bulklen := b, c_argv := c_argv c1 @ take k rest, multibulklen := length rest - k\<rparr>) p'"
        "k < length rest \<longrightarrow> args_stuck (c1\<lparr>querybuf := q, bulklen := b, c_argv := c_argv c1 @ take k rest, multibulklen := length rest - k\<rparr>) p' f"
        by (auto simp: Let_def)
      have c1: "c1\<lparr>querybuf := q, bulklen := b, c_argv := c_argv c1 @ take k rest, multibulklen := length rest - k\<rparr> =
          c\<lparr>querybuf := q, bulklen := b, c_argv := c_argv c @ take (Suc k) (a # rest), multibulklen := length (a # rest) - Suc k\<rparr>"
        using n(4) by simp
      show ?thesis using k l n(1) unfolding c1
        by (intro exI [of _ "Suc k"] exI [of _ q] exI [of _ b] exI [of _ p']) (simp add: Let_def)
    qed
  qed
  show ?case
  proof (cases "bulklen c = -1")
    case True
    from header_step [OF Cons.prems(1) True Cons.prems(2) la] show ?thesis
    proof
      assume h: "bulk_header c pos = BulkBreak c pos \<and> args_stuck c pos f"
      have "c = c\<lparr>querybuf := querybuf c, bulklen := -1\<rparr>" using True by simp
      then show ?thesis using stuck [of c pos "-1" "querybuf c"] h Cons.prems(1,2) loop_break [of c pos] True by simp
    next
      assume "\<exists>c1 p1. bulk_header c pos = BulkRead c1 p1 \<and> bulklen c1 = int (length a) \<and> args_wait c1 p1 (a # rest) f T \<and> size_ok c1 p1 \<and>
       (\<exists>q. c1 = c\<lparr>querybuf := q, bulklen := int (length a)\<rparr>)"
      then obtain c1 p1 q1 where h: "bulk_header c pos = BulkRead c1 p1" "bulklen c1 = int (length a)" "args_wait c1 p1 (a # rest) f T" "size_ok c1 p1"
        "c1 = c\<lparr>querybuf := q1, bulklen := int (length a)\<rparr>" by blast
      have "multibulk_loop c pos = multibulk_loop c1 p1" using loop_header [OF h(1) True] h(5) m by simp
      then show ?thesis using data [OF _ h(3,2,4,5)] by simp
    qed
  next
    case False
    then have b: "bulklen c = int (length a)" using Cons.prems(1) by (simp add: args_wait_def)
    then have "c = c\<lparr>querybuf := querybuf c, bulklen := int (length a)\<rparr>" by simp
    then show ?thesis using data [OF refl Cons.prems(1) b Cons.prems(2)] by blast
  qed
qed

section \<open>Whole requests\<close>

definition enc_cmds :: "bytes list list \<Rightarrow> bytes" where
  "enc_cmds cmds = concat (map enc_cmd cmds)"

lemma enc_cmds_simps [simp]: "enc_cmds [] = []" "enc_cmds (a # as) = enc_cmd a @ enc_cmds as"
  by (simp_all add: enc_cmds_def)

text \<open>The commands the format can carry.\<close>

definition cmd_ok :: "bytes list \<Rightarrow> bool" where
  "cmd_ok cmd \<longleftrightarrow> cmd \<noteq> [] \<and> length cmd \<le> 1048576 \<and> (\<forall>a \<in> set cmd. length a \<le> max_bulk)"

text \<open>The client waits for \<open>cmds\<close>, of which \<open>f\<close> is not received yet.\<close>

definition cl_wait :: "client \<Rightarrow> bytes \<Rightarrow> bytes list list \<Rightarrow> bool" where
  "cl_wait c f cmds \<longleftrightarrow>
     (if multibulklen c = 0
      then c_argv c = [] \<and> bulklen c = -1 \<and> querybuf c @ f = enc_cmds cmds \<and> (reqtype c = ReqNone \<or> reqtype c = ReqMultibulk \<and> cmds \<noteq> [])
      else reqtype c = ReqMultibulk \<and> (\<exists>rest cs. cmds = (c_argv c @ rest) # cs \<and> args_wait c 0 rest f (enc_cmds cs) \<and>
        length (c_argv c) + length rest = argv_cap c))"

text \<open>What is left in the buffer between two reads.\<close>

definition rem_ok :: "client \<Rightarrow> bool" where
  "rem_ok c \<longleftrightarrow> (if bulklen c = -1 then length (querybuf c) \<le> 32 else int (length (querybuf c)) < bulklen c + 2)"

text \<open>The parts of the client the parser does not touch.\<close>

definition same_flags :: "client \<Rightarrow> client \<Rightarrow> bool" where
  "same_flags c c' \<longleftrightarrow> flag_slave c' = flag_slave c \<and> flag_blocked c' = flag_blocked c \<and> flag_close c' = flag_close c \<and>
     c_freed c' = c_freed c \<and> c_errors c' = c_errors c"

lemma args_ok:
  assumes w: "args_wait c pos rest f (enc_cmds cs)" and s: "size_ok c pos" and ok: "cmd_ok (c_argv c @ rest)" and rest: "rest \<noteq> []"
    and room: "length (c_argv c) + length rest = argv_cap c" and rt: "reqtype c = ReqMultibulk"
  shows "\<exists>fin c'. multibulk_args c pos = Some (fin, c') \<and> same_flags c c' \<and> reqtype c' = ReqMultibulk \<and>
    (if fin then c_argv c' = c_argv c @ rest \<and> querybuf c' @ f = enc_cmds cs \<and> length (querybuf c') \<le> PROTO_INLINE_MAX_SIZE
     else cl_wait c' f ((c_argv c @ rest) # cs) \<and> rem_ok c' \<and> f \<noteq> [])"
proof -
  have mx: "\<forall>a \<in> set rest. length a \<le> max_bulk" using ok by (simp add: cmd_ok_def)
  obtain n q b pos' c1 where c1: "c1 = c\<lparr>querybuf := q, bulklen := b, c_argv := c_argv c @ take n rest, multibulklen := length rest - n\<rparr>"
    and n: "n \<le> length rest" and l: "multibulk_loop c pos = Some (False, c1, pos')" and w1: "args_wait c1 pos' (drop n rest) f (enc_cmds cs)"
    and s1: "size_ok c1 pos'" and st: "n < length rest \<longrightarrow> args_stuck c1 pos' f"
    using loop_ok [OF w s mx room] unfolding Let_def by blast
  define c2 where "c2 = (if pos' \<noteq> 0 then c1\<lparr>querybuf := drop pos' (querybuf c1)\<rparr> else c1)"
  have q2: "querybuf c2 = drop pos' (querybuf c1)" by (simp add: c2_def)
  have f2: "c_argv c2 = c_argv c @ take n rest" "multibulklen c2 = length rest - n" "bulklen c2 = bulklen c1" "reqtype c2 = ReqMultibulk"
    "argv_cap c2 = argv_cap c" "same_flags c c2" using rt by (simp_all add: c2_def c1 same_flags_def)
  have r: "multibulk_args c pos = Some (multibulklen c2 = 0, c2)" by (simp add: multibulk_args_def l c2_def)
  show ?thesis
  proof (cases "n = length rest")
    case True
    then have b: "bulklen c1 = -1" "querybuf c2 @ f = enc_cmds cs" using w1 q2 by (auto simp: args_wait_def split: if_splits)
    have "length (querybuf c2) \<le> PROTO_INLINE_MAX_SIZE" using s1 b(1) unfolding q2 by (simp add: size_ok_def)
    then show ?thesis using r f2 True b(2) by (intro exI [of _ True] exI [of _ c2]) simp
  next
    case False
    then have lt: "n < length rest" using n by simp
    have w2: "args_wait c2 0 (drop n rest) f (enc_cmds cs)" using w1 f2(2) lt by (simp add: args_wait_def f2(3) q2)
    have sp: "c_argv c2 @ drop n rest = c_argv c @ rest" "length (c_argv c2) + length (drop n rest) = argv_cap c2"
      using f2 lt room by simp_all
    have "cl_wait c2 f ((c_argv c @ rest) # cs)"
      using f2(2,4) lt w2 sp unfolding cl_wait_def by (auto intro!: exI [of _ "drop n rest"] exI [of _ cs])
    moreover have "rem_ok c2" "f \<noteq> []"
      using st lt w1 by (auto simp: args_stuck_def rem_ok_def f2(3) q2 args_wait_def)
    ultimately show ?thesis using r f2 lt by (intro exI [of _ False] exI [of _ c2]) simp
  qed
qed

lemma multibulk_ok:
  assumes w: "cl_wait c f cmds" and q: "querybuf c \<noteq> []" and s: "size_ok c 0" and ok: "\<forall>cmd \<in> set cmds. cmd_ok cmd"
  shows "\<exists>fin c'. process_request c = Some (fin, c') \<and> same_flags c c' \<and>
    (if fin then cmds \<noteq> [] \<and> c_argv c' = hd cmds \<and> querybuf c' @ f = enc_cmds (tl cmds) \<and> length (querybuf c') \<le> PROTO_INLINE_MAX_SIZE
     else cl_wait c' f cmds \<and> rem_ok c' \<and> f \<noteq> [])"
proof (cases "multibulklen c = 0")
  case False
  obtain rest cs where r: "reqtype c = ReqMultibulk" "cmds = (c_argv c @ rest) # cs" "args_wait c 0 rest f (enc_cmds cs)"
      "length (c_argv c) + length rest = argv_cap c"
    using w False by (auto simp: cl_wait_def)
  have ne: "rest \<noteq> []" using r(3) False by (auto simp: args_wait_def)
  have co: "cmd_ok (c_argv c @ rest)" using ok r(2) by simp
  have "process_request c = multibulk_args c 0"
  proof -
    have "c\<lparr>reqtype := req_of c\<rparr> = c" using r(1) by (simp add: req_of_def)
    then show ?thesis using r(1) False by (simp add: process_request_def processMultibulkBuffer_def)
  qed
  moreover obtain fin c' where "multibulk_args c 0 = Some (fin, c')" "same_flags c c'"
    "if fin then c_argv c' = c_argv c @ rest \<and> querybuf c' @ f = enc_cmds cs \<and> length (querybuf c') \<le> PROTO_INLINE_MAX_SIZE
     else cl_wait c' f ((c_argv c @ rest) # cs) \<and> rem_ok c' \<and> f \<noteq> []"
    using args_ok [OF r(3) s co ne r(4,1)] by blast
  ultimately show ?thesis using r(2) by (intro exI [of _ fin] exI [of _ c']) simp
next
  case True
  have b: "c_argv c = []" "bulklen c = -1" "querybuf c @ f = enc_cmds cmds" using w True by (simp_all add: cl_wait_def)
  obtain cmd cs where cmds: "cmds = cmd # cs" using b(3) q by (cases cmds) auto
  define h where "h = 42 # dec_nat (length cmd)"
  define R where "R = enc_args cmd @ enc_cmds cs"
  define c0 where "c0 = c\<lparr>reqtype := ReqMultibulk\<rparr>"
  have f0: "querybuf c0 = querybuf c" "multibulklen c0 = 0" "c_argv c0 = []" "bulklen c0 = -1" "same_flags c c0"
    using True b by (simp_all add: c0_def same_flags_def)
  have eq: "querybuf c @ f = h @ 13 # 10 # R" using b(3) cmds by (simp add: h_def R_def enc_cmd_def)
  have co: "cmd_ok cmd" using ok cmds by simp
  have at: "qb_at (querybuf c) 0 = 42" using eq q by (cases "querybuf c") (simp_all add: h_def qb_at_def)
  have "req_of c = ReqMultibulk" using w True at by (auto simp: cl_wait_def req_of_def)
  then have pr: "process_request c = processMultibulkBuffer c0" by (simp add: process_request_def c0_def)
  have wait: "cl_wait c0 f cmds" using b cmds True by (simp add: cl_wait_def f0 c0_def)
  have h: "\<forall>x \<in> set h. x \<noteq> 0 \<and> x \<noteq> 13" using digits_plain by (auto simp: h_def)
  have lc: "length cmd \<le> 1048576" "0 < length cmd" using co by (simp_all add: cmd_ok_def)
  have lh: "length h \<le> 22" using length_dec_nat [of "length cmd"] lc by (simp add: h_def)
  have lq: "length (querybuf c) \<le> PROTO_INLINE_MAX_SIZE" using s b(2) by (simp add: size_ok_def)
  have stuck: ?thesis if "processMultibulkBuffer c0 = Some (False, c0)" "length (querybuf c) \<le> 32" "f \<noteq> []"
    using that pr wait f0 by (auto simp: rem_ok_def)
  have eq0: "drop 0 (querybuf c) @ f = h @ 13 # 10 # R" using eq by simp
  from eq0 show ?thesis
  proof (cases rule: cut_header)
    case (inside u)
    then have "sds_strchr (querybuf c) 0 13 = None" using h by (intro strchr_none) auto
    then have "processMultibulkBuffer c0 = Some (False, c0)" using lq by (simp add: processMultibulkBuffer_def f0)
    then show ?thesis using stuck inside arg_cong [OF inside(1), of length] lh by simp
  next
    case between
    then have n: "sds_strchr (querybuf c) 0 13 = Some (length h)" using strchr_some [OF _ h, of 0 "querybuf c" "[]"] by simp
    have l: "length (querybuf c) = length h + 1" using between(1) by simp
    then have "processMultibulkBuffer c0 = Some (False, c0)" using n by (simp add: processMultibulkBuffer_def f0)
    then show ?thesis using stuck between l lh by simp
  next
    case (behind r)
    then have n: "sds_strchr (querybuf c) 0 13 = Some (length h)" using strchr_some [OF _ h, of 0 "querybuf c" "10 # r"] by simp
    have l: "length (querybuf c) = length h + 2 + length r" using behind(1) by simp
    have dig: "string2ll (take (length h - 1) (drop 1 (querybuf c))) = Some (int (length cmd))"
      using string2ll_nat [of "length cmd"] lc behind(1) by (simp add: h_def)
    define c1 where "c1 = c0\<lparr>multibulklen := length cmd, argv_cap := length cmd\<rparr>"
    have p: "processMultibulkBuffer c0 = multibulk_args c1 (length h + 2)"
      using n l dig lc at by (simp add: processMultibulkBuffer_def f0 c1_def)
    have f1: "c_argv c1 = []" "querybuf c1 = querybuf c" "bulklen c1 = -1" "multibulklen c1 = length cmd" "reqtype c1 = ReqMultibulk" "argv_cap c1 = length cmd"
      by (simp_all add: c1_def f0) (simp add: c0_def)
    have "drop (length h + 2) (querybuf c) = r" using behind(1) by simp
    then have w1: "args_wait c1 (length h + 2) cmd f (enc_cmds cs)" using l behind(2) by (simp add: args_wait_def f1 R_def)
    have s1: "size_ok c1 (length h + 2)" using lq by (simp add: size_ok_def f1)
    have "same_flags c0 c1" by (simp add: same_flags_def c1_def)
    then have fl: "same_flags c1 c' \<Longrightarrow> same_flags c c'" for c' using f0(5) by (simp add: same_flags_def)
    have ne: "cmd \<noteq> []" using lc by auto
    have co1: "cmd_ok (c_argv c1 @ cmd)" "length (c_argv c1) + length cmd = argv_cap c1" using co f1 by simp_all
    from args_ok [OF w1 s1 co1(1) ne co1(2) f1(5)] obtain fin c' where "multibulk_args c1 (length h + 2) = Some (fin, c')" "same_flags c1 c'"
      "if fin then c_argv c' = cmd \<and> querybuf c' @ f = enc_cmds cs \<and> length (querybuf c') \<le> PROTO_INLINE_MAX_SIZE
       else cl_wait c' f (cmd # cs) \<and> rem_ok c' \<and> f \<noteq> []"
      unfolding f1 append_Nil by blast
    then show ?thesis using pr p fl cmds by (intro exI [of _ fin] exI [of _ c']) simp
  qed
qed

section \<open>The stream of requests\<close>

text \<open>A runner whose commands all succeed and leave the connection alone, and the state after some commands.\<close>

definition plain_run :: "'s runner \<Rightarrow> bool" where
  "plain_run run \<longleftrightarrow> (\<forall>s argv. snd (run s argv) = \<lparr>ce_ok = True, ce_freed = False, ce_blocked = False, ce_close = False\<rparr>)"

definition run_all :: "'s runner \<Rightarrow> 's \<Rightarrow> bytes list list \<Rightarrow> 's" where
  "run_all run s cmds = foldl (\<lambda>s argv. fst (run s argv)) s cmds"

definition calm :: "client \<Rightarrow> bool" where
  "calm c \<longleftrightarrow> \<not> flag_blocked c \<and> \<not> flag_close c \<and> \<not> c_freed c \<and> c_errors c = []"

lemma same_flags_calm: "same_flags c c' \<Longrightarrow> calm c \<Longrightarrow> calm c'"
  by (simp add: same_flags_def calm_def)

lemma run_plain:
  assumes "plain_run run" and "calm c"
  shows "run_command run s c = (fst (run s (c_argv c)), c\<lparr>c_argv := [], reqtype := ReqNone, multibulklen := 0, bulklen := -1\<rparr>)"
proof -
  have "snd (run s (c_argv c)) = \<lparr>ce_ok = True, ce_freed = False, ce_blocked = False, ce_close = False\<rparr>" using assms(1) by (simp add: plain_run_def)
  then obtain t where "run s (c_argv c) = (t, \<lparr>ce_ok = True, ce_freed = False, ce_blocked = False, ce_close = False\<rparr>)"
    by (cases "run s (c_argv c)") simp
  moreover have "c\<lparr>flag_blocked := False, flag_close := flag_close c \<or> False, c_freed := False\<rparr> = c" using assms(2) by (simp add: calm_def)
  ultimately show ?thesis unfolding run_command_def by (simp add: resetClient_def)
qed

text \<open>The input loop runs the commands that are complete and leaves the client waiting for the rest.\<close>

lemma input_ok:
  assumes "plain_run run"
  shows "cl_wait c f cmds \<Longrightarrow> size_ok c 0 \<Longrightarrow> calm c \<Longrightarrow> \<forall>cmd \<in> set cmds. cmd_ok cmd \<Longrightarrow> rem_ok c \<or> querybuf c \<noteq> [] \<Longrightarrow>
    \<exists>n c'. n \<le> length cmds \<and> processInputBuffer run False s c = Some (run_all run s (take n cmds), c') \<and> calm c' \<and>
      cl_wait c' f (drop n cmds) \<and> rem_ok c' \<and> (f = [] \<longrightarrow> querybuf c' = [])"
proof (induction "length cmds" arbitrary: s c cmds rule: less_induct)
  case less
  show ?case
  proof (cases "querybuf c = []")
    case True
    then have "processInputBuffer run False s c = Some (run_all run s (take 0 cmds), c)" by (subst processInputBuffer.simps) (simp add: run_all_def)
    then show ?thesis using less.prems True by (intro exI [of _ 0] exI [of _ c]) simp
  next
    case False
    obtain fin c1 where p: "process_request c = Some (fin, c1)" "same_flags c c1"
      "if fin then cmds \<noteq> [] \<and> c_argv c1 = hd cmds \<and> querybuf c1 @ f = enc_cmds (tl cmds) \<and> length (querybuf c1) \<le> PROTO_INLINE_MAX_SIZE
       else cl_wait c1 f cmds \<and> rem_ok c1 \<and> f \<noteq> []"
      using multibulk_ok [OF less.prems(1) False less.prems(2,4)] by blast
    have calm1: "calm c1" by (rule same_flags_calm [OF p(2) less.prems(3)])
    have flags: "\<not> flag_blocked c" "\<not> flag_close c" using less.prems(3) by (simp_all add: calm_def)
    show ?thesis
    proof (cases fin)
      case fin: False
      then have "processInputBuffer run False s c = Some (run_all run s (take 0 cmds), c1)"
        using False flags p(1) by (subst processInputBuffer.simps) (simp add: run_all_def)
      then show ?thesis using p(3) fin calm1 by (intro exI [of _ 0] exI [of _ c1]) simp
    next
      case True
      obtain cmd cs where cmds: "cmds = cmd # cs" using p(3) True by (cases cmds) auto
      have c1: "c_argv c1 = cmd" "querybuf c1 @ f = enc_cmds cs" "length (querybuf c1) \<le> PROTO_INLINE_MAX_SIZE" using p(3) True cmds by simp_all
      have ne: "cmd \<noteq> []" using less.prems(4) cmds by (simp add: cmd_ok_def)
      define c2 where "c2 = c1\<lparr>c_argv := [], reqtype := ReqNone, multibulklen := 0, bulklen := -1\<rparr>"
      have w2: "cl_wait c2 f cs" "size_ok c2 0" "calm c2" using c1 calm1 by (simp_all add: c2_def cl_wait_def size_ok_def calm_def)
      have r: "run_command run s c1 = (fst (run s cmd), c2)" using run_plain [OF assms calm1, of s] c1(1) by (simp add: c2_def)
      have step: "processInputBuffer run False s c = processInputBuffer run False (fst (run s cmd)) c2"
        using False flags p(1) True c1(1) ne r w2(3) by (subst processInputBuffer.simps) (simp add: calm_def)
      have "rem_ok c2 \<or> querybuf c2 \<noteq> []" by (cases "querybuf c2 = []") (simp_all add: rem_ok_def c2_def)
      then obtain n c' where n: "n \<le> length cs" "processInputBuffer run False (fst (run s cmd)) c2 = Some (run_all run (fst (run s cmd)) (take n cs), c')"
        "calm c'" "cl_wait c' f (drop n cs)" "rem_ok c'" "f = [] \<longrightarrow> querybuf c' = []"
        using less.hyps [of cs c2 "fst (run s cmd)"] w2 less.prems(4) cmds by auto
      then show ?thesis using step cmds by (intro exI [of _ "Suc n"] exI [of _ c']) (simp add: run_all_def)
    qed
  qed
qed

text \<open>The network: bytes of the stream arrive at the socket at any time and in pieces of any size, and the
  server reads when there is something to read. The configuration is the state of the server, the
  client, the bytes in the socket and the bytes still to come.\<close>

inductive net_step :: "'s runner \<Rightarrow> nat \<Rightarrow> 's \<times> client \<times> bytes \<times> bytes \<Rightarrow> 's \<times> client \<times> bytes \<times> bytes \<Rightarrow> bool" for run max_len where
  arrive: "net_step run max_len (s, c, sock, x @ fut) (s, c, sock @ x, fut)"
| receive: "sock \<noteq> [] \<Longrightarrow> readQueryFromClient run False max_len s c sock = Some (s', c', sock') \<Longrightarrow>
    net_step run max_len (s, c, sock, fut) (s', c', sock', fut)"

inductive_cases net_stepE: "net_step run max_len (s, c, sock, fut) cfg"

definition net_inv :: "'s runner \<Rightarrow> 's \<Rightarrow> bytes list list \<Rightarrow> 's \<times> client \<times> bytes \<times> bytes \<Rightarrow> bool" where
  "net_inv run s0 cmds cfg \<longleftrightarrow> (case cfg of (s, c, sock, fut) \<Rightarrow>
     \<exists>n \<le> length cmds. s = run_all run s0 (take n cmds) \<and> cl_wait c (sock @ fut) (drop n cmds) \<and> rem_ok c \<and> calm c \<and>
       (sock @ fut = [] \<longrightarrow> querybuf c = []))"

lemma cl_wait_bulk: "cl_wait c f cmds \<Longrightarrow> \<forall>cmd \<in> set cmds. cmd_ok cmd \<Longrightarrow> bulklen c = -1 \<or> 0 \<le> bulklen c \<and> bulklen c \<le> int max_bulk \<and> multibulklen c \<noteq> 0 \<and> reqtype c = ReqMultibulk"
proof -
  assume w: "cl_wait c f cmds" and ok: "\<forall>cmd \<in> set cmds. cmd_ok cmd"
  show ?thesis
  proof (cases "multibulklen c = 0")
    case True
    then show ?thesis using w by (simp add: cl_wait_def)
  next
    case False
    then obtain rest cs where r: "cmds = (c_argv c @ rest) # cs" "args_wait c 0 rest f (enc_cmds cs)" "reqtype c = ReqMultibulk" using w by (auto simp: cl_wait_def)
    show ?thesis
    proof (cases "bulklen c = -1")
      case False
      then have "rest \<noteq> []" "bulklen c = int (length (hd rest))" using r(2) by (simp_all add: args_wait_def)
      moreover have "length (hd rest) \<le> max_bulk" using ok r(1) \<open>rest \<noteq> []\<close> by (simp add: cmd_ok_def)
      ultimately show ?thesis using \<open>multibulklen c \<noteq> 0\<close> r(3) by simp
    qed simp
  qed
qed

lemma cl_wait_more:
  assumes "cl_wait c (x @ f) cmds"
  shows "cl_wait (c\<lparr>querybuf := querybuf c @ x\<rparr>) f cmds"
proof (cases "multibulklen c = 0")
  case True
  then show ?thesis using assms by (simp add: cl_wait_def)
next
  case False
  then obtain rest cs where r: "cmds = (c_argv c @ rest) # cs" "args_wait c 0 rest (x @ f) (enc_cmds cs)" "reqtype c = ReqMultibulk"
    "length (c_argv c) + length rest = argv_cap c" using assms by (auto simp: cl_wait_def)
  have "args_wait (c\<lparr>querybuf := querybuf c @ x\<rparr>) 0 rest f (enc_cmds cs)" using r(2)
    by (cases "bulklen c = -1") (simp_all add: args_wait_def)
  then show ?thesis using r False unfolding cl_wait_def by (auto intro!: exI [of _ rest] exI [of _ cs])
qed

text \<open>The read never takes more than the rest of a large argument, and it takes something.\<close>

lemma readlen_ok:
  assumes w: "cl_wait c f cmds" and ok: "\<forall>cmd \<in> set cmds. cmd_ok cmd" and r: "rem_ok c"
  shows "0 < query_readlen c \<and>
    (length x \<le> nat (query_readlen c) \<longrightarrow> size_ok (c\<lparr>querybuf := querybuf c @ x\<rparr>) 0 \<and> length (querybuf c @ x) \<le> max_bulk + 2)"
proof (cases "bulklen c \<ge> PROTO_MBULK_BIG_ARG")
  case True
  then have b: "bulklen c \<le> int max_bulk" "multibulklen c \<noteq> 0" "reqtype c = ReqMultibulk" "bulklen c \<noteq> -1"
    using cl_wait_bulk [OF w ok] by auto
  have rem: "0 < bulklen c + 2 - int (length (querybuf c))" using r b(4) by (simp add: rem_ok_def)
  have s: "s32 (bulklen c + 2 - int (length (querybuf c))) = bulklen c + 2 - int (length (querybuf c))" using b(1) rem by (intro s32_id) simp_all
  have l: "query_readlen c = min (bulklen c + 2 - int (length (querybuf c))) PROTO_IOBUF_LEN"
    using True b unfolding query_readlen_def s by (simp add: Let_def min_def)
  show ?thesis using rem True b(1) unfolding l by (auto simp: size_ok_def)
next
  case False
  then have l: "query_readlen c = PROTO_IOBUF_LEN" by (simp add: query_readlen_def)
  have "length (querybuf c) \<le> 32769" using r False by (auto simp: rem_ok_def split: if_splits)
  then show ?thesis unfolding l by (auto simp: size_ok_def)
qed

lemma read_ok:
  assumes run: "plain_run run" and inv: "net_inv run s0 cmds (s, c, sock, fut)" and sock: "sock \<noteq> []"
    and ok: "\<forall>cmd \<in> set cmds. cmd_ok cmd" and mx: "max_bulk + 2 \<le> max_len"
  shows "\<exists>s' c' k. 0 < k \<and> k = min (nat (query_readlen c)) (length sock) \<and>
    readQueryFromClient run False max_len s c sock = Some (s', c', drop k sock) \<and> net_inv run s0 cmds (s', c', drop k sock, fut)"
proof -
  obtain n where n: "n \<le> length cmds" "s = run_all run s0 (take n cmds)" "cl_wait c (sock @ fut) (drop n cmds)" "rem_ok c" "calm c"
    using inv by (auto simp: net_inv_def)
  have ok': "\<forall>cmd \<in> set (drop n cmds). cmd_ok cmd" using ok by (meson in_set_dropD)
  define k where "k = min (nat (query_readlen c)) (length sock)"
  define c1 where "c1 = c\<lparr>querybuf := querybuf c @ take k sock\<rparr>"
  have rl: "0 < query_readlen c" "size_ok c1 0" "length (querybuf c1) \<le> max_len"
    using readlen_ok [OF n(3) ok' n(4), of "take k sock"] mx by (simp_all add: c1_def k_def)
  have k: "0 < k" using rl(1) sock by (simp add: k_def)
  have "cl_wait c (take k sock @ (drop k sock @ fut)) (drop n cmds)" using n(3) by (simp flip: append_assoc)
  then have w1: "cl_wait c1 (drop k sock @ fut) (drop n cmds)" unfolding c1_def by (rule cl_wait_more)
  have ne: "querybuf c1 \<noteq> []" using k sock by (simp add: c1_def)
  have "calm c1" using n(5) by (simp add: c1_def calm_def)
  then obtain j c' where j: "j \<le> length (drop n cmds)" "processInputBuffer run False s c1 = Some (run_all run s (take j (drop n cmds)), c')" "calm c'"
    "cl_wait c' (drop k sock @ fut) (drop j (drop n cmds))" "rem_ok c'" "drop k sock @ fut = [] \<longrightarrow> querybuf c' = []"
    using input_ok [OF run w1 rl(2) _ ok'] ne by blast
  have s': "run_all run s (take j (drop n cmds)) = run_all run s0 (take (n + j) cmds)"
    by (simp add: n(2) run_all_def take_add)
  have "readQueryFromClient run False max_len s c sock = Some (run_all run s (take j (drop n cmds)), c', drop k sock)"
    using rl(1,3) k j(2) by (simp add: readQueryFromClient_def k_def [symmetric] c1_def [symmetric] Let_def)
  moreover have "net_inv run s0 cmds (run_all run s (take j (drop n cmds)), c', drop k sock, fut)"
    using j(1,3-6) n(1) unfolding net_inv_def s' by (auto intro!: exI [of _ "n + j"] simp: add.commute)
  ultimately show ?thesis using k k_def by blast
qed

lemma net_inv_start: "net_inv run s0 cmds (s0, createClient, [], enc_cmds cmds)"
  unfolding net_inv_def by (auto intro!: exI [of _ 0] simp: createClient_def run_all_def cl_wait_def rem_ok_def calm_def)

lemma net_inv_step:
  assumes "plain_run run" and "\<forall>cmd \<in> set cmds. cmd_ok cmd" and "max_bulk + 2 \<le> max_len"
    and "net_step run max_len cfg cfg'" and "net_inv run s0 cmds cfg"
  shows "net_inv run s0 cmds cfg'"
  using assms(4,5)
proof (induction rule: net_step.induct)
  case (arrive s c sock x fut)
  then show ?case by (simp add: net_inv_def)
next
  case (receive sock s c s' c' sock' fut)
  from read_ok [OF assms(1) receive.prems receive.hyps(1) assms(2,3)] receive.hyps(2) show ?case by auto
qed

lemma net_inv_reach:
  assumes "plain_run run" and "\<forall>cmd \<in> set cmds. cmd_ok cmd" and "max_bulk + 2 \<le> max_len"
    and "(net_step run max_len)\<^sup>*\<^sup>* (s0, createClient, [], enc_cmds cmds) cfg"
  shows "net_inv run s0 cmds cfg"
  using assms(4) by (induction rule: rtranclp_induct) (use net_inv_start net_inv_step [OF assms(1-3)] in auto)

section \<open>Properties\<close>



end
