(* ===== verification/Aof.thy ===== *)
theory Aof
  imports RequestSpec Robj
begin

text \<open>
  The append only file, \<open>aof.c\<close>: the text appended for a command, the blocks that hold changes while
  the file is rewritten, and the loading of a file.

  The file is its contents. The state the commands work on is a type argument, and running a command
  an argument of the loader: \<open>None\<close> when the command is unknown. The clock is an argument. A read of
  the file fails only at its end.
\<close>

section \<open>Writing a command\<close>

text \<open>A prefix, a number and a line end, composed in the buffer of 32 bytes: the text and the buffer.\<close>

definition count_text :: "cmemory \<Rightarrow> byte \<Rightarrow> int \<Rightarrow> (bytes \<times> cmemory) option" where
  "count_text buf prefix n = do {
     buf \<leftarrow> mem_write buf 0 [prefix];
     (digits, dlen) \<leftarrow> ll2string (drop 1 buf) 31 n;
     let buf = take 1 buf @ digits;
     let len = 1 + dlen;
     buf \<leftarrow> mem_write buf len [13];
     buf \<leftarrow> mem_write buf (len + 1) [10];
     t \<leftarrow> mem_read buf 0 (len + 2);
     Some (t, buf)
   }"

fun cat_args :: "sds \<Rightarrow> cmemory \<Rightarrow> strobj list \<Rightarrow> sds option" where
  "cat_args dst buf [] = Some dst"
| "cat_args dst buf (a # argv) = do {
     ob \<leftarrow> getDecodedObject a;
     s \<leftarrow> ptr_sds ob;
     (t, buf) \<leftarrow> count_text buf 36 (int (length s));
     dst \<leftarrow> sdscatlen dst t;
     dst \<leftarrow> sdscatlen dst s;
     dst \<leftarrow> sdscatlen dst [13, 10];
     cat_args dst buf argv
   }"

definition catAppendOnlyGenericCommand :: "sds \<Rightarrow> strobj list \<Rightarrow> sds option" where
  "catAppendOnlyGenericCommand dst argv = do {
     (t, buf) \<leftarrow> count_text (replicate 32 None) 42 (int (length argv));
     dst \<leftarrow> sdscatlen dst t;
     cat_args dst buf argv
   }"

datatype aof_proc = ExpireCommand | PexpireCommand | ExpireatCommand | SetexCommand | PsetexCommand | OtherCommand

text \<open>Sums and products that overflow are undefined.\<close>

definition aof_when :: "aof_proc \<Rightarrow> int \<Rightarrow> int \<Rightarrow> int option" where
  "aof_when cmd now when = do {
     when \<leftarrow> (if cmd = ExpireCommand \<or> cmd = SetexCommand \<or> cmd = ExpireatCommand
             then (if int64 (when * 1000) then Some (when * 1000) else None) else Some when);
     if cmd = ExpireCommand \<or> cmd = PexpireCommand \<or> cmd = SetexCommand \<or> cmd = PsetexCommand
     then (if int64 (when + now) then Some (when + now) else None) else Some when
   }"

definition catAppendOnlyExpireAtCommand :: "int \<Rightarrow> sds \<Rightarrow> aof_proc \<Rightarrow> strobj \<Rightarrow> strobj \<Rightarrow> sds option" where
  "catAppendOnlyExpireAtCommand now buf cmd key seconds = do {
     seconds \<leftarrow> getDecodedObject seconds;
     s \<leftarrow> ptr_sds seconds;
     when \<leftarrow> aof_when cmd now (fst (strtol10 (to_nul s)));
     argv0 \<leftarrow> createStringObject (Some (lit ''PEXPIREAT'')) 9;
     argv2 \<leftarrow> createStringObjectFromLongLong when;
     catAppendOnlyGenericCommand buf [argv0, key, argv2]
   }"

section \<open>The rewrite buffer\<close>

abbreviation AOF_RW_BUF_BLOCK_SIZE :: nat where "AOF_RW_BUF_BLOCK_SIZE \<equiv> 10485760"

text \<open>\<open>used\<close> is the length of the data; \<open>None\<close> when data is copied behind the end of a block.\<close>

record aofrwblock =
  blk_buf :: bytes
  blk_free :: nat

definition block_copy :: "aofrwblock \<Rightarrow> bytes \<Rightarrow> aofrwblock option" where
  "block_copy b s =
     (if length (blk_buf b) + length s \<le> AOF_RW_BUF_BLOCK_SIZE
      then Some (b\<lparr>blk_buf := blk_buf b @ s, blk_free := blk_free b - length s\<rparr>) else None)"

text \<open>The loop; the current block is the last one.\<close>

function rw_append_loop :: "aofrwblock list \<Rightarrow> bytes \<Rightarrow> aofrwblock list option" where
  "rw_append_loop blocks s =
     (if s = [] then Some blocks
      else if blocks = [] then rw_append_loop [\<lparr>blk_buf = [], blk_free = AOF_RW_BUF_BLOCK_SIZE\<rparr>] s
      else
        (let b = last blocks;
             thislen = (if blk_free b < length s then blk_free b else length s)
         in case (if thislen \<noteq> 0 then block_copy b (take thislen s) else Some b) of
              None \<Rightarrow> None
            | Some b \<Rightarrow>
                (let blocks = butlast blocks @ [b];
                     s = drop thislen s
                 in if s = [] then Some blocks
                    else rw_append_loop (blocks @ [\<lparr>blk_buf = [], blk_free = AOF_RW_BUF_BLOCK_SIZE\<rparr>]) s)))"
  by pat_completeness auto
termination
  by (relation "measure (\<lambda>(blocks, s). 2 * length s + (if blocks = [] then 2 else if blk_free (last blocks) = 0 then 1 else 0))")
    (auto simp: Let_def split: if_splits)

declare rw_append_loop.simps [simp del]

definition aofRewriteBufferAppend :: "aofrwblock list \<Rightarrow> bytes \<Rightarrow> aofrwblock list option" where
  "aofRewriteBufferAppend blocks s = rw_append_loop blocks s"

definition aofRewriteBufferReset :: "aofrwblock list" where
  "aofRewriteBufferReset = []"

definition aofRewriteBufferSize :: "aofrwblock list \<Rightarrow> nat" where
  "aofRewriteBufferSize blocks = sum_list (map (\<lambda>b. length (blk_buf b)) blocks)"

text \<open>The sender: each element of \<open>ws\<close> is what one \<open>write\<close> to the pipe took, \<open>None\<close> for an error or when there
  are no more. The result: what was sent, and the blocks left.\<close>

fun aofChildWriteDiffData :: "bool \<Rightarrow> aofrwblock list \<Rightarrow> nat list \<Rightarrow> bytes \<times> aofrwblock list" where
  "aofChildWriteDiffData stop [] ws = ([], [])"
| "aofChildWriteDiffData stop (b # blocks) ws =
     (if stop then ([], b # blocks)
      else if blk_buf b = [] then aofChildWriteDiffData stop blocks ws
      else
        (case ws of
           [] \<Rightarrow> ([], b # blocks)
         | w # ws' \<Rightarrow>
             if w = 0 then ([], b # blocks)
             else
               (let n = min w (length (blk_buf b));
                    b' = b\<lparr>blk_buf := drop n (blk_buf b)\<rparr>;
                    (sent, left) = (if blk_buf b' = [] then aofChildWriteDiffData stop blocks ws' else aofChildWriteDiffData stop (b' # blocks) ws')
                in (take n (blk_buf b) @ sent, left))))"

text \<open>The blocks written to a file: each element of \<open>ws\<close> is the result of one \<open>write\<close>, \<open>- 1\<close> for an error. The result
  is the count or \<open>- 1\<close>, and what reached the file.\<close>

fun aofRewriteBufferWrite :: "aofrwblock list \<Rightarrow> int list \<Rightarrow> int \<Rightarrow> int \<times> bytes" where
  "aofRewriteBufferWrite [] ws n = (n, [])"
| "aofRewriteBufferWrite (b # blocks) ws n =
     (if blk_buf b = [] then aofRewriteBufferWrite blocks ws n
      else
        (case ws of
           [] \<Rightarrow> (-1, [])
         | w # ws' \<Rightarrow>
             if w \<noteq> int (length (blk_buf b)) then (-1, take (nat w) (blk_buf b))
             else (let (r, out) = aofRewriteBufferWrite blocks ws' (n + w) in (r, blk_buf b @ out))))"

section \<open>Feeding the file\<close>

record aof_state =
  aof_selected_db :: int
  aof_buf :: sds
  aof_on :: bool
  aof_child :: bool
  aof_blocks :: "aofrwblock list"

text \<open>The format string for \<open>SELECT\<close>, and the text it stands for.\<close>

definition select_fmt :: bytes where
  "select_fmt = lit ''*2'' @ [13, 10] @ lit ''$6'' @ [13, 10] @ lit ''SELECT'' @ [13, 10] @ lit ''$%Iu'' @ [13, 10] @ lit ''%s'' @ [13, 10]"

definition select_text :: "int \<Rightarrow> bytes" where
  "select_text dictid =
     (let seldb = dec_int dictid
      in lit ''*2'' @ [13, 10] @ lit ''$6'' @ [13, 10] @ lit ''SELECT'' @ [13, 10, 36] @ dec_nat (length seldb) @ [13, 10] @ seldb @ [13, 10])"

definition feed_text :: "int \<Rightarrow> aof_proc \<Rightarrow> strobj list \<Rightarrow> sds \<Rightarrow> sds option" where
  "feed_text now cmd argv buf =
     (if cmd = ExpireCommand \<or> cmd = PexpireCommand \<or> cmd = ExpireatCommand then
        (if length argv < 3 then None else catAppendOnlyExpireAtCommand now buf cmd (argv ! 1) (argv ! 2))
      else if cmd = SetexCommand \<or> cmd = PsetexCommand then
        (if length argv < 4 then None
         else do {
           tmp0 \<leftarrow> createStringObject (Some (lit ''SET'')) 3;
           buf \<leftarrow> catAppendOnlyGenericCommand buf [tmp0, argv ! 1, argv ! 3];
           catAppendOnlyExpireAtCommand now buf cmd (argv ! 1) (argv ! 2)
         })
      else catAppendOnlyGenericCommand buf argv)"

definition feedAppendOnlyFile :: "int \<Rightarrow> 'a aof_state_scheme \<Rightarrow> aof_proc \<Rightarrow> int \<Rightarrow> strobj list \<Rightarrow> 'a aof_state_scheme option" where
  "feedAppendOnlyFile now st cmd dictid argv = do {
     buf \<leftarrow> sdsempty;
     buf \<leftarrow> (if dictid \<noteq> aof_selected_db st then sdscatprintf buf select_fmt (select_text dictid) else Some buf);
     let st = st\<lparr>aof_selected_db := dictid\<rparr>;
     buf \<leftarrow> feed_text now cmd argv buf;
     t \<leftarrow> sds_bytes buf;
     abuf \<leftarrow> (if aof_on st then sdscatlen (aof_buf st) t else Some (aof_buf st));
     blocks \<leftarrow> (if aof_child st then aofRewriteBufferAppend (aof_blocks st) t else Some (aof_blocks st));
     Some (st\<lparr>aof_buf := abuf, aof_blocks := blocks\<rparr>)
   }"

section \<open>Loading the file\<close>

text \<open>\<open>fgets\<close> with a buffer of 128 bytes: the line, with its end if it fits.\<close>

definition aof_fgets :: "bytes \<Rightarrow> nat" where
  "aof_fgets f = min 127 (length (takeWhile (\<lambda>b. b \<noteq> 10) f) + 1)"

text \<open>Whether \<open>fgets\<close> met the end of the file.\<close>

definition aof_feof :: "bytes \<Rightarrow> bool" where
  "aof_feof f \<longleftrightarrow> 10 \<notin> set (take 127 f) \<and> length f < 127"

datatype args_result = ArgsRead "bytes list" bytes | ArgsEof | ArgsFormat | ArgsHuge

text \<open>The arguments of a command. A negative length becomes an unsigned one near the largest: allocating it
  fails, or the sum with the header wraps. It is reported as \<open>HugeLength\<close> and not followed further.\<close>

fun load_args :: "nat \<Rightarrow> bytes \<Rightarrow> args_result" where
  "load_args 0 f = ArgsRead [] f"
| "load_args (Suc j) f =
     (if f = [] then ArgsEof
      else
        (let buf = take (aof_fgets f) f;
             f = drop (aof_fgets f) f
         in if hd buf \<noteq> 36 then ArgsFormat
            else
              (let len = fst (strtol10 (to_nul (tl buf)))
               in if len < 0 then ArgsHuge
                  else if length f < nat len then ArgsEof
                  else if length f < nat len + 2 then ArgsEof
                  else
                    (case load_args j (drop (nat len + 2) f) of
                       ArgsRead as f' \<Rightarrow> ArgsRead (take (nat len) f # as) f'
                     | r \<Rightarrow> r))))"

datatype load_error = BadFormat | ReadError | UnexpectedEof | UnknownCommand | HugeLength

text \<open>The file that remains, or the reason for which the server exits.\<close>

datatype 's load_result = Loaded 's bytes | EmptyFile | LoadExit load_error 's

definition load_uxeof :: "bool \<Rightarrow> bool \<Rightarrow> bytes \<Rightarrow> nat \<Rightarrow> 's \<Rightarrow> 's load_result" where
  "load_uxeof truncated trunc_ok content valid_up_to s =
     (if truncated \<and> trunc_ok then Loaded s (take valid_up_to content) else LoadExit UnexpectedEof s)"

lemma load_args_le: "load_args j f = ArgsRead as f' \<Longrightarrow> length f' \<le> length f"
proof (induction j arbitrary: f as)
  case (Suc j)
  define len where "len = nat (fst (strtol10 (to_nul (tl (take (aof_fgets f) f)))))"
  obtain as' where "load_args j (drop (len + 2) (drop (aof_fgets f) f)) = ArgsRead as' f'"
    using Suc.prems by (auto simp: Let_def len_def split: if_splits args_result.splits)
  from Suc.IH [OF this] show ?case by simp
qed simp

lemma aof_fgets_pos: "f \<noteq> [] \<Longrightarrow> 0 < aof_fgets f"
  by (simp add: aof_fgets_def)

text \<open>The loop; \<open>f\<close> is what is left of the file.\<close>

function load_loop :: "('s \<Rightarrow> bytes list \<Rightarrow> 's option) \<Rightarrow> ('s \<Rightarrow> bool) \<Rightarrow> bool \<times> bool \<Rightarrow> bytes \<Rightarrow> bytes \<Rightarrow> nat \<Rightarrow> 's \<Rightarrow> 's load_result" where
  "load_loop run in_multi opts content f valid_up_to s =
     (if f = [] then
        (if in_multi s then load_uxeof (fst opts) (snd opts) content valid_up_to s else Loaded s content)
      else
        (let buf = take (aof_fgets f) f;
             f' = drop (aof_fgets f) f
         in if hd buf \<noteq> 42 then LoadExit BadFormat s
            else if tl buf = [] \<or> hd (tl buf) = 0 then
              (if aof_feof f then load_uxeof (fst opts) (snd opts) content valid_up_to s else LoadExit ReadError s)
            else
              (let argc = s32 (fst (strtol10 (to_nul (tl buf))))
               in if argc < 1 then LoadExit BadFormat s
                  else
                    (case load_args (nat argc) f' of
                       ArgsEof \<Rightarrow> load_uxeof (fst opts) (snd opts) content valid_up_to s
                     | ArgsFormat \<Rightarrow> LoadExit BadFormat s
                     | ArgsHuge \<Rightarrow> LoadExit HugeLength s
                     | ArgsRead argv f'' \<Rightarrow>
                         (case run s argv of
                            None \<Rightarrow> LoadExit UnknownCommand s
                          | Some s' \<Rightarrow>
                              load_loop run in_multi opts content f'' (if fst opts then length content - length f'' else valid_up_to) s')))))"
  by pat_completeness auto
termination
proof (relation "measure (\<lambda>(run, in_multi, opts, content, f, valid, s). length f)", goal_cases)
  case (2 run in_multi opts content f valid s buf f' argc argv f'' s')
  have "length f'' \<le> length f'" using load_args_le 2 by blast
  moreover have "length f' < length f" using 2 aof_fgets_pos [of f] by (simp add: aof_fgets_def)
  ultimately show ?case by simp
qed auto

declare load_loop.simps [simp del]

text \<open>\<open>opts\<close>: whether a truncated file is accepted (\<open>aof-load-truncated\<close>), and whether cutting the file succeeds.\<close>

definition loadAppendOnlyFile :: "('s \<Rightarrow> bytes list \<Rightarrow> 's option) \<Rightarrow> ('s \<Rightarrow> bool) \<Rightarrow> bool \<times> bool \<Rightarrow> bytes \<Rightarrow> 's \<Rightarrow> 's load_result" where
  "loadAppendOnlyFile run in_multi opts content s =
     (if content = [] then EmptyFile else load_loop run in_multi opts content content 0 s)"

end
