(* ===== verification/AofSpec.thy ===== *)
theory AofSpec
  imports Aof
begin

text \<open>
  The text of the append only file: what is written for a command is its encoding, whole files are
  read back, and a file cut off at any byte is read up to the last complete command.
\<close>

section \<open>Writing\<close>

lemma count_text_ok:
  assumes buf: "length buf = 32" and n: "int64 n"
  shows "\<exists>buf'. count_text buf p n = Some (p # dec_int n @ [13, 10], buf') \<and> length buf' = 32"
proof -
  have l: "length (dec_int n) \<le> 20" by (rule length_dec_int_bound [OF n])
  define b1 where "b1 = Some p # drop 1 buf"
  have w: "mem_write buf 0 [p] = Some b1" using buf by (cases buf) (simp_all add: mem_write_def b1_def)
  define rest where "rest = drop (Suc (length (dec_int n))) (drop 1 buf)"
  have lr: "length rest = 30 - length (dec_int n)" using buf l by (simp add: rest_def)
  have s: "ll2string (drop 1 b1) 31 n = Some (map Some (dec_int n @ [0]) @ rest, length (dec_int n))"
    using ll2string_eq [OF n, of 31 "drop 1 buf"] buf l by (simp add: b1_def rest_def)
  obtain x y where r: "rest = x # y" using lr l by (cases rest) auto
  define b2 where "b2 = Some p # map Some (dec_int n) @ Some 0 # x # y"
  have "take 1 b1 @ map Some (dec_int n @ [0]) @ rest = b2" by (simp add: b1_def b2_def r)
  moreover have "mem_write b2 (1 + length (dec_int n)) [13] = Some (Some p # map Some (dec_int n) @ Some 13 # x # y)"
    using mem_write_at [of "Some p # map Some (dec_int n)" "1 + length (dec_int n)" "[Some 0]" "[13]" "x # y"] by (simp add: b2_def)
  moreover have "mem_write (Some p # map Some (dec_int n) @ Some 13 # x # y) (1 + length (dec_int n) + 1) [10] =
      Some (Some p # map Some (dec_int n) @ Some 13 # Some 10 # y)"
    using mem_write_at [of "Some p # map Some (dec_int n) @ [Some 13]" "1 + length (dec_int n) + 1" "[x]" "[10]" y] by simp
  moreover have "mem_read (Some p # map Some (dec_int n) @ Some 13 # Some 10 # y) 0 (1 + length (dec_int n) + 2) = Some (p # dec_int n @ [13, 10])"
    using mem_read_at [of "[]" 0 "p # dec_int n @ [13, 10]" "1 + length (dec_int n) + 2" y] by simp
  ultimately have "count_text buf p n = Some (p # dec_int n @ [13, 10], Some p # map Some (dec_int n) @ Some 13 # Some 10 # y)"
    unfolding count_text_def w s bind.bind_lunit prod.case Let_def by simp
  moreover have "length (Some p # map Some (dec_int n) @ Some 13 # Some 10 # y) = 32" using lr l r by simp
  ultimately show ?thesis by blast
qed

lemma dec_int_nat: "dec_int (int n) = dec_nat n"
  by (simp add: dec_int_def)

lemma enc_bulk_count: "enc_bulk a = (36 # dec_int (int (length a)) @ [13, 10]) @ a @ [13, 10]"
  by (simp add: enc_bulk_def dec_int_nat)

lemma cat_args_ok:
  "sds_rep dst xs \<Longrightarrow> length buf = 32 \<Longrightarrow> length xs + length (enc_args (map obj_text argv)) < SDS_LIMIT \<Longrightarrow>
    \<exists>d. cat_args dst buf argv = Some d \<and> sds_rep d (xs @ enc_args (map obj_text argv))"
proof (induction argv arbitrary: dst xs buf)
  case (Cons a argv)
  let ?s = "obj_text a"
  let ?h = "36 # dec_int (int (length ?s)) @ [13, 10]"
  obtain ob where ob: "getDecodedObject a = Some ob" "ptr_sds ob = Some ?s" by (rule decoded_text)
  have lim: "length xs + (length ?h + length ?s + 2) + length (enc_args (map obj_text argv)) < SDS_LIMIT"
    using Cons.prems(3) by (simp add: enc_bulk_count)
  have "int64 (int (length ?s))" using lim by (simp add: int64_def)
  then obtain buf' where c: "count_text buf 36 (int (length ?s)) = Some (?h, buf')" "length buf' = 32"
    using count_text_ok [OF Cons.prems(2)] by blast
  have body: "sds_rep s ys \<Longrightarrow> sds_body s ys" for s ys by (simp add: sds_rep_def)
  have l1: "length xs + length ?h < SDS_LIMIT" "length (xs @ ?h) + length ?s < SDS_LIMIT" "length ((xs @ ?h) @ ?s) + length [13 :: byte, 10] < SDS_LIMIT"
    using lim by simp_all
  obtain d1 where d1: "sdscatlen dst ?h = Some d1" "sds_rep d1 (xs @ ?h)" using sdscatlen_ok [OF body [OF Cons.prems(1)] l1(1)] by blast
  obtain d2 where d2: "sdscatlen d1 ?s = Some d2" "sds_rep d2 ((xs @ ?h) @ ?s)" using sdscatlen_ok [OF body [OF d1(2)] l1(2)] by blast
  obtain d3 where d3: "sdscatlen d2 [13, 10] = Some d3" "sds_rep d3 (((xs @ ?h) @ ?s) @ [13, 10])" using sdscatlen_ok [OF body [OF d2(2)] l1(3)] by blast
  have e: "((xs @ ?h) @ ?s) @ [13, 10] = xs @ enc_bulk ?s" by (simp add: enc_bulk_count)
  have "length (xs @ enc_bulk ?s) + length (enc_args (map obj_text argv)) < SDS_LIMIT" using Cons.prems(3) by simp
  from Cons.IH [OF d3(2) [unfolded e] c(2) this] show ?case using ob c(1) d1(1) d2(1) d3(1) by simp
qed simp

lemma generic_ok:
  assumes "sds_rep dst xs" and "length xs + length (enc_cmd (map obj_text argv)) < SDS_LIMIT"
  shows "\<exists>d. catAppendOnlyGenericCommand dst argv = Some d \<and> sds_rep d (xs @ enc_cmd (map obj_text argv))"
proof -
  let ?h = "42 # dec_int (int (length argv)) @ [13, 10]"
  have e: "enc_cmd (map obj_text argv) = ?h @ enc_args (map obj_text argv)" by (simp add: enc_cmd_def dec_int_nat)
  have "length argv \<le> length (enc_args (map obj_text argv))" by (induction argv) (simp_all add: enc_bulk_def)
  then have "int64 (int (length argv))" using assms(2) by (simp add: int64_def enc_cmd_def)
  then obtain buf where c: "count_text (replicate 32 None) 42 (int (length argv)) = Some (?h, buf)" "length buf = 32"
    using count_text_ok [OF length_replicate] by blast
  have "length xs + length ?h < SDS_LIMIT" using assms(2) e by simp
  then obtain d1 where d1: "sdscatlen dst ?h = Some d1" "sds_rep d1 (xs @ ?h)"
    using sdscatlen_ok [of dst xs ?h] assms(1) by (auto simp: sds_rep_def)
  have "length (xs @ ?h) + length (enc_args (map obj_text argv)) < SDS_LIMIT" using assms(2) e by simp
  from cat_args_ok [OF d1(2) c(2) this] show ?thesis unfolding catAppendOnlyGenericCommand_def c(1) e using d1(1) by simp
qed

section \<open>Reading counts\<close>

lemma digits_no_end: "b \<in> set (dec_nat n) \<Longrightarrow> b \<noteq> 10 \<and> b \<noteq> 0"
proof -
  assume "b \<in> set (dec_nat n)"
  then have "isdigit b" using dec_nat_digits by blast
  then have "48 \<le> unat b" by (simp add: isdigit_def word_le_nat_alt)
  then show ?thesis by auto
qed

lemma digit_space: "isdigit b \<Longrightarrow> \<not> isspace b \<and> b \<noteq> 45 \<and> b \<noteq> 43"
proof -
  assume "isdigit b"
  then have "48 \<le> unat b" "unat b \<le> 57" by (simp_all add: isdigit_def word_le_nat_alt)
  then show ?thesis by (auto simp: isspace_def word_le_nat_alt)
qed

text \<open>The number at the start of a line, whatever follows that is no digit.\<close>

lemma strtol_digits:
  assumes d: "\<forall>b \<in> set ds. isdigit b" "ds \<noteq> []" and r: "r = [] \<or> \<not> isdigit (hd r)"
  shows "fst (strtol10 (ds @ r)) = min INT64_MAX (int (dec_val ds))"
proof -
  obtain x xs where ds: "ds = x # xs" using d(2) by (cases ds) auto
  have x: "\<not> isspace x" "x \<noteq> 45" "x \<noteq> 43" using digit_space d(1) ds by auto
  have "takeWhile isdigit (ds @ r) = ds" using d(1) r by (cases r) (simp_all add: takeWhile_eq_all_conv)
  then show ?thesis using x ds by (simp add: strtol10_def Let_def)
qed

lemma fgets_line:
  assumes "10 \<notin> set h" and "length h \<le> 30"
  shows "aof_fgets (h @ 13 # 10 # r) = length h + 2" "take (aof_fgets (h @ 13 # 10 # r)) (h @ 13 # 10 # r) = h @ [13, 10]"
    "drop (aof_fgets (h @ 13 # 10 # r)) (h @ 13 # 10 # r) = r"
proof -
  have "takeWhile (\<lambda>b. b \<noteq> 10) (h @ 13 # 10 # r) = h @ [13]" using assms(1) by (induction h) auto
  then show a: "aof_fgets (h @ 13 # 10 # r) = length h + 2" using assms(2) by (simp add: aof_fgets_def)
  show "take (aof_fgets (h @ 13 # 10 # r)) (h @ 13 # 10 # r) = h @ [13, 10]" "drop (aof_fgets (h @ 13 # 10 # r)) (h @ 13 # 10 # r) = r"
    unfolding a by simp_all
qed

lemma fgets_rest:
  assumes "10 \<notin> set f" and "length f \<le> 31"
  shows "take (aof_fgets f) f = f" "drop (aof_fgets f) f = []"
proof -
  have tw: "takeWhile (\<lambda>b. b \<noteq> 10) f = f" using assms(1) by (auto simp: takeWhile_eq_all_conv)
  show "take (aof_fgets f) f = f" "drop (aof_fgets f) f = []" unfolding aof_fgets_def tw using assms(2) by simp_all
qed

lemma to_nul_id: "0 \<notin> set s \<Longrightarrow> to_nul s = s"
  by (auto simp: to_nul_def takeWhile_eq_all_conv)

lemma strtol_count:
  assumes "n \<le> 2 ^ 62"
  shows "fst (strtol10 (to_nul (dec_nat n @ [13, 10]))) = int n" "fst (strtol10 (to_nul (dec_nat n @ [13]))) = int n"
proof -
  have z: "0 \<notin> set (dec_nat n @ [13, 10])" "0 \<notin> set (dec_nat n @ [13])" using digits_no_end by auto
  have d: "\<not> isdigit (hd [13, 10])" "\<not> isdigit (hd [13])" by (simp_all add: isdigit_def)
  show "fst (strtol10 (to_nul (dec_nat n @ [13, 10]))) = int n"
    unfolding to_nul_id [OF z(1)] using strtol_digits [OF dec_nat_digits dec_nat_nonempty, of "[13, 10]" n] d(1) assms by simp
  show "fst (strtol10 (to_nul (dec_nat n @ [13]))) = int n"
    unfolding to_nul_id [OF z(2)] using strtol_digits [OF dec_nat_digits dec_nat_nonempty, of "[13]" n] d(2) assms by simp
qed

text \<open>The header of an argument.\<close>

lemma bulk_line:
  assumes a: "length a \<le> max_bulk" and h: "h = 36 # dec_nat (length a)"
  shows "10 \<notin> set h" "length h \<le> 30" "0 \<notin> set h"
proof -
  show "10 \<notin> set h" "0 \<notin> set h" using digits_no_end by (auto simp: h)
  show "length h \<le> 30" using length_dec_nat [of "length a"] a by (simp add: h)
qed

lemma load_arg_step:
  assumes a: "length a \<le> max_bulk"
  shows "load_args (Suc j) (36 # dec_nat (length a) @ 13 # 10 # r) =
    (if length r < length a + 2 then ArgsEof
     else case load_args j (drop (length a + 2) r) of ArgsRead as f' \<Rightarrow> ArgsRead (take (length a) r # as) f' | x \<Rightarrow> x)"
proof -
  define h where "h = 36 # dec_nat (length a)"
  note hl = bulk_line [OF a h_def]
  have len: "fst (strtol10 (to_nul (tl (h @ [13, 10])))) = int (length a)" using strtol_count(1) [of "length a"] a by (simp add: h_def)
  have "load_args (Suc j) (h @ 13 # 10 # r) = (if length r < length a + 2 then ArgsEof
     else case load_args j (drop (length a + 2) r) of ArgsRead as f' \<Rightarrow> ArgsRead (take (length a) r # as) f' | x \<Rightarrow> x)"
    unfolding load_args.simps Let_def fgets_line(2,3) [OF hl(1,2)] len nat_int by (simp add: h_def)
  then show ?thesis by (simp add: h_def)
qed

lemma load_args_ok: "\<forall>a \<in> set as. length a \<le> max_bulk \<Longrightarrow> load_args (length as) (enc_args as @ r) = ArgsRead as r"
proof (induction as)
  case (Cons a as)
  have "enc_args (a # as) @ r = 36 # dec_nat (length a) @ 13 # 10 # (a @ 13 # 10 # enc_args as @ r)" by (simp add: enc_bulk_def)
  then show ?case using Cons load_arg_step [of a "length as"] by simp
qed simp

text \<open>A proper prefix of the arguments ends the file too early.\<close>

lemma load_args_cut:
  "\<forall>a \<in> set as. length a \<le> max_bulk \<Longrightarrow> f @ u = enc_args as \<Longrightarrow> u \<noteq> [] \<Longrightarrow> load_args (length as) f = ArgsEof"
proof (induction as arbitrary: f)
  case (Cons a as)
  define h where "h = 36 # dec_nat (length a)"
  have la: "length a \<le> max_bulk" using Cons.prems(1) by simp
  note hl = bulk_line [OF la h_def]
  have eq: "f @ u = h @ 13 # 10 # (a @ 13 # 10 # enc_args as)" using Cons.prems(2) by (simp add: h_def enc_bulk_def)
  have short: "load_args (Suc (length as)) f = ArgsEof"
    if "10 \<notin> set f" "length f \<le> 31" "f = [] \<or> hd f = 36" "fst (strtol10 (to_nul (tl f))) \<ge> 0"
  proof (cases "f = []")
    case False
    then show ?thesis using that unfolding load_args.simps Let_def fgets_rest [OF that(1,2)] by simp
  qed simp
  from eq show ?case
  proof (cases rule: cut_header)
    case (inside v)
    have d: "\<forall>b \<in> set (tl f). isdigit b" using inside(1) dec_nat_digits [of "length a"] by (cases f) (auto simp: h_def)
    then have "0 \<notin> set (tl f)" by (auto simp: isdigit_def)
    then have "fst (strtol10 (to_nul (tl f))) \<ge> 0"
      using strtol_digits [OF d, of "[]"] by (cases "tl f = []") (simp_all add: to_nul_id strtol10_def)
    moreover have "length f \<le> 31" "10 \<notin> set f" "f = [] \<or> hd f = 36" using inside(1) hl by (auto simp: h_def Cons_eq_append_conv)
    ultimately show ?thesis using short by simp
  next
    case between
    have "fst (strtol10 (to_nul (tl f))) \<ge> 0" using between(1) strtol_count(2) [of "length a"] la by (simp add: h_def)
    then show ?thesis using short between(1) hl by (simp add: h_def)
  next
    case (behind r)
    then have f: "f = 36 # dec_nat (length a) @ 13 # 10 # r" by (simp add: h_def)
    show ?thesis
    proof (cases "length r < length a + 2")
      case True
      then show ?thesis using load_arg_step [OF la, of "length as" r] f by simp
    next
      case False
      have "drop (length a + 2) (r @ u) = enc_args as" using behind(2) by simp
      then have "drop (length a + 2) r @ u = enc_args as" using False by simp
      then have "load_args (length as) (drop (length a + 2) r) = ArgsEof" using Cons.IH Cons.prems(1,3) by simp
      then show ?thesis using load_arg_step [OF la, of "length as" r] f False by simp
    qed
  qed
qed simp

section \<open>Loading\<close>

lemma dec_val_append: "dec_val (xs @ ys) = dec_val xs * 10 ^ length ys + dec_val ys"
proof (induction ys rule: rev_induct)
  case (snoc y ys)
  then show ?case by (simp flip: append_assoc add: algebra_simps)
qed (simp add: dec_val_def)

text \<open>The digits received of a positive number are a positive number that is not larger.\<close>

lemma unat_48: "unat (48 :: byte) = 48"
  by simp

lemma first_digit: "0 < n \<Longrightarrow> hd (dec_nat n) \<noteq> 48"
proof (induction n rule: dec_nat.induct)
  case (1 n)
  show ?case
  proof (cases "n < 10")
    case True
    then have "unat (digit_byte n) = 48 + n" by simp
    then have "digit_byte n \<noteq> 48" using "1.prems" using unat_48 by force
    then show ?thesis using True by (subst dec_nat.simps) simp
  next
    case False
    then have "hd (dec_nat (n div 10)) \<noteq> 48" using 1 by simp
    then show ?thesis using False by (subst dec_nat.simps) simp
  qed
qed

lemma part_number:
  assumes "dec_nat n = ds @ us" and "ds \<noteq> []" and "0 < n"
  shows "0 < dec_val ds \<and> dec_val ds \<le> n"
proof -
  obtain x xs where ds: "ds = x # xs" using assms(2) by (cases ds) auto
  have dig: "isdigit x" using dec_nat_digits [of n] assms(1) ds by simp
  have "x \<noteq> 48" using first_digit [OF assms(3)] assms(1) ds by simp
  then have "0 < digit_val x" using dig by (auto simp: isdigit_def digit_val_def word_le_nat_alt word_unat_eq_iff)
  then have pos: "0 < dec_val ds" using dec_val_append [of "[x]" xs] ds by (simp add: dec_val_def)
  have "n = dec_val ds * 10 ^ length us + dec_val us" using dec_val_append [of ds us] assms(1) dec_val_dec_nat [of n] by simp
  moreover have "dec_val ds * 1 \<le> dec_val ds * 10 ^ length us" by (intro mult_le_mono2) simp
  ultimately show ?thesis using pos by linarith
qed

lemma load_cmd:
  assumes ok: "cmd_ok cmd"
  shows "load_loop run in_multi opts content (enc_cmd cmd @ f) valid s =
    (case run s cmd of None \<Rightarrow> LoadExit UnknownCommand s
     | Some s' \<Rightarrow> load_loop run in_multi opts content f (if fst opts then length content - length f else valid) s')"
proof -
  define h where "h = 42 # dec_nat (length cmd)"
  have lc: "length cmd \<le> 1048576" "0 < length cmd" "\<forall>a \<in> set cmd. length a \<le> max_bulk" using ok by (auto simp: cmd_ok_def)
  have ne: "cmd \<noteq> []" using lc(2) by simp
  have hl: "10 \<notin> set h" "length h \<le> 30" using digits_no_end length_dec_nat [of "length cmd"] lc by (auto simp: h_def)
  have e: "enc_cmd cmd @ f = h @ 13 # 10 # (enc_args cmd @ f)" by (simp add: h_def enc_cmd_def)
  have argc: "s32 (fst (strtol10 (to_nul (tl (h @ [13, 10]))))) = int (length cmd)"
    using strtol_count(1) [of "length cmd"] lc by (simp add: h_def)
  have nz: "tl (h @ [13, 10]) \<noteq> []" "hd (tl (h @ [13, 10])) \<noteq> 0"
    using digits_no_end [of "hd (dec_nat (length cmd))" "length cmd"] by (simp_all add: h_def)
  have c: "hd (h @ [13, 10]) = 42" "int (length cmd) \<ge> 1" "h @ 13 # 10 # (enc_args cmd @ f) \<noteq> []" using lc(2) by (simp_all add: h_def Suc_leI)
  show ?thesis
    unfolding e load_loop.simps [of run in_multi opts content "h @ 13 # 10 # (enc_args cmd @ f)"] Let_def fgets_line(2,3) [OF hl] argc nat_int load_args_ok [OF lc(3)]
    using nz c ne by (simp split: option.split)
qed

lemma load_cut:
  assumes ok: "cmd_ok cmd" and f: "f @ u = enc_cmd cmd" "u \<noteq> []" "f \<noteq> []"
  shows "load_loop run in_multi opts content f valid s = load_uxeof (fst opts) (snd opts) content valid s"
proof -
  define h where "h = 42 # dec_nat (length cmd)"
  have lc: "length cmd \<le> 1048576" "0 < length cmd" "\<forall>a \<in> set cmd. length a \<le> max_bulk" using ok by (auto simp: cmd_ok_def)
  have ne: "cmd \<noteq> []" using lc(2) by simp
  have hl: "10 \<notin> set h" "length h \<le> 30" using digits_no_end length_dec_nat [of "length cmd"] lc by (auto simp: h_def)
  have eq: "f @ u = h @ 13 # 10 # enc_args cmd" using f(1) by (simp add: h_def enc_cmd_def)
  have short: ?thesis if n10: "10 \<notin> set f" and l: "length f \<le> 31" and hd: "hd f = 42"
    and n: "tl f \<noteq> [] \<Longrightarrow> hd (tl f) \<noteq> 0 \<and> 0 < s32 (fst (strtol10 (to_nul (tl f))))"
  proof (cases "tl f = []")
    case True
    have "aof_feof f" using n10 l by (auto simp: aof_feof_def dest: in_set_takeD)
    then show ?thesis unfolding load_loop.simps [of run in_multi opts content f] Let_def fgets_rest [OF n10 l] using f(3) hd True by simp
  next
    case False
    define argc where "argc = s32 (fst (strtol10 (to_nul (tl f))))"
    have a: "0 < argc" "hd (tl f) \<noteq> 0" using n [OF False] by (simp_all add: argc_def)
    then obtain j where j: "nat argc = Suc j" by (cases "nat argc") auto
    have "load_args (nat argc) [] = ArgsEof" unfolding j by simp
    then show ?thesis unfolding load_loop.simps [of run in_multi opts content f] Let_def fgets_rest [OF n10 l] argc_def [symmetric]
      using f(3) hd False a by simp
  qed
  from eq show ?thesis
  proof (cases rule: cut_header)
    case (inside v)
    have t: "dec_nat (length cmd) = tl f @ v" "hd f = 42" using inside(1) f(3) by (cases f; simp add: h_def)+
    have d: "\<forall>b \<in> set (tl f). isdigit b" using t(1) dec_nat_digits [of "length cmd"] by auto
    have z: "0 \<notin> set (tl f)" using d by (auto simp: isdigit_def)
    have num: "hd (tl f) \<noteq> 0 \<and> 0 < s32 (fst (strtol10 (to_nul (tl f))))" if ne: "tl f \<noteq> []"
    proof -
      have p: "0 < dec_val (tl f)" "dec_val (tl f) \<le> 1048576" using part_number [OF t(1) ne lc(2)] lc(1) by auto
      have "fst (strtol10 (tl f)) = int (dec_val (tl f))" using strtol_digits [OF d ne, of "[]"] p by simp
      then show ?thesis using p z hd_in_set [OF ne] by (auto simp: to_nul_id)
    qed
    have "length f \<le> 31" "10 \<notin> set f" using inside(1) hl by auto
    then show ?thesis using short t(2) num by blast
  next
    case between
    have "tl f = dec_nat (length cmd) @ [13]" "hd f = 42" using between(1) by (simp_all add: h_def)
    moreover have "hd (dec_nat (length cmd)) \<noteq> 0" using digits_no_end [of "hd (dec_nat (length cmd))" "length cmd"] by simp
    ultimately show ?thesis using short between(1) hl strtol_count(2) [of "length cmd"] lc by simp
  next
    case (behind r)
    have f': "f = h @ 13 # 10 # r" using behind(1) .
    have cut: "load_args (length cmd) r = ArgsEof" using load_args_cut [OF lc(3) behind(2) f(2)] .
    have argc: "s32 (fst (strtol10 (to_nul (tl (h @ [13, 10]))))) = int (length cmd)"
      using strtol_count(1) [of "length cmd"] lc by (simp add: h_def)
    have nz: "tl (h @ [13, 10]) \<noteq> []" "hd (tl (h @ [13, 10])) \<noteq> 0"
      using digits_no_end [of "hd (dec_nat (length cmd))" "length cmd"] by (simp_all add: h_def)
    have c: "hd (h @ [13, 10]) = 42" "int (length cmd) \<ge> 1" "h @ 13 # 10 # r \<noteq> []" using lc(2) by (simp_all add: h_def Suc_leI)
    show ?thesis
      unfolding f' load_loop.simps [of run in_multi opts content "h @ 13 # 10 # r"] Let_def fgets_line(2,3) [OF hl] argc nat_int cut
      using nz c ne by simp
  qed
qed

text \<open>Running commands one after the other; \<open>None\<close> when one of them is unknown.\<close>

fun replay :: "('s \<Rightarrow> bytes list \<Rightarrow> 's option) \<Rightarrow> 's \<Rightarrow> bytes list list \<Rightarrow> 's option" where
  "replay run s [] = Some s"
| "replay run s (cmd # cmds) = (case run s cmd of None \<Rightarrow> None | Some s' \<Rightarrow> replay run s' cmds)"

text \<open>How many of the commands are complete in the first \<open>k\<close> bytes of their encoding.\<close>

fun complete_cmds :: "nat \<Rightarrow> bytes list list \<Rightarrow> nat" where
  "complete_cmds k [] = 0"
| "complete_cmds k (cmd # cmds) =
     (if length (enc_cmd cmd) \<le> k then Suc (complete_cmds (k - length (enc_cmd cmd)) cmds) else 0)"

lemma complete_cmds_le: "length (enc_cmds (take (complete_cmds k cmds) cmds)) \<le> k"
proof (induction cmds arbitrary: k)
  case (Cons cmd cmds)
  have "length (enc_cmd cmd) \<le> k \<Longrightarrow> ?case" using Cons.IH [of "k - length (enc_cmd cmd)"] le_diff_conv2 [of "length (enc_cmd cmd)" k] by (simp add: add.commute)
  then show ?case by (cases "length (enc_cmd cmd) \<le> k") simp_all
qed simp

lemma take_enc_cmds: "take k (enc_cmds cmds) = enc_cmds (take (complete_cmds k cmds) cmds) @
    take (k - length (enc_cmds (take (complete_cmds k cmds) cmds))) (enc_cmds (drop (complete_cmds k cmds) cmds))"
proof (induction cmds arbitrary: k)
  case (Cons cmd cmds)
  show ?case using arg_cong [OF Cons.IH [of "k - length (enc_cmd cmd)"], of "(@) (enc_cmd cmd)"] by (cases "length (enc_cmd cmd) \<le> k") simp_all
qed simp

text \<open>What follows the complete commands is empty or a proper part of the next one.\<close>

lemma complete_cmds_next:
  "k < length (enc_cmds cmds) \<Longrightarrow>
    complete_cmds k cmds < length cmds \<and> k - length (enc_cmds (take (complete_cmds k cmds) cmds)) < length (enc_cmd (cmds ! complete_cmds k cmds))"
proof (induction cmds arbitrary: k)
  case (Cons cmd cmds)
  show ?case
  proof (cases "length (enc_cmd cmd) \<le> k")
    case True
    then have "k - length (enc_cmd cmd) < length (enc_cmds cmds)" using Cons.prems by simp
    from Cons.IH [OF this] True show ?thesis by simp
  qed simp
qed simp

lemma complete_cmds_all: "length (enc_cmds cmds) \<le> k \<Longrightarrow> complete_cmds k cmds = length cmds"
  by (induction cmds arbitrary: k) auto

lemma load_cmds:
  "\<forall>cmd \<in> set cmds. cmd_ok cmd \<Longrightarrow> replay run s cmds = Some s' \<Longrightarrow>
    load_loop run in_multi opts content (enc_cmds cmds @ f) valid s =
    load_loop run in_multi opts content f (if fst opts \<and> cmds \<noteq> [] then length content - length f else valid) s'"
proof (induction cmds arbitrary: s valid)
  case (Cons cmd cmds)
  obtain s1 where s1: "run s cmd = Some s1" "replay run s1 cmds = Some s'" using Cons.prems(2) by (auto split: option.splits)
  have "load_loop run in_multi opts content (enc_cmds (cmd # cmds) @ f) valid s =
      load_loop run in_multi opts content (enc_cmds cmds @ f) (if fst opts then length content - length (enc_cmds cmds @ f) else valid) s1"
    using load_cmd [of cmd run in_multi opts content "enc_cmds cmds @ f"] Cons.prems(1) s1(1) by simp
  also have "\<dots> = load_loop run in_multi opts content f (if fst opts then length content - length f else valid) s'"
    using Cons.IH [OF _ s1(2)] Cons.prems(1) by simp
  finally show ?case by simp
qed simp

lemma load_prefix:
  assumes ok: "\<forall>cmd \<in> set cmds. cmd_ok cmd" and k: "0 < k" "k \<le> length (enc_cmds cmds)"
    and n: "n = complete_cmds k cmds" and s': "replay run s (take n cmds) = Some s'"
  shows "loadAppendOnlyFile run in_multi opts (take k (enc_cmds cmds)) s =
    (if opts = (True, True) \<or> k = length (enc_cmds (take n cmds)) \<and> \<not> in_multi s'
     then Loaded s' (enc_cmds (take n cmds)) else LoadExit UnexpectedEof s')"
proof -
  define A where "A = enc_cmds (take n cmds)"
  define f where "f = take (k - length A) (enc_cmds (drop n cmds))"
  define content where "content = take k (enc_cmds cmds)"
  have c: "content = A @ f" unfolding content_def take_enc_cmds [of k cmds] A_def f_def n by simp
  have ne: "content \<noteq> []" using k by (auto simp: content_def)
  have lA: "length A \<le> k" using complete_cmds_le [of k cmds] by (simp add: A_def n)
  have ok1: "\<forall>cmd \<in> set (take n cmds). cmd_ok cmd" using ok in_set_takeD by fast
  define valid where "valid = (if fst opts \<and> take n cmds \<noteq> [] then length content - length f else 0)"
  have l: "loadAppendOnlyFile run in_multi opts content s = load_loop run in_multi opts content f valid s'"
    using load_cmds [OF ok1 s', of in_multi opts content f 0, folded valid_def A_def, folded c] ne by (simp add: loadAppendOnlyFile_def)
  have v: "fst opts \<Longrightarrow> take valid content = A" by (auto simp: valid_def c A_def)
  have ux: "load_uxeof (fst opts) (snd opts) content valid s' = (if opts = (True, True) then Loaded s' A else LoadExit UnexpectedEof s')"
    using v by (cases opts) (auto simp: load_uxeof_def)
  show ?thesis
  proof (cases "k = length A")
    case True
    then have "f = []" by (simp add: f_def)
    then have L: "load_loop run in_multi opts content f valid s' = (if in_multi s' then load_uxeof (fst opts) (snd opts) content valid s' else Loaded s' A)"
      by (subst load_loop.simps) (simp add: c)
    show ?thesis unfolding A_def [symmetric] content_def [symmetric] l L ux using True by simp
  next
    case False
    have "length (enc_cmds cmds) \<le> k \<Longrightarrow> A = enc_cmds cmds" using complete_cmds_all [of cmds k] by (simp add: A_def n)
    then have k': "k < length (enc_cmds cmds)" using False lA k(2) by (cases "length (enc_cmds cmds) \<le> k") auto
    note nx = complete_cmds_next [OF k', folded n, folded A_def]
    have d: "drop n cmds = cmds ! n # drop (Suc n) cmds" using nx by (simp add: Cons_nth_drop_Suc)
    have "k \<le> length A + length (enc_cmd (cmds ! n))" using nx by linarith
    then have f: "f = take (k - length A) (enc_cmd (cmds ! n))" by (simp add: f_def d)
    have "load_loop run in_multi opts content f valid s' = load_uxeof (fst opts) (snd opts) content valid s'"
    proof (rule load_cut)
      show "cmd_ok (cmds ! n)" using ok nx by simp
      show "f @ drop (k - length A) (enc_cmd (cmds ! n)) = enc_cmd (cmds ! n)" by (simp add: f)
      show "drop (k - length A) (enc_cmd (cmds ! n)) \<noteq> []" "f \<noteq> []" using nx lA False by (auto simp: f)
    qed
    then show ?thesis using False l ux unfolding A_def [symmetric] content_def [symmetric] by simp
  qed
qed

text \<open>C13. A file cut off at any byte: the loader runs exactly the commands that are complete in it. It succeeds,
  and leaves the file with just these commands, when truncated files are accepted, or when nothing is cut off and no
  transaction is open; else the server exits with the error for an unexpected end of the file.\<close>

theorem aof_recovery:
  assumes ok: "\<forall>cmd \<in> set cmds. cmd_ok cmd" and k: "0 < k" "k \<le> length (enc_cmds cmds)"
    and n: "n = complete_cmds k cmds" and s': "replay run s (take n cmds) = Some s'"
  shows "loadAppendOnlyFile run in_multi opts (take k (enc_cmds cmds)) s =
    (if opts = (True, True) \<or> k = length (enc_cmds (take n cmds)) \<and> \<not> in_multi s'
     then Loaded s' (enc_cmds (take n cmds)) else LoadExit UnexpectedEof s')"
  using assms by (rule load_prefix)

theorem aof_recovery_witness:
  "loadAppendOnlyFile (\<lambda>s a. Some (s @ [a])) (\<lambda>s. False) (True, True) (take 15 (enc_cmds [[[65]], [[66]]])) [] = Loaded [[[65]]] (enc_cmds [[[65]]])"
proof -
  have d: "dec_nat 1 = [49]" by (simp add: dec_nat.simps digit_byte_def)
  have e: "enc_cmd [[b]] = [42, 49, 13, 10, 36, 49, 13, 10, b, 13, 10]" for b by (simp add: enc_cmd_def enc_bulk_def d flip: One_nat_def)
  have n: "1 = complete_cmds 15 [[[65]], [[66]]]" by (simp add: e)
  show ?thesis
    using aof_recovery [OF _ _ _ n, of "\<lambda>s a. Some (s @ [a])" "[]" "[[[65]]]" "\<lambda>s. False" "(True, True)"] by (simp add: cmd_ok_def e)
qed

end
