(* ===== verification/AofBuffer.thy ===== *)
theory AofBuffer
  imports Aof
begin

text \<open>
  The rewrite buffer of the append only file as a queue of bytes: whatever the pipe to the child
  takes at a time, the child gets the changes in order, and what it has not got is still there.
\<close>

section \<open>A queue of bytes\<close>

datatype 'w pipe_op = PipeAppend bytes | PipeSend 'w

text \<open>A sequence of operations: all that was sent, and the queue left.\<close>

fun pipe_run :: "('q \<Rightarrow> bytes \<Rightarrow> 'q option) \<Rightarrow> ('q \<Rightarrow> 'w \<Rightarrow> bytes \<times> 'q) \<Rightarrow> 'w pipe_op list \<Rightarrow> 'q \<Rightarrow> (bytes \<times> 'q) option" where
  "pipe_run app send [] q = Some ([], q)"
| "pipe_run app send (PipeAppend s # ops) q = (case app q s of None \<Rightarrow> None | Some q \<Rightarrow> pipe_run app send ops q)"
| "pipe_run app send (PipeSend w # ops) q =
     (let (out, q) = send q w in map_option (\<lambda>(outs, q). (out @ outs, q)) (pipe_run app send ops q))"

fun pipe_input :: "'w pipe_op list \<Rightarrow> bytes" where
  "pipe_input [] = []"
| "pipe_input (PipeAppend s # ops) = s @ pipe_input ops"
| "pipe_input (PipeSend w # ops) = pipe_input ops"

locale byte_queue =
  fixes ok :: "'q \<Rightarrow> bool" and data :: "'q \<Rightarrow> bytes"
    and app :: "'q \<Rightarrow> bytes \<Rightarrow> 'q option" and send :: "'q \<Rightarrow> 'w \<Rightarrow> bytes \<times> 'q"
  assumes app_law: "ok q \<Longrightarrow> \<exists>q'. app q s = Some q' \<and> ok q' \<and> data q' = data q @ s"
    and send_law: "ok q \<Longrightarrow> ok (snd (send q w)) \<and> fst (send q w) @ data (snd (send q w)) = data q"
begin

lemma pipe_fifo: "ok q \<Longrightarrow> \<exists>out q'. pipe_run app send ops q = Some (out, q') \<and> ok q' \<and> out @ data q' = data q @ pipe_input ops"
proof (induction ops arbitrary: q)
  case (Cons op ops)
  show ?case
  proof (cases op)
    case (PipeAppend s)
    obtain q1 where q1: "app q s = Some q1" "ok q1" "data q1 = data q @ s" using app_law [OF Cons.prems] by blast
    show ?thesis using Cons.IH [OF q1(2)] q1 PipeAppend by simp
  next
    case (PipeSend w)
    obtain out1 q1 where s: "send q w = (out1, q1)" by (cases "send q w")
    have q1: "ok q1" "out1 @ data q1 = data q" using send_law [OF Cons.prems, of w] s by simp_all
    obtain out q' where r: "pipe_run app send ops q1 = Some (out, q')" "ok q'" "out @ data q' = data q1 @ pipe_input ops"
      using Cons.IH [OF q1(1)] by blast
    have "(out1 @ out) @ data q' = data q @ pipe_input ops" unfolding append_assoc r(3) q1(2) [symmetric] by simp
    then show ?thesis using r s PipeSend by simp
  qed
qed simp

end

section \<open>The blocks\<close>

text \<open>No block promises more room than it has behind its data.\<close>

definition block_ok :: "aofrwblock \<Rightarrow> bool" where
  "block_ok b \<longleftrightarrow> length (blk_buf b) + blk_free b \<le> AOF_RW_BUF_BLOCK_SIZE"

definition blocks_ok :: "aofrwblock list \<Rightarrow> bool" where
  "blocks_ok blocks \<longleftrightarrow> (\<forall>b \<in> set blocks. block_ok b)"

definition blocks_data :: "aofrwblock list \<Rightarrow> bytes" where
  "blocks_data blocks = concat (map blk_buf blocks)"

lemma blocks_simps [simp]:
  "blocks_ok []" "blocks_ok (b # bs) \<longleftrightarrow> block_ok b \<and> blocks_ok bs" "blocks_ok (bs @ cs) \<longleftrightarrow> blocks_ok bs \<and> blocks_ok cs"
  "blocks_data [] = []" "blocks_data (b # bs) = blk_buf b @ blocks_data bs" "blocks_data (bs @ cs) = blocks_data bs @ blocks_data cs"
  by (auto simp: blocks_ok_def blocks_data_def)

lemma new_block_ok: "block_ok \<lparr>blk_buf = [], blk_free = AOF_RW_BUF_BLOCK_SIZE\<rparr>"
  by (simp add: block_ok_def)

lemma block_copy_ok:
  assumes "block_ok b" and "n = (if blk_free b < length s then blk_free b else length s)"
  obtains b' where "(if n \<noteq> 0 then block_copy b (take n s) else Some b) = Some b'" "block_ok b'" "blk_buf b' = blk_buf b @ take n s"
proof (cases "n = 0")
  case False
  have "n \<le> blk_free b" "n \<le> length s" using assms(2) by auto
  then show thesis using that [of "b\<lparr>blk_buf := blk_buf b @ take n s, blk_free := blk_free b - length (take n s)\<rparr>"] False assms(1)
    by (simp add: block_copy_def block_ok_def)
qed (use assms(1) that in simp)

lemma rw_append_ok: "blocks_ok blocks \<Longrightarrow> \<exists>bs. rw_append_loop blocks s = Some bs \<and> blocks_ok bs \<and> blocks_data bs = blocks_data blocks @ s"
proof (induction blocks s rule: rw_append_loop.induct)
  case (1 blocks s)
  consider "s = []" | "s \<noteq> []" "blocks = []" | "s \<noteq> []" "blocks \<noteq> []" by blast
  then show ?case
  proof cases
    case 1
    then show ?thesis using "1.prems" by (simp add: rw_append_loop.simps)
  next
    case 2
    then show ?thesis using "1.IH"(1) [OF 2] new_block_ok by (subst rw_append_loop.simps) simp
  next
    case 3
    define b where "b = last blocks"
    define n where "n = (if blk_free b < length s then blk_free b else length s)"
    have bl: "blocks = butlast blocks @ [b]" using 3 by (simp add: b_def)
    then have ok: "blocks_ok (butlast blocks)" "block_ok b" using "1.prems" blocks_simps(3) [of "butlast blocks" "[b]"] by simp_all
    obtain b' where b': "(if n \<noteq> 0 then block_copy b (take n s) else Some b) = Some b'" "block_ok b'" "blk_buf b' = blk_buf b @ take n s"
      by (rule block_copy_ok [OF ok(2) n_def])
    have data: "blocks_data (butlast blocks @ [b']) = blocks_data blocks @ take n s"
      using arg_cong [OF bl, of blocks_data] b'(3) by simp
    have l: "rw_append_loop blocks s = (if drop n s = [] then Some (butlast blocks @ [b'])
        else rw_append_loop ((butlast blocks @ [b']) @ [\<lparr>blk_buf = [], blk_free = AOF_RW_BUF_BLOCK_SIZE\<rparr>]) (drop n s))"
      unfolding rw_append_loop.simps [of blocks s] Let_def b_def [symmetric] n_def [symmetric] b'(1) option.case using 3 by (simp only: if_False)
    show ?thesis
    proof (cases "drop n s = []")
      case True
      then have "rw_append_loop blocks s = Some (butlast blocks @ [b'])" using l by simp
      then show ?thesis using ok b'(2) data True by simp
    next
      case False
      let ?new = "(butlast blocks @ [b']) @ [\<lparr>blk_buf = [], blk_free = AOF_RW_BUF_BLOCK_SIZE\<rparr>]"
      have "\<exists>bs. rw_append_loop ?new (drop n s) = Some bs \<and> blocks_ok bs \<and> blocks_data bs = blocks_data ?new @ drop n s"
        using "1.IH"(2) [OF 3 b_def n_def b'(1) refl refl False] ok(1) b'(2) new_block_ok by simp
      moreover have "blocks_data ?new @ drop n s = blocks_data blocks @ s"
        using arg_cong [OF data, of "\<lambda>x. x @ drop n s"] by simp
      ultimately show ?thesis using l False by (simp only: if_False)
    qed
  qed
qed

lemma send_ok:
  "blocks_ok blocks \<Longrightarrow> aofChildWriteDiffData stop blocks ws = (sent, left) \<Longrightarrow> blocks_ok left \<and> sent @ blocks_data left = blocks_data blocks"
proof (induction stop blocks ws arbitrary: sent left rule: aofChildWriteDiffData.induct)
  case (2 stop b blocks ws)
  show ?case
  proof (cases "stop \<or> blk_buf b = [] \<or> ws = [] \<or> hd ws = 0")
    case True
    then show ?thesis using 2 by (auto split: if_splits list.splits)
  next
    case False
    then obtain w ws' where ws: "ws = w # ws'" "w \<noteq> 0" "\<not> stop" "blk_buf b \<noteq> []" by (cases ws) auto
    define n where "n = min w (length (blk_buf b))"
    define b' where "b' = b\<lparr>blk_buf := drop n (blk_buf b)\<rparr>"
    define tl_res where "tl_res = (if blk_buf b' = [] then aofChildWriteDiffData stop blocks ws' else aofChildWriteDiffData stop (b' # blocks) ws')"
    have "aofChildWriteDiffData stop (b # blocks) ws = (take n (blk_buf b) @ fst tl_res, snd tl_res)"
      unfolding ws(1) aofChildWriteDiffData.simps(2) [of stop b blocks "w # ws'"] list.case Let_def n_def [symmetric] b'_def [symmetric] tl_res_def [symmetric]
      using ws by (simp add: case_prod_beta)
    then have res: "(sent, left) = (take n (blk_buf b) @ fst tl_res, snd tl_res)" using 2(5) by simp
    have ok: "block_ok b'" "blocks_ok blocks" using 2(4) by (auto simp: block_ok_def b'_def)
    have "blocks_ok (snd tl_res) \<and> fst tl_res @ blocks_data (snd tl_res) = blk_buf b' @ blocks_data blocks"
    proof (cases "blk_buf b' = []")
      case True
      then show ?thesis using 2(2) [OF ws(3,4) ws(1,2) n_def b'_def True ok(2) prod.collapse [symmetric]] by (simp add: tl_res_def)
    next
      case False
      have "blocks_ok (b' # blocks)" using ok by simp
      then show ?thesis using 2(3) [OF ws(3,4) ws(1,2) n_def b'_def False _ prod.collapse [symmetric]] False by (simp add: tl_res_def)
    qed
    moreover have "take n (blk_buf b) @ blk_buf b' = blk_buf b" by (simp add: b'_def)
    ultimately show ?thesis using res by (metis append_assoc blocks_simps(5) prod.inject)
  qed
qed auto


interpretation rw: byte_queue blocks_ok blocks_data aofRewriteBufferAppend "\<lambda>blocks (stop, ws). aofChildWriteDiffData stop blocks ws"
proof unfold_locales
  fix q s
  assume "blocks_ok q"
  then show "\<exists>q'. aofRewriteBufferAppend q s = Some q' \<and> blocks_ok q' \<and> blocks_data q' = blocks_data q @ s"
    unfolding aofRewriteBufferAppend_def by (rule rw_append_ok)
next
  fix q and w :: "bool \<times> nat list"
  assume ok: "blocks_ok q"
  obtain stop ws where w: "w = (stop, ws)" by (cases w)
  show "blocks_ok (snd (case w of (stop, ws) \<Rightarrow> aofChildWriteDiffData stop q ws)) \<and>
      fst (case w of (stop, ws) \<Rightarrow> aofChildWriteDiffData stop q ws) @ blocks_data (snd (case w of (stop, ws) \<Rightarrow> aofChildWriteDiffData stop q ws)) = blocks_data q"
    unfolding w prod.case by (rule send_ok [OF ok prod.collapse [symmetric]])
qed

text \<open>The rest, written when the child is done: a result other than \<open>- 1\<close> means that all of it is in the file.\<close>

lemma buffer_write_ok: "aofRewriteBufferWrite blocks ws n = (r, out) \<Longrightarrow> r \<noteq> -1 \<Longrightarrow> out = blocks_data blocks \<and> r = n + int (length (blocks_data blocks))"
proof (induction blocks ws n arbitrary: r out rule: aofRewriteBufferWrite.induct)
  case (2 b blocks ws n)
  show ?case
  proof (cases "blk_buf b = []")
    case True
    then show ?thesis using 2 by simp
  next
    case False
    then obtain w ws' where ws: "ws = w # ws'" "w = int (length (blk_buf b))" using 2(3,4) by (auto split: list.splits if_splits)
    obtain r' out' where r': "aofRewriteBufferWrite blocks ws' (n + w) = (r', out')" by (cases "aofRewriteBufferWrite blocks ws' (n + w)")
    have "r = r'" "out = blk_buf b @ out'" using 2(3) False ws r' by simp_all
    then show ?thesis using 2(2) [OF False ws(1) _ r'] ws(2) 2(4) by simp
  qed
qed simp

lemma buffer_size: "aofRewriteBufferSize blocks = length (blocks_data blocks)"
  by (simp add: aofRewriteBufferSize_def blocks_data_def length_concat comp_def)

text \<open>C20. The changes during a rewrite reach the new file completely and in order: for every sequence of appends and
  of sends to the child, whatever the pipe takes, no block overflows, and what was sent followed by what the final write
  puts into the file, when it reports success, is exactly what was appended.\<close>

theorem rewrite_buffer_fifo:
  "\<exists>sent left. pipe_run aofRewriteBufferAppend (\<lambda>blocks (stop, ws). aofChildWriteDiffData stop blocks ws) ops aofRewriteBufferReset = Some (sent, left) \<and>
    aofRewriteBufferSize left + length sent = length (pipe_input ops) \<and>
    (\<forall>ws n out. aofRewriteBufferWrite left ws 0 = (n, out) \<and> n \<noteq> -1 \<longrightarrow> sent @ out = pipe_input ops \<and> n = int (length out))"
proof -
  obtain sent left where l: "pipe_run aofRewriteBufferAppend (\<lambda>blocks (stop, ws). aofChildWriteDiffData stop blocks ws) ops aofRewriteBufferReset = Some (sent, left)"
    "blocks_ok left" "sent @ blocks_data left = pipe_input ops"
    using rw.pipe_fifo [of aofRewriteBufferReset ops] by (auto simp: aofRewriteBufferReset_def)
  have "sent @ out = pipe_input ops \<and> n = int (length out)" if "aofRewriteBufferWrite left ws 0 = (n, out)" "n \<noteq> -1" for ws n out
    using buffer_write_ok [OF that] l(3) by simp
  moreover have "aofRewriteBufferSize left + length sent = length (pipe_input ops)"
    using arg_cong [OF l(3), of length] by (simp add: buffer_size)
  ultimately show ?thesis using l(1) by blast
qed

theorem rewrite_buffer_fifo_witness:
  "\<exists>left. pipe_run aofRewriteBufferAppend (\<lambda>blocks (stop, ws). aofChildWriteDiffData stop blocks ws) [PipeAppend [1, 2, 3], PipeSend (False, [2])]
      aofRewriteBufferReset = Some ([1, 2], left) \<and> aofRewriteBufferWrite left [1] 0 = (1, [3])"
proof -
  have r: "pipe_run aofRewriteBufferAppend (\<lambda>blocks (stop, ws). aofChildWriteDiffData stop blocks ws) [PipeAppend [1, 2, 3], PipeSend (False, [2])]
      aofRewriteBufferReset = Some ([1, 2], [\<lparr>blk_buf = [3], blk_free = 10485757\<rparr>])"
    by (simp add: aofRewriteBufferAppend_def aofRewriteBufferReset_def rw_append_loop.simps block_copy_def)
  show ?thesis using rewrite_buffer_fifo [of "[PipeAppend [1, 2, 3], PipeSend (False, [2])]"] unfolding r by simp
qed

end
