(* ===== verification/AofFeed.thy ===== *)
theory AofFeed
  imports AofSpec AofBuffer
begin

text \<open>
  What \<open>feedAppendOnlyFile\<close> appends, as the commands it stands for: the \<open>SELECT\<close> when the database
  changes, and an absolute \<open>PEXPIREAT\<close> in place of every relative time to live.
\<close>

definition expire_cmds :: "int \<Rightarrow> aof_proc \<Rightarrow> strobj \<Rightarrow> strobj \<Rightarrow> bytes list list option" where
  "expire_cmds now cmd key seconds =
     map_option (\<lambda>w. [[lit ''PEXPIREAT'', obj_text key, dec_int w]]) (aof_when cmd now (fst (strtol10 (to_nul (obj_text seconds)))))"

definition body_cmds :: "int \<Rightarrow> aof_proc \<Rightarrow> strobj list \<Rightarrow> bytes list list option" where
  "body_cmds now cmd argv =
     (if cmd = ExpireCommand \<or> cmd = PexpireCommand \<or> cmd = ExpireatCommand then
        (if length argv < 3 then None else expire_cmds now cmd (argv ! 1) (argv ! 2))
      else if cmd = SetexCommand \<or> cmd = PsetexCommand then
        (if length argv < 4 then None
         else map_option ((#) [lit ''SET'', obj_text (argv ! 1), obj_text (argv ! 3)]) (expire_cmds now cmd (argv ! 1) (argv ! 2)))
      else Some [map obj_text argv])"

definition fed_cmds :: "int \<Rightarrow> int \<Rightarrow> aof_proc \<Rightarrow> int \<Rightarrow> strobj list \<Rightarrow> bytes list list option" where
  "fed_cmds now sel cmd dictid argv =
     map_option ((@) (if dictid \<noteq> sel then [[lit ''SELECT'', dec_int dictid]] else [])) (body_cmds now cmd argv)"

lemma aof_when_int64: "cmd \<noteq> OtherCommand \<Longrightarrow> aof_when cmd now v = Some w \<Longrightarrow> int64 w"
  by (cases cmd) (auto simp: aof_when_def split: if_splits bind_splits)

lemma obj_text_int: "int64 v \<Longrightarrow> obj_text (ObjInt (word_of_int v)) = dec_int v"
  by (simp add: sint_word_of_int64)

lemma lit_object: "n = length s \<Longrightarrow> \<exists>ob. createStringObject (Some s) n = Some ob \<and> obj_text ob = s"
  using createStringObject_ok [of s] by auto

lemma aof_expire_ok:
  assumes "sds_rep buf xs" and "expire_cmds now cmd key seconds = Some cmds" and "cmd \<noteq> OtherCommand"
    and "length xs + length (enc_cmds cmds) < SDS_LIMIT"
  shows "\<exists>d. catAppendOnlyExpireAtCommand now buf cmd key seconds = Some d \<and> sds_rep d (xs @ enc_cmds cmds)"
proof -
  obtain w where w: "aof_when cmd now (fst (strtol10 (to_nul (obj_text seconds)))) = Some w" "cmds = [[lit ''PEXPIREAT'', obj_text key, dec_int w]]"
    using assms(2) by (auto simp: expire_cmds_def)
  have iw: "int64 w" using aof_when_int64 [OF assms(3) w(1)] .
  obtain ob where ob: "getDecodedObject seconds = Some ob" "ptr_sds ob = Some (obj_text seconds)" by (rule decoded_text)
  obtain a0 where a0: "createStringObject (Some (lit ''PEXPIREAT'')) 9 = Some a0" "obj_text a0 = lit ''PEXPIREAT''"
    using lit_object [of 9 "lit ''PEXPIREAT''"] by (auto simp: lit_def)
  let ?argv = "[a0, key, ObjInt (word_of_int w)]"
  have e: "enc_cmds cmds = enc_cmd (map obj_text ?argv)" using w(2) a0(2) obj_text_int [OF iw] by simp
  show ?thesis unfolding e catAppendOnlyExpireAtCommand_def
    using generic_ok [OF assms(1), of ?argv] assms(4) e ob w(1) a0(1) long_long_text [OF iw] by simp
qed

lemma feed_text_ok:
  assumes rep: "sds_rep buf xs" and cmds: "body_cmds now cmd argv = Some cmds" and lim: "length xs + length (enc_cmds cmds) < SDS_LIMIT"
  shows "\<exists>d. feed_text now cmd argv buf = Some d \<and> sds_rep d (xs @ enc_cmds cmds)"
proof -
  consider (expire) "cmd = ExpireCommand \<or> cmd = PexpireCommand \<or> cmd = ExpireatCommand"
    | (setex) "cmd = SetexCommand \<or> cmd = PsetexCommand" | (other) "cmd = OtherCommand" by (cases cmd) auto
  then show ?thesis
  proof cases
    case expire
    then have "expire_cmds now cmd (argv ! 1) (argv ! 2) = Some cmds" "\<not> length argv < 3" "cmd \<noteq> OtherCommand"
      using cmds by (auto simp: body_cmds_def split: if_splits)
    then show ?thesis using aof_expire_ok [OF rep _ _ lim] expire by (auto simp: feed_text_def)
  next
    case setex
    let ?set = "[lit ''SET'', obj_text (argv ! 1), obj_text (argv ! 3)]"
    obtain ec where ec: "expire_cmds now cmd (argv ! 1) (argv ! 2) = Some ec" "cmds = ?set # ec" "\<not> length argv < 4"
      using cmds setex by (auto simp: body_cmds_def split: if_splits)
    obtain t0 where t0: "createStringObject (Some (lit ''SET'')) 3 = Some t0" "obj_text t0 = lit ''SET''"
      using lit_object [of 3 "lit ''SET''"] by (auto simp: lit_def)
    have lims: "length xs + length (enc_cmd (map obj_text [t0, argv ! 1, argv ! 3])) < SDS_LIMIT"
      "length (xs @ enc_cmd ?set) + length (enc_cmds ec) < SDS_LIMIT" using lim ec(2) t0(2) by simp_all
    obtain d1 where d1: "catAppendOnlyGenericCommand buf [t0, argv ! 1, argv ! 3] = Some d1" "sds_rep d1 (xs @ enc_cmd ?set)"
      using generic_ok [OF rep lims(1)] t0(2) by auto
    show ?thesis using aof_expire_ok [OF d1(2) ec(1) _ lims(2)] d1(1) t0(1) ec(2,3) setex by (auto simp: feed_text_def)
  next
    case other
    then show ?thesis using cmds generic_ok [OF rep, of argv] lim by (auto simp: body_cmds_def feed_text_def)
  qed
qed

lemma select_text_cmd: "select_text n = enc_cmd [lit ''SELECT'', dec_int n]"
  by (simp add: select_text_def enc_cmd_def enc_bulk_def lit_def Let_def dec_nat.simps digit_byte_def)

lemma select_text_no_zero: "0 \<notin> set (select_text n)"
  using digits_no_end dec_int_no_zero [of n] by (auto simp: select_text_def lit_def Let_def)

lemma sds_rep_body: "sds_rep s xs \<Longrightarrow> sds_body s xs"
  by (simp add: sds_rep_def)

lemma select_ok:
  assumes "length (select_text n) < SDS_LIMIT"
  shows "\<exists>buf. do { buf \<leftarrow> sdsempty; if b then sdscatprintf buf select_fmt (select_text n) else Some buf } = Some buf \<and>
    sds_rep buf (enc_cmds (if b then [[lit ''SELECT'', dec_int n]] else []))"
proof -
  obtain e where e: "sdsempty = Some e" "sds_rep e []" using sdsempty_ok by blast
  obtain s where s: "sdscatlen e (select_text n) = Some s" "sds_rep s (select_text n)"
    using sdscatlen_ok [of e "[]" "select_text n"] sds_rep_body [OF e(2)] assms by auto
  show ?thesis unfolding e(1) bind.bind_lunit using e(2) s sdscatprintf_eq [OF select_text_no_zero, of e select_fmt n] by (cases b) (simp_all flip: select_text_cmd)
qed

lemma feed_ok:
  assumes cmds: "fed_cmds now (aof_selected_db st) cmd dictid argv = Some cmds"
    and rep: "sds_rep (aof_buf st) b" and lim: "length b + length (enc_cmds cmds) < SDS_LIMIT" and blocks: "blocks_ok (aof_blocks st)"
  shows "\<exists>ab bs. feedAppendOnlyFile now st cmd dictid argv = Some (st\<lparr>aof_selected_db := dictid, aof_buf := ab, aof_blocks := bs\<rparr>) \<and>
    sds_rep ab (if aof_on st then b @ enc_cmds cmds else b) \<and> blocks_ok bs \<and>
    blocks_data bs = (if aof_child st then blocks_data (aof_blocks st) @ enc_cmds cmds else blocks_data (aof_blocks st))"
proof -
  let ?sel = "if dictid \<noteq> aof_selected_db st then [[lit ''SELECT'', dec_int dictid]] else []"
  obtain body where body: "body_cmds now cmd argv = Some body" "cmds = ?sel @ body" using cmds by (auto simp: fed_cmds_def)
  have e: "enc_cmds cmds = enc_cmds ?sel @ enc_cmds body" using body(2) by (auto simp: enc_cmds_def)
  have "length (select_text dictid) < SDS_LIMIT \<or> dictid = aof_selected_db st" using lim e by (auto simp: select_text_cmd)
  then obtain buf where buf: "do { buf \<leftarrow> sdsempty; if dictid \<noteq> aof_selected_db st then sdscatprintf buf select_fmt (select_text dictid) else Some buf } = Some buf"
    "sds_rep buf (enc_cmds ?sel)"
    using select_ok [of dictid "dictid \<noteq> aof_selected_db st"] sdsempty_ok by fastforce
  obtain d where d: "feed_text now cmd argv buf = Some d" "sds_rep d (enc_cmds cmds)"
    using feed_text_ok [OF buf(2) body(1)] lim e by auto
  obtain ab where ab: "(if aof_on st then sdscatlen (aof_buf st) (enc_cmds cmds) else Some (aof_buf st)) = Some ab"
    "sds_rep ab (if aof_on st then b @ enc_cmds cmds else b)"
    using sdscatlen_ok [OF sds_rep_body [OF rep] lim] rep by (cases "aof_on st") auto
  obtain bs where bs: "(if aof_child st then aofRewriteBufferAppend (aof_blocks st) (enc_cmds cmds) else Some (aof_blocks st)) = Some bs" "blocks_ok bs"
    "blocks_data bs = (if aof_child st then blocks_data (aof_blocks st) @ enc_cmds cmds else blocks_data (aof_blocks st))"
    using rw.app_law [OF blocks, of "enc_cmds cmds"] blocks by (cases "aof_child st") auto
  obtain em where em: "sdsempty = Some em"
    "(if dictid \<noteq> aof_selected_db st then sdscatprintf em select_fmt (select_text dictid) else Some em) = Some buf"
    using buf(1) unfolding bind_eq_Some_conv by blast
  have f: "aof_on (st\<lparr>aof_selected_db := dictid\<rparr>) = aof_on st" "aof_buf (st\<lparr>aof_selected_db := dictid\<rparr>) = aof_buf st"
    "aof_child (st\<lparr>aof_selected_db := dictid\<rparr>) = aof_child st" "aof_blocks (st\<lparr>aof_selected_db := dictid\<rparr>) = aof_blocks st" by simp_all
  have "feedAppendOnlyFile now st cmd dictid argv = Some (st\<lparr>aof_selected_db := dictid, aof_buf := ab, aof_blocks := bs\<rparr>)"
    unfolding feedAppendOnlyFile_def em bind.bind_lunit Let_def d(1) sds_bytes_rep [OF d(2)] f ab(1) bs(1) by (rule refl)
  then show ?thesis using ab(2) bs(2,3) by blast
qed

end
