(* ===== verification/AofFlush.thy ===== *)
theory AofFlush
  imports AofFeed
begin

text \<open>
  \<open>flushAppendOnlyFile\<close>: the buffer is written to the file before the clients get their replies. The
  file is its contents, of which \<open>aof_synced\<close> bytes are known to be on the disk. What the system
  calls do is an argument of a flush: what \<open>write\<close> returned, and whether \<open>ftruncate\<close> and \<open>fsync\<close> succeeded.
  A saving child comes and goes by an event of its own; the child that rewrites the file is not modelled, so \<open>aof_child\<close>
  stays off in a run.
\<close>

section \<open>The file\<close>

datatype aof_policy = FsyncNo | FsyncAlways | FsyncEverysec

datatype write_out = WriteErr int | Wrote nat

record aof_disk = aof_state +
  aof_file :: bytes
  aof_synced :: nat
  fsync_jobs :: nat
  aof_current_size :: int
  aof_fsync_policy :: aof_policy
  aof_flush_postponed_start :: int
  aof_delayed_fsync :: nat
  aof_last_write_ok :: bool
  aof_last_write_errno :: int
  last_write_error_log :: int
  aof_last_fsync :: int
  aof_no_fsync_on_rewrite :: bool
  rdb_child :: bool

abbreviation ENOSPC :: int where "ENOSPC \<equiv> 28"
abbreviation AOF_WRITE_LOG_ERROR_RATE :: int where "AOF_WRITE_LOG_ERROR_RATE \<equiv> 30"

text \<open>The result of the call is looked at nowhere: after a failure nothing more is known to be on the disk.\<close>

definition aof_fsync :: "bool \<Rightarrow> aof_disk \<Rightarrow> aof_disk" where
  "aof_fsync fsync_ok st = (if fsync_ok then st\<lparr>aof_synced := length (aof_file st)\<rparr> else st)"

text \<open>A job for the background thread, and the thread that takes it.\<close>

definition aof_background_fsync :: "aof_disk \<Rightarrow> aof_disk" where
  "aof_background_fsync st = st\<lparr>fsync_jobs := Suc (fsync_jobs st)\<rparr>"

definition bio_fsync_job :: "bool \<Rightarrow> aof_disk \<Rightarrow> aof_disk" where
  "bio_fsync_job fsync_ok st = (if fsync_jobs st = 0 then st else (aof_fsync fsync_ok st)\<lparr>fsync_jobs := fsync_jobs st - 1\<rparr>)"

text \<open>The file is open for appending.\<close>

definition aof_write :: "aof_disk \<Rightarrow> bytes \<Rightarrow> write_out \<Rightarrow> int \<times> aof_disk" where
  "aof_write st b w =
     (case w of
        WriteErr e \<Rightarrow> (-1, st)
      | Wrote n \<Rightarrow> (int (min n (length b)), st\<lparr>aof_file := aof_file st @ take n b\<rparr>))"

definition aof_ftruncate :: "aof_disk \<Rightarrow> nat \<Rightarrow> aof_disk" where
  "aof_ftruncate st n = st\<lparr>aof_file := take n (aof_file st) @ replicate (n - length (aof_file st)) 0, aof_synced := min n (aof_synced st)\<rparr>"

section \<open>Flushing\<close>

text \<open>A flush returns, or the server exits.\<close>

datatype flush_result = Flushed aof_disk | FlushExit aof_disk

definition flush_postpone :: "int \<Rightarrow> bool \<Rightarrow> bool \<Rightarrow> aof_disk \<Rightarrow> bool \<times> aof_disk" where
  "flush_postpone now force sync_in_progress st =
     (if aof_fsync_policy st = FsyncEverysec \<and> \<not> force \<and> sync_in_progress then
        (if aof_flush_postponed_start st = 0 then (True, st\<lparr>aof_flush_postponed_start := now\<rparr>)
         else if now - aof_flush_postponed_start st < 2 then (True, st)
         else (False, st\<lparr>aof_delayed_fsync := Suc (aof_delayed_fsync st)\<rparr>))
      else (False, st))"

definition flush_undo :: "int \<Rightarrow> write_out \<Rightarrow> bool \<Rightarrow> int \<Rightarrow> aof_disk \<Rightarrow> int \<times> aof_disk" where
  "flush_undo now w trunc_ok nwritten st =
     (let can_log = (now - last_write_error_log st > AOF_WRITE_LOG_ERROR_RATE);
          st = (if can_log then st\<lparr>last_write_error_log := now\<rparr> else st)
      in case w of
           WriteErr e \<Rightarrow> (nwritten, if can_log then st\<lparr>aof_last_write_errno := e\<rparr> else st)
         | Wrote n \<Rightarrow>
             (let (nwritten, st) = (if trunc_ok then (-1, aof_ftruncate st (nat (aof_current_size st))) else (nwritten, st))
              in (nwritten, st\<lparr>aof_last_write_errno := ENOSPC\<rparr>)))"

definition flush_failed :: "int \<Rightarrow> write_out \<Rightarrow> bool \<Rightarrow> int \<Rightarrow> aof_disk \<Rightarrow> flush_result option" where
  "flush_failed now w trunc_ok nwritten st =
     (let (nwritten, st) = flush_undo now w trunc_ok nwritten st
      in if aof_fsync_policy st = FsyncAlways then Some (FlushExit st)
         else
           (let st = st\<lparr>aof_last_write_ok := False\<rparr>
            in if nwritten > 0 then do {
                 buf \<leftarrow> sdsrange (aof_buf st) (s32 nwritten) (-1);
                 Some (Flushed (st\<lparr>aof_current_size := aof_current_size st + nwritten, aof_buf := buf\<rparr>))
               }
               else Some (Flushed st)))"

definition flush_fsync :: "int \<Rightarrow> bool \<Rightarrow> bool \<Rightarrow> aof_disk \<Rightarrow> aof_disk" where
  "flush_fsync now sync_in_progress fsync_ok st =
     (if aof_no_fsync_on_rewrite st \<and> (aof_child st \<or> rdb_child st) then st
      else if aof_fsync_policy st = FsyncAlways then (aof_fsync fsync_ok st)\<lparr>aof_last_fsync := now\<rparr>
      else if aof_fsync_policy st = FsyncEverysec \<and> now > aof_last_fsync st
      then (if sync_in_progress then st else aof_background_fsync st)\<lparr>aof_last_fsync := now\<rparr>
      else st)"

definition flush_written :: "int \<Rightarrow> bool \<Rightarrow> bool \<Rightarrow> int \<Rightarrow> aof_disk \<Rightarrow> flush_result option" where
  "flush_written now sync_in_progress fsync_ok nwritten st = do {
     let st = (if aof_last_write_ok st then st else st\<lparr>aof_last_write_ok := True\<rparr>);
     let st = st\<lparr>aof_current_size := aof_current_size st + nwritten\<rparr>;
     buf \<leftarrow> (if sdslen (aof_buf st) + sdsavail (aof_buf st) < 4000 then sdsclear (aof_buf st) else sdsempty);
     Some (Flushed (flush_fsync now sync_in_progress fsync_ok (st\<lparr>aof_buf := buf\<rparr>)))
   }"

text \<open>The length is cast to a signed integer of 32 bits where it is compared.\<close>

definition flushAppendOnlyFile :: "int \<Rightarrow> bool \<Rightarrow> write_out \<Rightarrow> bool \<Rightarrow> bool \<Rightarrow> aof_disk \<Rightarrow> flush_result option" where
  "flushAppendOnlyFile now force w trunc_ok fsync_ok st =
     (if sdslen (aof_buf st) = 0 then Some (Flushed st)
      else
        (let sync_in_progress = (aof_fsync_policy st = FsyncEverysec \<and> fsync_jobs st \<noteq> 0);
             (postponed, st) = flush_postpone now force sync_in_progress st
         in if postponed then Some (Flushed st)
            else do {
              b \<leftarrow> sds_bytes (aof_buf st);
              let (nwritten, st) = aof_write st b w;
              let st = st\<lparr>aof_flush_postponed_start := 0\<rparr>;
              if nwritten \<noteq> s32 (int (sdslen (aof_buf st)))
              then flush_failed now w trunc_ok nwritten st
              else flush_written now sync_in_progress fsync_ok nwritten st
            }))"

section \<open>Runs\<close>

text \<open>What happens to the file while the server runs: commands are fed, the buffer is flushed with whatever the system
  calls give, the background thread does a job, a saving child starts or ends.\<close>

datatype aof_event = EvFeed int aof_proc int "strobj list" | EvFlush int bool write_out bool bool | EvSync bool | EvRdbChild bool

fun aof_run :: "aof_event list \<Rightarrow> aof_disk \<Rightarrow> flush_result option" where
  "aof_run [] st = Some (Flushed st)"
| "aof_run (EvFeed now cmd dictid argv # evs) st = do { st \<leftarrow> feedAppendOnlyFile now st cmd dictid argv; aof_run evs st }"
| "aof_run (EvFlush now force w trunc_ok fsync_ok # evs) st =
     (case flushAppendOnlyFile now force w trunc_ok fsync_ok st of
        None \<Rightarrow> None
      | Some (FlushExit st) \<Rightarrow> Some (FlushExit st)
      | Some (Flushed st) \<Rightarrow> aof_run evs st)"
| "aof_run (EvSync fsync_ok # evs) st = aof_run evs (bio_fsync_job fsync_ok st)"
| "aof_run (EvRdbChild running # evs) st = aof_run evs (st\<lparr>rdb_child := running\<rparr>)"

text \<open>The commands that a run feeds.\<close>

fun run_cmds :: "aof_event list \<Rightarrow> int \<Rightarrow> bytes list list option" where
  "run_cmds [] sel = Some []"
| "run_cmds (EvFeed now cmd dictid argv # evs) sel = do {
     cmds \<leftarrow> fed_cmds now sel cmd dictid argv;
     rest \<leftarrow> run_cmds evs dictid;
     Some (cmds @ rest)
   }"
| "run_cmds (EvFlush now force w trunc_ok fsync_ok # evs) sel = run_cmds evs sel"
| "run_cmds (EvSync fsync_ok # evs) sel = run_cmds evs sel"
| "run_cmds (EvRdbChild running # evs) sel = run_cmds evs sel"

text \<open>The start of the server, as far as the append only file goes: the static memory, the defaults, the directives
  \<open>appendonly\<close>, \<open>no-appendfsync-on-rewrite\<close> and \<open>appendfsync\<close>, and the initialisation. With \<open>appendonly yes\<close> and no
  file yet, an empty file is created.\<close>

definition server_zero :: aof_disk where
  "server_zero = \<lparr>aof_selected_db = 0, aof_buf = \<lparr>sds_flags = 0, sds_len = 0, sds_alloc = 0, sds_buf = []\<rparr>, aof_on = False,
     aof_child = False, aof_blocks = [], aof_file = [], aof_synced = 0, fsync_jobs = 0, aof_current_size = 0,
     aof_fsync_policy = FsyncNo, aof_flush_postponed_start = 0, aof_delayed_fsync = 0, aof_last_write_ok = True,
     aof_last_write_errno = 0, last_write_error_log = 0, aof_last_fsync = 0, aof_no_fsync_on_rewrite = False, rdb_child = False\<rparr>"

definition initServerConfig_aof :: "int \<Rightarrow> aof_disk \<Rightarrow> aof_disk" where
  "initServerConfig_aof now st = st\<lparr>aof_on := False, aof_fsync_policy := FsyncEverysec, aof_no_fsync_on_rewrite := False,
     aof_last_fsync := now, aof_delayed_fsync := 0, aof_selected_db := -1, aof_flush_postponed_start := 0\<rparr>"

definition loadServerConfig_aof :: "bool \<Rightarrow> bool \<Rightarrow> aof_policy \<Rightarrow> aof_disk \<Rightarrow> aof_disk" where
  "loadServerConfig_aof appendonly no_fsync policy st =
     st\<lparr>aof_on := appendonly, aof_no_fsync_on_rewrite := no_fsync, aof_fsync_policy := policy\<rparr>"

definition initServer_aof :: "aof_disk \<Rightarrow> aof_disk option" where
  "initServer_aof st = do {
     let st = st\<lparr>rdb_child := False, aof_child := False, aof_blocks := aofRewriteBufferReset\<rparr>;
     buf \<leftarrow> sdsempty;
     Some (st\<lparr>aof_buf := buf, aof_last_write_ok := True, aof_last_write_errno := 0\<rparr>)
   }"

definition initAof :: "aof_policy \<Rightarrow> bool \<Rightarrow> int \<Rightarrow> aof_disk option" where
  "initAof policy no_fsync now = initServer_aof (loadServerConfig_aof True no_fsync policy (initServerConfig_aof now server_zero))"

section \<open>The invariant\<close>

text \<open>The file and the buffer together are all that was fed; the size kept is the size of the file. What is
  known to be on the disk is a part of the file.\<close>

definition disk_ok :: "aof_disk \<Rightarrow> bytes \<Rightarrow> bool" where
  "disk_ok st fed \<longleftrightarrow> (\<exists>b. sds_rep (aof_buf st) b \<and> aof_file st @ b = fed) \<and>
    aof_current_size st = int (length (aof_file st)) \<and> blocks_ok (aof_blocks st) \<and> aof_on st \<and>
    aof_synced st \<le> length (aof_file st)"

definition result_disk :: "flush_result \<Rightarrow> aof_disk" where
  "result_disk r = (case r of Flushed st \<Rightarrow> st | FlushExit st \<Rightarrow> st)"

abbreviation aof_conf :: "aof_disk \<Rightarrow> aof_policy \<times> bool \<times> bool" where
  "aof_conf st \<equiv> (aof_fsync_policy st, aof_no_fsync_on_rewrite st, aof_child st)"

text \<open>What a flush keeps, and that what it leaves in the file is a part of what was fed.\<close>

definition flush_good :: "aof_disk \<Rightarrow> bytes \<Rightarrow> flush_result \<Rightarrow> bool" where
  "flush_good st fed r \<longleftrightarrow>
     (case r of Flushed st' \<Rightarrow> disk_ok st' fed \<and> aof_selected_db st' = aof_selected_db st \<and> aof_conf st' = aof_conf st \<and>
        (aof_fsync_policy st = FsyncAlways \<longrightarrow> aof_file st' = fed)
      | FlushExit st' \<Rightarrow> (\<exists>k. aof_file st' = take k fed))"

lemma flush_fsync_ok:
  assumes "sds_rep (aof_buf st) []" "aof_file st = fed" "aof_current_size st = int (length fed)" "blocks_ok (aof_blocks st)" "aof_on st"
    "aof_synced st \<le> length fed"
  shows "flush_good st fed (Flushed (flush_fsync now sip fsync_ok st))"
  using assms by (auto simp: flush_good_def flush_fsync_def disk_ok_def aof_fsync_def aof_background_fsync_def)

lemma flush_written_step:
  assumes "sds_rep (aof_buf st) b"
  obtains buf where "flush_written now sip fsync_ok nwritten st =
      Some (Flushed (flush_fsync now sip fsync_ok (st\<lparr>aof_last_write_ok := True, aof_current_size := aof_current_size st + nwritten, aof_buf := buf\<rparr>)))"
    "sds_rep buf []"
proof -
  obtain buf where buf: "(if sdslen (aof_buf st) + sdsavail (aof_buf st) < 4000 then sdsclear (aof_buf st) else sdsempty) = Some buf" "sds_rep buf []"
    using sdsclear_ok [OF sds_rep_body [OF assms(1)]] sdsempty_ok by (cases "sdslen (aof_buf st) + sdsavail (aof_buf st) < 4000") auto
  have st1: "(if aof_last_write_ok st then st else st\<lparr>aof_last_write_ok := True\<rparr>) = st\<lparr>aof_last_write_ok := True\<rparr>" by simp
  have e: "aof_buf (st\<lparr>aof_last_write_ok := True, aof_current_size := m\<rparr>) = aof_buf st" "aof_current_size (st\<lparr>aof_last_write_ok := True\<rparr>) = aof_current_size st" for m by simp_all
  show thesis by (rule that [OF _ buf(2)]) (unfold flush_written_def st1 Let_def e buf(1) bind.bind_lunit, rule refl)
qed

lemma flush_written_ok:
  assumes "sds_rep (aof_buf st) b" "aof_file st = fed" "aof_current_size st + nwritten = int (length fed)" "blocks_ok (aof_blocks st)" "aof_on st"
    "aof_synced st \<le> length fed"
  shows "\<exists>r. flush_written now sip fsync_ok nwritten st = Some r \<and> flush_good st fed r"
proof -
  obtain buf where w: "flush_written now sip fsync_ok nwritten st =
      Some (Flushed (flush_fsync now sip fsync_ok (st\<lparr>aof_last_write_ok := True, aof_current_size := aof_current_size st + nwritten, aof_buf := buf\<rparr>)))"
    "sds_rep buf []" by (rule flush_written_step [OF assms(1)])
  define st2 where "st2 = st\<lparr>aof_last_write_ok := True, aof_current_size := aof_current_size st + nwritten, aof_buf := buf\<rparr>"
  have "flush_good st2 fed (Flushed (flush_fsync now sip fsync_ok st2))"
    by (rule flush_fsync_ok) (use assms w(2) in \<open>simp_all add: st2_def\<close>)
  then have "flush_good st fed (Flushed (flush_fsync now sip fsync_ok st2))" by (simp add: flush_good_def st2_def)
  then show ?thesis using w(1) unfolding st2_def by blast
qed

text \<open>After a failed write the file holds a part of the buffer, or none when it could be cut off again.\<close>

lemma flush_undo_ok:
  assumes "aof_file st = F @ out" "aof_current_size st = int (length F)" "aof_synced st \<le> length F"
    and w: "case w of WriteErr e \<Rightarrow> nwritten = -1 \<and> out = [] | Wrote n \<Rightarrow> nwritten = int (length out)"
    and r: "flush_undo now w trunc_ok nwritten st = (n', st')"
  obtains lg er where "st' = st\<lparr>aof_file := aof_file st', aof_synced := aof_synced st, aof_last_write_errno := er, last_write_error_log := lg\<rparr>"
    "n' > 0 \<and> n' = int (length out) \<and> aof_file st' = F @ out \<or> n' \<le> 0 \<and> aof_file st' = F"
proof (cases w)
  case (WriteErr e)
  show thesis
    by (rule that [of "last_write_error_log st'" "aof_last_write_errno st'"])
      (use WriteErr assms in \<open>auto simp: flush_undo_def Let_def split: if_splits\<close>)
next
  case (Wrote n)
  have "st' = st\<lparr>aof_file := aof_file st', aof_synced := aof_synced st, aof_last_write_errno := aof_last_write_errno st', last_write_error_log := last_write_error_log st'\<rparr>"
    using Wrote r assms(2,3) by (auto simp: flush_undo_def aof_ftruncate_def Let_def split: if_splits)
  moreover have "n' > 0 \<and> n' = int (length out) \<and> aof_file st' = F @ out \<or> n' \<le> 0 \<and> aof_file st' = F"
    using Wrote r w assms(1,2) by (auto simp: flush_undo_def aof_ftruncate_def Let_def split: if_splits)
  ultimately show thesis by (rule that)
qed

lemma flush_failed_ok:
  assumes rep: "sds_rep (aof_buf st) (out @ rest)" and f: "aof_file st = F @ out" "aof_current_size st = int (length F)" "aof_synced st \<le> length F"
    and w: "case w of WriteErr e \<Rightarrow> nwritten = -1 \<and> out = [] | Wrote n \<Rightarrow> nwritten = int (length out)"
    and ok: "blocks_ok (aof_blocks st)" "aof_on st" and lim: "int (length (out @ rest)) \<le> INT32_MAX" and rest: "rest \<noteq> []"
  shows "\<exists>r. flush_failed now w trunc_ok nwritten st = Some r \<and> flush_good st (F @ out @ rest) r"
proof -
  obtain n' st' where u: "flush_undo now w trunc_ok nwritten st = (n', st')" by (cases "flush_undo now w trunc_ok nwritten st")
  obtain lg er where st': "st' = st\<lparr>aof_file := aof_file st', aof_synced := aof_synced st, aof_last_write_errno := er, last_write_error_log := lg\<rparr>"
    and n': "n' > 0 \<and> n' = int (length out) \<and> aof_file st' = F @ out \<or> n' \<le> 0 \<and> aof_file st' = F"
    by (rule flush_undo_ok [OF f w u])
  have k: "\<exists>k. aof_file st' = take k (F @ out @ rest)"
  proof (cases "n' > 0")
    case True
    then show ?thesis using n' by (intro exI [of _ "length (F @ out)"]) simp
  next
    case False
    then show ?thesis using n' by (intro exI [of _ "length F"]) simp
  qed
  have fields: "aof_buf st' = aof_buf st" "aof_current_size st' = int (length F)" "aof_synced st' \<le> length F" "aof_blocks st' = aof_blocks st" "aof_on st'"
    "aof_conf st' = aof_conf st" "aof_selected_db st' = aof_selected_db st"
    by (subst st', use f ok in simp)+
  show ?thesis
  proof (cases "aof_fsync_policy st' = FsyncAlways")
    case True
    then show ?thesis using u k by (simp add: flush_failed_def flush_good_def)
  next
    case na: False
    show ?thesis
    proof (cases "n' > 0")
      case True
      then have n: "n' = int (length out)" "aof_file st' = F @ out" using n' by auto
      have ln: "s32 n' = int (length out)" using n lim by simp
      obtain buf where buf: "sdsrange (aof_buf st) (int (length out)) (-1) = Some buf" "sds_rep buf (range_ref (int (length out)) (-1) (out @ rest))"
        using sdsrange_ok [OF rep lim, of "int (length out)" "-1"] by auto
      have "range_ref (int (length out)) (-1) (out @ rest) = rest" using rest by (simp add: range_ref_def Let_def)
      then show ?thesis using u True na n buf ln fields ok(1) by (simp add: flush_failed_def flush_good_def disk_ok_def)
    next
      case False
      then show ?thesis using u na n' fields ok(1) rep by (simp add: flush_failed_def flush_good_def disk_ok_def)
    qed
  qed
qed

lemma flush_postpone_shape:
  obtains pp a d where "flush_postpone now force sip st = (pp, st\<lparr>aof_flush_postponed_start := a, aof_delayed_fsync := d\<rparr>)"
    "pp \<longrightarrow> aof_fsync_policy st = FsyncEverysec"
  by (rule that [of "fst (flush_postpone now force sip st)" "aof_delayed_fsync (snd (flush_postpone now force sip st))"
        "aof_flush_postponed_start (snd (flush_postpone now force sip st))"]) (simp_all add: flush_postpone_def)

lemma flush_ok:
  assumes ok: "disk_ok st fed" and lim: "int (length fed) \<le> INT32_MAX"
  shows "\<exists>r. flushAppendOnlyFile now force w trunc_ok fsync_ok st = Some r \<and> flush_good st fed r"
proof -
  obtain b where b: "sds_rep (aof_buf st) b" "fed = aof_file st @ b" using ok by (auto simp: disk_ok_def)
  have len: "sdslen (aof_buf st) = length b" using b(1) by (simp add: sds_rep_def sds_body_def)
  have blim: "int (length b) \<le> INT32_MAX" using lim b(2) by simp
  define sip where "sip = (aof_fsync_policy st = FsyncEverysec \<and> fsync_jobs st \<noteq> 0)"
  obtain pp a d where p: "flush_postpone now force sip st = (pp, st\<lparr>aof_flush_postponed_start := a, aof_delayed_fsync := d\<rparr>)"
    and pp: "pp \<longrightarrow> aof_fsync_policy st = FsyncEverysec" by (rule flush_postpone_shape)
  define st1 where "st1 = st\<lparr>aof_flush_postponed_start := a, aof_delayed_fsync := d\<rparr>"
  have good1: "flush_good st fed r \<longleftrightarrow> flush_good st1 fed r" for r by (simp add: flush_good_def st1_def split: flush_result.split)
  have f1: "aof_buf st1 = aof_buf st" "aof_file st1 = aof_file st" "aof_current_size st1 = int (length (aof_file st))" "blocks_ok (aof_blocks st1)" "aof_on st1"
    "aof_synced st1 \<le> length (aof_file st)" using ok by (auto simp: st1_def disk_ok_def)
  have step: "flushAppendOnlyFile now force w trunc_ok fsync_ok st =
      (if b = [] then Some (Flushed st) else if pp then Some (Flushed st1)
       else let (nwritten, st2) = aof_write st1 b w; st3 = st2\<lparr>aof_flush_postponed_start := 0\<rparr>
            in if nwritten \<noteq> int (length b) then flush_failed now w trunc_ok nwritten st3 else flush_written now sip fsync_ok nwritten st3)"
  proof -
    have "aof_buf (snd (aof_write st1 b w)) = aof_buf st" by (simp add: aof_write_def f1 split: write_out.split)
    then show ?thesis unfolding flushAppendOnlyFile_def Let_def sip_def [symmetric] p prod.case st1_def [symmetric]
      using len blim by (simp add: sds_bytes_rep [OF b(1)] f1 case_prod_beta)
  qed
  show ?thesis
  proof (cases "b = [] \<or> pp")
    case True
    have "b = [] \<Longrightarrow> flush_good st fed (Flushed st)" using ok b(2) by (simp add: flush_good_def)
    moreover have "pp \<Longrightarrow> flush_good st fed (Flushed st1)" using ok pp by (simp add: flush_good_def st1_def disk_ok_def)
    ultimately show ?thesis using step True by (cases "b = []") simp_all
  next
    case np: False
    define out where "out = (case w of WriteErr e \<Rightarrow> [] | Wrote n \<Rightarrow> take n b)"
    define nw where "nw = (case w of WriteErr e \<Rightarrow> -1 | Wrote n \<Rightarrow> int (length out))"
    define st3 where "st3 = st1\<lparr>aof_file := aof_file st @ out, aof_flush_postponed_start := 0\<rparr>"
    have wr: "aof_write st1 b w = (nw, st1\<lparr>aof_file := aof_file st @ out\<rparr>)"
      by (auto simp: aof_write_def nw_def out_def f1 split: write_out.split)
    have step': "flushAppendOnlyFile now force w trunc_ok fsync_ok st = (if nw \<noteq> int (length b) then flush_failed now w trunc_ok nw st3 else flush_written now sip fsync_ok nw st3)"
      using step np unfolding wr prod.case Let_def by (simp add: st3_def)
    have good3: "flush_good st fed r \<longleftrightarrow> flush_good st3 fed r" for r unfolding good1 by (simp add: flush_good_def st3_def split: flush_result.split)
    have f3: "aof_buf st3 = aof_buf st" "aof_file st3 = aof_file st @ out" "aof_current_size st3 = int (length (aof_file st))" "blocks_ok (aof_blocks st3)" "aof_on st3"
      "aof_synced st3 \<le> length (aof_file st)" using f1 by (simp_all add: st3_def)
    define rest where "rest = drop (length out) b"
    have br: "b = out @ rest" by (auto simp: rest_def out_def min_def split: write_out.split)
    show ?thesis
    proof (cases "nw = int (length b)")
      case True
      then have "out = b" using br by (simp add: nw_def split: write_out.splits)
      then have ob: "aof_file st3 = fed" "sds_rep (aof_buf st3) b" "aof_synced st3 \<le> length fed" using f3 b by simp_all
      have "\<exists>r. flush_written now sip fsync_ok nw st3 = Some r \<and> flush_good st3 fed r"
        using flush_written_ok [OF ob(2) ob(1) _ f3(4,5) ob(3)] True f3(3) b(2) by simp
      then show ?thesis using step' True good3 by simp
    next
      case False
      have rest: "rest \<noteq> []"
      proof
        assume "rest = []"
        then have "out = b" using br by simp
        then have "w = WriteErr e \<Longrightarrow> b = []" for e by (simp add: out_def)
        then show False using False \<open>out = b\<close> np by (cases w) (auto simp: nw_def)
      qed
      have "case w of WriteErr e \<Rightarrow> nw = -1 \<and> out = [] | Wrote n \<Rightarrow> nw = int (length out)" by (simp add: nw_def out_def split: write_out.split)
      moreover have "sds_rep (aof_buf st3) (out @ rest)" "int (length (out @ rest)) \<le> INT32_MAX" using f3(1) b(1) br blim by simp_all
      ultimately have "\<exists>r. flush_failed now w trunc_ok nw st3 = Some r \<and> flush_good st3 (aof_file st @ out @ rest) r"
        using flush_failed_ok f3(2,3,6) f3(4,5) rest by blast
      then show ?thesis using step' False good3 b(2) br by simp
    qed
  qed
qed

definition run_good :: "aof_policy \<times> bool \<times> bool \<Rightarrow> bytes \<Rightarrow> flush_result \<Rightarrow> bool" where
  "run_good conf fed r \<longleftrightarrow>
     (case r of Flushed st \<Rightarrow> disk_ok st fed \<and> aof_conf st = conf | FlushExit st \<Rightarrow> (\<exists>k. aof_file st = take k fed))"

lemma enc_cmds_append: "enc_cmds (xs @ ys) = enc_cmds xs @ enc_cmds ys"
  by (simp add: enc_cmds_def)

lemma run_good_longer: "run_good conf fed (FlushExit st) \<Longrightarrow> run_good conf (fed @ more_bytes) (FlushExit st)"
proof -
  assume "run_good conf fed (FlushExit st)"
  then obtain k where "aof_file st = take k fed" by (auto simp: run_good_def)
  then have "aof_file st = take (min k (length fed)) (fed @ more_bytes)" by (simp add: min_def)
  then show ?thesis unfolding run_good_def flush_result.case by blast
qed

lemma feed_disk_ok:
  assumes ok: "disk_ok st fed" and cmds: "fed_cmds now (aof_selected_db st) cmd dictid argv = Some cmds" and lim: "int (length (fed @ enc_cmds cmds)) \<le> INT32_MAX"
  obtains st' where "feedAppendOnlyFile now st cmd dictid argv = Some st'" "disk_ok st' (fed @ enc_cmds cmds)" "aof_selected_db st' = dictid"
    "aof_conf st' = aof_conf st" "aof_synced st' = aof_synced st" "aof_file st' = aof_file st" "rdb_child st' = rdb_child st"
proof -
  obtain b where b: "sds_rep (aof_buf st) b" "aof_file st @ b = fed" and o: "aof_on st" and bl: "blocks_ok (aof_blocks st)" using ok by (auto simp: disk_ok_def)
  have l: "length b + length (enc_cmds cmds) < SDS_LIMIT" using lim arg_cong [OF b(2), of length] by simp
  obtain ab bs where f: "feedAppendOnlyFile now st cmd dictid argv = Some (st\<lparr>aof_selected_db := dictid, aof_buf := ab, aof_blocks := bs\<rparr>)"
    "sds_rep ab (b @ enc_cmds cmds)" "blocks_ok bs" using feed_ok [OF cmds b(1) l bl] o by auto
  have "\<exists>c. sds_rep ab c \<and> aof_file st @ c = fed @ enc_cmds cmds" using f(2) b(2) by (intro exI [of _ "b @ enc_cmds cmds"]) auto
  then show thesis using that [OF f(1)] ok f(3) by (simp add: disk_ok_def)
qed

lemma sync_disk_ok: "disk_ok st fed \<Longrightarrow> disk_ok (bio_fsync_job fsync_ok st) fed"
  by (auto simp: disk_ok_def bio_fsync_job_def aof_fsync_def)

lemma run_ok:
  "disk_ok st fed \<Longrightarrow> run_cmds evs (aof_selected_db st) = Some cmds \<Longrightarrow> int (length (fed @ enc_cmds cmds)) \<le> INT32_MAX \<Longrightarrow>
    \<exists>r. aof_run evs st = Some r \<and> run_good (aof_conf st) (fed @ enc_cmds cmds) r"
proof (induction evs arbitrary: st fed cmds)
  case Nil
  then show ?case by (simp add: run_good_def)
next
  case (Cons ev evs)
  show ?case
  proof (cases ev)
    case (EvFeed now cmd dictid argv)
    obtain c1 c2 where c: "fed_cmds now (aof_selected_db st) cmd dictid argv = Some c1" "run_cmds evs dictid = Some c2" "cmds = c1 @ c2"
      using Cons.prems(2) EvFeed by (auto simp: bind_eq_Some_conv)
    have l: "int (length (fed @ enc_cmds c1)) \<le> INT32_MAX" "int (length ((fed @ enc_cmds c1) @ enc_cmds c2)) \<le> INT32_MAX"
      using Cons.prems(3) c(3) by (simp_all add: enc_cmds_append)
    obtain st' where st': "feedAppendOnlyFile now st cmd dictid argv = Some st'" "disk_ok st' (fed @ enc_cmds c1)" "aof_selected_db st' = dictid"
      "aof_conf st' = aof_conf st" by (rule feed_disk_ok [OF Cons.prems(1) c(1) l(1)])
    have "\<exists>r. aof_run evs st' = Some r \<and> run_good (aof_conf st') ((fed @ enc_cmds c1) @ enc_cmds c2) r"
      by (rule Cons.IH [OF st'(2)]) (use c(2) st'(3) l(2) in simp_all)
    then show ?thesis using EvFeed st' c(3) by (simp add: enc_cmds_append)
  next
    case (EvFlush now force w trunc_ok fsync_ok)
    have "int (length fed) \<le> INT32_MAX" using Cons.prems(3) by simp
    then obtain r where r: "flushAppendOnlyFile now force w trunc_ok fsync_ok st = Some r" "flush_good st fed r" using flush_ok [OF Cons.prems(1)] by blast
    show ?thesis
    proof (cases r)
      case (Flushed st')
      then have st': "disk_ok st' fed" "aof_selected_db st' = aof_selected_db st" "aof_conf st' = aof_conf st" using r(2) by (simp_all add: flush_good_def)
      show ?thesis using Cons.IH [OF st'(1), of cmds] Cons.prems(2,3) EvFlush Flushed r(1) st' by simp
    next
      case (FlushExit st')
      then have "run_good (aof_conf st) fed (FlushExit st')" using r(2) by (simp add: flush_good_def run_good_def)
      then show ?thesis using run_good_longer EvFlush FlushExit r(1) by simp
    qed
  next
    case (EvSync fsync_ok)
    have "aof_selected_db (bio_fsync_job fsync_ok st) = aof_selected_db st" "aof_conf (bio_fsync_job fsync_ok st) = aof_conf st"
      by (simp_all add: bio_fsync_job_def aof_fsync_def)
    then show ?thesis using Cons.IH [OF sync_disk_ok [OF Cons.prems(1), of fsync_ok], of cmds] Cons.prems(2,3) EvSync by simp
  next
    case (EvRdbChild running)
    have "disk_ok (st\<lparr>rdb_child := running\<rparr>) fed" using Cons.prems(1) by (simp add: disk_ok_def)
    from Cons.IH [OF this] show ?thesis using Cons.prems(2,3) EvRdbChild by simp
  qed
qed

lemma initAof_ok:
  obtains st where "initAof policy no_fsync now = Some st" "disk_ok st []" "aof_selected_db st = -1" "aof_conf st = (policy, no_fsync, False)"
    "aof_synced st = 0" "aof_file st = []" "\<not> rdb_child st"
proof -
  obtain e where e: "sdsempty = Some e" "sds_rep e []" using sdsempty_ok by blast
  show thesis by (rule that, unfold initAof_def initServer_aof_def Let_def e bind.bind_lunit, rule refl)
      (simp_all add: initServerConfig_aof_def loadServerConfig_aof_def server_zero_def disk_ok_def e aofRewriteBufferReset_def)
qed

text \<open>C4. Persistence across a crash: from an empty file, for every run of commands, flushes with any short or failed
  writes, saving children and background syncs that may fail, whatever the policy and the configuration, the model is defined, and if any non-empty part at the start of the file survives, loading it
  with truncated files accepted gives exactly the state after the first commands: all those complete in that part.\<close>

theorem aof_durable:
  assumes cmds: "run_cmds evs (-1) = Some cmds" "\<forall>cmd \<in> set cmds. cmd_ok cmd" "int (length (enc_cmds cmds)) \<le> INT32_MAX"
  shows "\<exists>r. initAof policy no_fsync now \<bind> aof_run evs = Some r \<and>
    (\<forall>k s s'. 0 < k \<and> k \<le> length (aof_file (result_disk r)) \<and> replay run s (take (complete_cmds k cmds) cmds) = Some s' \<longrightarrow>
      loadAppendOnlyFile run in_multi (True, True) (take k (aof_file (result_disk r))) s = Loaded s' (enc_cmds (take (complete_cmds k cmds) cmds)))"
proof -
  obtain st where st: "initAof policy no_fsync now = Some st" "disk_ok st []" "aof_selected_db st = -1" by (rule initAof_ok)
  obtain r where r: "aof_run evs st = Some r" "run_good (aof_conf st) (enc_cmds cmds) r" using run_ok [OF st(2), of evs cmds] st(3) cmds by auto
  obtain m where m: "aof_file (result_disk r) = take m (enc_cmds cmds)"
  proof (cases r)
    case (Flushed st')
    then obtain b where "aof_file st' @ b = enc_cmds cmds" using r(2) by (auto simp: run_good_def disk_ok_def)
    then have "aof_file st' = take (length (aof_file st')) (enc_cmds cmds)" by (metis append_eq_conv_conj)
    then show thesis using that Flushed by (simp add: result_disk_def)
  next
    case (FlushExit st')
    then show thesis using that r(2) by (auto simp: run_good_def result_disk_def)
  qed
  have "loadAppendOnlyFile run in_multi (True, True) (take k (aof_file (result_disk r))) s = Loaded s' (enc_cmds (take (complete_cmds k cmds) cmds))"
    if k: "0 < k" "k \<le> length (aof_file (result_disk r))" "replay run s (take (complete_cmds k cmds) cmds) = Some s'" for k s s'
  proof -
    have "take k (aof_file (result_disk r)) = take k (enc_cmds cmds)" "k \<le> length (enc_cmds cmds)" using k(2) m by (simp_all add: min_def split: if_splits)
    then show ?thesis using load_prefix [OF cmds(2) k(1) _ refl k(3)] by simp
  qed
  then show ?thesis using st(1) r(1) by (intro exI [of _ r]) simp
qed

theorem aof_durable_witness:
  "\<exists>r. initAof FsyncNo True 0 \<bind> aof_run [EvFeed 0 OtherCommand (-1) [ObjRaw [65]], EvFlush 0 False (Wrote 15) True True] = Some r \<and>
    (\<forall>k. 0 < k \<and> k \<le> length (aof_file (result_disk r)) \<and> complete_cmds k [[[65]]] = 1 \<longrightarrow>
      loadAppendOnlyFile (\<lambda>s a. Some (s @ [a])) (\<lambda>s. False) (True, True) (take k (aof_file (result_disk r))) [] = Loaded [[[65]]] (enc_cmds [[[65]]]))"
proof -
  let ?evs = "[EvFeed 0 OtherCommand (-1) [ObjRaw [65]], EvFlush 0 False (Wrote 15) True True]"
  have c: "run_cmds ?evs (-1) = Some [[[65]]]" by (simp add: fed_cmds_def body_cmds_def)
  have e: "int (length (enc_cmds [[[65]]])) \<le> INT32_MAX" by (simp add: enc_cmd_def enc_bulk_def dec_nat.simps)
  obtain r where r: "initAof FsyncNo True 0 \<bind> aof_run ?evs = Some r"
    "\<forall>k s s'. 0 < k \<and> k \<le> length (aof_file (result_disk r)) \<and> replay (\<lambda>s a. Some (s @ [a])) s (take (complete_cmds k [[[65]]]) [[[65]]]) = Some s' \<longrightarrow>
      loadAppendOnlyFile (\<lambda>s a. Some (s @ [a])) (\<lambda>s. False) (True, True) (take k (aof_file (result_disk r))) s = Loaded s' (enc_cmds (take (complete_cmds k [[[65]]]) [[[65]]]))"
    using aof_durable [OF c _ e, of FsyncNo True 0 "\<lambda>s a. Some (s @ [a])" "\<lambda>s. False"] by (auto simp: cmd_ok_def)
  have "loadAppendOnlyFile (\<lambda>s a. Some (s @ [a])) (\<lambda>s. False) (True, True) (take k (aof_file (result_disk r))) [] = Loaded [[[65]]] (enc_cmds [[[65]]])"
    if "0 < k" "k \<le> length (aof_file (result_disk r))" "complete_cmds k [[[65]]] = 1" for k
    using r(2) [rule_format, of k "[]" "[[[65]]]"] that by simp
  then show ?thesis using r(1) by blast
qed

lemma aof_run_append:
  "aof_run (evs @ evs') st =
    (case aof_run evs st of None \<Rightarrow> None | Some (FlushExit st) \<Rightarrow> Some (FlushExit st) | Some (Flushed st) \<Rightarrow> aof_run evs' st)"
  by (induction evs st rule: aof_run.induct) (auto split: option.splits flush_result.splits bind_splits)

lemma run_cmds_flush: "run_cmds (evs @ [EvFlush t force w trunc_ok fsync_ok]) sel = run_cmds evs sel"
proof (induction evs arbitrary: sel)
  case (Cons ev evs)
  then show ?case by (cases ev) simp_all
qed simp

text \<open>The policy \<open>always\<close>: what a flush adds to what is known to be on the disk, if the server goes on after it.\<close>

definition synced_after :: "bool \<Rightarrow> aof_disk \<Rightarrow> bytes \<Rightarrow> nat" where
  "synced_after fsync_ok st fed =
     (if aof_file st = fed \<or> \<not> fsync_ok \<or> aof_no_fsync_on_rewrite st \<and> (aof_child st \<or> rdb_child st) then aof_synced st
      else length fed)"

lemma flush_always:
  assumes ok: "disk_ok st fed" "int (length fed) \<le> INT32_MAX" "aof_fsync_policy st = FsyncAlways"
    and f: "flushAppendOnlyFile now force w trunc_ok fsync_ok st = Some (Flushed st')"
  shows "aof_synced st' = synced_after fsync_ok st fed \<and> rdb_child st' = rdb_child st"
proof -
  obtain b where b: "sds_rep (aof_buf st) b" "fed = aof_file st @ b" using ok by (auto simp: disk_ok_def)
  have len: "sdslen (aof_buf st) = length b" using b(1) by (simp add: sds_rep_def sds_body_def)
  have "s32 (int (length b)) = int (length b)" using ok(2) b(2) by simp
  then have step: "flushAppendOnlyFile now force w trunc_ok fsync_ok st =
      (if b = [] then Some (Flushed st)
       else let (nwritten, st2) = aof_write st b w; st3 = st2\<lparr>aof_flush_postponed_start := 0\<rparr>
            in if nwritten \<noteq> int (length b) then flush_failed now w trunc_ok nwritten st3 else flush_written now False fsync_ok nwritten st3)"
    using len ok(3) unfolding flushAppendOnlyFile_def flush_postpone_def Let_def
    by (simp add: sds_bytes_rep [OF b(1)] aof_write_def split: write_out.split)
  show ?thesis
  proof (cases "b = []")
    case True
    then show ?thesis using step f b(2) by (simp add: synced_after_def)
  next
    case False
    define st3 where "st3 = (snd (aof_write st b w))\<lparr>aof_flush_postponed_start := 0\<rparr>"
    have s3: "aof_fsync_policy st3 = FsyncAlways" "aof_buf st3 = aof_buf st" "aof_synced st3 = aof_synced st" "aof_child st3 = aof_child st"
      "rdb_child st3 = rdb_child st" "aof_no_fsync_on_rewrite st3 = aof_no_fsync_on_rewrite st"
      using ok(3) by (simp_all add: st3_def aof_write_def split: write_out.split)
    have no: "flush_failed now w trunc_ok n st3 \<noteq> Some (Flushed st')" for n
      using s3(1) by (auto simp: flush_failed_def flush_undo_def aof_ftruncate_def Let_def split: write_out.splits)
    have n: "fst (aof_write st b w) = int (length b)" and w: "flush_written now False fsync_ok (int (length b)) st3 = Some (Flushed st')"
      using step f False no by (auto simp: case_prod_beta Let_def st3_def split: if_splits)
    have fl: "aof_file st3 = fed" using n b(2) by (auto simp: st3_def aof_write_def min_def split: write_out.splits if_splits)
    have rep3: "sds_rep (aof_buf st3) b" using b(1) s3(2) by simp
    obtain buf where "Some (Flushed st') = Some (Flushed (flush_fsync now False fsync_ok
        (st3\<lparr>aof_last_write_ok := True, aof_current_size := aof_current_size st3 + int (length b), aof_buf := buf\<rparr>)))"
      using flush_written_step [OF rep3, of now False fsync_ok "int (length b)"] w by metis
    then have "st' = flush_fsync now False fsync_ok (st3\<lparr>aof_last_write_ok := True, aof_current_size := aof_current_size st3 + int (length b), aof_buf := buf\<rparr>)"
      by simp
    then show ?thesis using s3 fl b(2) False by (auto simp: synced_after_def flush_fsync_def aof_fsync_def)
  qed
qed

text \<open>An event that cannot leave anything off the disk: no flush whose sync fails, no child during which syncs are skipped.\<close>

definition keeps_synced :: "bool \<Rightarrow> aof_event \<Rightarrow> bool" where
  "keeps_synced no_fsync ev =
     (case ev of EvFlush now force w trunc_ok fsync_ok \<Rightarrow> fsync_ok | EvRdbChild running \<Rightarrow> \<not> (no_fsync \<and> running) | _ \<Rightarrow> True)"

definition all_synced :: "aof_disk \<Rightarrow> bool" where
  "all_synced st \<longleftrightarrow> aof_synced st = length (aof_file st) \<and> \<not> (aof_no_fsync_on_rewrite st \<and> (aof_child st \<or> rdb_child st))"

lemma run_synced:
  "disk_ok st fed \<Longrightarrow> run_cmds evs (aof_selected_db st) = Some cmds \<Longrightarrow> int (length (fed @ enc_cmds cmds)) \<le> INT32_MAX \<Longrightarrow>
    aof_fsync_policy st = FsyncAlways \<Longrightarrow> all_synced st \<Longrightarrow> \<forall>ev \<in> set evs. keeps_synced (aof_no_fsync_on_rewrite st) ev \<Longrightarrow>
    aof_run evs st = Some (Flushed st') \<Longrightarrow> all_synced st'"
proof (induction evs arbitrary: st fed cmds)
  case Nil
  then show ?case by simp
next
  case (Cons ev evs)
  show ?case
  proof (cases ev)
    case (EvFeed now cmd dictid argv)
    obtain c1 c2 where c: "fed_cmds now (aof_selected_db st) cmd dictid argv = Some c1" "run_cmds evs dictid = Some c2" "cmds = c1 @ c2"
      using Cons.prems(2) EvFeed by (auto simp: bind_eq_Some_conv)
    have l: "int (length (fed @ enc_cmds c1)) \<le> INT32_MAX" "int (length ((fed @ enc_cmds c1) @ enc_cmds c2)) \<le> INT32_MAX"
      using Cons.prems(3) c(3) by (simp_all add: enc_cmds_append)
    obtain st1 where st1: "feedAppendOnlyFile now st cmd dictid argv = Some st1" "disk_ok st1 (fed @ enc_cmds c1)" "aof_selected_db st1 = dictid"
      "aof_conf st1 = aof_conf st" "all_synced st1 = all_synced st" by (rule feed_disk_ok [OF Cons.prems(1) c(1) l(1)]) (simp add: all_synced_def)
    show ?thesis by (rule Cons.IH [OF st1(2) _ l(2)]) (use c(2) st1 Cons.prems(4-) EvFeed in simp_all)
  next
    case (EvFlush now force w trunc_ok fsync_ok)
    have lim: "int (length fed) \<le> INT32_MAX" using Cons.prems(3) by simp
    obtain st1 where st1: "flushAppendOnlyFile now force w trunc_ok fsync_ok st = Some (Flushed st1)" "aof_run evs st1 = Some (Flushed st')"
      using Cons.prems(7) EvFlush by (auto split: option.splits flush_result.splits)
    have good: "flush_good st fed (Flushed st1)" using flush_ok [OF Cons.prems(1) lim, of now force w trunc_ok fsync_ok] st1(1) by simp
    then have g: "disk_ok st1 fed" "aof_selected_db st1 = aof_selected_db st" "aof_conf st1 = aof_conf st" "aof_file st1 = fed"
      using Cons.prems(4) by (simp_all add: flush_good_def)
    have "fsync_ok" using Cons.prems(6) EvFlush by (simp add: keeps_synced_def)
    then have "all_synced st1"
      using flush_always [OF Cons.prems(1) lim Cons.prems(4) st1(1)] Cons.prems(5) g(3,4) by (auto simp: all_synced_def synced_after_def)
    then show ?thesis using Cons.IH [OF g(1) _ Cons.prems(3) _ _ _ st1(2)] g(2,3) Cons.prems(2,4,6) EvFlush by simp
  next
    case (EvSync fsync_ok)
    have s: "aof_selected_db (bio_fsync_job fsync_ok st) = aof_selected_db st" "aof_conf (bio_fsync_job fsync_ok st) = aof_conf st"
      "all_synced (bio_fsync_job fsync_ok st)" using Cons.prems(5) by (simp_all add: bio_fsync_job_def aof_fsync_def all_synced_def)
    show ?thesis by (rule Cons.IH [OF sync_disk_ok [OF Cons.prems(1)] _ Cons.prems(3)]) (use s Cons.prems EvSync in simp_all)
  next
    case (EvRdbChild running)
    have s: "disk_ok (st\<lparr>rdb_child := running\<rparr>) fed" "all_synced (st\<lparr>rdb_child := running\<rparr>)"
      using Cons.prems(1,5,6) EvRdbChild by (auto simp: disk_ok_def all_synced_def keeps_synced_def)
    show ?thesis by (rule Cons.IH [OF s(1) _ Cons.prems(3)]) (use s(2) Cons.prems EvRdbChild in simp_all)
  qed
qed

text \<open>C19. With the policy \<open>always\<close>, whenever the server goes on after a run that ends with a flush, every command fed so far is
  in the file, in full and in order. What the last flush does to the part that is known to be on the disk: it becomes the whole
  file, unless there was nothing to write, the sync failed (the result is not looked at), or \<open>no-appendfsync-on-rewrite\<close> is set
  and a child is saving; then it stays as it was. So if no sync of the run failed and no child was running with that option set,
  the whole file is on the disk.\<close>

theorem fsync_always:
  assumes cmds: "run_cmds evs (-1) = Some cmds" "int (length (enc_cmds cmds)) \<le> INT32_MAX"
    and run: "initAof FsyncAlways no_fsync now \<bind> aof_run (evs @ [EvFlush t force w trunc_ok fsync_ok]) = Some (Flushed st)"
  shows "aof_file st = enc_cmds cmds \<and>
    (\<exists>st1. initAof FsyncAlways no_fsync now \<bind> aof_run evs = Some (Flushed st1) \<and>
       aof_synced st = (if aof_file st1 = enc_cmds cmds \<or> \<not> fsync_ok \<or> no_fsync \<and> rdb_child st1 then aof_synced st1 else length (enc_cmds cmds))) \<and>
    ((\<forall>ev \<in> set (evs @ [EvFlush t force w trunc_ok fsync_ok]). keeps_synced no_fsync ev) \<longrightarrow> aof_synced st = length (enc_cmds cmds))"
proof -
  let ?evs = "evs @ [EvFlush t force w trunc_ok fsync_ok]"
  obtain st0 where i: "initAof FsyncAlways no_fsync now = Some st0" "disk_ok st0 []" "aof_selected_db st0 = -1" "aof_conf st0 = (FsyncAlways, no_fsync, False)"
    "all_synced st0" by (rule initAof_ok [of FsyncAlways no_fsync now]) (simp add: all_synced_def)
  obtain r where r: "aof_run evs st0 = Some r" "run_good (aof_conf st0) (enc_cmds cmds) r" using run_ok [OF i(2), of evs cmds] i(3) cmds by auto
  have all: "aof_run ?evs st0 = Some (Flushed st)" using run i(1) by simp
  then obtain st1 where st1: "r = Flushed st1" "flushAppendOnlyFile t force w trunc_ok fsync_ok st1 = Some (Flushed st)"
    using r(1) unfolding aof_run_append by (auto split: flush_result.splits option.splits)
  have ok1: "disk_ok st1 (enc_cmds cmds)" "aof_conf st1 = (FsyncAlways, no_fsync, False)" using r(2) st1(1) i(4) by (auto simp: run_good_def)
  have "flush_good st1 (enc_cmds cmds) (Flushed st)" using flush_ok [OF ok1(1) cmds(2), of t force w trunc_ok fsync_ok] st1(2) by simp
  then have fl: "aof_file st = enc_cmds cmds" using ok1(2) by (simp add: flush_good_def)
  have "aof_synced st = synced_after fsync_ok st1 (enc_cmds cmds)" using flush_always [OF ok1(1) cmds(2) _ st1(2)] ok1(2) by simp
  then have last: "aof_synced st = (if aof_file st1 = enc_cmds cmds \<or> \<not> fsync_ok \<or> no_fsync \<and> rdb_child st1 then aof_synced st1 else length (enc_cmds cmds))"
    using ok1(2) by (simp add: synced_after_def)
  have rc: "run_cmds ?evs (aof_selected_db st0) = Some cmds" using cmds(1) i(3) by (simp add: run_cmds_flush)
  have "all_synced st" if "\<forall>ev \<in> set ?evs. keeps_synced no_fsync ev"
    by (rule run_synced [OF i(2) rc _ _ i(5) _ all]) (use cmds(2) i(4) that in simp_all)
  then show ?thesis using fl last i(1) r(1) st1(1) by (auto simp: all_synced_def)
qed

text \<open>A complete write of a buffer that is not postponed.\<close>

lemma flush_full:
  assumes ok: "disk_ok st fed" "int (length fed) \<le> INT32_MAX" "length fed \<le> n" and ns: "\<not> (aof_fsync_policy st = FsyncEverysec \<and> fsync_jobs st \<noteq> 0)"
  obtains st' where "flushAppendOnlyFile now force (Wrote n) trunc_ok fsync_ok st = Some (Flushed st')" "sds_rep (aof_buf st') []" "aof_file st' = fed"
    "aof_fsync_policy st = FsyncEverysec \<and> now \<le> aof_last_fsync st \<longrightarrow> aof_synced st' = aof_synced st \<and> fsync_jobs st' = fsync_jobs st"
proof -
  obtain b where b: "sds_rep (aof_buf st) b" "aof_file st @ b = fed" using ok by (auto simp: disk_ok_def)
  have len: "sdslen (aof_buf st) = length b" using b(1) by (simp add: sds_rep_def sds_body_def)
  show thesis
  proof (cases "b = []")
    case True
    then show thesis using that [of st] b len by (simp add: flushAppendOnlyFile_def)
  next
    case False
    let ?st1 = "st\<lparr>aof_file := aof_file st @ b, aof_flush_postponed_start := 0\<rparr>"
    have lb: "length b \<le> n" "length b \<le> 2147483647" using ok(2,3) arg_cong [OF b(2), of length] by simp_all
    have ns': "(aof_fsync_policy st = FsyncEverysec \<and> fsync_jobs st \<noteq> 0) = False" using ns by blast
    have w: "flushAppendOnlyFile now force (Wrote n) trunc_ok fsync_ok st = flush_written now False fsync_ok (int (length b)) ?st1"
      unfolding flushAppendOnlyFile_def ns' flush_postpone_def Let_def using False len lb by (simp add: sds_bytes_rep [OF b(1)] aof_write_def)
    have "sds_rep (aof_buf ?st1) b" using b(1) by simp
    from flush_written_step [OF this, of now False fsync_ok "int (length b)"]
    obtain buf where f: "flush_written now False fsync_ok (int (length b)) ?st1 = Some (Flushed (flush_fsync now False fsync_ok
        (?st1\<lparr>aof_last_write_ok := True, aof_current_size := aof_current_size ?st1 + int (length b), aof_buf := buf\<rparr>)))" "sds_rep buf []" .
    show thesis by (rule that [OF trans [OF w f(1)]]) (use f(2) b(2) in \<open>simp_all add: flush_fsync_def aof_fsync_def aof_background_fsync_def\<close>)
  qed
qed

text \<open>A sync that fails: the server goes on, and nothing of the file is known to be on the disk.\<close>

theorem fsync_always_witness:
  "(\<exists>st. initAof FsyncAlways True 0 \<bind> aof_run ([EvFeed 0 OtherCommand (-1) [ObjRaw [65]]] @ [EvFlush 0 False (Wrote 100) True True]) = Some (Flushed st) \<and>
      aof_file st = enc_cmds [[[65]]] \<and> aof_synced st = length (enc_cmds [[[65]]])) \<and>
   (\<exists>st. initAof FsyncAlways True 0 \<bind> aof_run ([EvFeed 0 OtherCommand (-1) [ObjRaw [65]]] @ [EvFlush 0 False (Wrote 100) True False]) = Some (Flushed st) \<and>
      aof_file st = enc_cmds [[[65]]] \<and> aof_synced st = 0)"
proof -
  let ?feed = "[EvFeed 0 OtherCommand (-1) [ObjRaw [65]]]"
  have c: "run_cmds ?feed (-1) = Some [[[65]]]" by (simp add: fed_cmds_def body_cmds_def)
  have l: "length (enc_cmds [[[65]]]) = 11" by (simp add: enc_cmd_def enc_bulk_def dec_nat.simps)
  have l100: "length (enc_cmds [[[65]]]) \<le> 100" unfolding l by simp
  have e: "int (length (enc_cmds [[[65]]])) \<le> INT32_MAX" unfolding l by simp
  obtain st0 where i: "initAof FsyncAlways True 0 = Some st0" "disk_ok st0 []" "aof_selected_db st0 = -1" "aof_conf st0 = (FsyncAlways, True, False)"
    "aof_synced st0 = 0" by (rule initAof_ok)
  obtain st1 where s1: "feedAppendOnlyFile 0 st0 OtherCommand (-1) [ObjRaw [65]] = Some st1" "disk_ok st1 ([] @ enc_cmds [[[65]]])"
    "aof_conf st1 = aof_conf st0" "aof_synced st1 = aof_synced st0"
    by (rule feed_disk_ok [OF i(2), of 0 OtherCommand "-1" "[ObjRaw [65]]" "[[[65]]]"]) (use i(3) e in \<open>simp_all add: fed_cmds_def body_cmds_def\<close>)
  have ok1: "disk_ok st1 (enc_cmds [[[65]]])" using s1(2) by simp
  have runs: "\<exists>st. initAof FsyncAlways True 0 \<bind> aof_run (?feed @ [EvFlush 0 False (Wrote 100) True fsync_ok]) = Some (Flushed st)" for fsync_ok
  proof -
    obtain st where "flushAppendOnlyFile 0 False (Wrote 100) True fsync_ok st1 = Some (Flushed st)"
      by (rule flush_full [OF ok1 e l100, of 0 False True fsync_ok]) (use s1(3) i(4) in simp_all)
    then show ?thesis using i(1) s1(1) by simp
  qed
  obtain st2 where r2: "initAof FsyncAlways True 0 \<bind> aof_run (?feed @ [EvFlush 0 False (Wrote 100) True True]) = Some (Flushed st2)" using runs by blast
  obtain st3 where r3: "initAof FsyncAlways True 0 \<bind> aof_run (?feed @ [EvFlush 0 False (Wrote 100) True False]) = Some (Flushed st3)" using runs by blast
  have "aof_file st2 = enc_cmds [[[65]]] \<and> aof_synced st2 = length (enc_cmds [[[65]]])"
    using fsync_always [OF c e r2] by (simp add: keeps_synced_def)
  moreover have "aof_file st3 = enc_cmds [[[65]]] \<and> aof_synced st3 = 0"
    using fsync_always [OF c e r3] i(1,5) s1(1,4) by auto
  ultimately show ?thesis using r2 r3 by blast
qed

text \<open>Nothing happens with an empty buffer and no job.\<close>

lemma idle_run:
  "sdslen (aof_buf st) = 0 \<Longrightarrow> fsync_jobs st = 0 \<Longrightarrow> \<forall>ev \<in> set evs. (\<exists>t force w trunc_ok fsync_ok. ev = EvFlush t force w trunc_ok fsync_ok) \<or> (\<exists>fsync_ok. ev = EvSync fsync_ok) \<Longrightarrow>
    aof_run evs st = Some (Flushed st)"
  by (induction evs) (auto simp: flushAppendOnlyFile_def bio_fsync_job_def)

text \<open>With the policy \<open>everysec\<close>, data that is flushed in the second of the last sync is never synced while no new data comes:
  however many flushes follow, at whatever times, no sync is started and the file stays as it is.\<close>

theorem everysec_tail:
  assumes ok: "disk_ok st fed" "int (length fed) \<le> INT32_MAX" "length fed \<le> n" and b: "aof_file st \<noteq> fed"
    and st: "aof_fsync_policy st = FsyncEverysec" "fsync_jobs st = 0" "aof_last_fsync st = now"
    and evs: "\<forall>ev \<in> set evs. (\<exists>t force w trunc_ok fsync_ok. ev = EvFlush t force w trunc_ok fsync_ok) \<or> (\<exists>fsync_ok. ev = EvSync fsync_ok)"
  shows "\<exists>st'. aof_run (EvFlush now force (Wrote n) trunc_ok fsync_ok # evs) st = Some (Flushed st') \<and>
    aof_file st' = fed \<and> aof_synced st' < length fed \<and> fsync_jobs st' = 0"
proof -
  obtain st' where f: "flushAppendOnlyFile now force (Wrote n) trunc_ok fsync_ok st = Some (Flushed st')" "sds_rep (aof_buf st') []" "aof_file st' = fed"
    "aof_synced st' = aof_synced st" "fsync_jobs st' = 0" by (rule flush_full [OF ok, of now force trunc_ok]) (use st in auto)
  have "sdslen (aof_buf st') = 0" using f(2) by (simp add: sds_rep_def sds_body_def)
  from idle_run [OF this f(5) evs] have "aof_run (EvFlush now force (Wrote n) trunc_ok fsync_ok # evs) st = Some (Flushed st')" using f(1) by simp
  moreover have "aof_synced st < length fed"
  proof -
    obtain b where b': "aof_file st @ b = fed" "aof_synced st \<le> length (aof_file st)" using ok(1) by (auto simp: disk_ok_def)
    have "0 < length b" using b b'(1) by auto
    moreover have "length (aof_file st) + length b = length fed" using arg_cong [OF b'(1), of length] by simp
    ultimately show ?thesis using b'(2) by linarith
  qed
  ultimately show ?thesis using f(3,4,5) by (intro exI [of _ st']) simp
qed

theorem everysec_tail_witness:
  "\<exists>st st'. aof_fsync_policy st = FsyncEverysec \<and> aof_last_fsync st = 7 \<and>
    aof_run [EvFlush 7 False (Wrote 100) True True, EvFlush 8 False (Wrote 100) True True, EvSync True, EvFlush 1000 False (Wrote 100) True True] st = Some (Flushed st') \<and>
    aof_file st' = [65] \<and> aof_synced st' < length [65 :: byte] \<and> fsync_jobs st' = 0"
proof -
  obtain e where e: "sdsempty = Some e" "sds_rep e []" using sdsempty_ok by blast
  obtain s where s: "sds_rep s [65]" using sdscatlen_ok [OF sds_rep_body [OF e(2)], of "[65]"] by auto
  define st where "st = \<lparr>aof_selected_db = -1, aof_buf = s, aof_on = True, aof_child = False, aof_blocks = [],
       aof_file = [], aof_synced = 0, fsync_jobs = 0, aof_current_size = 0, aof_fsync_policy = FsyncEverysec,
       aof_flush_postponed_start = 0, aof_delayed_fsync = 0, aof_last_write_ok = True, aof_last_write_errno = 0,
       last_write_error_log = 0, aof_last_fsync = 7, aof_no_fsync_on_rewrite = False, rdb_child = False\<rparr>"
  have ok: "disk_ok st [65]" using s by (simp add: disk_ok_def st_def)
  have "\<exists>st'. aof_run (EvFlush 7 False (Wrote 100) True True # [EvFlush 8 False (Wrote 100) True True, EvSync True, EvFlush 1000 False (Wrote 100) True True]) st = Some (Flushed st') \<and>
      aof_file st' = [65] \<and> aof_synced st' < length [65 :: byte] \<and> fsync_jobs st' = 0"
    by (rule everysec_tail [OF ok]) (auto simp: st_def)
  moreover have "aof_fsync_policy st = FsyncEverysec" "aof_last_fsync st = 7" by (simp_all add: st_def)
  ultimately show ?thesis by blast
qed

end
