(* ===== verification/Lzf.thy ===== *)
theory Lzf
  imports Prelude "HOL-Library.Monad_Syntax"
begin

unbundle bit_operations_syntax

text \<open>
  The LZF compressor and decompressor, \<open>lzf_c.c\<close> and \<open>lzf_d.c\<close>, as configured in \<open>lzfP.h\<close> for a
  host of 64 bits: \<open>HLOG\<close> is 16, \<open>VERY_FAST\<close> and \<open>CHECK_INPUT\<close> are on, the hash table holds offsets and is not
  initialised, so its first contents are an argument. Input is a list of bytes, output an object of
  \<open>out_len\<close> indeterminate cells; pointers are offsets. Both lengths fit into 32 bits. \<open>None\<close> is an access outside one of the objects.
\<close>

definition byte_at :: "bytes \<Rightarrow> nat \<Rightarrow> byte option" where
  "byte_at xs i = (if i < length xs then Some (xs ! i) else None)"

definition bytes_eq :: "bytes \<Rightarrow> nat \<Rightarrow> nat \<Rightarrow> bool option" where
  "bytes_eq xs i j = do { a \<leftarrow> byte_at xs i; b \<leftarrow> byte_at xs j; Some (a = b) }"

section \<open>Decompression\<close>

datatype lzf_errno = LzfE2BIG | LzfEINVAL

text \<open>The results: the output and its length, or the error for which zero is returned.\<close>

datatype lzf_result = LzfDone cmemory nat | LzfFail lzf_errno

datatype lzf_token_result = TokNext cmemory nat nat | TokFail lzf_errno

fun copy_octets :: "cmemory \<Rightarrow> nat \<Rightarrow> nat \<Rightarrow> nat \<Rightarrow> cmemory option" where
  "copy_octets m op ref 0 = Some m"
| "copy_octets m op ref (Suc n) = do { b \<leftarrow> mem_read m ref 1; m \<leftarrow> mem_write m op b; copy_octets m (op + 1) (ref + 1) n }"

text \<open>The switch over the length: short references are copied octet by octet, long ones with \<open>memcpy\<close> unless they overlap.\<close>

definition lzf_copy :: "cmemory \<Rightarrow> nat \<Rightarrow> nat \<Rightarrow> nat \<Rightarrow> cmemory option" where
  "lzf_copy m op ref len =
     (if len > 9 then
        (let len = len + 2
         in if op \<ge> ref + len then do { bs \<leftarrow> mem_read m ref len; mem_write m op bs } else copy_octets m op ref len)
      else copy_octets m op ref (len + 2))"

definition lzf_literal :: "bytes \<Rightarrow> cmemory \<Rightarrow> nat \<Rightarrow> nat \<Rightarrow> nat \<Rightarrow> lzf_token_result option" where
  "lzf_literal inp m ip op ctrl =
     (let ctrl = ctrl + 1
      in if op + ctrl > length m then Some (TokFail LzfE2BIG)
         else if ip + ctrl > length inp then Some (TokFail LzfEINVAL)
         else map_option (\<lambda>m. TokNext m (ip + ctrl) (op + ctrl)) (mem_write m op (take ctrl (drop ip inp))))"

definition lzf_backref :: "bytes \<Rightarrow> cmemory \<Rightarrow> nat \<Rightarrow> nat \<Rightarrow> nat \<Rightarrow> lzf_token_result option" where
  "lzf_backref inp m ip op ctrl =
     (let len = ctrl div 32;
          ref = int op - int ((ctrl mod 32) * 256) - 1
      in if ip \<ge> length inp then Some (TokFail LzfEINVAL)
         else if len = 7 \<and> ip + 1 \<ge> length inp then Some (TokFail LzfEINVAL)
         else
           (let (len, ip) = (if len = 7 then (len + unat (inp ! ip), ip + 1) else (len, ip));
                ref = ref - int (unat (inp ! ip));
                ip = ip + 1
            in if op + len + 2 > length m then Some (TokFail LzfE2BIG)
               else if ref < 0 then Some (TokFail LzfEINVAL)
               else map_option (\<lambda>m. TokNext m ip (op + len + 2)) (lzf_copy m op (nat ref) len)))"

definition lzf_token :: "bytes \<Rightarrow> cmemory \<Rightarrow> nat \<Rightarrow> nat \<Rightarrow> lzf_token_result option" where
  "lzf_token inp m ip op = do {
     c \<leftarrow> byte_at inp ip;
     let ctrl = unat c;
     if ctrl < 32 then lzf_literal inp m (ip + 1) op ctrl else lzf_backref inp m (ip + 1) op ctrl
   }"

lemma lzf_token_ip: "lzf_token inp m ip op = Some (TokNext m' ip' op') \<Longrightarrow> ip < ip'"
  by (auto simp: lzf_token_def lzf_literal_def lzf_backref_def Let_def bind_eq_Some_conv split: if_splits)

function lzf_loop :: "bytes \<Rightarrow> cmemory \<Rightarrow> nat \<Rightarrow> nat \<Rightarrow> lzf_result option" where
  "lzf_loop inp m ip op =
     (case lzf_token inp m ip op of
        None \<Rightarrow> None
      | Some (TokFail e) \<Rightarrow> Some (LzfFail e)
      | Some (TokNext m' ip' op') \<Rightarrow> if ip' < length inp then lzf_loop inp m' ip' op' else Some (LzfDone m' op'))"
  by pat_completeness auto
termination
  by (relation "measure (\<lambda>(inp, m, ip, op). length inp - ip)") (auto dest: lzf_token_ip)

declare lzf_loop.simps [simp del]

definition lzf_decompress :: "bytes \<Rightarrow> cmemory \<Rightarrow> lzf_result option" where
  "lzf_decompress inp out = lzf_loop inp out 0 0"

section \<open>Compression\<close>

abbreviation MAX_LIT :: nat where "MAX_LIT \<equiv> 32"
abbreviation MAX_OFF :: nat where "MAX_OFF \<equiv> 8192"
abbreviation MAX_REF :: nat where "MAX_REF \<equiv> 264"

definition lzf_FRST :: "byte \<Rightarrow> byte \<Rightarrow> 32 word" where
  "lzf_FRST p0 p1 = push_bit 8 (ucast p0) OR ucast p1"

definition lzf_NEXT :: "32 word \<Rightarrow> byte \<Rightarrow> 32 word" where
  "lzf_NEXT v p2 = push_bit 8 v OR ucast p2"

definition lzf_IDX :: "32 word \<Rightarrow> nat" where
  "lzf_IDX h = unat ((drop_bit 8 h - h * 5) AND 65535)"

record lzf_state =
  lz_ip :: nat
  lz_op :: nat
  lz_lit :: nat
  lz_hval :: "32 word"
  lz_htab :: "nat \<Rightarrow> nat"
  lz_out :: cmemory

text \<open>The test for a match at an offset from the hash table.\<close>

definition lzf_found :: "bytes \<Rightarrow> nat \<Rightarrow> nat \<Rightarrow> bool option" where
  "lzf_found inp ip ref =
     (if ref < ip \<and> ip - ref - 1 < MAX_OFF \<and> ref > 0 then do {
        e2 \<leftarrow> bytes_eq inp (ref + 2) (ip + 2);
        if e2 then do { e0 \<leftarrow> bytes_eq inp ref ip; e1 \<leftarrow> bytes_eq inp (ref + 1) (ip + 1); Some (e0 \<and> e1) } else Some False
      } else Some False)"

text \<open>The sixteen unrolled comparisons: the length, and whether a difference was found; and the loop behind them.\<close>

fun match_unrolled :: "bytes \<Rightarrow> nat \<Rightarrow> nat \<Rightarrow> nat \<Rightarrow> nat \<Rightarrow> (nat \<times> bool) option" where
  "match_unrolled inp ip ref len 0 = Some (len, False)"
| "match_unrolled inp ip ref len (Suc k) = do {
     e \<leftarrow> bytes_eq inp (ref + (len + 1)) (ip + (len + 1));
     if e then match_unrolled inp ip ref (len + 1) k else Some (len + 1, True)
   }"

function match_rest :: "bytes \<Rightarrow> nat \<Rightarrow> nat \<Rightarrow> nat \<Rightarrow> nat \<Rightarrow> nat option" where
  "match_rest inp ip ref maxlen len =
     (if len + 1 < maxlen
      then do { e \<leftarrow> bytes_eq inp (ref + (len + 1)) (ip + (len + 1)); if e then match_rest inp ip ref maxlen (len + 1) else Some (len + 1) }
      else Some (len + 1))"
  by pat_completeness auto
termination
  by (relation "measure (\<lambda>(inp, ip, ref, maxlen, len). maxlen - len)") auto

declare match_rest.simps [simp del]

definition match_len :: "bytes \<Rightarrow> nat \<Rightarrow> nat \<Rightarrow> nat option" where
  "match_len inp ip ref =
     (let maxlen = length inp - ip - 2;
          maxlen = (if maxlen > MAX_REF then MAX_REF else maxlen)
      in if maxlen > 16 then do {
           (len, stop) \<leftarrow> match_unrolled inp ip ref 2 16;
           if stop then Some len else match_rest inp ip ref maxlen len
         } else match_rest inp ip ref maxlen 2)"

text \<open>The length of a run of literals goes in front of it.\<close>

definition stop_run :: "cmemory \<Rightarrow> nat \<Rightarrow> nat \<Rightarrow> cmemory option" where
  "stop_run out op run = mem_write out (op - run - 1) [word_of_int (int run - 1)]"

definition put_ref :: "cmemory \<Rightarrow> nat \<Rightarrow> nat \<Rightarrow> nat \<Rightarrow> (cmemory \<times> nat) option" where
  "put_ref out op off len = do {
     (out, op) \<leftarrow>
       (if len < 7 then map_option (\<lambda>out. (out, op + 1)) (mem_write out op [word_of_nat (off div 256 + len * 32)])
        else do {
          out \<leftarrow> mem_write out op [word_of_nat (off div 256 + 7 * 32)];
          map_option (\<lambda>out. (out, op + 2)) (mem_write out (op + 1) [word_of_nat (len - 7)])
        });
     map_option (\<lambda>out. (out, op + 1)) (mem_write out op [word_of_nat off])
   }"

datatype lzf_round = RoundFull | RoundGo lzf_state | RoundBreak lzf_state

text \<open>The two positions before the end of a match are entered into the table.\<close>

definition lzf_rehash :: "bytes \<Rightarrow> lzf_state \<Rightarrow> lzf_state option" where
  "lzf_rehash inp st = do {
     let ip = lz_ip st - 2;
     p0 \<leftarrow> byte_at inp ip;
     p1 \<leftarrow> byte_at inp (ip + 1);
     let hval = lzf_FRST p0 p1;
     p2 \<leftarrow> byte_at inp (ip + 2);
     let hval = lzf_NEXT hval p2;
     let htab = (lz_htab st)(lzf_IDX hval := ip);
     let ip = ip + 1;
     p2 \<leftarrow> byte_at inp (ip + 2);
     let hval = lzf_NEXT hval p2;
     let htab = htab(lzf_IDX hval := ip);
     let ip = ip + 1;
     Some (st\<lparr>lz_ip := ip, lz_hval := hval, lz_htab := htab\<rparr>)
   }"

definition lzf_matched :: "bytes \<Rightarrow> nat \<Rightarrow> lzf_state \<Rightarrow> nat \<Rightarrow> lzf_round option" where
  "lzf_matched inp out_len st ref =
     (let ip = lz_ip st;
          op = lz_op st;
          off = ip - ref - 1;
          nolit = (if lz_lit st = 0 then 1 else 0)
      in if op + 3 + 1 \<ge> out_len \<and> op - nolit + 3 + 1 \<ge> out_len then Some RoundFull
         else do {
           out \<leftarrow> stop_run (lz_out st) op (lz_lit st);
           let op = op - nolit;
           len \<leftarrow> match_len inp ip ref;
           let len = len - 2;
           let ip = ip + 1;
           (out, op) \<leftarrow> put_ref out op off len;
           let op = op + 1;
           let ip = ip + (len + 1);
           let st = st\<lparr>lz_ip := ip, lz_op := op, lz_lit := 0, lz_out := out\<rparr>;
           if int ip \<ge> int (length inp) - 2 then Some (RoundBreak st) else map_option RoundGo (lzf_rehash inp st)
         })"

text \<open>One more literal; a run that has reached its limit is ended.\<close>

definition put_literal :: "bytes \<Rightarrow> lzf_state \<Rightarrow> lzf_state option" where
  "put_literal inp st = do {
     b \<leftarrow> byte_at inp (lz_ip st);
     let run = lz_lit st + 1;
     out \<leftarrow> mem_write (lz_out st) (lz_op st) [b];
     let op = lz_op st + 1;
     let ip = lz_ip st + 1;
     if run = MAX_LIT then do {
       out \<leftarrow> stop_run out op run;
       Some (st\<lparr>lz_ip := ip, lz_op := op + 1, lz_lit := 0, lz_out := out\<rparr>)
     }
     else Some (st\<lparr>lz_ip := ip, lz_op := op, lz_lit := run, lz_out := out\<rparr>)
   }"

definition lzf_round :: "bytes \<Rightarrow> nat \<Rightarrow> lzf_state \<Rightarrow> lzf_round option" where
  "lzf_round inp out_len st = do {
     p2 \<leftarrow> byte_at inp (lz_ip st + 2);
     let hval = lzf_NEXT (lz_hval st) p2;
     let ref = lz_htab st (lzf_IDX hval);
     let st = st\<lparr>lz_hval := hval, lz_htab := (lz_htab st)(lzf_IDX hval := lz_ip st)\<rparr>;
     found \<leftarrow> lzf_found inp (lz_ip st) ref;
     if found then lzf_matched inp out_len st ref
     else if lz_op st \<ge> out_len then Some RoundFull
     else map_option RoundGo (put_literal inp st)
   }"

lemma put_literal_ip: "put_literal inp st = Some st' \<Longrightarrow> lz_ip st' = lz_ip st + 1"
  by (auto simp: put_literal_def Let_def bind_eq_Some_conv split: if_splits)

lemma lzf_rehash_ip: "lzf_rehash inp st = Some st' \<Longrightarrow> 2 \<le> lz_ip st \<Longrightarrow> lz_ip st' = lz_ip st"
  by (auto simp: lzf_rehash_def Let_def bind_eq_Some_conv)

lemma lzf_round_ip: "lzf_round inp out_len st = Some (RoundGo st') \<Longrightarrow> lz_ip st < lz_ip st'"
  by (auto simp: lzf_round_def lzf_matched_def Let_def bind_eq_Some_conv dest!: put_literal_ip lzf_rehash_ip split: if_splits)

text \<open>The main loop: \<open>Inl\<close> when the output is full.\<close>

function lzf_main :: "bytes \<Rightarrow> nat \<Rightarrow> lzf_state \<Rightarrow> (unit + lzf_state) option" where
  "lzf_main inp out_len st =
     (if int (lz_ip st) < int (length inp) - 2
      then
        (case lzf_round inp out_len st of
           None \<Rightarrow> None
         | Some RoundFull \<Rightarrow> Some (Inl ())
         | Some (RoundBreak st') \<Rightarrow> Some (Inr st')
         | Some (RoundGo st') \<Rightarrow> lzf_main inp out_len st')
      else Some (Inr st))"
  by pat_completeness auto
termination
  by (relation "measure (\<lambda>(inp, out_len, st). length inp - lz_ip st)") (auto dest!: lzf_round_ip)

declare lzf_main.simps [simp del]

text \<open>The bytes that are left.\<close>

function lzf_tail :: "bytes \<Rightarrow> lzf_state \<Rightarrow> lzf_state option" where
  "lzf_tail inp st =
     (if lz_ip st < length inp
      then (case put_literal inp st of None \<Rightarrow> None | Some st' \<Rightarrow> lzf_tail inp st')
      else Some st)"
  by pat_completeness auto
termination
  by (relation "measure (\<lambda>(inp, st). length inp - lz_ip st)") (auto dest!: put_literal_ip)

declare lzf_tail.simps [simp del]

text \<open>The output, or \<open>None\<close> inside when zero is returned.\<close>

definition lzf_compress :: "(nat \<Rightarrow> nat) \<Rightarrow> bytes \<Rightarrow> nat \<Rightarrow> bytes option option" where
  "lzf_compress htab inp out_len =
     (if inp = [] \<or> out_len = 0 then Some None
      else do {
        p0 \<leftarrow> byte_at inp 0;
        p1 \<leftarrow> byte_at inp 1;
        r \<leftarrow> lzf_main inp out_len
          \<lparr>lz_ip = 0, lz_op = 1, lz_lit = 0, lz_hval = lzf_FRST p0 p1, lz_htab = htab, lz_out = replicate out_len None\<rparr>;
        case r of
          Inl _ \<Rightarrow> Some None
        | Inr st \<Rightarrow>
            if lz_op st + 3 > out_len then Some None
            else do {
              st \<leftarrow> lzf_tail inp st;
              out \<leftarrow> stop_run (lz_out st) (lz_op st) (lz_lit st);
              let op = lz_op st - (if lz_lit st = 0 then 1 else 0);
              bs \<leftarrow> mem_read out 0 op;
              Some (Some bs)
            }
      })"

end
