(* ===== verification/LzfSpec.thy ===== *)
theory LzfSpec
  imports Lzf
begin

text \<open>
  LZF as a code: the compressed form is the encoding of a list of tokens, runs of literals and
  references into the output so far. The decompressor computes what the tokens stand for and is
  safe on every input; the compressor writes tokens that stand for its input, whatever the hash
  table contains.
\<close>

section \<open>Tokens\<close>

datatype lz_tok = LzLit bytes | LzRef nat nat

fun enc_tok :: "lz_tok \<Rightarrow> bytes" where
  "enc_tok (LzLit bs) = word_of_nat (length bs - 1) # bs"
| "enc_tok (LzRef off n) =
     (if n - 2 < 7 then [word_of_nat (off div 256 + (n - 2) * 32), word_of_nat off]
      else [word_of_nat (off div 256 + 7 * 32), word_of_nat (n - 2 - 7), word_of_nat off])"

definition enc_toks :: "lz_tok list \<Rightarrow> bytes" where
  "enc_toks ts = concat (map enc_tok ts)"

text \<open>A token is possible after \<open>n\<close> bytes of output.\<close>

fun tok_ok :: "nat \<Rightarrow> lz_tok \<Rightarrow> bool" where
  "tok_ok n (LzLit bs) \<longleftrightarrow> 1 \<le> length bs \<and> length bs \<le> MAX_LIT"
| "tok_ok n (LzRef off l) \<longleftrightarrow> off < MAX_OFF \<and> off < n \<and> 3 \<le> l \<and> l \<le> MAX_REF"

fun ref_copy :: "bytes \<Rightarrow> nat \<Rightarrow> nat \<Rightarrow> bytes" where
  "ref_copy d off 0 = d"
| "ref_copy d off (Suc n) = ref_copy (d @ [d ! (length d - off - 1)]) off n"

fun tok_out :: "bytes \<Rightarrow> lz_tok \<Rightarrow> bytes" where
  "tok_out d (LzLit bs) = d @ bs"
| "tok_out d (LzRef off n) = ref_copy d off n"

fun toks_ok :: "bytes \<Rightarrow> lz_tok list \<Rightarrow> bool" where
  "toks_ok d [] = True"
| "toks_ok d (t # ts) = (tok_ok (length d) t \<and> toks_ok (tok_out d t) ts)"

definition toks_out :: "bytes \<Rightarrow> lz_tok list \<Rightarrow> bytes" where
  "toks_out d ts = foldl tok_out d ts"

lemma enc_toks_simps [simp]: "enc_toks [] = []" "enc_toks (t # ts) = enc_tok t @ enc_toks ts" "enc_toks (ts @ us) = enc_toks ts @ enc_toks us"
  by (simp_all add: enc_toks_def)

lemma toks_out_simps [simp]: "toks_out d [] = d" "toks_out d (t # ts) = toks_out (tok_out d t) ts" "toks_out d (ts @ us) = toks_out (toks_out d ts) us"
  by (simp_all add: toks_out_def)

lemma toks_ok_append: "toks_ok d (ts @ us) \<longleftrightarrow> toks_ok d ts \<and> toks_ok (toks_out d ts) us"
  by (induction ts arbitrary: d) auto

lemma length_ref_copy [simp]: "length (ref_copy d off n) = length d + n"
  by (induction d off n rule: ref_copy.induct) auto

fun tok_len :: "lz_tok \<Rightarrow> nat" where
  "tok_len (LzLit bs) = length bs"
| "tok_len (LzRef off n) = n"

lemma length_tok_out [simp]: "length (tok_out d t) = length d + tok_len t"
  by (cases t) simp_all

lemma length_toks_out: "length d \<le> length (toks_out d ts)"
proof (induction ts arbitrary: d)
  case (Cons t ts)
  then show ?case using Cons.IH [of "tok_out d t"] by simp
qed simp

section \<open>Copying\<close>

lemma copy_octets_ok:
  "ref + off + 1 = length d \<Longrightarrow> n \<le> length rest \<Longrightarrow>
    copy_octets (map Some d @ rest) (length d) ref n = Some (map Some (ref_copy d off n) @ drop n rest)"
proof (induction n arbitrary: d ref rest)
  case (Suc n)
  obtain x r where r: "rest = x # r" using Suc.prems(2) by (cases rest) auto
  have e: "length d - off - 1 = ref" "ref < length d" using Suc.prems(1) by simp_all
  have "d = take ref d @ [d ! ref] @ drop (Suc ref) d" using e(2) by (simp add: Cons_nth_drop_Suc)
  then have "map Some d @ rest = map Some (take ref d) @ map Some [d ! ref] @ (map Some (drop (Suc ref) d) @ rest)"
    by (metis append.assoc map_append)
  then have rd: "mem_read (map Some d @ rest) ref 1 = Some [d ! ref]" using e(2) mem_read_at [of "map Some (take ref d)" ref "[d ! ref]" 1] by simp
  have "mem_write (map Some d @ rest) (length d) [d ! ref] = Some (map Some (d @ [d ! ref]) @ r)"
    using mem_write_at [of "map Some d" "length d" "[x]" "[d ! ref]" r] by (simp add: r)
  moreover have "copy_octets (map Some (d @ [d ! ref]) @ r) (length d + 1) (ref + 1) n = Some (map Some (ref_copy (d @ [d ! ref]) off n) @ drop n r)"
    using Suc.IH [of "ref + 1" "d @ [d ! ref]" r] Suc.prems r by simp
  ultimately show ?case using rd e(1) by (simp add: r)
qed simp

lemma ref_copy_snoc: "ref_copy d off (Suc n) = ref_copy d off n @ [ref_copy d off n ! (length d + n - off - 1)]"
proof (induction n arbitrary: d)
  case (Suc n)
  show ?case using Suc.IH [of "d @ [d ! (length d - off - 1)]"] by simp
qed simp

lemma ref_copy_apart: "n \<le> off + 1 \<Longrightarrow> ref + off + 1 = length d \<Longrightarrow> ref_copy d off n = d @ take n (drop ref d)"
proof (induction n)
  case (Suc n)
  have "length d + n - off - 1 = ref + n" "ref + n < length d" using Suc.prems by simp_all
  then have "ref_copy d off (Suc n) = (d @ take n (drop ref d)) @ [d ! (ref + n)]" using Suc unfolding ref_copy_snoc by (simp add: nth_append)
  then show ?case using \<open>ref + n < length d\<close> by (simp add: take_Suc_conv_app_nth)
qed simp

lemma mem_read_done: "i + n \<le> length d \<Longrightarrow> mem_read (map Some d @ rest) i n = Some (take n (drop i d))"
  using mem_read_at [of "map Some (take i d)" i "take n (drop i d)" n "map Some (drop (i + n) d) @ rest"]
  by (simp flip: map_append append_assoc) (metis append_take_drop_id drop_drop add.commute append.assoc map_append)

lemma mem_write_done: "length bs \<le> length rest \<Longrightarrow> mem_write (map Some d @ rest) (length d) bs = Some (map Some (d @ bs) @ drop (length bs) rest)"
  using mem_write_at [of "map Some d" "length d" "take (length bs) rest" bs "drop (length bs) rest"] by simp

lemma lzf_copy_ok:
  assumes "ref + off + 1 = length d" and "len + 2 \<le> length rest"
  shows "lzf_copy (map Some d @ rest) (length d) ref len = Some (map Some (ref_copy d off (len + 2)) @ drop (len + 2) rest)"
proof (cases "len > 9 \<and> length d \<ge> ref + (len + 2)")
  case True
  define n where "n = len + 2"
  define bs where "bs = take n (drop ref d)"
  have n: "ref + n \<le> length d" "n \<le> off + 1" "n \<le> length rest" using True assms by (simp_all add: n_def)
  then have l: "length bs = n" "length bs \<le> length rest" by (simp_all add: bs_def)
  have "ref_copy d off n = d @ bs" using ref_copy_apart [OF n(2) assms(1)] by (simp add: bs_def)
  moreover have "len > 9" "length d \<ge> ref + n" using True n(1) by simp_all
  ultimately show ?thesis unfolding lzf_copy_def Let_def n_def [symmetric]
    using mem_read_done [OF n(1), of rest, folded bs_def] mem_write_done [OF l(2), of d] l(1) by simp
next
  case False
  then show ?thesis using copy_octets_ok [OF assms] by (auto simp: lzf_copy_def Let_def)
qed

section \<open>Decompression is safe\<close>

definition out_inv :: "cmemory \<Rightarrow> nat \<Rightarrow> nat \<Rightarrow> bool" where
  "out_inv m op n \<longleftrightarrow> length m = n \<and> (\<exists>d rest. m = map Some d @ rest \<and> length d = op)"

lemma lzf_token_safe:
  assumes "out_inv m op n" and "ip < length inp"
  shows "\<exists>r. lzf_token inp m ip op = Some r \<and> (\<forall>m' ip' op'. r = TokNext m' ip' op' \<longrightarrow> out_inv m' op' n \<and> op < op')"
proof -
  obtain d rest where m: "m = map Some d @ rest" "length d = op" "length d + length rest = n" using assms(1) by (auto simp: out_inv_def)
  define ctrl where "ctrl = unat (inp ! ip)"
  have t: "lzf_token inp m ip op = (if ctrl < 32 then lzf_literal inp m (ip + 1) op ctrl else lzf_backref inp m (ip + 1) op ctrl)"
    using assms(2) by (simp add: lzf_token_def byte_at_def ctrl_def)
  show ?thesis
  proof (cases "ctrl < 32")
    case True
    define bs where "bs = take (ctrl + 1) (drop (ip + 1) inp)"
    show ?thesis
    proof (cases "op + (ctrl + 1) > length m \<or> ip + 1 + (ctrl + 1) > length inp")
      case fail: True
      then show ?thesis using t True by (auto simp: lzf_literal_def Let_def)
    next
      case False
      have "ctrl + 1 \<le> length inp - (ip + 1)" "ctrl + 1 \<le> length rest" using False m by auto
      then have lb: "length bs = ctrl + 1" "length bs \<le> length rest" by (simp_all add: bs_def)
      have "lzf_literal inp m (ip + 1) op ctrl = Some (TokNext (map Some (d @ bs) @ drop (length bs) rest) (ip + 1 + (ctrl + 1)) (op + (ctrl + 1)))"
        using False mem_write_done [OF lb(2), of d] m by (simp add: lzf_literal_def Let_def bs_def)
      moreover have "out_inv (map Some (d @ bs) @ drop (length bs) rest) (op + (ctrl + 1)) n"
        unfolding out_inv_def using lb m by (intro conjI exI [of _ "d @ bs"] exI [of _ "drop (length bs) rest"]) simp_all
      ultimately show ?thesis using t True by simp
    qed
  next
    case False
    define l7 where "l7 \<longleftrightarrow> ctrl div 32 = 7"
    define len where "len = (if l7 then ctrl div 32 + unat (inp ! (ip + 1)) else ctrl div 32)"
    define ip1 where "ip1 = (if l7 then ip + 1 + 1 else ip + 1)"
    define ref where "ref = int op - int ((ctrl mod 32) * 256) - 1 - int (unat (inp ! ip1))"
    have b: "lzf_backref inp m (ip + 1) op ctrl =
        (if ip + 1 \<ge> length inp then Some (TokFail LzfEINVAL) else if l7 \<and> ip + 1 + 1 \<ge> length inp then Some (TokFail LzfEINVAL)
         else if op + len + 2 > length m then Some (TokFail LzfE2BIG) else if ref < 0 then Some (TokFail LzfEINVAL)
         else map_option (\<lambda>m. TokNext m (ip1 + 1) (op + len + 2)) (lzf_copy m op (nat ref) len))"
      by (simp add: lzf_backref_def Let_def l7_def len_def ip1_def ref_def)
    show ?thesis
    proof (cases "ip + 1 \<ge> length inp \<or> l7 \<and> ip + 1 + 1 \<ge> length inp \<or> op + len + 2 > length m \<or> ref < 0")
      case True
      then show ?thesis using t False b by auto
    next
      case ok: False
      define off where "off = op - nat ref - 1"
      have "ref < int op" 
        unfolding ref_def using of_nat_0_le_iff [of "(ctrl mod 32) * 256"] of_nat_0_le_iff [of "unat (inp ! ip1)"] by linarith
      then have o: "nat ref + off + 1 = length d" "len + 2 \<le> length rest" using ok m by (auto simp: off_def)
      have "lzf_backref inp m (ip + 1) op ctrl = Some (TokNext (map Some (ref_copy d off (len + 2)) @ drop (len + 2) rest) (ip1 + 1) (op + len + 2))"
        using b ok lzf_copy_ok [OF o] m(1,2) by simp
      moreover have "out_inv (map Some (ref_copy d off (len + 2)) @ drop (len + 2) rest) (op + len + 2) n"
        unfolding out_inv_def using o(2) m by (intro conjI exI [of _ "ref_copy d off (len + 2)"] exI [of _ "drop (len + 2) rest"]) simp_all
      ultimately show ?thesis using t False by simp
    qed
  qed
qed

lemma lzf_loop_safe:
  "out_inv m op n \<Longrightarrow> ip < length inp \<Longrightarrow>
    \<exists>r. lzf_loop inp m ip op = Some r \<and> (\<forall>m' op'. r = LzfDone m' op' \<longrightarrow> out_inv m' op' n \<and> op < op')"
proof (induction inp m ip op rule: lzf_loop.induct)
  case (1 inp m ip op)
  obtain r where r: "lzf_token inp m ip op = Some r" "\<forall>m' ip' op'. r = TokNext m' ip' op' \<longrightarrow> out_inv m' op' n \<and> op < op'"
    using lzf_token_safe [OF "1.prems"] by blast
  show ?case
  proof (cases r)
    case (TokNext m' ip' op')
    then have i: "out_inv m' op' n" "op < op'" using r(2) by simp_all
    show ?thesis
    proof (cases "ip' < length inp")
      case True
      obtain r' where "lzf_loop inp m' ip' op' = Some r'" "\<forall>m'' op''. r' = LzfDone m'' op'' \<longrightarrow> out_inv m'' op'' n \<and> op' < op''"
        using "1.IH" [OF r(1) TokNext True i(1) True] by blast
      then show ?thesis using r(1) TokNext True i(2) by (subst lzf_loop.simps) force
    next
      case False
      then show ?thesis using r(1) TokNext i by (subst lzf_loop.simps) simp
    qed
  next
    case (TokFail e)
    then show ?thesis using r(1) by (subst lzf_loop.simps) simp
  qed
qed

section \<open>Decompression decodes\<close>

lemma unat_small_byte: "n < 256 \<Longrightarrow> unat (word_of_nat n :: byte) = n"
  by (simp add: unat_of_nat)

lemma unat_byte_mod: "unat (word_of_nat n :: byte) = n mod 256"
  by (simp add: unat_of_nat)

lemma lzf_literal_ok:
  assumes "tok_ok n (LzLit bs)" and "length bs \<le> length rest"
  shows "lzf_token (pre @ enc_tok (LzLit bs) @ post) (map Some d @ rest) (length pre) (length d) =
    Some (TokNext (map Some (d @ bs) @ drop (length bs) rest) (length pre + length (enc_tok (LzLit bs))) (length d + length bs))"
proof -
  have l: "1 \<le> length bs" "length bs \<le> 32" using assms(1) by simp_all
  let ?in = "pre @ enc_tok (LzLit bs) @ post"
  have c: "byte_at ?in (length pre) = Some (word_of_nat (length bs - 1))" by (simp add: byte_at_def)
  have ctrl: "unat (word_of_nat (length bs - 1) :: byte) = length bs - 1" using l by (intro unat_small_byte) simp
  have s: "length bs - 1 < 32" "length bs - 1 + 1 = length bs" using l by simp_all
  have "lzf_literal ?in (map Some d @ rest) (length pre + 1) (length d) (length bs - 1) =
      Some (TokNext (map Some (d @ bs) @ drop (length bs) rest) (length pre + 1 + length bs) (length d + length bs))"
    unfolding lzf_literal_def Let_def s(2) using assms(2) mem_write_done [OF assms(2), of d] by simp
  then show ?thesis unfolding lzf_token_def c bind.bind_lunit Let_def ctrl using s(1) by simp
qed

lemma lzf_backref_ok:
  assumes t: "tok_ok (length d) (LzRef off n)" and n: "n \<le> length rest"
  shows "lzf_token (pre @ enc_tok (LzRef off n) @ post) (map Some d @ rest) (length pre) (length d) =
    Some (TokNext (map Some (ref_copy d off n) @ drop n rest) (length pre + length (enc_tok (LzRef off n))) (length d + n))"
proof -
  have b: "off < 8192" "off < length d" "3 \<le> n" "n \<le> 264" using t by simp_all
  let ?in = "pre @ enc_tok (LzRef off n) @ post"
  define len where "len = n - 2"
  define ref where "ref = length d - off - 1"
  have len: "len + 2 = n" "1 \<le> len" "len \<le> 262" using b by (simp_all add: len_def)
  have ref: "ref + off + 1 = length d" using b(2) by (simp add: ref_def)
  have hi: "off div 256 < 32" using b(1) by simp
  define l3 where "l3 = (if len < 7 then len else 7)"
  define ctrl where "ctrl = off div 256 + l3 * 32"
  have ctrl: "ctrl < 256" "\<not> ctrl < 32" "ctrl div 32 = l3" "ctrl mod 32 = off div 256" using hi len(2) by (auto simp: ctrl_def l3_def)
  have c: "byte_at ?in (length pre) = Some (word_of_nat ctrl)" by (simp add: byte_at_def ctrl_def l3_def len_def)
  have r: "int (length d) - int (off div 256 * 256) - 1 - int (off mod 256) = int ref"
    using ref div_mult_mod_eq [of off 256] by linarith
  have cp: "lzf_copy (map Some d @ rest) (length d) ref len = Some (map Some (ref_copy d off n) @ drop n rest)"
    using lzf_copy_ok [OF ref, of len rest, unfolded len(1)] n by simp
  have lens: "length d + len + 2 = length d + n" "\<not> length d + n > length (map Some d @ rest)" using len(1) n by simp_all
  have "lzf_backref ?in (map Some d @ rest) (length pre + 1) (length d) ctrl =
      Some (TokNext (map Some (ref_copy d off n) @ drop n rest) (length pre + length (enc_tok (LzRef off n))) (length d + n))"
  proof (cases "len < 7")
    case True
    then have e: "enc_tok (LzRef off n) = [word_of_nat ctrl, word_of_nat off]" by (simp add: ctrl_def l3_def len_def)
    have i: "?in ! (length pre + 1) = word_of_nat off" unfolding e by (simp add: nth_append)
    have p: "(if l3 = 7 then (l3 + unat (?in ! (length pre + 1)), length pre + 1 + 1) else (l3, length pre + 1)) = (len, length pre + 1)"
      "l3 \<noteq> 7" using True by (simp_all add: l3_def)
    have L: "\<not> length pre + 1 \<ge> length ?in" unfolding e by simp
    show ?thesis unfolding lzf_backref_def Let_def ctrl(3,4) p(1) prod.case unfolding i unat_byte_mod r nat_int cp lens(1)
      using p(2) L lens(2) by (simp del: enc_tok.simps) (simp only: e, simp)
  next
    case False
    then have e: "enc_tok (LzRef off n) = [word_of_nat ctrl, word_of_nat (len - 7), word_of_nat off]" by (simp add: ctrl_def l3_def len_def)
    have l7: "len - 7 < 256" using len(3) by simp
    have i: "?in ! (length pre + 1) = word_of_nat (len - 7)" "?in ! (length pre + 1 + 1) = word_of_nat off" unfolding e by (simp_all add: nth_append)
    have p: "(if l3 = 7 then (l3 + unat (?in ! (length pre + 1)), length pre + 1 + 1) else (l3, length pre + 1)) = (len, length pre + 1 + 1)"
      unfolding i(1) unat_small_byte [OF l7] using False by (simp add: l3_def)
    have L: "\<not> length pre + 1 \<ge> length ?in" "\<not> length pre + 1 + 1 \<ge> length ?in" unfolding e by simp_all
    show ?thesis unfolding lzf_backref_def Let_def ctrl(3,4) p(1) prod.case unfolding i(2) unat_byte_mod r nat_int cp lens(1)
      using L lens(2) by (simp del: enc_tok.simps) (simp only: e, simp)
  qed
  then show ?thesis unfolding lzf_token_def c bind.bind_lunit Let_def unat_small_byte [OF ctrl(1)] using ctrl(2) by simp
qed

lemma lzf_token_ok:
  "tok_ok (length d) t \<Longrightarrow> tok_len t \<le> length rest \<Longrightarrow>
    lzf_token (pre @ enc_tok t @ post) (map Some d @ rest) (length pre) (length d) =
    Some (TokNext (map Some (tok_out d t) @ drop (tok_len t) rest) (length pre + length (enc_tok t)) (length d + tok_len t))"
  using lzf_literal_ok lzf_backref_ok by (cases t) auto

lemma enc_tok_ne: "enc_tok t \<noteq> []"
  by (cases t) auto

lemma lzf_loop_ok:
  "toks_ok d ts \<Longrightarrow> ts \<noteq> [] \<Longrightarrow> length (toks_out d ts) \<le> length d + length rest \<Longrightarrow>
    lzf_loop (pre @ enc_toks ts) (map Some d @ rest) (length pre) (length d) =
    Some (LzfDone (map Some (toks_out d ts) @ drop (length (toks_out d ts) - length d) rest) (length (toks_out d ts)))"
proof (induction ts arbitrary: d rest pre)
  case (Cons t ts)
  have ok: "tok_ok (length d) t" "toks_ok (tok_out d t) ts" using Cons.prems(1) by simp_all
  have l: "tok_len t \<le> length rest" using Cons.prems(3) length_toks_out [of "tok_out d t" ts] by simp
  have tok: "lzf_token (pre @ enc_toks (t # ts)) (map Some d @ rest) (length pre) (length d) =
      Some (TokNext (map Some (tok_out d t) @ drop (tok_len t) rest) (length pre + length (enc_tok t)) (length d + tok_len t))"
    using lzf_token_ok [OF ok(1) l, of pre "enc_toks ts"] by simp
  show ?case
  proof (cases "ts = []")
    case True
    then show ?thesis using tok by (subst lzf_loop.simps) simp
  next
    case False
    then have "enc_toks ts \<noteq> []" using enc_tok_ne by (cases ts) auto
    then have "lzf_loop (pre @ enc_toks (t # ts)) (map Some d @ rest) (length pre) (length d) =
        lzf_loop ((pre @ enc_tok t) @ enc_toks ts) (map Some (tok_out d t) @ drop (tok_len t) rest) (length (pre @ enc_tok t)) (length (tok_out d t))"
      using tok by (subst lzf_loop.simps) simp
    also have "\<dots> = Some (LzfDone (map Some (toks_out (tok_out d t) ts) @ drop (length (toks_out (tok_out d t) ts) - length (tok_out d t)) (drop (tok_len t) rest)) (length (toks_out (tok_out d t) ts)))"
      using Cons.prems(3) l by (intro Cons.IH [OF ok(2) False]) simp
    finally show ?thesis using length_toks_out [of "tok_out d t" ts] by simp
  qed
qed simp

section \<open>The length of a match\<close>

lemma bytes_eq_ok: "i < length xs \<Longrightarrow> j < length xs \<Longrightarrow> bytes_eq xs i j = Some (xs ! i = xs ! j)"
  by (simp add: bytes_eq_def byte_at_def)

text \<open>The first \<open>l\<close> bytes at two positions agree.\<close>

definition agree :: "bytes \<Rightarrow> nat \<Rightarrow> nat \<Rightarrow> nat \<Rightarrow> bool" where
  "agree inp ip ref l \<longleftrightarrow> (\<forall>j < l. inp ! (ref + j) = inp ! (ip + j))"

lemma agree_Suc: "agree inp ip ref (Suc l) \<longleftrightarrow> agree inp ip ref l \<and> inp ! (ref + l) = inp ! (ip + l)"
  by (auto simp: agree_def less_Suc_eq)

lemma match_unrolled_ok:
  "ref < ip \<Longrightarrow> ip + len + k < length inp \<Longrightarrow> agree inp ip ref (Suc len) \<Longrightarrow>
    \<exists>l stop. match_unrolled inp ip ref len k = Some (l, stop) \<and> len \<le> l \<and> l \<le> len + k \<and>
      (if stop then len < l \<and> agree inp ip ref l else l = len + k \<and> agree inp ip ref (Suc l))"
proof (induction k arbitrary: len)
  case (Suc k)
  have e: "bytes_eq inp (ref + (len + 1)) (ip + (len + 1)) = Some (inp ! (ref + (len + 1)) = inp ! (ip + (len + 1)))"
    using Suc.prems by (intro bytes_eq_ok) simp_all
  show ?case
  proof (cases "inp ! (ref + (len + 1)) = inp ! (ip + (len + 1))")
    case True
    then have "agree inp ip ref (Suc (len + 1))" using Suc.prems(3) by (simp add: agree_Suc [of inp ip ref "Suc len"])
    then obtain l stop where "match_unrolled inp ip ref (len + 1) k = Some (l, stop)" "len + 1 \<le> l" "l \<le> len + 1 + k"
      "if stop then len + 1 < l \<and> agree inp ip ref l else l = len + 1 + k \<and> agree inp ip ref (Suc l)"
      using Suc.IH [of "len + 1"] Suc.prems by auto
    then show ?thesis using e True by (auto split: if_splits)
  next
    case False
    then show ?thesis using e Suc.prems(3) by auto
  qed
qed auto

lemma match_rest_ok:
  "ref < ip \<Longrightarrow> ip + maxlen \<le> length inp \<Longrightarrow> agree inp ip ref (Suc len) \<Longrightarrow>
    \<exists>l. match_rest inp ip ref maxlen len = Some l \<and> len < l \<and> l \<le> max maxlen (len + 1) \<and> agree inp ip ref l"
proof (induction inp ip ref maxlen len rule: match_rest.induct)
  case (1 inp ip ref maxlen len)
  show ?case
  proof (cases "len + 1 < maxlen")
    case True
    have e: "bytes_eq inp (ref + (len + 1)) (ip + (len + 1)) = Some (inp ! (ref + (len + 1)) = inp ! (ip + (len + 1)))"
      using "1.prems" True by (intro bytes_eq_ok) simp_all
    show ?thesis
    proof (cases "inp ! (ref + (len + 1)) = inp ! (ip + (len + 1))")
      case eq: True
      then have "agree inp ip ref (Suc (len + 1))" using "1.prems"(3) by (simp add: agree_Suc [of inp ip ref "Suc len"])
      then obtain l where "match_rest inp ip ref maxlen (len + 1) = Some l" "len + 1 < l" "l \<le> max maxlen (len + 1 + 1)" "agree inp ip ref l"
        using "1.IH" [OF True e eq "1.prems"(1,2)] by auto
      then show ?thesis using e True eq by (subst match_rest.simps) auto
    next
      case False
      then show ?thesis using e True "1.prems"(3) by (subst match_rest.simps) auto
    qed
  next
    case False
    then show ?thesis using "1.prems"(3) by (subst match_rest.simps) auto
  qed
qed

lemma match_len_ok:
  assumes "ref < ip" and "ip + 2 < length inp" and "agree inp ip ref 3"
  shows "\<exists>l. match_len inp ip ref = Some l \<and> 3 \<le> l \<and> l \<le> MAX_REF \<and> ip + l \<le> length inp \<and> agree inp ip ref l"
proof -
  define mx where "mx = (if length inp - ip - 2 > MAX_REF then MAX_REF else length inp - ip - 2)"
  have mx: "mx \<le> 264" "ip + mx + 2 \<le> length inp" "1 \<le> mx" using assms(2) by (auto simp: mx_def)
  have m: "match_len inp ip ref = (if mx > 16 then match_unrolled inp ip ref 2 16 \<bind> (\<lambda>(len, stop). if stop then Some len else match_rest inp ip ref mx len)
      else match_rest inp ip ref mx 2)" unfolding match_len_def Let_def mx_def [symmetric] by (rule refl)
  have a3: "agree inp ip ref (Suc 2)" using assms(3) by (simp add: eval_nat_numeral)
  show ?thesis
  proof (cases "mx > 16")
    case True
    have "ip + 2 + 16 < length inp" using mx True by linarith
    from match_unrolled_ok [OF assms(1) this a3] obtain l stop where l: "match_unrolled inp ip ref 2 16 = Some (l, stop)" "2 \<le> l" "l \<le> 2 + 16"
      "if stop then 2 < l \<and> agree inp ip ref l else l = 2 + 16 \<and> agree inp ip ref (Suc l)" by blast
    show ?thesis
    proof (cases stop)
      case True
      then show ?thesis using l mx \<open>mx > 16\<close> by (intro exI [of _ l]) (simp add: m)
    next
      case False
      then obtain l' where "match_rest inp ip ref mx l = Some l'" "l < l'" "l' \<le> max mx (l + 1)" "agree inp ip ref l'"
        using match_rest_ok [OF assms(1), of mx inp l] mx l(4) by auto
      moreover have "l' \<le> 264" "ip + l' \<le> length inp" using calculation(3) mx l(3) \<open>mx > 16\<close> by (auto simp: max_def split: if_splits)
      ultimately show ?thesis using l False \<open>mx > 16\<close> by (intro exI [of _ l']) (simp add: m)
    qed
  next
    case False
    obtain l where "match_rest inp ip ref mx 2 = Some l" "2 < l" "l \<le> max mx (2 + 1)" "agree inp ip ref l"
      using match_rest_ok [OF assms(1) _ a3, of mx] mx by auto
    moreover have "l \<le> 264" "ip + l \<le> length inp" using calculation(3) mx by (auto simp: max_def split: if_splits)
    ultimately show ?thesis using False by (intro exI [of _ l]) (simp add: m)
  qed
qed

text \<open>A reference whose bytes agree copies the input.\<close>

lemma ref_copy_take:
  "off < k \<Longrightarrow> k + n \<le> length inp \<Longrightarrow> agree inp k (k - off - 1) n \<Longrightarrow> ref_copy (take k inp) off n = take (k + n) inp"
proof (induction n)
  case (Suc n)
  have a: "agree inp k (k - off - 1) n" "inp ! (k - off - 1 + n) = inp ! (k + n)" using Suc.prems(3) by (simp_all add: agree_Suc)
  have "ref_copy (take k inp) off n = take (k + n) inp" using Suc a(1) by simp
  moreover have "take (k + n) inp ! (k + n - off - 1) = inp ! (k + n)" using Suc.prems(1,2) a(2) by (simp add: add.commute)
  moreover have "length (take k inp) = k" using Suc.prems(2) by simp
  ultimately show ?case unfolding ref_copy_snoc using Suc.prems(2) by (simp add: take_Suc_conv_app_nth)
qed simp

section \<open>Compression encodes\<close>

text \<open>The literals of the run that is open.\<close>

definition open_run :: "bytes \<Rightarrow> lzf_state \<Rightarrow> bytes" where
  "open_run inp st = take (lz_lit st) (drop (lz_ip st - lz_lit st) inp)"

text \<open>The output is the encoding of tokens for the input before the open run, a cell for the length of the run, and its
  literals. The cell need not exist while the run is empty.\<close>

definition comp_inv :: "bytes \<Rightarrow> nat \<Rightarrow> lzf_state \<Rightarrow> lz_tok list \<Rightarrow> bool" where
  "comp_inv inp n st ts \<longleftrightarrow> lz_lit st < MAX_LIT \<and> lz_lit st \<le> lz_ip st \<and> lz_ip st \<le> length inp \<and>
     toks_ok [] ts \<and> toks_out [] ts = take (lz_ip st - lz_lit st) inp \<and>
     lz_op st = length (enc_toks ts) + 1 + lz_lit st \<and> length (lz_out st) = n \<and>
     (\<exists>rest. lz_out st = map Some (enc_toks ts) @ rest \<and> (lz_lit st = 0 \<or> (\<exists>x r. rest = x # map Some (open_run inp st) @ r)))"

lemma comp_inv_hash: "comp_inv inp n (st\<lparr>lz_hval := h, lz_htab := t\<rparr>) ts \<longleftrightarrow> comp_inv inp n st ts"
  by (simp add: comp_inv_def open_run_def)

lemma length_open_run: "comp_inv inp n st ts \<Longrightarrow> length (open_run inp st) = lz_lit st"
  by (auto simp: comp_inv_def open_run_def)

lemma comp_shape:
  assumes "comp_inv inp n st ts" and "lz_op st \<le> n"
  obtains x r where "lz_out st = map Some (enc_toks ts) @ x # map Some (open_run inp st) @ r"
proof (cases "lz_lit st = 0")
  case True
  then obtain rest where rest: "lz_out st = map Some (enc_toks ts) @ rest" "length rest \<ge> 1" using assms by (auto simp: comp_inv_def)
  then obtain x r where "rest = x # r" by (cases rest) auto
  then show thesis using that rest(1) True by (simp add: open_run_def)
next
  case False
  then show thesis using assms(1) that by (auto simp: comp_inv_def)
qed

lemma stop_run_ok:
  assumes "comp_inv inp n st ts" and "lz_out st = map Some (enc_toks ts) @ x # map Some run @ r" and "length run = lz_lit st"
  shows "stop_run (lz_out st) (lz_op st) (lz_lit st) = Some (map Some (enc_toks ts) @ Some (word_of_int (int (lz_lit st) - 1)) # map Some run @ r)"
proof -
  have "lz_op st - lz_lit st - 1 = length (map Some (enc_toks ts))" using assms(1) by (simp add: comp_inv_def)
  then show ?thesis unfolding stop_run_def assms(2)
    using mem_write_at [of "map Some (enc_toks ts)" "length (map Some (enc_toks ts))" "[x]" "[word_of_int (int (lz_lit st) - 1)]" "map Some run @ r"] by simp
qed

text \<open>An ended run is a token.\<close>

lemma run_token: "run \<noteq> [] \<Longrightarrow> map Some es @ Some (word_of_int (int (length run) - 1)) # map Some run @ r = map Some (es @ enc_tok (LzLit run)) @ r"
proof -
  assume "run \<noteq> []"
  then have i: "int (length run) - 1 = int (length run - 1)" by (cases run) simp_all
  have e: "word_of_int (int (length run) - 1) = (word_of_nat (length run - 1) :: byte)" unfolding i by (simp only: of_int_of_nat_eq)
  show ?thesis unfolding e by simp
qed

lemma take_open_run: "comp_inv inp n st ts \<Longrightarrow> take (lz_ip st - lz_lit st) inp @ open_run inp st = take (lz_ip st) inp"
proof -
  assume "comp_inv inp n st ts"
  then have "lz_ip st - lz_lit st + lz_lit st = lz_ip st" by (simp add: comp_inv_def)
  then show ?thesis unfolding open_run_def by (metis take_add)
qed

lemma open_run_tok:
  assumes "comp_inv inp n st ts" and "lz_lit st \<noteq> 0"
  shows "toks_ok [] (ts @ [LzLit (open_run inp st)]) \<and> toks_out [] (ts @ [LzLit (open_run inp st)]) = take (lz_ip st) inp"
proof -
  have f: "lz_lit st < 32" "toks_ok [] ts" "toks_out [] ts = take (lz_ip st - lz_lit st) inp" using assms(1) by (simp_all add: comp_inv_def)
  show ?thesis using f(1,2) assms(2) length_open_run [OF assms(1)] take_open_run [OF assms(1)] by (simp add: toks_ok_append f(3))
qed

lemma put_literal_ok:
  assumes inv: "comp_inv inp n st ts" and ip: "lz_ip st < length inp" and op: "lz_op st < n"
  shows "\<exists>st' ts'. put_literal inp st = Some st' \<and> comp_inv inp n st' ts' \<and> lz_ip st' = lz_ip st + 1 \<and>
    (if lz_lit st + 1 = MAX_LIT then lz_lit st' = 0 \<and> lz_op st' = lz_op st + 2 else lz_lit st' = lz_lit st + 1 \<and> lz_op st' = lz_op st + 1)"
proof -
  define b where "b = inp ! lz_ip st"
  have opn: "lz_op st \<le> n" using op by simp
  obtain x r where out: "lz_out st = map Some (enc_toks ts) @ x # map Some (open_run inp st) @ r" by (rule comp_shape [OF inv opn])
  have f: "lz_lit st < 32" "lz_lit st \<le> lz_ip st" "lz_op st = length (enc_toks ts) + 1 + lz_lit st" "length (lz_out st) = n"
    "toks_ok [] ts" "toks_out [] ts = take (lz_ip st - lz_lit st) inp" using inv by (simp_all add: comp_inv_def)
  have lr: "length (open_run inp st) = lz_lit st" by (rule length_open_run [OF inv])
  have "length r \<ge> 1" using op f(3,4) lr unfolding out by simp
  then obtain y r' where r: "r = y # r'" by (cases r) auto
  define run where "run = open_run inp st @ [b]"
  have lrun: "length run = lz_lit st + 1" using lr by (simp add: run_def)
  define out1 where "out1 = map Some (enc_toks ts) @ x # map Some run @ r'"
  have wr: "mem_write (lz_out st) (lz_op st) [b] = Some out1"
    using mem_write_at [of "map Some (enc_toks ts) @ x # map Some (open_run inp st)" "lz_op st" "[y]" "[b]" r'] f(3) lr
    by (simp add: out r out1_def run_def)
  have lo: "length out1 = n" using f(4) out r lr by (simp add: out1_def run_def)
  define st1 where "st1 = st\<lparr>lz_ip := lz_ip st + 1, lz_op := lz_op st + 1, lz_lit := lz_lit st + 1, lz_out := out1\<rparr>"
  have run1: "open_run inp st1 = run"
  proof -
    have "lz_ip st - lz_lit st + lz_lit st = lz_ip st" using f(2) by simp
    then show ?thesis using ip by (simp add: open_run_def st1_def run_def b_def take_Suc_conv_app_nth)
  qed
  show ?thesis
  proof (cases "lz_lit st + 1 = 32")
    case False
    have "put_literal inp st = Some st1" using False wr ip by (simp add: put_literal_def byte_at_def Let_def st1_def b_def)
    moreover have "comp_inv inp n st1 ts" unfolding comp_inv_def run1 using f False ip lo by (auto simp: st1_def out1_def)
    ultimately show ?thesis using False by (intro exI [of _ st1] exI [of _ ts]) (simp add: st1_def)
  next
    case True
    define out2 where "out2 = map Some (enc_toks (ts @ [LzLit run])) @ r'"
    define st2 where "st2 = st\<lparr>lz_ip := lz_ip st + 1, lz_op := lz_op st + 1 + 1, lz_lit := 0, lz_out := out2\<rparr>"
    have i: "lz_op st + 1 - (lz_lit st + 1) - 1 = length (map Some (enc_toks ts))" using f(3) by simp
    have sr: "stop_run out1 (lz_op st + 1) (lz_lit st + 1) = Some out2"
    proof -
      have "run \<noteq> []" by (simp add: run_def)
      then show ?thesis unfolding stop_run_def i out1_def out2_def
        using mem_write_at [of "map Some (enc_toks ts)" "length (map Some (enc_toks ts))" "[x]" "[word_of_int (int (length run) - 1)]" "map Some run @ r'"]
          run_token [of run "enc_toks ts" r'] lrun by simp
    qed
    have "put_literal inp st = Some st2" using True wr sr ip by (simp add: put_literal_def byte_at_def Let_def st2_def b_def)
    moreover have "comp_inv inp n st2 (ts @ [LzLit run])"
    proof -
      have "toks_out [] ts @ run = take (lz_ip st + 1) inp"
        using take_open_run [OF inv] f(6) ip by (simp add: run_def b_def take_Suc_conv_app_nth flip: append_assoc)
      moreover have "length out2 = n" using lo lrun by (simp add: out1_def out2_def)
      ultimately show ?thesis using f ip lrun True by (simp add: comp_inv_def st2_def toks_ok_append) (simp add: out2_def)
    qed
    ultimately show ?thesis using True by (intro exI [of _ st2] exI [of _ "ts @ [LzLit run]"]) (simp add: st2_def)
  qed
qed

lemma put_ref_ok:
  assumes "3 \<le> length r" and "3 \<le> l"
  shows "put_ref (map Some es @ r) (length es) off (l - 2) =
    Some (map Some (es @ enc_tok (LzRef off l)) @ drop (length (enc_tok (LzRef off l))) r, length es + length (enc_tok (LzRef off l)))"
proof -
  obtain a b c r' where r: "r = a # b # c # r'" using assms(1) by (cases r; cases "tl r"; cases "tl (tl r)") auto
  have w: "mem_write (map Some as @ y # zs) (length as) [v] = Some (map Some (as @ [v]) @ zs)" for as y zs v
    using mem_write_at [of "map Some as" "length as" "[y]" "[v]" zs] by simp
  show ?thesis
  proof (cases "l - 2 < 7")
    case True
    have "mem_write (map Some (es @ [u]) @ b # c # r') (length es + 1) [v] = Some (map Some (es @ [u, v]) @ c # r')" for u v
      using w [of "es @ [u]" b "c # r'" v] by simp
    then show ?thesis using True w [of es a "b # c # r'"] unfolding put_ref_def r by simp
  next
    case False
    have "mem_write (map Some (es @ [u]) @ b # c # r') (length es + 1) [v] = Some (map Some (es @ [u, v]) @ c # r')"
      "mem_write (map Some (es @ [u, v]) @ c # r') (length es + 2) [t] = Some (map Some (es @ [u, v, t]) @ r')" for u v t
      using w [of "es @ [u]" b "c # r'" v] w [of "es @ [u, v]" c r' t] by simp_all
    then show ?thesis using False w [of es a "b # c # r'"] unfolding put_ref_def r by simp
  qed
qed

text \<open>Before a reference is written, the open run is a token or gone.\<close>

lemma end_run:
  assumes inv: "comp_inv inp n st ts" and room: "lz_op st - (if lz_lit st = 0 then 1 else 0) + 3 < n"
  obtains us r out where "stop_run (lz_out st) (lz_op st) (lz_lit st) = Some out" "out = map Some (enc_toks us) @ r" "3 \<le> length r" "length out = n"
    "lz_op st - (if lz_lit st = 0 then 1 else 0) = length (enc_toks us)" "toks_ok [] us" "toks_out [] us = take (lz_ip st) inp"
proof -
  have opn: "lz_op st \<le> n" using room by (auto split: if_splits)
  obtain x r where out: "lz_out st = map Some (enc_toks ts) @ x # map Some (open_run inp st) @ r" by (rule comp_shape [OF inv opn])
  have lr: "length (open_run inp st) = lz_lit st" by (rule length_open_run [OF inv])
  have f: "lz_op st = length (enc_toks ts) + 1 + lz_lit st" "length (lz_out st) = n" "toks_ok [] ts" "toks_out [] ts = take (lz_ip st - lz_lit st) inp"
    using inv by (simp_all add: comp_inv_def)
  note s = stop_run_ok [OF inv out lr]
  show thesis
  proof (cases "lz_lit st = 0")
    case True
    have e: "open_run inp st = []" using lr True by simp
    show thesis
      by (rule that [OF s, of ts "Some (word_of_int (int (lz_lit st) - 1)) # r"]) (use True e f out room in simp_all)
  next
    case False
    define us where "us = ts @ [LzLit (open_run inp st)]"
    have ne: "open_run inp st \<noteq> []" using False lr by auto
    have enc: "enc_toks us = enc_toks ts @ enc_tok (LzLit (open_run inp st))" by (simp add: us_def)
    have o: "map Some (enc_toks ts) @ Some (word_of_int (int (lz_lit st) - 1)) # map Some (open_run inp st) @ r = map Some (enc_toks us) @ r"
      unfolding enc using run_token [OF ne, of "enc_toks ts" r] by (simp only: lr)
    have le: "length (enc_toks us) = lz_op st" unfolding enc using lr f(1) by simp
    have ln: "length (enc_toks us) + length r = n" unfolding le using f(1,2) lr out by simp
    have lo: "Suc (length (enc_toks ts) + (length (open_run inp st) + length r)) = n" using f(2) out by simp
    show thesis
      by (rule that [OF s o]) (use False room le ln lo open_run_tok [OF inv False] in \<open>simp_all add: us_def [symmetric] o del: enc_toks_simps(3) toks_out_simps(3)\<close>)
  qed
qed

lemma lzf_rehash_ok:
  assumes "2 \<le> lz_ip st" and "lz_ip st + 2 < length inp"
  obtains h t where "lzf_rehash inp st = Some (st\<lparr>lz_hval := h, lz_htab := t\<rparr>)"
proof -
  have "lz_ip st - 2 + 1 + 1 = lz_ip st" using assms(1) by simp
  then show thesis using assms that unfolding lzf_rehash_def byte_at_def Let_def by simp
qed

definition round_good :: "bytes \<Rightarrow> nat \<Rightarrow> lzf_round \<Rightarrow> bool" where
  "round_good inp n r \<longleftrightarrow>
     (case r of RoundFull \<Rightarrow> True | RoundGo st \<Rightarrow> (\<exists>ts. comp_inv inp n st ts)
      | RoundBreak st \<Rightarrow> (\<exists>ts. comp_inv inp n st ts) \<and> length inp \<le> lz_ip st + 2)"

lemma lzf_matched_ok:
  assumes inv: "comp_inv inp n st ts" and ip: "lz_ip st + 2 < length inp"
    and ref: "ref < lz_ip st" "lz_ip st - ref - 1 < MAX_OFF" "agree inp (lz_ip st) ref 3"
  shows "\<exists>r. lzf_matched inp n st ref = Some r \<and> round_good inp n r"
proof -
  define nolit where "nolit = (if lz_lit st = 0 then 1 else 0 :: nat)"
  define off where "off = lz_ip st - ref - 1"
  show ?thesis
  proof (cases "lz_op st + 3 + 1 \<ge> n \<and> lz_op st - nolit + 3 + 1 \<ge> n")
    case True
    then have "lzf_matched inp n st ref = Some RoundFull" by (simp add: lzf_matched_def Let_def nolit_def)
    then show ?thesis by (simp add: round_good_def)
  next
    case room: False
    then have room': "lz_op st - nolit + 3 < n" by linarith
    obtain us r out where o: "stop_run (lz_out st) (lz_op st) (lz_lit st) = Some out" "out = map Some (enc_toks us) @ r" "3 \<le> length r" "length out = n"
      "lz_op st - nolit = length (enc_toks us)" "toks_ok [] us" "toks_out [] us = take (lz_ip st) inp"
      by (rule end_run [OF inv room' [unfolded nolit_def], folded nolit_def])
    obtain l where l: "match_len inp (lz_ip st) ref = Some l" "3 \<le> l" "l \<le> MAX_REF" "lz_ip st + l \<le> length inp" "agree inp (lz_ip st) ref l"
      using match_len_ok [OF ref(1) ip ref(3)] by blast
    define us' where "us' = us @ [LzRef off l]"
    define out' where "out' = map Some (enc_toks us') @ drop (length (enc_tok (LzRef off l))) r"
    define op' where "op' = length (enc_toks us')"
    have put: "put_ref out (lz_op st - nolit) off (l - 2) = Some (out', op')"
      unfolding o(2,5) put_ref_ok [OF o(3) l(2)] by (simp add: out'_def us'_def op'_def del: enc_tok.simps)
    define st' where "st' = st\<lparr>lz_ip := lz_ip st + 1 + (l - 2 + 1), lz_op := op' + 1, lz_lit := 0, lz_out := out'\<rparr>"
    have ip2: "lz_ip st' = lz_ip st + 1 + (l - 2 + 1)" by (simp add: st'_def)
    have ip': "lz_ip st' = lz_ip st + l" using l(2) by (simp add: st'_def)
    have off: "off < lz_ip st" "lz_ip st - off - 1 = ref" "off < 8192" using ref by (simp_all add: off_def)
    have lo: "length out' = n" using o(2,3,4) by (simp add: out'_def us'_def)
    have out: "ref_copy (take (lz_ip st) inp) off l = take (lz_ip st + l) inp" using off l(4,5) by (intro ref_copy_take) simp_all
    have inv': "comp_inv inp n st' us'"
    proof -
      have "toks_ok [] us'" "toks_out [] us' = take (lz_ip st') inp" using o(6,7) off l out ip ip' by (simp_all add: us'_def toks_ok_append)
      moreover have "lz_lit st' = 0" "lz_op st' = length (enc_toks us') + 1" "length (lz_out st') = n" "lz_ip st' \<le> length inp"
        using lo ip' l(4) by (simp_all add: st'_def op'_def)
      moreover have "lz_out st' = map Some (enc_toks us') @ drop (length (enc_tok (LzRef off l))) r" by (simp add: st'_def out'_def del: enc_tok.simps)
      ultimately show ?thesis unfolding comp_inv_def by simp
    qed
    have m: "lzf_matched inp n st ref = (if int (lz_ip st') \<ge> int (length inp) - 2 then Some (RoundBreak st') else map_option RoundGo (lzf_rehash inp st'))"
      unfolding lzf_matched_def Let_def nolit_def [symmetric] off_def [symmetric] o(1) bind.bind_lunit l(1) put prod.case st'_def [symmetric]
      using room ip2 by (simp only: if_False)
    show ?thesis
    proof (cases "int (lz_ip st') \<ge> int (length inp) - 2")
      case True
      then have "round_good inp n (RoundBreak st')" using inv' by (auto simp: round_good_def)
      then show ?thesis using m True by simp
    next
      case False
      have b: "2 \<le> lz_ip st'" "lz_ip st' + 2 < length inp" using False ip' l(2) by linarith+
      obtain h t where "lzf_rehash inp st' = Some (st'\<lparr>lz_hval := h, lz_htab := t\<rparr>)" by (rule lzf_rehash_ok [OF b])
      moreover have "round_good inp n (RoundGo (st'\<lparr>lz_hval := h, lz_htab := t\<rparr>))" for h t using inv' comp_inv_hash by (auto simp: round_good_def)
      ultimately show ?thesis using m False by simp
    qed
  qed
qed

lemma lzf_found_ok:
  assumes "ip + 2 < length inp"
  shows "\<exists>b. lzf_found inp ip ref = Some b \<and> (b \<longrightarrow> ref < ip \<and> ip - ref - 1 < MAX_OFF \<and> agree inp ip ref 3)"
proof (cases "ref < ip \<and> ip - ref - 1 < MAX_OFF \<and> ref > 0")
  case True
  have e: "bytes_eq inp (ref + 2) (ip + 2) = Some (inp ! (ref + 2) = inp ! (ip + 2))" "bytes_eq inp ref ip = Some (inp ! ref = inp ! ip)"
    "bytes_eq inp (ref + 1) (ip + 1) = Some (inp ! (ref + 1) = inp ! (ip + 1))" using assms True by (auto intro!: bytes_eq_ok)
  have "agree inp ip ref 3 \<longleftrightarrow> inp ! (ref + 2) = inp ! (ip + 2) \<and> inp ! ref = inp ! ip \<and> inp ! (ref + 1) = inp ! (ip + 1)"
    by (simp add: agree_Suc eval_nat_numeral) (auto simp: agree_def)
  then show ?thesis unfolding lzf_found_def e bind.bind_lunit using True by auto
qed (auto simp: lzf_found_def)

lemma lzf_round_ok:
  assumes inv: "comp_inv inp n st ts" and ip: "lz_ip st + 2 < length inp"
  shows "\<exists>r. lzf_round inp n st = Some r \<and> round_good inp n r"
proof -
  define hval where "hval = lzf_NEXT (lz_hval st) (inp ! (lz_ip st + 2))"
  define ref where "ref = lz_htab st (lzf_IDX hval)"
  define st1 where "st1 = st\<lparr>lz_hval := hval, lz_htab := (lz_htab st)(lzf_IDX hval := lz_ip st)\<rparr>"
  have inv1: "comp_inv inp n st1 ts" using inv comp_inv_hash by (simp add: st1_def)
  have i: "lz_ip st1 = lz_ip st" by (simp add: st1_def)
  have b: "byte_at inp (lz_ip st + 2) = Some (inp ! (lz_ip st + 2))" using ip by (simp add: byte_at_def)
  obtain f where f: "lzf_found inp (lz_ip st1) ref = Some f" "f \<longrightarrow> ref < lz_ip st \<and> lz_ip st - ref - 1 < MAX_OFF \<and> agree inp (lz_ip st) ref 3"
    using lzf_found_ok [OF ip] by (auto simp: i)
  have r: "lzf_round inp n st = (if f then lzf_matched inp n st1 ref else if lz_op st1 \<ge> n then Some RoundFull else map_option RoundGo (put_literal inp st1))"
    unfolding lzf_round_def b bind.bind_lunit Let_def hval_def [symmetric] ref_def [symmetric] st1_def [symmetric] f(1) by (rule refl)
  show ?thesis
  proof (cases f)
    case True
    then show ?thesis using r lzf_matched_ok [OF inv1, of ref] ip f(2) i by auto
  next
    case nf: False
    show ?thesis
    proof (cases "lz_op st1 \<ge> n")
      case True
      then show ?thesis using r nf by (simp add: round_good_def)
    next
      case False
      then obtain st' ts' where "put_literal inp st1 = Some st'" "comp_inv inp n st' ts'" using put_literal_ok [OF inv1] ip i by auto
      then show ?thesis using r nf False by (auto simp: round_good_def)
    qed
  qed
qed

lemma lzf_main_ok:
  "comp_inv inp n st ts \<Longrightarrow>
    \<exists>r. lzf_main inp n st = Some r \<and> (\<forall>st'. r = Inr st' \<longrightarrow> (\<exists>ts'. comp_inv inp n st' ts') \<and> length inp \<le> lz_ip st' + 2)"
proof (induction inp n st arbitrary: ts rule: lzf_main.induct)
  case (1 inp n st)
  show ?case
  proof (cases "int (lz_ip st) < int (length inp) - 2")
    case True
    then have "lz_ip st + 2 < length inp" by linarith
    from lzf_round_ok [OF "1.prems" this] obtain r where r: "lzf_round inp n st = Some r" "round_good inp n r" by blast
    show ?thesis
    proof (cases r)
      case (RoundGo st')
      then obtain ts' where "comp_inv inp n st' ts'" using r(2) by (auto simp: round_good_def)
      from "1.IH" [OF True r(1) RoundGo this] show ?thesis using r(1) RoundGo True by (subst lzf_main.simps) simp
    qed (use r True in \<open>subst lzf_main.simps, simp add: round_good_def\<close>)+
  next
    case False
    then have "length inp \<le> lz_ip st + 2" by linarith
    then show ?thesis using "1.prems" False by (subst lzf_main.simps) auto
  qed
qed

text \<open>At most two bytes are left, and there is room for them and for the end of one run.\<close>

lemma lzf_tail_ok:
  "comp_inv inp n st ts \<Longrightarrow> length inp - lz_ip st \<le> 2 \<Longrightarrow>
    lz_op st + (length inp - lz_ip st) + 1 \<le> n \<or> lz_lit st + (length inp - lz_ip st) < MAX_LIT \<and> lz_op st + (length inp - lz_ip st) \<le> n \<Longrightarrow>
    \<exists>st' ts'. lzf_tail inp st = Some st' \<and> comp_inv inp n st' ts' \<and> lz_ip st' = length inp \<and> lz_op st' \<le> n"
proof (induction inp st arbitrary: ts rule: lzf_tail.induct)
  case (1 inp st)
  have le: "lz_ip st \<le> length inp" "lz_lit st < 32" using "1.prems"(1) by (simp_all add: comp_inv_def)
  show ?case
  proof (cases "lz_ip st < length inp")
    case True
    have "lz_op st < n" using "1.prems"(3) True by linarith
    then obtain st' ts' where p: "put_literal inp st = Some st'" "comp_inv inp n st' ts'" "lz_ip st' = lz_ip st + 1"
      "if lz_lit st + 1 = MAX_LIT then lz_lit st' = 0 \<and> lz_op st' = lz_op st + 2 else lz_lit st' = lz_lit st + 1 \<and> lz_op st' = lz_op st + 1"
      using put_literal_ok [OF "1.prems"(1) True] by blast
    have "length inp - lz_ip st' = length inp - lz_ip st - 1" using p(3) by simp
    then have "length inp - lz_ip st' \<le> 2"
      "lz_op st' + (length inp - lz_ip st') + 1 \<le> n \<or> lz_lit st' + (length inp - lz_ip st') < MAX_LIT \<and> lz_op st' + (length inp - lz_ip st') \<le> n"
      using "1.prems"(2,3) p(4) True by (auto split: if_splits)
    from "1.IH" [OF True p(1,2) this] show ?thesis using p(1) True by (subst lzf_tail.simps) simp
  next
    case False
    then show ?thesis using "1.prems" le by (subst lzf_tail.simps) auto
  qed
qed

lemma lzf_compress_toks:
  assumes "2 \<le> length inp"
  shows "\<exists>r. lzf_compress htab inp n = Some r \<and>
    (\<forall>out. r = Some out \<longrightarrow> length out \<le> n \<and> (\<exists>ts. out = enc_toks ts \<and> ts \<noteq> [] \<and> toks_ok [] ts \<and> toks_out [] ts = inp))"
proof (cases "n = 0")
  case True
  then show ?thesis by (simp add: lzf_compress_def)
next
  case False
  define st0 where "st0 = \<lparr>lz_ip = 0, lz_op = 1, lz_lit = 0, lz_hval = lzf_FRST (inp ! 0) (inp ! 1), lz_htab = htab, lz_out = replicate n (None :: cell)\<rparr>"
  have b: "byte_at inp 0 = Some (inp ! 0)" "byte_at inp 1 = Some (inp ! 1)" "inp \<noteq> []" using assms by (auto simp: byte_at_def)
  have "comp_inv inp n st0 []" by (simp add: comp_inv_def st0_def)
  then obtain r where r: "lzf_main inp n st0 = Some r" "\<forall>st'. r = Inr st' \<longrightarrow> (\<exists>ts'. comp_inv inp n st' ts') \<and> length inp \<le> lz_ip st' + 2"
    using lzf_main_ok by blast
  have c: "lzf_compress htab inp n = (case r of Inl u \<Rightarrow> Some None | Inr st \<Rightarrow> if lz_op st + 3 > n then Some None
      else do { st \<leftarrow> lzf_tail inp st; out \<leftarrow> stop_run (lz_out st) (lz_op st) (lz_lit st);
        let op = lz_op st - (if lz_lit st = 0 then 1 else 0); bs \<leftarrow> mem_read out 0 op; Some (Some bs) })"
    unfolding lzf_compress_def b(1,2) bind.bind_lunit st0_def [symmetric] r(1) using b(3) False by simp
  show ?thesis
  proof (cases "\<exists>st. r = Inr st \<and> lz_op st + 3 \<le> n")
    case full: False
    then show ?thesis using c by (cases r) auto
  next
    case True
    then obtain st ts where st: "r = Inr st" "lz_op st + 3 \<le> n" "comp_inv inp n st ts" "length inp \<le> lz_ip st + 2" using r(2) by blast
    obtain st' ts' where t: "lzf_tail inp st = Some st'" "comp_inv inp n st' ts'" "lz_ip st' = length inp" "lz_op st' \<le> n"
      using lzf_tail_ok [OF st(3)] st(2,4) by fastforce
    define nolit where "nolit = (if lz_lit st' = 0 then 1 else 0 :: nat)"
    obtain x q where out: "lz_out st' = map Some (enc_toks ts') @ x # map Some (open_run inp st') @ q" by (rule comp_shape [OF t(2,4)])
    have lr: "length (open_run inp st') = lz_lit st'" by (rule length_open_run [OF t(2)])
    note s = stop_run_ok [OF t(2) out lr]
    have op: "lz_op st' = length (enc_toks ts') + 1 + lz_lit st'" "toks_ok [] ts'" "toks_out [] ts' = take (length inp - lz_lit st') inp"
      using t(2,3) by (simp_all add: comp_inv_def)
    define us where "us = (if lz_lit st' = 0 then ts' else ts' @ [LzLit (open_run inp st')])"
    have us: "toks_ok [] us" "toks_out [] us = inp" using op(2,3) open_run_tok [OF t(2)] t(3) by (auto simp: us_def)
    have ne: "us \<noteq> []" using us(2) b(3) by auto
    have le: "lz_op st' - nolit = length (enc_toks us)" using op(1) lr by (simp add: us_def nolit_def)
    obtain q' where q': "map Some (enc_toks ts') @ Some (word_of_int (int (lz_lit st') - 1)) # map Some (open_run inp st') @ q = map Some (enc_toks us) @ q'"
    proof (cases "lz_lit st' = 0")
      case True
      then show thesis using that [of "Some (word_of_int (int (lz_lit st') - 1)) # map Some (open_run inp st') @ q"] by (simp add: us_def)
    next
      case False
      then have "open_run inp st' \<noteq> []" using lr by auto
      from run_token [OF this, of "enc_toks ts'" q] show thesis using that [of q] False lr by (simp add: us_def)
    qed
    have rd: "mem_read (map Some (enc_toks us) @ q') 0 (length (enc_toks us)) = Some (enc_toks us)"
      using mem_read_done [of 0 "length (enc_toks us)" "enc_toks us" q'] by simp
    have "lzf_compress htab inp n = Some (Some (enc_toks us))"
      using st(2) unfolding c st(1) sum.case t(1) bind.bind_lunit s q' Let_def nolit_def [symmetric] le rd by simp
    moreover have "length (enc_toks us) \<le> n" using le t(4) by linarith
    ultimately show ?thesis using us ne by blast
  qed
qed

lemma lzf_lossless:
  assumes "2 \<le> length inp"
  shows "\<exists>r. lzf_compress htab inp n = Some r \<and>
    (\<forall>out. r = Some out \<longrightarrow> length out \<le> n \<and>
      (\<forall>buf. length inp \<le> length buf \<longrightarrow> lzf_decompress out buf = Some (LzfDone (map Some inp @ drop (length inp) buf) (length inp))))"
proof -
  obtain r where r: "lzf_compress htab inp n = Some r"
    "\<forall>out. r = Some out \<longrightarrow> length out \<le> n \<and> (\<exists>ts. out = enc_toks ts \<and> ts \<noteq> [] \<and> toks_ok [] ts \<and> toks_out [] ts = inp)"
    using lzf_compress_toks [OF assms] by blast
  have "lzf_decompress out buf = Some (LzfDone (map Some inp @ drop (length inp) buf) (length inp))"
    if o: "r = Some out" "length inp \<le> length buf" for out buf
  proof -
    obtain ts where "out = enc_toks ts" "ts \<noteq> []" "toks_ok [] ts" "toks_out [] ts = inp" using r(2) o(1) by blast
    then show ?thesis using lzf_loop_ok [of "[]" ts buf "[]"] o(2) by (simp add: lzf_decompress_def)
  qed
  then show ?thesis using r by blast
qed

section \<open>Properties\<close>

text \<open>C6. Compression is lossless and stays inside its buffers: for every input of at least two bytes, every size of the output
  and whatever the uninitialised hash table holds, the compressor accesses nothing outside its objects; and when it does
  not give up, its output fits, and decompressing it into any buffer that is large enough gives back exactly the input.\<close>

theorem lzf_roundtrip:
  assumes "2 \<le> length inp"
  shows "\<exists>r. lzf_compress htab inp n = Some r \<and>
    (\<forall>out. r = Some out \<longrightarrow> length out \<le> n \<and>
      (\<forall>buf. length inp \<le> length buf \<longrightarrow> lzf_decompress out buf = Some (LzfDone (map Some inp @ drop (length inp) buf) (length inp))))"
  using assms by (rule lzf_lossless)

theorem lzf_roundtrip_witness:
  "lzf_compress (\<lambda>i. 0) [1, 2, 3] 5 = Some (Some [2, 1, 2, 3]) \<and>
    lzf_decompress [2, 1, 2, 3] (replicate 3 None) = Some (LzfDone (map Some [1, 2, 3]) 3)"
proof -
  have c: "lzf_compress (\<lambda>i. 0) [1, 2, 3] 5 = Some (Some [2, 1, 2, 3])"
    by (simp add: lzf_compress_def lzf_main.simps lzf_round_def lzf_found_def put_literal_def byte_at_def mem_write_def lzf_tail.simps
        stop_run_def mem_read_def Let_def eval_nat_numeral)
  show ?thesis using lzf_roundtrip [of "[1, 2, 3]" "\<lambda>i. 0" 5] unfolding c by simp
qed

text \<open>C14. The decompressor is safe on every input, damaged or made up: with at least one byte it reads and writes
  inside its objects only, ends, and either reports an error or has filled as many bytes as it reports.\<close>

theorem lzf_decompress_safe:
  assumes "inp \<noteq> []"
  shows "\<exists>r. lzf_decompress inp buf = Some r \<and>
    (\<forall>m n. r = LzfDone m n \<longrightarrow> length m = length buf \<and> 0 < n \<and> n \<le> length buf \<and> (\<exists>d. length d = n \<and> take n m = map Some d))"
proof -
  have i: "out_inv buf 0 (length buf)" "0 < length inp" using assms by (auto simp: out_inv_def)
  obtain r where r: "lzf_decompress inp buf = Some r" "\<forall>m' op'. r = LzfDone m' op' \<longrightarrow> out_inv m' op' (length buf) \<and> 0 < op'"
    using lzf_loop_safe [OF i] by (auto simp: lzf_decompress_def)
  have "length m = length buf \<and> 0 < n \<and> n \<le> length buf \<and> (\<exists>d. length d = n \<and> take n m = map Some d)" if "r = LzfDone m n" for m n
    using r(2) that by (auto simp: out_inv_def)
  then show ?thesis using r(1) by blast
qed

theorem lzf_decompress_safe_witness:
  "\<exists>r. lzf_decompress [255, 255] (replicate 4 None) = Some r \<and> (\<forall>m n. r = LzfDone m n \<longrightarrow> n \<le> 4)"
  using lzf_decompress_safe [of "[255, 255]" "replicate 4 None"] by auto

end
