(* ===== verification/Quicklist.thy ===== *)
theory Quicklist
  imports ZiplistSpec LzfSpec
begin

text \<open>
  The list of ziplists, \<open>quicklist.c\<close>. The doubly linked list is the list of its nodes in order; a node is
  named by its position, and \<open>NULL\<close> is a position outside the list. The data of a node is its ziplist or the
  compressed form of it, as its encoding says; using the compressed form as a ziplist is \<open>None\<close>. The fields of
  16 bits wrap; the numbers of nodes and of entries do not reach their width. What the hash table of the
  compressor holds at first is an argument.
\<close>

section \<open>State\<close>

datatype qdata = QRaw cmemory | QLzf bytes

record qnode =
  q_data :: qdata
  q_sz :: nat
  q_count :: nat
  q_recompress :: bool

record quicklist =
  ql_nodes :: "qnode list"
  ql_count :: nat
  ql_len :: nat
  ql_fill :: int
  ql_compress :: nat

definition quicklistCreate :: quicklist where
  "quicklistCreate = \<lparr>ql_nodes = [], ql_count = 0, ql_len = 0, ql_fill = -2, ql_compress = 0\<rparr>"

definition quicklistSetCompressDepth :: "quicklist \<Rightarrow> int \<Rightarrow> quicklist" where
  "quicklistSetCompressDepth ql c =
     (let c = (if c > 65536 then 65536 else if c < 0 then 0 else c) in ql\<lparr>ql_compress := nat c mod 65536\<rparr>)"

definition quicklistSetFill :: "quicklist \<Rightarrow> int \<Rightarrow> quicklist" where
  "quicklistSetFill ql fill =
     (let fill = (if fill > 32768 then 32768 else if fill < -5 then -5 else fill) in ql\<lparr>ql_fill := (fill + 32768) mod 65536 - 32768\<rparr>)"

definition quicklistSetOptions :: "quicklist \<Rightarrow> int \<Rightarrow> int \<Rightarrow> quicklist" where
  "quicklistSetOptions ql fill depth = quicklistSetCompressDepth (quicklistSetFill ql fill) depth"

definition quicklistNew :: "int \<Rightarrow> int \<Rightarrow> quicklist" where
  "quicklistNew fill compress = quicklistSetOptions quicklistCreate fill compress"

definition quicklistCreateNode :: "cmemory \<Rightarrow> qnode" where
  "quicklistCreateNode zl = \<lparr>q_data = QRaw zl, q_sz = 0, q_count = 0, q_recompress = False\<rparr>"

section \<open>Compression of nodes\<close>

abbreviation MIN_COMPRESS_BYTES :: nat where "MIN_COMPRESS_BYTES \<equiv> 48"
abbreviation MIN_COMPRESS_IMPROVE :: nat where "MIN_COMPRESS_IMPROVE \<equiv> 8"

definition raw_zl :: "qnode \<Rightarrow> cmemory option" where
  "raw_zl nd = (case q_data nd of QRaw zl \<Rightarrow> Some zl | QLzf out \<Rightarrow> None)"

definition compress_zl :: "(nat \<Rightarrow> nat) \<Rightarrow> qnode \<Rightarrow> cmemory \<Rightarrow> qnode option" where
  "compress_zl garb nd zl =
     (if q_sz nd < MIN_COMPRESS_BYTES then Some nd
      else do {
        bs \<leftarrow> mem_read zl 0 (q_sz nd);
        r \<leftarrow> lzf_compress garb bs (q_sz nd);
        case r of
          None \<Rightarrow> Some nd
        | Some out \<Rightarrow>
            if length out + MIN_COMPRESS_IMPROVE \<ge> q_sz nd then Some nd
            else Some (nd\<lparr>q_data := QLzf out, q_recompress := False\<rparr>)
      })"

definition quicklistCompressNode :: "(nat \<Rightarrow> nat) \<Rightarrow> qnode \<Rightarrow> qnode option" where
  "quicklistCompressNode garb nd = (case q_data nd of QRaw zl \<Rightarrow> compress_zl garb nd zl | QLzf out \<Rightarrow> Some nd)"

definition quicklistDecompressNode :: "qnode \<Rightarrow> qnode option" where
  "quicklistDecompressNode nd =
     (case q_data nd of
        QRaw zl \<Rightarrow> Some nd
      | QLzf out \<Rightarrow>
          (case lzf_decompress out (replicate (q_sz nd) None) of
             None \<Rightarrow> None
           | Some (LzfFail e) \<Rightarrow> Some nd
           | Some (LzfDone m n) \<Rightarrow> Some (nd\<lparr>q_data := QRaw m\<rparr>)))"

definition quicklistDecompressNodeForUse :: "qnode \<Rightarrow> qnode option" where
  "quicklistDecompressNodeForUse nd =
     (case q_data nd of
        QRaw zl \<Rightarrow> Some nd
      | QLzf out \<Rightarrow> do { nd \<leftarrow> quicklistDecompressNode nd; Some (nd\<lparr>q_recompress := True\<rparr>) })"

text \<open>An operation on the node at a position, if there is one.\<close>

definition on_node :: "(qnode \<Rightarrow> qnode option) \<Rightarrow> qnode list \<Rightarrow> int \<Rightarrow> qnode list option" where
  "on_node f nodes i =
     (if 0 \<le> i \<and> i < int (length nodes) then do { nd \<leftarrow> f (nodes ! nat i); Some (nodes[nat i := nd]) } else Some nodes)"

text \<open>The loop over the depth from both ends, with \<open>k\<close> rounds left: whether the function returns, whether the node was met, the nodes.\<close>

fun qcompress_loop :: "nat \<Rightarrow> nat \<Rightarrow> qnode list \<Rightarrow> int option \<Rightarrow> bool \<Rightarrow> (bool \<times> bool \<times> qnode list) option" where
  "qcompress_loop 0 f nodes node in_depth = Some (False, in_depth, nodes)"
| "qcompress_loop (Suc k) f nodes node in_depth =
     (let r = int (length nodes) - 1 - int f in do {
        nodes \<leftarrow> on_node quicklistDecompressNode nodes (int f);
        nodes \<leftarrow> on_node quicklistDecompressNode nodes r;
        let in_depth = (in_depth \<or> node = Some (int f) \<or> node = Some r);
        if int f = r \<or> f \<ge> length nodes then Some (True, in_depth, nodes)
        else qcompress_loop k (f + 1) nodes node in_depth
      })"

definition quicklistCompress_depth :: "(nat \<Rightarrow> nat) \<Rightarrow> quicklist \<Rightarrow> int option \<Rightarrow> quicklist option" where
  "quicklistCompress_depth garb ql node =
     (let c = ql_compress ql in
      if c = 0 \<or> ql_len ql < c * 2 then Some ql
      else do {
        (ret, in_depth, nodes) \<leftarrow> qcompress_loop c 0 (ql_nodes ql) node False;
        if ret then Some (ql\<lparr>ql_nodes := nodes\<rparr>)
        else do {
          nodes \<leftarrow> (case node of Some i \<Rightarrow> if in_depth then Some nodes else on_node (quicklistCompressNode garb) nodes i | None \<Rightarrow> Some nodes);
          nodes \<leftarrow> (if c + 1 > 2 then do {
              nodes \<leftarrow> on_node (quicklistCompressNode garb) nodes (int c);
              on_node (quicklistCompressNode garb) nodes (int (length nodes) - 1 - int c)
            } else Some nodes);
          Some (ql\<lparr>ql_nodes := nodes\<rparr>)
        }
      })"

definition quicklistCompress :: "(nat \<Rightarrow> nat) \<Rightarrow> quicklist \<Rightarrow> nat \<Rightarrow> quicklist option" where
  "quicklistCompress garb ql i =
     (if q_recompress (ql_nodes ql ! i)
      then do { nodes \<leftarrow> on_node (quicklistCompressNode garb) (ql_nodes ql) (int i); Some (ql\<lparr>ql_nodes := nodes\<rparr>) }
      else quicklistCompress_depth garb ql (Some (int i)))"

section \<open>Inserting nodes\<close>

text \<open>Without a node to insert at, the list is empty.\<close>

definition quicklistInsertNode :: "(nat \<Rightarrow> nat) \<Rightarrow> quicklist \<Rightarrow> nat option \<Rightarrow> qnode \<Rightarrow> bool \<Rightarrow> quicklist option" where
  "quicklistInsertNode garb ql old new after = do {
     ql \<leftarrow>
       (case old of
          None \<Rightarrow> if ql_nodes ql = [] then Some (ql\<lparr>ql_nodes := [new]\<rparr>) else None
        | Some i \<Rightarrow>
            (let k = (if after then i + 1 else i)
             in quicklistCompress garb (ql\<lparr>ql_nodes := take k (ql_nodes ql) @ new # drop k (ql_nodes ql)\<rparr>) (if after then i else i + 1)));
     Some (ql\<lparr>ql_len := ql_len ql + 1\<rparr>)
   }"

definition optimization_level :: "nat list" where
  "optimization_level = [4096, 8192, 16384, 32768, 65536]"

definition quicklistNodeSizeMeetsOptimizationRequirement :: "nat \<Rightarrow> int \<Rightarrow> bool" where
  "quicklistNodeSizeMeetsOptimizationRequirement sz fill \<longleftrightarrow>
     fill < 0 \<and> (let offset = nat (- fill) - 1 in offset < length optimization_level \<and> sz \<le> optimization_level ! offset)"

abbreviation SIZE_SAFETY_LIMIT :: nat where "SIZE_SAFETY_LIMIT \<equiv> 8192"

definition quicklistNodeAllowInsert :: "qnode \<Rightarrow> int \<Rightarrow> nat \<Rightarrow> bool" where
  "quicklistNodeAllowInsert nd fill sz =
     (let ziplist_overhead = (if sz < 254 then 1 else 5) + (if sz < 64 then 1 else if sz < 16384 then 2 else 5);
          new_sz = (q_sz nd + sz + ziplist_overhead) mod 2 ^ 32
      in if quicklistNodeSizeMeetsOptimizationRequirement new_sz fill then True
         else if new_sz > SIZE_SAFETY_LIMIT then False
         else int (q_count nd) < fill)"

definition quicklistNodeUpdateSz :: "qnode \<Rightarrow> qnode option" where
  "quicklistNodeUpdateSz nd = do { zl \<leftarrow> raw_zl nd; n \<leftarrow> ziplistBlobLen zl; Some (nd\<lparr>q_sz := n\<rparr>) }"

section \<open>Pushing\<close>

definition push_node :: "qnode \<Rightarrow> bytes \<Rightarrow> bool \<Rightarrow> qnode option" where
  "push_node nd v at_head = do {
     zl \<leftarrow> raw_zl nd;
     zl \<leftarrow> ziplistPush zl v at_head;
     quicklistNodeUpdateSz (nd\<lparr>q_data := QRaw zl\<rparr>)
   }"

text \<open>\<open>quicklist->count++; node->count++\<close>\<close>

definition count_up :: "quicklist \<Rightarrow> nat \<Rightarrow> quicklist" where
  "count_up ql i = (let nd = ql_nodes ql ! i
     in ql\<lparr>ql_count := ql_count ql + 1, ql_nodes := (ql_nodes ql)[i := nd\<lparr>q_count := (q_count nd + 1) mod 65536\<rparr>]\<rparr>)"

definition quicklistPushHead :: "(nat \<Rightarrow> nat) \<Rightarrow> quicklist \<Rightarrow> bytes \<Rightarrow> (bool \<times> quicklist) option" where
  "quicklistPushHead garb ql v =
     (if ql_nodes ql \<noteq> [] \<and> quicklistNodeAllowInsert (ql_nodes ql ! 0) (ql_fill ql) (length v)
      then do {
        nd \<leftarrow> push_node (ql_nodes ql ! 0) v True;
        Some (False, count_up (ql\<lparr>ql_nodes := (ql_nodes ql)[0 := nd]\<rparr>) 0)
      }
      else do {
        zl \<leftarrow> ziplistNew;
        nd \<leftarrow> push_node (quicklistCreateNode zl) v True;
        ql \<leftarrow> quicklistInsertNode garb ql (if ql_nodes ql = [] then None else Some 0) nd False;
        Some (True, count_up ql 0)
      })"

definition quicklistPushTail :: "(nat \<Rightarrow> nat) \<Rightarrow> quicklist \<Rightarrow> bytes \<Rightarrow> (bool \<times> quicklist) option" where
  "quicklistPushTail garb ql v =
     (let tail = length (ql_nodes ql) - 1 in
      if ql_nodes ql \<noteq> [] \<and> quicklistNodeAllowInsert (ql_nodes ql ! tail) (ql_fill ql) (length v)
      then do {
        nd \<leftarrow> push_node (ql_nodes ql ! tail) v False;
        Some (False, count_up (ql\<lparr>ql_nodes := (ql_nodes ql)[tail := nd]\<rparr>) tail)
      }
      else do {
        zl \<leftarrow> ziplistNew;
        nd \<leftarrow> push_node (quicklistCreateNode zl) v False;
        ql \<leftarrow> quicklistInsertNode garb ql (if ql_nodes ql = [] then None else Some tail) nd True;
        Some (True, count_up ql (length (ql_nodes ql) - 1))
      })"

definition quicklistPush :: "(nat \<Rightarrow> nat) \<Rightarrow> quicklist \<Rightarrow> bytes \<Rightarrow> bool \<Rightarrow> quicklist option" where
  "quicklistPush garb ql v at_head = map_option snd (if at_head then quicklistPushHead garb ql v else quicklistPushTail garb ql v)"

section \<open>Deleting\<close>

definition quicklistDelNode :: "(nat \<Rightarrow> nat) \<Rightarrow> quicklist \<Rightarrow> nat \<Rightarrow> quicklist option" where
  "quicklistDelNode garb ql i = do {
     let nd = ql_nodes ql ! i;
     ql \<leftarrow> quicklistCompress_depth garb (ql\<lparr>ql_nodes := take i (ql_nodes ql) @ drop (i + 1) (ql_nodes ql)\<rparr>) None;
     Some (ql\<lparr>ql_count := ql_count ql - q_count nd, ql_len := ql_len ql - 1\<rparr>)
   }"

definition quicklistDelIndex :: "(nat \<Rightarrow> nat) \<Rightarrow> quicklist \<Rightarrow> nat \<Rightarrow> nat \<Rightarrow> (bool \<times> quicklist) option" where
  "quicklistDelIndex garb ql i p = do {
     let nd = ql_nodes ql ! i;
     zl \<leftarrow> raw_zl nd;
     (zl, p) \<leftarrow> ziplistDelete zl p;
     let nd = nd\<lparr>q_data := QRaw zl, q_count := (q_count nd + 65535) mod 65536\<rparr>;
     let ql = ql\<lparr>ql_nodes := (ql_nodes ql)[i := nd]\<rparr>;
     (gone, ql) \<leftarrow>
       (if q_count nd = 0 then map_option (Pair True) (quicklistDelNode garb ql i)
        else do { nd \<leftarrow> quicklistNodeUpdateSz nd; Some (False, ql\<lparr>ql_nodes := (ql_nodes ql)[i := nd]\<rparr>) });
     Some (gone, ql\<lparr>ql_count := ql_count ql - 1\<rparr>)
   }"

text \<open>An entry as it is returned: a string or a number.\<close>

datatype qvalue = QStr bytes | QLong int

definition q_value :: "cmemory \<Rightarrow> nat option \<Rightarrow> qvalue option option" where
  "q_value zl p = do {
     g \<leftarrow> ziplistGet zl p;
     case g of
       None \<Rightarrow> Some None
     | Some (Sval v) \<Rightarrow> Some (Some (QLong v))
     | Some (Sstr q n) \<Rightarrow> do { bs \<leftarrow> mem_read zl q n; Some (Some (QStr bs)) }
   }"

definition quicklistPop :: "(nat \<Rightarrow> nat) \<Rightarrow> quicklist \<Rightarrow> bool \<Rightarrow> (qvalue option \<times> quicklist) option" where
  "quicklistPop garb ql at_head =
     (if ql_count ql = 0 \<or> ql_nodes ql = [] then Some (None, ql)
      else do {
        let i = (if at_head then 0 else length (ql_nodes ql) - 1);
        zl \<leftarrow> raw_zl (ql_nodes ql ! i);
        p \<leftarrow> ziplistIndex zl (if at_head then 0 else -1);
        v \<leftarrow> q_value zl p;
        case (v, p) of
          (Some v, Some p) \<Rightarrow> do { (gone, ql) \<leftarrow> quicklistDelIndex garb ql i p; Some (Some v, ql) }
        | _ \<Rightarrow> Some (None, ql)
      })"

section \<open>Finding an entry\<close>

text \<open>The node that holds the entry, counted from the start of the nodes given, and the entries skipped.\<close>

fun index_node :: "qnode list \<Rightarrow> nat \<Rightarrow> nat \<Rightarrow> (nat \<times> nat) option" where
  "index_node [] accum index = None"
| "index_node (nd # nodes) accum index =
     (if accum + q_count nd > index then Some (0, accum)
      else map_option (\<lambda>(i, a). (i + 1, a)) (index_node nodes (accum + q_count nd) index))"

text \<open>The result: position of the node, offset in it, position in the ziplist and value.\<close>

definition quicklistIndex :: "quicklist \<Rightarrow> int \<Rightarrow> ((nat \<times> int \<times> nat option \<times> qvalue option) option \<times> quicklist) option" where
  "quicklistIndex ql idx =
     (let forward = (0 \<le> idx);
          index = (if forward then nat idx else nat (- idx) - 1)
      in if index \<ge> ql_count ql then Some (None, ql)
         else
           (case index_node (if forward then ql_nodes ql else rev (ql_nodes ql)) 0 index of
              None \<Rightarrow> Some (None, ql)
            | Some (k, accum) \<Rightarrow> do {
                let i = (if forward then k else length (ql_nodes ql) - 1 - k);
                let offset = (if forward then int index - int accum else - int index - 1 + int accum);
                nd \<leftarrow> quicklistDecompressNodeForUse (ql_nodes ql ! i);
                zl \<leftarrow> raw_zl nd;
                zi \<leftarrow> ziplistIndex zl offset;
                v \<leftarrow> q_value zl zi;
                Some (Some (i, offset, zi, v), ql\<lparr>ql_nodes := (ql_nodes ql)[i := nd]\<rparr>)
              }))"

section \<open>Duplication\<close>

text \<open>The encoding that is tested is that of the new node, which is always raw: as many bytes as the ziplist has are copied from
  whatever the original node holds. A compressed one is a length of four bytes and the data.\<close>

definition dup_node :: "qnode \<Rightarrow> qnode option" where
  "dup_node current = do {
     bs \<leftarrow> (case q_data current of
        QRaw zl \<Rightarrow> mem_read zl 0 (q_sz current)
      | QLzf out \<Rightarrow> mem_read (map Some (le_enc 4 (int (length out)) @ out)) 0 (q_sz current));
     Some \<lparr>q_data = (case q_data current of QRaw zl \<Rightarrow> QRaw (map Some bs) | QLzf out \<Rightarrow> QLzf (drop 4 bs)),
       q_sz = q_sz current, q_count = q_count current, q_recompress = False\<rparr>
   }"

fun dup_loop :: "(nat \<Rightarrow> nat) \<Rightarrow> qnode list \<Rightarrow> quicklist \<Rightarrow> quicklist option" where
  "dup_loop garb [] copy = Some copy"
| "dup_loop garb (current # nodes) copy = do {
     nd \<leftarrow> dup_node current;
     let copy = copy\<lparr>ql_count := ql_count copy + q_count nd\<rparr>;
     copy \<leftarrow> quicklistInsertNode garb copy (if ql_nodes copy = [] then None else Some (length (ql_nodes copy) - 1)) nd True;
     dup_loop garb nodes copy
   }"

definition quicklistDup :: "(nat \<Rightarrow> nat) \<Rightarrow> quicklist \<Rightarrow> quicklist option" where
  "quicklistDup garb orig = dup_loop garb (ql_nodes orig) (quicklistNew (ql_fill orig) (int (ql_compress orig)))"

end
