(* ===== verification/QuicklistSpec.thy ===== *)
theory QuicklistSpec
  imports Quicklist
begin

text \<open>
  The list of ziplists as a list of strings. \<open>quicklist_rep\<close> relates a list to the strings of each node, whether the
  node is compressed or not, and states what the compression keeps: the first and the last node are never
  compressed, and no node is in a list shorter than twice the depth. The interface \<open>deque\<close> is what the
  clients of \<^verbatim>\<open>quicklist.c\<close> rely on.
\<close>

section \<open>Nodes\<close>

definition q_fits :: "bytes list \<Rightarrow> bool" where
  "q_fits ss \<longleftrightarrow> sum_list (map (\<lambda>s. length s + 18) ss) + 33 \<le> 2147483648"

lemma q_fits_zl: "q_fits ss \<Longrightarrow> zl_fits ss"
  by (simp add: q_fits_def zl_fits_def)

lemma ent_bytes_ge: "2 * length es \<le> ent_bytes es"
proof (induction es)
  case (Cons e es)
  have "1 \<le> prev_size (fst e)" "0 < length (payload (snd e))" by (simp_all add: prev_size_def)
  then have "2 \<le> entry_len e" unfolding entry_len_def by linarith
  then show ?case using Cons by simp
qed simp

lemma strings_le: "sum_list (map (\<lambda>s. length s + 18) (map snd es)) \<le> ent_bytes es + 48 * length es"
proof (induction es)
  case (Cons e es)
  have "length (snd e) \<le> 31 + length (payload (snd e))" by (rule length_string_payload)
  moreover have "1 \<le> prev_size (fst e)" by (simp add: prev_size_def)
  ultimately have "length (snd e) \<le> 30 + entry_len e" unfolding entry_len_def by linarith
  then show ?case using Cons by simp
qed simp

lemma zl_rep_memory:
  assumes "zl_rep zl es"
  shows "(\<exists>bs. zl = map Some bs) \<and> length zl = offs es + 1"
proof -
  obtain c where c: "zl = hdr (offs es + 1) (tail_off es) c @ map Some (entries 0 es @ [ZIP_END])"
    using assms unfolding zl_rep_def by blast
  have "length (entries 0 es) = ent_bytes es" by simp
  then have "length zl = offs es + 1" unfolding c by (simp add: hdr_def offs_def)
  moreover have "\<exists>bs. zl = map Some bs" unfolding c hdr_def by (metis map_append)
  ultimately show ?thesis by blast
qed

lemma zl_strings_size:
  assumes "zl_strings zl ss"
  shows "\<exists>bs. zl = map Some bs" "ziplistBlobLen zl = Some (length zl)" "11 + 2 * length ss \<le> length zl"
    "length zl \<le> 11 + sum_list (map (\<lambda>s. length s + 18) ss)" "sum_list (map (\<lambda>s. length s + 18) ss) \<le> length zl + 48 * length ss"
proof -
  obtain es where es: "zl_rep zl es" "map snd es = ss" using assms unfolding zl_strings_def by blast
  have l: "length ss = length es" using es(2) by auto
  have m: "length zl = 11 + ent_bytes es" using zl_rep_memory [OF es(1)] by (simp add: offs_def)
  show "\<exists>bs. zl = map Some bs" "ziplistBlobLen zl = Some (length zl)"
    using zl_rep_memory [OF es(1)] rep_header [OF es(1)] by (simp_all add: ziplistBlobLen_def)
  show "11 + 2 * length ss \<le> length zl" using ent_bytes_ge [of es] l m by simp
  show "length zl \<le> 11 + sum_list (map (\<lambda>s. length s + 18) ss)"
    using zl_fits_offs [of es] m unfolding es(2) offs_def by simp
  show "sum_list (map (\<lambda>s. length s + 18) ss) \<le> length zl + 48 * length ss"
    using strings_le [of es] l m unfolding es(2) by simp
qed

text \<open>The ziplist a node stands for.\<close>

definition data_rep :: "qdata \<Rightarrow> cmemory \<Rightarrow> bool" where
  "data_rep d zl \<longleftrightarrow>
     (case d of
        QRaw m \<Rightarrow> m = zl
      | QLzf out \<Rightarrow> length out + 8 < length zl \<and> lzf_decompress out (replicate (length zl) None) = Some (LzfDone zl (length zl)))"

definition node_rep :: "qnode \<Rightarrow> bytes list \<Rightarrow> bool" where
  "node_rep nd ss \<longleftrightarrow> (\<exists>zl. zl_strings zl ss \<and> data_rep (q_data nd) zl \<and> q_sz nd = length zl) \<and> q_fits ss \<and> ss \<noteq> []"

definition is_raw :: "qnode \<Rightarrow> bool" where
  "is_raw nd \<longleftrightarrow> (\<exists>zl. q_data nd = QRaw zl)"

definition unflagged :: "qnode list \<Rightarrow> bool" where
  "unflagged nodes \<longleftrightarrow> (\<forall>nd \<in> set nodes. \<not> q_recompress nd)"

text \<open>What compressing and decompressing nodes keeps of a list.\<close>

definition keeps :: "bytes list list \<Rightarrow> qnode list \<Rightarrow> qnode list \<Rightarrow> bool" where
  "keeps sss nodes nodes' \<longleftrightarrow>
     list_all2 node_rep nodes' sss \<and> list_all2 (\<lambda>nd nd'. q_count nd' = q_count nd \<and> (q_recompress nd' \<longrightarrow> q_recompress nd)) nodes nodes'"

lemma keeps_refl: "list_all2 node_rep nodes sss \<Longrightarrow> keeps sss nodes nodes"
  by (simp add: keeps_def list_all2_same)

lemma keeps_trans: "keeps sss nodes nodes' \<Longrightarrow> keeps sss nodes' nodes'' \<Longrightarrow> keeps sss nodes nodes''"
  unfolding keeps_def by (auto elim: list_all2_trans [rotated])

lemma keeps_length: "keeps sss nodes nodes' \<Longrightarrow> length nodes' = length nodes"
  by (auto simp: keeps_def dest: list_all2_lengthD)

lemma keeps_rep: "keeps sss nodes nodes' \<Longrightarrow> list_all2 node_rep nodes' sss"
  by (simp add: keeps_def)

lemma keeps_count: "keeps sss nodes nodes' \<Longrightarrow> map q_count nodes' = map q_count nodes"
  by (auto simp: keeps_def list_all2_conv_all_nth intro!: nth_equalityI)

lemma keeps_flag: "keeps sss nodes nodes' \<Longrightarrow> j < length nodes \<Longrightarrow> q_recompress (nodes' ! j) \<Longrightarrow> q_recompress (nodes ! j)"
  by (auto simp: keeps_def list_all2_conv_all_nth)

lemma keeps_unflagged: "keeps sss nodes nodes' \<Longrightarrow> unflagged nodes \<Longrightarrow> unflagged nodes'"
  using keeps_flag [of sss nodes nodes'] keeps_length [of sss nodes nodes'] unfolding unflagged_def all_set_conv_all_nth by auto

lemma raw_node:
  assumes "node_rep nd ss" and "is_raw nd"
  shows "\<exists>zl. q_data nd = QRaw zl \<and> zl_strings zl ss \<and> q_sz nd = length zl"
  using assms by (auto simp: node_rep_def is_raw_def data_rep_def)

lemma decompress_node:
  assumes "node_rep nd ss"
  shows "\<exists>nd'. quicklistDecompressNode nd = Some nd' \<and> node_rep nd' ss \<and> is_raw nd' \<and> q_count nd' = q_count nd \<and> q_recompress nd' = q_recompress nd"
proof -
  obtain zl where zl: "zl_strings zl ss" "data_rep (q_data nd) zl" "q_sz nd = length zl" using assms by (auto simp: node_rep_def)
  show ?thesis
  proof (cases "q_data nd")
    case (QRaw m)
    then show ?thesis using assms by (simp add: quicklistDecompressNode_def is_raw_def)
  next
    case (QLzf out)
    then have "lzf_decompress out (replicate (q_sz nd) None) = Some (LzfDone zl (length zl))" using zl by (simp add: data_rep_def)
    then show ?thesis using zl assms QLzf
      by (auto simp: quicklistDecompressNode_def is_raw_def node_rep_def data_rep_def)
  qed
qed

lemma compress_node:
  assumes "node_rep nd ss"
  shows "\<exists>nd'. quicklistCompressNode garb nd = Some nd' \<and> node_rep nd' ss \<and> q_count nd' = q_count nd \<and> (q_recompress nd' \<longrightarrow> q_recompress nd)"
proof -
  obtain zl where zl: "zl_strings zl ss" "data_rep (q_data nd) zl" "q_sz nd = length zl" using assms by (auto simp: node_rep_def)
  obtain bs where bs: "zl = map Some bs" using zl_strings_size(1) [OF zl(1)] by blast
  show ?thesis
  proof (cases "q_data nd")
    case (QRaw m)
    then have m: "m = zl" using zl(2) by (simp add: data_rep_def)
    show ?thesis
    proof (cases "q_sz nd < 48")
      case True
      then show ?thesis using assms QRaw by (simp add: quicklistCompressNode_def compress_zl_def)
    next
      case False
      have l: "length bs = q_sz nd" "2 \<le> length bs" using False zl(3) bs by simp_all
      have rd: "mem_read zl 0 (q_sz nd) = Some bs" using mem_read_at [of "[]" 0 bs "q_sz nd" "[]"] l(1) bs by simp
      obtain r where r: "lzf_compress garb bs (q_sz nd) = Some r"
        "\<forall>out. r = Some out \<longrightarrow> lzf_decompress out (replicate (length zl) None) = Some (LzfDone zl (length zl))"
        using lzf_lossless [OF l(2), of garb "q_sz nd"] bs by force
      show ?thesis
      proof (cases r)
        case None
        then show ?thesis using assms QRaw m rd r(1) False by (simp add: quicklistCompressNode_def compress_zl_def)
      next
        case (Some out)
        then show ?thesis using assms QRaw m rd r False zl by (auto simp: quicklistCompressNode_def compress_zl_def node_rep_def data_rep_def)
      qed
    qed
  qed (use assms in \<open>simp add: quicklistCompressNode_def\<close>)
qed

lemma on_node_ok:
  assumes f: "\<And>nd ss. node_rep nd ss \<Longrightarrow> \<exists>nd'. f nd = Some nd' \<and> node_rep nd' ss \<and> q_count nd' = q_count nd \<and> (q_recompress nd' \<longrightarrow> q_recompress nd) \<and> P nd'"
    and r: "list_all2 node_rep nodes sss"
  shows "\<exists>nodes'. on_node f nodes i = Some nodes' \<and> keeps sss nodes nodes' \<and>
    (\<forall>j < length nodes. if int j = i then P (nodes' ! j) else nodes' ! j = nodes ! j)"
proof (cases "0 \<le> i \<and> i < int (length nodes)")
  case True
  then have i: "nat i < length nodes" "nat i < length sss" "int (nat i) = i" using r by (auto dest: list_all2_lengthD)
  have nd: "node_rep (nodes ! nat i) (sss ! nat i)" using r i by (simp add: list_all2_conv_all_nth)
  obtain nd' where nd': "f (nodes ! nat i) = Some nd'" "node_rep nd' (sss ! nat i)" "q_count nd' = q_count (nodes ! nat i)"
      "q_recompress nd' \<longrightarrow> q_recompress (nodes ! nat i)" "P nd'" using f [OF nd] by blast
  have "list_all2 node_rep (nodes[nat i := nd']) sss" using r nd'(2) i by (auto simp: list_all2_conv_all_nth nth_list_update)
  moreover have "list_all2 (\<lambda>nd nd'. q_count nd' = q_count nd \<and> (q_recompress nd' \<longrightarrow> q_recompress nd)) nodes (nodes[nat i := nd'])"
    using nd'(3,4) i(1) by (auto simp: list_all2_conv_all_nth nth_list_update)
  ultimately show ?thesis using nd' i True by (auto simp: on_node_def keeps_def nth_list_update)
next
  case False
  then show ?thesis using keeps_refl [OF r] by (auto simp: on_node_def)
qed

lemma decompress_at:
  assumes "list_all2 node_rep nodes sss"
  shows "\<exists>nodes'. on_node quicklistDecompressNode nodes i = Some nodes' \<and> keeps sss nodes nodes' \<and>
    (\<forall>j < length nodes. int j = i \<or> is_raw (nodes ! j) \<longrightarrow> is_raw (nodes' ! j))"
  using on_node_ok [of quicklistDecompressNode is_raw, OF _ assms, of i] decompress_node by (metis (no_types, lifting))

lemma compress_at:
  assumes "list_all2 node_rep nodes sss"
  shows "\<exists>nodes'. on_node (quicklistCompressNode garb) nodes i = Some nodes' \<and> keeps sss nodes nodes' \<and>
    (\<forall>j < length nodes. int j \<noteq> i \<and> is_raw (nodes ! j) \<longrightarrow> is_raw (nodes' ! j))"
  using on_node_ok [of "quicklistCompressNode garb" "\<lambda>nd. True", OF _ assms, of i] compress_node by (metis (no_types, lifting))


section \<open>The depth\<close>

text \<open>What \<open>k\<close> rounds of the loop from the nodes at distance \<open>f\<close> of the ends do: they leave no node compressed there, and tell
  whether the node was among them.\<close>

fun depth_post :: "nat \<Rightarrow> nat \<Rightarrow> int option \<Rightarrow> bool \<Rightarrow> qnode list \<Rightarrow> bool \<times> bool \<times> qnode list \<Rightarrow> bool" where
  "depth_post k f node b nodes (ret, in', nodes') \<longleftrightarrow>
     (let n = length nodes in
      (\<forall>j < n. is_raw (nodes ! j) \<longrightarrow> is_raw (nodes' ! j)) \<and> (b \<longrightarrow> in') \<and>
      (if ret then \<forall>j < n. f \<le> j \<and> j + f < n \<longrightarrow> is_raw (nodes' ! j)
       else (\<forall>j < n. f \<le> j \<and> j < f + k \<or> j + f < n \<and> n \<le> j + f + k \<longrightarrow> is_raw (nodes' ! j)) \<and>
         (\<forall>g. f \<le> g \<and> g < f + k \<longrightarrow> 2 * g + 1 \<noteq> n \<and> (in' \<or> node \<noteq> Some (int g) \<and> node \<noteq> Some (int n - 1 - int g)))))"

declare depth_post.simps [simp del]

lemma depth_post_step:
  assumes d: "depth_post k (f + 1) node (b \<or> node = Some (int f) \<or> node = Some (int (length nodes) - 1 - int f)) nodes2 (ret, in', nodes')"
    and l: "length nodes2 = length nodes" and ne: "2 * f + 1 \<noteq> length nodes"
    and raw: "\<forall>j < length nodes. is_raw (nodes ! j) \<or> j = f \<or> j + f + 1 = length nodes \<longrightarrow> is_raw (nodes2 ! j)"
  shows "depth_post (Suc k) f node b nodes (ret, in', nodes')"
proof -
  define n where "n = length nodes"
  have d': "\<forall>j < n. is_raw (nodes2 ! j) \<longrightarrow> is_raw (nodes' ! j)" "b \<or> node = Some (int f) \<or> node = Some (int n - 1 - int f) \<longrightarrow> in'"
    "if ret then \<forall>j < n. f + 1 \<le> j \<and> j + (f + 1) < n \<longrightarrow> is_raw (nodes' ! j)
     else (\<forall>j < n. f + 1 \<le> j \<and> j < f + 1 + k \<or> j + (f + 1) < n \<and> n \<le> j + (f + 1) + k \<longrightarrow> is_raw (nodes' ! j)) \<and>
       (\<forall>g. f + 1 \<le> g \<and> g < f + 1 + k \<longrightarrow> 2 * g + 1 \<noteq> n \<and> (in' \<or> node \<noteq> Some (int g) \<and> node \<noteq> Some (int n - 1 - int g)))"
    using d unfolding depth_post.simps l n_def [symmetric] Let_def by blast+
  have raw': "is_raw (nodes' ! j)" if "j < n" "is_raw (nodes ! j) \<or> j = f \<or> j + f + 1 = n" for j
    using raw d'(1) that unfolding n_def by blast
  have g: "2 * g + 1 \<noteq> n \<and> (in' \<or> node \<noteq> Some (int g) \<and> node \<noteq> Some (int n - 1 - int g))" if "\<not> ret" "f \<le> g" "g < f + Suc k" for g
    using d'(2,3) ne that unfolding n_def [symmetric] by (cases "g = f") auto
  have all: "\<forall>j < n. f \<le> j \<and> j + f < n \<longrightarrow> is_raw (nodes' ! j)" if ret
  proof (intro allI impI)
    fix j assume "j < n" "f \<le> j \<and> j + f < n"
    then show "is_raw (nodes' ! j)" using d'(3) raw' [of j] that by (cases "j = f \<or> j + f + 1 = n") auto
  qed
  have near: "\<forall>j < n. f \<le> j \<and> j < f + Suc k \<or> j + f < n \<and> n \<le> j + f + Suc k \<longrightarrow> is_raw (nodes' ! j)" if "\<not> ret"
  proof (intro allI impI)
    fix j assume "j < n" "f \<le> j \<and> j < f + Suc k \<or> j + f < n \<and> n \<le> j + f + Suc k"
    then show "is_raw (nodes' ! j)" using d'(3) raw' [of j] that by (cases "j = f \<or> j + f + 1 = n") auto
  qed
  have g': "\<forall>g. f \<le> g \<and> g < f + Suc k \<longrightarrow> 2 * g + 1 \<noteq> n \<and> (in' \<or> node \<noteq> Some (int g) \<and> node \<noteq> Some (int n - 1 - int g))" if "\<not> ret"
    using g that by blast
  show ?thesis unfolding depth_post.simps n_def [symmetric] Let_def
  proof (intro conjI)
    show "\<forall>j < n. is_raw (nodes ! j) \<longrightarrow> is_raw (nodes' ! j)" using raw' by blast
    show "b \<longrightarrow> in'" using d'(2) by blast
    show "if ret then \<forall>j < n. f \<le> j \<and> j + f < n \<longrightarrow> is_raw (nodes' ! j)
       else (\<forall>j < n. f \<le> j \<and> j < f + Suc k \<or> j + f < n \<and> n \<le> j + f + Suc k \<longrightarrow> is_raw (nodes' ! j)) \<and>
         (\<forall>g. f \<le> g \<and> g < f + Suc k \<longrightarrow> 2 * g + 1 \<noteq> n \<and> (in' \<or> node \<noteq> Some (int g) \<and> node \<noteq> Some (int n - 1 - int g)))"
    proof (cases ret)
      case True
      then show ?thesis using all [OF True] by (simp only: if_True)
    next
      case False
      then show ?thesis using near [OF False] g' [OF False] by (simp only: if_False simp_thms)
    qed
  qed
qed

lemma qcompress_loop_ok:
  "list_all2 node_rep nodes sss \<Longrightarrow> \<exists>ret in' nodes'. qcompress_loop k f nodes node b = Some (ret, in', nodes') \<and> keeps sss nodes nodes' \<and>
     depth_post k f node b nodes (ret, in', nodes')"
proof (induction k arbitrary: f nodes b)
  case 0
  have "\<not> (f \<le> j \<and> j < f + 0 \<or> j + f < n \<and> n \<le> j + f + 0)" "\<not> (f \<le> g \<and> g < f + 0)" for j n g by linarith+
  then have "depth_post 0 f node b nodes (False, b, nodes)" unfolding depth_post.simps Let_def if_False by blast
  then show ?case using keeps_refl [OF 0] unfolding qcompress_loop.simps by blast
next
  case (Suc k)
  define n where "n = length nodes"
  define r where "r = int n - 1 - int f"
  obtain n1 where n1: "on_node quicklistDecompressNode nodes (int f) = Some n1" "keeps sss nodes n1"
      "\<forall>j < n. j = f \<or> is_raw (nodes ! j) \<longrightarrow> is_raw (n1 ! j)" using decompress_at [OF Suc.prems, of "int f"] by (auto simp: n_def)
  have l1: "length n1 = n" using keeps_length [OF n1(2)] by (simp add: n_def)
  obtain n2 where n2: "on_node quicklistDecompressNode n1 r = Some n2" "keeps sss n1 n2"
      "\<forall>j < n. int j = r \<or> is_raw (n1 ! j) \<longrightarrow> is_raw (n2 ! j)" using decompress_at [OF keeps_rep [OF n1(2)], of r] l1 by auto
  have l2: "length n2 = n" using keeps_length [OF n2(2)] l1 by simp
  have k2: "keeps sss nodes n2" by (rule keeps_trans [OF n1(2) n2(2)])
  have raw2: "\<forall>j < n. is_raw (nodes ! j) \<or> j = f \<or> j + f + 1 = n \<longrightarrow> is_raw (n2 ! j)" using n1(3) n2(3) by (auto simp: r_def)
  define b' where "b' = (b \<or> node = Some (int f) \<or> node = Some r)"
  have step: "qcompress_loop (Suc k) f nodes node b = (if int f = r \<or> f \<ge> n then Some (True, b', n2) else qcompress_loop k (f + 1) n2 node b')"
    unfolding qcompress_loop.simps Let_def n_def [symmetric] r_def [symmetric] n1(1) bind.bind_lunit n2(1) l2 b'_def by simp
  show ?case
  proof (cases "int f = r \<or> f \<ge> n")
    case True
    then have "\<forall>j < n. f \<le> j \<and> j + f < n \<longrightarrow> j = f" by (auto simp: r_def)
    then have "depth_post (Suc k) f node b nodes (True, b', n2)" using raw2 unfolding depth_post.simps n_def [symmetric] Let_def if_True b'_def by blast
    then show ?thesis using True k2 unfolding step by auto
  next
    case False
    obtain ret in' n3 where ih: "qcompress_loop k (f + 1) n2 node b' = Some (ret, in', n3)" "keeps sss n2 n3" "depth_post k (f + 1) node b' n2 (ret, in', n3)"
      using Suc.IH [OF keeps_rep [OF k2], of "f + 1" b'] by blast
    have "depth_post (Suc k) f node b nodes (ret, in', n3)"
      using False raw2 l2 ih(3) unfolding b'_def r_def n_def by (intro depth_post_step) auto
    then show ?thesis using False ih(1) keeps_trans [OF k2 ih(2)] unfolding step by auto
  qed
qed


definition ends_raw :: "qnode list \<Rightarrow> bool" where
  "ends_raw nodes \<longleftrightarrow> nodes \<noteq> [] \<longrightarrow> is_raw (nodes ! 0) \<and> is_raw (nodes ! (length nodes - 1))"

lemma compress_inner:
  assumes "list_all2 node_rep nodes sss" and "ends_raw nodes" and "i \<noteq> 0" and "i \<noteq> int (length nodes) - 1"
  shows "\<exists>nodes'. on_node (quicklistCompressNode garb) nodes i = Some nodes' \<and> keeps sss nodes nodes' \<and> ends_raw nodes'"
proof -
  obtain nodes' where n: "on_node (quicklistCompressNode garb) nodes i = Some nodes'" "keeps sss nodes nodes'"
      "\<forall>j < length nodes. int j \<noteq> i \<and> is_raw (nodes ! j) \<longrightarrow> is_raw (nodes' ! j)" using compress_at [OF assms(1), of garb i] by blast
  have l: "length nodes' = length nodes" by (rule keeps_length [OF n(2)])
  have "ends_raw nodes'"
  proof (cases "nodes = []")
    case False
    then have "int (length nodes - 1) = int (length nodes) - 1" by (cases nodes) auto
    then show ?thesis using n(3) assms(2-4) False l by (auto simp: ends_raw_def)
  qed (use l in \<open>simp add: ends_raw_def\<close>)
  then show ?thesis using n by blast
qed

lemma compress_beyond:
  assumes "list_all2 node_rep nodes sss" and "ends_raw nodes" and c: "0 < c" "2 * c \<le> length nodes"
    and node: "in' \<or> node \<noteq> Some 0 \<and> node \<noteq> Some (int (length nodes) - 1)"
  shows "\<exists>n1 n2. (case node of Some i \<Rightarrow> if in' then Some nodes else on_node (quicklistCompressNode garb) nodes i | None \<Rightarrow> Some nodes) = Some n1 \<and>
     (if c + 1 > 2 then do {
        nodes \<leftarrow> on_node (quicklistCompressNode garb) n1 (int c);
        on_node (quicklistCompressNode garb) nodes (int (length nodes) - 1 - int c)
      } else Some n1) = Some n2 \<and> keeps sss nodes n2 \<and> ends_raw n2"
proof -
  obtain n1 where n1: "(case node of Some i \<Rightarrow> if in' then Some nodes else on_node (quicklistCompressNode garb) nodes i | None \<Rightarrow> Some nodes) = Some n1"
      "keeps sss nodes n1" "ends_raw n1"
  proof (cases "node = None \<or> in'")
    case True
    then show ?thesis using that keeps_refl [OF assms(1)] assms(2) by (cases node) auto
  next
    case False
    then obtain i where i: "node = Some i" by auto
    then show ?thesis using that compress_inner [OF assms(1,2), of i garb] node False by auto
  qed
  show ?thesis
  proof (cases "c + 1 > 2")
    case True
    have l1: "length n1 = length nodes" by (rule keeps_length [OF n1(2)])
    then have "int c \<noteq> 0" "int c \<noteq> int (length n1) - 1" using True c by linarith+
    then obtain n2 where n2: "on_node (quicklistCompressNode garb) n1 (int c) = Some n2" "keeps sss n1 n2" "ends_raw n2"
      using compress_inner [OF keeps_rep [OF n1(2)] n1(3)] by blast
    have l2: "length n2 = length nodes" using keeps_length [OF n2(2)] l1 by simp
    then have "int (length n2) - 1 - int c \<noteq> 0" "int (length n2) - 1 - int c \<noteq> int (length n2) - 1" using True c by linarith+
    then obtain n3 where n3: "on_node (quicklistCompressNode garb) n2 (int (length n2) - 1 - int c) = Some n3" "keeps sss n2 n3" "ends_raw n3"
      using compress_inner [OF keeps_rep [OF n2(2)] n2(3)] by blast
    then show ?thesis using True n1(1) n2(1) keeps_trans [OF n1(2) keeps_trans [OF n2(2) n3(2)]] by (intro exI [of _ n1] exI [of _ n3]) simp
  next
    case False
    then show ?thesis using n1 by auto
  qed
qed

lemma compress_depth_ok:
  assumes r: "list_all2 node_rep (ql_nodes ql) sss" and l: "ql_len ql \<le> length (ql_nodes ql) + 1"
  shows "\<exists>nodes'. quicklistCompress_depth garb ql node = Some (ql\<lparr>ql_nodes := nodes'\<rparr>) \<and> keeps sss (ql_nodes ql) nodes' \<and>
    (if ql_compress ql = 0 \<or> ql_len ql < 2 * ql_compress ql then nodes' = ql_nodes ql
     else ends_raw nodes' \<and> (length nodes' < 2 * ql_compress ql \<longrightarrow> list_all is_raw nodes'))"
proof (cases "ql_compress ql = 0 \<or> ql_len ql < 2 * ql_compress ql")
  case True
  then have "quicklistCompress_depth garb ql node = Some (ql\<lparr>ql_nodes := ql_nodes ql\<rparr>)" by (simp add: quicklistCompress_depth_def Let_def mult.commute)
  then show ?thesis using True keeps_refl [OF r] by auto
next
  case False
  define c nodes where "c = ql_compress ql" and "nodes = ql_nodes ql"
  obtain ret in' n1 where n1: "qcompress_loop c 0 nodes node False = Some (ret, in', n1)" "keeps sss nodes n1" "depth_post c 0 node False nodes (ret, in', n1)"
    using qcompress_loop_ok [OF r, of c 0 node False] unfolding nodes_def by blast
  have l1: "length n1 = length nodes" by (rule keeps_length [OF n1(2)])
  have c: "0 < c" "2 * c \<le> length nodes + 1" using False l by (auto simp: c_def nodes_def)
  then have ne: "nodes \<noteq> []" by auto
  have body: "quicklistCompress_depth garb ql node = (if ret then Some (ql\<lparr>ql_nodes := n1\<rparr>) else do {
        n2 \<leftarrow> (case node of Some i \<Rightarrow> if in' then Some n1 else on_node (quicklistCompressNode garb) n1 i | None \<Rightarrow> Some n1);
        n3 \<leftarrow> (if c + 1 > 2 then do {
            nodes \<leftarrow> on_node (quicklistCompressNode garb) n2 (int c);
            on_node (quicklistCompressNode garb) nodes (int (length nodes) - 1 - int c)
          } else Some n2);
        Some (ql\<lparr>ql_nodes := n3\<rparr>) })"
    using False n1(1) unfolding quicklistCompress_depth_def c_def nodes_def Let_def by (simp add: mult.commute)
  have post: "if ret then \<forall>j < length nodes. is_raw (n1 ! j)
     else (\<forall>j < length nodes. j < c \<or> length nodes \<le> j + c \<longrightarrow> is_raw (n1 ! j)) \<and>
       (\<forall>g < c. 2 * g + 1 \<noteq> length nodes \<and> (in' \<or> node \<noteq> Some (int g) \<and> node \<noteq> Some (int (length nodes) - 1 - int g)))"
    using n1(3) unfolding depth_post.simps Let_def by (auto split: if_splits)
  show ?thesis
  proof (cases ret)
    case True
    then have "list_all is_raw n1" using post l1 by (simp add: list_all_length)
    moreover from this have "ends_raw n1" using ne l1 by (auto simp: ends_raw_def list_all_length)
    ultimately show ?thesis using body True False n1(2) unfolding nodes_def by (intro exI [of _ n1]) simp
  next
    case False': False
    then have p: "\<forall>j < length nodes. j < c \<or> length nodes \<le> j + c \<longrightarrow> is_raw (n1 ! j)"
      "\<forall>g < c. 2 * g + 1 \<noteq> length nodes \<and> (in' \<or> node \<noteq> Some (int g) \<and> node \<noteq> Some (int (length nodes) - 1 - int g))"
      using post by simp_all
    have "2 * (c - 1) + 1 \<noteq> length nodes" using p(2) c(1) by auto
    then have n: "2 * c \<le> length n1" using c l1 by linarith
    have e: "ends_raw n1" using p(1) ne c(1) l1 by (auto simp: ends_raw_def)
    have "in' \<or> node \<noteq> Some 0 \<and> node \<noteq> Some (int (length n1) - 1)" using p(2) c(1) l1 by fastforce
    then obtain n2 n3 where s: "(case node of Some i \<Rightarrow> if in' then Some n1 else on_node (quicklistCompressNode garb) n1 i | None \<Rightarrow> Some n1) = Some n2"
     "(if c + 1 > 2 then do {
        nodes \<leftarrow> on_node (quicklistCompressNode garb) n2 (int c);
        on_node (quicklistCompressNode garb) nodes (int (length nodes) - 1 - int c)
      } else Some n2) = Some n3" "keeps sss n1 n3" "ends_raw n3"
      using compress_beyond [OF keeps_rep [OF n1(2)] e c(1) n] by blast
    have "quicklistCompress_depth garb ql node = Some (ql\<lparr>ql_nodes := n3\<rparr>)" unfolding body s(1) bind.bind_lunit s(2) using False' by simp
    moreover have "length n3 = length n1" by (rule keeps_length [OF s(3)])
    ultimately show ?thesis using False n s(4) keeps_trans [OF n1(2) s(3)] unfolding nodes_def c_def by (intro exI [of _ n3]) simp
  qed
qed


section \<open>The list\<close>

definition quicklist_rep :: "quicklist \<Rightarrow> bytes list list \<Rightarrow> bool" where
  "quicklist_rep ql sss \<longleftrightarrow>
     list_all2 node_rep (ql_nodes ql) sss \<and> map q_count (ql_nodes ql) = map length sss \<and> (\<forall>ss \<in> set sss. length ss < 65536) \<and>
     ql_len ql = length (ql_nodes ql) \<and> ql_count ql = length (concat sss) \<and> ends_raw (ql_nodes ql) \<and>
     (ql_compress ql = 0 \<or> ql_len ql < 2 * ql_compress ql \<longrightarrow> list_all is_raw (ql_nodes ql)) \<and> ql_fill ql \<le> 32767"

lemma rep_count:
  assumes "quicklist_rep ql sss" and "i < length sss"
  shows "q_count (ql_nodes ql ! i) = length (sss ! i)"
proof -
  have "map q_count (ql_nodes ql) ! i = map length sss ! i" and "length (ql_nodes ql) = length sss"
    using assms(1) unfolding quicklist_rep_def by (auto dest: list_all2_lengthD)
  then show ?thesis using assms(2) by simp
qed

lemma node_rep_count [simp]:
  "node_rep (nd\<lparr>q_count := x\<rparr>) ss = node_rep nd ss" "is_raw (nd\<lparr>q_count := x\<rparr>) = is_raw nd"
  by (simp_all add: node_rep_def is_raw_def)

lemma q_fits_cons: "q_fits (if at_head then v # ss else ss @ [v]) = q_fits (v # ss)"
  by (simp add: q_fits_def add.commute)

lemma push_node_ok:
  assumes "q_data nd = QRaw zl" and zl: "zl_strings zl ss" and f: "q_fits (v # ss)"
  shows "\<exists>nd'. push_node nd v at_head = Some nd' \<and> node_rep nd' (if at_head then v # ss else ss @ [v]) \<and> is_raw nd' \<and>
    q_count nd' = q_count nd \<and> q_recompress nd' = q_recompress nd"
proof -
  obtain zl' where z: "ziplistPush zl v at_head = Some zl'" "zl_strings zl' (if at_head then v # ss else ss @ [v])"
    using zl_push [OF zl q_fits_zl [OF f]] by blast
  have "ziplistBlobLen zl' = Some (length zl')" by (rule zl_strings_size(2) [OF z(2)])
  then have p: "push_node nd v at_head = Some (nd\<lparr>q_data := QRaw zl', q_sz := length zl'\<rparr>)"
    using assms(1) z(1) by (simp add: push_node_def raw_zl_def quicklistNodeUpdateSz_def)
  have "q_fits (if at_head then v # ss else ss @ [v])" using f unfolding q_fits_cons .
  then show ?thesis unfolding p using z(2) by (auto simp: node_rep_def data_rep_def is_raw_def)
qed

text \<open>A node that admits a value is small, so that the numbers kept in 16 and 32 bits do not wrap.\<close>

lemma allow_insert_small:
  assumes "quicklistNodeAllowInsert nd fill sz" and "q_sz nd \<le> 2147483648" and "sz \<le> 1073741824"
  shows "q_sz nd + sz \<le> 65536"
proof -
  define ov where "ov = (if sz < 254 then 1 else 5) + (if sz < 64 then 1 else if sz < 16384 then 2 else (5 :: nat))"
  have ov: "ov \<le> 10" by (simp add: ov_def)
  then have e: "(q_sz nd + sz + ov) mod 2 ^ 32 = q_sz nd + sz + ov" using assms(2,3) by simp
  have "q_sz nd + sz + ov \<le> 65536"
  proof (cases "quicklistNodeSizeMeetsOptimizationRequirement (q_sz nd + sz + ov) fill")
    case True
    have "optimization_level ! k \<le> 65536" if "k < length optimization_level" for k
      using that by (auto simp: optimization_level_def nth_Cons' split: if_splits)
    then show ?thesis using True unfolding quicklistNodeSizeMeetsOptimizationRequirement_def Let_def by (meson le_trans)
  next
    case False
    then show ?thesis using assms(1) e unfolding quicklistNodeAllowInsert_def Let_def ov_def [symmetric] by (auto split: if_splits)
  qed
  then show ?thesis by simp
qed

lemma allow_insert_fits:
  assumes nd: "node_rep nd ss" and a: "quicklistNodeAllowInsert nd fill (length v)" and v: "length v \<le> 1073741824"
  shows "q_fits (v # ss)" "length ss < 40000"
proof -
  obtain zl where zl: "zl_strings zl ss" "q_sz nd = length zl" using nd by (auto simp: node_rep_def)
  note s = zl_strings_size [OF zl(1)]
  have "q_sz nd \<le> 2147483648" using s(4) zl(2) nd by (simp add: node_rep_def q_fits_def)
  then have "length zl + length v \<le> 65536" using allow_insert_small [OF a _ v] zl(2) by simp
  then show "length ss < 40000" "q_fits (v # ss)" using s(3,5) by (auto simp: q_fits_def)
qed

lemma insert_end_ok:
  assumes r: "list_all2 node_rep (ql_nodes ql) sss" and u: "unflagged (ql_nodes ql)" and len: "ql_len ql = length (ql_nodes ql)"
    and e: "ends_raw (ql_nodes ql)" and c: "ql_compress ql = 0 \<or> ql_len ql < 2 * ql_compress ql \<longrightarrow> list_all is_raw (ql_nodes ql)"
    and new: "node_rep new ss" "is_raw new" "\<not> q_recompress new"
  shows "\<exists>nodes'. quicklistInsertNode garb ql (if ql_nodes ql = [] then None else Some (if after then length (ql_nodes ql) - 1 else 0)) new after =
      Some (ql\<lparr>ql_nodes := nodes', ql_len := ql_len ql + 1\<rparr>) \<and>
    keeps (if after then sss @ [ss] else ss # sss) (if after then ql_nodes ql @ [new] else new # ql_nodes ql) nodes' \<and> unflagged nodes' \<and>
    ends_raw nodes' \<and> (ql_compress ql = 0 \<or> ql_len ql + 1 < 2 * ql_compress ql \<longrightarrow> list_all is_raw nodes')"
proof -
  define full sss' where "full = (if after then ql_nodes ql @ [new] else new # ql_nodes ql)" and "sss' = (if after then sss @ [ss] else ss # sss)"
  have rf: "list_all2 node_rep full sss'" using r new(1) by (auto simp: full_def sss'_def intro: list_all2_appendI)
  have uf: "unflagged full" using u new(3) by (auto simp: full_def unflagged_def)
  have lf: "length full = length (ql_nodes ql) + 1" by (simp add: full_def)
  have ef: "ends_raw full" using e new(2) by (auto simp: ends_raw_def full_def nth_append nth_Cons' hd_conv_nth)
  show ?thesis
  proof (cases "ql_nodes ql = []")
    case True
    then have "full = [new]" "sss' = [ss]" using r by (auto simp: full_def sss'_def)
    moreover have "quicklistInsertNode garb ql None new after = Some (ql\<lparr>ql_nodes := [new], ql_len := ql_len ql + 1\<rparr>)"
      using True by (simp add: quicklistInsertNode_def)
    ultimately show ?thesis using True rf uf ef new(2) keeps_refl [OF rf] unfolding full_def [symmetric] sss'_def [symmetric]
      by (intro exI [of _ "[new]"]) simp
  next
    case False
    define i where "i = (if after then length (ql_nodes ql) - 1 else 1)"
    have "i < length full" using False lf by (cases "ql_nodes ql") (auto simp: i_def)
    then have nf: "\<not> q_recompress (full ! i)" using uf by (auto simp: unflagged_def)
    obtain nodes' where n: "quicklistCompress_depth garb (ql\<lparr>ql_nodes := full\<rparr>) (Some (int i)) = Some (ql\<lparr>ql_nodes := nodes'\<rparr>)" "keeps sss' full nodes'"
        "if ql_compress ql = 0 \<or> ql_len ql < 2 * ql_compress ql then nodes' = full
         else ends_raw nodes' \<and> (length nodes' < 2 * ql_compress ql \<longrightarrow> list_all is_raw nodes')"
      using compress_depth_ok [of "ql\<lparr>ql_nodes := full\<rparr>" sss' garb "Some (int i)"] rf len lf by auto
    have "quicklistInsertNode garb ql (Some (if after then length (ql_nodes ql) - 1 else 0)) new after = Some (ql\<lparr>ql_nodes := nodes', ql_len := ql_len ql + 1\<rparr>)"
      using False n(1) nf by (cases after) (auto simp: quicklistInsertNode_def quicklistCompress_def full_def i_def Let_def)
    moreover have "ends_raw nodes' \<and> (ql_compress ql = 0 \<or> ql_len ql + 1 < 2 * ql_compress ql \<longrightarrow> list_all is_raw nodes')"
      using n(3) ef c new(2) by (auto simp: full_def split: if_splits)
    moreover have "unflagged nodes'" by (rule keeps_unflagged [OF n(2) uf])
    ultimately show ?thesis using False n(2) unfolding full_def [symmetric] sss'_def [symmetric] by auto
  qed
qed


section \<open>Pushing\<close>

lemma quicklistPush_unfold:
  "quicklistPush garb ql v at_head =
     (let k = (if at_head then 0 else length (ql_nodes ql) - 1)
      in if ql_nodes ql \<noteq> [] \<and> quicklistNodeAllowInsert (ql_nodes ql ! k) (ql_fill ql) (length v)
         then do { nd \<leftarrow> push_node (ql_nodes ql ! k) v at_head; Some (count_up (ql\<lparr>ql_nodes := (ql_nodes ql)[k := nd]\<rparr>) k) }
         else do {
           zl \<leftarrow> ziplistNew;
           nd \<leftarrow> push_node (quicklistCreateNode zl) v at_head;
           ql' \<leftarrow> quicklistInsertNode garb ql (if ql_nodes ql = [] then None else Some (if \<not> at_head then length (ql_nodes ql) - 1 else 0)) nd (\<not> at_head);
           Some (count_up ql' (if at_head then 0 else length (ql_nodes ql') - 1))
         })"
  by (cases at_head) (simp_all add: quicklistPush_def quicklistPushHead_def quicklistPushTail_def Let_def map_option_bind o_def if_distrib [of "map_option snd"] cong: if_cong)

lemma update_node:
  assumes "list_all2 node_rep nodes sss" and "node_rep nd ss" and "is_raw nd" and "k < length nodes"
  shows "list_all2 node_rep (nodes[k := nd]) (sss[k := ss])" "ends_raw nodes \<Longrightarrow> ends_raw (nodes[k := nd])"
    "list_all is_raw nodes \<Longrightarrow> list_all is_raw (nodes[k := nd])" "unflagged nodes \<Longrightarrow> \<not> q_recompress nd \<Longrightarrow> unflagged (nodes[k := nd])"
proof -
  show "list_all2 node_rep (nodes[k := nd]) (sss[k := ss])" using assms(1,2) by (rule list_all2_update_cong)
  have raw: "is_raw (nodes ! j) \<Longrightarrow> is_raw (nodes[k := nd] ! j)" for j using assms(3,4) by (cases "j = k") auto
  show "ends_raw nodes \<Longrightarrow> ends_raw (nodes[k := nd])" "list_all is_raw nodes \<Longrightarrow> list_all is_raw (nodes[k := nd])"
    using raw by (auto simp: ends_raw_def list_all_length)
  show "unflagged nodes \<Longrightarrow> \<not> q_recompress nd \<Longrightarrow> unflagged (nodes[k := nd])"
    using assms(4) unfolding unflagged_def all_set_conv_all_nth by (auto simp: nth_list_update)
qed

lemma concat_head: "sss \<noteq> [] \<Longrightarrow> concat (sss[0 := v # sss ! 0]) = v # concat sss"
  by (cases sss) auto

lemma concat_last: "sss \<noteq> [] \<Longrightarrow> concat (sss[length sss - 1 := sss ! (length sss - 1) @ [v]]) = concat sss @ [v]"
  by (cases sss rule: rev_cases) auto

text \<open>Counting an entry changes the numbers only.\<close>

lemma count_up_rep:
  assumes r: "list_all2 node_rep (ql_nodes ql) sss" and i: "i < length (ql_nodes ql)"
    and n: "map q_count (ql_nodes ql) = (map length sss)[i := length (sss ! i) - 1]" "sss ! i \<noteq> []"
    and sss: "\<forall>ss \<in> set sss. length ss < 65536" "ql_count ql + 1 = length (concat sss)"
    and len: "ql_len ql = length (ql_nodes ql)" "ends_raw (ql_nodes ql)"
      "ql_compress ql = 0 \<or> ql_len ql < 2 * ql_compress ql \<longrightarrow> list_all is_raw (ql_nodes ql)" "ql_fill ql \<le> 32767"
    and u: "unflagged (ql_nodes ql)"
  shows "quicklist_rep (count_up ql i) sss \<and> unflagged (ql_nodes (count_up ql i))"
proof -
  define nodes where "nodes = ql_nodes ql"
  define nd where "nd = (nodes ! i)\<lparr>q_count := (q_count (nodes ! i) + 1) mod 65536\<rparr>"
  have l: "length sss = length nodes" using r by (auto simp: nodes_def dest: list_all2_lengthD)
  have q: "q_count (nodes ! i) = length (sss ! i) - 1" using arg_cong [OF n(1), of "\<lambda>xs. xs ! i"] i l by (simp add: nodes_def)
  have "length (sss ! i) < 65536" using sss(1) i l by (simp add: nodes_def)
  then have qn: "q_count nd = length (sss ! i)" using q n(2) by (cases "sss ! i") (auto simp: nd_def)
  have eq: "count_up ql i = ql\<lparr>ql_count := ql_count ql + 1, ql_nodes := nodes[i := nd]\<rparr>" by (simp add: count_up_def nodes_def nd_def Let_def)
  have rep: "list_all2 node_rep (nodes[i := nd]) sss"
    using r i l unfolding nodes_def [symmetric] by (auto simp: list_all2_conv_all_nth nth_list_update nd_def nodes_def)
  have cnt: "map q_count (nodes[i := nd]) = map length sss"
    unfolding map_update qn n(1) [folded nodes_def] using i l by (simp add: nodes_def map_update [symmetric])
  have raw: "is_raw (nodes[i := nd] ! j) = is_raw (nodes ! j)" "q_recompress (nodes[i := nd] ! j) = q_recompress (nodes ! j)" for j
    using i by (cases "j = i"; simp add: nd_def nodes_def)+
  have "ends_raw (nodes[i := nd])" using len(2) raw(1) by (simp add: ends_raw_def nodes_def)
  moreover have "list_all is_raw (nodes[i := nd]) = list_all is_raw nodes" using raw(1) by (simp add: list_all_length)
  moreover have "unflagged (nodes[i := nd])" using u raw(2) unfolding unflagged_def all_set_conv_all_nth by (simp add: nodes_def)
  ultimately show ?thesis using rep cnt sss len unfolding eq quicklist_rep_def by (simp add: nodes_def)
qed

lemma push_rep:
  assumes "quicklist_rep ql sss" and u: "unflagged (ql_nodes ql)" and v: "length v \<le> 1073741824"
  shows "\<exists>ql' sss'. quicklistPush garb ql v at_head = Some ql' \<and> quicklist_rep ql' sss' \<and> unflagged (ql_nodes ql') \<and>
    concat sss' = (if at_head then v # concat sss else concat sss @ [v])"
proof -
  define k where "k = (if at_head then 0 else length (ql_nodes ql) - 1)"
  note q = assms(1) [unfolded quicklist_rep_def]
  have r: "list_all2 node_rep (ql_nodes ql) sss" using q by blast
  have l: "length sss = length (ql_nodes ql)" using list_all2_lengthD [OF r] by simp
  show ?thesis
  proof (cases "ql_nodes ql \<noteq> [] \<and> quicklistNodeAllowInsert (ql_nodes ql ! k) (ql_fill ql) (length v)")
    case True
    then have k: "k < length (ql_nodes ql)" by (cases "ql_nodes ql") (auto simp: k_def)
    define ss where "ss = (if at_head then v # sss ! k else sss ! k @ [v])"
    have nd: "node_rep (ql_nodes ql ! k) (sss ! k)" "is_raw (ql_nodes ql ! k)" using r k q True by (auto simp: list_all2_conv_all_nth ends_raw_def k_def)
    note f = allow_insert_fits [OF nd(1) conjunct2 [OF True] v]
    obtain zl where zl: "q_data (ql_nodes ql ! k) = QRaw zl" "zl_strings zl (sss ! k)" using raw_node [OF nd] by blast
    obtain nd' where nd': "push_node (ql_nodes ql ! k) v at_head = Some nd'" "node_rep nd' ss" "is_raw nd'" "q_count nd' = q_count (ql_nodes ql ! k)"
        "q_recompress nd' = q_recompress (ql_nodes ql ! k)" using push_node_ok [OF zl f(1), of at_head] unfolding ss_def by blast
    have ne: "sss \<noteq> []" using l True by auto
    have c: "concat (sss[k := ss]) = (if at_head then v # concat sss else concat sss @ [v])"
      using concat_head [OF ne, of v] concat_last [OF ne, of v] unfolding k_def ss_def l [symmetric] by simp
    note upd = update_node [OF r nd'(2,3) k]
    have "\<not> q_recompress nd'" using u k nd'(5) by (simp add: unflagged_def)
    note u' = upd(4) [OF u this]
    have all: "ql_compress ql = 0 \<or> ql_len ql < 2 * ql_compress ql \<longrightarrow> list_all is_raw ((ql_nodes ql)[k := nd'])" using upd(3) q by blast
    have cnt: "map q_count ((ql_nodes ql)[k := nd']) = (map length (sss[k := ss]))[k := length (sss[k := ss] ! k) - 1]"
      using q k l nd'(4) rep_count [OF assms(1), of k] by (simp add: map_update ss_def)
    have "sss[k := ss] ! k \<noteq> []" "ql_count ql + 1 = length (concat (sss[k := ss]))" using k l q unfolding c by (simp_all add: ss_def)
    moreover have "\<forall>ss \<in> set (sss[k := ss]). length ss < 65536" using q f(2) set_update_subset_insert [of sss k ss] by (auto simp: ss_def split: if_splits)
    ultimately have "quicklist_rep (count_up (ql\<lparr>ql_nodes := (ql_nodes ql)[k := nd']\<rparr>) k) (sss[k := ss]) \<and>
        unflagged (ql_nodes (count_up (ql\<lparr>ql_nodes := (ql_nodes ql)[k := nd']\<rparr>) k))"
      using count_up_rep [of "ql\<lparr>ql_nodes := (ql_nodes ql)[k := nd']\<rparr>" "sss[k := ss]" k] upd(1,2) u' all cnt k q by simp
    then show ?thesis using True nd'(1) c unfolding quicklistPush_unfold k_def [symmetric] Let_def by auto
  next
    case False
    define sss' where "sss' = (if \<not> at_head then sss @ [[v]] else [v] # sss)"
    obtain zl where zl: "ziplistNew = Some zl" "zl_strings zl []" using zl.empty_rep by blast
    have "q_fits [v]" using v by (simp add: q_fits_def)
    then obtain nd where nd: "push_node (quicklistCreateNode zl) v at_head = Some nd" "node_rep nd [v]" "is_raw nd" "q_count nd = 0" "\<not> q_recompress nd"
      using push_node_ok [of "quicklistCreateNode zl" zl "[]" v at_head] zl(2) by (auto simp: quicklistCreateNode_def split: if_splits)
    obtain nodes' where n: "quicklistInsertNode garb ql (if ql_nodes ql = [] then None else Some (if \<not> at_head then length (ql_nodes ql) - 1 else 0)) nd (\<not> at_head) =
          Some (ql\<lparr>ql_nodes := nodes', ql_len := ql_len ql + 1\<rparr>)"
        "keeps sss' (if \<not> at_head then ql_nodes ql @ [nd] else nd # ql_nodes ql) nodes'" "unflagged nodes'"
        "ends_raw nodes'" "ql_compress ql = 0 \<or> ql_len ql + 1 < 2 * ql_compress ql \<longrightarrow> list_all is_raw nodes'"
      using insert_end_ok [OF r u _ _ _ nd(2,3,5), of garb "\<not> at_head"] q unfolding sss'_def by blast
    have l': "length nodes' = length (ql_nodes ql) + 1" using keeps_length [OF n(2)] by simp
    define i where "i = (if at_head then 0 else length nodes' - 1)"
    have "map q_count nodes' = (if at_head then 0 # map length sss else map length sss @ [0])" using keeps_count [OF n(2)] q nd(4) by auto
    then have cnt: "map q_count nodes' = (map length sss')[i := length (sss' ! i) - 1]" using l l' by (auto simp: i_def sss'_def nth_append list_update_append)
    have "sss' ! i \<noteq> []" "ql_count ql + 1 = length (concat sss')" "\<forall>ss \<in> set sss'. length ss < 65536"
      using l l' q by (auto simp: i_def sss'_def nth_append)
    then have "quicklist_rep (count_up (ql\<lparr>ql_nodes := nodes', ql_len := ql_len ql + 1\<rparr>) i) sss' \<and>
        unflagged (ql_nodes (count_up (ql\<lparr>ql_nodes := nodes', ql_len := ql_len ql + 1\<rparr>) i))"
      using count_up_rep [of "ql\<lparr>ql_nodes := nodes', ql_len := ql_len ql + 1\<rparr>" sss' i] keeps_rep [OF n(2)] cnt n(3-5) l' q by (simp add: i_def)
    moreover have "concat sss' = (if at_head then v # concat sss else concat sss @ [v])" by (simp add: sss'_def)
    moreover have "quicklistPush garb ql v at_head = Some (count_up (ql\<lparr>ql_nodes := nodes', ql_len := ql_len ql + 1\<rparr>) i)"
      unfolding quicklistPush_unfold k_def [symmetric] Let_def zl(1) bind.bind_lunit nd(1) n(1) using False by (auto simp: i_def)
    ultimately show ?thesis by blast
  qed
qed


section \<open>Deleting\<close>

lemma del_node_ok:
  assumes r: "list_all2 node_rep (take i nodes @ drop (i + 1) nodes) sss" and i: "i < length nodes" and len: "ql_len ql = length nodes"
    and c: "ql_compress ql = 0 \<or> ql_len ql < 2 * ql_compress ql \<longrightarrow> list_all is_raw (take i nodes @ drop (i + 1) nodes)"
    and nodes: "ql_nodes ql = nodes"
  shows "\<exists>nodes'. quicklistDelNode garb ql i = Some (ql\<lparr>ql_nodes := nodes', ql_count := ql_count ql - q_count (nodes ! i), ql_len := ql_len ql - 1\<rparr>) \<and>
    keeps sss (take i nodes @ drop (i + 1) nodes) nodes' \<and> ends_raw nodes' \<and>
    (ql_compress ql = 0 \<or> ql_len ql - 1 < 2 * ql_compress ql \<longrightarrow> list_all is_raw nodes')"
proof -
  define rest where "rest = take i nodes @ drop (i + 1) nodes"
  have l: "length rest + 1 = length nodes" using i by (simp add: rest_def)
  obtain nodes' where n: "quicklistCompress_depth garb (ql\<lparr>ql_nodes := rest\<rparr>) None = Some (ql\<lparr>ql_nodes := nodes'\<rparr>)" "keeps sss rest nodes'"
      "if ql_compress ql = 0 \<or> ql_len ql < 2 * ql_compress ql then nodes' = rest
       else ends_raw nodes' \<and> (length nodes' < 2 * ql_compress ql \<longrightarrow> list_all is_raw nodes')"
    using compress_depth_ok [of "ql\<lparr>ql_nodes := rest\<rparr>" sss garb None] r l len unfolding rest_def [symmetric] by auto
  have l': "length nodes' = ql_len ql - 1" using keeps_length [OF n(2)] l len by simp
  have e: "list_all is_raw nodes' \<Longrightarrow> ends_raw nodes'" by (auto simp: ends_raw_def list_all_length)
  have "quicklistDelNode garb ql i = Some (ql\<lparr>ql_nodes := nodes', ql_count := ql_count ql - q_count (nodes ! i), ql_len := ql_len ql - 1\<rparr>)"
    using n(1) nodes by (simp add: quicklistDelNode_def rest_def)
  moreover have "ends_raw nodes' \<and> (ql_compress ql = 0 \<or> ql_len ql - 1 < 2 * ql_compress ql \<longrightarrow> list_all is_raw nodes')"
    using n(3) c e l' unfolding rest_def by (auto split: if_splits)
  ultimately show ?thesis using n(2) unfolding rest_def by blast
qed

lemma concat_without: "i < length sss \<Longrightarrow> concat (sss[i := []]) = concat (take i sss @ drop (i + 1) sss)"
  by (simp add: upd_conv_take_nth_drop)

lemma replace_node_rep:
  assumes rep: "quicklist_rep ql sss" and i: "i < length sss"
    and nd: "node_rep nd ss" "is_raw nd" "q_count nd = length ss" "length ss < 65536" and n: "n = length (concat (sss[i := ss]))"
  shows "quicklist_rep (ql\<lparr>ql_nodes := (ql_nodes ql)[i := nd], ql_count := n\<rparr>) (sss[i := ss])"
proof -
  note q = rep [unfolded quicklist_rep_def]
  have r: "list_all2 node_rep (ql_nodes ql) sss" using q by blast
  have "i < length (ql_nodes ql)" using i list_all2_lengthD [OF r] by simp
  note upd = update_node [OF r nd(1,2) this]
  have "map q_count ((ql_nodes ql)[i := nd]) = map length (sss[i := ss])" using q nd(3) by (simp add: map_update)
  moreover have "\<forall>ss \<in> set (sss[i := ss]). length ss < 65536" using q nd(4) set_update_subset_insert [of sss i ss] by auto
  ultimately show ?thesis using upd(1-3) q n unfolding quicklist_rep_def by simp
qed

lemma drop_node_rep:
  assumes rep: "quicklist_rep ql sss" and i: "i < length sss"
  shows "\<exists>nodes'. quicklistDelNode garb (ql\<lparr>ql_nodes := (ql_nodes ql)[i := nd], ql_count := n\<rparr>) i =
      Some (ql\<lparr>ql_nodes := nodes', ql_count := n - q_count nd, ql_len := ql_len ql - 1\<rparr>) \<and>
    keeps (take i sss @ drop (i + 1) sss) (take i (ql_nodes ql) @ drop (i + 1) (ql_nodes ql)) nodes' \<and>
    (n' = length (concat (take i sss @ drop (i + 1) sss)) \<longrightarrow>
      quicklist_rep (ql\<lparr>ql_nodes := nodes', ql_count := n', ql_len := ql_len ql - 1\<rparr>) (take i sss @ drop (i + 1) sss))"
proof -
  note q = rep [unfolded quicklist_rep_def]
  define nodes rest where "nodes = ql_nodes ql" and "rest = take i (ql_nodes ql) @ drop (i + 1) (ql_nodes ql)"
  have r: "list_all2 node_rep nodes sss" using q by (simp add: nodes_def)
  have l: "length nodes = length sss" by (rule list_all2_lengthD [OF r])
  have rest: "take i (nodes[i := nd]) @ drop (i + 1) (nodes[i := nd]) = rest" by (simp add: rest_def nodes_def)
  have rr: "list_all2 node_rep rest (take i sss @ drop (i + 1) sss)"
    unfolding rest_def nodes_def [symmetric] using r by (intro list_all2_appendI list_all2_takeI list_all2_dropI)
  have ra: "list_all is_raw nodes \<Longrightarrow> list_all is_raw rest" unfolding rest_def nodes_def list_all_iff by (auto dest: in_set_takeD in_set_dropD)
  obtain nodes' where n: "quicklistDelNode garb (ql\<lparr>ql_nodes := nodes[i := nd], ql_count := n\<rparr>) i = Some (ql\<lparr>ql_nodes := nodes', ql_count := n - q_count nd, ql_len := ql_len ql - 1\<rparr>)"
      "keeps (take i sss @ drop (i + 1) sss) rest nodes'" "ends_raw nodes'" "ql_compress ql = 0 \<or> ql_len ql - 1 < 2 * ql_compress ql \<longrightarrow> list_all is_raw nodes'"
    using del_node_ok [of i "nodes[i := nd]" "take i sss @ drop (i + 1) sss" "ql\<lparr>ql_nodes := nodes[i := nd], ql_count := n\<rparr>" garb] rr ra i l q
    unfolding rest by (auto simp: nodes_def)
  have "map q_count rest = map length (take i sss @ drop (i + 1) sss)"
    using q by (simp add: rest_def take_map [symmetric] drop_map [symmetric])
  then have "map q_count nodes' = map length (take i sss @ drop (i + 1) sss)" using keeps_count [OF n(2)] by simp
  moreover have "length nodes' = ql_len ql - 1" using keeps_length [OF n(2)] i l q by (simp add: rest_def nodes_def)
  moreover have "\<forall>ss \<in> set (take i sss @ drop (i + 1) sss). length ss < 65536" using q by (auto dest: in_set_takeD in_set_dropD)
  ultimately have "n' = length (concat (take i sss @ drop (i + 1) sss)) \<longrightarrow>
      quicklist_rep (ql\<lparr>ql_nodes := nodes', ql_count := n', ql_len := ql_len ql - 1\<rparr>) (take i sss @ drop (i + 1) sss)"
    using keeps_rep [OF n(2)] n(3,4) q unfolding quicklist_rep_def by simp
  then show ?thesis using n(1,2) unfolding rest_def nodes_def by blast
qed

lemma length_concat_update:
  assumes "i < length sss"
  shows "length (concat (sss[i := ss])) + length (sss ! i) = length (concat sss) + length ss"
  using arg_cong [OF id_take_nth_drop [OF assms], of "\<lambda>sss. length (concat sss)"] assms by (simp add: upd_conv_take_nth_drop)

lemma q_fits_delete: "q_fits ss \<Longrightarrow> j < length ss \<Longrightarrow> q_fits (take j ss @ drop (j + 1) ss)"
proof -
  assume "q_fits ss" "j < length ss"
  moreover have "sum_list (map f ss) = sum_list (map f (take j ss @ drop (j + 1) ss)) + f (ss ! j)" if "j < length ss" for f :: "bytes \<Rightarrow> nat"
    using arg_cong [OF id_take_nth_drop [OF that], of "\<lambda>ss. sum_list (map f ss)"] by simp
  ultimately show ?thesis by (simp add: q_fits_def)
qed

lemma del_index_ok:
  assumes rep: "quicklist_rep ql sss" and i: "i < length sss"
    and es: "q_data (ql_nodes ql ! i) = QRaw zl" "zl_rep zl es" "head_short es" "map snd es = sss ! i" and j: "j < length es"
  shows "\<exists>gone ql' sss'. quicklistDelIndex garb ql i (offs (take j es)) = Some (gone, ql') \<and> quicklist_rep ql' sss' \<and>
    (unflagged (ql_nodes ql) \<longrightarrow> unflagged (ql_nodes ql')) \<and> concat sss' = concat (sss[i := take j (sss ! i) @ drop (j + 1) (sss ! i)])"
proof -
  note q = rep [unfolded quicklist_rep_def]
  define nodes nd ss where "nodes = ql_nodes ql" and "nd = ql_nodes ql ! i" and "ss = take j (sss ! i) @ drop (j + 1) (sss ! i)"
  have r: "list_all2 node_rep nodes sss" using q by (simp add: nodes_def)
  have l: "length nodes = length sss" by (rule list_all2_lengthD [OF r])
  have j': "j < length (sss ! i)" using j es(4) by (metis length_map)
  have ls: "length ss = length (sss ! i) - 1" using j' by (simp add: ss_def)
  have nd: "node_rep nd (sss ! i)" using list_all2_nthD2 [OF r i] by (simp add: nd_def nodes_def)
  have cnt: "q_count nd = length (sss ! i)" using rep_count [OF rep i] by (simp add: nd_def)
  have "length (sss ! i) < 65536" using q i by simp
  then have cnt': "(q_count nd + 65535) mod 65536 = length ss" using cnt ls j' by (cases "length (sss ! i)") auto
  have fit: "q_fits (sss ! i)" using nd by (simp add: node_rep_def)
  obtain zl' where z: "ziplistDelete_at zl (offs (take j es)) 1 = Some zl'" "zl_strings zl' ss"
    using zl_delete [OF es(2,3) j, of 1] q_fits_zl [OF fit] es(4) unfolding ss_def by auto
  define nd' where "nd' = nd\<lparr>q_data := QRaw zl', q_count := length ss\<rparr>"
  have del: "quicklistDelIndex garb ql i (offs (take j es)) =
     (do { (gone, ql') \<leftarrow>
        (if ss = [] then map_option (Pair True) (quicklistDelNode garb (ql\<lparr>ql_nodes := nodes[i := nd']\<rparr>) i)
         else do { nd \<leftarrow> quicklistNodeUpdateSz nd'; Some (False, ql\<lparr>ql_nodes := nodes[i := nd]\<rparr>) });
       Some (gone, ql'\<lparr>ql_count := ql_count ql' - 1\<rparr>) })"
    using es(1) z(1) cnt' unfolding quicklistDelIndex_def Let_def raw_zl_def nd_def [symmetric] unfolding nodes_def [symmetric]
    by (simp add: ziplistDelete_def nd'_def)
  have total: "length (concat (sss[i := ss])) = ql_count ql - 1" using length_concat_update [OF i, of ss] ls j' q by simp
  show ?thesis
  proof (cases "ss = []")
    case True
    define ss' where "ss' = take i sss @ drop (i + 1) sss"
    have c: "concat ss' = concat (sss[i := ss])" using concat_without [OF i] True by (simp add: ss'_def)
    obtain nodes' where n: "quicklistDelNode garb (ql\<lparr>ql_nodes := nodes[i := nd']\<rparr>) i = Some (ql\<lparr>ql_nodes := nodes', ql_count := ql_count ql, ql_len := ql_len ql - 1\<rparr>)"
        "keeps ss' (take i nodes @ drop (i + 1) nodes) nodes'" "quicklist_rep (ql\<lparr>ql_nodes := nodes', ql_count := ql_count ql - 1, ql_len := ql_len ql - 1\<rparr>) ss'"
      using drop_node_rep [OF rep i, where garb = garb and nd = nd' and n = "ql_count ql" and n' = "ql_count ql - 1"] total True unfolding nodes_def [symmetric] ss'_def [symmetric] c
      by (auto simp: nd'_def)
    have "unflagged nodes \<longrightarrow> unflagged nodes'"
      using keeps_unflagged [OF n(2)] by (auto simp: unflagged_def dest: in_set_takeD in_set_dropD)
    moreover have "quicklistDelIndex garb ql i (offs (take j es)) = Some (True, ql\<lparr>ql_nodes := nodes', ql_count := ql_count ql - 1, ql_len := ql_len ql - 1\<rparr>)"
      unfolding del using True n(1) by simp
    ultimately show ?thesis using c n(3) unfolding ss_def nodes_def by auto
  next
    case False
    define nd2 where "nd2 = nd'\<lparr>q_sz := length zl'\<rparr>"
    have nd2: "node_rep nd2 ss" "is_raw nd2" "q_count nd2 = length ss" "q_recompress nd2 = q_recompress (nodes ! i)" "i < length nodes"
      using z(2) False q_fits_delete [OF fit j'] i l by (auto simp: nd2_def nd'_def node_rep_def data_rep_def is_raw_def ss_def nd_def nodes_def)
    have "quicklistNodeUpdateSz nd' = Some nd2"
      using zl_strings_size(2) [OF z(2)] by (simp add: quicklistNodeUpdateSz_def nd'_def nd2_def raw_zl_def)
    then have "quicklistDelIndex garb ql i (offs (take j es)) = Some (False, ql\<lparr>ql_nodes := nodes[i := nd2], ql_count := ql_count ql - 1\<rparr>)"
      unfolding del using False by simp
    moreover have "quicklist_rep (ql\<lparr>ql_nodes := nodes[i := nd2], ql_count := ql_count ql - 1\<rparr>) (sss[i := ss])"
      using replace_node_rep [OF rep i nd2(1-3)] total ls \<open>length (sss ! i) < 65536\<close> by (simp add: nodes_def)
    moreover have "unflagged nodes \<longrightarrow> unflagged (nodes[i := nd2])" using update_node(4) [OF r nd2(1,2,5)] nd2(4,5) by (auto simp: unflagged_def)
    ultimately show ?thesis unfolding ss_def nodes_def by auto
  qed
qed

section \<open>Popping\<close>

text \<open>The text of an entry that is returned as a string or as a number.\<close>

definition qtext :: "qvalue \<Rightarrow> bytes" where
  "qtext v = (case v of QStr s \<Rightarrow> s | QLong n \<Rightarrow> dec_int n)"

lemma q_value_ok:
  assumes "zl_rep zl es" and "j < length es"
  shows "\<exists>v. q_value zl (Some (offs (take j es))) = Some (Some v) \<and> qtext v = snd (es ! j)"
proof -
  have "zl_rep zl (take j es @ es ! j # drop (Suc j) es)" using assms by (simp add: id_take_nth_drop [symmetric])
  from ziplistGet_ok [OF this] show ?thesis by (auto simp: q_value_def qtext_def split: option.splits)
qed

lemma concat_ends:
  assumes "sss \<noteq> []" and "\<forall>ss \<in> set sss. ss \<noteq> []"
  shows "hd (concat sss) = sss ! 0 ! 0" "concat (sss[0 := take 0 (sss ! 0) @ drop (0 + 1) (sss ! 0)]) = tl (concat sss)"
    "last (concat sss) = sss ! (length sss - 1) ! (length (sss ! (length sss - 1)) - 1)"
    "concat (sss[length sss - 1 := take (length (sss ! (length sss - 1)) - 1) (sss ! (length sss - 1)) @
       drop (length (sss ! (length sss - 1)) - 1 + 1) (sss ! (length sss - 1))]) = butlast (concat sss)"
proof -
  obtain a as sss1 where "sss = (a # as) # sss1" using assms by (cases sss; cases "hd sss") auto
  then show "hd (concat sss) = sss ! 0 ! 0" "concat (sss[0 := take 0 (sss ! 0) @ drop (0 + 1) (sss ! 0)]) = tl (concat sss)" by simp_all
  obtain sss2 b bs where "sss = sss2 @ [bs @ [b]]" using assms by (cases sss rule: rev_cases; cases "last sss" rule: rev_cases) auto
  then show "last (concat sss) = sss ! (length sss - 1) ! (length (sss ! (length sss - 1)) - 1)"
    "concat (sss[length sss - 1 := take (length (sss ! (length sss - 1)) - 1) (sss ! (length sss - 1)) @
       drop (length (sss ! (length sss - 1)) - 1 + 1) (sss ! (length sss - 1))]) = butlast (concat sss)"
    by (simp_all add: butlast_append)
qed

lemma rep_strings:
  assumes "quicklist_rep ql sss"
  shows "length sss = length (ql_nodes ql)" "\<forall>ss \<in> set sss. ss \<noteq> []" "concat sss = [] \<longleftrightarrow> ql_nodes ql = []"
proof -
  have r: "list_all2 node_rep (ql_nodes ql) sss" using assms by (simp add: quicklist_rep_def)
  show l: "length sss = length (ql_nodes ql)" using list_all2_lengthD [OF r] by simp
  show ne: "\<forall>ss \<in> set sss. ss \<noteq> []" using r by (auto simp: list_all2_conv_all_nth node_rep_def in_set_conv_nth)
  show "concat sss = [] \<longleftrightarrow> ql_nodes ql = []" using l ne by (cases sss) auto
qed

lemma pop_rep:
  assumes rep: "quicklist_rep ql sss"
  shows "if concat sss = [] then quicklistPop garb ql at_head = Some (None, ql)
    else \<exists>v ql' sss'. quicklistPop garb ql at_head = Some (Some v, ql') \<and> quicklist_rep ql' sss' \<and>
      (unflagged (ql_nodes ql) \<longrightarrow> unflagged (ql_nodes ql')) \<and>
      qtext v = (if at_head then hd (concat sss) else last (concat sss)) \<and> concat sss' = (if at_head then tl (concat sss) else butlast (concat sss))"
proof (cases "concat sss = []")
  case True
  then show ?thesis using rep_strings(3) [OF rep] by (simp add: quicklistPop_def)
next
  case False
  note q = rep [unfolded quicklist_rep_def] and l = rep_strings [OF rep]
  define i where "i = (if at_head then 0 else length (ql_nodes ql) - 1)"
  have ne: "ql_nodes ql \<noteq> []" "sss \<noteq> []" using False l by auto
  then have i: "i < length sss" using l(1) by (cases sss) (auto simp: i_def)
  have nd: "node_rep (ql_nodes ql ! i) (sss ! i)" "is_raw (ql_nodes ql ! i)" using q i l(1) ne by (auto simp: list_all2_conv_all_nth ends_raw_def i_def)
  obtain zl where zl: "q_data (ql_nodes ql ! i) = QRaw zl" "zl_strings zl (sss ! i)" using raw_node [OF nd] by blast
  obtain es where es: "zl_rep zl es" "head_short es" "map snd es = sss ! i" using zl(2) unfolding zl_strings_def by blast
  define j where "j = (if at_head then 0 else length es - 1)"
  have le: "length es = length (sss ! i)" using es(3) by (metis length_map)
  have "sss ! i \<noteq> []" using l(2) i by simp
  then have j: "j < length es" using le by (cases "sss ! i") (auto simp: j_def)
  have "ziplistIndex zl (if at_head then 0 else - 1) = Some (Some (offs (take j es)))"
    using ziplistIndex_ok [OF es(1), of "if at_head then 0 else - 1"] j by (auto simp: j_def)
  moreover obtain v where v: "q_value zl (Some (offs (take j es))) = Some (Some v)" "qtext v = snd (es ! j)" using q_value_ok [OF es(1) j] by blast
  moreover obtain gone ql' sss' where d: "quicklistDelIndex garb ql i (offs (take j es)) = Some (gone, ql')" "quicklist_rep ql' sss'"
      "unflagged (ql_nodes ql) \<longrightarrow> unflagged (ql_nodes ql')" "concat sss' = concat (sss[i := take j (sss ! i) @ drop (j + 1) (sss ! i)])"
    using del_index_ok [OF rep i zl(1) es j] by blast
  moreover have "ql_count ql \<noteq> 0" using q False by (auto simp del: concat_eq_Nil_conv)
  ultimately have "quicklistPop garb ql at_head = Some (Some v, ql')"
    using zl(1) ne(1) unfolding quicklistPop_def Let_def i_def [symmetric] raw_zl_def by simp
  moreover have "qtext v = sss ! i ! j" using v(2) es(3) j by (metis nth_map)
  moreover note concat_ends [OF ne(2) l(2)]
  ultimately show ?thesis using False d(2-4) le unfolding i_def j_def l(1) [symmetric] by (cases at_head) auto
qed


section \<open>Finding\<close>

lemma use_node:
  assumes "node_rep nd ss"
  shows "\<exists>nd' zl. quicklistDecompressNodeForUse nd = Some nd' \<and> node_rep nd' ss \<and> q_data nd' = QRaw zl \<and> zl_strings zl ss \<and> q_count nd' = q_count nd"
proof (cases "q_data nd")
  case (QRaw zl)
  then show ?thesis using assms by (auto simp: quicklistDecompressNodeForUse_def node_rep_def data_rep_def)
next
  case (QLzf out)
  obtain nd' where nd': "quicklistDecompressNode nd = Some nd'" "node_rep nd' ss" "is_raw nd'" "q_count nd' = q_count nd" using decompress_node [OF assms] by blast
  have "node_rep (nd'\<lparr>q_recompress := True\<rparr>) ss" using nd'(2) by (simp add: node_rep_def)
  then show ?thesis using nd' QLzf raw_node [OF nd'(2,3)] by (auto simp: quicklistDecompressNodeForUse_def)
qed

lemma index_node_ok:
  "map q_count nodes = map length sss \<Longrightarrow> accum \<le> index \<Longrightarrow> index < accum + length (concat sss) \<Longrightarrow>
   \<exists>i a. index_node nodes accum index = Some (i, a) \<and> i < length sss \<and> a \<le> index \<and> index - a < length (sss ! i) \<and>
     a = accum + length (concat (take i sss)) \<and> concat sss ! (index - accum) = sss ! i ! (index - a)"
proof (induction nodes arbitrary: sss accum)
  case (Cons nd nodes)
  then obtain ss sss' where sss: "sss = ss # sss'" "q_count nd = length ss" "map q_count nodes = map length sss'" by (cases sss) auto
  show ?case
  proof (cases "accum + length ss > index")
    case True
    then show ?thesis using Cons.prems(2) sss by (intro exI [of _ 0] exI [of _ accum]) (auto simp: nth_append)
  next
    case False
    obtain i a where "index_node nodes (accum + length ss) index = Some (i, a)" "i < length sss'" "a \<le> index" "index - a < length (sss' ! i)"
        "a = accum + length ss + length (concat (take i sss'))" "concat sss' ! (index - (accum + length ss)) = sss' ! i ! (index - a)"
      using Cons.IH [OF sss(3), of "accum + length ss"] False Cons.prems sss(1) by auto
    then show ?thesis using False Cons.prems(2) sss by (intro exI [of _ "i + 1"] exI [of _ a]) (auto simp: nth_append diff_diff_left)
  qed
qed simp

text \<open>From the end: the nodes in reverse order, and in each the entries in reverse order.\<close>

lemma index_node_back:
  assumes "map q_count nodes = map length sss" and "index < length (concat sss)"
  shows "\<exists>k a. index_node (rev nodes) 0 index = Some (k, a) \<and> k < length sss \<and> a \<le> index \<and> a = length (concat (drop (length sss - k) sss)) \<and>
     index - a < length (sss ! (length sss - 1 - k)) \<and>
     concat sss ! (length (concat sss) - 1 - index) = sss ! (length sss - 1 - k) ! (length (sss ! (length sss - 1 - k)) - 1 - (index - a))"
proof -
  define rss where "rss = map rev (rev sss)"
  have rc: "concat rss = rev (concat sss)" by (simp add: rss_def rev_concat rev_map)
  have "map q_count (rev nodes) = map length rss" using assms(1) by (simp add: rss_def rev_map [symmetric] o_def)
  then obtain k a where k: "index_node (rev nodes) 0 index = Some (k, a)" "k < length rss" "a \<le> index" "index - a < length (rss ! k)"
      "a = length (concat (take k rss))" "concat rss ! index = rss ! k ! (index - a)" using index_node_ok [of "rev nodes" rss 0 index] assms(2) rc by auto
  have r: "rss ! k = rev (sss ! (length sss - 1 - k))" using k(2) by (simp add: rss_def rev_nth)
  have "concat (take k rss) = rev (concat (drop (length sss - k) sss))" by (simp add: rss_def take_map take_rev rev_concat rev_map)
  then have a: "a = length (concat (drop (length sss - k) sss))" using k(5) by simp
  show ?thesis using k(1-4,6) a assms(2) unfolding r rc by (intro exI [of _ k] exI [of _ a]) (simp add: rev_nth rss_def)
qed


lemma use_node_rep:
  assumes rep: "quicklist_rep ql sss" and i: "i < length sss"
  shows "\<exists>nd zl. quicklistDecompressNodeForUse (ql_nodes ql ! i) = Some nd \<and> q_data nd = QRaw zl \<and> zl_strings zl (sss ! i) \<and>
    quicklist_rep (ql\<lparr>ql_nodes := (ql_nodes ql)[i := nd]\<rparr>) sss"
proof -
  note q = rep [unfolded quicklist_rep_def] and l = rep_strings [OF rep]
  have r: "list_all2 node_rep (ql_nodes ql) sss" using q by blast
  have "node_rep (ql_nodes ql ! i) (sss ! i)" by (rule list_all2_nthD2 [OF r i])
  then obtain nd zl where nd: "quicklistDecompressNodeForUse (ql_nodes ql ! i) = Some nd" "node_rep nd (sss ! i)" "q_data nd = QRaw zl"
      "zl_strings zl (sss ! i)" "q_count nd = q_count (ql_nodes ql ! i)" using use_node by blast
  have raw: "is_raw (ql_nodes ql ! k) \<Longrightarrow> is_raw ((ql_nodes ql)[i := nd] ! k)" for k
    using nd(3) i l(1) by (cases "k = i") (auto simp: is_raw_def)
  have "list_all2 node_rep ((ql_nodes ql)[i := nd]) (sss[i := sss ! i])" using r nd(2) by (rule list_all2_update_cong)
  moreover have "map q_count ((ql_nodes ql)[i := nd]) = map q_count (ql_nodes ql)" using nd(5) i l(1) by (simp add: map_update list_update_same_conv)
  moreover have "ends_raw ((ql_nodes ql)[i := nd])" using q raw by (auto simp: ends_raw_def)
  ultimately have "quicklist_rep (ql\<lparr>ql_nodes := (ql_nodes ql)[i := nd]\<rparr>) sss" using q raw unfolding quicklist_rep_def by (simp add: list_all_length)
  then show ?thesis using nd(1,3,4) by blast
qed

lemma index_at:
  assumes rep: "quicklist_rep ql sss" and i: "i < length sss"
    and off: "- int (length (sss ! i)) \<le> off" "off < int (length (sss ! i))"
  shows "\<exists>nd zl zi v. quicklistDecompressNodeForUse (ql_nodes ql ! i) = Some nd \<and> raw_zl nd = Some zl \<and> ziplistIndex zl off = Some (Some zi) \<and>
     q_value zl (Some zi) = Some (Some v) \<and> qtext v = sss ! i ! nat (if 0 \<le> off then off else int (length (sss ! i)) + off) \<and>
     quicklist_rep (ql\<lparr>ql_nodes := (ql_nodes ql)[i := nd]\<rparr>) sss"
proof -
  obtain nd zl where nd: "quicklistDecompressNodeForUse (ql_nodes ql ! i) = Some nd" "q_data nd = QRaw zl" "zl_strings zl (sss ! i)"
      "quicklist_rep (ql\<lparr>ql_nodes := (ql_nodes ql)[i := nd]\<rparr>) sss" using use_node_rep [OF rep i] by blast
  obtain es where es: "zl_rep zl es" "map snd es = sss ! i" using nd(3) unfolding zl_strings_def by blast
  have le: "length es = length (sss ! i)" using es(2) by (metis length_map)
  define j where "j = nat (if 0 \<le> off then off else int (length (sss ! i)) + off)"
  have j: "j < length es" using off le by (auto simp: j_def)
  have "length (sss ! i) < 65536" using rep i by (simp add: quicklist_rep_def)
  then have "ziplistIndex zl off = Some (Some (offs (take j es)))"
    using ziplistIndex_ok [OF es(1), of off] off le by (auto simp: j_def nat_add_distrib intro!: arg_cong [of _ _ "\<lambda>n. offs (take n es)"])
  moreover obtain v where "q_value zl (Some (offs (take j es))) = Some (Some v)" "qtext v = snd (es ! j)" using q_value_ok [OF es(1) j] by blast
  moreover from this(2) have "qtext v = sss ! i ! j" using es(2) j by (metis nth_map)
  ultimately show ?thesis using nd(1,2,4) unfolding j_def raw_zl_def by auto
qed

text \<open>The node and the offset an index stands for.\<close>

definition index_place :: "bytes list list \<Rightarrow> int \<Rightarrow> nat \<Rightarrow> int \<Rightarrow> bool" where
  "index_place sss idx i off \<longleftrightarrow> i < length sss \<and> - int (length (sss ! i)) \<le> off \<and> off < int (length (sss ! i)) \<and> (0 \<le> off \<longleftrightarrow> 0 \<le> idx) \<and>
     (if 0 \<le> idx then idx = int (length (concat (take i sss))) + off
      else int (length (concat sss)) + idx = int (length (concat (take i sss))) + int (length (sss ! i)) + off)"

lemma quicklistIndex_ok:
  assumes rep: "quicklist_rep ql sss"
  shows "if - int (length (concat sss)) \<le> idx \<and> idx < int (length (concat sss))
    then \<exists>i off zi v nd. quicklistIndex ql idx = Some (Some (i, off, Some zi, Some v), ql\<lparr>ql_nodes := (ql_nodes ql)[i := nd]\<rparr>) \<and>
      quicklistDecompressNodeForUse (ql_nodes ql ! i) = Some nd \<and> index_place sss idx i off \<and>
      qtext v = concat sss ! nat (if 0 \<le> idx then idx else int (length (concat sss)) + idx) \<and> quicklist_rep (ql\<lparr>ql_nodes := (ql_nodes ql)[i := nd]\<rparr>) sss
    else quicklistIndex ql idx = Some (None, ql)"
proof (cases "- int (length (concat sss)) \<le> idx \<and> idx < int (length (concat sss))")
  case True
  note q = rep [unfolded quicklist_rep_def] and l = rep_strings [OF rep]
  define n where "n = length (concat sss)"
  have cnt: "map q_count (ql_nodes ql) = map length sss" "ql_count ql = n" using q by (simp_all only: n_def)
  show ?thesis
  proof (cases "0 \<le> idx")
    case fw: True
    then have "nat idx < n" using True by (simp add: n_def)
    then obtain i a where i: "index_node (ql_nodes ql) 0 (nat idx) = Some (i, a)" "i < length sss" "a \<le> nat idx" "nat idx - a < length (sss ! i)"
        "a = length (concat (take i sss))" "concat sss ! nat idx = sss ! i ! (nat idx - a)" using index_node_ok [OF cnt(1), of 0 "nat idx"] unfolding n_def by auto
    define off where "off = int (nat idx) - int a"
    have off: "- int (length (sss ! i)) \<le> off" "off < int (length (sss ! i))" "nat off = nat idx - a" "0 \<le> off" using i(3,4) by (auto simp: off_def)
    obtain nd zl zi v where "quicklistDecompressNodeForUse (ql_nodes ql ! i) = Some nd" "raw_zl nd = Some zl" "ziplistIndex zl off = Some (Some zi)"
        "q_value zl (Some zi) = Some (Some v)" "qtext v = sss ! i ! nat off" "quicklist_rep (ql\<lparr>ql_nodes := (ql_nodes ql)[i := nd]\<rparr>) sss"
      using index_at [OF rep i(2) off(1,2)] off(4) by auto
    moreover have "index_place sss idx i off" using fw i(2,3,5) off by (auto simp: index_place_def off_def)
    ultimately show ?thesis using True fw i(1,6) off(3) \<open>nat idx < n\<close> cnt(2) by (auto simp: quicklistIndex_def Let_def off_def)
  next
    case bw: False
    define index where "index = nat (- idx) - 1"
    have ix: "index < n" "nat (int n + idx) = n - 1 - index" using True bw by (auto simp: index_def n_def)
    obtain k a where k: "index_node (rev (ql_nodes ql)) 0 index = Some (k, a)" "k < length sss" "a \<le> index" "index - a < length (sss ! (length sss - 1 - k))"
        "a = length (concat (drop (length sss - k) sss))" "concat sss ! (n - 1 - index) = sss ! (length sss - 1 - k) ! (length (sss ! (length sss - 1 - k)) - 1 - (index - a))"
      using index_node_back [OF cnt(1), of index] ix(1) unfolding n_def by auto
    define i where "i = length sss - 1 - k"
    define off where "off = - int index - 1 + int a"
    have i: "i < length sss" using k(2) by (simp add: i_def)
    have off: "- int (length (sss ! i)) \<le> off" "off < int (length (sss ! i))" "\<not> 0 \<le> off"
      "nat (int (length (sss ! i)) + off) = length (sss ! i) - 1 - (index - a)" using k(3,4) by (auto simp: off_def i_def)
    have u: "quicklistIndex ql idx = do {
        nd \<leftarrow> quicklistDecompressNodeForUse (ql_nodes ql ! i);
        zl \<leftarrow> raw_zl nd;
        zi \<leftarrow> ziplistIndex zl off;
        v \<leftarrow> q_value zl zi;
        Some (Some (i, off, zi, v), ql\<lparr>ql_nodes := (ql_nodes ql)[i := nd]\<rparr>) }"
      using bw ix(1) k(1) cnt(2) l(1) unfolding off_def i_def index_def by (simp add: quicklistIndex_def Let_def)
    obtain nd zl zi v where "quicklistDecompressNodeForUse (ql_nodes ql ! i) = Some nd" "raw_zl nd = Some zl" "ziplistIndex zl off = Some (Some zi)"
        "q_value zl (Some zi) = Some (Some v)" "qtext v = sss ! i ! nat (int (length (sss ! i)) + off)" "quicklist_rep (ql\<lparr>ql_nodes := (ql_nodes ql)[i := nd]\<rparr>) sss"
      using index_at [OF rep i off(1,2)] off(3) by auto
    then have "quicklistIndex ql idx = Some (Some (i, off, Some zi, Some v), ql\<lparr>ql_nodes := (ql_nodes ql)[i := nd]\<rparr>) \<and>
        quicklistDecompressNodeForUse (ql_nodes ql ! i) = Some nd \<and>
        qtext v = concat sss ! nat (int n + idx) \<and> quicklist_rep (ql\<lparr>ql_nodes := (ql_nodes ql)[i := nd]\<rparr>) sss"
      using k(6) ix(2) unfolding u off(4) by (simp add: i_def)
    moreover have "index_place sss idx i off"
    proof -
      have "length sss - k = Suc i" using k(2) by (simp add: i_def)
      then have "n = length (concat (take i sss)) + length (sss ! i) + a"
        using arg_cong [OF id_take_nth_drop [OF i], of "\<lambda>sss. length (concat sss)"] k(5) by (simp add: n_def)
      moreover have "int index = - idx - 1" using bw by (simp add: index_def)
      ultimately show ?thesis using bw i off(1-3) by (simp add: index_place_def off_def n_def)
    qed
    ultimately show ?thesis using True bw unfolding n_def by auto
  qed
next
  case False
  then have "\<not> (if 0 \<le> idx then nat idx else nat (- idx) - 1) < ql_count ql" using rep unfolding quicklist_rep_def by (auto split: if_splits)
  then show ?thesis using False by (auto simp: quicklistIndex_def Let_def)
qed


section \<open>Duplication\<close>

lemma dup_node_raw:
  assumes "node_rep nd ss"
  shows "dup_node nd = (if is_raw nd then Some (nd\<lparr>q_recompress := False\<rparr>) else None)"
proof -
  obtain zl where zl: "zl_strings zl ss" "data_rep (q_data nd) zl" "q_sz nd = length zl" using assms by (auto simp: node_rep_def)
  obtain bs where bs: "zl = map Some bs" using zl_strings_size(1) [OF zl(1)] by blast
  show ?thesis
  proof (cases "q_data nd")
    case (QRaw m)
    then have "mem_read m 0 (q_sz nd) = Some bs" using mem_read_at [of "[]" 0 bs "q_sz nd" "[]"] zl bs by (simp add: data_rep_def)
    then show ?thesis using QRaw zl bs by (simp add: dup_node_def is_raw_def data_rep_def)
  next
    case (QLzf out)
    then have "length out + 4 < q_sz nd" using zl by (simp add: data_rep_def)
    then show ?thesis using QLzf by (simp add: dup_node_def is_raw_def mem_read_def)
  qed
qed

lemma dup_loop_stop: "\<exists>nd \<in> set nodes. dup_node nd = None \<Longrightarrow> dup_loop garb nodes copy = None"
proof (induction nodes arbitrary: copy)
  case (Cons nd nodes)
  then show ?case by (cases "dup_node nd") (auto simp: Let_def split: Option.bind_splits)
qed simp

lemma append_node_rep:
  assumes rep: "quicklist_rep ql sss" and u: "unflagged (ql_nodes ql)" and nd: "node_rep nd ss" "is_raw nd" "\<not> q_recompress nd" "q_count nd = length ss" "length ss < 65536"
  shows "\<exists>ql'. quicklistInsertNode garb (ql\<lparr>ql_count := ql_count ql + q_count nd\<rparr>) (if ql_nodes ql = [] then None else Some (length (ql_nodes ql) - 1)) nd True = Some ql' \<and>
    quicklist_rep ql' (sss @ [ss]) \<and> unflagged (ql_nodes ql')"
proof -
  note q = rep [unfolded quicklist_rep_def]
  define ql1 where "ql1 = ql\<lparr>ql_count := ql_count ql + q_count nd\<rparr>"
  have e: "ql_nodes ql1 = ql_nodes ql" "ql_len ql1 = ql_len ql" "ql_compress ql1 = ql_compress ql" by (simp_all add: ql1_def)
  obtain nodes' where n: "quicklistInsertNode garb ql1 (if ql_nodes ql = [] then None else Some (length (ql_nodes ql) - 1)) nd True =
        Some (ql1\<lparr>ql_nodes := nodes', ql_len := ql_len ql + 1\<rparr>)"
      "keeps (sss @ [ss]) (ql_nodes ql @ [nd]) nodes'" "unflagged nodes'"
      "ends_raw nodes'" "ql_compress ql = 0 \<or> ql_len ql + 1 < 2 * ql_compress ql \<longrightarrow> list_all is_raw nodes'"
    using insert_end_ok [of ql1 sss nd ss garb True, unfolded e if_True] q u nd(1-3) by blast
  have "length nodes' = length (ql_nodes ql) + 1" using keeps_length [OF n(2)] by simp
  moreover have "map q_count nodes' = map length (sss @ [ss])" using keeps_count [OF n(2)] q nd(4) by simp
  ultimately have "quicklist_rep (ql1\<lparr>ql_nodes := nodes', ql_len := ql_len ql + 1\<rparr>) (sss @ [ss])"
    using keeps_rep [OF n(2)] n(4,5) q nd(4,5) unfolding quicklist_rep_def by (auto simp: ql1_def)
  then show ?thesis using n(1,3) unfolding ql1_def [symmetric] by auto
qed

lemma dup_loop_ok:
  "list_all2 node_rep nodes sss \<Longrightarrow> map q_count nodes = map length sss \<Longrightarrow> \<forall>ss \<in> set sss. length ss < 65536 \<Longrightarrow> list_all is_raw nodes \<Longrightarrow>
   quicklist_rep copy tss \<Longrightarrow> unflagged (ql_nodes copy) \<Longrightarrow>
   \<exists>copy'. dup_loop garb nodes copy = Some copy' \<and> quicklist_rep copy' (tss @ sss) \<and> unflagged (ql_nodes copy')"
proof (induction nodes arbitrary: sss tss copy)
  case (Cons nd nodes)
  then obtain ss sss' where sss: "sss = ss # sss'" "node_rep nd ss" "list_all2 node_rep nodes sss'" by (auto simp: list_all2_Cons1)
  have nd: "node_rep (nd\<lparr>q_recompress := False\<rparr>) ss" "is_raw (nd\<lparr>q_recompress := False\<rparr>)" "q_count (nd\<lparr>q_recompress := False\<rparr>) = length ss"
    using sss(2) Cons.prems(2,4) unfolding sss(1) by (auto simp: node_rep_def is_raw_def)
  obtain copy1 where c: "quicklistInsertNode garb (copy\<lparr>ql_count := ql_count copy + q_count nd\<rparr>) (if ql_nodes copy = [] then None else Some (length (ql_nodes copy) - 1))
        (nd\<lparr>q_recompress := False\<rparr>) True = Some copy1" "quicklist_rep copy1 (tss @ [ss])" "unflagged (ql_nodes copy1)"
    using append_node_rep [OF Cons.prems(5,6) nd(1,2) _ nd(3), of garb] Cons.prems(3) sss(1) by auto
  have "dup_loop garb (nd # nodes) copy = dup_loop garb nodes copy1"
    using dup_node_raw [OF sss(2)] c(1) Cons.prems(4) by (simp add: Let_def del: One_nat_def split del: if_split cong: if_cong)
  then show ?case using Cons.IH [OF sss(3) _ _ _ c(2,3)] Cons.prems(2-4) sss(1) by simp
qed simp

lemma quicklistNew_rep: "quicklist_rep (quicklistNew fill compress) []" "ql_nodes (quicklistNew fill compress) = []"
proof -
  have "(f + 32768) mod 65536 - 32768 \<le> (32767 :: int)" for f using pos_mod_bound [of 65536 "f + 32768"] by linarith
  then show "quicklist_rep (quicklistNew fill compress) []" "ql_nodes (quicklistNew fill compress) = []"
    by (simp_all add: quicklistNew_def quicklistSetOptions_def quicklistSetFill_def quicklistSetCompressDepth_def quicklistCreate_def
        quicklist_rep_def ends_raw_def Let_def)
qed

lemma quicklistDup_ok:
  assumes "quicklist_rep ql sss"
  shows "if list_all is_raw (ql_nodes ql) then \<exists>copy. quicklistDup garb ql = Some copy \<and> quicklist_rep copy sss
    else quicklistDup garb ql = None"
proof (cases "list_all is_raw (ql_nodes ql)")
  case True
  then show ?thesis
    using dup_loop_ok [OF _ _ _ True quicklistNew_rep(1), of sss "ql_fill ql" "int (ql_compress ql)" garb] assms
    by (auto simp: quicklist_rep_def quicklistDup_def quicklistNew_rep(2) unflagged_def)
next
  case False
  then obtain i where i: "i < length (ql_nodes ql)" "\<not> is_raw (ql_nodes ql ! i)" by (auto simp: list_all_length)
  then have "node_rep (ql_nodes ql ! i) (sss ! i)" using assms by (auto simp: quicklist_rep_def list_all2_conv_all_nth)
  then have "dup_node (ql_nodes ql ! i) = None" using dup_node_raw i(2) by simp
  then have "quicklistDup garb ql = None" unfolding quicklistDup_def using i(1) by (intro dup_loop_stop) auto
  then show ?thesis using False by simp
qed


section \<open>The interface\<close>

text \<open>Operations of a list with two ends, each with what the environment contributes to it, and their effect on a list.\<close>

datatype deque_op = PushOp bytes bool | PopOp bool

fun deque_spec :: "bytes list \<Rightarrow> deque_op list \<Rightarrow> bytes option list \<times> bytes list" where
  "deque_spec ss [] = ([], ss)"
| "deque_spec ss (PushOp v at_head # ops) = deque_spec (if at_head then v # ss else ss @ [v]) ops"
| "deque_spec ss (PopOp at_head # ops) =
     (case deque_spec (if at_head then tl ss else butlast ss) ops of
        (rs, ss') \<Rightarrow> ((if ss = [] then None else Some (if at_head then hd ss else last ss)) # rs, ss'))"

fun deque_run :: "('e \<Rightarrow> 'q \<Rightarrow> bytes \<Rightarrow> bool \<Rightarrow> 'q option) \<Rightarrow> ('e \<Rightarrow> 'q \<Rightarrow> bool \<Rightarrow> ('v option \<times> 'q) option) \<Rightarrow> ('v \<Rightarrow> bytes) \<Rightarrow>
    'q \<Rightarrow> ('e \<times> deque_op) list \<Rightarrow> (bytes option list \<times> 'q) option" where
  "deque_run push pop vtext q [] = Some ([], q)"
| "deque_run push pop vtext q ((e, PushOp v at_head) # ops) = do { q \<leftarrow> push e q v at_head; deque_run push pop vtext q ops }"
| "deque_run push pop vtext q ((e, PopOp at_head) # ops) = do {
     (r, q) \<leftarrow> pop e q at_head;
     (rs, q) \<leftarrow> deque_run push pop vtext q ops;
     Some (map_option vtext r # rs, q)
   }"

fun small_op :: "deque_op \<Rightarrow> bool" where
  "small_op (PushOp v at_head) \<longleftrightarrow> length v \<le> 1073741824"
| "small_op (PopOp at_head) \<longleftrightarrow> True"

locale deque =
  fixes rep :: "'q \<Rightarrow> bytes list \<Rightarrow> bool" and push :: "'e \<Rightarrow> 'q \<Rightarrow> bytes \<Rightarrow> bool \<Rightarrow> 'q option"
    and pop :: "'e \<Rightarrow> 'q \<Rightarrow> bool \<Rightarrow> ('v option \<times> 'q) option" and vtext :: "'v \<Rightarrow> bytes"
  assumes push_law: "rep q ss \<Longrightarrow> length v \<le> 1073741824 \<Longrightarrow> \<exists>q'. push e q v at_head = Some q' \<and> rep q' (if at_head then v # ss else ss @ [v])"
    and pop_none: "rep q [] \<Longrightarrow> pop e q at_head = Some (None, q)"
    and pop_law: "rep q ss \<Longrightarrow> ss \<noteq> [] \<Longrightarrow> \<exists>v q'. pop e q at_head = Some (Some v, q') \<and>
       vtext v = (if at_head then hd ss else last ss) \<and> rep q' (if at_head then tl ss else butlast ss)"
begin

lemma run_refines:
  "rep q ss \<Longrightarrow> list_all small_op (map snd ops) \<Longrightarrow>
   \<exists>q'. deque_run push pop vtext q ops = Some (fst (deque_spec ss (map snd ops)), q') \<and> rep q' (snd (deque_spec ss (map snd ops)))"
proof (induction ops arbitrary: q ss)
  case (Cons x ops)
  obtain e op where x: "x = (e, op)" by fastforce
  show ?case
  proof (cases op)
    case (PushOp v at_head)
    then obtain q' where q': "push e q v at_head = Some q'" "rep q' (if at_head then v # ss else ss @ [v])"
      using push_law [OF Cons.prems(1), of v e at_head] Cons.prems(2) x by auto
    then show ?thesis using Cons.IH [OF q'(2)] Cons.prems(2) x PushOp by (simp split del: if_split)
  next
    case (PopOp at_head)
    obtain r q' where q': "pop e q at_head = Some (r, q')" "map_option vtext r = (if ss = [] then None else Some (if at_head then hd ss else last ss))"
        "rep q' (if at_head then tl ss else butlast ss)"
    proof (cases "ss = []")
      case True
      then show ?thesis using that [of None q] pop_none Cons.prems(1) by simp
    next
      case False
      then show ?thesis using that pop_law [OF Cons.prems(1) False, of e at_head] by fastforce
    qed
    then show ?thesis using Cons.IH [OF q'(3)] Cons.prems(2) x PopOp by (auto simp: case_prod_beta split del: if_split)
  qed
qed simp

end

definition quicklist_strings :: "quicklist \<Rightarrow> bytes list \<Rightarrow> bool" where
  "quicklist_strings ql ss \<longleftrightarrow> (\<exists>sss. quicklist_rep ql sss \<and> unflagged (ql_nodes ql) \<and> concat sss = ss)"

interpretation ql: deque quicklist_strings quicklistPush quicklistPop qtext
proof
  show "\<exists>q'. quicklistPush e q v at_head = Some q' \<and> quicklist_strings q' (if at_head then v # ss else ss @ [v])"
    if "quicklist_strings q ss" "length v \<le> 1073741824" for q ss v e at_head
    using that push_rep [of q _ v e at_head] unfolding quicklist_strings_def by metis
  show "quicklistPop e q at_head = Some (None, q)" if "quicklist_strings q []" for q e at_head
    using that pop_rep [of q _ e at_head] unfolding quicklist_strings_def by metis
  show "\<exists>v q'. quicklistPop e q at_head = Some (Some v, q') \<and> qtext v = (if at_head then hd ss else last ss) \<and>
      quicklist_strings q' (if at_head then tl ss else butlast ss)"
    if "quicklist_strings q ss" "ss \<noteq> []" for q ss e at_head
    using that pop_rep [of q _ e at_head] unfolding quicklist_strings_def by metis
qed

lemma quicklistNew_strings: "quicklist_strings (quicklistNew fill compress) []"
  using quicklistNew_rep unfolding quicklist_strings_def unflagged_def by fastforce

section \<open>Properties\<close>

text \<open>C7. The list of ziplists is a list of strings with two ends: any pushes and pops on a new list, with any fill factor and
  compression depth, return what they return on a plain list, no access leaves the allocation, whatever the
  compressor finds in its table, and afterwards the list holds the same strings, has counted them, and neither its first nor its last node is compressed.\<close>

theorem quicklist_deque:
  assumes "list_all small_op (map snd ops)"
  shows "\<exists>ql. deque_run quicklistPush quicklistPop qtext (quicklistNew fill compress) ops = Some (fst (deque_spec [] (map snd ops)), ql) \<and>
    quicklist_strings ql (snd (deque_spec [] (map snd ops))) \<and> ql_count ql = length (snd (deque_spec [] (map snd ops))) \<and> ends_raw (ql_nodes ql)"
proof -
  obtain ql where q: "deque_run quicklistPush quicklistPop qtext (quicklistNew fill compress) ops = Some (fst (deque_spec [] (map snd ops)), ql)"
      "quicklist_strings ql (snd (deque_spec [] (map snd ops)))" using ql.run_refines [OF quicklistNew_strings assms] by blast
  moreover from q(2) have "ql_count ql = length (snd (deque_spec [] (map snd ops))) \<and> ends_raw (ql_nodes ql)"
    unfolding quicklist_strings_def quicklist_rep_def by metis
  ultimately show ?thesis by blast
qed

theorem quicklist_deque_witness:
  "\<exists>ql. deque_run quicklistPush quicklistPop qtext (quicklistNew 1 1)
      [(\<lambda>i. 0, PushOp [97] True), (\<lambda>i. 0, PushOp [98] False), (\<lambda>i. 0, PushOp [99] True), (\<lambda>i. 0, PopOp False), (\<lambda>i. 0, PopOp True)] =
      Some ([Some [98], Some [99]], ql) \<and> quicklist_strings ql [[97]]"
  using quicklist_deque [of "[(\<lambda>i. 0, PushOp [97] True), (\<lambda>i. 0, PushOp [98] False), (\<lambda>i. 0, PushOp [99] True), (\<lambda>i. 0, PopOp False), (\<lambda>i. 0, PopOp True)]" 1 1]
  by (auto simp: case_prod_beta)

text \<open>C38. An index from either end finds the entry at that place, in a compressed node too, and leaves the strings as they
  are; an index outside finds nothing.\<close>

theorem quicklistIndex_correct:
  assumes "quicklist_rep ql sss"
  shows "if - int (length (concat sss)) \<le> idx \<and> idx < int (length (concat sss))
    then \<exists>i off zi v ql'. quicklistIndex ql idx = Some (Some (i, off, Some zi, Some v), ql') \<and>
      qtext v = concat sss ! nat (if 0 \<le> idx then idx else int (length (concat sss)) + idx) \<and> quicklist_rep ql' sss
    else quicklistIndex ql idx = Some (None, ql)"
  using quicklistIndex_ok [OF assms, of idx] by (auto split: if_splits)

lemma ql_example:
  obtains ql sss where "quicklist_rep ql sss" and "concat sss = [[97], [98]]" and "unflagged (ql_nodes ql)"
proof -
  obtain q1 where q1: "quicklist_strings q1 [[98]]" using ql.push_law [OF quicklistNew_strings [of 1 0], of "[98]" "\<lambda>i. 0" True] by auto
  obtain q2 where "quicklist_strings q2 [[97], [98]]" using ql.push_law [OF q1, of "[97]" "\<lambda>i. 0" True] by auto
  then show ?thesis using that unfolding quicklist_strings_def by blast
qed

theorem quicklistIndex_correct_witness:
  "\<exists>ql i off zi v ql'. quicklistIndex ql (- 1) = Some (Some (i, off, Some zi, Some v), ql') \<and> qtext v = [98]"
proof -
  obtain ql sss where q: "quicklist_rep ql sss" "concat sss = [[97], [98]]" by (rule ql_example)
  have "\<exists>i off zi v ql'. quicklistIndex ql (- 1) = Some (Some (i, off, Some zi, Some v), ql') \<and> qtext v = [98]"
    using quicklistIndex_correct [OF q(1), of "- 1"] unfolding q(2) by auto
  then show ?thesis by blast
qed

text \<open>C39. Duplicating works exactly when no node is compressed: the test that should recognise a compressed node looks at the new
  node, and copies as many bytes as the ziplist has from the shorter compressed form.\<close>

theorem quicklistDup_raw_only:
  assumes "quicklist_rep ql sss"
  shows "if list_all is_raw (ql_nodes ql) then \<exists>copy. quicklistDup garb ql = Some copy \<and> quicklist_rep copy sss
    else quicklistDup garb ql = None"
  using assms by (rule quicklistDup_ok)

theorem quicklistDup_raw_only_witness:
  "\<exists>ql sss. quicklist_rep ql sss \<and> concat sss = [[97], [98]] \<and>
     (if list_all is_raw (ql_nodes ql) then \<exists>copy. quicklistDup (\<lambda>i. 0) ql = Some copy \<and> quicklist_rep copy sss else quicklistDup (\<lambda>i. 0) ql = None)"
proof -
  obtain ql sss where q: "quicklist_rep ql sss" "concat sss = [[97], [98]]" by (rule ql_example)
  show ?thesis using quicklistDup_raw_only [OF q(1), of "\<lambda>i. 0"] q by blast
qed

end
