(* ===== verification/QuicklistOps.thy ===== *)
theory QuicklistOps
  imports QuicklistSpec
begin

text \<open>
  The rest of \<open>quicklist.c\<close>: loading ziplists, iterators, ranges, splitting and merging of nodes and insertion
  at an entry. A node that is deleted moves the positions behind it. The contents of the compressor's table are the same for
  the compressions of one call.
\<close>

section \<open>Loading ziplists\<close>

definition quicklistCount :: "quicklist \<Rightarrow> nat" where
  "quicklistCount ql = u32 (ql_count ql)"

abbreviation ql_tail :: "quicklist \<Rightarrow> nat option" where
  "ql_tail ql \<equiv> (if ql_nodes ql = [] then None else Some (length (ql_nodes ql) - 1))"

definition quicklistAppendZiplist :: "(nat \<Rightarrow> nat) \<Rightarrow> quicklist \<Rightarrow> cmemory \<Rightarrow> quicklist option" where
  "quicklistAppendZiplist garb ql zl = do {
     (n, zl) \<leftarrow> ziplistLen zl;
     sz \<leftarrow> ziplistBlobLen zl;
     let nd = (quicklistCreateNode zl)\<lparr>q_sz := sz, q_count := n mod 65536\<rparr>;
     ql \<leftarrow> quicklistInsertNode garb ql (ql_tail ql) nd True;
     Some (ql\<lparr>ql_count := ql_count ql + q_count nd\<rparr>)
   }"

text \<open>The value as text: the bytes, or the number written to a buffer on the stack.\<close>

definition qvalue_text :: "qvalue \<Rightarrow> bytes option" where
  "qvalue_text v =
     (case v of
        QStr s \<Rightarrow> Some s
      | QLong n \<Rightarrow> do { (buf, len) \<leftarrow> ll2string (replicate 32 (Some 0)) 32 n; mem_read buf 0 len })"

partial_function (option) append_values :: "(nat \<Rightarrow> nat) \<Rightarrow> quicklist \<Rightarrow> cmemory \<Rightarrow> nat option \<Rightarrow> quicklist option" where
  "append_values garb ql zl p = do {
     v \<leftarrow> q_value zl p;
     (case (v, p) of
        (Some v, Some q) \<Rightarrow> do {
          s \<leftarrow> qvalue_text v;
          (b, ql) \<leftarrow> quicklistPushTail garb ql s;
          p \<leftarrow> ziplistNext zl q;
          append_values garb ql zl p
        }
      | _ \<Rightarrow> Some ql)
   }"

definition quicklistAppendValuesFromZiplist :: "(nat \<Rightarrow> nat) \<Rightarrow> quicklist \<Rightarrow> cmemory \<Rightarrow> quicklist option" where
  "quicklistAppendValuesFromZiplist garb ql zl = do { p \<leftarrow> ziplistIndex zl 0; append_values garb ql zl p }"

definition quicklistCreateFromZiplist :: "(nat \<Rightarrow> nat) \<Rightarrow> int \<Rightarrow> int \<Rightarrow> cmemory \<Rightarrow> quicklist option" where
  "quicklistCreateFromZiplist garb fill compress zl = quicklistAppendValuesFromZiplist garb (quicklistNew fill compress) zl"

section \<open>Iterators\<close>

record quicklistIter =
  it_current :: "nat option"
  it_zi :: "nat option"
  it_offset :: int
  it_head :: bool

definition quicklistGetIterator :: "quicklist \<Rightarrow> bool \<Rightarrow> quicklistIter" where
  "quicklistGetIterator ql from_head =
     (if from_head then \<lparr>it_current = (if ql_nodes ql = [] then None else Some 0), it_zi = None, it_offset = 0, it_head = True\<rparr>
      else \<lparr>it_current = ql_tail ql, it_zi = None, it_offset = -1, it_head = False\<rparr>)"

definition quicklistGetIteratorAtIdx :: "quicklist \<Rightarrow> bool \<Rightarrow> int \<Rightarrow> (quicklistIter option \<times> quicklist) option" where
  "quicklistGetIteratorAtIdx ql from_head idx = do {
     (e, ql) \<leftarrow> quicklistIndex ql idx;
     case e of
       None \<Rightarrow> Some (None, ql)
     | Some (i, offset, zi, v) \<Rightarrow> Some (Some ((quicklistGetIterator ql from_head)\<lparr>it_current := Some i, it_offset := offset\<rparr>), ql)
   }"

definition quicklistReleaseIterator :: "(nat \<Rightarrow> nat) \<Rightarrow> quicklist \<Rightarrow> quicklistIter \<Rightarrow> quicklist option" where
  "quicklistReleaseIterator garb ql iter = (case it_current iter of Some i \<Rightarrow> quicklistCompress garb ql i | None \<Rightarrow> Some ql)"

text \<open>The position in the ziplist of the current node for the next entry.\<close>

definition iter_step :: "quicklist \<Rightarrow> quicklistIter \<Rightarrow> nat \<Rightarrow> (quicklist \<times> quicklistIter) option" where
  "iter_step ql iter i =
     (case it_zi iter of
        None \<Rightarrow> do {
          nd \<leftarrow> quicklistDecompressNodeForUse (ql_nodes ql ! i);
          zl \<leftarrow> raw_zl nd;
          zi \<leftarrow> ziplistIndex zl (it_offset iter);
          Some (ql\<lparr>ql_nodes := (ql_nodes ql)[i := nd]\<rparr>, iter\<lparr>it_zi := zi\<rparr>)
        }
      | Some p \<Rightarrow> do {
          zl \<leftarrow> raw_zl (ql_nodes ql ! i);
          zi \<leftarrow> (if it_head iter then ziplistNext zl p else ziplistPrev zl p);
          Some (ql, iter\<lparr>it_zi := zi, it_offset := it_offset iter + (if it_head iter then 1 else -1)\<rparr>)
        })"

text \<open>The next entry: node, offset, position and value.\<close>

partial_function (option) quicklistNext :: "(nat \<Rightarrow> nat) \<Rightarrow> quicklist \<Rightarrow> quicklistIter \<Rightarrow>
    ((nat \<times> int \<times> nat \<times> qvalue option) option \<times> quicklist \<times> quicklistIter) option" where
  "quicklistNext garb ql iter =
     (case it_current iter of
        None \<Rightarrow> Some (None, ql, iter)
      | Some i \<Rightarrow> do {
          (ql, iter) \<leftarrow> iter_step ql iter i;
          (case it_zi iter of
             Some zi \<Rightarrow> do {
               zl \<leftarrow> raw_zl (ql_nodes ql ! i);
               v \<leftarrow> q_value zl (Some zi);
               Some (Some (i, it_offset iter, zi, v), ql, iter)
             }
           | None \<Rightarrow> do {
               ql \<leftarrow> quicklistCompress garb ql i;
               quicklistNext garb ql
                 (if it_head iter
                  then iter\<lparr>it_current := (if i + 1 < length (ql_nodes ql) then Some (i + 1) else None), it_offset := 0, it_zi := None\<rparr>
                  else iter\<lparr>it_current := (if i = 0 then None else Some (i - 1)), it_offset := -1, it_zi := None\<rparr>)
             })
        })"

text \<open>\<open>i\<close> and \<open>p\<close> are the node and the position of the entry.\<close>

definition quicklistDelEntry :: "(nat \<Rightarrow> nat) \<Rightarrow> quicklist \<Rightarrow> quicklistIter \<Rightarrow> nat \<Rightarrow> nat \<Rightarrow> (quicklist \<times> quicklistIter) option" where
  "quicklistDelEntry garb ql iter i p = do {
     (gone, ql) \<leftarrow> quicklistDelIndex garb ql i p;
     let iter = iter\<lparr>it_zi := None\<rparr>;
     Some (ql,
       if \<not> gone then iter
       else if it_head iter then iter\<lparr>it_current := (if i < length (ql_nodes ql) then Some i else None), it_offset := 0\<rparr>
       else iter\<lparr>it_current := (if i = 0 then None else Some (i - 1)), it_offset := -1\<rparr>)
   }"

section \<open>Ranges\<close>

definition quicklistRecompressOnly :: "(nat \<Rightarrow> nat) \<Rightarrow> quicklist \<Rightarrow> nat \<Rightarrow> quicklist option" where
  "quicklistRecompressOnly garb ql i =
     (if q_recompress (ql_nodes ql ! i)
      then do { nodes \<leftarrow> on_node (quicklistCompressNode garb) (ql_nodes ql) (int i); Some (ql\<lparr>ql_nodes := nodes\<rparr>) }
      else Some ql)"

text \<open>Deleting a part of a node. The result tells whether the node is gone.\<close>

definition del_part :: "(nat \<Rightarrow> nat) \<Rightarrow> quicklist \<Rightarrow> nat \<Rightarrow> int \<Rightarrow> nat \<Rightarrow> (bool \<times> quicklist) option" where
  "del_part garb ql i offset del = do {
     nd \<leftarrow> quicklistDecompressNodeForUse (ql_nodes ql ! i);
     zl \<leftarrow> raw_zl nd;
     zl \<leftarrow> ziplistDeleteRange zl offset del;
     nd \<leftarrow> quicklistNodeUpdateSz (nd\<lparr>q_data := QRaw zl\<rparr>);
     let nd = nd\<lparr>q_count := nat ((int (q_count nd) - int del) mod 65536)\<rparr>;
     let ql = ql\<lparr>ql_nodes := (ql_nodes ql)[i := nd], ql_count := ql_count ql - del\<rparr>;
     if q_count nd = 0 then map_option (Pair True) (quicklistDelNode garb ql i)
     else map_option (Pair False) (quicklistRecompressOnly garb ql i)
   }"

text \<open>The loop: the node at \<open>i\<close> and what is left to delete. A node that does not exist is used.\<close>

partial_function (option) del_range_loop :: "(nat \<Rightarrow> nat) \<Rightarrow> quicklist \<Rightarrow> nat \<Rightarrow> int \<Rightarrow> nat \<Rightarrow> quicklist option" where
  "del_range_loop garb ql i offset extent =
     (if extent = 0 then Some ql
      else if i \<ge> length (ql_nodes ql) then None
      else
        (let n = q_count (ql_nodes ql ! i);
             entire = (offset = 0 \<and> extent \<ge> n);
             del = (if entire then n
                    else if offset \<ge> 0 \<and> extent \<ge> n then n - nat offset
                    else if offset < 0 then min (nat (- offset)) extent
                    else extent)
         in do {
              (gone, ql) \<leftarrow> (if entire then map_option (Pair True) (quicklistDelNode garb ql i) else del_part garb ql i offset del);
              del_range_loop garb ql (if gone then i else i + 1) 0 (extent - del)
            }))"

definition quicklistDelRange :: "(nat \<Rightarrow> nat) \<Rightarrow> quicklist \<Rightarrow> int \<Rightarrow> int \<Rightarrow> (bool \<times> quicklist) option" where
  "quicklistDelRange garb ql start n =
     (if n \<le> 0 then Some (False, ql)
      else
        (let extent =
           (if start \<ge> 0 \<and> start \<le> int (ql_count ql) \<and> n > int (ql_count ql) - start then int (ql_count ql) - start
            else if start < 0 \<and> n > - start then - start
            else n)
         in do {
              (e, ql) \<leftarrow> quicklistIndex ql start;
              case e of
                None \<Rightarrow> Some (False, ql)
              | Some (i, offset, zi, v) \<Rightarrow> map_option (Pair True) (del_range_loop garb ql i offset (nat extent))
            }))"


section \<open>Nodes in use\<close>

text \<open>A node that may be compressed, and lists in which only such nodes wait for it.\<close>

definition inner :: "quicklist \<Rightarrow> nat \<Rightarrow> bool" where
  "inner ql i \<longleftrightarrow> 0 < i \<and> i + 1 < length (ql_nodes ql) \<and> ql_compress ql \<noteq> 0 \<and> 2 * ql_compress ql \<le> ql_len ql"

definition flags_inner :: "quicklist \<Rightarrow> bool" where
  "flags_inner ql \<longleftrightarrow> (\<forall>i < length (ql_nodes ql). q_recompress (ql_nodes ql ! i) \<longrightarrow> inner ql i)"

lemma unflagged_inner: "unflagged (ql_nodes ql) \<Longrightarrow> flags_inner ql"
  by (simp add: flags_inner_def unflagged_def)

lemma inner_nodes [simp]: "length nodes = length (ql_nodes ql) \<Longrightarrow> inner (ql\<lparr>ql_nodes := nodes\<rparr>) i = inner ql i"
  by (simp add: inner_def)

lemma compressed_inner:
  assumes "quicklist_rep ql sss" and "i < length (ql_nodes ql)" and "\<not> is_raw (ql_nodes ql ! i)"
  shows "inner ql i"
proof -
  have "ends_raw (ql_nodes ql)" "ql_compress ql = 0 \<or> ql_len ql < 2 * ql_compress ql \<longrightarrow> list_all is_raw (ql_nodes ql)"
    using assms(1) by (auto simp: quicklist_rep_def)
  moreover have "\<not> list_all is_raw (ql_nodes ql)" using assms(2,3) by (auto simp: list_all_length)
  moreover have "is_raw (ql_nodes ql ! 0)" "is_raw (ql_nodes ql ! (length (ql_nodes ql) - 1))" using calculation(1) assms(2) by (auto simp: ends_raw_def)
  then have "i \<noteq> 0" "i \<noteq> length (ql_nodes ql) - 1" using assms(3) by metis+
  ultimately show ?thesis using assms(2) by (simp add: inner_def)
qed

lemma keeps_quicklist:
  assumes "quicklist_rep ql sss" and "keeps sss (ql_nodes ql) nodes" and "ends_raw nodes"
    and "ql_compress ql = 0 \<or> ql_len ql < 2 * ql_compress ql \<longrightarrow> list_all is_raw nodes"
  shows "quicklist_rep (ql\<lparr>ql_nodes := nodes\<rparr>) sss"
  using assms(1,3,4) keeps_rep [OF assms(2)] keeps_count [OF assms(2)] keeps_length [OF assms(2)] by (simp add: quicklist_rep_def)

lemma keeps_inner:
  assumes "flags_inner ql" and "keeps sss (ql_nodes ql) nodes"
  shows "flags_inner (ql\<lparr>ql_nodes := nodes\<rparr>)"
  using assms(1) keeps_flag [OF assms(2)] keeps_length [OF assms(2)] by (auto simp: flags_inner_def)

lemma use_rep:
  assumes rep: "quicklist_rep ql sss" and f: "flags_inner ql" and i: "i < length sss"
  shows "\<exists>nd zl. quicklistDecompressNodeForUse (ql_nodes ql ! i) = Some nd \<and> q_data nd = QRaw zl \<and> zl_strings zl (sss ! i) \<and>
    quicklist_rep (ql\<lparr>ql_nodes := (ql_nodes ql)[i := nd]\<rparr>) sss \<and> flags_inner (ql\<lparr>ql_nodes := (ql_nodes ql)[i := nd]\<rparr>)"
proof -
  note l = rep_strings [OF rep]
  obtain nd zl where nd: "quicklistDecompressNodeForUse (ql_nodes ql ! i) = Some nd" "q_data nd = QRaw zl" "zl_strings zl (sss ! i)"
      "quicklist_rep (ql\<lparr>ql_nodes := (ql_nodes ql)[i := nd]\<rparr>) sss" using use_node_rep [OF rep i] by blast
  have "q_recompress nd \<longrightarrow> inner ql i"
  proof (cases "is_raw (ql_nodes ql ! i)")
    case True
    then show ?thesis using nd(1) f i l(1) by (auto simp: is_raw_def quicklistDecompressNodeForUse_def flags_inner_def)
  qed (use compressed_inner [OF rep] i l(1) in auto)
  then have "flags_inner (ql\<lparr>ql_nodes := (ql_nodes ql)[i := nd]\<rparr>)" using f i l(1) by (auto simp: flags_inner_def nth_list_update)
  then show ?thesis using nd by blast
qed

lemma compress_inner_rep:
  assumes rep: "quicklist_rep ql sss" and i: "inner ql i"
  shows "\<exists>nodes. on_node (quicklistCompressNode garb) (ql_nodes ql) (int i) = Some nodes \<and> keeps sss (ql_nodes ql) nodes \<and>
    quicklist_rep (ql\<lparr>ql_nodes := nodes\<rparr>) sss"
proof -
  have r: "list_all2 node_rep (ql_nodes ql) sss" "ends_raw (ql_nodes ql)" using rep by (auto simp: quicklist_rep_def)
  obtain nodes where n: "on_node (quicklistCompressNode garb) (ql_nodes ql) (int i) = Some nodes" "keeps sss (ql_nodes ql) nodes" "ends_raw nodes"
    using compress_inner [OF r, of "int i" garb] i by (auto simp: inner_def)
  then show ?thesis using keeps_quicklist [OF rep n(2,3)] i by (auto simp: inner_def)
qed

lemma quicklistCompress_ok:
  assumes rep: "quicklist_rep ql sss" and f: "flags_inner ql" and i: "i < length sss"
  shows "\<exists>nodes. quicklistCompress garb ql i = Some (ql\<lparr>ql_nodes := nodes\<rparr>) \<and> keeps sss (ql_nodes ql) nodes \<and>
    quicklist_rep (ql\<lparr>ql_nodes := nodes\<rparr>) sss"
proof (cases "q_recompress (ql_nodes ql ! i)")
  case True
  then have "inner ql i" using f i rep_strings(1) [OF rep] by (simp add: flags_inner_def)
  from compress_inner_rep [OF rep this, of garb] show ?thesis using True by (auto simp: quicklistCompress_def)
next
  case False
  note q = rep [unfolded quicklist_rep_def]
  obtain nodes where n: "quicklistCompress_depth garb ql (Some (int i)) = Some (ql\<lparr>ql_nodes := nodes\<rparr>)" "keeps sss (ql_nodes ql) nodes"
      "if ql_compress ql = 0 \<or> ql_len ql < 2 * ql_compress ql then nodes = ql_nodes ql
       else ends_raw nodes \<and> (length nodes < 2 * ql_compress ql \<longrightarrow> list_all is_raw nodes)"
    using compress_depth_ok [of ql sss garb "Some (int i)"] q by auto
  have "quicklist_rep (ql\<lparr>ql_nodes := nodes\<rparr>) sss"
    using keeps_quicklist [OF rep n(2)] n(3) q keeps_length [OF n(2)] by (auto split: if_splits)
  then show ?thesis using False n by (auto simp: quicklistCompress_def)
qed


section \<open>Iteration\<close>

text \<open>The entries in the order of an iterator, and the place of the \<open>j\<close>th of them in the \<open>k\<close>th node it visits.\<close>

definition in_order :: "bool \<Rightarrow> bytes list list \<Rightarrow> bytes list list" where
  "in_order h sss = (if h then sss else map List.rev (List.rev sss))"

definition node_at :: "bool \<Rightarrow> nat \<Rightarrow> nat \<Rightarrow> nat" where
  "node_at h n k = (if h then k else n - 1 - k)"

lemma in_order_simps [simp]:
  "length (in_order h sss) = length sss"
  "concat (in_order h sss) = (if h then concat sss else List.rev (concat sss))"
  "k < length sss \<Longrightarrow> in_order h sss ! k = (if h then sss ! k else List.rev (sss ! (length sss - 1 - k)))"
  by (simp_all add: in_order_def rev_concat rev_map rev_nth)

lemma node_at_less: "k < n \<Longrightarrow> node_at h n k < n"
  by (simp add: node_at_def)

lemma in_order_at:
  assumes "k < length sss" and "j < length (sss ! node_at h (length sss) k)"
  shows "in_order h sss ! k ! j = sss ! node_at h (length sss) k ! node_at h (length (sss ! node_at h (length sss) k)) j"
  using assms by (cases h) (simp_all add: node_at_def rev_nth)

text \<open>An iterator that will return the \<open>j\<close>th entry of the \<open>k\<close>th node next.\<close>

definition iter_before :: "quicklist \<Rightarrow> bytes list list \<Rightarrow> quicklistIter \<Rightarrow> nat \<Rightarrow> nat \<Rightarrow> bool" where
  "iter_before ql sss iter k j \<longleftrightarrow>
     (let h = it_head iter; i = node_at h (length sss) k in
      k < length sss \<and> j \<le> length (sss ! i) \<and> it_current iter = Some i \<and>
      (it_zi iter = None \<and> it_offset iter = (if h then int j else - int j - 1) \<or>
       (\<exists>zl es. q_data (ql_nodes ql ! i) = QRaw zl \<and> zl_rep zl es \<and> map snd es = sss ! i \<and> 0 < j \<and>
          it_zi iter = Some (offs (take (node_at h (length es) (j - 1)) es)) \<and> it_offset iter = (if h then int j - 1 else - int j))))"

lemma ziplist_next_at:
  assumes "zl_rep zl es" and "0 < j" and "j \<le> length es"
  shows "(if h then ziplistNext zl (offs (take (node_at h (length es) (j - 1)) es)) else ziplistPrev zl (offs (take (node_at h (length es) (j - 1)) es))) =
    Some (if j < length es then Some (offs (take (node_at h (length es) j) es)) else None)"
proof (cases h)
  case True
  have "zl_rep zl (take (j - 1) es @ es ! (j - 1) # drop j es)" using assms id_take_nth_drop [of "j - 1" es] by simp
  then show ?thesis using ziplistNext_ok True assms by (simp add: node_at_def take_Suc_conv_app_nth [symmetric])
next
  case False
  have n: "length es - 1 - (j - 1) = length es - j" "node_at h (length es) j = length es - j - 1" using assms(2,3) False by (simp_all add: node_at_def)
  have "zl_rep zl (take (length es - j) es @ drop (length es - j) es)" using assms(1) by simp
  note p = ziplistPrev_ok [OF this]
  have "butlast (take (length es - j) es) = take (length es - j - 1) es" using assms by (simp add: butlast_take)
  then show ?thesis using p False n assms(2,3) by (auto simp: node_at_def)
qed

lemma iter_step_ok:
  assumes rep: "quicklist_rep ql sss" and f: "flags_inner ql" and b: "iter_before ql sss iter k j"
  shows "\<exists>ql' iter' zl es. iter_step ql iter (node_at (it_head iter) (length sss) k) = Some (ql', iter') \<and> quicklist_rep ql' sss \<and> flags_inner ql' \<and>
    q_data (ql_nodes ql' ! node_at (it_head iter) (length sss) k) = QRaw zl \<and> zl_rep zl es \<and> map snd es = sss ! node_at (it_head iter) (length sss) k \<and>
    iter' = iter\<lparr>it_zi := (if j < length es then Some (offs (take (node_at (it_head iter) (length es) j) es)) else None),
      it_offset := (if it_head iter then int j else - int j - 1)\<rparr>"
proof -
  define h i where "h = it_head iter" and "i = node_at h (length sss) k"
  have k: "k < length sss" "j \<le> length (sss ! i)" using b by (auto simp: iter_before_def Let_def h_def i_def)
  have i: "i < length sss" unfolding i_def by (rule node_at_less [OF k(1)])
  have small: "length (sss ! i) < 65536" using rep i by (simp add: quicklist_rep_def)
  show ?thesis
  proof (cases "it_zi iter")
    case None
    then have off: "it_offset iter = (if h then int j else - int j - 1)" using b by (auto simp: iter_before_def Let_def h_def i_def)
    obtain nd zl where nd: "quicklistDecompressNodeForUse (ql_nodes ql ! i) = Some nd" "q_data nd = QRaw zl" "zl_strings zl (sss ! i)"
        "quicklist_rep (ql\<lparr>ql_nodes := (ql_nodes ql)[i := nd]\<rparr>) sss" "flags_inner (ql\<lparr>ql_nodes := (ql_nodes ql)[i := nd]\<rparr>)"
      using use_rep [OF rep f i] by blast
    obtain es where es: "zl_rep zl es" "map snd es = sss ! i" using nd(3) unfolding zl_strings_def by blast
    have le: "length es = length (sss ! i)" using es(2) by (metis length_map)
    have "ziplistIndex zl (it_offset iter) = Some (if j < length es then Some (offs (take (node_at h (length es) j) es)) else None)"
      using ziplistIndex_ok [OF es(1), of "it_offset iter"] small le k(2) off by (auto simp: node_at_def nat_diff_distrib intro!: arg_cong [of _ _ "\<lambda>n. offs (take n es)"])
    then have "iter_step ql iter i = Some (ql\<lparr>ql_nodes := (ql_nodes ql)[i := nd]\<rparr>,
        iter\<lparr>it_zi := (if j < length es then Some (offs (take (node_at h (length es) j) es)) else None), it_offset := (if h then int j else - int j - 1)\<rparr>)"
      using None nd(1,2) off by (simp add: iter_step_def raw_zl_def)
    moreover have "q_data (ql_nodes (ql\<lparr>ql_nodes := (ql_nodes ql)[i := nd]\<rparr>) ! i) = QRaw zl" using nd(2) i rep_strings(1) [OF rep] by simp
    ultimately show ?thesis using nd(4,5) es unfolding h_def [symmetric] i_def [symmetric] by blast
  next
    case (Some p)
    then obtain zl es where z: "q_data (ql_nodes ql ! i) = QRaw zl" "zl_rep zl es" "map snd es = sss ! i" "0 < j"
        "p = offs (take (node_at h (length es) (j - 1)) es)" "it_offset iter = (if h then int j - 1 else - int j)"
      using b by (auto simp: iter_before_def Let_def h_def i_def)
    have le: "length es = length (sss ! i)" using z(3) by (metis length_map)
    have "iter_step ql iter i = Some (ql,
        iter\<lparr>it_zi := (if j < length es then Some (offs (take (node_at h (length es) j) es)) else None), it_offset := (if h then int j else - int j - 1)\<rparr>)"
      using Some z(1,6) ziplist_next_at [OF z(2,4), of h] k(2) le z(5) unfolding iter_step_def h_def [symmetric] by (auto simp: raw_zl_def)
    then show ?thesis using z(1-3) rep f unfolding h_def [symmetric] i_def [symmetric] by blast
  qed
qed


text \<open>An iterator with the entries \<open>left\<close> still to come.\<close>

definition iter_remaining :: "quicklist \<Rightarrow> bytes list list \<Rightarrow> quicklistIter \<Rightarrow> bytes list \<Rightarrow> bool" where
  "iter_remaining ql sss iter left \<longleftrightarrow>
     (it_current iter = None \<and> left = [] \<or>
      (\<exists>k j. iter_before ql sss iter k j \<and> left = drop j (in_order (it_head iter) sss ! k) @ concat (drop (Suc k) (in_order (it_head iter) sss))))"

lemma next_entry:
  assumes rep: "quicklist_rep ql sss" and f: "flags_inner ql" and b: "iter_before ql sss iter k j"
    and j: "j < length (in_order (it_head iter) sss ! k)"
  shows "\<exists>i off zi v ql' iter'. quicklistNext garb ql iter = Some (Some (i, off, zi, Some v), ql', iter') \<and> quicklist_rep ql' sss \<and> flags_inner ql' \<and>
    qtext v = in_order (it_head iter) sss ! k ! j \<and> iter_before ql' sss iter' k (Suc j) \<and> it_head iter' = it_head iter"
proof -
  define h i where "h = it_head iter" and "i = node_at h (length sss) k"
  have k: "k < length sss" "it_current iter = Some i" using b by (auto simp: iter_before_def Let_def h_def i_def)
  obtain ql' iter' zl es where s: "iter_step ql iter i = Some (ql', iter')" "quicklist_rep ql' sss" "flags_inner ql'"
      "q_data (ql_nodes ql' ! i) = QRaw zl" "zl_rep zl es" "map snd es = sss ! i"
      "iter' = iter\<lparr>it_zi := (if j < length es then Some (offs (take (node_at h (length es) j) es)) else None), it_offset := (if h then int j else - int j - 1)\<rparr>"
    using iter_step_ok [OF rep f b] unfolding h_def [symmetric] i_def [symmetric] by blast
  have le: "length es = length (sss ! i)" using s(6) by (metis length_map)
  have j': "j < length es" using j k(1) le by (simp add: h_def i_def node_at_def split: if_splits)
  define m where "m = node_at h (length es) j"
  have m: "m < length es" unfolding m_def by (rule node_at_less [OF j'])
  obtain v where v: "q_value zl (Some (offs (take m es))) = Some (Some v)" "qtext v = snd (es ! m)" using q_value_ok [OF s(5) m] by blast
  have "qtext v = sss ! i ! m" using v(2) s(6) m by (metis nth_map)
  then have t: "qtext v = in_order h sss ! k ! j" using in_order_at [OF k(1), of j h] j' le by (simp add: i_def m_def)
  have z: "it_zi iter' = Some (offs (take m es))" using j' by (simp add: s(7) m_def)
  have "quicklistNext garb ql iter = Some (Some (i, it_offset iter', offs (take m es), Some v), ql', iter')"
    by (subst quicklistNext.simps) (use k(2) s(1,4) z v(1) in \<open>simp add: raw_zl_def\<close>)
  moreover have "iter_before ql' sss iter' k (Suc j)"
    using k s(4-6) j' le by (auto simp: iter_before_def Let_def s(7) h_def [symmetric] i_def [symmetric])
  ultimately show ?thesis using s(2,3,7) t unfolding h_def by auto
qed

lemma next_node:
  assumes rep: "quicklist_rep ql sss" and f: "flags_inner ql" and b: "iter_before ql sss iter k (length (in_order (it_head iter) sss ! k))"
  shows "\<exists>ql' iter'. quicklistNext garb ql iter = quicklistNext garb ql' iter' \<and> quicklist_rep ql' sss \<and> flags_inner ql' \<and> it_head iter' = it_head iter \<and>
    (if Suc k < length sss then iter_before ql' sss iter' (Suc k) 0 else it_current iter' = None)"
proof -
  define h i where "h = it_head iter" and "i = node_at h (length sss) k"
  have k: "k < length sss" "it_current iter = Some i" using b by (auto simp: iter_before_def Let_def h_def i_def)
  have i: "i < length sss" unfolding i_def by (rule node_at_less [OF k(1)])
  obtain ql1 iter1 zl es where s: "iter_step ql iter i = Some (ql1, iter1)" "quicklist_rep ql1 sss" "flags_inner ql1" "map snd es = sss ! i"
      "iter1 = iter\<lparr>it_zi := (if length (in_order h sss ! k) < length es then Some (offs (take (node_at h (length es) (length (in_order h sss ! k))) es)) else None),
         it_offset := (if h then int (length (in_order h sss ! k)) else - int (length (in_order h sss ! k)) - 1)\<rparr>"
    using iter_step_ok [OF rep f b] unfolding h_def [symmetric] i_def [symmetric] by blast
  have "length es = length (sss ! i)" using s(4) by (metis length_map)
  then have "it_zi iter1 = None" using k(1) by (simp add: s(5) h_def i_def node_at_def)
  moreover obtain nodes where n: "quicklistCompress garb ql1 i = Some (ql1\<lparr>ql_nodes := nodes\<rparr>)" "keeps sss (ql_nodes ql1) nodes" "quicklist_rep (ql1\<lparr>ql_nodes := nodes\<rparr>) sss"
    using quicklistCompress_ok [OF s(2,3) i] by blast
  have l: "length nodes = length sss" using rep_strings(1) [OF n(3)] by simp
  define iter' where "iter' = (if h then iter1\<lparr>it_current := (if i + 1 < length nodes then Some (i + 1) else None), it_offset := 0, it_zi := None\<rparr>
      else iter1\<lparr>it_current := (if i = 0 then None else Some (i - 1)), it_offset := -1, it_zi := None\<rparr>)"
  have h1: "it_head iter1 = h" by (simp add: s(5) h_def)
  ultimately have "quicklistNext garb ql iter = quicklistNext garb (ql1\<lparr>ql_nodes := nodes\<rparr>) iter'"
    by (subst quicklistNext.simps) (use k(2) s(1) n(1) in \<open>simp add: iter'_def\<close>)
  moreover have "it_head iter' = it_head iter" using h1 by (simp add: iter'_def h_def)
  moreover have "if Suc k < length sss then iter_before (ql1\<lparr>ql_nodes := nodes\<rparr>) sss iter' (Suc k) 0 else it_current iter' = None"
    using k(1) l h1 by (auto simp: iter_before_def Let_def iter'_def i_def node_at_def)
  ultimately show ?thesis using n(3) keeps_inner [OF s(3) n(2)] by blast
qed

lemma next_left:
  assumes rep: "quicklist_rep ql sss" and f: "flags_inner ql" and l: "iter_remaining ql sss iter left"
  shows "case left of
      [] \<Rightarrow> \<exists>ql' iter'. quicklistNext garb ql iter = Some (None, ql', iter') \<and> quicklist_rep ql' sss \<and> flags_inner ql' \<and> it_current iter' = None
    | s # rest \<Rightarrow> \<exists>i off zi v ql' iter'. quicklistNext garb ql iter = Some (Some (i, off, zi, Some v), ql', iter') \<and> qtext v = s \<and>
        quicklist_rep ql' sss \<and> flags_inner ql' \<and> iter_remaining ql' sss iter' rest"
proof (cases "it_current iter")
  case None
  then have "left = []" using l by (auto simp: iter_remaining_def iter_before_def Let_def)
  moreover have "quicklistNext garb ql iter = Some (None, ql, iter)" using None by (subst quicklistNext.simps) simp
  ultimately show ?thesis using rep f None by auto
next
  case (Some i)
  define h where "h = it_head iter"
  define vss where "vss = in_order h sss"
  obtain k j where b: "iter_before ql sss iter k j" "left = drop j (vss ! k) @ concat (drop (Suc k) vss)"
    using l Some by (auto simp: iter_remaining_def h_def vss_def)
  have k: "k < length sss" "j \<le> length (vss ! k)" using b(1) by (auto simp: iter_before_def Let_def h_def vss_def node_at_def split: if_splits)
  show ?thesis
  proof (cases "j < length (vss ! k)")
    case True
    then obtain i off zi v ql' iter' where n: "quicklistNext garb ql iter = Some (Some (i, off, zi, Some v), ql', iter')" "quicklist_rep ql' sss" "flags_inner ql'"
        "qtext v = vss ! k ! j" "iter_before ql' sss iter' k (Suc j)" "it_head iter' = h"
      using next_entry [OF rep f b(1), of garb] unfolding h_def [symmetric] vss_def [symmetric] by blast
    have "left = vss ! k ! j # drop (Suc j) (vss ! k) @ concat (drop (Suc k) vss)" using b(2) True by (simp add: Cons_nth_drop_Suc)
    moreover have "iter_remaining ql' sss iter' (drop (Suc j) (vss ! k) @ concat (drop (Suc k) vss))"
      using n(5,6) unfolding iter_remaining_def vss_def by auto
    ultimately show ?thesis using n(1-4) by auto
  next
    case False
    then have "iter_before ql sss iter k (length (in_order (it_head iter) sss ! k))" using b(1) k(2) by (simp add: vss_def h_def)
    then obtain ql' iter' where n: "quicklistNext garb ql iter = quicklistNext garb ql' iter'" "quicklist_rep ql' sss" "flags_inner ql'" "it_head iter' = h"
        "if Suc k < length sss then iter_before ql' sss iter' (Suc k) 0 else it_current iter' = None"
      using next_node [OF rep f, of iter k garb] unfolding h_def by blast
    have left: "left = concat (drop (Suc k) vss)" using b(2) False by simp
    show ?thesis
    proof (cases "Suc k < length sss")
      case True
      then have b': "iter_before ql' sss iter' (Suc k) 0" using n(5) by simp
      have "vss ! Suc k \<noteq> []" using True rep_strings(2) [OF rep] by (simp add: vss_def)
      moreover have "Suc k < length vss" using True by (simp add: vss_def)
      then have "drop (Suc k) vss = vss ! Suc k # drop (Suc (Suc k)) vss" by (simp only: Cons_nth_drop_Suc)
      ultimately obtain s ss where s: "vss ! Suc k = s # ss" "left = s # ss @ concat (drop (Suc (Suc k)) vss)" using left by (cases "vss ! Suc k") auto
      obtain i off zi v ql2 iter2 where m: "quicklistNext garb ql' iter' = Some (Some (i, off, zi, Some v), ql2, iter2)" "quicklist_rep ql2 sss" "flags_inner ql2"
          "qtext v = s" "iter_before ql2 sss iter2 (Suc k) (Suc 0)" "it_head iter2 = h"
        using next_entry [OF n(2,3) b', of garb] s(1) unfolding n(4) vss_def [symmetric] by auto
      have "iter_remaining ql2 sss iter2 (ss @ concat (drop (Suc (Suc k)) vss))"
        using m(5,6) s(1) unfolding iter_remaining_def vss_def by (intro disjI2 exI [of _ "Suc k"] exI [of _ "Suc 0"]) simp
      then show ?thesis using n(1) m(1-4) s(2) by auto
    next
      case False
      then have "left = []" using left k(1) by (simp add: vss_def)
      moreover have "quicklistNext garb ql' iter' = Some (None, ql', iter')" using False n(5) by (subst quicklistNext.simps) simp
      ultimately show ?thesis using False n by auto
    qed
  qed
qed


text \<open>The loop of a client over a whole list, with the texts of the entries.\<close>

partial_function (option) quicklist_walk :: "(nat \<Rightarrow> nat) \<Rightarrow> quicklist \<Rightarrow> quicklistIter \<Rightarrow> (bytes list \<times> quicklist) option" where
  "quicklist_walk garb ql iter = do {
     (e, ql, iter) \<leftarrow> quicklistNext garb ql iter;
     (case e of
        None \<Rightarrow> do { ql \<leftarrow> quicklistReleaseIterator garb ql iter; Some ([], ql) }
      | Some (i, off, zi, v) \<Rightarrow> do {
          v \<leftarrow> v;
          (ss, ql) \<leftarrow> quicklist_walk garb ql iter;
          Some (qtext v # ss, ql)
        })
   }"

lemma walk_left:
  "quicklist_rep ql sss \<Longrightarrow> flags_inner ql \<Longrightarrow> iter_remaining ql sss iter left \<Longrightarrow>
   \<exists>ql'. quicklist_walk garb ql iter = Some (left, ql') \<and> quicklist_rep ql' sss \<and> flags_inner ql'"
proof (induction left arbitrary: ql iter)
  case Nil
  obtain ql' iter' where n: "quicklistNext garb ql iter = Some (None, ql', iter')" "quicklist_rep ql' sss" "flags_inner ql'" "it_current iter' = None"
    using next_left [OF Nil, of garb] by auto
  then have "quicklist_walk garb ql iter = Some ([], ql')" by (subst quicklist_walk.simps) (simp add: quicklistReleaseIterator_def)
  then show ?case using n by blast
next
  case (Cons s left)
  obtain i off zi v ql1 iter1 where n: "quicklistNext garb ql iter = Some (Some (i, off, zi, Some v), ql1, iter1)" "qtext v = s"
      "quicklist_rep ql1 sss" "flags_inner ql1" "iter_remaining ql1 sss iter1 left" using next_left [OF Cons.prems, of garb] by auto
  obtain ql' where "quicklist_walk garb ql1 iter1 = Some (left, ql')" "quicklist_rep ql' sss" "flags_inner ql'" using Cons.IH [OF n(3-5)] by blast
  moreover from this(1) have "quicklist_walk garb ql iter = Some (s # left, ql')" by (subst quicklist_walk.simps) (simp add: n(1,2))
  ultimately show ?case by blast
qed

lemma iterator_left:
  assumes "quicklist_rep ql sss"
  shows "iter_remaining ql sss (quicklistGetIterator ql h) (if h then concat sss else List.rev (concat sss))"
proof (cases "ql_nodes ql = []")
  case True
  then show ?thesis using rep_strings(3) [OF assms] by (simp add: iter_remaining_def quicklistGetIterator_def del: concat_eq_Nil_conv)
next
  case False
  define iter where "iter = quicklistGetIterator ql h"
  have l: "0 < length sss" "length sss = length (ql_nodes ql)" using False rep_strings(1) [OF assms] by auto
  then have "iter_before ql sss iter 0 0" by (simp add: iter_before_def Let_def iter_def quicklistGetIterator_def node_at_def)
  moreover have "it_head iter = h" by (simp add: iter_def quicklistGetIterator_def)
  moreover have "concat (in_order h sss) = in_order h sss ! 0 @ concat (drop (Suc 0) (in_order h sss))"
    using l(1) by (metis Cons_nth_drop_Suc concat.simps(2) drop_0 in_order_simps(1))
  ultimately show ?thesis unfolding iter_def [symmetric] iter_remaining_def by (intro disjI2 exI [of _ 0]) simp
qed


section \<open>Values from a ziplist\<close>

lemma qvalue_text_ok:
  assumes "zl_rep zl es" and "j < length es"
  shows "\<exists>v. q_value zl (Some (offs (take j es))) = Some (Some v) \<and> qvalue_text v = Some (snd (es ! j))"
proof -
  have z: "zl_rep zl (take j es @ es ! j # drop (Suc j) es)" using assms by (simp add: id_take_nth_drop [symmetric])
  show ?thesis
  proof (cases "zipTryEncoding (snd (es ! j))")
    case None
    then show ?thesis using ziplistGet_ok [OF z] by (auto simp: q_value_def qvalue_text_def)
  next
    case (Some ve)
    then obtain v e where v: "zipTryEncoding (snd (es ! j)) = Some (v, e)" by (cases ve) auto
    have i: "int64 v" using zipTryEncoding_int [OF v] string2ll_eq [of "snd (es ! j)" v] by blast
    have "qvalue_text (QLong v) = Some (dec_int v)"
      using ll2string_eq [OF i, of 32 "replicate 32 (Some 0)"] length_dec_int_bound [OF i] by (simp add: qvalue_text_def mem_read_def)
    then show ?thesis using v ziplistGet_ok [OF z] by (auto simp: q_value_def)
  qed
qed

lemma append_values_ok:
  "zl_rep zl (xs @ ys) \<Longrightarrow> \<forall>e \<in> set ys. length (snd e) \<le> 1073741824 \<Longrightarrow> quicklist_strings ql ss \<Longrightarrow>
   \<exists>ql'. append_values garb ql zl (if ys = [] then None else Some (offs xs)) = Some ql' \<and> quicklist_strings ql' (ss @ map snd ys)"
proof (induction ys arbitrary: xs ql ss)
  case Nil
  have "q_value zl None = Some None" by (simp add: q_value_def ziplistGet_def)
  then have "append_values garb ql zl None = Some ql" by (subst append_values.simps) simp
  then show ?case using Nil by simp
next
  case (Cons y ys)
  obtain v where v: "q_value zl (Some (offs xs)) = Some (Some v)" "qvalue_text v = Some (snd y)"
    using qvalue_text_ok [OF Cons.prems(1), of "length xs"] by auto
  obtain ql1 where "quicklistPush garb ql (snd y) False = Some ql1" and s1: "quicklist_strings ql1 (ss @ [snd y])"
    using ql.push_law [OF Cons.prems(3), of "snd y" garb False] Cons.prems(2) by auto
  then obtain b where p: "quicklistPushTail garb ql (snd y) = Some (b, ql1)" by (auto simp: quicklistPush_def)
  have n: "ziplistNext zl (offs xs) = Some (if ys = [] then None else Some (offs (xs @ [y])))" using ziplistNext_ok [OF Cons.prems(1)] .
  obtain ql' where "append_values garb ql1 zl (if ys = [] then None else Some (offs (xs @ [y]))) = Some ql'" "quicklist_strings ql' ((ss @ [snd y]) @ map snd ys)"
    using Cons.IH [OF rep_shift [OF Cons.prems(1)] _ s1] Cons.prems(2) by auto
  moreover have "append_values garb ql zl (Some (offs xs)) = append_values garb ql1 zl (if ys = [] then None else Some (offs (xs @ [y])))"
    by (subst append_values.simps) (simp only: v p n bind.bind_lunit prod.case option.case split)
  ultimately show ?case by simp
qed

section \<open>Deleting ranges\<close>

lemma use_flag:
  assumes rep: "quicklist_rep ql sss" and f: "q_recompress (ql_nodes ql ! i) \<longrightarrow> inner ql i" and i: "i < length sss"
    and nd: "quicklistDecompressNodeForUse (ql_nodes ql ! i) = Some nd"
  shows "q_recompress nd \<longrightarrow> inner ql i"
proof (cases "is_raw (ql_nodes ql ! i)")
  case True
  then show ?thesis using nd f by (auto simp: is_raw_def quicklistDecompressNodeForUse_def)
qed (use compressed_inner [OF rep] i rep_strings(1) [OF rep] in auto)

lemma q_fits_range: "q_fits ss \<Longrightarrow> q_fits (take j ss @ drop (j + n) ss)"
proof -
  assume f: "q_fits ss"
  define g where "g = (\<lambda>s :: bytes. length s + 18)"
  have e: "ss = take j ss @ take n (drop j ss) @ drop (j + n) ss" by (simp add: take_add [symmetric] flip: append_assoc)
  have "sum_list (map g ss) = sum_list (map g (take j ss)) + sum_list (map g (take n (drop j ss))) + sum_list (map g (drop (j + n) ss))"
    using arg_cong [OF e, of "\<lambda>ss. sum_list (map g ss)"] by simp
  then show ?thesis using f by (simp add: q_fits_def g_def)
qed

lemma keeps_drop:
  assumes "keeps sss nodes nodes'" and "unflagged (drop i nodes)"
  shows "unflagged (drop i nodes')"
proof -
  have "list_all2 (\<lambda>nd nd'. q_recompress nd' \<longrightarrow> q_recompress nd) (drop i nodes) (drop i nodes')"
    using assms(1) unfolding keeps_def by (intro list_all2_dropI) (auto elim: list_all2_mono)
  then show ?thesis using assms(2) by (fastforce simp: unflagged_def list_all2_conv_all_nth in_set_conv_nth)
qed

text \<open>Deleting \<open>del\<close> entries from the position \<open>o'\<close> on, or from an offset counted from the end.\<close>

lemma del_part_ok:
  assumes rep: "quicklist_rep ql sss" and f: "q_recompress (ql_nodes ql ! i) \<longrightarrow> inner ql i" and i: "i < length sss"
    and off: "off = int p \<or> off = int p - int (length (sss ! i))" "0 < del" "p + del \<le> length (sss ! i)"
  shows "\<exists>gone ql' sss'. del_part garb ql i off del = Some (gone, ql') \<and> quicklist_rep ql' sss' \<and>
    gone = (take p (sss ! i) @ drop (p + del) (sss ! i) = []) \<and>
    sss' = (if gone then take i sss @ drop (i + 1) sss else sss[i := take p (sss ! i) @ drop (p + del) (sss ! i)]) \<and>
    (unflagged (drop (i + 1) (ql_nodes ql)) \<longrightarrow> unflagged (drop (if gone then i else i + 1) (ql_nodes ql')))"
proof -
  define nodes ss where "nodes = ql_nodes ql" and "ss = take p (sss ! i) @ drop (p + del) (sss ! i)"
  have l: "length nodes = length sss" using rep_strings(1) [OF rep] by (simp add: nodes_def)
  have small: "length (sss ! i) < 65536" using rep i by (simp add: quicklist_rep_def)
  have ls: "length ss = length (sss ! i) - del" using off(3) by (simp add: ss_def)
  obtain nd zl where nd: "quicklistDecompressNodeForUse (nodes ! i) = Some nd" "q_data nd = QRaw zl" "zl_strings zl (sss ! i)"
      "quicklist_rep (ql\<lparr>ql_nodes := nodes[i := nd]\<rparr>) sss" using use_node_rep [OF rep i] unfolding nodes_def by blast
  have nf: "q_recompress nd \<longrightarrow> inner ql i" using use_flag [OF rep f i] nd(1) by (simp add: nodes_def)
  have "node_rep ((nodes[i := nd]) ! i) (sss ! i)" using nd(4) i by (auto simp: quicklist_rep_def list_all2_conv_all_nth)
  then have fit: "q_fits (sss ! i)" using i l by (simp add: node_rep_def)
  have cnt: "q_count nd = length (sss ! i)" using rep_count [OF nd(4) i] i l by simp
  have "INT32_MIN < off" using off small by auto
  from ziplistDeleteRange_ok [OF nd(3) this q_fits_zl [OF fit], of del]
  obtain zl' where z: "ziplistDeleteRange zl off del = Some zl'" "zl_strings zl' ss" using off by (auto simp: Let_def ss_def split: if_splits)
  define nd' where "nd' = nd\<lparr>q_data := QRaw zl', q_sz := length zl', q_count := length ss\<rparr>"
  have total: "ql_count ql - del = length (concat (sss[i := ss]))"
    using length_concat_update [OF i, of ss] ls off(3) rep by (simp add: quicklist_rep_def)
  have "(int (q_count nd) - int del) mod 65536 = int (length ss)" using cnt ls off(3) small by simp
  then have part: "del_part garb ql i off del = (let ql = ql\<lparr>ql_nodes := nodes[i := nd'], ql_count := ql_count ql - del\<rparr> in
      if ss = [] then map_option (Pair True) (quicklistDelNode garb ql i) else map_option (Pair False) (quicklistRecompressOnly garb ql i))"
    using nd(1,2) z zl_strings_size(2) [OF z(2)]
    by (simp add: del_part_def raw_zl_def quicklistNodeUpdateSz_def Let_def nd'_def nodes_def)
  show ?thesis
  proof (cases "ss = []")
    case True
    define ss' where "ss' = take i sss @ drop (i + 1) sss"
    have c: "concat ss' = concat (sss[i := ss])" using concat_without [OF i] True by (simp add: ss'_def)
    obtain nodes' where n: "quicklistDelNode garb (ql\<lparr>ql_nodes := nodes[i := nd'], ql_count := ql_count ql - del\<rparr>) i =
          Some (ql\<lparr>ql_nodes := nodes', ql_count := ql_count ql - del, ql_len := ql_len ql - 1\<rparr>)"
        "keeps ss' (take i nodes @ drop (i + 1) nodes) nodes'" "quicklist_rep (ql\<lparr>ql_nodes := nodes', ql_count := ql_count ql - del, ql_len := ql_len ql - 1\<rparr>) ss'"
      using drop_node_rep [OF rep i, where garb = garb and nd = nd' and n = "ql_count ql - del" and n' = "ql_count ql - del"] total True
      unfolding nodes_def [symmetric] ss'_def [symmetric] c by (auto simp: nd'_def)
    have "unflagged (drop (i + 1) nodes) \<longrightarrow> unflagged (drop i nodes')" using keeps_drop [OF n(2), of i] i l by simp
    then show ?thesis using True part n(1,3) unfolding ss_def [symmetric] ss'_def [symmetric] nodes_def by auto
  next
    case False
    define ql1 where "ql1 = ql\<lparr>ql_nodes := nodes[i := nd'], ql_count := ql_count ql - del\<rparr>"
    have "node_rep nd' ss" "is_raw nd'" "q_count nd' = length ss" "length ss < 65536"
      using z(2) False q_fits_range [OF fit, of p del] ls small by (auto simp: nd'_def node_rep_def data_rep_def is_raw_def ss_def)
    then have r1: "quicklist_rep ql1 (sss[i := ss])" using replace_node_rep [OF rep i] total by (simp add: ql1_def nodes_def)
    have in1: "q_recompress (ql_nodes ql1 ! i) \<longrightarrow> inner ql1 i" using nf i l by (simp add: ql1_def nd'_def inner_def nodes_def)
    obtain nodes' where n: "quicklistRecompressOnly garb ql1 i = Some (ql1\<lparr>ql_nodes := nodes'\<rparr>)" "keeps (sss[i := ss]) (ql_nodes ql1) nodes'"
        "quicklist_rep (ql1\<lparr>ql_nodes := nodes'\<rparr>) (sss[i := ss])"
    proof (cases "q_recompress (ql_nodes ql1 ! i)")
      case True
      then show ?thesis using that compress_inner_rep [OF r1, of i garb] in1 by (auto simp: quicklistRecompressOnly_def)
    next
      case False
      then show ?thesis using that [of "ql_nodes ql1"] r1 keeps_refl by (auto simp: quicklistRecompressOnly_def quicklist_rep_def)
    qed
    have "unflagged (drop (i + 1) nodes) \<longrightarrow> unflagged (drop (i + 1) nodes')"
      using keeps_drop [OF n(2), of "i + 1"] by (simp add: ql1_def)
    then show ?thesis using False part n(1,3) unfolding ss_def [symmetric] ql1_def nodes_def Let_def by auto
  qed
qed


lemma del_range_from_start:
  "quicklist_rep ql sss \<Longrightarrow> i \<le> length sss \<Longrightarrow> extent \<le> length (concat (drop i sss)) \<Longrightarrow> unflagged (drop i (ql_nodes ql)) \<Longrightarrow>
   \<exists>ql' sss'. del_range_loop garb ql i 0 extent = Some ql' \<and> quicklist_rep ql' sss' \<and> concat sss' = concat (take i sss) @ drop extent (concat (drop i sss))"
proof (induction extent arbitrary: ql sss rule: less_induct)
  case (less extent)
  note rep = less.prems(1)
  show ?case
  proof (cases "extent = 0")
    case True
    then have "del_range_loop garb ql i 0 extent = Some ql" by (subst del_range_loop.simps) simp
    moreover have "concat sss = concat (take i sss) @ drop extent (concat (drop i sss))" using True by (simp flip: concat_append)
    ultimately show ?thesis using rep by blast
  next
    case False
    then have i: "i < length sss" using less.prems(2,3) by (cases "i = length sss") auto
    have l: "length (ql_nodes ql) = length sss" using rep_strings(1) [OF rep] by simp
    define n where "n = length (sss ! i)"
    have n: "q_count (ql_nodes ql ! i) = n" "0 < n" using rep_count [OF rep i] rep_strings(2) [OF rep] i by (simp_all add: n_def)
    have d: "drop i sss = sss ! i # drop (i + 1) sss" using i by (simp add: Cons_nth_drop_Suc)
    show ?thesis
    proof (cases "extent \<ge> n")
      case True
      define ss' where "ss' = take i sss @ drop (i + 1) sss"
      have cc: "length (concat ss') + n = length (concat sss)"
        using arg_cong [OF id_take_nth_drop [OF i], of "\<lambda>sss. length (concat sss)"] by (simp add: ss'_def n_def)
      then have ct: "ql_count ql - n = length (concat ss')" using rep by (simp add: quicklist_rep_def)
      obtain nodes' where q: "quicklistDelNode garb ql i = Some (ql\<lparr>ql_nodes := nodes', ql_count := ql_count ql - n, ql_len := ql_len ql - 1\<rparr>)"
          "keeps ss' (take i (ql_nodes ql) @ drop (i + 1) (ql_nodes ql)) nodes'" "quicklist_rep (ql\<lparr>ql_nodes := nodes', ql_count := ql_count ql - n, ql_len := ql_len ql - 1\<rparr>) ss'"
        using drop_node_rep [OF rep i, where garb = garb and nd = "ql_nodes ql ! i" and n = "ql_count ql" and n' = "ql_count ql - n"] ct n(1) by (auto simp: ss'_def)
      define ql1 where "ql1 = ql\<lparr>ql_nodes := nodes', ql_count := ql_count ql - n, ql_len := ql_len ql - 1\<rparr>"
      have "unflagged (drop (i + 1) (ql_nodes ql))" using less.prems(4) set_drop_subset_set_drop [of i "i + 1" "ql_nodes ql"] by (auto simp: unflagged_def)
      then have u: "unflagged (drop i (ql_nodes ql1))" using keeps_drop [OF q(2), of i] i l by (simp add: ql1_def)
      have s: "take i ss' = take i sss" "drop i ss' = drop (i + 1) sss" "i \<le> length ss'" using i by (simp_all add: ss'_def)
      have "del_range_loop garb ql i 0 extent = del_range_loop garb ql1 i 0 (extent - n)"
        by (subst del_range_loop.simps) (use False True i l n(1) q(1) in \<open>simp add: Let_def ql1_def\<close>)
      moreover have "extent - n < extent" "extent - n \<le> length (concat (drop i ss'))" using False n(2) less.prems(3) unfolding s d by (simp_all add: n_def)
      moreover have "drop extent (concat (drop i sss)) = drop (extent - n) (concat (drop i ss'))" using True unfolding s d by (simp add: n_def)
      ultimately show ?thesis using less.IH [of "extent - n" ql1 ss'] q(3) s u unfolding ql1_def [symmetric] by auto
    next
      case small: False
      have "\<not> q_recompress (ql_nodes ql ! i)" using less.prems(4) i l by (simp add: unflagged_def flip: Cons_nth_drop_Suc)
      then obtain gone ql' sss' where q: "del_part garb ql i 0 extent = Some (gone, ql')" "quicklist_rep ql' sss'"
          "gone = (take 0 (sss ! i) @ drop (0 + extent) (sss ! i) = [])"
          "sss' = (if gone then take i sss @ drop (i + 1) sss else sss[i := take 0 (sss ! i) @ drop (0 + extent) (sss ! i)])"
        using del_part_ok [OF rep _ i, of 0 0 extent garb] False small by (auto simp: n_def)
      have "del_range_loop garb ql' (i + 1) 0 0 = Some ql'" by (subst del_range_loop.simps) simp
      then have "del_range_loop garb ql i 0 extent = Some ql'"
        by (subst del_range_loop.simps) (use False small i l n(1) q(1,3) in \<open>simp add: Let_def n_def\<close>)
      moreover have "concat sss' = concat (take i sss) @ drop extent (concat (drop i sss))"
        using q(3,4) small i unfolding d by (simp add: upd_conv_take_nth_drop n_def)
      ultimately show ?thesis using q(2) by blast
    qed
  qed
qed

lemma del_range_from_end:
  assumes rep: "quicklist_rep ql sss" and f: "q_recompress (ql_nodes ql ! i) \<longrightarrow> inner ql i" and i: "i < length sss"
    and off: "off = int p - int (length (sss ! i))" "p < length (sss ! i)"
    and e: "0 < extent" "extent \<le> length (sss ! i) - p + length (concat (drop (i + 1) sss))" and u: "unflagged (drop (i + 1) (ql_nodes ql))"
  shows "\<exists>ql' sss'. del_range_loop garb ql i off extent = Some ql' \<and> quicklist_rep ql' sss' \<and>
    concat sss' = concat (take i sss) @ take p (sss ! i) @ drop extent (drop p (sss ! i) @ concat (drop (i + 1) sss))"
proof -
  define del where "del = min (length (sss ! i) - p) extent"
  have l: "length (ql_nodes ql) = length sss" using rep_strings(1) [OF rep] by simp
  define ss where "ss = take p (sss ! i) @ drop (p + del) (sss ! i)"
  have del: "0 < del" "p + del \<le> length (sss ! i)" using off(2) e(1) by (auto simp: del_def)
  obtain gone ql1 sss1 where q: "del_part garb ql i off del = Some (gone, ql1)" "quicklist_rep ql1 sss1" "gone = (ss = [])"
      "sss1 = (if gone then take i sss @ drop (i + 1) sss else sss[i := ss])" "unflagged (drop (if gone then i else i + 1) (ql_nodes ql1))"
    using del_part_ok [OF rep f i _ del, of off garb] off(1) u unfolding ss_def by blast
  define j where "j = (if gone then i else i + 1)"
  have "nat (- off) = length (sss ! i) - p" "off < 0" using off by auto
  then have loop: "del_range_loop garb ql i off extent = del_range_loop garb ql1 j 0 (extent - del)"
    by (subst del_range_loop.simps) (use e(1) i l rep_count [OF rep i] q(1) in \<open>simp add: Let_def del_def j_def\<close>)
  have j: "take j sss1 = (if gone then take i sss else take i sss @ [ss])" "drop j sss1 = drop (i + 1) sss" "j \<le> length sss1"
    using q(4) i by (auto simp: j_def upd_conv_take_nth_drop)
  have "extent - del \<le> length (concat (drop j sss1))" using e(2) unfolding j(2) by (auto simp: del_def)
  then obtain ql' sss' where r: "del_range_loop garb ql1 j 0 (extent - del) = Some ql'" "quicklist_rep ql' sss'"
      "concat sss' = concat (take j sss1) @ drop (extent - del) (concat (drop j sss1))"
    using del_range_from_start [OF q(2) j(3), of "extent - del" garb] q(5) unfolding j_def by blast
  have "concat (take j sss1) = concat (take i sss) @ ss" using q(3) unfolding j(1) by simp
  moreover have "ss @ drop (extent - del) (concat (drop (i + 1) sss)) = take p (sss ! i) @ drop extent (drop p (sss ! i) @ concat (drop (i + 1) sss))"
    using off(2) by (cases "extent \<le> length (sss ! i) - p") (simp_all add: ss_def del_def add.commute)
  ultimately show ?thesis using r loop unfolding j(2) by auto
qed


lemma del_range_index:
  assumes rep: "quicklist_rep ql sss" and u: "unflagged (ql_nodes ql)" and i: "i < length sss"
    and nd: "quicklistDecompressNodeForUse (ql_nodes ql ! i) = Some nd"
  shows "q_recompress (((ql_nodes ql)[i := nd]) ! i) \<longrightarrow> inner (ql\<lparr>ql_nodes := (ql_nodes ql)[i := nd]\<rparr>) i"
    "unflagged (drop (i + 1) ((ql_nodes ql)[i := nd]))"
proof -
  have i': "i < length (ql_nodes ql)" using i rep_strings(1) [OF rep] by simp
  then have "\<not> q_recompress (ql_nodes ql ! i)" using u by (simp add: unflagged_def)
  then show "q_recompress (((ql_nodes ql)[i := nd]) ! i) \<longrightarrow> inner (ql\<lparr>ql_nodes := (ql_nodes ql)[i := nd]\<rparr>) i"
    using use_flag [OF rep _ i nd] i' by simp
  show "unflagged (drop (i + 1) ((ql_nodes ql)[i := nd]))" using u by (auto simp: unflagged_def dest: in_set_dropD)
qed

lemma del_range_back:
  assumes rep: "quicklist_rep ql sss" and u: "unflagged (ql_nodes ql)" and start: "- int (length (concat sss)) \<le> start" "start < 0" and n: "0 < n"
  shows "\<exists>ql' sss'. quicklistDelRange garb ql start n = Some (True, ql') \<and> quicklist_rep ql' sss' \<and>
    concat sss' = take (nat (int (length (concat sss)) + start)) (concat sss) @ drop (nat (int (length (concat sss)) + start) + nat n) (concat sss)"
proof -
  obtain i off zi v nd where x: "quicklistIndex ql start = Some (Some (i, off, Some zi, Some v), ql\<lparr>ql_nodes := (ql_nodes ql)[i := nd]\<rparr>)"
      "quicklistDecompressNodeForUse (ql_nodes ql ! i) = Some nd" "index_place sss start i off" "quicklist_rep (ql\<lparr>ql_nodes := (ql_nodes ql)[i := nd]\<rparr>) sss"
    using quicklistIndex_ok [OF rep, of start] start by auto
  define ql1 p e where "ql1 = ql\<lparr>ql_nodes := (ql_nodes ql)[i := nd]\<rparr>" and "p = nat (int (length (sss ! i)) + off)" and "e = nat (min n (- start))"
  have i: "i < length sss" "off = int p - int (length (sss ! i))" "p < length (sss ! i)" using x(3) start by (auto simp: index_place_def p_def)
  note g = del_range_index [OF rep u i(1) x(2)]
  have ss: "concat sss = concat (take i sss) @ sss ! i @ concat (drop (i + 1) sss)"
    using arg_cong [OF id_take_nth_drop [OF i(1)], of concat] by simp
  have k: "nat (int (length (concat sss)) + start) = length (concat (take i sss)) + p" "- start = int (length (sss ! i) - p + length (concat (drop (i + 1) sss)))"
    using x(3) start i(3) arg_cong [OF ss, of length] by (auto simp: index_place_def p_def)
  have e: "0 < e" "e \<le> length (sss ! i) - p + length (concat (drop (i + 1) sss))" using k(2) n start unfolding e_def by auto
  obtain ql' sss' where d: "del_range_loop garb ql1 i off e = Some ql'" "quicklist_rep ql' sss'"
      "concat sss' = concat (take i sss) @ take p (sss ! i) @ drop e (drop p (sss ! i) @ concat (drop (i + 1) sss))"
    using del_range_from_end [OF x(4) _ i e, of garb] g unfolding ql1_def by auto
  have "quicklistDelRange garb ql start n = Some (True, ql')"
    using x(1) n start d(1) by (auto simp: quicklistDelRange_def Let_def ql1_def e_def min_def)
  moreover have "drop e (drop p (sss ! i) @ concat (drop (i + 1) sss)) = drop (p + nat n) (sss ! i @ concat (drop (i + 1) sss))"
  proof (cases "n \<le> - start")
    case True
    then show ?thesis using i(3) by (simp add: e_def add.commute)
  next
    case False
    then show ?thesis using k(2) i(3) by (simp add: e_def nat_le_iff)
  qed
  ultimately show ?thesis using d(2,3) i(3) unfolding k(1) by (subst (1 2) ss) auto
qed

lemma del_range_front:
  assumes rep: "quicklist_rep ql sss" and u: "unflagged (ql_nodes ql)" and ne: "concat sss \<noteq> []" and n: "0 < n"
  shows "\<exists>ql' sss'. quicklistDelRange garb ql 0 n = Some (True, ql') \<and> quicklist_rep ql' sss' \<and> concat sss' = drop (nat n) (concat sss)"
proof -
  obtain i off zi v nd where x: "quicklistIndex ql 0 = Some (Some (i, off, Some zi, Some v), ql\<lparr>ql_nodes := (ql_nodes ql)[i := nd]\<rparr>)"
      "quicklistDecompressNodeForUse (ql_nodes ql ! i) = Some nd" "index_place sss 0 i off" "quicklist_rep (ql\<lparr>ql_nodes := (ql_nodes ql)[i := nd]\<rparr>) sss"
    using quicklistIndex_ok [OF rep, of 0] ne by (auto simp del: concat_eq_Nil_conv)
  have "int (length (concat (take i sss))) + off = 0" "0 \<le> off" "i < length sss" using x(3) by (simp_all add: index_place_def)
  then have "off = 0" "length (concat (take i sss)) = 0" "i < length sss" by linarith+
  moreover from this(2,3) rep_strings(2) [OF rep] have "i = 0" by (cases sss; cases i) auto
  ultimately have i: "i = 0" "off = 0" "0 < length sss" by auto
  define ql1 e where "ql1 = ql\<lparr>ql_nodes := (ql_nodes ql)[i := nd]\<rparr>" and "e = nat (min n (int (length (concat sss))))"
  have cnt: "ql_count ql = length (concat sss)" using rep by (simp add: quicklist_rep_def)
  note g = del_range_index [OF rep u _ x(2)]
  have "\<not> q_recompress (ql_nodes ql1 ! 0)" using g(1) i by (auto simp: inner_def ql1_def)
  moreover have "ql_nodes ql1 \<noteq> []" using i rep_strings(1) [OF rep] by (auto simp: ql1_def)
  moreover have "unflagged (drop 1 (ql_nodes ql1))" using g(2) i by (simp add: ql1_def)
  ultimately have "unflagged (drop 0 (ql_nodes ql1))" by (cases "ql_nodes ql1") (auto simp: unflagged_def)
  moreover have "e \<le> length (concat (drop 0 sss))" by (simp add: e_def nat_le_iff)
  ultimately obtain ql' sss' where d: "del_range_loop garb ql1 0 0 e = Some ql'" "quicklist_rep ql' sss'" "concat sss' = drop e (concat sss)"
    using del_range_from_start [OF x(4) [folded ql1_def], of 0 e garb] by auto
  have "quicklistDelRange garb ql 0 n = Some (True, ql')" using x(1) n d(1) cnt i by (auto simp: quicklistDelRange_def Let_def ql1_def e_def min_def)
  moreover have "drop e (concat sss) = drop (nat n) (concat sss)" by (auto simp: e_def min_def)
  ultimately show ?thesis using d(2,3) by auto
qed


lemma del_range_miscount:
  assumes rep: "quicklist_rep ql (ss # sss)" and u: "unflagged (ql_nodes ql)"
    and r: "0 < start" "start < length ss" "n < length ss" "length ss < start + n" "start + n \<le> length (concat (ss # sss))"
  shows "\<exists>ql'. quicklistDelRange garb ql (int start) (int n) = Some (True, ql') \<and> ql_count ql' = length (concat (ss # sss)) - n \<and>
    list_all2 node_rep (ql_nodes ql') (take start ss # sss) \<and> q_count (ql_nodes ql' ! 0) = length ss - n"
proof -
  note q = rep [unfolded quicklist_rep_def]
  obtain i off zi v nd where x: "quicklistIndex ql (int start) = Some (Some (i, off, Some zi, Some v), ql\<lparr>ql_nodes := (ql_nodes ql)[i := nd]\<rparr>)"
      "quicklistDecompressNodeForUse (ql_nodes ql ! i) = Some nd" "index_place (ss # sss) (int start) i off"
    using quicklistIndex_ok [OF rep, of "int start"] r by auto
  have "int start = int (length (concat (take i (ss # sss)))) + off" "0 \<le> off" using x(3) by (simp_all add: index_place_def)
  moreover have "i \<noteq> 0 \<Longrightarrow> length ss \<le> length (concat (take i (ss # sss)))" by (cases i) auto
  ultimately have i: "i = 0" "off = int start" using r(2) by (cases "i = 0"; simp)+
  obtain hd_nd nodes where nodes: "ql_nodes ql = hd_nd # nodes" "node_rep hd_nd ss" "list_all2 node_rep nodes sss"
    using q by (auto simp: list_all2_Cons2)
  have raw: "is_raw hd_nd" and cnt: "q_count hd_nd = length ss" "\<not> q_recompress hd_nd" "ql_count ql = length (concat (ss # sss))" "length ss < 65536"
    using q nodes(1) u by (auto simp: ends_raw_def unflagged_def)
  obtain zl where zl: "q_data hd_nd = QRaw zl" "zl_strings zl ss" "q_sz hd_nd = length zl" using raw_node [OF nodes(2) raw] by blast
  have "nd = hd_nd" using x(2) zl(1) i nodes(1) by (simp add: quicklistDecompressNodeForUse_def)
  then have ix: "quicklistIndex ql (int start) = Some (Some (0, int start, Some zi, Some v), ql)" using x(1) i nodes(1) by simp
  have fit: "q_fits ss" using nodes(2) by (simp add: node_rep_def)
  obtain zl' where z: "ziplistDeleteRange zl (int start) n = Some zl'" "zl_strings zl' (take start ss)"
    using ziplistDeleteRange_ok [OF zl(2) _ q_fits_zl [OF fit], of "int start" n] r by auto
  define nd' where "nd' = hd_nd\<lparr>q_data := QRaw zl', q_sz := length zl', q_count := length ss - n\<rparr>"
  define ql' where "ql' = ql\<lparr>ql_nodes := nd' # nodes, ql_count := ql_count ql - n\<rparr>"
  have "(int (length ss) - int n) mod 65536 = int (length ss - n)" using r(3) cnt(4) by simp
  then have "del_part garb ql 0 (int start) n = Some (False, ql')"
    using nodes(1) zl(1) z zl_strings_size(2) [OF z(2)] cnt r(3)
    by (simp add: del_part_def quicklistDecompressNodeForUse_def raw_zl_def quicklistNodeUpdateSz_def quicklistRecompressOnly_def Let_def nd'_def ql'_def)
  moreover have "del_range_loop garb ql' 1 0 0 = Some ql'" by (subst del_range_loop.simps) simp
  ultimately have loop: "del_range_loop garb ql 0 (int start) n = Some ql'"
    by (subst del_range_loop.simps) (use nodes(1) cnt(1) r in \<open>simp add: Let_def\<close>)
  have "\<not> int (ql_count ql) - int start < int n" using r(5) cnt(3) by simp
  then have "quicklistDelRange garb ql (int start) (int n) = Some (True, ql')"
    using ix loop r(1-4) cnt(3) unfolding quicklistDelRange_def Let_def by simp
  moreover have "node_rep nd' (take start ss)"
    using z(2) r(1,2) q_fits_range [OF fit, of start "length ss"] by (auto simp: nd'_def node_rep_def data_rep_def)
  ultimately show ?thesis using nodes(3) cnt(3) by (auto simp: ql'_def nd'_def)
qed

section \<open>Properties\<close>

text \<open>C16. Iterating over a list, from either end and to the last entry, returns every entry once and in order, in compressed nodes
  too, ends, and leaves a list of the same strings in the same nodes.\<close>

theorem quicklist_iteration:
  assumes "quicklist_rep ql sss" and "unflagged (ql_nodes ql)"
  shows "\<exists>ql'. quicklist_walk garb ql (quicklistGetIterator ql h) = Some (if h then concat sss else List.rev (concat sss), ql') \<and> quicklist_rep ql' sss"
  using walk_left [OF assms(1) unflagged_inner [OF assms(2)] iterator_left [OF assms(1)], of garb h] by blast

theorem quicklist_iteration_witness:
  "\<exists>ql ql'. quicklist_walk (\<lambda>i. 0) ql (quicklistGetIterator ql False) = Some ([[98], [97]], ql')"
proof -
  obtain ql sss where q: "quicklist_rep ql sss" "concat sss = [[97], [98]]" "unflagged (ql_nodes ql)" by (rule ql_example)
  show ?thesis using quicklist_iteration [OF q(1,3), of "\<lambda>i. 0" False] unfolding q(2) by auto
qed

text \<open>Building a list from a ziplist keeps its strings in order, numbers and strings alike, whatever the fill factor and the
  compression depth are.\<close>

theorem quicklistCreateFromZiplist_correct:
  assumes "zl_strings zl ss" and "list_all (\<lambda>s. length s \<le> 1073741824) ss"
  shows "\<exists>ql. quicklistCreateFromZiplist garb fill compress zl = Some ql \<and> quicklist_strings ql ss"
proof -
  obtain es where es: "zl_rep zl es" "map snd es = ss" using assms(1) unfolding zl_strings_def by blast
  have "ziplistIndex zl 0 = Some (if es = [] then None else Some (offs []))" using ziplistIndex_ok [OF es(1), of 0] by auto
  moreover have "\<forall>e \<in> set es. length (snd e) \<le> 1073741824" using assms(2) unfolding es(2) [symmetric] by (auto simp: list_all_iff)
  ultimately show ?thesis
    using append_values_ok [of zl "[]" es "quicklistNew fill compress" "[]" garb] es quicklistNew_strings
    by (simp add: quicklistCreateFromZiplist_def quicklistAppendValuesFromZiplist_def)
qed

theorem quicklistCreateFromZiplist_correct_witness:
  "\<exists>zl ql. zl_strings zl [lit ''name'', lit ''42''] \<and> quicklistCreateFromZiplist (\<lambda>i. 0) (- 2) 1 zl = Some ql \<and> quicklist_strings ql [lit ''name'', lit ''42'']"
proof -
  obtain zl es where es: "zl_rep zl es" "head_short es" "map snd es = [lit ''name'', lit ''42'']" by (rule zl_example)
  then have zl: "zl_strings zl [lit ''name'', lit ''42'']" unfolding zl_strings_def by (intro exI [of _ es] conjI)
  have "list_all (\<lambda>s. length s \<le> 1073741824) [lit ''name'', lit ''42'']" by (simp add: lit_def)
  from quicklistCreateFromZiplist_correct [OF zl this] zl show ?thesis by blast
qed

text \<open>C17. Deleting a range at the front, or from a place counted from the end, removes exactly these entries over as many nodes as
  they span, and keeps the list consistent; these are the ranges of the trimming command.\<close>

theorem quicklistDelRange_correct:
  assumes "quicklist_rep ql sss" and "unflagged (ql_nodes ql)" and "0 < n" and "start \<le> 0"
    and "concat sss \<noteq> []" and "- int (length (concat sss)) \<le> start"
  shows "\<exists>ql' sss'. quicklistDelRange garb ql start n = Some (True, ql') \<and> quicklist_rep ql' sss' \<and>
    concat sss' = (let k = (if start = 0 then 0 else nat (int (length (concat sss)) + start)) in take k (concat sss) @ drop (k + nat n) (concat sss))"
proof (cases "start = 0")
  case True
  then show ?thesis using del_range_front [OF assms(1,2,5,3), of garb] by simp
next
  case False
  then show ?thesis using del_range_back [OF assms(1,2,6) _ assms(3), of garb] assms(4) by (simp add: Let_def)
qed

theorem quicklistDelRange_correct_witness:
  "\<exists>ql ql' sss'. quicklistDelRange (\<lambda>i. 0) ql (- 1) 1 = Some (True, ql') \<and> quicklist_rep ql' sss' \<and> concat sss' = [[97]]"
proof -
  obtain ql sss where q: "quicklist_rep ql sss" "concat sss = [[97], [98]]" "unflagged (ql_nodes ql)" by (rule ql_example)
  have "\<exists>ql' sss'. quicklistDelRange (\<lambda>i. 0) ql (- 1) 1 = Some (True, ql') \<and> quicklist_rep ql' sss' \<and> concat sss' = [[97]]"
    using quicklistDelRange_correct [OF q(1,3), of 1 "- 1" "\<lambda>i. 0"] unfolding q(2) by (simp add: Let_def)
  then show ?thesis by blast
qed

text \<open>C40. A range that starts inside the first node and is shorter than this node but ends behind it is deleted wrongly: only the rest of the
  first node goes, the entries of the next node stay, and both counts are lowered by the whole range, so that the
  list has more entries than it counts.\<close>

theorem quicklistDelRange_miscount:
  assumes "quicklist_rep ql (ss # sss)" and "unflagged (ql_nodes ql)" and "0 < start" and "start < length ss" and "n < length ss"
    and "length ss < start + n" and "start + n \<le> length (concat (ss # sss))"
  shows "\<exists>ql'. quicklistDelRange garb ql (int start) (int n) = Some (True, ql') \<and> ql_count ql' = length (concat (ss # sss)) - n \<and>
    list_all2 node_rep (ql_nodes ql') (take start ss # sss) \<and> ql_count ql' < length (concat (take start ss # sss)) \<and>
    q_count (ql_nodes ql' ! 0) \<noteq> length (take start ss)"
  using del_range_miscount [OF assms, of garb] assms(3-7) by auto

lemma ql_nodes_example:
  obtains ql where "quicklist_rep ql [[[97], [98], [99]], [[100]]]" and "unflagged (ql_nodes ql)"
proof -
  have node: "\<exists>nd. node_rep nd ss \<and> is_raw nd \<and> \<not> q_recompress nd \<and> q_count nd = length ss" if ft: "q_fits ss" "ss \<noteq> []" for ss
  proof -
    obtain z where z: "zl_strings z []" using zl.empty_rep by blast
    obtain zl where zl: "zl_strings zl ss" using zl.push_all_rep [OF z, of ss] q_fits_zl [OF ft(1)] by auto
    then have "node_rep \<lparr>q_data = QRaw zl, q_sz = length zl, q_count = length ss, q_recompress = False\<rparr> ss"
      using ft by (auto simp: node_rep_def data_rep_def)
    then show ?thesis by (metis qnode.select_convs(1,3,4) is_raw_def)
  qed
  have f: "q_fits [[97], [98], [99]]" "q_fits [[100]]" by (simp_all add: q_fits_def)
  obtain nd1 where n1: "node_rep nd1 [[97], [98], [99]]" "is_raw nd1" "\<not> q_recompress nd1" "q_count nd1 = length [[97], [98], [99 :: 8 word]]"
    using node [OF f(1)] by auto
  obtain nd2 where n2: "node_rep nd2 [[100]]" "is_raw nd2" "\<not> q_recompress nd2" "q_count nd2 = length [[100 :: 8 word]]" using node [OF f(2)] by auto
  have u0: "unflagged (ql_nodes (quicklistNew 3 0))" by (simp add: quicklistNew_rep(2) unflagged_def)
  obtain q1 where q1: "quicklist_rep q1 [[[97], [98], [99]]]" "unflagged (ql_nodes q1)"
    using append_node_rep [OF quicklistNew_rep(1) u0 n1] by auto
  show ?thesis using append_node_rep [OF q1 n2] that by auto
qed

theorem quicklistDelRange_miscount_witness:
  "\<exists>ql ql'. quicklist_rep ql [[[97], [98], [99]], [[100]]] \<and> quicklistDelRange (\<lambda>i. 0) ql 2 2 = Some (True, ql') \<and> ql_count ql' = 2 \<and>
    list_all2 node_rep (ql_nodes ql') [[[97], [98]], [[100]]]"
proof -
  obtain ql where q: "quicklist_rep ql [[[97], [98], [99]], [[100]]]" "unflagged (ql_nodes ql)" by (rule ql_nodes_example)
  have "\<exists>ql'. quicklistDelRange (\<lambda>i. 0) ql 2 2 = Some (True, ql') \<and> ql_count ql' = 2 \<and> list_all2 node_rep (ql_nodes ql') [[[97], [98]], [[100]]]"
    using quicklistDelRange_miscount [OF q, of 2 2 "\<lambda>i. 0"] by auto
  then show ?thesis using q(1) by blast
qed

end
