(* ===== verification/Spec2Isabelle.thy ===== *)
theory Spec2Isabelle
  imports Profile Intset Endian Adlist DictIter DictScan Glob SdsText ZiplistSpec HashSpec DbSpec AofFlush QuicklistOps
begin

text \<open>
  Verification library of the leviathan repository.

  The repository is a C++ server framework (\<^verbatim>\<open>project/common\<close>, \<^verbatim>\<open>project/network\<close>) that carries a copy of
  the Redis 3.2 server for Windows (\<^verbatim>\<open>project/network/redis/redis-3.2/src\<close>). The C code of the framework
  (\<^verbatim>\<open>common/src/hash.c\<close>, \<^verbatim>\<open>common/src/comProfileutil.c\<close>) and the data structures on which the Redis server
  is built are modelled, up to the key space, the hash type and their commands, and with the way of a command
  from the network into the server and into the append only file; the other commands, the event loop and
  the replies are not.

  \<^bold>\<open>Conventions\<close> (theory \<open>Prelude\<close>). Memory objects are lists of cells, an indeterminate byte is
  \<open>None\<close>; linked nodes live in an explicit heap. Every function that can meet undefined behaviour of C (an access
  outside an object, to a freed node or to an indeterminate byte, an overflowing signed sum, a failed
  assertion) returns an \<open>option\<close> whose \<open>None\<close> is that outcome, so a lemma of the form \<open>f x = Some y\<close> says that the
  code runs without it. Unsigned integers wrap at their width where the code lets them. Random numbers,
  results of allocations where the code checks them, and array addresses are arguments. The host is
  little-endian. Loops are recursive functions with a termination proof; the loops that could run
  forever on malformed memory (the cascading update and the counting loop of the ziplist) are partial
  functions, and the lemmas show that they return on well-formed lists.

  \<^bold>\<open>Theories and sources\<close>
  \<^item> \<open>CHash\<close>: the string hash table of \<^verbatim>\<open>common/src/hash.c\<close> with its failing allocations and its string dump.
    Shown: a bucket invariant kept by all operations, lookup after add, which keys \<open>hash_empty\<close> forgets, and
    exactly when the dump overruns its buffer.
  \<^item> \<open>Profile\<close>: the INI reader and writer of \<^verbatim>\<open>common/src/comProfileutil.c\<close> as a state machine over files, the
    cached configuration and the home directory string. Shown: exactly which contents are read without undefined
    behaviour (a blank value behind an equals sign is not), write and read are inverse, the section cache is right in every reachable state, a value
    put is read back, and the double release of the home directory string.
  \<^item> \<open>Intset\<close>: \<^verbatim>\<open>intset.c\<close> at the level of bytes; adding, removing, searching refine sorted lists of integers,
    with the change of width. \<open>Endian\<close>: the byte swaps of \<^verbatim>\<open>endianconv.c\<close>.
  \<^item> \<open>Adlist\<close>: \<^verbatim>\<open>adlist.c\<close> on a heap of nodes; every operation refines one on lists, iterators survive the
    deletion of the node they returned, duplication is atomic.
  \<^item> \<open>Dict\<close>, \<open>DictType\<close>, \<open>DictIter\<close>, \<open>DictScan\<close>: \<^verbatim>\<open>dict.c\<close>. The invariant (\<open>dict_inv\<close>) covers both tables and the
    rehashing position. The interface \<open>dict_keys\<close> states what a key type owes to the table; it is interpreted for
    the key types of \<^verbatim>\<open>server.c\<close>, and adding, replacing, deleting and finding are proved in it once to
    refine finite maps. Safe iterators return every entry once although the client deletes; the cursor
    \<open>dictScan\<close> returns what stays in the table while it grows and shrinks, except at the start of a
    shrinking rehash, where a key can be missed.
  \<^item> \<open>Util\<close>, \<open>Glob\<close>: \<^verbatim>\<open>util.c\<close>. Number conversion is exact in both directions (\<open>ll2string\<close>, \<open>string2ll\<close>);
    \<open>stringmatch\<close> computes a reference semantics of patterns.
  \<^item> \<open>Sds\<close>, \<open>SdsText\<close>: \<^verbatim>\<open>sds.c\<close> with its five header types. The editing operations map a represented string
    (\<open>sds_rep\<close>) to a represented string (the formatted append for formats that do not end in a percent sign); splitting and joining, and quoting and parsing, are inverse.
  \<^item> \<open>Ziplist\<close>, \<open>ZiplistRep\<close>, \<open>ZiplistOps\<close>, \<open>ZiplistSpec\<close>: \<^verbatim>\<open>ziplist.c\<close>, cell by cell. \<open>zl_rep\<close> relates the allocation to
    a list of strings with the size of the length field in front of each. Insertion, deletion and merging with the
    cascading update, and all reading operations are proved on it; \<open>string_list\<close> is the interface for clients.
  \<^item> \<open>Robj\<close>: string objects of \<^verbatim>\<open>object.c\<close> and the dictionary types of \<^verbatim>\<open>server.c\<close> with object keys. The encoding
    (raw, embedded, integer) is invisible in every operation. \<open>TextDict\<close>: the interface
    \<open>text_keys\<close>, a dictionary whose keys are compared by the text they denote, as a finite map; \<open>ObjDict\<close>: its
    instances with object keys.
  \<^item> \<open>ZiplistShort\<close>, \<open>HashType\<close>, \<open>HashSpec\<close>: the hash type of \<^verbatim>\<open>t_hash.c\<close>, which keeps a mapping of fields to values in
    a ziplist and converts it to a dictionary when it grows. \<open>hash_rep\<close> relates an object in either encoding to
    the mapping; setting, deleting, counting, reading and listing are proved on it, the conversion in
    between included. The limit on the length of ziplist entries must be at most 240 bytes (the
    default is 64), so that no length field is ever widened; \<open>field_map\<close> is the interface for clients.
  \<^item> \<open>Db\<close>, \<open>DbSpec\<close>: the key space of \<^verbatim>\<open>db.c\<close>, the dictionary of keys and the table of expire times as one
    mapping from keys to values with an expire time (\<open>ks_map\<close>). Lookups with expiry, setting, renaming,
    deleting, expire times, random keys and flushing are proved on it; the invariant holds in every key
    space reached by them (\<open>ks_step\<close>). What the functions ask of the rest of the server (propagation,
    notification, watched keys) is a list of calls.
  \<^item> \<open>Request\<close>, \<open>RequestSafe\<close>, \<open>RequestSpec\<close>: the input side of \<^verbatim>\<open>networking.c\<close>. The query buffer is a list of bytes,
    running a command an argument with what the loop sees of it as the result. Shown: no input leads to undefined
    behaviour, and a stream of encoded commands (\<open>enc_cmds\<close>), cut by the network in any way (\<open>net_step\<close>), runs exactly these
    commands.
  \<^item> \<open>Aof\<close>, \<open>AofSpec\<close>, \<open>AofBuffer\<close>, \<open>AofFeed\<close>, \<open>AofFlush\<close>: \<^verbatim>\<open>aof.c\<close>. The text of a command is the same encoding; the loader
    reads back whole files and cuts off incomplete ones at the last complete command. The rewrite buffer is an
    instance of the interface \<open>byte_queue\<close>. \<open>AofFlush\<close> has the file, what of it is synced, and the outcome of
    the system calls (writing, truncating, syncing) as arguments; file and buffer together are all that was fed
    (\<open>disk_ok\<close>) in every run (\<open>aof_run\<close>) from the start of the server (\<open>initAof\<close>), from which persistence across a crash follows.
    With the policy \<open>always\<close> a flush leaves the whole file synced unless the sync fails, which the code does not notice,
    or is skipped while a child saves.
  \<^item> \<open>Lzf\<close>, \<open>LzfSpec\<close>: the compressor \<^verbatim>\<open>lzf_c.c\<close> and the decompressor \<^verbatim>\<open>lzf_d.c\<close>. The compressed form is a list of tokens
    (\<open>enc_toks\<close>); the decompressor computes what they stand for and is safe on every input, the
    compressor writes tokens that stand for its input whatever the uninitialised hash table holds.
  \<^item> \<open>Quicklist\<close>, \<open>QuicklistSpec\<close>, \<open>QuicklistOps\<close>: the list of ziplists \<^verbatim>\<open>quicklist.c\<close>, with nodes compressed by the compressor
    above. \<open>quicklist_rep\<close> gives the strings of each node and what keeps the ends uncompressed; the list is an instance of
    the interface \<open>deque\<close>, so that every run of pushes and pops is one of a plain list. Index, iteration in both
    directions, duplicating, loading and deleting ranges follow.  \<^bold>\<open>Bounds.\<close> Positions and lengths are limited where the code counts in \<open>int\<close>: patterns and formats to the
  largest \<open>int\<close>, sds strings to two to the power 62 bytes, ziplists to less than two to the power 32
  bytes with room for one insertion (\<open>zl_room\<close>), dictionaries to two to the power 30 entries when they
  grow. \<open>iterate\<close> in \<open>DictIter\<close> has fuel; one more than the number of entries is proved to be enough. The
  loops of \<open>Quicklist\<close> are proved to return. Values pushed to it have at most two to the power 30 bytes. Hashes
  are configured with at most 240 bytes for a string in a ziplist and two to the power 20 entries (\<open>conf_ok\<close>), which keeps insertion into a
  ziplist away from its overrun. Keys of dictionaries are shorter than two to the power 31 bytes, the length \<open>int\<close> can hold where they are compared. The
  sampling of random keys returns when twenty random numbers per requested entry are at hand.

  \<^bold>\<open>Not modelled.\<close> The rest of \<^verbatim>\<open>hash.c\<close>'s callers and the Windows branch of the profile functions (calls of
  the operating system); in Redis: the commands on strings, lists, sets and sorted sets, iteration over the key space and more
  than one database, reference counts and access times, the event loop, replies to
  clients, dumps and the rewriting of the append only file in a child process, replication, cluster, sentinel and scripting, which are input and output or
  depend on the whole server state; floating point conversion; the insertion into \<^verbatim>\<open>quicklist.c\<close> at an entry, which splits and merges nodes, \<^verbatim>\<open>zipmap.c\<close> and the skip list of
  \<^verbatim>\<open>t_zset.c\<close>, which are self-contained and could follow; the Windows portability
  layer, hiredis and the C++ classes of the framework.
\<close>

end
